(* ===== verification/Prelude.thy ===== *)
theory Prelude
  imports Main "HOL-Library.Word" "HOL-Library.Monad_Syntax"
begin

text \<open>
  Shared vocabulary of the development: names for the machine integers of the C and
  C++ sources, the lists of bytes they are stored as, and the generic lemmas on lists,
  options and words the component theories use.

  A DCHECK of the C++ sources is a partial operation: the model of a member function
  with a DCHECK returns an option, and None stands for the run in which the check fires.
\<close>

unbundle bit_operations_syntax

type_synonym byte = "8 word"
type_synonym uint8 = "8 word"
type_synonym uint16 = "16 word"
type_synonym uint32 = "32 word"
type_synonym uint64 = "64 word"

named_theorems bytes_simps "conversions between words and byte lists"
named_theorems buf_simps "what the operations of a buffer do to its contents"

definition dcheck :: "bool \<Rightarrow> unit option" where
  "dcheck b = (if b then Some () else None)"

lemma dcheck_simps [simp]:
  "dcheck True = Some ()" "dcheck False = None"
  "(dcheck b = Some u) = b" "(dcheck b = None) = (\<not> b)"
  by (auto simp: dcheck_def)

lemma bind_dcheck_eq_Some [simp]:
  "(dcheck b \<bind> f = Some x) = (b \<and> f () = Some x)"
  by (cases b) auto

section \<open>Fallible operations\<close>

definition bindE :: "'e + 'a \<Rightarrow> ('a \<Rightarrow> 'e + 'b) \<Rightarrow> 'e + 'b" where
  "bindE m f = (case m of Inl e \<Rightarrow> Inl e | Inr a \<Rightarrow> f a)"

lemma bindE_simps [simp]: "bindE (Inl e) f = Inl e" "bindE (Inr a) f = f a"
  by (simp_all add: bindE_def)

lemma bindE_Inr_iff: "bindE m f = Inr b \<longleftrightarrow> (\<exists>a. m = Inr a \<and> f a = Inr b)"
  by (cases m) auto

lemma bindE_Inl_iff: "bindE m f = Inl e \<longleftrightarrow> m = Inl e \<or> (\<exists>a. m = Inr a \<and> f a = Inl e)"
  by (cases m) auto

section \<open>Segments of a list\<close>

definition seg :: "'a list \<Rightarrow> nat \<Rightarrow> nat \<Rightarrow> 'a list" where
  "seg xs i j = take (j - i) (drop i xs)"

definition overwrite :: "'a list \<Rightarrow> nat \<Rightarrow> 'a list \<Rightarrow> 'a list" where
  "overwrite xs i ys = take i xs @ ys @ drop (i + length ys) xs"

lemma length_seg [simp]: "j \<le> length xs \<Longrightarrow> length (seg xs i j) = j - i"
  by (simp add: seg_def)

lemma seg_empty [simp]: "j \<le> i \<Longrightarrow> seg xs i j = []"
  by (simp add: seg_def)

lemma length_overwrite [simp]:
  "i + length ys \<le> length xs \<Longrightarrow> length (overwrite xs i ys) = length xs"
  by (simp add: overwrite_def)

lemma overwrite_Nil [simp]: "overwrite xs i [] = xs"
  by (simp add: overwrite_def)

lemma seg_overwrite_same:
  "i + length ys \<le> length xs \<Longrightarrow> seg (overwrite xs i ys) i (i + length ys) = ys"
  by (simp add: seg_def overwrite_def)

lemma seg_alt: "seg xs i j = drop i (take j xs)"
  by (simp add: seg_def drop_take)

lemma seg_overwrite_before:
  "i + length ys \<le> length xs \<Longrightarrow> k \<le> i \<Longrightarrow> seg (overwrite xs i ys) j k = seg xs j k"
  by (simp add: seg_alt overwrite_def)

lemma seg_overwrite_after:
  "i + length ys \<le> length xs \<Longrightarrow> i + length ys \<le> j \<Longrightarrow> seg (overwrite xs i ys) j k = seg xs j k"
  by (simp add: seg_def overwrite_def)

lemma seg_append_seg:
  assumes "i \<le> j" and "j \<le> k"
  shows "seg xs i j @ seg xs j k = seg xs i k"
proof -
  have "take (j - i) (seg xs i k) = seg xs i j"
    using assms by (simp add: seg_def min_def)
  moreover have "drop (j - i) (seg xs i k) = seg xs j k"
    using assms by (simp add: seg_def drop_take)
  ultimately show ?thesis by (metis append_take_drop_id)
qed

lemma drop_seg: "drop n (seg xs i j) = seg xs (i + n) j"
  by (simp add: seg_def drop_take add.commute)

lemma take_seg: "i + n \<le> j \<Longrightarrow> take n (seg xs i j) = seg xs i (i + n)"
  by (simp add: seg_def min_def)

lemma take_drop_join: "j = i + n \<Longrightarrow> take n (drop i xs) @ drop j xs = drop i xs"
  by (metis add.commute append_take_drop_id drop_drop)

section \<open>Words and byte lists\<close>

definition word_to_le :: "nat \<Rightarrow> 'a::len word \<Rightarrow> byte list" where
  "word_to_le n w = map (\<lambda>i. ucast (drop_bit (8 * i) w)) [0..<n]"

primrec le_to_word :: "byte list \<Rightarrow> 'a::len word" where
  "le_to_word [] = 0"
| "le_to_word (b # bs) = ucast b OR push_bit 8 (le_to_word bs)"

definition word_to_be :: "nat \<Rightarrow> 'a::len word \<Rightarrow> byte list" where
  "word_to_be n w = rev (word_to_le n w)"

definition be_to_word :: "byte list \<Rightarrow> 'a::len word" where
  "be_to_word bs = le_to_word (rev bs)"

lemma length_word_to_le [simp]: "length (word_to_le n w) = n"
  by (simp add: word_to_le_def)

lemma length_word_to_be [simp]: "length (word_to_be n w) = n"
  by (simp add: word_to_be_def)

lemma bit_le_to_word:
  "bit (le_to_word bs :: 'a::len word) i \<longleftrightarrow>
     i < LENGTH('a) \<and> i div 8 < length bs \<and> bit (bs ! (i div 8)) (i mod 8)"
proof (induction bs arbitrary: i)
  case Nil
  then show ?case by simp
next
  case (Cons b bs)
  show ?case
  proof (cases "i < 8")
    case True
    then show ?thesis
      by (auto simp: bit_simps Cons.IH)
  next
    case False
    then have "i div 8 = Suc ((i - 8) div 8)" and "(i - 8) mod 8 = i mod 8"
      by (auto simp: le_div_geq le_mod_geq)
    with False show ?thesis
      by (auto simp: bit_simps Cons.IH dest: bit_imp_le_length)
  qed
qed

lemma le_to_word_word_to_le:
  assumes "8 * n = LENGTH('a::len)"
  shows "le_to_word (word_to_le n (w :: 'a word)) = w"
proof (rule bit_word_eqI)
  fix i assume "i < LENGTH('a)"
  then have "i div 8 < n" using assms by auto
  then show "bit (le_to_word (word_to_le n w) :: 'a word) i = bit w i"
    using \<open>i < LENGTH('a)\<close> by (simp add: bit_le_to_word word_to_le_def bit_simps)
qed

lemma word_to_le_le_to_word:
  assumes "length bs = n" and "8 * n \<le> LENGTH('a::len)"
  shows "word_to_le n (le_to_word bs :: 'a word) = bs"
proof (rule nth_equalityI)
  show "length (word_to_le n (le_to_word bs :: 'a word)) = length bs"
    using assms by simp
next
  fix k assume "k < length (word_to_le n (le_to_word bs :: 'a word))"
  then have k: "k < n" by simp
  show "word_to_le n (le_to_word bs :: 'a word) ! k = bs ! k"
  proof (rule bit_word_eqI)
    fix j assume "j < LENGTH(8)"
    then have "j < 8" by simp
    then have "8 * k + j < LENGTH('a)" using k assms by simp
    moreover have "(8 * k + j) div 8 = k" "(8 * k + j) mod 8 = j" using \<open>j < 8\<close> by auto
    ultimately show "bit (word_to_le n (le_to_word bs :: 'a word) ! k) j = bit (bs ! k) j"
      using k assms \<open>j < 8\<close> by (simp add: word_to_le_def bit_simps bit_le_to_word)
  qed
qed

lemma be_to_word_word_to_be [bytes_simps]:
  "8 * n = LENGTH('a::len) \<Longrightarrow> be_to_word (word_to_be n (w :: 'a word)) = w"
  by (simp add: be_to_word_def word_to_be_def le_to_word_word_to_le)

lemma word_to_be_be_to_word:
  "length bs = n \<Longrightarrow> 8 * n \<le> LENGTH('a::len) \<Longrightarrow> word_to_be n (be_to_word bs :: 'a word) = bs"
  by (simp add: be_to_word_def word_to_be_def word_to_le_le_to_word)

section \<open>The shift-and-mask idioms of the sources\<close>

text \<open>
  The packet classes and the byte stream store an integer most significant byte first with
  ch[i] = (x >> k) & 0xFF and read it back with shifts and ors.
\<close>

definition be32_bytes :: "uint32 \<Rightarrow> byte list" where
  "be32_bytes x =
     [ucast (drop_bit 24 x AND 0xFF), ucast (drop_bit 16 x AND 0xFF),
      ucast (drop_bit 8 x AND 0xFF), ucast (x AND 0xFF)]"

definition be16_bytes :: "uint16 \<Rightarrow> byte list" where
  "be16_bytes x = [ucast (drop_bit 8 x AND 0xFF), ucast (x AND 0xFF)]"

definition be32_value :: "byte \<Rightarrow> byte \<Rightarrow> byte \<Rightarrow> byte \<Rightarrow> uint32" where
  "be32_value a b c d =
     push_bit 24 (ucast a AND 0xFF) OR push_bit 16 (ucast b AND 0xFF) OR
     push_bit 8 (ucast c AND 0xFF) OR (ucast d AND 0xFF)"

definition be16_value :: "byte \<Rightarrow> byte \<Rightarrow> uint16" where
  "be16_value a b = push_bit 8 (ucast a) OR ucast b"

lemma ff_mask: "(0xFF :: 'a::len word) = mask 8"
  by (simp add: mask_eq_exp_minus_1)

lemma be32_bytes_eq: "be32_bytes x = word_to_be 4 x"
proof -
  have "ucast (y AND 0xFF) = (ucast y :: byte)" for y :: uint32
    by (rule bit_word_eqI) (simp add: ff_mask bit_simps)
  then show ?thesis
    by (simp add: be32_bytes_def word_to_be_def word_to_le_def upt_rec [of _ 4] numeral_eq_Suc)
qed

lemma be16_bytes_eq: "be16_bytes x = word_to_be 2 x"
proof -
  have "ucast (y AND 0xFF) = (ucast y :: byte)" for y :: uint16
    by (rule bit_word_eqI) (simp add: ff_mask bit_simps)
  then show ?thesis
    by (simp add: be16_bytes_def word_to_be_def word_to_le_def upt_rec [of _ 2] numeral_eq_Suc)
qed

lemma byte_and_ff: "ucast (a :: byte) AND (0xFF :: uint32) = ucast a"
  by (rule bit_word_eqI) (auto simp: ff_mask bit_simps dest: bit_imp_le_length)

lemma be32_value_eq: "be32_value a b c d = be_to_word [a, b, c, d]"
  by (simp add: be32_value_def be_to_word_def byte_and_ff push_bit_or push_bit_push_bit
        or.assoc or.left_commute or.commute)

lemma be16_value_eq: "be16_value a b = be_to_word [a, b]"
  by (simp add: be16_value_def be_to_word_def or.commute)

lemma be_bytes_value [bytes_simps]:
  "be_to_word (be32_bytes x) = x" "be_to_word (be16_bytes y) = y"
  by (simp_all add: be32_bytes_eq be16_bytes_eq be_to_word_word_to_be)

lemma be_value_bytes [bytes_simps]:
  "length bs = 4 \<Longrightarrow> be32_bytes (be_to_word bs) = bs"
  "length cs = 2 \<Longrightarrow> be16_bytes (be_to_word cs) = cs"
  by (simp_all add: be32_bytes_eq be16_bytes_eq word_to_be_be_to_word)

lemma take_at_conv:
  "i + 2 \<le> length bs \<Longrightarrow> take 2 (drop i bs) = [bs ! i, bs ! (i + 1)]"
  "i + 4 \<le> length bs \<Longrightarrow>
     take 4 (drop i bs) = [bs ! i, bs ! (i + 1), bs ! (i + 2), bs ! (i + 3)]"
  by (rule nth_equalityI; auto simp: less_Suc_eq numeral_eq_Suc nth_Cons' not_less)+

lemma be32_value_at:
  assumes "i + 4 \<le> length bs"
  shows "be32_value (bs ! i) (bs ! (i + 1)) (bs ! (i + 2)) (bs ! (i + 3)) = be_to_word (take 4 (drop i bs))"
  using assms by (simp add: be32_value_eq take_at_conv)

lemma be16_value_at:
  assumes "i + 2 \<le> length bs"
  shows "be16_value (bs ! i) (bs ! (i + 1)) = be_to_word (take 2 (drop i bs))"
  using assms by (simp add: be16_value_eq take_at_conv)

lemma length_be_bytes [simp]: "length (be32_bytes x) = 4" "length (be16_bytes y) = 2"
  by (simp_all add: be32_bytes_def be16_bytes_def)

lemma unat_shr: "unat (drop_bit n w) = unat w div 2 ^ n"
  unfolding unat_drop_bit_eq by (rule drop_bit_eq_div)

lemma unat_plus_one_le: "unat (w + 1) \<le> unat w + 1"
  by (simp add: unat_word_ariths(1))

lemma unat_plus_one: "w + 1 \<noteq> 0 \<Longrightarrow> unat (w + 1) = unat w + 1"
  by (metis Suc_eq_plus1 add.commute unatSuc)

end
