(* ===== verification/ByteOrder.thy ===== *)
theory ByteOrder
  imports Prelude
begin

text \<open>
  Byte order: base/sys_byteorder.h. The host is little endian (ARCH_CPU_LITTLE_ENDIAN), so
  memcpy of an integer into a buffer stores its least significant byte first. The theory
  shows that ByteSwap reverses the bytes of a word and that the HostToNet functions followed
  by such a copy produce the big-endian bytes of the value.
\<close>

section \<open>Definitions\<close>

definition ByteSwap16 :: "uint16 \<Rightarrow> uint16" where
  "ByteSwap16 x = push_bit 8 (x AND 0x00ff) OR drop_bit 8 (x AND 0xff00)"

definition ByteSwap32 :: "uint32 \<Rightarrow> uint32" where
  "ByteSwap32 x =
     push_bit 24 (x AND 0x000000ff) OR push_bit 8 (x AND 0x0000ff00) OR
     drop_bit 8 (x AND 0x00ff0000) OR drop_bit 24 (x AND 0xff000000)"

definition ByteSwap64 :: "uint64 \<Rightarrow> uint64" where
  "ByteSwap64 x =
     push_bit 56 (x AND 0x00000000000000ff) OR
     push_bit 40 (x AND 0x000000000000ff00) OR
     push_bit 24 (x AND 0x0000000000ff0000) OR
     push_bit 8 (x AND 0x00000000ff000000) OR
     drop_bit 8 (x AND 0x000000ff00000000) OR
     drop_bit 24 (x AND 0x0000ff0000000000) OR
     drop_bit 40 (x AND 0x00ff000000000000) OR
     drop_bit 56 (x AND 0xff00000000000000)"

definition ByteSwapToLE16 :: "uint16 \<Rightarrow> uint16" where "ByteSwapToLE16 x = x"
definition ByteSwapToLE32 :: "uint32 \<Rightarrow> uint32" where "ByteSwapToLE32 x = x"
definition ByteSwapToLE64 :: "uint64 \<Rightarrow> uint64" where "ByteSwapToLE64 x = x"

definition NetToHost16 :: "uint16 \<Rightarrow> uint16" where "NetToHost16 x = ByteSwap16 x"
definition NetToHost32 :: "uint32 \<Rightarrow> uint32" where "NetToHost32 x = ByteSwap32 x"
definition NetToHost64 :: "uint64 \<Rightarrow> uint64" where "NetToHost64 x = ByteSwap64 x"

definition HostToNet16 :: "uint16 \<Rightarrow> uint16" where "HostToNet16 x = ByteSwap16 x"
definition HostToNet32 :: "uint32 \<Rightarrow> uint32" where "HostToNet32 x = ByteSwap32 x"
definition HostToNet64 :: "uint64 \<Rightarrow> uint64" where "HostToNet64 x = ByteSwap64 x"

section \<open>ByteSwap reverses the bytes\<close>

text \<open>
  The masks of the source are shifted bytes; a bit index is 8 q + r with r < 8, and for each
  of the finitely many q both sides name the same bit of the argument.
\<close>

lemma byte_masks16:
  "(0x00ff :: uint16) = push_bit 0 (mask 8)" "(0xff00 :: uint16) = push_bit 8 (mask 8)"
  by (simp_all add: mask_eq_exp_minus_1 push_bit_eq_mult)

lemma byte_masks32:
  "(0x000000ff :: uint32) = push_bit 0 (mask 8)" "(0x0000ff00 :: uint32) = push_bit 8 (mask 8)"
  "(0x00ff0000 :: uint32) = push_bit 16 (mask 8)" "(0xff000000 :: uint32) = push_bit 24 (mask 8)"
  by (simp_all add: mask_eq_exp_minus_1 push_bit_eq_mult)

lemma byte_masks64:
  "(0x00000000000000ff :: uint64) = push_bit 0 (mask 8)"
  "(0x000000000000ff00 :: uint64) = push_bit 8 (mask 8)"
  "(0x0000000000ff0000 :: uint64) = push_bit 16 (mask 8)"
  "(0x00000000ff000000 :: uint64) = push_bit 24 (mask 8)"
  "(0x000000ff00000000 :: uint64) = push_bit 32 (mask 8)"
  "(0x0000ff0000000000 :: uint64) = push_bit 40 (mask 8)"
  "(0x00ff000000000000 :: uint64) = push_bit 48 (mask 8)"
  "(0xff00000000000000 :: uint64) = push_bit 56 (mask 8)"
  by (simp_all add: mask_eq_exp_minus_1 push_bit_eq_mult)

lemma bit_index_split:
  assumes "i < 8 * n"
  obtains q r :: nat where "i = 8 * q + r" "q < n" "r < 8"
proof
  show "i = 8 * (i div 8) + i mod 8" by simp
qed (use assms in auto)

lemma bit_be_to_word_word_to_le:
  assumes "q < n" and "r < 8" and "8 * n = LENGTH('a::len)"
  shows "bit (be_to_word (word_to_le n (x :: 'a word)) :: 'a word) (8 * q + r) = bit x (8 * (n - Suc q) + r)"
  using assms
  by (simp add: be_to_word_def bit_le_to_word rev_nth word_to_le_def bit_simps)

lemma ByteSwap16_eq: "ByteSwap16 x = be_to_word (word_to_le 2 x)"
proof (rule bit_word_eqI)
  fix i assume "i < LENGTH(16)"
  then obtain q r where "i = 8 * q + r" "q < 2" "r < 8" by (auto intro: bit_index_split [of i 2])
  moreover from \<open>q < 2\<close> have "q = 0 \<or> q = 1" by auto
  moreover have "bit (be_to_word (word_to_le 2 x) :: uint16) (8 * q + r) = bit x (8 * (2 - Suc q) + r)"
    using \<open>q < 2\<close> \<open>r < 8\<close> by (intro bit_be_to_word_word_to_le) simp_all
  ultimately show "bit (ByteSwap16 x) i = bit (be_to_word (word_to_le 2 x) :: uint16) i"
    unfolding ByteSwap16_def byte_masks16 by (elim disjE) (simp_all add: bit_simps)
qed

lemma ByteSwap32_eq: "ByteSwap32 x = be_to_word (word_to_le 4 x)"
proof (rule bit_word_eqI)
  fix i assume "i < LENGTH(32)"
  then obtain q r where "i = 8 * q + r" "q < 4" "r < 8" by (auto intro: bit_index_split [of i 4])
  moreover from \<open>q < 4\<close> have "q = 0 \<or> q = 1 \<or> q = 2 \<or> q = 3" by auto
  moreover have "bit (be_to_word (word_to_le 4 x) :: uint32) (8 * q + r) = bit x (8 * (4 - Suc q) + r)"
    using \<open>q < 4\<close> \<open>r < 8\<close> by (intro bit_be_to_word_word_to_le) simp_all
  ultimately show "bit (ByteSwap32 x) i = bit (be_to_word (word_to_le 4 x) :: uint32) i"
    unfolding ByteSwap32_def byte_masks32 by (elim disjE) (simp_all add: bit_simps)
qed

lemma ByteSwap64_eq: "ByteSwap64 x = be_to_word (word_to_le 8 x)"
proof (rule bit_word_eqI)
  fix i assume "i < LENGTH(64)"
  then obtain q r where "i = 8 * q + r" "q < 8" "r < 8" by (auto intro: bit_index_split [of i 8])
  moreover from \<open>q < 8\<close>
  have "q = 0 \<or> q = 1 \<or> q = 2 \<or> q = 3 \<or> q = 4 \<or> q = 5 \<or> q = 6 \<or> q = 7" by auto
  moreover have "bit (be_to_word (word_to_le 8 x) :: uint64) (8 * q + r) = bit x (8 * (8 - Suc q) + r)"
    using \<open>q < 8\<close> \<open>r < 8\<close> by (intro bit_be_to_word_word_to_le) simp_all
  ultimately show "bit (ByteSwap64 x) i = bit (be_to_word (word_to_le 8 x) :: uint64) i"
    unfolding ByteSwap64_def byte_masks64 by (elim disjE) (simp_all add: bit_simps)
qed

lemmas ByteSwap_eq = ByteSwap16_eq ByteSwap32_eq ByteSwap64_eq

text \<open>Storing a swapped word little endian stores the word big endian, and back.\<close>

lemma be_le_swap:
  assumes "8 * n = LENGTH('a::len)"
  shows "word_to_le n (be_to_word (word_to_le n (x :: 'a word)) :: 'a word) = word_to_be n x"
  using assms by (simp add: be_to_word_def word_to_be_def word_to_le_le_to_word)

lemma HostToNet_bytes [bytes_simps]:
  "word_to_le 2 (HostToNet16 a) = word_to_be 2 a"
  "word_to_le 4 (HostToNet32 b) = word_to_be 4 b"
  "word_to_le 8 (HostToNet64 c) = word_to_be 8 c"
  by (simp_all add: HostToNet16_def HostToNet32_def HostToNet64_def ByteSwap_eq be_le_swap)

lemma NetToHost_bytes [bytes_simps]:
  "length bs = 2 \<Longrightarrow> NetToHost16 (le_to_word bs) = be_to_word bs"
  "length bs = 4 \<Longrightarrow> NetToHost32 (le_to_word bs) = be_to_word bs"
  "length bs = 8 \<Longrightarrow> NetToHost64 (le_to_word bs) = be_to_word bs"
  by (simp_all add: NetToHost16_def NetToHost32_def NetToHost64_def ByteSwap_eq
        word_to_le_le_to_word)

lemma ByteSwapToLE_bytes [bytes_simps]:
  "ByteSwapToLE16 a = a" "ByteSwapToLE32 b = b" "ByteSwapToLE64 c = c"
  by (simp_all add: ByteSwapToLE16_def ByteSwapToLE32_def ByteSwapToLE64_def)

text \<open>
  The three ByteSwap functions are involutions, so NetToHost undoes HostToNet at every width.
\<close>

theorem NetToHost_HostToNet:
  "NetToHost16 (HostToNet16 a) = a \<and> NetToHost32 (HostToNet32 b) = b \<and>
   NetToHost64 (HostToNet64 c) = c"
proof -
  have "NetToHost16 (HostToNet16 a) = NetToHost16 (le_to_word (word_to_le 2 (HostToNet16 a)))"
    by (simp add: le_to_word_word_to_le)
  moreover have "NetToHost32 (HostToNet32 b) = NetToHost32 (le_to_word (word_to_le 4 (HostToNet32 b)))"
    by (simp add: le_to_word_word_to_le)
  moreover have "NetToHost64 (HostToNet64 c) = NetToHost64 (le_to_word (word_to_le 8 (HostToNet64 c)))"
    by (simp add: le_to_word_word_to_le)
  ultimately show ?thesis by (simp add: bytes_simps)
qed

end
