(* ===== verification/IOBuffer.thy ===== *)
theory IOBuffer
  imports ByteOrder
begin

text \<open>
  The network buffer of net/base/io_buffer.h and io_buffer.cc: a byte vector with a reader and
  a writer index. Between the two indices lie the readable bytes, the content of the buffer.

  Sizes and indices are size_t in the source and nat here: the invariant keeps
  reader_index <= writer_index <= buffer.size(), so no difference of the source wraps, and
  every subtraction that could is guarded by a DCHECK (None in the model). A pointer into the
  buffer is its offset from Begin(). The system call readv of ReadFd is a parameter: from the
  lengths of the two io vectors it gives an errno or the bytes it stored.
\<close>

section \<open>State and operations\<close>

record IOBuffer =
  buffer :: "byte list"
  reader_index :: nat
  writer_index :: nat

definition kCheapPrepend :: nat where "kCheapPrepend = 8"
definition kInitialSize :: nat where "kInitialSize = 1024"

definition new_IOBuffer :: "nat \<Rightarrow> IOBuffer" where
  "new_IOBuffer initial_size =
     \<lparr>buffer = replicate (kCheapPrepend + initial_size) 0,
      reader_index = kCheapPrepend, writer_index = kCheapPrepend\<rparr>"

definition Swap :: "IOBuffer \<Rightarrow> IOBuffer \<Rightarrow> IOBuffer \<times> IOBuffer" where
  "Swap this rhs = (rhs, this)"

definition ReadableBytes :: "IOBuffer \<Rightarrow> nat" where
  "ReadableBytes b = writer_index b - reader_index b"

definition WritableBytes :: "IOBuffer \<Rightarrow> nat" where
  "WritableBytes b = length (buffer b) - writer_index b"

definition PrependableBytes :: "IOBuffer \<Rightarrow> nat" where
  "PrependableBytes b = reader_index b"

text \<open>The readable bytes: what Peek() points at, up to BeginWrite().\<close>

definition content :: "IOBuffer \<Rightarrow> byte list" where
  "content b = seg (buffer b) (reader_index b) (writer_index b)"

definition kCRLF :: "byte list" where "kCRLF = [13, 10]"

text \<open>std::search for the two bytes of kCRLF, and memchr for a newline.\<close>

fun search_crlf :: "byte list \<Rightarrow> nat option" where
  "search_crlf (a # b # xs) =
     (if [a, b] = kCRLF then Some 0 else map_option Suc (search_crlf (b # xs)))"
| "search_crlf xs = None"

fun memchr :: "byte \<Rightarrow> byte list \<Rightarrow> nat option" where
  "memchr c [] = None"
| "memchr c (x # xs) = (if x = c then Some 0 else map_option Suc (memchr c xs))"

definition FindCRLF :: "IOBuffer \<Rightarrow> nat option" where
  "FindCRLF b = map_option (\<lambda>i. reader_index b + i) (search_crlf (content b))"

definition FindCRLF_from :: "IOBuffer \<Rightarrow> nat \<Rightarrow> nat option option" where
  "FindCRLF_from b start = do {
     dcheck (reader_index b \<le> start);
     dcheck (start \<le> writer_index b);
     Some (map_option (\<lambda>i. start + i) (search_crlf (seg (buffer b) start (writer_index b))))
   }"

definition FindEOL :: "IOBuffer \<Rightarrow> nat option" where
  "FindEOL b = map_option (\<lambda>i. reader_index b + i) (memchr 10 (content b))"

definition FindEOL_from :: "IOBuffer \<Rightarrow> nat \<Rightarrow> nat option option" where
  "FindEOL_from b start = do {
     dcheck (reader_index b \<le> start);
     dcheck (start \<le> writer_index b);
     Some (map_option (\<lambda>i. start + i) (memchr 10 (seg (buffer b) start (writer_index b))))
   }"

definition RetrieveAll :: "IOBuffer \<Rightarrow> IOBuffer" where
  "RetrieveAll b = b\<lparr>reader_index := kCheapPrepend, writer_index := kCheapPrepend\<rparr>"

definition Retrieve :: "IOBuffer \<Rightarrow> nat \<Rightarrow> IOBuffer option" where
  "Retrieve b len = do {
     dcheck (len \<le> ReadableBytes b);
     Some (if len < ReadableBytes b then b\<lparr>reader_index := reader_index b + len\<rparr>
           else RetrieveAll b)
   }"

definition RetrieveUntil :: "IOBuffer \<Rightarrow> nat \<Rightarrow> IOBuffer option" where
  "RetrieveUntil b e = do {
     dcheck (reader_index b \<le> e);
     dcheck (e \<le> writer_index b);
     Retrieve b (e - reader_index b)
   }"

definition RetrieveInt64 :: "IOBuffer \<Rightarrow> IOBuffer option" where "RetrieveInt64 b = Retrieve b 8"
definition RetrieveInt32 :: "IOBuffer \<Rightarrow> IOBuffer option" where "RetrieveInt32 b = Retrieve b 4"
definition RetrieveInt16 :: "IOBuffer \<Rightarrow> IOBuffer option" where "RetrieveInt16 b = Retrieve b 2"
definition RetrieveInt8 :: "IOBuffer \<Rightarrow> IOBuffer option" where "RetrieveInt8 b = Retrieve b 1"

definition RetrieveAsString :: "IOBuffer \<Rightarrow> nat \<Rightarrow> (byte list \<times> IOBuffer) option" where
  "RetrieveAsString b len = do {
     dcheck (len \<le> ReadableBytes b);
     b' \<leftarrow> Retrieve b len;
     Some (take len (content b), b')
   }"

definition RetrieveAllAsString :: "IOBuffer \<Rightarrow> (byte list \<times> IOBuffer) option" where
  "RetrieveAllAsString b = RetrieveAsString b (ReadableBytes b)"

definition ToStringPiece :: "IOBuffer \<Rightarrow> byte list" where
  "ToStringPiece b = content b"

text \<open>
  vector::resize, and MakeSpace: either the vector grows, or the readable bytes move down to
  kCheapPrepend (std::copy towards lower addresses).
\<close>

definition resize :: "byte list \<Rightarrow> nat \<Rightarrow> byte list" where
  "resize xs n = take n xs @ replicate (n - length xs) 0"

definition MakeSpace :: "IOBuffer \<Rightarrow> nat \<Rightarrow> IOBuffer option" where
  "MakeSpace b len =
     (if WritableBytes b + PrependableBytes b < len + kCheapPrepend
      then Some (b\<lparr>buffer := resize (buffer b) (writer_index b + len)\<rparr>)
      else do {
        dcheck (kCheapPrepend < reader_index b);
        let readable = ReadableBytes b;
        let b' = b\<lparr>buffer := overwrite (buffer b) kCheapPrepend (content b),
                   reader_index := kCheapPrepend,
                   writer_index := kCheapPrepend + readable\<rparr>;
        dcheck (readable = ReadableBytes b');
        Some b'
      })"

definition EnsureWritableBytes :: "IOBuffer \<Rightarrow> nat \<Rightarrow> IOBuffer option" where
  "EnsureWritableBytes b len = do {
     b' \<leftarrow> (if WritableBytes b < len then MakeSpace b len else Some b);
     dcheck (len \<le> WritableBytes b');
     Some b'
   }"

definition HasWritten :: "IOBuffer \<Rightarrow> nat \<Rightarrow> IOBuffer option" where
  "HasWritten b len = do {
     dcheck (len \<le> WritableBytes b);
     Some (b\<lparr>writer_index := writer_index b + len\<rparr>)
   }"

definition Unwrite :: "IOBuffer \<Rightarrow> nat \<Rightarrow> IOBuffer option" where
  "Unwrite b len = do {
     dcheck (len \<le> ReadableBytes b);
     Some (b\<lparr>writer_index := writer_index b - len\<rparr>)
   }"

definition Write :: "IOBuffer \<Rightarrow> byte list \<Rightarrow> IOBuffer option" where
  "Write b data = do {
     b' \<leftarrow> EnsureWritableBytes b (length data);
     HasWritten (b'\<lparr>buffer := overwrite (buffer b') (writer_index b') data\<rparr>) (length data)
   }"

definition Prepend :: "IOBuffer \<Rightarrow> byte list \<Rightarrow> IOBuffer option" where
  "Prepend b data = do {
     dcheck (length data \<le> PrependableBytes b);
     let r = reader_index b - length data;
     Some (b\<lparr>reader_index := r, buffer := overwrite (buffer b) r data\<rparr>)
   }"

definition Shrink :: "IOBuffer \<Rightarrow> nat \<Rightarrow> IOBuffer option" where
  "Shrink b reserve = do {
     other \<leftarrow> EnsureWritableBytes (new_IOBuffer kInitialSize) (ReadableBytes b + reserve);
     other \<leftarrow> Write other (ToStringPiece b);
     Some (fst (Swap b other))
   }"

definition ReadFd ::
  "(nat list \<Rightarrow> int + byte list) \<Rightarrow> IOBuffer \<Rightarrow> (int \<times> int \<times> IOBuffer) option" where
  "ReadFd readv b =
     (let writable = WritableBytes b;
          iov = (if writable < 65536 then [writable, 65536] else [writable])
      in case readv iov of
           Inl errno \<Rightarrow> Some (-1, errno, b)
         | Inr data \<Rightarrow>
             if length data \<le> writable
             then Some (int (length data), 0,
                        b\<lparr>buffer := overwrite (buffer b) (writer_index b) data,
                          writer_index := writer_index b + length data\<rparr>)
             else do {
               b' \<leftarrow> Write (b\<lparr>buffer := overwrite (buffer b) (writer_index b) (take writable data),
                               writer_index := length (buffer b)\<rparr>) (drop writable data);
               Some (int (length data), 0, b')
             })"

subsection \<open>Integers: the writing, peeking, reading and prepending members\<close>

text \<open>
  memcpy copies the little-endian host bytes of the integer. A signed and an unsigned integer of
  one width are the same word; static_cast between them does not change it.
\<close>

definition WriteBigEndianUint64 :: "IOBuffer \<Rightarrow> uint64 \<Rightarrow> IOBuffer option" where
  "WriteBigEndianUint64 b x = Write b (word_to_le 8 (HostToNet64 x))"

definition WriteBigEndianInt64 :: "IOBuffer \<Rightarrow> uint64 \<Rightarrow> IOBuffer option" where
  "WriteBigEndianInt64 b x = WriteBigEndianUint64 b x"

definition WriteLittleEndianUint64 :: "IOBuffer \<Rightarrow> uint64 \<Rightarrow> IOBuffer option" where
  "WriteLittleEndianUint64 b x = Write b (word_to_le 8 (ByteSwapToLE64 x))"

definition WriteLittleEndianInt64 :: "IOBuffer \<Rightarrow> uint64 \<Rightarrow> IOBuffer option" where
  "WriteLittleEndianInt64 b x = WriteLittleEndianUint64 b x"

definition WriteBigEndianUint32 :: "IOBuffer \<Rightarrow> uint32 \<Rightarrow> IOBuffer option" where
  "WriteBigEndianUint32 b x = Write b (word_to_le 4 (HostToNet32 x))"

definition WriteBigEndianInt32 :: "IOBuffer \<Rightarrow> uint32 \<Rightarrow> IOBuffer option" where
  "WriteBigEndianInt32 b x = WriteBigEndianUint32 b x"

definition WriteLittleEndianUint32 :: "IOBuffer \<Rightarrow> uint32 \<Rightarrow> IOBuffer option" where
  "WriteLittleEndianUint32 b x = Write b (word_to_le 4 (ByteSwapToLE32 x))"

definition WriteLittleEndianInt32 :: "IOBuffer \<Rightarrow> uint32 \<Rightarrow> IOBuffer option" where
  "WriteLittleEndianInt32 b x = WriteLittleEndianUint32 b x"

definition WriteBigEndianUint16 :: "IOBuffer \<Rightarrow> uint16 \<Rightarrow> IOBuffer option" where
  "WriteBigEndianUint16 b x = Write b (word_to_le 2 (HostToNet16 x))"

definition WriteBigEndianInt16 :: "IOBuffer \<Rightarrow> uint16 \<Rightarrow> IOBuffer option" where
  "WriteBigEndianInt16 b x = WriteBigEndianUint16 b x"

definition WriteLittleEndianUint16 :: "IOBuffer \<Rightarrow> uint16 \<Rightarrow> IOBuffer option" where
  "WriteLittleEndianUint16 b x = Write b (word_to_le 2 (ByteSwapToLE16 x))"

definition WriteLittleEndianInt16 :: "IOBuffer \<Rightarrow> uint16 \<Rightarrow> IOBuffer option" where
  "WriteLittleEndianInt16 b x = WriteLittleEndianUint16 b x"

definition WriteInt8 :: "IOBuffer \<Rightarrow> uint8 \<Rightarrow> IOBuffer option" where
  "WriteInt8 b x = Write b [x]"

definition WriteUint8 :: "IOBuffer \<Rightarrow> uint8 \<Rightarrow> IOBuffer option" where
  "WriteUint8 b x = Write b [x]"

definition PeekBigEndianUint64 :: "IOBuffer \<Rightarrow> uint64 option" where
  "PeekBigEndianUint64 b = do {
     dcheck (8 \<le> ReadableBytes b);
     Some (NetToHost64 (le_to_word (take 8 (content b))))
   }"

definition PeekBigEndianInt64 :: "IOBuffer \<Rightarrow> uint64 option" where
  "PeekBigEndianInt64 b = PeekBigEndianUint64 b"

definition PeekLittleEndianUint64 :: "IOBuffer \<Rightarrow> uint64 option" where
  "PeekLittleEndianUint64 b = do {
     dcheck (8 \<le> ReadableBytes b);
     Some (ByteSwapToLE64 (le_to_word (take 8 (content b))))
   }"

definition PeekLittleEndianInt64 :: "IOBuffer \<Rightarrow> uint64 option" where
  "PeekLittleEndianInt64 b = PeekLittleEndianUint64 b"

definition PeekBigEndianUint32 :: "IOBuffer \<Rightarrow> uint32 option" where
  "PeekBigEndianUint32 b = do {
     dcheck (4 \<le> ReadableBytes b);
     Some (NetToHost32 (le_to_word (take 4 (content b))))
   }"

definition PeekBigEndianInt32 :: "IOBuffer \<Rightarrow> uint32 option" where
  "PeekBigEndianInt32 b = PeekBigEndianUint32 b"

definition PeekLittleEndianUint32 :: "IOBuffer \<Rightarrow> uint32 option" where
  "PeekLittleEndianUint32 b = do {
     dcheck (4 \<le> ReadableBytes b);
     Some (ByteSwapToLE32 (le_to_word (take 4 (content b))))
   }"

definition PeekLittleEndianInt32 :: "IOBuffer \<Rightarrow> uint32 option" where
  "PeekLittleEndianInt32 b = PeekLittleEndianUint32 b"

definition PeekBigEndianUint16 :: "IOBuffer \<Rightarrow> uint16 option" where
  "PeekBigEndianUint16 b = do {
     dcheck (2 \<le> ReadableBytes b);
     Some (NetToHost16 (le_to_word (take 2 (content b))))
   }"

definition PeekBigEndianInt16 :: "IOBuffer \<Rightarrow> uint16 option" where
  "PeekBigEndianInt16 b = PeekBigEndianUint16 b"

definition PeekLittleEndianUint16 :: "IOBuffer \<Rightarrow> uint16 option" where
  "PeekLittleEndianUint16 b = do {
     dcheck (2 \<le> ReadableBytes b);
     Some (ByteSwapToLE16 (le_to_word (take 2 (content b))))
   }"

definition PeekLittleEndianInt16 :: "IOBuffer \<Rightarrow> uint16 option" where
  "PeekLittleEndianInt16 b = PeekLittleEndianUint16 b"

definition PeekInt8 :: "IOBuffer \<Rightarrow> uint8 option" where
  "PeekInt8 b = do {
     dcheck (1 \<le> ReadableBytes b);
     Some (content b ! 0)
   }"

definition PeekUint8 :: "IOBuffer \<Rightarrow> uint8 option" where
  "PeekUint8 b = do {
     dcheck (1 \<le> ReadableBytes b);
     Some (content b ! 0)
   }"

definition ReadBigEndianUint64 :: "IOBuffer \<Rightarrow> (uint64 \<times> IOBuffer) option" where
  "ReadBigEndianUint64 b = do {
     result \<leftarrow> PeekBigEndianUint64 b;
     b' \<leftarrow> RetrieveInt64 b;
     Some (result, b')
   }"

definition ReadBigEndianInt64 :: "IOBuffer \<Rightarrow> (uint64 \<times> IOBuffer) option" where
  "ReadBigEndianInt64 b = do {
     result \<leftarrow> PeekBigEndianInt64 b;
     b' \<leftarrow> RetrieveInt64 b;
     Some (result, b')
   }"

definition ReadLittleEndianUint64 :: "IOBuffer \<Rightarrow> (uint64 \<times> IOBuffer) option" where
  "ReadLittleEndianUint64 b = do {
     result \<leftarrow> PeekLittleEndianUint64 b;
     b' \<leftarrow> RetrieveInt64 b;
     Some (result, b')
   }"

definition ReadLittleEndianInt64 :: "IOBuffer \<Rightarrow> (uint64 \<times> IOBuffer) option" where
  "ReadLittleEndianInt64 b = do {
     result \<leftarrow> PeekLittleEndianInt64 b;
     b' \<leftarrow> RetrieveInt64 b;
     Some (result, b')
   }"

definition ReadBigEndianUint32 :: "IOBuffer \<Rightarrow> (uint32 \<times> IOBuffer) option" where
  "ReadBigEndianUint32 b = do {
     result \<leftarrow> PeekBigEndianUint32 b;
     b' \<leftarrow> RetrieveInt32 b;
     Some (result, b')
   }"

definition ReadBigEndianInt32 :: "IOBuffer \<Rightarrow> (uint32 \<times> IOBuffer) option" where
  "ReadBigEndianInt32 b = do {
     result \<leftarrow> PeekBigEndianInt32 b;
     b' \<leftarrow> RetrieveInt32 b;
     Some (result, b')
   }"

definition ReadLittleEndianUint32 :: "IOBuffer \<Rightarrow> (uint32 \<times> IOBuffer) option" where
  "ReadLittleEndianUint32 b = do {
     result \<leftarrow> PeekLittleEndianUint32 b;
     b' \<leftarrow> RetrieveInt32 b;
     Some (result, b')
   }"

definition ReadLittleEndianInt32 :: "IOBuffer \<Rightarrow> (uint32 \<times> IOBuffer) option" where
  "ReadLittleEndianInt32 b = do {
     result \<leftarrow> PeekLittleEndianInt32 b;
     b' \<leftarrow> RetrieveInt32 b;
     Some (result, b')
   }"

definition ReadBigEndianUint16 :: "IOBuffer \<Rightarrow> (uint16 \<times> IOBuffer) option" where
  "ReadBigEndianUint16 b = do {
     result \<leftarrow> PeekBigEndianUint16 b;
     b' \<leftarrow> RetrieveInt16 b;
     Some (result, b')
   }"

definition ReadBigEndianInt16 :: "IOBuffer \<Rightarrow> (uint16 \<times> IOBuffer) option" where
  "ReadBigEndianInt16 b = do {
     result \<leftarrow> PeekBigEndianInt16 b;
     b' \<leftarrow> RetrieveInt16 b;
     Some (result, b')
   }"

definition ReadLittleEndianUint16 :: "IOBuffer \<Rightarrow> (uint16 \<times> IOBuffer) option" where
  "ReadLittleEndianUint16 b = do {
     result \<leftarrow> PeekLittleEndianUint16 b;
     b' \<leftarrow> RetrieveInt16 b;
     Some (result, b')
   }"

definition ReadLittleEndianInt16 :: "IOBuffer \<Rightarrow> (uint16 \<times> IOBuffer) option" where
  "ReadLittleEndianInt16 b = do {
     (result, b') \<leftarrow> ReadLittleEndianUint16 b;
     b'' \<leftarrow> RetrieveInt16 b';
     Some (result, b'')
   }"

definition ReadInt8 :: "IOBuffer \<Rightarrow> (uint8 \<times> IOBuffer) option" where
  "ReadInt8 b = do {
     result \<leftarrow> PeekInt8 b;
     b' \<leftarrow> RetrieveInt8 b;
     Some (result, b')
   }"

definition ReadUint8 :: "IOBuffer \<Rightarrow> (uint8 \<times> IOBuffer) option" where
  "ReadUint8 b = do {
     result \<leftarrow> PeekUint8 b;
     b' \<leftarrow> RetrieveInt8 b;
     Some (result, b')
   }"

definition PrependBigEndianUint64 :: "IOBuffer \<Rightarrow> uint64 \<Rightarrow> IOBuffer option" where
  "PrependBigEndianUint64 b x = Prepend b (word_to_le 8 (HostToNet64 x))"

definition PrependBigEndianInt64 :: "IOBuffer \<Rightarrow> uint64 \<Rightarrow> IOBuffer option" where
  "PrependBigEndianInt64 b x = PrependBigEndianUint64 b x"

definition PrependLittleEndianUint64 :: "IOBuffer \<Rightarrow> uint64 \<Rightarrow> IOBuffer option" where
  "PrependLittleEndianUint64 b x = Prepend b (word_to_le 8 (ByteSwapToLE64 x))"

definition PrependLittleEndianInt64 :: "IOBuffer \<Rightarrow> uint64 \<Rightarrow> IOBuffer option" where
  "PrependLittleEndianInt64 b x = PrependLittleEndianUint64 b x"

definition PrependBigEndianUint32 :: "IOBuffer \<Rightarrow> uint32 \<Rightarrow> IOBuffer option" where
  "PrependBigEndianUint32 b x = Prepend b (word_to_le 4 (HostToNet32 x))"

definition PrependBigEndianInt32 :: "IOBuffer \<Rightarrow> uint32 \<Rightarrow> IOBuffer option" where
  "PrependBigEndianInt32 b x = PrependBigEndianUint32 b x"

definition PrependLittleEndianUint32 :: "IOBuffer \<Rightarrow> uint32 \<Rightarrow> IOBuffer option" where
  "PrependLittleEndianUint32 b x = Prepend b (word_to_le 4 (ByteSwapToLE32 x))"

definition PrependLittleEndianInt32 :: "IOBuffer \<Rightarrow> uint32 \<Rightarrow> IOBuffer option" where
  "PrependLittleEndianInt32 b x = PrependLittleEndianUint32 b x"

definition PrependBigEndianUint16 :: "IOBuffer \<Rightarrow> uint16 \<Rightarrow> IOBuffer option" where
  "PrependBigEndianUint16 b x = Prepend b (word_to_le 2 (HostToNet16 x))"

definition PrependBigEndianInt16 :: "IOBuffer \<Rightarrow> uint16 \<Rightarrow> IOBuffer option" where
  "PrependBigEndianInt16 b x = PrependBigEndianUint16 b x"

definition PrependLittleEndianUint16 :: "IOBuffer \<Rightarrow> uint16 \<Rightarrow> IOBuffer option" where
  "PrependLittleEndianUint16 b x = Prepend b (word_to_le 2 (ByteSwapToLE16 x))"

definition PrependLittleEndianInt16 :: "IOBuffer \<Rightarrow> uint16 \<Rightarrow> IOBuffer option" where
  "PrependLittleEndianInt16 b x = PrependBigEndianUint16 b x"

definition PrependInt8 :: "IOBuffer \<Rightarrow> uint8 \<Rightarrow> IOBuffer option" where
  "PrependInt8 b x = Prepend b [x]"

definition PrependUint8 :: "IOBuffer \<Rightarrow> uint8 \<Rightarrow> IOBuffer option" where
  "PrependUint8 b x = Prepend b [x]"

section \<open>Invariant and behaviour\<close>

definition iob_inv :: "IOBuffer \<Rightarrow> bool" where
  "iob_inv b \<longleftrightarrow> kCheapPrepend \<le> length (buffer b) \<and>
     reader_index b \<le> writer_index b \<and> writer_index b \<le> length (buffer b)"

lemma iob_invI [intro]:
  "kCheapPrepend \<le> length (buffer b) \<Longrightarrow> reader_index b \<le> writer_index b \<Longrightarrow>
   writer_index b \<le> length (buffer b) \<Longrightarrow> iob_inv b"
  by (simp add: iob_inv_def)

lemma ReadableBytes_content [buf_simps]: "iob_inv b \<Longrightarrow> ReadableBytes b = length (content b)"
  by (simp add: iob_inv_def ReadableBytes_def content_def)

lemma length_resize [simp]: "length (resize xs n) = n"
  by (simp add: resize_def)

lemma seg_resize: "j \<le> n \<Longrightarrow> j \<le> length xs \<Longrightarrow> seg (resize xs n) i j = seg xs i j"
  by (simp add: seg_alt resize_def)

text \<open>What one member function does: it returns, keeps the invariant and changes the content so.\<close>

definition does :: "IOBuffer option \<Rightarrow> byte list \<Rightarrow> bool" where
  "does r bs \<longleftrightarrow> (\<exists>b'. r = Some b' \<and> iob_inv b' \<and> content b' = bs)"

lemma doesI [intro]: "r = Some b' \<Longrightarrow> iob_inv b' \<Longrightarrow> content b' = bs \<Longrightarrow> does r bs"
  by (auto simp: does_def)

lemma doesE [elim]:
  assumes "does r bs" obtains b' where "r = Some b'" "iob_inv b'" "content b' = bs"
  using assms by (auto simp: does_def)

lemma new_IOBuffer_inv [simp]: "iob_inv (new_IOBuffer n)"
  by (simp add: iob_inv_def new_IOBuffer_def)

lemma content_new_IOBuffer [simp]: "content (new_IOBuffer n) = []"
  by (simp add: content_def new_IOBuffer_def)

lemma RetrieveAll_inv: "iob_inv b \<Longrightarrow> iob_inv (RetrieveAll b)"
  by (simp add: iob_inv_def RetrieveAll_def)

lemma content_RetrieveAll [simp]: "content (RetrieveAll b) = []"
  by (simp add: content_def RetrieveAll_def)

lemma does_Retrieve:
  assumes "iob_inv b" and "n \<le> length (content b)"
  shows "does (Retrieve b n) (drop n (content b))"
proof (cases "n < ReadableBytes b")
  case True
  let ?b = "b\<lparr>reader_index := reader_index b + n\<rparr>"
  have "Retrieve b n = Some ?b" using True by (simp add: Retrieve_def)
  moreover have "iob_inv ?b"
    using True assms by (simp add: iob_inv_def ReadableBytes_def)
  moreover have "content ?b = drop n (content b)" by (simp add: content_def drop_seg)
  ultimately show ?thesis by blast
next
  case False
  with assms show ?thesis
    by (intro doesI [of _ "RetrieveAll b"])
       (auto simp: Retrieve_def ReadableBytes_content RetrieveAll_inv)
qed

lemma Retrieve_too_much:
  "iob_inv b \<Longrightarrow> length (content b) < n \<Longrightarrow> Retrieve b n = None"
  by (simp add: Retrieve_def ReadableBytes_content)

text \<open>
  MakeSpace as EnsureWritableBytes calls it, with too few writable bytes: its DCHECKs hold, the
  content stays, and len bytes become writable.
\<close>

lemma MakeSpace_ok:
  assumes "iob_inv b" and "WritableBytes b < len"
  shows "\<exists>b'. MakeSpace b len = Some b' \<and> iob_inv b' \<and> content b' = content b \<and>
           len \<le> WritableBytes b'"
proof (cases "WritableBytes b + PrependableBytes b < len + kCheapPrepend")
  case True
  then show ?thesis
    using assms
    by (auto simp: MakeSpace_def iob_inv_def WritableBytes_def content_def seg_resize)
next
  case False
  let ?b' = "b\<lparr>buffer := overwrite (buffer b) kCheapPrepend (content b),
       reader_index := kCheapPrepend, writer_index := kCheapPrepend + ReadableBytes b\<rparr>"
  have r: "kCheapPrepend < reader_index b"
    using False assms(2) by (simp add: PrependableBytes_def)
  have fits: "kCheapPrepend + length (content b) \<le> length (buffer b)"
    using r assms(1) by (auto simp: iob_inv_def content_def)
  have "MakeSpace b len = Some ?b'"
    using False r by (simp add: MakeSpace_def ReadableBytes_def)
  moreover have "iob_inv ?b'"
    using fits assms(1) by (simp add: iob_inv_def ReadableBytes_content)
  moreover have "content ?b' = content b"
    using seg_overwrite_same [OF fits] assms(1)
    by (subst content_def) (simp add: ReadableBytes_content)
  moreover have "len \<le> WritableBytes ?b'"
    using False fits assms(1) r
    by (simp add: WritableBytes_def PrependableBytes_def ReadableBytes_def iob_inv_def content_def)
  ultimately show ?thesis by blast
qed

lemma EnsureWritableBytes_ok:
  assumes "iob_inv b"
  shows "\<exists>b'. EnsureWritableBytes b len = Some b' \<and> iob_inv b' \<and> content b' = content b \<and>
           len \<le> WritableBytes b'"
proof (cases "WritableBytes b < len")
  case True
  from MakeSpace_ok [OF assms True] obtain b' where
    "MakeSpace b len = Some b' \<and> iob_inv b' \<and> content b' = content b \<and> len \<le> WritableBytes b'"
    by blast
  with True show ?thesis by (simp add: EnsureWritableBytes_def)
next
  case False
  with assms show ?thesis by (simp add: EnsureWritableBytes_def)
qed

lemma append_content:
  assumes "iob_inv b" and "length data \<le> WritableBytes b"
  defines "b' \<equiv> b\<lparr>buffer := overwrite (buffer b) (writer_index b) data,
                  writer_index := writer_index b + length data\<rparr>"
  shows "iob_inv b'" and "content b' = content b @ data"
proof -
  have fits: "writer_index b + length data \<le> length (buffer b)"
    using assms(1,2) by (auto simp: WritableBytes_def iob_inv_def)
  show "iob_inv b'" using assms(1) fits by (simp add: b'_def iob_inv_def)
  have "content b' = seg (buffer b') (reader_index b) (writer_index b) @
          seg (buffer b') (writer_index b) (writer_index b + length data)"
    using assms(1) by (simp add: b'_def content_def iob_inv_def seg_append_seg)
  also have "\<dots> = content b @ data"
    using fits by (simp add: b'_def content_def seg_overwrite_before seg_overwrite_same)
  finally show "content b' = content b @ data" .
qed

lemma does_Write:
  assumes "iob_inv b"
  shows "does (Write b data) (content b @ data)"
proof -
  obtain b' where b': "EnsureWritableBytes b (length data) = Some b'" "iob_inv b'"
    "content b' = content b" "length data \<le> WritableBytes b'"
    using EnsureWritableBytes_ok [OF assms] by blast
  have "Write b data = Some (b'\<lparr>buffer := overwrite (buffer b') (writer_index b') data,
                  writer_index := writer_index b' + length data\<rparr>)"
    using b' by (auto simp: Write_def HasWritten_def WritableBytes_def iob_inv_def)
  with append_content [OF b'(2,4)] b'(3) show ?thesis by auto
qed

lemma does_Prepend:
  assumes "iob_inv b" and "length data \<le> PrependableBytes b"
  shows "does (Prepend b data) (data @ content b)"
proof -
  let ?r = "reader_index b - length data"
  let ?b = "b\<lparr>reader_index := ?r, buffer := overwrite (buffer b) ?r data\<rparr>"
  have le: "length data \<le> reader_index b" using assms(2) by (simp add: PrependableBytes_def)
  have fits: "?r + length data \<le> length (buffer b)" using le assms(1) by (simp add: iob_inv_def)
  have "Prepend b data = Some ?b" using assms(2) by (simp add: Prepend_def Let_def)
  moreover have "iob_inv ?b" using fits assms(1) by (auto simp: iob_inv_def)
  moreover have "content ?b = data @ content b"
  proof -
    have "content ?b = seg (buffer ?b) ?r (?r + length data) @
            seg (buffer ?b) (?r + length data) (writer_index b)"
      using le assms(1) by (simp add: content_def iob_inv_def seg_append_seg)
    also have "\<dots> = data @ content b"
      using seg_overwrite_same [OF fits] fits le by (simp add: content_def seg_overwrite_after)
    finally show ?thesis .
  qed
  ultimately show ?thesis by blast
qed

lemma does_Unwrite:
  assumes "iob_inv b" and "n \<le> length (content b)"
  shows "does (Unwrite b n) (take (length (content b) - n) (content b))"
proof -
  let ?b = "b\<lparr>writer_index := writer_index b - n\<rparr>"
  have le: "reader_index b + n \<le> writer_index b"
    using assms by (auto simp: iob_inv_def content_def)
  have "Unwrite b n = Some ?b"
    using assms by (simp add: Unwrite_def ReadableBytes_content)
  moreover have "iob_inv ?b" using le assms(1) by (auto simp: iob_inv_def)
  moreover have "content ?b = take (length (content b) - n) (content b)"
    using le assms(1) by (auto simp: content_def iob_inv_def take_seg)
  ultimately show ?thesis by blast
qed

lemma Unwrite_too_much:
  "iob_inv b \<Longrightarrow> length (content b) < n \<Longrightarrow> Unwrite b n = None"
  by (simp add: Unwrite_def ReadableBytes_content)

lemma does_Shrink:
  assumes "iob_inv b"
  shows "does (Shrink b reserve) (content b)"
proof -
  obtain o1 where o1: "EnsureWritableBytes (new_IOBuffer kInitialSize) (ReadableBytes b + reserve) = Some o1"
    "iob_inv o1" "content o1 = []"
    using EnsureWritableBytes_ok [OF new_IOBuffer_inv] by fastforce
  obtain o2 where "Write o1 (content b) = Some o2" "iob_inv o2" "content o2 = content b"
    using does_Write [OF o1(2)] o1(3) by (metis append_Nil does_def)
  with o1 show ?thesis by (auto simp: Shrink_def ToStringPiece_def Swap_def)
qed

lemma does_ReadFd:
  assumes "iob_inv b" and "readv (if WritableBytes b < 65536 then [WritableBytes b, 65536] else [WritableBytes b]) = Inr data"
  shows "\<exists>b'. ReadFd readv b = Some (int (length data), 0, b') \<and> iob_inv b' \<and>
           content b' = content b @ data"
proof (cases "length data \<le> WritableBytes b")
  case True
  with append_content [OF assms(1) True] assms(2) show ?thesis
    by (auto simp: ReadFd_def Let_def)
next
  case False
  let ?d = "take (WritableBytes b) data"
  let ?b = "b\<lparr>buffer := overwrite (buffer b) (writer_index b) ?d, writer_index := length (buffer b)\<rparr>"
  have d: "length ?d \<le> WritableBytes b" "length (buffer b) = writer_index b + length ?d"
    using False assms(1) by (simp_all add: WritableBytes_def iob_inv_def)
  have "iob_inv ?b" "content ?b = content b @ ?d"
    using append_content [OF assms(1) d(1)] d(2) by simp_all
  then obtain b' where "Write ?b (drop (WritableBytes b) data) = Some b'" "iob_inv b'"
    "content b' = content b @ data"
    using does_Write [of ?b "drop (WritableBytes b) data"] by auto
  with False assms(2) show ?thesis by (auto simp: ReadFd_def Let_def)
qed

section \<open>The buffer as a queue of bytes\<close>

text \<open>
  The interface the codecs and the connection handler use: a byte queue filled at the back and
  consumed at the front.
\<close>

locale byte_queue =
  fixes inv :: "'b \<Rightarrow> bool"
    and bytes :: "'b \<Rightarrow> byte list"
    and readable :: "'b \<Rightarrow> nat"
    and put :: "'b \<Rightarrow> byte list \<Rightarrow> 'b option"
    and consume :: "'b \<Rightarrow> nat \<Rightarrow> 'b option"
  assumes readable: "inv b \<Longrightarrow> readable b = length (bytes b)"
    and put: "inv b \<Longrightarrow> \<exists>b'. put b xs = Some b' \<and> inv b' \<and> bytes b' = bytes b @ xs"
    and consume: "inv b \<Longrightarrow> n \<le> length (bytes b) \<Longrightarrow>
          \<exists>b'. consume b n = Some b' \<and> inv b' \<and> bytes b' = drop n (bytes b)"
    and consume_more: "inv b \<Longrightarrow> length (bytes b) < n \<Longrightarrow> consume b n = None"
begin

fun put_all :: "'b \<Rightarrow> byte list list \<Rightarrow> 'b option" where
  "put_all b [] = Some b"
| "put_all b (xs # xss) = put b xs \<bind> (\<lambda>b'. put_all b' xss)"

lemma put_all_bytes:
  "inv b \<Longrightarrow> \<exists>b'. put_all b xss = Some b' \<and> inv b' \<and> bytes b' = bytes b @ concat xss"
proof (induction xss arbitrary: b)
  case Nil
  then show ?case by simp
next
  case (Cons xs xss)
  from put [OF Cons.prems, of xs] obtain b1
    where b1: "put b xs = Some b1" "inv b1" "bytes b1 = bytes b @ xs" by blast
  from Cons.IH [OF b1(2)] b1 show ?case by auto
qed

lemma fifo:
  assumes "inv b" and "bytes b = []"
  shows "\<exists>b1 b2. put b xs = Some b1 \<and> inv b1 \<and> bytes b1 = xs \<and> consume b1 (length xs) = Some b2 \<and>
           inv b2 \<and> bytes b2 = []"
proof -
  from put [OF assms(1), of xs] assms(2) obtain b1
    where "put b xs = Some b1" "inv b1" "bytes b1 = xs" by auto
  with consume [of b1 "length xs"] show ?thesis by auto
qed

lemma consume_Some_iff:
  "inv b \<Longrightarrow> (\<exists>b'. consume b n = Some b') \<longleftrightarrow> n \<le> length (bytes b)"
  using consume [of b n] consume_more [of b n] by (cases "n \<le> length (bytes b)") auto

end

interpretation iob: byte_queue iob_inv content ReadableBytes Write Retrieve
  by unfold_locales
    (auto simp: ReadableBytes_content Retrieve_too_much does_def
       dest: does_Write does_Retrieve)

section \<open>Integers\<close>

lemmas write_int_defs =
  WriteBigEndianUint64_def WriteBigEndianUint32_def WriteBigEndianUint16_def
  WriteBigEndianInt64_def WriteBigEndianInt32_def WriteBigEndianInt16_def
  WriteLittleEndianUint64_def WriteLittleEndianUint32_def WriteLittleEndianUint16_def
  WriteLittleEndianInt64_def WriteLittleEndianInt32_def WriteLittleEndianInt16_def
  WriteInt8_def WriteUint8_def

lemmas peek_int_defs =
  PeekBigEndianUint64_def PeekBigEndianUint32_def PeekBigEndianUint16_def
  PeekBigEndianInt64_def PeekBigEndianInt32_def PeekBigEndianInt16_def
  PeekLittleEndianUint64_def PeekLittleEndianUint32_def PeekLittleEndianUint16_def
  PeekLittleEndianInt64_def PeekLittleEndianInt32_def PeekLittleEndianInt16_def
  PeekInt8_def PeekUint8_def

lemmas prepend_int_defs =
  PrependBigEndianUint64_def PrependBigEndianUint32_def PrependBigEndianUint16_def
  PrependBigEndianInt64_def PrependBigEndianInt32_def PrependBigEndianInt16_def
  PrependLittleEndianUint64_def PrependLittleEndianUint32_def PrependLittleEndianUint16_def
  PrependLittleEndianInt64_def PrependLittleEndianInt32_def PrependLittleEndianInt16_def
  PrependInt8_def PrependUint8_def

lemmas read_int_defs =
  ReadBigEndianUint64_def ReadBigEndianUint32_def ReadBigEndianUint16_def
  ReadBigEndianInt64_def ReadBigEndianInt32_def ReadBigEndianInt16_def
  ReadLittleEndianUint64_def ReadLittleEndianUint32_def ReadLittleEndianUint16_def
  ReadLittleEndianInt64_def ReadLittleEndianInt32_def ReadLittleEndianInt16_def
  ReadInt8_def ReadUint8_def
  RetrieveInt64_def RetrieveInt32_def RetrieveInt16_def RetrieveInt8_def

lemma PeekBigEndian_content [buf_simps]:
  assumes "iob_inv b"
  shows "PeekBigEndianUint64 b = (if 8 \<le> length (content b) then Some (be_to_word (take 8 (content b))) else None)"
    and "PeekBigEndianUint32 b = (if 4 \<le> length (content b) then Some (be_to_word (take 4 (content b))) else None)"
    and "PeekBigEndianUint16 b = (if 2 \<le> length (content b) then Some (be_to_word (take 2 (content b))) else None)"
  using assms by (simp_all add: peek_int_defs ReadableBytes_content bytes_simps)

lemma PeekLittleEndian_content [buf_simps]:
  assumes "iob_inv b"
  shows "PeekLittleEndianUint64 b = (if 8 \<le> length (content b) then Some (le_to_word (take 8 (content b))) else None)"
    and "PeekLittleEndianUint32 b = (if 4 \<le> length (content b) then Some (le_to_word (take 4 (content b))) else None)"
    and "PeekLittleEndianUint16 b = (if 2 \<le> length (content b) then Some (le_to_word (take 2 (content b))) else None)"
  using assms by (simp_all add: peek_int_defs ReadableBytes_content bytes_simps)

section \<open>Sequences of operations refine the queue\<close>

text \<open>
  The member functions that move bytes, as a sequence of calls on one buffer, and what the same
  sequence does to a plain list of bytes. None is a call whose DCHECK fires.
\<close>

datatype buf_op = OpWrite "byte list" | OpRetrieve nat | OpRetrieveAll | OpUnwrite nat
  | OpShrink nat | OpEnsureWritable nat

fun run_op :: "IOBuffer \<Rightarrow> buf_op \<Rightarrow> IOBuffer option" where
  "run_op b (OpWrite xs) = Write b xs"
| "run_op b (OpRetrieve n) = Retrieve b n"
| "run_op b OpRetrieveAll = Some (RetrieveAll b)"
| "run_op b (OpUnwrite n) = Unwrite b n"
| "run_op b (OpShrink n) = Shrink b n"
| "run_op b (OpEnsureWritable n) = EnsureWritableBytes b n"

fun spec_op :: "byte list \<Rightarrow> buf_op \<Rightarrow> byte list option" where
  "spec_op bs (OpWrite xs) = Some (bs @ xs)"
| "spec_op bs (OpRetrieve n) = (if n \<le> length bs then Some (drop n bs) else None)"
| "spec_op bs OpRetrieveAll = Some []"
| "spec_op bs (OpUnwrite n) = (if n \<le> length bs then Some (take (length bs - n) bs) else None)"
| "spec_op bs (OpShrink n) = Some bs"
| "spec_op bs (OpEnsureWritable n) = Some bs"

fun run_ops :: "IOBuffer \<Rightarrow> buf_op list \<Rightarrow> IOBuffer option" where
  "run_ops b [] = Some b"
| "run_ops b (x # xs) = run_op b x \<bind> (\<lambda>b'. run_ops b' xs)"

fun spec_ops :: "byte list \<Rightarrow> buf_op list \<Rightarrow> byte list option" where
  "spec_ops bs [] = Some bs"
| "spec_ops bs (x # xs) = spec_op bs x \<bind> (\<lambda>bs'. spec_ops bs' xs)"

lemma run_op_refines:
  assumes "iob_inv b"
  shows "map_option content (run_op b x) = spec_op (content b) x"
    and "run_op b x = Some b' \<Longrightarrow> iob_inv b'"
proof -
  have "(\<exists>bs. spec_op (content b) x = Some bs \<and> does (run_op b x) bs) \<or>
        (spec_op (content b) x = None \<and> run_op b x = None)"
  proof (cases x)
    case (OpRetrieve n)
    with assms show ?thesis by (auto simp: does_Retrieve Retrieve_too_much)
  next
    case (OpUnwrite n)
    with assms show ?thesis by (auto simp: does_Unwrite Unwrite_too_much)
  next
    case (OpEnsureWritable n)
    with EnsureWritableBytes_ok [OF assms, of n] show ?thesis by (auto simp: does_def)
  qed (use assms in \<open>auto simp: does_Write does_Shrink RetrieveAll_inv\<close>)
  then show "map_option content (run_op b x) = spec_op (content b) x"
    and "run_op b x = Some b' \<Longrightarrow> iob_inv b'" by (auto simp: does_def)
qed

lemma run_ops_refines:
  "iob_inv b \<Longrightarrow> map_option content (run_ops b xs) = spec_ops (content b) xs"
proof (induction xs arbitrary: b)
  case Nil
  then show ?case by simp
next
  case (Cons x xs)
  note step = run_op_refines [OF Cons.prems, of x]
  show ?case
  proof (cases "run_op b x")
    case None
    with step(1) show ?thesis by (metis bind.bind_lunit(1) bind_eq_None_conv map_option_is_None run_ops.simps(2) spec_ops.simps(2))
  next
    case (Some b')
    then have "spec_op (content b) x = Some (content b')" using step(1) by simp
    with Some Cons.IH [OF step(2) [OF Some]] show ?thesis by simp
  qed
qed

text \<open>
  C1: a buffer of any initial size behaves, through any sequence of Write, Retrieve, RetrieveAll,
  Unwrite, Shrink and EnsureWritableBytes calls, as a queue of bytes: the sequence runs into a
  failing DCHECK exactly when it retrieves or takes back more than is readable, and otherwise the
  readable bytes are those of the queue. No internal DCHECK of MakeSpace ever fires.
\<close>

theorem iobuffer_refines_queue:
  "map_option content (run_ops (new_IOBuffer n) xs) = spec_ops [] xs"
  by (simp add: run_ops_refines)

section \<open>Integer round trips\<close>


lemma write_then_read:
  assumes "iob_inv b" and "content b = []"
  shows "\<exists>b1 b2. Write b xs = Some b1 \<and> iob_inv b1 \<and> content b1 = xs \<and>
           Retrieve b1 (length xs) = Some b2 \<and> iob_inv b2 \<and> content b2 = []"
  using iob.fifo [OF assms, of xs] by blast

lemma be_roundtrips:
  assumes "iob_inv b" and "content b = []"
  shows "\<exists>b'. (WriteBigEndianInt64 b v \<bind> ReadBigEndianInt64) = Some (v, b') \<and> content b' = []"
    and "\<exists>b'. (WriteBigEndianInt32 b w \<bind> ReadBigEndianInt32) = Some (w, b') \<and> content b' = []"
    and "\<exists>b'. (WriteBigEndianInt16 b u \<bind> ReadBigEndianInt16) = Some (u, b') \<and> content b' = []"
  using write_then_read [OF assms, of "word_to_be 8 v"]
    write_then_read [OF assms, of "word_to_be 4 w"] write_then_read [OF assms, of "word_to_be 2 u"]
  by (auto simp: write_int_defs read_int_defs PeekBigEndianInt64_def PeekBigEndianInt32_def
        PeekBigEndianInt16_def bytes_simps buf_simps)

lemma le_roundtrips:
  assumes "iob_inv b" and "content b = []"
  shows "\<exists>b'. (WriteLittleEndianInt64 b v \<bind> ReadLittleEndianInt64) = Some (v, b') \<and> content b' = []"
    and "\<exists>b'. (WriteLittleEndianInt32 b w \<bind> ReadLittleEndianInt32) = Some (w, b') \<and> content b' = []"
    and "\<exists>b'. (WriteLittleEndianInt16 b u \<bind> ReadLittleEndianUint16) = Some (u, b') \<and> content b' = []"
  using write_then_read [OF assms, of "word_to_le 8 v"]
    write_then_read [OF assms, of "word_to_le 4 w"] write_then_read [OF assms, of "word_to_le 2 u"]
  by (auto simp: write_int_defs read_int_defs PeekLittleEndianInt64_def PeekLittleEndianInt32_def
        bytes_simps buf_simps le_to_word_word_to_le)

text \<open>
  Into an empty buffer, an integer written in big-endian or little-endian order at 64, 32 or
  16 bits is read back unchanged by the reader of the same width and order and leaves the buffer
  empty (for the signed 16-bit little-endian reader see the next property).
\<close>

theorem integer_roundtrip:
  assumes "iob_inv b" and "content b = []"
  shows "(\<exists>b'. (WriteBigEndianInt64 b v \<bind> ReadBigEndianInt64) = Some (v, b') \<and> content b' = []) \<and>
    (\<exists>b'. (WriteBigEndianInt32 b w \<bind> ReadBigEndianInt32) = Some (w, b') \<and> content b' = []) \<and>
    (\<exists>b'. (WriteBigEndianInt16 b u \<bind> ReadBigEndianInt16) = Some (u, b') \<and> content b' = []) \<and>
    (\<exists>b'. (WriteLittleEndianInt64 b v \<bind> ReadLittleEndianInt64) = Some (v, b') \<and> content b' = []) \<and>
    (\<exists>b'. (WriteLittleEndianInt32 b w \<bind> ReadLittleEndianInt32) = Some (w, b') \<and> content b' = []) \<and>
    (\<exists>b'. (WriteLittleEndianInt16 b u \<bind> ReadLittleEndianUint16) = Some (u, b') \<and> content b' = [])"
  by (intro conjI be_roundtrips [OF assms] le_roundtrips [OF assms])

theorem integer_roundtrip_witness:
  "iob_inv (new_IOBuffer 64) \<and> content (new_IOBuffer 64) = [] \<and>
   (\<exists>b'. (WriteBigEndianInt32 (new_IOBuffer 64) 0xCAFE \<bind> ReadBigEndianInt32) = Some (0xCAFE, b') \<and>
         content b' = [])"
  using integer_roundtrip [of "new_IOBuffer 64" 0 "0xCAFE" 0] by simp

text \<open>
  ReadLittleEndianInt16 does not read one 16-bit integer: it returns the first two bytes
  but consumes four, so it loses the two bytes after the integer, and with fewer than four
  readable bytes its DCHECK fires although the integer is there.
\<close>

theorem ReadLittleEndianInt16_consumes_four:
  assumes "iob_inv b" and "2 \<le> length (content b)"
  shows "if length (content b) < 4 then ReadLittleEndianInt16 b = None
     else \<exists>b'. ReadLittleEndianInt16 b = Some (le_to_word (take 2 (content b)), b') \<and>
           content b' = drop 4 (content b)"
proof -
  obtain b1 where b1: "Retrieve b 2 = Some b1" "iob_inv b1" "content b1 = drop 2 (content b)"
    using does_Retrieve [OF assms] by auto
  have u16: "ReadLittleEndianUint16 b = Some (le_to_word (take 2 (content b)), b1)"
    using assms b1 by (simp add: read_int_defs buf_simps)
  show ?thesis
  proof (cases "length (content b) < 4")
    case True
    with assms u16 b1 Retrieve_too_much [OF b1(2), of 2] show ?thesis
      by (simp add: ReadLittleEndianInt16_def RetrieveInt16_def)
  next
    case False
    then have "does (Retrieve b1 2) (drop 2 (content b1))"
      using does_Retrieve [OF b1(2), of 2] b1(3) by simp
    with False u16 b1(3) show ?thesis
      by (auto simp: ReadLittleEndianInt16_def RetrieveInt16_def)
  qed
qed

theorem ReadLittleEndianInt16_witness:
  "\<exists>b. Write (new_IOBuffer 64) [1, 2, 3] = Some b \<and> content b = [1, 2, 3] \<and> ReadLittleEndianInt16 b = None"
proof -
  obtain b where "Write (new_IOBuffer 64) [1, 2, 3] = Some b" "iob_inv b" "content b = [1, 2, 3]"
    using does_Write [OF new_IOBuffer_inv, of 64 "[1, 2, 3]"] by auto
  with ReadLittleEndianInt16_consumes_four [of b] show ?thesis by auto
qed

end
