(* ===== verification/IOHandler.thy ===== *)
theory IOHandler
  imports IOBuffer
begin

text \<open>
  A connection: net/engine/io_handler.h and io_handler.cc. The state is what the class keeps
  (read and write buffer, whether it waits for the socket to become writable, whether the socket
  is open) and the state of its delegate. The system calls are parameters: readv as in IOBuffer,
  and send with its return value (-1 or the number of bytes the kernel took). The ghost fields
  record the bytes handed to the kernel and the bytes callers asked to send.

  Threading is not modelled: SendData from another thread posts SendInternal to the loop of the
  handler, so all operations below run one at a time in that loop.
\<close>

section \<open>State and operations\<close>

record 's io_handler =
  read_buf :: IOBuffer
  write_buf :: IOBuffer
  write_waiting :: bool
  socket_open :: bool
  dstate :: 's
  kernel_bytes :: "byte list"
  submitted :: "byte list"

definition new_IOHandler :: "'s \<Rightarrow> 's io_handler" where
  "new_IOHandler s =
     \<lparr>read_buf = new_IOBuffer 64, write_buf = new_IOBuffer 64, write_waiting = False,
      socket_open = True, dstate = s, kernel_bytes = [], submitted = []\<rparr>"

definition IOHandler_Close :: "('s \<Rightarrow> 's) \<Rightarrow> 's io_handler \<Rightarrow> 's io_handler" where
  "IOHandler_Close on_closed h = h\<lparr>dstate := on_closed (dstate h), socket_open := False\<rparr>"

definition IOHandler_Read ::
  "(nat list \<Rightarrow> int + byte list) \<Rightarrow> ('s \<Rightarrow> IOBuffer \<Rightarrow> (int \<times> 's \<times> IOBuffer) option) \<Rightarrow>
   ('s \<Rightarrow> 's) \<Rightarrow> 's io_handler \<Rightarrow> 's io_handler option" where
  "IOHandler_Read readv on_data on_closed h = do {
     (n, errno, rb) \<leftarrow> ReadFd readv (read_buf h);
     if n > 0 then do {
       (ret, s', rb') \<leftarrow> on_data (dstate h) rb;
       let h' = h\<lparr>read_buf := rb', dstate := s'\<rparr>;
       Some (if ret \<noteq> 0 then IOHandler_Close on_closed h' else h')
     }
     else Some (IOHandler_Close on_closed (h\<lparr>read_buf := rb\<rparr>))
   }"

text \<open>
  SendInternal. nwrote is a uint32, so the test nwrote >= 0 of the source is always true and the
  error branch after it is never taken; remaining is the uint32 difference data_len - nwrote.
\<close>

definition SendInternal ::
  "(byte list \<Rightarrow> int) \<Rightarrow> byte list \<Rightarrow> 's io_handler \<Rightarrow> 's io_handler option" where
  "SendInternal send data h =
     (let data_len = of_nat (length data) :: uint32;
          direct = (\<not> write_waiting h \<and> ReadableBytes (write_buf h) = 0);
          nwrote = (if direct then word_of_int (send data) else 0) :: uint32;
          remaining = (if direct then unat (data_len - nwrote) else unat data_len);
          h1 = h\<lparr>submitted := submitted h @ data,
                 kernel_bytes := kernel_bytes h @ take (unat nwrote) data\<rparr>
      in do {
        dcheck (remaining \<le> unat data_len);
        if remaining > 0 then do {
          wb \<leftarrow> Write (write_buf h) (take remaining (drop (unat nwrote) data));
          Some (h1\<lparr>write_buf := wb, write_waiting := True\<rparr>)
        }
        else Some h1
      })"

definition SendData :: "(byte list \<Rightarrow> int) \<Rightarrow> byte list \<Rightarrow> 's io_handler \<Rightarrow> 's io_handler option" where
  "SendData send data h = SendInternal send data h"

definition SendData_IOBuffer ::
  "(byte list \<Rightarrow> int) \<Rightarrow> IOBuffer \<Rightarrow> 's io_handler \<Rightarrow> 's io_handler option" where
  "SendData_IOBuffer send data h = SendInternal send (content data) h"

definition OnWrite :: "(byte list \<Rightarrow> int) \<Rightarrow> 's io_handler \<Rightarrow> 's io_handler option" where
  "OnWrite send h =
     (if write_waiting h then
        (let n = send (content (write_buf h))
         in if n > 0 then do {
              wb \<leftarrow> Retrieve (write_buf h) (nat n);
              Some (h\<lparr>write_buf := wb, kernel_bytes := kernel_bytes h @ take (nat n) (content (write_buf h)),
                      write_waiting := (ReadableBytes wb \<noteq> 0)\<rparr>)
            }
            else Some h)
      else Some h)"

section \<open>The event loop as a step relation\<close>

text \<open>
  What POSIX promises of send: -1, or a count of at most the length. A step is one callback of
  the loop, for any such kernel and any behaviour of the delegate.
\<close>

definition send_contract :: "(byte list \<Rightarrow> int) \<Rightarrow> bool" where
  "send_contract send \<longleftrightarrow> (\<forall>bs. -1 \<le> send bs \<and> send bs \<le> int (length bs))"

inductive io_step :: "'s io_handler \<Rightarrow> 's io_handler \<Rightarrow> bool" where
  io_read: "IOHandler_Read readv on_data on_closed h = Some h' \<Longrightarrow> io_step h h'"
| io_send: "send_contract send \<Longrightarrow> length data < 2 ^ 32 - 1 \<Longrightarrow> SendInternal send data h = Some h' \<Longrightarrow>
    io_step h h'"
| io_writable: "send_contract send \<Longrightarrow> OnWrite send h = Some h' \<Longrightarrow> io_step h h'"
| io_close: "io_step h (IOHandler_Close on_closed h)"

inductive io_reachable :: "'s io_handler \<Rightarrow> bool" where
  io_start: "io_reachable (new_IOHandler s)"
| io_next: "io_reachable h \<Longrightarrow> io_step h h' \<Longrightarrow> io_reachable h'"

text \<open>
  The invariant of the sending side: nothing is lost, duplicated or reordered between the callers
  and the kernel, and the handler waits for the socket exactly while bytes are pending.
\<close>

definition send_inv :: "'s io_handler \<Rightarrow> bool" where
  "send_inv h \<longleftrightarrow> iob_inv (write_buf h) \<and>
     kernel_bytes h @ content (write_buf h) = submitted h \<and>
     (write_waiting h \<longleftrightarrow> content (write_buf h) \<noteq> [])"

lemma Read_keeps_send_side:
  assumes "IOHandler_Read readv on_data on_closed h = Some h'"
  shows "write_buf h' = write_buf h" "kernel_bytes h' = kernel_bytes h" "submitted h' = submitted h"
    "write_waiting h' = write_waiting h"
  using assms
  by (auto simp: IOHandler_Read_def IOHandler_Close_def Let_def bind_eq_Some_conv split: if_splits)

text \<open>What SendInternal computes when send reports a count, and when it reports an error.\<close>

lemma nwrote_count:
  assumes "0 \<le> k" and "k \<le> int n" and "n < 2 ^ 32"
  shows "unat (word_of_int k :: uint32) = nat k"
    and "unat (of_nat n - word_of_int k :: uint32) = n - nat k"
    and "unat (of_nat n :: uint32) = n"
proof -
  show n: "unat (of_nat n :: uint32) = n"
    using assms(3) by (simp add: unat_of_nat take_bit_nat_eq_self)
  obtain m where m: "k = int m" using assms(1) nonneg_int_cases by blast
  show w: "unat (word_of_int k :: uint32) = nat k"
    using assms unfolding m by (simp add: unat_of_nat take_bit_nat_eq_self)
  have "(word_of_int k :: uint32) \<le> of_nat n"
    using assms(2) w n by (simp add: word_le_nat_alt)
  then show "unat (of_nat n - word_of_int k :: uint32) = n - nat k"
    using w n by (simp add: unat_sub)
qed

lemma SendInternal_direct:
  assumes "iob_inv (write_buf h)" and "\<not> write_waiting h" and "content (write_buf h) = []"
    and "0 \<le> send data" and "send data \<le> int (length data)" and "length data < 2 ^ 32"
  shows "\<exists>wb. SendInternal send data h =
       Some (h\<lparr>submitted := submitted h @ data,
               kernel_bytes := kernel_bytes h @ take (nat (send data)) data,
               write_buf := wb, write_waiting := (nat (send data) < length data)\<rparr>) \<and>
     iob_inv wb \<and> content wb = drop (nat (send data)) data"
proof (cases "nat (send data) < length data")
  case True
  obtain wb where "Write (write_buf h) (drop (nat (send data)) data) = Some wb" "iob_inv wb"
    "content wb = drop (nat (send data)) data"
    using does_Write [OF assms(1)] assms(3) by (metis append_Nil does_def)
  with True assms nwrote_count [OF assms(4-6)] show ?thesis
    by (auto simp: SendInternal_def Let_def ReadableBytes_content)
next
  case False
  with assms nwrote_count [OF assms(4-6)] show ?thesis
    by (auto simp: SendInternal_def Let_def ReadableBytes_content intro!: exI [of _ "write_buf h"])
qed

lemma SendInternal_queued:
  assumes "iob_inv (write_buf h)" and "write_waiting h \<or> content (write_buf h) \<noteq> []"
    and "length data < 2 ^ 32"
  shows "\<exists>wb. SendInternal send data h =
       Some (h\<lparr>submitted := submitted h @ data, write_buf := wb,
               write_waiting := (write_waiting h \<or> data \<noteq> [])\<rparr>) \<and>
     iob_inv wb \<and> content wb = content (write_buf h) @ data"
proof (cases "data = []")
  case True
  with assms show ?thesis
    by (auto simp: SendInternal_def Let_def ReadableBytes_content intro!: exI [of _ "write_buf h"])
next
  case False
  obtain wb where "Write (write_buf h) data = Some wb" "iob_inv wb"
    "content wb = content (write_buf h) @ data"
    using does_Write [OF assms(1)] by auto
  with False assms nwrote_count(3) [of 0, OF _ _ assms(3)] show ?thesis
    by (auto simp: SendInternal_def Let_def ReadableBytes_content)
qed

lemma SendInternal_error:
  assumes "\<not> write_waiting h" and "ReadableBytes (write_buf h) = 0"
    and "send data = -1" and "length data < 2 ^ 32 - 1"
  shows "SendInternal send data h = None"
proof -
  have "unat (of_nat (length data) - word_of_int (-1) :: uint32) = Suc (length data)"
    using assms(4) by (simp add: unat_word_ariths unat_of_nat take_bit_nat_eq_self)
  moreover have "unat (of_nat (length data) :: uint32) = length data"
    using assms(4) by (simp add: unat_of_nat take_bit_nat_eq_self)
  ultimately show ?thesis
    using assms by (simp add: SendInternal_def Let_def)
qed

lemma send_step_inv:
  assumes "send_inv h" and "send_contract send" and "length data < 2 ^ 32 - 1"
    and "SendInternal send data h = Some h'"
  shows "send_inv h'"
proof (cases "write_waiting h")
  case True
  then have "content (write_buf h) \<noteq> []" using assms(1) by (simp add: send_inv_def)
  with True SendInternal_queued [of h data send] assms show ?thesis
    by (auto simp: send_inv_def)
next
  case False
  then have e: "content (write_buf h) = []" using assms(1) by (simp add: send_inv_def)
  then have "ReadableBytes (write_buf h) = 0"
    using assms(1) by (simp add: send_inv_def ReadableBytes_content)
  then have "send data \<noteq> -1"
    using SendInternal_error [OF False, of send data] assms(3,4) by auto
  then have k: "0 \<le> send data" "send data \<le> int (length data)"
    using assms(2) by (auto simp: send_contract_def dest: spec [of _ data])
  obtain wb where "h' = h\<lparr>submitted := submitted h @ data,
               kernel_bytes := kernel_bytes h @ take (nat (send data)) data,
               write_buf := wb, write_waiting := (nat (send data) < length data)\<rparr>"
     "iob_inv wb" "content wb = drop (nat (send data)) data"
    using SendInternal_direct [where h = h and send = send and data = data] False e k assms(1,3,4)
    by (auto simp: send_inv_def)
  with e assms(1) show ?thesis by (auto simp: send_inv_def)
qed

lemma OnWrite_inv:
  assumes "send_inv h" and "send_contract send" and "OnWrite send h = Some h'"
  shows "send_inv h'"
proof -
  let ?n = "nat (send (content (write_buf h)))"
  have n: "?n \<le> length (content (write_buf h))"
    using assms(2) by (simp add: send_contract_def nat_le_iff)
  have inv: "iob_inv (write_buf h)" using assms(1) by (simp add: send_inv_def)
  from does_Retrieve [OF inv n] obtain wb where wb: "Retrieve (write_buf h) ?n = Some wb"
    "iob_inv wb" "content wb = drop ?n (content (write_buf h))" by auto
  show ?thesis
    using assms(1,3) wb
    by (auto simp: OnWrite_def send_inv_def Let_def ReadableBytes_content split: if_splits)
qed

lemma io_step_inv: "io_step h h' \<Longrightarrow> send_inv h \<Longrightarrow> send_inv h'"
proof (induction rule: io_step.induct)
  case (io_read readv on_data on_closed h h')
  then show ?case by (simp add: send_inv_def Read_keeps_send_side [OF io_read(1)])
next
  case (io_close h on_closed)
  then show ?case by (simp add: send_inv_def IOHandler_Close_def)
qed (auto intro: send_step_inv OnWrite_inv)

lemma io_reachable_inv: "io_reachable h \<Longrightarrow> send_inv h"
proof (induction rule: io_reachable.induct)
  case (io_start s)
  show ?case by (simp add: send_inv_def new_IOHandler_def)
next
  case (io_next h h')
  then show ?case by (auto intro: io_step_inv)
qed

section \<open>Properties\<close>

text \<open>
  C2: on every reachable connection the bytes the kernel accepted followed by the bytes in the
  write buffer are exactly the bytes callers submitted, in order, and the handler waits for
  writability exactly while bytes are pending.
\<close>

theorem send_stream_integrity:
  assumes "io_reachable h"
  shows "kernel_bytes h @ content (write_buf h) = submitted h \<and>
     (write_waiting h \<longleftrightarrow> content (write_buf h) \<noteq> [])"
  using io_reachable_inv [OF assms] by (simp add: send_inv_def)

theorem send_stream_integrity_witness:
  "\<exists>h :: unit io_handler. io_reachable h \<and> submitted h = [1, 2, 3] \<and> kernel_bytes h = [1, 2] \<and>
     kernel_bytes h @ content (write_buf h) = submitted h \<and> write_waiting h"
proof -
  let ?send = "\<lambda>bs. if length bs \<le> 2 then int (length bs) else 2" and ?d = "[1, 2, 3] :: byte list"
  have c: "send_contract ?send" by (simp add: send_contract_def)
  obtain h where h: "SendInternal ?send ?d (new_IOHandler ()) = Some h"
    "submitted h = [1, 2, 3]" "kernel_bytes h = [1, 2]" "content (write_buf h) = [3]"
    using SendInternal_direct [of "new_IOHandler ()" ?send ?d] by (auto simp: new_IOHandler_def)
  have "io_reachable h"
    by (rule io_next [OF io_start io_send [OF c _ h(1)]]) simp
  with h send_stream_integrity [OF this] show ?thesis by auto
qed

text \<open>
  A send that fails on an idle connection, for instance with EAGAIN when the kernel buffer is
  full, is not handled: the error branch cannot be reached because nwrote is unsigned, and
  SendInternal runs into its DCHECK (in a build without it, it copies data_len + 1 bytes from
  far outside the caller's block) instead of queueing the bytes.
\<close>

theorem SendInternal_send_error:
  assumes "\<not> write_waiting h" and "ReadableBytes (write_buf h) = 0"
    and "send data = -1" and "length data < 2 ^ 32 - 1"
  shows "SendInternal send data h = None"
  using assms by (rule SendInternal_error)

theorem SendInternal_send_error_witness:
  "SendInternal (\<lambda>_. -1) [1, 2, 3] (new_IOHandler ()) = None"
  by (rule SendInternal_send_error) (simp_all add: new_IOHandler_def ReadableBytes_def new_IOBuffer_def)

end
