(* ===== verification/Framing.thy ===== *)
theory Framing
  imports IOHandler
begin

text \<open>
  The contract shared by the three codecs of net/codec: a frame decoder on the readable bytes of
  a connection. A decoder looks at a byte list and finds it incomplete, malformed, or starting
  with a frame. The lemmas of the locale hold for every decoder whose answer is stable under more
  input: draining a byte stream does not depend on how the stream was cut into reads.
\<close>

datatype 'p frame = Incomplete | Malformed | Frame 'p "byte list"

locale framing =
  fixes dec :: "byte list \<Rightarrow> 'p frame"
    and enc :: "'p \<Rightarrow> byte list"
    and valid :: "'p \<Rightarrow> bool"
  assumes dec_more: "dec xs = Frame p r \<Longrightarrow> dec (xs @ ys) = Frame p (r @ ys)"
    and dec_bad: "dec xs = Malformed \<Longrightarrow> dec (xs @ ys) = Malformed"
    and dec_less: "dec xs = Frame p r \<Longrightarrow> length r < length xs"
    and dec_nil: "dec [] = Incomplete"
    and dec_enc: "valid p \<Longrightarrow> dec (enc p @ ys) = Frame p ys"
begin

text \<open>All complete frames of a byte list, and the bytes left over (None after a malformed one).\<close>

function drain :: "byte list \<Rightarrow> 'p list \<times> byte list option" where
  "drain xs = (case dec xs of
       Incomplete \<Rightarrow> ([], Some xs)
     | Malformed \<Rightarrow> ([], None)
     | Frame p r \<Rightarrow> (let (ps, rest) = drain r in (p # ps, rest)))"
  by pat_completeness auto
termination
  by (relation "measure length") (auto dest: dec_less)

declare drain.simps [simp del]

text \<open>What arrives later is decoded as if it had arrived at once.\<close>

lemma drain_append:
  "drain (xs @ ys) = (case drain xs of
       (ps, None) \<Rightarrow> (ps, None)
     | (ps, Some r) \<Rightarrow> (let (qs, r') = drain (r @ ys) in (ps @ qs, r')))"
proof (induction xs rule: drain.induct)
  case (1 xs)
  show ?case
  proof (cases "dec xs")
    case Incomplete
    then show ?thesis by (simp add: drain.simps [of xs])
  next
    case Malformed
    then show ?thesis by (simp add: drain.simps [of xs] drain.simps [of "xs @ ys"] dec_bad)
  next
    case (Frame p r)
    note IH = "1.IH" [OF Frame]
    from Frame have "dec (xs @ ys) = Frame p (r @ ys)" by (rule dec_more)
    with Frame IH show ?thesis
      by (simp add: drain.simps [of xs] drain.simps [of "xs @ ys"] split: prod.splits option.splits)
  qed
qed

lemma drain_encoded:
  assumes "list_all valid ps"
  shows "drain (concat (map enc ps) @ ys) = (let (qs, r) = drain ys in (ps @ qs, r))"
  using assms
proof (induction ps)
  case Nil
  then show ?case by simp
next
  case (Cons p ps)
  then have "dec (enc p @ (concat (map enc ps) @ ys)) = Frame p (concat (map enc ps) @ ys)"
    by (simp add: dec_enc)
  with Cons show ?case
    by (simp add: drain.simps [of "enc p @ concat (map enc ps) @ ys"] split: prod.splits)
qed

lemma drain_all:
  assumes "list_all valid ps"
  shows "drain (concat (map enc ps)) = (ps, Some [])"
  using drain_encoded [OF assms, of "[]"] by (simp add: drain.simps [of "[]"] dec_nil)

text \<open>Decoding chunk by chunk, keeping what is left over for the next chunk.\<close>

fun feed :: "byte list \<Rightarrow> byte list list \<Rightarrow> 'p list \<times> byte list option" where
  "feed rest [] = ([], Some rest)"
| "feed rest (c # cs) = (case drain (rest @ c) of
       (ps, None) \<Rightarrow> (ps, None)
     | (ps, Some rest') \<Rightarrow> (let (qs, r) = feed rest' cs in (ps @ qs, r)))"

lemma drain_rest: "drain xs = (ps, Some r) \<Longrightarrow> drain r = ([], Some r)"
proof (induction xs arbitrary: ps r rule: drain.induct)
  case (1 xs)
  show ?case
  proof (cases "dec xs")
    case Incomplete
    then have "drain xs = ([], Some xs)" by (simp add: drain.simps [of xs])
    with "1.prems" show ?thesis by simp
  next
    case Malformed
    with "1.prems" show ?thesis by (simp add: drain.simps [of xs])
  next
    case (Frame p r')
    with "1.prems" "1.IH" [OF Frame] show ?thesis
      by (auto simp: drain.simps [of xs] split: prod.splits)
  qed
qed

lemma feed_drain:
  assumes "drain rest = ([], Some rest)"
  shows "feed rest cs = drain (rest @ concat cs)"
  using assms
proof (induction cs arbitrary: rest)
  case Nil
  then show ?case by simp
next
  case (Cons c cs)
  show ?case
    using drain_append [of "rest @ c" "concat cs"] Cons.IH drain_rest [of "rest @ c"]
    by (auto split: prod.splits option.splits)
qed

text \<open>
  The stream of the encodings of valid packets, cut into arbitrary chunks, decodes to exactly
  these packets in order.
\<close>

lemma feed_stream:
  assumes "list_all valid ps" and "concat cs = concat (map enc ps)"
  shows "feed [] cs = (ps, Some [])"
  using feed_drain [of "[]" cs] drain_all [OF assms(1)] assms(2)
  by (simp add: drain.simps [of "[]"] dec_nil)

end

section \<open>A codec on a connection\<close>

text \<open>
  A run of IOHandler::Read callbacks, one per chunk the kernel delivers, until the connection is
  closed; and a delegate that records the packets it is handed and answers 0.
\<close>

fun conn_reads ::
  "('s \<Rightarrow> IOBuffer \<Rightarrow> (int \<times> 's \<times> IOBuffer) option) \<Rightarrow> 's io_handler \<Rightarrow> byte list list \<Rightarrow>
   's io_handler option" where
  "conn_reads on_data h [] = Some h"
| "conn_reads on_data h (c # cs) =
     (if socket_open h
      then IOHandler_Read (\<lambda>_. Inr c) on_data id h \<bind> (\<lambda>h'. conn_reads on_data h' cs)
      else Some h)"

definition log_delegate :: "'p list \<Rightarrow> 'p \<Rightarrow> int \<times> 'p list" where
  "log_delegate s p = (0, s @ [p])"

lemma IOHandler_Read_chunk:
  assumes "iob_inv (read_buf h)" and "c \<noteq> []"
  obtains rb where "iob_inv rb" "content rb = content (read_buf h) @ c"
    "IOHandler_Read (\<lambda>_. Inr c) on_data on_closed h = do {
       (ret, s', rb') \<leftarrow> on_data (dstate h) rb;
       let h' = h\<lparr>read_buf := rb', dstate := s'\<rparr>;
       Some (if ret \<noteq> 0 then IOHandler_Close on_closed h' else h')
     }"
  using does_ReadFd [OF assms(1), of "\<lambda>_. Inr c" c] assms(2)
  by (auto simp: IOHandler_Read_def)

text \<open>A codec that hands over at most one frame per callback.\<close>

locale one_frame_codec = framing dec enc valid
  for dec :: "byte list \<Rightarrow> 'p frame" and enc valid +
  fixes on_data :: "'p list \<Rightarrow> IOBuffer \<Rightarrow> (int \<times> 'p list \<times> IOBuffer) option"
  assumes on_data_frame: "iob_inv b \<Longrightarrow> case dec (content b) of
       Incomplete \<Rightarrow> on_data s b = Some (0, s, b)
     | Malformed \<Rightarrow> on_data s b = Some (-1, s, b)
     | Frame p r \<Rightarrow> \<exists>b'. on_data s b = Some (0, s @ [p], b') \<and> iob_inv b' \<and> content b' = r"
begin

lemma conn_reads_split:
  assumes "iob_inv (read_buf h)" and "socket_open h" and "[] \<notin> set cs"
    and "drain (content (read_buf h) @ concat cs) = (qs, Some r)"
  shows "\<exists>h' ps qs'. conn_reads on_data h cs = Some h' \<and> socket_open h' \<and>
     dstate h' = dstate h @ ps \<and> drain (content (read_buf h')) = (qs', Some r) \<and> qs = ps @ qs' \<and>
     length ps \<le> length cs"
  using assms
proof (induction cs arbitrary: h qs)
  case Nil
  then show ?case by auto
next
  case (Cons c cs)
  from Cons.prems(3) have "c \<noteq> []" by auto
  from IOHandler_Read_chunk [OF Cons.prems(1) this, of on_data id]
  obtain rb where rb: "iob_inv rb" "content rb = content (read_buf h) @ c"
    "IOHandler_Read (\<lambda>_. Inr c) on_data id h = do {
       (ret, s', rb') \<leftarrow> on_data (dstate h) rb;
       let h' = h\<lparr>read_buf := rb', dstate := s'\<rparr>;
       Some (if ret \<noteq> 0 then IOHandler_Close id h' else h')
     }" by blast
  note law = on_data_frame [OF rb(1), of "dstate h"]
  have d: "drain (content rb @ concat cs) = (qs, Some r)" using Cons.prems(4) rb(2) by simp
  show ?case
  proof (cases "dec (content rb)")
    case Incomplete
    let ?h = "h\<lparr>read_buf := rb, dstate := dstate h\<rparr>"
    have "conn_reads on_data h (c # cs) = conn_reads on_data ?h cs"
      using law Incomplete rb(3) Cons.prems(2) by simp
    with Cons.IH [of ?h qs] rb(1) d Cons.prems(2,3) show ?thesis by fastforce
  next
    case Malformed
    then have "dec (content rb @ concat cs) = Malformed" by (rule dec_bad)
    with d show ?thesis by (simp add: drain.simps [of "content rb @ concat cs"])
  next
    case (Frame p r')
    then obtain rb' where rb': "on_data (dstate h) rb = Some (0, dstate h @ [p], rb')" "iob_inv rb'"
      "content rb' = r'" using law by auto
    let ?h = "h\<lparr>read_buf := rb', dstate := dstate h @ [p]\<rparr>"
    have "dec (content rb @ concat cs) = Frame p (r' @ concat cs)" using Frame by (rule dec_more)
    then obtain qs1 where qs1: "qs = p # qs1" "drain (r' @ concat cs) = (qs1, Some r)"
      using d by (auto simp: drain.simps [of "content rb @ concat cs"] split: prod.splits)
    have "conn_reads on_data h (c # cs) = conn_reads on_data ?h cs"
      using rb(3) rb' Cons.prems(2) by simp
    with Cons.IH [of ?h qs1] rb' qs1 Cons.prems(2,3) show ?thesis by fastforce
  qed
qed

lemma conn_stream:
  assumes "list_all valid ps" and "concat cs = concat (map enc ps)" and "[] \<notin> set cs"
  shows "\<exists>h qs. conn_reads on_data (new_IOHandler []) cs = Some h \<and> socket_open h \<and>
     ps = dstate h @ qs \<and> drain (content (read_buf h)) = (qs, Some [])"
  using conn_reads_split [of "new_IOHandler []" cs ps "[]"] assms drain_all [OF assms(1)]
  by (auto simp: new_IOHandler_def)

end

text \<open>A codec that hands over every complete frame before it returns.\<close>

locale draining_codec = framing dec enc valid
  for dec :: "byte list \<Rightarrow> 'p frame" and enc valid +
  fixes on_data :: "'p list \<Rightarrow> IOBuffer \<Rightarrow> (int \<times> 'p list \<times> IOBuffer) option"
  assumes on_data_drain: "iob_inv b \<Longrightarrow> drain (content b) = (ps, rest) \<Longrightarrow>
     \<exists>b'. on_data s b = Some (if rest = None then -1 else 0, s @ ps, b') \<and> iob_inv b' \<and>
       (\<forall>r. rest = Some r \<longrightarrow> content b' = r)"
begin

lemma conn_reads_drain:
  assumes "iob_inv (read_buf h)" and "socket_open h" and "[] \<notin> set cs"
    and "drain (content (read_buf h)) = ([], Some (content (read_buf h)))"
    and "drain (content (read_buf h) @ concat cs) = (qs, rest)"
  shows "\<exists>h'. conn_reads on_data h cs = Some h' \<and> dstate h' = dstate h @ qs \<and>
     (socket_open h' \<longleftrightarrow> rest \<noteq> None) \<and> (\<forall>r. rest = Some r \<longrightarrow> content (read_buf h') = r)"
  using assms
proof (induction cs arbitrary: h qs)
  case Nil
  then show ?case by auto
next
  case (Cons c cs)
  from Cons.prems(3) have "c \<noteq> []" by auto
  from IOHandler_Read_chunk [OF Cons.prems(1) this, of on_data id]
  obtain rb where rb: "iob_inv rb" "content rb = content (read_buf h) @ c"
    "IOHandler_Read (\<lambda>_. Inr c) on_data id h = do {
       (ret, s', rb') \<leftarrow> on_data (dstate h) rb;
       let h' = h\<lparr>read_buf := rb', dstate := s'\<rparr>;
       Some (if ret \<noteq> 0 then IOHandler_Close id h' else h')
     }" by blast
  obtain ps1 rest1 where d1: "drain (content rb) = (ps1, rest1)" by fastforce
  from on_data_drain [OF rb(1) d1, of "dstate h"] obtain rb' where
    rb': "on_data (dstate h) rb = Some (if rest1 = None then -1 else 0, dstate h @ ps1, rb')"
    "iob_inv rb'" "\<And>r. rest1 = Some r \<Longrightarrow> content rb' = r" by blast
  have app: "drain (content rb @ concat cs) = (qs, rest)" using Cons.prems(5) rb(2) by simp
  let ?h = "h\<lparr>read_buf := rb', dstate := dstate h @ ps1\<rparr>"
  show ?case
  proof (cases rest1)
    case None
    with app d1 drain_append [of "content rb" "concat cs"] have "qs = ps1" "rest = None" by auto
    moreover have "conn_reads on_data (IOHandler_Close id ?h) cs = Some (IOHandler_Close id ?h)"
      by (cases cs) (auto simp: IOHandler_Close_def)
    then have "conn_reads on_data h (c # cs) = Some (IOHandler_Close id ?h)"
      using None rb(3) rb'(1) Cons.prems(2) by simp
    ultimately show ?thesis by (simp add: IOHandler_Close_def)
  next
    case (Some r1)
    with rb'(3) have c1: "content rb' = r1" by simp
    obtain qs1 where qs1: "qs = ps1 @ qs1" "drain (r1 @ concat cs) = (qs1, rest)"
      using app d1 Some drain_append [of "content rb" "concat cs"] by (auto split: prod.splits)
    have stuck: "drain r1 = ([], Some r1)" using drain_rest d1 Some by blast
    have "conn_reads on_data h (c # cs) = conn_reads on_data ?h cs"
      using Some rb(3) rb'(1) Cons.prems(2) by simp
    with Cons.IH [of ?h qs1] rb'(2) c1 qs1 stuck Cons.prems(2,3) show ?thesis by fastforce
  qed
qed

lemma conn_stream:
  assumes "list_all valid ps" and "concat cs = concat (map enc ps)" and "[] \<notin> set cs"
  shows "\<exists>h. conn_reads on_data (new_IOHandler []) cs = Some h \<and> socket_open h \<and>
     dstate h = ps \<and> content (read_buf h) = []"
  using conn_reads_drain [of "new_IOHandler []" cs ps "Some []"] assms drain_all [OF assms(1)]
  by (auto simp: new_IOHandler_def drain.simps [of "[]"] dec_nil)

end

end
