(* ===== verification/LengthHeader.thy ===== *)
theory LengthHeader
  imports Framing
begin

text \<open>
  The length-prefixed codec: net/codec/length_header/length_header_codec.h and .cc. The while
  loop of OnDataReceived is a partial function with None for a firing DCHECK or a loop that does
  not end (a codec built with header_len_ = 0 on a zero length); for the default header of four
  bytes the loop returns on every buffer.
\<close>

section \<open>Definitions\<close>

partial_function (option) LengthHeader_loop ::
  "('s \<Rightarrow> byte list \<Rightarrow> int \<times> 's) \<Rightarrow> nat \<Rightarrow> int \<Rightarrow> 's \<Rightarrow> IOBuffer \<Rightarrow> (int \<times> 's \<times> IOBuffer) option" where
  "LengthHeader_loop delegate header_len ret s data =
     (if header_len \<le> ReadableBytes data then do {
        len \<leftarrow> PeekBigEndianInt32 data;
        if sint len > 65536 \<or> sint len < 0 then Some (-1, s, data)
        else if unat len + header_len \<le> ReadableBytes data then do {
          data1 \<leftarrow> Retrieve data header_len;
          (ret', s') \<leftarrow> Some (delegate s (take (unat len) (content data1)));
          data2 \<leftarrow> Retrieve data1 (unat len);
          (if ret' = -1 then Some (ret', s', data2)
           else LengthHeader_loop delegate header_len ret' s' data2)
        }
        else Some (ret, s, data)
      }
      else Some (ret, s, data))"

definition LengthHeader_OnDataReceived ::
  "('s \<Rightarrow> byte list \<Rightarrow> int \<times> 's) \<Rightarrow> nat \<Rightarrow> 's \<Rightarrow> IOBuffer \<Rightarrow> (int \<times> 's \<times> IOBuffer) option" where
  "LengthHeader_OnDataReceived delegate header_len s data =
     LengthHeader_loop delegate header_len 0 s data"

section \<open>The codec as a frame decoder\<close>

definition lh_dec :: "byte list \<Rightarrow> byte list frame" where
  "lh_dec xs =
     (if length xs < 4 then Incomplete
      else let len = be_to_word (take 4 xs) :: uint32
           in if sint len > 65536 \<or> sint len < 0 then Malformed
              else if length xs < unat len + 4 then Incomplete
              else Frame (take (unat len) (drop 4 xs)) (drop (unat len + 4) xs))"

definition lh_enc :: "byte list \<Rightarrow> byte list" where
  "lh_enc p = be32_bytes (of_nat (length p)) @ p"

definition lh_valid :: "byte list \<Rightarrow> bool" where
  "lh_valid p \<longleftrightarrow> length p \<le> 65536"

lemma lh_len:
  assumes "n \<le> 65536"
  shows "unat (of_nat n :: uint32) = n" and "sint (of_nat n :: uint32) = int n"
proof -
  show u: "unat (of_nat n :: uint32) = n"
    using assms by (simp add: unat_of_nat take_bit_nat_eq_self)
  show "sint (of_nat n :: uint32) = int n"
    using assms by (simp add: signed_of_nat signed_take_bit_int_eq_self)
qed

interpretation lh: framing lh_dec lh_enc lh_valid
proof
  fix xs ys p r
  show "lh_dec (xs @ ys) = Frame p (r @ ys)" if "lh_dec xs = Frame p r"
    using that by (auto simp: lh_dec_def Let_def split: if_splits)
  show "lh_dec (xs @ ys) = Malformed" if "lh_dec xs = Malformed"
    using that by (auto simp: lh_dec_def Let_def split: if_splits)
  show "length r < length xs" if "lh_dec xs = Frame p r"
    using that by (auto simp: lh_dec_def Let_def split: if_splits)
  show "lh_dec [] = Incomplete" by (simp add: lh_dec_def)
  show "lh_dec (lh_enc p @ ys) = Frame p ys" if "lh_valid p"
    using that by (simp add: lh_dec_def lh_enc_def lh_valid_def lh_len bytes_simps)
qed

text \<open>One turn of the loop, in terms of the decoder.\<close>

lemma LengthHeader_loop_step:
  assumes "iob_inv b"
  shows "case lh_dec (content b) of
      Incomplete \<Rightarrow> LengthHeader_loop delegate 4 ret s b = Some (ret, s, b)
    | Malformed \<Rightarrow> LengthHeader_loop delegate 4 ret s b = Some (-1, s, b)
    | Frame p r \<Rightarrow> \<exists>b'. iob_inv b' \<and> content b' = r \<and>
        LengthHeader_loop delegate 4 ret s b =
          (if fst (delegate s p) = -1 then Some (-1, snd (delegate s p), b')
           else LengthHeader_loop delegate 4 (fst (delegate s p)) (snd (delegate s p)) b')"
proof (cases "length (content b) < 4")
  case True
  then show ?thesis
    using assms by (simp add: lh_dec_def LengthHeader_loop.simps ReadableBytes_content)
next
  case False
  let ?len = "be_to_word (take 4 (content b)) :: uint32"
  have peek: "PeekBigEndianInt32 b = Some ?len"
    using False assms by (simp add: PeekBigEndianInt32_def buf_simps)
  consider "sint ?len > 65536 \<or> sint ?len < 0"
    | "\<not> (sint ?len > 65536 \<or> sint ?len < 0)" "length (content b) < unat ?len + 4"
    | "\<not> (sint ?len > 65536 \<or> sint ?len < 0)" "unat ?len + 4 \<le> length (content b)"
    by linarith
  then show ?thesis
  proof cases
    case 1
    then show ?thesis using False assms peek
      by (auto simp: lh_dec_def LengthHeader_loop.simps [of _ _ _ _ b] ReadableBytes_content)
  next
    case 2
    then show ?thesis using False assms peek
      by (auto simp: lh_dec_def LengthHeader_loop.simps [of _ _ _ _ b] ReadableBytes_content)
  next
    case 3
    obtain b1 where b1: "Retrieve b 4 = Some b1" "iob_inv b1" "content b1 = drop 4 (content b)"
      using does_Retrieve [OF assms, of 4] False by auto
    have "unat ?len \<le> length (content b1)" using 3(2) b1(3) by simp
    then obtain b2 where b2: "Retrieve b1 (unat ?len) = Some b2" "iob_inv b2"
      "content b2 = drop (unat ?len) (drop 4 (content b))"
      using does_Retrieve [OF b1(2), of "unat ?len"] b1(3) by auto
    have dec: "lh_dec (content b) =
        Frame (take (unat ?len) (drop 4 (content b))) (drop (unat ?len + 4) (content b))"
      using 3 False by (simp add: lh_dec_def Let_def)
    have "LengthHeader_loop delegate 4 ret s b =
        (let p = take (unat ?len) (drop 4 (content b)) in
         if fst (delegate s p) = -1 then Some (-1, snd (delegate s p), b2)
         else LengthHeader_loop delegate 4 (fst (delegate s p)) (snd (delegate s p)) b2)"
      using 3 False assms peek b1 b2
      by (subst LengthHeader_loop.simps)
         (auto simp: ReadableBytes_content Let_def split: prod.splits)
    with dec b2 show ?thesis by (auto simp: Let_def)
  qed
qed

text \<open>
  The whole loop, for a delegate that does not ask to close: it hands over exactly the frames
  that draining the readable bytes gives, and returns for every buffer.
\<close>

lemma LengthHeader_loop_drain:
  assumes "iob_inv b" and "\<And>s p. fst (delegate s p) = 0"
    and "lh.drain (content b) = (ps, rest)"
  shows "\<exists>b'. LengthHeader_loop delegate 4 0 s b =
       Some (if rest = None then -1 else 0, foldl (\<lambda>s p. snd (delegate s p)) s ps, b') \<and>
     iob_inv b' \<and> (\<forall>r. rest = Some r \<longrightarrow> content b' = r)"
  using assms(1,3)
proof (induction "content b" arbitrary: b s ps rest rule: lh.drain.induct)
  case 1
  note step = LengthHeader_loop_step [OF "1.prems"(1), of delegate 0 s]
  show ?case
  proof (cases "lh_dec (content b)")
    case Incomplete
    with step "1.prems" show ?thesis by (auto simp: lh.drain.simps [of "content b"])
  next
    case Malformed
    with step "1.prems" show ?thesis by (auto simp: lh.drain.simps [of "content b"])
  next
    case (Frame p r)
    from step Frame obtain b' where b': "iob_inv b'" "content b' = r"
      "LengthHeader_loop delegate 4 0 s b = LengthHeader_loop delegate 4 0 (snd (delegate s p)) b'"
      by (auto simp: assms(2))
    obtain qs where qs: "ps = p # qs" "lh.drain r = (qs, rest)"
      using "1.prems"(2) Frame by (auto simp: lh.drain.simps [of "content b"] split: prod.splits)
    from "1.hyps" [OF Frame [folded b'(2)] b'(1)] qs(2) b'
    show ?thesis unfolding qs(1) by simp
  qed
qed

lemma foldl_log: "foldl (\<lambda>s p. snd (log_delegate s p)) s ps = s @ ps"
  by (induction ps arbitrary: s) (auto simp: log_delegate_def)

interpretation lh_codec: draining_codec lh_dec lh_enc lh_valid
  "LengthHeader_OnDataReceived log_delegate 4"
proof
  fix b s ps rest
  assume b: "iob_inv b" and d: "lh.drain (content b) = (ps, rest)"
  have "\<And>(s :: byte list list) p. fst (log_delegate s p) = 0" by (simp add: log_delegate_def)
  from LengthHeader_loop_drain [where delegate = log_delegate and s = s, OF b this d]
  show "\<exists>b'. LengthHeader_OnDataReceived log_delegate 4 s b =
      Some (if rest = None then -1 else 0, s @ ps, b') \<and> iob_inv b' \<and>
      (\<forall>r. rest = Some r \<longrightarrow> content b' = r)"
    unfolding LengthHeader_OnDataReceived_def foldl_log .
qed

section \<open>Properties\<close>

text \<open>
  C23: length-prefixed packets of at most 65536 bytes arrive whole and in order however the
  network cuts the stream into reads: after the last read the delegate has been handed exactly
  these packets, the connection is open and the read buffer is empty.
\<close>

theorem length_header_stream:
  assumes "list_all lh_valid ps" and "concat cs = concat (map lh_enc ps)" and "[] \<notin> set cs"
  shows "\<exists>h. conn_reads (LengthHeader_OnDataReceived log_delegate 4) (new_IOHandler []) cs = Some h \<and>
     socket_open h \<and> dstate h = ps \<and> content (read_buf h) = []"
  using assms by (rule lh_codec.conn_stream)

theorem length_header_stream_witness:
  "list_all lh_valid [[7, 8], []] \<and>
   (\<exists>h. conn_reads (LengthHeader_OnDataReceived log_delegate 4) (new_IOHandler [])
      [[0, 0], [0, 2, 7], [8, 0, 0, 0, 0]] = Some h \<and>
     socket_open h \<and> dstate h = [[7, 8], []] \<and> content (read_buf h) = [])"
proof -
  have v: "list_all lh_valid [[7, 8], []]" by (simp add: lh_valid_def)
  have "concat [[0, 0], [0, 2, 7], [8, 0, 0, 0, 0]] = concat (map lh_enc [[7, 8], []])"
    by (simp add: lh_enc_def be32_bytes_def)
  from v length_header_stream [OF v this] show ?thesis by simp
qed

text \<open>
  C40: the receive loop returns for every buffer: with the default four-byte header
  and any delegate it ends, no DCHECK of the buffer fires and the buffer stays well formed.
\<close>

theorem length_header_terminates:
  assumes "iob_inv b"
  shows "\<exists>ret s' b'. LengthHeader_OnDataReceived delegate 4 s b = Some (ret, s', b') \<and> iob_inv b'"
proof -
  have "\<exists>ret' s' b'. LengthHeader_loop delegate 4 ret s b = Some (ret', s', b') \<and> iob_inv b'" for ret
    using assms
  proof (induction "content b" arbitrary: b s ret rule: lh.drain.induct)
    case 1
    note step = LengthHeader_loop_step [OF "1.prems", of delegate ret s]
    show ?case
    proof (cases "lh_dec (content b)")
      case (Frame p r)
      with step obtain b' where b': "iob_inv b'" "content b' = r" and
        eq: "LengthHeader_loop delegate 4 ret s b =
          (if fst (delegate s p) = -1 then Some (-1, snd (delegate s p), b')
           else LengthHeader_loop delegate 4 (fst (delegate s p)) (snd (delegate s p)) b')" by auto
      from "1.hyps" [OF Frame [folded b'(2)] b'(1)] b'(1) eq show ?thesis by auto
    qed (use step "1.prems" in auto)
  qed
  then show ?thesis by (simp add: LengthHeader_OnDataReceived_def)
qed

theorem length_header_terminates_witness:
  "iob_inv (new_IOBuffer 64) \<and>
   (\<exists>ret s' b'. LengthHeader_OnDataReceived log_delegate 4 [] (new_IOBuffer 64) = Some (ret, s', b') \<and> iob_inv b')"
  using length_header_terminates [of "new_IOBuffer 64" log_delegate "[]"] by simp

end
