(* ===== verification/ZNet.thy ===== *)
theory ZNet
  imports Framing
begin

text \<open>
  The znet protocol: net/codec/znet/znet_packet_header.h (header), packet.h and packet.cc (the
  Packet class) and znet_codec.cc (the codec). A packet is its byte block: head_ points at offset
  0 and body_ at offset kPacketHeaderSize; ext_data_ is NULL in every reachable state, because no
  code assigns it anything else. malloc gives a block of unspecified bytes.

  The handler of a decoded packet (the codec's delegate) is a parameter with its own state: it
  returns an int and the next state.
\<close>

section \<open>Definitions\<close>

definition znet_kMaxPacketSize :: uint32 where "znet_kMaxPacketSize = 2 * 1024 * 1024"
definition znet_kPacketHeaderSize :: uint32 where "znet_kPacketHeaderSize = 8"
definition znet_kPacketVersion :: uint32 where "znet_kPacketVersion = 0"

definition znet_header :: "uint16 \<Rightarrow> uint32 \<Rightarrow> byte list" where
  "znet_header message_type body_len =
     [ucast (drop_bit 8 znet_kPacketVersion AND 0xFF), ucast (znet_kPacketVersion AND 0xFF)] @
     be16_bytes message_type @ be32_bytes body_len"

definition ZNet_GeneratePacketHeader :: "byte list \<Rightarrow> uint16 \<Rightarrow> uint32 \<Rightarrow> int \<times> byte list" where
  "ZNet_GeneratePacketHeader data message_type body_len =
     (if body_len > znet_kMaxPacketSize then (-1, data)
      else (if body_len > 0 then 0 else 1, overwrite data 0 (znet_header message_type body_len)))"

text \<open>The parsed message type and body length are output parameters, written on every path.\<close>

definition ZNet_ParsePacketHeader :: "byte list \<Rightarrow> int \<times> uint16 \<times> uint32" where
  "ZNet_ParsePacketHeader data =
     (let message_type = be16_value (data ! 2) (data ! 3);
          body_len = be32_value (data ! 4) (data ! 5) (data ! 6) (data ! 7)
      in (if body_len > znet_kMaxPacketSize then -1 else if body_len = 0 then 1 else 0,
          message_type, body_len))"

subsection \<open>Packet\<close>

definition malloc :: "nat \<Rightarrow> byte list" where
  "malloc n = replicate n undefined"

type_synonym Packet = "byte list"

definition new_Packet :: "uint16 \<Rightarrow> uint32 \<Rightarrow> Packet" where
  "new_Packet cmd_type data_len =
     overwrite (malloc (unat (data_len + znet_kPacketHeaderSize))) 0 (znet_header cmd_type data_len)"

definition new_Packet_data :: "uint16 \<Rightarrow> byte list \<Rightarrow> uint32 \<Rightarrow> Packet" where
  "new_Packet_data cmd_type data data_len = overwrite data 0 (znet_header cmd_type data_len)"

definition Packet_ParsePacketHeader :: "Packet \<Rightarrow> int" where
  "Packet_ParsePacketHeader p =
     (let version = be16_value (p ! 0) (p ! 1);
          bodyLen = be32_value (p ! 4) (p ! 5) (p ! 6) (p ! 7)
      in if ucast version \<noteq> znet_kPacketVersion \<or> bodyLen > znet_kMaxPacketSize then -1
         else if bodyLen = 0 then 1 else 0)"

definition Packet_GetVersion :: "Packet \<Rightarrow> uint16" where
  "Packet_GetVersion p = be16_value (p ! 0) (p ! 1)"

definition Packet_GetCmdType :: "Packet \<Rightarrow> uint16" where
  "Packet_GetCmdType p = be16_value (p ! 2) (p ! 3)"

definition Packet_GetBodyLength :: "Packet \<Rightarrow> uint32" where
  "Packet_GetBodyLength p = be32_value (p ! 4) (p ! 5) (p ! 6) (p ! 7)"

definition Packet_GetBodyData :: "Packet \<Rightarrow> byte list" where
  "Packet_GetBodyData p = drop (unat znet_kPacketHeaderSize) p"

definition Packet_GetRawdataLength :: "Packet \<Rightarrow> uint32" where
  "Packet_GetRawdataLength p = Packet_GetBodyLength p + znet_kPacketHeaderSize"

text \<open>memcpy into GetBodyMutableData(), and the packets made of a copied body.\<close>

definition Packet_SetBody :: "Packet \<Rightarrow> byte list \<Rightarrow> Packet" where
  "Packet_SetBody p body = overwrite p (unat znet_kPacketHeaderSize) body"

definition CreatePacketData :: "uint16 \<Rightarrow> byte list \<Rightarrow> Packet" where
  "CreatePacketData cmd_type data =
     Packet_SetBody (new_Packet cmd_type (of_nat (length data))) data"

definition Packet_Clone :: "Packet \<Rightarrow> Packet" where
  "Packet_Clone p =
     overwrite (malloc (unat (znet_kPacketHeaderSize + Packet_GetBodyLength p))) 0
       (take (unat (znet_kPacketHeaderSize + Packet_GetBodyLength p)) p)"

subsection \<open>Codec\<close>

text \<open>
  ZNetCodec::OnDataReceived. Every path through the body of the while loop returns or breaks, so
  the loop runs at most once. None: a DCHECK of the buffer fired.
\<close>

definition ZNet_OnDataReceived ::
  "('s \<Rightarrow> Packet \<Rightarrow> int \<times> 's) \<Rightarrow> 's \<Rightarrow> IOBuffer \<Rightarrow> (int \<times> 's \<times> IOBuffer) option" where
  "ZNet_OnDataReceived delegate s data =
     (if ReadableBytes data \<ge> unat znet_kPacketHeaderSize then
        (let (ret, message_type, body_len) = ZNet_ParsePacketHeader (content data)
         in if ret = -1 then Some (ret, s, data)
            else if ret = 1 then do {
              let (ret', s') = delegate s (new_Packet message_type 0);
              data' \<leftarrow> Retrieve data (unat znet_kPacketHeaderSize);
              Some (ret', s', data')
            }
            else if ReadableBytes data \<ge> unat (body_len + znet_kPacketHeaderSize) then do {
              let p = Packet_SetBody (new_Packet message_type body_len)
                        (take (unat body_len) (drop (unat znet_kPacketHeaderSize) (content data)));
              let (ret', s') = delegate s p;
              data' \<leftarrow> Retrieve data (unat (body_len + znet_kPacketHeaderSize));
              Some (ret', s', data')
            }
            else Some (0, s, data))
      else Some (0, s, data))"

section \<open>Packets\<close>

lemmas znet_consts = znet_kMaxPacketSize_def znet_kPacketHeaderSize_def znet_kPacketVersion_def

lemma length_znet_header [simp]: "length (znet_header t n) = 8"
  by (simp add: znet_header_def)

lemma znet_header_eq: "znet_header t n = [0, 0] @ be16_bytes t @ be32_bytes n"
  by (simp add: znet_header_def znet_consts)

lemma znet_header_fields:
  "take 2 (drop 2 (znet_header t n)) = be16_bytes t" "take 4 (drop 4 (znet_header t n)) = be32_bytes n"
  by (simp_all add: znet_header_eq)

text \<open>The fields as the accessors read them off a block of at least eight bytes.\<close>

lemma packet_fields:
  assumes "8 \<le> length p"
  shows "Packet_GetCmdType p = be_to_word (take 2 (drop 2 p))"
    and "Packet_GetBodyLength p = be_to_word (take 4 (drop 4 p))"
    and "Packet_GetVersion p = be_to_word (take 2 p)"
  using assms be16_value_at [of 2 p] be32_value_at [of 4 p] be16_value_at [of 0 p]
  by (simp_all add: Packet_GetCmdType_def Packet_GetBodyLength_def Packet_GetVersion_def)

lemma ZNet_Parse_fields:
  assumes "8 \<le> length p"
  shows "ZNet_ParsePacketHeader p =
     (let n = be_to_word (take 4 (drop 4 p)) :: uint32
      in (if n > znet_kMaxPacketSize then -1 else if n = 0 then 1 else 0,
          be_to_word (take 2 (drop 2 p)), n))"
  using assms be16_value_at [of 2 p] be32_value_at [of 4 p]
  by (simp add: ZNet_ParsePacketHeader_def)

lemma znet_header_parse:
  "ZNet_ParsePacketHeader (znet_header t n @ xs) =
     (if n > znet_kMaxPacketSize then -1 else if n = 0 then 1 else 0, t, n)"
  by (simp add: ZNet_Parse_fields znet_header_eq bytes_simps Let_def)

lemma overwrite_all: "length xs = n \<Longrightarrow> overwrite xs 0 ys = ys @ drop (length ys) xs"
  by (simp add: overwrite_def)

lemma new_Packet_SetBody:
  assumes "length body = unat n" and "n \<le> znet_kMaxPacketSize"
  shows "Packet_SetBody (new_Packet t n) body = znet_header t n @ body"
proof -
  have "unat (n + 8) = unat n + 8"
    using assms(2) by (simp add: znet_consts word_le_nat_alt unat_word_ariths)
  then show ?thesis
    using assms(1)
    by (simp add: Packet_SetBody_def new_Packet_def malloc_def overwrite_def znet_consts)
qed

section \<open>The codec as a frame decoder\<close>

text \<open>
  What the codec sees in the readable bytes. The packet handed to the delegate carries a fresh
  header: the version bytes of the wire are not copied.
\<close>

definition znet_dec :: "byte list \<Rightarrow> Packet frame" where
  "znet_dec xs =
     (if length xs < 8 then Incomplete
      else let (ret, t, n) = ZNet_ParsePacketHeader xs
           in if ret = -1 then Malformed
              else if length xs < 8 + unat n then Incomplete
              else Frame (znet_header t n @ take (unat n) (drop 8 xs)) (drop (8 + unat n) xs))"

text \<open>The bytes SendPacket puts on the wire, for a packet whose block has the length it says.\<close>

definition znet_sent :: "Packet \<Rightarrow> byte list" where
  "znet_sent p = take (unat (Packet_GetRawdataLength p)) p"

definition znet_valid :: "Packet \<Rightarrow> bool" where
  "znet_valid p \<longleftrightarrow> 8 \<le> length p \<and> Packet_ParsePacketHeader p \<noteq> -1 \<and>
     length p = 8 + unat (Packet_GetBodyLength p)"

lemma unat_header_add:
  "n \<le> znet_kMaxPacketSize \<Longrightarrow> unat (n + znet_kPacketHeaderSize) = 8 + unat n"
  by (simp add: znet_consts word_le_nat_alt unat_word_ariths)

lemma parse_head_more:
  "8 \<le> length xs \<Longrightarrow> ZNet_ParsePacketHeader (xs @ ys) = ZNet_ParsePacketHeader xs"
  by (simp add: ZNet_ParsePacketHeader_def nth_append)

lemma znet_valid_eq:
  assumes "znet_valid p"
  shows "p = znet_header (Packet_GetCmdType p) (Packet_GetBodyLength p) @ drop 8 p"
    and "Packet_GetBodyLength p \<le> znet_kMaxPacketSize" and "znet_sent p = p"
proof -
  let ?v = "Packet_GetVersion p" and ?n = "Packet_GetBodyLength p"
  from assms have len: "8 \<le> length p" "length p = 8 + unat ?n"
    by (auto simp: znet_valid_def)
  from assms have ver: "ucast ?v = (0 :: uint32)" and n: "?n \<le> znet_kMaxPacketSize"
    by (auto simp: znet_valid_def Packet_ParsePacketHeader_def Packet_GetVersion_def
          Packet_GetBodyLength_def Let_def znet_consts not_less split: if_splits)
  have "ucast (ucast ?v :: uint32) = ?v" by (rule bit_word_eqI) (simp add: bit_simps)
  then have v0: "?v = 0" using ver by simp
  have "take 2 p = be16_bytes ?v"
    using len(1) by (simp add: packet_fields bytes_simps)
  then have "take 2 p = [0, 0]" by (simp add: v0 be16_bytes_def)
  moreover have "take 2 (drop 2 p) = be16_bytes (Packet_GetCmdType p)"
    "take 4 (drop 4 p) = be32_bytes ?n"
    using len(1) by (simp_all add: packet_fields bytes_simps)
  moreover have "p = take 2 p @ take 2 (drop 2 p) @ take 4 (drop 4 p) @ drop 8 p"
    by (simp add: take_drop_join)
  ultimately show "p = znet_header (Packet_GetCmdType p) ?n @ drop 8 p"
    by (metis append.assoc znet_header_eq)
  show "?n \<le> znet_kMaxPacketSize" by (rule n)
  show "znet_sent p = p"
    using len n by (simp add: znet_sent_def Packet_GetRawdataLength_def unat_header_add)
qed

interpretation znet: framing znet_dec znet_sent znet_valid
proof
  fix xs ys p r
  show "znet_dec (xs @ ys) = Frame p (r @ ys)" if "znet_dec xs = Frame p r"
    using that by (auto simp: znet_dec_def parse_head_more Let_def split: if_splits prod.splits)
  show "znet_dec (xs @ ys) = Malformed" if "znet_dec xs = Malformed"
    using that by (auto simp: znet_dec_def parse_head_more Let_def split: if_splits prod.splits)
  show "length r < length xs" if "znet_dec xs = Frame p r"
    using that by (auto simp: znet_dec_def Let_def split: if_splits prod.splits)
  show "znet_dec [] = Incomplete" by (simp add: znet_dec_def)
  show "znet_dec (znet_sent p @ ys) = Frame p ys" if v: "znet_valid p"
  proof -
    let ?t = "Packet_GetCmdType p" and ?n = "Packet_GetBodyLength p"
    have p: "p = znet_header ?t ?n @ drop 8 p" and n: "\<not> znet_kMaxPacketSize < ?n"
      and sent: "znet_sent p = p" using znet_valid_eq [OF v] by auto
    have len: "length (drop 8 p) = unat ?n" using v by (simp add: znet_valid_def)
    have "znet_dec (znet_header ?t ?n @ (drop 8 p @ ys)) = Frame (znet_header ?t ?n @ drop 8 p) ys"
      using n len by (simp add: znet_dec_def znet_header_parse)
    then show ?thesis using p sent by (metis append.assoc)
  qed
qed

lemma ZNet_OnDataReceived_dec:
  assumes "iob_inv b"
  shows "case znet_dec (content b) of
       Incomplete \<Rightarrow> ZNet_OnDataReceived delegate s b = Some (0, s, b)
     | Malformed \<Rightarrow> ZNet_OnDataReceived delegate s b = Some (-1, s, b)
     | Frame p r \<Rightarrow> \<exists>b'. ZNet_OnDataReceived delegate s b =
           Some (fst (delegate s p), snd (delegate s p), b') \<and> iob_inv b' \<and> content b' = r"
proof (cases "length (content b) < 8")
  case True
  then show ?thesis
    using assms by (simp add: znet_dec_def ZNet_OnDataReceived_def ReadableBytes_content znet_consts)
next
  case False
  obtain ret t n where P: "ZNet_ParsePacketHeader (content b) = (ret, t, n)" by (metis prod_cases3)
  have ret: "ret = (if n > znet_kMaxPacketSize then -1 else if n = 0 then 1 else 0)"
    using P by (auto simp: ZNet_ParsePacketHeader_def Let_def)
  show ?thesis
  proof (cases "n > znet_kMaxPacketSize")
    case True
    then show ?thesis
      using assms False P ret
      by (simp add: znet_dec_def ZNet_OnDataReceived_def ReadableBytes_content znet_kPacketHeaderSize_def)
  next
    case small: False
    have add: "unat (n + znet_kPacketHeaderSize) = 8 + unat n" using small by (intro unat_header_add) simp
    have hs: "unat znet_kPacketHeaderSize = 8" by (simp add: znet_kPacketHeaderSize_def)
    show ?thesis
    proof (cases "length (content b) < 8 + unat n")
      case True
      then have "n \<noteq> 0" using False by auto
      then show ?thesis using assms False P ret small True
        by (simp add: znet_dec_def ZNet_OnDataReceived_def ReadableBytes_content add hs)
    next
      case enough: False
      let ?p = "znet_header t n @ take (unat n) (drop 8 (content b))"
      obtain b' where b': "Retrieve b (8 + unat n) = Some b'" "iob_inv b'"
        "content b' = drop (8 + unat n) (content b)"
        using does_Retrieve [OF assms, of "8 + unat n"] enough by auto
      have body: "Packet_SetBody (new_Packet t n) (take (unat n) (drop 8 (content b))) = ?p"
        using enough small by (intro new_Packet_SetBody) auto
      then have "n = 0 \<Longrightarrow> new_Packet t 0 = ?p" by (simp add: Packet_SetBody_def)
      then have "ZNet_OnDataReceived delegate s b = Some (fst (delegate s ?p), snd (delegate s ?p), b')"
        using assms False P ret small enough b'(1) body
        by (auto simp: ZNet_OnDataReceived_def ReadableBytes_content add hs split: prod.splits)
      then show ?thesis using False P ret small enough b' by (simp add: znet_dec_def)
    qed
  qed
qed

lemma ZNet_OnDataReceived_dec_log:
  "iob_inv b \<Longrightarrow> case znet_dec (content b) of
       Incomplete \<Rightarrow> ZNet_OnDataReceived log_delegate s b = Some (0, s, b)
     | Malformed \<Rightarrow> ZNet_OnDataReceived log_delegate s b = Some (-1, s, b)
     | Frame p r \<Rightarrow> \<exists>b'. ZNet_OnDataReceived log_delegate s b = Some (0, s @ [p], b') \<and> iob_inv b' \<and> content b' = r"
  using ZNet_OnDataReceived_dec [of b log_delegate s] by (simp add: log_delegate_def split: frame.splits)

interpretation znet_codec: one_frame_codec znet_dec znet_sent znet_valid "ZNet_OnDataReceived log_delegate"
  by unfold_locales (rule ZNet_OnDataReceived_dec_log)

section \<open>Properties\<close>

text \<open>
  ParsePacketHeader recovers from a generated header exactly the message type and body
  length it was generated from, and its return code tells the same (with a body, without one),
  for every body length the protocol allows; a longer one is refused by GeneratePacketHeader
  and leaves the buffer alone.
\<close>

theorem znet_header_roundtrip:
  assumes "8 \<le> length data"
  shows "if n \<le> znet_kMaxPacketSize
     then \<exists>ret data'. ZNet_GeneratePacketHeader data t n = (ret, data') \<and> ret \<noteq> -1 \<and>
            ZNet_ParsePacketHeader data' = (ret, t, n) \<and> drop 8 data' = drop 8 data
     else ZNet_GeneratePacketHeader data t n = (-1, data)"
proof -
  have "n > 0 \<or> n = 0" using word_neq_0_conv by blast
  then show ?thesis
    by (auto simp: ZNet_GeneratePacketHeader_def overwrite_def znet_header_parse)
qed

theorem znet_header_roundtrip_witness:
  "length (replicate 8 (0 :: byte)) = 8 \<and>
   (\<exists>ret data'. ZNet_GeneratePacketHeader (replicate 8 0) 7 100 = (ret, data') \<and> ret \<noteq> -1 \<and>
            ZNet_ParsePacketHeader data' = (ret, 7, 100) \<and> drop 8 data' = [])"
  using znet_header_roundtrip [of "replicate 8 0" 100 7] by (simp add: znet_kMaxPacketSize_def)



text \<open>
  One call of ZNetCodec::OnDataReceived hands over at most one packet, although its body is
  a while loop: with two complete packets readable it delivers the first and leaves the second
  in the buffer until more data arrives.
\<close>

theorem znet_one_packet_per_call:
  assumes "iob_inv b" and "znet_valid p" and "znet_valid q"
    and "content b = znet_sent p @ znet_sent q"
  shows "\<exists>b'. ZNet_OnDataReceived log_delegate s b = Some (0, s @ [p], b') \<and>
           content b' = znet_sent q"
  using ZNet_OnDataReceived_dec_log [OF assms(1), of s] znet.dec_enc [OF assms(2)] assms(4) by auto

theorem znet_one_packet_per_call_witness:
  "\<exists>b. iob_inv b \<and> content b = znet_sent (znet_header 1 0) @ znet_sent (znet_header 2 0) \<and>
   (\<exists>b'. ZNet_OnDataReceived log_delegate [] b = Some (0, [znet_header 1 0], b') \<and>
           content b' = znet_sent (znet_header 2 0))"
proof -
  have v: "znet_valid (znet_header t 0)" for t
    by (simp add: znet_valid_def Packet_ParsePacketHeader_def Packet_GetBodyLength_def
          be16_value_def be32_value_def be16_bytes_def be32_bytes_def znet_header_def znet_consts)
  obtain b where "iob_inv b" "content b = znet_sent (znet_header 1 0) @ znet_sent (znet_header 2 0)"
    using does_Write [OF new_IOBuffer_inv, of 64] by auto
  with znet_one_packet_per_call [OF _ v v, of b 1 2 "[]"] show ?thesis by auto
qed

end
