(* ===== verification/ByteStream.thy ===== *)
theory ByteStream
  imports Prelude
begin

text \<open>
  base2/byte_stream.h and byte_stream.cc: a stream of typed values over a growing memory block,
  the base class of the packet streams.

  buffer_ is the block the stream owns (or was given); a NULL pointer is the empty block. The
  virtual member function Alloc is an argument of the operations that call it, so that the
  packet stream, which overrides it, uses the same code. malloc and realloc are a parameter: which
  sizes they can serve and what the fresh bytes hold.

  An operation ends in a fault when it accesses memory outside its block or when the loop that
  computes the new size of the block runs forever; lengths and positions are 32-bit words, and the
  sums of the bounds checks wrap around.
\<close>

section \<open>Definitions\<close>

record mem_env =
  can_alloc :: "nat \<Rightarrow> bool"
  junk :: "nat \<Rightarrow> byte"

datatype stream_fault = OutOfBounds | Hangs | CheckFailed

record ByteStream =
  buffer_of :: "byte list"
  is_new_of :: bool
  max_len_of :: uint32
  data_len_of :: uint32
  current_pos_of :: uint32
  failed_of :: uint32

type_synonym 'a stream_alloc_fun =
  "'a ByteStream_scheme \<Rightarrow> uint32 \<Rightarrow> stream_fault + bool \<times> 'a ByteStream_scheme"

definition malloc_block :: "mem_env \<Rightarrow> nat \<Rightarrow> byte list option" where
  "malloc_block M n = (if can_alloc M n then Some (map (junk M) [0..<n]) else None)"

definition realloc_block :: "mem_env \<Rightarrow> byte list \<Rightarrow> nat \<Rightarrow> byte list option" where
  "realloc_block M old n =
     (if can_alloc M n then Some (take n old @ map (junk M) [length old..<n]) else None)"

definition read_mem :: "byte list \<Rightarrow> uint32 \<Rightarrow> uint32 \<Rightarrow> stream_fault + byte list" where
  "read_mem block pos n =
     (if unat pos + unat n \<le> length block then Inr (take (unat n) (drop (unat pos) block)) else Inl OutOfBounds)"

definition write_mem :: "byte list \<Rightarrow> uint32 \<Rightarrow> byte list \<Rightarrow> stream_fault + byte list" where
  "write_mem block pos bytes =
     (if unat pos + length bytes \<le> length block then Inr (overwrite block (unat pos) bytes) else Inl OutOfBounds)"

definition new_ByteStream :: ByteStream where
  "new_ByteStream = \<lparr>buffer_of = [], is_new_of = True, max_len_of = 0, data_len_of = 0,
     current_pos_of = 0, failed_of = 0\<rparr>"

definition new_ByteStream_buffer :: "byte list \<Rightarrow> uint32 \<Rightarrow> ByteStream" where
  "new_ByteStream_buffer buffer data_len = \<lparr>buffer_of = buffer, is_new_of = False, max_len_of = data_len,
     data_len_of = data_len, current_pos_of = 0, failed_of = 0\<rparr>"

text \<open>The loop of Alloc; None: it does not end.\<close>

partial_function (option) grow_size :: "uint32 \<Rightarrow> uint32 \<Rightarrow> uint32 \<Rightarrow> uint32 option" where
  "grow_size stp n new_len = (if n < new_len then grow_size stp (n + stp) new_len else Some n)"

text \<open>The returned bool: the pointer Alloc returns is not null.\<close>

definition Alloc :: "mem_env \<Rightarrow> 'a stream_alloc_fun" where
  "Alloc M s new_len =
     (if failed_of s \<noteq> 0 then Inr (False, s)
      else if \<not> is_new_of s then Inr (False, s\<lparr>failed_of := 1\<rparr>)
      else if new_len > max_len_of s then
        (case grow_size 4096 (max_len_of s) new_len of
          None \<Rightarrow> Inl Hangs
        | Some new_buffer_size \<Rightarrow>
            (case (if buffer_of s = [] then malloc_block M (unat new_buffer_size)
                   else realloc_block M (buffer_of s) (unat new_buffer_size)) of
              None \<Rightarrow> Inr (False, s\<lparr>buffer_of := [], failed_of := 1\<rparr>)
            | Some b \<Rightarrow> Inr (b \<noteq> [], s\<lparr>buffer_of := b, max_len_of := new_buffer_size\<rparr>)))
      else Inr (buffer_of s \<noteq> [], s))"

definition Free :: "'a ByteStream_scheme \<Rightarrow> 'a ByteStream_scheme" where
  "Free s = (if is_new_of s then s\<lparr>buffer_of := []\<rparr> else s)"

subsection \<open>Position\<close>

definition Seek :: "'a ByteStream_scheme \<Rightarrow> uint32 \<Rightarrow> 32 word \<times> 'a ByteStream_scheme" where
  "Seek s pos =
     (if pos > max_len_of s then (-1, s)
      else (current_pos_of s, s\<lparr>current_pos_of := pos, failed_of := 0\<rparr>))"

definition Tell :: "'a ByteStream_scheme \<Rightarrow> uint32" where "Tell s = current_pos_of s"

definition Skip :: "'a ByteStream_scheme \<Rightarrow> uint32 \<Rightarrow> int \<times> 'a ByteStream_scheme" where
  "Skip s pos =
     (if current_pos_of s + pos > max_len_of s then (-1, s)
      else (0, s\<lparr>current_pos_of := current_pos_of s + pos, failed_of := 0\<rparr>))"

definition Fail :: "'a ByteStream_scheme \<Rightarrow> bool" where "Fail s \<longleftrightarrow> failed_of s \<noteq> 0"
definition Data :: "'a ByteStream_scheme \<Rightarrow> byte list" where "Data s = buffer_of s"
definition Length :: "'a ByteStream_scheme \<Rightarrow> uint32" where "Length s = data_len_of s"

subsection \<open>Reading\<close>

text \<open>
  The destination of a read is returned as an option: None when the code leaves it as it was.
\<close>

definition ReadRawData ::
  "'a ByteStream_scheme \<Rightarrow> uint32 \<Rightarrow> stream_fault + (int \<times> byte list option \<times> 'a ByteStream_scheme)" where
  "ReadRawData s data_len =
     (if failed_of s \<noteq> 0 then Inr (-1, None, s)
      else if current_pos_of s + data_len > max_len_of s then Inr (-1, None, s\<lparr>failed_of := 1\<rparr>)
      else if data_len = 0 then Inr (0, None, s)
      else bindE (read_mem (buffer_of s) (current_pos_of s) data_len)
        (\<lambda>bs. Inr (0, Some bs, s\<lparr>current_pos_of := current_pos_of s + data_len\<rparr>)))"

text \<open>
  The string reader with a caller's array of data_len bytes: the byte before the end is zeroed
  first, then the characters are copied over it. An access to s[l - 1] with data_len = 0 is out of
  the array.
\<close>

definition ReadString_array ::
  "'a ByteStream_scheme \<Rightarrow> byte list \<Rightarrow> uint32 \<Rightarrow> stream_fault + (int \<times> byte list \<times> 'a ByteStream_scheme)" where
  "ReadString_array st s data_len =
     bindE (ReadRawData st 4) (\<lambda>(ret, ch, st1).
       case ch of
         None \<Rightarrow> Inr (-1, s, st1)
       | Some c \<Rightarrow>
           (let l = be32_value (c ! 0) (c ! 1) (c ! 2) (c ! 3) in
            bindE (if l > data_len then
                     bindE (write_mem s (data_len - 1) [0]) (\<lambda>s'. Inr (data_len, s'))
                   else Inr (l, s)) (\<lambda>(l', s').
            bindE (ReadRawData st1 l') (\<lambda>(ret', d, st2).
              case d of
                None \<Rightarrow> Inr (ret', s', st2)
              | Some bs \<Rightarrow> bindE (write_mem s' 0 bs) (\<lambda>s''. Inr (ret', s'', st2))))))"

definition ReadString ::
  "'a ByteStream_scheme \<Rightarrow> stream_fault + (int \<times> byte list option \<times> 'a ByteStream_scheme)" where
  "ReadString st =
     bindE (ReadRawData st 4) (\<lambda>(ret, ch, st1).
       case ch of
         None \<Rightarrow> Inr (-1, None, st1)
       | Some c \<Rightarrow>
           (let l = be32_value (c ! 0) (c ! 1) (c ! 2) (c ! 3) in
            if current_pos_of st1 + l > max_len_of st1 then Inr (-1, None, st1\<lparr>failed_of := 1\<rparr>)
            else bindE (read_mem (buffer_of st1) (current_pos_of st1) l) (\<lambda>bs.
              Inr (0, Some bs, st1\<lparr>current_pos_of := current_pos_of st1 + l\<rparr>))))"

text \<open>
  operator >>. In the one-byte readers sizeof makes the sum a 64-bit one, which does not wrap, and
  failed_ is not looked at.
\<close>

definition get_byte :: "'a ByteStream_scheme \<Rightarrow> stream_fault + (byte option \<times> 'a ByteStream_scheme)" where
  "get_byte s =
     (if unat (current_pos_of s) + 1 > unat (max_len_of s) then Inr (None, s\<lparr>failed_of := 1\<rparr>)
      else bindE (read_mem (buffer_of s) (current_pos_of s) 1) (\<lambda>bs.
        Inr (Some (bs ! 0), s\<lparr>current_pos_of := current_pos_of s + 1\<rparr>)))"

definition get_string :: "'a ByteStream_scheme \<Rightarrow> stream_fault + (byte list option \<times> 'a ByteStream_scheme)" where
  "get_string s = bindE (ReadString s) (\<lambda>(_, str, s'). Inr (str, s'))"

definition get_bool :: "'a ByteStream_scheme \<Rightarrow> stream_fault + (bool option \<times> 'a ByteStream_scheme)" where
  "get_bool s = bindE (get_byte s) (\<lambda>(b, s'). Inr (map_option (\<lambda>b. b \<noteq> 0) b, s'))"

definition get_uint8 :: "'a ByteStream_scheme \<Rightarrow> stream_fault + (uint8 option \<times> 'a ByteStream_scheme)" where
  "get_uint8 s = get_byte s"

definition get_char :: "'a ByteStream_scheme \<Rightarrow> stream_fault + (uint8 option \<times> 'a ByteStream_scheme)" where
  "get_char s = get_byte s"

text \<open>The shifted bytes are ints; the conversion back keeps the low 16 (or 32) bits.\<close>

definition get_int16 :: "'a ByteStream_scheme \<Rightarrow> stream_fault + (16 word option \<times> 'a ByteStream_scheme)" where
  "get_int16 s = bindE (ReadRawData s 2) (\<lambda>(ret, ch, s').
     Inr (map_option (\<lambda>c. ucast (push_bit 8 (ucast (c ! 0) AND 0xFF) OR (ucast (c ! 1) AND 0xFF) :: uint32)) ch, s'))"

definition get_uint16 :: "'a ByteStream_scheme \<Rightarrow> stream_fault + (uint16 option \<times> 'a ByteStream_scheme)" where
  "get_uint16 s = bindE (ReadRawData s 2) (\<lambda>(ret, ch, s').
     Inr (map_option (\<lambda>c. ucast (push_bit 8 (ucast (c ! 0) AND 0xFF) OR (ucast (c ! 1) AND 0xFF) :: uint32)) ch, s'))"

definition get_int32 :: "'a ByteStream_scheme \<Rightarrow> stream_fault + (32 word option \<times> 'a ByteStream_scheme)" where
  "get_int32 s = bindE (ReadRawData s 4) (\<lambda>(ret, ch, s').
     Inr (map_option (\<lambda>c. be32_value (c ! 0) (c ! 1) (c ! 2) (c ! 3)) ch, s'))"

definition get_uint32 :: "'a ByteStream_scheme \<Rightarrow> stream_fault + (uint32 option \<times> 'a ByteStream_scheme)" where
  "get_uint32 s = bindE (ReadRawData s 4) (\<lambda>(ret, ch, s').
     Inr (map_option (\<lambda>c. be32_value (c ! 0) (c ! 1) (c ! 2) (c ! 3)) ch, s'))"

subsection \<open>Writing\<close>

definition WriteRawData ::
  "'a stream_alloc_fun \<Rightarrow> 'a ByteStream_scheme \<Rightarrow> byte list \<Rightarrow> uint32 \<Rightarrow> stream_fault + (int \<times> 'a ByteStream_scheme)" where
  "WriteRawData al s data data_len =
     (if failed_of s \<noteq> 0 then Inr (-1, s)
      else if data_len = 0 then Inr (0, s)
      else
        (let copy = (\<lambda>s. bindE (write_mem (buffer_of s) (current_pos_of s) (take (unat data_len) data)) (\<lambda>b.
               let s1 = s\<lparr>buffer_of := b, current_pos_of := current_pos_of s + data_len\<rparr>
               in Inr (0, if data_len_of s1 < current_pos_of s1
                          then s1\<lparr>data_len_of := current_pos_of s1\<rparr> else s1)))
         in if current_pos_of s + data_len > max_len_of s then
              if is_new_of s then
                bindE (al s (current_pos_of s + data_len)) (\<lambda>(okay, s'). if okay then copy s' else Inr (-1, s'))
              else Inr (-1, s)
            else copy s))"

text \<open>The array form of a string ends at its zero byte (strlen).\<close>

definition WriteString_array ::
  "'a stream_alloc_fun \<Rightarrow> 'a ByteStream_scheme \<Rightarrow> byte list \<Rightarrow> stream_fault + (int \<times> 'a ByteStream_scheme)" where
  "WriteString_array al st s =
     (let chars = takeWhile (\<lambda>b. b \<noteq> 0) s;
          len = (of_nat (length chars) :: uint32)
      in bindE (WriteRawData al st (be32_bytes len) 4) (\<lambda>(ret, st1).
           if ret \<noteq> 0 then Inr (-1, st1) else WriteRawData al st1 chars len))"

definition WriteString ::
  "'a stream_alloc_fun \<Rightarrow> 'a ByteStream_scheme \<Rightarrow> byte list \<Rightarrow> stream_fault + (int \<times> 'a ByteStream_scheme)" where
  "WriteString al st str =
     (let len = (of_nat (length str) :: uint32)
      in bindE (WriteRawData al st (be32_bytes len) 4) (\<lambda>(ret, st1).
           if ret \<noteq> 0 then Inr (-1, st1) else WriteRawData al st1 str len))"

definition put_string :: "'a stream_alloc_fun \<Rightarrow> 'a ByteStream_scheme \<Rightarrow> byte list \<Rightarrow> stream_fault + 'a ByteStream_scheme" where
  "put_string al s str = bindE (WriteString al s str) (\<lambda>(_, s'). Inr s')"

definition put_bool :: "'a stream_alloc_fun \<Rightarrow> 'a ByteStream_scheme \<Rightarrow> bool \<Rightarrow> stream_fault + 'a ByteStream_scheme" where
  "put_bool al s b = bindE (WriteRawData al s [if b then 1 else 0] 1) (\<lambda>(_, s'). Inr s')"

definition put_uint8 :: "'a stream_alloc_fun \<Rightarrow> 'a ByteStream_scheme \<Rightarrow> uint8 \<Rightarrow> stream_fault + 'a ByteStream_scheme" where
  "put_uint8 al s ch = bindE (WriteRawData al s [ch] 1) (\<lambda>(_, s'). Inr s')"

definition put_char :: "'a stream_alloc_fun \<Rightarrow> 'a ByteStream_scheme \<Rightarrow> uint8 \<Rightarrow> stream_fault + 'a ByteStream_scheme" where
  "put_char al s ch = bindE (WriteRawData al s [ch] 1) (\<lambda>(_, s'). Inr s')"

text \<open>An int16 is promoted to int with its sign before it is shifted; only the low 16 bits are stored.\<close>

definition put_int16 :: "'a stream_alloc_fun \<Rightarrow> 'a ByteStream_scheme \<Rightarrow> 16 word \<Rightarrow> stream_fault + 'a ByteStream_scheme" where
  "put_int16 al s x = bindE (WriteRawData al s
     [ucast (signed_drop_bit 8 (scast x :: uint32) AND 0xFF), ucast ((scast x :: uint32) AND 0xFF)] 2) (\<lambda>(_, s'). Inr s')"

definition put_uint16 :: "'a stream_alloc_fun \<Rightarrow> 'a ByteStream_scheme \<Rightarrow> uint16 \<Rightarrow> stream_fault + 'a ByteStream_scheme" where
  "put_uint16 al s x = bindE (WriteRawData al s (be16_bytes x) 2) (\<lambda>(_, s'). Inr s')"

definition put_int32 :: "'a stream_alloc_fun \<Rightarrow> 'a ByteStream_scheme \<Rightarrow> 32 word \<Rightarrow> stream_fault + 'a ByteStream_scheme" where
  "put_int32 al s x = bindE (WriteRawData al s
     [ucast (signed_drop_bit 24 x AND 0xFF), ucast (signed_drop_bit 16 x AND 0xFF),
      ucast (signed_drop_bit 8 x AND 0xFF), ucast (x AND 0xFF)] 4) (\<lambda>(_, s'). Inr s')"

definition put_uint32 :: "'a stream_alloc_fun \<Rightarrow> 'a ByteStream_scheme \<Rightarrow> uint32 \<Rightarrow> stream_fault + 'a ByteStream_scheme" where
  "put_uint32 al s x = bindE (WriteRawData al s (be32_bytes x) 4) (\<lambda>(_, s'). Inr s')"

section \<open>The size of the block\<close>

lemma unat32_less: "unat (w :: uint32) < 2 ^ 32"
  using unsigned_less [of w] by simp

lemma grow_size_stop [simp]: "\<not> n < new_len \<Longrightarrow> grow_size stp n new_len = Some n"
  by (simp add: grow_size.simps)

lemma grow_size_result_aux:
  "grow_size stp n new_len = Some r \<Longrightarrow> new_len \<le> r \<and>
     (unat d dvd 2 ^ 32 \<longrightarrow> unat d dvd unat stp \<longrightarrow> unat d dvd unat n \<longrightarrow> unat d dvd unat r)"
proof (erule grow_size.raw_induct [rotated, where P = "\<lambda>stp n new_len r. new_len \<le> r \<and>
     (unat d dvd 2 ^ 32 \<longrightarrow> unat d dvd unat stp \<longrightarrow> unat d dvd unat n \<longrightarrow> unat d dvd unat r)"])
  fix grow and stp n new_len r :: uint32
  assume IH: "\<And>stp n new_len r. grow stp n new_len = Some r \<Longrightarrow> new_len \<le> r \<and>
      (unat d dvd 2 ^ 32 \<longrightarrow> unat d dvd unat stp \<longrightarrow> unat d dvd unat n \<longrightarrow> unat d dvd unat r)"
    and r: "(if n < new_len then grow stp (n + stp) new_len else Some n) = Some r"
  have "unat d dvd unat (n + stp)" if "unat d dvd 2 ^ 32" "unat d dvd unat stp" "unat d dvd unat n"
    using that by (simp add: unat_word_ariths dvd_mod)
  then show "new_len \<le> r \<and> (unat d dvd 2 ^ 32 \<longrightarrow> unat d dvd unat stp \<longrightarrow> unat d dvd unat n \<longrightarrow> unat d dvd unat r)"
    using r IH [of stp "n + stp" new_len r] by (auto split: if_splits)
qed

lemmas grow_size_result = grow_size_result_aux [THEN conjunct1]
  grow_size_result_aux [THEN conjunct2, rule_format]

text \<open>The loop ends when adding the step cannot wrap; the size is at most one step too large.\<close>

lemma grow_size_ends:
  assumes "0 < stp" and "unat new_len + unat stp \<le> 2 ^ 32"
  shows "\<exists>r. grow_size stp n new_len = Some r \<and> new_len \<le> r \<and> n \<le> r \<and>
    (n < new_len \<longrightarrow> unat n + unat stp \<le> unat r \<and> unat r < unat new_len + unat stp)"
proof (induction "unat new_len - unat n" arbitrary: n rule: less_induct)
  case less
  show ?case
  proof (cases "n < new_len")
    case True
    then have lt: "unat n < unat new_len" by (simp add: word_less_nat_alt)
    then have step: "unat (n + stp) = unat n + unat stp"
      using assms by (simp add: unat_word_ariths)
    have "0 < unat stp" using assms(1) by (simp add: word_less_nat_alt)
    then obtain r where "grow_size stp (n + stp) new_len = Some r" "new_len \<le> r" "n + stp \<le> r"
        "n + stp < new_len \<longrightarrow> unat r < unat new_len + unat stp"
      using less [of "n + stp"] lt step by (metis diff_less_mono2 less_add_same_cancel1)
    moreover have "unat r < unat new_len + unat stp" if "\<not> n + stp < new_len"
      using calculation(1) that lt step by simp
    ultimately show ?thesis
      using True step by (auto simp: grow_size.simps [of stp n] word_le_nat_alt)
  qed auto
qed

lemma grow_size_hangs:
  assumes "unat d dvd 2 ^ 32" and "unat d dvd unat stp" and "unat d dvd unat n" and "2 ^ 32 < unat new_len + unat d"
  shows "grow_size stp n new_len = None"
proof (rule ccontr)
  assume "grow_size stp n new_len \<noteq> None"
  then obtain r where r: "grow_size stp n new_len = Some r" by auto
  obtain k m where k: "(2 :: nat) ^ 32 = unat d * k" and m: "unat r = unat d * m"
    using assms(1) grow_size_result(2) [OF r assms(1-3)] by (metis dvdE)
  have "unat r < 2 ^ 32" using unsigned_less [of r] by simp
  then have "unat d * m < unat d * k" using k m by simp
  then have "m + 1 \<le> k" by simp
  then have "unat d * m + unat d \<le> 2 ^ 32" unfolding k by (metis mult.commute mult_le_mono2 add.commute mult_Suc_right Suc_eq_plus1)
  moreover have "unat new_len \<le> unat r" using grow_size_result(1) [OF r] by (simp add: word_le_nat_alt)
  ultimately show False using m assms(4) by simp
qed

section \<open>Typed items\<close>

datatype item_type = BoolT | Uint8T | CharT | Int16T | Uint16T | Int32T | Uint32T | StringT

datatype item = Bool_item bool | Uint8_item uint8 | Char_item uint8 | Int16_item "16 word"
  | Uint16_item uint16 | Int32_item "32 word" | Uint32_item uint32 | String_item "byte list"

primrec type_of_item :: "item \<Rightarrow> item_type" where
  "type_of_item (Bool_item _) = BoolT" | "type_of_item (Uint8_item _) = Uint8T"
| "type_of_item (Char_item _) = CharT" | "type_of_item (Int16_item _) = Int16T"
| "type_of_item (Uint16_item _) = Uint16T" | "type_of_item (Int32_item _) = Int32T"
| "type_of_item (Uint32_item _) = Uint32T" | "type_of_item (String_item _) = StringT"

text \<open>The chain s << a << b << ... of the clients, and s >> a >> b >> ...\<close>

primrec put_item :: "'a stream_alloc_fun \<Rightarrow> 'a ByteStream_scheme \<Rightarrow> item \<Rightarrow> stream_fault + 'a ByteStream_scheme" where
  "put_item al s (Bool_item b) = put_bool al s b" | "put_item al s (Uint8_item x) = put_uint8 al s x"
| "put_item al s (Char_item x) = put_char al s x" | "put_item al s (Int16_item x) = put_int16 al s x"
| "put_item al s (Uint16_item x) = put_uint16 al s x" | "put_item al s (Int32_item x) = put_int32 al s x"
| "put_item al s (Uint32_item x) = put_uint32 al s x" | "put_item al s (String_item x) = put_string al s x"

primrec put_items :: "'a stream_alloc_fun \<Rightarrow> 'a ByteStream_scheme \<Rightarrow> item list \<Rightarrow> stream_fault + 'a ByteStream_scheme" where
  "put_items al s [] = Inr s"
| "put_items al s (it # its) = bindE (put_item al s it) (\<lambda>s'. put_items al s' its)"

definition tag_item :: "('v \<Rightarrow> item) \<Rightarrow> stream_fault + ('v option \<times> 'a ByteStream_scheme) \<Rightarrow>
    stream_fault + (item option \<times> 'a ByteStream_scheme)" where
  "tag_item f r = bindE r (\<lambda>(v, s). Inr (map_option f v, s))"

primrec get_item :: "'a ByteStream_scheme \<Rightarrow> item_type \<Rightarrow> stream_fault + (item option \<times> 'a ByteStream_scheme)" where
  "get_item s BoolT = tag_item Bool_item (get_bool s)" | "get_item s Uint8T = tag_item Uint8_item (get_uint8 s)"
| "get_item s CharT = tag_item Char_item (get_char s)" | "get_item s Int16T = tag_item Int16_item (get_int16 s)"
| "get_item s Uint16T = tag_item Uint16_item (get_uint16 s)" | "get_item s Int32T = tag_item Int32_item (get_int32 s)"
| "get_item s Uint32T = tag_item Uint32_item (get_uint32 s)" | "get_item s StringT = tag_item String_item (get_string s)"

primrec get_items :: "'a ByteStream_scheme \<Rightarrow> item_type list \<Rightarrow> stream_fault + (item option list \<times> 'a ByteStream_scheme)" where
  "get_items s [] = Inr ([], s)"
| "get_items s (t # ts) = bindE (get_item s t) (\<lambda>(v, s'). bindE (get_items s' ts) (\<lambda>(vs, s''). Inr (v # vs, s'')))"

text \<open>The bytes of an item: integers most significant byte first, strings after their length.\<close>

primrec item_bytes :: "item \<Rightarrow> byte list" where
  "item_bytes (Bool_item b) = [if b then 1 else 0]" | "item_bytes (Uint8_item x) = [x]"
| "item_bytes (Char_item x) = [x]" | "item_bytes (Int16_item x) = be16_bytes x"
| "item_bytes (Uint16_item x) = be16_bytes x" | "item_bytes (Int32_item x) = be32_bytes x"
| "item_bytes (Uint32_item x) = be32_bytes x"
| "item_bytes (String_item x) = be32_bytes (of_nat (length x)) @ x"

definition items_bytes :: "item list \<Rightarrow> byte list" where
  "items_bytes its = concat (map item_bytes its)"

lemma items_bytes_simps [simp]: "items_bytes [] = []" "items_bytes (it # its) = item_bytes it @ items_bytes its"
  by (simp_all add: items_bytes_def)

lemma be_bytes_not_Nil [simp]: "be32_bytes x \<noteq> []" "be16_bytes y \<noteq> []"
  by (simp_all add: be32_bytes_def be16_bytes_def)

lemma signed_bytes32:
  "[ucast (signed_drop_bit 24 x AND 0xFF), ucast (signed_drop_bit 16 x AND 0xFF),
     ucast (signed_drop_bit 8 x AND 0xFF), ucast (x AND 0xFF)] = be32_bytes x"
  unfolding be32_bytes_def
  by (auto intro!: bit_word_eqI simp: ff_mask bit_simps min_absorb2)

lemma signed_bytes16:
  "[ucast (signed_drop_bit 8 (scast x :: uint32) AND 0xFF), ucast ((scast x :: uint32) AND 0xFF)] = be16_bytes x"
  unfolding be16_bytes_def
  by (auto intro!: bit_word_eqI simp: ff_mask bit_simps min_absorb2)

lemma int16_value: "ucast (push_bit 8 (ucast a AND 0xFF) OR (ucast b AND 0xFF) :: uint32) = be16_value a b"
  by (rule bit_word_eqI) (auto simp: be16_value_def ff_mask bit_simps dest: bit_imp_le_length)

section \<open>Writing, over any allocator\<close>

definition writing :: "('a ByteStream_scheme \<Rightarrow> bool) \<Rightarrow> 'a ByteStream_scheme \<Rightarrow> byte list \<Rightarrow> bool" where
  "writing ok s bs \<longleftrightarrow> ok s \<and> failed_of s = 0 \<and> is_new_of s \<and> unat (current_pos_of s) = length bs \<and>
     take (length bs) (buffer_of s) = bs \<and> data_len_of s = current_pos_of s"

text \<open>
  What the writers rely on: a virtual Alloc that, asked for a size within its reach, returns a
  block of at least that size with the old contents, and touches nothing else.
\<close>

locale stream_alloc =
  fixes al :: "'a stream_alloc_fun"
    and ok :: "'a ByteStream_scheme \<Rightarrow> bool"
    and room :: "nat \<Rightarrow> bool"
  assumes room_mono: "room n \<Longrightarrow> m \<le> n \<Longrightarrow> room m"
    and room_less: "room n \<Longrightarrow> n < 2 ^ 32"
    and ok_bounds: "ok s \<Longrightarrow> unat (current_pos_of s) \<le> length (buffer_of s)"
        "ok s \<Longrightarrow> unat (max_len_of s) \<le> length (buffer_of s)"
    and al_ok: "ok s \<Longrightarrow> failed_of s = 0 \<Longrightarrow> is_new_of s \<Longrightarrow> room (unat k) \<Longrightarrow> k > max_len_of s \<Longrightarrow>
        \<exists>s'. al s k = Inr (True, s') \<and> ok s' \<and> failed_of s' = 0 \<and> is_new_of s' \<and>
          current_pos_of s' = current_pos_of s \<and> data_len_of s' = data_len_of s \<and>
          unat k \<le> length (buffer_of s') \<and>
          take (length (buffer_of s)) (buffer_of s') = buffer_of s"
    and ok_copy: "ok s \<Longrightarrow> length b = length (buffer_of s) \<Longrightarrow> unat pos \<le> length b \<Longrightarrow>
        ok (s\<lparr>buffer_of := b, current_pos_of := pos, data_len_of := pos\<rparr>)"
begin

lemma copy_writing:
  assumes "writing ok s bs" and "length bs + length data \<le> length (buffer_of s)" and "room (length bs + length data)"
    and "pos = current_pos_of s + of_nat (length data)"
  shows "writing ok (s\<lparr>buffer_of := overwrite (buffer_of s) (length bs) data, current_pos_of := pos, data_len_of := pos\<rparr>) (bs @ data)"
proof -
  have pos: "unat pos = length bs + length data"
    using assms room_less [OF assms(3)]
    by (auto simp: writing_def unat_word_ariths unat_of_nat take_bit_nat_eq_self_iff take_bit_eq_mod)
  have "ok (s\<lparr>buffer_of := overwrite (buffer_of s) (length bs) data, current_pos_of := pos, data_len_of := pos\<rparr>)"
    using assms pos by (intro ok_copy) (auto simp: writing_def)
  then show ?thesis
    using assms pos by (auto simp: writing_def overwrite_def)
qed

lemma WriteRawData_writing:
  assumes w: "writing ok s bs" and room: "room (length bs + length data)" and "data \<noteq> []"
  shows "\<exists>s'. WriteRawData al s data (of_nat (length data)) = Inr (0, s') \<and> writing ok s' (bs @ data)"
proof -
  let ?n = "of_nat (length data) :: uint32" and ?pos = "current_pos_of s + of_nat (length data)"
  have n: "unat ?n = length data" "?n \<noteq> 0"
    using room_less [OF room] \<open>data \<noteq> []\<close>
    by (auto simp: unat_of_nat take_bit_nat_eq_self_iff take_bit_eq_mod word_unat_eq_iff)
  have pos: "unat ?pos = length bs + length data"
    using w room_less [OF room] n by (simp add: writing_def unat_word_ariths)
  have copy: "bindE (write_mem (buffer_of s1) (current_pos_of s1) (take (unat ?n) data)) (\<lambda>b.
        let s2 = s1\<lparr>buffer_of := b, current_pos_of := current_pos_of s1 + ?n\<rparr>
        in Inr (0, if data_len_of s2 < current_pos_of s2 then s2\<lparr>data_len_of := current_pos_of s2\<rparr> else s2)) =
      Inr (0, s1\<lparr>buffer_of := overwrite (buffer_of s1) (length bs) data, current_pos_of := ?pos, data_len_of := ?pos\<rparr>)"
    if "writing ok s1 bs" "current_pos_of s1 = current_pos_of s" "length bs + length data \<le> length (buffer_of s1)" for s1
    using that n pos \<open>data \<noteq> []\<close> by (auto simp: writing_def write_mem_def Let_def word_less_nat_alt)
  show ?thesis
  proof (cases "?pos > max_len_of s")
    case True
    then obtain s1 where s1: "al s ?pos = Inr (True, s1)" "ok s1" "failed_of s1 = 0" "is_new_of s1"
        "current_pos_of s1 = current_pos_of s" "data_len_of s1 = data_len_of s"
        "unat ?pos \<le> length (buffer_of s1)" "take (length (buffer_of s)) (buffer_of s1) = buffer_of s"
      using al_ok [of s ?pos] w room pos by (auto simp: writing_def)
    have "take (length bs) (buffer_of s1) = bs"
      using s1(8) w ok_bounds(1) [of s] by (metis writing_def take_take min_absorb1)
    then have "writing ok s1 bs"
      using s1 w by (simp add: writing_def)
    with s1 True w n copy [of s1] copy_writing [of s1 bs data] room pos show ?thesis
      by (auto simp: WriteRawData_def writing_def)
  next
    case False
    then have "length bs + length data \<le> length (buffer_of s)"
      using pos ok_bounds(2) [of s] w by (auto simp: writing_def word_less_nat_alt)
    with False w n copy [of s] copy_writing [of s bs data] room pos show ?thesis
      by (auto simp: WriteRawData_def writing_def)
  qed
qed

lemma WriteRawData_empty: "writing ok s bs \<Longrightarrow> WriteRawData al s [] 0 = Inr (0, s)"
  by (simp add: WriteRawData_def writing_def)

lemma WriteString_writing:
  assumes "writing ok s bs" and "room (length bs + 4 + length str)"
  shows "\<exists>s'. WriteString al s str = Inr (0, s') \<and> writing ok s' (bs @ be32_bytes (of_nat (length str)) @ str)"
proof -
  let ?h = "be32_bytes (of_nat (length str))"
  have "room (length bs + 4)" using room_mono [OF assms(2)] by simp
  then obtain s1 where s1: "WriteRawData al s ?h 4 = Inr (0, s1)" "writing ok s1 (bs @ ?h)"
    using WriteRawData_writing [OF assms(1), of ?h] by auto
  obtain s2 where "WriteRawData al s1 str (of_nat (length str)) = Inr (0, s2)" "writing ok s2 ((bs @ ?h) @ str)"
  proof (cases "str = []")
    case True
    then show thesis using that [of s1] WriteRawData_empty [OF s1(2)] s1(2) by simp
  next
    case False
    then show thesis using that WriteRawData_writing [OF s1(2), of str] assms(2) by auto
  qed
  with s1 show ?thesis by (simp add: WriteString_def)
qed

lemma put_item_writing:
  assumes w: "writing ok s bs" and room: "room (length bs + length (item_bytes it))"
  shows "\<exists>s'. put_item al s it = Inr s' \<and> writing ok s' (bs @ item_bytes it)"
proof (cases it)
  case (String_item x)
  then show ?thesis
    using WriteString_writing [OF w, of x] room by (auto simp: put_string_def add.assoc)
next
  case (Int16_item x)
  then show ?thesis
    using WriteRawData_writing [OF w, of "be16_bytes x"] room
    by (auto simp: put_int16_def signed_bytes16)
next
  case (Int32_item x)
  then show ?thesis
    using WriteRawData_writing [OF w, of "be32_bytes x"] room
    by (auto simp: put_int32_def signed_bytes32)
qed (use WriteRawData_writing [OF w, of "item_bytes it"] room in
  \<open>auto simp: put_bool_def put_uint8_def put_char_def put_uint16_def put_uint32_def\<close>)

lemma put_items_writing:
  assumes "writing ok s bs" and "room (length bs + length (items_bytes its))"
  shows "\<exists>s'. put_items al s its = Inr s' \<and> writing ok s' (bs @ items_bytes its)"
  using assms
proof (induction its arbitrary: s bs)
  case (Cons it its)
  then have "room (length bs + length (item_bytes it))" by (auto intro: room_mono)
  then obtain s1 where s1: "put_item al s it = Inr s1" "writing ok s1 (bs @ item_bytes it)"
    using put_item_writing [OF Cons.prems(1)] by blast
  then obtain s2 where "put_items al s1 its = Inr s2" "writing ok s2 ((bs @ item_bytes it) @ items_bytes its)"
    using Cons.IH [OF s1(2)] Cons.prems(2) by (auto simp: add.assoc)
  with s1 show ?case by auto
qed auto

end

section \<open>The stream on its own allocator\<close>

definition bs_ok :: "'a ByteStream_scheme \<Rightarrow> bool" where
  "bs_ok s \<longleftrightarrow> length (buffer_of s) = unat (max_len_of s) \<and> current_pos_of s \<le> max_len_of s \<and>
     data_len_of s \<le> max_len_of s"

lemma bs_okD:
  "bs_ok s \<Longrightarrow> unat (current_pos_of s) \<le> length (buffer_of s)"
  "bs_ok s \<Longrightarrow> unat (max_len_of s) = length (buffer_of s)"
  "bs_ok s \<Longrightarrow> unat (data_len_of s) \<le> length (buffer_of s)"
  by (simp_all add: bs_ok_def word_le_nat_alt)

lemma Alloc_ok:
  assumes "bs_ok s" and "failed_of s = 0" and "is_new_of s" and "\<forall>k. can_alloc M k"
    and "unat n + 4096 \<le> 2 ^ 32" and "n > max_len_of s"
  shows "\<exists>s'. Alloc M s n = Inr (True, s') \<and> bs_ok s' \<and> failed_of s' = 0 \<and> is_new_of s' \<and>
    current_pos_of s' = current_pos_of s \<and> data_len_of s' = data_len_of s \<and> unat n \<le> length (buffer_of s') \<and>
    take (length (buffer_of s)) (buffer_of s') = buffer_of s"
proof -
  obtain r where r: "grow_size 4096 (max_len_of s) n = Some r" "n \<le> r" "max_len_of s \<le> r"
    using grow_size_ends [of 4096 n "max_len_of s"] assms(5) by auto
  then have "0 < unat r" "length (buffer_of s) \<le> unat r" "unat n \<le> unat r"
    using assms(1,6) by (auto simp: bs_ok_def word_le_nat_alt word_less_nat_alt)
  moreover have "current_pos_of s \<le> r" "data_len_of s \<le> r"
    using assms(1) r(3) by (auto simp: bs_ok_def)
  ultimately show ?thesis
    using assms r(1) by (auto simp: Alloc_def malloc_block_def realloc_block_def bs_ok_def)
qed

interpretation bs: stream_alloc "Alloc M" bs_ok "\<lambda>n. (\<forall>k. can_alloc M k) \<and> n + 4096 \<le> 2 ^ 32" for M
proof (unfold_locales, goal_cases)
  case (5 s k)
  then show ?case using Alloc_ok [of s M k] by blast
next
  case (6 s b pos)
  then show ?case by (simp add: bs_ok_def word_le_nat_alt)
qed (auto simp: bs_ok_def word_le_nat_alt)

lemma writing_new_ByteStream: "writing bs_ok new_ByteStream []"
  by (simp add: writing_def new_ByteStream_def bs_ok_def)

section \<open>Reading\<close>

definition reading :: "'a ByteStream_scheme \<Rightarrow> byte list \<Rightarrow> bool" where
  "reading s bs \<longleftrightarrow> failed_of s = 0 \<and> unat (max_len_of s) \<le> length (buffer_of s) \<and>
     unat (current_pos_of s) \<le> unat (max_len_of s) \<and> seg (buffer_of s) (unat (current_pos_of s)) (unat (max_len_of s)) = bs"

lemma reading_length: "reading s bs \<Longrightarrow> unat (current_pos_of s) + length bs = unat (max_len_of s)"
  by (auto simp: reading_def)

lemma reading_less: "reading s bs \<Longrightarrow> length bs < 2 ^ 32"
  using reading_length [of s bs] unat32_less [of "max_len_of s"] by simp

lemma reading_advance:
  assumes "reading s (data @ rest)" and "n = of_nat (length data)"
  shows "unat n = length data" and "unat (current_pos_of s + n) = unat (current_pos_of s) + length data"
    and "\<not> current_pos_of s + n > max_len_of s" and "read_mem (buffer_of s) (current_pos_of s) n = Inr data"
    and "reading (s\<lparr>current_pos_of := current_pos_of s + n\<rparr>) rest"
proof -
  let ?p = "unat (current_pos_of s)" and ?m = "unat (max_len_of s)"
  have len: "?p + length data + length rest = ?m"
    using reading_length [OF assms(1)] by simp
  have m: "?m < 2 ^ 32" using unsigned_less [of "max_len_of s"] by simp
  show n: "unat n = length data"
    using len m assms(2) by (simp add: unat_of_nat take_bit_nat_eq_self_iff)
  show pos: "unat (current_pos_of s + n) = ?p + length data"
    using len m n by (simp add: unat_word_ariths)
  show "\<not> current_pos_of s + n > max_len_of s"
    using len pos by (simp add: word_less_nat_alt)
  have seg: "seg (buffer_of s) ?p ?m = data @ rest" and le: "?m \<le> length (buffer_of s)"
    using assms(1) by (auto simp: reading_def)
  have "take (length data) (seg (buffer_of s) ?p ?m) = take (length data) (drop ?p (buffer_of s))"
    using len by (simp add: seg_def min_def)
  then show "read_mem (buffer_of s) (current_pos_of s) n = Inr data"
    using n len le seg by (simp add: read_mem_def)
  have "seg (buffer_of s) (?p + length data) ?m = rest"
    using drop_seg [of "length data" "buffer_of s" ?p ?m] seg by simp
  then show "reading (s\<lparr>current_pos_of := current_pos_of s + n\<rparr>) rest"
    using assms(1) pos len by (simp add: reading_def)
qed

lemma ReadRawData_reading:
  assumes "reading s (data @ rest)" and "n = of_nat (length data)" and "data \<noteq> []"
  shows "ReadRawData s n = Inr (0, Some data, s\<lparr>current_pos_of := current_pos_of s + n\<rparr>)"
proof -
  have "n \<noteq> 0" using reading_advance(1) [OF assms(1,2)] assms(3) by auto
  then show ?thesis
    using reading_advance(3,4) [OF assms(1,2)] assms(1) by (simp add: ReadRawData_def reading_def)
qed

lemma be32_value_nth: "be32_value (be32_bytes x ! 0) (be32_bytes x ! 1) (be32_bytes x ! 2) (be32_bytes x ! 3) = x"
  using be32_value_at [of 0 "be32_bytes x"] by (simp add: be_bytes_value numeral_2_eq_2)

lemma be16_value_nth: "be16_value (be16_bytes x ! 0) (be16_bytes x ! 1) = x"
  using be16_value_at [of 0 "be16_bytes x"] by (simp add: be_bytes_value)

lemma get_int16_eq:
  "get_int16 s = bindE (ReadRawData s 2) (\<lambda>(_, ch, s'). Inr (map_option (\<lambda>c. be16_value (c ! 0) (c ! 1)) ch, s'))"
  "get_uint16 s = bindE (ReadRawData s 2) (\<lambda>(_, ch, s'). Inr (map_option (\<lambda>c. be16_value (c ! 0) (c ! 1)) ch, s'))"
  by (simp_all only: get_int16_def get_uint16_def int16_value)

lemma get_byte_reading:
  assumes "reading s (b # rest)"
  shows "get_byte s = Inr (Some b, s\<lparr>current_pos_of := current_pos_of s + 1\<rparr>)"
    and "reading (s\<lparr>current_pos_of := current_pos_of s + 1\<rparr>) rest"
  using reading_advance [of s "[b]" rest 1] reading_length [OF assms] assms
  by (simp_all add: get_byte_def)

lemma get_string_reading:
  assumes "reading s (be32_bytes (of_nat (length str)) @ str @ rest)"
  shows "\<exists>s'. get_string s = Inr (Some str, s') \<and> reading s' rest \<and> max_len_of s' = max_len_of s"
proof -
  let ?h = "be32_bytes (of_nat (length str))"
  define s1 where "s1 = s\<lparr>current_pos_of := current_pos_of s + 4\<rparr>"
  have "ReadRawData s 4 = Inr (0, Some ?h, s1)"
    using ReadRawData_reading [OF assms, of 4] by (simp add: s1_def)
  moreover have "reading s1 (str @ rest)"
    using reading_advance(5) [OF assms, of 4] by (simp add: s1_def)
  ultimately show ?thesis
    using reading_advance [of s1 str rest "of_nat (length str)"]
    by (auto simp: get_string_def ReadString_def be32_value_nth [simplified] s1_def)
qed

lemma get_item_reading:
  assumes "reading s (item_bytes it @ rest)"
  shows "\<exists>s'. get_item s (type_of_item it) = Inr (Some it, s') \<and> reading s' rest \<and> max_len_of s' = max_len_of s"
proof (cases it)
  case (String_item x)
  then show ?thesis
    using get_string_reading [of s x rest] assms by (auto simp: tag_item_def)
next
  case (Int16_item x)
  then show ?thesis
    using ReadRawData_reading [of s "be16_bytes x" rest 2] reading_advance(5) [of s "be16_bytes x" rest 2] assms
    by (auto simp: tag_item_def get_int16_eq be16_value_nth [simplified])
next
  case (Uint16_item x)
  then show ?thesis
    using ReadRawData_reading [of s "be16_bytes x" rest 2] reading_advance(5) [of s "be16_bytes x" rest 2] assms
    by (auto simp: tag_item_def get_int16_eq be16_value_nth [simplified])
next
  case (Int32_item x)
  then show ?thesis
    using ReadRawData_reading [of s "be32_bytes x" rest 4] reading_advance(5) [of s "be32_bytes x" rest 4] assms
    by (auto simp: tag_item_def get_int32_def be32_value_nth [simplified])
next
  case (Uint32_item x)
  then show ?thesis
    using ReadRawData_reading [of s "be32_bytes x" rest 4] reading_advance(5) [of s "be32_bytes x" rest 4] assms
    by (auto simp: tag_item_def get_uint32_def be32_value_nth [simplified])
qed (use get_byte_reading [of s] assms in \<open>auto simp: tag_item_def get_bool_def get_uint8_def get_char_def\<close>)

lemma get_items_reading:
  "reading s (items_bytes its @ rest) \<Longrightarrow>
     \<exists>s'. get_items s (map type_of_item its) = Inr (map Some its, s') \<and> reading s' rest \<and> max_len_of s' = max_len_of s"
proof (induction its arbitrary: s)
  case (Cons it its)
  then obtain s1 where s1: "get_item s (type_of_item it) = Inr (Some it, s1)" "reading s1 (items_bytes its @ rest)" "max_len_of s1 = max_len_of s"
    using get_item_reading [of s it "items_bytes its @ rest"] by auto
  then show ?case using Cons.IH [OF s1(2)] by auto
qed auto

lemma reading_new_buffer:
  "unat n \<le> length b \<Longrightarrow> reading (new_ByteStream_buffer b n) (take (unat n) b)"
  by (simp add: reading_def new_ByteStream_buffer_def seg_def)

text \<open>
  On a well-formed stream a read of a few bytes stays inside the block: the bounds check is exact
  as long as the sum does not wrap.
\<close>

lemma ReadRawData_bs_ok:
  assumes "bs_ok s" and "unat (max_len_of s) + unat n < 2 ^ 32"
  shows "ReadRawData s n =
    (if failed_of s \<noteq> 0 then Inr (-1, None, s)
     else if unat (current_pos_of s) + unat n > unat (max_len_of s) then Inr (-1, None, s\<lparr>failed_of := 1\<rparr>)
     else if n = 0 then Inr (0, None, s)
     else Inr (0, Some (take (unat n) (drop (unat (current_pos_of s)) (buffer_of s))),
            s\<lparr>current_pos_of := current_pos_of s + n\<rparr>))"
proof -
  have "unat (current_pos_of s + n) = unat (current_pos_of s) + unat n"
    using assms bs_okD [OF assms(1)] by (simp add: unat_word_ariths)
  then show ?thesis
    using bs_okD [OF assms(1)] by (auto simp: ReadRawData_def read_mem_def word_less_nat_alt)
qed

lemma bs_ok_advance:
  "bs_ok s \<Longrightarrow> unat (current_pos_of s) + unat n \<le> unat (max_len_of s) \<Longrightarrow> bs_ok (s\<lparr>current_pos_of := current_pos_of s + n\<rparr>)"
  by (auto simp: bs_ok_def word_le_nat_alt unat_word_ariths intro: order.trans [OF mod_less_eq_dividend])

lemma bs_ok_failed: "bs_ok s \<Longrightarrow> bs_ok (s\<lparr>failed_of := x\<rparr>)"
  by (simp add: bs_ok_def)

lemma get_byte_bs_ok:
  assumes "bs_ok s"
  shows "\<exists>v s'. get_byte s = Inr (v, s') \<and> bs_ok s'"
  using assms bs_okD [OF assms] bs_ok_advance [OF assms, of 1]
  by (auto simp: get_byte_def read_mem_def bs_ok_failed)

lemma ReadRawData_bs_ok_total:
  assumes "bs_ok s" and "unat (max_len_of s) + unat n < 2 ^ 32"
  shows "\<exists>ret v s'. ReadRawData s n = Inr (ret, v, s') \<and> bs_ok s'"
  using assms by (auto simp: ReadRawData_bs_ok bs_ok_failed not_less intro: bs_ok_advance)

lemma get_number_bs_ok:
  assumes "bs_ok s" and "unat (max_len_of s) + 4 < 2 ^ 32" and "t \<noteq> StringT"
  shows "\<exists>v s'. get_item s t = Inr (v, s') \<and> bs_ok s'"
proof -
  obtain v s' where "get_byte s = Inr (v, s')" "bs_ok s'" using get_byte_bs_ok [OF assms(1)] by auto
  moreover obtain r2 v2 s2 where "ReadRawData s 2 = Inr (r2, v2, s2)" "bs_ok s2"
    using ReadRawData_bs_ok_total [OF assms(1), of 2] assms(2) by auto
  moreover obtain r4 v4 s4 where "ReadRawData s 4 = Inr (r4, v4, s4)" "bs_ok s4"
    using ReadRawData_bs_ok_total [OF assms(1), of 4] assms(2) by auto
  ultimately show ?thesis
    using assms(3)
    by (cases t) (auto simp: tag_item_def get_bool_def get_uint8_def get_char_def get_int16_def get_uint16_def
        get_int32_def get_uint32_def)
qed

definition string_prefix :: "'a ByteStream_scheme \<Rightarrow> uint32" where
  "string_prefix s = be_to_word (take 4 (drop (unat (current_pos_of s)) (buffer_of s)))"

lemma ReadString_bs_ok:
  assumes "bs_ok s" and "unat (max_len_of s) + 4 < 2 ^ 32"
  defines "p \<equiv> unat (current_pos_of s) + 4"
  shows "if failed_of s = 0 \<and> p \<le> unat (max_len_of s) \<and> 2 ^ 32 \<le> p + unat (string_prefix s)
    then ReadString s = Inl OutOfBounds else \<exists>r v s'. ReadString s = Inr (r, v, s') \<and> bs_ok s'"
proof (cases "failed_of s = 0 \<and> p \<le> unat (max_len_of s)")
  case False
  then show ?thesis
    using assms by (auto simp: ReadString_def ReadRawData_bs_ok bs_ok_failed)
next
  case True
  let ?l = "string_prefix s" and ?s1 = "s\<lparr>current_pos_of := current_pos_of s + 4\<rparr>"
  have p4: "unat (current_pos_of s + 4) = p"
    using True assms(2) by (simp add: p_def unat_word_ariths)
  have ok1: "bs_ok ?s1"
    using True bs_ok_advance [OF assms(1), of 4] by (simp add: p_def)
  have "4 \<le> length (buffer_of s) - unat (current_pos_of s)"
    using True bs_okD(2) [OF assms(1)] by (simp only: p_def) arith
  then have l: "be32_value (c ! 0) (c ! 1) (c ! 2) (c ! 3) = ?l"
    if "c = take 4 (drop (unat (current_pos_of s)) (buffer_of s))" for c
    using that be32_value_at [of 0 c] by (simp add: string_prefix_def numeral_2_eq_2)
  have sum: "unat (current_pos_of s + 4 + ?l) = (p + unat ?l) mod 2 ^ 32"
    using p4 by (simp add: unat_word_ariths)
  have "ReadString s = (if current_pos_of s + 4 + ?l > max_len_of s then Inr (-1, None, ?s1\<lparr>failed_of := 1\<rparr>)
      else bindE (read_mem (buffer_of s) (current_pos_of s + 4) ?l)
        (\<lambda>bs. Inr (0, Some bs, ?s1\<lparr>current_pos_of := current_pos_of s + 4 + ?l\<rparr>)))"
    using True assms(1,2) l [OF refl] by (simp add: ReadString_def ReadRawData_bs_ok p_def [symmetric] Let_def leD)
  moreover have "(p + unat ?l) mod 2 ^ 32 < p" if "2 ^ 32 \<le> p + unat ?l"
    using that unat32_less [of ?l] True unat32_less [of "max_len_of s"] by (simp add: mod_if) arith
  ultimately show ?thesis
    using True p4 sum bs_okD [OF assms(1)] ok1 bs_ok_advance [OF ok1, of ?l] unat32_less [of "max_len_of s"]
    by (auto simp: read_mem_def word_less_nat_alt bs_ok_failed not_less)
qed


text \<open>
  For a size above \<open>2 ^ 32 - 4096\<close> the loop of Alloc never ends: the sizes it tries are multiples of
  4096, and none of those below \<open>2 ^ 32\<close> is large enough.
\<close>

lemma Alloc_hangs:
  assumes "failed_of s = 0" and "is_new_of s" and "4096 dvd unat (max_len_of s)"
    and "max_len_of s < new_len" and "2 ^ 32 < unat new_len + 4096"
  shows "Alloc M s new_len = Inl Hangs"
proof -
  have "grow_size 4096 (max_len_of s) new_len = None"
    by (rule grow_size_hangs [of "4096 :: uint32"]) (use assms in simp_all)
  then show ?thesis using assms by (simp add: Alloc_def)
qed

text \<open>
  A string longer than the caller's array: the zero byte the code puts at the end of the array is
  overwritten by the characters read afterwards, so the array is not terminated, and the position
  is left inside the string.
\<close>

lemma ReadString_array_truncates:
  assumes "reading s (be32_bytes l @ chars @ rest)" and "0 < length chars" and "length arr = length chars"
    and "unat l > length chars" and "n = of_nat (length chars)"
  shows "\<exists>s'. ReadString_array s arr n = Inr (0, chars, s') \<and> reading s' rest"
proof -
  define s1 where "s1 = s\<lparr>current_pos_of := current_pos_of s + 4\<rparr>"
  have r1: "ReadRawData s 4 = Inr (0, Some (be32_bytes l), s1)" "reading s1 (chars @ rest)"
    using ReadRawData_reading [OF assms(1), of 4] reading_advance(5) [OF assms(1), of 4] by (auto simp: s1_def)
  have n: "unat n = length chars" "reading (s1\<lparr>current_pos_of := current_pos_of s1 + n\<rparr>) rest"
    using reading_advance(1,5) [OF r1(2) assms(5)] by auto
  have "n \<noteq> 0" using n(1) assms(2) by auto
  then have "unat (n - 1) = length chars - 1"
    using n(1) by (simp add: unat_minus_one)
  then have "write_mem arr (n - 1) [0] = Inr (overwrite arr (length chars - 1) [0])"
    using assms(2,3) by (simp add: write_mem_def)
  moreover have "ReadRawData s1 n = Inr (0, Some chars, s1\<lparr>current_pos_of := current_pos_of s1 + n\<rparr>)"
    using ReadRawData_reading [OF r1(2) assms(5)] assms(2) by auto
  moreover have "l > n" using n(1) assms(4) by (simp add: word_less_nat_alt)
  moreover have "overwrite (overwrite arr (length chars - 1) [0]) 0 chars = chars"
    using assms(2,3) by (cases chars) (auto simp: overwrite_def)
  ultimately show ?thesis
    using r1(1) n(2) assms(2,3) by (simp add: ReadString_array_def be32_value_nth [simplified] write_mem_def)
qed

section \<open>Properties\<close>

text \<open>
  C33: whatever typed values a client writes with << into a fresh stream, the stream holds their
  encodings back to back, and a stream opened on its data and length gives the values back with
  >> and has then nothing left; nothing fails on the way. The total length may be anything
  up to \<open>2 ^ 32 - 4096\<close> bytes, as long as the allocator serves the requests.
\<close>

theorem byte_stream_roundtrip:
  assumes "\<forall>k. can_alloc M k" and "length (items_bytes its) + 4096 \<le> 2 ^ 32"
  shows "\<exists>s r. put_items (Alloc M) new_ByteStream its = Inr s \<and> \<not> Fail s \<and>
     unat (Length s) = length (items_bytes its) \<and> take (unat (Length s)) (Data s) = items_bytes its \<and>
     get_items (new_ByteStream_buffer (Data s) (Length s)) (map type_of_item its) = Inr (map Some its, r) \<and>
     \<not> Fail r \<and> Tell r = Length s"
proof -
  obtain s where s: "put_items (Alloc M) new_ByteStream its = Inr s" "writing bs_ok s (items_bytes its)"
    using bs.put_items_writing [OF writing_new_ByteStream, of M its] assms by auto
  then have len: "unat (Length s) = length (items_bytes its)" "take (unat (Length s)) (Data s) = items_bytes its"
      "unat (Length s) \<le> length (Data s)"
    using bs_okD(3) [of s] by (auto simp: writing_def Length_def Data_def)
  then have "reading (new_ByteStream_buffer (Data s) (Length s)) (items_bytes its @ [])"
    using reading_new_buffer [of "Length s" "Data s"] by simp
  then obtain r where r: "get_items (new_ByteStream_buffer (Data s) (Length s)) (map type_of_item its) = Inr (map Some its, r)"
      "reading r []" "max_len_of r = Length s"
    using get_items_reading by (fastforce simp: new_ByteStream_buffer_def)
  have "Tell r = Length s"
    using reading_length [OF r(2)] r(3) by (simp add: Tell_def word_unat_eq_iff)
  with s len r show ?thesis
    by (auto simp: Fail_def writing_def reading_def)
qed

theorem byte_stream_roundtrip_witness:
  "\<exists>s r. put_items (Alloc \<lparr>can_alloc = \<lambda>_. True, junk = \<lambda>_. 0\<rparr>) new_ByteStream
        [Uint16_item 0x1234, String_item [65, 66], Bool_item True] = Inr s \<and> \<not> Fail s \<and>
     take (unat (Length s)) (Data s) = [0x12, 0x34, 0, 0, 0, 2, 65, 66, 1] \<and>
     get_items (new_ByteStream_buffer (Data s) (Length s)) [Uint16T, StringT, BoolT] =
       Inr ([Some (Uint16_item 0x1234), Some (String_item [65, 66]), Some (Bool_item True)], r) \<and>
     \<not> Fail r \<and> Tell r = Length s"
proof -
  have "be16_bytes 0x1234 = [0x12, 0x34]" "be32_bytes 2 = [0, 0, 0, 2]"
    by (simp_all add: be16_bytes_def be32_bytes_def)
  then show ?thesis
    using byte_stream_roundtrip [of "\<lparr>can_alloc = \<lambda>_. True, junk = \<lambda>_. 0\<rparr>" "[Uint16_item 0x1234, String_item [65, 66], Bool_item True]"]
    by auto
qed

text \<open>
  On every well-formed stream (its block has exactly max_len_ bytes, which is less than
  \<open>2 ^ 32 - 4\<close>) a read with >> keeps the stream well formed and stays inside the block, with one
  exception, which is exact: reading a string leaves the block if and only if the four bytes of
  the length are there and the position after them plus the length reaches \<open>2 ^ 32\<close>, where the
  32-bit sum of the bounds check wraps around.
\<close>

theorem byte_stream_read_safety:
  assumes "bs_ok s" and "unat (max_len_of s) + 4 < 2 ^ 32"
  shows "if t = StringT \<and> failed_of s = 0 \<and> unat (current_pos_of s) + 4 \<le> unat (max_len_of s) \<and>
        2 ^ 32 \<le> unat (current_pos_of s) + 4 + unat (string_prefix s)
      then get_item s t = Inl OutOfBounds
      else \<exists>v s'. get_item s t = Inr (v, s') \<and> bs_ok s'"
proof (cases "t = StringT")
  case True
  then show ?thesis
    using ReadString_bs_ok [OF assms] by (auto simp: tag_item_def get_string_def split: if_splits)
qed (use get_number_bs_ok [OF assms] in auto)

theorem byte_stream_read_safety_witness:
  "get_item (new_ByteStream_buffer [0xFF, 0xFF, 0xFF, 0xFC] 4) StringT = Inl OutOfBounds \<and>
   (\<exists>v s'. get_item (new_ByteStream_buffer [0, 0, 0, 9] 4) StringT = Inr (v, s') \<and> bs_ok s')"
proof -
  have "be_to_word [0xFF, 0xFF, 0xFF, 0xFC] = (0xFFFFFFFC :: uint32)" "be_to_word [0, 0, 0, 9] = (9 :: uint32)"
    by (simp_all flip: be32_value_eq add: be32_value_def)
  then show ?thesis
    using byte_stream_read_safety [of "new_ByteStream_buffer [0xFF, 0xFF, 0xFF, 0xFC] 4" StringT]
      byte_stream_read_safety [of "new_ByteStream_buffer [0, 0, 0, 9] 4" StringT]
    by (simp add: new_ByteStream_buffer_def bs_ok_def string_prefix_def)
qed

end
