(* ===== verification/PacketStream.thy ===== *)
theory PacketStream
  imports ZNet ByteStream
begin

text \<open>
  The packet streams of net/codec/znet/packet.h and packet.cc. OutPacketStream derives from
  ByteStream and overrides Alloc so that kPacketHeaderSize bytes stay free before the buffer;
  GetPacket fills them in and hands the block over to a packet. InPacketStream reads the body of a
  packet.

  data_ is the block: the header bytes (None while the pointer is uninitialised, which the
  constructors leave to Alloc) followed by buffer_.
\<close>

section \<open>Definitions\<close>

record OutPacketStream = ByteStream +
  head_of :: "byte list option"
  is_transfered_of :: bool
  cmd_type_of :: uint16

definition data_block :: "OutPacketStream \<Rightarrow> byte list" where
  "data_block s = (case head_of s of None \<Rightarrow> [] | Some h \<Rightarrow> h @ buffer_of s)"

definition OutPacketStream_Alloc ::
  "mem_env \<Rightarrow> OutPacketStream \<Rightarrow> uint32 \<Rightarrow> stream_fault + bool \<times> OutPacketStream" where
  "OutPacketStream_Alloc M s new_len =
     (if failed_of s \<noteq> 0 then Inr (False, s)
      else if new_len > max_len_of s then
        (case grow_size znet_kPacketHeaderSize (max_len_of s) new_len of
          None \<Rightarrow> Inl Hangs
        | Some dwNewBufferSize \<Rightarrow>
            (case (if buffer_of s = [] then malloc_block M (unat (dwNewBufferSize + znet_kPacketHeaderSize))
                   else realloc_block M (data_block s) (unat (dwNewBufferSize + znet_kPacketHeaderSize))) of
              None \<Rightarrow> Inl CheckFailed
            | Some d \<Rightarrow> Inr (True, s\<lparr>head_of := Some (take (unat znet_kPacketHeaderSize) d),
                 max_len_of := dwNewBufferSize - znet_kPacketHeaderSize,
                 buffer_of := drop (unat znet_kPacketHeaderSize) d\<rparr>)))
      else Inr (head_of s \<noteq> None, s))"

definition OutPacketStream_Free :: "OutPacketStream \<Rightarrow> OutPacketStream" where
  "OutPacketStream_Free s = (if is_new_of s then s\<lparr>head_of := Some [], buffer_of := []\<rparr> else s)"

definition OutPacketStream_base :: OutPacketStream where
  "OutPacketStream_base = \<lparr>buffer_of = [], is_new_of = True, max_len_of = 0, data_len_of = 0,
     current_pos_of = 0, failed_of = 0, head_of = None, is_transfered_of = False, cmd_type_of = 0\<rparr>"

definition new_OutPacketStream :: "mem_env \<Rightarrow> uint16 \<Rightarrow> stream_fault + OutPacketStream" where
  "new_OutPacketStream M cmd_type =
     bindE (OutPacketStream_Alloc M OutPacketStream_base znet_kPacketHeaderSize)
       (\<lambda>(_, s). Inr (s\<lparr>is_transfered_of := False, cmd_type_of := cmd_type\<rparr>))"

definition new_OutPacketStream_len :: "mem_env \<Rightarrow> uint16 \<Rightarrow> uint32 \<Rightarrow> stream_fault + OutPacketStream" where
  "new_OutPacketStream_len M cmd_type data_len =
     bindE (OutPacketStream_Alloc M OutPacketStream_base data_len)
       (\<lambda>(_, s). Inr (s\<lparr>is_transfered_of := False, cmd_type_of := cmd_type\<rparr>))"

definition SetCmdType :: "OutPacketStream \<Rightarrow> uint16 \<Rightarrow> OutPacketStream" where
  "SetCmdType s cmd_type = s\<lparr>cmd_type_of := cmd_type\<rparr>"

definition GetCmdType :: "OutPacketStream \<Rightarrow> uint16" where
  "GetCmdType s = cmd_type_of s"

text \<open>The packet takes the block over; an uninitialised data_ cannot be given to it.\<close>

definition GetPacket :: "OutPacketStream \<Rightarrow> stream_fault + Packet \<times> OutPacketStream" where
  "GetPacket s =
     (if is_transfered_of s then Inl CheckFailed
      else let s1 = s\<lparr>is_transfered_of := True, is_new_of := False\<rparr>
           in case head_of s1 of
                None \<Rightarrow> Inl OutOfBounds
              | Some h \<Rightarrow> Inr (new_Packet_data (cmd_type_of s1) (data_block s1) (Tell s1), s1))"

definition new_InPacketStream :: "Packet \<Rightarrow> ByteStream" where
  "new_InPacketStream p = new_ByteStream_buffer (Packet_GetBodyData p) (Packet_GetBodyLength p)"

section \<open>The allocator of the packet stream\<close>

text \<open>The block is eight bytes longer than max_len_ says.\<close>

definition ops_ok :: "uint16 \<Rightarrow> OutPacketStream \<Rightarrow> bool" where
  "ops_ok cmd s \<longleftrightarrow> cmd_type_of s = cmd \<and> \<not> is_transfered_of s \<and> (\<exists>h. head_of s = Some h \<and> length h = 8) \<and> length (buffer_of s) = unat (max_len_of s) + 8 \<and>
     unat (current_pos_of s) \<le> length (buffer_of s)"

definition ops_room :: "mem_env \<Rightarrow> nat \<Rightarrow> bool" where
  "ops_room M n \<longleftrightarrow> (\<forall>k. can_alloc M k) \<and> n + 16 \<le> 2 ^ 32"

lemma grow_size_header:
  assumes "unat n + 16 \<le> 2 ^ 32" and "n > m"
  obtains r where "grow_size znet_kPacketHeaderSize m n = Some r" "unat (r + znet_kPacketHeaderSize) = unat r + 8"
    "unat (r - znet_kPacketHeaderSize) + 8 = unat r" "unat n \<le> unat r" "unat m + 8 \<le> unat r"
proof -
  obtain r where r: "grow_size 8 m n = Some r" "n \<le> r" "unat m + 8 \<le> unat r" "unat r < unat n + 8"
    using grow_size_ends [of 8 n m] assms by auto
  have "unat (r + 8) = unat r + 8"
    using r(4) assms(1) by (simp add: unat_word_ariths)
  moreover have "unat (r - 8) + 8 = unat r"
    using r(3) by (simp add: unat_sub word_le_nat_alt)
  ultimately show thesis
    using that r by (simp add: znet_kPacketHeaderSize_def word_le_nat_alt)
qed

lemma OutPacketStream_Alloc_ok:
  assumes "ops_ok cmd s" and "failed_of s = 0" and "is_new_of s" and "ops_room M (unat n)" and "n > max_len_of s"
  shows "\<exists>s'. OutPacketStream_Alloc M s n = Inr (True, s') \<and> ops_ok cmd s' \<and> failed_of s' = 0 \<and> is_new_of s' \<and>
    current_pos_of s' = current_pos_of s \<and> data_len_of s' = data_len_of s \<and> unat n \<le> length (buffer_of s') \<and>
    take (length (buffer_of s)) (buffer_of s') = buffer_of s"
proof -
  obtain r where r: "grow_size znet_kPacketHeaderSize (max_len_of s) n = Some r"
      "unat (r + znet_kPacketHeaderSize) = unat r + 8" "unat (r - znet_kPacketHeaderSize) + 8 = unat r"
      "unat n \<le> unat r" "unat (max_len_of s) + 8 \<le> unat r"
    using grow_size_header [of n "max_len_of s"] assms(4,5) by (auto simp: ops_room_def)
  obtain h where h: "head_of s = Some h" "length h = 8" "length (buffer_of s) = unat (max_len_of s) + 8"
    using assms(1) by (auto simp: ops_ok_def)
  then have "buffer_of s \<noteq> []" by auto
  then show ?thesis
    using assms r h
    by (auto simp: OutPacketStream_Alloc_def realloc_block_def data_block_def ops_ok_def ops_room_def
        znet_kPacketHeaderSize_def)
qed

interpretation ps: stream_alloc "OutPacketStream_Alloc M" "ops_ok cmd" "ops_room M" for M cmd
proof (unfold_locales, goal_cases)
  case (5 s k)
  then show ?case using OutPacketStream_Alloc_ok by blast
qed (auto simp: ops_ok_def ops_room_def)

lemma writing_new_OutPacketStream:
  assumes "ops_room M 0"
  shows "\<exists>s. new_OutPacketStream M cmd = Inr s \<and> writing (ops_ok cmd) s []"
proof -
  obtain r where "grow_size znet_kPacketHeaderSize 0 znet_kPacketHeaderSize = Some r"
      "unat (r + znet_kPacketHeaderSize) = unat r + 8" "unat (r - znet_kPacketHeaderSize) + 8 = unat r"
    using grow_size_header [of znet_kPacketHeaderSize 0] by (auto simp: znet_kPacketHeaderSize_def)
  then show ?thesis
    using assms
    by (auto simp: new_OutPacketStream_def OutPacketStream_Alloc_def OutPacketStream_base_def malloc_block_def
        ops_ok_def ops_room_def writing_def znet_kPacketHeaderSize_def)
qed

lemma GetPacket_writing:
  assumes "writing (ops_ok cmd) s bs"
  shows "\<exists>p s'. GetPacket s = Inr (p, s') \<and> take (8 + length bs) p = znet_header cmd (Tell s) @ bs \<and>
    unat (Tell s) = length bs \<and> 8 + length bs \<le> length p \<and> is_transfered_of s'"
proof -
  obtain h where h: "head_of s = Some h" "length h = 8" "cmd_type_of s = cmd" "\<not> is_transfered_of s"
      "unat (current_pos_of s) = length bs" "length bs \<le> length (buffer_of s)" "take (length bs) (buffer_of s) = bs"
    using assms by (auto simp: writing_def ops_ok_def)
  then show ?thesis
    by (auto simp: GetPacket_def data_block_def new_Packet_data_def overwrite_def Tell_def)
qed

text \<open>What the accessors and the reading stream see of a packet depends on its sent bytes only.\<close>

lemma packet_of_bytes:
  assumes "take (8 + length bs) p = znet_header cmd n @ bs" and "unat n = length bs" and "8 + length bs \<le> length p"
  shows "Packet_GetCmdType p = cmd" and "Packet_GetBodyLength p = n"
    and "reading (new_InPacketStream p) bs" and "n \<le> znet_kMaxPacketSize \<Longrightarrow> znet_sent p = znet_header cmd n @ bs"
proof -
  obtain rest where p: "p = znet_header cmd n @ bs @ rest"
    using assms(1) by (metis append.assoc append_take_drop_id)
  have len: "8 \<le> length p" using assms(3) by simp
  show "Packet_GetCmdType p = cmd" and n: "Packet_GetBodyLength p = n"
    by (simp_all add: packet_fields [OF len]) (simp_all add: p znet_header_eq bytes_simps)
  have "Packet_GetBodyData p = bs @ rest"
    by (simp add: Packet_GetBodyData_def p znet_kPacketHeaderSize_def)
  then show "reading (new_InPacketStream p) bs"
    using reading_new_buffer [of n "bs @ rest"] assms(2) n by (simp add: new_InPacketStream_def)
  show "znet_sent p = znet_header cmd n @ bs" if "n \<le> znet_kMaxPacketSize"
    using assms(1,2) that n by (simp add: znet_sent_def Packet_GetRawdataLength_def unat_header_add)
qed

text \<open>
  The way the clients use the streams: make a stream, write the items of a message, take the
  packet; and open a received packet, read items of given types.
\<close>

definition packet_of_items :: "mem_env \<Rightarrow> uint16 \<Rightarrow> item list \<Rightarrow> stream_fault + Packet" where
  "packet_of_items M cmd its =
     bindE (new_OutPacketStream M cmd) (\<lambda>s0.
       bindE (put_items (OutPacketStream_Alloc M) s0 its) (\<lambda>s. bindE (GetPacket s) (\<lambda>(p, _). Inr p)))"

definition items_of_packet :: "Packet \<Rightarrow> item_type list \<Rightarrow> stream_fault + item option list" where
  "items_of_packet p ts = bindE (get_items (new_InPacketStream p) ts) (\<lambda>(vs, _). Inr vs)"

lemma packet_of_items_bytes:
  assumes "ops_room M (length (items_bytes its))"
  shows "\<exists>p. packet_of_items M cmd its = Inr p \<and> 8 + length (items_bytes its) \<le> length p \<and>
    take (8 + length (items_bytes its)) p = znet_header cmd (of_nat (length (items_bytes its))) @ items_bytes its"
proof -
  obtain s0 where s0: "new_OutPacketStream M cmd = Inr s0" "writing (ops_ok cmd) s0 []"
    using writing_new_OutPacketStream [of M cmd] ps.room_mono [OF assms, of 0] by auto
  obtain s where s: "put_items (OutPacketStream_Alloc M) s0 its = Inr s" "writing (ops_ok cmd) s (items_bytes its)"
    using ps.put_items_writing [OF s0(2), of M its] assms by auto
  obtain p s' where p: "GetPacket s = Inr (p, s')"
      "take (8 + length (items_bytes its)) p = znet_header cmd (Tell s) @ items_bytes its"
      "unat (Tell s) = length (items_bytes its)" "8 + length (items_bytes its) \<le> length p"
    using GetPacket_writing [OF s(2)] by blast
  have "Tell s = of_nat (length (items_bytes its))" using arg_cong [OF p(3), of "of_nat :: nat \<Rightarrow> uint32"] by simp
  with s0 s p show ?thesis by (simp add: packet_of_items_def)
qed

lemma items_of_packet_bytes:
  assumes "reading (new_InPacketStream p) (items_bytes its)"
  shows "items_of_packet p (map type_of_item its) = Inr (map Some its)"
  using get_items_reading [of "new_InPacketStream p" its "[]"] assms by (auto simp: items_of_packet_def)

section \<open>Properties\<close>

text \<open>
  A message written item by item into an OutPacketStream becomes a packet whose command and
  body length are those of the message and whose body an InPacketStream reads back to the same
  items; GetPacket can be taken once only, a second call fails its check.
\<close>

theorem packet_stream_roundtrip:
  assumes "\<forall>k. can_alloc M k" and "length (items_bytes its) + 16 \<le> 2 ^ 32"
  shows "\<exists>s0 s p s'. new_OutPacketStream M cmd = Inr s0 \<and> put_items (OutPacketStream_Alloc M) s0 its = Inr s \<and>
     GetPacket s = Inr (p, s') \<and> GetPacket s' = Inl CheckFailed \<and> Packet_GetCmdType p = cmd \<and>
     unat (Packet_GetBodyLength p) = length (items_bytes its) \<and>
     items_of_packet p (map type_of_item its) = Inr (map Some its)"
proof -
  have room: "ops_room M (length (items_bytes its))" using assms by (simp add: ops_room_def)
  obtain s0 where s0: "new_OutPacketStream M cmd = Inr s0" "writing (ops_ok cmd) s0 []"
    using writing_new_OutPacketStream [of M cmd] ps.room_mono [OF room, of 0] by auto
  obtain s where s: "put_items (OutPacketStream_Alloc M) s0 its = Inr s" "writing (ops_ok cmd) s (items_bytes its)"
    using ps.put_items_writing [OF s0(2), of M its] room by auto
  obtain p s' where p: "GetPacket s = Inr (p, s')"
      "take (8 + length (items_bytes its)) p = znet_header cmd (Tell s) @ items_bytes its"
      "unat (Tell s) = length (items_bytes its)" "8 + length (items_bytes its) \<le> length p" "is_transfered_of s'"
    using GetPacket_writing [OF s(2)] by blast
  have "GetPacket s' = Inl CheckFailed" using p(5) by (simp add: GetPacket_def)
  then show ?thesis
    using s0 s p(1,3) packet_of_bytes(1,2) [OF p(2-4)] items_of_packet_bytes [OF packet_of_bytes(3) [OF p(2-4)]] by auto
qed

theorem packet_stream_roundtrip_witness:
  "\<exists>s0 s p s'. new_OutPacketStream \<lparr>can_alloc = \<lambda>_. True, junk = \<lambda>_. 0\<rparr> 7 = Inr s0 \<and>
     put_items (OutPacketStream_Alloc \<lparr>can_alloc = \<lambda>_. True, junk = \<lambda>_. 0\<rparr>) s0 [Uint32_item 5, Bool_item True] = Inr s \<and>
     GetPacket s = Inr (p, s') \<and> GetPacket s' = Inl CheckFailed \<and> Packet_GetCmdType p = 7 \<and>
     unat (Packet_GetBodyLength p) = 5 \<and>
     items_of_packet p [Uint32T, BoolT] = Inr [Some (Uint32_item 5), Some (Bool_item True)]"
  using packet_stream_roundtrip [of "\<lparr>can_alloc = \<lambda>_. True, junk = \<lambda>_. 0\<rparr>" "[Uint32_item 5, Bool_item True]" 7]
  by simp

text \<open>The packet as it is on the wire, without the slack of the block it was built in.\<close>

definition wire_packet :: "uint16 \<times> item list \<Rightarrow> Packet" where
  "wire_packet m = znet_header (fst m) (of_nat (length (items_bytes (snd m)))) @ items_bytes (snd m)"

lemma Packet_ParsePacketHeader_alt:
  "Packet_ParsePacketHeader p =
     (if ucast (Packet_GetVersion p) \<noteq> znet_kPacketVersion \<or> Packet_GetBodyLength p > znet_kMaxPacketSize then -1
      else if Packet_GetBodyLength p = 0 then 1 else 0)"
  by (simp only: Packet_ParsePacketHeader_def Packet_GetVersion_def Packet_GetBodyLength_def Let_def)

lemma wire_packet_props:
  assumes "length (items_bytes its) \<le> unat znet_kMaxPacketSize"
  shows "znet_valid (wire_packet (cmd, its))" and "Packet_GetCmdType (wire_packet (cmd, its)) = cmd"
    and "items_of_packet (wire_packet (cmd, its)) (map type_of_item its) = Inr (map Some its)"
proof -
  let ?n = "of_nat (length (items_bytes its)) :: uint32" and ?p = "wire_packet (cmd, its)"
  have n: "unat ?n = length (items_bytes its)"
    using assms by (simp add: unat_of_nat take_bit_nat_eq_self_iff znet_consts)
  have le: "?n \<le> znet_kMaxPacketSize" using assms n by (simp add: word_le_nat_alt)
  have p: "take (8 + length (items_bytes its)) ?p = znet_header cmd ?n @ items_bytes its" "8 + length (items_bytes its) \<le> length ?p"
    by (simp_all add: wire_packet_def)
  note parts = packet_of_bytes [OF p(1) n p(2)]
  show "Packet_GetCmdType ?p = cmd" by (rule parts)
  show "items_of_packet ?p (map type_of_item its) = Inr (map Some its)"
    by (rule items_of_packet_bytes [OF parts(3)])
  have "Packet_GetVersion ?p = 0"
    by (simp add: packet_fields(3) wire_packet_def znet_header_eq be_to_word_def)
  then show "znet_valid ?p"
    using parts(2) le n p(2)
    by (simp add: znet_valid_def Packet_ParsePacketHeader_alt znet_kPacketVersion_def not_less) (simp add: wire_packet_def)
qed

lemma wire_packet_sent:
  assumes "\<forall>k. can_alloc M k" and "length (items_bytes its) \<le> unat znet_kMaxPacketSize"
    and "packet_of_items M cmd its = Inr p"
  shows "znet_sent p = znet_sent (wire_packet (cmd, its))"
proof -
  let ?n = "of_nat (length (items_bytes its)) :: uint32"
  have n: "unat ?n = length (items_bytes its)"
    using assms(2) by (simp add: unat_of_nat take_bit_nat_eq_self_iff znet_consts)
  have le: "?n \<le> znet_kMaxPacketSize" using assms(2) n by (simp add: word_le_nat_alt)
  have "ops_room M (length (items_bytes its))"
    using assms(1,2) by (simp add: ops_room_def znet_consts)
  then have "znet_sent p = znet_header cmd ?n @ items_bytes its"
    using packet_of_items_bytes [of M its cmd] assms(3) packet_of_bytes(4) [OF _ n _ le] by auto
  also have "\<dots> = znet_sent (wire_packet (cmd, its))"
    using znet_valid_eq(3) [OF wire_packet_props(1) [OF assms(2)]] by (simp add: wire_packet_def)
  finally show ?thesis .
qed



end
