(* ===== verification/TeamTalk.thy ===== *)
theory TeamTalk
  imports ZNet
begin

text \<open>
  The teamtalk protocol: net/codec/teamtalk/teamtalk_packet.h and .cc (header and packet) and
  teamtalk_codec.cc (the codec). The twelve header bytes are the total length, the message type,
  the version and a reserved field. A packet is its byte block.
\<close>

section \<open>Definitions\<close>

definition tt_kMaxPacketSize :: uint32 where "tt_kMaxPacketSize = 64 * 1024 * 1024"
definition tt_kPacketHeaderSize :: uint32 where "tt_kPacketHeaderSize = 12"
definition tt_kPacketVersion :: uint16 where "tt_kPacketVersion = 1"

definition tt_header :: "uint32 \<Rightarrow> uint16 \<Rightarrow> uint32 \<Rightarrow> byte list" where
  "tt_header message_type reserved body_len =
     (let data_len = body_len + tt_kPacketHeaderSize
      in be32_bytes data_len @ be32_bytes message_type @ be16_bytes tt_kPacketVersion @
         be16_bytes reserved)"

definition TT_GeneratePacketHeader ::
  "byte list \<Rightarrow> uint32 \<Rightarrow> uint16 \<Rightarrow> uint32 \<Rightarrow> int \<times> byte list" where
  "TT_GeneratePacketHeader data message_type reserved body_len =
     (if body_len > tt_kMaxPacketSize then (-1, data)
      else (0, overwrite data 0 (tt_header message_type reserved body_len)))"

text \<open>The output body length is written on the two successful paths only.\<close>

definition TT_ParsePacketHeader :: "byte list \<Rightarrow> int \<times> uint32 \<times> uint16 \<times> uint32 option" where
  "TT_ParsePacketHeader h =
     (let packet_len = be32_value (h ! 0) (h ! 1) (h ! 2) (h ! 3);
          message_type = be32_value (h ! 4) (h ! 5) (h ! 6) (h ! 7);
          version = be16_value (h ! 8) (h ! 9);
          reserved = be16_value (h ! 10) (h ! 11)
      in if version \<noteq> tt_kPacketVersion \<or> packet_len > tt_kMaxPacketSize \<or>
            packet_len < tt_kPacketHeaderSize
         then (-1, message_type, reserved, None)
         else if packet_len = tt_kPacketHeaderSize
         then (1, message_type, reserved, Some 0)
         else (0, message_type, reserved, Some (packet_len - tt_kPacketHeaderSize)))"

type_synonym TeamTalkPacket = "byte list"

definition new_TeamTalkPacket :: "uint32 \<Rightarrow> uint16 \<Rightarrow> uint32 \<Rightarrow> TeamTalkPacket" where
  "new_TeamTalkPacket message_type reserved body_len =
     overwrite (malloc (unat (body_len + tt_kPacketHeaderSize))) 0
       (tt_header message_type reserved body_len)"

definition TT_GetRawdataLength :: "TeamTalkPacket \<Rightarrow> uint32" where
  "TT_GetRawdataLength p = be32_value (p ! 0) (p ! 1) (p ! 2) (p ! 3)"

definition TT_GetMessageType :: "TeamTalkPacket \<Rightarrow> uint32" where
  "TT_GetMessageType p = be32_value (p ! 4) (p ! 5) (p ! 6) (p ! 7)"

definition TT_GetVersion :: "TeamTalkPacket \<Rightarrow> uint16" where
  "TT_GetVersion p = be16_value (p ! 8) (p ! 9)"

definition TT_GetReserved :: "TeamTalkPacket \<Rightarrow> uint16" where
  "TT_GetReserved p = be16_value (p ! 10) (p ! 11)"

definition TT_GetBodyData :: "TeamTalkPacket \<Rightarrow> byte list" where
  "TT_GetBodyData p = drop (unat tt_kPacketHeaderSize) p"

definition TT_GetBodyLength :: "TeamTalkPacket \<Rightarrow> uint32" where
  "TT_GetBodyLength p = TT_GetRawdataLength p - tt_kPacketHeaderSize"

definition TT_SetBody :: "TeamTalkPacket \<Rightarrow> byte list \<Rightarrow> TeamTalkPacket" where
  "TT_SetBody p body = overwrite p (unat tt_kPacketHeaderSize) body"

definition TT_Clone :: "TeamTalkPacket \<Rightarrow> TeamTalkPacket" where
  "TT_Clone p =
     overwrite (malloc (unat (TT_GetRawdataLength p))) 0 (take (unat (TT_GetRawdataLength p)) p)"

definition TT_OnDataReceived ::
  "('s \<Rightarrow> TeamTalkPacket \<Rightarrow> int \<times> 's) \<Rightarrow> 's \<Rightarrow> IOBuffer \<Rightarrow> (int \<times> 's \<times> IOBuffer) option" where
  "TT_OnDataReceived delegate s data =
     (if ReadableBytes data \<ge> unat tt_kPacketHeaderSize then
        (case TT_ParsePacketHeader (content data) of
           (ret, message_type, reserved, None) \<Rightarrow> Some (ret, s, data)
         | (ret, message_type, reserved, Some body_len) \<Rightarrow>
            if ret = 1 then do {
              let (ret', s') = delegate s (new_TeamTalkPacket message_type reserved 0);
              data' \<leftarrow> Retrieve data (unat tt_kPacketHeaderSize);
              Some (ret', s', data')
            }
            else if ReadableBytes data \<ge> unat (body_len + tt_kPacketHeaderSize) then do {
              let p = TT_SetBody (new_TeamTalkPacket message_type reserved body_len)
                        (take (unat body_len) (drop (unat tt_kPacketHeaderSize) (content data)));
              let (ret', s') = delegate s p;
              data' \<leftarrow> Retrieve data (unat (body_len + tt_kPacketHeaderSize));
              Some (ret', s', data')
            }
            else Some (0, s, data))
      else Some (0, s, data))"

section \<open>Headers and packets\<close>

lemmas tt_consts = tt_kMaxPacketSize_def tt_kPacketHeaderSize_def tt_kPacketVersion_def

lemma unat_tt_kPacketHeaderSize [simp]: "unat tt_kPacketHeaderSize = 12"
  by (simp add: tt_kPacketHeaderSize_def)

lemma length_tt_header [simp]: "length (tt_header t r n) = 12"
  by (simp add: tt_header_def Let_def)

lemma tt_header_eq:
  "tt_header t r n = be32_bytes (n + 12) @ be32_bytes t @ [0, 1] @ be16_bytes r"
  by (simp add: tt_header_def Let_def tt_consts be16_bytes_def)

lemma TT_fields:
  assumes "12 \<le> length p"
  shows "TT_GetRawdataLength p = be_to_word (take 4 p)"
    and "TT_GetMessageType p = be_to_word (take 4 (drop 4 p))"
    and "TT_GetVersion p = be_to_word (take 2 (drop 8 p))"
    and "TT_GetReserved p = be_to_word (take 2 (drop 10 p))"
  using assms be32_value_at [of 0 p] be32_value_at [of 4 p] be16_value_at [of 8 p]
    be16_value_at [of 10 p]
  by (simp_all add: TT_GetRawdataLength_def TT_GetMessageType_def TT_GetVersion_def TT_GetReserved_def
      numeral_2_eq_2)

lemma TT_Parse_fields:
  "TT_ParsePacketHeader p =
     (if TT_GetVersion p \<noteq> tt_kPacketVersion \<or> TT_GetRawdataLength p > tt_kMaxPacketSize \<or>
         TT_GetRawdataLength p < tt_kPacketHeaderSize
      then (-1, TT_GetMessageType p, TT_GetReserved p, None)
      else if TT_GetRawdataLength p = tt_kPacketHeaderSize
      then (1, TT_GetMessageType p, TT_GetReserved p, Some 0)
      else (0, TT_GetMessageType p, TT_GetReserved p,
            Some (TT_GetRawdataLength p - tt_kPacketHeaderSize)))"
  by (simp add: TT_ParsePacketHeader_def TT_GetRawdataLength_def TT_GetMessageType_def
        TT_GetVersion_def TT_GetReserved_def Let_def)

lemma be_to_word_version: "(be_to_word [0, 1] :: uint16) = 1"
  by (simp add: be_to_word_def)

lemma tt_header_fields:
  "TT_GetRawdataLength (tt_header t r n @ xs) = n + 12"
  "TT_GetMessageType (tt_header t r n @ xs) = t"
  "TT_GetVersion (tt_header t r n @ xs) = 1"
  "TT_GetReserved (tt_header t r n @ xs) = r"
  by (simp_all add: TT_fields) (simp_all add: tt_header_eq bytes_simps be_to_word_version)

text \<open>The range of body lengths that fit: the total length does not wrap and is not too big.\<close>

lemma tt_body_fits:
  "n \<le> tt_kMaxPacketSize - tt_kPacketHeaderSize \<Longrightarrow>
   unat (n + tt_kPacketHeaderSize) = 12 + unat n \<and> \<not> n + tt_kPacketHeaderSize > tt_kMaxPacketSize \<and>
   \<not> n + tt_kPacketHeaderSize < tt_kPacketHeaderSize"
  by (simp add: tt_consts word_le_nat_alt word_less_nat_alt unat_word_ariths)

lemma tt_packet_len_body:
  assumes "\<not> L > tt_kMaxPacketSize" and "\<not> L < tt_kPacketHeaderSize"
  shows "L - tt_kPacketHeaderSize \<le> tt_kMaxPacketSize - tt_kPacketHeaderSize"
    and "unat L = 12 + unat (L - tt_kPacketHeaderSize)"
  using assms by (simp_all add: tt_consts word_le_nat_alt word_less_nat_alt unat_sub_if')

lemma new_TeamTalkPacket_SetBody:
  assumes "length body = unat n" and "n \<le> tt_kMaxPacketSize - tt_kPacketHeaderSize"
  shows "TT_SetBody (new_TeamTalkPacket t r n) body = tt_header t r n @ body"
  using assms(1) tt_body_fits [OF assms(2)]
  by (simp add: TT_SetBody_def new_TeamTalkPacket_def malloc_def overwrite_def)

section \<open>The codec as a frame decoder\<close>

definition tt_dec :: "byte list \<Rightarrow> TeamTalkPacket frame" where
  "tt_dec xs =
     (if length xs < 12 then Incomplete
      else case TT_ParsePacketHeader xs of
             (ret, t, r, None) \<Rightarrow> Malformed
           | (ret, t, r, Some n) \<Rightarrow>
               if length xs < 12 + unat n then Incomplete
               else Frame (tt_header t r n @ take (unat n) (drop 12 xs)) (drop (12 + unat n) xs))"

definition tt_sent :: "TeamTalkPacket \<Rightarrow> byte list" where
  "tt_sent p = take (unat (TT_GetRawdataLength p)) p"

definition tt_valid :: "TeamTalkPacket \<Rightarrow> bool" where
  "tt_valid p \<longleftrightarrow> 12 \<le> length p \<and> fst (TT_ParsePacketHeader p) \<noteq> -1 \<and>
     length p = unat (TT_GetRawdataLength p)"

lemma tt_parse_more:
  "12 \<le> length xs \<Longrightarrow> TT_ParsePacketHeader (xs @ ys) = TT_ParsePacketHeader xs"
  by (auto simp: TT_ParsePacketHeader_def nth_append)

lemma tt_valid_eq:
  assumes "tt_valid p"
  shows "p = tt_header (TT_GetMessageType p) (TT_GetReserved p) (TT_GetBodyLength p) @ drop 12 p"
    and "TT_GetBodyLength p \<le> tt_kMaxPacketSize - tt_kPacketHeaderSize"
    and "length (drop 12 p) = unat (TT_GetBodyLength p)" and "tt_sent p = p"
proof -
  let ?L = "TT_GetRawdataLength p"
  from assms have len: "12 \<le> length p" "length p = unat ?L" by (auto simp: tt_valid_def)
  from assms have L: "\<not> ?L > tt_kMaxPacketSize" "\<not> ?L < tt_kPacketHeaderSize"
    and ver: "TT_GetVersion p = tt_kPacketVersion"
    by (auto simp: tt_valid_def TT_Parse_fields split: if_splits)
  have L12: "?L = TT_GetBodyLength p + 12"
    by (simp add: TT_GetBodyLength_def tt_consts)
  have "take 2 (drop 8 p) = be16_bytes (TT_GetVersion p)"
    using len(1) by (simp add: TT_fields bytes_simps)
  then have "take 2 (drop 8 p) = [0, 1]" by (simp add: ver tt_consts be16_bytes_def)
  moreover have "take 4 p = be32_bytes ?L" "take 4 (drop 4 p) = be32_bytes (TT_GetMessageType p)"
    "take 2 (drop 10 p) = be16_bytes (TT_GetReserved p)"
    using len(1) by (simp_all add: TT_fields bytes_simps)
  moreover have "p = take 4 p @ take 4 (drop 4 p) @ take 2 (drop 8 p) @ take 2 (drop 10 p) @ drop 12 p"
    by (simp add: take_drop_join)
  ultimately show "p = tt_header (TT_GetMessageType p) (TT_GetReserved p) (TT_GetBodyLength p) @ drop 12 p"
    by (metis L12 append.assoc tt_header_eq)
  show "TT_GetBodyLength p \<le> tt_kMaxPacketSize - tt_kPacketHeaderSize"
    using tt_packet_len_body(1) [OF L] by (simp add: TT_GetBodyLength_def)
  show "length (drop 12 p) = unat (TT_GetBodyLength p)"
    using tt_packet_len_body(2) [OF L] len by (simp add: TT_GetBodyLength_def)
  show "tt_sent p = p" using len by (simp add: tt_sent_def)
qed

lemma tt_header_parse:
  assumes "n \<le> tt_kMaxPacketSize - tt_kPacketHeaderSize"
  shows "TT_ParsePacketHeader (tt_header t r n @ xs) = (if n = 0 then 1 else 0, t, r, Some n)"
  using tt_body_fits [OF assms] by (auto simp: TT_Parse_fields tt_header_fields tt_consts)

interpretation tt: framing tt_dec tt_sent tt_valid
proof
  fix xs ys p r
  show "tt_dec (xs @ ys) = Frame p (r @ ys)" if "tt_dec xs = Frame p r"
    using that by (auto simp: tt_dec_def tt_parse_more split: if_splits prod.splits option.splits)
  show "tt_dec (xs @ ys) = Malformed" if "tt_dec xs = Malformed"
    using that by (auto simp: tt_dec_def tt_parse_more split: if_splits prod.splits option.splits)
  show "length r < length xs" if "tt_dec xs = Frame p r"
    using that by (auto simp: tt_dec_def split: if_splits prod.splits option.splits)
  show "tt_dec [] = Incomplete" by (simp add: tt_dec_def)
  show "tt_dec (tt_sent p @ ys) = Frame p ys" if v: "tt_valid p"
  proof -
    let ?h = "tt_header (TT_GetMessageType p) (TT_GetReserved p) (TT_GetBodyLength p)"
    note eq = tt_valid_eq [OF v]
    have "tt_dec (?h @ (drop 12 p @ ys)) = Frame (?h @ drop 12 p) ys"
      using eq(2,3) by (simp add: tt_dec_def tt_header_parse)
    then show ?thesis using eq(1,4) by (metis append.assoc)
  qed
qed

lemma TT_OnDataReceived_dec:
  assumes "iob_inv b"
  shows "case tt_dec (content b) of
       Incomplete \<Rightarrow> TT_OnDataReceived delegate s b = Some (0, s, b)
     | Malformed \<Rightarrow> TT_OnDataReceived delegate s b = Some (-1, s, b)
     | Frame p r \<Rightarrow> \<exists>b'. TT_OnDataReceived delegate s b =
           Some (fst (delegate s p), snd (delegate s p), b') \<and> iob_inv b' \<and> content b' = r"
proof (cases "length (content b) < 12")
  case True
  then show ?thesis
    using assms by (simp add: tt_dec_def TT_OnDataReceived_def ReadableBytes_content)
next
  case False
  obtain ret t r n where P: "TT_ParsePacketHeader (content b) = (ret, t, r, n)" by (metis prod_cases4)
  show ?thesis
  proof (cases n)
    case None
    then have "ret = -1" using P by (auto simp: TT_Parse_fields split: if_splits)
    with None P False assms show ?thesis
      by (simp add: tt_dec_def TT_OnDataReceived_def ReadableBytes_content)
  next
    case (Some m)
    have m: "m \<le> tt_kMaxPacketSize - tt_kPacketHeaderSize" and ret: "ret = (if m = 0 then 1 else 0)"
      using P Some tt_packet_len_body(1) [of "TT_GetRawdataLength (content b)"]
      by (auto simp: TT_Parse_fields split: if_splits)
    note add = tt_body_fits [OF m, THEN conjunct1]
    show ?thesis
    proof (cases "length (content b) < 12 + unat m")
      case True
      then have "m \<noteq> 0" using False by auto
      with True P Some ret False assms add show ?thesis
        by (simp add: tt_dec_def TT_OnDataReceived_def ReadableBytes_content)
    next
      case enough: False
      let ?p = "tt_header t r m @ take (unat m) (drop 12 (content b))"
      obtain b' where b': "Retrieve b (12 + unat m) = Some b'" "iob_inv b'"
        "content b' = drop (12 + unat m) (content b)"
        using does_Retrieve [OF assms, of "12 + unat m"] enough by auto
      have body: "TT_SetBody (new_TeamTalkPacket t r m) (take (unat m) (drop 12 (content b))) = ?p"
        using enough m by (intro new_TeamTalkPacket_SetBody) auto
      then have "m = 0 \<Longrightarrow> new_TeamTalkPacket t r 0 = ?p" by (simp add: TT_SetBody_def)
      then have "TT_OnDataReceived delegate s b = Some (fst (delegate s ?p), snd (delegate s ?p), b')"
        using assms False P Some ret enough b'(1) body add
        by (auto simp: TT_OnDataReceived_def ReadableBytes_content split: prod.splits)
      then show ?thesis using False P Some enough b' by (simp add: tt_dec_def)
    qed
  qed
qed

lemma TT_OnDataReceived_dec_log:
  "iob_inv b \<Longrightarrow> case tt_dec (content b) of
       Incomplete \<Rightarrow> TT_OnDataReceived log_delegate s b = Some (0, s, b)
     | Malformed \<Rightarrow> TT_OnDataReceived log_delegate s b = Some (-1, s, b)
     | Frame p r \<Rightarrow> \<exists>b'. TT_OnDataReceived log_delegate s b = Some (0, s @ [p], b') \<and> iob_inv b' \<and> content b' = r"
  using TT_OnDataReceived_dec [of b log_delegate s] by (simp add: log_delegate_def split: frame.splits)

interpretation tt_codec: one_frame_codec tt_dec tt_sent tt_valid "TT_OnDataReceived log_delegate"
  by unfold_locales (rule TT_OnDataReceived_dec_log)

section \<open>Properties\<close>

text \<open>
  GeneratePacketHeader and ParsePacketHeader agree exactly up to a body of
  kMaxPacketSize - kPacketHeaderSize bytes: such a header parses back to the same fields. For the
  twelve body lengths above that, up to kMaxPacketSize, GeneratePacketHeader reports success and
  writes a header that ParsePacketHeader rejects.
\<close>

theorem tt_header_roundtrip_limit:
  assumes "12 \<le> length data" and "n \<le> tt_kMaxPacketSize"
  shows "\<exists>data'. TT_GeneratePacketHeader data t r n = (0, data') \<and>
     (if n \<le> tt_kMaxPacketSize - tt_kPacketHeaderSize
      then TT_ParsePacketHeader data' = (if n = 0 then 1 else 0, t, r, Some n)
      else fst (TT_ParsePacketHeader data') = -1)"
proof -
  have big: "n + tt_kPacketHeaderSize > tt_kMaxPacketSize"
    if "\<not> n \<le> tt_kMaxPacketSize - tt_kPacketHeaderSize"
    using that assms(2) by (simp add: tt_consts word_le_nat_alt word_less_nat_alt unat_word_ariths)
  show ?thesis
    using assms(2) big
    by (auto simp: TT_GeneratePacketHeader_def overwrite_def tt_header_parse)
       (simp add: TT_Parse_fields tt_header_fields tt_kPacketHeaderSize_def)
qed

theorem tt_header_roundtrip_limit_witness:
  "\<exists>data'. TT_GeneratePacketHeader (replicate 12 0) 1 2 67108860 = (0, data') \<and>
     fst (TT_ParsePacketHeader data') = -1"
  using tt_header_roundtrip_limit [of "replicate 12 0" 67108860 1 2] by (simp add: tt_consts)



end
