(* ===== verification/MessagePdu.thy ===== *)
theory MessagePdu
  imports TeamTalk
begin

text \<open>
  message_pdu/: messages as objects. An application registers one factory per message type with
  the MessagePDUFactoryManager; message_pdu_util.cc turns packets into messages and messages into
  packets. base2/map-util.h holds the map helpers the manager uses.

  The classes derived from MessagePDU belong to the application. A class is a parameter: what its
  overrides of ByteSize, ParseFromArray and SerializeToArray compute on the fields it adds, and the
  object its default constructor makes. A failed CHECK, a LOG(FATAL), a dereference of a null
  pointer and a read behind the end of the caller's array are faults.
\<close>

section \<open>Definitions\<close>

subsection \<open>Map helpers\<close>

definition FindWithDefault :: "('k \<rightharpoonup> 'v) \<Rightarrow> 'k \<Rightarrow> 'v \<Rightarrow> 'v" where
  "FindWithDefault collection key value = (case collection key of None \<Rightarrow> value | Some v \<Rightarrow> v)"

definition FindOrNull :: "('k \<rightharpoonup> 'v) \<Rightarrow> 'k \<Rightarrow> 'v option" where
  "FindOrNull collection key = (case collection key of None \<Rightarrow> None | Some v \<Rightarrow> Some v)"

text \<open>The values are pointers: a missing key and a key with a null value are not told apart.\<close>

definition FindPtrOrNull :: "('k \<rightharpoonup> 'v option) \<Rightarrow> 'k \<Rightarrow> 'v option" where
  "FindPtrOrNull collection key = (case collection key of None \<Rightarrow> None | Some p \<Rightarrow> p)"

definition InsertOrUpdate :: "('k \<rightharpoonup> 'v) \<Rightarrow> 'k \<Rightarrow> 'v \<Rightarrow> bool \<times> ('k \<rightharpoonup> 'v)" where
  "InsertOrUpdate collection key value = (collection key = None, collection(key \<mapsto> value))"

definition InsertIfNotPresent :: "('k \<rightharpoonup> 'v) \<Rightarrow> 'k \<Rightarrow> 'v \<Rightarrow> bool \<times> ('k \<rightharpoonup> 'v)" where
  "InsertIfNotPresent collection key value =
     (if collection key = None then (True, collection(key \<mapsto> value)) else (False, collection))"

subsection \<open>Messages and factories\<close>

datatype pdu_fault = Fatal | NullPointer | ReadBeyondData

record 'c MessagePDU =
  message_type_of :: uint32
  reserved_of :: uint16
  fields_of :: 'c

definition SetReserved :: "'c MessagePDU \<Rightarrow> uint16 \<Rightarrow> 'c MessagePDU" where
  "SetReserved m val = m\<lparr>reserved_of := val\<rparr>"

definition GetReserved :: "'c MessagePDU \<Rightarrow> uint16" where
  "GetReserved m = reserved_of m"

definition set_message_type :: "'c MessagePDU \<Rightarrow> uint32 \<Rightarrow> 'c MessagePDU" where
  "set_message_type m t = m\<lparr>message_type_of := t\<rparr>"

record 'c pdu_class =
  ByteSize :: "'c \<Rightarrow> uint32"
  ParseFromArray :: "'c \<Rightarrow> byte list \<Rightarrow> 'c option"
  SerializeToArray :: "'c \<Rightarrow> uint32 \<Rightarrow> byte list option"
  default_object :: "'c MessagePDU"

definition kUnknownPDUMessage :: string where "kUnknownPDUMessage = ''UNKNOWN PDU''"

definition GetUnknownMessageName :: string where "GetUnknownMessageName = kUnknownPDUMessage"

record 'c MessagePDUFactory =
  fac_message_type :: uint32
  fac_null_able :: bool
  fac_message_name :: string
  fac_class :: "'c pdu_class"

definition new_MessagePDUFactory ::
  "uint32 \<Rightarrow> string option \<Rightarrow> bool \<Rightarrow> 'c pdu_class \<Rightarrow> 'c MessagePDUFactory" where
  "new_MessagePDUFactory message_type message_name null_able cls =
     \<lparr>fac_message_type = message_type, fac_null_able = null_able,
      fac_message_name = (case message_name of Some n \<Rightarrow> n | None \<Rightarrow> GetUnknownMessageName),
      fac_class = cls\<rparr>"

definition Factory_CreateMessage :: "'c MessagePDUFactory \<Rightarrow> 'c MessagePDU option" where
  "Factory_CreateMessage f = (if fac_null_able f then None else Some (default_object (fac_class f)))"

subsection \<open>The factory manager\<close>

record 'c MessagePDUFactoryManager =
  factories_of :: "uint32 \<rightharpoonup> 'c MessagePDUFactory option"

definition new_MessagePDUFactoryManager :: "'c MessagePDUFactoryManager" where
  "new_MessagePDUFactoryManager = \<lparr>factories_of = Map.empty\<rparr>"

text \<open>AddFactory: a null factory and a second factory of one type are fatal.\<close>

definition AddFactory ::
  "'c MessagePDUFactoryManager \<Rightarrow> 'c MessagePDUFactory option \<Rightarrow> pdu_fault + 'c MessagePDUFactoryManager" where
  "AddFactory mgr factory =
     (case factory of
        None \<Rightarrow> Inl Fatal
      | Some f \<Rightarrow>
          if factories_of mgr (fac_message_type f) \<noteq> None then Inl Fatal
          else Inr (mgr\<lparr>factories_of := (factories_of mgr)(fac_message_type f \<mapsto> Some f)\<rparr>))"

definition RegisterMessage ::
  "'c MessagePDUFactoryManager \<Rightarrow>
   ('c MessagePDUFactoryManager \<Rightarrow> pdu_fault + bool \<times> 'c MessagePDUFactoryManager) option \<Rightarrow>
   pdu_fault + bool \<times> 'c MessagePDUFactoryManager" where
  "RegisterMessage mgr func = (case func of None \<Rightarrow> Inl Fatal | Some f \<Rightarrow> f mgr)"

definition Manager_CreateMessage :: "'c MessagePDUFactoryManager \<Rightarrow> uint32 \<Rightarrow> 'c MessagePDU option" where
  "Manager_CreateMessage mgr message_type =
     (case FindPtrOrNull (factories_of mgr) message_type of
        None \<Rightarrow> None
      | Some f \<Rightarrow> Factory_CreateMessage f)"

text \<open>The result, the name, and the nullable flag, which keeps its value when the lookup fails.\<close>

definition GetMessageNameAndNullable ::
  "'c MessagePDUFactoryManager \<Rightarrow> uint32 \<Rightarrow> bool \<Rightarrow> bool \<times> string \<times> bool" where
  "GetMessageNameAndNullable mgr message_type null_able =
     (case FindPtrOrNull (factories_of mgr) message_type of
        None \<Rightarrow> (False, GetUnknownMessageName, null_able)
      | Some f \<Rightarrow> (True, fac_message_name f, fac_null_able f))"

definition Manager_GetMessageName :: "'c MessagePDUFactoryManager \<Rightarrow> uint32 \<Rightarrow> string" where
  "Manager_GetMessageName mgr message_type =
     (case FindPtrOrNull (factories_of mgr) message_type of
        None \<Rightarrow> GetUnknownMessageName
      | Some f \<Rightarrow> fac_message_name f)"

subsection \<open>Packets and messages\<close>

text \<open>
  The virtual ParseFromArray of the created object: its class is the class of the factory the
  object came from.
\<close>

definition class_of_type :: "'c MessagePDUFactoryManager \<Rightarrow> uint32 \<Rightarrow> 'c pdu_class option" where
  "class_of_type mgr t = map_option fac_class (FindPtrOrNull (factories_of mgr) t)"

definition ParseFromArray_virtual ::
  "'c MessagePDUFactoryManager \<Rightarrow> uint32 \<Rightarrow> 'c MessagePDU \<Rightarrow> byte list \<Rightarrow> uint32 \<Rightarrow> pdu_fault + 'c MessagePDU option" where
  "ParseFromArray_virtual mgr t m data data_len =
     (case class_of_type mgr t of
        None \<Rightarrow> Inr None
      | Some cls \<Rightarrow>
          if unat data_len \<le> length data
          then Inr (map_option (\<lambda>c. m\<lparr>fields_of := c\<rparr>) (ParseFromArray cls (fields_of m) (take (unat data_len) data)))
          else Inl ReadBeyondData)"

definition ParseMessagePDUFromNetPacker ::
  "'c MessagePDUFactoryManager \<Rightarrow> TeamTalkPacket \<Rightarrow> pdu_fault + 'c MessagePDU option" where
  "ParseMessagePDUFromNetPacker mgr packet =
     (let message_type = TT_GetMessageType packet;
          (found, message_name, null_able) = GetMessageNameAndNullable mgr message_type True
      in if \<not> found then Inr None
         else let message = Manager_CreateMessage mgr message_type
              in if \<not> null_able then
                   (case message of
                      None \<Rightarrow> Inl NullPointer
                    | Some m \<Rightarrow>
                        bindE (ParseFromArray_virtual mgr message_type m (TT_GetBodyData packet) (TT_GetBodyLength packet))
                          (\<lambda>r. Inr (map_option (\<lambda>m'. SetReserved m' (TT_GetReserved packet)) r)))
                 else Inr message)"

text \<open>data = None: the null pointer.\<close>

definition ParseMessagePDUFromArrayData ::
  "'c MessagePDUFactoryManager \<Rightarrow> byte list option \<Rightarrow> uint32 \<Rightarrow> pdu_fault + 'c MessagePDU option" where
  "ParseMessagePDUFromArrayData mgr data data_len =
     (case data of
        None \<Rightarrow> Inr None
      | Some d \<Rightarrow>
          if data_len < tt_kPacketHeaderSize then Inr None
          else
            (case TT_ParsePacketHeader d of
               (ret, message_type, reserved, body_len_out) \<Rightarrow>
                 if ret = -1 then Inr None
                 else
                   (let body_len = (case body_len_out of None \<Rightarrow> 0 | Some n \<Rightarrow> n);
                        (found, message_name, null_able) = GetMessageNameAndNullable mgr message_type True
                    in if \<not> found then Inr None
                       else
                         (let message = Manager_CreateMessage mgr message_type in
                          bindE
                            (if \<not> null_able then
                               (case message of
                                  None \<Rightarrow> Inl NullPointer
                                | Some m \<Rightarrow>
                                    bindE (ParseFromArray_virtual mgr message_type m
                                             (drop (unat tt_kPacketHeaderSize) d) body_len)
                                      (\<lambda>r. Inr (case r of None \<Rightarrow> None | Some m' \<Rightarrow> Some (Some m'))))
                             else Inr (Some message))
                            (\<lambda>r. case r of
                                None \<Rightarrow> Inr None
                              | Some None \<Rightarrow> Inl NullPointer
                              | Some (Some m') \<Rightarrow> Inr (Some (SetReserved m' reserved)))))))"

definition MessageToPacket :: "'c pdu_class \<Rightarrow> 'c MessagePDU \<Rightarrow> TeamTalkPacket option" where
  "MessageToPacket cls message =
     (let message_len = ByteSize cls (fields_of message);
          packet = new_TeamTalkPacket (message_type_of message) (GetReserved message) message_len
      in case SerializeToArray cls (fields_of message) message_len of
           None \<Rightarrow> None
         | Some body \<Rightarrow> Some (TT_SetBody packet body))"

definition MessageToPacket_ptr :: "'c pdu_class \<Rightarrow> 'c MessagePDU option \<Rightarrow> pdu_fault + TeamTalkPacket option" where
  "MessageToPacket_ptr cls message =
     (case message of None \<Rightarrow> Inl Fatal | Some m \<Rightarrow> Inr (MessageToPacket cls m))"

section \<open>The registry\<close>

text \<open>
  Every registered factory is stored under its own message type, and is never null. This is kept
  by the only operation that changes the registry.
\<close>

definition registry_ok :: "'c MessagePDUFactoryManager \<Rightarrow> bool" where
  "registry_ok mgr \<longleftrightarrow> (\<forall>t. case factories_of mgr t of None \<Rightarrow> True
     | Some None \<Rightarrow> False | Some (Some f) \<Rightarrow> fac_message_type f = t)"

primrec AddFactories ::
  "'c MessagePDUFactoryManager \<Rightarrow> 'c MessagePDUFactory list \<Rightarrow> pdu_fault + 'c MessagePDUFactoryManager" where
  "AddFactories mgr [] = Inr mgr"
| "AddFactories mgr (f # fs) = bindE (AddFactory mgr (Some f)) (\<lambda>mgr'. AddFactories mgr' fs)"

lemma registry_ok_new: "registry_ok new_MessagePDUFactoryManager"
  by (simp add: registry_ok_def new_MessagePDUFactoryManager_def)

lemma AddFactory_Some:
  "AddFactory mgr (Some f) = (if FindPtrOrNull (factories_of mgr) (fac_message_type f) \<noteq> None then Inl Fatal
     else Inr (mgr\<lparr>factories_of := (factories_of mgr)(fac_message_type f \<mapsto> Some f)\<rparr>))" if "registry_ok mgr"
  using that [unfolded registry_ok_def, rule_format, of "fac_message_type f"]
  by (auto simp: AddFactory_def FindPtrOrNull_def split: option.splits)

lemma AddFactory_ok: "registry_ok mgr \<Longrightarrow> AddFactory mgr (Some f) = Inr mgr' \<Longrightarrow> registry_ok mgr'"
  by (auto simp: AddFactory_def registry_ok_def split: if_splits)

lemma FindPtrOrNull_upd: "FindPtrOrNull (m(k \<mapsto> v)) k' = (if k' = k then v else FindPtrOrNull m k')"
  by (simp add: FindPtrOrNull_def)

text \<open>A list of factories can be added when their types are distinct and none is registered yet.\<close>

definition addable :: "'c MessagePDUFactoryManager \<Rightarrow> 'c MessagePDUFactory list \<Rightarrow> bool" where
  "addable mgr fs \<longleftrightarrow> distinct (map fac_message_type fs) \<and>
     (\<forall>f \<in> set fs. FindPtrOrNull (factories_of mgr) (fac_message_type f) = None)"

lemma addable_Cons:
  "addable mgr (f # fs) \<longleftrightarrow> FindPtrOrNull (factories_of mgr) (fac_message_type f) = None \<and>
     addable (mgr\<lparr>factories_of := (factories_of mgr)(fac_message_type f \<mapsto> Some f)\<rparr>) fs"
  by (auto simp: addable_def FindPtrOrNull_upd image_iff split: if_splits)

definition registered :: "'c MessagePDUFactory list \<Rightarrow> (uint32 \<rightharpoonup> 'c MessagePDUFactory)" where
  "registered fs = map_of (map (\<lambda>f. (fac_message_type f, f)) fs)"

lemma registered_fresh: "addable mgr (f # fs) \<Longrightarrow> registered fs (fac_message_type f) = None"
  by (auto simp: addable_def registered_def map_of_eq_None_iff)

lemma AddFactories_good:
  assumes "registry_ok mgr" and "addable mgr fs"
  shows "\<exists>mgr'. AddFactories mgr fs = Inr mgr' \<and> registry_ok mgr' \<and>
      (\<forall>t. FindPtrOrNull (factories_of mgr') t =
         (case registered fs t of Some f \<Rightarrow> Some f | None \<Rightarrow> FindPtrOrNull (factories_of mgr) t))"
  using assms
proof (induction fs arbitrary: mgr)
  case (Cons f fs)
  let ?mgr = "mgr\<lparr>factories_of := (factories_of mgr)(fac_message_type f \<mapsto> Some f)\<rparr>"
  have add: "AddFactory mgr (Some f) = Inr ?mgr"
    using AddFactory_Some [OF Cons.prems(1)] Cons.prems(2) by (simp add: addable_Cons)
  obtain mgr' where m: "AddFactories ?mgr fs = Inr mgr'" "registry_ok mgr'"
      "\<And>t. FindPtrOrNull (factories_of mgr') t =
        (case registered fs t of Some f \<Rightarrow> Some f | None \<Rightarrow> FindPtrOrNull (factories_of ?mgr) t)"
    using Cons.IH [OF AddFactory_ok [OF Cons.prems(1) add]] Cons.prems(2) by (auto simp: addable_Cons)
  have "FindPtrOrNull (factories_of mgr') t =
      (case registered (f # fs) t of Some f \<Rightarrow> Some f | None \<Rightarrow> FindPtrOrNull (factories_of mgr) t)" for t
    using m(3) [of t] registered_fresh [OF Cons.prems(2)]
    by (auto simp: registered_def FindPtrOrNull_upd split: option.split)
  with m add show ?case by auto
qed (simp add: registered_def)

lemma AddFactories_bad:
  assumes "registry_ok mgr" and "\<not> addable mgr fs"
  shows "AddFactories mgr fs = Inl Fatal"
  using assms
proof (induction fs arbitrary: mgr)
  case (Cons f fs)
  then show ?case
    using AddFactory_Some [OF Cons.prems(1), of f] AddFactory_ok [OF Cons.prems(1), of f]
    by (auto simp: addable_Cons)
qed (simp add: addable_def)

section \<open>Properties\<close>

lemma manager_lookup:
  assumes "FindPtrOrNull (factories_of mgr) t = Some f"
  shows "GetMessageNameAndNullable mgr t b = (True, fac_message_name f, fac_null_able f)"
    and "Manager_CreateMessage mgr t = Factory_CreateMessage f" and "class_of_type mgr t = Some (fac_class f)"
  using assms by (simp_all add: GetMessageNameAndNullable_def Manager_CreateMessage_def class_of_type_def)

text \<open>
  What an application class promises: an object of its ByteSize serialises to that many bytes, and
  parsing them into any object gives the fields back.
\<close>

definition pdu_class_ok :: "'c pdu_class \<Rightarrow> bool" where
  "pdu_class_ok cls \<longleftrightarrow> (\<forall>c body. SerializeToArray cls c (ByteSize cls c) = Some body \<longrightarrow>
     length body = unat (ByteSize cls c) \<and> (\<forall>c0. ParseFromArray cls c0 body = Some c))"

lemma MessageToPacket_bytes:
  assumes "pdu_class_ok cls" and "SerializeToArray cls (fields_of m) (ByteSize cls (fields_of m)) = Some body"
    and "ByteSize cls (fields_of m) \<le> tt_kMaxPacketSize - tt_kPacketHeaderSize"
  shows "MessageToPacket cls m =
    Some (tt_header (message_type_of m) (reserved_of m) (ByteSize cls (fields_of m)) @ body)"
  using assms new_TeamTalkPacket_SetBody [of body "ByteSize cls (fields_of m)"]
  by (auto simp: MessageToPacket_def GetReserved_def pdu_class_ok_def)

text \<open>
  C34: a message of a registered, non-nullable type survives the wire format: the packet made of
  it parses back to the same message (type, reserved field and the fields of its class), both from
  the packet object and from its raw bytes. The class only has to parse what it serialises, and its
  objects have to fit in a packet.
\<close>

theorem message_packet_roundtrip:
  assumes "FindPtrOrNull (factories_of mgr) (message_type_of m) = Some f" and "\<not> fac_null_able f"
    and "pdu_class_ok (fac_class f)" and "message_type_of (default_object (fac_class f)) = message_type_of m"
    and "SerializeToArray (fac_class f) (fields_of m) (ByteSize (fac_class f) (fields_of m)) \<noteq> None"
    and "ByteSize (fac_class f) (fields_of m) \<le> tt_kMaxPacketSize - tt_kPacketHeaderSize"
  shows "\<exists>p. MessageToPacket (fac_class f) m = Some p \<and> ParseMessagePDUFromNetPacker mgr p = Inr (Some m) \<and>
     ParseMessagePDUFromArrayData mgr (Some p) (of_nat (length p)) = Inr (Some m)"
proof -
  let ?cls = "fac_class f" and ?n = "ByteSize (fac_class f) (fields_of m)"
  obtain body where body: "SerializeToArray ?cls (fields_of m) ?n = Some body" using assms(5) by auto
  have len: "length body = unat ?n" and parse: "ParseFromArray ?cls c0 body = Some (fields_of m)" for c0
    using assms(3) body by (auto simp: pdu_class_ok_def)
  let ?p = "tt_header (message_type_of m) (reserved_of m) ?n @ body"
  have p: "MessageToPacket ?cls m = Some ?p" by (rule MessageToPacket_bytes [OF assms(3) body assms(6)])
  have "(default_object ?cls)\<lparr>fields_of := fields_of m, reserved_of := reserved_of m\<rparr> = m"
    using assms(4) by simp
  then have virt: "ParseFromArray_virtual mgr (message_type_of m) (default_object ?cls) body ?n =
      Inr (Some ((default_object ?cls)\<lparr>fields_of := fields_of m\<rparr>))"
    and restored: "SetReserved ((default_object ?cls)\<lparr>fields_of := fields_of m\<rparr>) (reserved_of m) = m"
    using manager_lookup(3) [OF assms(1)] len parse by (auto simp: ParseFromArray_virtual_def SetReserved_def)
  have fields: "TT_GetMessageType ?p = message_type_of m" "TT_GetReserved ?p = reserved_of m"
      "TT_GetBodyLength ?p = ?n" "TT_GetBodyData ?p = body"
    by (simp_all add: tt_header_fields TT_GetBodyLength_def TT_GetBodyData_def) (simp add: tt_kPacketHeaderSize_def)
  have "ParseMessagePDUFromNetPacker mgr ?p = Inr (Some m)"
    using manager_lookup(1,2) [OF assms(1)] assms(2) virt restored
    by (simp add: ParseMessagePDUFromNetPacker_def fields Factory_CreateMessage_def)
  moreover have "\<not> of_nat (length ?p) < tt_kPacketHeaderSize"
    using assms(6) len
    by (simp add: tt_consts word_less_nat_alt word_le_nat_alt unat_word_ariths unat_of_nat take_bit_nat_eq_self_iff)
  then have "ParseMessagePDUFromArrayData mgr (Some ?p) (of_nat (length ?p)) = Inr (Some m)"
    using manager_lookup(1,2) [OF assms(1)] assms(2) virt restored tt_header_parse [OF assms(6)]
    by (simp add: ParseMessagePDUFromArrayData_def Factory_CreateMessage_def)
  ultimately show ?thesis using p by blast
qed

text \<open>
  What ParseMessagePDUFromArrayData does with a well-formed header of a registered type. If the
  type is nullable it dereferences the null message; if the array ends before the body length the
  header announces, it reads behind the array; otherwise it returns null or the parsed message
  according to the class's parser.
\<close>

theorem array_data_outcomes:
  assumes "12 \<le> length d" and "unat data_len = length d"
    and "TT_ParsePacketHeader d = (ret, t, reserved, Some n)"
    and "FindPtrOrNull (factories_of mgr) t = Some f"
  shows "ParseMessagePDUFromArrayData mgr (Some d) data_len =
    (if fac_null_able f then Inl NullPointer
     else if length d < 12 + unat n then Inl ReadBeyondData
     else Inr (map_option (\<lambda>c. (default_object (fac_class f))\<lparr>fields_of := c, reserved_of := reserved\<rparr>)
            (ParseFromArray (fac_class f) (fields_of (default_object (fac_class f))) (take (unat n) (drop 12 d)))))"
proof -
  have "ret \<noteq> -1" using assms(3) by (auto simp: TT_Parse_fields split: if_splits)
  moreover have "\<not> data_len < tt_kPacketHeaderSize"
    using assms(1,2) by (simp add: word_less_nat_alt)
  ultimately show ?thesis
    using assms manager_lookup [OF assms(4)]
    by (auto simp: ParseMessagePDUFromArrayData_def Factory_CreateMessage_def ParseFromArray_virtual_def SetReserved_def
        split: option.splits)
qed

text \<open>An example class: one byte of content.\<close>

definition byte_class :: "uint8 pdu_class" where
  "byte_class = \<lparr>ByteSize = \<lambda>_. 1,
     ParseFromArray = \<lambda>_ bs. case bs of [b] \<Rightarrow> Some b | _ \<Rightarrow> None,
     SerializeToArray = \<lambda>b n. if n = 1 then Some [b] else None,
     default_object = \<lparr>message_type_of = 7, reserved_of = 0, fields_of = 0\<rparr>\<rparr>"

definition byte_manager :: "bool \<Rightarrow> uint8 MessagePDUFactoryManager" where
  "byte_manager nullable = \<lparr>factories_of = [7 \<mapsto> Some (new_MessagePDUFactory 7 (Some ''BYTE'') nullable byte_class)]\<rparr>"

lemma byte_manager_lookup:
  "FindPtrOrNull (factories_of (byte_manager b)) 7 = Some (new_MessagePDUFactory 7 (Some ''BYTE'') b byte_class)"
  by (simp add: byte_manager_def FindPtrOrNull_def)

theorem message_packet_roundtrip_witness:
  "\<exists>p. MessageToPacket byte_class \<lparr>message_type_of = 7, reserved_of = 3, fields_of = 65\<rparr> = Some p \<and>
     ParseMessagePDUFromNetPacker (byte_manager False) p = Inr (Some \<lparr>message_type_of = 7, reserved_of = 3, fields_of = 65\<rparr>) \<and>
     ParseMessagePDUFromArrayData (byte_manager False) (Some p) (of_nat (length p)) =
       Inr (Some \<lparr>message_type_of = 7, reserved_of = 3, fields_of = 65\<rparr>)"
  using message_packet_roundtrip [of "byte_manager False" "\<lparr>message_type_of = 7, reserved_of = 3, fields_of = 65\<rparr>"
      "new_MessagePDUFactory 7 (Some ''BYTE'') False byte_class"]
  by (simp add: byte_manager_lookup new_MessagePDUFactory_def pdu_class_ok_def byte_class_def tt_consts)

theorem array_data_outcomes_witness:
  "ParseMessagePDUFromArrayData (byte_manager True) (Some (tt_header 7 0 0)) 12 = Inl NullPointer \<and>
   ParseMessagePDUFromArrayData (byte_manager False) (Some (tt_header 7 0 100)) 12 = Inl ReadBeyondData"
  using array_data_outcomes [OF _ _ _ byte_manager_lookup, of "tt_header 7 0 0" 12 1 0 0 True]
    array_data_outcomes [OF _ _ _ byte_manager_lookup, of "tt_header 7 0 100" 12 0 0 100 False]
    tt_header_parse [of 0 7 0 "[]"] tt_header_parse [of 100 7 0 "[]"]
  by (simp add: tt_consts new_MessagePDUFactory_def)

text \<open>
  Registering a list of factories succeeds exactly when their message types are distinct and
  not registered yet; then every type of the list is found under its own factory, every other
  lookup is as before, and the registry stays well formed. Otherwise the program is stopped.
\<close>

theorem factories_registered:
  assumes "registry_ok mgr"
  shows "if addable mgr fs
    then \<exists>mgr'. AddFactories mgr fs = Inr mgr' \<and> registry_ok mgr' \<and>
      (\<forall>t. FindPtrOrNull (factories_of mgr') t =
         (case registered fs t of Some f \<Rightarrow> Some f | None \<Rightarrow> FindPtrOrNull (factories_of mgr) t))
    else AddFactories mgr fs = Inl Fatal"
  using AddFactories_good [OF assms] AddFactories_bad [OF assms] by auto

theorem factories_registered_witness:
  "AddFactories (byte_manager False) [new_MessagePDUFactory 7 None True byte_class] = Inl Fatal"
proof -
  have "registry_ok (byte_manager False)"
    by (simp add: registry_ok_def byte_manager_def new_MessagePDUFactory_def)
  from factories_registered [OF this, of "[new_MessagePDUFactory 7 None True byte_class]"] show ?thesis
    by (simp add: addable_def byte_manager_lookup new_MessagePDUFactory_def)
qed

end
