(* ===== verification/NetErrors.thy ===== *)
theory NetErrors
  imports Prelude
begin

text \<open>
  The error codes of the network code: net/base/net_error_list.h (the table), net/base/net_errors.h
  and net_errors.cc (names of codes, certificate errors, the codes for statistics, file errors) and
  net/base/net_errors_posix.cc (system errors).

  The source includes the table three times under different definitions of the macro NET_ERROR:
  as the members of the enum Error, as the cases of ErrorToShortString and as the elements of
  kAllErrorCodes. Here it is a list of pairs, one list per block of the file, and the three uses
  are definitions over it. The members of the enum that the code names are definitions of their
  own. The errno values are those of Linux.
\<close>

section \<open>The table\<close>

definition system_errors :: "(string \<times> int) list" where
  "system_errors =
    [(''IO_PENDING'', -1), (''FAILED'', -2), (''ABORTED'', -3), (''INVALID_ARGUMENT'', -4),
     (''INVALID_HANDLE'', -5), (''FILE_NOT_FOUND'', -6), (''TIMED_OUT'', -7), (''FILE_TOO_BIG'', -8),
     (''UNEXPECTED'', -9), (''ACCESS_DENIED'', -10), (''NOT_IMPLEMENTED'', -11),
     (''INSUFFICIENT_RESOURCES'', -12), (''OUT_OF_MEMORY'', -13), (''UPLOAD_FILE_CHANGED'', -14),
     (''SOCKET_NOT_CONNECTED'', -15), (''FILE_EXISTS'', -16), (''FILE_PATH_TOO_LONG'', -17),
     (''FILE_NO_SPACE'', -18), (''FILE_VIRUS_INFECTED'', -19), (''BLOCKED_BY_CLIENT'', -20),
     (''NETWORK_CHANGED'', -21), (''BLOCKED_BY_ADMINISTRATOR'', -22), (''SOCKET_IS_CONNECTED'', -23),
     (''BLOCKED_ENROLLMENT_CHECK_PENDING'', -24)]"

definition connection_errors :: "(string \<times> int) list" where
  "connection_errors =
    [(''CONNECTION_CLOSED'', -100), (''CONNECTION_RESET'', -101), (''CONNECTION_REFUSED'', -102),
     (''CONNECTION_ABORTED'', -103), (''CONNECTION_FAILED'', -104), (''NAME_NOT_RESOLVED'', -105),
     (''INTERNET_DISCONNECTED'', -106), (''SSL_PROTOCOL_ERROR'', -107), (''ADDRESS_INVALID'', -108),
     (''ADDRESS_UNREACHABLE'', -109), (''SSL_CLIENT_AUTH_CERT_NEEDED'', -110),
     (''TUNNEL_CONNECTION_FAILED'', -111), (''NO_SSL_VERSIONS_ENABLED'', -112),
     (''SSL_VERSION_OR_CIPHER_MISMATCH'', -113), (''SSL_RENEGOTIATION_REQUESTED'', -114),
     (''PROXY_AUTH_UNSUPPORTED'', -115), (''CERT_ERROR_IN_SSL_RENEGOTIATION'', -116),
     (''BAD_SSL_CLIENT_AUTH_CERT'', -117), (''CONNECTION_TIMED_OUT'', -118),
     (''HOST_RESOLVER_QUEUE_TOO_LARGE'', -119), (''SOCKS_CONNECTION_FAILED'', -120),
     (''SOCKS_CONNECTION_HOST_UNREACHABLE'', -121), (''NPN_NEGOTIATION_FAILED'', -122),
     (''SSL_NO_RENEGOTIATION'', -123), (''WINSOCK_UNEXPECTED_WRITTEN_BYTES'', -124),
     (''SSL_DECOMPRESSION_FAILURE_ALERT'', -125), (''SSL_BAD_RECORD_MAC_ALERT'', -126),
     (''PROXY_AUTH_REQUESTED'', -127), (''SSL_UNSAFE_NEGOTIATION'', -128),
     (''SSL_WEAK_SERVER_EPHEMERAL_DH_KEY'', -129), (''PROXY_CONNECTION_FAILED'', -130),
     (''MANDATORY_PROXY_CONFIGURATION_FAILED'', -131), (''PRECONNECT_MAX_SOCKET_LIMIT'', -133),
     (''SSL_CLIENT_AUTH_PRIVATE_KEY_ACCESS_DENIED'', -134),
     (''SSL_CLIENT_AUTH_CERT_NO_PRIVATE_KEY'', -135), (''PROXY_CERTIFICATE_INVALID'', -136),
     (''NAME_RESOLUTION_FAILED'', -137), (''NETWORK_ACCESS_DENIED'', -138),
     (''TEMPORARILY_THROTTLED'', -139)]"

definition connection_errors2 :: "(string \<times> int) list" where
  "connection_errors2 =
    [(''HTTPS_PROXY_TUNNEL_RESPONSE'', -140), (''SSL_CLIENT_AUTH_SIGNATURE_FAILED'', -141),
     (''MSG_TOO_BIG'', -142), (''SPDY_SESSION_ALREADY_EXISTS'', -143), (''WS_PROTOCOL_ERROR'', -145),
     (''PROTOCOL_SWITCHED'', -146), (''ADDRESS_IN_USE'', -147),
     (''SSL_HANDSHAKE_NOT_COMPLETED'', -148), (''SSL_BAD_PEER_PUBLIC_KEY'', -149),
     (''SSL_PINNED_KEY_NOT_IN_CERT_CHAIN'', -150), (''CLIENT_AUTH_CERT_TYPE_UNSUPPORTED'', -151),
     (''ORIGIN_BOUND_CERT_GENERATION_TYPE_MISMATCH'', -152), (''SSL_DECRYPT_ERROR_ALERT'', -153),
     (''WS_THROTTLE_QUEUE_TOO_LARGE'', -154), (''TOO_MANY_SOCKET_STREAMS'', -155),
     (''SSL_SERVER_CERT_CHANGED'', -156), (''SSL_INAPPROPRIATE_FALLBACK'', -157),
     (''CT_NO_SCTS_VERIFIED_OK'', -158), (''SSL_UNRECOGNIZED_NAME_ALERT'', -159),
     (''SOCKET_SET_RECEIVE_BUFFER_SIZE_ERROR'', -160), (''SOCKET_SET_SEND_BUFFER_SIZE_ERROR'', -161),
     (''SOCKET_RECEIVE_BUFFER_SIZE_UNCHANGEABLE'', -162),
     (''SOCKET_SEND_BUFFER_SIZE_UNCHANGEABLE'', -163), (''SSL_CLIENT_AUTH_CERT_BAD_FORMAT'', -164)]"

definition certificate_errors :: "(string \<times> int) list" where
  "certificate_errors =
    [(''CERT_COMMON_NAME_INVALID'', -200), (''CERT_DATE_INVALID'', -201),
     (''CERT_AUTHORITY_INVALID'', -202), (''CERT_CONTAINS_ERRORS'', -203),
     (''CERT_NO_REVOCATION_MECHANISM'', -204), (''CERT_UNABLE_TO_CHECK_REVOCATION'', -205),
     (''CERT_REVOKED'', -206), (''CERT_INVALID'', -207), (''CERT_WEAK_SIGNATURE_ALGORITHM'', -208),
     (''CERT_NON_UNIQUE_NAME'', -210), (''CERT_WEAK_KEY'', -211),
     (''CERT_NAME_CONSTRAINT_VIOLATION'', -212), (''CERT_END'', -213)]"

definition http_errors :: "(string \<times> int) list" where
  "http_errors =
    [(''INVALID_URL'', -300), (''DISALLOWED_URL_SCHEME'', -301), (''UNKNOWN_URL_SCHEME'', -302),
     (''TOO_MANY_REDIRECTS'', -310), (''UNSAFE_REDIRECT'', -311), (''UNSAFE_PORT'', -312),
     (''INVALID_RESPONSE'', -320), (''INVALID_CHUNKED_ENCODING'', -321),
     (''METHOD_NOT_SUPPORTED'', -322), (''UNEXPECTED_PROXY_AUTH'', -323), (''EMPTY_RESPONSE'', -324),
     (''RESPONSE_HEADERS_TOO_BIG'', -325), (''PAC_STATUS_NOT_OK'', -326),
     (''PAC_SCRIPT_FAILED'', -327), (''REQUEST_RANGE_NOT_SATISFIABLE'', -328),
     (''MALFORMED_IDENTITY'', -329), (''CONTENT_DECODING_FAILED'', -330),
     (''NETWORK_IO_SUSPENDED'', -331), (''SYN_REPLY_NOT_RECEIVED'', -332),
     (''ENCODING_CONVERSION_FAILED'', -333), (''UNRECOGNIZED_FTP_DIRECTORY_LISTING_FORMAT'', -334),
     (''INVALID_SPDY_STREAM'', -335), (''NO_SUPPORTED_PROXIES'', -336),
     (''SPDY_PROTOCOL_ERROR'', -337), (''INVALID_AUTH_CREDENTIALS'', -338),
     (''UNSUPPORTED_AUTH_SCHEME'', -339), (''ENCODING_DETECTION_FAILED'', -340),
     (''MISSING_AUTH_CREDENTIALS'', -341), (''UNEXPECTED_SECURITY_LIBRARY_STATUS'', -342),
     (''MISCONFIGURED_AUTH_ENVIRONMENT'', -343), (''UNDOCUMENTED_SECURITY_LIBRARY_STATUS'', -344),
     (''RESPONSE_BODY_TOO_BIG_TO_DRAIN'', -345)]"

definition http_errors2 :: "(string \<times> int) list" where
  "http_errors2 =
    [(''RESPONSE_HEADERS_MULTIPLE_CONTENT_LENGTH'', -346), (''INCOMPLETE_SPDY_HEADERS'', -347),
     (''PAC_NOT_IN_DHCP'', -348), (''RESPONSE_HEADERS_MULTIPLE_CONTENT_DISPOSITION'', -349),
     (''RESPONSE_HEADERS_MULTIPLE_LOCATION'', -350), (''SPDY_SERVER_REFUSED_STREAM'', -351),
     (''SPDY_PING_FAILED'', -352), (''CONTENT_LENGTH_MISMATCH'', -354),
     (''INCOMPLETE_CHUNKED_ENCODING'', -355), (''QUIC_PROTOCOL_ERROR'', -356),
     (''RESPONSE_HEADERS_TRUNCATED'', -357), (''QUIC_HANDSHAKE_FAILED'', -358),
     (''REQUEST_FOR_SECURE_RESOURCE_OVER_INSECURE_QUIC'', -359),
     (''SPDY_INADEQUATE_TRANSPORT_SECURITY'', -360), (''SPDY_FLOW_CONTROL_ERROR'', -361),
     (''SPDY_FRAME_SIZE_ERROR'', -362), (''SPDY_COMPRESSION_ERROR'', -363),
     (''PROXY_AUTH_REQUESTED_WITH_NO_CONNECTION'', -364)]"

definition cache_errors :: "(string \<times> int) list" where
  "cache_errors =
    [(''CACHE_MISS'', -400), (''CACHE_READ_FAILURE'', -401), (''CACHE_WRITE_FAILURE'', -402),
     (''CACHE_OPERATION_NOT_SUPPORTED'', -403), (''CACHE_OPEN_FAILURE'', -404),
     (''CACHE_CREATE_FAILURE'', -405), (''CACHE_RACE'', -406), (''CACHE_CHECKSUM_READ_FAILURE'', -407),
     (''CACHE_CHECKSUM_MISMATCH'', -408), (''CACHE_LOCK_TIMEOUT'', -409)]"

definition other_errors :: "(string \<times> int) list" where
  "other_errors =
    [(''INSECURE_RESPONSE'', -501), (''NO_PRIVATE_KEY_FOR_CERT'', -502), (''ADD_USER_CERT_FAILED'', -503)]"

definition ftp_errors :: "(string \<times> int) list" where
  "ftp_errors =
    [(''FTP_FAILED'', -601), (''FTP_SERVICE_UNAVAILABLE'', -602), (''FTP_TRANSFER_ABORTED'', -603),
     (''FTP_FILE_BUSY'', -604), (''FTP_SYNTAX_ERROR'', -605), (''FTP_COMMAND_NOT_SUPPORTED'', -606),
     (''FTP_BAD_COMMAND_SEQUENCE'', -607)]"

definition certificate_manager_errors :: "(string \<times> int) list" where
  "certificate_manager_errors =
    [(''PKCS12_IMPORT_BAD_PASSWORD'', -701), (''PKCS12_IMPORT_FAILED'', -702),
     (''IMPORT_CA_CERT_NOT_CA'', -703), (''IMPORT_CERT_ALREADY_EXISTS'', -704),
     (''IMPORT_CA_CERT_FAILED'', -705), (''IMPORT_SERVER_CERT_FAILED'', -706),
     (''PKCS12_IMPORT_INVALID_MAC'', -707), (''PKCS12_IMPORT_INVALID_FILE'', -708),
     (''PKCS12_IMPORT_UNSUPPORTED'', -709), (''KEY_GENERATION_FAILED'', -710),
     (''ORIGIN_BOUND_CERT_GENERATION_FAILED'', -711), (''PRIVATE_KEY_EXPORT_FAILED'', -712),
     (''SELF_SIGNED_CERT_GENERATION_FAILED'', -713), (''CERT_DATABASE_CHANGED'', -714),
     (''CHANNEL_ID_IMPORT_FAILED'', -715)]"

definition dns_errors :: "(string \<times> int) list" where
  "dns_errors =
    [(''DNS_MALFORMED_RESPONSE'', -800), (''DNS_SERVER_REQUIRES_TCP'', -801),
     (''DNS_SERVER_FAILED'', -802), (''DNS_TIMED_OUT'', -803), (''DNS_CACHE_MISS'', -804),
     (''DNS_SEARCH_EMPTY'', -805), (''DNS_SORT_ERROR'', -806)]"

definition net_error_list :: "(string \<times> int) list" where
  "net_error_list =
     system_errors @ connection_errors @ connection_errors2 @ certificate_errors @ http_errors @ http_errors2 @
     cache_errors @ other_errors @ ftp_errors @ certificate_manager_errors @ dns_errors"

lemmas net_error_list_defs = net_error_list_def system_errors_def connection_errors_def connection_errors2_def certificate_errors_def http_errors_def http_errors2_def cache_errors_def other_errors_def ftp_errors_def certificate_manager_errors_def dns_errors_def

section \<open>Codes with a name\<close>

definition net_OK :: int where "net_OK = 0"
definition ERR_IO_PENDING :: int where "ERR_IO_PENDING = -1"
definition ERR_FAILED :: int where "ERR_FAILED = -2"
definition ERR_ABORTED :: int where "ERR_ABORTED = -3"
definition ERR_INVALID_ARGUMENT :: int where "ERR_INVALID_ARGUMENT = -4"
definition ERR_INVALID_HANDLE :: int where "ERR_INVALID_HANDLE = -5"
definition ERR_FILE_NOT_FOUND :: int where "ERR_FILE_NOT_FOUND = -6"
definition ERR_TIMED_OUT :: int where "ERR_TIMED_OUT = -7"
definition ERR_FILE_TOO_BIG :: int where "ERR_FILE_TOO_BIG = -8"
definition ERR_ACCESS_DENIED :: int where "ERR_ACCESS_DENIED = -10"
definition ERR_NOT_IMPLEMENTED :: int where "ERR_NOT_IMPLEMENTED = -11"
definition ERR_INSUFFICIENT_RESOURCES :: int where "ERR_INSUFFICIENT_RESOURCES = -12"
definition ERR_OUT_OF_MEMORY :: int where "ERR_OUT_OF_MEMORY = -13"
definition ERR_SOCKET_NOT_CONNECTED :: int where "ERR_SOCKET_NOT_CONNECTED = -15"
definition ERR_FILE_EXISTS :: int where "ERR_FILE_EXISTS = -16"
definition ERR_FILE_PATH_TOO_LONG :: int where "ERR_FILE_PATH_TOO_LONG = -17"
definition ERR_FILE_NO_SPACE :: int where "ERR_FILE_NO_SPACE = -18"
definition ERR_SOCKET_IS_CONNECTED :: int where "ERR_SOCKET_IS_CONNECTED = -23"
definition ERR_CONNECTION_RESET :: int where "ERR_CONNECTION_RESET = -101"
definition ERR_CONNECTION_REFUSED :: int where "ERR_CONNECTION_REFUSED = -102"
definition ERR_CONNECTION_ABORTED :: int where "ERR_CONNECTION_ABORTED = -103"
definition ERR_CONNECTION_FAILED :: int where "ERR_CONNECTION_FAILED = -104"
definition ERR_INTERNET_DISCONNECTED :: int where "ERR_INTERNET_DISCONNECTED = -106"
definition ERR_ADDRESS_INVALID :: int where "ERR_ADDRESS_INVALID = -108"
definition ERR_ADDRESS_UNREACHABLE :: int where "ERR_ADDRESS_UNREACHABLE = -109"
definition ERR_CONNECTION_TIMED_OUT :: int where "ERR_CONNECTION_TIMED_OUT = -118"
definition ERR_NETWORK_ACCESS_DENIED :: int where "ERR_NETWORK_ACCESS_DENIED = -138"
definition ERR_MSG_TOO_BIG :: int where "ERR_MSG_TOO_BIG = -142"
definition ERR_ADDRESS_IN_USE :: int where "ERR_ADDRESS_IN_USE = -147"
definition ERR_SSL_PINNED_KEY_NOT_IN_CERT_CHAIN :: int where "ERR_SSL_PINNED_KEY_NOT_IN_CERT_CHAIN = -150"
definition ERR_CERT_COMMON_NAME_INVALID :: int where "ERR_CERT_COMMON_NAME_INVALID = -200"
definition ERR_CERT_END :: int where "ERR_CERT_END = -213"
definition ERR_INVALID_URL :: int where "ERR_INVALID_URL = -300"
definition ERR_CERT_BEGIN :: int where "ERR_CERT_BEGIN = ERR_CERT_COMMON_NAME_INVALID"

lemmas ERR_defs = net_OK_def ERR_CERT_BEGIN_def
  ERR_IO_PENDING_def ERR_FAILED_def ERR_ABORTED_def ERR_INVALID_ARGUMENT_def ERR_INVALID_HANDLE_def
  ERR_FILE_NOT_FOUND_def ERR_TIMED_OUT_def ERR_FILE_TOO_BIG_def ERR_ACCESS_DENIED_def
  ERR_NOT_IMPLEMENTED_def ERR_INSUFFICIENT_RESOURCES_def ERR_OUT_OF_MEMORY_def
  ERR_SOCKET_NOT_CONNECTED_def ERR_FILE_EXISTS_def ERR_FILE_PATH_TOO_LONG_def ERR_FILE_NO_SPACE_def
  ERR_SOCKET_IS_CONNECTED_def ERR_CONNECTION_RESET_def ERR_CONNECTION_REFUSED_def
  ERR_CONNECTION_ABORTED_def ERR_CONNECTION_FAILED_def ERR_INTERNET_DISCONNECTED_def
  ERR_ADDRESS_INVALID_def ERR_ADDRESS_UNREACHABLE_def ERR_CONNECTION_TIMED_OUT_def
  ERR_NETWORK_ACCESS_DENIED_def ERR_MSG_TOO_BIG_def ERR_ADDRESS_IN_USE_def
  ERR_SSL_PINNED_KEY_NOT_IN_CERT_CHAIN_def ERR_CERT_COMMON_NAME_INVALID_def ERR_CERT_END_def
  ERR_INVALID_URL_def

definition EPERM :: int where "EPERM = 1"
definition ENOENT :: int where "ENOENT = 2"
definition E2BIG :: int where "E2BIG = 7"
definition EBADF :: int where "EBADF = 9"
definition EAGAIN :: int where "EAGAIN = 11"
definition ENOMEM :: int where "ENOMEM = 12"
definition EACCES :: int where "EACCES = 13"
definition EFAULT :: int where "EFAULT = 14"
definition EBUSY :: int where "EBUSY = 16"
definition EEXIST :: int where "EEXIST = 17"
definition ENODEV :: int where "ENODEV = 19"
definition ENOTDIR :: int where "ENOTDIR = 20"
definition EISDIR :: int where "EISDIR = 21"
definition EINVAL :: int where "EINVAL = 22"
definition ENFILE :: int where "ENFILE = 23"
definition EMFILE :: int where "EMFILE = 24"
definition ETXTBSY :: int where "ETXTBSY = 26"
definition EFBIG :: int where "EFBIG = 27"
definition ENOSPC :: int where "ENOSPC = 28"
definition EROFS :: int where "EROFS = 30"
definition EPIPE :: int where "EPIPE = 32"
definition EDEADLK :: int where "EDEADLK = 35"
definition ENAMETOOLONG :: int where "ENAMETOOLONG = 36"
definition ENOLCK :: int where "ENOLCK = 37"
definition ENOSYS :: int where "ENOSYS = 38"
definition EUSERS :: int where "EUSERS = 87"
definition EMSGSIZE :: int where "EMSGSIZE = 90"
definition ENOTSUP :: int where "ENOTSUP = 95"
definition EAFNOSUPPORT :: int where "EAFNOSUPPORT = 97"
definition EADDRINUSE :: int where "EADDRINUSE = 98"
definition EADDRNOTAVAIL :: int where "EADDRNOTAVAIL = 99"
definition ENETDOWN :: int where "ENETDOWN = 100"
definition ENETUNREACH :: int where "ENETUNREACH = 101"
definition ENETRESET :: int where "ENETRESET = 102"
definition ECONNABORTED :: int where "ECONNABORTED = 103"
definition ECONNRESET :: int where "ECONNRESET = 104"
definition ENOBUFS :: int where "ENOBUFS = 105"
definition EISCONN :: int where "EISCONN = 106"
definition ENOTCONN :: int where "ENOTCONN = 107"
definition ETIMEDOUT :: int where "ETIMEDOUT = 110"
definition ECONNREFUSED :: int where "ECONNREFUSED = 111"
definition EHOSTDOWN :: int where "EHOSTDOWN = 112"
definition EHOSTUNREACH :: int where "EHOSTUNREACH = 113"
definition EALREADY :: int where "EALREADY = 114"
definition EINPROGRESS :: int where "EINPROGRESS = 115"
definition EDQUOT :: int where "EDQUOT = 122"
definition ECANCELED :: int where "ECANCELED = 125"

lemmas errno_defs =
  EPERM_def ENOENT_def E2BIG_def EBADF_def EAGAIN_def ENOMEM_def EACCES_def EFAULT_def EBUSY_def
  EEXIST_def ENODEV_def ENOTDIR_def EISDIR_def EINVAL_def ENFILE_def EMFILE_def ETXTBSY_def EFBIG_def
  ENOSPC_def EROFS_def EPIPE_def EDEADLK_def ENAMETOOLONG_def ENOLCK_def ENOSYS_def EUSERS_def
  EMSGSIZE_def ENOTSUP_def EAFNOSUPPORT_def EADDRINUSE_def EADDRNOTAVAIL_def ENETDOWN_def
  ENETUNREACH_def ENETRESET_def ECONNABORTED_def ECONNRESET_def ENOBUFS_def EISCONN_def ENOTCONN_def
  ETIMEDOUT_def ECONNREFUSED_def EHOSTDOWN_def EHOSTUNREACH_def EALREADY_def EINPROGRESS_def EDQUOT_def
  ECANCELED_def

section \<open>The functions\<close>

definition kAllErrorCodes :: "int list" where
  "kAllErrorCodes = map (\<lambda>(label, value). - value) net_error_list"

text \<open>None is the NOTREACHED of the default case.\<close>

definition ErrorToShortString :: "int \<Rightarrow> string option" where
  "ErrorToShortString error =
     (if error = 0 then Some ''OK''
      else map_option ((@) ''ERR_'') (map_of (map prod.swap net_error_list) error))"

definition ErrorToString :: "int \<Rightarrow> string option" where
  "ErrorToString error = map_option ((@) ''net::'') (ErrorToShortString error)"

definition IsCertificateError :: "int \<Rightarrow> bool" where
  "IsCertificateError error \<longleftrightarrow>
     (error \<le> ERR_CERT_BEGIN \<and> error > ERR_CERT_END) \<or> error = ERR_SSL_PINNED_KEY_NOT_IN_CERT_CHAIN"

primrec ArrayToCustomRanges :: "int list \<Rightarrow> int list" where
  "ArrayToCustomRanges [] = []"
| "ArrayToCustomRanges (value # values) = value # (value + 1) # ArrayToCustomRanges values"

definition GetAllErrorCodesForUma :: "int list" where
  "GetAllErrorCodesForUma = ArrayToCustomRanges kAllErrorCodes"

datatype file_Error =
  FILE_OK | FILE_ERROR_FAILED | FILE_ERROR_IN_USE | FILE_ERROR_EXISTS | FILE_ERROR_NOT_FOUND |
  FILE_ERROR_ACCESS_DENIED | FILE_ERROR_TOO_MANY_OPENED | FILE_ERROR_NO_MEMORY | FILE_ERROR_NO_SPACE |
  FILE_ERROR_NOT_A_DIRECTORY | FILE_ERROR_INVALID_OPERATION | FILE_ERROR_SECURITY | FILE_ERROR_ABORT |
  FILE_ERROR_NOT_A_FILE | FILE_ERROR_NOT_EMPTY | FILE_ERROR_INVALID_URL | FILE_ERROR_IO | FILE_ERROR_MAX

definition FileErrorToNetError :: "file_Error \<Rightarrow> int" where
  "FileErrorToNetError file_error =
     (case file_error of
        FILE_OK \<Rightarrow> net_OK
      | FILE_ERROR_ACCESS_DENIED \<Rightarrow> ERR_ACCESS_DENIED
      | FILE_ERROR_INVALID_URL \<Rightarrow> ERR_INVALID_URL
      | FILE_ERROR_NOT_FOUND \<Rightarrow> ERR_FILE_NOT_FOUND
      | _ \<Rightarrow> ERR_FAILED)"

text \<open>EWOULDBLOCK is EAGAIN on Linux, so its case label is not compiled there.\<close>

definition MapSystemError :: "int \<Rightarrow> int" where
  "MapSystemError os_error =
     (if os_error = EAGAIN then ERR_IO_PENDING
      else if os_error = EACCES then ERR_ACCESS_DENIED
      else if os_error = ENETDOWN then ERR_INTERNET_DISCONNECTED
      else if os_error = ETIMEDOUT then ERR_TIMED_OUT
      else if os_error = ECONNRESET \<or> os_error = ENETRESET \<or> os_error = EPIPE then ERR_CONNECTION_RESET
      else if os_error = ECONNABORTED then ERR_CONNECTION_ABORTED
      else if os_error = ECONNREFUSED then ERR_CONNECTION_REFUSED
      else if os_error = EHOSTUNREACH \<or> os_error = EHOSTDOWN \<or> os_error = ENETUNREACH \<or> os_error = EAFNOSUPPORT then ERR_ADDRESS_UNREACHABLE
      else if os_error = EADDRNOTAVAIL then ERR_ADDRESS_INVALID
      else if os_error = EMSGSIZE then ERR_MSG_TOO_BIG
      else if os_error = ENOTCONN then ERR_SOCKET_NOT_CONNECTED
      else if os_error = EISCONN then ERR_SOCKET_IS_CONNECTED
      else if os_error = EINVAL then ERR_INVALID_ARGUMENT
      else if os_error = EADDRINUSE then ERR_ADDRESS_IN_USE
      else if os_error = E2BIG then ERR_INVALID_ARGUMENT
      else if os_error = EBADF then ERR_INVALID_HANDLE
      else if os_error = EBUSY then ERR_INSUFFICIENT_RESOURCES
      else if os_error = ECANCELED then ERR_ABORTED
      else if os_error = EDEADLK then ERR_INSUFFICIENT_RESOURCES
      else if os_error = EDQUOT then ERR_FILE_NO_SPACE
      else if os_error = EEXIST then ERR_FILE_EXISTS
      else if os_error = EFAULT then ERR_INVALID_ARGUMENT
      else if os_error = EFBIG then ERR_FILE_TOO_BIG
      else if os_error = EISDIR then ERR_ACCESS_DENIED
      else if os_error = ENAMETOOLONG then ERR_FILE_PATH_TOO_LONG
      else if os_error = ENFILE then ERR_INSUFFICIENT_RESOURCES
      else if os_error = ENOBUFS then ERR_OUT_OF_MEMORY
      else if os_error = ENODEV then ERR_INVALID_ARGUMENT
      else if os_error = ENOENT then ERR_FILE_NOT_FOUND
      else if os_error = ENOLCK then ERR_INSUFFICIENT_RESOURCES
      else if os_error = ENOMEM then ERR_OUT_OF_MEMORY
      else if os_error = ENOSPC then ERR_FILE_NO_SPACE
      else if os_error = ENOSYS then ERR_NOT_IMPLEMENTED
      else if os_error = ENOTDIR then ERR_FILE_NOT_FOUND
      else if os_error = ENOTSUP then ERR_NOT_IMPLEMENTED
      else if os_error = EPERM then ERR_ACCESS_DENIED
      else if os_error = EROFS then ERR_ACCESS_DENIED
      else if os_error = ETXTBSY then ERR_ACCESS_DENIED
      else if os_error = EUSERS then ERR_INSUFFICIENT_RESOURCES
      else if os_error = EMFILE then ERR_INSUFFICIENT_RESOURCES
      else if os_error = 0 then net_OK
      else ERR_FAILED)"

text \<open>MapConnectError of net/engine/tcp_connector.cc, the POSIX version.\<close>

definition MapConnectError :: "int \<Rightarrow> int" where
  "MapConnectError os_error =
     (if os_error = EACCES then ERR_NETWORK_ACCESS_DENIED
      else if os_error = ETIMEDOUT then ERR_CONNECTION_TIMED_OUT
      else let net_error = MapSystemError os_error
           in if net_error = ERR_FAILED then ERR_CONNECTION_FAILED else net_error)"

section \<open>Lemmas\<close>

lemma error_codes_successive: "successively (>) (0 # map snd net_error_list)"
  unfolding net_error_list_defs append.simps list.map snd_conv by simp

lemma error_codes_descend: "sorted_wrt (>) (0 # map snd net_error_list)"
  using error_codes_successive by (subst (asm) successively_conv_sorted_wrt) (auto simp: transp_def)

lemma error_codes_distinct: "distinct (map snd net_error_list)"
proof -
  have "sorted_wrt (>) vs \<Longrightarrow> distinct vs" for vs :: "int list" by (induction vs) auto
  then have "distinct (0 # map snd net_error_list)" using error_codes_descend by blast
  then show ?thesis by (simp only: distinct.simps)
qed

lemma error_codes_negative: "(label, value) \<in> set net_error_list \<Longrightarrow> value < 0"
  using error_codes_descend by auto

lemma map_of_code:
  assumes "(label, value) \<in> set net_error_list"
  shows "map_of (map prod.swap net_error_list) value = Some label"
proof (rule map_of_is_SomeI)
  have "map fst (map prod.swap l) = map snd l" for l :: "(string \<times> int) list" by (induction l) auto
  then show "distinct (map fst (map prod.swap net_error_list))" by (simp only: error_codes_distinct)
  show "(value, label) \<in> set (map prod.swap net_error_list)" using assms by force
qed

lemma set_ArrayToCustomRanges: "set (ArrayToCustomRanges vs) = set vs \<union> (\<lambda>v. v + 1) ` set vs"
  by (induction vs) auto

lemma IsCertificateError_cases:
  "IsCertificateError e \<longleftrightarrow> e = -209 \<or> e = -150 \<or> e \<in> snd ` set certificate_errors - {ERR_CERT_END}"
  by (simp add: IsCertificateError_def ERR_defs certificate_errors_def) presburger

definition valid_codes :: "int set" where
  "valid_codes = snd ` set net_error_list"

lemma block_valid:
  "set (map snd system_errors) \<subseteq> valid_codes" "set (map snd connection_errors) \<subseteq> valid_codes"
  "set (map snd connection_errors2) \<subseteq> valid_codes"
  by (auto simp: valid_codes_def net_error_list_def)

lemmas block_codes =
  block_valid(1) [unfolded system_errors_def list.map snd_conv]
  block_valid(2) [unfolded connection_errors_def list.map snd_conv]
  block_valid(3) [unfolded connection_errors2_def list.map snd_conv]

lemma ERR_system_valid:
  "ERR_IO_PENDING \<in> valid_codes" "ERR_FAILED \<in> valid_codes" "ERR_ABORTED \<in> valid_codes"
  "ERR_INVALID_ARGUMENT \<in> valid_codes" "ERR_INVALID_HANDLE \<in> valid_codes"
  "ERR_FILE_NOT_FOUND \<in> valid_codes" "ERR_TIMED_OUT \<in> valid_codes"
  "ERR_FILE_TOO_BIG \<in> valid_codes" "ERR_ACCESS_DENIED \<in> valid_codes"
  "ERR_NOT_IMPLEMENTED \<in> valid_codes" "ERR_INSUFFICIENT_RESOURCES \<in> valid_codes"
  "ERR_OUT_OF_MEMORY \<in> valid_codes" "ERR_SOCKET_NOT_CONNECTED \<in> valid_codes"
  "ERR_FILE_EXISTS \<in> valid_codes" "ERR_FILE_PATH_TOO_LONG \<in> valid_codes"
  "ERR_FILE_NO_SPACE \<in> valid_codes" "ERR_SOCKET_IS_CONNECTED \<in> valid_codes"
  by (rule subsetD [OF block_codes(1)], simp add: ERR_defs)+

lemma ERR_connection_valid:
  "ERR_CONNECTION_RESET \<in> valid_codes" "ERR_CONNECTION_REFUSED \<in> valid_codes"
  "ERR_CONNECTION_ABORTED \<in> valid_codes" "ERR_CONNECTION_FAILED \<in> valid_codes"
  "ERR_INTERNET_DISCONNECTED \<in> valid_codes" "ERR_ADDRESS_INVALID \<in> valid_codes"
  "ERR_ADDRESS_UNREACHABLE \<in> valid_codes" "ERR_CONNECTION_TIMED_OUT \<in> valid_codes"
  "ERR_NETWORK_ACCESS_DENIED \<in> valid_codes"
  by (rule subsetD [OF block_codes(2)], simp add: ERR_defs)+

lemma ERR_connection2_valid:
  "ERR_MSG_TOO_BIG \<in> valid_codes" "ERR_ADDRESS_IN_USE \<in> valid_codes"
  by (rule subsetD [OF block_codes(3)], simp add: ERR_defs)+

lemmas ERR_valid = ERR_system_valid ERR_connection_valid ERR_connection2_valid

lemma MapSystemError_valid: "MapSystemError e \<in> insert net_OK valid_codes"
  by (simp add: MapSystemError_def ERR_valid)

lemma MapConnectError_valid: "MapConnectError e \<in> insert net_OK valid_codes"
  using MapSystemError_valid [of e] by (simp add: MapConnectError_def Let_def ERR_valid)

lemma MapSystemError_OK: "MapSystemError e = net_OK \<longleftrightarrow> e = 0"
  by (simp add: MapSystemError_def ERR_defs errno_defs)

lemma MapConnectError_OK: "MapConnectError e = net_OK \<longleftrightarrow> e = 0"
  using MapSystemError_OK [of e]
  by (auto simp: MapConnectError_def Let_def ERR_defs errno_defs)

section \<open>Properties\<close>

text \<open>
  The table of error codes. The codes are distinct and negative, so the three uses of the table
  agree: every code is shown under the label it is declared with, a number that is neither 0 nor
  a code is not reachable in ErrorToShortString, and the codes for statistics are the negated
  codes and their guard buckets. IsCertificateError holds of the codes of the certificate block
  but its end marker, of the key-pinning error, and of the retired code -209.
\<close>

theorem net_error_table:
  assumes "(label, code) \<in> set net_error_list"
  shows "code < 0 \<and> ErrorToShortString code = Some (''ERR_'' @ label) \<and>
    ErrorToString code = Some (''net::ERR_'' @ label) \<and>
    (\<forall>label'. (label', code) \<in> set net_error_list \<longrightarrow> label' = label) \<and>
    (IsCertificateError code \<longleftrightarrow>
       code \<in> snd ` set certificate_errors - {ERR_CERT_END} \<or> code = ERR_SSL_PINNED_KEY_NOT_IN_CERT_CHAIN) \<and>
    {- code, - code + 1} \<subseteq> set GetAllErrorCodesForUma \<and>
    (error \<noteq> 0 \<and> error \<notin> valid_codes \<longrightarrow> ErrorToShortString error = None)"
proof (intro conjI)
  show neg: "code < 0" by (rule error_codes_negative [OF assms])
  show "ErrorToShortString code = Some (''ERR_'' @ label)" "ErrorToString code = Some (''net::ERR_'' @ label)"
    using neg map_of_code [OF assms] by (simp_all add: ErrorToString_def ErrorToShortString_def)
  show "\<forall>label'. (label', code) \<in> set net_error_list \<longrightarrow> label' = label"
    using map_of_code [OF assms] map_of_code by force
  have "code \<noteq> -209"
  proof
    assume "code = -209"
    with assms have "-209 \<in> set (map snd net_error_list)" by force
    then show False by (simp del: set_map add: net_error_list_defs)
  qed
  then show "IsCertificateError code \<longleftrightarrow>
      code \<in> snd ` set certificate_errors - {ERR_CERT_END} \<or> code = ERR_SSL_PINNED_KEY_NOT_IN_CERT_CHAIN"
    by (auto simp: IsCertificateError_cases ERR_SSL_PINNED_KEY_NOT_IN_CERT_CHAIN_def)
  have "- code \<in> set kAllErrorCodes" using assms by (force simp: kAllErrorCodes_def)
  then show "{- code, - code + 1} \<subseteq> set GetAllErrorCodesForUma"
    by (auto simp: GetAllErrorCodesForUma_def set_ArrayToCustomRanges)
  show "error \<noteq> 0 \<and> error \<notin> valid_codes \<longrightarrow> ErrorToShortString error = None"
    by (force simp: ErrorToShortString_def valid_codes_def map_of_eq_None_iff)
qed

theorem net_error_table_witness:
  "ErrorToString (-102) = Some ''net::ERR_CONNECTION_REFUSED'' \<and> \<not> IsCertificateError (-102) \<and>
   {102, 103} \<subseteq> set GetAllErrorCodesForUma"
proof -
  have "(''CONNECTION_REFUSED'', -102) \<in> set net_error_list"
    by (simp add: net_error_list_def connection_errors_def)
  from net_error_table [OF this] show ?thesis
    by (simp add: certificate_errors_def ERR_SSL_PINNED_KEY_NOT_IN_CERT_CHAIN_def)
qed

text \<open>
  System errors. A system error maps to OK exactly when it is 0, in MapSystemError and in
  MapConnectError, and otherwise to a code of the table; a failed connect is told from other
  failures where the source says so.
\<close>

theorem system_errors_mapped:
  "(MapSystemError e = net_OK \<longleftrightarrow> e = 0) \<and> (MapConnectError e = net_OK \<longleftrightarrow> e = 0) \<and>
   MapSystemError e \<in> insert net_OK valid_codes \<and> MapConnectError e \<in> insert net_OK valid_codes \<and>
   MapConnectError e \<notin> {ERR_FAILED, ERR_TIMED_OUT} \<and>
   (MapConnectError e = ERR_NETWORK_ACCESS_DENIED \<longleftrightarrow> e = EACCES) \<and>
   (MapConnectError e = ERR_CONNECTION_TIMED_OUT \<longleftrightarrow> e = ETIMEDOUT)"
proof (intro conjI)
  show "MapConnectError e \<notin> {ERR_FAILED, ERR_TIMED_OUT}"
    by (simp add: MapConnectError_def MapSystemError_def Let_def ERR_defs errno_defs)
  show "MapConnectError e = ERR_NETWORK_ACCESS_DENIED \<longleftrightarrow> e = EACCES"
    "MapConnectError e = ERR_CONNECTION_TIMED_OUT \<longleftrightarrow> e = ETIMEDOUT"
    by (simp_all add: MapConnectError_def MapSystemError_def Let_def ERR_defs errno_defs)
qed (rule MapSystemError_OK MapConnectError_OK MapSystemError_valid MapConnectError_valid)+

end
