(* ===== verification/SocketOps.thy ===== *)
theory SocketOps
  imports NetErrors
begin

text \<open>
  net/engine/socket_ops.h and socket_ops.cc, the POSIX branches: creating listening and connected
  sockets, closing and accepting.

  The kernel is a state (which descriptors are open, non-blocking, without Nagle's algorithm) and
  a record of answers, one per system call a function makes. The state changes the way the calls
  document; the answers are arbitrary. None is a run that ends the process: a failed CHECK or
  DCHECK, LOG(FATAL) or exit. A call of close whose result the source ignores closes the
  descriptor.
\<close>

section \<open>The kernel\<close>

type_synonym SOCKET = int

definition kInvalidSocket :: SOCKET where "kInvalidSocket = -1"

record kernel =
  open_fds :: "SOCKET set"
  non_blocking :: "SOCKET set"
  no_delay :: "SOCKET set"

record answers =
  getaddrinfo :: "string option \<Rightarrow> string option \<Rightarrow> bool \<Rightarrow> bool \<Rightarrow> int"
  socket_ret :: int
  getfl_ok :: bool
  setfl_ok :: bool
  nodelay_rc :: int
  reuseaddr_rc :: int
  bind_rc :: int
  bind_errno :: int
  listen_rc :: int
  connect_rc :: int
  connect_errno :: int
  select_rv :: int
  writable_isset :: bool
  sockopt_rc :: int
  sockopt_errno :: int
  so_error :: int
  accept_ret :: int
  close_ok :: "nat \<Rightarrow> bool"

definition sys_open :: "SOCKET \<Rightarrow> kernel \<Rightarrow> kernel" where
  "sys_open s k = k\<lparr>open_fds := insert s (open_fds k), non_blocking := non_blocking k - {s}, no_delay := no_delay k - {s}\<rparr>"

definition sys_close :: "SOCKET \<Rightarrow> kernel \<Rightarrow> kernel" where
  "sys_close s k = k\<lparr>open_fds := open_fds k - {s}, non_blocking := non_blocking k - {s}, no_delay := no_delay k - {s}\<rparr>"

section \<open>Helpers\<close>

definition SetNonBlocking :: "answers \<Rightarrow> SOCKET \<Rightarrow> kernel \<Rightarrow> kernel option" where
  "SetNonBlocking os s k = do {
     dcheck (0 \<le> s);
     dcheck (getfl_ok os);
     if s \<in> non_blocking k then Some k
     else do { dcheck (setfl_ok os); Some (k\<lparr>non_blocking := insert s (non_blocking k)\<rparr>) }
   }"

text \<open>A failure closes the socket and ends the process in LOG(FATAL), before the return of 0.\<close>

definition SetDisableNagle :: "answers \<Rightarrow> SOCKET \<Rightarrow> kernel \<Rightarrow> (int \<times> kernel) option" where
  "SetDisableNagle os s k =
     (if nodelay_rc os < 0 then None else Some (1, k\<lparr>no_delay := insert s (no_delay k)\<rparr>))"

text \<open>The loop of CloseSocket from try i on, with n tries left.\<close>

primrec close_loop :: "answers \<Rightarrow> nat \<Rightarrow> nat \<Rightarrow> SOCKET \<Rightarrow> kernel \<Rightarrow> bool \<times> SOCKET \<times> kernel" where
  "close_loop os i 0 s k = (False, s, k)"
| "close_loop os i (Suc n) s k =
     (if close_ok os i then (True, kInvalidSocket, sys_close s k) else close_loop os (Suc i) n s k)"

definition CloseSocket :: "answers \<Rightarrow> SOCKET \<Rightarrow> nat \<Rightarrow> kernel \<Rightarrow> bool \<times> SOCKET \<times> kernel" where
  "CloseSocket os s tries k = close_loop os 0 tries s k"

definition c_str :: "string \<Rightarrow> string option" where
  "c_str s = (if s = [] then None else Some s)"

section \<open>Creating sockets\<close>

text \<open>The results are the return value, what is stored through the pointer, and the kernel.\<close>

definition CreateTCPListeningSocket ::
  "answers \<Rightarrow> string \<Rightarrow> string \<Rightarrow> bool \<Rightarrow> kernel \<Rightarrow> (int \<times> SOCKET \<times> kernel) option" where
  "CreateTCPListeningSocket os ip port is_numeric k =
     (if getaddrinfo os (c_str ip) (c_str port) is_numeric True \<noteq> 0 then Some (-1, kInvalidSocket, k)
      else if socket_ret os = kInvalidSocket then Some (-1, kInvalidSocket, k)
      else let sock = socket_ret os; k = sys_open sock k in do {
        dcheck (\<not> reuseaddr_rc os < 0);
        if bind_rc os < 0 then
          (let (closed, _, k) = CloseSocket os sock 100 k in do {
             dcheck closed;
             Some (if bind_errno os = EADDRNOTAVAIL then -3 else -2, kInvalidSocket, k)
           })
        else do {
          (ok, k) \<leftarrow> SetDisableNagle os sock k;
          if ok = 0 then Some (-1, kInvalidSocket, k)
          else if listen_rc os < 0 then
            (let (closed, _, k) = CloseSocket os sock 100 k in do {
               dcheck closed;
               Some (-1, kInvalidSocket, k)
             })
          else Some (0, sock, k)
        }
      })"

definition CreateTCPConnectedSocket ::
  "answers \<Rightarrow> string \<Rightarrow> string \<Rightarrow> bool \<Rightarrow> kernel \<Rightarrow> (int \<times> SOCKET \<times> kernel) option" where
  "CreateTCPConnectedSocket os ip port is_numeric k =
     (if getaddrinfo os (c_str ip) (c_str port) is_numeric False \<noteq> 0 then Some (-1, kInvalidSocket, k)
      else if socket_ret os = kInvalidSocket then Some (-1, kInvalidSocket, k)
      else let sock = socket_ret os; k = sys_open sock k in do {
        k \<leftarrow> SetNonBlocking os sock k;
        (ok, k) \<leftarrow> SetDisableNagle os sock k;
        if ok = 0 then Some (-1, kInvalidSocket, k)
        else if connect_rc os = -1 then
          (if connect_errno os \<noteq> EINPROGRESS then Some (-1, kInvalidSocket, sys_close sock k)
           else Some (0, sock, k))
        else Some (1, sock, k)
      })"

text \<open>
  The blocking version waits in select. When select reports more than 0 but the socket is not in
  the set, control falls out of the if and into the else of "if (rv==0)".
\<close>

definition CreateBlockingTCPConnectedSocket ::
  "answers \<Rightarrow> string \<Rightarrow> string \<Rightarrow> bool \<Rightarrow> kernel \<Rightarrow> (bool \<times> SOCKET \<times> kernel) option" where
  "CreateBlockingTCPConnectedSocket os ip port is_numeric k = do {
     (ret_val, sock, k) \<leftarrow> CreateTCPConnectedSocket os ip port is_numeric k;
     if ret_val = 0 then
       (if select_rv os > 0 \<and> writable_isset os then
          (if sockopt_rc os < 0 then Some (False, kInvalidSocket, k)
           else if so_error os \<noteq> 0 then Some (False, kInvalidSocket, k)
           else Some (True, sock, k))
        else Some (False, kInvalidSocket, sys_close sock k))
     else if ret_val = -1 then Some (False, kInvalidSocket, k)
     else Some (True, kInvalidSocket, k)
   }"

definition Accept :: "answers \<Rightarrow> SOCKET \<Rightarrow> kernel \<Rightarrow> (int \<times> SOCKET \<times> kernel) option" where
  "Accept os acceptor k =
     (let conn = accept_ret os in
      if conn = kInvalidSocket then Some (-1, kInvalidSocket, k)
      else do {
        k \<leftarrow> SetNonBlocking os conn (sys_open conn k);
        (ok, k) \<leftarrow> SetDisableNagle os conn k;
        if ok = 0 then Some (-1, kInvalidSocket, k) else Some (0, conn, k)
      })"

section \<open>Lemmas\<close>

text \<open>What POSIX promises of a new descriptor: it is -1, or not negative and not yet open.\<close>

definition fresh_answers :: "answers \<Rightarrow> kernel \<Rightarrow> bool" where
  "fresh_answers os k \<longleftrightarrow> socket_ret os = -1 \<or> 0 \<le> socket_ret os \<and> socket_ret os \<notin> open_fds k"

lemma close_loop_True: "close_loop os i n s k = (True, s', k') \<Longrightarrow> s' = kInvalidSocket \<and> k' = sys_close s k"
  by (induction n arbitrary: i) (auto split: if_splits)

lemma sys_close_open [simp]: "s \<notin> open_fds k \<Longrightarrow> open_fds (sys_close s (sys_open s k)) = open_fds k"
  by (auto simp: sys_close_def sys_open_def)

lemma open_sys_open [simp]: "open_fds (sys_open s k) = insert s (open_fds k)"
  by (simp add: sys_open_def)

lemma open_sys_close [simp]: "open_fds (sys_close s k) = open_fds k - {s}"
  by (simp add: sys_close_def)

lemma SetNonBlocking_Some:
  "SetNonBlocking os s k = Some k' \<Longrightarrow> open_fds k' = open_fds k \<and> s \<in> non_blocking k' \<and> no_delay k' = no_delay k \<and> 0 \<le> s"
  by (auto simp: SetNonBlocking_def split: if_splits)

lemma SetDisableNagle_Some:
  "SetDisableNagle os s k = Some (ok, k') \<Longrightarrow> ok = 1 \<and> open_fds k' = open_fds k \<and> s \<in> no_delay k' \<and> non_blocking k' = non_blocking k"
  by (auto simp: SetDisableNagle_def split: if_splits)

lemma CloseSocket_True: "CloseSocket os s n k = (True, s', k') \<Longrightarrow> k' = sys_close s k"
  by (auto simp: CloseSocket_def dest: close_loop_True)

text \<open>A function that creates a socket either returns it open and stored, or leaves no descriptor behind.\<close>

definition socket_account :: "kernel \<Rightarrow> SOCKET \<Rightarrow> int \<times> SOCKET \<times> kernel \<Rightarrow> bool" where
  "socket_account k new r = (case r of (ret, s, k') \<Rightarrow>
     (if ret < 0 then s = kInvalidSocket \<and> open_fds k' = open_fds k
      else s = new \<and> 0 \<le> s \<and> open_fds k' = insert s (open_fds k) \<and> s \<in> no_delay k'))"

lemma CreateTCPConnectedSocket_account:
  assumes "fresh_answers os k" and "CreateTCPConnectedSocket os ip port num k = Some (ret, s, k')"
  shows "socket_account k (socket_ret os) (ret, s, k')" and "ret \<in> {-1, 0, 1}"
    and "0 \<le> ret \<Longrightarrow> s \<in> non_blocking k'" "ret = -1 \<Longrightarrow> s = kInvalidSocket"
proof -
  show "socket_account k (socket_ret os) (ret, s, k')" "ret \<in> {-1, 0, 1}" "0 \<le> ret \<Longrightarrow> s \<in> non_blocking k'"
    using assms
    by (auto simp: CreateTCPConnectedSocket_def socket_account_def fresh_answers_def kInvalidSocket_def Let_def bind_eq_Some_conv
        dest!: SetNonBlocking_Some SetDisableNagle_Some split: if_splits)
  then show "ret = -1 \<Longrightarrow> s = kInvalidSocket" by (auto simp: socket_account_def)
qed

lemma Accept_account:
  assumes "accept_ret os = -1 \<or> accept_ret os \<notin> open_fds k" and "Accept os a k = Some (ret, s, k')"
  shows "socket_account k (accept_ret os) (ret, s, k')"
  using assms
  by (auto simp: Accept_def socket_account_def kInvalidSocket_def Let_def bind_eq_Some_conv
      dest!: SetNonBlocking_Some SetDisableNagle_Some split: if_splits)

lemma CreateTCPListeningSocket_account:
  assumes "fresh_answers os k" and "CreateTCPListeningSocket os ip port num k = Some (ret, s, k')"
  shows "socket_account k (socket_ret os) (ret, s, k')"
  using assms
  by (auto simp: CreateTCPListeningSocket_def socket_account_def fresh_answers_def kInvalidSocket_def bind_eq_Some_conv Let_def
      dest!: SetDisableNagle_Some CloseSocket_True split: if_splits prod.splits)

section \<open>The contract of a source of sockets\<close>

text \<open>
  The clients below rely on one law of the three functions: a descriptor is added exactly when it
  is returned.
\<close>

locale socket_source =
  fixes make :: "kernel \<Rightarrow> (int \<times> SOCKET \<times> kernel) option" and new :: SOCKET and allowed :: "kernel \<Rightarrow> bool"
  assumes account: "allowed k \<Longrightarrow> make k = Some r \<Longrightarrow> socket_account k new r"
begin

lemma failed: "allowed k \<Longrightarrow> make k = Some (ret, s, k') \<Longrightarrow> ret < 0 \<Longrightarrow> s = kInvalidSocket \<and> open_fds k' = open_fds k"
  using account [of k "(ret, s, k')"] by (simp add: socket_account_def)

lemma made:
  "allowed k \<Longrightarrow> make k = Some (ret, s, k') \<Longrightarrow> 0 \<le> ret \<Longrightarrow> s = new \<and> 0 \<le> s \<and> open_fds k' = insert s (open_fds k)"
  using account [of k "(ret, s, k')"] by (simp add: socket_account_def)

end

interpretation listening: socket_source "CreateTCPListeningSocket os ip port num" "socket_ret os" "fresh_answers os" for os ip port num
  using CreateTCPListeningSocket_account by unfold_locales auto

interpretation connected: socket_source "CreateTCPConnectedSocket os ip port num" "socket_ret os" "fresh_answers os" for os ip port num
  using CreateTCPConnectedSocket_account(1) by unfold_locales auto

interpretation accepting: socket_source "Accept os acceptor" "accept_ret os"
    "\<lambda>k. accept_ret os = -1 \<or> accept_ret os \<notin> open_fds k" for os acceptor
  by unfold_locales (metis Accept_account prod.collapse)

section \<open>Properties\<close>

text \<open>
  C27: descriptors. When CreateTCPListeningSocket, CreateTCPConnectedSocket or Accept returns, it has
  either failed, stored the invalid socket and left the open descriptors as they were, or stored
  the new descriptor, which is the only one added, has Nagle's algorithm off and, for connected
  and accepted sockets, does not block. The blocking version keeps this contract only when the
  connection attempt itself fails or times out, or completes later without an error: when the
  connection succeeds at once it reports success without storing the socket, and when it
  completes with an error it reports failure; both times the descriptor stays open and is lost.
\<close>

theorem sockets_accounted:
  assumes "fresh_answers os k" and "accept_ret os = -1 \<or> accept_ret os \<notin> open_fds k"
  shows "(CreateTCPListeningSocket os ip port num k = Some r \<longrightarrow> socket_account k (socket_ret os) r) \<and>
    (Accept os acceptor k = Some r \<longrightarrow>
       socket_account k (accept_ret os) r \<and> (0 \<le> fst r \<longrightarrow> fst (snd r) \<in> non_blocking (snd (snd r)))) \<and>
    (CreateTCPConnectedSocket os ip port num k = Some (ret, s, k') \<longrightarrow>
       ret \<in> {-1, 0, 1} \<and> socket_account k (socket_ret os) (ret, s, k') \<and> (0 \<le> ret \<longrightarrow> s \<in> non_blocking k') \<and>
       CreateBlockingTCPConnectedSocket os ip port num k =
         (if ret = -1 then Some (False, -1, k')
          else if ret = 1 then Some (True, -1, k')
          else if select_rv os > 0 \<and> writable_isset os then
            (if 0 \<le> sockopt_rc os \<and> so_error os = 0 then Some (True, s, k') else Some (False, -1, k'))
          else Some (False, -1, sys_close s k')))"
proof (intro conjI impI)
  show "socket_account k (socket_ret os) r" if "CreateTCPListeningSocket os ip port num k = Some r"
    by (rule listening.account [OF assms(1) that])
  show "socket_account k (accept_ret os) r" if "Accept os acceptor k = Some r"
    by (rule accepting.account [OF assms(2) that])
  show "fst (snd r) \<in> non_blocking (snd (snd r))" if "Accept os acceptor k = Some r" "0 \<le> fst r"
    using that
    by (auto simp: Accept_def kInvalidSocket_def Let_def bind_eq_Some_conv
        dest!: SetNonBlocking_Some SetDisableNagle_Some split: if_splits)
  assume c: "CreateTCPConnectedSocket os ip port num k = Some (ret, s, k')"
  note account = CreateTCPConnectedSocket_account [OF assms(1) c]
  then show "ret \<in> {-1, 0, 1}" "socket_account k (socket_ret os) (ret, s, k')" "0 \<le> ret \<Longrightarrow> s \<in> non_blocking k'"
    by blast+
  show "CreateBlockingTCPConnectedSocket os ip port num k =
      (if ret = -1 then Some (False, -1, k')
       else if ret = 1 then Some (True, -1, k')
       else if select_rv os > 0 \<and> writable_isset os then
         (if 0 \<le> sockopt_rc os \<and> so_error os = 0 then Some (True, s, k') else Some (False, -1, k'))
       else Some (False, -1, sys_close s k'))"
    using c account(2) by (auto simp: CreateBlockingTCPConnectedSocket_def kInvalidSocket_def)
qed

definition good_answers :: answers where
  "good_answers =
     \<lparr>getaddrinfo = \<lambda>_ _ _ _. 0, socket_ret = 7, getfl_ok = True, setfl_ok = True, nodelay_rc = 0, reuseaddr_rc = 0,
      bind_rc = 0, bind_errno = 0, listen_rc = 0, connect_rc = 0, connect_errno = 0, select_rv = 1, writable_isset = True,
      sockopt_rc = 0, sockopt_errno = 0, so_error = 0, accept_ret = 8, close_ok = \<lambda>_. True\<rparr>"

definition idle_kernel :: kernel where
  "idle_kernel = \<lparr>open_fds = {}, non_blocking = {}, no_delay = {}\<rparr>"

theorem sockets_accounted_witness:
  "\<exists>s k'. CreateTCPConnectedSocket good_answers ''10.0.0.1'' ''80'' True idle_kernel = Some (1, s, k') \<and>
     open_fds k' = {7} \<and> s = 7 \<and>
     CreateBlockingTCPConnectedSocket good_answers ''10.0.0.1'' ''80'' True idle_kernel = Some (True, -1, k')"
proof -
  obtain s k' where c: "CreateTCPConnectedSocket good_answers ''10.0.0.1'' ''80'' True idle_kernel = Some (1, s, k')"
    by (simp add: CreateTCPConnectedSocket_def good_answers_def kInvalidSocket_def SetNonBlocking_def SetDisableNagle_def
        sys_open_def idle_kernel_def)
  have "fresh_answers good_answers idle_kernel"
    "accept_ret good_answers = -1 \<or> accept_ret good_answers \<notin> open_fds idle_kernel"
    by (simp_all add: fresh_answers_def good_answers_def idle_kernel_def)
  from sockets_accounted [OF this, of "''10.0.0.1''" "''80''" True _ _ 1 s k', THEN conjunct2, THEN conjunct2, THEN mp, OF c] c
  show ?thesis by (auto simp: socket_account_def good_answers_def idle_kernel_def)
qed

end
