(* ===== verification/TcpConnector.thy ===== *)
theory TcpConnector
  imports SocketOps
begin

text \<open>
  The client side of the network engine: net/engine/tcp_connector.h and tcp_connector.cc, with
  net/engine/tcp_client.h and tcp_client.cc, the delegate of the connector, and the creation and
  closing of the IOHandler the client hands its socket to.

  The state is that of both objects together with what they registered elsewhere: the tasks
  posted to the message loop, the descriptor the connector's watcher waits for, the sockets of
  the handlers that are alive, and the kernel. One event of the loop is one step; env holds the
  answers of the kernel and of the application to it. None is a failed check. Locking is not
  modelled: every operation below but Connect and DisConnect runs in the loop of the client.
\<close>

section \<open>State\<close>

datatype ConnectState = kConnectStateInvalid | kConnectStateConnecting | kConnectStateConnectComplete | kConnectStateConnected

record ConnAddrInfo =
  is_inited :: bool
  addr_ip :: string
  addr_port :: string
  is_numeric_host_address :: bool
  is_reconnect :: bool
  reconnect_time :: int

datatype loop_task = TaskReConnect int | TaskDoClose bool

record tcp_client =
  connect_state :: ConnectState
  connector :: SOCKET
  conn_addr_info :: ConnAddrInfo
  io_handler :: "SOCKET option"
  watching :: "SOCKET option"
  tasks :: "loop_task list"
  handlers :: "SOCKET list"
  kern :: kernel

record env =
  sys :: answers
  watch_ok :: bool
  on_new_connection :: int

text \<open>The constructor of ConnAddrInfo leaves two members uninitialised: r and t.\<close>

definition new_TCPClient :: "bool \<Rightarrow> int \<Rightarrow> kernel \<Rightarrow> tcp_client" where
  "new_TCPClient r t k =
     \<lparr>connect_state = kConnectStateInvalid, connector = kInvalidSocket,
      conn_addr_info = \<lparr>is_inited = False, addr_ip = [], addr_port = [], is_numeric_host_address = True,
        is_reconnect = r, reconnect_time = t\<rparr>,
      io_handler = None, watching = None, tasks = [], handlers = [], kern = k\<rparr>"

section \<open>The connector\<close>

definition SetConnState :: "ConnectState \<Rightarrow> tcp_client \<Rightarrow> tcp_client" where
  "SetConnState st c = c\<lparr>connect_state := st\<rparr>"

definition DoConnect :: "int \<Rightarrow> tcp_client \<Rightarrow> tcp_client" where
  "DoConnect delay c = c\<lparr>tasks := tasks c @ [TaskReConnect delay]\<rparr>"

definition Connect :: "string \<Rightarrow> string \<Rightarrow> bool \<Rightarrow> tcp_client \<Rightarrow> bool \<times> tcp_client" where
  "Connect ip port is_numeric c =
     (if connect_state c \<noteq> kConnectStateInvalid then (False, c)
      else (True, DoConnect 0 (c\<lparr>conn_addr_info :=
        \<lparr>is_inited = True, addr_ip = ip, addr_port = port, is_numeric_host_address = is_numeric,
         is_reconnect = True, reconnect_time = 10\<rparr>\<rparr>)))"

definition OnDestroyConnection :: "tcp_client \<Rightarrow> bool" where
  "OnDestroyConnection c \<longleftrightarrow> io_handler c = None"

definition DoClose :: "bool \<Rightarrow> tcp_client \<Rightarrow> tcp_client" where
  "DoClose from_me c =
     (let c1 = (if from_me \<and> \<not> OnDestroyConnection c then c\<lparr>kern := sys_close (connector c) (kern c)\<rparr> else c)
      in SetConnState kConnectStateInvalid (c1\<lparr>connector := kInvalidSocket\<rparr>))"

definition DisConnect :: "tcp_client \<Rightarrow> bool \<times> tcp_client" where
  "DisConnect c =
     (if connect_state c \<noteq> kConnectStateInvalid then (False, c)
      else (True, c\<lparr>tasks := tasks c @ [TaskDoClose True]\<rparr>))"

text \<open>
  WatchFileDescriptor of the message pump with the connector's watcher: a watcher cannot wait for
  two descriptors, and the result only says whether libevent took the event.
\<close>

definition WatchConnector :: "env \<Rightarrow> tcp_client \<Rightarrow> (bool \<times> tcp_client) option" where
  "WatchConnector e c = do {
     dcheck (0 \<le> connector c);
     dcheck (watching c = None \<or> watching c = Some (connector c));
     Some (watch_ok e, c\<lparr>watching := (if watch_ok e then Some (connector c) else None)\<rparr>)
   }"

definition OnConnecting :: "env \<Rightarrow> tcp_client \<Rightarrow> tcp_client option" where
  "OnConnecting e c = do { (_, c) \<leftarrow> WatchConnector e c; Some c }"

section \<open>The client and its handler\<close>

definition OnConnectionClosed :: "tcp_client \<Rightarrow> tcp_client" where
  "OnConnectionClosed c = DoClose False (c\<lparr>io_handler := None\<rparr>)"

text \<open>IOHandler::Close of the handler with socket s: the delegate is told, then the socket is closed unless it is 0.\<close>

definition Handler_Close :: "SOCKET \<Rightarrow> tcp_client \<Rightarrow> tcp_client" where
  "Handler_Close s c =
     (let c1 = OnConnectionClosed c
      in c1\<lparr>kern := (if s \<noteq> 0 \<and> s \<noteq> kInvalidSocket then sys_close s (kern c1) else kern c1), handlers := remove1 s (handlers c1)\<rparr>)"

text \<open>
  OnCreateConnection: the handler is created and started before the client stores it. Starting it
  asks the application (on_new_connection); when that refuses, the handler is closed at once, and
  its socket member is the invalid socket from then on.
\<close>

definition OnCreateConnection :: "env \<Rightarrow> SOCKET \<Rightarrow> tcp_client \<Rightarrow> (bool \<times> tcp_client) option" where
  "OnCreateConnection e s c = do {
     dcheck (0 \<le> s);
     let c1 = c\<lparr>handlers := handlers c @ [s]\<rparr>;
     Some (True,
       if on_new_connection e \<noteq> 0 then (Handler_Close s c1)\<lparr>io_handler := Some kInvalidSocket\<rparr>
       else c1\<lparr>io_handler := Some s\<rparr>)
   }"

definition Connector_OnNewConnection :: "env \<Rightarrow> SOCKET \<Rightarrow> tcp_client \<Rightarrow> tcp_client option" where
  "Connector_OnNewConnection e s c = do {
     (ret, c) \<leftarrow> OnCreateConnection e s c;
     Some (if ret then SetConnState kConnectStateConnected c else c)
   }"

definition ReConnect :: "env \<Rightarrow> tcp_client \<Rightarrow> tcp_client option" where
  "ReConnect e c = do {
     let a = conn_addr_info c;
     (ret, s, k) \<leftarrow> CreateTCPConnectedSocket (sys e) (addr_ip a) (addr_port a) (is_numeric_host_address a) (kern c);
     let c = c\<lparr>connector := s, kern := k\<rparr>;
     if ret = -1 then Some (DoConnect (reconnect_time a) c)
     else if ret = 1 then Connector_OnNewConnection e (connector c) c
     else OnConnecting e (SetConnState kConnectStateConnecting c)
   }"

definition OnConnected :: "env \<Rightarrow> tcp_client \<Rightarrow> tcp_client option" where
  "OnConnected e c =
     (if connect_state c \<noteq> kConnectStateConnecting then Some c
      else let os_error = (if sockopt_rc (sys e) < 0 then sockopt_errno (sys e) else so_error (sys e)) in do {
        dcheck (os_error \<noteq> EINPROGRESS \<and> os_error \<noteq> EALREADY);
        let c = c\<lparr>watching := None\<rparr>;
        if MapConnectError os_error = net_OK then Connector_OnNewConnection e (connector c) c
        else (let c = (if is_reconnect (conn_addr_info c) then DoConnect (reconnect_time (conn_addr_info c)) c else c)
              in Some (DoClose True c))
      })"

definition OnFileCanWriteWithoutBlocking :: "env \<Rightarrow> tcp_client \<Rightarrow> tcp_client option" where
  "OnFileCanWriteWithoutBlocking e c =
     (if connect_state c = kConnectStateConnecting then OnConnected e c else Some c)"

section \<open>Events\<close>

text \<open>
  What can happen to a client: the application calls Connect or DisConnect, the loop runs a posted
  task, the watched descriptor becomes writable, or a live handler closes (its peer has closed, a
  read failed, or the application closed it).
\<close>

definition run_task :: "env \<Rightarrow> loop_task \<Rightarrow> tcp_client \<Rightarrow> tcp_client option" where
  "run_task e t c = (case t of TaskReConnect _ \<Rightarrow> ReConnect e c | TaskDoClose b \<Rightarrow> Some (DoClose b c))"

datatype client_event =
  EvConnect string string bool | EvDisConnect | EvTask nat env | EvWritable env | EvHandlerClosed SOCKET

definition client_exec :: "client_event \<Rightarrow> tcp_client \<Rightarrow> tcp_client option" where
  "client_exec ev c =
     (case ev of
        EvConnect ip port num \<Rightarrow> Some (snd (Connect ip port num c))
      | EvDisConnect \<Rightarrow> Some (snd (DisConnect c))
      | EvTask i e \<Rightarrow>
          (if i < length (tasks c) then run_task e (tasks c ! i) (c\<lparr>tasks := take i (tasks c) @ drop (Suc i) (tasks c)\<rparr>)
           else Some c)
      | EvWritable e \<Rightarrow> (if watching c = None then Some c else OnFileCanWriteWithoutBlocking e c)
      | EvHandlerClosed s \<Rightarrow> Some (if s \<in> set (handlers c) then Handler_Close s c else c))"

text \<open>
  Events as an application causes them that connects only while nothing is pending and does not
  call DisConnect; the kernel gives out fresh descriptors.
\<close>

fun event_ok :: "client_event \<Rightarrow> tcp_client \<Rightarrow> bool" where
  "event_ok (EvConnect _ _ _) c \<longleftrightarrow> tasks c = []"
| "event_ok EvDisConnect c \<longleftrightarrow> False"
| "event_ok (EvTask _ e) c \<longleftrightarrow> fresh_answers (sys e) (kern c)"
| "event_ok (EvWritable _) c \<longleftrightarrow> True"
| "event_ok (EvHandlerClosed _) c \<longleftrightarrow> True"

inductive client_step :: "tcp_client \<Rightarrow> tcp_client \<Rightarrow> bool" where
  client_event: "event_ok ev c \<Longrightarrow> client_exec ev c = Some c' \<Longrightarrow> client_step c c'"

inductive client_reachable :: "tcp_client \<Rightarrow> bool" where
  client_start: "client_reachable (new_TCPClient r t k)"
| client_next: "client_reachable c \<Longrightarrow> client_step c c' \<Longrightarrow> client_reachable c'"

inductive_cases client_stepE: "client_step c c'"

section \<open>The invariant\<close>

text \<open>
  Four situations: idle (with at most one attempt posted), waiting for a connect to complete,
  connected, and refused: the application turned the new connection down, and the client still
  takes itself for connected.
\<close>

definition client_idle :: "tcp_client \<Rightarrow> bool" where
  "client_idle c \<longleftrightarrow> connect_state c = kConnectStateInvalid \<and> connector c = kInvalidSocket \<and> io_handler c = None \<and>
     handlers c = [] \<and> watching c = None \<and> (tasks c = [] \<or> (\<exists>t. tasks c = [TaskReConnect t] \<and> is_reconnect (conn_addr_info c)))"

definition client_connecting :: "tcp_client \<Rightarrow> bool" where
  "client_connecting c \<longleftrightarrow> connect_state c = kConnectStateConnecting \<and> 0 \<le> connector c \<and> connector c \<in> open_fds (kern c) \<and>
     io_handler c = None \<and> handlers c = [] \<and> watching c \<in> {None, Some (connector c)} \<and> tasks c = [] \<and>
     is_reconnect (conn_addr_info c)"

definition client_connected :: "tcp_client \<Rightarrow> bool" where
  "client_connected c \<longleftrightarrow> connect_state c = kConnectStateConnected \<and> 0 \<le> connector c \<and> connector c \<in> open_fds (kern c) \<and>
     io_handler c = Some (connector c) \<and> handlers c = [connector c] \<and> watching c = None \<and> tasks c = []"

definition client_refused :: "tcp_client \<Rightarrow> bool" where
  "client_refused c \<longleftrightarrow> connect_state c = kConnectStateConnected \<and> connector c = kInvalidSocket \<and>
     io_handler c = Some kInvalidSocket \<and> handlers c = [] \<and> watching c = None \<and> tasks c = []"

lemmas client_defs = client_idle_def client_connecting_def client_connected_def client_refused_def

definition client_inv :: "tcp_client \<Rightarrow> bool" where
  "client_inv c \<longleftrightarrow> client_idle c \<or> client_connecting c \<or> client_connected c \<or> client_refused c"

lemmas connector_defs = Connector_OnNewConnection_def OnCreateConnection_def Handler_Close_def OnConnectionClosed_def DoClose_def
  DoConnect_def SetConnState_def OnDestroyConnection_def

lemma OnNewConnection_cases:
  assumes "Connector_OnNewConnection e s c = Some c'" and "handlers c = []" and "watching c = None" and "tasks c = []"
    and "connector c = s" and "s \<in> open_fds (kern c)"
  shows "if on_new_connection e = 0 then client_connected c' \<and> kern c' = kern c else client_refused c'"
  using assms by (auto simp: connector_defs client_defs Let_def kInvalidSocket_def)

lemma ReConnect_cases:
  assumes c: "client_idle c" "tasks c = []" "is_reconnect (conn_addr_info c)" and fresh: "fresh_answers (sys e) (kern c)"
    and r: "ReConnect e c = Some c'"
  shows "client_inv c' \<and> conn_addr_info c' = conn_addr_info c"
proof -
  let ?a = "conn_addr_info c"
  obtain ret s k where cs: "CreateTCPConnectedSocket (sys e) (addr_ip ?a) (addr_port ?a) (is_numeric_host_address ?a) (kern c) = Some (ret, s, k)"
    using r by (auto simp: ReConnect_def Let_def bind_eq_Some_conv)
  note acc = CreateTCPConnectedSocket_account [OF fresh cs]
  let ?c = "c\<lparr>connector := s, kern := k\<rparr>"
  consider (fail) "ret = -1" | (at_once) "ret = 1" | (later) "ret = 0" using acc(2) by auto
  then show ?thesis
  proof cases
    case fail
    then show ?thesis using r cs c acc(4) by (auto simp: ReConnect_def DoConnect_def client_inv_def client_idle_def Let_def)
  next
    case at_once
    then have n: "Connector_OnNewConnection e s ?c = Some c'" using r cs by (simp add: ReConnect_def Let_def)
    have "s \<in> open_fds k" using connected.made [OF fresh cs] at_once by simp
    then have "client_inv c'"
      using OnNewConnection_cases [OF n] c by (auto simp: client_idle_def client_inv_def split: if_splits)
    moreover have "conn_addr_info c' = conn_addr_info c" using n by (auto simp: connector_defs Let_def split: if_splits)
    ultimately show ?thesis by simp
  next
    case later
    then have c': "c' = c\<lparr>connector := s, kern := k, connect_state := kConnectStateConnecting,
        watching := (if watch_ok e then Some s else None)\<rparr>"
      using r cs by (auto simp: ReConnect_def Let_def OnConnecting_def WatchConnector_def SetConnState_def)
    have "client_connecting c'"
      unfolding c' using later c connected.made [OF fresh cs] by (simp add: client_idle_def client_connecting_def)
    then show ?thesis by (simp add: client_inv_def c')
  qed
qed

lemma OnConnected_cases:
  assumes c: "client_connecting c" and r: "OnConnected e c = Some c'"
  shows "client_inv c' \<and> conn_addr_info c' = conn_addr_info c"
proof -
  let ?err = "if sockopt_rc (sys e) < 0 then sockopt_errno (sys e) else so_error (sys e)"
  let ?c = "c\<lparr>watching := None\<rparr>"
  show ?thesis
  proof (cases "MapConnectError ?err = net_OK")
    case True
    then have n: "Connector_OnNewConnection e (connector c) ?c = Some c'"
      using r c by (simp add: OnConnected_def client_connecting_def Let_def)
    then have "client_inv c'"
      using OnNewConnection_cases [OF n] c by (auto simp: client_connecting_def client_inv_def split: if_splits)
    moreover have "conn_addr_info c' = conn_addr_info c" using n by (auto simp: connector_defs Let_def split: if_splits)
    ultimately show ?thesis by simp
  next
    case False
    then have "c' = DoClose True (DoConnect (reconnect_time (conn_addr_info c)) ?c)"
      using r c by (simp add: OnConnected_def client_connecting_def Let_def)
    then show ?thesis using c by (auto simp: connector_defs client_connecting_def client_inv_def client_idle_def Let_def)
  qed
qed

lemma client_step_inv:
  assumes inv: "client_inv c" and step: "client_step c c'"
  shows "client_inv c'"
proof -
  from step obtain ev where ok: "event_ok ev c" and ex: "client_exec ev c = Some c'" by (rule client_stepE)
  show "client_inv c'"
  proof (cases ev)
    case (EvConnect ip port num)
    then have c': "c' = snd (Connect ip port num c)" and "tasks c = []" using ok ex by (simp_all add: client_exec_def)
    show ?thesis
    proof (cases "connect_state c = kConnectStateInvalid")
      case True
      then have "client_idle c" using inv by (simp add: client_inv_def client_connecting_def client_connected_def client_refused_def)
      then have "client_idle c'" using True \<open>tasks c = []\<close> by (simp add: c' Connect_def DoConnect_def client_idle_def)
      then show ?thesis by (simp add: client_inv_def)
    next
      case False
      then show ?thesis using inv by (simp add: c' Connect_def)
    qed
  next
    case EvDisConnect
    then show ?thesis using ok by simp
  next
    case (EvTask i e)
    show ?thesis
    proof (cases "i < length (tasks c)")
      case True
      then obtain t where t: "client_idle c" "tasks c = [TaskReConnect t]" "i = 0" "is_reconnect (conn_addr_info c)"
        using inv by (auto simp: client_inv_def client_defs)
      let ?c = "c\<lparr>tasks := []\<rparr>"
      have "client_idle ?c" using t by (auto simp: client_idle_def)
      moreover have "ReConnect e ?c = Some c'"
        using ex t EvTask by (simp add: client_exec_def run_task_def)
      ultimately show ?thesis using ReConnect_cases [of ?c e c'] t ok EvTask by simp
    next
      case False
      then show ?thesis using inv ex EvTask by (simp add: client_exec_def)
    qed
  next
    case (EvWritable e)
    show ?thesis
    proof (cases "watching c = None")
      case True
      then show ?thesis using inv ex EvWritable by (simp add: client_exec_def)
    next
      case False
      then have "client_connecting c" using inv by (auto simp: client_inv_def client_idle_def client_connected_def client_refused_def)
      moreover from this have "OnConnected e c = Some c'"
        using ex EvWritable False by (auto simp: client_exec_def OnFileCanWriteWithoutBlocking_def client_connecting_def)
      ultimately show ?thesis using OnConnected_cases by blast
    qed
  next
    case (EvHandlerClosed s)
    show ?thesis
    proof (cases "s \<in> set (handlers c)")
      case True
      then have "client_connected c" using inv by (auto simp: client_inv_def client_idle_def client_connecting_def client_refused_def)
      with True have "client_idle (Handler_Close s c)" by (simp add: connector_defs client_connected_def client_idle_def Let_def)
      then show ?thesis using ex EvHandlerClosed True by (simp add: client_exec_def client_inv_def)
    next
      case False
      then show ?thesis using inv ex EvHandlerClosed by (simp add: client_exec_def)
    qed
  qed
qed

lemma client_reachable_inv: "client_reachable c \<Longrightarrow> client_inv c"
proof (induction rule: client_reachable.induct)
  case (client_start r t k)
  then show ?case by (simp add: new_TCPClient_def client_inv_def client_idle_def)
next
  case (client_next c c')
  then show ?case by (blast intro: client_step_inv)
qed

section \<open>Retrying\<close>

primrec run_events :: "client_event list \<Rightarrow> tcp_client \<Rightarrow> tcp_client option" where
  "run_events [] c = Some c"
| "run_events (ev # evs) c = do { c' \<leftarrow> client_exec ev c; run_events evs c' }"

lemma run_events_append: "run_events (xs @ ys) c = run_events xs c \<bind> run_events ys"
proof (induction xs arbitrary: c)
  case (Cons ev xs)
  then show ?case by (cases "client_exec ev c") auto
qed simp

text \<open>A connection attempt that fails at once, and one that fails when the connect completes.\<close>

datatype attempt = FailAtOnce env | FailLater env env

fun attempt_events :: "attempt \<Rightarrow> client_event list" where
  "attempt_events (FailAtOnce e) = [EvTask 0 e]"
| "attempt_events (FailLater e1 e2) = [EvTask 0 e1, EvWritable e2]"

definition connect_result :: "env \<Rightarrow> int" where
  "connect_result e = (if sockopt_rc (sys e) < 0 then sockopt_errno (sys e) else so_error (sys e))"

text \<open>
  What the failed attempts do to the kernel: the descriptors of those that fail later are
  collected. None when an attempt is not one that fails the way it says.
\<close>

fun failing :: "ConnAddrInfo \<Rightarrow> attempt list \<Rightarrow> kernel \<Rightarrow> (SOCKET list \<times> kernel) option" where
  "failing a [] k = Some ([], k)"
| "failing a (FailAtOnce e # as) k = do {
     (ret, _, k1) \<leftarrow> CreateTCPConnectedSocket (sys e) (addr_ip a) (addr_port a) (is_numeric_host_address a) k;
     dcheck (fresh_answers (sys e) k \<and> ret = -1);
     failing a as k1
   }"
| "failing a (FailLater e1 e2 # as) k = do {
     (ret, s, k1) \<leftarrow> CreateTCPConnectedSocket (sys e1) (addr_ip a) (addr_port a) (is_numeric_host_address a) k;
     dcheck (fresh_answers (sys e1) k \<and> ret = 0 \<and> watch_ok e1 \<and> connect_result e2 \<notin> {0, EINPROGRESS, EALREADY});
     (lost, k2) \<leftarrow> failing a as k1;
     Some (s # lost, k2)
   }"

definition pending :: "ConnAddrInfo \<Rightarrow> kernel \<Rightarrow> tcp_client \<Rightarrow> bool" where
  "pending a k c \<longleftrightarrow> client_idle c \<and> (\<exists>d. tasks c = [TaskReConnect d]) \<and> conn_addr_info c = a \<and> kern c = k"

lemma attempt_at_once:
  assumes c: "pending a k c" and a: "is_reconnect a"
    and cs: "CreateTCPConnectedSocket (sys e) (addr_ip a) (addr_port a) (is_numeric_host_address a) k = Some (-1, s, k1)"
    and fresh: "fresh_answers (sys e) k"
  shows "\<exists>c'. run_events (attempt_events (FailAtOnce e)) c = Some c' \<and> pending a k1 c'"
  using assms CreateTCPConnectedSocket_account(4) [OF fresh cs]
  by (auto simp: pending_def client_idle_def client_exec_def run_task_def ReConnect_def DoConnect_def Let_def)

lemma attempt_later:
  assumes c: "pending a k c" and a: "is_reconnect a"
    and cs: "CreateTCPConnectedSocket (sys e1) (addr_ip a) (addr_port a) (is_numeric_host_address a) k = Some (0, s, k1)"
    and fresh: "fresh_answers (sys e1) k" and w: "watch_ok e1" and err: "connect_result e2 \<notin> {0, EINPROGRESS, EALREADY}"
  shows "\<exists>c'. run_events (attempt_events (FailLater e1 e2)) c = Some c' \<and> pending a k1 c'"
proof -
  obtain d where d: "tasks c = [TaskReConnect d]" "client_idle c" "conn_addr_info c = a" "kern c = k"
    using c by (auto simp: pending_def)
  have s: "0 \<le> s" using connected.made [OF fresh cs] by simp
  let ?c1 = "c\<lparr>tasks := [], connector := s, kern := k1, connect_state := kConnectStateConnecting, watching := Some s\<rparr>"
  have 1: "client_exec (EvTask 0 e1) c = Some ?c1"
    using d cs w s
    by (simp add: client_exec_def run_task_def ReConnect_def OnConnecting_def WatchConnector_def SetConnState_def Let_def client_idle_def)
  let ?c2 = "DoClose True (DoConnect (reconnect_time a) (?c1\<lparr>watching := None\<rparr>))"
  have 2: "client_exec (EvWritable e2) ?c1 = Some ?c2"
    using err d a MapConnectError_OK [of "connect_result e2"]
    by (simp add: client_exec_def OnFileCanWriteWithoutBlocking_def OnConnected_def Let_def flip: connect_result_def)
  have "pending a k1 ?c2"
    using d a by (simp add: pending_def client_idle_def connector_defs Let_def)
  with 1 2 show ?thesis by simp
qed

lemma failing_run:
  assumes "pending a k c" and "is_reconnect a" and "failing a as k = Some (lost, k')"
  shows "\<exists>c'. run_events (concat (map attempt_events as)) c = Some c' \<and> pending a k' c'"
  using assms
proof (induction as arbitrary: k c lost)
  case Nil
  then show ?case by simp
next
  case (Cons t as)
  obtain k1 lost1 c1 where "run_events (attempt_events t) c = Some c1" "pending a k1 c1" "failing a as k1 = Some (lost1, k')"
  proof (cases t)
    case (FailAtOnce e)
    then obtain s k1 where "CreateTCPConnectedSocket (sys e) (addr_ip a) (addr_port a) (is_numeric_host_address a) k = Some (-1, s, k1)"
      "fresh_answers (sys e) k" "failing a as k1 = Some (lost, k')"
      using Cons.prems(3) by (auto simp: bind_eq_Some_conv)
    with attempt_at_once [OF Cons.prems(1,2)] FailAtOnce that show ?thesis by blast
  next
    case (FailLater e1 e2)
    then obtain s k1 lost1 where "CreateTCPConnectedSocket (sys e1) (addr_ip a) (addr_port a) (is_numeric_host_address a) k = Some (0, s, k1)"
      "fresh_answers (sys e1) k" "watch_ok e1" "connect_result e2 \<notin> {0, EINPROGRESS, EALREADY}" "failing a as k1 = Some (lost1, k')"
      using Cons.prems(3) by (auto simp: bind_eq_Some_conv)
    with attempt_later [OF Cons.prems(1,2)] FailLater that show ?thesis by blast
  qed
  with Cons.IH [of k1 c1 lost1] Cons.prems(2) show ?case by (simp add: run_events_append)
qed

text \<open>Every attempt that fails later leaves its descriptor open.\<close>

lemma failing_lost:
  assumes "failing a as k = Some (lost, k')"
  shows "open_fds k' = open_fds k \<union> set lost \<and> distinct lost \<and> set lost \<inter> open_fds k = {} \<and>
    length lost = length (filter (\<lambda>t. \<exists>e1 e2. t = FailLater e1 e2) as)"
  using assms
proof (induction as arbitrary: k lost)
  case Nil
  then show ?case by simp
next
  case (Cons t as)
  show ?case
  proof (cases t)
    case (FailAtOnce e)
    then obtain s k1 where cs: "CreateTCPConnectedSocket (sys e) (addr_ip a) (addr_port a) (is_numeric_host_address a) k = Some (-1, s, k1)"
      and f: "fresh_answers (sys e) k" and r: "failing a as k1 = Some (lost, k')"
      using Cons.prems by (auto simp: bind_eq_Some_conv)
    have "open_fds k1 = open_fds k" using connected.failed [OF f cs] by simp
    with Cons.IH [OF r] FailAtOnce show ?thesis by simp
  next
    case (FailLater e1 e2)
    then obtain s k1 lost1 where cs: "CreateTCPConnectedSocket (sys e1) (addr_ip a) (addr_port a) (is_numeric_host_address a) k = Some (0, s, k1)"
      and f: "fresh_answers (sys e1) k" and r: "failing a as k1 = Some (lost1, k')" and l: "lost = s # lost1"
      using Cons.prems by (auto simp: bind_eq_Some_conv)
    have "open_fds k1 = insert s (open_fds k)" "s \<notin> open_fds k"
      using connected.made [OF f cs] f by (auto simp: fresh_answers_def)
    with Cons.IH [OF r] FailLater l show ?thesis by auto
  qed
qed

section \<open>Properties\<close>


definition refusing_env :: env where
  "refusing_env = \<lparr>sys = good_answers, watch_ok = True, on_new_connection = -1\<rparr>"



text \<open>One attempt answered with EINPROGRESS and then ECONNREFUSED, and one that succeeds at once.\<close>

definition refused_later :: attempt where
  "refused_later = FailLater
     \<lparr>sys = good_answers\<lparr>connect_rc := -1, connect_errno := EINPROGRESS\<rparr>, watch_ok = True, on_new_connection = 0\<rparr>
     \<lparr>sys = good_answers\<lparr>so_error := ECONNREFUSED\<rparr>, watch_ok = True, on_new_connection = 0\<rparr>"


end
