(* ===== verification/TcpServer.thy ===== *)
theory TcpServer
  imports SocketOps
begin

text \<open>
  The server side of the network engine: net/engine/reactor_thread_pool.h and .cc, tcp_acceptor.h
  and .cc, tcp_server.h and .cc. The acceptor's delegate is the server, which hands each accepted
  socket to a handler in the loop of the next reactor of the pool, or in its own loop when the
  pool is empty.

  A reactor is its id and whether its thread runs; a message loop is named by who runs it, and
  that of a thread that does not run is the null pointer. None is a failed check. The threads of
  the pool share nothing with the operations below, which all run in the loop of the server.
\<close>

section \<open>Reactor pool\<close>

record ReactorThread =
  reactor_id :: int
  running :: bool

datatype msg_loop = NullLoop | MainLoop | ReactorLoop int

record ReactorThreadPool =
  reactor_pool :: "ReactorThread list"
  next_reactor :: nat

definition new_ReactorThreadPool :: "int \<Rightarrow> ReactorThreadPool" where
  "new_ReactorThreadPool reactor_pool_size =
     (let n = (if reactor_pool_size < 0 then 0 else reactor_pool_size)
      in \<lparr>reactor_pool = map (\<lambda>i. \<lparr>reactor_id = int i, running = False\<rparr>) [0..<nat n], next_reactor = 0\<rparr>)"

definition pool_IsEmpty :: "ReactorThreadPool \<Rightarrow> bool" where
  "pool_IsEmpty p \<longleftrightarrow> reactor_pool p = []"

definition pool_Shutdown :: "ReactorThreadPool \<Rightarrow> ReactorThreadPool" where
  "pool_Shutdown p = p\<lparr>reactor_pool := []\<rparr>"

text \<open>The loop of Start: thread_ok says which threads start; the loop breaks at the first that does not.\<close>

fun start_loop :: "(int \<Rightarrow> bool) \<Rightarrow> ReactorThread list \<Rightarrow> bool \<times> ReactorThread list" where
  "start_loop thread_ok [] = (True, [])"
| "start_loop thread_ok (r # rs) =
     (if thread_ok (reactor_id r) then
        (let (ok, rs') = start_loop thread_ok rs in (ok, r\<lparr>running := True\<rparr> # rs'))
      else (False, r # rs))"

definition pool_Start :: "(int \<Rightarrow> bool) \<Rightarrow> ReactorThreadPool \<Rightarrow> bool \<times> ReactorThreadPool" where
  "pool_Start thread_ok p =
     (let (b_rt, rs) = start_loop thread_ok (reactor_pool p); p' = p\<lparr>reactor_pool := rs\<rparr>
      in (b_rt, if b_rt then p' else pool_Shutdown p'))"

definition thread_loop :: "ReactorThread \<Rightarrow> msg_loop" where
  "thread_loop r = (if running r then ReactorLoop (reactor_id r) else NullLoop)"

definition GetNextMessageLoop :: "ReactorThreadPool \<Rightarrow> msg_loop \<times> ReactorThreadPool" where
  "GetNextMessageLoop p =
     (if reactor_pool p = [] then (NullLoop, p)
      else let i = (if next_reactor p = length (reactor_pool p) then 0 else next_reactor p)
           in (thread_loop (reactor_pool p ! i), p\<lparr>next_reactor := Suc i\<rparr>))"

section \<open>Acceptor and server\<close>

datatype WaitState = NOT_WAITING | WAITING_ACCEPT | WAITING_READ | WAITING_WRITE | WAITING_CLOSE

record tcp_server =
  pool :: ReactorThreadPool
  acceptor :: SOCKET
  wait_state :: WaitState
  accept_watched :: bool
  connections :: "(SOCKET \<times> msg_loop) list"
  server_kern :: kernel

text \<open>The constructor of the acceptor leaves wait_state_ uninitialised: w.\<close>

definition new_TCPServer :: "WaitState \<Rightarrow> int \<Rightarrow> kernel \<Rightarrow> tcp_server" where
  "new_TCPServer w reactor_pool_size k =
     \<lparr>pool = new_ReactorThreadPool reactor_pool_size, acceptor = kInvalidSocket, wait_state = w, accept_watched = False,
      connections = [], server_kern = k\<rparr>"

definition WatchSocket :: "bool \<Rightarrow> WaitState \<Rightarrow> tcp_server \<Rightarrow> tcp_server option" where
  "WatchSocket ok state sv = do {
     dcheck (0 \<le> acceptor sv);
     Some (sv\<lparr>accept_watched := ok, wait_state := state\<rparr>)
   }"

definition Acceptor_Create ::
  "answers \<Rightarrow> bool \<Rightarrow> string \<Rightarrow> string \<Rightarrow> bool \<Rightarrow> tcp_server \<Rightarrow> (bool \<times> tcp_server) option" where
  "Acceptor_Create os watch ip port is_numeric sv = do {
     (ret, s, k) \<leftarrow> CreateTCPListeningSocket os ip port is_numeric (server_kern sv);
     let sv = sv\<lparr>acceptor := s, server_kern := k\<rparr>;
     if ret \<noteq> 0 then Some (False, sv)
     else do { sv \<leftarrow> WatchSocket watch WAITING_ACCEPT sv; Some (True, sv) }
   }"

definition Server_Create ::
  "answers \<Rightarrow> bool \<Rightarrow> (int \<Rightarrow> bool) \<Rightarrow> string \<Rightarrow> string \<Rightarrow> bool \<Rightarrow> tcp_server \<Rightarrow> (bool \<times> tcp_server) option" where
  "Server_Create os watch thread_ok ip port is_numeric sv = do {
     (ret, sv) \<leftarrow> Acceptor_Create os watch ip port is_numeric sv;
     if ret \<and> \<not> pool_IsEmpty (pool sv) then
       (let (ret, p) = pool_Start thread_ok (pool sv) in Some (ret, sv\<lparr>pool := p\<rparr>))
     else Some (ret, sv)
   }"

text \<open>The constructor of IOHandler checks that the loop is not null.\<close>

definition Server_OnCreateConnection :: "SOCKET \<Rightarrow> tcp_server \<Rightarrow> (bool \<times> tcp_server) option" where
  "Server_OnCreateConnection s sv =
     (let (l, p) = (if pool_IsEmpty (pool sv) then (MainLoop, pool sv) else GetNextMessageLoop (pool sv))
      in do {
        dcheck (l \<noteq> NullLoop);
        Some (True, sv\<lparr>pool := p, connections := connections sv @ [(s, l)]\<rparr>)
      })"

definition Acceptor_Accept :: "answers \<Rightarrow> tcp_server \<Rightarrow> tcp_server option" where
  "Acceptor_Accept os sv = do {
     (ret, conn, k) \<leftarrow> Accept os (acceptor sv) (server_kern sv);
     let sv = sv\<lparr>server_kern := k\<rparr>;
     if ret \<noteq> -1 then do { (_, sv) \<leftarrow> Server_OnCreateConnection conn sv; Some sv }
     else Some sv
   }"

definition Acceptor_Close :: "tcp_server \<Rightarrow> tcp_server" where
  "Acceptor_Close sv = (if wait_state sv = WAITING_CLOSE then sv else sv\<lparr>wait_state := WAITING_CLOSE\<rparr>)"

definition Acceptor_OnFileCanRead :: "answers \<Rightarrow> tcp_server \<Rightarrow> tcp_server option" where
  "Acceptor_OnFileCanRead os sv = (if wait_state sv = WAITING_ACCEPT then Acceptor_Accept os sv else Some sv)"

definition Server_destroy :: "tcp_server \<Rightarrow> tcp_server" where
  "Server_destroy sv = sv\<lparr>pool := pool_Shutdown (pool sv), server_kern := sys_close (acceptor sv) (server_kern sv)\<rparr>"

primrec accept_all :: "answers list \<Rightarrow> tcp_server \<Rightarrow> tcp_server option" where
  "accept_all [] sv = Some sv"
| "accept_all (os # oss) sv = do { sv' \<leftarrow> Acceptor_OnFileCanRead os sv; accept_all oss sv' }"

section \<open>Lemmas\<close>

text \<open>Round robin: connection i of a pool with n running reactors goes to reactor i mod n.\<close>

definition robin :: "int \<Rightarrow> nat \<Rightarrow> msg_loop" where
  "robin n i = (if n \<le> 0 then MainLoop else ReactorLoop (int i mod n))"

definition pool_ok :: "int \<Rightarrow> nat \<Rightarrow> ReactorThreadPool \<Rightarrow> bool" where
  "pool_ok n i p \<longleftrightarrow> reactor_pool p = map (\<lambda>i. \<lparr>reactor_id = int i, running = True\<rparr>) [0..<nat n] \<and>
     (0 < n \<longrightarrow> next_reactor p \<le> nat n \<and> next_reactor p mod nat n = i mod nat n)"

lemma start_loop_True:
  "(\<forall>r \<in> set rs. thread_ok (reactor_id r)) \<Longrightarrow> start_loop thread_ok rs = (True, map (\<lambda>r. r\<lparr>running := True\<rparr>) rs)"
  by (induction rs) auto

lemma start_loop_fst: "fst (start_loop thread_ok rs) \<longleftrightarrow> (\<forall>r \<in> set rs. thread_ok (reactor_id r))"
  by (induction rs) (simp_all add: case_prod_beta)

lemma next_loop_robin:
  assumes "pool_ok n i p" and "0 < n"
  shows "\<exists>p'. GetNextMessageLoop p = (robin n i, p') \<and> pool_ok n (Suc i) p'"
proof -
  let ?n = "nat n" and ?j = "if next_reactor p = nat n then 0 else next_reactor p"
  have p: "reactor_pool p = map (\<lambda>i. \<lparr>reactor_id = int i, running = True\<rparr>) [0..<?n]" "next_reactor p \<le> ?n"
    "next_reactor p mod ?n = i mod ?n" using assms by (auto simp: pool_ok_def)
  have j: "?j < ?n" "?j = i mod ?n" using p(2,3) assms(2) by auto
  have "int (i mod ?n) = int i mod n" using assms(2) by (simp add: zmod_int)
  then have "thread_loop (reactor_pool p ! ?j) = robin n i"
    using j assms(2) by (simp add: p(1) thread_loop_def robin_def split del: if_split)
  moreover have "Suc ?j mod ?n = Suc i mod ?n" unfolding j(2) by (simp add: mod_Suc_eq)
  ultimately show ?thesis
    using p(1) j(1) assms(2) by (simp add: GetNextMessageLoop_def pool_ok_def Let_def split del: if_split)
qed

text \<open>A kernel that answers accept and the calls on the new socket without an error that ends the process.\<close>

definition accept_good :: "answers \<Rightarrow> bool" where
  "accept_good os \<longleftrightarrow> accept_ret os = -1 \<or> 0 \<le> accept_ret os \<and> getfl_ok os \<and> setfl_ok os \<and> 0 \<le> nodelay_rc os"

lemma Accept_good:
  assumes "accept_good os"
  shows "\<exists>k'. Accept os a k =
    Some (if accept_ret os = -1 then (-1, -1, k') else (0, accept_ret os, k')) \<and>
    open_fds k' = (if accept_ret os = -1 then open_fds k else insert (accept_ret os) (open_fds k))"
  using assms by (auto simp: accept_good_def Accept_def kInvalidSocket_def SetNonBlocking_def SetDisableNagle_def sys_open_def Let_def)

definition server_inv :: "int \<Rightarrow> tcp_server \<Rightarrow> bool" where
  "server_inv n sv \<longleftrightarrow> wait_state sv = WAITING_ACCEPT \<and> pool_ok n (length (connections sv)) (pool sv) \<and>
     map snd (connections sv) = map (robin n) [0..<length (connections sv)]"

definition accepted :: "answers list \<Rightarrow> SOCKET list" where
  "accepted oss = map accept_ret (filter (\<lambda>os. accept_ret os \<noteq> -1) oss)"

lemma OnCreateConnection_robin:
  assumes "server_inv n sv"
  shows "\<exists>sv'. Server_OnCreateConnection s sv = Some (True, sv') \<and> server_inv n sv' \<and>
    map fst (connections sv') = map fst (connections sv) @ [s] \<and> acceptor sv' = acceptor sv \<and> server_kern sv' = server_kern sv"
proof (cases "0 < n")
  case True
  then obtain p' where "GetNextMessageLoop (pool sv) = (robin n (length (connections sv)), p')"
    "pool_ok n (Suc (length (connections sv))) p'"
    using next_loop_robin assms by (metis server_inv_def)
  moreover have "\<not> pool_IsEmpty (pool sv)" using assms True by (auto simp: server_inv_def pool_ok_def pool_IsEmpty_def)
  ultimately show ?thesis
    using assms True by (simp add: Server_OnCreateConnection_def server_inv_def robin_def)
next
  case False
  then show ?thesis using assms
    by (simp add: Server_OnCreateConnection_def server_inv_def robin_def pool_ok_def pool_IsEmpty_def)
qed

lemma accept_one:
  assumes inv: "server_inv n sv" and good: "accept_good os"
  shows "\<exists>sv'. Acceptor_OnFileCanRead os sv = Some sv' \<and> server_inv n sv' \<and>
    map fst (connections sv') = map fst (connections sv) @ accepted [os] \<and> acceptor sv' = acceptor sv \<and>
    open_fds (server_kern sv') = open_fds (server_kern sv) \<union> set (accepted [os])"
proof -
  obtain k' where k: "Accept os (acceptor sv) (server_kern sv) =
      Some (if accept_ret os = -1 then (-1, -1, k') else (0, accept_ret os, k'))"
    "open_fds k' = (if accept_ret os = -1 then open_fds (server_kern sv) else insert (accept_ret os) (open_fds (server_kern sv)))"
    using Accept_good [OF good] by blast
  have inv': "server_inv n (sv\<lparr>server_kern := k'\<rparr>)" using inv by (simp add: server_inv_def)
  have w: "wait_state sv = WAITING_ACCEPT" using inv by (simp add: server_inv_def)
  show ?thesis
  proof (cases "accept_ret os = -1")
    case True
    then show ?thesis using k w inv' by (simp add: Acceptor_OnFileCanRead_def Acceptor_Accept_def accepted_def Let_def)
  next
    case False
    then show ?thesis using k w OnCreateConnection_robin [OF inv', of "accept_ret os"]
      by (auto simp: Acceptor_OnFileCanRead_def Acceptor_Accept_def accepted_def Let_def)
  qed
qed

lemma accept_all_robin:
  assumes "server_inv n sv" and "\<forall>os \<in> set oss. accept_good os"
  shows "\<exists>sv'. accept_all oss sv = Some sv' \<and> server_inv n sv' \<and>
    map fst (connections sv') = map fst (connections sv) @ accepted oss \<and> acceptor sv' = acceptor sv \<and>
    open_fds (server_kern sv') = open_fds (server_kern sv) \<union> set (accepted oss)"
  using assms
proof (induction oss arbitrary: sv)
  case Nil
  then show ?case by (simp add: accepted_def)
next
  case (Cons os oss)
  obtain sv1 where 1: "Acceptor_OnFileCanRead os sv = Some sv1" "server_inv n sv1" "acceptor sv1 = acceptor sv"
    "map fst (connections sv1) = map fst (connections sv) @ accepted [os]"
    "open_fds (server_kern sv1) = open_fds (server_kern sv) \<union> set (accepted [os])"
    using accept_one [OF Cons.prems(1), of os] Cons.prems(2) by auto
  have "accepted (os # oss) = accepted [os] @ accepted oss" by (simp add: accepted_def)
  with 1 Cons.IH [OF 1(2)] Cons.prems(2) show ?case by auto
qed

lemma server_inv_connections:
  assumes "server_inv n sv" and "map fst (connections sv) = socks"
  shows "connections sv = zip socks (map (robin n) [0..<length socks])"
proof -
  have "length (connections sv) = length socks" using assms(2) by (metis length_map)
  then show ?thesis using assms zip_map_fst_snd [of "connections sv"] by (simp add: server_inv_def)
qed

lemma pool_IsEmpty_new: "pool_IsEmpty (new_ReactorThreadPool n) \<longleftrightarrow> n \<le> 0"
  by (auto simp: pool_IsEmpty_def new_ReactorThreadPool_def Let_def)

lemma pool_ok_empty: "n \<le> 0 \<Longrightarrow> pool_ok n 0 (new_ReactorThreadPool n)"
  by (auto simp: pool_ok_def new_ReactorThreadPool_def Let_def)

lemma pool_Start_new:
  assumes "pool_Start thread_ok (new_ReactorThreadPool n) = (ok, p)"
  shows "(ok \<longleftrightarrow> (\<forall>i \<in> {0..<n}. thread_ok i)) \<and> pool_ok (if ok then n else 0) 0 p"
proof -
  let ?rs = "reactor_pool (new_ReactorThreadPool n)"
  have rs: "?rs = map (\<lambda>i. \<lparr>reactor_id = int i, running = False\<rparr>) [0..<nat n]"
    by (auto simp: new_ReactorThreadPool_def Let_def)
  have "(\<forall>i \<in> {0..<n}. thread_ok i) \<longleftrightarrow> (\<forall>i \<in> int ` {0..<nat n}. thread_ok i)"
    by (cases "0 \<le> n") (auto simp: image_int_atLeastLessThan)
  then have all: "(\<forall>r \<in> set ?rs. thread_ok (reactor_id r)) \<longleftrightarrow> (\<forall>i \<in> {0..<n}. thread_ok i)" by (simp add: rs)
  show ?thesis
  proof (cases "\<forall>r \<in> set ?rs. thread_ok (reactor_id r)")
    case True
    then have "ok \<and> p = (new_ReactorThreadPool n)\<lparr>reactor_pool := map (\<lambda>r. r\<lparr>running := True\<rparr>) ?rs\<rparr>"
      using assms start_loop_True [OF True] by (auto simp: pool_Start_def)
    then show ?thesis using True all by (simp add: pool_ok_def rs new_ReactorThreadPool_def Let_def)
  next
    case False
    obtain rs' where "start_loop thread_ok ?rs = (False, rs')"
      using start_loop_fst [of thread_ok ?rs] False by (metis prod.collapse)
    then have "\<not> ok \<and> reactor_pool p = []" using assms by (auto simp: pool_Start_def pool_Shutdown_def)
    then show ?thesis using False all by (simp add: pool_ok_def)
  qed
qed

text \<open>The three outcomes of Create: no listening socket, threads that do not start, success.\<close>

lemma Server_Create_cases:
  assumes fresh: "fresh_answers os k"
    and create: "Server_Create os watch thread_ok ip port num (new_TCPServer w n k) = Some (ret, sv)"
  shows "connections sv = [] \<and>
    (if acceptor sv = -1 then \<not> ret \<and> open_fds (server_kern sv) = open_fds k
     else acceptor sv = socket_ret os \<and> open_fds (server_kern sv) = insert (socket_ret os) (open_fds k) \<and>
       (ret \<longleftrightarrow> (\<forall>i \<in> {0..<n}. thread_ok i)) \<and> server_inv (if ret then n else 0) sv)"
proof -
  let ?sv0 = "new_TCPServer w n k"
  obtain r s k1 where ls: "CreateTCPListeningSocket os ip port num k = Some (r, s, k1)"
    using create by (auto simp: Server_Create_def Acceptor_Create_def new_TCPServer_def bind_eq_Some_conv)
  let ?sv1 = "?sv0\<lparr>acceptor := s, server_kern := k1\<rparr>"
  have r: "r \<le> 0" using ls
    by (auto simp: CreateTCPListeningSocket_def Let_def bind_eq_Some_conv split: if_splits prod.splits)
  show ?thesis
  proof (cases "r = 0")
    case False
    then have "ret = False \<and> sv = ?sv1" using create ls by (auto simp: Server_Create_def Acceptor_Create_def new_TCPServer_def Let_def)
    then show ?thesis using listening.failed [OF fresh ls] r False by (auto simp: new_TCPServer_def kInvalidSocket_def)
  next
    case True
    let ?sv2 = "?sv1\<lparr>accept_watched := watch, wait_state := WAITING_ACCEPT\<rparr>"
    have s: "s = socket_ret os" "0 \<le> s" "open_fds k1 = insert s (open_fds k)" using listening.made [OF fresh ls] True by auto
    have a: "Acceptor_Create os watch ip port num ?sv0 = Some (True, ?sv2)"
      using ls True s(2) by (simp add: Acceptor_Create_def WatchSocket_def new_TCPServer_def Let_def)
    obtain ok p where p: "pool_Start thread_ok (new_ReactorThreadPool n) = (ok, p)" by fastforce
    have sv: "(ret, sv) = (if n \<le> 0 then (True, ?sv2) else (ok, ?sv2\<lparr>pool := p\<rparr>))"
      using create a p by (simp add: Server_Create_def new_TCPServer_def pool_IsEmpty_new split: if_splits)
    have "server_inv (if ret then n else 0) sv \<and> (ret \<longleftrightarrow> (\<forall>i \<in> {0..<n}. thread_ok i))"
      using sv pool_Start_new [OF p] pool_ok_empty [of n]
      by (auto simp: server_inv_def new_TCPServer_def split: if_splits)
    with sv s show ?thesis by (auto simp: new_TCPServer_def split: if_splits)
  qed
qed

section \<open>Properties\<close>

text \<open>
  C26: the server. When Create succeeds, the listening socket is open and every accepted connection
  is handed out in turn: the i-th to reactor i mod n, or to the loop of the server when it was
  given no reactors; failed accepts change nothing, and the open descriptors are the listening
  socket and the accepted ones. Create fails in two ways: without a listening socket it leaves
  the descriptors as they were, but when a reactor does not start it has already begun to listen
  and goes on accepting, every connection now in the loop of the server.
\<close>

theorem server_round_robin:
  assumes "fresh_answers os k"
    and "Server_Create os watch thread_ok ip port num (new_TCPServer w n k) = Some (ret, sv)"
    and "\<forall>os \<in> set oss. accept_good os"
  shows "if acceptor sv = -1 then \<not> ret \<and> open_fds (server_kern sv) = open_fds k
    else (ret \<longleftrightarrow> (\<forall>i \<in> {0..<n}. thread_ok i)) \<and>
      (\<exists>sv'. accept_all oss sv = Some sv' \<and>
         connections sv' = zip (accepted oss) (map (robin (if ret then n else 0)) [0..<length (accepted oss)]) \<and>
         open_fds (server_kern sv') = insert (socket_ret os) (open_fds k) \<union> set (accepted oss) \<and>
         open_fds (server_kern (Server_destroy sv')) = open_fds (server_kern sv') - {socket_ret os})"
proof -
  note c = Server_Create_cases [OF assms(1,2)]
  show ?thesis
  proof (cases "acceptor sv = -1")
    case False
    note c' = c [unfolded if_not_P [OF False]]
    then have inv: "server_inv (if ret then n else 0) sv" and a: "acceptor sv = socket_ret os" and e: "connections sv = []"
      by blast+
    from accept_all_robin [OF inv assms(3)] server_inv_connections [of "if ret then n else 0"] e
    obtain sv' where "accept_all oss sv = Some sv'" "acceptor sv' = acceptor sv"
      "open_fds (server_kern sv') = open_fds (server_kern sv) \<union> set (accepted oss)"
      "connections sv' = zip (accepted oss) (map (robin (if ret then n else 0)) [0..<length (accepted oss)])"
      by auto
    with False a c show ?thesis by (simp add: Server_destroy_def)
  qed (use c in auto)
qed

theorem server_round_robin_witness:
  "\<exists>sv sv'. Server_Create good_answers True (\<lambda>_. True) [] ''80'' True (new_TCPServer NOT_WAITING 2 idle_kernel) = Some (True, sv) \<and>
     accept_all [good_answers, good_answers\<lparr>accept_ret := -1\<rparr>, good_answers\<lparr>accept_ret := 9\<rparr>, good_answers\<lparr>accept_ret := 10\<rparr>] sv = Some sv' \<and>
     connections sv' = [(8, ReactorLoop 0), (9, ReactorLoop 1), (10, ReactorLoop 0)]"
proof -
  let ?oss = "[good_answers, good_answers\<lparr>accept_ret := -1\<rparr>, good_answers\<lparr>accept_ret := 9\<rparr>, good_answers\<lparr>accept_ret := 10\<rparr>]"
  have 1: "fresh_answers good_answers idle_kernel" by (simp add: fresh_answers_def good_answers_def idle_kernel_def)
  have 2: "\<forall>os \<in> set ?oss. accept_good os" by (simp add: accept_good_def good_answers_def)
  have pool: "reactor_pool (new_ReactorThreadPool 2) = [\<lparr>reactor_id = 0, running = False\<rparr>, \<lparr>reactor_id = 1, running = False\<rparr>]"
    by (simp add: new_ReactorThreadPool_def upt_rec)
  obtain sv where c: "Server_Create good_answers True (\<lambda>_. True) [] ''80'' True (new_TCPServer NOT_WAITING 2 idle_kernel) = Some (True, sv)"
      "acceptor sv = 7"
    by (simp add: Server_Create_def Acceptor_Create_def CreateTCPListeningSocket_def good_answers_def kInvalidSocket_def
        SetDisableNagle_def WatchSocket_def new_TCPServer_def pool_IsEmpty_def pool pool_Start_def Let_def)
  have a: "accepted ?oss = [8, 9, 10]" by (simp add: accepted_def good_answers_def)
  obtain sv' where "accept_all ?oss sv = Some sv'"
      "connections sv' = [(8, robin 2 0), (9, robin 2 1), (10, robin 2 2)]"
    using server_round_robin [OF 1 c(1) 2] c(2) unfolding a by (auto simp: numeral_2_eq_2)
  with c(1) show ?thesis by (auto simp: robin_def)
qed

end
