(* ===== verification/HandlerPosting.thy ===== *)
theory HandlerPosting
  imports IOHandler
begin

text \<open>
  The part of net/engine/io_handler.cc that crosses threads: Create, the overloads of SendData and
  SendStringPiece run their work at once in the loop of the handler and post it as a task to that
  loop from any other thread. A step is a call or an event of the loop; calls of other threads
  interleave with it in any order. The loop runs posted tasks first in, first out.

  The ghost fields record the blocks posted, in the order of the posts, and the blocks handed to
  SendInternal, each with whether it came from another thread, in the order of execution.
  remote_string_, the printed peer address, is not modelled.
\<close>

section \<open>State and operations\<close>

datatype handler_task = TaskOnCreated | TaskSendInternal2 "byte list"

record 's posting_handler =
  base_handler :: "'s io_handler"
  read_waiting :: bool
  posted_tasks :: "handler_task list"
  posted_log :: "byte list list"
  sent_log :: "(bool \<times> byte list) list"

definition new_posting_handler :: "'s \<Rightarrow> 's posting_handler" where
  "new_posting_handler s =
     \<lparr>base_handler = new_IOHandler s, read_waiting = False, posted_tasks = [], posted_log = [], sent_log = []\<rparr>"

text \<open>
  OnCreated starts to watch for reading and asks the delegate, whose answer is given with its new
  state; a refused connection is closed.
\<close>

definition IOHandler_OnCreated :: "('s \<Rightarrow> int \<times> 's) \<Rightarrow> ('s \<Rightarrow> 's) \<Rightarrow> 's posting_handler \<Rightarrow> 's posting_handler" where
  "IOHandler_OnCreated on_new on_closed p =
     (let h = base_handler p; (ret, s) = on_new (dstate h); h1 = h\<lparr>dstate := s\<rparr>
      in p\<lparr>read_waiting := True, base_handler := (if ret \<noteq> 0 then IOHandler_Close on_closed h1 else h1)\<rparr>)"

definition IOHandler_Create :: "bool \<Rightarrow> ('s \<Rightarrow> int \<times> 's) \<Rightarrow> ('s \<Rightarrow> 's) \<Rightarrow> 's posting_handler \<Rightarrow> 's posting_handler" where
  "IOHandler_Create in_loop on_new on_closed p =
     (if in_loop then IOHandler_OnCreated on_new on_closed p
      else p\<lparr>posted_tasks := posted_tasks p @ [TaskOnCreated]\<rparr>)"

definition loop_send ::
  "bool \<Rightarrow> (byte list \<Rightarrow> int) \<Rightarrow> byte list \<Rightarrow> 's posting_handler \<Rightarrow> 's posting_handler option" where
  "loop_send foreign send data p = do {
     h \<leftarrow> SendInternal send data (base_handler p);
     Some (p\<lparr>base_handler := h, sent_log := sent_log p @ [(foreign, data)]\<rparr>)
   }"

definition post_send :: "byte list \<Rightarrow> 's posting_handler \<Rightarrow> 's posting_handler" where
  "post_send data p =
     p\<lparr>posted_tasks := posted_tasks p @ [TaskSendInternal2 data], posted_log := posted_log p @ [data]\<rparr>"

definition SendStringPiece ::
  "bool \<Rightarrow> (byte list \<Rightarrow> int) \<Rightarrow> byte list \<Rightarrow> 's posting_handler \<Rightarrow> 's posting_handler option" where
  "SendStringPiece in_loop send data p = (if in_loop then loop_send False send data p else Some (post_send data p))"

definition SendData_StringPiece ::
  "bool \<Rightarrow> (byte list \<Rightarrow> int) \<Rightarrow> byte list \<Rightarrow> 's posting_handler \<Rightarrow> 's posting_handler option" where
  "SendData_StringPiece in_loop send data p = (if in_loop then loop_send False send data p else Some (post_send data p))"

definition SendData_void ::
  "bool \<Rightarrow> (byte list \<Rightarrow> int) \<Rightarrow> byte list \<Rightarrow> 's posting_handler \<Rightarrow> (bool \<times> 's posting_handler) option" where
  "SendData_void in_loop send data p = do { p' \<leftarrow> SendData_StringPiece in_loop send data p; Some (True, p') }"

text \<open>
  SendStringPiece and these overloads of SendData return true whatever happens; the model gives the
  value only for the entry point of applications, SendData(const void*, uint32).
\<close>

text \<open>The overload for an IOBuffer also returns the caller's buffer: in the loop its bytes are only looked at.\<close>

definition SendData_buffer ::
  "bool \<Rightarrow> (byte list \<Rightarrow> int) \<Rightarrow> IOBuffer \<Rightarrow> 's posting_handler \<Rightarrow> (IOBuffer \<times> 's posting_handler) option" where
  "SendData_buffer in_loop send data p =
     (if in_loop then do { p' \<leftarrow> loop_send False send (content data) p; Some (data, p') }
      else do { (bs, data') \<leftarrow> RetrieveAllAsString data; Some (data', post_send bs p) })"

definition SendInternal2 :: "(byte list \<Rightarrow> int) \<Rightarrow> byte list \<Rightarrow> 's posting_handler \<Rightarrow> 's posting_handler option" where
  "SendInternal2 send data p = loop_send True send data p"

definition run_posted ::
  "(byte list \<Rightarrow> int) \<Rightarrow> ('s \<Rightarrow> int \<times> 's) \<Rightarrow> ('s \<Rightarrow> 's) \<Rightarrow> 's posting_handler \<Rightarrow> 's posting_handler option" where
  "run_posted send on_new on_closed p =
     (case posted_tasks p of
        [] \<Rightarrow> Some p
      | TaskOnCreated # ts \<Rightarrow> Some (IOHandler_OnCreated on_new on_closed (p\<lparr>posted_tasks := ts\<rparr>))
      | TaskSendInternal2 data # ts \<Rightarrow> SendInternal2 send data (p\<lparr>posted_tasks := ts\<rparr>))"

definition Handler_OnFileCanRead ::
  "(nat list \<Rightarrow> int + byte list) \<Rightarrow> ('s \<Rightarrow> IOBuffer \<Rightarrow> (int \<times> 's \<times> IOBuffer) option) \<Rightarrow> ('s \<Rightarrow> 's) \<Rightarrow>
   's posting_handler \<Rightarrow> 's posting_handler option" where
  "Handler_OnFileCanRead readv on_data on_closed p =
     (if read_waiting p then do {
        h \<leftarrow> IOHandler_Read readv on_data on_closed (base_handler p);
        Some (p\<lparr>base_handler := h\<rparr>)
      }
      else Some p)"

definition Handler_OnFileCanWrite :: "(byte list \<Rightarrow> int) \<Rightarrow> 's posting_handler \<Rightarrow> 's posting_handler option" where
  "Handler_OnFileCanWrite send p =
     (if write_waiting (base_handler p) then do { h \<leftarrow> OnWrite send (base_handler p); Some (p\<lparr>base_handler := h\<rparr>) }
      else Some p)"

section \<open>The interleaving as a step relation\<close>

abbreviation block_ok :: "byte list \<Rightarrow> bool" where
  "block_ok data \<equiv> length data < 2 ^ 32 - 1"

inductive post_step :: "'s posting_handler \<Rightarrow> 's posting_handler \<Rightarrow> bool" where
  post_create: "post_step p (IOHandler_Create in_loop on_new on_closed p)"
| post_piece: "send_contract send \<Longrightarrow> block_ok data \<Longrightarrow> SendStringPiece in_loop send data p = Some p' \<Longrightarrow> post_step p p'"
| post_data: "send_contract send \<Longrightarrow> block_ok data \<Longrightarrow> SendData_void in_loop send data p = Some (b, p') \<Longrightarrow> post_step p p'"
| post_buffer: "send_contract send \<Longrightarrow> iob_inv data \<Longrightarrow> block_ok (content data) \<Longrightarrow>
    SendData_buffer in_loop send data p = Some (data', p') \<Longrightarrow> post_step p p'"
| post_run: "send_contract send \<Longrightarrow> run_posted send on_new on_closed p = Some p' \<Longrightarrow> post_step p p'"
| post_read: "Handler_OnFileCanRead readv on_data on_closed p = Some p' \<Longrightarrow> post_step p p'"
| post_write: "send_contract send \<Longrightarrow> Handler_OnFileCanWrite send p = Some p' \<Longrightarrow> post_step p p'"

inductive post_reachable :: "'s posting_handler \<Rightarrow> bool" where
  post_start: "post_reachable (new_posting_handler s)"
| post_next: "post_reachable p \<Longrightarrow> post_step p p' \<Longrightarrow> post_reachable p'"

definition pending_posts :: "handler_task list \<Rightarrow> byte list list" where
  "pending_posts ts = List.map_filter (\<lambda>t. case t of TaskSendInternal2 d \<Rightarrow> Some d | TaskOnCreated \<Rightarrow> None) ts"

definition foreign_sent :: "(bool \<times> byte list) list \<Rightarrow> byte list list" where
  "foreign_sent l = map snd (filter fst l)"

definition post_inv :: "'s posting_handler \<Rightarrow> bool" where
  "post_inv p \<longleftrightarrow> send_inv (base_handler p) \<and> submitted (base_handler p) = concat (map snd (sent_log p)) \<and>
     posted_log p = foreign_sent (sent_log p) @ pending_posts (posted_tasks p) \<and>
     (\<forall>d \<in> set (pending_posts (posted_tasks p)). block_ok d)"

lemma pending_posts_simps [simp]:
  "pending_posts [] = []" "pending_posts (TaskOnCreated # ts) = pending_posts ts"
  "pending_posts (TaskSendInternal2 d # ts) = d # pending_posts ts"
  "pending_posts (ts @ us) = pending_posts ts @ pending_posts us"
  by (simp_all add: pending_posts_def List.map_filter_def)

lemma foreign_sent_simps [simp]:
  "foreign_sent [] = []" "foreign_sent (l @ [(True, d)]) = foreign_sent l @ [d]" "foreign_sent (l @ [(False, d)]) = foreign_sent l"
  by (simp_all add: foreign_sent_def)

lemma SendInternal_submitted: "SendInternal send data h = Some h' \<Longrightarrow> submitted h' = submitted h @ data"
  by (auto simp: SendInternal_def Let_def bind_eq_Some_conv split: if_splits)

lemma OnWrite_submitted: "OnWrite send h = Some h' \<Longrightarrow> submitted h' = submitted h"
  by (auto simp: OnWrite_def Let_def bind_eq_Some_conv split: if_splits)

lemma loop_send_ok:
  assumes "loop_send foreign send data p = Some p'" and "send_inv (base_handler p)" and "send_contract send" and "block_ok data"
    and "submitted (base_handler p) = concat (map snd (sent_log p))"
  shows "send_inv (base_handler p') \<and> submitted (base_handler p') = concat (map snd (sent_log p')) \<and>
    sent_log p' = sent_log p @ [(foreign, data)] \<and> posted_tasks p' = posted_tasks p \<and> posted_log p' = posted_log p"
proof -
  obtain h where h: "SendInternal send data (base_handler p) = Some h"
    and p': "p' = p\<lparr>base_handler := h, sent_log := sent_log p @ [(foreign, data)]\<rparr>"
    using assms(1) by (auto simp: loop_send_def bind_eq_Some_conv)
  show ?thesis
    using send_step_inv [OF assms(2,3,4) h] SendInternal_submitted [OF h] assms(5) by (simp add: p')
qed

lemma loop_send_inv:
  assumes "loop_send False send data p = Some p'" and "post_inv p" and "send_contract send" and "block_ok data"
  shows "post_inv p'"
  using loop_send_ok [OF assms(1) _ assms(3,4)] assms(2) by (auto simp: post_inv_def)

lemma post_send_inv: "post_inv p \<Longrightarrow> block_ok data \<Longrightarrow> post_inv (post_send data p)"
  by (auto simp: post_inv_def post_send_def)

lemma OnCreated_inv: "post_inv p \<Longrightarrow> post_inv (IOHandler_OnCreated on_new on_closed p)"
  by (simp add: post_inv_def IOHandler_OnCreated_def IOHandler_Close_def send_inv_def Let_def case_prod_beta)

lemma Create_inv: "post_inv p \<Longrightarrow> post_inv (IOHandler_Create in_loop on_new on_closed p)"
  using OnCreated_inv by (auto simp: IOHandler_Create_def post_inv_def)

lemma run_posted_inv:
  assumes "run_posted send on_new on_closed p = Some p'" and "post_inv p" and "send_contract send"
  shows "post_inv p'"
proof (cases "posted_tasks p")
  case Nil
  then show ?thesis using assms by (simp add: run_posted_def)
next
  case (Cons t ts)
  let ?p = "p\<lparr>posted_tasks := ts\<rparr>"
  show ?thesis
  proof (cases t)
    case TaskOnCreated
    then have "post_inv ?p" using assms(2) Cons by (simp add: post_inv_def)
    with assms(1) Cons TaskOnCreated show ?thesis by (auto simp: run_posted_def intro: OnCreated_inv)
  next
    case (TaskSendInternal2 d)
    then have r: "loop_send True send d ?p = Some p'" and d: "block_ok d"
      using assms Cons by (auto simp: run_posted_def SendInternal2_def post_inv_def)
    have "send_inv (base_handler ?p)" "submitted (base_handler ?p) = concat (map snd (sent_log ?p))"
      using assms(2) by (simp_all add: post_inv_def)
    from loop_send_ok [OF r this(1) assms(3) d this(2)] assms(2) Cons TaskSendInternal2 show ?thesis
      by (auto simp: post_inv_def)
  qed
qed

lemma SendData_buffer_inv:
  assumes "SendData_buffer in_loop send data p = Some (data', p')" and "post_inv p" and "send_contract send"
    and "iob_inv data" and "block_ok (content data)"
  shows "post_inv p'"
proof (cases in_loop)
  case True
  then show ?thesis
    using assms loop_send_inv by (auto simp: SendData_buffer_def bind_eq_Some_conv)
next
  case False
  then obtain bs where "RetrieveAllAsString data = Some (bs, data')" "p' = post_send bs p"
    using assms(1) by (auto simp: SendData_buffer_def bind_eq_Some_conv)
  then show ?thesis
    using assms post_send_inv [of p bs] by (auto simp: RetrieveAllAsString_def RetrieveAsString_def ReadableBytes_content bind_eq_Some_conv)
qed

lemma post_step_inv:
  assumes "post_step p p'" and inv: "post_inv p"
  shows "post_inv p'"
  using assms(1)
proof cases
  case (post_create in_loop on_new on_closed)
  with inv show ?thesis by (simp add: Create_inv)
next
  case (post_piece send data in_loop)
  with inv show ?thesis by (cases in_loop) (auto simp: SendStringPiece_def intro: loop_send_inv post_send_inv)
next
  case (post_data send data in_loop b)
  with inv show ?thesis
    by (cases in_loop) (auto simp: SendData_void_def SendData_StringPiece_def bind_eq_Some_conv intro: loop_send_inv post_send_inv)
next
  case (post_buffer send data in_loop data')
  with inv show ?thesis using SendData_buffer_inv by blast
next
  case (post_run send on_new on_closed)
  with inv show ?thesis using run_posted_inv by blast
next
  case (post_read readv on_data on_closed)
  then show ?thesis using inv
    by (auto simp: Handler_OnFileCanRead_def bind_eq_Some_conv post_inv_def send_inv_def Read_keeps_send_side split: if_splits)
next
  case (post_write send)
  then show ?thesis using inv
    by (auto simp: Handler_OnFileCanWrite_def bind_eq_Some_conv post_inv_def OnWrite_submitted intro: OnWrite_inv split: if_splits)
qed

lemma post_reachable_inv: "post_reachable p \<Longrightarrow> post_inv p"
proof (induction rule: post_reachable.induct)
  case (post_start s)
  show ?case by (simp add: post_inv_def new_posting_handler_def new_IOHandler_def send_inv_def)
next
  case (post_next p p')
  then show ?case by (auto intro: post_step_inv)
qed

section \<open>Properties\<close>



end
