(* ===== verification/MessageLoop.thy ===== *)
theory MessageLoop
  imports Prelude "HOL-Library.Multiset"
begin

text \<open>
  The message loop of a reactor thread: base/message_loop/message_loop.cc with
  incoming_task_queue.cc, base/pending_task.cc, base/run_loop.cc and the pump of the network engine,
  net/message_loop/message_pump_libevent2.cc. Any thread may post tasks; the loop's own thread moves
  them from the incoming queue to the work queue, keeps delayed tasks in a priority queue, defers
  non-nestable tasks while a nested loop runs, and sleeps in libevent when there is nothing to do,
  from where a byte in a pipe wakes it.

  The member functions are definitions over one state. The loops of the pump, of tasks and of nested
  runs are a step relation: a program counter for each run of the pump, innermost first, and steps
  of other threads (posting) and of the clock between any two of its own.

  A task is a closure with what the loop needs to know of it. Times are numbers of ticks, the null
  time is 0. The histogram, the observers and the tracing of tasks are not modelled.
\<close>

section \<open>Tasks\<close>

record 'c task =
  closure :: 'c
  delayed_run_time :: nat
  sequence_num :: uint32
  nestable :: bool

text \<open>PendingTask::operator<: later times are less, then later sequence numbers, by their difference as an int.\<close>

definition task_less :: "'c task \<Rightarrow> 'c task \<Rightarrow> bool" where
  "task_less a b =
     (if delayed_run_time a < delayed_run_time b then False
      else if delayed_run_time b < delayed_run_time a then True
      else 0 < sint (sequence_num a - sequence_num b))"

text \<open>
  A std::priority_queue as the list of its elements; its top is an element that is less than no
  other.
\<close>

definition delayed_top :: "'c task list \<Rightarrow> 'c task" where
  "delayed_top q = foldl (\<lambda>best t. if task_less best t then t else best) (hd q) (tl q)"

definition delayed_pop :: "'c task list \<Rightarrow> 'c task list" where
  "delayed_pop q = remove1 (delayed_top q) q"

section \<open>State\<close>

text \<open>
  Where a run of the pump is. The flag of the places after a call is did_work; the second one of a
  pass of libevent over its events says whether the wakeup event is still to be processed. InTask
  holds the place the pump goes to once the task it runs has returned.
\<close>

datatype pump_place =
    AtDoWork
  | InDoWork
  | InTask pump_place
  | AfterDoWork bool
  | Polling bool bool
  | InPollCallback bool bool
  | AfterPoll bool
  | AfterDelayed bool
  | AfterIdle bool
  | Blocked "nat option"
  | Waking bool
  | InWakeCallback bool

text \<open>A run: its place, the RunLoop's flags and the value of keep_running_ it restores when it ends.\<close>

record run_frame =
  place :: pump_place
  quit_when_idle_received :: bool
  quit_called :: bool
  saved_keep_running :: bool

text \<open>
  The members of the loop, its incoming queue and its pump; the clock; the runs. The ghost fields
  are the tasks posted, in the order of the posts, and the tasks run, with the depth of the run and
  the time.
\<close>

record 'c message_loop =
  incoming_queue :: "'c task list"
  next_sequence_num :: uint32
  work_queue :: "'c task list"
  delayed_work_queue :: "'c task list"
  deferred_queue :: "'c task list"
  nestable_tasks_allowed :: bool
  recent_time :: nat
  delayed_work_time :: nat
  keep_running :: bool
  processed_io_events :: bool
  wakeup_pipe :: nat
  now :: nat
  frames :: "run_frame list"
  loop_gone :: bool
  posted :: "'c task list"
  ran :: "('c task \<times> nat \<times> nat) list"

definition new_MessageLoop :: "'c message_loop" where
  "new_MessageLoop =
     \<lparr>incoming_queue = [], next_sequence_num = 0, work_queue = [], delayed_work_queue = [], deferred_queue = [],
      nestable_tasks_allowed = True, recent_time = 0, delayed_work_time = 0, keep_running = True,
      processed_io_events = False, wakeup_pipe = 0, now = 1, frames = [], loop_gone = False, posted = [], ran = []\<rparr>"

definition run_depth :: "'c message_loop \<Rightarrow> nat" where
  "run_depth m = length (frames m)"

section \<open>Posting\<close>

text \<open>
  The pump's ScheduleWork writes a byte to the pipe; if the pipe is full the write fails with EAGAIN,
  which is as good. The capacity of the pipe is the kernel's.
\<close>

definition pipe_capacity :: nat where "pipe_capacity = 65536"

definition pump_ScheduleWork :: "'c message_loop \<Rightarrow> 'c message_loop" where
  "pump_ScheduleWork m = (if wakeup_pipe m < pipe_capacity then m\<lparr>wakeup_pipe := wakeup_pipe m + 1\<rparr> else m)"

definition AlwaysNotifyPump :: bool where "AlwaysNotifyPump = False"

definition ScheduleWork :: "bool \<Rightarrow> 'c message_loop \<Rightarrow> 'c message_loop" where
  "ScheduleWork was_empty m = (if was_empty \<or> AlwaysNotifyPump then pump_ScheduleWork m else m)"

text \<open>The delay in microseconds; a negative one of a millisecond or more is a failed DCHECK.\<close>

definition CalculateDelayedRuntime :: "int \<Rightarrow> 'c message_loop \<Rightarrow> nat option" where
  "CalculateDelayedRuntime delay m =
     (if 0 < delay then Some (now m + nat delay) else do { dcheck (- 1000 < delay); Some 0 })"

text \<open>The tasks are the incoming queue's until it is told that the loop is being destroyed.\<close>

definition enqueue_task :: "'c task \<Rightarrow> 'c message_loop \<Rightarrow> 'c message_loop" where
  "enqueue_task t m =
     (let t1 = t\<lparr>sequence_num := next_sequence_num m\<rparr>;
          was_empty = (incoming_queue m = [])
      in ScheduleWork was_empty
           (m\<lparr>next_sequence_num := next_sequence_num m + 1, incoming_queue := incoming_queue m @ [t1], posted := posted m @ [t1]\<rparr>))"

definition PostPendingTask :: "'c task \<Rightarrow> 'c message_loop \<Rightarrow> bool \<times> 'c message_loop" where
  "PostPendingTask t m = (if loop_gone m then (False, m) else (True, enqueue_task t m))"

definition AddToIncomingQueue :: "'c \<Rightarrow> int \<Rightarrow> bool \<Rightarrow> 'c message_loop \<Rightarrow> (bool \<times> 'c message_loop) option" where
  "AddToIncomingQueue c delay nest m = do {
     rt \<leftarrow> CalculateDelayedRuntime delay m;
     Some (PostPendingTask \<lparr>closure = c, delayed_run_time = rt, sequence_num = 0, nestable = nest\<rparr> m)
   }"

definition WillDestroyCurrentMessageLoop :: "'c message_loop \<Rightarrow> 'c message_loop" where
  "WillDestroyCurrentMessageLoop m = m\<lparr>loop_gone := True\<rparr>"

text \<open>The loop's own functions for posting ignore whether the task was accepted.\<close>

definition PostTask :: "'c \<Rightarrow> 'c message_loop \<Rightarrow> 'c message_loop option" where
  "PostTask c m = map_option snd (AddToIncomingQueue c 0 True m)"
definition PostDelayedTask :: "'c \<Rightarrow> int \<Rightarrow> 'c message_loop \<Rightarrow> 'c message_loop option" where
  "PostDelayedTask c delay m = map_option snd (AddToIncomingQueue c delay True m)"
definition PostNonNestableTask :: "'c \<Rightarrow> 'c message_loop \<Rightarrow> 'c message_loop option" where
  "PostNonNestableTask c m = map_option snd (AddToIncomingQueue c 0 False m)"
definition PostNonNestableDelayedTask :: "'c \<Rightarrow> int \<Rightarrow> 'c message_loop \<Rightarrow> 'c message_loop option" where
  "PostNonNestableDelayedTask c delay m = map_option snd (AddToIncomingQueue c delay False m)"

section \<open>Working\<close>

text \<open>IncomingTaskQueue::ReloadWorkQueue swaps the queues; the loop calls it with an empty work queue.\<close>

definition ReloadWorkQueue :: "'c message_loop \<Rightarrow> 'c message_loop" where
  "ReloadWorkQueue m =
     (if work_queue m = [] then
        (if incoming_queue m \<noteq> [] then m\<lparr>work_queue := incoming_queue m, incoming_queue := work_queue m\<rparr> else m)
      else m)"

text \<open>RunTask up to the call of the closure: the task runs from here on, with nested tasks disallowed.\<close>

definition RunTask :: "'c task \<Rightarrow> 'c message_loop \<Rightarrow> 'c message_loop option" where
  "RunTask t m = do {
     dcheck (nestable_tasks_allowed m);
     Some (m\<lparr>nestable_tasks_allowed := False, ran := ran m @ [(t, run_depth m, now m)]\<rparr>)
   }"

text \<open>The functions that may run a task return whether they have started one.\<close>

definition DeferOrRunPendingTask :: "'c task \<Rightarrow> 'c message_loop \<Rightarrow> (bool \<times> 'c message_loop) option" where
  "DeferOrRunPendingTask t m =
     (if nestable t \<or> run_depth m = 1 then do { m1 \<leftarrow> RunTask t m; Some (True, m1) }
      else Some (False, m\<lparr>deferred_queue := deferred_queue m @ [t]\<rparr>))"

definition AddToDelayedWorkQueue :: "'c task \<Rightarrow> 'c message_loop \<Rightarrow> 'c message_loop" where
  "AddToDelayedWorkQueue t m = m\<lparr>delayed_work_queue := delayed_work_queue m @ [t]\<rparr>"

text \<open>The inner loop of DoWork, over the work queue.\<close>

fun work_loop :: "'c task list \<Rightarrow> 'c message_loop \<Rightarrow> (bool \<times> 'c message_loop) option" where
  "work_loop [] m = Some (False, m\<lparr>work_queue := []\<rparr>)"
| "work_loop (t # q) m =
     (let m1 = m\<lparr>work_queue := q\<rparr>
      in if delayed_run_time t \<noteq> 0 then
           (let m2 = AddToDelayedWorkQueue t m1
            in work_loop q
                 (if closure (delayed_top (delayed_work_queue m2)) = closure t
                  then m2\<lparr>delayed_work_time := delayed_run_time t\<rparr> else m2))
         else do {
           (started, m2) \<leftarrow> DeferOrRunPendingTask t m1;
           (if started then Some (True, m2) else work_loop q m2)
         })"

text \<open>
  One round of the outer loop of DoWork: it reloads, and either the queue stays empty and DoWork
  returns false (the first component), or a task is started (the second), or there is another round.
\<close>

definition DoWork_round :: "'c message_loop \<Rightarrow> (bool \<times> bool \<times> 'c message_loop) option" where
  "DoWork_round m =
     (let m1 = ReloadWorkQueue m
      in if work_queue m1 = [] then Some (True, False, m1)
         else do { (started, m2) \<leftarrow> work_loop (work_queue m1) m1; Some (False, started, m2) })"

definition DoDelayedWork :: "'c message_loop \<Rightarrow> (bool \<times> 'c message_loop) option" where
  "DoDelayedWork m =
     (if \<not> nestable_tasks_allowed m \<or> delayed_work_queue m = [] then
        Some (False, m\<lparr>recent_time := 0, delayed_work_time := 0\<rparr>)
      else
        let t = delayed_top (delayed_work_queue m);
            next_run_time = delayed_run_time t;
            m1 = (if recent_time m < next_run_time then m\<lparr>recent_time := now m\<rparr> else m)
        in if recent_time m < next_run_time \<and> recent_time m1 < next_run_time
           then Some (False, m1\<lparr>delayed_work_time := next_run_time\<rparr>)
           else
             let q = delayed_pop (delayed_work_queue m);
                 m2 = m1\<lparr>delayed_work_queue := q\<rparr>;
                 m3 = (if q \<noteq> [] then m2\<lparr>delayed_work_time := delayed_run_time (delayed_top q)\<rparr> else m2)
             in DeferOrRunPendingTask t m3)"

text \<open>Quit of the pump, called from within a run.\<close>

definition pump_Quit :: "'c message_loop \<Rightarrow> 'c message_loop" where
  "pump_Quit m = pump_ScheduleWork (m\<lparr>keep_running := False\<rparr>)"

definition ProcessNextDelayedNonNestableTask :: "'c message_loop \<Rightarrow> (bool \<times> 'c message_loop) option" where
  "ProcessNextDelayedNonNestableTask m =
     (if run_depth m \<noteq> 1 then Some (False, m)
      else case deferred_queue m of
          [] \<Rightarrow> Some (False, m)
        | t # q \<Rightarrow> do { m1 \<leftarrow> RunTask t (m\<lparr>deferred_queue := q\<rparr>); Some (True, m1) })"

definition DoIdleWork :: "'c message_loop \<Rightarrow> (bool \<times> 'c message_loop) option" where
  "DoIdleWork m = do {
     (started, m1) \<leftarrow> ProcessNextDelayedNonNestableTask m;
     (if started then Some (True, m1)
      else Some (False,
        (case frames m1 of [] \<Rightarrow> m1 | f # _ \<Rightarrow> if quit_when_idle_received f then pump_Quit m1 else m1)))
   }"

section \<open>Runs\<close>

text \<open>
  RunLoop::Run of an object whose Quit has not been called: BeforeRun pushes it, the pump's Run saves
  keep_running_. finish_run is the way out of Run: keep_running_ is restored, AfterRun pops the run
  and executes a Quit the next one has received meanwhile.
\<close>

definition RunLoop_Run :: "bool \<Rightarrow> 'c message_loop \<Rightarrow> 'c message_loop" where
  "RunLoop_Run when_idle m =
     m\<lparr>frames := \<lparr>place = AtDoWork, quit_when_idle_received = when_idle, quit_called = False, saved_keep_running = keep_running m\<rparr> # frames m,
       keep_running := True\<rparr>"

definition finish_run :: "'c message_loop \<Rightarrow> 'c message_loop" where
  "finish_run m =
     (case frames m of
        [] \<Rightarrow> m
      | f # fs \<Rightarrow>
          let m1 = m\<lparr>keep_running := saved_keep_running f, frames := fs\<rparr>
          in (case fs of [] \<Rightarrow> m1 | g # _ \<Rightarrow> if quit_called g then pump_Quit m1 else m1))"

definition goto :: "pump_place \<Rightarrow> 'c message_loop \<Rightarrow> 'c message_loop" where
  "goto p m = (case frames m of [] \<Rightarrow> m | f # fs \<Rightarrow> m\<lparr>frames := f\<lparr>place := p\<rparr> # fs\<rparr>)"

definition place_of :: "'c message_loop \<Rightarrow> pump_place option" where
  "place_of m = (case frames m of [] \<Rightarrow> None | f # _ \<Rightarrow> Some (place f))"

text \<open>What the application may call from a task or a watcher, besides posting.\<close>

text \<open>RunLoop::Quit of the run at a depth, the innermost being 0.\<close>

definition RunLoop_Quit :: "nat \<Rightarrow> 'c message_loop \<Rightarrow> 'c message_loop" where
  "RunLoop_Quit i m =
     (let m1 = m\<lparr>frames := (frames m)[i := (frames m ! i)\<lparr>quit_called := True\<rparr>]\<rparr>
      in if i = 0 then pump_Quit m1 else m1)"

definition QuitWhenIdle :: "'c message_loop \<Rightarrow> 'c message_loop" where
  "QuitWhenIdle m = (case frames m of [] \<Rightarrow> m | f # fs \<Rightarrow> m\<lparr>frames := f\<lparr>quit_when_idle_received := True\<rparr> # fs\<rparr>)"

definition QuitNow :: "'c message_loop \<Rightarrow> 'c message_loop" where
  "QuitNow m = (if frames m \<noteq> [] then pump_Quit m else m)"

definition SetNestableTasksAllowed :: "bool \<Rightarrow> 'c message_loop \<Rightarrow> 'c message_loop" where
  "SetNestableTasksAllowed allow m = (if allow then pump_ScheduleWork m else m)\<lparr>nestable_tasks_allowed := allow\<rparr>"

text \<open>The end of RunTask, once the closure has returned.\<close>

definition task_returned :: "pump_place \<Rightarrow> 'c message_loop \<Rightarrow> 'c message_loop" where
  "task_returned p m = goto p (m\<lparr>nestable_tasks_allowed := True\<rparr>)"

text \<open>
  The pump's own steps between its calls of libevent: a call of the delegate that starts a task goes
  on to the place InTask, and from there to the place with did_work set.
\<close>

definition sleep_place :: "'c message_loop \<Rightarrow> 'c message_loop" where
  "sleep_place m =
     (if delayed_work_time m = 0 then goto (Blocked None) m
      else if now m < delayed_work_time m then goto (Blocked (Some (delayed_work_time m))) m
      else goto AtDoWork (m\<lparr>delayed_work_time := 0\<rparr>))"

definition pump_at :: "pump_place \<Rightarrow> 'c message_loop \<Rightarrow> 'c message_loop option" where
  "pump_at p m =
     (case p of
        AtDoWork \<Rightarrow> Some (if \<not> nestable_tasks_allowed m then goto (AfterDoWork False) m else goto InDoWork m)
      | InDoWork \<Rightarrow> do {
          (over, started, m1) \<leftarrow> DoWork_round m;
          Some (if over then goto (AfterDoWork False) m1
                else if started then goto (InTask (AfterDoWork True)) m1 else m1)
        }
      | AfterDoWork d \<Rightarrow> Some (if \<not> keep_running m then finish_run m else goto (Polling d (0 < wakeup_pipe m)) m)
      | AfterPoll d \<Rightarrow>
          if \<not> keep_running m then Some (finish_run m)
          else do {
            (started, m1) \<leftarrow> DoDelayedWork m;
            Some (if started then goto (InTask (AfterDelayed True)) m1 else goto (AfterDelayed d) m1)
          }
      | AfterDelayed d \<Rightarrow>
          if \<not> keep_running m then Some (finish_run m)
          else if d then Some (goto AtDoWork m)
          else do {
            (started, m1) \<leftarrow> DoIdleWork m;
            Some (if started then goto (InTask (AfterIdle True)) m1 else goto (AfterIdle False) m1)
          }
      | AfterIdle d \<Rightarrow>
          Some (if \<not> keep_running m then finish_run m else if d then goto AtDoWork m else sleep_place m)
      | _ \<Rightarrow> None)"

text \<open>
  libevent's passes over the events. A watcher's callback is preceded by setting
  processed_io_events_; OnWakeup reads one byte, sets the same flag and breaks the pass.
\<close>

definition poll_over :: "bool \<Rightarrow> 'c message_loop \<Rightarrow> 'c message_loop" where
  "poll_over d m = goto (AfterPoll (d \<or> processed_io_events m)) (m\<lparr>processed_io_events := False\<rparr>)"

definition OnWakeup :: "'c message_loop \<Rightarrow> 'c message_loop option" where
  "OnWakeup m = do { dcheck (0 < wakeup_pipe m); Some (m\<lparr>wakeup_pipe := wakeup_pipe m - 1, processed_io_events := True\<rparr>) }"

definition in_application :: "'c message_loop \<Rightarrow> bool" where
  "in_application m =
     (case place_of m of
        Some p \<Rightarrow> (case p of InTask _ \<Rightarrow> True | InPollCallback _ _ \<Rightarrow> True | InWakeCallback _ \<Rightarrow> True | _ \<Rightarrow> False)
      | None \<Rightarrow> False)"

section \<open>The step relation\<close>

text \<open>
  The first argument says whether tasks may run the loop again. Runs nested in a watcher's callback
  are left out: libevent would then be reentered.
\<close>

inductive loop_step :: "bool \<Rightarrow> 'c message_loop \<Rightarrow> 'c message_loop \<Rightarrow> bool" for nesting where
  post: "AddToIncomingQueue c delay nest m = Some (accepted, m') \<Longrightarrow> loop_step nesting m m'"
| clock: "now m \<le> n \<Longrightarrow> loop_step nesting m (m\<lparr>now := n\<rparr>)"
| run: "frames m = [] \<Longrightarrow> loop_step nesting m (RunLoop_Run when_idle m)"
| nested_run: "nesting \<Longrightarrow> place_of m = Some (InTask p) \<Longrightarrow> loop_step nesting m (RunLoop_Run when_idle m)"
| quit: "in_application m \<Longrightarrow> i < length (frames m) \<Longrightarrow> loop_step nesting m (RunLoop_Quit i m)"
| quit_now: "in_application m \<Longrightarrow> loop_step nesting m (QuitNow m)"
| quit_idle: "in_application m \<Longrightarrow> loop_step nesting m (QuitWhenIdle m)"
| allow: "place_of m = Some (InTask p) \<Longrightarrow> loop_step nesting m (SetNestableTasksAllowed b m)"
| task_return: "place_of m = Some (InTask p) \<Longrightarrow> loop_step nesting m (task_returned p m)"
| own: "place_of m = Some p \<Longrightarrow> pump_at p m = Some m' \<Longrightarrow> loop_step nesting m m'"
| poll_event: "place_of m = Some (Polling d w) \<Longrightarrow> loop_step nesting m (goto (InPollCallback d w) (m\<lparr>processed_io_events := True\<rparr>))"
| poll_return: "place_of m = Some (InPollCallback d w) \<Longrightarrow> loop_step nesting m (goto (Polling d w) m)"
| poll_wakeup: "place_of m = Some (Polling d True) \<Longrightarrow> OnWakeup m = Some m' \<Longrightarrow> loop_step nesting m (poll_over d m')"
| poll_end: "place_of m = Some (Polling d False) \<Longrightarrow> loop_step nesting m (poll_over d m)"
| wake_pipe: "place_of m = Some (Blocked tmo) \<Longrightarrow> 0 < wakeup_pipe m \<Longrightarrow> loop_step nesting m (goto (Waking True) m)"
| wake_event: "place_of m = Some (Blocked tmo) \<Longrightarrow>
    loop_step nesting m (goto (InWakeCallback (0 < wakeup_pipe m)) (m\<lparr>processed_io_events := True\<rparr>))"
| wake_timer: "place_of m = Some (Blocked (Some tm)) \<Longrightarrow> tm \<le> now m \<Longrightarrow> loop_step nesting m (goto AtDoWork m)"
| waking_event: "place_of m = Some (Waking w) \<Longrightarrow> loop_step nesting m (goto (InWakeCallback w) (m\<lparr>processed_io_events := True\<rparr>))"
| waking_return: "place_of m = Some (InWakeCallback w) \<Longrightarrow> loop_step nesting m (goto (Waking w) m)"
| waking_wakeup: "place_of m = Some (Waking True) \<Longrightarrow> OnWakeup m = Some m' \<Longrightarrow> loop_step nesting m (goto AtDoWork m')"
| waking_end: "place_of m = Some (Waking False) \<Longrightarrow> loop_step nesting m (goto AtDoWork m)"

inductive loop_reachable :: "bool \<Rightarrow> 'c message_loop \<Rightarrow> bool" for nesting where
  start: "loop_reachable nesting new_MessageLoop"
| more: "loop_reachable nesting m \<Longrightarrow> loop_step nesting m m' \<Longrightarrow> loop_reachable nesting m'"

section \<open>What the operations leave alone\<close>

text \<open>The queues with the clock and the logs, which most operations do not touch.\<close>

definition core :: "'c message_loop \<Rightarrow> 'c task list \<times> 'c task list \<times> 'c task list \<times> 'c task list \<times> nat \<times> nat \<times> 'c task list \<times> ('c task \<times> nat \<times> nat) list" where
  "core m = (incoming_queue m, work_queue m, delayed_work_queue m, deferred_queue m, recent_time m, now m, posted m, ran m)"

lemma core_simps [simp]:
  "core (goto p m) = core m" "core (pump_ScheduleWork m) = core m" "core (pump_Quit m) = core m"
  "core (RunLoop_Run b m) = core m" "core (finish_run m) = core m" "core (RunLoop_Quit i m) = core m"
  "core (QuitWhenIdle m) = core m" "core (QuitNow m) = core m" "core (SetNestableTasksAllowed b m) = core m"
  "core (task_returned p m) = core m" "core (sleep_place m) = core m" "core (poll_over d m) = core m"
  "core (m\<lparr>processed_io_events := x\<rparr>) = core m" "core (m\<lparr>nestable_tasks_allowed := x\<rparr>) = core m"
  "core (m\<lparr>delayed_work_time := y\<rparr>) = core m" "core (m\<lparr>keep_running := x\<rparr>) = core m" "core (m\<lparr>wakeup_pipe := y\<rparr>) = core m"
  "core (m\<lparr>frames := fs\<rparr>) = core m"
proof -
  show g: "core (goto p m) = core m" for p and m :: "'c message_loop" by (simp add: core_def goto_def split: list.splits)
  show w: "core (pump_ScheduleWork m) = core m" for m :: "'c message_loop" by (simp add: core_def pump_ScheduleWork_def)
  show q: "core (pump_Quit m) = core m" for m :: "'c message_loop" by (simp add: pump_Quit_def w) (simp add: core_def)
  show "core (finish_run m) = core m" "core (RunLoop_Quit i m) = core m" "core (QuitNow m) = core m"
    by (auto simp: finish_run_def RunLoop_Quit_def QuitNow_def q Let_def split: list.splits) (auto simp: core_def)
  show "core (SetNestableTasksAllowed b m) = core m" using w [of m] by (auto simp: SetNestableTasksAllowed_def core_def)
  show "core (task_returned p m) = core m" "core (poll_over d m) = core m" "core (sleep_place m) = core m"
    by (auto simp: task_returned_def poll_over_def sleep_place_def g) (auto simp: core_def)
qed (auto simp: core_def RunLoop_Run_def QuitWhenIdle_def split: list.splits)

lemma OnWakeup_core: "OnWakeup m = Some m' \<Longrightarrow> core m' = core m"
  by (auto simp: OnWakeup_def core_def)

section \<open>Every task is somewhere\<close>

text \<open>
  The accounting of tasks, with the tasks in hand between two queues: every task posted has been run
  or is in exactly one queue. Immediate tasks are run in the order of their posts; when loops nest
  this holds for the nestable ones, the others may be deferred.
\<close>

definition immediate :: "bool \<Rightarrow> 'c task \<Rightarrow> bool" where
  "immediate nesting t \<longleftrightarrow> delayed_run_time t = 0 \<and> (nestable t \<or> \<not> nesting)"

definition tasks_inv :: "bool \<Rightarrow> 'c task list \<Rightarrow> 'c message_loop \<Rightarrow> bool" where
  "tasks_inv nesting hand m \<longleftrightarrow>
     mset (posted m) = mset (map fst (ran m)) + mset hand + mset (deferred_queue m) + mset (delayed_work_queue m) +
       mset (work_queue m) + mset (incoming_queue m) \<and>
     filter (immediate nesting) (posted m) = filter (immediate nesting) (map fst (ran m)) @ filter (immediate nesting) hand @
       filter (immediate nesting) (work_queue m) @ filter (immediate nesting) (incoming_queue m) \<and>
     (\<forall>t \<in> set (delayed_work_queue m). 0 < delayed_run_time t) \<and>
     (\<forall>t \<in> set (deferred_queue m). \<not> nestable t \<and> delayed_run_time t \<le> now m) \<and> (\<not> nesting \<longrightarrow> deferred_queue m = []) \<and>
     recent_time m \<le> now m \<and>
     (\<forall>(t, d, tm) \<in> set (ran m). (nestable t \<or> d = 1) \<and> delayed_run_time t \<le> tm \<and> tm \<le> now m)"

lemma tasks_inv_core: "core m' = core m \<Longrightarrow> tasks_inv n h m' = tasks_inv n h m"
  by (simp add: core_def tasks_inv_def)

lemma RunTask_inv:
  assumes "tasks_inv n [t] m" "delayed_run_time t \<le> now m" "nestable t \<or> run_depth m = 1" "RunTask t m = Some m'"
  shows "tasks_inv n [] m'"
  using assms by (auto simp: RunTask_def tasks_inv_def)

lemma DeferOrRun_inv:
  assumes inv: "tasks_inv n [t] m" and t: "delayed_run_time t \<le> now m" and d: "\<not> n \<longrightarrow> run_depth m = 1"
    and r: "DeferOrRunPendingTask t m = Some (b, m')"
  shows "tasks_inv n [] m'"
proof (cases "nestable t \<or> run_depth m = 1")
  case True
  then show ?thesis using r RunTask_inv [OF inv t True] by (auto simp: DeferOrRunPendingTask_def bind_eq_Some_conv)
next
  case False
  then have "\<not> immediate n t" "n" using d by (auto simp: immediate_def)
  then show ?thesis using False r inv t by (auto simp: DeferOrRunPendingTask_def tasks_inv_def)
qed

lemma take_work: "tasks_inv n [] (m\<lparr>work_queue := t # q\<rparr>) \<Longrightarrow> tasks_inv n [t] (m\<lparr>work_queue := q\<rparr>)"
  by (auto simp: tasks_inv_def)

lemma AddToDelayed_inv: "tasks_inv n [t] m \<Longrightarrow> delayed_run_time t \<noteq> 0 \<Longrightarrow> tasks_inv n [] (AddToDelayedWorkQueue t m)"
  by (auto simp: tasks_inv_def AddToDelayedWorkQueue_def immediate_def)

lemma take_delayed:
  assumes "tasks_inv n [] m" "t \<in> set (delayed_work_queue m)"
  shows "tasks_inv n [t] (m\<lparr>delayed_work_queue := remove1 t (delayed_work_queue m)\<rparr>)"
proof -
  have "mset (delayed_work_queue m) = add_mset t (mset (remove1 t (delayed_work_queue m)))"
    using assms(2) by simp
  moreover have "\<not> immediate n t" using assms by (auto simp: tasks_inv_def immediate_def)
  moreover have "\<forall>u \<in> set (remove1 t (delayed_work_queue m)). 0 < delayed_run_time u"
    using assms(1) set_remove1_subset [of t "delayed_work_queue m"] unfolding tasks_inv_def by blast
  ultimately show ?thesis using assms(1) unfolding tasks_inv_def by (simp add: union_ac)
qed

lemma take_deferred:
  assumes "tasks_inv n [] m" "deferred_queue m = t # q"
  shows "tasks_inv n [t] (m\<lparr>deferred_queue := q\<rparr>)" "delayed_run_time t \<le> now m"
  using assms by (auto simp: tasks_inv_def immediate_def)

lemma ReloadWorkQueue_inv: "tasks_inv n [] m \<Longrightarrow> tasks_inv n [] (ReloadWorkQueue m)"
  by (auto simp: tasks_inv_def ReloadWorkQueue_def)

lemma frames_kept:
  "frames (ReloadWorkQueue m) = frames m" "frames (AddToDelayedWorkQueue t m) = frames m"
  "RunTask t m = Some m' \<Longrightarrow> frames m' = frames m"
  "DeferOrRunPendingTask t m = Some (b, m') \<Longrightarrow> frames m' = frames m"
  by (auto simp: ReloadWorkQueue_def AddToDelayedWorkQueue_def RunTask_def DeferOrRunPendingTask_def split: if_splits)

lemma work_loop_inv:
  "tasks_inv n [] (m\<lparr>work_queue := q\<rparr>) \<Longrightarrow> \<not> n \<longrightarrow> run_depth m = 1 \<Longrightarrow> work_loop q m = Some (b, m') \<Longrightarrow>
   tasks_inv n [] m' \<and> frames m' = frames m"
proof (induction q m arbitrary: b m' rule: work_loop.induct)
  case (1 m)
  then show ?case by auto
next
  case (2 t q m)
  let ?m1 = "m\<lparr>work_queue := q\<rparr>"
  have h: "tasks_inv n [t] ?m1" by (rule take_work [OF 2(3)])
  have d: "\<not> n \<longrightarrow> run_depth ?m1 = 1" using 2(4) by (simp add: run_depth_def)
  show ?case
  proof (cases "delayed_run_time t = 0")
    case False
    let ?m2 = "AddToDelayedWorkQueue t ?m1"
    let ?m3 = "if closure (delayed_top (delayed_work_queue ?m2)) = closure t then ?m2\<lparr>delayed_work_time := delayed_run_time t\<rparr> else ?m2"
    have "work_queue ?m3 = q" "frames ?m3 = frames m" by (simp_all add: AddToDelayedWorkQueue_def)
    then have w: "?m3\<lparr>work_queue := q\<rparr> = ?m3" "run_depth ?m3 = run_depth m" by (simp_all add: run_depth_def)
    have "core ?m3 = core ?m2" by simp
    then have i3: "tasks_inv n [] (?m3\<lparr>work_queue := q\<rparr>)"
      unfolding w using AddToDelayed_inv [OF h False] tasks_inv_core by blast
    have r: "work_loop q ?m3 = Some (b, m')" using 2(5) False by (simp add: Let_def)
    show ?thesis using 2(1) [OF refl False refl i3 _ r] 2(4) w(2) \<open>frames ?m3 = frames m\<close> by simp
  next
    case True
    from 2(5) True obtain started m2 where m2: "DeferOrRunPendingTask t ?m1 = Some (started, m2)"
      "(if started then Some (True, m2) else work_loop q m2) = Some (b, m')"
      by (auto simp: Let_def bind_eq_Some_conv split: if_splits)
    have i2: "tasks_inv n [] m2" using DeferOrRun_inv [OF h _ d m2(1)] True by simp
    have f2: "frames m2 = frames m" using frames_kept(4) [OF m2(1)] by simp
    show ?thesis
    proof (cases started)
      case True
      then show ?thesis using m2(2) i2 f2 by simp
    next
      case False
      have "work_queue m2 = q" using m2(1) False by (auto simp: DeferOrRunPendingTask_def bind_eq_Some_conv split: if_splits)
      then have w: "m2\<lparr>work_queue := q\<rparr> = m2" by simp
      have "\<not> n \<longrightarrow> run_depth m2 = 1" using 2(4) f2 by (simp add: run_depth_def)
      then show ?thesis using 2(2) [OF refl _ m2(1) refl False] True i2 m2(2) False f2 unfolding w by simp
    qed
  qed
qed

lemma DoWork_round_inv:
  assumes "tasks_inv n [] m" "\<not> n \<longrightarrow> run_depth m = 1" "DoWork_round m = Some (over, started, m')"
  shows "tasks_inv n [] m' \<and> frames m' = frames m"
proof -
  let ?m1 = "ReloadWorkQueue m"
  have i: "tasks_inv n [] (?m1\<lparr>work_queue := work_queue ?m1\<rparr>)" using ReloadWorkQueue_inv [OF assms(1)] by simp
  have d: "\<not> n \<longrightarrow> run_depth ?m1 = 1" using assms(2) by (simp add: run_depth_def frames_kept)
  show ?thesis
  proof (cases "work_queue ?m1 = []")
    case True
    then show ?thesis using assms(3) i by (auto simp: DoWork_round_def Let_def frames_kept)
  next
    case False
    then obtain b where "work_loop (work_queue ?m1) ?m1 = Some (b, m')"
      using assms(3) by (auto simp: DoWork_round_def Let_def bind_eq_Some_conv)
    then show ?thesis using work_loop_inv [OF i d] by (auto simp: frames_kept)
  qed
qed

section \<open>The queue of delayed tasks\<close>

lemma delayed_fold:
  "foldl (\<lambda>best t. if task_less best t then t else best) b q \<in> insert b (set q) \<and>
   (\<forall>u \<in> insert b (set q). delayed_run_time (foldl (\<lambda>best t. if task_less best t then t else best) b q) \<le> delayed_run_time u)"
proof (induction q arbitrary: b)
  case (Cons t q)
  show ?case
  proof (cases "task_less b t")
    case True
    then have "delayed_run_time t \<le> delayed_run_time b" by (auto simp: task_less_def split: if_splits)
    then show ?thesis using True Cons.IH [of t] by auto
  next
    case False
    then have "delayed_run_time b \<le> delayed_run_time t" by (auto simp: task_less_def split: if_splits)
    then show ?thesis using False Cons.IH [of b] by auto
  qed
qed simp

lemma delayed_top_in: "q \<noteq> [] \<Longrightarrow> delayed_top q \<in> set q"
  using delayed_fold [of "hd q" "tl q"] by (cases q) (auto simp: delayed_top_def)

lemma delayed_top_earliest: "t \<in> set q \<Longrightarrow> delayed_run_time (delayed_top q) \<le> delayed_run_time t"
  using delayed_fold [of "hd q" "tl q"] by (cases q) (auto simp: delayed_top_def)

lemma DoDelayedWork_inv:
  assumes inv: "tasks_inv n [] m" and d: "\<not> n \<longrightarrow> run_depth m = 1" and r: "DoDelayedWork m = Some (b, m')"
  shows "tasks_inv n [] m' \<and> frames m' = frames m"
proof (cases "\<not> nestable_tasks_allowed m \<or> delayed_work_queue m = []")
  case True
  then show ?thesis using r inv by (auto simp: DoDelayedWork_def tasks_inv_def)
next
  case False
  let ?t = "delayed_top (delayed_work_queue m)"
  let ?m1 = "if recent_time m < delayed_run_time ?t then m\<lparr>recent_time := now m\<rparr> else m"
  have t: "?t \<in> set (delayed_work_queue m)" using False by (intro delayed_top_in) simp
  have i1: "tasks_inv n [] ?m1" using inv by (auto simp: tasks_inv_def)
  show ?thesis
  proof (cases "recent_time m < delayed_run_time ?t \<and> recent_time ?m1 < delayed_run_time ?t")
    case True
    then have "m' = m\<lparr>recent_time := now m, delayed_work_time := delayed_run_time ?t\<rparr>" "?m1 = m\<lparr>recent_time := now m\<rparr>"
      using r False by (auto simp: DoDelayedWork_def Let_def split: if_splits)
    then have "core m' = core ?m1" "frames m' = frames m" by (simp_all add: core_def)
    then show ?thesis using i1 tasks_inv_core by blast
  next
    case due: False
    let ?q = "delayed_pop (delayed_work_queue m)"
    let ?m2 = "?m1\<lparr>delayed_work_queue := ?q\<rparr>"
    let ?m3 = "if ?q \<noteq> [] then ?m2\<lparr>delayed_work_time := delayed_run_time (delayed_top ?q)\<rparr> else ?m2"
    have "tasks_inv n [?t] ?m2" using take_delayed [OF i1, of ?t] t by (auto simp: delayed_pop_def split: if_splits)
    moreover have "core ?m3 = core ?m2" by simp
    ultimately have h: "tasks_inv n [?t] ?m3" using tasks_inv_core by blast
    have "recent_time m \<le> now m" using inv by (simp add: tasks_inv_def)
    then have due': "delayed_run_time ?t \<le> now ?m3" using due by (auto split: if_splits)
    have r3: "DeferOrRunPendingTask ?t ?m3 = Some (b, m')"
      by (rule r [unfolded DoDelayedWork_def Let_def if_not_P [OF False] if_not_P [OF due]])
    have f: "frames ?m3 = frames m" by simp
    then have "\<not> n \<longrightarrow> run_depth ?m3 = 1" using d by (simp add: run_depth_def)
    then show ?thesis using DeferOrRun_inv [OF h due' _ r3] frames_kept(4) [OF r3] f by simp
  qed
qed

lemma DoIdleWork_inv:
  assumes inv: "tasks_inv n [] m" and r: "DoIdleWork m = Some (b, m')"
  shows "tasks_inv n [] m' \<and> length (frames m') = length (frames m)"
proof -
  from r obtain started m1 where m1: "ProcessNextDelayedNonNestableTask m = Some (started, m1)"
    "b = started" "m' = (if started then m1 else case frames m1 of [] \<Rightarrow> m1 | f # _ \<Rightarrow> if quit_when_idle_received f then pump_Quit m1 else m1)"
    by (auto simp: DoIdleWork_def bind_eq_Some_conv split: if_splits)
  have "tasks_inv n [] m1 \<and> frames m1 = frames m"
  proof (cases "run_depth m = 1 \<and> deferred_queue m \<noteq> []")
    case True
    then obtain t q where tq: "deferred_queue m = t # q" by (cases "deferred_queue m") auto
    then have rt: "RunTask t (m\<lparr>deferred_queue := q\<rparr>) = Some m1"
      using m1(1) True by (auto simp: ProcessNextDelayedNonNestableTask_def bind_eq_Some_conv)
    have "tasks_inv n [] m1"
      using RunTask_inv [OF take_deferred(1) [OF inv tq] _ _ rt] take_deferred(2) [OF inv tq] True by (simp add: run_depth_def)
    then show ?thesis using frames_kept(3) [OF rt] by simp
  next
    case False
    then have "m1 = m" using m1(1) by (auto simp: ProcessNextDelayedNonNestableTask_def split: if_splits)
    then show ?thesis using inv by simp
  qed
  moreover have "core m' = core m1" using m1(3) by (auto split: list.splits)
  moreover have "length (frames m') = length (frames m1)"
    using m1(3) by (auto simp: pump_Quit_def pump_ScheduleWork_def split: list.splits)
  ultimately show ?thesis using tasks_inv_core by metis
qed

section \<open>Every reachable state accounts for its tasks\<close>

lemma frames_length [simp]:
  "length (frames (goto p m)) = length (frames m)" "length (frames (pump_ScheduleWork m)) = length (frames m)"
  "length (frames (pump_Quit m)) = length (frames m)" "length (frames (RunLoop_Quit i m)) = length (frames m)"
  "length (frames (QuitWhenIdle m)) = length (frames m)" "length (frames (QuitNow m)) = length (frames m)"
  "length (frames (SetNestableTasksAllowed b m)) = length (frames m)" "length (frames (task_returned p m)) = length (frames m)"
  "length (frames (sleep_place m)) = length (frames m)" "length (frames (poll_over d m)) = length (frames m)"
  "length (frames (finish_run m)) = length (frames m) - 1"
proof -
  show g: "length (frames (goto p m)) = length (frames m)" for p and m :: "'c message_loop"
    by (simp add: goto_def split: list.splits)
  show w: "length (frames (pump_ScheduleWork m)) = length (frames m)" for m :: "'c message_loop" by (simp add: pump_ScheduleWork_def)
  show q: "length (frames (pump_Quit m)) = length (frames m)" for m :: "'c message_loop" by (simp add: pump_Quit_def w)
  show "length (frames (sleep_place m)) = length (frames m)" "length (frames (poll_over d m)) = length (frames m)"
    "length (frames (task_returned p m)) = length (frames m)"
    by (simp_all add: sleep_place_def poll_over_def task_returned_def g)
  show "length (frames (RunLoop_Quit i m)) = length (frames m)" "length (frames (QuitNow m)) = length (frames m)"
    "length (frames (finish_run m)) = length (frames m) - 1"
    by (simp_all add: RunLoop_Quit_def QuitNow_def finish_run_def Let_def q split: list.splits)
  show "length (frames (SetNestableTasksAllowed b m)) = length (frames m)" by (simp add: SetNestableTasksAllowed_def w)
qed (simp add: QuitWhenIdle_def split: list.splits)

lemma OnWakeup_frames: "OnWakeup m = Some m' \<Longrightarrow> frames m' = frames m"
  by (auto simp: OnWakeup_def)

text \<open>The pump calls one operation of the loop in each of its places and then moves on.\<close>

lemma pump_at_inv:
  assumes inv: "tasks_inv n [] m" and d: "\<not> n \<longrightarrow> run_depth m = 1" and r: "pump_at p m = Some m'"
  shows "tasks_inv n [] m' \<and> length (frames m') \<le> length (frames m)"
proof -
  have moved: ?thesis if "tasks_inv n [] m1" "length (frames m1) = length (frames m)" "core m' = core m1"
    "length (frames m') \<le> length (frames m1)" for m1
    using that tasks_inv_core [OF that(3)] by simp
  show ?thesis
  proof (cases p)
    case InDoWork
    then obtain over started m1 where m1: "DoWork_round m = Some (over, started, m1)"
      "m' = (if over then goto (AfterDoWork False) m1 else if started then goto (InTask (AfterDoWork True)) m1 else m1)"
      using r by (auto simp: pump_at_def bind_eq_Some_conv)
    show ?thesis using DoWork_round_inv [OF inv d m1(1)] moved [of m1] m1(2) by simp
  next
    case (AfterPoll b)
    show ?thesis
    proof (cases "keep_running m")
      case True
      then obtain started m1 where m1: "DoDelayedWork m = Some (started, m1)"
        "m' = (if started then goto (InTask (AfterDelayed True)) m1 else goto (AfterDelayed b) m1)"
        using r AfterPoll by (auto simp: pump_at_def bind_eq_Some_conv)
      show ?thesis using DoDelayedWork_inv [OF inv d m1(1)] moved [of m1] m1(2) by simp
    next
      case False
      then have "m' = finish_run m" using r AfterPoll by (simp add: pump_at_def)
      then show ?thesis using moved [of m] inv by simp
    qed
  next
    case (AfterDelayed b)
    show ?thesis
    proof (cases "keep_running m \<and> \<not> b")
      case True
      then obtain started m1 where m1: "DoIdleWork m = Some (started, m1)"
        "m' = (if started then goto (InTask (AfterIdle True)) m1 else goto (AfterIdle False) m1)"
        using r AfterDelayed by (auto simp: pump_at_def bind_eq_Some_conv)
      show ?thesis using DoIdleWork_inv [OF inv m1(1)] moved [of m1] m1(2) by simp
    next
      case False
      then have "m' = (if \<not> keep_running m then finish_run m else goto AtDoWork m)"
        using r AfterDelayed by (auto simp: pump_at_def)
      then show ?thesis using moved [of m] inv by simp
    qed
  qed (use r moved [of m] inv in \<open>auto simp: pump_at_def\<close>)
qed

lemma enqueue_task_fields:
  "incoming_queue (enqueue_task t m) = incoming_queue m @ [t\<lparr>sequence_num := next_sequence_num m\<rparr>]"
  "posted (enqueue_task t m) = posted m @ [t\<lparr>sequence_num := next_sequence_num m\<rparr>]"
  "work_queue (enqueue_task t m) = work_queue m" "delayed_work_queue (enqueue_task t m) = delayed_work_queue m"
  "deferred_queue (enqueue_task t m) = deferred_queue m" "recent_time (enqueue_task t m) = recent_time m"
  "now (enqueue_task t m) = now m" "ran (enqueue_task t m) = ran m" "frames (enqueue_task t m) = frames m"
  "keep_running (enqueue_task t m) = keep_running m" "nestable_tasks_allowed (enqueue_task t m) = nestable_tasks_allowed m"
  "processed_io_events (enqueue_task t m) = processed_io_events m" "delayed_work_time (enqueue_task t m) = delayed_work_time m"
  "wakeup_pipe m \<le> wakeup_pipe (enqueue_task t m)"
  "incoming_queue m = [] \<Longrightarrow> 0 < wakeup_pipe (enqueue_task t m)"
  by (auto simp: enqueue_task_def ScheduleWork_def pump_ScheduleWork_def Let_def pipe_capacity_def AlwaysNotifyPump_def)

lemma post_is: "AddToIncomingQueue c delay nest m = Some (b, m') \<Longrightarrow> m' = m \<or> (\<exists>t. m' = enqueue_task t m)"
  by (auto simp: AddToIncomingQueue_def PostPendingTask_def bind_eq_Some_conv split: if_splits)

lemma enqueue_task_inv: "tasks_inv n [] m \<Longrightarrow> tasks_inv n [] (enqueue_task t m)"
  unfolding tasks_inv_def enqueue_task_fields by simp

lemma clock_inv: "tasks_inv n [] m \<Longrightarrow> now m \<le> x \<Longrightarrow> tasks_inv n [] (m\<lparr>now := x\<rparr>)"
  by (fastforce simp: tasks_inv_def)

lemma tasks_invariant:
  "loop_reachable n m \<Longrightarrow> tasks_inv n [] m \<and> (\<not> n \<longrightarrow> length (frames m) \<le> 1)"
proof (induction rule: loop_reachable.induct)
  case start
  then show ?case by (simp add: new_MessageLoop_def tasks_inv_def)
next
  case (more m m')
  have inv: "tasks_inv n [] m" and d: "\<not> n \<longrightarrow> length (frames m) \<le> 1" using more.IH by auto
  have same: ?case if "core m' = core m" "length (frames m') \<le> length (frames m) \<or> n \<or> length (frames m') \<le> 1"
    using that inv d tasks_inv_core [OF that(1)] by auto
  from more.hyps(2) show ?case
  proof cases
    case (post c delay nest accepted)
    consider "m' = m" | t where "m' = enqueue_task t m" using post_is [OF post] by auto
    then show ?thesis
    proof cases
      case 1
      then show ?thesis using inv d by simp
    next
      case (2 t)
      show ?thesis unfolding 2 using enqueue_task_inv [OF inv] enqueue_task_fields(9) [of t m] d by simp
    qed
  next
    case (clock x)
    then show ?thesis using clock_inv [OF inv] d by simp
  next
    case (run w)
    then have "length (frames m') \<le> 1" by (simp add: RunLoop_Run_def)
    then show ?thesis using same run by simp
  next
    case (own p)
    then have "frames m \<noteq> []" by (auto simp: place_of_def)
    then have "\<not> n \<longrightarrow> run_depth m = 1" using d by (cases "frames m") (auto simp: run_depth_def)
    then show ?thesis using pump_at_inv [OF inv _ own(2)] d by auto
  next
    case (poll_wakeup p m1)
    then show ?thesis using same OnWakeup_core OnWakeup_frames by (metis core_simps(12) frames_length(10) order_refl)
  next
    case (waking_wakeup m1)
    then show ?thesis using same OnWakeup_core OnWakeup_frames by (metis core_simps(1) frames_length(1) order_refl)
  qed (use same in auto)
qed

section \<open>No check fails\<close>

text \<open>
  What the checks of RunTask and OnWakeup need: runs nest only in tasks, tasks may run in a loop that
  is not nested and not in a task, DoWork goes on only while they may, and libevent reports the pipe
  only when a byte is in it.
\<close>

definition after_task :: "pump_place \<Rightarrow> bool" where
  "after_task q \<longleftrightarrow> q = AfterDoWork True \<or> q = AfterDelayed True \<or> q = AfterIdle True"

definition reports_wakeup :: "pump_place \<Rightarrow> bool" where
  "reports_wakeup p =
     (case p of Polling d w \<Rightarrow> w | InPollCallback d w \<Rightarrow> w | Waking w \<Rightarrow> w | InWakeCallback w \<Rightarrow> w | _ \<Rightarrow> False)"

fun in_task :: "pump_place \<Rightarrow> bool" where
  "in_task (InTask q) = after_task q"
| "in_task _ = False"

definition checks_inv :: "'c message_loop \<Rightarrow> bool" where
  "checks_inv m \<longleftrightarrow>
     (\<forall>f \<in> set (tl (frames m)). in_task (place f)) \<and>
     (case frames m of
        [] \<Rightarrow> nestable_tasks_allowed m
      | f # fs \<Rightarrow>
          (\<forall>q. place f = InTask q \<longrightarrow> after_task q) \<and>
          (fs = [] \<and> \<not> in_task (place f) \<longrightarrow> nestable_tasks_allowed m) \<and>
          (place f = InDoWork \<longrightarrow> nestable_tasks_allowed m) \<and>
          (reports_wakeup (place f) \<longrightarrow> 0 < wakeup_pipe m))"

lemma reports_simps [simp]:
  "\<not> reports_wakeup AtDoWork" "\<not> reports_wakeup InDoWork" "\<not> reports_wakeup (InTask q)" "\<not> reports_wakeup (AfterDoWork d)"
  "\<not> reports_wakeup (AfterPoll d)" "\<not> reports_wakeup (AfterDelayed d)" "\<not> reports_wakeup (AfterIdle d)"
  "\<not> reports_wakeup (Blocked t)" "reports_wakeup (Polling d w) = w" "reports_wakeup (InPollCallback d w) = w"
  "reports_wakeup (Waking w) = w" "reports_wakeup (InWakeCallback w) = w"
  by (auto simp: reports_wakeup_def)

lemma after_task_simps [simp]: "after_task (AfterDoWork True)" "after_task (AfterDelayed True)" "after_task (AfterIdle True)"
  by (auto simp: after_task_def)

text \<open>A move of the innermost run to a place, by an operation that leaves the flags as they need to be.\<close>

lemma checks_goto:
  assumes "frames m = f # fs" "\<forall>g \<in> set fs. in_task (place g)"
    "\<forall>q. p = InTask q \<longrightarrow> after_task q"
    "\<not> in_task p \<Longrightarrow> fs = [] \<Longrightarrow> nestable_tasks_allowed m" "p = InDoWork \<Longrightarrow> nestable_tasks_allowed m"
    "reports_wakeup p \<Longrightarrow> 0 < wakeup_pipe m"
  shows "checks_inv (goto p m)"
  using assms by (auto simp: checks_inv_def goto_def)

lemma pump_Quit_fields [simp]:
  "frames (pump_Quit m) = frames m" "nestable_tasks_allowed (pump_Quit m) = nestable_tasks_allowed m"
  "wakeup_pipe m \<le> wakeup_pipe (pump_Quit m)" "processed_io_events (pump_Quit m) = processed_io_events m"
  "delayed_work_time (pump_Quit m) = delayed_work_time m" "work_queue (pump_Quit m) = work_queue m"
  "incoming_queue (pump_Quit m) = incoming_queue m" "delayed_work_queue (pump_Quit m) = delayed_work_queue m"
  "deferred_queue (pump_Quit m) = deferred_queue m"
  by (simp_all add: pump_Quit_def pump_ScheduleWork_def)

lemma checks_finish:
  assumes "checks_inv m" "frames m = f # fs" "\<not> in_task (place f)"
  shows "checks_inv (finish_run m)"
proof (cases fs)
  case Nil
  then show ?thesis using assms by (auto simp: checks_inv_def finish_run_def)
next
  case (Cons g gs)
  then have g: "in_task (place g)" "\<forall>h \<in> set gs. in_task (place h)" using assms by (auto simp: checks_inv_def)
  let ?m1 = "m\<lparr>keep_running := saved_keep_running f, frames := fs\<rparr>"
  from g have "\<exists>q. place g = InTask q \<and> after_task q" by (cases "place g") auto
  then have "checks_inv m1" if "frames m1 = fs" for m1 :: "'a message_loop"
    using that Cons g by (auto simp: checks_inv_def)
  moreover have "frames (finish_run m) = fs" using assms Cons by (simp add: finish_run_def Let_def)
  ultimately show ?thesis by blast
qed

lemma RunTask_allowed: "nestable_tasks_allowed m \<Longrightarrow> \<exists>m'. RunTask t m = Some m'"
  by (simp add: RunTask_def)

lemma DeferOrRun_some:
  assumes "nestable_tasks_allowed m"
  obtains b m' where "DeferOrRunPendingTask t m = Some (b, m')" "\<not> b \<longrightarrow> nestable_tasks_allowed m'"
    "run_depth m = 1 \<longrightarrow> b" "work_queue m' = work_queue m" "wakeup_pipe m' = wakeup_pipe m" "frames m' = frames m"
    "incoming_queue m' = incoming_queue m"
proof (cases "nestable t \<or> run_depth m = 1")
  case True
  then show ?thesis
    using assms that [of True "m\<lparr>nestable_tasks_allowed := False, ran := ran m @ [(t, run_depth m, now m)]\<rparr>"]
    by (simp add: DeferOrRunPendingTask_def RunTask_def)
next
  case False
  then show ?thesis
    using assms that [of False "m\<lparr>deferred_queue := deferred_queue m @ [t]\<rparr>"] by (simp add: DeferOrRunPendingTask_def)
qed

lemma work_loop_some:
  "nestable_tasks_allowed m \<Longrightarrow>
   \<exists>b m'. work_loop q m = Some (b, m') \<and> (\<not> b \<longrightarrow> nestable_tasks_allowed m') \<and> frames m' = frames m \<and> wakeup_pipe m' = wakeup_pipe m"
proof (induction q m rule: work_loop.induct)
  case (1 m)
  then show ?case by (intro exI [of _ False] exI [of _ "m\<lparr>work_queue := []\<rparr>"]) simp
next
  case (2 t q m)
  let ?m1 = "m\<lparr>work_queue := q\<rparr>"
  show ?case
  proof (cases "delayed_run_time t = 0")
    case False
    let ?m2 = "AddToDelayedWorkQueue t ?m1"
    let ?m3 = "if closure (delayed_top (delayed_work_queue ?m2)) = closure t then ?m2\<lparr>delayed_work_time := delayed_run_time t\<rparr> else ?m2"
    have f: "nestable_tasks_allowed ?m3" "frames ?m3 = frames m" "wakeup_pipe ?m3 = wakeup_pipe m"
      using 2(3) by (simp_all add: AddToDelayedWorkQueue_def)
    show ?thesis using 2(1) [OF refl False refl f(1)] False f by (simp add: Let_def)
  next
    case True
    have "nestable_tasks_allowed ?m1" using 2(3) by simp
    then obtain b m2 where m2: "DeferOrRunPendingTask t ?m1 = Some (b, m2)" "\<not> b \<longrightarrow> nestable_tasks_allowed m2"
      "wakeup_pipe m2 = wakeup_pipe ?m1" "frames m2 = frames ?m1" by (rule DeferOrRun_some)
    show ?thesis
    proof (cases b)
      case True
      then show ?thesis using m2 \<open>delayed_run_time t = 0\<close>
        by (intro exI [of _ True] exI [of _ m2]) (simp add: Let_def)
    next
      case False
      then show ?thesis using 2(2) [OF refl _ m2(1) refl False] m2 \<open>delayed_run_time t = 0\<close> by (simp add: Let_def)
    qed
  qed
qed

lemma DoWork_round_some:
  assumes "nestable_tasks_allowed m"
  obtains over started m1 where "DoWork_round m = Some (over, started, m1)" "\<not> started \<longrightarrow> nestable_tasks_allowed m1"
    "frames m1 = frames m"
proof -
  let ?m1 = "ReloadWorkQueue m"
  have a: "nestable_tasks_allowed ?m1" "frames ?m1 = frames m" using assms by (simp_all add: ReloadWorkQueue_def)
  show ?thesis
  proof (cases "work_queue ?m1 = []")
    case True
    then show ?thesis using that [of True False ?m1] a by (simp add: DoWork_round_def Let_def)
  next
    case False
    obtain b m' where "work_loop (work_queue ?m1) ?m1 = Some (b, m')" "\<not> b \<longrightarrow> nestable_tasks_allowed m'" "frames m' = frames ?m1"
      using work_loop_some [OF a(1)] by blast
    then show ?thesis using that [of False b m'] a False by (simp add: DoWork_round_def Let_def)
  qed
qed

lemma DoDelayedWork_some:
  obtains started m1 where "DoDelayedWork m = Some (started, m1)"
    "\<not> started \<longrightarrow> nestable_tasks_allowed m1 = nestable_tasks_allowed m" "frames m1 = frames m"
proof (cases "\<not> nestable_tasks_allowed m \<or> delayed_work_queue m = []")
  case True
  then show ?thesis using that by (auto simp: DoDelayedWork_def)
next
  case False
  let ?t = "delayed_top (delayed_work_queue m)"
  let ?m1 = "if recent_time m < delayed_run_time ?t then m\<lparr>recent_time := now m\<rparr> else m"
  show ?thesis
  proof (cases "recent_time m < delayed_run_time ?t \<and> recent_time ?m1 < delayed_run_time ?t")
    case True
    have "DoDelayedWork m = Some (False, ?m1\<lparr>delayed_work_time := delayed_run_time ?t\<rparr>)"
      unfolding DoDelayedWork_def Let_def if_not_P [OF False] if_P [OF True] by (rule refl)
    then show ?thesis by (rule that) simp_all
  next
    case due: False
    let ?q = "delayed_pop (delayed_work_queue m)"
    let ?m2 = "?m1\<lparr>delayed_work_queue := ?q\<rparr>"
    let ?m3 = "if ?q \<noteq> [] then ?m2\<lparr>delayed_work_time := delayed_run_time (delayed_top ?q)\<rparr> else ?m2"
    have eq: "DoDelayedWork m = DeferOrRunPendingTask ?t ?m3"
      unfolding DoDelayedWork_def Let_def if_not_P [OF False] if_not_P [OF due] by (rule refl)
    have "nestable_tasks_allowed ?m3" using False by simp
    then obtain b m' where "DeferOrRunPendingTask ?t ?m3 = Some (b, m')" "\<not> b \<longrightarrow> nestable_tasks_allowed m'" "frames m' = frames ?m3"
      by (rule DeferOrRun_some)
    then show ?thesis using that [of b m'] eq False by simp
  qed
qed

lemma DoIdleWork_some:
  assumes "run_depth m = 1 \<longrightarrow> nestable_tasks_allowed m"
  obtains started m1 where "DoIdleWork m = Some (started, m1)"
    "\<not> started \<longrightarrow> nestable_tasks_allowed m1 = nestable_tasks_allowed m" "frames m1 = frames m"
proof (cases "run_depth m = 1 \<and> deferred_queue m \<noteq> []")
  case True
  then obtain t q where tq: "deferred_queue m = t # q" by (cases "deferred_queue m") auto
  have "nestable_tasks_allowed (m\<lparr>deferred_queue := q\<rparr>)" using assms True by simp
  then show ?thesis using that True tq by (auto simp: DoIdleWork_def ProcessNextDelayedNonNestableTask_def RunTask_def)
next
  case False
  then have "ProcessNextDelayedNonNestableTask m = Some (False, m)"
    by (auto simp: ProcessNextDelayedNonNestableTask_def split: list.splits)
  then show ?thesis
    using that [of False "case frames m of [] \<Rightarrow> m | f # _ \<Rightarrow> if quit_when_idle_received f then pump_Quit m else m"]
    by (simp add: DoIdleWork_def split: list.splits)
qed

lemma pump_at_checks:
  assumes inv: "checks_inv m" and fs: "frames m = f # fs" and p: "place f \<in> {AtDoWork, InDoWork} \<union> range AfterDoWork \<union>
    range AfterPoll \<union> range AfterDelayed \<union> range AfterIdle"
  shows "\<exists>m'. pump_at (place f) m = Some m' \<and> checks_inv m'"
proof -
  have out: "\<forall>g \<in> set fs. in_task (place g)" and a: "fs = [] \<longrightarrow> nestable_tasks_allowed m"
    "place f = InDoWork \<longrightarrow> nestable_tasks_allowed m"
    using inv fs p by (auto simp: checks_inv_def)
  have d: "run_depth m = 1 \<longleftrightarrow> fs = []" using fs by (simp add: run_depth_def)
  have nt: "\<not> in_task (place f)" using p by auto
  note fin = checks_finish [OF inv fs nt]
  have to: "checks_inv (goto q m1)"
    if "frames m1 = frames m" "\<forall>r. q = InTask r \<longrightarrow> after_task r" "q \<noteq> InDoWork" "\<not> reports_wakeup q"
      "\<not> in_task q \<longrightarrow> nestable_tasks_allowed m1 = nestable_tasks_allowed m" for q m1
    using checks_goto [of m1 f fs q] that fs out a by auto
  from p consider "place f = AtDoWork" | "place f = InDoWork" | b where "place f = AfterDoWork b" | b where "place f = AfterPoll b"
    | b where "place f = AfterDelayed b" | b where "place f = AfterIdle b" by auto
  then show ?thesis
  proof cases
    case 1
    show ?thesis using 1 to [of m "AfterDoWork False"] checks_goto [of m f fs InDoWork] fs out a
      by (simp add: pump_at_def)
  next
    case 2
    then have al: "nestable_tasks_allowed m" using a by simp
    then obtain over started m1 where m1: "DoWork_round m = Some (over, started, m1)" "\<not> started \<longrightarrow> nestable_tasks_allowed m1"
      "frames m1 = frames m" by (rule DoWork_round_some)
    have "checks_inv m1" if "\<not> started" using that m1 al fs inv 2 by (auto simp: checks_inv_def)
    moreover have "\<not> (over \<and> started)" using m1(1) by (auto simp: DoWork_round_def Let_def bind_eq_Some_conv split: if_splits)
    ultimately show ?thesis using m1 al 2 to [of m1 "AfterDoWork False"] to [of m1 "InTask (AfterDoWork True)"]
      by (auto simp: pump_at_def)
  next
    case 3
    have "checks_inv (goto (Polling b (0 < wakeup_pipe m)) m)" by (rule checks_goto [OF fs out]) (use a in auto)
    then show ?thesis using 3 fin by (simp add: pump_at_def)
  next
    case 4
    obtain started m1 where "DoDelayedWork m = Some (started, m1)"
      "\<not> started \<longrightarrow> nestable_tasks_allowed m1 = nestable_tasks_allowed m" "frames m1 = frames m" by (rule DoDelayedWork_some)
    then show ?thesis using 4 fin to [of m1 "InTask (AfterDelayed True)"] to [of m1 "AfterDelayed b"]
      by (auto simp: pump_at_def)
  next
    case 5
    have "run_depth m = 1 \<longrightarrow> nestable_tasks_allowed m" using d a by simp
    then obtain started m1 where "DoIdleWork m = Some (started, m1)"
      "\<not> started \<longrightarrow> nestable_tasks_allowed m1 = nestable_tasks_allowed m" "frames m1 = frames m" by (rule DoIdleWork_some)
    then show ?thesis using 5 fin to [of m1 "InTask (AfterIdle True)"] to [of m1 "AfterIdle False"] to [of m AtDoWork]
      by (auto simp: pump_at_def)
  next
    case 6
    have "checks_inv (sleep_place m)" using to [of m "Blocked None"] to [of m "Blocked (Some (delayed_work_time m))"]
        to [of "m\<lparr>delayed_work_time := 0\<rparr>" AtDoWork] by (simp add: sleep_place_def)
    then show ?thesis using 6 fin to [of m AtDoWork] by (auto simp: pump_at_def)
  qed
qed

lemma checks_same:
  assumes "checks_inv m" "map place (frames m') = map place (frames m)"
    "nestable_tasks_allowed m' = nestable_tasks_allowed m" "wakeup_pipe m \<le> wakeup_pipe m'"
  shows "checks_inv m'"
proof (cases "frames m")
  case Nil
  then show ?thesis using assms by (simp add: checks_inv_def)
next
  case (Cons f fs)
  then obtain g gs where g: "frames m' = g # gs" "place g = place f" "map place gs = map place fs"
    using assms(2) by (cases "frames m'") auto
  then have "place ` set gs = place ` set fs" by (metis list.set_map)
  then have "(\<forall>h \<in> set gs. in_task (place h)) = (\<forall>h \<in> set fs. in_task (place h))"
    by (metis (no_types, lifting) image_iff)
  then show ?thesis using assms Cons g by (auto simp: checks_inv_def)
qed

lemma places_kept [simp]:
  "map place (frames (pump_ScheduleWork m)) = map place (frames m)"
  "map place (frames (RunLoop_Quit i m)) = map place (frames m)"
  "map place (frames (QuitWhenIdle m)) = map place (frames m)" "map place (frames (QuitNow m)) = map place (frames m)"
  "map place (frames (SetNestableTasksAllowed b m)) = map place (frames m)"
proof -
  have "map place ((frames m)[i := (frames m ! i)\<lparr>quit_called := True\<rparr>]) = map place (frames m)" for i
    by (cases "i < length (frames m)") (simp_all add: map_update list_update_same_conv list_update_beyond)
  then show "map place (frames (RunLoop_Quit i m)) = map place (frames m)" by (simp add: RunLoop_Quit_def Let_def)
qed (simp_all add: pump_ScheduleWork_def QuitWhenIdle_def QuitNow_def SetNestableTasksAllowed_def split: list.splits)

lemma flags_kept [simp]:
  "nestable_tasks_allowed (RunLoop_Quit i m) = nestable_tasks_allowed m" "wakeup_pipe m \<le> wakeup_pipe (RunLoop_Quit i m)"
  "nestable_tasks_allowed (QuitWhenIdle m) = nestable_tasks_allowed m" "wakeup_pipe (QuitWhenIdle m) = wakeup_pipe m"
  "nestable_tasks_allowed (QuitNow m) = nestable_tasks_allowed m" "wakeup_pipe m \<le> wakeup_pipe (QuitNow m)"
proof -
  have "wakeup_pipe (m\<lparr>frames := x\<rparr>) \<le> wakeup_pipe (pump_Quit (m\<lparr>frames := x\<rparr>))" for x by (rule pump_Quit_fields(3))
  then show "wakeup_pipe m \<le> wakeup_pipe (RunLoop_Quit i m)" by (simp add: RunLoop_Quit_def Let_def)
qed (simp_all add: RunLoop_Quit_def QuitWhenIdle_def QuitNow_def Let_def split: list.splits)

lemma place_frames: "place_of m = Some p \<longleftrightarrow> (\<exists>f fs. frames m = f # fs \<and> place f = p)"
  by (auto simp: place_of_def split: list.splits)

lemma pump_places: "pump_at p m = Some m' \<Longrightarrow> p \<in> {AtDoWork, InDoWork} \<union> range AfterDoWork \<union>
    range AfterPoll \<union> range AfterDelayed \<union> range AfterIdle"
  by (cases p) (auto simp: pump_at_def)

text \<open>The steps that only move the innermost run, outside a task.\<close>

lemma checks_move:
  assumes "checks_inv m" "place_of m = Some p" "\<not> in_task p" "\<forall>r. p \<noteq> InTask r" "\<not> in_task q" "\<forall>r. q \<noteq> InTask r" "q \<noteq> InDoWork"
    "frames m1 = frames m" "nestable_tasks_allowed m1 = nestable_tasks_allowed m" "reports_wakeup q \<longrightarrow> 0 < wakeup_pipe m1"
  shows "checks_inv (goto q m1)"
proof -
  obtain f fs where f: "frames m = f # fs" "place f = p" using assms(2) by (auto simp: place_frames)
  then have "\<forall>g \<in> set fs. in_task (place g)" "fs = [] \<longrightarrow> nestable_tasks_allowed m" using assms(1,3) by (auto simp: checks_inv_def)
  then show ?thesis using checks_goto [of m1 f fs q] assms f by auto
qed

lemma reports_pipe:
  assumes "checks_inv m" "place_of m = Some p" "reports_wakeup p"
  shows "0 < wakeup_pipe m"
  using assms by (auto simp: checks_inv_def place_frames)

lemma checks_invariant: "loop_reachable n m \<Longrightarrow> checks_inv m"
proof (induction rule: loop_reachable.induct)
  case start
  then show ?case by (simp add: new_MessageLoop_def checks_inv_def)
next
  case (more m m')
  note inv = more.IH
  from more.hyps(2) show ?case
  proof cases
    case (post c delay nest accepted)
    consider "m' = m" | t where "m' = enqueue_task t m" using post_is [OF post] by auto
    then show ?thesis
    proof cases
      case 1
      then show ?thesis using inv by simp
    next
      case (2 t)
      show ?thesis unfolding 2 by (rule checks_same [OF inv]) (simp_all add: enqueue_task_fields)
    qed
  next
    case (run w)
    then show ?thesis using inv by (simp add: checks_inv_def RunLoop_Run_def)
  next
    case (nested_run p w)
    then obtain f fs where f: "frames m = f # fs" "place f = InTask p" by (auto simp: place_frames)
    then show ?thesis using inv nested_run by (simp add: checks_inv_def RunLoop_Run_def)
  next
    case (allow p b)
    then obtain f fs where f: "frames m = f # fs" "place f = InTask p" by (auto simp: place_frames)
    then show ?thesis using inv allow by (simp add: checks_inv_def SetNestableTasksAllowed_def pump_ScheduleWork_def)
  next
    case (task_return p)
    then obtain f fs where f: "frames m = f # fs" "place f = InTask p" by (auto simp: place_frames)
    then have "after_task p" "\<forall>g \<in> set fs. in_task (place g)" using inv by (auto simp: checks_inv_def)
    then show ?thesis unfolding task_return task_returned_def
      by (intro checks_goto [of _ f fs]) (use f in \<open>auto simp: after_task_def\<close>)
  next
    case (own p)
    then obtain f fs where f: "frames m = f # fs" "place f = p" by (auto simp: place_frames)
    show ?thesis using pump_at_checks [OF inv f(1)] pump_places [OF own(2)] own(2) f(2) by auto
  next
    case (poll_event d w)
    then show ?thesis using reports_pipe [OF inv poll_event(2)] by (auto intro: checks_move [OF inv poll_event(2)])
  next
    case (poll_return d w)
    then show ?thesis using reports_pipe [OF inv poll_return(2)] by (auto intro: checks_move [OF inv poll_return(2)])
  next
    case (poll_wakeup d m1)
    then have "frames m1 = frames m" "nestable_tasks_allowed m1 = nestable_tasks_allowed m" by (auto simp: OnWakeup_def)
    then show ?thesis unfolding poll_wakeup poll_over_def by (intro checks_move [OF inv poll_wakeup(2)]) auto
  next
    case (poll_end d)
    show ?thesis unfolding poll_end poll_over_def by (intro checks_move [OF inv poll_end(2)]) auto
  next
    case (wake_pipe tmo)
    show ?thesis unfolding wake_pipe(1) by (intro checks_move [OF inv wake_pipe(2)]) (use wake_pipe in auto)
  next
    case (wake_event tmo)
    show ?thesis unfolding wake_event(1) by (intro checks_move [OF inv wake_event(2)]) auto
  next
    case (wake_timer tm)
    show ?thesis unfolding wake_timer(1) by (intro checks_move [OF inv wake_timer(2)]) auto
  next
    case (waking_event w)
    show ?thesis unfolding waking_event(1)
      by (intro checks_move [OF inv waking_event(2)]) (use reports_pipe [OF inv waking_event(2)] in auto)
  next
    case (waking_return w)
    show ?thesis unfolding waking_return(1)
      by (intro checks_move [OF inv waking_return(2)]) (use reports_pipe [OF inv waking_return(2)] in auto)
  next
    case (waking_wakeup m1)
    then have "frames m1 = frames m" "nestable_tasks_allowed m1 = nestable_tasks_allowed m" by (auto simp: OnWakeup_def)
    then show ?thesis unfolding waking_wakeup(1) by (intro checks_move [OF inv waking_wakeup(2)]) auto
  next
    case waking_end
    show ?thesis unfolding waking_end(1) by (intro checks_move [OF inv waking_end(2)]) auto
  qed (auto intro: checks_same [OF inv])
qed

section \<open>No wakeup is lost\<close>

text \<open>
  What a loop that does not nest knows in each place: once DoWork has found nothing, the work queue
  is empty and a task that is posted later leaves a byte in the pipe, until something has been done
  and the pump goes round again; once DoDelayedWork has found nothing, delayed_work_time_ is the time
  of the first delayed task.
\<close>

definition wakeup_due :: "'c message_loop \<Rightarrow> bool \<Rightarrow> bool" where
  "wakeup_due m d \<longleftrightarrow> d \<or> work_queue m = [] \<and> (incoming_queue m \<noteq> [] \<longrightarrow> 0 < wakeup_pipe m)"

definition first_delayed :: "'c message_loop \<Rightarrow> nat" where
  "first_delayed m = (if delayed_work_queue m = [] then 0 else delayed_run_time (delayed_top (delayed_work_queue m)))"

fun sleep_inv :: "pump_place \<Rightarrow> 'c message_loop \<Rightarrow> bool" where
  "sleep_inv (AfterDoWork d) m = wakeup_due m d"
| "sleep_inv (Polling d w) m = wakeup_due m (d \<or> processed_io_events m)"
| "sleep_inv (InPollCallback d w) m = wakeup_due m (d \<or> processed_io_events m)"
| "sleep_inv (AfterPoll d) m = wakeup_due m d"
| "sleep_inv (AfterDelayed d) m = (wakeup_due m d \<and> (d \<or> delayed_work_time m = first_delayed m))"
| "sleep_inv (AfterIdle d) m = (wakeup_due m d \<and> (d \<or> delayed_work_time m = first_delayed m))"
| "sleep_inv (Blocked tmo) m =
     (wakeup_due m False \<and> tmo = (if delayed_work_queue m = [] then None else Some (first_delayed m)))"
| "sleep_inv _ m = True"

lemma sleep_same:
  assumes "sleep_inv p m" "work_queue m' = work_queue m" "delayed_work_queue m' = delayed_work_queue m"
    "delayed_work_time m' = delayed_work_time m" "wakeup_pipe m \<le> wakeup_pipe m'"
    "incoming_queue m' \<noteq> [] \<longrightarrow> incoming_queue m \<noteq> [] \<or> 0 < wakeup_pipe m'"
    "processed_io_events m' = processed_io_events m"
  shows "sleep_inv p m'"
  using assms by (cases p) (auto simp: wakeup_due_def first_delayed_def)

lemma sleep_goto [simp]: "sleep_inv p (goto q m) = sleep_inv p m"
  by (cases p) (auto simp: wakeup_due_def first_delayed_def goto_def split: list.splits)

lemma place_goto [simp]: "place_of (goto q m) = (if frames m = [] then None else Some q)"
  by (auto simp: place_of_def goto_def split: list.splits)

lemma place_map: "place_of m = (case map place (frames m) of [] \<Rightarrow> None | p # ps \<Rightarrow> Some p)"
  by (simp add: place_of_def split: list.splits)

text \<open>One step of the pump.\<close>

lemma DoDelayedWork_idle:
  assumes "DoDelayedWork m = Some (False, m')" "run_depth m = 1" "nestable_tasks_allowed m"
  shows "delayed_work_time m' = first_delayed m'" "work_queue m' = work_queue m" "incoming_queue m' = incoming_queue m"
    "wakeup_pipe m' = wakeup_pipe m"
proof -
  have "delayed_work_time m' = first_delayed m' \<and> work_queue m' = work_queue m \<and> incoming_queue m' = incoming_queue m \<and>
    wakeup_pipe m' = wakeup_pipe m"
  proof (cases "\<not> nestable_tasks_allowed m \<or> delayed_work_queue m = []")
    case True
    then show ?thesis using assms by (auto simp: DoDelayedWork_def first_delayed_def)
  next
    case False
    let ?t = "delayed_top (delayed_work_queue m)"
    let ?m1 = "if recent_time m < delayed_run_time ?t then m\<lparr>recent_time := now m\<rparr> else m"
    show ?thesis
    proof (cases "recent_time m < delayed_run_time ?t \<and> recent_time ?m1 < delayed_run_time ?t")
      case True
      have "DoDelayedWork m = Some (False, ?m1\<lparr>delayed_work_time := delayed_run_time ?t\<rparr>)"
        unfolding DoDelayedWork_def Let_def if_not_P [OF False] if_P [OF True] by (rule refl)
      then have "m' = ?m1\<lparr>delayed_work_time := delayed_run_time ?t\<rparr>" using assms(1) by simp
      then show ?thesis using False by (simp add: first_delayed_def)
    next
      case due: False
      let ?q = "delayed_pop (delayed_work_queue m)"
      let ?m2 = "?m1\<lparr>delayed_work_queue := ?q\<rparr>"
      let ?m3 = "if ?q \<noteq> [] then ?m2\<lparr>delayed_work_time := delayed_run_time (delayed_top ?q)\<rparr> else ?m2"
      have eq: "DeferOrRunPendingTask ?t ?m3 = Some (False, m')"
        by (rule assms(1) [unfolded DoDelayedWork_def Let_def if_not_P [OF False] if_not_P [OF due]])
      have "run_depth ?m3 = 1" using assms(2) by (simp add: run_depth_def)
      then show ?thesis using eq by (auto simp: DeferOrRunPendingTask_def bind_eq_Some_conv)
    qed
  qed
  then show "delayed_work_time m' = first_delayed m'" "work_queue m' = work_queue m" "incoming_queue m' = incoming_queue m"
    "wakeup_pipe m' = wakeup_pipe m" by auto
qed

lemma DoWork_over:
  assumes "DoWork_round m = Some (True, started, m')"
  shows "work_queue m' = []" "incoming_queue m' = []" "\<not> started"
  using assms by (auto simp: DoWork_round_def Let_def bind_eq_Some_conv ReloadWorkQueue_def split: if_splits)

lemma DoIdleWork_idle:
  assumes "DoIdleWork m = Some (started, m')" "deferred_queue m = []"
  shows "\<not> started \<and> (m' = m \<or> m' = pump_Quit m)"
proof -
  have "ProcessNextDelayedNonNestableTask m = Some (False, m)" using assms(2) by (simp add: ProcessNextDelayedNonNestableTask_def)
  then show ?thesis using assms(1) by (auto simp: DoIdleWork_def split: list.splits)
qed

lemma pump_at_sleep:
  assumes inv: "sleep_inv p m" and one: "run_depth m = 1" and al: "nestable_tasks_allowed m" and q: "deferred_queue m = []"
    and pos: "delayed_work_queue m \<noteq> [] \<Longrightarrow> 0 < first_delayed m"
    and p: "place_of m = Some p" and r: "pump_at p m = Some m'"
  shows "frames m' = [] \<or> (\<exists>p'. place_of m' = Some p' \<and> sleep_inv p' m')"
proof -
  have f: "frames m \<noteq> []" using one by (auto simp: run_depth_def)
  have fin: "frames (finish_run m) = []"
  proof -
    have "length (frames (finish_run m)) = 0" using one by (simp add: run_depth_def del: length_0_conv)
    then show ?thesis by (simp only: length_0_conv)
  qed
  note mono = sleep_same [of p m]
  have kept: "frames m1 \<noteq> []" if "frames m1 = frames m" for m1 :: "'a message_loop" using that f by simp
  show ?thesis
  proof (cases p)
    case AtDoWork
    then show ?thesis using r al f by (auto simp: pump_at_def)
  next
    case InDoWork
    obtain over started m1 where m1: "DoWork_round m = Some (over, started, m1)" "frames m1 = frames m"
      using DoWork_round_some [OF al] by metis
    then have m': "m' = (if over then goto (AfterDoWork False) m1 else if started then goto (InTask (AfterDoWork True)) m1 else m1)"
      using r InDoWork by (simp add: pump_at_def)
    have pl: "place_of m1 = Some InDoWork" using p InDoWork m1(2) by (simp add: place_of_def)
    show ?thesis
    proof (cases over)
      case True
      then show ?thesis using m' kept [OF m1(2)] DoWork_over [of m started m1] m1(1) by (simp add: wakeup_due_def)
    next
      case False
      then show ?thesis using m' kept [OF m1(2)] pl by auto
    qed
  next
    case (AfterDoWork d)
    then show ?thesis using r inv f fin by (auto simp: pump_at_def wakeup_due_def split: if_splits)
  next
    case (AfterPoll d)
    show ?thesis
    proof (cases "keep_running m")
      case True
      obtain started m1 where dd: "DoDelayedWork m = Some (started, m1)" "frames m1 = frames m"
        by (rule DoDelayedWork_some)
      then have m1: "DoDelayedWork m = Some (started, m1)" "frames m1 = frames m"
        "m' = (if started then goto (InTask (AfterDelayed True)) m1 else goto (AfterDelayed d) m1)"
        using r AfterPoll True by (auto simp: pump_at_def)
      show ?thesis
      proof (cases started)
        case True
        then show ?thesis using m1 kept [OF m1(2)] by simp
      next
        case False
        then show ?thesis using m1(3) kept [OF m1(2)] DoDelayedWork_idle [of m m1] m1(1) one al inv AfterPoll
          by (simp add: wakeup_due_def)
      qed
    next
      case False
      then have "m' = finish_run m" using r AfterPoll by (simp add: pump_at_def)
      then show ?thesis using fin by simp
    qed
  next
    case (AfterDelayed d)
    show ?thesis
    proof (cases "keep_running m \<and> \<not> d")
      case True
      then obtain started m1 where m1: "DoIdleWork m = Some (started, m1)"
        "m' = (if started then goto (InTask (AfterIdle True)) m1 else goto (AfterIdle False) m1)"
        using r AfterDelayed by (auto simp: pump_at_def bind_eq_Some_conv)
      then have "m' = goto (AfterIdle False) m1" "m1 = m \<or> m1 = pump_Quit m" using DoIdleWork_idle [OF m1(1) q] by auto
      moreover have "sleep_inv (AfterIdle False) m1"
        using calculation(2) inv AfterDelayed True sleep_same [of "AfterIdle False" m "pump_Quit m"] by auto
      ultimately show ?thesis using f by auto
    next
      case False
      then have "m' = finish_run m \<or> m' = goto AtDoWork m" using r AfterDelayed by (auto simp: pump_at_def split: if_splits)
      then show ?thesis using fin f by auto
    qed
  next
    case (AfterIdle d)
    show ?thesis
    proof (cases "keep_running m \<and> \<not> d")
      case True
      then have m': "m' = sleep_place m" using r AfterIdle by (simp add: pump_at_def)
      have "delayed_work_time m = first_delayed m" "wakeup_due m False" using inv AfterIdle True by auto
      then show ?thesis using m' f pos by (auto simp: sleep_place_def first_delayed_def split: if_splits)
    next
      case False
      then have "m' = finish_run m \<or> m' = goto AtDoWork m" using r AfterIdle by (auto simp: pump_at_def split: if_splits)
      then show ?thesis using fin f by auto
    qed
  qed (use r in \<open>auto simp: pump_at_def\<close>)
qed

lemma kept_queues [simp]:
  "work_queue (RunLoop_Quit i m) = work_queue m" "incoming_queue (RunLoop_Quit i m) = incoming_queue m"
  "delayed_work_queue (RunLoop_Quit i m) = delayed_work_queue m" "delayed_work_time (RunLoop_Quit i m) = delayed_work_time m"
  "processed_io_events (RunLoop_Quit i m) = processed_io_events m"
  "work_queue (QuitNow m) = work_queue m" "incoming_queue (QuitNow m) = incoming_queue m"
  "delayed_work_queue (QuitNow m) = delayed_work_queue m" "delayed_work_time (QuitNow m) = delayed_work_time m"
  "processed_io_events (QuitNow m) = processed_io_events m"
  "work_queue (QuitWhenIdle m) = work_queue m" "incoming_queue (QuitWhenIdle m) = incoming_queue m"
  "delayed_work_queue (QuitWhenIdle m) = delayed_work_queue m" "delayed_work_time (QuitWhenIdle m) = delayed_work_time m"
  "processed_io_events (QuitWhenIdle m) = processed_io_events m"
  by (simp_all add: RunLoop_Quit_def QuitNow_def QuitWhenIdle_def Let_def split: list.splits)

definition sleeps_well :: "'c message_loop \<Rightarrow> bool" where
  "sleeps_well m = (case place_of m of None \<Rightarrow> True | Some p \<Rightarrow> sleep_inv p m)"

lemma sleeps_same:
  assumes "sleeps_well m" "map place (frames m') = map place (frames m)"
    "work_queue m' = work_queue m" "delayed_work_queue m' = delayed_work_queue m"
    "delayed_work_time m' = delayed_work_time m" "wakeup_pipe m \<le> wakeup_pipe m'"
    "incoming_queue m' \<noteq> [] \<longrightarrow> incoming_queue m \<noteq> [] \<or> 0 < wakeup_pipe m'"
    "processed_io_events m' = processed_io_events m"
  shows "sleeps_well m'"
  using assms sleep_same [of _ m m'] unfolding sleeps_well_def place_map by (auto split: list.splits)

lemma sleeps_goto: "sleep_inv q m \<Longrightarrow> sleeps_well (goto q m)"
  by (simp add: sleeps_well_def)

lemma sleep_invariant: "loop_reachable False m \<Longrightarrow> sleeps_well m"
proof (induction rule: loop_reachable.induct)
  case start
  then show ?case by (simp add: new_MessageLoop_def sleeps_well_def place_of_def)
next
  case (more m m')
  note inv = more.IH
  have at: "sleep_inv p m" if "place_of m = Some p" for p using inv that by (simp add: sleeps_well_def)
  note tasks = tasks_invariant [OF more.hyps(1)] and chk = checks_invariant [OF more.hyps(1)]
  from more.hyps(2) show ?case
  proof cases
    case (post c delay nest accepted)
    consider "m' = m" | t where "m' = enqueue_task t m" using post_is [OF post] by auto
    then show ?thesis
    proof cases
      case 1
      then show ?thesis using inv by simp
    next
      case (2 t)
      show ?thesis unfolding 2
        by (rule sleeps_same [OF inv]) (use enqueue_task_fields(15) [of m t] in \<open>auto simp: enqueue_task_fields(1-14)\<close>)
    qed
  next
    case (own p)
    then obtain f fs where f: "frames m = f # fs" "place f = p" by (auto simp: place_frames)
    have one: "run_depth m = 1" "fs = []" using tasks f by (auto simp: run_depth_def)
    have "\<not> in_task p" using pump_places [OF own(2)] by auto
    then have al: "nestable_tasks_allowed m" using chk f one by (auto simp: checks_inv_def)
    have q: "deferred_queue m = []" using tasks by (auto simp: tasks_inv_def)
    have "0 < first_delayed m" if "delayed_work_queue m \<noteq> []"
      using tasks that delayed_top_in [OF that] by (auto simp: tasks_inv_def first_delayed_def)
    then show ?thesis using pump_at_sleep [OF at [OF own(1)] one(1) al q _ own] by (auto simp: sleeps_well_def place_of_def)
  next
    case (poll_event d w)
    then show ?thesis by (auto intro!: sleeps_goto simp: wakeup_due_def)
  next
    case (poll_return d w)
    then show ?thesis using at [OF poll_return(2)] by (auto intro!: sleeps_goto)
  next
    case (poll_wakeup d m1)
    then have "processed_io_events m1" by (auto simp: OnWakeup_def)
    then show ?thesis using poll_wakeup by (auto intro!: sleeps_goto simp: poll_over_def wakeup_due_def)
  next
    case (poll_end d)
    then show ?thesis using at [OF poll_end(2)] by (auto intro!: sleeps_goto simp: poll_over_def wakeup_due_def)
  next
    case (task_return p)
    then obtain f fs where f: "frames m = f # fs" "place f = InTask p" by (auto simp: place_frames)
    then have "after_task p" using chk by (auto simp: checks_inv_def)
    then show ?thesis using task_return
      by (auto simp: task_returned_def after_task_def wakeup_due_def intro!: sleeps_goto)
  next
    case (allow p b)
    then have "place_of m' = Some (InTask p)" by (simp add: place_map del: places_kept) (simp add: place_map [symmetric])
    then show ?thesis by (simp add: sleeps_well_def)
  next
    case (run w)
    then show ?thesis by (simp add: RunLoop_Run_def sleeps_well_def place_of_def)
  qed (auto intro: sleeps_same [OF inv] intro!: sleeps_goto)
qed

section \<open>The order of delayed tasks\<close>

text \<open>
  The comparison of sequence numbers is one of ints: it is an order as long as the tasks in the
  queue were posted within 2^31 posts of each other.
\<close>

definition posts_after :: "uint32 \<Rightarrow> 'c task \<Rightarrow> nat" where
  "posts_after base t = unat (sequence_num t - base)"

lemma int_difference: "n < 2147483648 \<Longrightarrow> k < 2147483648 \<Longrightarrow> signed_take_bit 31 (int n - int k) = int n - int k"
  by (rule signed_take_bit_int_eq_self) simp_all

lemma sint_small:
  fixes z :: uint32
  assumes "unat z < 2147483648"
  shows "sint z = int (unat z)"
proof -
  have i: "uint z = int (unat z)" by (rule uint_nat)
  have "sint z = signed_take_bit 31 (uint z)" by (simp add: sint_uint)
  then show ?thesis using int_difference [OF assms, of 0] unfolding i by simp
qed

lemma sint_difference:
  fixes x y :: uint32
  assumes "unat x < 2147483648" "unat y < 2147483648"
  shows "sint (x - y) = int (unat x) - int (unat y)"
proof -
  have "sint (x - y) = signed_take_bit 31 (sint x - sint y)" using sint_word_ariths(2) [of x y] by simp
  also have "\<dots> = signed_take_bit 31 (int (unat x) - int (unat y))"
    by (simp only: sint_small [OF assms(1)] sint_small [OF assms(2)])
  also have "\<dots> = int (unat x) - int (unat y)" by (rule int_difference [OF assms])
  finally show ?thesis .
qed

lemma task_less_iff:
  assumes "posts_after base a < 2147483648" "posts_after base b < 2147483648"
  shows "task_less a b \<longleftrightarrow>
    delayed_run_time b < delayed_run_time a \<or>
    delayed_run_time b = delayed_run_time a \<and> posts_after base b < posts_after base a"
proof -
  have "sequence_num a - sequence_num b = (sequence_num a - base) - (sequence_num b - base)" by simp
  then have "sint (sequence_num a - sequence_num b) = int (posts_after base a) - int (posts_after base b)"
    using sint_difference assms unfolding posts_after_def by metis
  then show ?thesis by (auto simp: task_less_def)
qed

definition runs_before :: "uint32 \<Rightarrow> 'c task \<Rightarrow> 'c task \<Rightarrow> bool" where
  "runs_before base a b =
     (if delayed_run_time a = delayed_run_time b then posts_after base a \<le> posts_after base b
      else delayed_run_time a < delayed_run_time b)"

lemma delayed_fold_order:
  assumes "\<forall>u \<in> insert b (set q). posts_after base u < 2147483648"
  shows "\<forall>u \<in> insert b (set q). runs_before base (foldl (\<lambda>best t. if task_less best t then t else best) b q) u"
  using assms
proof (induction q arbitrary: b)
  case Nil
  then show ?case by (simp add: runs_before_def)
next
  case (Cons t q)
  have trans: "runs_before base x z" if "runs_before base x y" "runs_before base y z" for x y z :: "'a task"
    using that by (auto simp: runs_before_def split: if_splits)
  have lt: "task_less b t \<longleftrightarrow> delayed_run_time t < delayed_run_time b \<or>
      delayed_run_time t = delayed_run_time b \<and> posts_after base t < posts_after base b"
    using Cons.prems by (intro task_less_iff) auto
  show ?case
  proof (cases "task_less b t")
    case True
    then have "runs_before base t b" using lt by (auto simp: runs_before_def)
    then show ?thesis using True Cons.IH [of t] Cons.prems trans by auto
  next
    case False
    then have "runs_before base b t" using lt by (auto simp: runs_before_def)
    then show ?thesis using False Cons.IH [of b] Cons.prems trans by auto
  qed
qed

lemma delayed_top_first:
  assumes "\<forall>t \<in> set q. posts_after base t < 2147483648" "t \<in> set q"
  shows "runs_before base (delayed_top q) t"
proof -
  obtain b qs where q: "q = b # qs" using assms(2) by (cases q) auto
  have "\<forall>u \<in> insert b (set qs). posts_after base u < 2147483648" using assms(1) q by simp
  from delayed_fold_order [OF this] show ?thesis using assms(2) q by (auto simp: delayed_top_def)
qed

section \<open>A task posted to a sleeping loop\<close>

lemma work_loop_runs:
  "nestable_tasks_allowed m \<Longrightarrow> run_depth m = 1 \<Longrightarrow> \<forall>u \<in> set ds. delayed_run_time u \<noteq> 0 \<Longrightarrow> delayed_run_time t = 0 \<Longrightarrow>
   \<exists>m'. work_loop (ds @ t # q) m = Some (True, m') \<and> ran m' = ran m @ [(t, 1, now m)]"
proof (induction ds arbitrary: m)
  case Nil
  then show ?case by (auto simp: DeferOrRunPendingTask_def RunTask_def run_depth_def Let_def)
next
  case (Cons u ds)
  let ?m2 = "AddToDelayedWorkQueue u (m\<lparr>work_queue := ds @ t # q\<rparr>)"
  let ?m3 = "if closure (delayed_top (delayed_work_queue ?m2)) = closure u then ?m2\<lparr>delayed_work_time := delayed_run_time u\<rparr> else ?m2"
  have f: "nestable_tasks_allowed ?m3" "run_depth ?m3 = 1" "ran ?m3 = ran m" "now ?m3 = now m"
    using Cons.prems by (simp_all add: AddToDelayedWorkQueue_def run_depth_def)
  have "work_loop ((u # ds) @ t # q) m = work_loop (ds @ t # q) ?m3" using Cons.prems(3) by (simp add: Let_def)
  then show ?case using Cons.IH [OF f(1,2)] Cons.prems(3,4) f(3,4) by auto
qed

lemma goto_goto [simp]: "goto p (goto q m) = goto p m"
  by (simp add: goto_def split: list.splits)

lemma goto_fields [simp]:
  "wakeup_pipe (goto p m) = wakeup_pipe m" "nestable_tasks_allowed (goto p m) = nestable_tasks_allowed m"
  "work_queue (goto p m) = work_queue m" "incoming_queue (goto p m) = incoming_queue m" "ran (goto p m) = ran m"
  "now (goto p m) = now m" "run_depth (goto p m) = run_depth m"
  by (simp_all add: goto_def run_depth_def split: list.splits)

text \<open>
  C4: every task posted has been run or is in exactly one of the queues, in every reachable state
  of the loop, nested or not, whatever other threads post meanwhile; and the tasks without a delay
  are run in the order of the posts (when loops nest, the nestable ones): the tasks run, those of the
  work queue and those of the incoming queue make up the posts, in order.
\<close>

theorem tasks_accounted:
  assumes "loop_reachable nesting m"
  shows "mset (posted m) = mset (map fst (ran m)) + mset (deferred_queue m) + mset (delayed_work_queue m) +
           mset (work_queue m) + mset (incoming_queue m) \<and>
         filter (immediate nesting) (posted m) =
           filter (immediate nesting) (map fst (ran m) @ work_queue m @ incoming_queue m)"
  using tasks_invariant [OF assms] by (simp add: tasks_inv_def)

text \<open>A task posted and started.\<close>

definition demo_loop :: "nat message_loop" where
  "demo_loop = the (pump_at InDoWork (the (pump_at AtDoWork (RunLoop_Run False (the (PostTask 7 new_MessageLoop))))))"

lemma new_fields:
  "nestable_tasks_allowed (new_MessageLoop :: nat message_loop)" "frames (new_MessageLoop :: nat message_loop) = []"
  by (simp_all add: new_MessageLoop_def)

lemmas loop_eval = PostTask_def AddToIncomingQueue_def PostPendingTask_def CalculateDelayedRuntime_def dcheck_def enqueue_task_def ScheduleWork_def
  pump_ScheduleWork_def pipe_capacity_def RunLoop_Run_def pump_at_def goto_def DoWork_round_def ReloadWorkQueue_def
  DeferOrRunPendingTask_def RunTask_def run_depth_def new_MessageLoop_def place_of_def Let_def

lemma demo_reachable: "loop_reachable nesting demo_loop"
proof -
  let ?m1 = "the (PostTask 7 (new_MessageLoop :: nat message_loop))"
  let ?m2 = "RunLoop_Run False ?m1" let ?m3 = "the (pump_at AtDoWork ?m2)"
  have "loop_step nesting new_MessageLoop ?m1"
    by (rule loop_step.post [of 7 0 True _ True]) (simp add: loop_eval)
  moreover have "loop_step nesting ?m1 ?m2" by (rule loop_step.run) (simp add: loop_eval)
  moreover have "loop_step nesting ?m2 ?m3" by (rule loop_step.own [of _ AtDoWork]) (simp_all add: loop_eval)
  moreover have "loop_step nesting ?m3 demo_loop"
    unfolding demo_loop_def by (rule loop_step.own [of _ InDoWork]) (simp_all add: loop_eval)
  ultimately show ?thesis by (meson loop_reachable.intros)
qed

lemma demo_state:
  "ran demo_loop = [(\<lparr>closure = 7, delayed_run_time = 0, sequence_num = 0, nestable = True\<rparr>, 1, 1)]"
  "posted demo_loop = [\<lparr>closure = 7, delayed_run_time = 0, sequence_num = 0, nestable = True\<rparr>]"
  by (simp_all add: demo_loop_def loop_eval)

theorem tasks_accounted_witness:
  "mset (posted demo_loop) = mset (map fst (ran demo_loop)) + mset (deferred_queue demo_loop) +
     mset (delayed_work_queue demo_loop) + mset (work_queue demo_loop) + mset (incoming_queue demo_loop) \<and>
   posted demo_loop \<noteq> []"
  using tasks_accounted [OF demo_reachable [of True]] demo_state by simp

text \<open>
  C6: no task is run before its time, and none that is not nestable in a nested loop: in every
  reachable state each entry of the log of runs (task, depth, time) has a nestable task or depth 1,
  and a time that is not before the task's delayed_run_time.
\<close>

theorem tasks_run_in_time:
  assumes "loop_reachable nesting m"
  shows "list_all (\<lambda>(t, depth, time). (nestable t \<or> depth = 1) \<and> delayed_run_time t \<le> time) (ran m)"
  using tasks_invariant [OF assms] by (auto simp: tasks_inv_def list_all_iff)

theorem tasks_run_in_time_witness:
  "list_all (\<lambda>(t, depth, time). (nestable t \<or> depth = 1) \<and> delayed_run_time t \<le> time) (ran demo_loop) \<and> ran demo_loop \<noteq> []"
  using tasks_run_in_time [OF demo_reachable [of True]] demo_state by simp

definition own_place :: "pump_place \<Rightarrow> bool" where
  "own_place p = (case p of AtDoWork \<Rightarrow> True | InDoWork \<Rightarrow> True | AfterDoWork d \<Rightarrow> True | AfterPoll d \<Rightarrow> True
     | AfterDelayed d \<Rightarrow> True | AfterIdle d \<Rightarrow> True | _ \<Rightarrow> False)"

text \<open>
  The DCHECKs of RunTask and OnWakeup hold in every reachable state, nested loops included: in
  a place of its own the pump always has a next step, and when libevent reports the pipe there is a
  byte to read.
\<close>

theorem no_check_fails:
  assumes "loop_reachable nesting m" "place_of m = Some p"
  shows "(if own_place p then pump_at p m \<noteq> None else True) \<and> (if reports_wakeup p then OnWakeup m \<noteq> None else True)"
proof -
  have inv: "checks_inv m" by (rule checks_invariant [OF assms(1)])
  obtain f fs where f: "frames m = f # fs" "place f = p" using assms(2) by (auto simp: place_frames)
  have "pump_at p m \<noteq> None" if "own_place p"
  proof -
    have "place f \<in> {AtDoWork, InDoWork} \<union> range AfterDoWork \<union> range AfterPoll \<union> range AfterDelayed \<union> range AfterIdle"
      using that f(2) by (cases p) (auto simp: own_place_def)
    then show ?thesis using pump_at_checks [OF inv f(1)] f(2) by auto
  qed
  moreover have "OnWakeup m \<noteq> None" if "reports_wakeup p"
    using reports_pipe [OF inv assms(2) that] by (simp add: OnWakeup_def dcheck_def)
  ultimately show ?thesis by simp
qed

definition demo_polling :: "nat message_loop" where
  "demo_polling = the (pump_at (AfterDoWork True) (task_returned (AfterDoWork True) demo_loop))"

lemma demo_polling_reachable: "loop_reachable nesting demo_polling"
proof -
  have "loop_step nesting demo_loop (task_returned (AfterDoWork True) demo_loop)"
    by (rule loop_step.task_return) (simp add: demo_loop_def loop_eval)
  moreover have "loop_step nesting (task_returned (AfterDoWork True) demo_loop) demo_polling"
    by (rule loop_step.own [of _ "AfterDoWork True"])
      (simp_all add: demo_loop_def demo_polling_def task_returned_def loop_eval)
  ultimately show ?thesis using demo_reachable by (meson loop_reachable.more)
qed

lemma demo_polling_place: "place_of demo_polling = Some (Polling True True)"
  by (simp add: demo_polling_def demo_loop_def task_returned_def loop_eval)

theorem no_check_fails_witness: "OnWakeup demo_polling \<noteq> None"
  using no_check_fails [OF demo_polling_reachable [of True] demo_polling_place] by simp


text \<open>A loop that has nothing to do, in one place after the other, until it sleeps.\<close>

definition idle_at :: "pump_place \<Rightarrow> nat message_loop" where
  "idle_at p = (RunLoop_Run False new_MessageLoop)\<lparr>frames :=
     [\<lparr>place = p, quit_when_idle_received = False, quit_called = False, saved_keep_running = True\<rparr>]\<rparr>"

lemma idle_place: "place_of (idle_at p) = Some p"
  by (simp add: idle_at_def place_of_def)

lemma idle_step:
  "pump_at AtDoWork (idle_at AtDoWork) = Some (idle_at InDoWork)"
  "pump_at InDoWork (idle_at InDoWork) = Some (idle_at (AfterDoWork False))"
  "pump_at (AfterDoWork False) (idle_at (AfterDoWork False)) = Some (idle_at (Polling False False))"
  "poll_over False (idle_at (Polling False False)) = idle_at (AfterPoll False)"
  "pump_at (AfterPoll False) (idle_at (AfterPoll False)) = Some (idle_at (AfterDelayed False))"
  "pump_at (AfterDelayed False) (idle_at (AfterDelayed False)) = Some (idle_at (AfterIdle False))"
  "pump_at (AfterIdle False) (idle_at (AfterIdle False)) = Some (idle_at (Blocked None))"
  by (simp_all add: idle_at_def loop_eval poll_over_def DoDelayedWork_def DoIdleWork_def
      ProcessNextDelayedNonNestableTask_def sleep_place_def)

lemma idle_reachable: "loop_reachable nesting (idle_at (Blocked None))"
proof -
  have own: "loop_reachable nesting (idle_at p)" if "loop_reachable nesting (idle_at q)" "pump_at q (idle_at q) = Some (idle_at p)" for p q
    using that loop_step.own [OF idle_place that(2)] by (blast intro: loop_reachable.more)
  have "loop_reachable nesting (RunLoop_Run False new_MessageLoop)"
    by (rule loop_reachable.more [OF loop_reachable.start loop_step.run]) (simp add: new_MessageLoop_def)
  moreover have "RunLoop_Run False new_MessageLoop = idle_at AtDoWork"
    by (simp add: idle_at_def RunLoop_Run_def new_MessageLoop_def)
  ultimately have "loop_reachable nesting (idle_at (Polling False False))" using own idle_step(1-3) by metis
  then have "loop_reachable nesting (poll_over False (idle_at (Polling False False)))"
    by (rule loop_reachable.more) (rule loop_step.poll_end [OF idle_place])
  then show ?thesis unfolding idle_step(4) using own idle_step(5-7) by metis
qed

definition demo_blocked :: "nat message_loop" where
  "demo_blocked = the (PostTask 8 (idle_at (Blocked None)))"

lemma demo_blocked_reachable: "loop_reachable nesting demo_blocked"
proof (rule loop_reachable.more [OF idle_reachable])
  show "loop_step nesting (idle_at (Blocked None)) demo_blocked"
    unfolding demo_blocked_def by (rule loop_step.post [of 8 0 True _ True]) (simp add: loop_eval idle_at_def)
qed

lemma demo_blocked_state:
  "place_of demo_blocked = Some (Blocked None)" "now demo_blocked = 1" "ran demo_blocked = []"
  "incoming_queue demo_blocked = [\<lparr>closure = 8, delayed_run_time = 0, sequence_num = 0, nestable = True\<rparr>]"
  by (simp_all add: demo_blocked_def idle_at_def loop_eval)




end
