(* ===== verification/StringSplit.thy ===== *)
theory StringSplit
  imports Prelude
begin

text \<open>
  base/strings/string_split.cc, with the trimming and joining of base/strings/string_util.cc and the
  tokenizer of base/strings/string_tokenizer.h it is used together with. The templates are modelled
  for characters of any width; a string is a list of characters and an index into it a number.
  A DCHECK that fires is the value None.
\<close>

section \<open>Searching and trimming\<close>

definition find_first_not_of :: "'c list \<Rightarrow> 'c list \<Rightarrow> nat option" where
  "find_first_not_of str chars = List.find (\<lambda>i. str ! i \<notin> set chars) [0..<length str]"

definition find_last_not_of :: "'c list \<Rightarrow> 'c list \<Rightarrow> nat option" where
  "find_last_not_of str chars = List.find (\<lambda>i. str ! i \<notin> set chars) (rev [0..<length str])"

definition find_substr :: "'c list \<Rightarrow> 'c list \<Rightarrow> nat \<Rightarrow> nat option" where
  "find_substr str s from = List.find (\<lambda>e. take (length s) (drop e str) = s) [from..<length str + 1]"

text \<open>The positions to trim, and those trimmed, are two flags: leading and trailing.\<close>

type_synonym trim_positions = "bool \<times> bool"

definition TRIM_NONE :: trim_positions where "TRIM_NONE = (False, False)"
definition TRIM_ALL :: trim_positions where "TRIM_ALL = (True, True)"

definition TrimStringT :: "'c list \<Rightarrow> 'c list \<Rightarrow> trim_positions \<Rightarrow> trim_positions \<times> 'c list" where
  "TrimStringT str trim_chars positions =
     (let last_char = length str - 1;
          first_good = (if fst positions then find_first_not_of str trim_chars else Some 0);
          last_good = (if snd positions then find_last_not_of str trim_chars else Some last_char)
      in case (first_good, last_good) of
           (Some f, Some l) \<Rightarrow>
             if str = [] then (TRIM_NONE, []) else ((f \<noteq> 0, l \<noteq> last_char), take (l - f + 1) (drop f str))
         | _ \<Rightarrow> (if str = [] then TRIM_NONE else positions, []))"

definition kWhitespaceASCII :: "byte list" where
  "kWhitespaceASCII = [0x09, 0x0A, 0x0B, 0x0C, 0x0D, 0x20]"

definition kWhitespaceUTF16 :: "uint16 list" where
  "kWhitespaceUTF16 =
     [0x0009, 0x000A, 0x000B, 0x000C, 0x000D, 0x0020, 0x0085, 0x00A0, 0x1680, 0x2000, 0x2001, 0x2002, 0x2003,
      0x2004, 0x2005, 0x2006, 0x2007, 0x2008, 0x2009, 0x200A, 0x2028, 0x2029, 0x202F, 0x205F, 0x3000]"

text \<open>TrimWhitespace is overloaded: its first argument is the list of white space of the character type.\<close>

definition TrimWhitespace :: "'c list \<Rightarrow> 'c list \<Rightarrow> trim_positions \<Rightarrow> 'c list" where
  "TrimWhitespace ws str positions = snd (TrimStringT str ws positions)"

section \<open>Splitting at a character\<close>

text \<open>The loop for i from 0 to the length; the start of the piece is the source's variable last.\<close>

function split_loop :: "'c list \<Rightarrow> 'c list \<Rightarrow> 'c \<Rightarrow> bool \<Rightarrow> nat \<Rightarrow> nat \<Rightarrow> 'c list list \<Rightarrow> 'c list list" where
  "split_loop ws str s trim start i r =
     (if length str < i then r
      else if i = length str \<or> str ! i = s then
        let tmp0 = take (i - start) (drop start str);
            tmp = (if trim then TrimWhitespace ws tmp0 TRIM_ALL else tmp0)
        in split_loop ws str s trim (i + 1) (i + 1) (if i \<noteq> length str \<or> r \<noteq> [] \<or> tmp \<noteq> [] then r @ [tmp] else r)
      else split_loop ws str s trim start (i + 1) r)"
  by pat_completeness auto
termination by (relation "measure (\<lambda>(ws, str, s, trim, start, i, r). length str + 1 - i)") auto

declare split_loop.simps [simp del]

definition SplitStringT :: "'c list \<Rightarrow> 'c list \<Rightarrow> 'c \<Rightarrow> bool \<Rightarrow> 'c list list" where
  "SplitStringT ws str s trim = split_loop ws str s trim 0 0 []"

definition SplitString :: "byte list \<Rightarrow> byte \<Rightarrow> byte list list option" where
  "SplitString str c = do { dcheck (0 \<le> sint c); dcheck (sint c < 0x7F); Some (SplitStringT kWhitespaceASCII str c True) }"

definition CBU16_IS_SINGLE :: "uint16 \<Rightarrow> bool" where
  "CBU16_IS_SINGLE c = (c AND 0xf800 \<noteq> 0xd800)"

definition SplitString16 :: "uint16 list \<Rightarrow> uint16 \<Rightarrow> uint16 list list option" where
  "SplitString16 str c = do { dcheck (CBU16_IS_SINGLE c); Some (SplitStringT kWhitespaceUTF16 str c True) }"

definition SplitStringDontTrim16 :: "uint16 list \<Rightarrow> uint16 \<Rightarrow> uint16 list list option" where
  "SplitStringDontTrim16 str c = do { dcheck (CBU16_IS_SINGLE c); Some (SplitStringT kWhitespaceUTF16 str c False) }"

definition JoinStringT :: "'c list list \<Rightarrow> 'c list \<Rightarrow> 'c list" where
  "JoinStringT parts sep =
     (case parts of [] \<Rightarrow> [] | p # ps \<Rightarrow> foldl (\<lambda>result part. (result @ sep) @ part) p ps)"

section \<open>Splitting at a substring\<close>

text \<open>The loop ends only if every search moves on.\<close>

partial_function (option) substr_loop :: "'c list \<Rightarrow> 'c list \<Rightarrow> 'c list \<Rightarrow> nat \<Rightarrow> 'c list list \<Rightarrow> 'c list list option" where
  "substr_loop ws str s begin_index r =
     (case find_substr str s begin_index of
        None \<Rightarrow> Some (r @ [TrimWhitespace ws (drop begin_index str) TRIM_ALL])
      | Some end_index \<Rightarrow>
          substr_loop ws str s (end_index + length s)
            (r @ [TrimWhitespace ws (take (end_index - begin_index) (drop begin_index str)) TRIM_ALL]))"

definition SplitStringUsingSubstrT :: "'c list \<Rightarrow> 'c list \<Rightarrow> 'c list \<Rightarrow> 'c list list option" where
  "SplitStringUsingSubstrT ws str s = substr_loop ws str s 0 []"

section \<open>Splitting along white space\<close>

fun whitespace_loop :: "'a::len word list \<Rightarrow> nat \<Rightarrow> nat \<Rightarrow> bool \<times> nat \<times> 'a word list list \<Rightarrow> bool \<times> nat \<times> 'a word list list" where
  "whitespace_loop str i 0 st = st"
| "whitespace_loop str i (Suc n) (last_was_ws, last_non_ws_start, result) =
     whitespace_loop str (i + 1) n
       (if str ! i \<in> {32, 9, 10, 11, 12, 13} then
          (if \<not> last_was_ws then
             (True, last_non_ws_start,
              if 0 < i then result @ [take (i - last_non_ws_start) (drop last_non_ws_start str)] else result)
           else (last_was_ws, last_non_ws_start, result))
        else if last_was_ws then (False, i, result)
        else (last_was_ws, last_non_ws_start, result))"

definition SplitStringAlongWhitespace :: "'a::len word list \<Rightarrow> 'a word list list" where
  "SplitStringAlongWhitespace str =
     (if length str = 0 then []
      else case whitespace_loop str 0 (length str) (False, 0, []) of
        (last_was_ws, last_non_ws_start, result) \<Rightarrow>
          if \<not> last_was_ws then result @ [drop last_non_ws_start str] else result)"

section \<open>Keys and values\<close>

text \<open>The result, the key and the value.\<close>

definition SplitStringIntoKeyValue :: "byte list \<Rightarrow> byte \<Rightarrow> bool \<times> byte list \<times> byte list" where
  "SplitStringIntoKeyValue line key_value_delimiter =
     (case List.find (\<lambda>i. line ! i = key_value_delimiter) [0..<length line] of
        None \<Rightarrow> (False, [], [])
      | Some end_key_pos \<Rightarrow>
          let key = take end_key_pos line;
              remains = drop end_key_pos line
          in case find_first_not_of remains [key_value_delimiter] of
               None \<Rightarrow> (False, key, [])
             | Some begin_value_pos \<Rightarrow> (True, key, drop begin_value_pos remains))"

fun key_value_loop :: "byte \<Rightarrow> byte list list \<Rightarrow> bool \<times> (byte list \<times> byte list) list \<Rightarrow> bool \<times> (byte list \<times> byte list) list" where
  "key_value_loop d [] st = st"
| "key_value_loop d (p # pairs) (success, key_value_pairs) =
     key_value_loop d pairs
       (if p = [] then (success, key_value_pairs)
        else case SplitStringIntoKeyValue p d of
          (ok, key, value) \<Rightarrow> (if \<not> ok then False else success, key_value_pairs @ [(key, value)]))"

definition SplitStringIntoKeyValuePairs :: "byte list \<Rightarrow> byte \<Rightarrow> byte \<Rightarrow> (bool \<times> (byte list \<times> byte list) list) option" where
  "SplitStringIntoKeyValuePairs line key_value_delimiter key_value_pair_delimiter = do {
     pairs \<leftarrow> SplitString line key_value_pair_delimiter;
     Some (key_value_loop key_value_delimiter pairs (True, []))
   }"

section \<open>The tokenizer\<close>

text \<open>
  QuickGetNext, from the text after the last token: whether there is a token, the token and the text
  after it. When there is none both iterators are at the end, and the token is empty.
\<close>

fun QuickGetNext :: "'c list \<Rightarrow> 'c list \<Rightarrow> bool \<times> 'c list \<times> 'c list" where
  "QuickGetNext delims [] = (False, [], [])"
| "QuickGetNext delims (c # t) =
     (if c \<in> set delims then QuickGetNext delims t
      else (True, c # takeWhile (\<lambda>x. x \<notin> set delims) t, dropWhile (\<lambda>x. x \<notin> set delims) t))"

section \<open>Joining\<close>

lemma JoinStringT_simps:
  "JoinStringT [] sep = []" "JoinStringT [p] sep = p" "JoinStringT (p # q # ps) sep = p @ sep @ JoinStringT (q # ps) sep"
proof -
  define f where "f = (\<lambda>result part. (result @ sep) @ part)"
  have "foldl f (a @ b) ps = a @ foldl f b ps" for a b
    by (induction ps arbitrary: b) (simp_all add: f_def)
  moreover have "f p q = (p @ sep) @ q" by (simp add: f_def)
  ultimately show "JoinStringT (p # q # ps) sep = p @ sep @ JoinStringT (q # ps) sep"
    unfolding JoinStringT_def f_def [symmetric] by simp
qed (simp_all add: JoinStringT_def)

lemma JoinStringT_snoc: "ps \<noteq> [] \<Longrightarrow> JoinStringT (ps @ [q]) sep = JoinStringT ps sep @ sep @ q"
  by (induction ps rule: induct_list012) (auto simp: JoinStringT_simps)

lemma JoinStringT_Cons: "ps \<noteq> [] \<Longrightarrow> JoinStringT (p # ps) sep = p @ sep @ JoinStringT ps sep"
  by (cases ps) (simp_all add: JoinStringT_simps)

section \<open>The pieces of a string\<close>

fun pieces :: "'c \<Rightarrow> 'c list \<Rightarrow> 'c list list" where
  "pieces s [] = [[]]"
| "pieces s (c # cs) = (if c = s then [] # pieces s cs else (c # hd (pieces s cs)) # tl (pieces s cs))"

lemma pieces_not_Nil [simp]: "pieces s str \<noteq> []"
  by (cases str) auto

lemma pieces_join: "JoinStringT (pieces s str) [s] = str"
proof (induction str)
  case (Cons c cs)
  obtain p ps where p: "pieces s cs = p # ps" by (cases "pieces s cs") auto
  show ?case using Cons p by (cases ps) (auto simp: JoinStringT_simps)
qed (simp add: JoinStringT_simps)

lemma pieces_no_separator: "p \<in> set (pieces s str) \<Longrightarrow> s \<notin> set p"
proof (induction str arbitrary: p)
  case (Cons c cs)
  obtain q qs where q: "pieces s cs = q # qs" by (cases "pieces s cs") auto
  show ?case using Cons q by (auto split: if_splits)
qed simp

lemma pieces_plain: "s \<notin> set p \<Longrightarrow> pieces s p = [p]"
  by (induction p) auto

lemma pieces_append: "s \<notin> set p \<Longrightarrow> pieces s (p @ s # str) = p # pieces s str"
  by (induction p) auto

lemma pieces_of_join: "ps \<noteq> [] \<Longrightarrow> \<forall>p \<in> set ps. s \<notin> set p \<Longrightarrow> pieces s (JoinStringT ps [s]) = ps"
  by (induction ps rule: induct_list012) (auto simp: JoinStringT_simps pieces_plain pieces_append)

text \<open>The loop, from a position with no separator between it and the start of the current piece.\<close>

lemma take_between: "start \<le> i \<Longrightarrow> i < length str \<Longrightarrow> take (i + 1 - start) (drop start str) = take (i - start) (drop start str) @ [str ! i]"
  by (simp add: Suc_diff_le take_Suc_conv_app_nth)

lemma split_loop_eq:
  fixes f :: "'c list \<Rightarrow> 'c list"
  assumes f: "f = (\<lambda>t. if trim then TrimWhitespace ws t TRIM_ALL else t)"
  shows "start \<le> i \<Longrightarrow> i \<le> length str \<Longrightarrow> s \<notin> set (take (i - start) (drop start str)) \<Longrightarrow>
   split_loop ws str s trim start i r =
     (let ps = map f (pieces s (drop start str)) in if r = [] \<and> ps = [[]] then [] else r @ ps)"
proof (induction "length str - i" arbitrary: i start r)
  case 0
  then have i: "i = length str" by simp
  have "pieces s (drop start str) = [drop start str]" using 0 i by (intro pieces_plain) simp
  then show ?case
    using i 0(2) by (subst split_loop.simps) (simp add: split_loop.simps [of _ _ _ _ _ "Suc (length str)"] f Let_def)
next
  case (Suc n)
  then have i: "i < length str" by simp
  have d: "drop start str = take (i - start) (drop start str) @ str ! i # drop (i + 1) str"
    using i Suc.prems(1) by (metis Cons_nth_drop_Suc Suc_eq_plus1 append_take_drop_id drop_drop le_add_diff_inverse2)
  show ?case
  proof (cases "str ! i = s")
    case True
    have "pieces s (drop start str) = take (i - start) (drop start str) # pieces s (drop (i + 1) str)"
      using pieces_append [OF Suc.prems(3), of "drop (i + 1) str"] d True by simp
    moreover have "split_loop ws str s trim start i r =
        split_loop ws str s trim (i + 1) (i + 1) (r @ [f (take (i - start) (drop start str))])"
      using i True by (subst split_loop.simps) (simp add: f Let_def)
    ultimately show ?thesis using Suc i by (simp add: Let_def)
  next
    case False
    have "split_loop ws str s trim start i r = split_loop ws str s trim start (i + 1) r"
      using i False by (subst split_loop.simps) simp
    moreover have "s \<notin> set (take (i + 1 - start) (drop start str))"
      using Suc.prems False i by (simp only: take_between) simp
    ultimately show ?thesis using Suc i by simp
  qed
qed

lemma SplitStringT_eq:
  "SplitStringT ws str s trim =
     (let ps = map (\<lambda>t. if trim then TrimWhitespace ws t TRIM_ALL else t) (pieces s str) in if ps = [[]] then [] else ps)"
  unfolding SplitStringT_def using split_loop_eq [OF refl, of 0 0 str s ws trim "[]"] by (simp add: Let_def)

section \<open>Trimmed strings\<close>

lemma upt_around: "a \<le> i \<Longrightarrow> i < b \<Longrightarrow> [a..<b] = [a..<i] @ i # [Suc i..<b]"
  using upt_add_eq_append [of a i "b - i"] upt_conv_Cons [of i b] by simp

lemma find_upt_least:
  assumes "Q i" "a \<le> i" "i < b" "\<And>j. a \<le> j \<Longrightarrow> j < i \<Longrightarrow> \<not> Q j"
  shows "List.find Q [a..<b] = Some i"
proof -
  have "[a..<b] = [a..<i] @ i # [Suc i..<b]" using assms(2,3) by (rule upt_around)
  moreover have "List.find Q (xs @ ys) = List.find Q ys" if "\<forall>j \<in> set xs. \<not> Q j" for xs ys :: "nat list"
    using that by (induction xs) auto
  ultimately show ?thesis using assms(1,4) by simp
qed

lemma find_rev_upt_greatest:
  assumes "Q i" "i < b" "\<And>j. i < j \<Longrightarrow> j < b \<Longrightarrow> \<not> Q j"
  shows "List.find Q (rev [0..<b]) = Some i"
proof -
  have "rev [0..<b] = rev [Suc i..<b] @ i # rev [0..<i]" using upt_around [OF le0 assms(2)] by simp
  moreover have "List.find Q (xs @ ys) = List.find Q ys" if "\<forall>j \<in> set xs. \<not> Q j" for xs ys :: "nat list"
    using that by (induction xs) auto
  ultimately show ?thesis using assms(1,3) by simp
qed

lemma TrimWhitespace_middle:
  assumes str: "str = a @ m @ b" and a: "set a \<subseteq> set ws" and b: "set b \<subseteq> set ws" and m: "m \<noteq> []" "hd m \<notin> set ws" "last m \<notin> set ws"
  shows "TrimWhitespace ws str TRIM_ALL = m"
proof -
  have len: "length str = length a + length m + length b" and m0: "0 < length m" using str m by simp_all
  have f: "find_first_not_of str ws = Some (length a)"
    unfolding find_first_not_of_def
    by (rule find_upt_least) (use a m len m0 in \<open>auto simp: str nth_append hd_conv_nth dest: nth_mem\<close>)
  have "str ! (length a + (length m - 1)) = last m"
    unfolding str nth_append_length_plus using m0 by (simp add: nth_append last_conv_nth)
  then have "str ! (length a + length m - 1) = last m" using m0 by simp
  moreover have "str ! j \<in> set ws" if "length a + length m - 1 < j" "j < length str" for j
  proof -
    have "j - length a - length m < length b" "\<not> j < length a" "\<not> j - length a < length m" using that len m0 by auto
    then show ?thesis using b by (auto simp: str nth_append dest: nth_mem)
  qed
  moreover have "length a + length m - 1 < length str" using len m0 by linarith
  ultimately have l: "find_last_not_of str ws = Some (length a + length m - 1)"
    unfolding find_last_not_of_def using m len by (intro find_rev_upt_greatest) auto
  have "length a + length m - 1 - length a + 1 = length m" using m0 by simp
  then show ?thesis using str m f l by (simp add: TrimWhitespace_def TrimStringT_def TRIM_ALL_def Let_def)
qed

lemma TrimWhitespace_blank: "set str \<subseteq> set ws \<Longrightarrow> TrimWhitespace ws str TRIM_ALL = []"
proof -
  assume "set str \<subseteq> set ws"
  then have "find_first_not_of str ws = None"
    unfolding find_first_not_of_def find_None_iff by (auto dest: nth_mem)
  then show ?thesis by (simp add: TrimWhitespace_def TrimStringT_def TRIM_ALL_def)
qed

lemma TrimWhitespace_cases:
  obtains "set str \<subseteq> set ws" "TrimWhitespace ws str TRIM_ALL = []"
  | a m b where "str = a @ m @ b" "set a \<subseteq> set ws" "set b \<subseteq> set ws" "m \<noteq> []" "hd m \<notin> set ws" "last m \<notin> set ws"
      "TrimWhitespace ws str TRIM_ALL = m"
proof (cases "set str \<subseteq> set ws")
  case True
  then show ?thesis using that(1) TrimWhitespace_blank [of str ws] by blast
next
  case False
  then obtain c where c: "c \<in> set str" "c \<notin> set ws" by blast
  define a where "a = takeWhile (\<lambda>x. x \<in> set ws) str"
  define t where "t = dropWhile (\<lambda>x. x \<in> set ws) str"
  define b where "b = rev (takeWhile (\<lambda>x. x \<in> set ws) (rev t))"
  define m where "m = rev (dropWhile (\<lambda>x. x \<in> set ws) (rev t))"
  have str: "str = a @ t" by (simp add: a_def t_def)
  have t: "t = m @ b" unfolding m_def b_def by (metis rev_append rev_rev_ident takeWhile_dropWhile_id)
  have ab: "set a \<subseteq> set ws" "set b \<subseteq> set ws" by (auto simp: a_def b_def dest: set_takeWhileD)
  have tn: "t \<noteq> []" "hd t \<notin> set ws"
    using c hd_dropWhile [of "\<lambda>x. x \<in> set ws" str] by (auto simp: t_def dropWhile_eq_Nil_conv)
  have mn: "m \<noteq> []" using tn by (auto simp: m_def dropWhile_eq_Nil_conv)
  have l: "last m \<notin> set ws"
    using mn hd_dropWhile [of "\<lambda>x. x \<in> set ws" "rev t"] by (auto simp: m_def last_rev)
  have h: "hd m \<notin> set ws" using tn t mn by simp
  show ?thesis
    by (rule that(2) [of a m b]) (use str t ab mn h l in \<open>auto intro!: TrimWhitespace_middle\<close>)
qed

lemma TrimWhitespace_clean:
  "str \<noteq> [] \<Longrightarrow> hd str \<notin> set ws \<Longrightarrow> last str \<notin> set ws \<Longrightarrow> TrimWhitespace ws str TRIM_ALL = str"
  by (rule TrimWhitespace_middle [of _ "[]" _ "[]"]) auto

lemma TrimWhitespace_subset: "set (TrimWhitespace ws str TRIM_ALL) \<subseteq> set str"
  by (rule TrimWhitespace_cases [of str ws]) auto

section \<open>Splitting and joining\<close>

text \<open>
  Splitting without trimming is the inverse of joining. The pieces joined by the separator are
  the string and none of them contains it; and parts without the separator, once joined, are split
  into the same parts, unless there is just one and it is empty.
\<close>

theorem split_join_roundtrip:
  assumes "CBU16_IS_SINGLE c" and "\<forall>p \<in> set ps. c \<notin> set p" and "ps \<noteq> [[]]"
  shows "SplitStringDontTrim16 (JoinStringT ps [c]) c = Some ps \<and>
    (\<exists>r. SplitStringDontTrim16 str c = Some r \<and> JoinStringT r [c] = str \<and> c \<notin> \<Union> (set ` set r))"
proof -
  have e: "SplitStringDontTrim16 str c = Some (if pieces c str = [[]] then [] else pieces c str)" for str
    using assms(1) by (simp add: SplitStringDontTrim16_def SplitStringT_eq Let_def)
  have "SplitStringDontTrim16 (JoinStringT ps [c]) c = Some ps"
    using assms(2,3) by (cases "ps = []") (simp_all add: e pieces_of_join JoinStringT_simps)
  moreover have "JoinStringT (if pieces c str = [[]] then [] else pieces c str) [c] = str"
    using pieces_join [of c str] by (auto simp: JoinStringT_simps)
  ultimately show ?thesis using e [of str] pieces_no_separator [of _ c str] by auto
qed

theorem split_join_roundtrip_witness:
  "SplitStringDontTrim16 (JoinStringT [[97, 32], [], [98]] [44]) 44 = Some [[97, 32], [], [98]]"
  using split_join_roundtrip [of 44 "[[97, 32], [], [98]]" "[]"] by (simp add: CBU16_IS_SINGLE_def)

section \<open>Splitting at a substring ends or not\<close>

lemma find_SomeD: "List.find Q xs = Some e \<Longrightarrow> e \<in> set xs \<and> Q e"
  by (induction xs) (auto split: if_splits)

lemma find_substr_Some:
  assumes "find_substr str s from = Some e"
  shows "from \<le> e" "e + length s \<le> length str" "take (length s) (drop e str) = s"
proof -
  have i: "e \<in> set [from..<length str + 1]" "take (length s) (drop e str) = s"
    using find_SomeD [OF assms [unfolded find_substr_def]] by blast+
  then show "from \<le> e" "take (length s) (drop e str) = s" by auto
  have "length (take (length s) (drop e str)) = length s" by (simp only: i(2))
  then have "min (length s) (length str - e) = length s" by simp
  then show "e + length s \<le> length str" using i by (auto simp: min_def split: if_splits)
qed

lemma find_substr_empty: "from \<le> length str \<Longrightarrow> find_substr str [] from = Some from"
  unfolding find_substr_def by (rule find_upt_least) auto

lemma substr_loop_empty_separator: "substr_loop ws str s b r = Some x \<Longrightarrow> s = [] \<Longrightarrow> b \<le> length str \<Longrightarrow> False"
proof (induction ws str s b r x rule: substr_loop.raw_induct [rotated, consumes 1, case_names step])
  case (step rec ws str s b r x)
  then show ?case using find_substr_empty [of b str] by auto
qed

text \<open>
  With a separator the loop gives the trimmed pieces; the pieces themselves, joined, are the string.
\<close>

lemma substr_loop_ends:
  "s \<noteq> [] \<Longrightarrow> b \<le> length str \<Longrightarrow>
   \<exists>ps. substr_loop ws str s b r = Some (r @ map (\<lambda>t. TrimWhitespace ws t TRIM_ALL) ps) \<and> ps \<noteq> [] \<and> JoinStringT ps s = drop b str"
proof (induction "length str - b" arbitrary: b r rule: less_induct)
  case less
  show ?case
  proof (cases "find_substr str s b")
    case None
    then show ?thesis
      by (intro exI [of _ "[drop b str]"]) (simp add: substr_loop.simps [of ws str s b] JoinStringT_simps)
  next
    case (Some e)
    note e = find_substr_Some [OF Some]
    have l: "length str - (e + length s) < length str - b" using e less.prems by (cases s) auto
    define t where "t = take (e - b) (drop b str)"
    obtain ps where ps: "substr_loop ws str s (e + length s) (r @ [TrimWhitespace ws t TRIM_ALL]) =
        Some ((r @ [TrimWhitespace ws t TRIM_ALL]) @ map (\<lambda>t. TrimWhitespace ws t TRIM_ALL) ps)"
      "ps \<noteq> []" "JoinStringT ps s = drop (e + length s) str"
      using less.hyps [OF l less.prems(1) e(2)] by blast
    have "drop b str = t @ drop e str" unfolding t_def using take_drop_join [of e b "e - b" str] e(1) by simp
    moreover have "drop e str = s @ drop (e + length s) str"
      by (metis e(3) append_take_drop_id drop_drop add.commute)
    ultimately have "JoinStringT (t # ps) s = drop b str" using ps(2,3) by (simp add: JoinStringT_Cons)
    moreover have "substr_loop ws str s b r = Some (r @ map (\<lambda>t. TrimWhitespace ws t TRIM_ALL) (t # ps))"
      using ps(1) Some by (simp add: substr_loop.simps [of ws str s b] t_def [symmetric])
    ultimately show ?thesis by blast
  qed
qed

text \<open>
  Splitting at a substring returns exactly when the substring is not empty. Then the result is
  the trimmed pieces of the string, at least one of them, and the pieces joined by the substring are
  the string. With an empty substring the loop never ends.
\<close>

theorem split_substr_ends:
  "if s = [] then SplitStringUsingSubstrT ws str s = None
   else \<exists>ps. SplitStringUsingSubstrT ws str s = Some (map (\<lambda>t. TrimWhitespace ws t TRIM_ALL) ps) \<and> ps \<noteq> [] \<and>
     JoinStringT ps s = str"
proof (cases "s = []")
  case True
  then have "SplitStringUsingSubstrT ws str s = None"
    unfolding SplitStringUsingSubstrT_def
    by (cases "substr_loop ws str s 0 []") (auto dest: substr_loop_empty_separator)
  then show ?thesis using True by simp
next
  case False
  then show ?thesis
    unfolding SplitStringUsingSubstrT_def if_not_P [OF False] using substr_loop_ends [OF False, of 0 str ws "[]"] by simp
qed

theorem split_substr_ends_witness:
  "SplitStringUsingSubstrT kWhitespaceASCII [97, 61, 61, 98] [] = None \<and>
   (\<exists>ps. SplitStringUsingSubstrT kWhitespaceASCII [97, 61, 61, 98] [61, 61] = Some (map (\<lambda>t. TrimWhitespace kWhitespaceASCII t TRIM_ALL) ps))"
  using split_substr_ends [of "[]" kWhitespaceASCII "[97, 61, 61, 98]"] split_substr_ends [of "[61, 61]" kWhitespaceASCII "[97, 61, 61, 98]"]
  by auto

section \<open>Words\<close>

definition blank_whitespace :: "'a::len word list \<Rightarrow> 'a word list" where
  "blank_whitespace = map (\<lambda>c. if c \<in> {32, 9, 10, 11, 12, 13} then 32 else c)"

lemma pieces_snoc:
  "pieces s (xs @ [c]) = (if c = s then pieces s xs @ [[]] else butlast (pieces s xs) @ [last (pieces s xs) @ [c]])"
proof (induction xs)
  case (Cons x xs)
  obtain p ps where p: "pieces s xs = p # ps" by (cases "pieces s xs") auto
  show ?case using Cons p by (cases ps) auto
qed simp

text \<open>What the loop knows at index i.\<close>

fun words_inv :: "'a::len word list \<Rightarrow> nat \<Rightarrow> bool \<times> nat \<times> 'a word list list \<Rightarrow> bool" where
  "words_inv str i (last_was_ws, start, result) \<longleftrightarrow>
     (let ps = pieces 32 (blank_whitespace (take i str))
      in result = filter (\<lambda>p. p \<noteq> []) (butlast ps) \<and>
         last ps = (if last_was_ws then [] else take (i - start) (drop start str)) \<and>
         (\<not> last_was_ws \<longrightarrow> start < i \<or> (i = 0 \<and> start = 0)))"

lemma filter_last: "ps \<noteq> [] \<Longrightarrow> filter Q ps = filter Q (butlast ps) @ filter Q [last ps]"
  by (metis append_butlast_last_id filter_append)

lemma whitespace_loop_inv:
  "words_inv str i st \<Longrightarrow> i + n = length str \<Longrightarrow> words_inv str (length str) (whitespace_loop str i n st)"
proof (induction n arbitrary: i st)
  case (Suc n)
  obtain lw start res where st: "st = (lw, start, res)" by (cases st) auto
  have i: "i < length str" using Suc.prems by simp
  let ?ps = "pieces 32 (blank_whitespace (take i str))"
  note inv = Suc.prems(1) [unfolded st words_inv.simps Let_def]
  have snoc: "blank_whitespace (take (Suc i) str) = blank_whitespace (take i str) @ [if str ! i \<in> {32, 9, 10, 11, 12, 13} then 32 else str ! i]"
    using i by (simp add: blank_whitespace_def take_Suc_conv_app_nth)
  have seg: "\<not> lw \<Longrightarrow> take (i - start) (drop start str) @ [str ! i] = take (Suc i - start) (drop start str)"
    using inv i take_between [of start i str] by auto
  have one: "take (Suc i - i) (drop i str) = [str ! i]" using i by (simp add: take_Suc_conv_app_nth hd_drop_conv_nth take_Suc)
  have ne: "\<not> lw \<Longrightarrow> 0 < i \<Longrightarrow> take (i - start) (drop start str) \<noteq> []" using inv i by auto
  have "words_inv str (i + 1)
     (if str ! i \<in> {32, 9, 10, 11, 12, 13} then
        (if \<not> lw then (True, start, if 0 < i then res @ [take (i - start) (drop start str)] else res) else (lw, start, res))
      else if lw then (False, i, res) else (lw, start, res))" (is "words_inv str (i + 1) ?st")
  proof (cases "str ! i \<in> {32, 9, 10, 11, 12, 13}")
    case True
    then have p: "pieces 32 (blank_whitespace (take (Suc i) str)) = ?ps @ [[]]" unfolding snoc by (simp only: pieces_snoc if_True if_P refl)
    have "filter (\<lambda>p. p \<noteq> []) ?ps = (if \<not> lw \<and> 0 < i then res @ [take (i - start) (drop start str)] else res)"
      using inv ne filter_last [of ?ps "\<lambda>p. p \<noteq> []"] by (cases lw; cases "i = 0") auto
    then show ?thesis unfolding if_P [OF True] Suc_eq_plus1 [symmetric] by (cases lw) (auto simp: p Let_def)
  next
    case False
    then have p: "pieces 32 (blank_whitespace (take (Suc i) str)) = butlast ?ps @ [last ?ps @ [str ! i]]"
      unfolding snoc by (simp only: pieces_snoc if_False if_not_P) auto
    show ?thesis unfolding if_not_P [OF False] Suc_eq_plus1 [symmetric]
      using inv seg one by (cases lw) (auto simp: p Let_def)
  qed
  then show ?case using Suc.IH [of "i + 1" ?st] Suc.prems(2) unfolding st whitespace_loop.simps by simp
qed simp

text \<open>
  Splitting along white space gives the words of the text, as if every white space character were
  a blank, the text split at the blanks and the empty pieces left out.
\<close>

theorem split_whitespace_words:
  "SplitStringAlongWhitespace str = filter (\<lambda>p. p \<noteq> []) (pieces 32 (blank_whitespace str))"
proof (cases "str = []")
  case True
  then show ?thesis by (simp add: SplitStringAlongWhitespace_def blank_whitespace_def)
next
  case False
  obtain lw start res where st: "whitespace_loop str 0 (length str) (False, 0, []) = (lw, start, res)"
    using prod_cases3 by blast
  have "words_inv str 0 (False, 0, [])" by (simp add: blank_whitespace_def)
  from whitespace_loop_inv [OF this, of "length str"]
  have inv: "words_inv str (length str) (lw, start, res)" by (simp add: st)
  then show ?thesis
    using False filter_last [of "pieces 32 (blank_whitespace str)" "\<lambda>p. p \<noteq> []"]
    by (cases lw) (auto simp: SplitStringAlongWhitespace_def st Let_def)
qed

section \<open>Pairs\<close>

definition clean_pair :: "byte \<Rightarrow> byte \<Rightarrow> byte list \<times> byte list \<Rightarrow> bool" where
  "clean_pair kd pd = (\<lambda>(k, v). kd \<notin> set k \<and> pd \<notin> set k \<and> pd \<notin> set v \<and> v \<noteq> [] \<and> hd v \<noteq> kd \<and>
     hd (k @ [kd]) \<notin> set kWhitespaceASCII \<and> last v \<notin> set kWhitespaceASCII)"

definition pair_text :: "byte \<Rightarrow> byte list \<times> byte list \<Rightarrow> byte list" where
  "pair_text kd = (\<lambda>(k, v). k @ kd # v)"

lemma SplitStringIntoKeyValue_pair:
  assumes "clean_pair kd pd (k, v)"
  shows "SplitStringIntoKeyValue (pair_text kd (k, v)) kd = (True, k, v)"
proof -
  let ?line = "k @ kd # v"
  have c: "kd \<notin> set k" "v \<noteq> []" "hd v \<noteq> kd" using assms by (auto simp: clean_pair_def)
  have "List.find (\<lambda>i. ?line ! i = kd) [0..<length ?line] = Some (length k)"
    by (rule find_upt_least) (use c in \<open>auto simp: nth_append dest: nth_mem\<close>)
  moreover have "find_first_not_of (kd # v) [kd] = Some 1"
    unfolding find_first_not_of_def by (rule find_upt_least) (use c in \<open>auto simp: hd_conv_nth\<close>)
  ultimately show ?thesis by (simp add: SplitStringIntoKeyValue_def pair_text_def Let_def)
qed

lemma key_value_loop_pairs:
  "\<forall>p \<in> set ps. clean_pair kd pd p \<Longrightarrow> key_value_loop kd (map (pair_text kd) ps) (True, acc) = (True, acc @ ps)"
proof (induction ps arbitrary: acc)
  case (Cons p ps)
  obtain k v where p: "p = (k, v)" by (cases p)
  then have "clean_pair kd pd (k, v)" using Cons.prems by simp
  from SplitStringIntoKeyValue_pair [OF this] show ?case
    using Cons p by (auto simp: pair_text_def)
qed simp

lemma TrimWhitespace_pair_text: "clean_pair kd pd p \<Longrightarrow> TrimWhitespace kWhitespaceASCII (pair_text kd p) TRIM_ALL = pair_text kd p"
  by (cases p; cases "fst p") (auto simp: clean_pair_def pair_text_def intro!: TrimWhitespace_clean)

text \<open>
  Pairs written as key, delimiter and value, joined by a second delimiter, are read back exactly.
  The keys and values are free of the delimiters and not framed by white space, the values are not
  empty; a key may well be empty, and the result is success even so.
\<close>

theorem key_value_roundtrip:
  assumes "kd \<noteq> pd" "0 \<le> sint pd" "sint pd < 0x7F" and ps: "\<forall>p \<in> set ps. clean_pair kd pd p"
  shows "SplitStringIntoKeyValuePairs (JoinStringT (map (pair_text kd) ps) [pd]) kd pd = Some (True, ps)"
proof -
  have n: "\<forall>p \<in> set (map (pair_text kd) ps). pd \<notin> set p" using ps assms(1) by (auto simp: clean_pair_def pair_text_def)
  have t: "map (\<lambda>t. TrimWhitespace kWhitespaceASCII t TRIM_ALL) (map (pair_text kd) ps) = map (pair_text kd) ps"
    using ps TrimWhitespace_pair_text by auto
  have ne: "map (pair_text kd) ps \<noteq> [[]]" by (auto simp: pair_text_def)
  have "SplitStringT kWhitespaceASCII (JoinStringT (map (pair_text kd) ps) [pd]) pd True = map (pair_text kd) ps"
  proof (cases "ps = []")
    case True
    then show ?thesis by (simp add: SplitStringT_eq JoinStringT_simps TrimWhitespace_blank Let_def)
  next
    case False
    then have "pieces pd (JoinStringT (map (pair_text kd) ps) [pd]) = map (pair_text kd) ps"
      by (intro pieces_of_join [OF _ n]) simp
    then show ?thesis by (simp only: SplitStringT_eq Let_def if_True t ne if_False)
  qed
  then show ?thesis
    using assms(2,3) key_value_loop_pairs [OF ps, of "[]"] by (simp add: SplitStringIntoKeyValuePairs_def SplitString_def)
qed

theorem key_value_roundtrip_witness:
  "SplitStringIntoKeyValuePairs [61, 49, 59, 97, 61, 50] 61 59 = Some (True, [([], [49]), ([97], [50])])"
  using key_value_roundtrip [of 61 59 "[([], [49]), ([97], [50])]"]
  by (simp add: clean_pair_def pair_text_def kWhitespaceASCII_def JoinStringT_simps)

end
