(* ===== verification/Http.thy ===== *)
theory Http
  imports IOBuffer StringSplit
begin

text \<open>
  The HTTP codec, net/http: status codes, responses and how they are written, requests with their
  headers, the context that collects a request from the callbacks of the HTTP parser, and the codec
  that connects it with the handler. The parser itself (http_parser, third party) is a parameter: a
  function from its state and the bytes it is given to its new state, the number of bytes it has
  parsed and the callbacks it has made. A DCHECK or NOTREACHED that fires is None.
\<close>

section \<open>Responses\<close>

definition chars :: "string \<Rightarrow> byte list" where "chars s = map of_char s"

definition http_status_list :: "(nat \<times> string) list" where
  "http_status_list =
     [(100, ''Continue''), (101, ''Switching Protocols''),
      (200, ''OK''), (201, ''Created''), (202, ''Accepted''), (203, ''Non-Authoritative Information''),
      (204, ''No Content''), (205, ''Reset Content''), (206, ''Partial Content''),
      (300, ''Multiple Choices''), (301, ''Moved Permanently''), (302, ''Found''), (303, ''See Other''),
      (304, ''Not Modified''), (305, ''Use Proxy''), (307, ''Temporary Redirect''), (308, ''Permanent Redirect''),
      (400, ''Bad Request''), (401, ''Unauthorized''), (402, ''Payment Required''), (403, ''Forbidden''),
      (404, ''Not Found''), (405, ''Method Not Allowed''), (406, ''Not Acceptable''),
      (407, ''Proxy Authentication Required''), (408, ''Request Timeout''), (409, ''Conflict''), (410, ''Gone''),
      (411, ''Length Required''), (412, ''Precondition Failed''), (413, ''Request Entity Too Large''),
      (414, ''Request-URI Too Long''), (415, ''Unsupported Media Type''), (416, ''Requested Range Not Satisfiable''),
      (417, ''Expectation Failed''),
      (500, ''Internal Server Error''), (501, ''Not Implemented''), (502, ''Bad Gateway''), (503, ''Service Unavailable''),
      (504, ''Gateway Timeout''), (505, ''HTTP Version Not Supported'')]"

definition HTTP_OK :: nat where "HTTP_OK = 200"
definition HTTP_NOT_FOUND :: nat where "HTTP_NOT_FOUND = 404"
definition HTTP_INTERNAL_SERVER_ERROR :: nat where "HTTP_INTERNAL_SERVER_ERROR = 500"

definition GetHttpReasonPhrase :: "nat \<Rightarrow> byte list option" where
  "GetHttpReasonPhrase code = map_option chars (map_of http_status_list code)"

record http_response =
  status_code :: nat
  response_headers :: "(byte list \<times> byte list) list"
  body :: "byte list"

definition new_response :: "nat \<Rightarrow> http_response" where
  "new_response code = \<lparr>status_code = code, response_headers = [], body = []\<rparr>"

definition AddHeader :: "byte list \<Rightarrow> byte list \<Rightarrow> http_response \<Rightarrow> http_response" where
  "AddHeader name val r = r\<lparr>response_headers := response_headers r @ [(name, val)]\<rparr>"

text \<open>The decimal digits that StringPrintf writes for a number.\<close>

fun decimal :: "nat \<Rightarrow> byte list" where
  "decimal n = (if n < 10 then [of_nat (48 + n)] else decimal (n div 10) @ [of_nat (48 + n mod 10)])"

declare decimal.simps [simp del]

definition SetBody :: "byte list \<Rightarrow> byte list \<Rightarrow> http_response \<Rightarrow> http_response option" where
  "SetBody b content_type r = do {
     dcheck (body r = []);
     Some (AddHeader (chars ''Content-Type'') content_type
             (AddHeader (chars ''Content-Length'') (decimal (length b)) (r\<lparr>body := b\<rparr>)))
   }"

definition CreateFor404 :: "http_response option" where
  "CreateFor404 = SetBody [] (chars ''text/html'') (new_response HTTP_NOT_FOUND)"

definition CreateFor500 :: "byte list \<Rightarrow> http_response option" where
  "CreateFor500 b = SetBody b (chars ''text/html'') (new_response HTTP_INTERNAL_SERVER_ERROR)"

definition crlf :: "byte list" where "crlf = [13, 10]"

definition Serialize :: "http_response \<Rightarrow> byte list option" where
  "Serialize r = do {
     reason \<leftarrow> GetHttpReasonPhrase (status_code r);
     Some (chars ''HTTP/1.1 '' @ decimal (status_code r) @ chars '' '' @ reason @ crlf @
           concat (map (\<lambda>(n, v). n @ chars '':'' @ v @ crlf) (response_headers r)) @ crlf @ body r)
   }"

section \<open>Requests\<close>

record http_request =
  http_method :: "byte list"
  path :: "byte list"
  headers :: "byte list \<rightharpoonup> byte list"

definition ToLowerASCII :: "byte \<Rightarrow> byte" where
  "ToLowerASCII c = (if 65 \<le> c \<and> c \<le> 90 then c + 32 else c)"

definition StringToLowerASCII :: "byte list \<Rightarrow> byte list" where
  "StringToLowerASCII s = map ToLowerASCII s"

definition GetHeaderValue :: "byte list \<Rightarrow> http_request \<Rightarrow> byte list option" where
  "GetHeaderValue name r = do {
     dcheck (StringToLowerASCII name = name);
     Some (case headers r name of Some v \<Rightarrow> v | None \<Rightarrow> [])
   }"

text \<open>TokenizeT of string_util.cc, from the position where the next token starts.\<close>

definition next_not_of :: "'c list \<Rightarrow> 'c list \<Rightarrow> nat \<Rightarrow> nat option" where
  "next_not_of str delimiters from = List.find (\<lambda>i. str ! i \<notin> set delimiters) [from..<length str]"

definition next_of :: "'c list \<Rightarrow> 'c list \<Rightarrow> nat \<Rightarrow> nat option" where
  "next_of str delimiters from = List.find (\<lambda>i. str ! i \<in> set delimiters) [from..<length str]"

lemma next_bounds:
  "next_not_of str ds k = Some i \<Longrightarrow> k \<le> i \<and> i < length str \<and> str ! i \<notin> set ds"
  "next_of str ds k = Some i \<Longrightarrow> k \<le> i \<and> i < length str \<and> str ! i \<in> set ds"
  by (auto simp: next_not_of_def next_of_def dest!: find_SomeD)

function token_loop :: "'c list \<Rightarrow> 'c list \<Rightarrow> nat option \<Rightarrow> 'c list list" where
  "token_loop str ds None = []"
| "token_loop str ds (Some start) =
     (case next_of str ds (start + 1) of
        None \<Rightarrow> [drop start str]
      | Some e \<Rightarrow> take (e - start) (drop start str) # token_loop str ds (next_not_of str ds (e + 1)))"
  by pat_completeness auto

termination
proof (relation "measure (\<lambda>(str, ds, p). case p of None \<Rightarrow> 0 | Some s \<Rightarrow> Suc (length str - s))")
  fix str ds :: "'c list" and start e
  assume "next_of str ds (start + 1) = Some e"
  then have "start < e" "e < length str" using next_bounds(2) by fastforce+
  then show "((str, ds, next_not_of str ds (e + 1)), str, ds, Some start)
    \<in> measure (\<lambda>(str, ds, p). case p of None \<Rightarrow> 0 | Some s \<Rightarrow> Suc (length str - s))"
    using next_bounds(1) [of str ds "e + 1"] by (auto split: option.split)
qed simp

definition Tokenize :: "'c list \<Rightarrow> 'c list \<Rightarrow> 'c list list" where
  "Tokenize str ds = token_loop str ds (next_not_of str ds 0)"

definition TrimString :: "'c list \<Rightarrow> 'c list \<Rightarrow> bool \<times> 'c list" where
  "TrimString input trim_chars =
     (let (p, out) = TrimStringT input trim_chars TRIM_ALL in (p \<noteq> TRIM_NONE, out))"

definition HasHeaderValue :: "byte list \<Rightarrow> byte list \<Rightarrow> http_request \<Rightarrow> bool option" where
  "HasHeaderValue name val r = do {
     dcheck (StringToLowerASCII val = val);
     complete \<leftarrow> GetHeaderValue name r;
     Some (list_ex (\<lambda>t. snd (TrimString t (chars [CHR '' '', CHR 0x09])) = val) (Tokenize (StringToLowerASCII complete) (chars '','')))
   }"

section \<open>The context of a connection\<close>

text \<open>The callbacks. The constructor leaves done_ as it finds it: its first value is a parameter.\<close>

datatype http_event =
    EvUrl "byte list" | EvHeaderField "byte list" | EvHeaderValue "byte list"
  | EvHeadersComplete | EvBody "byte list" | EvMessageComplete

record 'p http_context =
  http_parser :: 'p
  http_request :: http_request
  tmp_header_field :: "byte list"
  http_done :: bool

definition new_HttpRequestContext :: "'p \<Rightarrow> bool \<Rightarrow> 'p http_context" where
  "new_HttpRequestContext parser_init junk =
     \<lparr>http_parser = parser_init, http_request = \<lparr>http_method = [], path = [], headers = Map.empty\<rparr>,
      tmp_header_field = [], http_done = junk\<rparr>"

definition http_Reset :: "'p \<Rightarrow> 'p http_context \<Rightarrow> 'p http_context" where
  "http_Reset parser_init c = c\<lparr>http_parser := parser_init\<rparr>"

definition DoUrl :: "byte list \<Rightarrow> 'p http_context \<Rightarrow> 'p http_context" where
  "DoUrl at c = c\<lparr>http_request := (http_request c)\<lparr>path := at\<rparr>\<rparr>"

definition DoHeaderField :: "byte list \<Rightarrow> 'p http_context \<Rightarrow> 'p http_context" where
  "DoHeaderField at c = c\<lparr>tmp_header_field := at\<rparr>"

text \<open>std::map::insert leaves a key that is there as it is.\<close>

definition map_insert :: "('k \<rightharpoonup> 'v) \<Rightarrow> 'k \<Rightarrow> 'v \<Rightarrow> ('k \<rightharpoonup> 'v)" where
  "map_insert m k v = (case m k of Some _ \<Rightarrow> m | None \<Rightarrow> m(k \<mapsto> v))"

definition DoHeaderValue :: "byte list \<Rightarrow> 'p http_context \<Rightarrow> 'p http_context" where
  "DoHeaderValue at c =
     c\<lparr>http_request := (http_request c)\<lparr>headers := map_insert (headers (http_request c)) (tmp_header_field c) at\<rparr>,
       tmp_header_field := []\<rparr>"

definition DoMessageComplete :: "'p http_context \<Rightarrow> 'p http_context" where
  "DoMessageComplete c = c\<lparr>http_done := True\<rparr>"

fun http_callback :: "'p http_context \<Rightarrow> http_event \<Rightarrow> 'p http_context" where
  "http_callback c (EvUrl at) = DoUrl at c"
| "http_callback c (EvHeaderField at) = DoHeaderField at c"
| "http_callback c (EvHeaderValue at) = DoHeaderValue at c"
| "http_callback c EvHeadersComplete = c"
| "http_callback c (EvBody at) = c"
| "http_callback c EvMessageComplete = DoMessageComplete c"

type_synonym 'p http_parser_execute = "'p \<Rightarrow> byte list \<Rightarrow> 'p \<times> nat \<times> http_event list"

definition OnHttpDataParse :: "'p http_parser_execute \<Rightarrow> 'p http_context \<Rightarrow> IOBuffer \<Rightarrow> (int \<times> 'p http_context \<times> IOBuffer) option" where
  "OnHttpDataParse execute c data =
     (let (p, n, evs) = execute (http_parser c) (content data);
          c1 = (foldl http_callback c evs)\<lparr>http_parser := p\<rparr>
      in if 0 < n then do {
           data1 \<leftarrow> Retrieve data n;
           Some (if http_done c1
                 then (0, c1\<lparr>http_request := (http_request c1)\<lparr>http_method := chars ''GET''\<rparr>\<rparr>, data1)
                 else (1, c1, data1))
         }
         else Some (- 1, c1, data))"

section \<open>The codec\<close>

text \<open>
  The codec keeps the context in the handler. The delegate is called with the request when there is
  one; what it returns is a parameter.
\<close>

definition Http_OnNewConnection :: "'p \<Rightarrow> bool \<Rightarrow> 'p http_context option \<Rightarrow> 'p http_context option" where
  "Http_OnNewConnection parser_init junk io_context = Some (new_HttpRequestContext parser_init junk)"

definition Http_OnDataReceived ::
  "'p http_parser_execute \<Rightarrow> (http_request \<Rightarrow> int) \<Rightarrow> 'p http_context option \<Rightarrow> IOBuffer \<Rightarrow>
   (int \<times> http_request option \<times> 'p http_context option \<times> IOBuffer) option" where
  "Http_OnDataReceived execute OnHttpRequest io_context data = do {
     ctx \<leftarrow> io_context;
     (r, c, data1) \<leftarrow> OnHttpDataParse execute ctx data;
     Some (if r = 0 then (OnHttpRequest (http_request c), Some (http_request c), Some c, data1)
           else (r, None, Some c, data1))
   }"

definition Http_OnConnectionClosed :: "'p http_context option \<Rightarrow> 'p http_context option" where
  "Http_OnConnectionClosed io_context = None"

text \<open>Sending hands the bytes of the response to the handler.\<close>

definition SendResponse :: "(byte list \<Rightarrow> 'h \<Rightarrow> 'h) \<Rightarrow> http_response \<Rightarrow> 'h \<Rightarrow> 'h option" where
  "SendResponse SendInternal2 r ih = do { s \<leftarrow> Serialize r; Some (SendInternal2 s ih) }"

definition Send404 :: "(byte list \<Rightarrow> 'h \<Rightarrow> 'h) \<Rightarrow> 'h \<Rightarrow> 'h option" where
  "Send404 SendInternal2 ih = do { r \<leftarrow> CreateFor404; SendResponse SendInternal2 r ih }"

definition Send500 :: "(byte list \<Rightarrow> 'h \<Rightarrow> 'h) \<Rightarrow> byte list \<Rightarrow> 'h \<Rightarrow> 'h option" where
  "Send500 SendInternal2 message ih = do { r \<leftarrow> CreateFor500 message; SendResponse SendInternal2 r ih }"

section \<open>Reading a response\<close>

text \<open>
  A client's view of a response: lines end with CR LF, the first one holds the version, the code and
  the reason, a header line is split at its first colon, and the empty line ends the headers.
\<close>

fun split_line :: "byte list \<Rightarrow> (byte list \<times> byte list) option" where
  "split_line (c # d # t) =
     (if c = 13 \<and> d = 10 then Some ([], t) else map_option (\<lambda>(l, r). (c # l, r)) (split_line (d # t)))"
| "split_line s = None"

lemma split_line_shorter: "split_line s = Some (l, t) \<Longrightarrow> length t < length s"
  by (induction s arbitrary: l rule: split_line.induct) (auto split: if_splits)

function parse_headers :: "byte list \<Rightarrow> ((byte list \<times> byte list) list \<times> byte list) option" where
  "parse_headers s =
     (case split_line s of
        None \<Rightarrow> None
      | Some (l, t) \<Rightarrow>
          if l = [] then Some ([], t)
          else if 58 \<in> set l then
            map_option (\<lambda>(hs, b). ((takeWhile (\<lambda>c. c \<noteq> 58) l, tl (dropWhile (\<lambda>c. c \<noteq> 58) l)) # hs, b)) (parse_headers t)
          else None)"
  by pat_completeness auto

termination by (relation "measure length") (auto dest: split_line_shorter)

declare parse_headers.simps [simp del]

definition dec_value :: "byte list \<Rightarrow> nat" where
  "dec_value ds = foldl (\<lambda>a c. 10 * a + (unat c - 48)) 0 ds"

definition parse_response :: "byte list \<Rightarrow> (nat \<times> byte list \<times> (byte list \<times> byte list) list \<times> byte list) option" where
  "parse_response s = do {
     (l, t) \<leftarrow> split_line s;
     dcheck (take 9 l = chars ''HTTP/1.1 '');
     let rest = drop 9 l;
     dcheck (32 \<in> set rest);
     (hs, b) \<leftarrow> parse_headers t;
     Some (dec_value (takeWhile (\<lambda>c. c \<noteq> 32) rest), tl (dropWhile (\<lambda>c. c \<noteq> 32) rest), hs, b)
   }"

section \<open>What is written is what is read\<close>

lemma split_line_at: "13 \<notin> set l \<Longrightarrow> split_line (l @ crlf @ t) = Some (l, t)"
proof (induction l)
  case (Cons c l)
  then show ?case by (cases "l @ crlf @ t") (auto simp: crlf_def)
qed (simp add: crlf_def)

lemma digit_value: "k < 10 \<Longrightarrow> unat (of_nat (48 + k) :: byte) = 48 + k"
  unfolding unat_of_nat by simp

lemma decimal_digits: "set (decimal n) \<subseteq> {c. 48 \<le> c \<and> c \<le> 57}"
proof (induction n rule: decimal.induct)
  case (1 n)
  have d: "48 \<le> (of_nat (48 + k) :: byte) \<and> (of_nat (48 + k) :: byte) \<le> 57" if "k < 10" for k
    using digit_value [OF that] that by (simp add: word_le_nat_alt)
  show ?case
  proof (cases "n < 10")
    case True
    have "decimal n = [of_nat (48 + n)]" using True by (subst decimal.simps) simp
    then show ?thesis using d [OF True] by simp
  next
    case False
    have "decimal n = decimal (n div 10) @ [of_nat (48 + n mod 10)]" using False by (subst decimal.simps) simp
    moreover have "n mod 10 < 10" by simp
    ultimately show ?thesis using d [of "n mod 10"] 1 [OF False] by simp
  qed
qed

lemma dec_value_snoc: "dec_value (ds @ [c]) = 10 * dec_value ds + (unat c - 48)"
  by (simp add: dec_value_def)

lemma dec_value_decimal [simp]: "dec_value (decimal n) = n"
proof (induction n rule: decimal.induct)
  case (1 n)
  show ?case
  proof (cases "n < 10")
    case True
    have "decimal n = [] @ [of_nat (48 + n)]" using True by (subst decimal.simps) simp
    then show ?thesis using digit_value [OF True] by (simp only: dec_value_snoc) (simp add: dec_value_def)
  next
    case False
    have "decimal n = decimal (n div 10) @ [of_nat (48 + n mod 10)]" using False by (subst decimal.simps) simp
    moreover have "unat (of_nat (48 + n mod 10) :: byte) = 48 + n mod 10" by (rule digit_value) simp
    ultimately show ?thesis using 1 [OF False] by (simp only: dec_value_snoc) simp
  qed
qed

definition clean_header :: "byte list \<times> byte list \<Rightarrow> bool" where
  "clean_header h \<longleftrightarrow> 13 \<notin> set (fst h) \<and> 13 \<notin> set (snd h) \<and> 58 \<notin> set (fst h)"

definition header_line :: "byte list \<times> byte list \<Rightarrow> byte list" where
  "header_line h = fst h @ chars '':'' @ snd h @ crlf"

lemma colon: "chars '':'' = [58]" by (simp add: chars_def)

lemma take_until: "c \<notin> set xs \<Longrightarrow> takeWhile (\<lambda>x. x \<noteq> c) (xs @ c # ys) = xs" "c \<notin> set xs \<Longrightarrow> dropWhile (\<lambda>x. x \<noteq> c) (xs @ c # ys) = c # ys"
  by (induction xs) auto

lemma parse_headers_lines:
  "list_all clean_header hs \<Longrightarrow> parse_headers (concat (map header_line hs) @ crlf @ b) = Some (hs, b)"
proof (induction hs)
  case Nil
  then show ?case using split_line_at [of "[]" b] by (subst parse_headers.simps) simp
next
  case (Cons h hs)
  let ?l = "fst h @ 58 # snd h"
  have "concat (map header_line (h # hs)) @ crlf @ b = ?l @ crlf @ (concat (map header_line hs) @ crlf @ b)"
    by (simp add: header_line_def colon)
  moreover have "13 \<notin> set ?l" using Cons.prems by (simp add: clean_header_def)
  ultimately have "split_line (concat (map header_line (h # hs)) @ crlf @ b) = Some (?l, concat (map header_line hs) @ crlf @ b)"
    using split_line_at by metis
  moreover have "58 \<notin> set (fst h)" using Cons.prems by (simp add: clean_header_def)
  ultimately show ?case using Cons.IH Cons.prems take_until [of 58 "fst h" "snd h"] by (subst parse_headers.simps) simp
qed

lemma reasons_clean: "list_all (\<lambda>(c, r). 13 \<notin> set (chars r)) http_status_list"
  by (simp add: http_status_list_def chars_def)

lemma reason_clean: "GetHttpReasonPhrase code = Some reason \<Longrightarrow> 13 \<notin> set reason"
  using reasons_clean by (auto simp: GetHttpReasonPhrase_def list_all_iff dest!: map_of_SomeD)

lemma Serialize_read:
  assumes reason: "GetHttpReasonPhrase (status_code r) = Some reason" and clean: "list_all clean_header (response_headers r)"
  shows "\<exists>s. Serialize r = Some s \<and> parse_response s = Some (status_code r, reason, response_headers r, body r)"
proof -
  let ?v = "chars ''HTTP/1.1 ''" let ?d = "decimal (status_code r)"
  let ?l = "?v @ ?d @ 32 # reason" let ?t = "concat (map header_line (response_headers r)) @ crlf @ body r"
  have v: "length ?v = 9" "13 \<notin> set ?v" "chars '' '' = [32]" by (simp_all add: chars_def)
  have lines: "(\<lambda>(n, v). n @ chars '':'' @ v @ crlf) = header_line" by (simp add: fun_eq_iff header_line_def)
  have s: "Serialize r = Some (?l @ crlf @ ?t)"
    using reason by (simp add: Serialize_def v(3) lines)
  have d: "13 \<notin> set ?d" "32 \<notin> set ?d" using decimal_digits [of "status_code r"] by auto
  have "13 \<notin> set ?l" using v(2) d(1) reason_clean [OF reason] by simp
  then have "split_line (?l @ crlf @ ?t) = Some (?l, ?t)" by (rule split_line_at)
  moreover have "take 9 ?l = ?v" "drop 9 ?l = ?d @ 32 # reason" using v(1) by simp_all
  ultimately have "parse_response (?l @ crlf @ ?t) = Some (status_code r, reason, response_headers r, body r)"
    using parse_headers_lines [OF clean, of "body r"] take_until [OF d(2), of reason]
    by (simp add: parse_response_def Let_def dcheck_def)
  then show ?thesis using s by blast
qed

definition add_headers :: "(byte list \<times> byte list) list \<Rightarrow> http_response \<Rightarrow> http_response" where
  "add_headers hs r = foldl (\<lambda>r (n, v). AddHeader n v r) r hs"

lemma add_headers_fields [simp]:
  "status_code (add_headers hs r) = status_code r" "body (add_headers hs r) = body r"
  "response_headers (add_headers hs r) = response_headers r @ hs"
  unfolding add_headers_def by (induction hs arbitrary: r) (auto simp: AddHeader_def)

text \<open>
  C20: a response with a known code, headers without CR (and no colon in a name) and a body set with
  SetBody is read back by a client from what Serialize writes: code, reason, headers in the order
  they were added, the body byte for byte, and a Content-Length that is its length.
\<close>

theorem response_roundtrip:
  assumes "GetHttpReasonPhrase code = Some reason" "list_all clean_header (before @ (chars ''Content-Type'', content_type) # after)"
    "SetBody b content_type (add_headers before (new_response code)) = Some r"
  shows "\<exists>s n. Serialize (add_headers after r) = Some s \<and>
    parse_response s = Some (code, reason,
      before @ [(chars ''Content-Length'', n), (chars ''Content-Type'', content_type)] @ after, b) \<and>
    dec_value n = length b"
proof -
  have r: "response_headers r = before @ [(chars ''Content-Length'', decimal (length b)), (chars ''Content-Type'', content_type)]"
    "status_code r = code" "body r = b"
    using assms(3) by (auto simp: SetBody_def AddHeader_def new_response_def)
  have "13 \<notin> set (decimal (length b))" using decimal_digits [of "length b"] by auto
  moreover have "13 \<notin> set (chars ''Content-Length'')" "58 \<notin> set (chars ''Content-Length'')" by (simp_all add: chars_def)
  ultimately have "list_all clean_header (response_headers (add_headers after r))"
    using assms(2) by (simp add: r clean_header_def)
  moreover have "GetHttpReasonPhrase (status_code (add_headers after r)) = Some reason" using assms(1) r by simp
  ultimately show ?thesis using Serialize_read [of "add_headers after r" reason] r by auto
qed

theorem response_roundtrip_witness:
  "\<exists>r s n. CreateFor500 (chars ''mess'') = Some r \<and> Serialize r = Some s \<and>
    parse_response s = Some (500, chars ''Internal Server Error'',
      [(chars ''Content-Length'', n), (chars ''Content-Type'', chars ''text/html'')], chars ''mess'') \<and> dec_value n = 4"
proof -
  obtain r where r: "CreateFor500 (chars ''mess'') = Some r" by (simp add: CreateFor500_def SetBody_def new_response_def dcheck_def)
  have "SetBody (chars ''mess'') (chars ''text/html'') (add_headers [] (new_response 500)) = Some r"
    using r by (simp add: CreateFor500_def HTTP_INTERNAL_SERVER_ERROR_def add_headers_def)
  moreover have "GetHttpReasonPhrase 500 = Some (chars ''Internal Server Error'')"
    by (simp add: GetHttpReasonPhrase_def http_status_list_def)
  moreover have "list_all clean_header ([] @ (chars ''Content-Type'', chars ''text/html'') # [])"
    by (simp add: clean_header_def chars_def)
  moreover have l: "length (chars ''mess'') = 4" by (simp add: chars_def)
  ultimately show ?thesis
    using response_roundtrip [of 500 "chars ''Internal Server Error''" "[]" "chars ''text/html''" "[]" "chars ''mess''" r] r
    by (simp add: add_headers_def l)
qed

text \<open>AddHeader takes any value: one with a line break in it is written as two headers.\<close>

lemma header_injection:
  "Serialize (AddHeader n (v @ crlf @ n2 @ chars '':'' @ v2) r) = Serialize (AddHeader n2 v2 (AddHeader n v r))"
  by (simp add: Serialize_def AddHeader_def)

text \<open>The check of SetBody looks at the body, which may be set to nothing: then a second call adds its own length.\<close>

lemma two_content_lengths:
  "map_option (\<lambda>r. map fst (response_headers r)) (do { r \<leftarrow> CreateFor404; SetBody (chars ''x'') t r }) =
   Some [chars ''Content-Length'', chars ''Content-Type'', chars ''Content-Length'', chars ''Content-Type'']"
  by (simp add: CreateFor404_def SetBody_def new_response_def AddHeader_def dcheck_def)

section \<open>Looking for a value in a header\<close>

lemma find_from:
  "List.find (\<lambda>i. Q (str ! i)) [k..<length str] =
     (if \<exists>x \<in> set (drop k str). Q x then Some (k + length (takeWhile (\<lambda>x. \<not> Q x) (drop k str))) else None)"
proof (induction "length str - k" arbitrary: k)
  case 0
  then show ?case by simp
next
  case (Suc n)
  then have k: "k < length str" by simp
  then have "drop k str = str ! k # drop (Suc k) str" "[k..<length str] = k # [Suc k..<length str]"
    by (simp_all add: Cons_nth_drop_Suc upt_conv_Cons)
  then show ?case using Suc.hyps(1) [of "Suc k"] Suc.hyps(2) by simp
qed

lemma next_eq:
  "next_not_of str ds k =
     (if \<exists>x \<in> set (drop k str). x \<notin> set ds then Some (k + length (takeWhile (\<lambda>x. x \<in> set ds) (drop k str))) else None)"
  "next_of str ds k =
     (if \<exists>x \<in> set (drop k str). x \<in> set ds then Some (k + length (takeWhile (\<lambda>x. x \<notin> set ds) (drop k str))) else None)"
  using find_from [of "\<lambda>x. x \<notin> set ds" str k] find_from [of "\<lambda>x. x \<in> set ds" str k]
  by (simp_all add: next_not_of_def next_of_def)

text \<open>The tokens of a list, by recursion.\<close>

function tokens :: "'c list \<Rightarrow> 'c list \<Rightarrow> 'c list list" where
  "tokens ds [] = []"
| "tokens ds (c # t) =
     (if c \<in> set ds then tokens ds t
      else (c # takeWhile (\<lambda>x. x \<notin> set ds) t) # tokens ds (dropWhile (\<lambda>x. x \<notin> set ds) t))"
  by pat_completeness auto

termination by (relation "measure (length \<circ> snd)") (auto simp: le_imp_less_Suc length_dropWhile_le)

lemma tokens_skip: "tokens ds (dropWhile (\<lambda>x. x \<in> set ds) s) = tokens ds s"
  by (induction s) auto

lemma token_loop_tokens: "token_loop str ds (next_not_of str ds k) = tokens ds (drop k str)"
proof (induction "length str - k" arbitrary: k rule: less_induct)
  case less
  let ?blank = "takeWhile (\<lambda>x. x \<in> set ds) (drop k str)"
  show ?case
  proof (cases "\<exists>x \<in> set (drop k str). x \<notin> set ds")
    case False
    then have "dropWhile (\<lambda>x. x \<in> set ds) (drop k str) = []" by (auto simp: dropWhile_eq_Nil_conv)
    then have "tokens ds (drop k str) = []" using tokens_skip [of ds "drop k str"] by (simp only: tokens.simps)
    then show ?thesis using False by (simp add: next_eq)
  next
    case True
    define start where "start = k + length ?blank"
    have n: "next_not_of str ds k = Some start" using True by (simp add: next_eq start_def)
    note b = next_bounds(1) [OF n]
    have d: "dropWhile (\<lambda>x. x \<in> set ds) (drop k str) = drop start str"
      unfolding start_def by (simp add: dropWhile_eq_drop add.commute)
    have c: "drop start str = str ! start # drop (start + 1) str" using b by (simp add: Cons_nth_drop_Suc)
    have t: "tokens ds (drop k str) =
        (str ! start # takeWhile (\<lambda>x. x \<notin> set ds) (drop (start + 1) str)) # tokens ds (dropWhile (\<lambda>x. x \<notin> set ds) (drop (start + 1) str))"
      using tokens_skip [of ds "drop k str"] b unfolding d c by simp
    show ?thesis
    proof (cases "\<exists>x \<in> set (drop (start + 1) str). x \<in> set ds")
      case False
      then have rest: "takeWhile (\<lambda>x. x \<notin> set ds) (drop (start + 1) str) = drop (start + 1) str"
        "dropWhile (\<lambda>x. x \<notin> set ds) (drop (start + 1) str) = []"
        by (simp_all add: takeWhile_eq_all_conv dropWhile_eq_Nil_conv)
      have "tokens ds (drop k str) = [drop start str]" unfolding t rest c by simp
      moreover have "next_of str ds (start + 1) = None" using False by (simp add: next_eq)
      ultimately show ?thesis using n by simp
    next
      case True
      define w where "w = takeWhile (\<lambda>x. x \<notin> set ds) (drop (start + 1) str)"
      define e where "e = start + 1 + length w"
      have ne: "next_of str ds (start + 1) = Some e" using True by (simp add: next_eq e_def w_def)
      note be = next_bounds(2) [OF ne]
      have "take (length w) (drop (start + 1) str) = w" unfolding w_def by (metis takeWhile_eq_take)
      then have "take (e - start) (drop start str) = str ! start # w" unfolding c e_def by simp
      moreover have "dropWhile (\<lambda>x. x \<notin> set ds) (drop (start + 1) str) = drop e str"
        unfolding e_def w_def by (simp add: dropWhile_eq_drop add.commute)
      moreover have "drop e str = str ! e # drop (e + 1) str" using be by (simp add: Cons_nth_drop_Suc)
      moreover have "token_loop str ds (next_not_of str ds (e + 1)) = tokens ds (drop (e + 1) str)"
        by (rule less.hyps) (use be b in linarith)
      ultimately show ?thesis using n ne t be by (simp add: w_def)
    qed
  qed
qed

lemma pieces_hd_tl:
  "hd (pieces d s) = takeWhile (\<lambda>x. x \<noteq> d) s"
  "tl (pieces d s) = (case dropWhile (\<lambda>x. x \<noteq> d) s of [] \<Rightarrow> [] | _ # t \<Rightarrow> pieces d t)"
  by (induction s) auto

lemma tokens_pieces: "tokens [d] s = filter (\<lambda>p. p \<noteq> []) (pieces d s)"
proof (induction "[d]" s rule: tokens.induct)
  case 1
  then show ?case by simp
next
  case (2 c t)
  show ?case
  proof (cases "c = d")
    case True
    then show ?thesis using 2(1) by simp
  next
    case False
    let ?r = "dropWhile (\<lambda>x. x \<noteq> d) t"
    have ih: "tokens [d] ?r = filter (\<lambda>p. p \<noteq> []) (pieces d ?r)" using 2(2) False by simp
    have "filter (\<lambda>p. p \<noteq> []) (tl (pieces d t)) = filter (\<lambda>p. p \<noteq> []) (pieces d ?r)"
    proof (cases ?r)
      case Nil
      then show ?thesis unfolding Nil pieces_hd_tl(2) by simp
    next
      case (Cons x u)
      then have "x = d" using hd_dropWhile [of "\<lambda>x. x \<noteq> d" t] by simp
      then show ?thesis using Cons by (simp add: pieces_hd_tl(2))
    qed
    then show ?thesis using False ih by (simp add: pieces_hd_tl(1))
  qed
qed

lemma Tokenize_pieces: "Tokenize s [d] = filter (\<lambda>p. p \<noteq> []) (pieces d s)"
  using token_loop_tokens [of s "[d]" 0] by (simp add: Tokenize_def tokens_pieces)

definition http_blank :: "byte \<Rightarrow> bool" where "http_blank c \<longleftrightarrow> c = 32 \<or> c = 9"

definition strip_blanks :: "byte list \<Rightarrow> byte list" where
  "strip_blanks s = rev (dropWhile http_blank (rev (dropWhile http_blank s)))"

lemma TrimString_strip: "snd (TrimString s (chars [CHR '' '', CHR 0x09])) = strip_blanks s"
proof -
  have ws: "chars [CHR '' '', CHR 0x09] = [32, 9]" by (simp add: chars_def)
  have b: "http_blank x \<longleftrightarrow> x \<in> set [32, 9]" for x by (simp add: http_blank_def)
  have "TrimWhitespace [32, 9] s TRIM_ALL = strip_blanks s"
  proof (rule TrimWhitespace_cases [of s "[32, 9]"])
    assume "set s \<subseteq> set [32, 9]" "TrimWhitespace [32, 9] s TRIM_ALL = []"
    moreover have "\<forall>x \<in> set s. http_blank x" using calculation(1) by (auto simp: http_blank_def)
    then have d: "dropWhile http_blank s = []" by simp
    show ?thesis using calculation(2) unfolding strip_blanks_def d by simp
  next
    fix p m q
    assume s: "s = p @ m @ q" and pq: "set p \<subseteq> set [32, 9]" "set q \<subseteq> set [32, 9]"
      and m: "m \<noteq> []" "hd m \<notin> set [32, 9]" "last m \<notin> set [32, 9]" and t: "TrimWhitespace [32, 9] s TRIM_ALL = m"
    have clean: "dropWhile http_blank (x # y) = x # y" if "x \<notin> set [32, 9]" for x y using that by (simp add: b)
    obtain x y where xy: "m = x # y" "x \<notin> set [32, 9]" using m(1,2) by (cases m) auto
    obtain x' y' where xy': "rev m = x' # y'" "x' \<notin> set [32, 9]" using m(1,3) by (cases "rev m") (auto simp: rev_eq_Cons_iff)
    have "dropWhile http_blank s = dropWhile http_blank (m @ q)" using pq(1) unfolding s by (subst dropWhile_append2) (auto simp: b)
    then have "dropWhile http_blank s = m @ q" using clean [OF xy(2), of "y @ q"] xy(1) by simp
    moreover have "dropWhile http_blank (rev q @ rev m) = dropWhile http_blank (rev m)"
      using pq(2) by (subst dropWhile_append2) (auto simp: b)
    then have "dropWhile http_blank (rev q @ rev m) = rev m" using clean [OF xy'(2), of y'] xy'(1) by simp
    ultimately show ?thesis using t by (simp add: strip_blanks_def)
  qed
  then show ?thesis by (simp add: TrimString_def ws TrimWhitespace_def case_prod_beta Let_def)
qed

text \<open>
  HasHeaderValue, for lower-case arguments, is true exactly if the value is one of the parts of
  the header between commas, in lower case and without the blanks around it, empty parts left out.
\<close>

theorem has_header_value:
  assumes "StringToLowerASCII name = name" "StringToLowerASCII val = val"
  shows "HasHeaderValue name val r = Some (val \<in> strip_blanks `
    set (filter (\<lambda>p. p \<noteq> []) (pieces 44 (StringToLowerASCII (case headers r name of Some v \<Rightarrow> v | None \<Rightarrow> [])))))"
proof -
  have "chars '','' = [44]" by (simp add: chars_def)
  then show ?thesis using assms
    by (auto simp: HasHeaderValue_def GetHeaderValue_def dcheck_def TrimString_strip Tokenize_pieces list_ex_iff split: option.split)
qed

theorem has_header_value_witness:
  "HasHeaderValue [116, 101] [98] \<lparr>http_method = [], path = [], headers = [[116, 101] \<mapsto> [97, 44, 32, 66]]\<rparr> = Some True"
proof -
  have l: "StringToLowerASCII [116, 101] = [116, 101]" "StringToLowerASCII [98] = [98]"
    by (simp_all add: StringToLowerASCII_def ToLowerASCII_def)
  have v: "StringToLowerASCII [97, 44, 32, 66] = [97, 44, 32, 98]" by (simp add: StringToLowerASCII_def ToLowerASCII_def)
  have p: "pieces 44 [97, 44, 32, 98 :: byte] = [[97], [32, 98]]" by simp
  have "strip_blanks [32, 98] = [98]" by (simp add: strip_blanks_def http_blank_def)
  then show ?thesis using has_header_value [OF l] by (auto simp: v p intro!: rev_image_eqI [of "[32, 98]"])
qed

section \<open>The requests of a connection\<close>

text \<open>
  The parser hands over each element in as many pieces as it comes in: a request is the pieces of its
  URL, of the name and value of each header and of its body.
\<close>

type_synonym pieces_of_header = "byte list list \<times> byte list list"
type_synonym pieces_of_request = "byte list list \<times> pieces_of_header list \<times> byte list list"

definition request_events :: "pieces_of_request \<Rightarrow> http_event list" where
  "request_events q =
     (case q of (us, hs, bs) \<Rightarrow>
        map EvUrl us @ concat (map (\<lambda>(fs, vs). map EvHeaderField fs @ map EvHeaderValue vs) hs) @
        [EvHeadersComplete] @ map EvBody bs @ [EvMessageComplete])"

text \<open>Every element has at least one piece.\<close>

definition in_pieces :: "pieces_of_request \<Rightarrow> bool" where
  "in_pieces q = (case q of (us, hs, bs) \<Rightarrow> us \<noteq> [] \<and> list_all (\<lambda>(fs, vs). fs \<noteq> [] \<and> vs \<noteq> []) hs)"

text \<open>
  What the context makes of a header: the last piece of its name, with the first piece of its value;
  the further pieces of the value are headers without a name.
\<close>

definition header_entries :: "pieces_of_header \<Rightarrow> (byte list \<times> byte list) list" where
  "header_entries h = (case h of (fs, vs) \<Rightarrow> (last fs, hd vs) # map (\<lambda>v. ([], v)) (tl vs))"

definition request_entries :: "pieces_of_request \<Rightarrow> (byte list \<times> byte list) list" where
  "request_entries q = concat (map header_entries (fst (snd q)))"

definition insert_all :: "('k \<rightharpoonup> 'v) \<Rightarrow> ('k \<times> 'v) list \<Rightarrow> ('k \<rightharpoonup> 'v)" where
  "insert_all m kvs = foldl (\<lambda>m (k, v). map_insert m k v) m kvs"

lemma insert_all_map: "insert_all m kvs = map_of kvs ++ m"
proof (induction kvs arbitrary: m)
  case (Cons kv kvs)
  obtain k v where kv: "kv = (k, v)" by (cases kv)
  have "map_of kvs ++ map_insert m k v = map_of ((k, v) # kvs) ++ m"
  proof (rule ext)
    fix x show "(map_of kvs ++ map_insert m k v) x = (map_of ((k, v) # kvs) ++ m) x"
      by (cases "m x"; cases "m k") (auto simp: map_insert_def map_add_def split: option.splits)
  qed
  moreover have "insert_all m (kv # kvs) = insert_all (map_insert m k v) kvs" by (simp add: insert_all_def kv)
  ultimately show ?case using Cons.IH [of "map_insert m k v"] by (simp only: kv)
qed (simp add: insert_all_def)

text \<open>The callbacks for the pieces of one element.\<close>

lemma url_pieces:
  "us \<noteq> [] \<Longrightarrow> foldl http_callback c (map EvUrl us) = DoUrl (last us) c"
proof (induction us arbitrary: c)
  case (Cons u us)
  have "DoUrl v (DoUrl u c) = DoUrl v c" for v by (simp add: DoUrl_def)
  then show ?case using Cons.IH [of "DoUrl u c"] by (cases "us = []") simp_all
qed simp

lemma field_pieces:
  "fs \<noteq> [] \<Longrightarrow> foldl http_callback c (map EvHeaderField fs) = DoHeaderField (last fs) c"
proof (induction fs arbitrary: c)
  case (Cons f fs)
  have "DoHeaderField v (DoHeaderField f c) = DoHeaderField v c" for v by (simp add: DoHeaderField_def)
  then show ?case using Cons.IH [of "DoHeaderField f c"] by (cases "fs = []") simp_all
qed simp

definition with_headers :: "(byte list \<times> byte list) list \<Rightarrow> 'p http_context \<Rightarrow> 'p http_context" where
  "with_headers kvs c = c\<lparr>http_request := (http_request c)\<lparr>headers := insert_all (headers (http_request c)) kvs\<rparr>\<rparr>"

lemma with_headers_append: "with_headers (xs @ ys) c = with_headers ys (with_headers xs c)"
  by (simp add: with_headers_def insert_all_def)

lemma value_pieces:
  "tmp_header_field c = [] \<Longrightarrow> foldl http_callback c (map EvHeaderValue vs) = with_headers (map (\<lambda>v. ([], v)) vs) c"
proof (induction vs arbitrary: c)
  case (Cons v vs)
  have "DoHeaderValue v c = with_headers [([], v)] c"
    using Cons.prems by (simp add: DoHeaderValue_def with_headers_def insert_all_def)
  moreover have "tmp_header_field (DoHeaderValue v c) = []" by (simp add: DoHeaderValue_def)
  ultimately show ?case using Cons.IH [of "DoHeaderValue v c"] with_headers_append [of "[([], v)]" "map (\<lambda>v. ([], v)) vs" c]
    by simp
qed (simp add: with_headers_def insert_all_def)

lemma header_pieces:
  assumes "fs \<noteq> []" "vs \<noteq> []" "tmp_header_field c = []"
  shows "foldl http_callback c (map EvHeaderField fs @ map EvHeaderValue vs) = with_headers (header_entries (fs, vs)) c"
proof -
  obtain v us where vs: "vs = v # us" using assms(2) by (cases vs) auto
  let ?c1 = "DoHeaderValue v (DoHeaderField (last fs) c)"
  have c1: "?c1 = with_headers [(last fs, v)] c"
    using assms(3) by (simp add: DoHeaderValue_def DoHeaderField_def with_headers_def insert_all_def)
  have "tmp_header_field ?c1 = []" by (simp add: DoHeaderValue_def)
  then have "foldl http_callback ?c1 (map EvHeaderValue us) = with_headers (map (\<lambda>v. ([], v)) us) ?c1" by (rule value_pieces)
  then show ?thesis
    using with_headers_append [of "[(last fs, v)]" "map (\<lambda>v. ([], v)) us" c]
    by (simp add: field_pieces [OF assms(1)] vs c1 header_entries_def)
qed

lemma all_header_pieces:
  "list_all (\<lambda>(fs, vs). fs \<noteq> [] \<and> vs \<noteq> []) hs \<Longrightarrow> tmp_header_field c = [] \<Longrightarrow>
   foldl http_callback c (concat (map (\<lambda>(fs, vs). map EvHeaderField fs @ map EvHeaderValue vs) hs)) =
   with_headers (concat (map header_entries hs)) c"
proof (induction hs arbitrary: c)
  case (Cons h hs)
  obtain fs vs where h: "h = (fs, vs)" by (cases h)
  have one: "foldl http_callback c (map EvHeaderField fs @ map EvHeaderValue vs) = with_headers (header_entries h) c"
    using header_pieces [of fs vs c] Cons.prems h by simp
  have "tmp_header_field (with_headers (header_entries h) c) = []" using Cons.prems(2) by (simp add: with_headers_def)
  then show ?case using Cons.IH [of "with_headers (header_entries h) c"] Cons.prems(1) one
    by (simp add: h with_headers_append del: foldl_append) (simp add: h)
qed (simp add: with_headers_def insert_all_def)

lemma body_pieces: "foldl http_callback c (map EvBody bs) = c"
  by (induction bs arbitrary: c) simp_all

definition after_request :: "pieces_of_request \<Rightarrow> 'p http_context \<Rightarrow> 'p http_context" where
  "after_request q c = (with_headers (request_entries q) (DoUrl (last (fst q)) c))\<lparr>http_done := True\<rparr>"

lemma request_callbacks:
  assumes "in_pieces q" "tmp_header_field c = []"
  shows "foldl http_callback c (request_events q) = after_request q c" "tmp_header_field (after_request q c) = []"
proof -
  obtain us hs bs where q: "q = (us, hs, bs)" by (cases q)
  have "us \<noteq> []" "list_all (\<lambda>(fs, vs). fs \<noteq> [] \<and> vs \<noteq> []) hs" using assms(1) q by (simp_all add: in_pieces_def)
  moreover have "tmp_header_field (DoUrl (last us) c) = []" using assms(2) by (simp add: DoUrl_def)
  ultimately show "foldl http_callback c (request_events q) = after_request q c"
    using all_header_pieces [of hs "DoUrl (last us) c"]
    by (simp add: q request_events_def url_pieces body_pieces after_request_def request_entries_def DoMessageComplete_def)
  show "tmp_header_field (after_request q c) = []" using assms(2) by (simp add: after_request_def with_headers_def DoUrl_def)
qed



text \<open>Once a request is complete the context stays so, and every piece of data after it is a request to the delegate.\<close>

lemma done_for_good: "http_done c \<Longrightarrow> http_done (foldl http_callback c evs)"
proof (induction evs arbitrary: c)
  case (Cons e evs)
  then have "http_done (http_callback c e)"
    by (cases e) (simp_all add: DoUrl_def DoHeaderField_def DoHeaderValue_def DoMessageComplete_def)
  then show ?case using Cons.IH by simp
qed simp

lemma data_after_a_request:
  assumes "http_done c" "execute (http_parser c) (content data) = (p, n, evs)" "0 < n" "Retrieve data n = Some data1"
  shows "\<exists>req c1. Http_OnDataReceived execute OnHttpRequest (Some c) data = Some (OnHttpRequest req, Some req, Some c1, data1)"
  using assms done_for_good [OF assms(1), of evs] by (simp add: Http_OnDataReceived_def OnHttpDataParse_def)

end
