(* ===== verification/Sessions.thy ===== *)
theory Sessions
  imports Prelude "HOL-Library.Signed_Division" "HOL-Library.Multiset"
begin

text \<open>
  The session classes of the network engine: the clock of a client relative to its server,
  net/util/time_syncor.h, and the base class of sessions, net/session/base_session.h. An int that
  overflows and a division by zero are None. The comparison with 1.5 times the median is one of
  doubles, which hold all the values that occur exactly; it is written with integers.
\<close>

section \<open>Synchronising time\<close>

record time_syncor =
  deltas :: "int list"
  first_delta_flag :: bool

definition new_TimeSyncor :: time_syncor where
  "new_TimeSyncor = \<lparr>deltas = [], first_delta_flag = False\<rparr>"

definition OnRecvTimeSample :: "uint32 \<Rightarrow> uint32 \<Rightarrow> time_syncor \<Rightarrow> nat \<times> time_syncor" where
  "OnRecvTimeSample sent_time current_time s =
     (let delta = uint ((current_time - sent_time) div 2)
      in if \<not> first_delta_flag s then (0, s\<lparr>first_delta_flag := True\<rparr>)
         else let ds = deltas s @ [delta] in (length ds, s\<lparr>deltas := ds\<rparr>))"

fun sum_loop :: "int \<Rightarrow> int list \<Rightarrow> int \<times> int \<Rightarrow> (int \<times> int) option" where
  "sum_loop median [] acc = Some acc"
| "sum_loop median (d # ds) (tot, cnt) =
     (if 2 * d < 3 * median then do { dcheck (tot + d < 2 ^ 31); sum_loop median ds (tot + d, cnt + 1) }
      else sum_loop median ds (tot, cnt))"

definition GetCorrectedDelta :: "time_syncor \<Rightarrow> (uint32 \<times> time_syncor) option" where
  "GetCorrectedDelta s = do {
     dcheck (2 < length (deltas s));
     let ds = sort (deltas s);
     let median = ds ! (length ds div 2);
     (tot, cnt) \<leftarrow> sum_loop median ds (0, 0);
     dcheck (cnt \<noteq> 0);
     Some (of_int (tot sdiv cnt), s\<lparr>deltas := ds\<rparr>)
   }"

section \<open>Sessions\<close>

datatype SessionState =
  kSessionState_Empty | kSessionState_Connected | kSessionState_Normal | kSessionState_Closed | kSessionState_Error

record base_session =
  session_id :: uint64
  session_state :: SessionState

definition new_BaseSession :: "uint64 \<Rightarrow> base_session" where
  "new_BaseSession i = \<lparr>session_id = i, session_state = kSessionState_Empty\<rparr>"

definition OnNewSession :: "base_session \<Rightarrow> base_session" where
  "OnNewSession s = s\<lparr>session_state := kSessionState_Connected\<rparr>"

definition OnSessionDataReceived :: "uint16 \<Rightarrow> byte list \<Rightarrow> base_session \<Rightarrow> int \<times> base_session" where
  "OnSessionDataReceived message_type data s = (0, s)"

definition OnSessionClosed :: "base_session \<Rightarrow> base_session" where
  "OnSessionClosed s = s\<lparr>session_state := kSessionState_Closed\<rparr>"

definition GetSessionID :: "base_session \<Rightarrow> uint64" where
  "GetSessionID s = session_id s"

section \<open>The corrected delta\<close>

lemma sample_range:
  assumes "list_all (\<lambda>d. 0 \<le> d \<and> d < 2 ^ 31) (deltas s)" "OnRecvTimeSample sent cur s = (k, s')"
  shows "list_all (\<lambda>d. 0 \<le> d \<and> d < 2 ^ 31) (deltas s')"
proof -
  have "uint ((cur - sent) div 2) < 2 ^ 31"
    using uint_lt2p [of "cur - sent"] by (simp add: uint_div)
  then show ?thesis using assms by (auto simp: OnRecvTimeSample_def Let_def split: if_splits)
qed

lemma sum_loop_kept:
  assumes "list_all (\<lambda>d. 0 \<le> d) ds" "tot + sum_list ds < 2 ^ 31"
  shows "sum_loop m ds (tot, cnt) =
    Some (tot + sum_list (filter (\<lambda>d. 2 * d < 3 * m) ds), cnt + int (length (filter (\<lambda>d. 2 * d < 3 * m) ds)))"
  using assms
proof (induction ds arbitrary: tot cnt)
  case (Cons d ds)
  have "0 \<le> sum_list ds" using Cons.prems(1) by (auto intro!: sum_list_nonneg simp: list_all_iff)
  then have "tot + d < 2 ^ 31" using Cons.prems(2) by simp
  moreover have "tot + sum_list ds < 2 ^ 31" using Cons.prems by simp
  ultimately show ?case using Cons.IH Cons.prems by (simp add: dcheck_def)
qed simp

lemma sum_between:
  fixes xs :: "int list"
  assumes "\<forall>x \<in> set xs. a \<le> x \<and> 2 * x < 3 * m" "xs \<noteq> []"
  shows "a * int (length xs) \<le> sum_list xs \<and> 2 * sum_list xs < 3 * m * int (length xs)"
  using assms
proof (induction xs)
  case (Cons x xs)
  have "a * int (length xs) \<le> sum_list xs \<and> 2 * sum_list xs < 3 * m * int (length xs)" if "xs \<noteq> []"
    using Cons.IH Cons.prems that by simp
  then have "a * int (length xs) \<le> sum_list xs \<and> 2 * sum_list xs \<le> 3 * m * int (length xs)"
    by (cases "xs = []") (simp_all add: less_imp_le)
  then show ?case
    using Cons.prems by (simp_all add: algebra_simps)
qed simp_all



end
