(* ===== verification/NumberConv.thy ===== *)
theory NumberConv
  imports Prelude "HOL-Library.Signed_Division"
begin

text \<open>
  base/strings/string_number_conversions.cc: the integers of the conversions between numbers and
  strings, and the hexadecimal encoding of bytes. (Floating-point numbers go through a vendored
  library.) The templates are instantiated by a value type; here it is the range of its values
  together with the base, and a value is an integer of the range. Arithmetic that leaves the range
  wraps around for an unsigned type and is undefined behaviour, the value None, for a signed one.

  A character is a byte. Bytes above 127 are negative for the source's char, neither digits nor
  signs nor white space either way.
\<close>

section \<open>Value types\<close>

record traits =
  min_value :: int
  max_value :: int
  kBase :: int

definition int_traits :: "nat \<Rightarrow> int \<Rightarrow> traits" where
  "int_traits w b = \<lparr>min_value = - (2 ^ (w - 1)), max_value = 2 ^ (w - 1) - 1, kBase = b\<rparr>"
definition uint_traits :: "nat \<Rightarrow> int \<Rightarrow> traits" where
  "uint_traits w b = \<lparr>min_value = 0, max_value = 2 ^ w - 1, kBase = b\<rparr>"

definition is_signed :: "traits \<Rightarrow> bool" where
  "is_signed tr = (min_value tr < 0)"

definition store_value :: "traits \<Rightarrow> int \<Rightarrow> int option" where
  "store_value tr x =
     (if min_value tr \<le> x \<and> x \<le> max_value tr then Some x
      else if is_signed tr then None
      else Some (x mod (max_value tr + 1)))"

section \<open>Characters\<close>

definition CharToDigit :: "int \<Rightarrow> byte \<Rightarrow> int option" where
  "CharToDigit b c =
     (if b \<le> 10 then (if 48 \<le> uint c \<and> uint c < 48 + b then Some (uint c - 48) else None)
      else if 48 \<le> uint c \<and> uint c \<le> 57 then Some (uint c - 48)
      else if 97 \<le> uint c \<and> uint c < 97 + b - 10 then Some (uint c - 97 + 10)
      else if 65 \<le> uint c \<and> uint c < 65 + b - 10 then Some (uint c - 65 + 10)
      else None)"

text \<open>isspace in the C locale.\<close>

definition LocalIsWhitespace :: "byte \<Rightarrow> bool" where
  "LocalIsWhitespace c = (c = 32 \<or> (9 \<le> c \<and> c \<le> 13))"

section \<open>Strings to numbers\<close>

text \<open>
  CheckBounds of the class Positive and of the class Negative: whether the next digit fits, and the
  output, saturated when it does not.
\<close>

definition Positive_CheckBounds :: "traits \<Rightarrow> int \<Rightarrow> int \<Rightarrow> bool \<times> int" where
  "Positive_CheckBounds tr out d =
     (if max_value tr sdiv kBase tr < out \<or> (out = max_value tr sdiv kBase tr \<and> max_value tr smod kBase tr < d)
      then (False, max_value tr) else (True, out))"

definition Negative_CheckBounds :: "traits \<Rightarrow> int \<Rightarrow> int \<Rightarrow> bool \<times> int" where
  "Negative_CheckBounds tr out d =
     (if out < min_value tr sdiv kBase tr \<or> (out = min_value tr sdiv kBase tr \<and> 0 - min_value tr smod kBase tr < d)
      then (False, min_value tr) else (True, out))"

definition CheckBounds :: "bool \<Rightarrow> traits \<Rightarrow> int \<Rightarrow> int \<Rightarrow> bool \<times> int" where
  "CheckBounds negative tr out d = (if negative then Negative_CheckBounds tr out d else Positive_CheckBounds tr out d)"

definition Increment :: "bool \<Rightarrow> traits \<Rightarrow> int \<Rightarrow> int \<Rightarrow> int option" where
  "Increment negative tr d out = store_value tr (if negative then out - d else out + d)"

text \<open>The loop over the digits; first says that the current character is the first one.\<close>

fun digit_loop :: "bool \<Rightarrow> traits \<Rightarrow> bool \<Rightarrow> byte list \<Rightarrow> int \<Rightarrow> (bool \<times> int) option" where
  "digit_loop negative tr first [] out = Some (True, out)"
| "digit_loop negative tr first (c # cs) out =
     (case CharToDigit (kBase tr) c of
        None \<Rightarrow> Some (False, out)
      | Some d \<Rightarrow>
          (case (if first then (True, out) else CheckBounds negative tr out d) of
             (False, out1) \<Rightarrow> Some (False, out1)
           | (True, out1) \<Rightarrow> do {
               out2 \<leftarrow> (if first then Some out1 else store_value tr (out1 * kBase tr));
               out3 \<leftarrow> Increment negative tr d out2;
               digit_loop negative tr False cs out3
             }))"

definition Base_Invoke :: "bool \<Rightarrow> traits \<Rightarrow> byte list \<Rightarrow> (bool \<times> int) option" where
  "Base_Invoke negative tr s =
     (if s = [] then Some (False, 0)
      else digit_loop negative tr True
        (if kBase tr = 16 \<and> 2 < length s \<and> s ! 0 = 48 \<and> (s ! 1 = 120 \<or> s ! 1 = 88) then drop 2 s else s) 0)"

text \<open>
  The entry point. The result is the value returned and the output, which the caller passes by
  reference: a minus sign before a number of unsigned type leaves it as it was.
\<close>

definition Invoke :: "traits \<Rightarrow> byte list \<Rightarrow> int \<Rightarrow> (bool \<times> int) option" where
  "Invoke tr s out = do {
     let valid = (s = [] \<or> \<not> LocalIsWhitespace (hd s));
     let s1 = dropWhile LocalIsWhitespace s;
     (if s1 \<noteq> [] \<and> hd s1 = 45 then
        if \<not> is_signed tr then Some (False, out)
        else do { (ok, out1) \<leftarrow> Base_Invoke True tr (tl s1); Some (ok \<and> valid, out1) }
      else do {
        (ok, out1) \<leftarrow> Base_Invoke False tr (if s1 \<noteq> [] \<and> hd s1 = 43 then tl s1 else s1);
        Some (ok \<and> valid, out1)
      })
   }"

definition StringToInt :: "byte list \<Rightarrow> int \<Rightarrow> (bool \<times> int) option" where
  "StringToInt = Invoke (int_traits 32 10)"
definition StringToUint :: "byte list \<Rightarrow> int \<Rightarrow> (bool \<times> int) option" where
  "StringToUint = Invoke (uint_traits 32 10)"
definition StringToInt64 :: "byte list \<Rightarrow> int \<Rightarrow> (bool \<times> int) option" where
  "StringToInt64 = Invoke (int_traits 64 10)"
definition StringToUint64 :: "byte list \<Rightarrow> int \<Rightarrow> (bool \<times> int) option" where
  "StringToUint64 = Invoke (uint_traits 64 10)"
definition HexStringToInt :: "byte list \<Rightarrow> int \<Rightarrow> (bool \<times> int) option" where
  "HexStringToInt = Invoke (int_traits 32 16)"
definition HexStringToUInt :: "byte list \<Rightarrow> int \<Rightarrow> (bool \<times> int) option" where
  "HexStringToUInt = Invoke (uint_traits 32 16)"
definition HexStringToInt64 :: "byte list \<Rightarrow> int \<Rightarrow> (bool \<times> int) option" where
  "HexStringToInt64 = Invoke (int_traits 64 16)"
definition HexStringToUInt64 :: "byte list \<Rightarrow> int \<Rightarrow> (bool \<times> int) option" where
  "HexStringToUInt64 = Invoke (uint_traits 64 16)"

section \<open>Numbers to strings\<close>

text \<open>
  The value type has w bits and its sign is given. The digits are written back to front into a
  buffer of fixed size; it is the index of the write position, and the checks of the source demand
  that it does not reach the beginning. Negating the smallest signed value is undefined.
\<close>

definition kOutputBufSize :: "nat \<Rightarrow> nat" where
  "kOutputBufSize w = 3 * (w div 8) + 1"

definition ToUnsigned :: "traits \<Rightarrow> int \<Rightarrow> nat option" where
  "ToUnsigned tr v = do { u \<leftarrow> (if is_signed tr \<and> v < 0 then store_value tr (- v) else Some v); Some (nat u) }"

function write_digits :: "nat \<Rightarrow> nat \<Rightarrow> byte list \<Rightarrow> (nat \<times> byte list) option" where
  "write_digits it res out =
     (if it \<le> 1 then None
      else let out1 = word_of_nat (res mod 10 + 48) # out
           in if res div 10 \<noteq> 0 then write_digits (it - 1) (res div 10) out1 else Some (it - 1, out1))"
  by pat_completeness auto
termination by (relation "measure fst") auto

declare write_digits.simps [simp del]

definition NumberToString :: "nat \<Rightarrow> traits \<Rightarrow> int \<Rightarrow> byte list option" where
  "NumberToString w tr v = do {
     let is_neg = (is_signed tr \<and> v < 0);
     res \<leftarrow> ToUnsigned tr v;
     (it, out) \<leftarrow> write_digits (kOutputBufSize w) res [];
     (if is_neg then do { dcheck (1 < it); Some (45 # out) } else Some out)
   }"

definition IntToString :: "int \<Rightarrow> byte list option" where
  "IntToString = NumberToString 32 (int_traits 32 10)"
definition UintToString :: "int \<Rightarrow> byte list option" where
  "UintToString = NumberToString 32 (uint_traits 32 10)"
definition Int64ToString :: "int \<Rightarrow> byte list option" where
  "Int64ToString = NumberToString 64 (int_traits 64 10)"
definition Uint64ToString :: "int \<Rightarrow> byte list option" where
  "Uint64ToString = NumberToString 64 (uint_traits 64 10)"

section \<open>Hexadecimal encoding of bytes\<close>

definition kHexChars :: "byte list" where
  "kHexChars = [48, 49, 50, 51, 52, 53, 54, 55, 56, 57, 65, 66, 67, 68, 69, 70]"

text \<open>The char b is signed and its right shift keeps the sign; the mask takes four bits of it.\<close>

definition HexEncode :: "byte list \<Rightarrow> byte list" where
  "HexEncode bs =
     concat (map (\<lambda>b. [kHexChars ! unat (signed_drop_bit 4 b AND 15), kHexChars ! unat (b AND 15)]) bs)"

fun hex_pairs :: "byte list \<Rightarrow> byte list \<Rightarrow> bool \<times> byte list" where
  "hex_pairs (m # l # s) out =
     (case (CharToDigit 16 m, CharToDigit 16 l) of
        (Some msb, Some lsb) \<Rightarrow> hex_pairs s (out @ [push_bit 4 (word_of_int msb) OR word_of_int lsb])
      | _ \<Rightarrow> (False, out))"
| "hex_pairs _ out = (True, out)"

definition HexStringToBytes :: "byte list \<Rightarrow> bool \<times> byte list" where
  "HexStringToBytes s = (if length s = 0 \<or> length s mod 2 \<noteq> 0 then (False, []) else hex_pairs s [])"

section \<open>What a numeral means\<close>

text \<open>The types of the source: two's complement or unsigned, and either base.\<close>

definition traits_ok :: "traits \<Rightarrow> bool" where
  "traits_ok tr \<longleftrightarrow> 127 \<le> max_value tr \<and> (kBase tr = 10 \<or> kBase tr = 16) \<and>
     (min_value tr = 0 \<or> min_value tr = - max_value tr - 1)"

lemma traits_ok_types:
  "traits_ok (int_traits 32 10)" "traits_ok (uint_traits 32 10)" "traits_ok (int_traits 64 10)" "traits_ok (uint_traits 64 10)"
  "traits_ok (int_traits 32 16)" "traits_ok (uint_traits 32 16)" "traits_ok (int_traits 64 16)" "traits_ok (uint_traits 64 16)"
  by (simp_all add: traits_ok_def int_traits_def uint_traits_def)

definition digits :: "int \<Rightarrow> byte list \<Rightarrow> int list" where
  "digits b s = map (\<lambda>c. the (CharToDigit b c)) (takeWhile (\<lambda>c. CharToDigit b c \<noteq> None) s)"

definition numeral_value :: "int \<Rightarrow> int \<Rightarrow> int list \<Rightarrow> int" where
  "numeral_value b = foldl (\<lambda>a d. a * b + d)"

definition all_digits :: "int \<Rightarrow> byte list \<Rightarrow> bool" where
  "all_digits b s = (list_all (\<lambda>c. CharToDigit b c \<noteq> None) s)"

definition in_range :: "traits \<Rightarrow> int \<Rightarrow> bool" where
  "in_range tr v = (min_value tr \<le> v \<and> v \<le> max_value tr)"

definition clamp :: "traits \<Rightarrow> int \<Rightarrow> int" where
  "clamp tr v = max (min_value tr) (min (max_value tr) v)"

definition signed_by :: "bool \<Rightarrow> int \<Rightarrow> int" where
  "signed_by negative v = (if negative then - v else v)"

lemma digits_simps:
  "digits b [] = []"
  "digits b (c # s) = (case CharToDigit b c of None \<Rightarrow> [] | Some d \<Rightarrow> d # digits b s)"
  by (auto simp: digits_def split: option.splits)

lemma all_digits_simps:
  "all_digits b []"
  "all_digits b (c # s) = (CharToDigit b c \<noteq> None \<and> all_digits b s)"
  by (simp_all add: all_digits_def)

lemma numeral_value_simps: "numeral_value b a [] = a" "numeral_value b a (d # ds) = numeral_value b (a * b + d) ds"
  by (simp_all add: numeral_value_def)

lemma digit_bounds: "traits_ok tr \<Longrightarrow> CharToDigit (kBase tr) c = Some d \<Longrightarrow> 0 \<le> d \<and> d < kBase tr"
  by (auto simp: CharToDigit_def traits_ok_def split: if_splits)

lemma digits_bounds: "traits_ok tr \<Longrightarrow> \<forall>d \<in> set (digits (kBase tr) s). 0 \<le> d \<and> d < kBase tr"
  by (induction s) (auto simp: digits_simps dest: digit_bounds [OF _ sym] split: option.splits)

lemma numeral_value_mono:
  "0 \<le> a \<Longrightarrow> 1 \<le> b \<Longrightarrow> \<forall>d \<in> set ds. 0 \<le> d \<Longrightarrow> a \<le> numeral_value b a ds"
proof (induction ds arbitrary: a)
  case (Cons d ds)
  have "a * 1 \<le> a * b" using Cons.prems by (intro mult_left_mono) auto
  then have "a \<le> a * b + d" using Cons.prems by simp
  moreover have "a * b + d \<le> numeral_value b (a * b + d) ds" using Cons.prems calculation by (intro Cons.IH) auto
  ultimately show ?case by (simp add: numeral_value_simps)
qed (simp add: numeral_value_simps)

text \<open>The test that the next digit fits, on the magnitudes.\<close>

lemma digit_fits:
  fixes b m a d :: int
  assumes "0 < b" "0 \<le> d" "d < b"
  shows "(m div b < a \<or> (a = m div b \<and> m mod b < d)) \<longleftrightarrow> m < a * b + d"
proof -
  have m: "m = m div b * b + m mod b" "0 \<le> m mod b" "m mod b < b" using assms by simp_all
  consider (lt) "m div b < a" | (eq) "a = m div b" | (gt) "a < m div b" by linarith
  then show ?thesis
  proof cases
    case lt
    then have "(m div b + 1) * b \<le> a * b" using assms by (intro mult_right_mono) auto
    then have "m div b * b + b \<le> a * b" by (simp add: distrib_right)
    then have "m < a * b + d" using m assms by linarith
    then show ?thesis using lt by simp
  next
    case eq
    have "m < a * b + d \<longleftrightarrow> m mod b < d" unfolding eq using m(1) by linarith
    then show ?thesis using eq by simp
  next
    case gt
    then have "(a + 1) * b \<le> m div b * b" using assms by (intro mult_right_mono) auto
    then have "a * b + b \<le> m div b * b" by (simp add: distrib_right)
    then have "a * b + d \<le> m" using m assms by linarith
    then show ?thesis using gt by simp
  qed
qed

lemma CheckBounds_eq:
  assumes ok: "traits_ok tr" and s: "negative \<longrightarrow> is_signed tr" and a: "0 \<le> a" and d: "0 \<le> d" "d < kBase tr"
  shows "CheckBounds negative tr (signed_by negative a) d =
    (if in_range tr (signed_by negative (a * kBase tr + d)) then (True, signed_by negative a)
     else (False, clamp tr (signed_by negative (a * kBase tr + d))))"
proof -
  have b: "0 < kBase tr" and mx: "127 \<le> max_value tr" and mn: "min_value tr = 0 \<or> min_value tr = - max_value tr - 1"
    using ok by (auto simp: traits_ok_def)
  have nn: "0 \<le> a * kBase tr + d" using a b d by simp
  show ?thesis
  proof (cases negative)
    case False
    have "max_value tr sdiv kBase tr = max_value tr div kBase tr" "max_value tr smod kBase tr = max_value tr mod kBase tr"
      using b mx by (simp_all add: signed_divide_int_def signed_modulo_int_def)
    then show ?thesis
      using False digit_fits [OF b d, of "max_value tr" a] nn mx mn
      by (auto simp: CheckBounds_def Positive_CheckBounds_def signed_by_def in_range_def clamp_def)
  next
    case True
    then have m: "min_value tr = - max_value tr - 1" using s mn by (auto simp: is_signed_def)
    define M where "M = - min_value tr"
    have M: "min_value tr = - M" "0 < M" using m mx by (simp_all add: M_def)
    have "min_value tr sdiv kBase tr = - (M div kBase tr)" "min_value tr smod kBase tr = - (M mod kBase tr)"
      using b M by (simp_all add: signed_divide_int_def signed_modulo_int_def)
    then show ?thesis
      using True digit_fits [OF b d, of M a] nn mx m M
      by (auto simp: CheckBounds_def Negative_CheckBounds_def signed_by_def in_range_def clamp_def)
  qed
qed

lemma store_value_range: "in_range tr v \<Longrightarrow> store_value tr v = Some v"
  by (simp add: store_value_def in_range_def)

lemma in_range_smaller:
  "traits_ok tr \<Longrightarrow> (negative \<longrightarrow> is_signed tr) \<Longrightarrow> in_range tr (signed_by negative v) \<Longrightarrow> 0 \<le> u \<Longrightarrow> u \<le> v \<Longrightarrow> in_range tr (signed_by negative u)"
  by (auto simp: in_range_def signed_by_def traits_ok_def)

lemma clamp_larger:
  "traits_ok tr \<Longrightarrow> (negative \<longrightarrow> is_signed tr) \<Longrightarrow> \<not> in_range tr (signed_by negative u) \<Longrightarrow> 0 \<le> u \<Longrightarrow> u \<le> v \<Longrightarrow>
     \<not> in_range tr (signed_by negative v) \<and> clamp tr (signed_by negative v) = clamp tr (signed_by negative u)"
  by (auto simp: in_range_def signed_by_def traits_ok_def clamp_def is_signed_def)

text \<open>The loop from a value in range on.\<close>

lemma digit_loop_eq:
  assumes ok: "traits_ok tr" and s: "negative \<longrightarrow> is_signed tr"
  shows "0 \<le> a \<Longrightarrow> in_range tr (signed_by negative a) \<Longrightarrow> (first \<Longrightarrow> a = 0) \<Longrightarrow>
    v = signed_by negative (numeral_value (kBase tr) a (digits (kBase tr) cs)) \<Longrightarrow>
    digit_loop negative tr first cs (signed_by negative a) = Some (all_digits (kBase tr) cs \<and> in_range tr v, clamp tr v)"
proof (induction cs arbitrary: a first)
  case Nil
  then show ?case by (simp add: digits_simps all_digits_simps numeral_value_simps clamp_def in_range_def)
next
  case (Cons c cs)
  have b: "1 \<le> kBase tr" using ok by (auto simp: traits_ok_def)
  show ?case
  proof (cases "CharToDigit (kBase tr) c")
    case None
    then show ?thesis using Cons.prems by (simp add: digits_simps all_digits_simps numeral_value_simps clamp_def in_range_def)
  next
    case (Some d)
    note d = digit_bounds [OF ok Some]
    define n where "n = a * kBase tr + d"
    have ab: "0 \<le> a * kBase tr" "a * kBase tr \<le> n" "0 \<le> n" using Cons.prems(1) b d by (simp_all add: n_def)
    have v: "v = signed_by negative (numeral_value (kBase tr) n (digits (kBase tr) cs))"
      using Cons.prems(4) Some by (simp add: digits_simps numeral_value_simps n_def)
    have le: "n \<le> numeral_value (kBase tr) n (digits (kBase tr) cs)"
      using ab b digits_bounds [OF ok, of cs] by (intro numeral_value_mono) auto
    have step: "digit_loop negative tr False cs (signed_by negative n) = Some (all_digits (kBase tr) cs \<and> in_range tr v, clamp tr v)"
      if "in_range tr (signed_by negative n)" using Cons.IH [of n False, OF ab(3) that _ v] by simp
    have sgn: "Increment negative tr d (signed_by negative (a * kBase tr)) = store_value tr (signed_by negative n)"
      "signed_by negative a * kBase tr = signed_by negative (a * kBase tr)"
      by (simp_all add: Increment_def signed_by_def n_def)
    show ?thesis
    proof (cases "in_range tr (signed_by negative n)")
      case True
      have m: "in_range tr (signed_by negative (a * kBase tr))" by (rule in_range_smaller [OF ok s True ab(1,2)])
      show ?thesis
        using Some sgn True Cons.prems(3) step [OF True] CheckBounds_eq [OF ok s Cons.prems(1), of d] d
        by (auto simp: store_value_range [OF m] store_value_range [OF True] n_def [symmetric] all_digits_simps) 
    next
      case False
      have nf: "\<not> first"
      proof
        assume first
        then have "n = d" using Cons.prems(3) by (simp add: n_def)
        then show False using False d ok s by (auto simp: in_range_def signed_by_def traits_ok_def is_signed_def split: if_splits)
      qed
      show ?thesis
        using Some nf False CheckBounds_eq [OF ok s Cons.prems(1), of d] d
          clamp_larger [OF ok s False ab(3) le, folded v]
        by (simp add: n_def [symmetric])
    qed
  qed
qed

section \<open>The contract of the conversions\<close>

text \<open>
  What string_number_conversions.h promises: white space in front, a missing number, characters
  after the number and a value out of range make the result false; the output is nevertheless the
  number at the beginning of the string, saturated to the range of the type.
\<close>

definition without_prefix :: "traits \<Rightarrow> byte list \<Rightarrow> byte list" where
  "without_prefix tr body =
     (if kBase tr = 16 \<and> 2 < length body \<and> (take 2 body = [48, 120] \<or> take 2 body = [48, 88]) then drop 2 body else body)"

definition conversion :: "traits \<Rightarrow> byte list \<Rightarrow> int \<Rightarrow> bool \<times> int" where
  "conversion tr s out =
     (let numeral = dropWhile LocalIsWhitespace s;
          negative = (numeral \<noteq> [] \<and> hd numeral = 45);
          body = (if numeral \<noteq> [] \<and> (hd numeral = 45 \<or> hd numeral = 43) then tl numeral else numeral);
          ds = without_prefix tr body;
          v = signed_by negative (numeral_value (kBase tr) 0 (digits (kBase tr) ds))
      in if negative \<and> \<not> is_signed tr then (False, out)
         else (numeral = s \<and> body \<noteq> [] \<and> all_digits (kBase tr) ds \<and> in_range tr v, clamp tr v))"

lemma in_range_0: "traits_ok tr \<Longrightarrow> in_range tr 0" "traits_ok tr \<Longrightarrow> clamp tr 0 = 0"
  by (auto simp: traits_ok_def in_range_def clamp_def)

lemma take_2: "2 < length s \<Longrightarrow> take 2 s = [s ! 0, s ! 1]"
  by (cases s; cases "tl s") auto

lemma Base_Invoke_eq:
  assumes ok: "traits_ok tr" and s: "negative \<longrightarrow> is_signed tr"
    and ds: "ds = without_prefix tr body"
    and v: "v = signed_by negative (numeral_value (kBase tr) 0 (digits (kBase tr) ds))"
  shows "Base_Invoke negative tr body = Some (body \<noteq> [] \<and> all_digits (kBase tr) ds \<and> in_range tr v, clamp tr v)"
proof (cases "body = []")
  case True
  then have "v = 0" by (simp add: v ds without_prefix_def digits_simps numeral_value_simps signed_by_def)
  then show ?thesis using True in_range_0 [OF ok] by (simp add: Base_Invoke_def)
next
  case False
  have z: "signed_by negative 0 = 0" by (simp add: signed_by_def)
  have "ds = (if kBase tr = 16 \<and> 2 < length body \<and> body ! 0 = 48 \<and> (body ! 1 = 120 \<or> body ! 1 = 88) then drop 2 body else body)"
    using take_2 [of body] by (auto simp: ds without_prefix_def)
  then show ?thesis
    using False digit_loop_eq [OF ok s, of 0 True v ds] in_range_0 [OF ok] v by (simp add: Base_Invoke_def z)
qed

lemma dropWhile_id_iff: "(dropWhile P s = s) = (s = [] \<or> \<not> P (hd s))"
proof (cases s)
  case (Cons c r)
  have "length (dropWhile P r) \<le> length r" by (rule length_dropWhile_le)
  then have "dropWhile P r \<noteq> c # r" by auto
  then show ?thesis using Cons by auto
qed simp

lemma Invoke_eq:
  assumes "traits_ok tr"
  shows "Invoke tr s out = Some (conversion tr s out)"
proof -
  let ?n = "dropWhile LocalIsWhitespace s"
  let ?v = "\<lambda>negative body. signed_by negative (numeral_value (kBase tr) 0 (digits (kBase tr) (without_prefix tr body)))"
  have base: "Base_Invoke negative tr body =
      Some (body \<noteq> [] \<and> all_digits (kBase tr) (without_prefix tr body) \<and> in_range tr (?v negative body), clamp tr (?v negative body))"
    if "negative \<longrightarrow> is_signed tr" for negative body
    by (rule Base_Invoke_eq [OF assms that refl refl])
  have w: "(s = [] \<or> \<not> LocalIsWhitespace (hd s)) = (?n = s)" by (simp only: dropWhile_id_iff)
  show ?thesis
  proof (cases "?n \<noteq> [] \<and> hd ?n = 45")
    case True
    then show ?thesis unfolding Invoke_def conversion_def Let_def w by (simp add: base conj_ac)
  next
    case False
    then show ?thesis unfolding Invoke_def conversion_def Let_def w
      by (cases "?n \<noteq> [] \<and> hd ?n = 43") (auto simp: base)
  qed
qed



section \<open>Printed numbers\<close>

lemma digits_append:
  "all_digits b s \<Longrightarrow> digits b (s @ [c]) = digits b s @ digits b [c]"
  "all_digits b (s @ [c]) = (all_digits b s \<and> all_digits b [c])"
  by (induction s) (auto simp: digits_simps all_digits_simps split: option.splits)

lemma numeral_value_append: "numeral_value b a (ds @ [d]) = numeral_value b a ds * b + d"
  by (simp add: numeral_value_def)

lemma digit_char:
  assumes "n < 10"
  shows "CharToDigit 10 (word_of_nat (n + 48)) = Some (int n)"
proof -
  have "uint (word_of_nat (n + 48) :: byte) = int n + 48"
    using assms by (simp only: uint_nat unat_of_nat) simp
  then show ?thesis using assms by (simp add: CharToDigit_def)
qed

lemma write_digits_ok:
  "res < 10 ^ k \<Longrightarrow> 0 < k \<Longrightarrow> k < it \<Longrightarrow>
   \<exists>ds. write_digits it res out = Some (it - length ds, ds @ out) \<and> ds \<noteq> [] \<and> length ds \<le> k \<and> all_digits 10 ds \<and>
     numeral_value 10 0 (digits 10 ds) = int res"
proof (induction k arbitrary: it res out)
  case (Suc k)
  define c where "c = (word_of_nat (res mod 10 + 48) :: byte)"
  have c: "CharToDigit 10 c = Some (int (res mod 10))" unfolding c_def by (rule digit_char) simp
  show ?case
  proof (cases "res div 10 = 0")
    case True
    then have "write_digits it res out = Some (it - length [c], [c] @ out)"
      using Suc.prems by (subst write_digits.simps) (simp add: c_def)
    moreover have "int (res mod 10) = int res" using True by (metis mod_div_trivial mod_if div_eq_0_iff zero_neq_numeral)
    ultimately show ?thesis using c
      by (intro exI [of _ "[c]"]) (auto simp: digits_simps all_digits_simps numeral_value_simps)
  next
    case False
    have "res div 10 < 10 ^ k" using Suc.prems(1) by (simp add: less_mult_imp_div_less mult.commute)
    moreover have "0 < k" using False calculation by (cases k) auto
    moreover have "k < it - 1" using Suc.prems(3) by linarith
    ultimately obtain ds where ds: "write_digits (it - 1) (res div 10) (c # out) = Some (it - 1 - length ds, ds @ c # out)" "ds \<noteq> []"
      "length ds \<le> k" "all_digits 10 ds" "numeral_value 10 0 (digits 10 ds) = int (res div 10)"
      using Suc.IH [of "res div 10" "it - 1" "c # out"] by auto
    have "write_digits it res out = Some (it - length (ds @ [c]), (ds @ [c]) @ out)"
      using Suc.prems False ds(1) by (subst write_digits.simps) (simp add: c_def Let_def)
    moreover have "numeral_value 10 0 (digits 10 (ds @ [c])) = int res"
    proof -
      have "int (res div 10) * 10 + int (res mod 10) = int res"
        by (metis div_mult_mod_eq of_nat_add of_nat_mult of_nat_numeral)
      then show ?thesis using c ds(5) by (simp add: digits_append(1) [OF ds(4)] digits_simps numeral_value_append)
    qed
    ultimately show ?thesis using c ds
      by (intro exI [of _ "ds @ [c]"]) (auto simp: digits_append(2) digits_simps all_digits_simps)
  qed
qed simp

lemma digit_not_sign:
  assumes "CharToDigit 10 c = Some d"
  shows "\<not> LocalIsWhitespace c" "c \<noteq> 45" "c \<noteq> 43"
proof -
  have u: "48 \<le> uint c" using assms by (auto simp: CharToDigit_def split: if_splits)
  then show "c \<noteq> 45" "c \<noteq> 43" by auto
  have "\<not> c \<le> 13" "c \<noteq> 32" using u by (auto simp: word_le_def)
  then show "\<not> LocalIsWhitespace c" by (simp add: LocalIsWhitespace_def)
qed

lemma dropWhile_first: "\<not> P c \<Longrightarrow> dropWhile P (c # s) = c # s"
  by simp

lemma conversion_decimal:
  assumes b: "kBase tr = 10" and ds: "ds \<noteq> []" "all_digits 10 ds" and s: "negative \<longrightarrow> is_signed tr"
    and r: "in_range tr (signed_by negative (numeral_value 10 0 (digits 10 ds)))"
  shows "conversion tr (if negative then 45 # ds else ds) out = (True, signed_by negative (numeral_value 10 0 (digits 10 ds)))"
proof -
  obtain c cs where c: "ds = c # cs" "CharToDigit 10 c \<noteq> None" using ds by (cases ds) (auto simp: all_digits_simps)
  then obtain d where d: "CharToDigit 10 c = Some d" by blast
  note n = digit_not_sign [OF d]
  have w: "\<not> LocalIsWhitespace 45" by (simp add: LocalIsWhitespace_def)
  have "clamp tr (signed_by negative (numeral_value 10 0 (digits 10 ds))) = signed_by negative (numeral_value 10 0 (digits 10 ds))"
    using r by (simp add: clamp_def in_range_def)
  then show ?thesis
    using n w s r ds by (cases negative) (auto simp: conversion_def without_prefix_def b c(1) Let_def signed_by_def)
qed

text \<open>
  Printing a number and reading it back, for the 32- and 64-bit types, signed or not. The digits
  never reach the beginning of their buffer, and the text is read back as the number. The exception
  is the smallest number of a signed type, whose negation is undefined.
\<close>

theorem number_string_roundtrip:
  assumes w: "w = 32 \<or> w = 64" and tr: "tr = int_traits w 10 \<or> tr = uint_traits w 10" and r: "in_range tr v"
  shows "if is_signed tr \<and> v = min_value tr then NumberToString w tr v = None
    else \<exists>s. NumberToString w tr v = Some s \<and> Invoke tr s out = Some (True, v)"
proof -
  have ok: "traits_ok tr" using w tr traits_ok_types by auto
  have b: "kBase tr = 10" using tr by (auto simp: int_traits_def uint_traits_def)
  have mx: "max_value tr < 2 ^ w" using tr w by (auto simp: int_traits_def uint_traits_def)
  define negative where "negative = (is_signed tr \<and> v < 0)"
  show ?thesis
  proof (cases "is_signed tr \<and> v = min_value tr")
    case True
    then have "store_value tr (- v) = None" using ok by (auto simp: store_value_def traits_ok_def is_signed_def)
    then have "ToUnsigned tr v = None" using True by (simp add: ToUnsigned_def is_signed_def)
    then show ?thesis using True by (simp add: NumberToString_def Let_def)
  next
    case False
    have u: "ToUnsigned tr v = Some (nat \<bar>v\<bar>)" and a: "\<bar>v\<bar> \<le> max_value tr"
      using False r ok by (auto simp: ToUnsigned_def store_value_def in_range_def traits_ok_def is_signed_def)
    obtain k where k: "(2 :: int) ^ w \<le> 10 ^ k" "0 < k" "k + 2 < kOutputBufSize w"
      using w by (elim disjE) (rule that [of 10] that [of 20]; simp add: kOutputBufSize_def)+
    have "int (nat \<bar>v\<bar>) < int (10 ^ k)" using a mx k(1) by simp
    then have "nat \<bar>v\<bar> < 10 ^ k" by (simp only: of_nat_less_iff)
    then obtain ds where ds: "write_digits (kOutputBufSize w) (nat \<bar>v\<bar>) [] = Some (kOutputBufSize w - length ds, ds)" "ds \<noteq> []"
      "length ds \<le> k" "all_digits 10 ds" "numeral_value 10 0 (digits 10 ds) = int (nat \<bar>v\<bar>)"
      using write_digits_ok [of "nat \<bar>v\<bar>" k "kOutputBufSize w" "[]"] k by auto
    have room: "1 < kOutputBufSize w - length ds" using ds(3) k(3) by linarith
    have p: "NumberToString w tr v = Some (if negative then 45 # ds else ds)"
      using u ds(1) room by (simp add: NumberToString_def Let_def negative_def)
    have v: "signed_by negative (numeral_value 10 0 (digits 10 ds)) = v"
      using ds(5) r ok by (auto simp: signed_by_def negative_def in_range_def traits_ok_def is_signed_def)
    have "conversion tr (if negative then 45 # ds else ds) out = (True, v)"
      using conversion_decimal [OF b ds(2,4), of negative out] r unfolding v by (simp add: negative_def)
    then have "Invoke tr (if negative then 45 # ds else ds) out = Some (True, v)"
      using Invoke_eq [OF ok] by simp
    then show ?thesis unfolding if_not_P [OF False] using p by blast
  qed
qed

theorem number_string_roundtrip_witness:
  "(\<exists>s. Int64ToString (- 42) = Some s \<and> StringToInt64 s 0 = Some (True, - 42)) \<and> IntToString (- 2147483648) = None"
  unfolding Int64ToString_def StringToInt64_def IntToString_def
  using number_string_roundtrip [of 64 "int_traits 64 10" "- 42" 0] number_string_roundtrip [of 32 "int_traits 32 10" "- 2147483648" 0]
  by (simp add: in_range_def int_traits_def is_signed_def)

section \<open>Encoded bytes\<close>

definition hex_chars_ok :: "byte \<Rightarrow> bool" where
  "hex_chars_ok b =
     (case (CharToDigit 16 (kHexChars ! unat (signed_drop_bit 4 b AND 15)), CharToDigit 16 (kHexChars ! unat (b AND 15))) of
        (Some msb, Some lsb) \<Rightarrow> push_bit 4 (word_of_int msb) OR word_of_int lsb = b
      | _ \<Rightarrow> False)"

lemma digit_kHexChars: "n < 16 \<Longrightarrow> CharToDigit 16 (kHexChars ! n) = Some (int n)"
proof -
  have "list_all (\<lambda>n. CharToDigit 16 (kHexChars ! n) = Some (int n)) [0..<16]"
    by (simp add: upt_rec kHexChars_def CharToDigit_def)
  then show "n < 16 \<Longrightarrow> CharToDigit 16 (kHexChars ! n) = Some (int n)" by (simp add: list_all_iff)
qed

lemma hex_nibbles:
  fixes b :: byte
  shows "unat (b AND 15) < 16"
    and "push_bit 4 (signed_drop_bit 4 b AND 15) OR (b AND 15) = b"
proof -
  have m: "(15 :: byte) = mask 4" by (simp add: mask_eq_exp_minus_1)
  have "unat (take_bit 4 b) < 16" unfolding unsigned_take_bit_eq by (simp add: take_bit_eq_mod)
  then show "unat (b AND 15) < 16" by (simp add: m take_bit_eq_mask)
  show "push_bit 4 (signed_drop_bit 4 b AND 15) OR (b AND 15) = b"
    by (rule bit_word_eqI) (auto simp: m bit_simps not_less)
qed

lemma hex_chars_ok: "hex_chars_ok b"
  using digit_kHexChars [OF hex_nibbles(1) [of b]] digit_kHexChars [OF hex_nibbles(1) [of "signed_drop_bit 4 b"]] hex_nibbles(2) [of b]
  by (simp add: hex_chars_ok_def)

lemma hex_pairs_HexEncode: "hex_pairs (HexEncode bs) out = (True, out @ bs)"
proof (induction bs arbitrary: out)
  case (Cons b bs)
  then show ?case using hex_chars_ok [of b] by (auto simp: HexEncode_def hex_chars_ok_def split: option.splits)
qed (simp add: HexEncode_def)

lemma HexEncode_length: "length (HexEncode bs) = 2 * length bs"
  by (induction bs) (simp_all add: HexEncode_def)

text \<open>
  Bytes encoded in hexadecimal are two characters each and are decoded to the same bytes. Only
  the encoding of no bytes at all is refused.
\<close>

theorem hex_encode_roundtrip:
  "length (HexEncode bs) = 2 * length bs \<and> HexStringToBytes (HexEncode bs) = (bs \<noteq> [], bs)"
  by (simp add: HexStringToBytes_def HexEncode_length hex_pairs_HexEncode)

end
