(* ===== verification/ConfigFile.thy ===== *)
theory ConfigFile
  imports NumberConv StringSplit "HOL-Library.List_Lexorder"
begin

text \<open>
  Configuration files: base2/config_file.cc, the handler that fills it from an XML document
  (config_file_xml_handler.cc), the adapters that walk the parsed document (base2/xml), the attributes
  of an element (xml_attributes.cc) and the addresses that are read from it (config_file_util.cc).
  The XML parsers are third-party code: a document is the tree, or the calls, they hand over. The use
  of an iterator that points nowhere is undefined: None. A std::map is a map; where its order
  matters its keys are sorted.
\<close>

section \<open>Attributes\<close>

type_synonym xml_attributes = "byte list \<rightharpoonup> byte list"

definition Attr_Add :: "byte list \<Rightarrow> byte list \<Rightarrow> xml_attributes \<Rightarrow> xml_attributes" where
  "Attr_Add name val a = a(name \<mapsto> val)"

definition Attr_Remove :: "byte list \<Rightarrow> xml_attributes \<Rightarrow> xml_attributes" where
  "Attr_Remove name a = a(name := None)"

definition Attr_Exists :: "byte list \<Rightarrow> xml_attributes \<Rightarrow> bool" where
  "Attr_Exists name a = (a name \<noteq> None)"

text \<open>The keys in the order of the map.\<close>

definition map_keys :: "('k::linorder \<rightharpoonup> 'v) \<Rightarrow> 'k list" where
  "map_keys m = sorted_list_of_set (dom m)"

definition Attr_GetCount :: "xml_attributes \<Rightarrow> nat" where
  "Attr_GetCount a = length (map_keys a)"

definition Attr_GetName :: "nat \<Rightarrow> xml_attributes \<Rightarrow> byte list option" where
  "Attr_GetName index a = (if Attr_GetCount a \<le> index then None else Some (map_keys a ! index))"

definition Attr_GetName2 :: "nat \<Rightarrow> xml_attributes \<Rightarrow> byte list" where
  "Attr_GetName2 index a = (if Attr_GetCount a \<le> index then [] else map_keys a ! index)"

definition Attr_GetValueAt :: "nat \<Rightarrow> xml_attributes \<Rightarrow> byte list option" where
  "Attr_GetValueAt index a = (if Attr_GetCount a \<le> index then None else a (map_keys a ! index))"

definition Attr_GetValue2 :: "nat \<Rightarrow> xml_attributes \<Rightarrow> byte list" where
  "Attr_GetValue2 index a = (case Attr_GetValueAt index a of Some v \<Rightarrow> v | None \<Rightarrow> [])"

definition Attr_GetValue :: "byte list \<Rightarrow> xml_attributes \<Rightarrow> byte list option" where
  "Attr_GetValue name a = a name"

definition Attr_GetValueByName :: "byte list \<Rightarrow> xml_attributes \<Rightarrow> byte list" where
  "Attr_GetValueByName name a = (case Attr_GetValue name a of Some v \<Rightarrow> v | None \<Rightarrow> [])"

definition ascii :: "string \<Rightarrow> byte list" where "ascii s = map of_char s"

definition Attr_GetValueAsBool :: "byte list \<Rightarrow> xml_attributes \<Rightarrow> bool option" where
  "Attr_GetValueAsBool name a =
     (case a name of
        None \<Rightarrow> None
      | Some v \<Rightarrow> if v = ascii ''false'' \<or> v = ascii ''0'' then Some False
                  else if v = ascii ''true'' \<or> v = ascii ''1'' then Some True else None)"

text \<open>The integers are written to the caller's variable even when the conversion fails.\<close>

definition Attr_GetValueAsInt :: "byte list \<Rightarrow> int \<Rightarrow> xml_attributes \<Rightarrow> (bool \<times> int) option" where
  "Attr_GetValueAsInt name out a = (case a name of None \<Rightarrow> Some (False, out) | Some v \<Rightarrow> StringToInt v out)"

definition Attr_GetValueAsInt64 :: "byte list \<Rightarrow> int \<Rightarrow> xml_attributes \<Rightarrow> (bool \<times> int) option" where
  "Attr_GetValueAsInt64 name out a = (case a name of None \<Rightarrow> Some (False, out) | Some v \<Rightarrow> StringToInt64 v out)"

definition Attr_ToNames :: "xml_attributes \<Rightarrow> byte list set" where
  "Attr_ToNames a = dom a"

section \<open>Walking a document\<close>

datatype xml_node =
    XmlElement "byte list" "(byte list \<times> byte list) list" "xml_node list"
  | XmlData "byte list"
  | XmlOther

text \<open>The virtual functions of XMLHandler; each returns whether to go on, and the handler.\<close>

record 'h xml_handler =
  ElementStart :: "byte list \<Rightarrow> xml_attributes \<Rightarrow> 'h \<Rightarrow> (bool \<times> 'h) option"
  ElementEnd :: "byte list \<Rightarrow> 'h \<Rightarrow> (bool \<times> 'h) option"
  Text :: "byte list \<Rightarrow> 'h \<Rightarrow> (bool \<times> 'h) option"

definition attributes_of :: "(byte list \<times> byte list) list \<Rightarrow> xml_attributes" where
  "attributes_of kvs = foldl (\<lambda>a (n, v). Attr_Add n v a) Map.empty kvs"

text \<open>
  ProcessElement ignores what the handler says about children and text. It is called for elements
  only: the root that rapidxml finds is one.
\<close>

fun ProcessElement :: "'h xml_handler \<Rightarrow> xml_node \<Rightarrow> 'h \<Rightarrow> (bool \<times> 'h) option"
and ProcessChildren :: "'h xml_handler \<Rightarrow> xml_node list \<Rightarrow> 'h \<Rightarrow> 'h option" where
  "ProcessElement ops (XmlElement name kvs children) h = do {
     (ok, h1) \<leftarrow> ElementStart ops name (attributes_of kvs) h;
     (if \<not> ok then Some (False, h1)
      else do {
        h2 \<leftarrow> ProcessChildren ops children h1;
        ElementEnd ops name h2
      })
   }"
| "ProcessElement ops (XmlData t) h = None"
| "ProcessElement ops XmlOther h = None"
| "ProcessChildren ops [] h = Some h"
| "ProcessChildren ops (XmlElement name kvs children # ns) h =
     do { (_, h1) \<leftarrow> ProcessElement ops (XmlElement name kvs children) h; ProcessChildren ops ns h1 }"
| "ProcessChildren ops (XmlData t # ns) h = do { (_, h1) \<leftarrow> Text ops t h; ProcessChildren ops ns h1 }"
| "ProcessChildren ops (XmlOther # ns) h = ProcessChildren ops ns h"

text \<open>RapidxmlParser::ParseXMLData with the root the parser has found; without one it uses a null pointer.\<close>

definition ParseXMLData :: "'h xml_handler \<Rightarrow> xml_node option \<Rightarrow> 'h \<Rightarrow> (bool \<times> 'h) option" where
  "ParseXMLData ops root h = do { r \<leftarrow> root; ProcessElement ops r h }"

text \<open>ParseXMLFile: the file may be unreadable.\<close>

definition ParseXMLFile :: "'h xml_handler \<Rightarrow> xml_node option option \<Rightarrow> 'h \<Rightarrow> (bool \<times> 'h) option" where
  "ParseXMLFile ops file h = (case file of None \<Rightarrow> Some (False, h) | Some root \<Rightarrow> ParseXMLData ops root h)"

text \<open>The callbacks of ExpatParser, which ignore the handler's answers throughout.\<close>

datatype expat_event = ExpatStart "byte list" "(byte list \<times> byte list) list" | ExpatEnd "byte list" | ExpatText "byte list"

fun expat_callback :: "'h xml_handler \<Rightarrow> expat_event \<Rightarrow> 'h \<Rightarrow> 'h option" where
  "expat_callback ops (ExpatStart name kvs) h = map_option snd (ElementStart ops name (attributes_of kvs) h)"
| "expat_callback ops (ExpatEnd name) h = map_option snd (ElementEnd ops name h)"
| "expat_callback ops (ExpatText t) h = map_option snd (Text ops t h)"

section \<open>The handler of configuration files\<close>

type_synonym key_values = "(byte list \<times> byte list) list"

text \<open>current_it_ is the name of the section it points to; it points nowhere at first and after the map is cleared.\<close>

record config_handler =
  config_map :: "byte list \<rightharpoonup> key_values"
  current_element :: "byte list"
  current_it :: "byte list option"

definition kConfigXMLIniElement :: "byte list" where "kConfigXMLIniElement = ascii ''XMLIni''"
definition kConfigSectionElement :: "byte list" where "kConfigSectionElement = ascii ''Section''"
definition kConfigItemElement :: "byte list" where "kConfigItemElement = ascii ''Item''"
definition kConfigNameAttribute :: "byte list" where "kConfigNameAttribute = ascii ''name''"

definition Config_ElementStart :: "byte list \<Rightarrow> xml_attributes \<Rightarrow> config_handler \<Rightarrow> (bool \<times> config_handler) option" where
  "Config_ElementStart element attributes h0 =
     (let h = h0\<lparr>current_element := element\<rparr>
      in if element = kConfigXMLIniElement then Some (True, h\<lparr>config_map := Map.empty, current_it := None\<rparr>)
         else if element = kConfigSectionElement then
           (case Attr_GetValue kConfigNameAttribute attributes of
              None \<Rightarrow> Some (False, h)
            | Some name \<Rightarrow>
                Some (True, h\<lparr>config_map := (case config_map h name of None \<Rightarrow> (config_map h)(name \<mapsto> []) | Some _ \<Rightarrow> config_map h),
                              current_it := Some name\<rparr>))
         else if element = kConfigItemElement then
           (case Attr_GetValue kConfigNameAttribute attributes of
              None \<Rightarrow> Some (False, h)
            | Some key \<Rightarrow> do {
                it \<leftarrow> current_it h;
                kvs \<leftarrow> config_map h it;
                Some (True, h\<lparr>config_map := (config_map h)(it \<mapsto> kvs @ [(key, [])])\<rparr>)
              })
         else Some (False, h))"

definition Config_ElementEnd :: "byte list \<Rightarrow> config_handler \<Rightarrow> (bool \<times> config_handler) option" where
  "Config_ElementEnd element h =
     Some (element = kConfigXMLIniElement \<or> element = kConfigSectionElement \<or> element = kConfigItemElement, h)"

definition Config_Text :: "byte list \<Rightarrow> config_handler \<Rightarrow> (bool \<times> config_handler) option" where
  "Config_Text text h =
     (if current_element h = kConfigItemElement then do {
        it \<leftarrow> current_it h;
        kvs \<leftarrow> config_map h it;
        dcheck (kvs \<noteq> []);
        Some (True, h\<lparr>config_map := (config_map h)(it \<mapsto>
          butlast kvs @ [(fst (last kvs), TrimWhitespace kWhitespaceASCII text TRIM_ALL)])\<rparr>)
      }
      else Some (False, h))"

definition ConfigFileXmlHandler :: "config_handler xml_handler" where
  "ConfigFileXmlHandler = \<lparr>ElementStart = Config_ElementStart, ElementEnd = Config_ElementEnd, Text = Config_Text\<rparr>"

section \<open>The configuration file\<close>

type_synonym section_map = "byte list \<rightharpoonup> key_values"

text \<open>Load on the map the object holds, with what the parser finds in the file; Destroy clears the map.\<close>

definition Config_Load :: "xml_node option option \<Rightarrow> section_map \<Rightarrow> (bool \<times> section_map) option" where
  "Config_Load file m = do {
     (result, h) \<leftarrow> ParseXMLFile ConfigFileXmlHandler file \<lparr>config_map = m, current_element = [], current_it = None\<rparr>;
     Some (result, if result then config_map h else Map.empty)
   }"

definition c_str :: "byte list \<Rightarrow> byte list" where "c_str s = takeWhile (\<lambda>c. c \<noteq> 0) s"

text \<open>The loops over the pairs of a section; a null pointer is None.\<close>

definition GetValueByKey :: "key_values \<Rightarrow> byte list \<Rightarrow> byte list option \<Rightarrow> byte list option" where
  "GetValueByKey kvs key default_val = foldl (\<lambda>val (k, v). if k = key then Some (c_str v) else val) default_val kvs"

definition GetValueListByKey :: "key_values \<Rightarrow> byte list \<Rightarrow> byte list list" where
  "GetValueListByKey kvs key = map (\<lambda>(k, v). c_str v) (filter (\<lambda>(k, v). k = key) kvs)"

definition Config_GetString :: "byte list \<Rightarrow> byte list \<Rightarrow> byte list option \<Rightarrow> section_map \<Rightarrow> byte list option" where
  "Config_GetString sec key default_val m =
     (case m sec of None \<Rightarrow> default_val | Some kvs \<Rightarrow> GetValueByKey kvs key default_val)"

definition Config_GetInt :: "byte list \<Rightarrow> byte list \<Rightarrow> int \<Rightarrow> section_map \<Rightarrow> int option" where
  "Config_GetInt sec key default_val m =
     (case Config_GetString sec key None m of
        None \<Rightarrow> Some default_val
      | Some s \<Rightarrow> map_option snd (StringToInt s default_val))"

definition Config_GetStringList :: "byte list \<Rightarrow> byte list \<Rightarrow> section_map \<Rightarrow> byte list list" where
  "Config_GetStringList sec key m = (case m sec of None \<Rightarrow> [] | Some kvs \<Rightarrow> GetValueListByKey kvs key)"

definition Config_GetSectionKey :: "byte list \<Rightarrow> section_map \<Rightarrow> byte list list" where
  "Config_GetSectionKey sec m = (case m sec of None \<Rightarrow> [] | Some kvs \<Rightarrow> map fst kvs)"

definition Config_CheckBySection :: "byte list \<Rightarrow> section_map \<Rightarrow> bool" where
  "Config_CheckBySection sec m = (m sec \<noteq> None)"

definition Config_CheckBySectionAndKey :: "byte list \<Rightarrow> byte list \<Rightarrow> section_map \<Rightarrow> bool" where
  "Config_CheckBySectionAndKey sec key m =
     (case m sec of None \<Rightarrow> False | Some kvs \<Rightarrow> list_ex (\<lambda>(k, v). k = key) kvs)"

definition Config_CheckByValue :: "byte list \<Rightarrow> byte list \<Rightarrow> byte list \<Rightarrow> section_map \<Rightarrow> bool" where
  "Config_CheckByValue sec key val m =
     (case m sec of None \<Rightarrow> False | Some kvs \<Rightarrow> list_ex (\<lambda>(k, v). k = key \<and> v = val) kvs)"

definition Config_GetSectionName :: "section_map \<Rightarrow> byte list list" where
  "Config_GetSectionName m = map_keys m"

section \<open>Addresses\<close>

record DBAddrInfo =
  db_host :: "byte list"
  db_port :: int
  db_user :: "byte list"
  db_passwd :: "byte list"
  db_name :: "byte list"
  db_type :: "byte list"
  min_conn_count :: int
  max_conn_count :: int

definition new_DBAddrInfo :: DBAddrInfo where
  "new_DBAddrInfo =
     \<lparr>db_host = [], db_port = 0, db_user = [], db_passwd = [], db_name = [], db_type = [], min_conn_count = 2, max_conn_count = 5\<rparr>"

definition DBAddr_Destroy :: "DBAddrInfo \<Rightarrow> DBAddrInfo" where
  "DBAddr_Destroy a = new_DBAddrInfo"

text \<open>The characters from b to e.\<close>

definition piece :: "byte list \<Rightarrow> nat \<Rightarrow> nat \<Rightarrow> byte list" where
  "piece str b e = take (e - b) (drop b str)"

text \<open>
  The loop of ParseFromConnString over the characters before the terminating zero (the loop looks for
  one, whatever the length of the string piece): p is the current position, b the start of the current
  part, s its last colon, or its start. The source's test for a zero at b can not hold: b is at most p.
\<close>

definition after_user :: "byte list \<Rightarrow> nat \<Rightarrow> nat \<Rightarrow> nat \<Rightarrow> DBAddrInfo \<Rightarrow> DBAddrInfo" where
  "after_user str p b s a =
     (if s = b then a\<lparr>db_user := piece str b p\<rparr>
      else a\<lparr>db_user := piece str b s, db_passwd := piece str (s + 1) p\<rparr>)"

definition after_host :: "byte list \<Rightarrow> nat \<Rightarrow> nat \<Rightarrow> nat \<Rightarrow> DBAddrInfo \<Rightarrow> (bool \<times> DBAddrInfo) option" where
  "after_host str p b s a =
     (if db_host a = [] then
        (if s = b then Some (True, a\<lparr>db_host := piece str b p\<rparr>)
         else do {
           (result, port) \<leftarrow> StringToInt (piece str (s + 1) p) (db_port a);
           Some (result, a\<lparr>db_host := piece str b s, db_port := port\<rparr>)
         })
      else Some (True, a\<lparr>db_name := piece str b p\<rparr>))"

function conn_loop :: "byte list \<Rightarrow> nat \<Rightarrow> nat \<Rightarrow> nat \<Rightarrow> DBAddrInfo \<Rightarrow> (bool \<times> DBAddrInfo) option" where
  "conn_loop str p b s a =
     (if length str \<le> p then Some (True, a)
      else
        let c = str ! p;
            s1 = (if c = 58 then p else s)
        in if c = 64 then conn_loop str (p + 1) (p + 1) (p + 1) (after_user str p b s1 a)
           else if c = 47 then do {
             (result, a1) \<leftarrow> after_host str p b s1 a;
             (if result then conn_loop str (p + 1) (p + 1) (p + 1) a1 else Some (False, a1))
           }
           else conn_loop str (p + 1) b s1 a)"
  by pat_completeness auto

termination by (relation "measure (\<lambda>(str, p, b, s, a). length str - p)") auto

declare conn_loop.simps [simp del]

definition ParseFromConnString :: "byte list \<Rightarrow> DBAddrInfo \<Rightarrow> (bool \<times> DBAddrInfo) option" where
  "ParseFromConnString conn_string a = conn_loop (c_str conn_string) 0 0 0 a"

text \<open>What PrintDebugString prints.\<close>

definition conn_string :: "DBAddrInfo \<Rightarrow> byte list option" where
  "conn_string a = do {
     port \<leftarrow> IntToString (db_port a);
     Some (db_user a @ ascii '':'' @ db_passwd a @ ascii ''@'' @ db_host a @ ascii '':'' @ port @ ascii ''/'' @ db_name a @ ascii ''/'')
   }"

text \<open>GetString without a default is dereferenced: a section without the key would be undefined.\<close>

definition string_field :: "section_map \<Rightarrow> byte list \<Rightarrow> string \<Rightarrow> byte list \<Rightarrow> byte list option" where
  "string_field m sec key old =
     (if Config_CheckBySectionAndKey sec (ascii key) m then Config_GetString sec (ascii key) None m else Some old)"

definition int_field :: "section_map \<Rightarrow> byte list \<Rightarrow> string \<Rightarrow> int \<Rightarrow> int option" where
  "int_field m sec key old =
     (if Config_CheckBySectionAndKey sec (ascii key) m then Config_GetInt sec (ascii key) 0 m else Some old)"

definition DBAddr_ParseFromConfigFile :: "section_map \<Rightarrow> byte list \<Rightarrow> DBAddrInfo \<Rightarrow> (bool \<times> DBAddrInfo) option" where
  "DBAddr_ParseFromConfigFile m sec a =
     (if \<not> Config_CheckBySection sec m then Some (False, a)
      else do {
        host \<leftarrow> string_field m sec ''host'' (db_host a);
        port \<leftarrow> int_field m sec ''port'' (db_port a);
        user \<leftarrow> string_field m sec ''user'' (db_user a);
        passwd \<leftarrow> string_field m sec ''passwd'' (db_passwd a);
        name \<leftarrow> string_field m sec ''dbname'' (db_name a);
        type \<leftarrow> string_field m sec ''dbtype'' (db_type a);
        mn \<leftarrow> int_field m sec ''min_conn_count'' (min_conn_count a);
        mx \<leftarrow> int_field m sec ''max_conn_count'' (max_conn_count a);
        Some (True, \<lparr>db_host = host, db_port = port, db_user = user, db_passwd = passwd, db_name = name, db_type = type,
                     min_conn_count = mn, max_conn_count = mx\<rparr>)
      })"

record IpAddrInfo =
  ip_addr :: "byte list"
  ip_port :: uint16

definition new_IpAddrInfo :: IpAddrInfo where "new_IpAddrInfo = \<lparr>ip_addr = [], ip_port = 0\<rparr>"

text \<open>The int is stored in a uint16.\<close>

definition IpAddr_ParseFromConfigFile :: "section_map \<Rightarrow> byte list \<Rightarrow> IpAddrInfo \<Rightarrow> (bool \<times> IpAddrInfo) option" where
  "IpAddr_ParseFromConfigFile m sec a =
     (if \<not> Config_CheckBySection sec m then Some (False, a)
      else do {
        addr \<leftarrow> string_field m sec ''host'' (ip_addr a);
        port \<leftarrow> int_field m sec ''port'' (uint (ip_port a));
        Some (True, \<lparr>ip_addr = addr, ip_port = of_int port\<rparr>)
      })"

definition IpAddr_equal :: "IpAddrInfo \<Rightarrow> IpAddrInfo \<Rightarrow> bool" where
  "IpAddr_equal a b = (if ip_addr a = [] \<and> ip_port a \<noteq> 0 then False else ip_addr a = ip_addr b \<and> ip_port a = ip_port b)"

definition IpAddr_less :: "IpAddrInfo \<Rightarrow> IpAddrInfo \<Rightarrow> bool" where
  "IpAddr_less a b = (if ip_addr a < ip_addr b then True else if ip_addr a = ip_addr b then ip_port a < ip_port b else False)"

record IpAddrInfo2 =
  ip2_addr :: "byte list"
  ip2_port :: "byte list"

definition IpAddr2_ParseFromConfigFile :: "section_map \<Rightarrow> byte list \<Rightarrow> IpAddrInfo2 \<Rightarrow> (bool \<times> IpAddrInfo2) option" where
  "IpAddr2_ParseFromConfigFile m sec a =
     (if \<not> Config_CheckBySection sec m then Some (False, a)
      else if \<not> Config_CheckBySectionAndKey sec (ascii ''host'') m then Some (False, a)
      else do {
        addr \<leftarrow> Config_GetString sec (ascii ''host'') None m;
        let a1 = a\<lparr>ip2_addr := addr\<rparr>;
        (if \<not> Config_CheckBySectionAndKey sec (ascii ''port'') m then Some (False, a1)
         else do { port \<leftarrow> Config_GetString sec (ascii ''port'') None m; Some (True, a1\<lparr>ip2_port := port\<rparr>) })
      })"

definition IpAddr2_equal :: "IpAddrInfo2 \<Rightarrow> IpAddrInfo2 \<Rightarrow> bool" where
  "IpAddr2_equal a b = (if ip2_addr a = [] \<and> ip2_port a = [] then False else ip2_addr a = ip2_addr b \<and> ip2_port a = ip2_port b)"

definition IpAddr2_less :: "IpAddrInfo2 \<Rightarrow> IpAddrInfo2 \<Rightarrow> bool" where
  "IpAddr2_less a b = (if ip2_addr a < ip2_addr b then True else if ip2_addr a = ip2_addr b then ip2_port a < ip2_port b else False)"

section \<open>What is loaded\<close>

text \<open>A document of sections with their items, and the map it should give.\<close>

definition item_node :: "byte list \<times> byte list \<Rightarrow> xml_node" where
  "item_node kv = XmlElement kConfigItemElement [(kConfigNameAttribute, fst kv)] (if snd kv = [] then [] else [XmlData (snd kv)])"

definition section_node :: "byte list \<times> key_values \<Rightarrow> xml_node" where
  "section_node s = XmlElement kConfigSectionElement [(kConfigNameAttribute, fst s)] (map item_node (snd s))"

definition config_document :: "(byte list \<times> key_values) list \<Rightarrow> xml_node" where
  "config_document doc = XmlElement kConfigXMLIniElement [] (map section_node doc)"

definition trimmed :: "byte list \<times> byte list \<Rightarrow> byte list \<times> byte list" where
  "trimmed kv = (fst kv, TrimWhitespace kWhitespaceASCII (snd kv) TRIM_ALL)"

definition entries_of :: "(byte list \<times> key_values) list \<Rightarrow> byte list \<Rightarrow> key_values" where
  "entries_of doc sec = concat (map (\<lambda>(s, kvs). if s = sec then kvs else []) doc)"

definition loaded :: "(byte list \<times> key_values) list \<Rightarrow> section_map" where
  "loaded doc = (\<lambda>sec. if sec \<in> fst ` set doc then Some (map trimmed (entries_of doc sec)) else None)"

lemma names_distinct [simp]:
  "kConfigSectionElement \<noteq> kConfigXMLIniElement" "kConfigItemElement \<noteq> kConfigXMLIniElement" "kConfigItemElement \<noteq> kConfigSectionElement"
  by (simp_all add: kConfigSectionElement_def kConfigXMLIniElement_def kConfigItemElement_def ascii_def)

lemma name_attribute [simp]: "Attr_GetValue n (attributes_of [(n, v)]) = Some v"
  by (simp add: attributes_of_def Attr_Add_def Attr_GetValue_def)

lemma handler_simps [simp]:
  "ElementStart ConfigFileXmlHandler = Config_ElementStart" "ElementEnd ConfigFileXmlHandler = Config_ElementEnd"
  "Text ConfigFileXmlHandler = Config_Text"
  by (simp_all add: ConfigFileXmlHandler_def)

lemma trim_empty: "TrimWhitespace kWhitespaceASCII [] TRIM_ALL = []"
  by (rule TrimWhitespace_blank) simp

lemma item_loaded:
  assumes "current_it h = Some s" "config_map h s = Some kvs"
  shows "\<exists>h'. ProcessElement ConfigFileXmlHandler (item_node kv) h = Some (True, h') \<and>
    config_map h' = (config_map h)(s \<mapsto> kvs @ [trimmed kv]) \<and> current_it h' = Some s"
  using assms
  by (cases kv) (simp add: item_node_def Config_ElementStart_def Config_Text_def Config_ElementEnd_def dcheck_def trimmed_def trim_empty)

lemma children_elements [simp]:
  "ProcessChildren ops (item_node kv # ns) h = do { (_, h1) \<leftarrow> ProcessElement ops (item_node kv) h; ProcessChildren ops ns h1 }"
  "ProcessChildren ops (section_node s # ns) h = do { (_, h1) \<leftarrow> ProcessElement ops (section_node s) h; ProcessChildren ops ns h1 }"
  by (simp_all only: item_node_def section_node_def ProcessChildren.simps)

lemma items_loaded:
  "current_it h = Some s \<Longrightarrow> config_map h s = Some kvs \<Longrightarrow>
   \<exists>h'. ProcessChildren ConfigFileXmlHandler (map item_node new) h = Some h' \<and>
     config_map h' = (config_map h)(s \<mapsto> kvs @ map trimmed new) \<and> current_it h' = Some s"
proof (induction new arbitrary: h kvs)
  case Nil
  then show ?case by (simp add: fun_upd_idem)
next
  case (Cons kv new)
  obtain h1 where h1: "ProcessElement ConfigFileXmlHandler (item_node kv) h = Some (True, h1)"
    "config_map h1 = (config_map h)(s \<mapsto> kvs @ [trimmed kv])" "current_it h1 = Some s"
    using item_loaded [OF Cons.prems] by blast
  have "config_map h1 s = Some (kvs @ [trimmed kv])" using h1(2) by simp
  from Cons.IH [OF h1(3) this] show ?case using h1 by (auto simp: fun_eq_iff)
qed

definition add_section :: "section_map \<Rightarrow> byte list \<times> key_values \<Rightarrow> section_map" where
  "add_section m s = m(fst s \<mapsto> (case m (fst s) of None \<Rightarrow> [] | Some kvs \<Rightarrow> kvs) @ map trimmed (snd s))"

lemma section_loaded:
  "\<exists>h'. ProcessElement ConfigFileXmlHandler (section_node s) h = Some (True, h') \<and> config_map h' = add_section (config_map h) s"
proof -
  define kvs where "kvs = (case config_map h (fst s) of None \<Rightarrow> [] | Some kvs \<Rightarrow> kvs)"
  define h1 where "h1 = h\<lparr>current_element := kConfigSectionElement,
    config_map := (config_map h)(fst s \<mapsto> kvs), current_it := Some (fst s)\<rparr>"
  have start: "Config_ElementStart kConfigSectionElement (attributes_of [(kConfigNameAttribute, fst s)]) h = Some (True, h1)"
    by (auto simp: Config_ElementStart_def Let_def h1_def kvs_def fun_upd_idem split: option.split)
  have "current_it h1 = Some (fst s)" "config_map h1 (fst s) = Some kvs" by (simp_all add: h1_def)
  then obtain h2 where "ProcessChildren ConfigFileXmlHandler (map item_node (snd s)) h1 = Some h2"
    "config_map h2 = (config_map h1)(fst s \<mapsto> kvs @ map trimmed (snd s))"
    using items_loaded by blast
  then show ?thesis using start
    by (simp add: section_node_def Config_ElementEnd_def add_section_def kvs_def h1_def)
qed

lemma sections_loaded:
  "\<exists>h'. ProcessChildren ConfigFileXmlHandler (map section_node doc) h = Some h' \<and> config_map h' = foldl add_section (config_map h) doc"
proof (induction doc arbitrary: h)
  case (Cons s doc)
  obtain h1 where "ProcessElement ConfigFileXmlHandler (section_node s) h = Some (True, h1)" "config_map h1 = add_section (config_map h) s"
    using section_loaded by blast
  then show ?case using Cons.IH [of h1] by auto
qed simp

lemma entries_absent: "sec \<notin> fst ` set doc \<Longrightarrow> entries_of doc sec = []"
  by (induction doc) (auto simp: entries_of_def)

lemma add_sections: "foldl add_section Map.empty doc = loaded doc"
proof (induction doc rule: rev_induct)
  case (snoc s doc)
  have "entries_of (doc @ [s]) sec = entries_of doc sec @ (if fst s = sec then snd s else [])" for sec
    by (cases s) (simp add: entries_of_def)
  moreover note entries_absent [of "fst s" doc]
  ultimately show ?case using snoc by (auto simp: add_section_def loaded_def fun_eq_iff)
qed (simp add: loaded_def fun_eq_iff)

lemma document_loaded: "Config_Load (Some (Some (config_document doc))) m = Some (True, loaded doc)"
proof -
  define h1 where "h1 = \<lparr>config_map = Map.empty, current_element = kConfigXMLIniElement, current_it = None\<rparr>"
  have start: "Config_ElementStart kConfigXMLIniElement (attributes_of []) \<lparr>config_map = m, current_element = [], current_it = None\<rparr> = Some (True, h1)"
    by (simp add: Config_ElementStart_def h1_def)
  obtain h2 where "ProcessChildren ConfigFileXmlHandler (map section_node doc) h1 = Some h2" "config_map h2 = foldl add_section (config_map h1) doc"
    using sections_loaded by blast
  then show ?thesis using start
    by (simp add: Config_Load_def ParseXMLFile_def ParseXMLData_def config_document_def Config_ElementEnd_def h1_def add_sections)
qed

lemma GetValueByKey_last:
  "GetValueByKey kvs key d = (let vs = filter (\<lambda>kv. fst kv = key) kvs in if vs = [] then d else Some (c_str (snd (last vs))))"
proof (induction kvs rule: rev_induct)
  case (snoc kv kvs)
  then show ?case by (cases kv) (simp add: GetValueByKey_def Let_def)
qed (simp add: GetValueByKey_def)


text \<open>
  A parser that reports the white space between elements, as expat does, erases the value of the
  item before it: the current element is still Item.
\<close>

lemma text_after_item:
  assumes "current_element h = kConfigItemElement" "current_it h = Some s" "config_map h s = Some (kvs @ [(k, v)])"
    "set t \<subseteq> set kWhitespaceASCII"
  shows "\<exists>h'. expat_callback ConfigFileXmlHandler (ExpatText t) h = Some h' \<and> config_map h' s = Some (kvs @ [(k, [])])"
  using assms TrimWhitespace_blank [of t kWhitespaceASCII] by (simp add: Config_Text_def dcheck_def)

text \<open>A key whose text is no number gives 0 and not the default.\<close>

lemma invalid_number_is_zero: "Config_GetInt [115] [107] 7 [[115] \<mapsto> [([107], [120])]] = Some 0"
proof -
  have "StringToInt [120] 7 = Some (False, 0)"
    unfolding StringToInt_def Invoke_eq [OF traits_ok_types(1)]
    by (simp add: conversion_def without_prefix_def int_traits_def LocalIsWhitespace_def digits_simps all_digits_simps
      numeral_value_simps CharToDigit_def signed_by_def in_range_def clamp_def is_signed_def)
  then show ?thesis by (simp add: Config_GetInt_def Config_GetString_def GetValueByKey_def c_str_def)
qed

section \<open>Connection strings\<close>

definition plain :: "byte list \<Rightarrow> bool" where
  "plain s \<longleftrightarrow> 0 \<notin> set s \<and> 58 \<notin> set s \<and> 64 \<notin> set s \<and> 47 \<notin> set s"

lemma plain_simps: "plain (c # s) \<longleftrightarrow> c \<noteq> 0 \<and> c \<noteq> 58 \<and> c \<noteq> 64 \<and> c \<noteq> 47 \<and> plain s" "plain []"
  by (auto simp: plain_def)

lemma conn_scan:
  "plain y \<Longrightarrow> conn_loop (x @ y @ z) (length x) b s a = conn_loop (x @ y @ z) (length x + length y) b s a"
proof (induction y arbitrary: x)
  case (Cons c y)
  have "conn_loop (x @ (c # y) @ z) (length x) b s a = conn_loop (x @ (c # y) @ z) (length x + 1) b s a"
    using Cons.prems by (subst conn_loop.simps) (simp add: plain_simps Let_def)
  then show ?case using Cons.IH [of "x @ [c]"] Cons.prems by (simp add: plain_simps)
qed simp

lemma conn_colon: "conn_loop (x @ 58 # z) (length x) b s a = conn_loop (x @ 58 # z) (length x + 1) b (length x) a"
  by (subst conn_loop.simps) simp

lemma conn_at:
  "conn_loop (x @ 64 # z) (length x) b s a =
   conn_loop (x @ 64 # z) (length x + 1) (length x + 1) (length x + 1) (after_user (x @ 64 # z) (length x) b s a)"
  by (subst conn_loop.simps) simp

lemma conn_slash:
  "after_host (x @ 47 # z) (length x) b s a = Some (True, a1) \<Longrightarrow>
   conn_loop (x @ 47 # z) (length x) b s a = conn_loop (x @ 47 # z) (length x + 1) (length x + 1) (length x + 1) a1"
  by (subst conn_loop.simps) simp

lemma piece_between: "piece (x @ y @ z) (length x) (length x + length y) = y"
  by (simp add: piece_def)

lemma write_digits_chars: "write_digits it res out = Some (it', out') \<Longrightarrow> set out' \<subseteq> set out \<union> {c. 48 \<le> c \<and> c \<le> 57}"
proof (induction it res out rule: write_digits.induct)
  case (1 it res out)
  let ?c = "word_of_nat (res mod 10 + 48) :: byte"
  have u: "unat ?c = res mod 10 + 48" by (simp only: unat_of_nat) simp
  have c: "48 \<le> ?c \<and> ?c \<le> 57" by (simp add: word_le_nat_alt u del: of_nat_add)
  show ?case
  proof (cases "it \<le> 1")
    case True
    then show ?thesis using 1(2) by (subst (asm) write_digits.simps) simp
  next
    case False
    show ?thesis
    proof (cases "res div 10 = 0")
      case True
      then have "out' = ?c # out" using False 1(2) by (subst (asm) write_digits.simps) (simp add: Let_def)
      then show ?thesis using c by simp
    next
      case more: False
      then have "write_digits (it - 1) (res div 10) (?c # out) = Some (it', out')"
        using False 1(2) by (subst (asm) write_digits.simps) (simp add: Let_def)
      then show ?thesis using 1(1) [OF False refl more] c by auto
    qed
  qed
qed

lemma number_plain: "IntToString v = Some s \<Longrightarrow> plain s"
proof -
  assume "IntToString v = Some s"
  then obtain it out where w: "write_digits (kOutputBufSize 32) (nat \<bar>v\<bar>) [] = Some (it, out) \<or> (\<exists>n. write_digits (kOutputBufSize 32) n [] = Some (it, out))"
    "s = out \<or> s = 45 # out"
    by (auto simp: IntToString_def NumberToString_def Let_def bind_eq_Some_conv split: if_splits)
  then have "set out \<subseteq> {c. 48 \<le> c \<and> c \<le> 57}" using write_digits_chars by fastforce
  then show "plain s" using w(2) by (auto simp: plain_def)
qed

text \<open>
  The address a connection string describes: printing an address as a connection string and
  parsing it into a new object gives the address back, if its parts contain no delimiter and no
  zero, user and host are not empty and the port has a decimal text.
\<close>

theorem conn_string_roundtrip:
  assumes "plain (db_user a)" "plain (db_passwd a)" "plain (db_host a)" "plain (db_name a)" "db_user a \<noteq> []" "db_host a \<noteq> []"
    "conn_string a = Some str" "- (2 ^ 31) < db_port a" "db_port a < 2 ^ 31"
  shows "ParseFromConnString str new_DBAddrInfo =
    Some (True, new_DBAddrInfo\<lparr>db_host := db_host a, db_port := db_port a, db_user := db_user a, db_passwd := db_passwd a, db_name := db_name a\<rparr>)"
proof -
  let ?u = "db_user a" let ?w = "db_passwd a" let ?h = "db_host a" let ?n = "db_name a"
  obtain port where port: "IntToString (db_port a) = Some port"
    and str0: "str = ?u @ [58] @ ?w @ [64] @ ?h @ [58] @ port @ [47] @ ?n @ [47]"
    using assms(7) by (auto simp: conn_string_def bind_eq_Some_conv ascii_def)
  have pp: "plain port" by (rule number_plain [OF port])
  have val: "StringToInt port 0 = Some (True, db_port a)"
    using number_string_roundtrip [of 32 "int_traits 32 10" "db_port a" 0] port assms(8,9)
    by (simp add: StringToInt_def IntToString_def in_range_def int_traits_def is_signed_def)
  have nul: "c_str str = str"
    using assms(1-4) pp unfolding c_str_def takeWhile_eq_all_conv str0 by (auto simp: plain_def)
  define a0 where "a0 = new_DBAddrInfo"
  define a1 where "a1 = a0\<lparr>db_user := ?u, db_passwd := ?w\<rparr>"
  define a2 where "a2 = a1\<lparr>db_host := ?h, db_port := db_port a\<rparr>"
  define a3 where "a3 = a2\<lparr>db_name := ?n\<rparr>"
  let ?p1 = "length ?u" let ?p2 = "?p1 + 1 + length ?w" let ?p3 = "?p2 + 1 + length ?h" let ?p4 = "?p3 + 1 + length port"
    let ?p5 = "?p4 + 1 + length ?n"
  have "conn_loop str 0 0 0 a0 = conn_loop str ?p1 0 0 a0"
    using conn_scan [OF assms(1), of "[]" "58 # ?w @ [64] @ ?h @ [58] @ port @ [47] @ ?n @ [47]" 0 0 a0] by (simp add: str0)
  also have "\<dots> = conn_loop str (?p1 + 1) 0 ?p1 a0"
    using conn_colon [of ?u "?w @ [64] @ ?h @ [58] @ port @ [47] @ ?n @ [47]" 0 0 a0] by (simp add: str0)
  also have "\<dots> = conn_loop str ?p2 0 ?p1 a0"
    using conn_scan [OF assms(2), of "?u @ [58]" "[64] @ ?h @ [58] @ port @ [47] @ ?n @ [47]" 0 ?p1 a0] by (simp add: str0 add.assoc)
  also have "\<dots> = conn_loop str (?p2 + 1) (?p2 + 1) (?p2 + 1) (after_user str ?p2 0 ?p1 a0)"
    using conn_at [of "?u @ [58] @ ?w" "?h @ [58] @ port @ [47] @ ?n @ [47]" 0 ?p1 a0] by (simp add: str0 add.assoc)
  also have "after_user str ?p2 0 ?p1 a0 = a1"
    using assms(5) piece_between [of "[]" ?u "[58] @ ?w @ [64] @ ?h @ [58] @ port @ [47] @ ?n @ [47]"]
      piece_between [of "?u @ [58]" ?w "[64] @ ?h @ [58] @ port @ [47] @ ?n @ [47]"]
    by (simp add: after_user_def a1_def str0)
  also have "conn_loop str (?p2 + 1) (?p2 + 1) (?p2 + 1) a1 = conn_loop str ?p3 (?p2 + 1) (?p2 + 1) a1"
    using conn_scan [OF assms(3), of "?u @ [58] @ ?w @ [64]" "[58] @ port @ [47] @ ?n @ [47]" "?p2 + 1" "?p2 + 1" a1] by (simp add: str0 add.assoc)
  also have "\<dots> = conn_loop str (?p3 + 1) (?p2 + 1) ?p3 a1"
    using conn_colon [of "?u @ [58] @ ?w @ [64] @ ?h" "port @ [47] @ ?n @ [47]" "?p2 + 1" "?p2 + 1" a1] by (simp add: str0 add.assoc)
  also have "\<dots> = conn_loop str ?p4 (?p2 + 1) ?p3 a1"
    using conn_scan [OF pp, of "?u @ [58] @ ?w @ [64] @ ?h @ [58]" "[47] @ ?n @ [47]" "?p2 + 1" ?p3 a1] by (simp add: str0 add.assoc)
  also have "\<dots> = conn_loop str (?p4 + 1) (?p4 + 1) (?p4 + 1) a2"
  proof -
    have "piece str (?p3 + 1) ?p4 = port" "piece str (?p2 + 1) ?p3 = ?h"
      using piece_between [of "?u @ [58] @ ?w @ [64] @ ?h @ [58]" port "[47] @ ?n @ [47]"]
        piece_between [of "?u @ [58] @ ?w @ [64]" ?h "[58] @ port @ [47] @ ?n @ [47]"] by (simp_all add: str0 add.assoc)
    then have "after_host str ?p4 (?p2 + 1) ?p3 a1 = Some (True, a2)"
      using val assms(6) by (simp add: after_host_def a1_def a0_def new_DBAddrInfo_def a2_def)
    then show ?thesis
      using conn_slash [of "?u @ [58] @ ?w @ [64] @ ?h @ [58] @ port" "?n @ [47]" "?p2 + 1" ?p3 a1 a2] by (simp add: str0 add.assoc)
  qed
  also have "\<dots> = conn_loop str ?p5 (?p4 + 1) (?p4 + 1) a2"
    using conn_scan [OF assms(4), of "?u @ [58] @ ?w @ [64] @ ?h @ [58] @ port @ [47]" "[47]" "?p4 + 1" "?p4 + 1" a2] by (simp add: str0 add.assoc)
  also have "\<dots> = conn_loop str (?p5 + 1) (?p5 + 1) (?p5 + 1) a3"
  proof -
    have "piece str (?p4 + 1) ?p5 = ?n"
      using piece_between [of "?u @ [58] @ ?w @ [64] @ ?h @ [58] @ port @ [47]" ?n "[47]"] by (simp add: str0 add.assoc)
    then have "after_host str ?p5 (?p4 + 1) (?p4 + 1) a2 = Some (True, a3)"
      using assms(6) by (simp add: after_host_def a2_def a3_def)
    then show ?thesis
      using conn_slash [of "?u @ [58] @ ?w @ [64] @ ?h @ [58] @ port @ [47] @ ?n" "[]" "?p4 + 1" "?p4 + 1" a2 a3] by (simp add: str0 add.assoc)
  qed
  also have "\<dots> = Some (True, a3)" by (subst conn_loop.simps) (simp add: str0)
  finally show ?thesis by (simp add: ParseFromConnString_def nul a0_def [symmetric]) (simp add: a3_def a2_def a1_def a0_def new_DBAddrInfo_def)
qed

theorem conn_string_roundtrip_witness:
  "\<exists>str. conn_string (new_DBAddrInfo\<lparr>db_host := [104], db_port := 3306, db_user := [117], db_passwd := [112], db_name := [100]\<rparr>) = Some str \<and>
    ParseFromConnString str new_DBAddrInfo =
      Some (True, new_DBAddrInfo\<lparr>db_host := [104], db_port := 3306, db_user := [117], db_passwd := [112], db_name := [100]\<rparr>)"
proof -
  let ?a = "new_DBAddrInfo\<lparr>db_host := [104], db_port := 3306, db_user := [117], db_passwd := [112], db_name := [100]\<rparr>"
  obtain port where "IntToString 3306 = Some port"
    unfolding IntToString_def using number_string_roundtrip [of 32 "int_traits 32 10" 3306 0]
    by (auto simp: in_range_def int_traits_def)
  then obtain str where "conn_string ?a = Some str" by (simp add: conn_string_def new_DBAddrInfo_def)
  then show ?thesis using conn_string_roundtrip [of ?a str] by (simp add: new_DBAddrInfo_def plain_def)
qed

end
