(* ===== verification/ConnPool.thy ===== *)
theory ConnPool
  imports ConfigFile
begin

text \<open>
  The pool of database connections: db/conn_pool_manager.cc and .h, with the scoped pointer that its
  clients hold. Every operation of the pool after Initialize holds its lock, so the operations of
  several threads are steps in any order. A connection object is the number of its creation; whether
  an Open succeeds is up to the database, so it is an argument. None is an access out of bounds or
  through a null pointer.
\<close>

datatype conn_state = kDBConnState_Null | kDBConnState_Created | kDBConnState_Idle | kDBConnState_Busy

record db_slot =
  slot_state :: conn_state
  slot_conn :: "nat option"

definition new_slot :: db_slot where
  "new_slot = \<lparr>slot_state = kDBConnState_Null, slot_conn = None\<rparr>"

text \<open>The pool; next_object counts the objects created and destroyed_objects lists those deleted.\<close>

record conn_pool_manager =
  db_addr :: DBAddrInfo
  conn_pool :: "db_slot list"
  conned_pointer :: nat
  auto_commit :: bool
  next_object :: nat
  destroyed_objects :: "nat list"

definition new_pool :: conn_pool_manager where
  "new_pool = \<lparr>db_addr = new_DBAddrInfo, conn_pool = [], conned_pointer = 0, auto_commit = True, next_object = 0,
     destroyed_objects = []\<rparr>"

definition CreateDatabaseObject :: "conn_pool_manager \<Rightarrow> nat \<times> conn_pool_manager" where
  "CreateDatabaseObject p = (next_object p, p\<lparr>next_object := next_object p + 1\<rparr>)"

definition set_slot :: "nat \<Rightarrow> db_slot \<Rightarrow> conn_pool_manager \<Rightarrow> conn_pool_manager" where
  "set_slot i s p = p\<lparr>conn_pool := (conn_pool p)[i := s]\<rparr>"

text \<open>One round of the loop of Initialize.\<close>

definition init_slot :: "(nat \<Rightarrow> bool) \<Rightarrow> nat \<Rightarrow> conn_pool_manager \<Rightarrow> conn_pool_manager" where
  "init_slot opens i p =
     (let (c, p1) = CreateDatabaseObject p;
          p2 = set_slot i \<lparr>slot_state = kDBConnState_Created, slot_conn = Some c\<rparr> p1
      in if int i < min_conn_count (db_addr p) then
           (let p3 = (if opens i then set_slot i \<lparr>slot_state = kDBConnState_Idle, slot_conn = Some c\<rparr> p2 else p2)
            in p3\<lparr>conned_pointer := conned_pointer p3 + 1\<rparr>)
         else p2)"

text \<open>Resizing to a negative number asks for more memory than there is.\<close>

definition resize_pool :: "nat \<Rightarrow> db_slot list \<Rightarrow> db_slot list" where
  "resize_pool n l = take n l @ replicate (n - length l) new_slot"

definition Pool_Initialize :: "DBAddrInfo \<Rightarrow> bool \<Rightarrow> (nat \<Rightarrow> bool) \<Rightarrow> conn_pool_manager \<Rightarrow> (nat \<times> conn_pool_manager) option" where
  "Pool_Initialize addr commit opens p =
     (if max_conn_count addr < 0 then None
      else
        let n = nat (max_conn_count addr);
            p1 = p\<lparr>auto_commit := commit, db_addr := addr, conn_pool := resize_pool n (conn_pool p)\<rparr>;
            p2 = fold (init_slot opens) [0..<n] p1
        in Some (conned_pointer p2, p2))"

definition Pool_Shutdown :: "conn_pool_manager \<Rightarrow> conn_pool_manager" where
  "Pool_Shutdown p = p\<lparr>destroyed_objects := destroyed_objects p @ List.map_filter slot_conn (conn_pool p), conn_pool := []\<rparr>"

text \<open>The first slot from i below n with a property; the vector is indexed without a check.\<close>

function first_slot :: "(db_slot \<Rightarrow> bool) \<Rightarrow> db_slot list \<Rightarrow> nat \<Rightarrow> nat \<Rightarrow> nat option option" where
  "first_slot P pool i n =
     (if n \<le> i then Some None
      else if length pool \<le> i then None
      else if P (pool ! i) then Some (Some i)
      else first_slot P pool (i + 1) n)"
  by pat_completeness auto

termination by (relation "measure (\<lambda>(P, pool, i, n). n - i)") auto

declare first_slot.simps [simp del]

text \<open>opens says whether the Open of this call, if there is one, succeeds.\<close>

definition GetFreeConnection :: "bool \<Rightarrow> conn_pool_manager \<Rightarrow> (nat option \<times> conn_pool_manager) option" where
  "GetFreeConnection opens p = do {
     found \<leftarrow> first_slot (\<lambda>s. slot_state s = kDBConnState_Idle) (conn_pool p) 0 (conned_pointer p);
     let (conn, p1) =
       (case found of
          Some i \<Rightarrow> (slot_conn (conn_pool p ! i), set_slot i ((conn_pool p ! i)\<lparr>slot_state := kDBConnState_Busy\<rparr>) p)
        | None \<Rightarrow> (None, p));
     let k = conned_pointer p1;
     (if conn = None \<and> int k < max_conn_count (db_addr p1) then do {
        dcheck (k < length (conn_pool p1));
        (if slot_state (conn_pool p1 ! k) = kDBConnState_Created then do {
           c \<leftarrow> slot_conn (conn_pool p1 ! k);
           (if opens then
              Some (Some c, (set_slot k ((conn_pool p1 ! k)\<lparr>slot_state := kDBConnState_Busy\<rparr>) p1)\<lparr>conned_pointer := k + 1\<rparr>)
            else Some (None, p1))
         }
         else Some (None, p1))
      }
      else Some (conn, p1))
   }"

definition SetFreeConnection :: "nat option \<Rightarrow> conn_pool_manager \<Rightarrow> conn_pool_manager option" where
  "SetFreeConnection conn p = do {
     found \<leftarrow> first_slot (\<lambda>s. slot_conn s = conn) (conn_pool p) 0 (conned_pointer p);
     Some (case found of
             Some i \<Rightarrow> set_slot i ((conn_pool p ! i)\<lparr>slot_state := kDBConnState_Idle\<rparr>) p
           | None \<Rightarrow> p)
   }"

section \<open>Scoped pointers\<close>

text \<open>The pool and the scoped pointers alive, each by its name with the connection it holds.\<close>

record pool_world =
  pool :: conn_pool_manager
  scoped :: "nat \<rightharpoonup> nat option"

definition Scoped_construct :: "nat \<Rightarrow> bool \<Rightarrow> pool_world \<Rightarrow> pool_world option" where
  "Scoped_construct x opens w = do {
     (c, p) \<leftarrow> GetFreeConnection opens (pool w);
     Some (w\<lparr>pool := p, scoped := (scoped w)(x \<mapsto> c)\<rparr>)
   }"

text \<open>get, and the first half of the operators * and ->.\<close>

definition Scoped_get :: "nat \<Rightarrow> bool \<Rightarrow> pool_world \<Rightarrow> (nat option \<times> pool_world) option" where
  "Scoped_get x opens w = do {
     held \<leftarrow> scoped w x;
     (case held of
        Some c \<Rightarrow> Some (Some c, w)
      | None \<Rightarrow> do {
          (c, p) \<leftarrow> GetFreeConnection opens (pool w);
          Some (c, w\<lparr>pool := p, scoped := (scoped w)(x \<mapsto> c)\<rparr>)
        })
   }"

definition Scoped_is_null :: "nat \<Rightarrow> pool_world \<Rightarrow> bool option" where
  "Scoped_is_null x w = map_option (\<lambda>held. held = None) (scoped w x)"

definition Scoped_release :: "nat \<Rightarrow> pool_world \<Rightarrow> pool_world option" where
  "Scoped_release x w = do {
     held \<leftarrow> scoped w x;
     (case held of
        Some c \<Rightarrow> do {
          p \<leftarrow> SetFreeConnection (Some c) (pool w);
          Some (w\<lparr>pool := p, scoped := (scoped w)(x \<mapsto> None)\<rparr>)
        }
      | None \<Rightarrow> Some w)
   }"

definition Scoped_destroy :: "nat \<Rightarrow> pool_world \<Rightarrow> pool_world option" where
  "Scoped_destroy x w = do {
     w1 \<leftarrow> Scoped_release x w;
     Some (w1\<lparr>scoped := (scoped w1)(x := None)\<rparr>)
   }"

text \<open>The steps of the clients: making, using, releasing and destroying scoped pointers.\<close>

inductive pool_step :: "pool_world \<Rightarrow> pool_world \<Rightarrow> bool" where
  construct: "scoped w x = None \<Longrightarrow> Scoped_construct x opens w = Some w' \<Longrightarrow> pool_step w w'"
| get: "Scoped_get x opens w = Some (c, w') \<Longrightarrow> pool_step w w'"
| release: "Scoped_release x w = Some w' \<Longrightarrow> pool_step w w'"
| destroy: "Scoped_destroy x w = Some w' \<Longrightarrow> pool_step w w'"

text \<open>The states reachable from a pool that was initialised once; opens says which of the first connections opened.\<close>

inductive pool_reachable :: "DBAddrInfo \<Rightarrow> (nat \<Rightarrow> bool) \<Rightarrow> pool_world \<Rightarrow> bool" for addr opens where
  start: "Pool_Initialize addr commit opens new_pool = Some (n, p) \<Longrightarrow>
    pool_reachable addr opens \<lparr>pool = p, scoped = Map.empty\<rparr>"
| step: "pool_reachable addr opens w \<Longrightarrow> pool_step w w' \<Longrightarrow> pool_reachable addr opens w'"

section \<open>The invariant\<close>

definition holds :: "pool_world \<Rightarrow> nat \<Rightarrow> nat \<Rightarrow> bool" where
  "holds w x c \<longleftrightarrow> scoped w x = Some (Some c)"

definition busy :: "conn_pool_manager \<Rightarrow> nat \<Rightarrow> bool" where
  "busy p i \<longleftrightarrow> i < length (conn_pool p) \<and> slot_state (conn_pool p ! i) = kDBConnState_Busy"

text \<open>The shape of the pool: slot i has object i; above the pointer nothing has been opened.\<close>

definition pool_ok :: "DBAddrInfo \<Rightarrow> (nat \<Rightarrow> bool) \<Rightarrow> conn_pool_manager \<Rightarrow> bool" where
  "pool_ok addr opens p \<longleftrightarrow>
     db_addr p = addr \<and> int (length (conn_pool p)) = max_conn_count addr \<and> conned_pointer p \<le> length (conn_pool p) \<and>
     int (conned_pointer p) \<ge> min (min_conn_count addr) (max_conn_count addr) \<and>
     (\<forall>i < length (conn_pool p).
        slot_conn (conn_pool p ! i) = Some i \<and>
        (slot_state (conn_pool p ! i) = kDBConnState_Created \<longleftrightarrow>
           conned_pointer p \<le> i \<or> (int i < min_conn_count addr \<and> \<not> opens i)) \<and>
        slot_state (conn_pool p ! i) \<noteq> kDBConnState_Null)"

definition world_ok :: "DBAddrInfo \<Rightarrow> (nat \<Rightarrow> bool) \<Rightarrow> pool_world \<Rightarrow> bool" where
  "world_ok addr opens w \<longleftrightarrow>
     pool_ok addr opens (pool w) \<and>
     (\<forall>i. busy (pool w) i \<longleftrightarrow> (\<exists>x. holds w x i)) \<and>
     (\<forall>x y i. holds w x i \<longrightarrow> holds w y i \<longrightarrow> x = y)"

lemma set_slot_simps [simp]:
  "conn_pool (set_slot i s p) = (conn_pool p)[i := s]" "conned_pointer (set_slot i s p) = conned_pointer p"
  "db_addr (set_slot i s p) = db_addr p" "next_object (set_slot i s p) = next_object p"
  "destroyed_objects (set_slot i s p) = destroyed_objects p"
  by (simp_all add: set_slot_def)

lemma init_slots:
  assumes "next_object p = 0" "conned_pointer p = 0" "k \<le> length (conn_pool p)"
  shows "let q = fold (init_slot opens) [0..<k] p in
    next_object q = k \<and> db_addr q = db_addr p \<and> length (conn_pool q) = length (conn_pool p) \<and>
    int (conned_pointer q) = max 0 (min (int k) (min_conn_count (db_addr p))) \<and>
    (\<forall>i < k. slot_conn (conn_pool q ! i) = Some i \<and>
      slot_state (conn_pool q ! i) =
        (if int i < min_conn_count (db_addr p) \<and> opens i then kDBConnState_Idle else kDBConnState_Created))"
  using assms(3)
proof (induction k)
  case 0
  then show ?case using assms(1,2) by simp
next
  case (Suc k)
  define q where "q = fold (init_slot opens) [0..<k] p"
  have ih: "next_object q = k" "db_addr q = db_addr p" "length (conn_pool q) = length (conn_pool p)"
    "int (conned_pointer q) = max 0 (min (int k) (min_conn_count (db_addr p)))"
    "\<And>i. i < k \<Longrightarrow> slot_conn (conn_pool q ! i) = Some i \<and> slot_state (conn_pool q ! i) =
      (if int i < min_conn_count (db_addr p) \<and> opens i then kDBConnState_Idle else kDBConnState_Created)"
    using Suc unfolding q_def by (auto simp: Let_def)
  have f: "fold (init_slot opens) [0..<Suc k] p = init_slot opens k q" by (simp add: q_def)
  have l: "k < length (conn_pool q)" using ih(3) Suc.prems by simp
  let ?r = "init_slot opens k q"
  have r: "next_object ?r = Suc k \<and> db_addr ?r = db_addr p \<and> length (conn_pool ?r) = length (conn_pool p)"
    using ih(1-3) by (simp add: init_slot_def CreateDatabaseObject_def Let_def)
  have c: "int (conned_pointer ?r) = max 0 (min (int (Suc k)) (min_conn_count (db_addr p)))"
    using ih(2,4) by (auto simp: init_slot_def CreateDatabaseObject_def Let_def)
  have s: "slot_conn (conn_pool ?r ! i) = Some i \<and> slot_state (conn_pool ?r ! i) =
      (if int i < min_conn_count (db_addr p) \<and> opens i then kDBConnState_Idle else kDBConnState_Created)" if "i < Suc k" for i
  proof (cases "i = k")
    case True
    then show ?thesis using ih(1,2) l by (simp add: init_slot_def CreateDatabaseObject_def Let_def)
  next
    case False
    then have "conn_pool ?r ! i = conn_pool q ! i" by (simp add: init_slot_def CreateDatabaseObject_def Let_def)
    then show ?thesis using ih(5) [of i] False that by simp
  qed
  show ?case unfolding f Let_def using r c s by blast
qed

lemma initialized:
  assumes "Pool_Initialize addr commit opens new_pool = Some (n, p)"
  shows "pool_ok addr opens p" "\<not> busy p i"
proof -
  let ?n = "nat (max_conn_count addr)"
  define p1 where "p1 = new_pool\<lparr>auto_commit := commit, db_addr := addr, conn_pool := resize_pool ?n (conn_pool new_pool)\<rparr>"
  have m: "0 \<le> max_conn_count addr" and p: "p = fold (init_slot opens) [0..<?n] p1"
    using assms by (auto simp: Pool_Initialize_def Let_def p1_def split: if_splits)
  have "next_object p1 = 0" "conned_pointer p1 = 0" "?n \<le> length (conn_pool p1)" "length (conn_pool p1) = ?n" "db_addr p1 = addr"
    by (simp_all add: p1_def new_pool_def resize_pool_def)
  note i = init_slots [OF this(1-3), of opens, folded p, unfolded this(4,5) Let_def]
  then show "pool_ok addr opens p" using m by (auto simp: pool_ok_def)
  have "length (conn_pool p) = ?n" using i by blast
  then show "\<not> busy p i" using i by (cases "int i < min_conn_count addr \<and> opens i") (auto simp: busy_def)
qed

lemma first_slot_spec:
  assumes "n \<le> length slots" "i \<le> n"
  shows "case first_slot P slots i n of
      None \<Rightarrow> False
    | Some None \<Rightarrow> \<forall>j. i \<le> j \<and> j < n \<longrightarrow> \<not> P (slots ! j)
    | Some (Some j) \<Rightarrow> i \<le> j \<and> j < n \<and> P (slots ! j) \<and> (\<forall>k. i \<le> k \<and> k < j \<longrightarrow> \<not> P (slots ! k))"
  using assms
proof (induction P slots i n rule: first_slot.induct)
  case (1 P slots i n)
  show ?case
  proof (cases "n \<le> i")
    case True
    then show ?thesis using 1(3) by (subst first_slot.simps) auto
  next
    case False
    then have i: "\<not> length slots \<le> i" using 1(2) by simp
    show ?thesis
    proof (cases "P (slots ! i)")
      case True
      then show ?thesis using False i by (subst first_slot.simps) auto
    next
      case no: False
      have rec: "first_slot P slots i n = first_slot P slots (i + 1) n" using False i no by (subst first_slot.simps) simp
      note ih = 1(1) [OF False i no 1(2)]
      have at: "Q k" if "\<forall>k. i + 1 \<le> k \<and> k < b \<longrightarrow> Q k" "Q i" "i \<le> k \<and> k < b" for k b Q
        using that by (cases "k = i") auto
      show ?thesis using ih False no at [of _ "\<lambda>j. \<not> P (slots ! j)"] unfolding rec by (auto split: option.splits)
    qed
  qed
qed

lemma pool_okD:
  assumes "pool_ok addr opens p"
  shows "conned_pointer p \<le> length (conn_pool p)" "int (length (conn_pool p)) = max_conn_count addr" "db_addr p = addr"
    "i < length (conn_pool p) \<Longrightarrow> slot_conn (conn_pool p ! i) = Some i"
    "i < length (conn_pool p) \<Longrightarrow> slot_state (conn_pool p ! i) = kDBConnState_Created \<longleftrightarrow>
      conned_pointer p \<le> i \<or> int i < min_conn_count addr \<and> \<not> opens i"
    "busy p i \<Longrightarrow> i < conned_pointer p"
  using assms by (auto simp: pool_ok_def busy_def not_le [symmetric])

text \<open>Marking a slot that is open as busy or idle.\<close>

lemma mark_slot:
  assumes "pool_ok addr opens p" "i < conned_pointer p" "slot_state (conn_pool p ! i) \<in> {kDBConnState_Idle, kDBConnState_Busy}"
    "st \<in> {kDBConnState_Idle, kDBConnState_Busy}"
  shows "pool_ok addr opens (set_slot i ((conn_pool p ! i)\<lparr>slot_state := st\<rparr>) p)"
    "busy (set_slot i ((conn_pool p ! i)\<lparr>slot_state := st\<rparr>) p) j \<longleftrightarrow> (if j = i then st = kDBConnState_Busy else busy p j)"
proof -
  have l: "i < length (conn_pool p)" using assms(1,2) pool_okD(1) by fastforce
  have "slot_state (conn_pool p ! i) \<noteq> kDBConnState_Created" using assms(3) by auto
  then have "\<not> (int i < min_conn_count addr \<and> \<not> opens i)" using pool_okD(5) [OF assms(1) l] by simp
  then show "pool_ok addr opens (set_slot i ((conn_pool p ! i)\<lparr>slot_state := st\<rparr>) p)"
    using assms l by (auto simp: pool_ok_def nth_list_update)
  show "busy (set_slot i ((conn_pool p ! i)\<lparr>slot_state := st\<rparr>) p) j \<longleftrightarrow> (if j = i then st = kDBConnState_Busy else busy p j)"
    using l by (auto simp: busy_def nth_list_update)
qed

lemma GetFreeConnection_spec:
  assumes "pool_ok addr opens p"
  shows "\<exists>c p'. GetFreeConnection ok p = Some (c, p') \<and> pool_ok addr opens p' \<and>
    (case c of
       None \<Rightarrow> p' = p \<and> (\<forall>i < conned_pointer p. slot_state (conn_pool p ! i) \<noteq> kDBConnState_Idle) \<and>
         (int (conned_pointer p) = max_conn_count addr \<or> \<not> ok)
     | Some i \<Rightarrow> i < length (conn_pool p) \<and> \<not> busy p i \<and> (\<forall>j. busy p' j \<longleftrightarrow> busy p j \<or> j = i))"
proof -
  let ?I = "\<lambda>s. slot_state s = kDBConnState_Idle" let ?k = "conned_pointer p"
  note d = pool_okD [OF assms]
  have spec: "case first_slot ?I (conn_pool p) 0 ?k of None \<Rightarrow> False
      | Some None \<Rightarrow> \<forall>j. 0 \<le> j \<and> j < ?k \<longrightarrow> \<not> ?I (conn_pool p ! j)
      | Some (Some j) \<Rightarrow> 0 \<le> j \<and> j < ?k \<and> ?I (conn_pool p ! j) \<and> (\<forall>k. 0 \<le> k \<and> k < j \<longrightarrow> \<not> ?I (conn_pool p ! k))"
    by (rule first_slot_spec [OF d(1)]) simp
  then consider (idle) i where "first_slot ?I (conn_pool p) 0 ?k = Some (Some i)" "i < ?k" "?I (conn_pool p ! i)"
    | (none) "first_slot ?I (conn_pool p) 0 ?k = Some None" "\<forall>j < ?k. \<not> ?I (conn_pool p ! j)"
    by (auto split: option.splits)
  then show ?thesis
  proof cases
    case idle
    have l: "i < length (conn_pool p)" using idle(2) d(1) by simp
    have "GetFreeConnection ok p = Some (Some i, set_slot i ((conn_pool p ! i)\<lparr>slot_state := kDBConnState_Busy\<rparr>) p)"
      using idle(1) d(4) [OF l] by (simp add: GetFreeConnection_def Let_def)
    moreover have "\<not> busy p i" using idle(3) by (simp add: busy_def)
    ultimately show ?thesis using mark_slot [OF assms idle(2), of kDBConnState_Busy] idle(3) l by auto
  next
    case none
    show ?thesis
    proof (cases "int ?k < max_conn_count addr \<and> slot_state (conn_pool p ! ?k) = kDBConnState_Created \<and> ok")
      case False
      then have "GetFreeConnection ok p = Some (None, p)"
        using none(1) d(1-3) d(4) [of ?k] by (auto simp: GetFreeConnection_def Let_def dcheck_def)
      then show ?thesis using False none(2) assms d(1,2) d(5) [of ?k] by auto
    next
      case True
      then have l: "?k < length (conn_pool p)" using d(2) by simp
      let ?p = "(set_slot ?k ((conn_pool p ! ?k)\<lparr>slot_state := kDBConnState_Busy\<rparr>) p)\<lparr>conned_pointer := ?k + 1\<rparr>"
      have g: "GetFreeConnection ok p = Some (Some ?k, ?p)"
        using True none(1) d(3) d(4) [OF l] l by (simp add: GetFreeConnection_def Let_def)
      have b: "busy ?p j \<longleftrightarrow> busy p j \<or> j = ?k" for j using l by (auto simp: busy_def nth_list_update)
      have n: "\<not> busy p ?k" using True by (simp add: busy_def)
      have "int ?k < min_conn_count addr \<Longrightarrow> False" using assms True by (auto simp: pool_ok_def min_def split: if_splits)
      then have "pool_ok addr opens ?p" using assms l by (auto simp: pool_ok_def nth_list_update less_Suc_eq_le nat_less_le)
      then show ?thesis using g b n l by auto
    qed
  qed
qed

lemma SetFreeConnection_spec:
  assumes "pool_ok addr opens p" "busy p c"
  shows "\<exists>p'. SetFreeConnection (Some c) p = Some p' \<and> pool_ok addr opens p' \<and> (\<forall>j. busy p' j \<longleftrightarrow> busy p j \<and> j \<noteq> c)"
proof -
  let ?P = "\<lambda>s. slot_conn s = Some c" let ?k = "conned_pointer p"
  note d = pool_okD [OF assms(1)]
  have c: "c < ?k" "?P (conn_pool p ! c)" "slot_state (conn_pool p ! c) = kDBConnState_Busy"
    using assms(2) d(4,6) by (auto simp: busy_def)
  have uniq: "j = c" if "j < ?k" "?P (conn_pool p ! j)" for j using d(1,4) that by fastforce
  have "case first_slot ?P (conn_pool p) 0 ?k of None \<Rightarrow> False
      | Some None \<Rightarrow> \<forall>j. 0 \<le> j \<and> j < ?k \<longrightarrow> \<not> ?P (conn_pool p ! j)
      | Some (Some j) \<Rightarrow> 0 \<le> j \<and> j < ?k \<and> ?P (conn_pool p ! j) \<and> (\<forall>k. 0 \<le> k \<and> k < j \<longrightarrow> \<not> ?P (conn_pool p ! k))"
    by (rule first_slot_spec [OF d(1)]) simp
  then have "first_slot ?P (conn_pool p) 0 ?k = Some (Some c)" using c(1,2) uniq by (auto split: option.splits)
  then have "SetFreeConnection (Some c) p = Some (set_slot c ((conn_pool p ! c)\<lparr>slot_state := kDBConnState_Idle\<rparr>) p)"
    by (simp add: SetFreeConnection_def)
  then show ?thesis using mark_slot [OF assms(1) c(1), of kDBConnState_Idle] c(3) by auto
qed

text \<open>The operations of a scoped pointer keep the invariant.\<close>

lemma take_connection:
  assumes ok: "world_ok addr opens w" and x: "\<not> (\<exists>c. holds w x c)" and g: "GetFreeConnection ok1 (pool w) = Some (c, p)"
  shows "world_ok addr opens (w\<lparr>pool := p, scoped := (scoped w)(x \<mapsto> c)\<rparr>)"
proof -
  have p: "pool_ok addr opens p" and c: "case c of None \<Rightarrow> p = pool w | Some i \<Rightarrow> \<not> busy (pool w) i \<and> (\<forall>j. busy p j \<longleftrightarrow> busy (pool w) j \<or> j = i)"
    using GetFreeConnection_spec [of addr opens "pool w" ok1] ok g unfolding world_ok_def by (auto split: option.splits)
  have h: "holds (w\<lparr>pool := p, scoped := (scoped w)(x \<mapsto> c)\<rparr>) y i \<longleftrightarrow> (if y = x then c = Some i else holds w y i)" for y i
    by (simp add: holds_def)
  show ?thesis
  proof (cases c)
    case None
    then have "holds (w\<lparr>pool := p, scoped := (scoped w)(x \<mapsto> c)\<rparr>) y i \<longleftrightarrow> holds w y i" for y i using h x by auto
    then show ?thesis using None ok c by (simp add: world_ok_def)
  next
    case (Some i)
    then have n: "\<not> holds w y i" for y using ok c by (auto simp: world_ok_def)
    have b: "busy p j \<longleftrightarrow> (\<exists>y. if y = x then c = Some j else holds w y j)" for j
      using Some c ok x by (simp add: world_ok_def) metis
    show ?thesis unfolding world_ok_def h using Some p n ok x by (simp add: b) (auto simp: world_ok_def)
  qed
qed

lemma Scoped_release_ok:
  assumes ok: "world_ok addr opens w" and x: "scoped w x = Some held"
  shows "\<exists>w'. Scoped_release x w = Some w' \<and> world_ok addr opens w' \<and> scoped w' = (scoped w)(x \<mapsto> None)"
proof (cases held)
  case None
  then show ?thesis using assms by (simp add: Scoped_release_def fun_upd_idem)
next
  case (Some c)
  then have b: "busy (pool w) c" and p: "pool_ok addr opens (pool w)" using assms by (auto simp: world_ok_def holds_def)
  from SetFreeConnection_spec [OF p b] obtain p' where p': "SetFreeConnection (Some c) (pool w) = Some p'" "pool_ok addr opens p'"
    "\<And>j. busy p' j \<longleftrightarrow> busy (pool w) j \<and> j \<noteq> c" by blast
  let ?w = "w\<lparr>pool := p', scoped := (scoped w)(x \<mapsto> None)\<rparr>"
  have h: "holds ?w y i \<longleftrightarrow> holds w y i \<and> y \<noteq> x" for y i by (simp add: holds_def)
  have u: "holds w x i \<longleftrightarrow> i = c" for i using x Some by (auto simp: holds_def)
  have "world_ok addr opens ?w" using ok p'(2,3) unfolding world_ok_def h by (simp add: p'(3)) (metis u)
  then show ?thesis using x Some p'(1) by (simp add: Scoped_release_def)
qed

lemma drop_null: "world_ok addr opens w \<Longrightarrow> scoped w x = Some None \<Longrightarrow> world_ok addr opens (w\<lparr>scoped := (scoped w)(x := None)\<rparr>)"
proof -
  assume w: "world_ok addr opens w" "scoped w x = Some None"
  have "holds (w\<lparr>scoped := (scoped w)(x := None)\<rparr>) y i \<longleftrightarrow> holds w y i" for y i using w(2) by (auto simp: holds_def)
  then show ?thesis using w(1) by (simp add: world_ok_def)
qed

lemma pool_step_ok: "pool_step w w' \<Longrightarrow> world_ok addr opens w \<Longrightarrow> world_ok addr opens w'"
proof (induction rule: pool_step.induct)
  case (construct w x ok1 w')
  then show ?case using take_connection [OF construct(3), of x ok1] by (auto simp: Scoped_construct_def bind_eq_Some_conv holds_def)
next
  case (get x ok1 w c w')
  then obtain held where "scoped w x = Some held" by (auto simp: Scoped_get_def bind_eq_Some_conv)
  then show ?case using take_connection [OF get(2), of x ok1] get
    by (cases held) (auto simp: Scoped_get_def bind_eq_Some_conv holds_def)
next
  case (release x w w')
  then obtain held where "scoped w x = Some held" by (auto simp: Scoped_release_def bind_eq_Some_conv)
  then show ?case using Scoped_release_ok [OF release(2)] release(1) by fastforce
next
  case (destroy x w w')
  then obtain held where "scoped w x = Some held" by (auto simp: Scoped_destroy_def Scoped_release_def bind_eq_Some_conv)
  then obtain w1 where "Scoped_release x w = Some w1" "world_ok addr opens w1" "scoped w1 = (scoped w)(x \<mapsto> None)"
    using Scoped_release_ok [OF destroy(2)] by blast
  then show ?case using drop_null [of addr opens w1 x] destroy(1) by (simp add: Scoped_destroy_def)
qed

lemma reachable_ok: "pool_reachable addr opens w \<Longrightarrow> world_ok addr opens w"
proof (induction rule: pool_reachable.induct)
  case (start commit n p)
  then show ?case using initialized [OF start] by (simp add: world_ok_def holds_def)
next
  case (step w w')
  then show ?case using pool_step_ok by blast
qed

section \<open>Properties\<close>


text \<open>
  C17: a scoped pointer without a connection gets one exactly if some connection that could be
  opened is not held by anybody, or if the pool may still grow and the new connection opens;
  otherwise it gets null and nothing changes.
\<close>

theorem connection_available:
  assumes "pool_reachable addr opens w" "scoped w x = Some None"
  shows "\<exists>c w'. Scoped_get x ok w = Some (c, w') \<and>
    (c \<noteq> None \<longleftrightarrow>
       (\<exists>i < conned_pointer (pool w). \<not> (int i < min_conn_count addr \<and> \<not> opens i) \<and> \<not> (\<exists>y. holds w y i)) \<or>
       (int (conned_pointer (pool w)) < max_conn_count addr \<and> ok)) \<and>
    (case c of None \<Rightarrow> w' = w | Some i \<Rightarrow> holds w' x i \<and> \<not> (\<exists>y. holds w y i))"
proof -
  have w: "world_ok addr opens w" and p: "pool_ok addr opens (pool w)" using reachable_ok [OF assms(1)] by (simp_all add: world_ok_def)
  note d = pool_okD [OF p]
  let ?k = "conned_pointer (pool w)"
  have idle: "slot_state (conn_pool (pool w) ! i) = kDBConnState_Idle \<longleftrightarrow>
      \<not> (int i < min_conn_count addr \<and> \<not> opens i) \<and> \<not> (\<exists>y. holds w y i)" if "i < ?k" for i
  proof -
    have l: "i < length (conn_pool (pool w))" using that d(1) by simp
    have "(\<exists>y. holds w y i) \<longleftrightarrow> slot_state (conn_pool (pool w) ! i) = kDBConnState_Busy"
      using w l unfolding world_ok_def busy_def by blast
    moreover have "slot_state (conn_pool (pool w) ! i) \<noteq> kDBConnState_Null" using p l by (simp add: pool_ok_def)
    ultimately show ?thesis using d(5) [OF l] that by (cases "slot_state (conn_pool (pool w) ! i)") auto
  qed
  from GetFreeConnection_spec [OF p, of ok] obtain c p' where g: "GetFreeConnection ok (pool w) = Some (c, p')"
    and r: "case c of None \<Rightarrow> p' = pool w \<and> (\<forall>i < ?k. slot_state (conn_pool (pool w) ! i) \<noteq> kDBConnState_Idle) \<and>
        (int ?k = max_conn_count addr \<or> \<not> ok)
      | Some i \<Rightarrow> i < length (conn_pool (pool w)) \<and> \<not> busy (pool w) i \<and> (\<forall>j. busy p' j \<longleftrightarrow> busy (pool w) j \<or> j = i)"
    by blast
  let ?w = "w\<lparr>pool := p', scoped := (scoped w)(x \<mapsto> c)\<rparr>"
  have s: "Scoped_get x ok w = Some (c, ?w)" using g assms(2) by (simp add: Scoped_get_def)
  show ?thesis
  proof (cases c)
    case None
    have "?w = w" using None r assms(2) by (simp add: fun_upd_idem)
    moreover have "\<not> (\<exists>i < ?k. \<not> (int i < min_conn_count addr \<and> \<not> opens i) \<and> \<not> (\<exists>y. holds w y i))" using None r idle by auto
    moreover have "\<not> (int ?k < max_conn_count addr \<and> ok)" using None r by auto
    ultimately show ?thesis using s None by auto
  next
    case (Some i)
    then have "\<not> (\<exists>y. holds w y i)" using r w by (auto simp: world_ok_def)
    moreover have "holds ?w x i" using Some by (simp add: holds_def)
    moreover have "(\<exists>i < ?k. slot_state (conn_pool (pool w) ! i) = kDBConnState_Idle) \<or> int ?k < max_conn_count addr \<and> ok"
    proof (rule ccontr)
      assume n: "\<not> ?thesis"
      have "GetFreeConnection ok (pool w) = Some (None, pool w)"
        using n first_slot_spec [OF d(1), of 0 "\<lambda>s. slot_state s = kDBConnState_Idle"] d(2,3) d(4) [of ?k]
        by (auto simp: GetFreeConnection_def Let_def dcheck_def split: option.splits)
      then show False using g Some by simp
    qed
    ultimately show ?thesis using s Some idle by auto
  qed
qed

text \<open>A connection whose first Open failed is never used: the pool is smaller for good.\<close>

lemma failed_connection_lost:
  "pool_reachable addr opens w \<Longrightarrow> int i < min_conn_count addr \<Longrightarrow> \<not> opens i \<Longrightarrow> \<not> holds w x i"
  using reachable_ok [of addr opens w] pool_okD(5) [of addr opens "pool w" i]
  by (auto simp: world_ok_def busy_def) (metis busy_def conn_state.distinct(9))

text \<open>After Shutdown the pointer still counts the connections of the cleared vector.\<close>

lemma get_after_shutdown: "0 < conned_pointer p \<Longrightarrow> GetFreeConnection ok (Pool_Shutdown p) = None"
  by (simp add: GetFreeConnection_def Pool_Shutdown_def) (subst first_slot.simps, simp)

text \<open>A pool of two connections of which one is opened at first, and two scoped pointers.\<close>

definition two_conns :: DBAddrInfo where
  "two_conns = new_DBAddrInfo\<lparr>min_conn_count := 1, max_conn_count := 2\<rparr>"

definition two_slots :: "conn_state \<Rightarrow> conn_state \<Rightarrow> nat \<Rightarrow> conn_pool_manager" where
  "two_slots s t k = new_pool\<lparr>db_addr := two_conns, conn_pool := [\<lparr>slot_state = s, slot_conn = Some 0\<rparr>, \<lparr>slot_state = t, slot_conn = Some 1\<rparr>],
     conned_pointer := k, next_object := 2\<rparr>"

lemma two_started: "Pool_Initialize two_conns True (\<lambda>_. True) new_pool = Some (1, two_slots kDBConnState_Idle kDBConnState_Created 1)"
  by (simp add: Pool_Initialize_def two_conns_def two_slots_def new_DBAddrInfo_def new_pool_def resize_pool_def init_slot_def set_slot_def
    CreateDatabaseObject_def upt_rec numeral_2_eq_2)

lemma two_pointers:
  "\<exists>w. pool_reachable two_conns (\<lambda>_. True) w \<and> pool w = two_slots kDBConnState_Busy kDBConnState_Created 1 \<and>
    scoped w = [0 \<mapsto> Some 0] \<and> scoped w 1 = None"
proof -
  let ?w = "\<lparr>pool = two_slots kDBConnState_Idle kDBConnState_Created 1, scoped = Map.empty\<rparr>"
  have r: "pool_reachable two_conns (\<lambda>_. True) ?w" by (rule pool_reachable.start [OF two_started])
  have "Scoped_construct 0 True ?w = Some \<lparr>pool = two_slots kDBConnState_Busy kDBConnState_Created 1, scoped = [0 \<mapsto> Some 0]\<rparr>"
    by (simp add: Scoped_construct_def GetFreeConnection_def two_slots_def set_slot_def first_slot.simps new_pool_def)
  then have "pool_step ?w \<lparr>pool = two_slots kDBConnState_Busy kDBConnState_Created 1, scoped = [0 \<mapsto> Some 0]\<rparr>"
    by (rule pool_step.construct [rotated]) simp
  from pool_reachable.step [OF r this] show ?thesis by force
qed


text \<open>When both connections are taken, a third pointer gets null.\<close>

lemma third_pointer:
  "\<exists>w. pool_reachable two_conns (\<lambda>_. True) w \<and> pool w = two_slots kDBConnState_Busy kDBConnState_Busy 2 \<and>
    scoped w 2 = Some None \<and> scoped w 0 = Some (Some 0) \<and> scoped w 1 = Some (Some 1)"
proof -
  from two_pointers obtain w where w: "pool_reachable two_conns (\<lambda>_. True) w" "pool w = two_slots kDBConnState_Busy kDBConnState_Created 1"
    "scoped w = [0 \<mapsto> Some 0]" "scoped w 1 = None" by blast
  define w1 where "w1 = w\<lparr>pool := two_slots kDBConnState_Busy kDBConnState_Busy 2, scoped := (scoped w)(1 \<mapsto> Some 1)\<rparr>"
  have "Scoped_construct 1 True w = Some w1"
    using w(2,3) by (simp add: w1_def Scoped_construct_def GetFreeConnection_def two_slots_def set_slot_def first_slot.simps new_pool_def
      two_conns_def new_DBAddrInfo_def numeral_2_eq_2)
  then have r1: "pool_reachable two_conns (\<lambda>_. True) w1" using pool_reachable.step [OF w(1)] pool_step.construct [OF w(4)] by blast
  define w2 where "w2 = w1\<lparr>scoped := (scoped w1)(2 \<mapsto> None)\<rparr>"
  have "Scoped_construct 2 True w1 = Some w2"
    by (simp add: w1_def w2_def Scoped_construct_def GetFreeConnection_def two_slots_def set_slot_def first_slot.simps new_pool_def
      two_conns_def new_DBAddrInfo_def numeral_2_eq_2)
  moreover have "scoped w1 2 = None" using w(3) by (simp add: w1_def)
  ultimately have "pool_reachable two_conns (\<lambda>_. True) w2" using pool_reachable.step [OF r1] pool_step.construct by blast
  moreover have "pool w2 = two_slots kDBConnState_Busy kDBConnState_Busy 2" "scoped w2 2 = Some None" "scoped w2 0 = Some (Some 0)" "scoped w2 1 = Some (Some 1)"
    using w(3) by (simp_all add: w2_def w1_def)
  ultimately show ?thesis by blast
qed

theorem connection_available_witness: "\<exists>w. pool_reachable two_conns (\<lambda>_. True) w \<and> Scoped_get 2 True w = Some (None, w)"
proof -
  from third_pointer obtain w where w: "pool_reachable two_conns (\<lambda>_. True) w" "pool w = two_slots kDBConnState_Busy kDBConnState_Busy 2"
    "scoped w 2 = Some None" "scoped w 0 = Some (Some 0)" "scoped w 1 = Some (Some 1)" by blast
  have k: "conned_pointer (pool w) = 2" by (simp add: w(2) two_slots_def)
  have "holds w 0 0" "holds w 1 1" using w by (simp_all add: holds_def)
  then have "\<not> (\<exists>i < 2. \<not> (\<exists>y. holds w y i))" by (auto simp: less_2_cases_iff)
  moreover have "max_conn_count two_conns = 2" by (simp add: two_conns_def)
  ultimately have "Scoped_get 2 True w = Some (None, w)" using connection_available [OF w(1,3), of True] k by auto
  then show ?thesis using w(1) by blast
qed

end
