(* ===== verification/QueryString.thy ===== *)
theory QueryString
  imports Http ConfigFile
begin

text \<open>
  Queries with parameters: db/database_util.cc and .h. A C string is the bytes before its zero; a
  parameter points to memory, the bytes that may be read there. None is an access outside of it or
  outside of the list of parameters. How floating-point numbers are printed is up to the C library: a
  parameter, as a function of their bytes. An int or uint32 printed as unsigned long is taken as zero-extended, as
  the calling conventions in use pass it.
\<close>

section \<open>Parameters\<close>

definition kColumnTypeStrEsc :: int where "kColumnTypeStrEsc = 0"
definition kColumnTypeStr :: int where "kColumnTypeStr = 1"
definition kColumnTypeInt32 :: int where "kColumnTypeInt32 = 2"
definition kColumnTypeUInt32 :: int where "kColumnTypeUInt32 = 3"
definition kColumnTypeBlob :: int where "kColumnTypeBlob = 4"
definition kColumnTypeStr2 :: int where "kColumnTypeStr2 = 5"
definition kColumnTypeFloat :: int where "kColumnTypeFloat = 6"
definition kColumnTypeDouble :: int where "kColumnTypeDouble = 7"

lemmas column_types = kColumnTypeStrEsc_def kColumnTypeStr_def kColumnTypeInt32_def kColumnTypeUInt32_def kColumnTypeBlob_def
  kColumnTypeStr2_def kColumnTypeFloat_def kColumnTypeDouble_def

record QueryParamItem =
  item_type :: int
  item_len :: int
  item_param :: "byte list option"

definition addparam :: "byte list option \<Rightarrow> int \<Rightarrow> int \<Rightarrow> QueryParamItem list \<Rightarrow> QueryParamItem list" where
  "addparam mem len type ps = ps @ [\<lparr>item_type = type, item_len = len, item_param = mem\<rparr>]"

text \<open>strlen needs a terminating zero.\<close>

definition strlen :: "byte list \<Rightarrow> int option" where
  "strlen mem = (if 0 \<in> set mem then Some (int (length (c_str mem))) else None)"

definition AddParamEsc :: "byte list \<Rightarrow> QueryParamItem list \<Rightarrow> QueryParamItem list option" where
  "AddParamEsc mem ps = do { n \<leftarrow> strlen mem; Some (addparam (Some mem) n kColumnTypeStrEsc ps) }"

definition AddParam :: "byte list \<Rightarrow> QueryParamItem list \<Rightarrow> QueryParamItem list option" where
  "AddParam mem ps = do { n \<leftarrow> strlen mem; Some (addparam (Some mem) n kColumnTypeStr ps) }"

definition AddParam_int :: "byte list option \<Rightarrow> QueryParamItem list \<Rightarrow> QueryParamItem list" where
  "AddParam_int mem = addparam mem 4 kColumnTypeInt32"

definition AddParam_float :: "byte list option \<Rightarrow> QueryParamItem list \<Rightarrow> QueryParamItem list" where
  "AddParam_float mem = addparam mem 4 kColumnTypeFloat"

definition AddParam_uint32 :: "byte list option \<Rightarrow> QueryParamItem list \<Rightarrow> QueryParamItem list" where
  "AddParam_uint32 mem = addparam mem 4 kColumnTypeUInt32"

definition AddParam_len :: "byte list option \<Rightarrow> int \<Rightarrow> QueryParamItem list \<Rightarrow> QueryParamItem list" where
  "AddParam_len mem len = addparam mem len kColumnTypeStr"

definition AddParamEsc_len :: "byte list option \<Rightarrow> int \<Rightarrow> QueryParamItem list \<Rightarrow> QueryParamItem list" where
  "AddParamEsc_len mem len = addparam mem len kColumnTypeBlob"

definition AddParam_double :: "byte list option \<Rightarrow> QueryParamItem list \<Rightarrow> QueryParamItem list" where
  "AddParam_double mem = addparam mem 8 kColumnTypeDouble"

section \<open>The text of a parameter\<close>

text \<open>StringAppendQ appends count bytes of the memory; a backslash comes before quotes and backslashes.\<close>

fun escaped_bytes :: "byte list \<Rightarrow> nat \<Rightarrow> byte list option" where
  "escaped_bytes mem 0 = Some []"
| "escaped_bytes [] (Suc n) = None"
| "escaped_bytes (c # mem) (Suc n) =
     map_option (\<lambda>r. (if c = 39 then [92, c] else if c = 34 then [92, c] else if c = 92 then [92, c] else [c]) @ r)
       (escaped_bytes mem n)"

definition StringAppendQ :: "byte list \<Rightarrow> byte list \<Rightarrow> int \<Rightarrow> byte list option" where
  "StringAppendQ dest src count = map_option (\<lambda>r. dest @ r) (escaped_bytes src (nat count))"

definition appended :: "byte list \<Rightarrow> byte list \<Rightarrow> int \<Rightarrow> byte list option" where
  "appended dest mem len = (if len \<noteq> 0 then StringAppendQ dest mem len else Some dest)"

text \<open>The memory read as an integer of four bytes.\<close>

definition read_uint32 :: "byte list \<Rightarrow> uint32 option" where
  "read_uint32 mem = (if 4 \<le> length mem then Some (le_to_word (take 4 mem)) else None)"

definition signed_text :: "int \<Rightarrow> byte list" where
  "signed_text v = (if v < 0 then 45 # decimal (nat (- v)) else decimal (nat v))"

text \<open>The switch; c is the character of the query after the placeholder's first.\<close>

definition append_param ::
  "(byte list \<Rightarrow> byte list option) \<Rightarrow> (byte list \<Rightarrow> byte list option) \<Rightarrow> byte \<Rightarrow> QueryParamItem \<Rightarrow> byte list \<Rightarrow> byte list option"
where
  "append_param float_text double_text c item out =
     (case item_param item of
        None \<Rightarrow> Some (out @ ascii ''NULL'')
      | Some mem \<Rightarrow>
          if item_type item = kColumnTypeStr2 then do {
            dcheck (0 \<le> item_len item \<and> item_len item * 2 < 2 ^ 31);
            o1 \<leftarrow> appended (out @ [39]) mem (item_len item * 2);
            Some (o1 @ [39])
          }
          else if item_type item = kColumnTypeStrEsc \<or> item_type item = kColumnTypeBlob then do {
            o1 \<leftarrow> appended (out @ [39]) mem (item_len item);
            Some (o1 @ [39])
          }
          else if item_type item = kColumnTypeStr then do {
            o1 \<leftarrow> appended (if c \<noteq> 115 then out @ [39] else out) mem (item_len item);
            Some (if c \<noteq> 115 then o1 @ [39] else o1)
          }
          else if item_type item = kColumnTypeInt32 then map_option (\<lambda>v. out @ signed_text (sint v)) (read_uint32 mem)
          else if item_type item = kColumnTypeUInt32 then map_option (\<lambda>v. out @ decimal (unat v)) (read_uint32 mem)
          else if item_type item = kColumnTypeFloat then map_option (\<lambda>t. out @ t) (float_text mem)
          else if item_type item = kColumnTypeDouble then map_option (\<lambda>t. out @ t) (double_text mem)
          else Some out)"

section \<open>Substitution\<close>

text \<open>The query is read as a C string, with its zero at its length.\<close>

definition placeholder_char :: "byte \<Rightarrow> bool" where
  "placeholder_char c \<longleftrightarrow> c = 115 \<or> (48 \<le> c \<and> c \<le> 57)"

text \<open>The inner loop, from sp over the characters of a placeholder.\<close>

function skip_placeholder :: "byte list \<Rightarrow> nat \<Rightarrow> nat" where
  "skip_placeholder q sp = (if sp < length q \<and> q ! sp \<noteq> 0 \<and> placeholder_char (q ! sp) then skip_placeholder q (sp + 1) else sp)"
  by pat_completeness auto

termination by (relation "measure (\<lambda>(q, sp). length q - sp)") auto

declare skip_placeholder.simps [simp del]

lemma skip_placeholder_ge: "sp \<le> skip_placeholder q sp"
proof (induction q sp rule: skip_placeholder.induct)
  case (1 q sp)
  show ?case
  proof (cases "sp < length q \<and> q ! sp \<noteq> 0 \<and> placeholder_char (q ! sp)")
    case True
    then have "sp + 1 \<le> skip_placeholder q (sp + 1)" by (rule 1)
    then show ?thesis using True by (subst skip_placeholder.simps) simp
  next
    case False
    then show ?thesis by (subst skip_placeholder.simps) auto
  qed
qed

text \<open>
  The loop over the query. The comparison of i with the size less one is unsigned, so it never holds
  for an empty list; then the access is out of bounds. ScanFail is the return inside the loop,
  ScanEnd its end, with pprev, i and the text so far.
\<close>

datatype scan = ScanFail | ScanEnd nat nat "byte list"

function query_loop ::
  "(byte \<Rightarrow> QueryParamItem \<Rightarrow> byte list \<Rightarrow> byte list option) \<Rightarrow> byte list \<Rightarrow> QueryParamItem list \<Rightarrow>
   nat \<Rightarrow> nat \<Rightarrow> nat \<Rightarrow> byte list \<Rightarrow> scan option"
where
  "query_loop app q ps sp pprev i out =
     (if length q \<le> sp then (if sp = length q then Some (ScanEnd pprev i out) else None)
      else if q ! sp = 0 then Some (ScanEnd pprev i out)
      else
        let sp1 = sp + 1; c = (if sp1 < length q then q ! sp1 else 0)
        in if c = 37 \<or> c = 58 then
             (let sp2 = skip_placeholder q (sp1 + 1)
              in if ps \<noteq> [] \<and> length ps - 1 < i then Some ScanFail
                 else do {
                   dcheck (i < length ps);
                   o1 \<leftarrow> app (if sp1 + 1 < length q then q ! (sp1 + 1) else 0) (ps ! i) (out @ piece q pprev sp1);
                   query_loop app q ps sp2 sp2 (i + 1) o1
                 })
           else query_loop app q ps sp1 pprev i out)"
  by pat_completeness auto

termination
proof (relation "measure (\<lambda>(app, q, ps, sp, pprev, i, out). length q - sp)", goal_cases)
  case (2 app q ps sp pprev i out sp1 c sp2 u o1)
  then show ?case using skip_placeholder_ge [of "sp1 + 1" q] by auto
qed auto

declare query_loop.simps [simp del]

definition limit_text :: "int \<Rightarrow> byte list" where
  "limit_text lmt = (if lmt \<noteq> 0 then ascii '' LIMIT '' @ decimal (unat (word_of_int lmt :: uint32)) else [])"

text \<open>MakeQueryString into a string; app is append_param with the two functions for floating-point numbers.\<close>

definition MakeQueryString ::
  "(byte \<Rightarrow> QueryParamItem \<Rightarrow> byte list \<Rightarrow> byte list option) \<Rightarrow> byte list option \<Rightarrow> QueryParamItem list option \<Rightarrow> int \<Rightarrow>
   byte list \<Rightarrow> (bool \<times> byte list) option"
where
  "MakeQueryString app query params lmt query_string =
     (case query of
        None \<Rightarrow> Some (False, query_string)
      | Some str \<Rightarrow>
          let q = c_str str;
              limit = limit_text lmt
          in case params of
               None \<Rightarrow> Some (True, q @ limit)
             | Some ps \<Rightarrow>
                 (case query_loop app q ps 0 0 0 [] of
                    None \<Rightarrow> None
                  | Some ScanFail \<Rightarrow> Some (False, [])
                  | Some (ScanEnd pprev i out) \<Rightarrow>
                      if i \<noteq> length ps then Some (False, [])
                      else Some (True, out @ drop pprev q @ limit)))"

text \<open>The overloads without parameters and without a limit.\<close>

definition MakeQueryString_limit where "MakeQueryString_limit app query lmt query_string = MakeQueryString app query None lmt query_string"
definition MakeQueryString_params where "MakeQueryString_params app query params query_string = MakeQueryString app query params 0 query_string"

section \<open>Literals\<close>

text \<open>
  How MySQL reads the rest of a string literal in single quotes: a doubled quote and a backslash before
  a quote or backslash stand for that character; other backslashes are not used here and not read.
\<close>

fun read_quoted :: "byte list \<Rightarrow> (byte list \<times> byte list) option" where
  "read_quoted [] = None"
| "read_quoted [c] = (if c = 39 then Some ([], []) else None)"
| "read_quoted (c # d # s) =
     (if c = 92 then (if d \<in> {39, 34, 92} then map_option (\<lambda>(v, r). (d # v, r)) (read_quoted s) else None)
      else if c = 39 then (if d = 39 then map_option (\<lambda>(v, r). (39 # v, r)) (read_quoted s) else Some ([], d # s))
      else map_option (\<lambda>(v, r). (c # v, r)) (read_quoted (d # s)))"

definition read_literal :: "byte list \<Rightarrow> (byte list \<times> byte list) option" where
  "read_literal s = (case s of [] \<Rightarrow> None | c # r \<Rightarrow> if c = 39 then read_quoted r else None)"

lemma read_quoted_plain: "c \<noteq> 92 \<Longrightarrow> c \<noteq> 39 \<Longrightarrow> s \<noteq> [] \<Longrightarrow> read_quoted (c # s) = map_option (\<lambda>(v, r). (c # v, r)) (read_quoted s)"
  by (cases s) auto

lemma read_quoted_end: "rest = [] \<or> hd rest \<noteq> 39 \<Longrightarrow> read_quoted (39 # rest) = Some ([], rest)"
  by (cases rest) auto

lemma escaped_bytes_total: "n \<le> length mem \<Longrightarrow> \<exists>e. escaped_bytes mem n = Some e"
  by (induction mem n rule: escaped_bytes.induct) auto

lemma escaped_bytes_read:
  "escaped_bytes mem n = Some e \<Longrightarrow> rest = [] \<or> hd rest \<noteq> 39 \<Longrightarrow> read_quoted (e @ 39 # rest) = Some (take n mem, rest)"
proof (induction mem n arbitrary: e rule: escaped_bytes.induct)
  case (1 mem)
  then show ?case using read_quoted_end [of rest] by simp
next
  case (3 c mem n)
  then obtain r where r: "escaped_bytes mem n = Some r" by auto
  have ih: "read_quoted (r @ 39 # rest) = Some (take n mem, rest)" using 3(1) [OF r 3(3)] .
  show ?case
  proof (cases "c \<in> {39, 34, 92}")
    case True
    then have "e = 92 # c # r" using 3(2) r by auto
    then show ?thesis using True ih by auto
  next
    case False
    then have "e = c # r" using 3(2) r by auto
    then show ?thesis using False ih read_quoted_plain [of c "r @ 39 # rest"] by simp
  qed
qed simp

lemma appended_prefix: "appended out mem n = map_option (\<lambda>x. out @ x) (appended [] mem n)"
  by (simp add: appended_def StringAppendQ_def option.map_comp comp_def)

lemma append_param_prefix: "append_param ft dt c item out = map_option (\<lambda>x. out @ x) (append_param ft dt c item [])"
proof (cases "item_param item")
  case (Some mem)
  have "appended (out @ pre) mem n = map_option (\<lambda>x. out @ x) (appended pre mem n)" for pre n
    by (simp add: appended_def StringAppendQ_def option.map_comp comp_def)
  note this [of "[]"] this [of "[39]"] this
  then show ?thesis using Some
    by (cases "appended [] mem (item_len item)"; cases "appended [39] mem (item_len item)"; cases "appended [39] mem (item_len item * 2)")
      (auto simp: append_param_def column_types option.map_comp comp_def dcheck_def)
qed (simp add: append_param_def)



text \<open>A parameter of kind Str2 is read for twice its length: past its end, if its memory is no longer.\<close>

lemma str2_reads_twice:
  assumes "item_param item = Some mem" "item_type item = kColumnTypeStr2" "item_len item = int (length mem)" "mem \<noteq> []"
  shows "append_param float_text double_text c item out = None"
proof -
  have none: "escaped_bytes m n = None" if "length m < n" for m n
    using that by (induction m n rule: escaped_bytes.induct) auto
  then have "escaped_bytes mem (nat (int (length mem) * 2)) = None"
    using assms(4) by (intro none) (simp add: zless_nat_eq_int_zless)
  then show ?thesis using assms by (simp add: append_param_def column_types appended_def StringAppendQ_def)
qed

section \<open>Templates\<close>

text \<open>
  A query as its first text and, for each placeholder, its first character, the digits or s that follow
  and the text behind. Every text but the last has a character; the first one may be anything, since
  the loop steps over it.
\<close>

type_synonym query_segment = "byte \<times> byte list \<times> byte list"

definition text_ok :: "byte list \<Rightarrow> bool" where
  "text_ok t \<longleftrightarrow> 0 \<notin> set t \<and> 37 \<notin> set (tl t) \<and> 58 \<notin> set (tl t)"

definition segment_ok :: "query_segment \<Rightarrow> bool" where
  "segment_ok g = (case g of (m, ds, t) \<Rightarrow>
     m \<in> {37, 58} \<and> list_all placeholder_char ds \<and> text_ok t \<and> (t = [] \<or> \<not> placeholder_char (hd t)))"

definition segments_text :: "query_segment list \<Rightarrow> byte list" where
  "segments_text segs = concat (map (\<lambda>(m, ds, t). m # ds @ t) segs)"

fun template_ok :: "byte list \<Rightarrow> query_segment list \<Rightarrow> bool" where
  "template_ok t [] = text_ok t"
| "template_ok t ((m, ds, t1) # segs) = (t \<noteq> [] \<and> text_ok t \<and> segment_ok (m, ds, t1) \<and> template_ok t1 segs)"

text \<open>What the placeholders and the texts become: None if the counts differ.\<close>

definition next_char :: "byte list \<Rightarrow> byte list \<Rightarrow> byte" where
  "next_char ds t = (if ds \<noteq> [] then hd ds else if t \<noteq> [] then hd t else 0)"

fun expand ::
  "(byte \<Rightarrow> QueryParamItem \<Rightarrow> byte list \<Rightarrow> byte list option) \<Rightarrow> query_segment list \<Rightarrow> QueryParamItem list \<Rightarrow> byte list option option"
where
  "expand app [] ps = Some (if ps = [] then Some [] else None)"
| "expand app (g # segs) [] = Some None"
| "expand app ((m, ds, t) # segs) (p # ps) = do {
     x \<leftarrow> app (next_char ds t) p [];
     r \<leftarrow> expand app segs ps;
     Some (map_option (\<lambda>r. x @ t @ r) r)
   }"

lemma loop_text:
  assumes "c \<noteq> 0" "0 \<notin> set y" "37 \<notin> set y" "58 \<notin> set y"
  shows "query_loop app (pre @ (c # y) @ z) ps (length pre) pp i out = query_loop app (pre @ (c # y) @ z) ps (length pre + length y) pp i out"
  using assms
proof (induction y arbitrary: pre c)
  case (Cons d y)
  have "query_loop app (pre @ (c # d # y) @ z) ps (length pre) pp i out = query_loop app (pre @ (c # d # y) @ z) ps (length pre + 1) pp i out"
    using Cons.prems by (subst query_loop.simps) (auto simp: Let_def nth_append)
  then show ?case using Cons.IH [of d "pre @ [c]"] Cons.prems by simp
qed simp

lemma loop_end: "c \<noteq> 0 \<Longrightarrow> query_loop app (pre @ [c]) ps (length pre) pp i out = Some (ScanEnd pp i out)"
  by (subst query_loop.simps) (simp add: Let_def, subst query_loop.simps, simp)

lemma skip_digits:
  "list_all placeholder_char ds \<Longrightarrow> t = [] \<or> \<not> placeholder_char (hd t) \<Longrightarrow>
   skip_placeholder (pre @ ds @ t) (length pre) = length pre + length ds"
proof (induction ds arbitrary: pre)
  case Nil
  then show ?case by (cases t) (simp_all add: skip_placeholder.simps)
next
  case (Cons d ds)
  have "d \<noteq> 0" using Cons.prems(1) by (auto simp: placeholder_char_def)
  then have "skip_placeholder (pre @ (d # ds) @ t) (length pre) = skip_placeholder (pre @ (d # ds) @ t) (length pre + 1)"
    using Cons.prems(1) by (subst skip_placeholder.simps) simp
  then show ?case using Cons.IH [of "pre @ [d]"] Cons.prems by simp
qed

lemma loop_marker:
  fixes pre ds t :: "byte list" and c m :: byte
  defines "q \<equiv> pre @ [c, m] @ ds @ t" and "sp \<equiv> length pre + 2 + length ds"
  assumes "c \<noteq> 0" "m \<in> {37, 58}" "list_all placeholder_char ds" "t = [] \<or> \<not> placeholder_char (hd t)"
  shows "query_loop app q ps (length pre) pp i out =
    (if ps \<noteq> [] \<and> length ps - 1 < i then Some ScanFail
     else do {
       dcheck (i < length ps);
       o1 \<leftarrow> app (next_char ds t) (ps ! i) (out @ piece q pp (length pre + 1));
       query_loop app q ps sp sp (i + 1) o1
     })"
proof -
  have skip: "skip_placeholder q (length pre + 2) = sp"
    using skip_digits [OF assms(5,6), of "pre @ [c, m]"] by (simp add: q_def sp_def)
  have n: "(if length pre + 2 < length q then q ! (length pre + 2) else 0) = next_char ds t"
    by (cases ds; cases t) (simp_all add: q_def next_char_def nth_append)
  have l: "length pre + 1 < length q" "q ! length pre = c" "q ! (length pre + 1) = m" by (simp_all add: q_def nth_append)
  show ?thesis using assms(3,4) l skip n by (subst query_loop.simps) (auto simp: Let_def)
qed

lemma last_split:
  assumes "c \<noteq> 0" "0 \<notin> set y"
  shows "\<exists>x d. c # y = x @ [d] \<and> d \<noteq> 0 \<and> length x = length y"
proof (intro exI conjI)
  show "c # y = butlast (c # y) @ [last (c # y)]" by (rule append_butlast_last_id [symmetric]) simp
  have "last (c # y) \<in> set (c # y)" by (rule last_in_set) simp
  then show "last (c # y) \<noteq> 0" using assms by (metis set_ConsD)
qed simp

definition query_result :: "byte list \<Rightarrow> byte list \<Rightarrow> QueryParamItem list \<Rightarrow> scan option \<Rightarrow> (bool \<times> byte list) option" where
  "query_result limit q ps r =
     (case r of
        None \<Rightarrow> None
      | Some ScanFail \<Rightarrow> Some (False, [])
      | Some (ScanEnd pprev i out) \<Rightarrow> if i \<noteq> length ps then Some (False, []) else Some (True, out @ drop pprev q @ limit))"

lemma loop_expands:
  assumes "\<And>c p out. app c p out = map_option (\<lambda>x. out @ x) (app c p [])"
  shows "template_ok t segs \<Longrightarrow> i \<le> length ps \<Longrightarrow> ps \<noteq> [] \<or> segs = [] \<Longrightarrow> q = pre @ t @ segments_text segs \<Longrightarrow>
    query_result limit q ps (query_loop app q ps (length pre) (length pre) i out) =
      (case expand app segs (drop i ps) of
         None \<Rightarrow> None
       | Some None \<Rightarrow> Some (False, [])
       | Some (Some r) \<Rightarrow> Some (True, out @ t @ r @ limit))"
proof (induction segs arbitrary: t pre i out)
  case Nil
  have q: "q = pre @ t" using Nil.prems by (simp add: segments_text_def)
  have "query_loop app q ps (length pre) (length pre) i out = Some (ScanEnd (length pre) i out)"
  proof (cases t)
    case Nil
    then show ?thesis by (simp add: q query_loop.simps)
  next
    case (Cons c y)
    then have c: "c \<noteq> 0" "0 \<notin> set y" "37 \<notin> set y" "58 \<notin> set y" using Nil.prems(1) by (auto simp: text_ok_def)
    obtain x d where xd: "c # y = x @ [d]" "d \<noteq> 0" "length x = length y" using last_split [OF c(1,2)] by blast
    then show ?thesis using loop_text [OF c, of app pre "[]"] loop_end [of d app "pre @ x"] Cons xd by (simp add: q)
  qed
  then show ?case using Nil.prems(2) by (simp add: query_result_def q)
next
  case (Cons g segs)
  obtain m ds t1 where g: "g = (m, ds, t1)" by (cases g)
  have ok: "t \<noteq> []" "text_ok t" "segment_ok (m, ds, t1)" "template_ok t1 segs" using Cons.prems(1) g by auto
  obtain c y where t: "t = c # y" using ok(1) by (cases t) auto
  have c: "c \<noteq> 0" "0 \<notin> set y" "37 \<notin> set y" "58 \<notin> set y" using ok(2) t by (auto simp: text_ok_def)
  obtain x d where xd: "c # y = x @ [d]" and d: "d \<noteq> 0" "length x = length y" using last_split [OF c(1,2)] by blast
  let ?rest = "t1 @ segments_text segs"
  have q: "q = pre @ t @ m # ds @ ?rest" using Cons.prems(4) g by (simp add: segments_text_def)
  have t1: "t1 \<noteq> [] \<or> segs = []" using ok(4) by (cases segs) auto
  have rest: "?rest = [] \<or> \<not> placeholder_char (hd ?rest)" using t1 ok(3) by (auto simp: segment_ok_def segments_text_def)
  have nc: "next_char ds ?rest = next_char ds t1" using t1 by (auto simp: next_char_def segments_text_def)
  have md: "m \<in> {37, 58}" "list_all placeholder_char ds" using ok(3) by (simp_all add: segment_ok_def)
  let ?pre = "pre @ t @ m # ds"
  have pc: "piece q (length pre) (length pre + length t) = t" by (simp add: q piece_def)
  have "query_loop app q ps (length pre) (length pre) i out = query_loop app q ps (length (pre @ x)) (length pre) i out"
    using loop_text [OF c, of app pre "m # ds @ ?rest"] d(2) by (simp add: q t)
  also have "\<dots> = (if ps \<noteq> [] \<and> length ps - 1 < i then Some ScanFail
     else do {
       dcheck (i < length ps);
       o1 \<leftarrow> app (next_char ds t1) (ps ! i) (out @ t);
       query_loop app q ps (length ?pre) (length ?pre) (i + 1) o1
     })"
    using loop_marker [OF d(1) md rest, of app "pre @ x" ps "length pre" i out] pc xd d(2) nc by (simp add: q t add.assoc)
  finally have loop: "query_loop app q ps (length pre) (length pre) i out = \<dots>" .
  have ne: "ps \<noteq> []" using Cons.prems(3) by simp
  show ?case
  proof (cases "i = length ps")
    case True
    then have "length ps - 1 < i" using ne by (cases ps) auto
    then show ?thesis using ne True loop by (simp add: query_result_def g)
  next
    case False
    then have i: "i < length ps" "\<not> length ps - 1 < i" using Cons.prems(2) by auto
    have dr: "drop i ps = ps ! i # drop (i + 1) ps" using i(1) by (simp add: Cons_nth_drop_Suc)
    show ?thesis
    proof (cases "app (next_char ds t1) (ps ! i) []")
      case None
      then show ?thesis using i assms [of "next_char ds t1" "ps ! i" "out @ t"] by (simp add: loop query_result_def g dr)
    next
      case (Some v)
      then have a: "app (next_char ds t1) (ps ! i) (out @ t) = Some (out @ t @ v)"
        using assms [of "next_char ds t1" "ps ! i" "out @ t"] by simp
      have "query_result limit q ps (query_loop app q ps (length ?pre) (length ?pre) (i + 1) (out @ t @ v)) =
        (case expand app segs (drop (i + 1) ps) of None \<Rightarrow> None | Some None \<Rightarrow> Some (False, [])
         | Some (Some r) \<Rightarrow> Some (True, (out @ t @ v) @ t1 @ r @ limit))"
        by (rule Cons.IH) (use ok(4) i ne q in auto)
      then show ?thesis using i a Some by (auto simp: loop g dr split: option.splits)
    qed
  qed
qed

text \<open>
  C14: making a query from a template whose placeholders are set apart puts the text of each parameter
  where its placeholder is, leaves all else as it is and adds the limit; another number of parameters than of
  placeholders gives an error and an empty string. Only an empty list with a placeholder is
  undefined, and what is undefined for a parameter.
\<close>

theorem query_substituted:
  assumes "template_ok t segs" "str = t @ segments_text segs"
  shows "MakeQueryString (append_param float_text double_text) (Some str) (Some ps) lmt old =
    (if ps = [] \<and> segs \<noteq> [] then None
     else case expand (append_param float_text double_text) segs ps of
       None \<Rightarrow> None
     | Some None \<Rightarrow> Some (False, [])
     | Some (Some r) \<Rightarrow> Some (True, t @ r @ limit_text lmt))"
proof -
  let ?app = "append_param float_text double_text"
  have "0 \<notin> set str"
    using assms(1) unfolding assms(2)
    by (induction t segs rule: template_ok.induct)
      (auto simp: text_ok_def segments_text_def segment_ok_def list_all_iff placeholder_char_def)
  then have nul: "c_str str = str" unfolding c_str_def takeWhile_eq_all_conv by metis
  have eq: "MakeQueryString ?app (Some str) (Some ps) lmt old = query_result (limit_text lmt) str ps (query_loop ?app str ps 0 0 0 [])"
    by (simp add: MakeQueryString_def query_result_def nul Let_def)
  show ?thesis
  proof (cases "ps = [] \<and> segs \<noteq> []")
    case False
    have "query_result (limit_text lmt) str ps (query_loop ?app str ps 0 0 0 []) =
      (case expand ?app segs ps of None \<Rightarrow> None | Some None \<Rightarrow> Some (False, []) | Some (Some r) \<Rightarrow> Some (True, t @ r @ limit_text lmt))"
      using loop_expands [where app = ?app, OF append_param_prefix [of float_text double_text], where t = t and segs = segs and i = 0 and ps = ps and q = str and pre = "[]"
          and limit = "limit_text lmt" and out = "[]"] assms False
      by (auto split: option.splits)
    then show ?thesis using False by (simp add: eq)
  next
    case True
    then obtain m ds t1 segs1 where segs: "segs = (m, ds, t1) # segs1" by (metis list.exhaust surj_pair)
    then have ok: "t \<noteq> []" "text_ok t" "segment_ok (m, ds, t1)" "template_ok t1 segs1" using assms(1) by auto
    obtain c y where t: "t = c # y" using ok(1) by (cases t) auto
    have c: "c \<noteq> 0" "0 \<notin> set y" "37 \<notin> set y" "58 \<notin> set y" using ok(2) t by (auto simp: text_ok_def)
    obtain x d where xd: "c # y = x @ [d]" "d \<noteq> 0" "length x = length y" using last_split [OF c(1,2)] by blast
    have rest: "t1 @ segments_text segs1 = [] \<or> \<not> placeholder_char (hd (t1 @ segments_text segs1))"
      using ok(3,4) by (cases segs1; cases t1) (auto simp: segment_ok_def segments_text_def)
    have "query_loop ?app str ps 0 0 0 [] = None"
      using loop_text [OF c, of ?app "[]" "segments_text segs" ps 0 0 "[]"]
        loop_marker [OF xd(2) _ _ rest, of m ds ?app x ps 0 0 "[]"] ok(3) xd True
      by (simp add: assms(2) t segs segments_text_def segment_ok_def)
    then show ?thesis unfolding eq if_P [OF True] by (simp add: query_result_def)
  qed
qed

theorem query_substituted_witness:
  "MakeQueryString (append_param (\<lambda>_. None) (\<lambda>_. None)) (Some (ascii ''a=:1,%2;''))
    (Some [\<lparr>item_type = kColumnTypeStrEsc, item_len = 1, item_param = Some [39]\<rparr>, \<lparr>item_type = kColumnTypeStr, item_len = 0, item_param = None\<rparr>]) 5 [] =
   Some (True, ascii ''a='' @ [39, 92, 39, 39] @ ascii '',NULL; LIMIT 5'')"
  using query_substituted [of "ascii ''a=''" "[(58, [49], [44]), (37, [50], [59])]" "ascii ''a=:1,%2;''" "\<lambda>_. None" "\<lambda>_. None"
    "[\<lparr>item_type = kColumnTypeStrEsc, item_len = 1, item_param = Some [39]\<rparr>, \<lparr>item_type = kColumnTypeStr, item_len = 0, item_param = None\<rparr>]" 5 "[]"]
  by (simp add: limit_text_def decimal.simps ascii_def segments_text_def text_ok_def segment_ok_def placeholder_char_def append_param_def column_types appended_def
    StringAppendQ_def)

text \<open>Of two placeholders that touch the second is missed.\<close>

lemma adjacent_placeholder_missed:
  "MakeQueryString (append_param (\<lambda>_. None) (\<lambda>_. None)) (Some (ascii ''a:1:2''))
    (Some [\<lparr>item_type = kColumnTypeInt32, item_len = 4, item_param = None\<rparr>, \<lparr>item_type = kColumnTypeInt32, item_len = 4, item_param = None\<rparr>]) 0 [] =
   Some (False, [])"
  by (simp add: MakeQueryString_def c_str_def ascii_def limit_text_def query_loop.simps skip_placeholder.simps placeholder_char_def append_param_def
    piece_def Let_def)

end
