(* ===== verification/MysqlDatabase.thy ===== *)
theory MysqlDatabase
  imports ConfigFile
begin

text \<open>
  The MySQL client, db/mysql/mysql_database.cc, on db/base_database.h: connecting, executing
  statements with one more try on a new connection when the old one is lost, transactions, answers and their
  columns. The client library and the server are a parameter, the functions of mysql_api
  on a state of their own. Connecting executes statements, which may connect again, so the functions
  call each other without a bound: the fuel counts nested connects, and what has not returned within
  it is NoReturn. A library call with a null handle is NullHandle. Logging is not modelled.
\<close>

datatype db_fault = NullHandle | NoReturn | CheckFailed

type_synonym mysql_rows = "byte list option list list"

record 'w mysql_api =
  api_init :: "'w \<Rightarrow> bool \<times> 'w"
  api_set_charset :: "'w \<Rightarrow> 'w"
  api_connect :: "DBAddrInfo \<Rightarrow> 'w \<Rightarrow> bool \<times> 'w"
  api_autocommit :: "'w \<Rightarrow> 'w"
  api_set_reconnect :: "'w \<Rightarrow> 'w"
  api_query :: "byte list \<Rightarrow> 'w \<Rightarrow> int \<times> 'w"
  api_errno :: "'w \<Rightarrow> int"
  api_close :: "'w \<Rightarrow> 'w"
  api_affected_rows :: "'w \<Rightarrow> uint64"
  api_insert_id :: "'w \<Rightarrow> uint64"
  api_store_result :: "'w \<Rightarrow> (byte list list \<times> mysql_rows) option \<times> 'w"

text \<open>my is whether my_ is not null.\<close>

record 'w mysql_database =
  my :: bool
  my_addr :: DBAddrInfo
  my_auto_commit :: bool
  server :: 'w

definition kBeginTransaction :: "byte list" where "kBeginTransaction = ascii ''START TRANSACTION''"
definition kCommitTransaction :: "byte list" where "kCommitTransaction = ascii ''COMMIT''"
definition kRollbackTransaction :: "byte list" where "kRollbackTransaction = ascii ''ROLLBACK''"
definition kSetNamesUTF8 :: "byte list" where "kSetNamesUTF8 = ascii ''SET NAMES `utf8`''"
definition kSetCharactesUTF8 :: "byte list" where "kSetCharactesUTF8 = ascii ''SET CHARACTER SET `utf8`''"

section \<open>Connection and statements\<close>

definition CloseDb :: "'w mysql_api \<Rightarrow> 'w mysql_database \<Rightarrow> 'w mysql_database" where
  "CloseDb api d = (if my d then d\<lparr>my := False, server := api_close api (server d)\<rparr> else d)"

text \<open>The operations that may have to connect, over the function that does.\<close>

type_synonym 'w rebuild = "'w mysql_database \<Rightarrow> db_fault + (bool \<times> 'w mysql_database)"

definition CheckConnection :: "'w rebuild \<Rightarrow> 'w mysql_database \<Rightarrow> db_fault + (bool \<times> 'w mysql_database)" where
  "CheckConnection rebuild d = (if my d then Inr (True, d) else rebuild d)"

definition mysql_real_query :: "'w mysql_api \<Rightarrow> byte list \<Rightarrow> 'w mysql_database \<Rightarrow> db_fault + (int \<times> 'w mysql_database)" where
  "mysql_real_query api q d =
     (if my d then (let (res, w) = api_query api q (server d) in Inr (res, d\<lparr>server := w\<rparr>)) else Inl NullHandle)"

definition lost_connection :: "int \<Rightarrow> bool" where
  "lost_connection err \<longleftrightarrow> err \<in> {2006, 2008, 2013, 2055, 1053}"

definition SafeQuery :: "'w mysql_api \<Rightarrow> 'w rebuild \<Rightarrow> byte list \<Rightarrow> 'w mysql_database \<Rightarrow> db_fault + (int \<times> 'w mysql_database)" where
  "SafeQuery api rebuild q d =
     bindE (mysql_real_query api q d) (\<lambda>(res, d1).
       if res \<noteq> 0 \<and> lost_connection (api_errno api (server d1)) then
         bindE (rebuild d1) (\<lambda>(ok, d2). if ok then mysql_real_query api q d2 else Inr (res, d2))
       else Inr (res, d1))"

definition Execute :: "'w mysql_api \<Rightarrow> 'w rebuild \<Rightarrow> byte list \<Rightarrow> 'w mysql_database \<Rightarrow> db_fault + (int \<times> 'w mysql_database)" where
  "Execute api rebuild q d =
     bindE (CheckConnection rebuild d) (\<lambda>(ok, d1).
       if \<not> ok then Inr (- 2000, d1)
       else bindE (SafeQuery api rebuild q d1) (\<lambda>(res, d2).
         if res \<noteq> 0 then Inr (- res, d2)
         else Inr (sint (ucast (api_affected_rows api (server d2)) :: 32 word), d2)))"

definition connect_body ::
  "'w mysql_api \<Rightarrow> (byte list \<Rightarrow> 'w mysql_database \<Rightarrow> db_fault + (int \<times> 'w mysql_database)) \<Rightarrow> 'w mysql_database \<Rightarrow>
   db_fault + (bool \<times> 'w mysql_database)"
where
  "connect_body api exec d =
     (let d0 = CloseDb api d;
          (init_ok, w) = api_init api (server d0)
      in if \<not> init_ok then Inr (False, d0\<lparr>server := w\<rparr>)
         else
           let (connected, w2) = api_connect api (my_addr d0) (api_set_charset api w)
           in if connected then
                bindE (exec kSetNamesUTF8 (d0\<lparr>my := True, server := api_autocommit api w2\<rparr>)) (\<lambda>(_, d3).
                  bindE (exec kSetCharactesUTF8 d3) (\<lambda>(_, d4).
                    if my d4 then Inr (True, d4\<lparr>server := api_set_reconnect api (server d4)\<rparr>) else Inl NullHandle))
              else Inr (False, d0\<lparr>my := False, server := w2\<rparr>))"

primrec BuildConnection :: "nat \<Rightarrow> 'w mysql_api \<Rightarrow> 'w mysql_database \<Rightarrow> db_fault + (bool \<times> 'w mysql_database)" where
  "BuildConnection 0 api d = Inl NoReturn"
| "BuildConnection (Suc n) api d = connect_body api (Execute api (BuildConnection n api)) d"

definition My_Open :: "nat \<Rightarrow> 'w mysql_api \<Rightarrow> DBAddrInfo \<Rightarrow> bool \<Rightarrow> 'w mysql_database \<Rightarrow> db_fault + (bool \<times> 'w mysql_database)" where
  "My_Open n api addr commit d = BuildConnection n api (d\<lparr>my_auto_commit := commit, my_addr := addr\<rparr>)"

definition My_Execute :: "nat \<Rightarrow> 'w mysql_api \<Rightarrow> byte list \<Rightarrow> 'w mysql_database \<Rightarrow> db_fault + (int \<times> 'w mysql_database)" where
  "My_Execute n api q d = Execute api (BuildConnection n api) q d"

definition ExecuteInsertID :: "nat \<Rightarrow> 'w mysql_api \<Rightarrow> byte list \<Rightarrow> 'w mysql_database \<Rightarrow> db_fault + (uint64 \<times> 'w mysql_database)" where
  "ExecuteInsertID n api q d =
     bindE (CheckConnection (BuildConnection n api) d) (\<lambda>(ok, d1).
       if \<not> ok then Inr (0, d1)
       else bindE (SafeQuery api (BuildConnection n api) q d1) (\<lambda>(res, d2).
         if res \<noteq> 0 then Inr (0, d2) else Inr (api_insert_id api (server d2), d2)))"

definition transaction_statement :: "byte list \<Rightarrow> nat \<Rightarrow> 'w mysql_api \<Rightarrow> 'w mysql_database \<Rightarrow> db_fault + (bool \<times> 'w mysql_database)" where
  "transaction_statement q n api d = bindE (My_Execute n api q d) (\<lambda>(res, d1). Inr (res = 0, d1))"

definition BeginTransaction :: "nat \<Rightarrow> 'w mysql_api \<Rightarrow> 'w mysql_database \<Rightarrow> db_fault + (bool \<times> 'w mysql_database)" where
  "BeginTransaction = transaction_statement kBeginTransaction"
definition CommitTransaction :: "nat \<Rightarrow> 'w mysql_api \<Rightarrow> 'w mysql_database \<Rightarrow> db_fault + (bool \<times> 'w mysql_database)" where
  "CommitTransaction = transaction_statement kCommitTransaction"
definition RollbackTransaction :: "nat \<Rightarrow> 'w mysql_api \<Rightarrow> 'w mysql_database \<Rightarrow> db_fault + (bool \<times> 'w mysql_database)" where
  "RollbackTransaction = transaction_statement kRollbackTransaction"

section \<open>Answers\<close>

text \<open>
  An answer: the rows not fetched yet, the current row (no row after the last) and the names of the
  columns. The getters take the value the caller's variable has and return whether they succeed and
  the new value; a failed CHECK and a missing row are None.
\<close>

record mysql_answer =
  is_fetched :: bool
  rows_left :: mysql_rows
  row :: "byte list option list option"
  field_names :: "byte list list"

definition new_answer :: "byte list list \<times> mysql_rows \<Rightarrow> mysql_answer" where
  "new_answer r = \<lparr>is_fetched = False, rows_left = snd r, row = None, field_names = fst r\<rparr>"

definition column_count :: "mysql_answer \<Rightarrow> nat" where
  "column_count a = length (field_names a)"

definition FetchRow :: "mysql_answer \<Rightarrow> bool \<times> mysql_answer" where
  "FetchRow a =
     (case rows_left a of
        [] \<Rightarrow> (False, a\<lparr>is_fetched := True, row := None\<rparr>)
      | r # rs \<Rightarrow> (True, a\<lparr>is_fetched := True, row := Some r, rows_left := rs\<rparr>))"

definition column_cell :: "mysql_answer \<Rightarrow> nat \<Rightarrow> byte list option option" where
  "column_cell a clm = do { dcheck (clm < column_count a); r \<leftarrow> row a; dcheck (clm < length r); Some (r ! clm) }"

definition GetColumn_string :: "mysql_answer \<Rightarrow> nat \<Rightarrow> byte list \<Rightarrow> (bool \<times> byte list) option" where
  "GetColumn_string a clm val =
     (if \<not> is_fetched a then Some (False, val)
      else do { c \<leftarrow> column_cell a clm; Some (True, case c of Some v \<Rightarrow> v | None \<Rightarrow> val) })"

text \<open>A number is read from the cell up to its first zero.\<close>

definition GetColumn_int64 :: "mysql_answer \<Rightarrow> nat \<Rightarrow> int \<Rightarrow> (bool \<times> int) option" where
  "GetColumn_int64 a clm val =
     (if \<not> is_fetched a then Some (False, val)
      else do { c \<leftarrow> column_cell a clm; (case c of Some v \<Rightarrow> StringToInt64 (c_str v) val | None \<Rightarrow> Some (False, 0)) })"

definition GetColumn_uint64 :: "mysql_answer \<Rightarrow> nat \<Rightarrow> uint64 \<Rightarrow> (bool \<times> uint64) option" where
  "GetColumn_uint64 a clm val =
     (if \<not> is_fetched a then Some (False, val)
      else do {
        c \<leftarrow> column_cell a clm;
        (case c of
           Some v \<Rightarrow> do { (ret, val2) \<leftarrow> StringToInt64 (c_str v) 0; Some (ret, if ret then word_of_int val2 else val) }
         | None \<Rightarrow> Some (False, 0))
      })"

definition GetColumn_uint32 :: "mysql_answer \<Rightarrow> nat \<Rightarrow> int \<Rightarrow> (bool \<times> int) option" where
  "GetColumn_uint32 a clm val =
     (if \<not> is_fetched a then Some (False, val)
      else do { c \<leftarrow> column_cell a clm; (case c of Some v \<Rightarrow> StringToUint (c_str v) val | None \<Rightarrow> Some (False, 0)) })"

definition GetColumn_int :: "mysql_answer \<Rightarrow> nat \<Rightarrow> int \<Rightarrow> (bool \<times> int) option" where
  "GetColumn_int a clm val =
     (if \<not> is_fetched a then Some (False, val)
      else do { c \<leftarrow> column_cell a clm; (case c of Some v \<Rightarrow> StringToInt (c_str v) val | None \<Rightarrow> Some (False, 0)) })"

definition GetColumn_bool :: "mysql_answer \<Rightarrow> nat \<Rightarrow> bool \<Rightarrow> (bool \<times> bool) option" where
  "GetColumn_bool a clm val =
     (if \<not> is_fetched a then Some (False, val)
      else do {
        c \<leftarrow> column_cell a clm;
        (case c of
           Some v \<Rightarrow> do { (ret, val2) \<leftarrow> StringToInt (c_str v) 0; Some (ret, if ret then val2 \<noteq> 0 else val) }
         | None \<Rightarrow> Some (False, False))
      })"

definition ColumnIsNull :: "mysql_answer \<Rightarrow> nat \<Rightarrow> bool option" where
  "ColumnIsNull a clm = (if \<not> is_fetched a then Some False else do { r \<leftarrow> row a; dcheck (clm < length r); Some (r ! clm = None) })"

text \<open>A column by its name: the first of that name, or the number of columns.\<close>

primrec field_index :: "byte list list \<Rightarrow> byte list \<Rightarrow> nat" where
  "field_index [] name = 0"
| "field_index (f # fs) name = (if f = name then 0 else field_index fs name + 1)"

definition GetIndexByFieldName :: "mysql_answer \<Rightarrow> byte list \<Rightarrow> nat" where
  "GetIndexByFieldName a name = field_index (field_names a) name"

text \<open>The getters by name, for each of the getters by index.\<close>

definition GetColumn_named ::
  "(mysql_answer \<Rightarrow> nat \<Rightarrow> 'v \<Rightarrow> (bool \<times> 'v) option) \<Rightarrow> mysql_answer \<Rightarrow> byte list \<Rightarrow> 'v \<Rightarrow> (bool \<times> 'v) option"
where
  "GetColumn_named get a name val =
     (let index = GetIndexByFieldName a name in if index < column_count a then get a index val else Some (False, val))"

definition ColumnIsNull_named :: "mysql_answer \<Rightarrow> byte list \<Rightarrow> bool option" where
  "ColumnIsNull_named a name =
     (let index = GetIndexByFieldName a name in if index < column_count a then ColumnIsNull a index else Some False)"

definition My_Query :: "nat \<Rightarrow> 'w mysql_api \<Rightarrow> byte list \<Rightarrow> 'w mysql_database \<Rightarrow> db_fault + (mysql_answer option \<times> 'w mysql_database)" where
  "My_Query n api q d =
     bindE (CheckConnection (BuildConnection n api) d) (\<lambda>(ok, d1).
       if \<not> ok then Inr (None, d1)
       else bindE (SafeQuery api (BuildConnection n api) q d1) (\<lambda>(res, d2).
         if res \<noteq> 0 then Inr (None, d2)
         else let (r, w) = api_store_result api (server d2) in Inr (map_option new_answer r, d2\<lparr>server := w\<rparr>)))"

definition GetNextID :: "nat \<Rightarrow> 'w mysql_api \<Rightarrow> byte list \<Rightarrow> byte list \<Rightarrow> 'w mysql_database \<Rightarrow> db_fault + (uint64 \<times> 'w mysql_database)" where
  "GetNextID n api table_name field_name d =
     bindE (My_Query n api (ascii ''SELECT MAX('' @ field_name @ ascii '') AS val FROM '' @ table_name) d) (\<lambda>(answ, d1).
       case answ of
         None \<Rightarrow> Inr (0, d1)
       | Some a \<Rightarrow>
           (let (fetched, a1) = FetchRow a
            in if \<not> fetched then Inr (0, d1)
               else (case GetColumn_int64 a1 0 0 of None \<Rightarrow> Inl CheckFailed | Some (_, v) \<Rightarrow> Inr (word_of_int v, d1))))"

section \<open>One more try\<close>

text \<open>
  The server after a connect, and what connecting does when the two statements about the character set, executed on
  this fresh connection, do not report a lost connection: no further connect is started.
\<close>

definition fresh_server :: "'w mysql_api \<Rightarrow> 'w mysql_database \<Rightarrow> 'w" where
  "fresh_server api d =
     snd (api_connect api (my_addr d) (api_set_charset api (snd (api_init api (if my d then api_close api (server d) else server d)))))"

definition settles :: "'w mysql_api \<Rightarrow> byte list \<Rightarrow> 'w \<Rightarrow> bool" where
  "settles api q w \<longleftrightarrow> fst (api_query api q w) = 0 \<or> \<not> lost_connection (api_errno api (snd (api_query api q w)))"

definition set_statements_settle :: "'w mysql_api \<Rightarrow> 'w \<Rightarrow> bool" where
  "set_statements_settle api w \<longleftrightarrow>
     settles api kSetNamesUTF8 (api_autocommit api w) \<and>
     settles api kSetCharactesUTF8 (snd (api_query api kSetNamesUTF8 (api_autocommit api w)))"

definition connected_server :: "'w mysql_api \<Rightarrow> 'w \<Rightarrow> 'w" where
  "connected_server api w =
     api_set_reconnect api (snd (api_query api kSetCharactesUTF8 (snd (api_query api kSetNamesUTF8 (api_autocommit api w)))))"

definition reconnected :: "'w mysql_api \<Rightarrow> 'w mysql_database \<Rightarrow> bool \<times> 'w mysql_database" where
  "reconnected api d =
     (let (init_ok, w) = api_init api (if my d then api_close api (server d) else server d);
          (connected, w2) = api_connect api (my_addr d) (api_set_charset api w)
      in if \<not> init_ok then (False, d\<lparr>my := False, server := w\<rparr>)
         else if connected then (True, d\<lparr>my := True, server := connected_server api w2\<rparr>)
         else (False, d\<lparr>my := False, server := w2\<rparr>))"

lemma SafeQuery_settled:
  assumes "my d" "settles api q (server d)"
  shows "SafeQuery api rebuild q d = Inr (fst (api_query api q (server d)), d\<lparr>server := snd (api_query api q (server d))\<rparr>)"
  using assms by (auto simp: settles_def SafeQuery_def mysql_real_query_def case_prod_unfold Let_def)

lemma Execute_settled:
  assumes "my d" "settles api q (server d)"
  shows "\<exists>v. Execute api rebuild q d = Inr (v, d\<lparr>server := snd (api_query api q (server d))\<rparr>)"
  using assms by (auto simp: Execute_def CheckConnection_def SafeQuery_settled)

lemma BuildConnection_settled:
  assumes "set_statements_settle api (fresh_server api d)"
  shows "BuildConnection (Suc n) api d = Inr (reconnected api d)"
proof -
  define d0 where "d0 = CloseDb api d"
  obtain i w where i: "api_init api (server d0) = (i, w)" by fastforce
  obtain c w2 where c: "api_connect api (my_addr d) (api_set_charset api w) = (c, w2)" by fastforce
  have d0: "server d0 = (if my d then api_close api (server d) else server d)" "my_addr d0 = my_addr d"
    by (simp_all add: d0_def CloseDb_def)
  have upd: "d0\<lparr>my := b, server := x\<rparr> = d\<lparr>my := b, server := x\<rparr>" "\<not> my d0" for b x by (simp_all add: d0_def CloseDb_def)
  have f: "d0\<lparr>server := x\<rparr> = d\<lparr>my := False, server := x\<rparr>" for x by (simp add: d0_def CloseDb_def)
  let ?exec = "Execute api (BuildConnection n api)"
  have w2: "fresh_server api d = w2" using i c d0 by (simp add: fresh_server_def)
  let ?d1 = "d\<lparr>my := True, server := api_autocommit api w2\<rparr>"
  obtain v1 where v1: "?exec kSetNamesUTF8 ?d1 = Inr (v1, ?d1\<lparr>server := snd (api_query api kSetNamesUTF8 (server ?d1))\<rparr>)"
    using Execute_settled [of ?d1 api kSetNamesUTF8] assms w2 by (auto simp: set_statements_settle_def)
  let ?d2 = "?d1\<lparr>server := snd (api_query api kSetNamesUTF8 (server ?d1))\<rparr>"
  obtain v2 where v2: "?exec kSetCharactesUTF8 ?d2 = Inr (v2, ?d2\<lparr>server := snd (api_query api kSetCharactesUTF8 (server ?d2))\<rparr>)"
    using Execute_settled [of ?d2 api kSetCharactesUTF8] assms w2 by (auto simp: set_statements_settle_def)
  have i2: "api_init api (if my d then api_close api (server d) else server d) = (i, w)" using i d0 by simp
  show ?thesis
    using i c d0(2) v1 v2
    by (simp add: connect_body_def d0_def [symmetric] upd f reconnected_def i2 connected_server_def Let_def)
qed


section \<open>A server\<close>

text \<open>
  A server that keeps what is committed and the open transaction of its connection, and drops the
  connection, with its transaction, at one statement; after that it works again.
\<close>

record toy_server =
  committed :: "byte list list"
  transaction :: "byte list list option"
  until_drop :: nat
  toy_errno :: int

definition toy_query :: "byte list \<Rightarrow> toy_server \<Rightarrow> int \<times> toy_server" where
  "toy_query q w =
     (if until_drop w = 1 then (1, w\<lparr>transaction := None, until_drop := 0, toy_errno := 2006\<rparr>)
      else
        let w1 = w\<lparr>until_drop := until_drop w - 1, toy_errno := 0\<rparr>
        in if q = kSetNamesUTF8 \<or> q = kSetCharactesUTF8 then (0, w\<lparr>toy_errno := 0\<rparr>)
           else if q = kBeginTransaction then (0, w1\<lparr>transaction := Some []\<rparr>)
           else if q = kCommitTransaction then
             (0, w1\<lparr>committed := committed w1 @ (case transaction w1 of Some t \<Rightarrow> t | None \<Rightarrow> []), transaction := None\<rparr>)
           else (case transaction w1 of
                   Some t \<Rightarrow> (0, w1\<lparr>transaction := Some (t @ [q])\<rparr>)
                 | None \<Rightarrow> (0, w1\<lparr>committed := committed w1 @ [q]\<rparr>)))"

definition toy_api :: "toy_server mysql_api" where
  "toy_api = \<lparr>api_init = (\<lambda>w. (True, w)), api_set_charset = (\<lambda>w. w), api_connect = (\<lambda>_ w. (True, w)), api_autocommit = (\<lambda>w. w),
     api_set_reconnect = (\<lambda>w. w), api_query = toy_query, api_errno = toy_errno, api_close = (\<lambda>w. w\<lparr>transaction := None\<rparr>),
     api_affected_rows = (\<lambda>_. 0), api_insert_id = (\<lambda>_. 0), api_store_result = (\<lambda>w. (None, w))\<rparr>"

definition toy_database :: "nat \<Rightarrow> toy_server mysql_database" where
  "toy_database n = \<lparr>my = True, my_addr = new_DBAddrInfo, my_auto_commit = False,
     server = \<lparr>committed = [], transaction = None, until_drop = n, toy_errno = 0\<rparr>\<rparr>"

text \<open>
  A transaction in which the connection is lost at its second insertion: every operation reports
  success, but the first insertion is gone and the second was executed outside of a transaction.
\<close>

lemmas toy_simps = toy_api_def toy_query_def toy_database_def BeginTransaction_def CommitTransaction_def transaction_statement_def
  My_Execute_def Execute_def CheckConnection_def SafeQuery_def mysql_real_query_def lost_connection_def connect_body_def CloseDb_def
  kBeginTransaction_def kCommitTransaction_def kSetNamesUTF8_def kSetCharactesUTF8_def ascii_def

lemma transaction_torn:
  "bindE (BeginTransaction 2 toy_api (toy_database 3)) (\<lambda>(ok1, d1).
   bindE (My_Execute 2 toy_api [65] d1) (\<lambda>(n1, d2).
   bindE (My_Execute 2 toy_api [66] d2) (\<lambda>(n2, d3).
   bindE (CommitTransaction 2 toy_api d3) (\<lambda>(ok2, d4). Inr (ok1, n1, n2, ok2, committed (server d4)))))) =
   Inr (True, 0, 0, True, [[66]])"
  by (simp add: toy_simps numeral_2_eq_2)


text \<open>
  A server that always reports that it has gone away, and to which one can always connect: executing a
  statement connects, which executes a statement, and so on; no bound on the nested connects is enough.
\<close>

lemma reconnect_without_end:
  assumes "\<And>w. fst (api_init api w)" "\<And>a w. fst (api_connect api a w)" "\<And>q w. fst (api_query api q w) \<noteq> 0" "\<And>w. api_errno api w = 2006"
  shows "BuildConnection n api d = Inl NoReturn"
proof (induction n arbitrary: d)
  case (Suc n)
  have "Execute api (BuildConnection n api) q e = Inl NoReturn" if "my e" for q e
    using that Suc.IH assms(3,4)
    by (simp add: Execute_def CheckConnection_def SafeQuery_def mysql_real_query_def case_prod_unfold Let_def lost_connection_def)
  then show ?case using assms(1,2) by (simp add: connect_body_def case_prod_unfold Let_def)
qed simp

text \<open>
  A connect that succeeds once, with statements that report a lost connection: the connects inside
  it fail and leave a null handle, which the outer one goes on to use.
\<close>

definition unstable_api :: "nat mysql_api" where
  "unstable_api = \<lparr>api_init = (\<lambda>w. (True, w)), api_set_charset = (\<lambda>w. w), api_connect = (\<lambda>_ w. (w = 0, w + 1)), api_autocommit = (\<lambda>w. w),
     api_set_reconnect = (\<lambda>w. w), api_query = (\<lambda>_ w. (1, w)), api_errno = (\<lambda>_. 2013), api_close = (\<lambda>w. w),
     api_affected_rows = (\<lambda>_. 0), api_insert_id = (\<lambda>_. 0), api_store_result = (\<lambda>w. (None, w))\<rparr>"

lemma null_handle_used:
  "BuildConnection 2 unstable_api \<lparr>my = False, my_addr = new_DBAddrInfo, my_auto_commit = True, server = 0\<rparr> = Inl NullHandle"
  by (simp add: unstable_api_def connect_body_def Execute_def CheckConnection_def SafeQuery_def mysql_real_query_def lost_connection_def
    CloseDb_def numeral_2_eq_2)

text \<open>A number above the signed range is refused by the getter for unsigned numbers.\<close>

lemma large_unsigned_refused:
  "GetColumn_uint64 \<lparr>is_fetched = True, rows_left = [], row = Some [Some (ascii ''9223372036854775808'')], field_names = [[97]]\<rparr> 0 7 = Some (False, 7)"
proof -
  let ?s = "[57, 50, 50, 51, 51, 55, 50, 48, 51, 54, 56, 53, 52, 55, 55, 53, 56, 48, 56] :: byte list"
  have s: "c_str (ascii ''9223372036854775808'') = ?s" by (simp add: ascii_def c_str_def)
  have c: "CharToDigit 10 48 = Some 0" "CharToDigit 10 50 = Some 2" "CharToDigit 10 51 = Some 3" "CharToDigit 10 52 = Some 4"
    "CharToDigit 10 53 = Some 5" "CharToDigit 10 54 = Some 6" "CharToDigit 10 55 = Some 7" "CharToDigit 10 56 = Some 8"
    "CharToDigit 10 57 = Some 9"
    by (simp_all add: CharToDigit_def)
  have "digits 10 ?s = [9, 2, 2, 3, 3, 7, 2, 0, 3, 6, 8, 5, 4, 7, 7, 5, 8, 0, 8]" by (simp only: digits_simps c option.case)
  then have "numeral_value 10 0 (digits 10 ?s) = 2 ^ 63" by (simp add: numeral_value_simps)
  then have "fst (conversion (int_traits 64 10) ?s 0) = False"
    by (simp add: conversion_def without_prefix_def int_traits_def LocalIsWhitespace_def signed_by_def in_range_def Let_def del: digits_simps)
  then obtain v where v: "conversion (int_traits 64 10) ?s 0 = (False, v)" by (cases "conversion (int_traits 64 10) ?s 0") simp
  have "StringToInt64 ?s 0 = Some (False, v)" unfolding StringToInt64_def Invoke_eq [OF traits_ok_types(3)] v by (rule refl)
  then show ?thesis unfolding GetColumn_uint64_def by (simp add: s column_cell_def column_count_def dcheck_def)
qed

lemma field_index_first:
  "field_index fs name \<le> length fs \<and> (field_index fs name < length fs \<longleftrightarrow> name \<in> set fs) \<and>
   (field_index fs name < length fs \<longrightarrow> fs ! field_index fs name = name \<and> name \<notin> set (take (field_index fs name) fs))"
  by (induction fs) auto

end
