(* ===== verification/Int128.thy ===== *)
theory Int128
  imports Prelude
begin

text \<open>
  base2/int128.h: an unsigned 128-bit integer made of two 64-bit words. The reference definition
  is the library's 128-bit word: every operator is compared with the operator of
  \<^typ>\<open>128 word\<close> through the abstraction \<open>val128\<close>.

  A shift of a uint64 by a negative amount or by 64 or more is undefined in C++; the shift
  operators return an option, and None stands for such a shift.
\<close>

section \<open>Definitions\<close>

record uint128 =
  lo_of :: uint64
  hi_of :: uint64

definition uint128_top_bottom :: "uint64 \<Rightarrow> uint64 \<Rightarrow> uint128" where
  "uint128_top_bottom high bottom = \<lparr>lo_of = bottom, hi_of = high\<rparr>"

definition uint128_zero :: uint128 where
  "uint128_zero = \<lparr>lo_of = 0, hi_of = 0\<rparr>"

definition uint128_uint64 :: "uint64 \<Rightarrow> uint128" where
  "uint128_uint64 bottom = \<lparr>lo_of = bottom, hi_of = 0\<rparr>"

definition uint128_uint32 :: "uint32 \<Rightarrow> uint128" where
  "uint128_uint32 bottom = \<lparr>lo_of = ucast bottom, hi_of = 0\<rparr>"

text \<open>An int converts to uint64 with its sign extended.\<close>

definition uint128_int :: "32 word \<Rightarrow> uint128" where
  "uint128_int bottom =
     (let x = \<lparr>lo_of = scast bottom, hi_of = 0\<rparr>
      in if sint bottom < 0 then x\<lparr>hi_of := hi_of x - 1\<rparr> else x)"

definition Uint128Low64 :: "uint128 \<Rightarrow> uint64" where "Uint128Low64 v = lo_of v"
definition Uint128High64 :: "uint128 \<Rightarrow> uint64" where "Uint128High64 v = hi_of v"

definition Initialize128 :: "uint128 \<Rightarrow> uint64 \<Rightarrow> uint64 \<Rightarrow> uint128" where
  "Initialize128 x high bottom = x\<lparr>hi_of := high, lo_of := bottom\<rparr>"

definition kuint128max :: uint128 where
  "kuint128max = \<lparr>lo_of = 0xFFFFFFFFFFFFFFFF, hi_of = 0xFFFFFFFFFFFFFFFF\<rparr>"

definition eq128 :: "uint128 \<Rightarrow> uint128 \<Rightarrow> bool" where
  "eq128 lhs rhs \<longleftrightarrow> Uint128Low64 lhs = Uint128Low64 rhs \<and> Uint128High64 lhs = Uint128High64 rhs"

definition neq128 :: "uint128 \<Rightarrow> uint128 \<Rightarrow> bool" where
  "neq128 lhs rhs \<longleftrightarrow> \<not> eq128 lhs rhs"

definition CMP128 :: "(uint64 \<Rightarrow> uint64 \<Rightarrow> bool) \<Rightarrow> uint128 \<Rightarrow> uint128 \<Rightarrow> bool" where
  "CMP128 cmp lhs rhs =
     (if Uint128High64 lhs = Uint128High64 rhs then cmp (Uint128Low64 lhs) (Uint128Low64 rhs)
      else cmp (Uint128High64 lhs) (Uint128High64 rhs))"

definition neg128 :: "uint128 \<Rightarrow> uint128" where
  "neg128 val =
     (let hi_flip = NOT (Uint128High64 val);
          lo_flip = NOT (Uint128Low64 val);
          lo_add = lo_flip + 1
      in if lo_add < lo_flip then uint128_top_bottom (hi_flip + 1) lo_add
         else uint128_top_bottom hi_flip lo_add)"

definition lnot128 :: "uint128 \<Rightarrow> bool" where
  "lnot128 val \<longleftrightarrow> Uint128High64 val = 0 \<and> Uint128Low64 val = 0"

definition not128 :: "uint128 \<Rightarrow> uint128" where
  "not128 val = uint128_top_bottom (NOT (Uint128High64 val)) (NOT (Uint128Low64 val))"

definition LOGIC128 :: "(uint64 \<Rightarrow> uint64 \<Rightarrow> uint64) \<Rightarrow> uint128 \<Rightarrow> uint128 \<Rightarrow> uint128" where
  "LOGIC128 f lhs rhs =
     uint128_top_bottom (f (Uint128High64 lhs) (Uint128High64 rhs)) (f (Uint128Low64 lhs) (Uint128Low64 rhs))"

definition LOGICASSIGN128 :: "(uint64 \<Rightarrow> uint64 \<Rightarrow> uint64) \<Rightarrow> uint128 \<Rightarrow> uint128 \<Rightarrow> uint128" where
  "LOGICASSIGN128 f x y =
     (let x1 = x\<lparr>hi_of := f (hi_of x) (hi_of y)\<rparr> in x1\<lparr>lo_of := f (lo_of x1) (lo_of y)\<rparr>)"

subsection \<open>Shifts\<close>

definition shl64 :: "uint64 \<Rightarrow> int \<Rightarrow> uint64 option" where
  "shl64 w n = (if 0 \<le> n \<and> n < 64 then Some (push_bit (nat n) w) else None)"

definition shr64 :: "uint64 \<Rightarrow> int \<Rightarrow> uint64 option" where
  "shr64 w n = (if 0 \<le> n \<and> n < 64 then Some (drop_bit (nat n) w) else None)"

definition shl128 :: "uint128 \<Rightarrow> int \<Rightarrow> uint128 option" where
  "shl128 val amount =
     (if amount < 64 then
        if amount = 0 then Some val
        else do {
          h \<leftarrow> shl64 (Uint128High64 val) amount;
          l \<leftarrow> shr64 (Uint128Low64 val) (64 - amount);
          new_lo \<leftarrow> shl64 (Uint128Low64 val) amount;
          Some (uint128_top_bottom (h OR l) new_lo)
        }
      else if amount < 128 then do {
        h \<leftarrow> shl64 (Uint128Low64 val) (amount - 64);
        Some (uint128_top_bottom h 0)
      }
      else Some (uint128_top_bottom 0 0))"

definition shr128 :: "uint128 \<Rightarrow> int \<Rightarrow> uint128 option" where
  "shr128 val amount =
     (if amount < 64 then
        if amount = 0 then Some val
        else do {
          new_hi \<leftarrow> shr64 (Uint128High64 val) amount;
          l \<leftarrow> shr64 (Uint128Low64 val) amount;
          h \<leftarrow> shl64 (Uint128High64 val) (64 - amount);
          Some (uint128_top_bottom new_hi (l OR h))
        }
      else if amount < 128 then do {
        l \<leftarrow> shr64 (Uint128High64 val) (amount - 64);
        Some (uint128_top_bottom 0 l)
      }
      else Some (uint128_top_bottom 0 0))"

text \<open>
  The assigning shifts update the members one after the other; the update of a member is seen by
  the statements after it.
\<close>

definition shl_assign128 :: "uint128 \<Rightarrow> int \<Rightarrow> uint128 option" where
  "shl_assign128 x amount =
     (if amount < 64 then
        if amount \<noteq> 0 then do {
          h \<leftarrow> shl64 (hi_of x) amount;
          l \<leftarrow> shr64 (lo_of x) (64 - amount);
          let x1 = x\<lparr>hi_of := h OR l\<rparr>;
          l' \<leftarrow> shl64 (lo_of x1) amount;
          Some (x1\<lparr>lo_of := l'\<rparr>)
        }
        else Some x
      else if amount < 128 then do {
        h \<leftarrow> shl64 (lo_of x) (amount - 64);
        let x1 = x\<lparr>hi_of := h\<rparr>;
        Some (x1\<lparr>lo_of := 0\<rparr>)
      }
      else Some (x\<lparr>hi_of := 0, lo_of := 0\<rparr>))"

definition shr_assign128 :: "uint128 \<Rightarrow> int \<Rightarrow> uint128 option" where
  "shr_assign128 x amount =
     (if amount < 64 then
        if amount \<noteq> 0 then do {
          l \<leftarrow> shr64 (lo_of x) amount;
          h \<leftarrow> shl64 (hi_of x) (64 - amount);
          let x1 = x\<lparr>lo_of := l OR h\<rparr>;
          h' \<leftarrow> shr64 (hi_of x1) amount;
          Some (x1\<lparr>hi_of := h'\<rparr>)
        }
        else Some x
      else if amount < 128 then do {
        let x1 = x\<lparr>hi_of := 0\<rparr>;
        l \<leftarrow> shr64 (hi_of x1) (amount - 64);
        Some (x1\<lparr>lo_of := l\<rparr>)
      }
      else Some (x\<lparr>hi_of := 0, lo_of := 0\<rparr>))"

subsection \<open>Arithmetic\<close>

definition add_assign128 :: "uint128 \<Rightarrow> uint128 \<Rightarrow> uint128" where
  "add_assign128 x b =
     (let x1 = x\<lparr>hi_of := hi_of x + hi_of b\<rparr>;
          lolo = lo_of x1 + lo_of b;
          x2 = (if lolo < lo_of x1 then x1\<lparr>hi_of := hi_of x1 + 1\<rparr> else x1)
      in x2\<lparr>lo_of := lolo\<rparr>)"

definition sub_assign128 :: "uint128 \<Rightarrow> uint128 \<Rightarrow> uint128" where
  "sub_assign128 x b =
     (let x1 = x\<lparr>hi_of := hi_of x - hi_of b\<rparr>;
          x2 = (if lo_of b > lo_of x1 then x1\<lparr>hi_of := hi_of x1 - 1\<rparr> else x1)
      in x2\<lparr>lo_of := lo_of x2 - lo_of b\<rparr>)"

text \<open>The constant shift amount 32 is always defined, so the two shifts of the product are values.\<close>

definition mul_assign128 :: "uint128 \<Rightarrow> uint128 \<Rightarrow> uint128 option" where
  "mul_assign128 x b =
     (let a96 = drop_bit 32 (hi_of x); a64 = hi_of x AND 0xffffffff;
          a32 = drop_bit 32 (lo_of x); a00 = lo_of x AND 0xffffffff;
          b96 = drop_bit 32 (hi_of b); b64 = hi_of b AND 0xffffffff;
          b32 = drop_bit 32 (lo_of b); b00 = lo_of b AND 0xffffffff;
          c96 = a96 * b00 + a64 * b32 + a32 * b64 + a00 * b96;
          c64 = a64 * b00 + a32 * b32 + a00 * b64;
          x1 = x\<lparr>hi_of := push_bit 32 c96 + c64, lo_of := 0\<rparr>
      in do {
        t1 \<leftarrow> shl128 (uint128_uint64 (a32 * b00)) 32;
        let x2 = add_assign128 x1 t1;
        t2 \<leftarrow> shl128 (uint128_uint64 (a00 * b32)) 32;
        let x3 = add_assign128 x2 t2;
        Some (add_assign128 x3 (uint128_uint64 (a00 * b00)))
      })"

definition add128 :: "uint128 \<Rightarrow> uint128 \<Rightarrow> uint128" where
  "add128 lhs rhs = add_assign128 lhs rhs"

definition sub128 :: "uint128 \<Rightarrow> uint128 \<Rightarrow> uint128" where
  "sub128 lhs rhs = sub_assign128 lhs rhs"

definition mul128 :: "uint128 \<Rightarrow> uint128 \<Rightarrow> uint128 option" where
  "mul128 lhs rhs = mul_assign128 lhs rhs"

text \<open>The postfix operators return the old value and the new state.\<close>

definition post_inc128 :: "uint128 \<Rightarrow> uint128 \<times> uint128" where
  "post_inc128 x = (x, add_assign128 x (uint128_int 1))"

definition post_dec128 :: "uint128 \<Rightarrow> uint128 \<times> uint128" where
  "post_dec128 x = (x, sub_assign128 x (uint128_int 1))"

definition pre_inc128 :: "uint128 \<Rightarrow> uint128" where
  "pre_inc128 x = add_assign128 x (uint128_int 1)"

definition pre_dec128 :: "uint128 \<Rightarrow> uint128" where
  "pre_dec128 x = sub_assign128 x (uint128_int 1)"

section \<open>The value of a pair of words\<close>

definition val128 :: "uint128 \<Rightarrow> 128 word" where
  "val128 x = push_bit 64 (ucast (hi_of x)) OR ucast (lo_of x)"

lemmas uint128_ctor_defs = uint128_top_bottom_def uint128_zero_def uint128_uint64_def
  uint128_uint32_def uint128_int_def Uint128Low64_def Uint128High64_def Initialize128_def

lemma bit_val128 [bit_simps]:
  "bit (val128 x) n \<longleftrightarrow> (if n < 64 then bit (lo_of x) n else bit (hi_of x) (n - 64))"
  by (auto simp: val128_def bit_simps dest: bit_imp_le_length)

lemma val128_plus: "val128 x = ucast (hi_of x) * 2 ^ 64 + ucast (lo_of x)"
proof -
  have "push_bit 64 (ucast (hi_of x)) AND (ucast (lo_of x) :: 128 word) = 0"
    by (rule bit_word_eqI) (auto simp: bit_simps dest: bit_imp_le_length)
  then show ?thesis
    by (simp add: val128_def disjunctive_add_eq_or push_bit_eq_mult)
qed

lemma val128_inj: "val128 x = val128 y \<longleftrightarrow> x = y"
proof
  assume eq: "val128 x = val128 y"
  have "lo_of x = lo_of y"
  proof (rule bit_word_eqI)
    fix i :: nat assume "i < LENGTH(64)"
    then show "bit (lo_of x) i = bit (lo_of y) i"
      using arg_cong [OF eq, of "\<lambda>w. bit w i"] by (simp add: bit_val128)
  qed
  moreover have "hi_of x = hi_of y"
  proof (rule bit_word_eqI)
    fix i :: nat
    show "bit (hi_of x) i = bit (hi_of y) i"
      using arg_cong [OF eq, of "\<lambda>w. bit w (i + 64)"] by (simp add: bit_val128)
  qed
  ultimately show "x = y" by simp
qed simp


text \<open>
  The high half contributes a multiple of \<open>2 ^ 64\<close>, which does not see the carries out of the high
  word; the low half loses one such multiple for a carry and gains one for a borrow.
\<close>

lemma high_of_int: "ucast (of_int k :: uint64) * 2 ^ 64 = (of_int k * 2 ^ 64 :: 128 word)"
proof -
  have "(k mod 2 ^ 64) * 2 ^ 64 = (k * 2 ^ 64) mod (2 ^ 128 :: int)"
    using mult_mod_right [of "2 ^ 64" k "2 ^ 64"] by (simp add: mult.commute)
  then have "of_int ((k mod 2 ^ 64) * 2 ^ 64) = (of_int (k * 2 ^ 64) :: 128 word)"
    by (simp add: word_of_int_eq_iff take_bit_eq_mod del: of_int_mult)
  then show ?thesis
    unfolding ucast_eq uint_word_of_int by simp
qed

lemma high_plus: "ucast (a + b) * 2 ^ 64 = (ucast a + ucast b) * (2 ^ 64 :: 128 word)" for a b :: uint64
  using high_of_int [of "uint a + uint b"] by simp

lemma high_minus: "ucast (a - b) * 2 ^ 64 = (ucast a - ucast b) * (2 ^ 64 :: 128 word)" for a b :: uint64
  using high_of_int [of "uint a - uint b"] by simp

lemma high_mult: "ucast (a * b) * 2 ^ 64 = ucast a * ucast b * (2 ^ 64 :: 128 word)" for a b :: uint64
  using high_of_int [of "uint a * uint b"] by simp

lemma low_plus:
  "(ucast (a + b) :: 128 word) = ucast a + ucast b - (if a + b < a then 2 ^ 64 else 0)" for a b :: uint64
proof -
  have "uint (a + b) = uint a + uint b - (if a + b < a then 2 ^ 64 else 0)"
    using uint_lt2p [of a] uint_lt2p [of b]
    by (auto simp: word_less_def uint_plus_if' split: if_splits)
  then have "of_int (uint (a + b)) = (of_int (uint a + uint b - (if a + b < a then 2 ^ 64 else 0)) :: 128 word)"
    by simp
  then show ?thesis by (simp split: if_splits)
qed

lemma low_minus:
  "(ucast (a - b) :: 128 word) = ucast a - ucast b + (if b > a then 2 ^ 64 else 0)" for a b :: uint64
proof -
  have "uint (a - b) = uint a - uint b + (if b > a then 2 ^ 64 else 0)"
    using uint_lt2p [of a] uint_lt2p [of b]
    by (auto simp: word_less_def uint_sub_if' split: if_splits)
  then have "of_int (uint (a - b)) = (of_int (uint a - uint b + (if b > a then 2 ^ 64 else 0)) :: 128 word)"
    by simp
  then show ?thesis by (simp split: if_splits)
qed

lemmas val128_arith = val128_plus high_plus high_minus high_mult low_plus low_minus distrib_right left_diff_distrib

lemma val128_add_assign: "val128 (add_assign128 x b) = val128 x + val128 b"
  by (simp add: add_assign128_def Let_def val128_arith)

lemma val128_sub_assign: "val128 (sub_assign128 x b) = val128 x - val128 b"
  by (simp add: sub_assign128_def Let_def val128_arith)

lemma val128_uint64: "val128 (uint128_uint64 w) = ucast w"
  by (simp add: uint128_ctor_defs val128_plus)

lemma val128_uint32: "val128 (uint128_uint32 w) = ucast w"
  by (rule bit_word_eqI) (auto simp: uint128_ctor_defs bit_simps dest: bit_imp_le_length)

lemma val128_zero: "val128 uint128_zero = 0"
  by (simp add: uint128_ctor_defs val128_plus)

section \<open>Shifts\<close>

lemma shift64_simps [simp]:
  "0 \<le> n \<Longrightarrow> n < 64 \<Longrightarrow> shl64 w n = Some (push_bit (nat n) w)"
  "0 \<le> n \<Longrightarrow> n < 64 \<Longrightarrow> shr64 w n = Some (drop_bit (nat n) w)"
  "n < 0 \<Longrightarrow> shl64 w n = None" "n < 0 \<Longrightarrow> shr64 w n = None"
  by (simp_all add: shl64_def shr64_def)

lemma bit_uint64_high [simp]: "64 \<le> n \<Longrightarrow> \<not> bit (w :: uint64) n"
  by (auto dest: bit_imp_le_length)

lemma shl_val128_lt:
  assumes "0 < k" and "k < 64"
  shows "val128 \<lparr>lo_of = push_bit k (lo_of x), hi_of = push_bit k (hi_of x) OR drop_bit (64 - k) (lo_of x)\<rparr> =
    push_bit k (val128 x)"
proof (rule bit_word_eqI)
  fix n assume "n < LENGTH(128)"
  consider "n < 64" | "64 \<le> n" "n < 64 + k" | "64 + k \<le> n" by linarith
  then show "bit (val128 \<lparr>lo_of = push_bit k (lo_of x),
      hi_of = push_bit k (hi_of x) OR drop_bit (64 - k) (lo_of x)\<rparr>) n = bit (push_bit k (val128 x)) n"
  proof cases
    case 2
    then have "n - 64 + (64 - k) = n - k" using assms by simp
    with 2 assms \<open>n < LENGTH(128)\<close> show ?thesis by (auto simp: bit_simps add.commute)
  next
    case 3
    then have "n - k - 64 = n - 64 - k" by simp
    with 3 assms \<open>n < LENGTH(128)\<close> show ?thesis by (auto simp: bit_simps)
  qed (use assms \<open>n < LENGTH(128)\<close> in \<open>auto simp: bit_simps\<close>)
qed

lemma shr_val128_lt:
  assumes "0 < k" and "k < 64"
  shows "val128 \<lparr>lo_of = drop_bit k (lo_of x) OR push_bit (64 - k) (hi_of x), hi_of = drop_bit k (hi_of x)\<rparr> =
    drop_bit k (val128 x)"
proof (rule bit_word_eqI)
  fix n assume "n < LENGTH(128)"
  consider "n < 64 - k" | "64 - k \<le> n" "n < 64" | "64 \<le> n" by linarith
  then show "bit (val128 \<lparr>lo_of = drop_bit k (lo_of x) OR push_bit (64 - k) (hi_of x),
      hi_of = drop_bit k (hi_of x)\<rparr>) n = bit (drop_bit k (val128 x)) n"
  proof cases
    case 2
    then have "n - (64 - k) = k + n - 64" using assms by simp
    with 2 assms \<open>n < LENGTH(128)\<close> show ?thesis by (auto simp: bit_simps)
  next
    case 3
    then have "k + (n - 64) = k + n - 64" by simp
    with 3 assms \<open>n < LENGTH(128)\<close> show ?thesis by (auto simp: bit_simps)
  qed (use assms \<open>n < LENGTH(128)\<close> in \<open>auto simp: bit_simps\<close>)
qed

lemma shl_val128_ge:
  assumes "64 \<le> k"
  shows "val128 \<lparr>lo_of = 0, hi_of = push_bit (k - 64) (lo_of x)\<rparr> = push_bit k (val128 x)"
proof (rule bit_word_eqI)
  fix n assume "n < LENGTH(128)"
  moreover have "n - 64 - (k - 64) = n - k" using assms by simp
  ultimately show "bit (val128 \<lparr>lo_of = 0, hi_of = push_bit (k - 64) (lo_of x)\<rparr>) n = bit (push_bit k (val128 x)) n"
    using assms by (auto simp: bit_simps)
qed

lemma shr_val128_ge:
  assumes "64 \<le> k"
  shows "val128 \<lparr>lo_of = drop_bit (k - 64) (hi_of x), hi_of = 0\<rparr> = drop_bit k (val128 x)"
proof (rule bit_word_eqI)
  fix n assume "n < LENGTH(128)"
  moreover have "k - 64 + n = k + n - 64" using assms by simp
  ultimately show "bit (val128 \<lparr>lo_of = drop_bit (k - 64) (hi_of x), hi_of = 0\<rparr>) n = bit (drop_bit k (val128 x)) n"
    using assms by (auto simp: bit_simps)
qed

lemma shift_amount_cases:
  fixes amount :: int
  assumes "0 \<le> amount"
  obtains "amount = 0" | k where "amount = int k" "0 < k" "k < 64"
    | k where "amount = int k" "64 \<le> k" "k < 128" | k where "amount = int k" "128 \<le> k"
proof -
  obtain k where "amount = int k" using assms by (metis nat_0_le)
  then show thesis using that by (cases "k = 0"; cases "k < 64"; cases "k < 128") auto
qed

lemma nat_shift: "nat (64 - int k) = 64 - k" "64 \<le> k \<Longrightarrow> nat (int k - 64) = k - 64"
  by auto

lemma val128_shl:
  assumes "0 \<le> amount"
  shows "map_option val128 (shl128 x amount) = Some (push_bit (nat amount) (val128 x))"
  using assms
proof (cases rule: shift_amount_cases)
  case (4 k)
  then have "push_bit k (val128 x) = 0"
    by (intro bit_word_eqI) (auto simp: bit_simps)
  with 4 show ?thesis
    by (simp add: shl128_def uint128_ctor_defs val128_plus)
qed (simp_all add: shl128_def uint128_ctor_defs nat_shift shl_val128_lt shl_val128_ge)

lemma val128_shr:
  assumes "0 \<le> amount"
  shows "map_option val128 (shr128 x amount) = Some (drop_bit (nat amount) (val128 x))"
  using assms
proof (cases rule: shift_amount_cases)
  case (4 k)
  then have "drop_bit k (val128 x) = 0"
    by (intro bit_word_eqI) (auto simp: bit_simps)
  with 4 show ?thesis
    by (simp add: shr128_def uint128_ctor_defs val128_plus)
qed (simp_all add: shr128_def uint128_ctor_defs nat_shift shr_val128_lt shr_val128_ge)

lemma shl_assign128_eq: "shl_assign128 x amount = shl128 x amount"
  by (cases "amount < 0") (auto simp: shl_assign128_def shl128_def uint128_ctor_defs Let_def)

lemma shr_assign128_eq: "amount < 64 \<or> 128 \<le> amount \<Longrightarrow> shr_assign128 x amount = shr128 x amount"
  by (cases "amount < 0") (auto simp: shr_assign128_def shr128_def uint128_ctor_defs Let_def)

section \<open>Products\<close>

lemma product_columns:
  fixes T :: "'a::comm_ring_1"
  assumes "T * T * T * T = 0"
  shows "(a3 * T * T * T + a2 * T * T + a1 * T + a0) * (b3 * T * T * T + b2 * T * T + b1 * T + b0) =
    (a3 * b0 + a2 * b1 + a1 * b2 + a0 * b3) * T * T * T + (a2 * b0 + a1 * b1 + a0 * b2) * T * T +
    a1 * b0 * T + a0 * b1 * T + a0 * b0"
proof -
  have "x * (T * (T * (T * T))) = 0" for x
    using assms by (simp add: mult.assoc)
  then have *: "T * (T * (T * T)) = 0" "T * (T * (T * (T * x))) = 0" for x
    by (metis mult_1_left, metis (no_types, lifting) mult.assoc mult.commute)
  show ?thesis
    by (simp add: algebra_simps *)
qed

lemma ucast_mult_halves:
  fixes a b :: uint64
  assumes "a < 2 ^ 32" and "b < 2 ^ 32"
  shows "(ucast (a * b) :: 128 word) = ucast a * ucast b"
proof -
  have "uint a < 2 ^ 32" "uint b < 2 ^ 32"
    using assms by (simp_all add: word_less_def)
  then have "uint a * uint b < 2 ^ 32 * 2 ^ 32"
    by (intro mult_strict_mono') auto
  then have "uint (a * b) = uint a * uint b"
    by (simp add: uint_word_ariths)
  then show ?thesis
    by (metis of_int_mult of_int_uint)
qed

lemma ffffffff_mask: "(0xffffffff :: uint64) = mask 32"
  by (simp add: mask_eq_exp_minus_1)

lemma halves_less: "drop_bit 32 w < 2 ^ 32" "w AND 0xffffffff < 2 ^ 32" for w :: uint64
proof -
  have "unat w < 2 ^ 64"
    using unsigned_less [of w] by simp
  then have "unat (drop_bit 32 w) < 2 ^ 32"
    by (simp add: unat_shr less_mult_imp_div_less)
  then show "drop_bit 32 w < 2 ^ 32"
    by (simp add: word_less_nat_alt)
  show "w AND 0xffffffff < 2 ^ 32"
    unfolding ffffffff_mask by (rule and_mask_less_size) (simp add: word_size)
qed

lemma ucast_halves:
  "(ucast w :: 128 word) = ucast (drop_bit 32 w) * 2 ^ 32 + ucast (w AND 0xffffffff)" for w :: uint64
proof -
  have "push_bit 32 (ucast (drop_bit 32 w)) AND (ucast (w AND mask 32) :: 128 word) = 0"
    by (rule bit_word_eqI) (auto simp: bit_simps)
  then have "push_bit 32 (ucast (drop_bit 32 w)) + (ucast (w AND mask 32) :: 128 word) =
      push_bit 32 (ucast (drop_bit 32 w)) OR ucast (w AND mask 32)"
    by (simp add: disjunctive_add_eq_or)
  also have "\<dots> = ucast w"
    by (rule bit_word_eqI) (auto simp: bit_simps)
  finally show ?thesis
    by (simp add: push_bit_eq_mult ffffffff_mask)
qed

lemma val128_halves:
  "val128 x = ucast (drop_bit 32 (hi_of x)) * 2 ^ 32 * 2 ^ 32 * 2 ^ 32 + ucast (hi_of x AND 0xffffffff) * 2 ^ 32 * 2 ^ 32 +
     ucast (drop_bit 32 (lo_of x)) * 2 ^ 32 + ucast (lo_of x AND 0xffffffff)"
  unfolding val128_plus ucast_halves [of "hi_of x"] ucast_halves [of "lo_of x"]
  by (simp add: distrib_right mult.assoc)

lemma val128_shl32: "0 \<le> n \<Longrightarrow> n < 64 \<Longrightarrow> \<exists>y. shl128 (uint128_uint64 w) n = Some y \<and> val128 y = ucast w * 2 ^ nat n"
  using val128_shl [of n "uint128_uint64 w"] by (auto simp: val128_uint64 push_bit_eq_mult)

lemma high_push32: "ucast (push_bit 32 a) * 2 ^ 64 = ucast a * 2 ^ 64 * (2 ^ 32 :: 128 word)" for a :: uint64
proof -
  have "push_bit 32 a = a * 2 ^ 32" by (simp add: push_bit_eq_mult)
  moreover have "(ucast (2 ^ 32 :: uint64) :: 128 word) = 2 ^ 32" by simp
  ultimately show ?thesis using high_mult [of a "2 ^ 32"] by (simp add: mult_ac)
qed

lemma val128_mul: "map_option val128 (mul_assign128 x b) = Some (val128 x * val128 b)"
proof -
  let ?a96 = "drop_bit 32 (hi_of x)" and ?a64 = "hi_of x AND 0xffffffff"
    and ?a32 = "drop_bit 32 (lo_of x)" and ?a00 = "lo_of x AND 0xffffffff"
  let ?b96 = "drop_bit 32 (hi_of b)" and ?b64 = "hi_of b AND 0xffffffff"
    and ?b32 = "drop_bit 32 (lo_of b)" and ?b00 = "lo_of b AND 0xffffffff"
  obtain t1 where t1: "shl128 (uint128_uint64 (?a32 * ?b00)) 32 = Some t1" "val128 t1 = ucast (?a32 * ?b00) * 2 ^ 32"
    using val128_shl32 [of 32] by auto
  obtain t2 where t2: "shl128 (uint128_uint64 (?a00 * ?b32)) 32 = Some t2" "val128 t2 = ucast (?a00 * ?b32) * 2 ^ 32"
    using val128_shl32 [of 32] by auto
  define T where "T = (2 ^ 32 :: 128 word)"
  have T: "T * T = 2 ^ 64" "T * T * T * T = 0" by (simp_all add: T_def)
  have hi: "ucast (p + q) * 2 ^ 64 = ucast p * (T * T) + ucast q * (T * T)"
      "ucast (p + q) * (T * T) = ucast p * (T * T) + ucast q * (T * T)"
      "ucast (push_bit 32 p) * (T * T) = ucast p * (T * T) * T"
      "ucast (p * q) * (T * T) = ucast p * ucast q * (T * T)" for p q :: uint64
    by (simp_all only: T(1) high_plus high_push32 high_mult distrib_right T_def [symmetric])
  have "map_option val128 (mul_assign128 x b) =
    Some ((ucast (push_bit 32 (?a96 * ?b00 + ?a64 * ?b32 + ?a32 * ?b64 + ?a00 * ?b96) +
        (?a64 * ?b00 + ?a32 * ?b32 + ?a00 * ?b64)) * 2 ^ 64) +
      ucast (?a32 * ?b00) * T + ucast (?a00 * ?b32) * T + ucast (?a00 * ?b00))"
    using t1 t2 by (simp add: mul_assign128_def Let_def val128_add_assign val128_uint64 val128_plus [of "_ \<lparr>lo_of := _\<rparr>"] T_def)
  also have "\<dots> = Some (val128 x * val128 b)"
    unfolding val128_halves [of x] val128_halves [of b] T_def [symmetric] product_columns [OF T(2)]
    unfolding hi distrib_right
      ucast_mult_halves [OF halves_less(1) halves_less(2)] ucast_mult_halves [OF halves_less(2) halves_less(1)]
      ucast_mult_halves [OF halves_less(2) halves_less(2)]
    by (simp add: mult.assoc add.assoc)
  finally show ?thesis .
qed

section \<open>Comparisons and bitwise operators\<close>

lemma unat_val128: "unat (val128 x) = unat (hi_of x) * 2 ^ 64 + unat (lo_of x)"
proof -
  have "unat (hi_of x) < 2 ^ 64" "unat (lo_of x) < 2 ^ 64"
    using unsigned_less [of "hi_of x"] unsigned_less [of "lo_of x"] by simp_all
  then have "unat (hi_of x) * 2 ^ 64 + unat (lo_of x) < 2 ^ 128"
    by simp
  moreover have "val128 x = of_nat (unat (hi_of x) * 2 ^ 64 + unat (lo_of x))"
    by (simp add: val128_plus)
  ultimately show ?thesis
    by (simp add: unat_of_nat take_bit_nat_eq_self_iff del: of_nat_add of_nat_mult)
qed

lemma val128_less: "val128 x < val128 y \<longleftrightarrow> CMP128 (<) x y"
proof -
  have lo: "unat (lo_of x) < 2 ^ 64" "unat (lo_of y) < 2 ^ 64"
    using unsigned_less [of "lo_of x"] unsigned_less [of "lo_of y"] by simp_all
  consider "hi_of x = hi_of y" | "unat (hi_of x) < unat (hi_of y)" | "unat (hi_of y) < unat (hi_of x)"
    by (metis linorder_cases word_unat_eq_iff)
  then show ?thesis
    using lo by cases (auto simp: word_less_nat_alt unat_val128 CMP128_def uint128_ctor_defs)
qed

lemma val128_le: "val128 x \<le> val128 y \<longleftrightarrow> CMP128 (\<le>) x y"
proof -
  have "CMP128 (\<le>) x y \<longleftrightarrow> \<not> CMP128 (<) y x"
    by (auto simp: CMP128_def uint128_ctor_defs order.order_iff_strict)
  then show ?thesis by (simp add: not_less flip: val128_less)
qed

lemma eq128_iff: "eq128 x y \<longleftrightarrow> val128 x = val128 y"
  by (auto simp: eq128_def val128_inj uint128_ctor_defs)

lemma val128_not: "val128 (not128 x) = NOT (val128 x)"
  by (rule bit_word_eqI) (auto simp: not128_def uint128_ctor_defs bit_simps)

lemma val128_logic:
  "val128 (LOGIC128 (AND) x y) = val128 x AND val128 y" "val128 (LOGIC128 (OR) x y) = val128 x OR val128 y"
  "val128 (LOGIC128 (XOR) x y) = val128 x XOR val128 y"
  by (rule bit_word_eqI; auto simp: LOGIC128_def uint128_ctor_defs bit_simps)+

lemma LOGICASSIGN128_eq: "LOGICASSIGN128 f x y = LOGIC128 f x y"
  by (simp add: LOGICASSIGN128_def LOGIC128_def uint128_ctor_defs)

lemma val128_neg: "val128 (neg128 x) = - val128 x"
proof -
  have "neg128 x = add_assign128 (not128 x) (uint128_uint64 1)"
    by (simp add: neg128_def add_assign128_def not128_def uint128_ctor_defs Let_def)
  then show ?thesis
    by (simp add: val128_add_assign val128_not val128_uint64 minus_eq_not_plus_1)
qed

lemma val128_int: "val128 (uint128_int i) = scast i"
proof (rule bit_word_eqI)
  fix n assume "n < LENGTH(128)"
  moreover have "sint i < 0 \<longleftrightarrow> bit i 31"
    using bit_last_iff [of i] by simp
  ultimately show "bit (val128 (uint128_int i)) n = bit (scast i :: 128 word) n"
    by (auto simp: uint128_ctor_defs Let_def bit_simps min_def not_le less_Suc_eq)
qed

section \<open>Properties\<close>

text \<open>
  C37: the two-word integer computes exactly like a 128-bit machine word: sum, difference, product
  (by 32-bit columns with the carries taken one at a time), negation, increment and decrement wrap
  modulo \<open>2 ^ 128\<close>, the order and equality of the values are those of the word, and a product is
  always defined.
\<close>

theorem uint128_arith_equiv:
  "val128 (add128 x y) = val128 x + val128 y \<and> val128 (sub128 x y) = val128 x - val128 y \<and>
   map_option val128 (mul128 x y) = Some (val128 x * val128 y) \<and> val128 (neg128 x) = - val128 x \<and>
   val128 (pre_inc128 x) = val128 x + 1 \<and> val128 (pre_dec128 x) = val128 x - 1 \<and>
   fst (post_inc128 x) = x \<and> snd (post_inc128 x) = pre_inc128 x \<and>
   fst (post_dec128 x) = x \<and> snd (post_dec128 x) = pre_dec128 x \<and>
   CMP128 (<) x y = (val128 x < val128 y) \<and> CMP128 (\<le>) x y = (val128 x \<le> val128 y) \<and>
   eq128 x y = (val128 x = val128 y) \<and> (lnot128 x = (val128 x = 0)) \<and> val128 (uint128_int i) = scast i"
proof -
  have "lnot128 x = (val128 x = 0)"
    using val128_inj [of x uint128_zero]
    by (cases x) (auto simp: lnot128_def val128_zero uint128_ctor_defs val128_plus)
  then show ?thesis
    by (simp add: add128_def sub128_def mul128_def pre_inc128_def pre_dec128_def post_inc128_def post_dec128_def
        val128_add_assign val128_sub_assign val128_mul val128_neg val128_int val128_less val128_le eq128_iff)
qed

text \<open>
  The shifts of the two-word integer. A shift by a non-negative amount, however large, is
  defined and gives the shifted word, and a negative one is undefined; <<= agrees with << for every
  amount, and >>= agrees with >> below 64 and from 128 on. For 64 <= amount < 128 the assigning
  right shift clears hi_ before it reads it, so the result is 0: it agrees with >> only when the
  shifted value is 0.
\<close>

theorem uint128_shift_equiv:
  "(0 \<le> n \<longrightarrow> map_option val128 (shl128 x n) = Some (push_bit (nat n) (val128 x)) \<and>
      map_option val128 (shr128 x n) = Some (drop_bit (nat n) (val128 x))) \<and>
   (n < 0 \<longrightarrow> shl128 x n = None \<and> shr128 x n = None) \<and>
   shl_assign128 x n = shl128 x n \<and>
   (n < 64 \<or> 128 \<le> n \<longrightarrow> shr_assign128 x n = shr128 x n) \<and>
   (64 \<le> n \<and> n < 128 \<longrightarrow> shr_assign128 x n = Some uint128_zero \<and>
      (shr_assign128 x n = shr128 x n \<longleftrightarrow> drop_bit (nat n) (val128 x) = 0))"
proof -
  have zero: "shr_assign128 x n = Some uint128_zero" if "64 \<le> n" "n < 128"
    using that by (simp add: shr_assign128_def uint128_ctor_defs)
  have "shr128 x n = Some uint128_zero \<longleftrightarrow> drop_bit (nat n) (val128 x) = 0" if "64 \<le> n"
    using val128_shr [of n x] that val128_inj [of _ uint128_zero] by (auto simp: val128_zero)
  with zero show ?thesis
    by (auto simp: val128_shl val128_shr shl_assign128_eq shr_assign128_eq)
      (auto simp: shl128_def shr128_def)
qed

theorem uint128_shift_equiv_witness:
  "map_option val128 (shr128 \<lparr>lo_of = 0, hi_of = 16\<rparr> 66) = Some 4 \<and>
   shr_assign128 \<lparr>lo_of = 0, hi_of = 16\<rparr> 66 = Some uint128_zero"
  using uint128_shift_equiv [of 66 "\<lparr>lo_of = 0, hi_of = 16\<rparr>"]
  by (simp add: val128_plus)

end
