(* ===== verification/DynamicBitset.thy ===== *)
theory DynamicBitset
  imports Prelude
begin

text \<open>
  base2/dynamic_bitset.h, with size_t of 64 bits: a bit set stored in a vector of cells. The class
  does no bound checks; an index outside the vector is undefined behaviour and has the value None.
\<close>

section \<open>Definitions\<close>

record DynamicBitset =
  bitset :: "uint64 list"
  bits_size :: nat

definition cell_bit_size :: nat where "cell_bit_size = 64"

text \<open>The default constructor leaves size_ uninitialised: n.\<close>

definition new_DynamicBitset :: "nat \<Rightarrow> DynamicBitset" where
  "new_DynamicBitset n = \<lparr>bitset = [], bits_size = n\<rparr>"

definition bs_clear :: "DynamicBitset \<Rightarrow> DynamicBitset" where
  "bs_clear b = b\<lparr>bitset := map (\<lambda>_. 0) (bitset b)\<rparr>"

definition bs_empty :: "DynamicBitset \<Rightarrow> bool" where
  "bs_empty b \<longleftrightarrow> bitset b = []"

definition bs_reset_all :: "DynamicBitset \<Rightarrow> DynamicBitset" where
  "bs_reset_all b = b\<lparr>bitset := map (\<lambda>_. 0) (bitset b)\<rparr>"

definition bs_update :: "DynamicBitset \<Rightarrow> nat \<Rightarrow> (uint64 \<Rightarrow> uint64) \<Rightarrow> DynamicBitset option" where
  "bs_update b index f = do {
     let i = index div cell_bit_size;
     dcheck (i < length (bitset b));
     Some (b\<lparr>bitset := (bitset b)[i := f (bitset b ! i)]\<rparr>)
   }"

definition bs_reset :: "DynamicBitset \<Rightarrow> nat \<Rightarrow> DynamicBitset option" where
  "bs_reset b index = bs_update b index (\<lambda>c. c AND NOT (push_bit (index mod cell_bit_size) 1))"

definition bs_reset_block :: "DynamicBitset \<Rightarrow> nat \<Rightarrow> DynamicBitset option" where
  "bs_reset_block b index = bs_update b index (\<lambda>_. 0)"

definition bs_resize :: "DynamicBitset \<Rightarrow> nat \<Rightarrow> DynamicBitset" where
  "bs_resize b sz =
     (let n = sz div cell_bit_size + 1
      in \<lparr>bitset = take n (bitset b) @ replicate (n - length (bitset b)) 0, bits_size = sz\<rparr>)"

definition new_DynamicBitset_size :: "nat \<Rightarrow> nat \<Rightarrow> DynamicBitset" where
  "new_DynamicBitset_size n sz = bs_reset_all (bs_resize (new_DynamicBitset n) sz)"

definition bs_set :: "DynamicBitset \<Rightarrow> nat \<Rightarrow> DynamicBitset option" where
  "bs_set b index = bs_update b index (\<lambda>c. c OR push_bit (index mod cell_bit_size) 1)"

definition bs_set_all :: "DynamicBitset \<Rightarrow> DynamicBitset" where
  "bs_set_all b = b\<lparr>bitset := map (\<lambda>_. 0xffffffff) (bitset b)\<rparr>"

definition bs_test :: "DynamicBitset \<Rightarrow> nat \<Rightarrow> bool option" where
  "bs_test b index = do {
     let i = index div cell_bit_size;
     dcheck (i < length (bitset b));
     Some (bitset b ! i AND push_bit (index mod cell_bit_size) 1 \<noteq> 0)
   }"

section \<open>The bit set as a set of numbers\<close>

definition bs_elems :: "DynamicBitset \<Rightarrow> nat set" where
  "bs_elems b = {i. i div 64 < length (bitset b) \<and> bit (bitset b ! (i div 64)) (i mod 64)}"

definition bs_capacity :: "DynamicBitset \<Rightarrow> nat" where
  "bs_capacity b = 64 * length (bitset b)"

lemma capacity_iff: "index < bs_capacity b \<longleftrightarrow> index div 64 < length (bitset b)"
  by (simp add: bs_capacity_def div_less_iff_less_mult mult.commute)

lemma and_mask_iff: "k < 64 \<Longrightarrow> (w AND push_bit k 1 \<noteq> 0) = bit w k" for w :: uint64
  by (simp add: and_exp_eq_0_iff_not_bit)

lemma test_iff: "index < bs_capacity b \<Longrightarrow> bs_test b index = Some (index \<in> bs_elems b)"
  using and_mask_iff [of "index mod 64" "bitset b ! (index div 64)"]
  by (simp add: bs_test_def bs_elems_def capacity_iff cell_bit_size_def Let_def)

lemma update_elems:
  assumes "bs_update b index f = Some b'"
  shows "bs_capacity b' = bs_capacity b" "bits_size b' = bits_size b"
    "i \<in> bs_elems b' \<longleftrightarrow>
       (if i div 64 = index div 64 then bit (f (bitset b ! (i div 64))) (i mod 64) else i \<in> bs_elems b)"
  using assms by (auto simp: bs_update_def bs_elems_def bs_capacity_def cell_bit_size_def Let_def nth_list_update)

lemma same_cell: "i div 64 = j div 64 \<Longrightarrow> i mod 64 = j mod 64 \<longleftrightarrow> i = j" for i j :: nat
  by (metis div_mult_mod_eq)

lemma elems_iff: "i \<in> bs_elems b \<longleftrightarrow> i div 64 < length (bitset b) \<and> bit (bitset b ! (i div 64)) (i mod 64)"
  by (simp add: bs_elems_def)

lemma set_elems:
  assumes "index < bs_capacity b"
  shows "\<exists>b'. bs_set b index = Some b' \<and> bs_elems b' = insert index (bs_elems b) \<and> bits_size b' = bits_size b \<and> bs_capacity b' = bs_capacity b"
proof -
  obtain b' where b': "bs_set b index = Some b'"
    using assms by (simp add: bs_set_def bs_update_def capacity_iff cell_bit_size_def Let_def)
  note u = update_elems [OF b' [unfolded bs_set_def]]
  have "i \<in> bs_elems b' \<longleftrightarrow> i = index \<or> i \<in> bs_elems b" for i
    unfolding u(3) using assms same_cell [of i index] elems_iff [of i b]
    by (cases "i div 64 = index div 64") (auto simp: capacity_iff bit_or_iff bit_exp_iff cell_bit_size_def)
  then show ?thesis using b' u by auto
qed

lemma reset_elems:
  assumes "index < bs_capacity b"
  shows "\<exists>b'. bs_reset b index = Some b' \<and> bs_elems b' = bs_elems b - {index} \<and> bits_size b' = bits_size b \<and> bs_capacity b' = bs_capacity b"
proof -
  obtain b' where b': "bs_reset b index = Some b'"
    using assms by (simp add: bs_reset_def bs_update_def capacity_iff cell_bit_size_def Let_def)
  note u = update_elems [OF b' [unfolded bs_reset_def]]
  have "i \<in> bs_elems b' \<longleftrightarrow> i \<noteq> index \<and> i \<in> bs_elems b" for i
    unfolding u(3) using assms same_cell [of i index] elems_iff [of i b]
    by (cases "i div 64 = index div 64") (auto simp: capacity_iff bit_and_iff bit_not_iff bit_exp_iff cell_bit_size_def)
  then show ?thesis using b' u by auto
qed

lemma reset_block_elems:
  assumes "index < bs_capacity b"
  shows "\<exists>b'. bs_reset_block b index = Some b' \<and> bs_elems b' = {i \<in> bs_elems b. i div 64 \<noteq> index div 64} \<and>
    bits_size b' = bits_size b \<and> bs_capacity b' = bs_capacity b"
proof -
  obtain b' where b': "bs_reset_block b index = Some b'"
    using assms by (simp add: bs_reset_block_def bs_update_def capacity_iff cell_bit_size_def Let_def)
  note u = update_elems [OF b' [unfolded bs_reset_block_def]]
  then have "i \<in> bs_elems b' \<longleftrightarrow> i \<in> bs_elems b \<and> i div 64 \<noteq> index div 64" for i by simp
  then show ?thesis using b' u by auto
qed

lemma nth_resize:
  "j < n \<Longrightarrow> (take n xs @ replicate (n - length xs) 0) ! j = (if j < length xs then xs ! j else (0 :: uint64))"
  by (auto simp: nth_append)

lemma resize_elems: "bs_elems (bs_resize b n) = {i \<in> bs_elems b. i div 64 \<le> n div 64}"
  by (auto simp: elems_iff bs_resize_def cell_bit_size_def Let_def nth_resize less_Suc_eq_le split: if_splits)

lemma resize_capacity: "n < bs_capacity (bs_resize b n)"
  by (simp add: capacity_iff bs_resize_def cell_bit_size_def Let_def)

lemma set_all_elems: "bs_elems (bs_set_all b) = {i. i < bs_capacity b \<and> i mod 64 < 32}"
proof -
  have m: "(0xffffffff :: uint64) = mask 32" by (simp add: mask_eq_exp_minus_1)
  have c: "bitset (bs_set_all b) ! j = mask 32" if "j < length (bitset b)" for j
    using that by (simp only: bs_set_all_def m) simp
  have l: "length (bitset (bs_set_all b)) = length (bitset b)" by (simp add: bs_set_all_def)
  show ?thesis by (auto simp: elems_iff l c capacity_iff bit_mask_iff)
qed

lemma cleared_elems: "bs_elems (bs_clear b) = {}" "bs_elems (bs_reset_all b) = {}"
  by (auto simp: bs_elems_def bs_clear_def bs_reset_all_def)

section \<open>Properties\<close>

text \<open>
  The bit set is a set of numbers. For an index inside the vector, which holds every index up to
  the size the set was made for, set inserts it, reset removes it, reset_block removes the 64
  numbers of its cell and test asks for it; a new set and a cleared one are empty, and resizing
  keeps the numbers of the cells that stay. An index behind the vector is out of bounds for all
  four. But set_all does not set all bits: it stores 0xffffffff in 64-bit cells and leaves the
  upper half of every cell clear.
\<close>

theorem bitset_refines_set:
  "(index < bs_capacity b \<longrightarrow>
      bs_test b index = Some (index \<in> bs_elems b) \<and>
      map_option bs_elems (bs_set b index) = Some (insert index (bs_elems b)) \<and>
      map_option bs_elems (bs_reset b index) = Some (bs_elems b - {index}) \<and>
      map_option bs_elems (bs_reset_block b index) = Some {i \<in> bs_elems b. i div 64 \<noteq> index div 64}) \<and>
   (bs_capacity b \<le> index \<longrightarrow>
      bs_test b index = None \<and> bs_set b index = None \<and> bs_reset b index = None \<and> bs_reset_block b index = None) \<and>
   sz < bs_capacity (bs_resize b sz) \<and>
   bs_elems (bs_resize b sz) = {i \<in> bs_elems b. i div 64 \<le> sz div 64} \<and>
   bs_elems (new_DynamicBitset_size n sz) = {} \<and> bs_elems (bs_clear b) = {} \<and> bs_elems (bs_reset_all b) = {} \<and>
   bs_elems (bs_set_all b) = {i. i < bs_capacity b \<and> i mod 64 < 32}"
proof (intro conjI impI)
  assume i: "index < bs_capacity b"
  show "bs_test b index = Some (index \<in> bs_elems b)" by (rule test_iff [OF i])
  show "map_option bs_elems (bs_set b index) = Some (insert index (bs_elems b))" using set_elems [OF i] by auto
  show "map_option bs_elems (bs_reset b index) = Some (bs_elems b - {index})" using reset_elems [OF i] by auto
  show "map_option bs_elems (bs_reset_block b index) = Some {i \<in> bs_elems b. i div 64 \<noteq> index div 64}"
    using reset_block_elems [OF i] by auto
next
  assume "bs_capacity b \<le> index"
  then have "\<not> index div 64 < length (bitset b)" using capacity_iff [of index b] by simp
  then show "bs_test b index = None" "bs_set b index = None" "bs_reset b index = None" "bs_reset_block b index = None"
    by (simp_all add: bs_test_def bs_set_def bs_reset_def bs_reset_block_def bs_update_def cell_bit_size_def Let_def)
qed (simp_all add: resize_capacity resize_elems cleared_elems set_all_elems new_DynamicBitset_size_def)

theorem bitset_refines_set_witness:
  "\<exists>b b'. b = new_DynamicBitset_size 0 100 \<and> bs_set b 99 = Some b' \<and> bs_elems b' = {99} \<and> 63 \<notin> bs_elems (bs_set_all b)"
proof -
  let ?b = "new_DynamicBitset_size 0 100"
  have c: "99 < bs_capacity ?b"
    by (simp add: bs_capacity_def new_DynamicBitset_size_def bs_reset_all_def bs_resize_def new_DynamicBitset_def cell_bit_size_def)
  from bitset_refines_set [of 99 ?b 100 0] c have "map_option bs_elems (bs_set ?b 99) = Some {99}"
    "63 \<notin> bs_elems (bs_set_all ?b)" by auto
  then show ?thesis by auto
qed

end
