(* ===== verification/IOBuffer2.thy ===== *)
theory IOBuffer2
  imports Prelude
begin

text \<open>
  The second buffer: base2/io_buffer2.h and io_buffer2.cc, a block of memory with a position for
  reading and one for writing; it either allocates the block or works on the caller's. The values of
  ints stay below 2^31, a size_t is taken modulo 2^64. An access outside the block, or outside the
  value that is read, is undefined: the operation is None. What fresh memory holds is a parameter of
  the operations that allocate. The null pointers that the reading functions refuse are not modelled:
  a value is returned instead.
\<close>

section \<open>State\<close>

text \<open>
  The block is data_; the ghost fields say whether the object itself has allocated it, and how many
  blocks it has allocated and lost.
\<close>

record io_buffer2 =
  block :: "byte list"
  block_size :: int
  read_pos :: int
  write_pos :: int
  is_new :: bool
  own_block :: bool
  lost_blocks :: nat

definition fresh :: "(nat \<Rightarrow> byte) \<Rightarrow> nat \<Rightarrow> nat \<Rightarrow> byte list" where
  "fresh junk i j = map junk [i..<j]"

definition kDefaultIOBufferSize :: nat where "kDefaultIOBufferSize = 4096"

definition new_IOBuffer2 :: "(nat \<Rightarrow> byte) \<Rightarrow> io_buffer2" where
  "new_IOBuffer2 junk =
     \<lparr>block = fresh junk 0 kDefaultIOBufferSize, block_size = int kDefaultIOBufferSize, read_pos = 0, write_pos = 0,
      is_new = True, own_block = True, lost_blocks = 0\<rparr>"

definition sized_IOBuffer2 :: "(nat \<Rightarrow> byte) \<Rightarrow> int \<Rightarrow> io_buffer2 option" where
  "sized_IOBuffer2 junk n = do {
     dcheck (0 < n);
     Some \<lparr>block = fresh junk 0 (nat n), block_size = n, read_pos = 0, write_pos = 0, is_new = True, own_block = True, lost_blocks = 0\<rparr>
   }"

definition IOBuffer2_on :: "byte list \<Rightarrow> int \<Rightarrow> io_buffer2" where
  "IOBuffer2_on data n =
     \<lparr>block = data, block_size = n, read_pos = 0, write_pos = 0, is_new = False, own_block = False, lost_blocks = 0\<rparr>"

text \<open>The destructor gives the number of blocks that are never freed; to free the caller's block is undefined.\<close>

definition buf2_destroy :: "io_buffer2 \<Rightarrow> nat option" where
  "buf2_destroy b =
     (if is_new b then do { dcheck (own_block b); Some (lost_blocks b) }
      else Some (if own_block b then lost_blocks b + 1 else lost_blocks b))"

section \<open>Positions\<close>

definition readable_size :: "io_buffer2 \<Rightarrow> int" where "readable_size b = block_size b - read_pos b"
definition writable_size :: "io_buffer2 \<Rightarrow> int" where "writable_size b = block_size b - write_pos b"

definition skip_read_pos :: "int \<Rightarrow> io_buffer2 \<Rightarrow> bool \<times> io_buffer2" where
  "skip_read_pos n b =
     (let p = n + read_pos b in if p < 0 \<or> block_size b \<le> p then (False, b) else (True, b\<lparr>read_pos := p\<rparr>))"

definition seek_read_pos :: "int \<Rightarrow> io_buffer2 \<Rightarrow> bool \<times> io_buffer2" where
  "seek_read_pos n b = (if block_size b < 0 \<or> block_size b \<le> n then (False, b) else (True, b\<lparr>read_pos := n\<rparr>))"

definition skip_write_pos :: "int \<Rightarrow> io_buffer2 \<Rightarrow> bool \<times> io_buffer2" where
  "skip_write_pos n b =
     (let p = n + write_pos b in if p < 0 \<or> block_size b \<le> p then (False, b) else (True, b\<lparr>write_pos := p\<rparr>))"

definition seek_write_pos :: "int \<Rightarrow> io_buffer2 \<Rightarrow> bool \<times> io_buffer2" where
  "seek_write_pos n b = (if block_size b < 0 \<or> block_size b \<le> n then (False, b) else (True, b\<lparr>write_pos := n\<rparr>))"

section \<open>Memory\<close>

text \<open>memcpy out of the block and into it; a length is converted to size_t, so a negative one is out of bounds.\<close>

definition mem_get :: "io_buffer2 \<Rightarrow> int \<Rightarrow> int \<Rightarrow> byte list option" where
  "mem_get b from len =
     (if 0 \<le> from \<and> 0 \<le> len \<and> from + len \<le> int (length (block b)) then Some (seg (block b) (nat from) (nat (from + len))) else None)"

definition mem_put :: "io_buffer2 \<Rightarrow> int \<Rightarrow> byte list \<Rightarrow> io_buffer2 option" where
  "mem_put b at bs =
     (if 0 \<le> at \<and> at + int (length bs) \<le> int (length (block b)) then Some (b\<lparr>block := overwrite (block b) (nat at) bs\<rparr>) else None)"

definition buf2_realloc :: "(nat \<Rightarrow> byte) \<Rightarrow> int \<Rightarrow> io_buffer2 \<Rightarrow> io_buffer2" where
  "buf2_realloc junk n b =
     b\<lparr>block := take (nat n) (block b) @ fresh junk (length (block b)) (nat n), block_size := n\<rparr>"

text \<open>A new block of n bytes with the bytes in use of the old one, which the object forgets.\<close>

definition copy_block :: "(nat \<Rightarrow> byte) \<Rightarrow> int \<Rightarrow> bool \<Rightarrow> io_buffer2 \<Rightarrow> io_buffer2 option" where
  "copy_block junk n new b = do {
     dcheck (block_size b \<le> n);
     old \<leftarrow> mem_get b 0 (block_size b);
     Some (b\<lparr>block := old @ fresh junk (nat (block_size b)) (nat n), block_size := n, is_new := new, own_block := True,
             lost_blocks := (if own_block b then lost_blocks b + 1 else lost_blocks b)\<rparr>)
   }"

definition buf2_Resize :: "(nat \<Rightarrow> byte) \<Rightarrow> int \<Rightarrow> io_buffer2 \<Rightarrow> io_buffer2 option" where
  "buf2_Resize junk n b =
     (if block_size b < n then (if is_new b then Some (buf2_realloc junk n b) else copy_block junk n True b) else Some b)"

definition buf2_Clone :: "(nat \<Rightarrow> byte) \<Rightarrow> io_buffer2 \<Rightarrow> io_buffer2 option" where
  "buf2_Clone junk b = do {
     c \<leftarrow> sized_IOBuffer2 junk (block_size b);
     old \<leftarrow> mem_get b 0 (block_size b);
     mem_put c 0 old
   }"

definition ReadRaw :: "int \<Rightarrow> bool \<Rightarrow> io_buffer2 \<Rightarrow> (byte list \<times> io_buffer2) option" where
  "ReadRaw len is_peek b = do {
     bs \<leftarrow> mem_get b (read_pos b) len;
     Some (bs, if is_peek then b else b\<lparr>read_pos := read_pos b + len\<rparr>)
   }"

definition ReadOffsetRaw :: "int \<Rightarrow> int \<Rightarrow> io_buffer2 \<Rightarrow> byte list option" where
  "ReadOffsetRaw offset len b = mem_get b (read_pos b + offset) len"

text \<open>Growing, with the size the source computes.\<close>

definition WriteRaw :: "(nat \<Rightarrow> byte) \<Rightarrow> byte list \<Rightarrow> io_buffer2 \<Rightarrow> io_buffer2 option" where
  "WriteRaw junk bs b =
     (let len = int (length bs) in do {
        b1 \<leftarrow> (if block_size b - write_pos b < len then
                  (let new_size = block_size b - write_pos b + len
                   in if is_new b then Some (buf2_realloc junk new_size b) else copy_block junk new_size True b)
                else Some b);
        b2 \<leftarrow> mem_put b1 (write_pos b1) bs;
        Some (b2\<lparr>write_pos := write_pos b2 + len\<rparr>)
      })"

definition WriteOffsetRaw :: "(nat \<Rightarrow> byte) \<Rightarrow> byte list \<Rightarrow> int \<Rightarrow> io_buffer2 \<Rightarrow> io_buffer2 option" where
  "WriteOffsetRaw junk bs offset b =
     (let len = int (length bs) in do {
        b1 \<leftarrow> (if block_size b - write_pos b < len + offset then
                  (let new_size = block_size b - write_pos b + len + offset
                   in if is_new b then Some (buf2_realloc junk new_size b) else copy_block junk new_size False b)
                else Some b);
        mem_put b1 (write_pos b1 + offset) bs
      })"

section \<open>Reading\<close>

text \<open>
  The functions for the four widths repeat one body. A size is compared with readable_size() as a
  size_t. A refused read is None as the value.
\<close>

definition size_t :: "int \<Rightarrow> int" where "size_t n = n mod 2 ^ 64"

definition read_uint :: "bool \<Rightarrow> nat \<Rightarrow> io_buffer2 \<Rightarrow> ('a::len word option \<times> io_buffer2) option" where
  "read_uint is_peek n b =
     (if size_t (readable_size b) < int n then Some (None, b)
      else do { (bs, b1) \<leftarrow> ReadRaw (int n) is_peek b; Some (Some (le_to_word bs), b1) })"

definition buf2_ReadUint8 :: "io_buffer2 \<Rightarrow> (uint8 option \<times> io_buffer2) option" where "buf2_ReadUint8 = read_uint False 1"
definition buf2_ReadUint16 :: "io_buffer2 \<Rightarrow> (uint16 option \<times> io_buffer2) option" where "buf2_ReadUint16 = read_uint False 2"
definition buf2_ReadUint32 :: "io_buffer2 \<Rightarrow> (uint32 option \<times> io_buffer2) option" where "buf2_ReadUint32 = read_uint False 4"
definition buf2_ReadUint64 :: "io_buffer2 \<Rightarrow> (uint64 option \<times> io_buffer2) option" where "buf2_ReadUint64 = read_uint False 8"
definition buf2_ReadPeekUint8 :: "io_buffer2 \<Rightarrow> (uint8 option \<times> io_buffer2) option" where "buf2_ReadPeekUint8 = read_uint True 1"
definition buf2_ReadPeekUint16 :: "io_buffer2 \<Rightarrow> (uint16 option \<times> io_buffer2) option" where "buf2_ReadPeekUint16 = read_uint True 2"
definition buf2_ReadPeekUint32 :: "io_buffer2 \<Rightarrow> (uint32 option \<times> io_buffer2) option" where "buf2_ReadPeekUint32 = read_uint True 4"
definition buf2_ReadPeekUint64 :: "io_buffer2 \<Rightarrow> (uint64 option \<times> io_buffer2) option" where "buf2_ReadPeekUint64 = read_uint True 8"

text \<open>The size of a string is peeked into a variable that is 0 if the peek is refused.\<close>

definition peek_size :: "io_buffer2 \<Rightarrow> uint32 option" where
  "peek_size b = do { (v, _) \<leftarrow> buf2_ReadPeekUint32 b; Some (case v of None \<Rightarrow> 0 | Some n \<Rightarrow> n) }"

definition buf2_ReadString :: "io_buffer2 \<Rightarrow> (byte list option \<times> io_buffer2) option" where
  "buf2_ReadString b =
     (if size_t (readable_size b) < 4 then Some (None, b)
      else do {
        string_size \<leftarrow> peek_size b;
        (if size_t (readable_size b) < uint string_size + 4 then Some (None, b)
         else do {
           s \<leftarrow> ReadOffsetRaw 4 (sint string_size) b;
           Some (Some s, snd (skip_read_pos (signed_take_bit 31 (uint string_size + 4)) b))
         })
      })"

definition buf2_ReadPeekString :: "io_buffer2 \<Rightarrow> byte list option option" where
  "buf2_ReadPeekString b =
     (if size_t (readable_size b) < 4 then Some None
      else do {
        string_size \<leftarrow> peek_size b;
        (if size_t (readable_size b) < uint string_size + 4 then Some None
         else do { s \<leftarrow> ReadOffsetRaw 4 (sint string_size) b; Some (Some s) })
      })"

text \<open>
  Reading at an offset. The offset and the number of bytes are passed to ReadOffsetRaw the other way
  round; the bytes that are copied replace the first ones of the value old.
\<close>

definition read_offset_uint :: "nat \<Rightarrow> 'a::len word \<Rightarrow> int \<Rightarrow> io_buffer2 \<Rightarrow> 'a word option option" where
  "read_offset_uint n old offset b =
     (if size_t (readable_size b) < size_t (offset + int n) then Some None
      else do {
        bs \<leftarrow> ReadOffsetRaw (int n) offset b;
        dcheck (length bs \<le> n);
        Some (Some (le_to_word (overwrite (word_to_le n old) 0 bs)))
      })"

definition buf2_ReadOffsetUint8 :: "uint8 \<Rightarrow> int \<Rightarrow> io_buffer2 \<Rightarrow> uint8 option option" where "buf2_ReadOffsetUint8 = read_offset_uint 1"
definition buf2_ReadOffsetUint16 :: "uint16 \<Rightarrow> int \<Rightarrow> io_buffer2 \<Rightarrow> uint16 option option" where "buf2_ReadOffsetUint16 = read_offset_uint 2"
definition buf2_ReadOffsetUint32 :: "uint32 \<Rightarrow> int \<Rightarrow> io_buffer2 \<Rightarrow> uint32 option option" where "buf2_ReadOffsetUint32 = read_offset_uint 4"
definition buf2_ReadOffsetUint64 :: "uint64 \<Rightarrow> int \<Rightarrow> io_buffer2 \<Rightarrow> uint64 option option" where "buf2_ReadOffsetUint64 = read_offset_uint 8"

definition buf2_ReadOffsetString :: "int \<Rightarrow> io_buffer2 \<Rightarrow> byte list option option" where
  "buf2_ReadOffsetString offset b =
     (if size_t (readable_size b) < size_t (4 + offset) then Some None
      else do {
        string_size \<leftarrow> peek_size b;
        (if size_t (readable_size b) < size_t (uint string_size + 4 + offset) then Some None
         else do { s \<leftarrow> ReadOffsetRaw (4 + offset) (sint string_size) b; Some (Some s) })
      })"

section \<open>Writing\<close>

definition buf2_WriteUint8 :: "(nat \<Rightarrow> byte) \<Rightarrow> uint8 \<Rightarrow> io_buffer2 \<Rightarrow> io_buffer2 option" where "buf2_WriteUint8 junk v = WriteRaw junk (word_to_le 1 v)"
definition buf2_WriteUint16 :: "(nat \<Rightarrow> byte) \<Rightarrow> uint16 \<Rightarrow> io_buffer2 \<Rightarrow> io_buffer2 option" where "buf2_WriteUint16 junk v = WriteRaw junk (word_to_le 2 v)"
definition buf2_WriteUint32 :: "(nat \<Rightarrow> byte) \<Rightarrow> uint32 \<Rightarrow> io_buffer2 \<Rightarrow> io_buffer2 option" where "buf2_WriteUint32 junk v = WriteRaw junk (word_to_le 4 v)"
definition buf2_WriteUint64 :: "(nat \<Rightarrow> byte) \<Rightarrow> uint64 \<Rightarrow> io_buffer2 \<Rightarrow> io_buffer2 option" where "buf2_WriteUint64 junk v = WriteRaw junk (word_to_le 8 v)"

text \<open>
  A string is written with its terminating zero. Its size is a uint32, which WriteRaw takes as an
  int: a size of 2^31 or more is negative there, and the copy is out of bounds.
\<close>

definition string_bytes :: "byte list \<Rightarrow> byte list option" where
  "string_bytes s =
     (let string_size = of_nat (length s + 1) :: uint32
      in if sint string_size < 0 then None else Some (take (unat string_size) (s @ [0])))"

definition buf2_WriteString :: "(nat \<Rightarrow> byte) \<Rightarrow> byte list \<Rightarrow> io_buffer2 \<Rightarrow> io_buffer2 option" where
  "buf2_WriteString junk s b = do {
     b1 \<leftarrow> buf2_WriteUint32 junk (of_nat (length s + 1)) b;
     bs \<leftarrow> string_bytes s;
     WriteRaw junk bs b1
   }"

text \<open>For a pointer to characters the string ends at the first zero.\<close>

definition buf2_WriteCString :: "(nat \<Rightarrow> byte) \<Rightarrow> byte list \<Rightarrow> io_buffer2 \<Rightarrow> io_buffer2 option" where
  "buf2_WriteCString junk mem = buf2_WriteString junk (takeWhile (\<lambda>c. c \<noteq> 0) mem)"

definition buf2_WriteOffsetUint8 :: "(nat \<Rightarrow> byte) \<Rightarrow> uint8 \<Rightarrow> int \<Rightarrow> io_buffer2 \<Rightarrow> io_buffer2 option" where "buf2_WriteOffsetUint8 junk v = WriteOffsetRaw junk (word_to_le 1 v)"
definition buf2_WriteOffsetUint16 :: "(nat \<Rightarrow> byte) \<Rightarrow> uint16 \<Rightarrow> int \<Rightarrow> io_buffer2 \<Rightarrow> io_buffer2 option" where "buf2_WriteOffsetUint16 junk v = WriteOffsetRaw junk (word_to_le 2 v)"
definition buf2_WriteOffsetUint32 :: "(nat \<Rightarrow> byte) \<Rightarrow> uint32 \<Rightarrow> int \<Rightarrow> io_buffer2 \<Rightarrow> io_buffer2 option" where "buf2_WriteOffsetUint32 junk v = WriteOffsetRaw junk (word_to_le 4 v)"
definition buf2_WriteOffsetUint64 :: "(nat \<Rightarrow> byte) \<Rightarrow> uint64 \<Rightarrow> int \<Rightarrow> io_buffer2 \<Rightarrow> io_buffer2 option" where "buf2_WriteOffsetUint64 junk v = WriteOffsetRaw junk (word_to_le 8 v)"

definition buf2_WriteOffsetString :: "(nat \<Rightarrow> byte) \<Rightarrow> byte list \<Rightarrow> int \<Rightarrow> io_buffer2 \<Rightarrow> io_buffer2 option" where
  "buf2_WriteOffsetString junk s offset b = do {
     b1 \<leftarrow> buf2_WriteOffsetUint32 junk (of_nat (length s + 1)) offset b;
     bs \<leftarrow> string_bytes s;
     WriteOffsetRaw junk bs (offset + 4) b1
   }"

definition buf2_WriteOffsetCString :: "(nat \<Rightarrow> byte) \<Rightarrow> byte list \<Rightarrow> int \<Rightarrow> io_buffer2 \<Rightarrow> io_buffer2 option" where
  "buf2_WriteOffsetCString junk mem = buf2_WriteOffsetString junk (takeWhile (\<lambda>c. c \<noteq> 0) mem)"

section \<open>The invariant\<close>

definition buf2_inv :: "io_buffer2 \<Rightarrow> bool" where
  "buf2_inv b \<longleftrightarrow> block_size b = int (length (block b)) \<and> 0 \<le> read_pos b \<and> read_pos b \<le> block_size b \<and>
     0 \<le> write_pos b \<and> write_pos b \<le> block_size b \<and> block_size b < 2 ^ 31"

lemma length_fresh [simp]: "length (fresh junk i j) = j - i"
  by (simp add: fresh_def)

lemma inv_size_t: "buf2_inv b \<Longrightarrow> size_t (readable_size b) = readable_size b"
  by (simp add: buf2_inv_def size_t_def readable_size_def)

lemma mem_get_inv:
  "buf2_inv b \<Longrightarrow> 0 \<le> from \<Longrightarrow> 0 \<le> len \<Longrightarrow> from + len \<le> block_size b \<Longrightarrow>
   mem_get b from len = Some (seg (block b) (nat from) (nat (from + len)))"
  by (simp add: mem_get_def buf2_inv_def)

lemma new_inv: "buf2_inv (new_IOBuffer2 junk)"
  by (simp add: new_IOBuffer2_def buf2_inv_def kDefaultIOBufferSize_def)

lemma sized_inv: "sized_IOBuffer2 junk n = Some b \<Longrightarrow> n < 2 ^ 31 \<Longrightarrow> buf2_inv b \<and> block_size b = n \<and> write_pos b = 0 \<and> read_pos b = 0"
  by (auto simp: sized_IOBuffer2_def buf2_inv_def)

text \<open>A write that fits changes the bytes at the position and moves it.\<close>

lemma WriteRaw_fits:
  assumes "buf2_inv b" "int (length bs) \<le> block_size b - write_pos b"
  shows "WriteRaw junk bs b = Some (b\<lparr>block := overwrite (block b) (nat (write_pos b)) bs, write_pos := write_pos b + int (length bs)\<rparr>)"
    "buf2_inv (b\<lparr>block := overwrite (block b) (nat (write_pos b)) bs, write_pos := write_pos b + int (length bs)\<rparr>)"
proof -
  have "nat (write_pos b) + length bs \<le> length (block b)" using assms by (auto simp: buf2_inv_def)
  then show "WriteRaw junk bs b = Some (b\<lparr>block := overwrite (block b) (nat (write_pos b)) bs, write_pos := write_pos b + int (length bs)\<rparr>)"
    "buf2_inv (b\<lparr>block := overwrite (block b) (nat (write_pos b)) bs, write_pos := write_pos b + int (length bs)\<rparr>)"
    using assms by (auto simp: WriteRaw_def mem_put_def buf2_inv_def Let_def)
qed

text \<open>
  A write that does not fit makes room for its bytes after the free ones of the old block, and not
  after the position: that is enough only if the position is in the first half of the block.
\<close>

lemma WriteRaw_grows:
  assumes "buf2_inv b" "block_size b - write_pos b < int (length bs)"
  shows "(WriteRaw junk bs b \<noteq> None) = (2 * write_pos b \<le> block_size b)"
proof -
  let ?n = "block_size b - write_pos b + int (length bs)"
  have n: "0 < ?n" using assms by (simp add: buf2_inv_def)
  show ?thesis
  proof (cases "is_new b")
    case True
    have "length (block (buf2_realloc junk ?n b)) = nat ?n" by (simp add: buf2_realloc_def)
    then show ?thesis using True assms n
      by (auto simp: WriteRaw_def Let_def mem_put_def buf2_realloc_def buf2_inv_def)
  next
    case False
    show ?thesis
    proof (cases "block_size b \<le> ?n")
      case le: True
      then obtain c where c: "copy_block junk ?n True b = Some c" "length (block c) = nat ?n" "write_pos c = write_pos b"
        using assms(1) by (auto simp: copy_block_def mem_get_def buf2_inv_def dcheck_def)
      then show ?thesis using False assms n by (auto simp: WriteRaw_def Let_def mem_put_def buf2_inv_def)
    next
      case gt: False
      then have "copy_block junk ?n True b = None" by (simp add: copy_block_def dcheck_def)
      moreover have "\<not> 2 * write_pos b \<le> block_size b" using gt assms by (simp add: buf2_inv_def)
      ultimately show ?thesis using False assms by (simp add: WriteRaw_def Let_def)
    qed
  qed
qed

section \<open>Streams of values\<close>

datatype buf2_item = Item8 uint8 | Item16 uint16 | Item32 uint32 | Item64 uint64 | ItemString "byte list"

fun write_item :: "(nat \<Rightarrow> byte) \<Rightarrow> buf2_item \<Rightarrow> io_buffer2 \<Rightarrow> io_buffer2 option" where
  "write_item junk (Item8 v) b = buf2_WriteUint8 junk v b"
| "write_item junk (Item16 v) b = buf2_WriteUint16 junk v b"
| "write_item junk (Item32 v) b = buf2_WriteUint32 junk v b"
| "write_item junk (Item64 v) b = buf2_WriteUint64 junk v b"
| "write_item junk (ItemString s) b = buf2_WriteString junk s b"

text \<open>Reading a value of the kind of an item.\<close>

fun read_item :: "buf2_item \<Rightarrow> io_buffer2 \<Rightarrow> (buf2_item option \<times> io_buffer2) option" where
  "read_item (Item8 _) b = map_option (map_prod (map_option Item8) id) (buf2_ReadUint8 b)"
| "read_item (Item16 _) b = map_option (map_prod (map_option Item16) id) (buf2_ReadUint16 b)"
| "read_item (Item32 _) b = map_option (map_prod (map_option Item32) id) (buf2_ReadUint32 b)"
| "read_item (Item64 _) b = map_option (map_prod (map_option Item64) id) (buf2_ReadUint64 b)"
| "read_item (ItemString _) b = map_option (map_prod (map_option ItemString) id) (buf2_ReadString b)"

fun write_items :: "(nat \<Rightarrow> byte) \<Rightarrow> buf2_item list \<Rightarrow> io_buffer2 \<Rightarrow> io_buffer2 option" where
  "write_items junk [] b = Some b"
| "write_items junk (x # xs) b = do { b1 \<leftarrow> write_item junk x b; write_items junk xs b1 }"

fun read_items :: "buf2_item list \<Rightarrow> io_buffer2 \<Rightarrow> (buf2_item option list \<times> io_buffer2) option" where
  "read_items [] b = Some ([], b)"
| "read_items (x # xs) b = do { (v, b1) \<leftarrow> read_item x b; (vs, b2) \<leftarrow> read_items xs b1; Some (v # vs, b2) }"

fun buf2_bytes :: "buf2_item \<Rightarrow> byte list" where
  "buf2_bytes (Item8 v) = word_to_le 1 v"
| "buf2_bytes (Item16 v) = word_to_le 2 v"
| "buf2_bytes (Item32 v) = word_to_le 4 v"
| "buf2_bytes (Item64 v) = word_to_le 8 v"
| "buf2_bytes (ItemString s) = word_to_le 4 (of_nat (length s + 1) :: uint32) @ s @ [0]"

text \<open>A string is read back with its terminating zero.\<close>

fun read_back :: "buf2_item \<Rightarrow> buf2_item" where
  "read_back (ItemString s) = ItemString (s @ [0])"
| "read_back x = x"

definition items_size :: "buf2_item list \<Rightarrow> nat" where
  "items_size xs = length (concat (map buf2_bytes xs))"

lemma overwrite_append:
  "i + length ys + length zs \<le> length xs \<Longrightarrow> overwrite (overwrite xs i ys) (i + length ys) zs = overwrite xs i (ys @ zs)"
  by (simp add: overwrite_def ac_simps)

lemma small_string:
  assumes "length s + 1 < 2 ^ 31"
  shows "string_bytes s = Some (s @ [0])" "uint (of_nat (length s + 1) :: uint32) = int (length s) + 1"
    "sint (of_nat (length s + 1) :: uint32) = int (length s) + 1"
proof -
  have u: "unat (of_nat (length s + 1) :: uint32) = length s + 1"
    using assms by (simp add: unat_of_nat del: of_nat_add of_nat_Suc)
  then show i: "uint (of_nat (length s + 1) :: uint32) = int (length s) + 1" by (simp only: uint_nat)
  have "signed_take_bit 31 (int (length s) + 1) = int (length s) + 1"
    by (rule signed_take_bit_int_eq_self) (use assms in simp_all)
  then show s: "sint (of_nat (length s + 1) :: uint32) = int (length s) + 1"
    by (simp only: sint_uint i) simp
  show "string_bytes s = Some (s @ [0])" unfolding string_bytes_def Let_def s u by simp
qed

lemma write_item_fits:
  assumes inv: "buf2_inv b" and fit: "int (length (buf2_bytes x)) \<le> block_size b - write_pos b"
  shows "write_item junk x b = Some (b\<lparr>block := overwrite (block b) (nat (write_pos b)) (buf2_bytes x),
           write_pos := write_pos b + int (length (buf2_bytes x))\<rparr>)"
proof (cases x)
  case (ItemString s)
  let ?n = "word_to_le 4 (of_nat (length s + 1) :: uint32)"
  let ?b1 = "b\<lparr>block := overwrite (block b) (nat (write_pos b)) ?n, write_pos := write_pos b + int (length ?n)\<rparr>"
  have f1: "int (length ?n) \<le> block_size b - write_pos b" using fit ItemString by simp
  note w1 = WriteRaw_fits [OF inv f1]
  have short: "length s + 1 < 2 ^ 31" using fit ItemString inv by (simp add: buf2_inv_def)
  have f2: "int (length (s @ [0])) \<le> block_size ?b1 - write_pos ?b1" using fit ItemString by simp
  have pos: "nat (write_pos ?b1) = nat (write_pos b) + length ?n" using inv by (simp add: buf2_inv_def nat_add_distrib)
  have len: "nat (write_pos b) + length ?n + length (s @ [0]) \<le> length (block b)"
    using fit ItemString inv by (auto simp: buf2_inv_def)
  have "overwrite (block ?b1) (nat (write_pos ?b1)) (s @ [0]) = overwrite (block b) (nat (write_pos b)) (?n @ s @ [0])"
    unfolding pos using overwrite_append [OF len] by simp
  moreover have "buf2_WriteUint32 junk (of_nat (length s + 1)) b = Some ?b1"
    unfolding buf2_WriteUint32_def by (rule w1(1))
  moreover note small_string(1) [OF short] WriteRaw_fits(1) [OF w1(2) f2, of junk]
  ultimately show ?thesis by (simp add: ItemString buf2_WriteString_def del: of_nat_add of_nat_Suc)
qed (use WriteRaw_fits(1) [OF inv fit] in
    \<open>auto simp: buf2_WriteUint8_def buf2_WriteUint16_def buf2_WriteUint32_def buf2_WriteUint64_def\<close>)

lemma write_items_fit:
  "buf2_inv b \<Longrightarrow> int (items_size xs) \<le> block_size b - write_pos b \<Longrightarrow>
   write_items junk xs b = Some (b\<lparr>block := overwrite (block b) (nat (write_pos b)) (concat (map buf2_bytes xs)),
     write_pos := write_pos b + int (items_size xs)\<rparr>)"
proof (induction xs arbitrary: b)
  case Nil
  then show ?case by (simp add: items_size_def)
next
  case (Cons x xs)
  let ?b1 = "b\<lparr>block := overwrite (block b) (nat (write_pos b)) (buf2_bytes x), write_pos := write_pos b + int (length (buf2_bytes x))\<rparr>"
  have size: "items_size (x # xs) = length (buf2_bytes x) + items_size xs" by (simp add: items_size_def)
  have f: "int (length (buf2_bytes x)) \<le> block_size b - write_pos b" using Cons.prems(2) size by simp
  have inv1: "buf2_inv ?b1" by (rule WriteRaw_fits(2) [OF Cons.prems(1) f])
  have "int (items_size xs) \<le> block_size ?b1 - write_pos ?b1" using Cons.prems(2) size by simp
  note rest = Cons.IH [OF inv1 this]
  have pos: "nat (write_pos ?b1) = nat (write_pos b) + length (buf2_bytes x)"
    using Cons.prems(1) by (simp add: buf2_inv_def nat_add_distrib)
  have len: "nat (write_pos b) + length (buf2_bytes x) + length (concat (map buf2_bytes xs)) \<le> length (block b)"
    using Cons.prems by (auto simp: buf2_inv_def items_size_def)
  have "overwrite (block ?b1) (nat (write_pos ?b1)) (concat (map buf2_bytes xs)) =
      overwrite (block b) (nat (write_pos b)) (concat (map buf2_bytes (x # xs)))"
    unfolding pos using overwrite_append [OF len] by simp
  then show ?case using write_item_fits [OF Cons.prems(1) f, of junk] rest size by simp
qed

text \<open>Reading at a position that holds the bytes of an item, before the end of the block.\<close>

lemma read_uint_at:
  fixes v :: "'a::len word"
  assumes "buf2_inv b" "read_pos b + int n \<le> block_size b" "8 * n = LENGTH('a)"
    "seg (block b) (nat (read_pos b)) (nat (read_pos b) + n) = word_to_le n v"
  shows "read_uint is_peek n b = Some (Some v, if is_peek then b else b\<lparr>read_pos := read_pos b + int n\<rparr>)"
proof -
  have "nat (read_pos b + int n) = nat (read_pos b) + n" using assms(1) by (simp add: buf2_inv_def nat_add_distrib)
  then have "mem_get b (read_pos b) (int n) = Some (word_to_le n v)"
    using mem_get_inv [OF assms(1), of "read_pos b" "int n"] assms by (simp add: buf2_inv_def)
  then show ?thesis using assms(2,3) inv_size_t [OF assms(1)]
    by (simp add: read_uint_def ReadRaw_def readable_size_def le_to_word_word_to_le)
qed

lemma peek_size_at:
  assumes "buf2_inv b" "read_pos b + 4 \<le> block_size b"
    "seg (block b) (nat (read_pos b)) (nat (read_pos b) + 4) = word_to_le 4 v"
  shows "peek_size b = Some v"
  using read_uint_at [of b 4 v True] assms by (simp add: peek_size_def buf2_ReadPeekUint32_def)

lemma ReadString_at:
  assumes inv: "buf2_inv b" and fit: "read_pos b + int (length s) + 5 \<le> block_size b"
    and at: "seg (block b) (nat (read_pos b)) (nat (read_pos b) + (length s + 5)) = buf2_bytes (ItemString s)"
  shows "buf2_ReadString b = Some (Some (s @ [0]), snd (skip_read_pos (int (length s) + 5) b))"
proof -
  let ?p = "nat (read_pos b)" let ?v = "of_nat (length s + 1) :: uint32"
  have short: "length s + 1 < 2 ^ 31" using fit inv by (simp add: buf2_inv_def)
  have "seg (block b) ?p (?p + 4) = take 4 (seg (block b) ?p (?p + (length s + 5)))" by (simp add: take_seg)
  then have "seg (block b) ?p (?p + 4) = word_to_le 4 ?v" unfolding at by simp
  then have size: "peek_size b = Some ?v" using fit by (intro peek_size_at [OF inv]) simp_all
  have "seg (block b) (?p + 4) (?p + (length s + 5)) = drop 4 (seg (block b) ?p (?p + (length s + 5)))" by (simp add: drop_seg)
  then have "seg (block b) (?p + 4) (?p + (length s + 5)) = s @ [0]" unfolding at by simp
  moreover have "nat (read_pos b + 4) = ?p + 4" "nat (read_pos b + 4 + (int (length s) + 1)) = ?p + (length s + 5)"
    using inv by (simp_all add: buf2_inv_def nat_add_distrib)
  ultimately have body: "ReadOffsetRaw 4 (int (length s) + 1) b = Some (s @ [0])"
    using mem_get_inv [OF inv, of "read_pos b + 4" "int (length s) + 1"] fit inv by (simp add: ReadOffsetRaw_def buf2_inv_def)
  obtain v where v: "peek_size b = Some v" "uint v = int (length s) + 1" "sint v = int (length s) + 1"
    using size small_string(2,3) [OF short] by blast
  have "signed_take_bit 31 (5 + int (length s)) = int (length s) + 5"
    by (subst signed_take_bit_int_eq_self) (use fit inv in \<open>simp_all add: buf2_inv_def\<close>)
  then show ?thesis
    using v body fit inv_size_t [OF inv] by (simp add: buf2_ReadString_def readable_size_def)
qed

lemma read_item_at:
  assumes inv: "buf2_inv b" and fit: "read_pos b + int (length (buf2_bytes x)) < block_size b"
    and at: "seg (block b) (nat (read_pos b)) (nat (read_pos b) + length (buf2_bytes x)) = buf2_bytes x"
  shows "read_item x b = Some (Some (read_back x), b\<lparr>read_pos := read_pos b + int (length (buf2_bytes x))\<rparr>)"
proof (cases x)
  case (ItemString s)
  have "snd (skip_read_pos (int (length s) + 5) b) = b\<lparr>read_pos := read_pos b + int (length (buf2_bytes x))\<rparr>"
    using ItemString fit inv by (simp add: skip_read_pos_def buf2_inv_def Let_def add.commute)
  then show ?thesis using ReadString_at [OF inv, of s] fit at ItemString by (simp add: add.commute)
next
  case (Item8 v)
  then show ?thesis using read_uint_at [OF inv, of 1 v False] fit at by (simp add: buf2_ReadUint8_def)
next
  case (Item16 v)
  then show ?thesis using read_uint_at [OF inv, of 2 v False] fit at by (simp add: buf2_ReadUint16_def)
next
  case (Item32 v)
  then show ?thesis using read_uint_at [OF inv, of 4 v False] fit at by (simp add: buf2_ReadUint32_def)
next
  case (Item64 v)
  then show ?thesis using read_uint_at [OF inv, of 8 v False] fit at by (simp add: buf2_ReadUint64_def)
qed

lemma seg_split:
  assumes "seg xs i (i + length (ys @ zs)) = ys @ zs"
  shows "seg xs i (i + length ys) = ys" "seg xs (i + length ys) (i + length ys + length zs) = zs"
proof -
  have "seg xs i (i + length ys) = take (length ys) (seg xs i (i + length (ys @ zs)))" by (simp add: take_seg)
  then show "seg xs i (i + length ys) = ys" unfolding assms by simp
  have "seg xs (i + length ys) (i + length ys + length zs) = drop (length ys) (seg xs i (i + length (ys @ zs)))"
    by (simp add: drop_seg add.assoc)
  then show "seg xs (i + length ys) (i + length ys + length zs) = zs" unfolding assms by simp
qed

lemma read_items_at:
  "buf2_inv b \<Longrightarrow> read_pos b + int (items_size xs) < block_size b \<Longrightarrow>
   seg (block b) (nat (read_pos b)) (nat (read_pos b) + items_size xs) = concat (map buf2_bytes xs) \<Longrightarrow>
   read_items xs b = Some (map (\<lambda>x. Some (read_back x)) xs, b\<lparr>read_pos := read_pos b + int (items_size xs)\<rparr>)"
proof (induction xs arbitrary: b)
  case Nil
  then show ?case by (simp add: items_size_def)
next
  case (Cons x xs)
  let ?n = "length (buf2_bytes x)"
  let ?b1 = "b\<lparr>read_pos := read_pos b + int ?n\<rparr>"
  have size: "items_size (x # xs) = ?n + items_size xs" by (simp add: items_size_def)
  have "seg (block b) (nat (read_pos b)) (nat (read_pos b) + length (buf2_bytes x @ concat (map buf2_bytes xs))) =
      buf2_bytes x @ concat (map buf2_bytes xs)"
    using Cons.prems(3) by (simp add: items_size_def)
  note parts = seg_split [OF this]
  have "read_item x b = Some (Some (read_back x), ?b1)"
    using Cons.prems(2) size parts(1) by (intro read_item_at [OF Cons.prems(1)]) simp_all
  moreover have "buf2_inv ?b1" using Cons.prems(1,2) size by (simp add: buf2_inv_def)
  moreover have pos: "nat (read_pos ?b1) = nat (read_pos b) + ?n" using Cons.prems(1) by (simp add: buf2_inv_def nat_add_distrib)
  moreover have "read_pos ?b1 + int (items_size xs) < block_size ?b1" using Cons.prems(2) size by simp
  moreover have "seg (block ?b1) (nat (read_pos ?b1)) (nat (read_pos ?b1) + items_size xs) = concat (map buf2_bytes xs)"
    unfolding pos using parts(2) by (simp add: items_size_def)
  ultimately show ?case using Cons.IH [of ?b1] size by (simp add: add.assoc)
qed

text \<open>
  Values and strings that together are shorter than a new buffer are written into it, and read
  back with the functions of the same types they are the same values, a string with its terminating
  zero appended; the reading position then stands after them.
\<close>

theorem buf2_roundtrip:
  assumes "sized_IOBuffer2 junk n = Some b" "n < 2 ^ 31" "int (items_size xs) < n"
  shows "\<exists>c. write_items junk' xs b = Some c \<and>
    read_items xs c = Some (map (\<lambda>x. Some (read_back x)) xs, c\<lparr>read_pos := int (items_size xs)\<rparr>)"
proof -
  have b: "buf2_inv b" "block_size b = n" "write_pos b = 0" "read_pos b = 0" using sized_inv [OF assms(1,2)] by auto
  let ?bs = "concat (map buf2_bytes xs)"
  let ?c = "b\<lparr>block := overwrite (block b) 0 ?bs, write_pos := int (items_size xs)\<rparr>"
  have w: "write_items junk' xs b = Some ?c" using write_items_fit [OF b(1), of xs junk'] assms(3) b by simp
  have len: "0 + length ?bs \<le> length (block b)" using b assms(3) by (simp add: buf2_inv_def items_size_def)
  then have "length (overwrite (block b) 0 ?bs) = length (block b)" by (rule length_overwrite)
  then have "buf2_inv ?c" using b assms(3) by (simp add: buf2_inv_def)
  moreover have "seg (block ?c) (nat (read_pos ?c)) (nat (read_pos ?c) + items_size xs) = ?bs"
    using seg_overwrite_same [OF len] b(4) by (simp add: items_size_def)
  ultimately have "read_items xs ?c = Some (map (\<lambda>x. Some (read_back x)) xs, ?c\<lparr>read_pos := int (items_size xs)\<rparr>)"
    using read_items_at [of ?c xs] b assms(3) by simp
  then show ?thesis using w by blast
qed

definition demo_items :: "buf2_item list" where
  "demo_items = [Item16 515, ItemString [97, 98], Item8 7]"

theorem buf2_roundtrip_witness:
  "\<exists>c. write_items (\<lambda>_. 0) demo_items (the (sized_IOBuffer2 (\<lambda>_. 0) 16)) = Some c \<and>
    read_items demo_items c = Some ([Some (Item16 515), Some (ItemString [97, 98, 0]), Some (Item8 7)], c\<lparr>read_pos := 10\<rparr>)"
  using buf2_roundtrip [of "\<lambda>_. 0" 16 _ demo_items "\<lambda>_. 0"]
  by (simp add: sized_IOBuffer2_def dcheck_def demo_items_def items_size_def)



text \<open>
  A string that ends with the block is read, but the reading position stays in front of it: the next
  read gives the same bytes again.
\<close>

lemma string_at_end_is_reread:
  assumes inv: "buf2_inv b" and fit: "read_pos b + int (length s) + 5 = block_size b"
    and at: "seg (block b) (nat (read_pos b)) (nat (read_pos b) + (length s + 5)) = buf2_bytes (ItemString s)"
  shows "buf2_ReadString b = Some (Some (s @ [0]), b)"
  using ReadString_at [OF inv, of s] fit at inv by (simp add: skip_read_pos_def buf2_inv_def Let_def)

section \<open>Reading at an offset\<close>

text \<open>
  With the arguments of ReadOffsetRaw the wrong way round, an accepted read of a uint32 at an
  offset copies as many bytes as the offset says from the fixed offset 4: it runs over the end of the
  value if the offset is more than 4, gives the value at the offset if it is 4, and otherwise
  replaces only the first bytes of the caller's value.
\<close>

theorem ReadOffsetUint32_outcomes:
  assumes "buf2_inv b" "0 \<le> offset" "offset + 4 \<le> readable_size b"
  shows "buf2_ReadOffsetUint32 old offset b =
    (if 4 < offset then None
     else if offset = 4 then Some (Some (le_to_word (seg (block b) (nat (read_pos b) + 4) (nat (read_pos b) + 8))))
     else Some (Some (le_to_word (seg (block b) (nat (read_pos b) + 4) (nat (read_pos b) + 4 + nat offset) @
       drop (nat offset) (word_to_le 4 old)))))"
proof -
  let ?p = "nat (read_pos b)"
  have s: "size_t (readable_size b) = readable_size b" "size_t (offset + 4) = offset + 4"
    using assms by (simp_all add: inv_size_t, simp add: size_t_def readable_size_def buf2_inv_def)
  have pos: "nat (read_pos b + 4) = ?p + 4" "nat (read_pos b + 4 + offset) = ?p + 4 + nat offset"
    using assms(1,2) by (simp_all add: buf2_inv_def nat_add_distrib)
  let ?bs = "seg (block b) (?p + 4) (?p + 4 + nat offset)"
  have in_block: "?p + 4 + nat offset \<le> length (block b)"
    using assms unfolding buf2_inv_def readable_size_def by linarith
  have "ReadOffsetRaw 4 offset b = Some ?bs"
    using mem_get_inv [OF assms(1), of "read_pos b + 4" offset] assms by (simp add: ReadOffsetRaw_def pos readable_size_def buf2_inv_def)
  moreover have len: "length ?bs = nat offset" using in_block by simp
  ultimately have r: "buf2_ReadOffsetUint32 old offset b =
      (if nat offset \<le> 4 then Some (Some (le_to_word (overwrite (word_to_le 4 old) 0 ?bs))) else None)"
    using assms(3) by (simp add: buf2_ReadOffsetUint32_def read_offset_uint_def s dcheck_def)
  show ?thesis
  proof (cases "offset = 4")
    case True
    then show ?thesis using r len by (simp add: overwrite_def add.commute)
  next
    case False
    then show ?thesis using r assms(2) len by (auto simp: overwrite_def)
  qed
qed

definition demo_buf2 :: io_buffer2 where
  "demo_buf2 = IOBuffer2_on [1, 0, 0, 0, 2, 0, 0, 0, 3, 0, 0, 0] 12"

theorem ReadOffsetUint32_outcomes_witness:
  "buf2_ReadOffsetUint32 0 4 demo_buf2 = Some (Some 2) \<and> buf2_ReadOffsetUint32 9 0 demo_buf2 = Some (Some 9) \<and>
   buf2_ReadOffsetUint32 0 8 demo_buf2 = None"
proof -
  have i: "buf2_inv demo_buf2" by (simp add: demo_buf2_def IOBuffer2_on_def buf2_inv_def)
  have r: "readable_size demo_buf2 = 12" by (simp add: demo_buf2_def IOBuffer2_on_def readable_size_def)
  have "buf2_ReadOffsetUint32 0 4 demo_buf2 = Some (Some 2)"
    using ReadOffsetUint32_outcomes [OF i, of 4 0] r by (simp add: demo_buf2_def IOBuffer2_on_def seg_def)
  moreover have "buf2_ReadOffsetUint32 9 0 demo_buf2 = Some (Some 9)"
    using ReadOffsetUint32_outcomes [OF i, of 0 9] r le_to_word_word_to_le [of 4 "9 :: uint32"] by simp
  moreover have "buf2_ReadOffsetUint32 0 8 demo_buf2 = None"
    using ReadOffsetUint32_outcomes [OF i, of 8 0] r by simp
  ultimately show ?thesis by simp
qed

section \<open>Who frees the block\<close>

definition owns :: "io_buffer2 \<Rightarrow> bool" where
  "owns b \<longleftrightarrow> is_new b = own_block b \<and> lost_blocks b = 0"

lemma owns_destroy: "owns b \<Longrightarrow> buf2_destroy b = Some 0"
  by (simp add: owns_def buf2_destroy_def dcheck_def)

lemma owns_new:
  "owns (new_IOBuffer2 junk)" "owns (IOBuffer2_on data n)" "sized_IOBuffer2 junk n = Some b \<Longrightarrow> owns b"
  by (auto simp: owns_def new_IOBuffer2_def IOBuffer2_on_def sized_IOBuffer2_def)

lemma owns_copy: "owns b \<Longrightarrow> \<not> is_new b \<Longrightarrow> copy_block junk n True b = Some c \<Longrightarrow> owns c"
  by (auto simp: owns_def copy_block_def bind_eq_Some_conv)

lemma owns_put: "owns b \<Longrightarrow> mem_put b at bs = Some c \<Longrightarrow> owns c"
  by (auto simp: owns_def mem_put_def split: if_splits)

lemma owns_realloc: "owns (buf2_realloc junk n b) = owns b"
  by (simp add: owns_def buf2_realloc_def)

lemma owns_Resize: "owns b \<Longrightarrow> buf2_Resize junk n b = Some c \<Longrightarrow> owns c"
  by (auto simp: buf2_Resize_def owns_realloc intro: owns_copy split: if_splits)

lemma owns_WriteRaw:
  assumes "owns b" "WriteRaw junk bs b = Some c"
  shows "owns c"
proof -
  from assms(2) obtain b1 b2 where b1: "b1 = b \<or> b1 = buf2_realloc junk (block_size b - write_pos b + int (length bs)) b \<or>
      \<not> is_new b \<and> copy_block junk (block_size b - write_pos b + int (length bs)) True b = Some b1"
    and b2: "mem_put b1 (write_pos b1) bs = Some b2" and c: "c = b2\<lparr>write_pos := write_pos b2 + int (length bs)\<rparr>"
    by (auto simp: WriteRaw_def Let_def bind_eq_Some_conv split: if_splits)
  have "owns b1" using b1 assms(1) owns_realloc owns_copy by blast
  then have "owns b2" using b2 by (rule owns_put)
  then show ?thesis by (simp add: c owns_def)
qed

text \<open>A write at an offset that grows a buffer on the caller's memory forgets that the new block is its own.\<close>

lemma WriteOffsetRaw_leaks:
  assumes "owns b" "\<not> is_new b" "block_size b - write_pos b < int (length bs) + offset"
    "WriteOffsetRaw junk bs offset b = Some c"
  shows "buf2_destroy c = Some 1"
  using assms
  by (auto simp: WriteOffsetRaw_def Let_def bind_eq_Some_conv copy_block_def mem_put_def owns_def buf2_destroy_def split: if_splits)

text \<open>
  The test of seek_read_pos looks at the size of the block: a negative position is accepted, and the
  next read is in front of the block.
\<close>

lemma seek_negative:
  assumes "buf2_inv b" "- (2 ^ 31) \<le> n" "n < 0"
  shows "fst (seek_read_pos n b)" "buf2_ReadUint8 (snd (seek_read_pos n b)) = None"
proof -
  let ?c = "b\<lparr>read_pos := n\<rparr>"
  have s: "seek_read_pos n b = (True, ?c)" using assms by (simp add: seek_read_pos_def buf2_inv_def)
  then show "fst (seek_read_pos n b)" by simp
  have "ReadRaw 1 False ?c = None" using assms(3) by (simp add: ReadRaw_def mem_get_def)
  moreover have "size_t (readable_size ?c) = block_size b - n"
    using assms by (simp add: size_t_def readable_size_def buf2_inv_def)
  moreover have "1 \<le> block_size b - n" using assms by (simp add: buf2_inv_def)
  ultimately show "buf2_ReadUint8 (snd (seek_read_pos n b)) = None"
    by (simp add: s buf2_ReadUint8_def read_uint_def)
qed

end
