(* ===== verification/StdList.thy ===== *)
theory StdList
  imports Prelude
begin

text \<open>
  std::list as the containers use it: a sequence of nodes whose iterators stay valid while other
  nodes come and go. A node is a number that is never used twice by one list; an iterator is the
  number of its node, or None for end(). Dereferencing or erasing an iterator whose node is not in
  the list is undefined behaviour, the value None of the operation.
\<close>

record 'a stdlist =
  nodes :: "(nat \<times> 'a) list"
  next_node :: nat

type_synonym iter = "nat option"

definition new_list :: "'a stdlist" where
  "new_list = \<lparr>nodes = [], next_node = 0\<rparr>"

definition elems :: "'a stdlist \<Rightarrow> 'a list" where
  "elems l = map snd (nodes l)"

definition push_back :: "'a stdlist \<Rightarrow> 'a \<Rightarrow> nat \<times> 'a stdlist" where
  "push_back l x = (next_node l, l\<lparr>nodes := nodes l @ [(next_node l, x)], next_node := next_node l + 1\<rparr>)"

definition push_front :: "'a stdlist \<Rightarrow> 'a \<Rightarrow> nat \<times> 'a stdlist" where
  "push_front l x = (next_node l, l\<lparr>nodes := (next_node l, x) # nodes l, next_node := next_node l + 1\<rparr>)"

definition deref :: "'a stdlist \<Rightarrow> nat \<Rightarrow> 'a option" where
  "deref l it = map_of (nodes l) it"

definition list_begin :: "'a stdlist \<Rightarrow> iter" where
  "list_begin l = (case nodes l of [] \<Rightarrow> None | (i, _) # _ \<Rightarrow> Some i)"

definition list_last :: "'a stdlist \<Rightarrow> iter" where
  "list_last l = (if nodes l = [] then None else Some (fst (last (nodes l))))"

text \<open>The iterator after the one of a node of the list.\<close>

fun node_after :: "(nat \<times> 'a) list \<Rightarrow> nat \<Rightarrow> iter" where
  "node_after [] it = None"
| "node_after [(i, _)] it = None"
| "node_after ((i, _) # (j, x) # ns) it = (if i = it then Some j else node_after ((j, x) # ns) it)"

definition erase_node :: "'a stdlist \<Rightarrow> nat \<Rightarrow> (iter \<times> 'a stdlist) option" where
  "erase_node l it =
     (if deref l it = None then None
      else Some (node_after (nodes l) it, l\<lparr>nodes := filter (\<lambda>n. fst n \<noteq> it) (nodes l)\<rparr>))"

text \<open>Assignment through an iterator, and splice of one node to the front of its own list.\<close>

definition set_node :: "'a stdlist \<Rightarrow> nat \<Rightarrow> 'a \<Rightarrow> 'a stdlist option" where
  "set_node l it x =
     (if deref l it = None then None
      else Some (l\<lparr>nodes := map (\<lambda>n. if fst n = it then (it, x) else n) (nodes l)\<rparr>))"

definition splice_front :: "'a stdlist \<Rightarrow> nat \<Rightarrow> 'a stdlist option" where
  "splice_front l it =
     (case deref l it of
        None \<Rightarrow> None
      | Some x \<Rightarrow> Some (l\<lparr>nodes := (it, x) # filter (\<lambda>n. fst n \<noteq> it) (nodes l)\<rparr>))"

section \<open>Well-formed lists\<close>

definition list_ok :: "'a stdlist \<Rightarrow> bool" where
  "list_ok l \<longleftrightarrow> distinct (map fst (nodes l)) \<and> (\<forall>n \<in> set (nodes l). fst n < next_node l)"

lemma list_ok_new [simp]: "list_ok new_list" "elems new_list = []"
  by (simp_all add: list_ok_def new_list_def elems_def)

lemma list_ok_fresh: "list_ok l \<Longrightarrow> deref l (next_node l) = None"
  by (auto simp: list_ok_def deref_def map_of_eq_None_iff)

lemma deref_iff: "list_ok l \<Longrightarrow> deref l it = Some x \<longleftrightarrow> (it, x) \<in> set (nodes l)"
  by (simp add: list_ok_def deref_def)

lemma list_okD:
  assumes "list_ok l"
  shows "distinct (map fst (nodes l))" "(i, x) \<in> set (nodes l) \<Longrightarrow> i < next_node l" "next_node l \<notin> fst ` set (nodes l)"
  using assms by (auto simp: list_ok_def)

lemma push_back_ok:
  assumes "list_ok l" and "push_back l x = (it, l')"
  shows "list_ok l'" "elems l' = elems l @ [x]" "it = next_node l" "deref l' = (deref l)(it \<mapsto> x)"
proof -
  have l': "it = next_node l" "nodes l' = nodes l @ [(it, x)]" "next_node l' = next_node l + 1"
    using assms(2) by (auto simp: push_back_def)
  show "list_ok l'" using assms(1) l' by (force simp: list_ok_def)
  show "elems l' = elems l @ [x]" "it = next_node l" using l' by (simp_all add: elems_def)
  show "deref l' = (deref l)(it \<mapsto> x)"
    using list_ok_fresh [OF assms(1)] l' by (auto simp: deref_def fun_eq_iff map_add_def split: option.split)
qed

lemma push_front_ok:
  assumes "list_ok l" and "push_front l x = (it, l')"
  shows "list_ok l'" "elems l' = x # elems l" "it = next_node l" "deref l' = (deref l)(it \<mapsto> x)"
proof -
  have l': "it = next_node l" "nodes l' = (it, x) # nodes l" "next_node l' = next_node l + 1"
    using assms(2) by (auto simp: push_front_def)
  show "list_ok l'" using assms(1) l' by (force simp: list_ok_def)
  show "elems l' = x # elems l" "it = next_node l" "deref l' = (deref l)(it \<mapsto> x)"
    using l' by (auto simp: elems_def deref_def)
qed

lemma map_of_filter_node: "map_of (filter (\<lambda>n. fst n \<noteq> it) ns) = (map_of ns)(it := None)"
  by (induction ns) auto

lemma erase_node_ok:
  assumes "list_ok l" and "erase_node l it = Some (nx, l')"
  shows "list_ok l'" "deref l' = (deref l)(it := None)" "nodes l' = filter (\<lambda>n. fst n \<noteq> it) (nodes l)"
    "next_node l' = next_node l"
  using assms by (force simp: erase_node_def list_ok_def deref_def map_of_filter_node distinct_map_filter split: if_splits)+

lemma erase_node_valid: "deref l it = Some x \<Longrightarrow> \<exists>nx l'. erase_node l it = Some (nx, l')"
  by (simp add: erase_node_def)

section \<open>Lists with an index\<close>

text \<open>
  Two containers keep a list of key-value pairs and a map from keys to list iterators. The
  invariant: the keys are distinct and the map points at exactly the nodes of the list.
\<close>

definition index_ok :: "('k \<rightharpoonup> nat) \<Rightarrow> ('k \<times> 'v) stdlist \<Rightarrow> bool" where
  "index_ok m l \<longleftrightarrow> list_ok l \<and> distinct (map fst (elems l)) \<and>
     (\<forall>k it. m k = Some it \<longleftrightarrow> (\<exists>v. deref l it = Some (k, v)))"

lemma index_okD:
  assumes "index_ok m l"
  shows "list_ok l" "distinct (map fst (elems l))" "m k = Some it \<longleftrightarrow> (\<exists>v. deref l it = Some (k, v))"
  using assms by (auto simp: index_ok_def)

lemma index_ok_new: "index_ok Map.empty new_list"
  by (simp add: index_ok_def) (simp add: deref_def new_list_def)

lemma deref_elem: "list_ok l \<Longrightarrow> (\<exists>it. deref l it = Some x) \<longleftrightarrow> x \<in> set (elems l)"
  by (force simp: deref_iff elems_def)

lemma index_lookup:
  assumes "index_ok m l"
  shows "map_option snd (case m k of None \<Rightarrow> None | Some it \<Rightarrow> deref l it) = map_of (elems l) k"
proof (cases "m k")
  case None
  then have "k \<notin> fst ` set (elems l)"
    using index_okD(3) [OF assms, of k] deref_elem [OF index_okD(1) [OF assms]] by fastforce
  then have "map_of (elems l) k = None" by (simp add: map_of_eq_None_iff)
  with None show ?thesis by simp
next
  case (Some it)
  then obtain v where v: "deref l it = Some (k, v)" using index_okD(3) [OF assms] by blast
  then have "(k, v) \<in> set (elems l)" using deref_elem [OF index_okD(1) [OF assms]] by blast
  then have "map_of (elems l) k = Some v" using index_okD(2) [OF assms] by simp
  with Some v show ?thesis by simp
qed

lemma index_key: "index_ok m l \<Longrightarrow> deref l it = Some (k, v) \<Longrightarrow> m k = Some it"
  by (auto simp: index_okD(3))

lemma index_deref: "index_ok m l \<Longrightarrow> m k = Some it \<Longrightarrow> \<exists>v. deref l it = Some (k, v)"
  by (simp add: index_okD(3))

lemma index_okI:
  assumes "list_ok l" and "distinct (map fst (elems l))" and "\<And>k it. m k = Some it \<Longrightarrow> \<exists>v. deref l it = Some (k, v)"
    and "\<And>k it v. deref l it = Some (k, v) \<Longrightarrow> m k = Some it"
  shows "index_ok m l"
  using assms by (auto simp: index_ok_def)

lemma index_None_iff:
  assumes "index_ok m l"
  shows "m k = None \<longleftrightarrow> k \<notin> fst ` set (elems l)"
proof (cases "m k")
  case None
  then have "map_of (elems l) k = None" using index_lookup [OF assms, of k] by simp
  with None show ?thesis by (simp add: map_of_eq_None_iff)
next
  case (Some it)
  then obtain v where "deref l it = Some (k, v)" using index_okD(3) [OF assms] by blast
  with Some have "map_of (elems l) k = Some v" using index_lookup [OF assms, of k] by simp
  with Some show ?thesis using map_of_eq_None_iff [of "elems l" k] by simp
qed

lemma index_push_back:
  assumes "index_ok m l" and "m k = None" and "push_back l (k, v) = (it, l')"
  shows "index_ok (m(k \<mapsto> it)) l'"
proof -
  have "deref l it = None" 
    using push_back_ok(3) [OF index_okD(1) [OF assms(1)] assms(3)] list_ok_fresh [OF index_okD(1) [OF assms(1)]] by simp
  then show ?thesis
    using push_back_ok [OF index_okD(1) [OF assms(1)] assms(3)] index_okD(1,2) [OF assms(1)] index_None_iff [OF assms(1), of k] assms(2)
    by (intro index_okI) (auto split: if_splits dest: index_key [OF assms(1)] index_deref [OF assms(1)])
qed

lemma index_push_front:
  assumes "index_ok m l" and "m k = None" and "push_front l (k, v) = (it, l')"
  shows "index_ok (m(k \<mapsto> it)) l'"
proof -
  have "deref l it = None" 
    using push_front_ok(3) [OF index_okD(1) [OF assms(1)] assms(3)] list_ok_fresh [OF index_okD(1) [OF assms(1)]] by simp
  then show ?thesis
    using push_front_ok [OF index_okD(1) [OF assms(1)] assms(3)] index_okD(1,2) [OF assms(1)] index_None_iff [OF assms(1), of k] assms(2)
    by (intro index_okI) (auto split: if_splits dest: index_key [OF assms(1)] index_deref [OF assms(1)])
qed

text \<open>Dropping the node of a key from the nodes is dropping the key from the elements.\<close>

lemma elems_drop_node:
  assumes "list_ok l" and "distinct (map fst (elems l))" and "deref l it = Some (k, v)"
  shows "map snd (filter (\<lambda>n. fst n \<noteq> it) (nodes l)) = filter (\<lambda>x. fst x \<noteq> k) (elems l)"
proof -
  have "fst n \<noteq> it \<longleftrightarrow> fst (snd n) \<noteq> k" if n: "n \<in> set (nodes l)" for n
  proof -
    have "(it, (k, v)) \<in> set (nodes l)" using assms by (simp add: deref_iff)
    moreover have "inj_on fst (set (nodes l))"
      using assms(1) by (simp add: list_ok_def distinct_map)
    moreover have "inj_on (fst \<circ> snd) (set (nodes l))"
      using assms(2) by (simp add: elems_def distinct_map)
    ultimately show ?thesis using n inj_onD [of _ "set (nodes l)" n "(it, (k, v))"] by (metis comp_apply fst_conv snd_conv)
  qed
  then have "filter (\<lambda>n. fst n \<noteq> it) (nodes l) = filter (\<lambda>n. fst (snd n) \<noteq> k) (nodes l)"
    by (rule filter_cong [OF refl])
  then show ?thesis by (simp add: elems_def filter_map o_def)
qed

lemma index_erase:
  assumes "index_ok m l" and "m k = Some it"
  shows "\<exists>nx l'. erase_node l it = Some (nx, l') \<and> index_ok (m(k := None)) l' \<and>
    elems l' = filter (\<lambda>x. fst x \<noteq> k) (elems l)"
proof -
  note ok = index_okD [OF assms(1)]
  obtain v where v: "deref l it = Some (k, v)" using ok(3) assms(2) by blast
  then obtain nx l' where l': "erase_node l it = Some (nx, l')" using erase_node_valid [OF v] by auto
  note e = erase_node_ok [OF ok(1) l']
  have el: "elems l' = filter (\<lambda>x. fst x \<noteq> k) (elems l)"
    using elems_drop_node [OF ok(1,2) v] e(3) by (simp add: elems_def)
  have "index_ok (m(k := None)) l'"
    using e el ok(1,2) v assms(2)
    by (intro index_okI) (auto simp: distinct_map_filter split: if_splits dest: index_key [OF assms(1)] index_deref [OF assms(1)])
  with l' el show ?thesis by blast
qed

lemma index_splice:
  assumes "index_ok m l" and "m k = Some it"
  shows "\<exists>v l'. deref l it = Some (k, v) \<and> splice_front l it = Some l' \<and> index_ok m l' \<and>
    elems l' = (k, v) # filter (\<lambda>x. fst x \<noteq> k) (elems l) \<and> list_begin l' = Some it"
proof -
  note ok = index_okD [OF assms(1)]
  obtain v where v: "deref l it = Some (k, v)" using ok(3) assms(2) by blast
  define l' where "l' = l\<lparr>nodes := (it, (k, v)) # filter (\<lambda>n. fst n \<noteq> it) (nodes l)\<rparr>"
  have d: "deref l' = deref l"
    using v by (auto simp: l'_def deref_def map_of_filter_node)
  have "list_ok l'"
    using ok(1) v list_okD(2) [OF ok(1), of it "(k, v)"]
    by (auto simp: l'_def list_ok_def distinct_map_filter deref_iff)
  moreover have "elems l' = (k, v) # filter (\<lambda>x. fst x \<noteq> k) (elems l)"
    using elems_drop_node [OF ok(1,2) v] by (simp add: l'_def elems_def)
  ultimately show ?thesis
    using v d ok by (auto simp: splice_front_def l'_def [symmetric] index_ok_def distinct_map_filter)
      (simp add: l'_def list_begin_def)
qed

end
