(* ===== verification/LinkedHashMap.thy ===== *)
theory LinkedHashMap
  imports StdList
begin

text \<open>
  base2/linked_hash_map.h: a hash map that remembers the order of insertion. A list of key-value
  pairs is what is traversed; a hash_map takes a key to its list iterator.

  An operation that dereferences an invalid iterator, or the end iterator of the hash_map, has the
  value None; so has a failed CHECK. The order in which the hash_map iterates is a parameter of
  equal_range, the only member function that sees it.
\<close>

section \<open>Definitions\<close>

record ('k, 'v) linked_hash_map =
  map_index :: "'k \<rightharpoonup> nat"
  list_of :: "('k \<times> 'v) stdlist"

definition new_linked_hash_map :: "('k, 'v) linked_hash_map" where
  "new_linked_hash_map = \<lparr>map_index = Map.empty, list_of = new_list\<rparr>"

definition lhm_begin :: "('k, 'v) linked_hash_map \<Rightarrow> iter" where
  "lhm_begin h = list_begin (list_of h)"

definition lhm_front :: "('k, 'v) linked_hash_map \<Rightarrow> ('k \<times> 'v) option" where
  "lhm_front h = (case nodes (list_of h) of [] \<Rightarrow> None | n # _ \<Rightarrow> Some (snd n))"

definition lhm_back :: "('k, 'v) linked_hash_map \<Rightarrow> ('k \<times> 'v) option" where
  "lhm_back h = (if nodes (list_of h) = [] then None else Some (snd (last (nodes (list_of h)))))"

definition lhm_clear :: "('k, 'v) linked_hash_map \<Rightarrow> ('k, 'v) linked_hash_map" where
  "lhm_clear h = h\<lparr>map_index := Map.empty, list_of := (list_of h)\<lparr>nodes := []\<rparr>\<rparr>"

definition lhm_empty :: "('k, 'v) linked_hash_map \<Rightarrow> bool" where
  "lhm_empty h \<longleftrightarrow> nodes (list_of h) = []"

definition lhm_size :: "('k, 'v) linked_hash_map \<Rightarrow> nat" where
  "lhm_size h = length (nodes (list_of h))"

definition lhm_erase_key :: "('k, 'v) linked_hash_map \<Rightarrow> 'k \<Rightarrow> (nat \<times> ('k, 'v) linked_hash_map) option" where
  "lhm_erase_key h key =
     (case map_index h key of
        None \<Rightarrow> Some (0, h)
      | Some it \<Rightarrow> do {
          (_, l) \<leftarrow> erase_node (list_of h) it;
          Some (1, h\<lparr>list_of := l, map_index := (map_index h)(key := None)\<rparr>)
        })"

definition lhm_erase_iter :: "('k, 'v) linked_hash_map \<Rightarrow> nat \<Rightarrow> ('k, 'v) linked_hash_map option" where
  "lhm_erase_iter h position = do {
     (key, _) \<leftarrow> deref (list_of h) position;
     found \<leftarrow> map_index h key;
     dcheck (found = position);
     (_, l) \<leftarrow> erase_node (list_of h) position;
     Some (h\<lparr>list_of := l, map_index := (map_index h)(key := None)\<rparr>)
   }"

lemma lhm_erase_iter_smaller:
  "lhm_erase_iter h i = Some h' \<Longrightarrow> length (nodes (list_of h')) < length (nodes (list_of h))"
  by (auto simp: lhm_erase_iter_def erase_node_def deref_def bind_eq_Some_conv split: if_splits
      intro!: length_filter_less dest!: map_of_SomeD)

function lhm_erase_range :: "('k, 'v) linked_hash_map \<Rightarrow> iter \<Rightarrow> iter \<Rightarrow> ('k, 'v) linked_hash_map option" where
  "lhm_erase_range h first_it last_it =
     (case first_it of
        None \<Rightarrow> Some h
      | Some i \<Rightarrow>
          if first_it = last_it then Some h
          else (case lhm_erase_iter h i of
                  None \<Rightarrow> None
                | Some h' \<Rightarrow> lhm_erase_range h' (node_after (nodes (list_of h)) i) last_it))"
  by pat_completeness auto
termination
  by (relation "measure (\<lambda>(h, _, _). length (nodes (list_of h)))") (auto dest: lhm_erase_iter_smaller)

declare lhm_erase_range.simps [simp del]

definition lhm_find :: "('k, 'v) linked_hash_map \<Rightarrow> 'k \<Rightarrow> iter" where
  "lhm_find h key = (case map_index h key of None \<Rightarrow> None | Some it \<Rightarrow> Some it)"

text \<open>
  map_.equal_range(key) is the element of the key and the one the hash_map iterates next
  (hash_next), or twice end() when the key is missing. The non-const overload dereferences both
  without a test.
\<close>

definition lhm_equal_range :: "('k \<Rightarrow> 'k option) \<Rightarrow> ('k, 'v) linked_hash_map \<Rightarrow> 'k \<Rightarrow> (iter \<times> iter) option" where
  "lhm_equal_range hash_next h key =
     (case map_index h key of
        None \<Rightarrow> None
      | Some it \<Rightarrow>
          (case hash_next key of
             None \<Rightarrow> None
           | Some k2 \<Rightarrow> map_option (\<lambda>it2. (Some it, Some it2)) (map_index h k2)))"

definition lhm_equal_range_const :: "('k \<Rightarrow> 'k option) \<Rightarrow> ('k, 'v) linked_hash_map \<Rightarrow> 'k \<Rightarrow> (iter \<times> iter) option" where
  "lhm_equal_range_const hash_next h key =
     (case map_index h key of
        None \<Rightarrow> Some (None, None)
      | Some it \<Rightarrow>
          (case hash_next key of
             None \<Rightarrow> Some (Some it, None)
           | Some k2 \<Rightarrow> map_option (\<lambda>it2. (Some it, Some it2)) (map_index h k2)))"

definition lhm_insert :: "('k, 'v) linked_hash_map \<Rightarrow> 'k \<times> 'v \<Rightarrow> (nat \<times> bool \<times> ('k, 'v) linked_hash_map) option" where
  "lhm_insert h pair =
     (case map_index h (fst pair) of
        Some it \<Rightarrow> Some (it, False, h)
      | None \<Rightarrow>
          (let (it, l) = push_back (list_of h) pair in do {
             dcheck (map_index h (fst pair) = None);
             Some (it, True, h\<lparr>list_of := l, map_index := (map_index h)(fst pair \<mapsto> it)\<rparr>)
           }))"

text \<open>operator[] returns a reference; the value is read or assigned through it.\<close>

definition lhm_index :: "'v \<Rightarrow> ('k, 'v) linked_hash_map \<Rightarrow> 'k \<Rightarrow> (nat \<times> ('k, 'v) linked_hash_map) option" where
  "lhm_index dflt h key = do { (it, _, h') \<leftarrow> lhm_insert h (key, dflt); Some (it, h') }"

definition lhm_assign :: "'v \<Rightarrow> ('k, 'v) linked_hash_map \<Rightarrow> 'k \<Rightarrow> 'v \<Rightarrow> ('k, 'v) linked_hash_map option" where
  "lhm_assign dflt h key value = do {
     (it, h') \<leftarrow> lhm_index dflt h key;
     (k, _) \<leftarrow> deref (list_of h') it;
     l \<leftarrow> set_node (list_of h') it (k, value);
     Some (h'\<lparr>list_of := l\<rparr>)
   }"

definition lhm_swap :: "('k, 'v) linked_hash_map \<Rightarrow> ('k, 'v) linked_hash_map \<Rightarrow>
    ('k, 'v) linked_hash_map \<times> ('k, 'v) linked_hash_map" where
  "lhm_swap h other = (other, h)"

section \<open>The map as an association list\<close>

definition lhm_ok :: "('k, 'v) linked_hash_map \<Rightarrow> bool" where
  "lhm_ok h \<longleftrightarrow> index_ok (map_index h) (list_of h)"

definition lhm_abs :: "('k, 'v) linked_hash_map \<Rightarrow> ('k \<times> 'v) list" where
  "lhm_abs h = elems (list_of h)"

fun alist_assign :: "('k \<times> 'v) list \<Rightarrow> 'k \<Rightarrow> 'v \<Rightarrow> ('k \<times> 'v) list" where
  "alist_assign [] k v = [(k, v)]"
| "alist_assign ((k', v') # xs) k v = (if k' = k then (k, v) # xs else (k', v') # alist_assign xs k v)"

lemma alist_assign_new: "k \<notin> fst ` set xs \<Longrightarrow> alist_assign xs k v = xs @ [(k, v)]"
  by (induction xs k v rule: alist_assign.induct) auto

lemma alist_assign_old:
  "distinct (map fst xs) \<Longrightarrow> k \<in> fst ` set xs \<Longrightarrow> alist_assign xs k v = map (\<lambda>x. if fst x = k then (k, v) else x) xs"
proof (induction xs k v rule: alist_assign.induct)
  case (2 k' v' xs k v)
  then have "k' = k \<Longrightarrow> map (\<lambda>x. if fst x = k then (k, v) else x) xs = xs"
    by (intro map_idI) (auto simp: image_iff)
  with 2 show ?case by auto
qed auto

lemma lhm_insert_ok:
  assumes "lhm_ok h"
  shows "\<exists>it h'. lhm_insert h (k, v) = Some (it, k \<notin> fst ` set (lhm_abs h), h') \<and> lhm_ok h' \<and>
    map_index h' k = Some it \<and> lhm_abs h' = (if k \<in> fst ` set (lhm_abs h) then lhm_abs h else lhm_abs h @ [(k, v)])"
proof (cases "map_index h k")
  case None
  have ok: "index_ok (map_index h) (list_of h)" using assms by (simp add: lhm_ok_def)
  obtain it l where l: "push_back (list_of h) (k, v) = (it, l)" by fastforce
  have "index_ok ((map_index h)(k \<mapsto> it)) l" and "elems l = elems (list_of h) @ [(k, v)]"
    using index_push_back [OF ok None l] push_back_ok(2) [OF index_okD(1) [OF ok] l] by auto
  moreover have "k \<notin> fst ` set (elems (list_of h))"
    using None index_None_iff [OF ok] by simp
  ultimately show ?thesis using None l by (simp add: lhm_insert_def lhm_ok_def lhm_abs_def)
next
  case (Some it)
  then have "k \<in> fst ` set (elems (list_of h))"
    using index_None_iff [of "map_index h" "list_of h" k] assms by (auto simp: lhm_ok_def)
  with Some assms show ?thesis by (simp add: lhm_insert_def lhm_abs_def)
qed

lemma lhm_erase_key_ok:
  assumes "lhm_ok h"
  shows "\<exists>h'. lhm_erase_key h k = Some (if k \<in> fst ` set (lhm_abs h) then 1 else 0, h') \<and> lhm_ok h' \<and>
    lhm_abs h' = filter (\<lambda>x. fst x \<noteq> k) (lhm_abs h)"
proof (cases "map_index h k")
  case None
  then have "k \<notin> fst ` set (elems (list_of h))"
    using index_None_iff [of "map_index h" "list_of h" k] assms by (simp add: lhm_ok_def)
  then have "filter (\<lambda>x. fst x \<noteq> k) (elems (list_of h)) = elems (list_of h)" by (force simp: filter_id_conv)
  with None \<open>k \<notin> _\<close> assms show ?thesis by (simp add: lhm_erase_key_def lhm_abs_def)
next
  case (Some it)
  then have "k \<in> fst ` set (elems (list_of h))"
    using index_None_iff [of "map_index h" "list_of h" k] assms by (auto simp: lhm_ok_def)
  with Some show ?thesis
    using index_erase [of "map_index h" "list_of h" k it] assms by (auto simp: lhm_erase_key_def lhm_ok_def lhm_abs_def)
qed

lemma map_of_set_node: "map_of (map (\<lambda>n. if fst n = it then (it, x) else n) ns) =
    (if map_of ns it = None then map_of ns else (map_of ns)(it \<mapsto> x))"
  by (induction ns) auto

lemma set_node_ok:
  assumes "index_ok m l" and "deref l it = Some (k, v0)"
  shows "\<exists>l'. set_node l it (k, v) = Some l' \<and> index_ok m l' \<and>
    elems l' = map (\<lambda>x. if fst x = k then (k, v) else x) (elems l)"
proof -
  note ok = index_okD [OF assms(1)]
  define l' where "l' = l\<lparr>nodes := map (\<lambda>n. if fst n = it then (it, (k, v)) else n) (nodes l)\<rparr>"
  have d: "deref l' = (deref l)(it \<mapsto> (k, v))"
    using assms(2) by (auto simp: l'_def deref_def map_of_set_node fun_eq_iff)
  have "map fst (nodes l') = map fst (nodes l)" by (auto simp: l'_def)
  moreover have "\<forall>n \<in> set (nodes l'). fst n < next_node l'"
    using ok(1) by (auto simp: l'_def list_ok_def)
  ultimately have "list_ok l'"
    using ok(1) by (simp add: list_ok_def)
  moreover have "(if fst n = it then (it, (k, v)) else n) = (fst n, if fst (snd n) = k then (k, v) else snd n)"
    if n: "n \<in> set (nodes l)" for n
    using index_key [OF assms(1)] index_key [OF assms(1) assms(2)] deref_iff [OF ok(1)] n assms(2)
    by (cases n) (auto, metis option.inject, metis option.inject prod.inject)
  then have el: "elems l' = map (\<lambda>x. if fst x = k then (k, v) else x) (elems l)"
    by (auto simp: l'_def elems_def)
  moreover have "map fst (elems l') = map fst (elems l)"
    unfolding el by (auto simp: o_def)
  then have "distinct (map fst (elems l'))" using ok(2) by simp
  moreover have "\<exists>v'. deref l' j = Some (k', v')" if "m k' = Some j" for k' j
    using index_deref [OF assms(1) that] d assms(2) by (cases "j = it") auto
  moreover have "m k' = Some j" if "deref l' j = Some (k', v')" for k' j v'
    using that d index_key [OF assms(1), of j k'] index_key [OF assms(1,2)] by (cases "j = it") auto
  ultimately have "index_ok m l'" by (intro index_okI)
  moreover have "set_node l it (k, v) = Some l'" using assms(2) by (simp add: set_node_def l'_def)
  ultimately show ?thesis using el by blast
qed

lemma lhm_assign_ok:
  assumes "lhm_ok h"
  shows "\<exists>h'. lhm_assign dflt h k v = Some h' \<and> lhm_ok h' \<and> lhm_abs h' = alist_assign (lhm_abs h) k v"
proof -
  obtain it h1 where h1: "lhm_insert h (k, dflt) = Some (it, k \<notin> fst ` set (lhm_abs h), h1)" "lhm_ok h1"
      "map_index h1 k = Some it"
      "lhm_abs h1 = (if k \<in> fst ` set (lhm_abs h) then lhm_abs h else lhm_abs h @ [(k, dflt)])"
    using lhm_insert_ok [OF assms] by blast
  obtain v0 where v0: "deref (list_of h1) it = Some (k, v0)"
    using index_deref [of "map_index h1" "list_of h1" k it] h1(2,3) by (auto simp: lhm_ok_def)
  obtain l where l: "set_node (list_of h1) it (k, v) = Some l" "index_ok (map_index h1) l"
      "elems l = map (\<lambda>x. if fst x = k then (k, v) else x) (lhm_abs h1)"
    using set_node_ok [OF _ v0] h1(2) by (auto simp: lhm_ok_def lhm_abs_def)
  have "map (\<lambda>x. if fst x = k then (k, v) else x) (lhm_abs h) = lhm_abs h" if "k \<notin> fst ` set (lhm_abs h)"
    using that by (intro map_idI) auto
  then have "elems l = alist_assign (lhm_abs h) k v"
    using l(3) h1(4) index_okD(2) [of "map_index h" "list_of h"] assms
    by (auto simp: alist_assign_new alist_assign_old lhm_ok_def lhm_abs_def)
  then show ?thesis
    using h1(1) v0 l(1,2) by (simp add: lhm_assign_def lhm_index_def lhm_ok_def lhm_abs_def)
qed

lemma lhm_find_ok:
  "lhm_ok h \<Longrightarrow> map_option snd (case lhm_find h k of None \<Rightarrow> None | Some it \<Rightarrow> deref (list_of h) it) = map_of (lhm_abs h) k"
  using index_lookup [of "map_index h" "list_of h" k] by (cases "map_index h k") (auto simp: lhm_ok_def lhm_find_def lhm_abs_def)

lemma lhm_clear_ok: "lhm_ok h \<Longrightarrow> lhm_ok (lhm_clear h) \<and> lhm_abs (lhm_clear h) = []"
  by (auto simp: lhm_ok_def lhm_abs_def lhm_clear_def elems_def deref_def list_ok_def index_ok_def)

lemma lhm_new_ok: "lhm_ok new_linked_hash_map" "lhm_abs new_linked_hash_map = []"
  using index_ok_new by (auto simp: lhm_ok_def lhm_abs_def new_linked_hash_map_def)

section \<open>Erasing a range\<close>

lemma lhm_erase_iter_ok:
  assumes "lhm_ok h" and "nodes (list_of h) = xs @ (i, kv) # ys"
  shows "\<exists>h'. lhm_erase_iter h i = Some h' \<and> lhm_ok h' \<and> nodes (list_of h') = xs @ ys"
proof -
  have ok: "index_ok (map_index h) (list_of h)" using assms(1) by (simp add: lhm_ok_def)
  obtain k v where kv: "kv = (k, v)" by fastforce
  have d: "deref (list_of h) i = Some (k, v)"
    using deref_iff [OF index_okD(1) [OF ok]] assms(2) kv by simp
  have m: "map_index h k = Some i" by (rule index_key [OF ok d])
  then obtain nx l where l: "erase_node (list_of h) i = Some (nx, l)" "index_ok ((map_index h)(k := None)) l"
    using index_erase [OF ok m] by blast
  have "i \<notin> fst ` set xs" "i \<notin> fst ` set ys"
    using list_okD(1) [OF index_okD(1) [OF ok]] assms(2) by auto
  then have "filter (\<lambda>n. fst n \<noteq> i) xs = xs" "filter (\<lambda>n. fst n \<noteq> i) ys = ys"
    by (auto intro!: filter_True)
  then have "filter (\<lambda>n. fst n \<noteq> i) (xs @ (i, kv) # ys) = xs @ ys" by simp
  then have "nodes l = xs @ ys" using erase_node_ok(3) [OF index_okD(1) [OF ok] l(1)] assms(2) by simp
  with d m l show ?thesis by (simp add: lhm_erase_iter_def lhm_ok_def)
qed

lemma node_after_split: "distinct (map fst (xs @ (i, x) # ys)) \<Longrightarrow>
    node_after (xs @ (i, x) # ys) i = (case ys of [] \<Rightarrow> None | y # _ \<Rightarrow> Some (fst y))"
proof (induction xs)
  case Nil
  then show ?case by (cases ys) auto
next
  case (Cons a xs)
  then show ?case by (cases xs; cases a) auto
qed

definition first_node :: "(nat \<times> 'a) list \<Rightarrow> iter" where
  "first_node ns = (case ns of [] \<Rightarrow> None | n # _ \<Rightarrow> Some (fst n))"

text \<open>
  erase(first, last) removes the nodes from first up to last, and only those.
\<close>

lemma lhm_erase_range_ok:
  "lhm_ok h \<Longrightarrow> nodes (list_of h) = xs @ ys @ zs \<Longrightarrow>
     \<exists>h'. lhm_erase_range h (first_node (ys @ zs)) (first_node zs) = Some h' \<and> lhm_ok h' \<and>
       nodes (list_of h') = xs @ zs"
proof (induction ys arbitrary: h)
  case Nil
  then show ?case by (subst lhm_erase_range.simps) (auto split: option.split)
next
  case (Cons y ys)
  obtain i kv where y: "y = (i, kv)" by (cases y) auto
  obtain h1 where h1: "lhm_erase_iter h i = Some h1" "lhm_ok h1" "nodes (list_of h1) = xs @ ys @ zs"
    using lhm_erase_iter_ok [OF Cons.prems(1), of xs i kv "ys @ zs"] Cons.prems(2) y by auto
  have dist: "distinct (map fst (xs @ (i, kv) # ys @ zs))"
    using list_okD(1) [OF index_okD(1) [of "map_index h" "list_of h"]] Cons.prems y by (simp add: lhm_ok_def)
  then have "Some i \<noteq> first_node zs" by (auto simp: first_node_def split: list.splits)
  moreover have "node_after (nodes (list_of h)) i = first_node (ys @ zs)"
    using node_after_split [OF dist] Cons.prems(2) y by (simp add: first_node_def)
  ultimately show ?case
    using Cons.IH [OF h1(2,3)] h1(1) y by (subst lhm_erase_range.simps) (simp add: first_node_def)
qed

text \<open>
  For a missing key the const overload of equal_range gives the empty range; the other one
  dereferences the end iterator of the hash_map, also for a key the hash_map iterates last.
\<close>

lemma lhm_equal_range_end:
  "map_index h k = None \<Longrightarrow> lhm_equal_range hash_next h k = None \<and> lhm_equal_range_const hash_next h k = Some (None, None)"
  "map_index h k = Some it \<Longrightarrow> hash_next k = None \<Longrightarrow>
     lhm_equal_range hash_next h k = None \<and> lhm_equal_range_const hash_next h k = Some (Some it, None)"
  by (simp_all add: lhm_equal_range_def lhm_equal_range_const_def)

section \<open>Properties\<close>

datatype ('k, 'v) lhm_op = Insert 'k 'v | Assign 'k 'v | Lookup 'k | EraseKey 'k | Clear

datatype 'v lhm_out = Done | Inserted bool | Found "'v option" | Erased nat

fun lhm_step :: "'v \<Rightarrow> ('k, 'v) lhm_op \<Rightarrow> ('k, 'v) linked_hash_map \<Rightarrow> ('v lhm_out \<times> ('k, 'v) linked_hash_map) option" where
  "lhm_step d (Insert k v) h = do { (it, b, h') \<leftarrow> lhm_insert h (k, v); Some (Inserted b, h') }"
| "lhm_step d (Assign k v) h = do { h' \<leftarrow> lhm_assign d h k v; Some (Done, h') }"
| "lhm_step d (Lookup k) h =
     (case lhm_find h k of
        None \<Rightarrow> Some (Found None, h)
      | Some it \<Rightarrow> do { (k', v) \<leftarrow> deref (list_of h) it; Some (Found (Some v), h) })"
| "lhm_step d (EraseKey k) h = do { (n, h') \<leftarrow> lhm_erase_key h k; Some (Erased n, h') }"
| "lhm_step d Clear h = Some (Done, lhm_clear h)"

text \<open>The same operations on an association list in the order of insertion.\<close>

fun alist_step :: "('k, 'v) lhm_op \<Rightarrow> ('k \<times> 'v) list \<Rightarrow> 'v lhm_out \<times> ('k \<times> 'v) list" where
  "alist_step (Insert k v) xs = (Inserted (k \<notin> fst ` set xs), if k \<in> fst ` set xs then xs else xs @ [(k, v)])"
| "alist_step (Assign k v) xs = (Done, alist_assign xs k v)"
| "alist_step (Lookup k) xs = (Found (map_of xs k), xs)"
| "alist_step (EraseKey k) xs = (Erased (if k \<in> fst ` set xs then 1 else 0), filter (\<lambda>x. fst x \<noteq> k) xs)"
| "alist_step Clear xs = (Done, [])"

primrec lhm_run :: "'v \<Rightarrow> ('k, 'v) lhm_op list \<Rightarrow> ('k, 'v) linked_hash_map \<Rightarrow> ('v lhm_out list \<times> ('k, 'v) linked_hash_map) option" where
  "lhm_run d [] h = Some ([], h)"
| "lhm_run d (op # ops) h = do { (r, h1) \<leftarrow> lhm_step d op h; (rs, h2) \<leftarrow> lhm_run d ops h1; Some (r # rs, h2) }"

primrec alist_run :: "('k, 'v) lhm_op list \<Rightarrow> ('k \<times> 'v) list \<Rightarrow> 'v lhm_out list \<times> ('k \<times> 'v) list" where
  "alist_run [] xs = ([], xs)"
| "alist_run (op # ops) xs = (let (r, xs1) = alist_step op xs; (rs, xs2) = alist_run ops xs1 in (r # rs, xs2))"

lemma lhm_step_refines:
  assumes "lhm_ok h"
  shows "\<exists>h'. lhm_step d op h = Some (fst (alist_step op (lhm_abs h)), h') \<and> lhm_ok h' \<and>
    lhm_abs h' = snd (alist_step op (lhm_abs h))"
proof (cases op)
  case (Insert k v)
  then show ?thesis using lhm_insert_ok [OF assms, of k v] by (auto split del: if_split)
next
  case (Assign k v)
  then show ?thesis using lhm_assign_ok [OF assms, of d k v] by auto
next
  case (Lookup k)
  have "index_ok (map_index h) (list_of h)" using assms by (simp add: lhm_ok_def)
  then show ?thesis
    using Lookup lhm_find_ok [OF assms, of k] index_deref [of "map_index h" "list_of h" k] assms
    by (cases "map_index h k") (auto simp: lhm_find_def)
next
  case (EraseKey k)
  then show ?thesis using lhm_erase_key_ok [OF assms, of k] by (auto split del: if_split)
next
  case Clear
  then show ?thesis using lhm_clear_ok [OF assms] by auto
qed

lemma lhm_run_refines:
  "lhm_ok h \<Longrightarrow> \<exists>h'. lhm_run d ops h = Some (fst (alist_run ops (lhm_abs h)), h') \<and> lhm_ok h' \<and>
    lhm_abs h' = snd (alist_run ops (lhm_abs h))"
proof (induction ops arbitrary: h)
  case (Cons op ops)
  obtain h1 where h1: "lhm_step d op h = Some (fst (alist_step op (lhm_abs h)), h1)" "lhm_ok h1"
      "lhm_abs h1 = snd (alist_step op (lhm_abs h))"
    using lhm_step_refines [OF Cons.prems] by blast
  with Cons.IH [OF h1(2)] show ?case by (auto simp: split_beta)
qed auto

text \<open>
  C36: every sequence of insertions, assignments through operator[], lookups, erasures and clears
  behaves on a linked_hash_map exactly as on an association list in the order of insertion: all
  results agree, the traversal order agrees, no CHECK fails, and no iterator kept in the index is
  ever invalid.
\<close>

theorem linked_hash_map_refines:
  "\<exists>h. lhm_run d ops new_linked_hash_map = Some (fst (alist_run ops []), h) \<and>
     index_ok (map_index h) (list_of h) \<and> elems (list_of h) = snd (alist_run ops []) \<and>
     lhm_size h = length (snd (alist_run ops []))"
proof -
  obtain h where "lhm_run d ops new_linked_hash_map = Some (fst (alist_run ops []), h)" "lhm_ok h"
      "lhm_abs h = snd (alist_run ops [])"
    using lhm_run_refines [OF lhm_new_ok(1), of d ops] unfolding lhm_new_ok(2) by blast
  then show ?thesis by (auto simp: lhm_ok_def lhm_abs_def lhm_size_def elems_def) (metis length_map)
qed

end
