(* ===== verification/LinkedMap.thy ===== *)
theory LinkedMap
  imports LinkedHashMap
begin

text \<open>
  base2/linked_map.h: a map that remembers the order of insertion, a std::list of pairs with a
  std::set of its iterators, which compares the keys the iterators point at. The set is modelled as
  a list of iterators without equivalent elements, in no particular order (only its size and its
  lookups are used), and keys are compared by a linear order, as std::less does.

  Dereferencing an iterator that points at no node is the value None.
\<close>

section \<open>Definitions\<close>

record ('k, 'v) linked_map =
  the_list :: "('k \<times> 'v) stdlist"
  the_set :: "nat list"

definition new_linked_map :: "('k, 'v) linked_map" where
  "new_linked_map = \<lparr>the_list = new_list, the_set = []\<rparr>"

text \<open>
  Lookup in the set: the sources put the key into a list of one element to have an iterator to look
  for. Two iterators are equivalent when neither key is less.
\<close>

definition equivalent :: "('k::linorder \<times> 'v) stdlist \<Rightarrow> 'k \<Rightarrow> nat \<Rightarrow> bool" where
  "equivalent l k it = (case deref l it of Some (k', _) \<Rightarrow> \<not> k' < k \<and> \<not> k < k' | None \<Rightarrow> False)"

definition set_find :: "('k::linorder, 'v) linked_map \<Rightarrow> 'k \<Rightarrow> nat option" where
  "set_find m key = List.find (equivalent (the_list m) key) (the_set m)"

definition lm_find :: "('k::linorder, 'v) linked_map \<Rightarrow> 'k \<Rightarrow> iter" where
  "lm_find m key = (case set_find m key of None \<Rightarrow> None | Some it \<Rightarrow> Some it)"

definition lm_insert :: "('k::linorder, 'v) linked_map \<Rightarrow> 'k \<times> 'v \<Rightarrow> (nat \<times> ('k, 'v) linked_map) option" where
  "lm_insert m pair =
     (case set_find m (fst pair) of
        None \<Rightarrow> (let (pos, l) = push_back (the_list m) pair in Some (pos, m\<lparr>the_list := l, the_set := the_set m @ [pos]\<rparr>))
      | Some it \<Rightarrow> do {
          (k, _) \<leftarrow> deref (the_list m) it;
          l \<leftarrow> set_node (the_list m) it (k, snd pair);
          Some (it, m\<lparr>the_list := l\<rparr>)
        })"

definition lm_erase :: "('k::linorder, 'v) linked_map \<Rightarrow> nat \<Rightarrow> (iter \<times> ('k, 'v) linked_map) option" where
  "lm_erase m it = do {
     (k, _) \<leftarrow> deref (the_list m) it;
     let s = filter (\<lambda>i. \<not> equivalent (the_list m) k i) (the_set m);
     (next_it, l) \<leftarrow> erase_node (the_list m) it;
     Some (next_it, m\<lparr>the_set := s, the_list := l\<rparr>)
   }"

definition lm_begin :: "('k, 'v) linked_map \<Rightarrow> iter" where
  "lm_begin m = list_begin (the_list m)"

definition lm_size :: "('k, 'v) linked_map \<Rightarrow> nat" where
  "lm_size m = length (the_set m)"

definition lm_empty :: "('k, 'v) linked_map \<Rightarrow> bool" where
  "lm_empty m = (length (the_set m) = 0)"

text \<open>operator[] returns a reference; the value is read or assigned through it.\<close>

definition lm_index :: "'v \<Rightarrow> ('k::linorder, 'v) linked_map \<Rightarrow> 'k \<Rightarrow> (nat \<times> ('k, 'v) linked_map) option" where
  "lm_index dflt m key = lm_insert m (key, dflt)"

section \<open>Programs\<close>

text \<open>What a client does with a map, and what it observes.\<close>

datatype ('k, 'v) lm_op = LmInsert 'k 'v | LmAssign 'k 'v | LmRead 'k | LmFind 'k | LmErase 'k | LmSize | LmElements

datatype ('k, 'v) lm_obs = LmNothing | LmVal 'v | LmFound "'v option" | LmCount nat | LmPairs "('k \<times> 'v) list"

text \<open>m[key] = val, and reading m[key]; erase(find(key)) for a key that may be missing.\<close>

fun lm_step :: "'v \<Rightarrow> ('k::linorder, 'v) linked_map \<Rightarrow> ('k, 'v) lm_op \<Rightarrow> (('k, 'v) lm_obs \<times> ('k, 'v) linked_map) option" where
  "lm_step dflt m (LmInsert k v) = do { (_, m1) \<leftarrow> lm_insert m (k, v); Some (LmNothing, m1) }"
| "lm_step dflt m (LmAssign k v) = do {
     (it, m1) \<leftarrow> lm_index dflt m k;
     (k1, _) \<leftarrow> deref (the_list m1) it;
     l \<leftarrow> set_node (the_list m1) it (k1, v);
     Some (LmNothing, m1\<lparr>the_list := l\<rparr>)
   }"
| "lm_step dflt m (LmRead k) = do {
     (it, m1) \<leftarrow> lm_index dflt m k;
     (_, v) \<leftarrow> deref (the_list m1) it;
     Some (LmVal v, m1)
   }"
| "lm_step dflt m (LmFind k) =
     (case lm_find m k of
        None \<Rightarrow> Some (LmFound None, m)
      | Some it \<Rightarrow> do { (_, v) \<leftarrow> deref (the_list m) it; Some (LmFound (Some v), m) })"
| "lm_step dflt m (LmErase k) =
     (case lm_find m k of None \<Rightarrow> Some (LmNothing, m) | Some it \<Rightarrow> do { (_, m1) \<leftarrow> lm_erase m it; Some (LmNothing, m1) })"
| "lm_step dflt m LmSize = (if lm_empty m then Some (LmCount 0, m) else Some (LmCount (lm_size m), m))"
| "lm_step dflt m LmElements = Some (LmPairs (elems (the_list m)), m)"

fun lm_run :: "'v \<Rightarrow> ('k::linorder, 'v) linked_map \<Rightarrow> ('k, 'v) lm_op list \<Rightarrow> ('k, 'v) lm_obs list option" where
  "lm_run dflt m [] = Some []"
| "lm_run dflt m (c # cs) = do { (o1, m1) \<leftarrow> lm_step dflt m c; os \<leftarrow> lm_run dflt m1 cs; Some (o1 # os) }"

text \<open>The same on an association list in insertion order. Reading through operator[] writes the default value.\<close>

fun linked_step :: "'v \<Rightarrow> ('k \<times> 'v) list \<Rightarrow> ('k, 'v) lm_op \<Rightarrow> ('k, 'v) lm_obs \<times> ('k \<times> 'v) list" where
  "linked_step dflt xs (LmInsert k v) = (LmNothing, alist_assign xs k v)"
| "linked_step dflt xs (LmAssign k v) = (LmNothing, alist_assign xs k v)"
| "linked_step dflt xs (LmRead k) = (LmVal dflt, alist_assign xs k dflt)"
| "linked_step dflt xs (LmFind k) = (LmFound (map_of xs k), xs)"
| "linked_step dflt xs (LmErase k) = (LmNothing, filter (\<lambda>x. fst x \<noteq> k) xs)"
| "linked_step dflt xs LmSize = (LmCount (length xs), xs)"
| "linked_step dflt xs LmElements = (LmPairs xs, xs)"

fun linked_run :: "'v \<Rightarrow> ('k \<times> 'v) list \<Rightarrow> ('k, 'v) lm_op list \<Rightarrow> ('k, 'v) lm_obs list" where
  "linked_run dflt xs [] = []"
| "linked_run dflt xs (c # cs) = (case linked_step dflt xs c of (o1, ys) \<Rightarrow> o1 # linked_run dflt ys cs)"

section \<open>The invariant\<close>

definition lm_ok :: "('k::linorder, 'v) linked_map \<Rightarrow> bool" where
  "lm_ok m \<longleftrightarrow> list_ok (the_list m) \<and> distinct (map fst (elems (the_list m))) \<and>
     set (the_set m) = fst ` set (nodes (the_list m)) \<and> distinct (the_set m)"

lemma lm_ok_new: "lm_ok new_linked_map" "elems (the_list new_linked_map) = []"
  by (simp_all add: lm_ok_def new_linked_map_def) (simp add: new_list_def)

lemma equivalent_iff: "equivalent l k it \<longleftrightarrow> (\<exists>v. deref l it = Some (k, v))"
  by (auto simp: equivalent_def split: option.splits)

lemma deref_node: "list_ok l \<Longrightarrow> deref l it = Some x \<Longrightarrow> it \<in> fst ` set (nodes l)"
  by (force simp: deref_iff)

lemma deref_key_unique:
  assumes "list_ok l" "distinct (map fst (elems l))" "deref l i = Some (k, v)" "deref l j = Some (k, w)"
  shows "i = j"
proof -
  have "inj_on (fst \<circ> snd) (set (nodes l))" using assms(2) by (simp add: elems_def distinct_map)
  moreover have "(i, (k, v)) \<in> set (nodes l)" "(j, (k, w)) \<in> set (nodes l)" using assms by (simp_all add: deref_iff)
  ultimately show ?thesis using inj_onD [of "fst \<circ> snd" "set (nodes l)" "(i, (k, v))" "(j, (k, w))"] by simp
qed

lemma set_find_iff:
  assumes "lm_ok m"
  shows "set_find m k = Some it \<longleftrightarrow> (\<exists>v. deref (the_list m) it = Some (k, v))"
proof
  assume "set_find m k = Some it"
  then show "\<exists>v. deref (the_list m) it = Some (k, v)"
    by (auto simp: set_find_def find_Some_iff equivalent_iff)
next
  have ok: "list_ok (the_list m)" "distinct (map fst (elems (the_list m)))" using assms by (auto simp: lm_ok_def)
  assume "\<exists>v. deref (the_list m) it = Some (k, v)"
  then obtain v where v: "deref (the_list m) it = Some (k, v)" by blast
  then have "it \<in> set (the_set m)" using assms deref_node [OF ok(1) v] by (simp add: lm_ok_def)
  then have "set_find m k \<noteq> None" using v by (auto simp: set_find_def find_None_iff equivalent_iff)
  then obtain j where j: "set_find m k = Some j" by auto
  then have "\<exists>w. deref (the_list m) j = Some (k, w)" by (auto simp: set_find_def find_Some_iff equivalent_iff)
  then show "set_find m k = Some it" using j deref_key_unique [OF ok v] by auto
qed

lemma lm_index_ok: "lm_ok m \<Longrightarrow> index_ok (set_find m) (the_list m)"
  by (simp add: index_ok_def set_find_iff) (simp add: lm_ok_def)

lemma lm_size_eq: "lm_ok m \<Longrightarrow> length (the_set m) = length (elems (the_list m))"
proof -
  assume ok: "lm_ok m"
  then have "distinct (map fst (nodes (the_list m)))" by (simp add: lm_ok_def list_ok_def)
  then have "card (fst ` set (nodes (the_list m))) = length (nodes (the_list m))"
    by (metis distinct_card length_map set_map)
  moreover have "card (fst ` set (nodes (the_list m))) = length (the_set m)"
    using ok distinct_card [of "the_set m"] unfolding lm_ok_def by metis
  ultimately show ?thesis by (simp add: elems_def)
qed

lemma set_node_ids: "set_node l it x = Some l' \<Longrightarrow> fst ` set (nodes l') = fst ` set (nodes l)"
proof -
  assume "set_node l it x = Some l'"
  then have "map fst (nodes l') = map fst (nodes l)" by (auto simp: set_node_def split: if_splits)
  then show "fst ` set (nodes l') = fst ` set (nodes l)" by (metis set_map)
qed

text \<open>Assignment to the node of a key.\<close>

lemma lm_set_node:
  assumes ok: "lm_ok m" and v: "deref (the_list m) it = Some (k, v)"
  shows "\<exists>l. set_node (the_list m) it (k, w) = Some l \<and> lm_ok (m\<lparr>the_list := l\<rparr>) \<and>
    elems l = alist_assign (elems (the_list m)) k w \<and> deref l it = Some (k, w)"
proof -
  note i = lm_index_ok [OF ok]
  obtain l where l: "set_node (the_list m) it (k, w) = Some l" "index_ok (set_find m) l"
    "elems l = map (\<lambda>x. if fst x = k then (k, w) else x) (elems (the_list m))"
    using set_node_ok [OF i v] by blast
  have ok': "lm_ok (m\<lparr>the_list := l\<rparr>)"
    using ok index_okD(1,2) [OF l(2)] set_node_ids [OF l(1)] by (simp add: lm_ok_def)
  have kin: "k \<in> fst ` set (elems (the_list m))"
    using deref_elem [OF index_okD(1) [OF i], of "(k, v)"] v by force
  have "elems l = alist_assign (elems (the_list m)) k w"
    using alist_assign_old [OF index_okD(2) [OF i] kin] l(3) by simp
  moreover have "deref l it = Some (k, w)"
    using l(1) v by (auto simp: set_node_def deref_def map_of_set_node)
  ultimately show ?thesis using l(1) ok' by blast
qed

lemma lm_insert_ok:
  assumes ok: "lm_ok m"
  shows "\<exists>it m'. lm_insert m (k, v) = Some (it, m') \<and> lm_ok m' \<and> deref (the_list m') it = Some (k, v) \<and>
    elems (the_list m') = alist_assign (elems (the_list m)) k v"
proof (cases "set_find m k")
  case None
  note i = lm_index_ok [OF ok]
  obtain it l where l: "push_back (the_list m) (k, v) = (it, l)" by fastforce
  note p = push_back_ok [OF index_okD(1) [OF i] l] and j = index_push_back [OF i None l]
  have new: "k \<notin> fst ` set (elems (the_list m))" using None index_None_iff [OF i] by simp
  have "it \<notin> set (the_set m)" using ok p(3) list_okD(3) [OF index_okD(1) [OF i]] by (simp add: lm_ok_def)
  moreover have "fst ` set (nodes l) = insert it (fst ` set (nodes (the_list m)))" using l by (auto simp: push_back_def)
  ultimately have "lm_ok (m\<lparr>the_list := l, the_set := the_set m @ [it]\<rparr>)"
    using ok index_okD(1,2) [OF j] by (simp add: lm_ok_def)
  then show ?thesis using None l p alist_assign_new [OF new] by (simp add: lm_insert_def)
next
  case (Some it)
  then obtain u where u: "deref (the_list m) it = Some (k, u)" using set_find_iff [OF ok] by blast
  show ?thesis using Some u lm_set_node [OF ok u, of v] by (auto simp: lm_insert_def)
qed

lemma lm_erase_ok:
  assumes ok: "lm_ok m" and f: "set_find m k = Some it"
  shows "\<exists>nx m'. lm_erase m it = Some (nx, m') \<and> lm_ok m' \<and> elems (the_list m') = filter (\<lambda>x. fst x \<noteq> k) (elems (the_list m))"
proof -
  note i = lm_index_ok [OF ok]
  obtain v where v: "deref (the_list m) it = Some (k, v)" using f set_find_iff [OF ok] by blast
  obtain nx l where l: "erase_node (the_list m) it = Some (nx, l)" "index_ok ((set_find m)(k := None)) l"
    "elems l = filter (\<lambda>x. fst x \<noteq> k) (elems (the_list m))"
    using index_erase [OF i f] by blast
  have e: "filter (\<lambda>i. \<not> equivalent (the_list m) k i) (the_set m) = filter (\<lambda>i. i \<noteq> it) (the_set m)"
  proof (rule filter_cong [OF refl])
    fix j
    show "(\<not> equivalent (the_list m) k j) = (j \<noteq> it)"
      unfolding equivalent_iff using v deref_key_unique [OF index_okD(1) [OF i] index_okD(2) [OF i] v] by blast
  qed
  have "fst ` set (nodes l) = fst ` set (nodes (the_list m)) - {it}"
    using erase_node_ok(3) [OF index_okD(1) [OF i] l(1)] by auto
  then have "lm_ok (m\<lparr>the_set := filter (\<lambda>i. \<not> equivalent (the_list m) k i) (the_set m), the_list := l\<rparr>)"
    unfolding e using ok index_okD(1,2) [OF l(2)] by (auto simp: lm_ok_def)
  then show ?thesis using v l by (simp add: lm_erase_def)
qed

lemma lm_step_ok:
  assumes ok: "lm_ok m"
  shows "\<exists>m'. lm_step dflt m c = Some (fst (linked_step dflt (elems (the_list m)) c), m') \<and> lm_ok m' \<and>
    elems (the_list m') = snd (linked_step dflt (elems (the_list m)) c)"
proof (cases c)
  case (LmInsert k v)
  then show ?thesis using lm_insert_ok [OF ok, of k v] by auto
next
  case (LmAssign k v)
  obtain it m1 where m1: "lm_insert m (k, dflt) = Some (it, m1)" "lm_ok m1" "deref (the_list m1) it = Some (k, dflt)"
    "elems (the_list m1) = alist_assign (elems (the_list m)) k dflt"
    using lm_insert_ok [OF ok] by blast
  have "alist_assign (alist_assign xs k x) k y = alist_assign xs k y" for xs :: "('a \<times> 'b) list" and x y
    by (induction xs) auto
  then show ?thesis using LmAssign m1 lm_set_node [OF m1(2,3), of v] by (auto simp: lm_index_def)
next
  case (LmRead k)
  then show ?thesis using lm_insert_ok [OF ok, of k dflt] by (auto simp: lm_index_def)
next
  case (LmFind k)
  show ?thesis
  proof (cases "set_find m k")
    case None
    then show ?thesis using LmFind ok index_lookup [OF lm_index_ok [OF ok], of k] by (simp add: lm_find_def)
  next
    case (Some it)
    then obtain v where "deref (the_list m) it = Some (k, v)" using set_find_iff [OF ok] by blast
    then show ?thesis using LmFind Some ok index_lookup [OF lm_index_ok [OF ok], of k] by (simp add: lm_find_def)
  qed
next
  case (LmErase k)
  have "filter (\<lambda>x. fst x \<noteq> k) (elems (the_list m)) = elems (the_list m)" if "set_find m k = None"
    using index_None_iff [OF lm_index_ok [OF ok], of k] that by (force simp: filter_id_conv)
  then show ?thesis using LmErase ok lm_erase_ok [OF ok, of k] by (cases "set_find m k") (auto simp: lm_find_def)
next
  case LmSize
  then show ?thesis using ok lm_size_eq [OF ok] by (auto simp: lm_empty_def lm_size_def)
next
  case LmElements
  then show ?thesis using ok by simp
qed

text \<open>
  C32: every program on a linked map observes what it would on an association list in insertion order,
  and never uses an invalid iterator. Reading through operator[] is an insertion of the default
  value, which replaces the value a key already has.
\<close>

theorem linked_map_refines:
  "lm_run dflt (new_linked_map :: ('k::linorder, 'v) linked_map) cs = Some (linked_run dflt [] cs)"
proof -
  have "lm_ok m \<Longrightarrow> lm_run dflt m cs = Some (linked_run dflt (elems (the_list m)) cs)" for m :: "('k, 'v) linked_map"
  proof (induction cs arbitrary: m)
    case (Cons c cs)
    obtain m' where m': "lm_step dflt m c = Some (fst (linked_step dflt (elems (the_list m)) c), m')" "lm_ok m'"
      "elems (the_list m') = snd (linked_step dflt (elems (the_list m)) c)"
      using lm_step_ok [OF Cons.prems] by blast
    then show ?case using Cons.IH [OF m'(2)] by (simp add: split_beta)
  qed simp
  from this [OF lm_ok_new(1)] show ?thesis by (simp add: lm_ok_new(2))
qed

text \<open>Reading a value with operator[] loses it: the program writes 7 under a key and reads 0 twice.\<close>

lemma linked_map_read_resets:
  "lm_run 0 new_linked_map [LmAssign (3::nat) (7::nat), LmFind 3, LmRead 3, LmFind 3] =
     Some [LmNothing, LmFound (Some 7), LmVal 0, LmFound (Some 0)]"
  unfolding linked_map_refines by simp

end
