(* ===== verification/MruCache.thy ===== *)
theory MruCache
  imports StdList "HOL-Library.Multiset"
begin

text \<open>
  base/containers/mru_cache.h: the cache that keeps its most recently used items. A list of
  key-payload pairs in order of recency, and an index from keys to list iterators. The deletor is
  called on every payload that is removed; its calls are recorded in order.

  None: an invalid iterator is used, or a DCHECK fires.
\<close>

section \<open>Definitions\<close>

record ('k, 'p) mru_cache =
  ordering_of :: "('k \<times> 'p) stdlist"
  index_of :: "'k \<rightharpoonup> nat"
  max_size_of :: nat
  deleted_of :: "'p list"

definition NO_AUTO_EVICT :: nat where "NO_AUTO_EVICT = 0"

definition new_MRUCache :: "nat \<Rightarrow> ('k, 'p) mru_cache" where
  "new_MRUCache max_size = \<lparr>ordering_of = new_list, index_of = Map.empty, max_size_of = max_size, deleted_of = []\<rparr>"

definition MRU_Erase :: "('k, 'p) mru_cache \<Rightarrow> nat \<Rightarrow> (iter \<times> ('k, 'p) mru_cache) option" where
  "MRU_Erase c pos = do {
     (key, payload) \<leftarrow> deref (ordering_of c) pos;
     let c1 = c\<lparr>deleted_of := deleted_of c @ [payload], index_of := (index_of c)(key := None)\<rparr>;
     (nx, l) \<leftarrow> erase_node (ordering_of c1) pos;
     Some (nx, c1\<lparr>ordering_of := l\<rparr>)
   }"

text \<open>Erase(rbegin()): the base of the incremented reverse iterator is the last node.\<close>

definition MRU_Erase_rbegin :: "('k, 'p) mru_cache \<Rightarrow> ('k, 'p) mru_cache option" where
  "MRU_Erase_rbegin c = do {
     it \<leftarrow> list_last (ordering_of c);
     (_, c') \<leftarrow> MRU_Erase c it;
     Some c'
   }"

definition MRU_size :: "('k, 'p) mru_cache \<Rightarrow> nat option" where
  "MRU_size c = do {
     dcheck (card (dom (index_of c)) = length (nodes (ordering_of c)));
     Some (card (dom (index_of c)))
   }"

primrec shrink_loop :: "nat \<Rightarrow> ('k, 'p) mru_cache \<Rightarrow> ('k, 'p) mru_cache option" where
  "shrink_loop 0 c = Some c"
| "shrink_loop (Suc n) c = do { c' \<leftarrow> MRU_Erase_rbegin c; shrink_loop n c' }"

definition ShrinkToSize :: "('k, 'p) mru_cache \<Rightarrow> nat \<Rightarrow> ('k, 'p) mru_cache option" where
  "ShrinkToSize c new_size = do { n \<leftarrow> MRU_size c; shrink_loop (n - new_size) c }"

definition Put :: "('k, 'p) mru_cache \<Rightarrow> 'k \<Rightarrow> 'p \<Rightarrow> (iter \<times> ('k, 'p) mru_cache) option" where
  "Put c key payload = do {
     c1 \<leftarrow> (case index_of c key of
              Some it \<Rightarrow> map_option snd (MRU_Erase c it)
            | None \<Rightarrow> if max_size_of c \<noteq> NO_AUTO_EVICT then ShrinkToSize c (max_size_of c - 1) else Some c);
     let (it, l) = push_front (ordering_of c1) (key, payload);
     let ix = (case index_of c1 key of None \<Rightarrow> (index_of c1)(key \<mapsto> it) | Some _ \<Rightarrow> index_of c1);
     Some (list_begin l, c1\<lparr>ordering_of := l, index_of := ix\<rparr>)
   }"

definition MRU_Get :: "('k, 'p) mru_cache \<Rightarrow> 'k \<Rightarrow> (iter \<times> ('k, 'p) mru_cache) option" where
  "MRU_Get c key =
     (case index_of c key of
        None \<Rightarrow> Some (None, c)
      | Some it \<Rightarrow> do {
          l \<leftarrow> splice_front (ordering_of c) it;
          Some (list_begin l, c\<lparr>ordering_of := l\<rparr>)
        })"

definition MRU_Peek :: "('k, 'p) mru_cache \<Rightarrow> 'k \<Rightarrow> iter" where
  "MRU_Peek c key = (case index_of c key of None \<Rightarrow> None | Some it \<Rightarrow> Some it)"

definition MRU_Clear :: "('k, 'p) mru_cache \<Rightarrow> ('k, 'p) mru_cache" where
  "MRU_Clear c = c\<lparr>deleted_of := deleted_of c @ map (snd \<circ> snd) (nodes (ordering_of c)),
     index_of := Map.empty, ordering_of := (ordering_of c)\<lparr>nodes := []\<rparr>\<rparr>"

text \<open>The destructor: i = begin(); while (i != end()) i = Erase(i).\<close>

lemma MRU_Erase_smaller:
  "MRU_Erase c i = Some (nx, c') \<Longrightarrow> length (nodes (ordering_of c')) < length (nodes (ordering_of c))"
  by (force simp: MRU_Erase_def erase_node_def deref_def bind_eq_Some_conv Let_def split: if_splits
      intro!: length_filter_less dest: map_of_SomeD)

function destroy_loop :: "iter \<Rightarrow> ('k, 'p) mru_cache \<Rightarrow> ('k, 'p) mru_cache option" where
  "destroy_loop i c =
     (case i of
        None \<Rightarrow> Some c
      | Some it \<Rightarrow> (case MRU_Erase c it of None \<Rightarrow> None | Some (nx, c') \<Rightarrow> destroy_loop nx c'))"
  by pat_completeness auto
termination
  by (relation "measure (\<lambda>(_, c). length (nodes (ordering_of c)))") (auto dest: MRU_Erase_smaller)

declare destroy_loop.simps [simp del]

definition MRU_destroy :: "('k, 'p) mru_cache \<Rightarrow> ('k, 'p) mru_cache option" where
  "MRU_destroy c = destroy_loop (list_begin (ordering_of c)) c"

section \<open>The cache as a list in order of recency\<close>

definition mru_ok :: "('k, 'p) mru_cache \<Rightarrow> bool" where
  "mru_ok c \<longleftrightarrow> index_ok (index_of c) (ordering_of c)"

definition mru_rel :: "('k, 'p) mru_cache \<Rightarrow> nat \<Rightarrow> ('k \<times> 'p) list \<Rightarrow> 'p list \<Rightarrow> bool" where
  "mru_rel c m xs del \<longleftrightarrow> mru_ok c \<and> max_size_of c = m \<and> elems (ordering_of c) = xs \<and> deleted_of c = del"

lemma mru_relD:
  assumes "mru_rel c m xs del"
  shows "index_ok (index_of c) (ordering_of c)" "elems (ordering_of c) = xs" "deleted_of c = del" "max_size_of c = m"
    "distinct (map fst xs)" "list_ok (ordering_of c)"
  using assms index_okD by (auto simp: mru_rel_def mru_ok_def)

lemma mru_new: "mru_rel (new_MRUCache m) m [] []"
  using index_ok_new by (simp add: mru_rel_def mru_ok_def new_MRUCache_def)

lemma mru_index:
  assumes "mru_rel c m xs del"
  shows "index_of c k = None \<longleftrightarrow> map_of xs k = None"
    and "index_of c k = Some it \<Longrightarrow> \<exists>v. map_of xs k = Some v \<and> deref (ordering_of c) it = Some (k, v)"
proof -
  note r = mru_relD [OF assms]
  show "index_of c k = None \<longleftrightarrow> map_of xs k = None"
    using index_None_iff [OF r(1)] r(2) by (simp add: map_of_eq_None_iff)
  show "\<exists>v. map_of xs k = Some v \<and> deref (ordering_of c) it = Some (k, v)" if "index_of c k = Some it"
    using index_deref [OF r(1) that] index_lookup [OF r(1), of k] that r(2) by auto
qed

lemma mru_Erase:
  assumes "mru_rel c m xs del" and "index_of c k = Some it" and "map_of xs k = Some v"
  shows "\<exists>nx c'. MRU_Erase c it = Some (nx, c') \<and> mru_rel c' m (filter (\<lambda>x. fst x \<noteq> k) xs) (del @ [v]) \<and> index_of c' k = None"
proof -
  note r = mru_relD [OF assms(1)]
  have "deref (ordering_of c) it = Some (k, v)" using mru_index(2) [OF assms(1,2)] assms(3) by auto
  moreover obtain nx l where "erase_node (ordering_of c) it = Some (nx, l)" "index_ok ((index_of c)(k := None)) l"
      "elems l = filter (\<lambda>x. fst x \<noteq> k) xs"
    using index_erase [OF r(1) assms(2)] r(2) by blast
  ultimately show ?thesis using r by (simp add: MRU_Erase_def mru_rel_def mru_ok_def)
qed

lemma mru_size:
  assumes "mru_rel c m xs del"
  shows "MRU_size c = Some (length xs)"
proof -
  note r = mru_relD [OF assms]
  have "dom (index_of c) = fst ` set xs"
    using index_None_iff [OF r(1)] r(2) by (auto simp: dom_def)
  then have "card (dom (index_of c)) = length xs"
    using r(5) by (metis distinct_card length_map list.set_map)
  moreover have "length (nodes (ordering_of c)) = length xs" using r(2) by (auto simp: elems_def)
  ultimately show ?thesis by (simp add: MRU_size_def)
qed

lemma filter_butlast: "distinct (map fst xs) \<Longrightarrow> xs \<noteq> [] \<Longrightarrow> filter (\<lambda>x. fst x \<noteq> fst (last xs)) xs = butlast xs"
proof (induction xs rule: rev_induct)
  case (snoc x xs)
  then show ?case by (auto intro!: filter_True simp: image_iff)
qed simp

lemma mru_Erase_rbegin:
  assumes "mru_rel c m xs del" and "xs \<noteq> []"
  shows "\<exists>c'. MRU_Erase_rbegin c = Some c' \<and> mru_rel c' m (butlast xs) (del @ [snd (last xs)])"
proof -
  note r = mru_relD [OF assms(1)]
  obtain it kv where n: "last (nodes (ordering_of c)) = (it, kv)" "nodes (ordering_of c) \<noteq> []" "kv = last xs"
    using r(2) assms(2) by (auto simp: elems_def last_map) (metis prod.collapse)
  have "(it, kv) \<in> set (nodes (ordering_of c))" using n by (metis last_in_set)
  then have d: "deref (ordering_of c) it = Some (fst kv, snd kv)" using deref_iff [OF r(6)] by simp
  have i: "index_of c (fst kv) = Some it" by (rule index_key [OF r(1) d])
  have "map_of xs (fst kv) = Some (snd kv)" using mru_index(2) [OF assms(1) i] d by (metis option.inject snd_conv)
  then show ?thesis
    using mru_Erase [OF assms(1) i] n filter_butlast [OF r(5) assms(2)]
    by (auto simp: MRU_Erase_rbegin_def list_last_def)
qed

lemma mru_shrink_loop:
  "mru_rel c m xs del \<Longrightarrow> n \<le> length xs \<Longrightarrow>
     \<exists>c'. shrink_loop n c = Some c' \<and>
       mru_rel c' m (take (length xs - n) xs) (del @ rev (map snd (drop (length xs - n) xs)))"
proof (induction n arbitrary: c xs del)
  case (Suc n)
  then have "xs \<noteq> []" by auto
  then obtain ys y where xs: "xs = ys @ [y]" by (metis append_butlast_last_id)
  obtain c1 where c1: "MRU_Erase_rbegin c = Some c1" "mru_rel c1 m ys (del @ [snd y])"
    using mru_Erase_rbegin [OF Suc.prems(1) \<open>xs \<noteq> []\<close>] xs by auto
  with Suc.IH [OF c1(2)] Suc.prems(2) xs show ?case by auto
qed simp

lemma mru_Shrink:
  assumes "mru_rel c m xs del"
  shows "\<exists>c'. ShrinkToSize c n = Some c' \<and> mru_rel c' m (take n xs) (del @ rev (map snd (drop n xs)))"
proof (cases "n \<le> length xs")
  case True
  then show ?thesis
    using mru_size [OF assms] mru_shrink_loop [OF assms, of "length xs - n"] by (auto simp: ShrinkToSize_def)
qed (use assms mru_size [OF assms] in \<open>simp add: ShrinkToSize_def\<close>)

text \<open>The specification: a list of at most m items, the most recently used first.\<close>

definition lru_put :: "nat \<Rightarrow> 'k \<Rightarrow> 'p \<Rightarrow> ('k \<times> 'p) list \<Rightarrow> ('k \<times> 'p) list \<times> 'p list" where
  "lru_put m k v xs =
     (case map_of xs k of
        Some old \<Rightarrow> ((k, v) # filter (\<lambda>x. fst x \<noteq> k) xs, [old])
      | None \<Rightarrow> if m \<noteq> 0 then ((k, v) # take (m - 1) xs, rev (map snd (drop (m - 1) xs))) else ((k, v) # xs, []))"

definition lru_get :: "'k \<Rightarrow> ('k \<times> 'p) list \<Rightarrow> ('k \<times> 'p) list" where
  "lru_get k xs = (case map_of xs k of None \<Rightarrow> xs | Some v \<Rightarrow> (k, v) # filter (\<lambda>x. fst x \<noteq> k) xs)"

lemma mru_push_front:
  assumes "mru_rel c m xs del" and "index_of c k = None" and "push_front (ordering_of c) (k, v) = (it, l)"
  shows "mru_rel (c\<lparr>ordering_of := l, index_of := (index_of c)(k \<mapsto> it)\<rparr>) m ((k, v) # xs) del"
  using index_push_front [OF mru_relD(1) [OF assms(1)] assms(2,3)] push_front_ok(2) [OF mru_relD(6) [OF assms(1)] assms(3)]
    mru_relD [OF assms(1)] by (simp add: mru_rel_def mru_ok_def)

lemma mru_Put:
  assumes "mru_rel c m xs del"
  shows "\<exists>it c'. Put c k v = Some (Some it, c') \<and> deref (ordering_of c') it = Some (k, v) \<and>
    mru_rel c' m (fst (lru_put m k v xs)) (del @ snd (lru_put m k v xs))"
proof -
  obtain c1 ys del1 where c1: "(case index_of c k of Some it \<Rightarrow> map_option snd (MRU_Erase c it)
      | None \<Rightarrow> if max_size_of c \<noteq> NO_AUTO_EVICT then ShrinkToSize c (max_size_of c - 1) else Some c) = Some c1"
      "mru_rel c1 m ys del1" "index_of c1 k = None"
      "lru_put m k v xs = ((k, v) # ys, drop (length del) del1)" "del1 = del @ drop (length del) del1"
  proof (cases "index_of c k")
    case None
    then have new: "map_of xs k = None" using mru_index(1) [OF assms] by simp
    show thesis
    proof (cases "m = 0")
      case True
      then show thesis
        using that [of c xs del] None new assms mru_relD(4) [OF assms] by (simp add: lru_put_def NO_AUTO_EVICT_def)
    next
      case False
      obtain c1 where c1: "ShrinkToSize c (m - 1) = Some c1" "mru_rel c1 m (take (m - 1) xs) (del @ rev (map snd (drop (m - 1) xs)))"
        using mru_Shrink [OF assms] by blast
      have "map_of (take (m - 1) xs) k = None"
        using new by (auto simp: map_of_eq_None_iff dest: in_set_takeD)
      then have "index_of c1 k = None" using mru_index(1) [OF c1(2)] by simp
      then show thesis
        using that [OF _ c1(2)] None new False c1 mru_relD(4) [OF assms] by (simp add: lru_put_def NO_AUTO_EVICT_def)
    qed
  next
    case (Some it)
    obtain old where old: "map_of xs k = Some old" using mru_index(2) [OF assms Some] by blast
    obtain nx c1 where "MRU_Erase c it = Some (nx, c1)" "mru_rel c1 m (filter (\<lambda>x. fst x \<noteq> k) xs) (del @ [old])" "index_of c1 k = None"
      using mru_Erase [OF assms Some old] by blast
    then show thesis using that [of c1 "filter (\<lambda>x. fst x \<noteq> k) xs" "del @ [old]"] Some old by (simp add: lru_put_def)
  qed
  obtain it l where l: "push_front (ordering_of c1) (k, v) = (it, l)" by fastforce
  have "list_begin l = Some it" "deref l it = Some (k, v)"
    using l by (auto simp: push_front_def list_begin_def deref_def)
  then show ?thesis
    using c1 l mru_push_front [OF c1(2,3) l] by (auto simp: Put_def)
qed

lemma mru_Get:
  assumes "mru_rel c m xs del"
  shows "\<exists>it c'. MRU_Get c k = Some (it, c') \<and> map_option snd (it \<bind> deref (ordering_of c')) = map_of xs k \<and>
    mru_rel c' m (lru_get k xs) del"
proof (cases "index_of c k")
  case None
  moreover have "map_of xs k = None" using None mru_index(1) [OF assms, of k] by simp
  ultimately show ?thesis using assms by (simp add: MRU_Get_def lru_get_def)
next
  case (Some it)
  obtain v where v: "map_of xs k = Some v" "deref (ordering_of c) it = Some (k, v)"
    using mru_index(2) [OF assms Some] by blast
  obtain l where l: "splice_front (ordering_of c) it = Some l" "index_ok (index_of c) l"
      "elems l = (k, v) # filter (\<lambda>x. fst x \<noteq> k) xs" "list_begin l = Some it"
    using index_splice [OF mru_relD(1) [OF assms] Some] v(2) mru_relD(2) [OF assms] by auto
  have "deref l it = Some (k, v)"
    using index_lookup [OF l(2), of k] index_deref [OF l(2) Some] Some l(3) by auto
  then show ?thesis
    using Some v l mru_relD [OF assms] by (simp add: MRU_Get_def lru_get_def mru_rel_def mru_ok_def)
qed

lemma mru_Clear: "mru_rel c m xs del \<Longrightarrow> mru_rel (MRU_Clear c) m [] (del @ map snd xs)"
  by (auto simp: MRU_Clear_def mru_rel_def mru_ok_def index_ok_def list_ok_def elems_def deref_def)

lemma mru_destroy_loop:
  "mru_rel c m xs del \<Longrightarrow>
     \<exists>c'. destroy_loop (list_begin (ordering_of c)) c = Some c' \<and> mru_rel c' m [] (del @ map snd xs)"
proof (induction xs arbitrary: c del)
  case Nil
  then show ?case
    using mru_relD(2) [OF Nil] by (subst destroy_loop.simps) (simp add: list_begin_def elems_def)
next
  case (Cons x xs)
  note r = mru_relD [OF Cons.prems]
  obtain it kv ns where n: "nodes (ordering_of c) = (it, kv) # ns" "kv = x" "map snd ns = xs"
    using r(2) by (cases "nodes (ordering_of c)") (auto simp: elems_def)
  have d: "deref (ordering_of c) it = Some (fst x, snd x)" using n by (simp add: deref_def)
  have i: "index_of c (fst x) = Some it" by (rule index_key [OF r(1) d])
  obtain nx c1 where c1: "MRU_Erase c it = Some (nx, c1)" "mru_rel c1 m (filter (\<lambda>y. fst y \<noteq> fst x) (x # xs)) (del @ [snd x])"
    using mru_Erase [OF Cons.prems i, of "snd x"] by auto
  have "filter (\<lambda>y. fst y \<noteq> fst x) (x # xs) = xs" using r(5) by (auto intro!: filter_True simp: image_iff)
  moreover have "nx = list_begin (ordering_of c1)"
    using c1(1) d n list_okD(1) [OF r(6)]
    by (cases x; cases ns) (auto simp: MRU_Erase_def erase_node_def list_begin_def image_iff)
  ultimately show ?case
    using Cons.IH [of c1 "del @ [snd x]"] c1 n by (subst destroy_loop.simps) (simp add: list_begin_def)
qed

section \<open>Properties\<close>

datatype ('k, 'p) mru_op = OpPut 'k 'p | OpGet 'k | OpPeek 'k | OpShrink nat | OpClear

text \<open>A step of a client; the payload a lookup finds is the result.\<close>

fun mru_step :: "('k, 'p) mru_op \<Rightarrow> ('k, 'p) mru_cache \<Rightarrow> ('p option \<times> ('k, 'p) mru_cache) option" where
  "mru_step (OpPut k v) c = do { (it, c') \<leftarrow> Put c k v; Some (map_option snd (it \<bind> deref (ordering_of c')), c') }"
| "mru_step (OpGet k) c = do { (it, c') \<leftarrow> MRU_Get c k; Some (map_option snd (it \<bind> deref (ordering_of c')), c') }"
| "mru_step (OpPeek k) c = Some (map_option snd (MRU_Peek c k \<bind> deref (ordering_of c)), c)"
| "mru_step (OpShrink n) c = do { c' \<leftarrow> ShrinkToSize c n; Some (None, c') }"
| "mru_step OpClear c = Some (None, MRU_Clear c)"

fun lru_step :: "nat \<Rightarrow> ('k, 'p) mru_op \<Rightarrow> ('k \<times> 'p) list \<Rightarrow> 'p option \<times> ('k \<times> 'p) list \<times> 'p list" where
  "lru_step m (OpPut k v) xs = (Some v, lru_put m k v xs)"
| "lru_step m (OpGet k) xs = (map_of xs k, lru_get k xs, [])"
| "lru_step m (OpPeek k) xs = (map_of xs k, xs, [])"
| "lru_step m (OpShrink n) xs = (None, take n xs, rev (map snd (drop n xs)))"
| "lru_step m OpClear xs = (None, [], map snd xs)"

primrec mru_run :: "('k, 'p) mru_op list \<Rightarrow> ('k, 'p) mru_cache \<Rightarrow> ('p option list \<times> ('k, 'p) mru_cache) option" where
  "mru_run [] c = Some ([], c)"
| "mru_run (op # ops) c = do { (r, c1) \<leftarrow> mru_step op c; (rs, c2) \<leftarrow> mru_run ops c1; Some (r # rs, c2) }"

primrec lru_run :: "nat \<Rightarrow> ('k, 'p) mru_op list \<Rightarrow> ('k \<times> 'p) list \<Rightarrow> 'p list \<Rightarrow> 'p option list \<times> ('k \<times> 'p) list \<times> 'p list" where
  "lru_run m [] xs del = ([], xs, del)"
| "lru_run m (op # ops) xs del =
     (let (r, xs1, d1) = lru_step m op xs; (rs, xs2, del2) = lru_run m ops xs1 (del @ d1) in (r # rs, xs2, del2))"

fun payloads_put :: "('k, 'p) mru_op list \<Rightarrow> 'p list" where
  "payloads_put [] = []"
| "payloads_put (OpPut k v # ops) = v # payloads_put ops"
| "payloads_put (op # ops) = payloads_put ops"

lemma mru_step_refines:
  assumes "mru_rel c m xs del"
  shows "\<exists>c'. mru_step op c = Some (fst (lru_step m op xs), c') \<and>
    mru_rel c' m (fst (snd (lru_step m op xs))) (del @ snd (snd (lru_step m op xs)))"
proof (cases op)
  case (OpPut k v)
  then show ?thesis using mru_Put [OF assms, of k v] by auto
next
  case (OpGet k)
  then show ?thesis using mru_Get [OF assms, of k] by auto
next
  case (OpPeek k)
  have "map_option snd (MRU_Peek c k \<bind> deref (ordering_of c)) = map_of xs k"
    using mru_index [OF assms, of k] by (cases "index_of c k") (auto simp: MRU_Peek_def)
  with OpPeek assms show ?thesis by simp
next
  case (OpShrink n)
  then show ?thesis using mru_Shrink [OF assms, of n] by auto
next
  case OpClear
  then show ?thesis using mru_Clear [OF assms] by auto
qed

lemma mru_run_refines:
  "mru_rel c m xs del \<Longrightarrow> \<exists>c'. mru_run ops c = Some (fst (lru_run m ops xs del), c') \<and>
    mru_rel c' m (fst (snd (lru_run m ops xs del))) (snd (snd (lru_run m ops xs del)))"
proof (induction ops arbitrary: c xs del)
  case (Cons op ops)
  obtain c1 where c1: "mru_step op c = Some (fst (lru_step m op xs), c1)"
      "mru_rel c1 m (fst (snd (lru_step m op xs))) (del @ snd (snd (lru_step m op xs)))"
    using mru_step_refines [OF Cons.prems] by blast
  with Cons.IH [OF c1(2)] show ?case by (auto simp: split_beta)
qed auto

lemma filter_key_mset:
  assumes "distinct (map fst xs)" and "map_of xs k = Some v"
  shows "mset (map snd xs) = add_mset v (mset (map snd (filter (\<lambda>x. fst x \<noteq> k) xs)))"
    and "length xs = Suc (length (filter (\<lambda>x. fst x \<noteq> k) xs))"
proof -
  obtain ys zs where xs: "xs = ys @ (k, v) # zs" using map_of_SomeD [OF assms(2)] by (metis split_list)
  then have "filter (\<lambda>x. fst x \<noteq> k) ys = ys" "filter (\<lambda>x. fst x \<noteq> k) zs = zs"
    using assms(1) by (auto intro!: filter_True simp: image_iff)
  then have "filter (\<lambda>x. fst x \<noteq> k) xs = ys @ zs" using xs by simp
  then show "mset (map snd xs) = add_mset v (mset (map snd (filter (\<lambda>x. fst x \<noteq> k) xs)))"
    and "length xs = Suc (length (filter (\<lambda>x. fst x \<noteq> k) xs))" using xs by auto
qed

text \<open>What a step of the specification keeps: the bound, and every payload that was ever put.\<close>

lemma lru_step_keeps:
  assumes "distinct (map fst xs)" and "m = 0 \<or> length xs \<le> m" and "lru_step m op xs = (r, xs', d)"
  shows "m = 0 \<or> length xs' \<le> m"
    and "mset (map snd xs') + mset d = mset (map snd xs) + mset (payloads_put [op])"
proof -
  have td: "mset (map snd (take n xs)) + mset (map snd (drop n xs)) = mset (map snd xs)" for n
    by (metis append_take_drop_id map_append mset_append)
  show "m = 0 \<or> length xs' \<le> m"
    using assms filter_key_mset(2) [OF assms(1)]
    by (cases op) (auto simp: lru_put_def lru_get_def split: option.splits if_splits)
  show "mset (map snd xs') + mset d = mset (map snd xs) + mset (payloads_put [op])"
  proof (cases op)
    case (OpPut k v)
    then show ?thesis
      using assms(3) td [of "m - 1"] filter_key_mset(1) [OF assms(1), of k]
      by (auto simp: lru_put_def simp del: mset_map mset_filter split: option.splits if_splits)
  next
    case (OpGet k)
    then show ?thesis
      using assms(3) filter_key_mset(1) [OF assms(1), of k]
      by (auto simp: lru_get_def simp del: mset_map mset_filter split: option.splits)
  qed (use assms(3) td in \<open>auto simp del: mset_map\<close>)
qed

lemma mset_payloads_put: "mset (payloads_put (op # ops)) = mset (payloads_put [op]) + mset (payloads_put ops)"
  by (cases op) auto

lemma lru_run_keeps:
  "mru_rel c m xs del \<Longrightarrow> m = 0 \<or> length xs \<le> m \<Longrightarrow> lru_run m ops xs del = (rs, xs', del') \<Longrightarrow>
     (m = 0 \<or> length xs' \<le> m) \<and>
     mset (map snd xs') + mset del' = mset (map snd xs) + mset del + mset (payloads_put ops)"
proof (induction ops arbitrary: c xs del rs)
  case (Cons op ops)
  obtain r xs1 d1 where s: "lru_step m op xs = (r, xs1, d1)" by (cases "lru_step m op xs") auto
  obtain rs1 where run: "lru_run m ops xs1 (del @ d1) = (rs1, xs', del')"
    using Cons.prems(3) s by (auto split: prod.splits)
  obtain c1 where "mru_rel c1 m xs1 (del @ d1)" using mru_step_refines [OF Cons.prems(1), of op] s by auto
  note k = lru_step_keeps [OF mru_relD(5) [OF Cons.prems(1)] Cons.prems(2) s]
  show ?case
    using Cons.IH [OF \<open>mru_rel c1 m xs1 (del @ d1)\<close> k(1) run] k(2)
    by (simp add: mset_payloads_put [of op ops] union_ac del: mset_map payloads_put.simps)
qed auto

text \<open>
  C35: every sequence of Put, Get, Peek, ShrinkToSize and Clear behaves on the cache exactly like on
  a list in order of recency: Put and Get move their item to the front, a Put of a new key drops
  the least recently used items so that at most max_size remain (none with max_size 0), every
  lookup finds the latest payload of a key still present, no DCHECK fires and no stored iterator is
  invalid. No payload is lost or deleted twice: the payloads put are those in the cache and those
  given to the deletor, and destroying the cache deletes the rest.
\<close>

theorem mru_cache_refines_lru:
  "\<exists>c rs xs del c'. mru_run ops (new_MRUCache m) = Some (rs, c) \<and> lru_run m ops [] [] = (rs, xs, del) \<and>
     index_ok (index_of c) (ordering_of c) \<and> elems (ordering_of c) = xs \<and> deleted_of c = del \<and>
     (if m = 0 then True else length xs \<le> m) \<and>
     mset (map snd xs) + mset del = mset (payloads_put ops) \<and>
     MRU_destroy c = Some c' \<and> mset (deleted_of c') = mset (payloads_put ops)"
proof -
  obtain rs xs del where spec: "lru_run m ops [] [] = (rs, xs, del)" by (cases "lru_run m ops [] []") auto
  obtain c where c: "mru_run ops (new_MRUCache m) = Some (rs, c)" "mru_rel c m xs del"
    using mru_run_refines [OF mru_new, of ops m] spec by auto
  obtain c' where c': "MRU_destroy c = Some c'" "mru_rel c' m [] (del @ map snd xs)"
    using mru_destroy_loop [OF c(2)] by (auto simp: MRU_destroy_def)
  have k: "m = 0 \<or> length xs \<le> m" "mset (map snd xs) + mset del = mset (payloads_put ops)"
    using lru_run_keeps [OF mru_new _ spec] by auto
  have "mset (deleted_of c') = mset (payloads_put ops)"
    using mru_relD(3) [OF c'(2)] k(2) by (simp add: union_commute)
  with c c' k spec mru_relD [OF c(2)] show ?thesis by auto
qed

end
