(* ===== verification/PriorityQueue.thy ===== *)
theory PriorityQueue
  imports StdList
begin

text \<open>
  base2/priority_queue.h: a queue with one list per priority and pointers to its elements, in the
  build with checks, where every element carries an id and the ids in use are kept to validate
  pointers. None: a DCHECK fires or an invalid iterator is used. CalledOnValidThread is not
  modelled: the model has one thread.
\<close>

section \<open>Definitions\<close>

record 'a PriorityQueue =
  lists_of :: "(uint32 \<times> 'a) stdlist list"
  size_of :: nat
  next_id_of :: uint32
  valid_ids_of :: "uint32 set"

record pq_Pointer =
  priority_of :: uint32
  iterator_of :: iter
  id_of :: uint32

definition kNullPriority :: uint32 where "kNullPriority = -1"

definition null_Pointer :: pq_Pointer where
  "null_Pointer = \<lparr>priority_of = kNullPriority, iterator_of = None, id_of = -1\<rparr>"

definition is_null :: "pq_Pointer \<Rightarrow> bool" where
  "is_null ptr \<longleftrightarrow> priority_of ptr = kNullPriority"

text \<open>The private constructor reads the id through the iterator.\<close>

definition make_Pointer :: "(uint32 \<times> 'a) stdlist \<Rightarrow> uint32 \<Rightarrow> iter \<Rightarrow> pq_Pointer option" where
  "make_Pointer l priority it = do {
     n \<leftarrow> it;
     (id, _) \<leftarrow> deref l n;
     Some \<lparr>priority_of = priority, iterator_of = it, id_of = id\<rparr>
   }"

definition pq_value :: "'a PriorityQueue \<Rightarrow> pq_Pointer \<Rightarrow> 'a option" where
  "pq_value q ptr = do {
     dcheck (unat (priority_of ptr) < length (lists_of q));
     n \<leftarrow> iterator_of ptr;
     (_, x) \<leftarrow> deref (lists_of q ! unat (priority_of ptr)) n;
     Some x
   }"

definition Pointer_Equals :: "pq_Pointer \<Rightarrow> pq_Pointer \<Rightarrow> bool" where
  "Pointer_Equals a b \<longleftrightarrow> priority_of a = priority_of b \<and> iterator_of a = iterator_of b"

definition new_PriorityQueue :: "uint32 \<Rightarrow> 'a PriorityQueue" where
  "new_PriorityQueue num_priorities =
     \<lparr>lists_of = replicate (unat num_priorities) new_list, size_of = 0, next_id_of = 0, valid_ids_of = {}\<rparr>"

definition insert_with ::
  "((uint32 \<times> 'a) stdlist \<Rightarrow> uint32 \<times> 'a \<Rightarrow> nat \<times> (uint32 \<times> 'a) stdlist) \<Rightarrow>
   'a PriorityQueue \<Rightarrow> 'a \<Rightarrow> uint32 \<Rightarrow> (pq_Pointer \<times> 'a PriorityQueue) option" where
  "insert_with push q value priority = do {
     dcheck (unat priority < length (lists_of q));
     let id = next_id_of q;
     let (it, l) = push (lists_of q ! unat priority) (id, value);
     let q' = q\<lparr>size_of := size_of q + 1, valid_ids_of := insert id (valid_ids_of q), next_id_of := id + 1,
                lists_of := (lists_of q)[unat priority := l]\<rparr>;
     ptr \<leftarrow> make_Pointer l priority (Some it);
     Some (ptr, q')
   }"

definition pq_Insert :: "'a PriorityQueue \<Rightarrow> 'a \<Rightarrow> uint32 \<Rightarrow> (pq_Pointer \<times> 'a PriorityQueue) option" where
  "pq_Insert = insert_with push_back"

definition pq_InsertAtFront :: "'a PriorityQueue \<Rightarrow> 'a \<Rightarrow> uint32 \<Rightarrow> (pq_Pointer \<times> 'a PriorityQueue) option" where
  "pq_InsertAtFront = insert_with push_front"

definition pq_Erase :: "'a PriorityQueue \<Rightarrow> pq_Pointer \<Rightarrow> 'a PriorityQueue option" where
  "pq_Erase q ptr = do {
     dcheck (unat (priority_of ptr) < length (lists_of q));
     dcheck (size_of q > 0);
     dcheck (id_of ptr \<in> valid_ids_of q);
     n \<leftarrow> iterator_of ptr;
     (id, _) \<leftarrow> deref (lists_of q ! unat (priority_of ptr)) n;
     dcheck (id = id_of ptr);
     (_, l) \<leftarrow> erase_node (lists_of q ! unat (priority_of ptr)) n;
     Some (q\<lparr>valid_ids_of := valid_ids_of q - {id_of ptr}, size_of := size_of q - 1,
             lists_of := (lists_of q)[unat (priority_of ptr) := l]\<rparr>)
   }"

text \<open>The searches walk over the list indices in increasing or decreasing order.\<close>

primrec search_lists ::
  "((uint32 \<times> 'a) stdlist \<Rightarrow> iter) \<Rightarrow> (uint32 \<times> 'a) stdlist list \<Rightarrow> nat list \<Rightarrow> pq_Pointer option" where
  "search_lists pick ls [] = Some null_Pointer"
| "search_lists pick ls (i # is) =
     (if nodes (ls ! i) \<noteq> [] then make_Pointer (ls ! i) (of_nat i) (pick (ls ! i)) else search_lists pick ls is)"

definition FirstMin :: "'a PriorityQueue \<Rightarrow> pq_Pointer option" where
  "FirstMin q = search_lists list_begin (lists_of q) [0..<length (lists_of q)]"

definition LastMin :: "'a PriorityQueue \<Rightarrow> pq_Pointer option" where
  "LastMin q = search_lists list_last (lists_of q) [0..<length (lists_of q)]"

definition FirstMax :: "'a PriorityQueue \<Rightarrow> pq_Pointer option" where
  "FirstMax q = search_lists list_begin (lists_of q) (rev [0..<length (lists_of q)])"

definition LastMax :: "'a PriorityQueue \<Rightarrow> pq_Pointer option" where
  "LastMax q = search_lists list_last (lists_of q) (rev [0..<length (lists_of q)])"

text \<open>The while loop of GetNextTowardsLastMin, from a priority and an iterator into its list.\<close>

fun next_loop :: "(uint32 \<times> 'a) stdlist list \<Rightarrow> nat \<Rightarrow> iter \<Rightarrow> pq_Pointer option" where
  "next_loop ls priority (Some n) = make_Pointer (ls ! priority) (of_nat priority) (Some n)"
| "next_loop ls 0 None = Some null_Pointer"
| "next_loop ls (Suc priority) None = next_loop ls priority (list_begin (ls ! priority))"

definition GetNextTowardsLastMin :: "'a PriorityQueue \<Rightarrow> pq_Pointer \<Rightarrow> pq_Pointer option" where
  "GetNextTowardsLastMin q ptr = do {
     dcheck (\<not> is_null ptr);
     dcheck (unat (priority_of ptr) < length (lists_of q));
     n \<leftarrow> iterator_of ptr;
     let l = lists_of q ! unat (priority_of ptr);
     dcheck (deref l n \<noteq> None);
     next_loop (lists_of q) (unat (priority_of ptr)) (node_after (nodes l) n)
   }"

definition pq_Clear :: "'a PriorityQueue \<Rightarrow> 'a PriorityQueue" where
  "pq_Clear q = q\<lparr>lists_of := map (\<lambda>l. l\<lparr>nodes := []\<rparr>) (lists_of q), valid_ids_of := {}, size_of := 0\<rparr>"

definition num_priorities :: "'a PriorityQueue \<Rightarrow> nat" where
  "num_priorities q = length (lists_of q)"

definition pq_empty :: "'a PriorityQueue \<Rightarrow> bool" where
  "pq_empty q \<longleftrightarrow> size_of q = 0"

section \<open>Well-formed queues\<close>

text \<open>The values, one list per priority.\<close>

definition pq_vals :: "'a PriorityQueue \<Rightarrow> 'a list list" where
  "pq_vals q = map (\<lambda>l. map snd (elems l)) (lists_of q)"

text \<open>Node n of the list of priority p holds the value x with the id i.\<close>

definition holds :: "'a PriorityQueue \<Rightarrow> nat \<Rightarrow> nat \<Rightarrow> uint32 \<Rightarrow> 'a \<Rightarrow> bool" where
  "holds q p n i x \<longleftrightarrow> p < length (lists_of q) \<and> deref (lists_of q ! p) n = Some (i, x)"

definition pq_ok :: "'a PriorityQueue \<Rightarrow> bool" where
  "pq_ok q \<longleftrightarrow> length (lists_of q) < 2 ^ 32 \<and> (\<forall>l \<in> set (lists_of q). list_ok l) \<and>
     size_of q = sum_list (map (\<lambda>l. length (nodes l)) (lists_of q)) \<and>
     (\<forall>p n i x p' n' y. holds q p n i x \<longrightarrow> holds q p' n' i y \<longrightarrow> p' = p \<and> n' = n) \<and>
     (\<forall>i. i \<in> valid_ids_of q \<longleftrightarrow> (\<exists>p n x. holds q p n i x)) \<and>
     (\<forall>i \<in> valid_ids_of q. i < next_id_of q)"

definition pq_points :: "'a PriorityQueue \<Rightarrow> pq_Pointer \<Rightarrow> 'a \<Rightarrow> bool" where
  "pq_points q ptr x \<longleftrightarrow> (\<exists>n. iterator_of ptr = Some n \<and> holds q (unat (priority_of ptr)) n (id_of ptr) x)"

lemma pq_okD:
  assumes "pq_ok q"
  shows "length (lists_of q) < 2 ^ 32" "l \<in> set (lists_of q) \<Longrightarrow> list_ok l"
    "size_of q = sum_list (map (\<lambda>l. length (nodes l)) (lists_of q))"
    "holds q p n i x \<Longrightarrow> holds q p' n' i y \<Longrightarrow> p' = p \<and> n' = n"
    "i \<in> valid_ids_of q \<longleftrightarrow> (\<exists>p n x. holds q p n i x)" "i \<in> valid_ids_of q \<Longrightarrow> i < next_id_of q"
  using assms unfolding pq_ok_def by blast+

lemma pq_okI:
  assumes "length (lists_of q) < 2 ^ 32" and "\<And>l. l \<in> set (lists_of q) \<Longrightarrow> list_ok l"
    and "size_of q = sum_list (map (\<lambda>l. length (nodes l)) (lists_of q))"
    and "\<And>p n i x p' n' y. holds q p n i x \<Longrightarrow> holds q p' n' i y \<Longrightarrow> p' = p \<and> n' = n"
    and "\<And>i. i \<in> valid_ids_of q \<longleftrightarrow> (\<exists>p n x. holds q p n i x)" and "\<And>i. i \<in> valid_ids_of q \<Longrightarrow> i < next_id_of q"
  shows "pq_ok q"
  using assms unfolding pq_ok_def by blast

lemma new_PriorityQueue_ok: "pq_ok (new_PriorityQueue n)" "pq_vals (new_PriorityQueue n) = replicate (unat n) []"
  using unsigned_less [of n]
  by (auto simp: pq_ok_def new_PriorityQueue_def holds_def pq_vals_def deref_def sum_list_replicate elems_def)
    (auto simp: new_list_def list_ok_def)

section \<open>Insertion\<close>

text \<open>A way to put a new node into a list, and what it does to the sequence of values.\<close>

locale list_insertion =
  fixes push :: "(uint32 \<times> 'a) stdlist \<Rightarrow> uint32 \<times> 'a \<Rightarrow> nat \<times> (uint32 \<times> 'a) stdlist"
    and place :: "'a \<Rightarrow> 'a list \<Rightarrow> 'a list"
  assumes push_ok: "list_ok l \<Longrightarrow> push l x = (it, l') \<Longrightarrow> list_ok l' \<and> deref l it = None \<and> deref l' = (deref l)(it \<mapsto> x)"
    and push_vals: "push l x = (it, l') \<Longrightarrow> map snd (elems l') = place (snd x) (map snd (elems l))"
    and push_length: "push l x = (it, l') \<Longrightarrow> length (nodes l') = Suc (length (nodes l))"
begin

lemma insert_with_ok:
  assumes ok: "pq_ok q" and p: "unat priority < length (lists_of q)" and id: "next_id_of q \<noteq> -1"
  shows "\<exists>ptr q'. insert_with push q x priority = Some (ptr, q') \<and> pq_ok q' \<and> priority_of ptr = priority \<and>
    pq_points q' ptr x \<and> (\<forall>r y. pq_points q r y \<longrightarrow> pq_points q' r y) \<and>
    pq_vals q' = (pq_vals q)[unat priority := place x (pq_vals q ! unat priority)]"
proof -
  let ?p = "unat priority" and ?i = "next_id_of q"
  let ?l = "lists_of q ! ?p"
  obtain it l where l: "push ?l (?i, x) = (it, l)" by fastforce
  have lok: "list_ok ?l" using pq_okD(2) [OF ok] p by simp
  note pu = push_ok [OF lok l]
  define q' where "q' = q\<lparr>size_of := size_of q + 1, valid_ids_of := insert ?i (valid_ids_of q), next_id_of := ?i + 1,
      lists_of := (lists_of q)[?p := l]\<rparr>"
  let ?ptr = "\<lparr>priority_of = priority, iterator_of = Some it, id_of = ?i\<rparr>"
  have res: "insert_with push q x priority = Some (?ptr, q')"
    using p l pu by (simp add: insert_with_def make_Pointer_def q'_def Let_def)
  have h: "holds q' p' n i y \<longleftrightarrow> p' = ?p \<and> n = it \<and> i = ?i \<and> y = x \<or> holds q p' n i y" for p' n i y
    using p pu by (auto simp: holds_def q'_def nth_list_update)
  have fresh: "\<not> holds q p' n ?i y" for p' n y
    using pq_okD(5,6) [OF ok, of ?i] by blast
  have "?i + 1 \<noteq> 0" using id by (metis add.commute add_diff_cancel_right' diff_0)
  then have lt: "i < ?i + 1" if "i \<le> ?i" for i
    using that unat_plus_one [of ?i] by (simp add: word_less_nat_alt word_le_nat_alt)
  have sz: "size_of q' = sum_list (map (\<lambda>l. length (nodes l)) (lists_of q'))"
    using pq_okD(3) [OF ok] p push_length [OF l] member_le_sum_list [of "length (nodes ?l)" "map (\<lambda>l. length (nodes l)) (lists_of q)"]
    by (simp add: q'_def map_update sum_list_update)
  have "pq_ok q'"
  proof (rule pq_okI)
    show "length (lists_of q') < 2 ^ 32" using pq_okD(1) [OF ok] by (simp add: q'_def)
    show "list_ok l'" if "l' \<in> set (lists_of q')" for l'
      using that pu pq_okD(2) [OF ok] by (auto simp: q'_def dest: set_update_subset_insert [THEN subsetD])
    show "p'' = p' \<and> n' = n" if "holds q' p' n i y" "holds q' p'' n' i z" for p' n i y p'' n' z
      using that fresh pq_okD(4) [OF ok, of p' n i y p'' n' z] by (auto simp: h)
    show "i \<in> valid_ids_of q' \<longleftrightarrow> (\<exists>p n x. holds q' p n i x)" for i
      using pq_okD(5) [OF ok, of i] by (auto simp: q'_def [THEN arg_cong [of _ _ valid_ids_of]] h)
    show "i < next_id_of q'" if "i \<in> valid_ids_of q'" for i
      using that lt pq_okD(6) [OF ok] by (fastforce simp: q'_def intro: less_imp_le)
  qed (rule sz)
  moreover have "pq_points q' ?ptr x" "\<forall>r y. pq_points q r y \<longrightarrow> pq_points q' r y"
    by (auto simp: pq_points_def h)
  moreover have "pq_vals q' = (pq_vals q)[?p := place x (pq_vals q ! ?p)]"
    using p push_vals [OF l] by (simp add: pq_vals_def q'_def map_update)
  ultimately show ?thesis using res by (intro exI conjI) auto
qed

end

interpretation pq_back: list_insertion push_back "\<lambda>x xs. xs @ [x]"
  by unfold_locales
    (auto simp: push_back_ok list_ok_fresh, auto simp: push_back_def elems_def list_ok_fresh)

interpretation pq_front: list_insertion push_front "(#)"
  by unfold_locales
    (auto simp: push_front_ok list_ok_fresh, auto simp: push_front_def elems_def list_ok_fresh)

section \<open>Erasure\<close>

lemma erase_node_vals:
  assumes "list_ok l" and "deref l n = Some (i, x)" and "erase_node l n = Some (nx, l')"
  shows "\<exists>ys zs. map snd (elems l) = ys @ x # zs \<and> map snd (elems l') = ys @ zs"
    and "length (nodes l) = Suc (length (nodes l'))"
proof -
  obtain as bs where l: "nodes l = as @ (n, (i, x)) # bs"
    using assms(1,2) deref_iff [OF assms(1)] by (metis split_list)
  then have "n \<notin> fst ` set as" "n \<notin> fst ` set bs" using list_okD(1) [OF assms(1)] by auto
  then have "filter (\<lambda>m. fst m \<noteq> n) as = as" "filter (\<lambda>m. fst m \<noteq> n) bs = bs" by (auto intro!: filter_True)
  then have l': "nodes l' = as @ bs" using erase_node_ok(3) [OF assms(1,3)] l by simp
  show "\<exists>ys zs. map snd (elems l) = ys @ x # zs \<and> map snd (elems l') = ys @ zs"
    using l l' by (intro exI [of _ "map (snd \<circ> snd) as"] exI [of _ "map (snd \<circ> snd) bs"]) (simp add: elems_def)
  show "length (nodes l) = Suc (length (nodes l'))" using l l' by simp
qed

lemma pq_Erase_ok:
  assumes ok: "pq_ok q" and pt: "pq_points q ptr x"
  shows "\<exists>q' ys zs. pq_Erase q ptr = Some q' \<and> pq_ok q' \<and> pq_Erase q' ptr = None \<and>
    (\<forall>r y. pq_points q r y \<and> id_of r \<noteq> id_of ptr \<longrightarrow> pq_points q' r y) \<and>
    pq_vals q ! unat (priority_of ptr) = ys @ x # zs \<and> pq_vals q' = (pq_vals q)[unat (priority_of ptr) := ys @ zs]"
proof -
  let ?p = "unat (priority_of ptr)" and ?i = "id_of ptr"
  let ?l = "lists_of q ! ?p"
  obtain n where n: "iterator_of ptr = Some n" "holds q ?p n ?i x" using pt by (auto simp: pq_points_def)
  then have p: "?p < length (lists_of q)" and d: "deref ?l n = Some (?i, x)" by (auto simp: holds_def)
  have lok: "list_ok ?l" using pq_okD(2) [OF ok] p by simp
  obtain nx l where l: "erase_node ?l n = Some (nx, l)" using erase_node_valid [OF d] by auto
  note e = erase_node_ok [OF lok l]
  obtain ys zs where v: "map snd (elems ?l) = ys @ x # zs" "map snd (elems l) = ys @ zs"
    using erase_node_vals(1) [OF lok d l] by blast
  have len: "length (nodes ?l) = Suc (length (nodes l))" by (rule erase_node_vals(2) [OF lok d l])
  have sum: "length (nodes ?l) \<le> sum_list (map (\<lambda>l. length (nodes l)) (lists_of q))"
    using p by (intro member_le_sum_list) auto
  have pos: "size_of q > 0" using pq_okD(3) [OF ok] len sum by simp
  have valid: "?i \<in> valid_ids_of q" using pq_okD(5) [OF ok] n(2) by blast
  define q' where "q' = q\<lparr>valid_ids_of := valid_ids_of q - {?i}, size_of := size_of q - 1, lists_of := (lists_of q)[?p := l]\<rparr>"
  have res: "pq_Erase q ptr = Some q'"
    using p pos valid n(1) d l by (simp add: pq_Erase_def q'_def)
  have h: "holds q' p' m i y \<longleftrightarrow> holds q p' m i y \<and> \<not> (p' = ?p \<and> m = n)" for p' m i y
    using p e(2) by (auto simp: holds_def q'_def nth_list_update)
  have uniq: "p' = ?p \<and> m = n" if "holds q p' m ?i y" for p' m y
    by (rule pq_okD(4) [OF ok n(2) that])
  have same: "i = ?i" if "holds q ?p n i y" for i y
    using n(2) that by (simp add: holds_def)
  have own: "holds q' p' m i y \<longleftrightarrow> holds q p' m i y \<and> i \<noteq> ?i" for p' m i y
    using h uniq same by metis
  have "pq_ok q'"
  proof (rule pq_okI)
    show "length (lists_of q') < 2 ^ 32" using pq_okD(1) [OF ok] by (simp add: q'_def)
    show "list_ok l'" if "l' \<in> set (lists_of q')" for l'
      using that e(1) pq_okD(2) [OF ok] by (auto simp: q'_def dest: set_update_subset_insert [THEN subsetD])
    show "size_of q' = sum_list (map (\<lambda>l. length (nodes l)) (lists_of q'))"
      using pq_okD(3) [OF ok] p len sum by (simp add: q'_def map_update sum_list_update)
    show "p'' = p' \<and> m' = m" if "holds q' p' m i y" "holds q' p'' m' i z" for p' m i y p'' m' z
      using that pq_okD(4) [OF ok, of p' m i y p'' m' z] by (auto simp: own)
    show "i \<in> valid_ids_of q' \<longleftrightarrow> (\<exists>p n x. holds q' p n i x)" for i
      using pq_okD(5) [OF ok, of i] by (auto simp: q'_def [THEN arg_cong [of _ _ valid_ids_of]] own)
    show "i < next_id_of q'" if "i \<in> valid_ids_of q'" for i
      using that pq_okD(6) [OF ok] by (simp add: q'_def)
  qed
  moreover have "pq_Erase q' ptr = None"
    by (auto simp: pq_Erase_def q'_def Option.bind_eq_None_conv)
  moreover have "\<forall>r y. pq_points q r y \<and> id_of r \<noteq> ?i \<longrightarrow> pq_points q' r y"
    by (auto simp: pq_points_def own)
  moreover have "pq_vals q ! ?p = ys @ x # zs" "pq_vals q' = (pq_vals q)[?p := ys @ zs]"
    using p v by (simp_all add: pq_vals_def q'_def map_update)
  ultimately show ?thesis using res by blast
qed

section \<open>Searching and traversal\<close>

text \<open>The list of a priority, from its first or last node on.\<close>

lemma make_Pointer_begin:
  assumes "list_ok l" and "nodes l \<noteq> []"
  shows "\<exists>n i x rest. list_begin l = Some n \<and> nodes l = (n, (i, x)) # rest \<and>
    make_Pointer l p (list_begin l) = Some \<lparr>priority_of = p, iterator_of = Some n, id_of = i\<rparr>"
  using assms by (cases "nodes l") (auto simp: list_begin_def make_Pointer_def deref_def)

lemma make_Pointer_last:
  assumes "list_ok l" and "nodes l \<noteq> []"
  shows "\<exists>n i x rest. list_last l = Some n \<and> nodes l = rest @ [(n, (i, x))] \<and>
    make_Pointer l p (list_last l) = Some \<lparr>priority_of = p, iterator_of = Some n, id_of = i\<rparr>"
proof -
  obtain n i x rest where l: "nodes l = rest @ [(n, (i, x))]"
    using assms(2) by (cases "nodes l" rule: rev_cases) auto
  have "deref l n = Some (i, x)" using deref_iff [OF assms(1)] l by simp
  with l show ?thesis by (simp add: list_last_def make_Pointer_def)
qed

lemma search_lists_skip:
  "(\<forall>i \<in> set js. nodes (ls ! i) = []) \<Longrightarrow> search_lists pick ls (js @ ks) = search_lists pick ls ks"
  by (induction js) auto

text \<open>
  The traversal: values from a pointer on. The fuel is the number of steps; a null pointer ends it.
\<close>

fun pq_traverse :: "nat \<Rightarrow> 'a PriorityQueue \<Rightarrow> pq_Pointer \<Rightarrow> 'a list option" where
  "pq_traverse 0 q ptr = (if is_null ptr then Some [] else None)"
| "pq_traverse (Suc k) q ptr =
     (if is_null ptr then Some []
      else do {
        x \<leftarrow> pq_value q ptr;
        ptr' \<leftarrow> GetNextTowardsLastMin q ptr;
        xs \<leftarrow> pq_traverse k q ptr';
        Some (x # xs)
      })"

lemma node_after_suffix:
  "distinct (map fst (xs @ (n, v) # ys)) \<Longrightarrow> node_after (xs @ (n, v) # ys) n = (case ys of [] \<Rightarrow> None | y # _ \<Rightarrow> Some (fst y))"
proof (induction xs)
  case Nil
  then show ?case by (cases ys) auto
next
  case (Cons a xs)
  then show ?case by (cases xs; cases a) auto
qed

lemma unat_index: "pq_ok q \<Longrightarrow> p < length (lists_of q) \<Longrightarrow> unat (of_nat p :: uint32) = p"
  using pq_okD(1) [of q] by (simp add: unat_of_nat take_bit_nat_eq_self_iff)

lemma index_not_null: "pq_ok q \<Longrightarrow> p < length (lists_of q) \<Longrightarrow> (of_nat p :: uint32) \<noteq> kNullPriority"
proof
  assume ok: "pq_ok q" and p: "p < length (lists_of q)" and "(of_nat p :: uint32) = kNullPriority"
  then have "p = unat (- 1 :: uint32)" using unat_index [OF ok p] by (simp add: kNullPriority_def)
  then have "p = 2 ^ 32 - 1" by (simp add: unsigned_minus_1_eq_mask mask_eq_exp_minus_1)
  with p pq_okD(1) [OF ok] show False by simp
qed

text \<open>
  All values from node n on: the rest of its list, then the lists of lower priorities in
  decreasing order of priority.
\<close>

definition lower_vals :: "'a PriorityQueue \<Rightarrow> nat \<Rightarrow> 'a list" where
  "lower_vals q p = concat (rev (take p (pq_vals q)))"

lemma lower_vals_Suc: "p < length (lists_of q) \<Longrightarrow> lower_vals q (Suc p) = pq_vals q ! p @ lower_vals q p"
  by (simp add: lower_vals_def pq_vals_def take_Suc_conv_app_nth)

definition traverses :: "'a PriorityQueue \<Rightarrow> nat \<Rightarrow> bool" where
  "traverses q k \<longleftrightarrow> (\<forall>p xs n i x ys. p < length (lists_of q) \<longrightarrow> nodes (lists_of q ! p) = xs @ (n, (i, x)) # ys \<longrightarrow>
     length ys + length (lower_vals q p) < k \<longrightarrow>
     pq_traverse k q \<lparr>priority_of = of_nat p, iterator_of = Some n, id_of = i\<rparr> =
       Some (x # map (snd \<circ> snd) ys @ lower_vals q p))"

lemma next_loop_vals:
  assumes ok: "pq_ok q" and "traverses q k"
  shows "p \<le> length (lists_of q) \<Longrightarrow> length (lower_vals q p) \<le> k \<Longrightarrow>
     \<exists>ptr. next_loop (lists_of q) p None = Some ptr \<and> pq_traverse k q ptr = Some (lower_vals q p)"
proof (induction p)
  case 0
  then show ?case by (cases k) (auto simp: lower_vals_def is_null_def null_Pointer_def)
next
  case (Suc p)
  let ?l = "lists_of q ! p"
  have lok: "list_ok ?l" using pq_okD(2) [OF ok] Suc.prems(1) by simp
  have lv: "lower_vals q (Suc p) = map (snd \<circ> snd) (nodes ?l) @ lower_vals q p"
    using Suc.prems(1) lower_vals_Suc [of p q] by (simp add: pq_vals_def elems_def)
  show ?case
  proof (cases "nodes ?l = []")
    case True
    then show ?thesis using Suc lv by (simp add: list_begin_def)
  next
    case False
    obtain n i x rest where l: "list_begin ?l = Some n" "nodes ?l = (n, (i, x)) # rest"
        "make_Pointer ?l (of_nat p) (list_begin ?l) = Some \<lparr>priority_of = of_nat p, iterator_of = Some n, id_of = i\<rparr>"
      using make_Pointer_begin [OF lok False] by blast
    then have "pq_traverse k q \<lparr>priority_of = of_nat p, iterator_of = Some n, id_of = i\<rparr> =
        Some (x # map (snd \<circ> snd) rest @ lower_vals q p)"
      using assms(2) [unfolded traverses_def, rule_format, of p "[]"] Suc.prems lv by simp
    with l lv show ?thesis by auto
  qed
qed

lemma traverse_vals: "pq_ok q \<Longrightarrow> traverses q k"
proof (induction k)
  case 0
  then show ?case by (simp add: traverses_def)
next
  case (Suc k)
  note ok = Suc.prems
  show ?case unfolding traverses_def
  proof (intro allI impI)
    fix p xs n i x ys
    assume p: "p < length (lists_of q)" and l: "nodes (lists_of q ! p) = xs @ (n, (i, x)) # ys"
      and k: "length ys + length (lower_vals q p) < Suc k"
    let ?l = "lists_of q ! p" and ?ptr = "\<lparr>priority_of = of_nat p, iterator_of = Some n, id_of = i\<rparr>"
    have lok: "list_ok ?l" using pq_okD(2) [OF ok] p by simp
    have u: "unat (of_nat p :: uint32) = p" by (rule unat_index [OF ok p])
    have nn: "\<not> is_null ?ptr" using index_not_null [OF ok p] by (simp add: is_null_def)
    have d: "deref ?l n = Some (i, x)" using deref_iff [OF lok] l by simp
    have after: "node_after (nodes ?l) n = (case ys of [] \<Rightarrow> None | y # _ \<Rightarrow> Some (fst y))"
      using node_after_suffix [of xs n "(i, x)" ys] list_okD(1) [OF lok] l by simp
    have next_eq: "GetNextTowardsLastMin q ?ptr = next_loop (lists_of q) p (case ys of [] \<Rightarrow> None | y # _ \<Rightarrow> Some (fst y))"
      using nn u p d after by (simp add: GetNextTowardsLastMin_def)
    have val: "pq_value q ?ptr = Some x" using u p d by (simp add: pq_value_def)
    have "\<exists>ptr'. GetNextTowardsLastMin q ?ptr = Some ptr' \<and> pq_traverse k q ptr' = Some (map (snd \<circ> snd) ys @ lower_vals q p)"
    proof (cases ys)
      case Nil
      then show ?thesis using next_loop_vals [OF ok Suc.IH [OF ok] less_imp_le [OF p]] k next_eq by simp
    next
      case (Cons y ys')
      obtain n' i' x' where y: "y = (n', (i', x'))" by (cases y) auto
      have "deref ?l n' = Some (i', x')" using deref_iff [OF lok] l Cons y by simp
      moreover have "pq_traverse k q \<lparr>priority_of = of_nat p, iterator_of = Some n', id_of = i'\<rparr> =
          Some (x' # map (snd \<circ> snd) ys' @ lower_vals q p)"
        using Suc.IH [OF ok, unfolded traverses_def, rule_format, of p "xs @ [(n, (i, x))]"] p l k Cons y by simp
      ultimately show ?thesis using Cons y next_eq by (simp add: make_Pointer_def)
    qed
    with nn val show "pq_traverse (Suc k) q ?ptr = Some (x # map (snd \<circ> snd) ys @ lower_vals q p)"
      by auto
  qed
qed

lemma FirstMax_next_loop: "pq_ok q \<Longrightarrow> FirstMax q = next_loop (lists_of q) (length (lists_of q)) None"
proof -
  assume "pq_ok q"
  have "search_lists list_begin ls (rev [0..<k]) = next_loop ls k None" for ls :: "(uint32 \<times> 'a) stdlist list" and k
    by (induction k) (auto simp: list_begin_def split: list.split)
  then show ?thesis by (simp add: FirstMax_def)
qed

lemma size_vals: "pq_ok q \<Longrightarrow> size_of q = length (concat (pq_vals q))"
  by (simp add: pq_okD(3) pq_vals_def elems_def length_concat o_def)

lemma search_finds:
  assumes ok: "pq_ok q" and js: "js = as @ p # bs" "p < length (lists_of q)" and "\<forall>a \<in> set as. pq_vals q ! a = []"
    and "set as \<subseteq> {..<length (lists_of q)}" and "pq_vals q ! p \<noteq> []"
  shows "\<exists>ptr. search_lists list_begin (lists_of q) js = Some ptr \<and> unat (priority_of ptr) = p \<and>
      pq_points q ptr (hd (pq_vals q ! p))"
    and "\<exists>ptr. search_lists list_last (lists_of q) js = Some ptr \<and> unat (priority_of ptr) = p \<and>
      pq_points q ptr (last (pq_vals q ! p))"
proof -
  let ?l = "lists_of q ! p"
  have lok: "list_ok ?l" using pq_okD(2) [OF ok] js(2) by simp
  have vals: "pq_vals q ! a = map (snd \<circ> snd) (nodes (lists_of q ! a))" if "a < length (lists_of q)" for a
    using that by (simp add: pq_vals_def elems_def)
  have skip: "\<forall>a \<in> set as. nodes (lists_of q ! a) = []" using assms(4,5) vals by fastforce
  have ne: "nodes ?l \<noteq> []" using assms(6) vals [OF js(2)] by auto
  have u: "unat (of_nat p :: uint32) = p" by (rule unat_index [OF ok js(2)])
  obtain n i x rest where b: "list_begin ?l = Some n" "nodes ?l = (n, (i, x)) # rest"
      "make_Pointer ?l (of_nat p) (list_begin ?l) = Some \<lparr>priority_of = of_nat p, iterator_of = Some n, id_of = i\<rparr>"
    using make_Pointer_begin [OF lok ne] by blast
  have "deref ?l n = Some (i, x)" using deref_iff [OF lok] b(2) by simp
  then show "\<exists>ptr. search_lists list_begin (lists_of q) js = Some ptr \<and> unat (priority_of ptr) = p \<and>
      pq_points q ptr (hd (pq_vals q ! p))"
    using b ne js u vals [OF js(2)] search_lists_skip [OF skip] by (simp add: pq_points_def holds_def)
  obtain n i x rest where b: "list_last ?l = Some n" "nodes ?l = rest @ [(n, (i, x))]"
      "make_Pointer ?l (of_nat p) (list_last ?l) = Some \<lparr>priority_of = of_nat p, iterator_of = Some n, id_of = i\<rparr>"
    using make_Pointer_last [OF lok ne] by blast
  have "deref ?l n = Some (i, x)" using deref_iff [OF lok] b(2) by simp
  then show "\<exists>ptr. search_lists list_last (lists_of q) js = Some ptr \<and> unat (priority_of ptr) = p \<and>
      pq_points q ptr (last (pq_vals q ! p))"
    using b ne js u vals [OF js(2)] search_lists_skip [OF skip] by (simp add: pq_points_def holds_def)
qed

lemma upt_split: "p < n \<Longrightarrow> [0..<n] = [0..<p] @ p # [Suc p..<n]"
  using upt_add_eq_append [of 0 p "n - p"] by (simp add: upt_conv_Cons)

lemma pq_vals_new3: "pq_vals (new_PriorityQueue 3) = [[], [], []]"
proof -
  have "pq_vals (new_PriorityQueue 3) = replicate (unat (3 :: uint32)) []" by (rule new_PriorityQueue_ok(2))
  also have "unat (3 :: uint32) = 3" by simp
  finally show ?thesis by (simp add: numeral_3_eq_3)
qed

section \<open>Properties\<close>

text \<open>
  Insertion and erasure. On a well-formed queue, inserting a value appends it to (or puts it in
  front of) the values of its priority and returns a pointer to it, every older pointer stays
  valid, and the queue stays well formed, as long as the 32-bit id counter has not run out.
  Erasing through a valid pointer removes exactly the value it points to, leaves the pointers
  to other values valid, and a second erasure through the same pointer is caught by a check.
\<close>

theorem pq_insert_erase:
  assumes "pq_ok q"
  shows "(unat p < length (lists_of q) \<and> next_id_of q \<noteq> -1 \<longrightarrow>
      (\<exists>ptr q'. pq_Insert q x p = Some (ptr, q') \<and> pq_ok q' \<and> priority_of ptr = p \<and> pq_points q' ptr x \<and>
         (\<forall>r y. pq_points q r y \<longrightarrow> pq_points q' r y) \<and> pq_vals q' = (pq_vals q)[unat p := pq_vals q ! unat p @ [x]]) \<and>
      (\<exists>ptr q'. pq_InsertAtFront q x p = Some (ptr, q') \<and> pq_ok q' \<and> priority_of ptr = p \<and> pq_points q' ptr x \<and>
         (\<forall>r y. pq_points q r y \<longrightarrow> pq_points q' r y) \<and> pq_vals q' = (pq_vals q)[unat p := x # pq_vals q ! unat p])) \<and>
    (pq_points q ptr y \<longrightarrow>
      (\<exists>q' ys zs. pq_Erase q ptr = Some q' \<and> pq_ok q' \<and> pq_Erase q' ptr = None \<and>
        (\<forall>r z. pq_points q r z \<and> id_of r \<noteq> id_of ptr \<longrightarrow> pq_points q' r z) \<and>
        pq_vals q ! unat (priority_of ptr) = ys @ y # zs \<and> pq_vals q' = (pq_vals q)[unat (priority_of ptr) := ys @ zs]))"
  using pq_back.insert_with_ok [OF assms, of p x] pq_front.insert_with_ok [OF assms, of p x] pq_Erase_ok [OF assms, of ptr y]
  unfolding pq_Insert_def pq_InsertAtFront_def by blast

theorem pq_insert_erase_witness:
  "\<exists>ptr q. pq_Insert (new_PriorityQueue 3) (65 :: nat) 1 = Some (ptr, q) \<and> pq_vals q = [[], [65], []] \<and>
     (\<exists>q'. pq_Erase q ptr = Some q' \<and> pq_vals q' = [[], [], []] \<and> pq_Erase q' ptr = None)"
proof -
  let ?q0 = "new_PriorityQueue 3 :: nat PriorityQueue"
  have v0: "pq_vals ?q0 = [[], [], []]" by (rule pq_vals_new3)
  have p: "unat (1 :: uint32) < length (lists_of ?q0) \<and> next_id_of ?q0 \<noteq> -1"
    by (simp add: new_PriorityQueue_def)
  obtain ptr q where q: "pq_Insert ?q0 65 1 = Some (ptr, q)" "pq_ok q" "priority_of ptr = 1" "pq_points q ptr 65"
      "pq_vals q = [[], [65], []]"
    using pq_insert_erase [OF new_PriorityQueue_ok(1), of 1 3 "65 :: nat",
      THEN conjunct1, THEN mp, OF p, THEN conjunct1] v0 by auto
  obtain q' ys zs where "pq_Erase q ptr = Some q'" "pq_Erase q' ptr = None" "pq_vals q ! 1 = ys @ 65 # zs"
      "pq_vals q' = (pq_vals q)[1 := ys @ zs]"
    using pq_insert_erase [OF q(2), of 1 0 ptr 65] q(3,4) by auto
  with q(1,5) show ?thesis by (auto simp: Cons_eq_append_conv)
qed

text \<open>
  The searches and the traversal. FirstMin and LastMin point to the first and the last value of
  the lowest priority in use, FirstMax and LastMax to those of the highest, and all four give a
  null pointer exactly for an empty queue. Starting at FirstMax and following
  GetNextTowardsLastMin visits every value once, by decreasing priority and first-in first-out
  within a priority, in as many steps as there are values.
\<close>

theorem pq_search_order:
  assumes "pq_ok q"
  shows "(concat (pq_vals q) = [] \<longrightarrow> FirstMin q = Some null_Pointer \<and> LastMin q = Some null_Pointer \<and>
       FirstMax q = Some null_Pointer \<and> LastMax q = Some null_Pointer) \<and>
    (p < length (pq_vals q) \<and> pq_vals q ! p \<noteq> [] \<and> (\<forall>j < p. pq_vals q ! j = []) \<longrightarrow>
       (\<exists>a b. FirstMin q = Some a \<and> unat (priority_of a) = p \<and> pq_points q a (hd (pq_vals q ! p)) \<and>
          LastMin q = Some b \<and> unat (priority_of b) = p \<and> pq_points q b (last (pq_vals q ! p)))) \<and>
    (p < length (pq_vals q) \<and> pq_vals q ! p \<noteq> [] \<and> (\<forall>j. p < j \<and> j < length (pq_vals q) \<longrightarrow> pq_vals q ! j = []) \<longrightarrow>
       (\<exists>a b. FirstMax q = Some a \<and> unat (priority_of a) = p \<and> pq_points q a (hd (pq_vals q ! p)) \<and>
          LastMax q = Some b \<and> unat (priority_of b) = p \<and> pq_points q b (last (pq_vals q ! p)))) \<and>
    (\<exists>ptr. FirstMax q = Some ptr \<and> pq_traverse (size_of q) q ptr = Some (concat (rev (pq_vals q))))"
proof (intro conjI impI)
  have len: "length (pq_vals q) = length (lists_of q)" by (simp add: pq_vals_def)
  have null: "search_lists pick (lists_of q) js = Some null_Pointer"
    if "concat (pq_vals q) = []" "set js \<subseteq> {..<length (lists_of q)}" for pick js
    using that search_lists_skip [of js "lists_of q" pick "[]"] by (force simp: pq_vals_def elems_def)
  show "concat (pq_vals q) = [] \<Longrightarrow> FirstMin q = Some null_Pointer" "concat (pq_vals q) = [] \<Longrightarrow> LastMin q = Some null_Pointer"
    "concat (pq_vals q) = [] \<Longrightarrow> FirstMax q = Some null_Pointer" "concat (pq_vals q) = [] \<Longrightarrow> LastMax q = Some null_Pointer"
    using null [of "[0..<length (lists_of q)]"] null [of "rev [0..<length (lists_of q)]"]
    by (simp_all add: FirstMin_def LastMin_def FirstMax_def LastMax_def atLeast0LessThan)
  show "\<exists>a b. FirstMin q = Some a \<and> unat (priority_of a) = p \<and> pq_points q a (hd (pq_vals q ! p)) \<and>
      LastMin q = Some b \<and> unat (priority_of b) = p \<and> pq_points q b (last (pq_vals q ! p))"
    if "p < length (pq_vals q) \<and> pq_vals q ! p \<noteq> [] \<and> (\<forall>j < p. pq_vals q ! j = [])"
  proof -
    have "[0..<length (lists_of q)] = [0..<p] @ p # [Suc p..<length (lists_of q)]"
      using that len by (intro upt_split) simp
    moreover have "{0..<p} \<subseteq> {..<length (lists_of q)}" using that len by auto
    ultimately show ?thesis
      using search_finds [OF assms, of "[0..<length (lists_of q)]" "[0..<p]" p "[Suc p..<length (lists_of q)]"] that len
      by (auto simp: FirstMin_def LastMin_def)
  qed
  show "\<exists>a b. FirstMax q = Some a \<and> unat (priority_of a) = p \<and> pq_points q a (hd (pq_vals q ! p)) \<and>
      LastMax q = Some b \<and> unat (priority_of b) = p \<and> pq_points q b (last (pq_vals q ! p))"
    if "p < length (pq_vals q) \<and> pq_vals q ! p \<noteq> [] \<and> (\<forall>j. p < j \<and> j < length (pq_vals q) \<longrightarrow> pq_vals q ! j = [])"
  proof -
    have "[0..<length (lists_of q)] = [0..<p] @ p # [Suc p..<length (lists_of q)]"
      using that len by (intro upt_split) simp
    then have "rev [0..<length (lists_of q)] = rev [Suc p..<length (lists_of q)] @ p # rev [0..<p]" by simp
    moreover have "{Suc p..<length (lists_of q)} \<subseteq> {..<length (lists_of q)}" by auto
    ultimately show ?thesis
      using search_finds [OF assms, of "rev [0..<length (lists_of q)]" "rev [Suc p..<length (lists_of q)]" p "rev [0..<p]"] that len
      by (auto simp: FirstMax_def LastMax_def)
  qed
  show "\<exists>ptr. FirstMax q = Some ptr \<and> pq_traverse (size_of q) q ptr = Some (concat (rev (pq_vals q)))"
  proof -
    have lv: "lower_vals q (length (lists_of q)) = concat (rev (pq_vals q))" by (simp add: lower_vals_def flip: len)
    then have "length (lower_vals q (length (lists_of q))) \<le> size_of q"
      using size_vals [OF assms] by (simp add: length_concat flip: rev_map)
    from next_loop_vals [OF assms traverse_vals [OF assms] order_refl this] show ?thesis
      by (simp only: lv FirstMax_next_loop [OF assms])
  qed
qed

theorem pq_search_order_witness:
  "\<exists>q. pq_ok q \<and> pq_vals q = [[], [65, 66 :: nat], []] \<and>
     (\<exists>a. FirstMin q = Some a \<and> unat (priority_of a) = 1 \<and> pq_points q a 65) \<and>
     (\<exists>ptr. FirstMax q = Some ptr \<and> pq_traverse 2 q ptr = Some [65, 66])"
proof -
  let ?q0 = "new_PriorityQueue 3 :: nat PriorityQueue"
  have v0: "pq_vals ?q0 = [[], [], []]" by (rule pq_vals_new3)
  have p: "unat (1 :: uint32) < length (lists_of ?q0) \<and> next_id_of ?q0 \<noteq> -1"
    by (simp add: new_PriorityQueue_def)
  obtain a q1 where q1: "pq_Insert ?q0 65 1 = Some (a, q1)" "pq_ok q1" "pq_vals q1 = [[], [65], []]"
    using pq_back.insert_with_ok [OF new_PriorityQueue_ok(1), of 1 3 "65 :: nat"] v0 p
    by (auto simp: pq_Insert_def)
  have "length (lists_of q1) = 3" "next_id_of q1 = 1"
    using q1(1) by (auto simp: pq_Insert_def insert_with_def new_PriorityQueue_def bind_eq_Some_conv split: prod.splits)
  then obtain q2 where q2: "pq_ok q2" "pq_vals q2 = [[], [65, 66 :: nat], []]"
    using pq_back.insert_with_ok [OF q1(2), of 1 66] q1(3) by auto
  have "size_of q2 = 2" using size_vals [OF q2(1)] q2(2) by simp
  with pq_search_order [OF q2(1), of 1, THEN conjunct2, THEN conjunct2, THEN conjunct2]
  have t: "\<exists>ptr. FirstMax q2 = Some ptr \<and> pq_traverse 2 q2 ptr = Some [65, 66]" by (simp add: q2(2))
  from pq_search_order [OF q2(1), of 1, THEN conjunct2, THEN conjunct1]
  have "\<exists>a. FirstMin q2 = Some a \<and> unat (priority_of a) = 1 \<and> pq_points q2 a 65" by (auto simp: q2(2))
  with t q2 show ?thesis by blast
qed

end
