(* ===== verification/Escape.thy ===== *)
theory Escape
  imports Prelude
begin

text \<open>
  net/base/escape.cc for byte strings: percent-encoding with a table of 256 bits, the unescaping of
  URLs with its rules, the bidirectional control characters that stay escaped and the record of
  adjustments; and the escaping of HTML, for characters of any width (the source has it for char
  and char16). Conversions between UTF-8 and UTF-16 are Chromium code outside this file.

  A loop over a string by index is a recursion over the rest of the string.
\<close>

section \<open>Escaping\<close>

definition kHexString :: "byte list" where
  "kHexString = [48, 49, 50, 51, 52, 53, 54, 55, 56, 57, 65, 66, 67, 68, 69, 70]"

definition IntToHex :: "byte \<Rightarrow> byte option" where
  "IntToHex i = do { dcheck (0 \<le> unat i); dcheck (unat i \<le> 15); Some (kHexString ! unat i) }"

type_synonym charmap = "uint32 list"

definition Charmap_Contains :: "charmap \<Rightarrow> byte \<Rightarrow> bool" where
  "Charmap_Contains cm c = (cm ! unat (drop_bit 5 c) AND push_bit (unat (c AND 31)) 1 \<noteq> 0)"

fun Escape :: "byte list \<Rightarrow> charmap \<Rightarrow> bool \<Rightarrow> byte list option" where
  "Escape [] cm use_plus = Some []"
| "Escape (c # str) cm use_plus = do {
     e \<leftarrow> (if use_plus \<and> c = 32 then Some [43]
          else if Charmap_Contains cm c then do {
            h \<leftarrow> IntToHex (drop_bit 4 c);
            l \<leftarrow> IntToHex (c AND 15);
            Some [37, h, l]
          }
          else Some [c]);
     r \<leftarrow> Escape str cm use_plus;
     Some (e @ r)
   }"

definition kQueryCharmap :: charmap where
  "kQueryCharmap = [0xffffffff, 0xfc00987d, 0x78000001, 0xb8000001, 0xffffffff, 0xffffffff, 0xffffffff, 0xffffffff]"
definition kPathCharmap :: charmap where
  "kPathCharmap = [0xffffffff, 0xd400002d, 0x78000000, 0xb8000001, 0xffffffff, 0xffffffff, 0xffffffff, 0xffffffff]"
definition kUrlEscape :: charmap where
  "kUrlEscape = [0xffffffff, 0xf80008fd, 0x78000001, 0xb8000001, 0xffffffff, 0xffffffff, 0xffffffff, 0xffffffff]"
definition kNonASCIICharmap :: charmap where
  "kNonASCIICharmap = [0, 0, 0, 0, 0xffffffff, 0xffffffff, 0xffffffff, 0xffffffff]"
definition kExternalHandlerCharmap :: charmap where
  "kExternalHandlerCharmap = [0xffffffff, 0x5000080d, 0x68000000, 0xb8000001, 0xffffffff, 0xffffffff, 0xffffffff, 0xffffffff]"

definition EscapeQueryParamValue :: "byte list \<Rightarrow> bool \<Rightarrow> byte list option" where
  "EscapeQueryParamValue str use_plus = Escape str kQueryCharmap use_plus"
definition EscapePath :: "byte list \<Rightarrow> byte list option" where
  "EscapePath path = Escape path kPathCharmap False"
definition EscapeUrlEncodedData :: "byte list \<Rightarrow> bool \<Rightarrow> byte list option" where
  "EscapeUrlEncodedData path use_plus = Escape path kUrlEscape use_plus"
definition EscapeNonASCII :: "byte list \<Rightarrow> byte list option" where
  "EscapeNonASCII input = Escape input kNonASCIICharmap False"
definition EscapeExternalHandlerValue :: "byte list \<Rightarrow> byte list option" where
  "EscapeExternalHandlerValue str = Escape str kExternalHandlerCharmap False"

section \<open>Unescaping URLs\<close>

text \<open>The rules of UnescapeRule are bits of an int.\<close>

type_synonym rules = uint32

definition NORMAL :: rules where "NORMAL = 1"
definition SPACES :: rules where "SPACES = 2"
definition URL_SPECIAL_CHARS :: rules where "URL_SPECIAL_CHARS = 4"
definition CONTROL_CHARS :: rules where "CONTROL_CHARS = 8"
definition REPLACE_PLUS_WITH_SPACE :: rules where "REPLACE_PLUS_WITH_SPACE = 16"

definition kUrlUnescape :: "nat list" where
  "kUrlUnescape = [
     0, 0, 0, 0, 0, 0, 0, 0, 0, 0, 0, 0, 0, 0, 0, 0,
     0, 0, 0, 0, 0, 0, 0, 0, 0, 0, 0, 0, 0, 0, 0, 0,
     0, 0, 1, 0, 0, 0, 0, 0, 0, 0, 0, 0, 0, 1, 0, 0,
     1, 1, 1, 1, 1, 1, 1, 1, 1, 1, 0, 0, 1, 0, 1, 0,
     0, 1, 1, 1, 1, 1, 1, 1, 1, 1, 1, 1, 1, 1, 1, 1,
     1, 1, 1, 1, 1, 1, 1, 1, 1, 1, 1, 0, 0, 0, 0, 1,
     0, 1, 1, 1, 1, 1, 1, 1, 1, 1, 1, 1, 1, 1, 1, 1,
     1, 1, 1, 1, 1, 1, 1, 1, 1, 1, 1, 0, 0, 0, 1, 0]"

definition IsHexDigit :: "byte \<Rightarrow> bool" where
  "IsHexDigit c = ((48 \<le> c \<and> c \<le> 57) \<or> (65 \<le> c \<and> c \<le> 70) \<or> (97 \<le> c \<and> c \<le> 102))"

definition HexDigitToInt :: "byte \<Rightarrow> byte" where
  "HexDigitToInt c =
     (if 48 \<le> c \<and> c \<le> 57 then c - 48
      else if 65 \<le> c \<and> c \<le> 70 then c - 65 + 10
      else if 97 \<le> c \<and> c \<le> 102 then c - 97 + 10
      else 0)"

text \<open>The text from the index on.\<close>

fun UnescapeUnsignedChar :: "byte list \<Rightarrow> byte option" where
  "UnescapeUnsignedChar (a # m # l # r) =
     (if a \<noteq> 37 then None
      else if IsHexDigit m \<and> IsHexDigit l then Some (HexDigitToInt m * 16 + HexDigitToInt l)
      else None)"
| "UnescapeUnsignedChar _ = None"

text \<open>The length of the escaped control sequence for bidirectional text at the index, zero if there is none.\<close>

definition bidi_length :: "byte list \<Rightarrow> nat" where
  "bidi_length t =
     (case UnescapeUnsignedChar t of None \<Rightarrow> 0
      | Some first \<Rightarrow>
          if first = 0xD8 \<and> UnescapeUnsignedChar (drop 3 t) = Some 0x9C then 6
          else if first = 0xE2 then
            (case UnescapeUnsignedChar (drop 3 t) of None \<Rightarrow> 0
             | Some second \<Rightarrow>
                 if second = 0x80 \<or> second = 0x81 then
                   (case UnescapeUnsignedChar (drop 6 t) of None \<Rightarrow> 0
                    | Some third \<Rightarrow>
                        if (if second = 0x80 then third = 0x8E \<or> third = 0x8F \<or> (0xAA \<le> third \<and> third \<le> 0xAE)
                            else 0xA6 \<le> third \<and> third \<le> 0xA9) then 9 else 0)
                 else 0)
          else 0)"

definition allowed :: "rules \<Rightarrow> byte \<Rightarrow> bool" where
  "allowed rules b =
     (0x80 \<le> b \<or> kUrlUnescape ! unat b \<noteq> 0 \<or> (b = 32 \<and> rules AND SPACES \<noteq> 0) \<or>
      (32 < b \<and> rules AND URL_SPECIAL_CHARS \<noteq> 0) \<or> (b < 32 \<and> rules AND CONTROL_CHARS \<noteq> 0))"

text \<open>
  One round of the loop: what it appends, the adjustment it records (offset, original length and
  output length) and how far it moves on.
\<close>

definition unescape_token :: "rules \<Rightarrow> nat \<Rightarrow> byte list \<Rightarrow> byte list \<times> (nat \<times> nat \<times> nat) list \<times> nat" where
  "unescape_token rules i t =
     (let c = hd t
      in if 128 \<le> c then ([c], [], 1)
         else case UnescapeUnsignedChar t of
             Some b \<Rightarrow>
               (if bidi_length t \<noteq> 0 then (take (bidi_length t) t, [], bidi_length t)
                else if allowed rules b then ([b], [(i, 3, 1)], 3)
                else ([37], [], 1))
           | None \<Rightarrow>
               if rules AND REPLACE_PLUS_WITH_SPACE \<noteq> 0 \<and> c = 43 then ([32], [], 1)
               else ([c], [], 1))"

lemma bidi_length_cases: "bidi_length t = 0 \<or> bidi_length t = 6 \<or> bidi_length t = 9"
  by (auto simp: bidi_length_def split: option.splits)

lemma unescape_token_moves: "unescape_token rules i t = (out, adj, n) \<Longrightarrow> 0 < n"
  using bidi_length_cases [of t] by (auto simp: unescape_token_def Let_def split: if_splits option.splits)

function unescape_loop :: "rules \<Rightarrow> nat \<Rightarrow> byte list \<Rightarrow> byte list \<times> (nat \<times> nat \<times> nat) list" where
  "unescape_loop rules i t =
     (if t = [] then ([], [])
      else case unescape_token rules i t of
        (out, adj, n) \<Rightarrow> (case unescape_loop rules (i + n) (drop n t) of (r, adjs) \<Rightarrow> (out @ r, adj @ adjs)))"
  by pat_completeness auto
termination
  by (relation "measure (\<lambda>(rules, i, t). length t)") (auto dest: unescape_token_moves [OF sym])

declare unescape_loop.simps [simp del]

definition UnescapeURLWithAdjustments :: "byte list \<Rightarrow> rules \<Rightarrow> byte list \<times> (nat \<times> nat \<times> nat) list" where
  "UnescapeURLWithAdjustments str rules = (if rules = 0 then (str, []) else unescape_loop rules 0 str)"

definition UnescapeURLComponent :: "byte list \<Rightarrow> rules \<Rightarrow> byte list" where
  "UnescapeURLComponent str rules = fst (UnescapeURLWithAdjustments str rules)"

section \<open>HTML\<close>

definition kCharsToEscape :: "('a::len word \<times> 'a word list) list" where
  "kCharsToEscape = [
     (60, [38, 108, 116, 59]),
     (62, [38, 103, 116, 59]),
     (38, [38, 97, 109, 112, 59]),
     (34, [38, 113, 117, 111, 116, 59]),
     (39, [38, 35, 51, 57, 59])]"

definition AppendEscapedCharForHTML :: "'a::len word \<Rightarrow> 'a word list \<Rightarrow> 'a word list" where
  "AppendEscapedCharForHTML c out =
     out @ (case map_of kCharsToEscape c of Some s \<Rightarrow> s | None \<Rightarrow> [c])"

definition EscapeForHTML :: "'a::len word list \<Rightarrow> 'a word list" where
  "EscapeForHTML input = foldl (\<lambda>out c. AppendEscapedCharForHTML c out) [] input"

definition kEscapeToChars :: "('a::len word list \<times> 'a word) list" where
  "kEscapeToChars = [
     ([38, 108, 116, 59], 60),
     ([38, 103, 116, 59], 62),
     ([38, 97, 109, 112, 59], 38),
     ([38, 113, 117, 111, 116, 59], 34),
     ([38, 35, 51, 57, 59], 39)]"

text \<open>The first code the text at the iterator starts with.\<close>

definition match_code :: "'a::len word list \<Rightarrow> ('a word list \<times> 'a word) option" where
  "match_code t = List.find (\<lambda>(code, ch). take (length code) t = code) kEscapeToChars"

text \<open>The loop of UnescapeForHTML replaces a code in place and goes on after the replacement.\<close>

lemma match_code_length: "match_code t = Some (code, ch) \<Longrightarrow> 0 < length code"
  by (auto simp: match_code_def kEscapeToChars_def split: if_splits)

function html_loop :: "'a::len word list \<Rightarrow> 'a word list" where
  "html_loop [] = []"
| "html_loop (c # r) =
     (case (if c = 38 then match_code (c # r) else None) of
        Some (code, ch) \<Rightarrow> ch # html_loop (drop (length code) (c # r))
      | None \<Rightarrow> c # html_loop r)"
  by pat_completeness auto
termination
  by (relation "measure length") (auto dest!: match_code_length split: if_splits)

declare html_loop.simps(2) [simp del]

definition UnescapeForHTML :: "'a::len word list \<Rightarrow> 'a word list" where
  "UnescapeForHTML input = (if 38 \<notin> set input then input else html_loop input)"


section \<open>Lemmas\<close>

declare UnescapeUnsignedChar.simps(1) [simp del]

definition nibble_ok :: "byte \<Rightarrow> bool" where
  "nibble_ok d = (case IntToHex d of Some h \<Rightarrow> IsHexDigit h \<and> HexDigitToInt h = d | None \<Rightarrow> False)"

lemma nibble_ok: "unat d < 16 \<Longrightarrow> nibble_ok d"
proof -
  assume "unat d < 16"
  moreover have "list_all (\<lambda>n. nibble_ok (word_of_nat n)) [0..<16]" by code_simp
  moreover have "d = word_of_nat (unat d)" by simp
  ultimately show ?thesis unfolding list_all_iff by (metis atLeastLessThan_upt atLeastLessThan_iff le0)
qed

lemma nibbles: "unat (drop_bit 4 (c :: byte)) < 16" "unat (c AND 15) < 16" "drop_bit 4 c * 16 + (c AND 15) = (c :: byte)"
proof -
  have m: "c AND 15 = take_bit 4 c" by (simp add: take_bit_eq_mask mask_eq_exp_minus_1)
  show "unat (c AND 15) < 16" unfolding m unsigned_take_bit_eq by (simp add: take_bit_eq_mod)
  have "unat c < 256" using unsigned_less [of c] by simp
  then show "unat (drop_bit 4 c) < 16" by (simp add: unat_shr)
  have "push_bit 4 (drop_bit 4 c) + take_bit 4 c = c" by (rule bits_ident)
  then show "drop_bit 4 c * 16 + (c AND 15) = c" unfolding m by (simp add: push_bit_eq_mult)
qed

lemma hex_pair:
  obtains h l where "IntToHex (drop_bit 4 c) = Some h" "IntToHex (c AND 15) = Some l"
    "\<And>r. UnescapeUnsignedChar (37 # h # l # r) = Some c"
  using nibble_ok [OF nibbles(1) [of c]] nibble_ok [OF nibbles(2) [of c]] nibbles(3) [of c]
  by (auto simp: nibble_ok_def UnescapeUnsignedChar.simps(1) split: option.splits)

lemma not_percent: "c \<noteq> 37 \<Longrightarrow> UnescapeUnsignedChar (c # r) = None"
  by (cases r; cases "tl r") (auto simp: UnescapeUnsignedChar.simps(1))

lemma Escape_Cons:
  "(use_plus \<and> c = 32 \<and> Escape (c # str) cm use_plus = map_option (\<lambda>r. 43 # r) (Escape str cm use_plus)) \<or>
   (\<exists>h l. \<not> (use_plus \<and> c = 32) \<and> Charmap_Contains cm c \<and> (\<forall>r. UnescapeUnsignedChar (37 # h # l # r) = Some c) \<and>
      Escape (c # str) cm use_plus = map_option (\<lambda>r. 37 # h # l # r) (Escape str cm use_plus)) \<or>
   (\<not> (use_plus \<and> c = 32) \<and> \<not> Charmap_Contains cm c \<and> Escape (c # str) cm use_plus = map_option (\<lambda>r. c # r) (Escape str cm use_plus))"
proof (cases "use_plus \<and> c = 32")
  case True
  then show ?thesis by (cases "Escape str cm use_plus") auto
next
  case False
  obtain h l where hl: "IntToHex (drop_bit 4 c) = Some h" "IntToHex (c AND 15) = Some l"
    "\<And>r. UnescapeUnsignedChar (37 # h # l # r) = Some c" by (rule hex_pair [of c]) blast
  have e: "Escape (c # str) cm use_plus =
      (if Charmap_Contains cm c then map_option (\<lambda>r. 37 # h # l # r) (Escape str cm use_plus)
       else map_option (\<lambda>r. c # r) (Escape str cm use_plus))"
    using False by (cases "Escape str cm use_plus") (auto simp: hl)
  from hl(3) False show ?thesis unfolding e by (cases "Charmap_Contains cm c") auto
qed

lemma Escape_total: "\<exists>e. Escape str cm use_plus = Some e"
proof (induction str)
  case (Cons c str)
  then show ?case using Escape_Cons [of use_plus c str cm] by auto
qed simp

text \<open>An escape at a token boundary of escaped text is the escape of the next byte.\<close>

lemma Escape_boundary:
  assumes "Escape str cm use_plus = Some e" and pct: "Charmap_Contains cm 37" and u: "UnescapeUnsignedChar e = Some b"
  shows "\<exists>str' e'. str = b # str' \<and> drop 3 e = e' \<and> Escape str' cm use_plus = Some e'"
proof (cases str)
  case Nil
  with assms show ?thesis by simp
next
  case (Cons c str')
  obtain r where r: "Escape str' cm use_plus = Some r" using Escape_total by blast
  from Escape_Cons [of use_plus c str' cm] show ?thesis
  proof (elim disjE exE conjE)
    fix h l assume hl: "\<forall>r. UnescapeUnsignedChar (37 # h # l # r) = Some c"
      and e: "Escape (c # str') cm use_plus = map_option (\<lambda>r. 37 # h # l # r) (Escape str' cm use_plus)"
    then have "e = 37 # h # l # r" using assms(1) Cons r by simp
    with hl u r Cons show ?thesis by simp
  next
    assume "use_plus" "c = 32" "Escape (c # str') cm use_plus = map_option (\<lambda>r. 43 # r) (Escape str' cm use_plus)"
    then have "e = 43 # r" using assms(1) Cons r by simp
    moreover have "UnescapeUnsignedChar (43 # r) = None" by (simp add: not_percent)
    ultimately show ?thesis using u by simp
  next
    assume n: "\<not> Charmap_Contains cm c"
      and "Escape (c # str') cm use_plus = map_option (\<lambda>r. c # r) (Escape str' cm use_plus)"
    then have "e = c # r" using assms(1) Cons r by simp
    moreover have "c \<noteq> 37" using n pct by auto
    then have "UnescapeUnsignedChar (c # r) = None" by (simp add: not_percent)
    ultimately show ?thesis using u by simp
  qed
qed

text \<open>The bidirectional control characters in UTF-8, which stay escaped.\<close>

definition bidi_at :: "byte list \<Rightarrow> bool" where
  "bidi_at t \<longleftrightarrow> take 2 t = [0xD8, 0x9C] \<or>
     (\<exists>x. take 3 t = [0xE2, 0x80, x] \<and> (x = 0x8E \<or> x = 0x8F \<or> (0xAA \<le> x \<and> x \<le> 0xAE))) \<or>
     (\<exists>x. take 3 t = [0xE2, 0x81, x] \<and> 0xA6 \<le> x \<and> x \<le> 0xA9)"

fun no_bidi :: "byte list \<Rightarrow> bool" where
  "no_bidi [] = True"
| "no_bidi (c # t) = (\<not> bidi_at (c # t) \<and> no_bidi t)"

lemma bidi_length_escape:
  assumes e: "Escape str cm use_plus = Some e" and pct: "Charmap_Contains cm 37" and nb: "no_bidi str"
  shows "bidi_length e = 0"
proof (cases "UnescapeUnsignedChar e")
  case None
  then show ?thesis by (simp add: bidi_length_def)
next
  case (Some a)
  from Escape_boundary [OF e pct Some] obtain t1 where t1: "str = a # t1" "Escape t1 cm use_plus = Some (drop 3 e)" by auto
  show ?thesis
  proof (cases "UnescapeUnsignedChar (drop 3 e)")
    case None
    then show ?thesis using Some by (simp add: bidi_length_def)
  next
    case s: (Some b)
    from Escape_boundary [OF t1(2) pct s] obtain t2 where t2: "t1 = b # t2" "Escape t2 cm use_plus = Some (drop 6 e)" by auto
    have no6: "\<not> (a = 0xD8 \<and> b = 0x9C)" using nb t1 t2 by (auto simp: bidi_at_def)
    show ?thesis
    proof (cases "UnescapeUnsignedChar (drop 6 e)")
      case None
      then show ?thesis using Some s no6 by (simp add: bidi_length_def)
    next
      case th: (Some x)
      from Escape_boundary [OF t2(2) pct th] obtain t3 where "t2 = x # t3" by auto
      then have "\<not> bidi_at (a # b # x # t3)" using nb t1 t2 by simp
      then have "\<not> (a = 0xE2 \<and> b = 0x80 \<and> (x = 0x8E \<or> x = 0x8F \<or> (0xAA \<le> x \<and> x \<le> 0xAE)))"
        "\<not> (a = 0xE2 \<and> b = 0x81 \<and> 0xA6 \<le> x \<and> x \<le> 0xA9)" by (auto simp: bidi_at_def)
      then show ?thesis using Some s th no6 by (auto simp: bidi_length_def)
    qed
  qed
qed

lemma unescape_loop_Cons:
  assumes "unescape_token rules i (c # t) = (out, adj, n)"
  shows "fst (unescape_loop rules i (c # t)) = out @ fst (unescape_loop rules (i + n) (drop n (c # t)))"
  using assms by (subst unescape_loop.simps) (simp add: case_prod_beta)

definition all_rules :: "bool \<Rightarrow> rules \<Rightarrow> bool" where
  "all_rules use_plus rules \<longleftrightarrow> rules AND SPACES \<noteq> 0 \<and> rules AND URL_SPECIAL_CHARS \<noteq> 0 \<and>
     rules AND CONTROL_CHARS \<noteq> 0 \<and> (rules AND REPLACE_PLUS_WITH_SPACE \<noteq> 0 \<longleftrightarrow> use_plus)"

lemma all_rules_allowed: "all_rules use_plus rules \<Longrightarrow> allowed rules b"
  using less_linear [of b 32] by (auto simp: all_rules_def allowed_def)

lemma unescape_escape:
  assumes pct: "Charmap_Contains cm 37" and plus: "use_plus \<Longrightarrow> Charmap_Contains cm 43" and rules: "all_rules use_plus rules"
  shows "Escape str cm use_plus = Some e \<Longrightarrow> no_bidi str \<Longrightarrow> fst (unescape_loop rules i e) = str"
proof (induction str arbitrary: e i)
  case Nil
  then show ?case by (simp add: unescape_loop.simps)
next
  case (Cons c str)
  obtain r where r: "Escape str cm use_plus = Some r" using Escape_total by blast
  have ih: "fst (unescape_loop rules k r) = str" for k using Cons.IH [OF r] Cons.prems(2) by simp
  from Escape_Cons [of use_plus c str cm] show ?case
  proof (elim disjE exE conjE)
    assume c: "use_plus" "c = 32" and "Escape (c # str) cm use_plus = map_option (\<lambda>r. 43 # r) (Escape str cm use_plus)"
    then have e: "e = 43 # r" using Cons.prems(1) r by simp
    have "unescape_token rules i e = ([32], [], 1)"
      using rules c(1) by (simp add: e unescape_token_def not_percent all_rules_def)
    then show ?thesis using unescape_loop_Cons [of rules i 43 r] ih c(2) by (simp add: e)
  next
    fix h l assume hl: "\<forall>r. UnescapeUnsignedChar (37 # h # l # r) = Some c"
      and "Escape (c # str) cm use_plus = map_option (\<lambda>r. 37 # h # l # r) (Escape str cm use_plus)"
    then have e: "e = 37 # h # l # r" using Cons.prems(1) r by simp
    have "bidi_length e = 0" by (rule bidi_length_escape [OF Cons.prems(1) pct Cons.prems(2)])
    then have "unescape_token rules i e = ([c], [(i, 3, 1)], 3)"
      using hl all_rules_allowed [OF rules] by (simp add: e unescape_token_def)
    then show ?thesis using unescape_loop_Cons [of rules i 37 "h # l # r"] ih by (simp add: e)
  next
    assume n: "\<not> Charmap_Contains cm c"
      and "Escape (c # str) cm use_plus = map_option (\<lambda>r. c # r) (Escape str cm use_plus)"
    then have e: "e = c # r" using Cons.prems(1) r by simp
    have "c \<noteq> 37" using n pct by auto
    moreover have "\<not> (rules AND REPLACE_PLUS_WITH_SPACE \<noteq> 0 \<and> c = 43)"
      using n plus rules by (auto simp: all_rules_def)
    ultimately have "unescape_token rules i e = ([c], [], 1)"
      by (auto simp: e unescape_token_def not_percent)
    then show ?thesis using unescape_loop_Cons [of rules i c r] ih by (simp add: e)
  qed
qed

lemma unescape_token_adjust:
  assumes "unescape_token rules i t = (out, adj, n)" and "t \<noteq> []"
  shows "n \<le> length t \<and> length out + 2 * length adj = n \<and> (adj = [] \<or> adj = [(i, 3, 1)] \<and> n = 3)"
proof -
  have len3: "3 \<le> length t" if "UnescapeUnsignedChar t = Some b" for b t
    using that by (cases t rule: UnescapeUnsignedChar.cases) auto
  have "bidi_length t \<le> length t"
    using len3 [of t] len3 [of "drop 3 t"] len3 [of "drop 6 t"]
    by (fastforce simp: bidi_length_def split: option.splits)
  then show ?thesis
    using assms len3 [of t] by (cases t) (auto simp: unescape_token_def Let_def split: if_splits option.splits)
qed

lemma unescape_loop_adjust:
  "unescape_loop rules i t = (r, adjs) \<Longrightarrow> length r + 2 * length adjs = length t \<and>
   (\<forall>(off, a, b) \<in> set adjs. a = 3 \<and> b = 1 \<and> i \<le> off \<and> off + 3 \<le> i + length t) \<and>
   sorted_wrt (\<lambda>(x, _) (y, _). x + 3 \<le> y) adjs"
proof (induction "length t" arbitrary: i t r adjs rule: less_induct)
  case less
  show ?case
  proof (cases "t = []")
    case True
    then show ?thesis using less.prems by (simp add: unescape_loop.simps)
  next
    case False
    obtain out adj n where tok: "unescape_token rules i t = (out, adj, n)" by (metis prod_cases3)
    note n = unescape_token_moves [OF tok] unescape_token_adjust [OF tok False]
    obtain r' adjs' where rec: "unescape_loop rules (i + n) (drop n t) = (r', adjs')" by fastforce
    have ra: "r = out @ r'" "adjs = adj @ adjs'"
      using less.prems False tok rec by (subst (asm) unescape_loop.simps; simp)+
    have "length (drop n t) < length t" using n(1) False by simp
    from less.hyps [OF this rec] n show ?thesis
      unfolding ra by (fastforce simp: sorted_wrt_append)
  qed
qed


section \<open>HTML and the tables\<close>

lemma EscapeForHTML_concat:
  "EscapeForHTML s = concat (map (\<lambda>c. case map_of kCharsToEscape c of Some t \<Rightarrow> t | None \<Rightarrow> [c]) s)"
proof -
  have "foldl (\<lambda>out c. AppendEscapedCharForHTML c out) acc s =
      acc @ concat (map (\<lambda>c. case map_of kCharsToEscape c of Some t \<Rightarrow> t | None \<Rightarrow> [c]) s)" for acc
    by (induction s arbitrary: acc) (simp_all add: AppendEscapedCharForHTML_def)
  then show ?thesis by (simp add: EscapeForHTML_def)
qed

lemma html_loop_other: "c \<noteq> 38 \<Longrightarrow> html_loop (c # r) = c # html_loop r"
  by (simp add: html_loop.simps(2))

lemma html_loop_code:
  "match_code (38 # t) = Some (code, ch) \<Longrightarrow> html_loop (38 # t) = ch # html_loop (drop (length code) (38 # t))"
  by (simp add: html_loop.simps(2))

lemma html_loop_codes:
  fixes r :: "uint16 list"
  shows "html_loop ([38, 108, 116, 59] @ r) = 60 # html_loop r"
    "html_loop ([38, 103, 116, 59] @ r) = 62 # html_loop r"
    "html_loop ([38, 97, 109, 112, 59] @ r) = 38 # html_loop r"
    "html_loop ([38, 113, 117, 111, 116, 59] @ r) = 34 # html_loop r"
    "html_loop ([38, 35, 51, 57, 59] @ r) = 39 # html_loop r"
  by (simp_all add: html_loop.simps(2) match_code_def kEscapeToChars_def)

lemma html_loop_escape: "html_loop (EscapeForHTML (s :: uint16 list)) = s"
proof (induction s)
  case (Cons c s)
  have step: "EscapeForHTML (c # s) = (case map_of kCharsToEscape c of Some t \<Rightarrow> t | None \<Rightarrow> [c]) @ EscapeForHTML s"
    by (simp add: EscapeForHTML_concat)
  consider "c = 60" | "c = 62" | "c = 38" | "c = 34" | "c = 39" | "c \<notin> {60, 62, 38, 34, 39}" by blast
  then show ?case
  proof cases
    case 6
    then have "EscapeForHTML (c # s) = c # EscapeForHTML s" unfolding step by (simp add: kCharsToEscape_def)
    then show ?thesis using 6 Cons.IH by (simp add: html_loop_other)
  qed (use Cons.IH html_loop_codes [of "EscapeForHTML s"] in \<open>simp_all add: EscapeForHTML_concat kCharsToEscape_def\<close>)
qed (simp add: EscapeForHTML_def)

lemma html_loop_no_ampersand: "38 \<notin> set s \<Longrightarrow> html_loop s = s"
  by (induction s) (auto simp: html_loop_other)

definition alnum :: "int \<Rightarrow> bool" where
  "alnum n = ((48 \<le> n \<and> n \<le> 57) \<or> (65 \<le> n \<and> n \<le> 90) \<or> (97 \<le> n \<and> n \<le> 122))"

definition printable :: "int \<Rightarrow> bool" where "printable n = (33 \<le> n \<and> n \<le> 126)"

text \<open>The characters the comments in the source name, as ASCII codes.\<close>

definition query_kept :: "int list" where
  "query_kept = [33, 39, 40, 41, 42, 45, 46, 95, 126]"
definition path_named :: "int list" where
  "path_named = [34, 35, 37, 58, 60, 62, 63, 91, 92, 93, 94, 96, 123, 124, 125]"
definition url_named :: "int list" where
  "url_named = [63, 62, 61, 60, 59, 43, 39, 38, 37, 36, 35, 34, 33, 91, 92, 93, 94, 96, 123, 124, 125]"
definition external_kept :: "int list" where
  "external_kept = [59, 47, 63, 58, 64, 38, 61, 43, 36, 44, 33, 39, 40, 41, 42, 45, 46, 95, 126, 37]"

lemma Charmap_bit: "Charmap_Contains cm c = bit (cm ! nat (uint c div 32)) (nat (uint c mod 32))"
proof -
  have u: "nat (uint c div 32) = unat c div 32" "nat (uint c mod 32) = unat c mod 32"
  proof -
    have n: "uint c = int (unat c)" by simp
    show "nat (uint c div 32) = unat c div 32" "nat (uint c mod 32) = unat c mod 32"
      unfolding n by (simp_all only: nat_div_distrib nat_mod_distrib of_nat_0_le_iff nat_int zero_le_numeral nat_numeral)
  qed
  have m: "c AND 31 = take_bit 5 c" by (simp add: take_bit_eq_mask mask_eq_exp_minus_1)
  have "unat (c AND 31) = unat c mod 32" unfolding m unsigned_take_bit_eq by (simp add: take_bit_eq_mod)
  moreover have "unat (drop_bit 5 c) = unat c div 32" by (simp add: unat_shr)
  ultimately show ?thesis
    by (simp add: u Charmap_Contains_def and_exp_eq_0_iff_not_bit [where 'a = "32 word", simplified])
qed

lemma all_codes: "list_all P [0..255] \<Longrightarrow> P (uint (c :: byte))"
proof -
  assume "list_all P [0..255]"
  moreover have "uint c < 2 ^ LENGTH(8)" by (rule unsigned_less)
  ultimately show ?thesis by (simp add: list_all_iff)
qed

section \<open>Properties\<close>

text \<open>
  Escaping loses nothing. With a table that escapes the percent sign (and the plus sign when
  spaces become plus signs), unescaping with all rules gives the text back, for every text that has
  none of the bidirectional control characters; those stay escaped on purpose.
\<close>

theorem url_escape_roundtrip:
  assumes "Charmap_Contains cm 37" and "use_plus \<longrightarrow> Charmap_Contains cm 43" and "no_bidi str"
    and "rules AND SPACES \<noteq> 0 \<and> rules AND URL_SPECIAL_CHARS \<noteq> 0 \<and> rules AND CONTROL_CHARS \<noteq> 0"
    and "rules AND REPLACE_PLUS_WITH_SPACE \<noteq> 0 \<longleftrightarrow> use_plus"
  shows "\<exists>e. Escape str cm use_plus = Some e \<and> UnescapeURLComponent e rules = str"
proof -
  have r: "all_rules use_plus rules" using assms(4,5) by (simp add: all_rules_def)
  then have "rules \<noteq> 0" by (auto simp: all_rules_def)
  moreover obtain e where e: "Escape str cm use_plus = Some e" using Escape_total by blast
  moreover have "fst (unescape_loop rules 0 e) = str"
    by (rule unescape_escape [OF assms(1) _ r e assms(3)]) (use assms(2) in simp)
  ultimately show ?thesis by (simp add: UnescapeURLComponent_def UnescapeURLWithAdjustments_def)
qed

theorem url_escape_roundtrip_witness:
  "\<exists>e. EscapeQueryParamValue [97, 32, 43, 0, 200] True = Some e \<and> UnescapeURLComponent e 30 = [97, 32, 43, 0, 200] \<and>
     e = [97, 43, 37, 50, 66, 37, 48, 48, 37, 67, 56]"
proof -
  have "\<exists>e. Escape [97, 32, 43, 0, 200] kQueryCharmap True = Some e \<and> UnescapeURLComponent e 30 = [97, 32, 43, 0, 200]"
  proof (rule url_escape_roundtrip)
    show "no_bidi [97, 32, 43, 0, 200]" by (simp add: bidi_at_def)
  qed (code_simp+)
  moreover have "Escape [97, 32, 43, 0, 200] kQueryCharmap True = Some [97, 43, 37, 50, 66, 37, 48, 48, 37, 67, 56]"
    by code_simp
  ultimately show ?thesis by (simp add: EscapeQueryParamValue_def)
qed

text \<open>
  The adjustments record exactly what unescaping removed: each stands for three bytes of the
  input that became one, they lie in the input without overlapping and in order, and the result is
  shorter than the input by two bytes for each.
\<close>

theorem unescape_adjustments:
  assumes "UnescapeURLWithAdjustments str rules = (r, adjs)"
  shows "length r + 2 * length adjs = length str \<and> sorted_wrt (\<lambda>(x, _) (y, _). x + 3 \<le> y) adjs \<and>
    set adjs \<subseteq> (\<lambda>off. (off, 3, 1)) ` {off. off + 3 \<le> length str}"
proof (cases "rules = 0")
  case True
  then show ?thesis using assms by (auto simp: UnescapeURLWithAdjustments_def)
next
  case False
  then have "unescape_loop rules 0 str = (r, adjs)" using assms by (simp add: UnescapeURLWithAdjustments_def)
  from unescape_loop_adjust [OF this] show ?thesis by fastforce
qed

theorem unescape_adjustments_witness:
  "UnescapeURLWithAdjustments [37, 52, 49, 37, 50, 48, 37, 52, 50] NORMAL = ([65, 37, 50, 48, 66], [(0, 3, 1), (6, 3, 1)]) \<and>
   length [65, 37, 50, 48, 66 :: byte] + 2 * length [(0, 3, 1), (6 :: nat, 3 :: nat, 1 :: nat)] = 9"
proof -
  have u: "UnescapeURLWithAdjustments [37, 52, 49, 37, 50, 48, 37, 52, 50] NORMAL = ([65, 37, 50, 48, 66], [(0, 3, 1), (6, 3, 1)])"
    by code_simp
  from unescape_adjustments [OF u] have "length [65, 37, 50, 48, 66 :: byte] + 2 * length [(0, 3, 1), (6 :: nat, 3 :: nat, 1 :: nat)] = 9"
    by simp
  with u show ?thesis by blast
qed

text \<open>Escaping a text for HTML and unescaping it gives the text back.\<close>

theorem html_escape_roundtrip: "UnescapeForHTML (EscapeForHTML (s :: uint16 list)) = s"
proof (cases "38 \<in> set (EscapeForHTML s)")
  case True
  then show ?thesis by (simp add: UnescapeForHTML_def html_loop_escape)
next
  case False
  then have "html_loop (EscapeForHTML s) = EscapeForHTML s" by (rule html_loop_no_ampersand)
  then show ?thesis using False by (simp add: UnescapeForHTML_def html_loop_escape)
qed

text \<open>
  The tables of characters to escape against the comments that describe them. The tables for
  queries, paths and non-ASCII text are as documented. The one for URL-encoded data leaves the
  exclamation mark alone although its comment names it, and escapes the commercial at, which it does
  not name; the one for external handlers escapes the plus sign, which it says to keep, and keeps the
  backslash, which it says to escape.
\<close>

theorem escape_tables:
  fixes c :: byte
  defines "n \<equiv> uint c"
  shows "Charmap_Contains kQueryCharmap c = (\<not> (alnum n \<or> n \<in> set query_kept)) \<and>
   Charmap_Contains kPathCharmap c = (\<not> printable n \<or> n \<in> set path_named) \<and>
   Charmap_Contains kNonASCIICharmap c = (128 \<le> n) \<and>
   Charmap_Contains kUrlEscape c =
     (if n = 33 then False else if n = 64 then True else \<not> printable n \<or> n \<in> set url_named) \<and>
   Charmap_Contains kExternalHandlerCharmap c =
     (if n = 43 then True else if n = 92 then False else \<not> (alnum n \<or> n \<in> set external_kept))"
  unfolding Charmap_bit n_def
proof (intro conjI)
  show "bit (kQueryCharmap ! nat (uint c div 32)) (nat (uint c mod 32)) = (\<not> (alnum (uint c) \<or> uint c \<in> set query_kept))"
    by (rule all_codes) code_simp
  show "bit (kPathCharmap ! nat (uint c div 32)) (nat (uint c mod 32)) = (\<not> printable (uint c) \<or> uint c \<in> set path_named)"
    by (rule all_codes) code_simp
  show "bit (kNonASCIICharmap ! nat (uint c div 32)) (nat (uint c mod 32)) = (128 \<le> uint c)"
    by (rule all_codes) code_simp
  show "bit (kUrlEscape ! nat (uint c div 32)) (nat (uint c mod 32)) =
     (if uint c = 33 then False else if uint c = 64 then True else \<not> printable (uint c) \<or> uint c \<in> set url_named)"
    by (rule all_codes) code_simp
  show "bit (kExternalHandlerCharmap ! nat (uint c div 32)) (nat (uint c mod 32)) =
     (if uint c = 43 then True else if uint c = 92 then False else \<not> (alnum (uint c) \<or> uint c \<in> set external_kept))"
    by (rule all_codes) code_simp
qed

end
