(* ===== verification/IpPattern.thy ===== *)
theory IpPattern
  imports NumberConv StringSplit
begin

text \<open>
  net/base/ip_pattern.cc: textual patterns for IP addresses, their parser and the test of an address
  against a parsed pattern. The values of the components are uint32 in the source and integers of
  that range here. Reading a vector or following an iterator out of range is the value None, as is a
  DCHECK that fires.
\<close>

section \<open>Patterns\<close>

text \<open>The ranges of a ComponentPattern.\<close>

type_synonym component_pattern = "(int \<times> int) list"

definition AppendRange :: "component_pattern \<Rightarrow> int \<Rightarrow> int \<Rightarrow> component_pattern" where
  "AppendRange ranges lo hi = ranges @ [(lo, hi)]"

fun ComponentPattern_Match :: "component_pattern \<Rightarrow> int \<Rightarrow> bool" where
  "ComponentPattern_Match [] val = False"
| "ComponentPattern_Match ((lo, hi) # ranges) val = (if val \<le> hi \<and> lo \<le> val then True else ComponentPattern_Match ranges val)"

record IPPattern =
  is_ipv4 :: bool
  ip_mask :: "bool list"
  component_values :: "int list"
  component_patterns :: "component_pattern list"

definition new_IPPattern :: IPPattern where
  "new_IPPattern = \<lparr>is_ipv4 = True, ip_mask = [], component_values = [], component_patterns = []\<rparr>"

section \<open>Parsing\<close>

text \<open>Each parser returns the result of the source and what it leaves in the object passed to it.\<close>

definition ValueTextToInt :: "bool \<Rightarrow> byte list \<Rightarrow> int \<Rightarrow> (bool \<times> int) option" where
  "ValueTextToInt v4 input out = do {
     (ok, out1) \<leftarrow> (if v4 then StringToUint input out else HexStringToUInt input out);
     (if \<not> ok then Some (False, out1)
      else if v4 \<and> 255 < out1 then Some (False, out1)
      else if \<not> v4 \<and> 0xFFFF < out1 then Some (False, out1)
      else Some (ok, out1))
   }"

fun range_loop :: "bool \<Rightarrow> byte list list \<Rightarrow> component_pattern \<Rightarrow> (bool \<times> component_pattern) option" where
  "range_loop v4 [] pattern = Some (True, pattern)"
| "range_loop v4 (piece # ranges) pattern =
     (case QuickGetNext [45] piece of
        (_, token1, rest1) \<Rightarrow> do {
          (ok1, lo) \<leftarrow> ValueTextToInt v4 token1 0;
          (if \<not> ok1 then Some (False, pattern)
           else case QuickGetNext [45] rest1 of
             (second, token2, rest2) \<Rightarrow> do {
               (ok2, hi) \<leftarrow> (if second then ValueTextToInt v4 token2 lo else Some (True, lo));
               (if \<not> ok2 then Some (False, pattern)
                else if fst (QuickGetNext [45] rest2) then Some (False, pattern)
                else range_loop v4 ranges (AppendRange pattern lo hi))
             })
        })"

definition ParseComponentPattern :: "bool \<Rightarrow> byte list \<Rightarrow> component_pattern \<Rightarrow> (bool \<times> component_pattern) option" where
  "ParseComponentPattern v4 str pattern = do {
     ranges \<leftarrow> SplitString str 44;
     range_loop v4 ranges pattern
   }"

definition any_component :: "bool \<Rightarrow> byte list" where
  "any_component v4 = (if v4 then [91, 48, 45, 50, 53, 53, 93] else [91, 48, 45, 70, 70, 70, 70, 93])"

text \<open>One component of the text: whether parsing goes on, and the pattern.\<close>

definition parse_component :: "byte list \<Rightarrow> IPPattern \<Rightarrow> (bool \<times> IPPattern) option" where
  "parse_component component0 p =
     (if component0 = [] then Some (False, p)
      else if component0 \<noteq> [42] \<and> hd component0 \<noteq> 91 then do {
        (ok, val) \<leftarrow> ValueTextToInt (is_ipv4 p) component0 0;
        (if \<not> ok then Some (False, p)
         else Some (True, p\<lparr>ip_mask := ip_mask p @ [True], component_values := component_values p @ [val]\<rparr>))
      }
      else
        let component = (if component0 = [42] then any_component (is_ipv4 p) else component0)
        in if last component \<noteq> 93 then Some (False, p)
           else if length component = 2 then Some (False, p)
           else do {
             (ok, component_pattern) \<leftarrow> ParseComponentPattern (is_ipv4 p) (take (length component - 2) (drop 1 component)) [];
             (if \<not> ok then Some (False, p)
              else Some (True, p\<lparr>ip_mask := ip_mask p @ [False], component_patterns := component_patterns p @ [component_pattern]\<rparr>))
           })"

fun component_loop :: "byte list list \<Rightarrow> IPPattern \<Rightarrow> (bool \<times> IPPattern) option" where
  "component_loop [] p = Some (True, p)"
| "component_loop (c # cs) p = do {
     (ok, p1) \<leftarrow> parse_component c p;
     (if ok then component_loop cs p1 else Some (False, p1))
   }"

definition ParsePattern :: "IPPattern \<Rightarrow> byte list \<Rightarrow> (bool \<times> IPPattern) option" where
  "ParsePattern p0 ip_pattern = do {
     dcheck (ip_mask p0 = []);
     let p = (if 58 \<in> set ip_pattern then p0\<lparr>is_ipv4 := False\<rparr> else p0);
     components \<leftarrow> SplitString ip_pattern (if is_ipv4 p then 46 else 58);
     (if length components \<noteq> (if is_ipv4 p then 4 else 8) then Some (False, p)
      else component_loop components p)
   }"

section \<open>Matching\<close>

definition kIPv4AddressSize :: nat where "kIPv4AddressSize = 4"

definition at :: "'a list \<Rightarrow> nat \<Rightarrow> 'a option" where
  "at xs i = (if i < length xs then Some (xs ! i) else None)"

text \<open>The loop over the mask, with the index into the fixed values, the index into the address and the iterator of the patterns.\<close>

fun mask_loop :: "bool \<Rightarrow> byte list \<Rightarrow> int list \<Rightarrow> bool list \<Rightarrow> nat \<Rightarrow> nat \<Rightarrow> component_pattern list \<Rightarrow> bool option" where
  "mask_loop v4 address vals [] fixed_value_index address_index patterns = Some True"
| "mask_loop v4 address vals (m # ms) fixed_value_index address_index patterns = do {
     a \<leftarrow> at address address_index;
     (value_to_test, next_index) \<leftarrow>
       (if v4 then Some (uint a, address_index + 1)
        else do { b \<leftarrow> at address (address_index + 1); Some (push_bit 8 (uint a) + uint b, address_index + 2) });
     (if m then do {
        v \<leftarrow> at vals fixed_value_index;
        (if v \<noteq> value_to_test then Some False
         else mask_loop v4 address vals ms (fixed_value_index + 1) next_index patterns)
      }
      else case patterns of
          [] \<Rightarrow> None
        | p # ps \<Rightarrow>
            if \<not> ComponentPattern_Match p value_to_test then Some False
            else mask_loop v4 address vals ms fixed_value_index next_index ps)
   }"

definition IPPattern_Match :: "IPPattern \<Rightarrow> byte list \<Rightarrow> bool option" where
  "IPPattern_Match p address =
     (if ip_mask p = [] then Some False
      else if (length address = kIPv4AddressSize) \<noteq> is_ipv4 p then Some False
      else mask_loop (is_ipv4 p) address (component_values p) (ip_mask p) 0 0 (component_patterns p))"

section \<open>Values and ranges\<close>

definition component_limit :: "bool \<Rightarrow> int" where
  "component_limit v4 = (if v4 then 255 else 0xFFFF)"

text \<open>The value a text stands for, if it is a number of the kind and in its range.\<close>

definition component_value :: "bool \<Rightarrow> byte list \<Rightarrow> int option" where
  "component_value v4 s =
     (case conversion (uint_traits 32 (if v4 then 10 else 16)) s 0 of
        (ok, v) \<Rightarrow> if ok \<and> v \<le> component_limit v4 then Some v else None)"

lemma conversion_success:
  "fst (conversion tr s out) = fst (conversion tr s out')"
  "fst (conversion tr s out) \<Longrightarrow> conversion tr s out' = conversion tr s out \<and> in_range tr (snd (conversion tr s out))"
  by (auto simp: conversion_def Let_def clamp_def in_range_def split: if_splits)

text \<open>A parser yields what a specification says: success with its value, or failure with anything.\<close>

definition yields :: "(bool \<times> 'a) option \<Rightarrow> 'a option \<Rightarrow> bool" where
  "yields m r \<longleftrightarrow> (case r of Some x \<Rightarrow> m = Some (True, x) | None \<Rightarrow> \<exists>q. m = Some (False, q))"

lemma yields_simps [simp]:
  "yields m (Some x) = (m = Some (True, x))" "yields (Some (False, q)) None" "yields (Some (True, y)) r = (r = Some y)"
  by (auto simp: yields_def split: option.splits)

lemma yields_None: "yields m None \<Longrightarrow> (\<And>q. m = Some (False, q) \<Longrightarrow> P) \<Longrightarrow> P"
  by (auto simp: yields_def)

lemma ValueTextToInt_value: "yields (ValueTextToInt v4 s out) (component_value v4 s)"
proof -
  let ?tr = "uint_traits 32 (if v4 then 10 else 16)"
  have ok: "traits_ok ?tr" using traits_ok_types by simp
  have "(if v4 then StringToUint s out else HexStringToUInt s out) = Some (conversion ?tr s out)"
    using Invoke_eq [OF ok, of s out] by (cases v4) (simp_all add: StringToUint_def HexStringToUInt_def)
  then have v: "ValueTextToInt v4 s out =
      (case conversion ?tr s out of (ok, v) \<Rightarrow> if ok \<and> v \<le> component_limit v4 then Some (True, v) else Some (False, v))"
    by (auto simp: ValueTextToInt_def component_limit_def split: prod.splits)
  show ?thesis
    using conversion_success(1) [of ?tr s out 0] conversion_success(2) [of ?tr s 0 out]
    unfolding v component_value_def by (cases "conversion ?tr s 0"; cases "conversion ?tr s out") (auto simp: yields_def)
qed

lemma component_value_bounds: "component_value v4 s = Some v \<Longrightarrow> 0 \<le> v \<and> v \<le> component_limit v4"
  using conversion_success(2) [of "uint_traits 32 (if v4 then 10 else 16)" s 0 0]
  by (auto simp: component_value_def in_range_def uint_traits_def split: prod.splits if_splits)

text \<open>A range: one or two numbers, between any number of hyphens.\<close>

definition range_of :: "bool \<Rightarrow> byte list \<Rightarrow> (int \<times> int) option" where
  "range_of v4 s =
     (case filter (\<lambda>t. t \<noteq> []) (pieces 45 s) of
        [a] \<Rightarrow> (case component_value v4 a of Some v \<Rightarrow> Some (v, v) | None \<Rightarrow> None)
      | [a, b] \<Rightarrow>
          (case (component_value v4 a, component_value v4 b) of (Some v, Some w) \<Rightarrow> Some (v, w) | _ \<Rightarrow> None)
      | _ \<Rightarrow> None)"

lemma QuickGetNext_pieces:
  "\<exists>r. QuickGetNext [s] t =
     (case filter (\<lambda>p. p \<noteq> []) (pieces s t) of [] \<Rightarrow> (False, [], []) | p # ps \<Rightarrow> (True, p, r)) \<and>
     filter (\<lambda>p. p \<noteq> []) (pieces s r) = tl (filter (\<lambda>p. p \<noteq> []) (pieces s t))"
proof (induction t)
  case Nil
  show ?case by (intro exI [of _ "[]"]) simp
next
  case (Cons c t)
  let ?w = "takeWhile (\<lambda>x. x \<notin> set [s]) t" and ?r = "dropWhile (\<lambda>x. x \<notin> set [s]) t"
  show ?case
  proof (cases "c = s")
    case True
    then show ?thesis using Cons by simp
  next
    case False
    have t: "t = ?w @ ?r" by simp
    have w: "s \<notin> set ?w" by (auto dest: set_takeWhileD)
    have "filter (\<lambda>p. p \<noteq> []) (pieces s (c # t)) = (c # ?w) # filter (\<lambda>p. p \<noteq> []) (pieces s ?r)"
    proof (cases ?r)
      case Nil
      then have "t = ?w" using t by (metis append_Nil2)
      have "s \<notin> set (c # t)" using w False \<open>t = ?w\<close> by (metis set_ConsD)
      then show ?thesis unfolding Nil pieces_plain [OF \<open>s \<notin> set (c # t)\<close>] using \<open>t = ?w\<close> by simp
    next
      case (Cons x u)
      have "?r \<noteq> []" using Cons by simp
      then have x: "x = s" using hd_dropWhile [of "\<lambda>x. x \<notin> set [s]" t] unfolding Cons by simp
      have "c # t = (c # ?w) @ s # u" using t Cons x by (metis append_Cons)
      moreover have "s \<notin> set (c # ?w)" using w False by auto
      ultimately have "pieces s (c # t) = (c # ?w) # pieces s u" by (metis pieces_append)
      then show ?thesis using Cons x by simp
    qed
    then show ?thesis using False by (intro exI [of _ ?r]) simp
  qed
qed

lemma component_value_empty: "component_value v4 [] = None"
  by (simp add: component_value_def conversion_def Let_def)

text \<open>The loop over the ranges succeeds when every piece is a range.\<close>

lemma range_loop_eq: "yields (range_loop v4 rs pattern) (map_option ((@) pattern) (those (map (range_of v4) rs)))"
proof (induction rs arbitrary: pattern)
  case (Cons r rs)
  let ?f = "\<lambda>t. filter (\<lambda>p. p \<noteq> []) (pieces 45 t)"
  obtain r1 where r1: "QuickGetNext [45] r = (case ?f r of [] \<Rightarrow> (False, [], []) | p # ps \<Rightarrow> (True, p, r1))" "?f r1 = tl (?f r)"
    using QuickGetNext_pieces [of 45 r] by blast
  obtain r2 where r2: "QuickGetNext [45] r1 = (case ?f r1 of [] \<Rightarrow> (False, [], []) | p # ps \<Rightarrow> (True, p, r2))" "?f r2 = tl (?f r1)"
    using QuickGetNext_pieces [of 45 r1] by blast
  have r3: "fst (QuickGetNext [45] r2) = (?f r2 \<noteq> [])"
    using QuickGetNext_pieces [of 45 r2] by (cases "?f r2") auto
  note vt = ValueTextToInt_value [of v4]
  have found: "yields (range_loop v4 (r # rs) pattern) (map_option ((@) pattern) (those (map (range_of v4) (r # rs))))"
    if "range_loop v4 (r # rs) pattern = range_loop v4 rs (pattern @ [(x, y)])" "range_of v4 r = Some (x, y)" for x y
    using Cons.IH [of "pattern @ [(x, y)]"] that by (cases "those (map (range_of v4) rs)") auto
  have lost: "yields (range_loop v4 (r # rs) pattern) (map_option ((@) pattern) (those (map (range_of v4) (r # rs))))"
    if "range_loop v4 (r # rs) pattern = Some (False, q)" "range_of v4 r = None" for q
    using that by simp
  consider (none) "?f r = []" | (one) a where "?f r = [a]" | (two) a b where "?f r = [a, b]" | (more) a b c cs where "?f r = a # b # c # cs"
    by (metis list.exhaust)
  then show ?case
  proof cases
    case none
    obtain v where "ValueTextToInt v4 [] 0 = Some (False, v)" using vt [of "[]" 0] by (auto simp: component_value_empty elim: yields_None)
    then show ?thesis using none r1 by (intro lost) (simp_all add: range_of_def)
  next
    case one
    show ?thesis
    proof (cases "component_value v4 a")
      case None
      then obtain v where "ValueTextToInt v4 a 0 = Some (False, v)" using vt [of a 0] by (auto elim: yields_None)
      then show ?thesis using one r1 None by (intro lost) (simp_all add: range_of_def)
    next
      case (Some x)
      then have "ValueTextToInt v4 a 0 = Some (True, x)" using vt [of a 0] by simp
      then show ?thesis using one r1 r2 r3 Some by (intro found [of x x]) (simp_all add: range_of_def AppendRange_def)
    qed
  next
    case two
    show ?thesis
    proof (cases "component_value v4 a")
      case None
      then obtain v where "ValueTextToInt v4 a 0 = Some (False, v)" using vt [of a 0] by (auto elim: yields_None)
      then show ?thesis using two r1 None by (intro lost) (simp_all add: range_of_def)
    next
      case (Some x)
      then have x: "ValueTextToInt v4 a 0 = Some (True, x)" using vt [of a 0] by simp
      show ?thesis
      proof (cases "component_value v4 b")
        case None
        then obtain v where "ValueTextToInt v4 b x = Some (False, v)" using vt [of b x] by (auto elim: yields_None)
        then show ?thesis using two r1 r2 x None by (intro lost) (simp_all add: range_of_def split: option.splits)
      next
        case y: (Some y)
        then have "ValueTextToInt v4 b x = Some (True, y)" using vt [of b x] by simp
        then show ?thesis using two r1 r2 r3 x Some y
          by (intro found [of x y]) (simp_all add: range_of_def AppendRange_def)
      qed
    qed
  next
    case more
    have "range_of v4 r = None" using more by (simp add: range_of_def)
    moreover have "\<exists>q. range_loop v4 (r # rs) pattern = Some (False, q)"
    proof (cases "component_value v4 a")
      case None
      then obtain v where "ValueTextToInt v4 a 0 = Some (False, v)" using vt [of a 0] by (auto elim: yields_None)
      then show ?thesis using more r1 by simp
    next
      case (Some x)
      then have x: "ValueTextToInt v4 a 0 = Some (True, x)" using vt [of a 0] by simp
      obtain ok w where "ValueTextToInt v4 b x = Some (ok, w)"
        using vt [of b x] by (cases "component_value v4 b") (auto simp: yields_def)
      then show ?thesis using more r1 r2 r3 x by (cases ok) auto
    qed
    ultimately show ?thesis using lost by blast
  qed
qed simp

section \<open>Well-formed patterns\<close>

text \<open>
  The class invariant: the mask has an entry for each component of an address, there is a fixed value
  for each true entry and a component pattern for each false one, and every number is in range.
\<close>

definition pattern_ok :: "IPPattern \<Rightarrow> bool" where
  "pattern_ok p \<longleftrightarrow>
     length (ip_mask p) = (if is_ipv4 p then 4 else 8) \<and>
     length (component_values p) = length (filter (\<lambda>m. m) (ip_mask p)) \<and>
     length (component_patterns p) = length (filter (\<lambda>m. \<not> m) (ip_mask p)) \<and>
     set (component_values p) \<subseteq> {0..component_limit (is_ipv4 p)} \<and>
     (\<forall>q \<in> set (component_patterns p). set q \<subseteq> {0..component_limit (is_ipv4 p)} \<times> {0..component_limit (is_ipv4 p)})"

text \<open>What a component asks of a value: nothing, one number, or a number of one of its ranges.\<close>

definition component_ranges :: "bool \<Rightarrow> byte list \<Rightarrow> (int \<times> int) list option" where
  "component_ranges v4 c =
     (let body = (if c = [42] then any_component v4 else c)
      in those (map (range_of v4) (SplitStringT kWhitespaceASCII (take (length body - 2) (drop 1 body)) 44 True)))"

datatype component_spec = Fixed int | Ranges "(int \<times> int) list"

definition component_of :: "bool \<Rightarrow> byte list \<Rightarrow> component_spec option" where
  "component_of v4 c =
     (if c = [] then None
      else if c \<noteq> [42] \<and> hd c \<noteq> 91 then map_option Fixed (component_value v4 c)
      else if c \<noteq> [42] \<and> (last c \<noteq> 93 \<or> length c = 2) then None
      else map_option Ranges (component_ranges v4 c))"

fun admits :: "component_spec \<Rightarrow> int \<Rightarrow> bool" where
  "admits (Fixed x) v = (x = v)"
| "admits (Ranges rs) v = (\<exists>(lo, hi) \<in> set rs. lo \<le> v \<and> v \<le> hi)"

fun spec_ok :: "bool \<Rightarrow> component_spec \<Rightarrow> bool" where
  "spec_ok v4 (Fixed x) = (x \<in> {0..component_limit v4})"
| "spec_ok v4 (Ranges rs) = (set rs \<subseteq> {0..component_limit v4} \<times> {0..component_limit v4})"

fun add_spec :: "IPPattern \<Rightarrow> component_spec \<Rightarrow> IPPattern" where
  "add_spec p (Fixed x) = p\<lparr>ip_mask := ip_mask p @ [True], component_values := component_values p @ [x]\<rparr>"
| "add_spec p (Ranges rs) = p\<lparr>ip_mask := ip_mask p @ [False], component_patterns := component_patterns p @ [rs]\<rparr>"

lemma range_of_bounds: "range_of v4 s = Some (lo, hi) \<Longrightarrow> lo \<in> {0..component_limit v4} \<and> hi \<in> {0..component_limit v4}"
  by (auto simp: range_of_def split: list.splits option.splits dest: component_value_bounds)

lemma those_SomeD: "those (map f xs) = Some ys \<Longrightarrow> length ys = length xs \<and> (\<forall>y \<in> set ys. \<exists>x \<in> set xs. f x = Some y)"
proof (induction xs arbitrary: ys)
  case (Cons x xs)
  then show ?case by (cases "f x"; cases "those (map f xs)") fastforce+
qed simp

lemma component_of_ok: "component_of v4 c = Some x \<Longrightarrow> spec_ok v4 x"
proof -
  have r: "set rs \<subseteq> {0..component_limit v4} \<times> {0..component_limit v4}" if rs: "component_ranges v4 c = Some rs" for rs
  proof
    fix lh assume "lh \<in> set rs"
    then obtain s where "range_of v4 s = Some lh"
      using rs unfolding component_ranges_def Let_def by (blast dest: those_SomeD)
    then show "lh \<in> {0..component_limit v4} \<times> {0..component_limit v4}"
      using range_of_bounds [of v4 s "fst lh" "snd lh"] by (cases lh) auto
  qed
  assume "component_of v4 c = Some x"
  then show "spec_ok v4 x" using r component_value_bounds [of v4 c] by (auto simp: component_of_def split: if_splits)
qed

lemma any_component_shape: "last (any_component v4) = 93" "length (any_component v4) \<noteq> 2"
  by (simp_all add: any_component_def)

lemma map_option_append_Nil: "map_option ((@) []) x = x"
  by (cases x) auto

lemma parse_component_eq: "yields (parse_component c p) (map_option (add_spec p) (component_of (is_ipv4 p) c))"
proof (cases "c \<noteq> [] \<and> c \<noteq> [42] \<and> hd c \<noteq> 91")
  case True
  then show ?thesis using ValueTextToInt_value [of "is_ipv4 p" c 0]
    by (cases "component_value (is_ipv4 p) c") (auto simp: parse_component_def component_of_def elim: yields_None)
next
  case False
  let ?c = "if c = [42] then any_component (is_ipv4 p) else c"
  have r: "yields (ParseComponentPattern (is_ipv4 p) (take (length ?c - 2) (drop 1 ?c)) []) (component_ranges (is_ipv4 p) c)"
    using range_loop_eq [of "is_ipv4 p" "SplitStringT kWhitespaceASCII (take (length ?c - 2) (drop 1 ?c)) 44 True" "[]"]
    by (cases "c = [42]") (simp_all add: ParseComponentPattern_def SplitString_def component_ranges_def Let_def map_option_append_Nil)
  show ?thesis using False r any_component_shape [of "is_ipv4 p"]
    by (cases "component_ranges (is_ipv4 p) c") (auto simp: parse_component_def component_of_def Let_def elim!: yields_None)
qed

lemma add_spec_family [simp]: "is_ipv4 (add_spec p x) = is_ipv4 p"
  by (cases x) simp_all

lemma component_loop_eq:
  "yields (component_loop cs p) (map_option (foldl add_spec p) (those (map (component_of (is_ipv4 p)) cs)))"
proof (induction cs arbitrary: p)
  case (Cons c cs)
  note q = parse_component_eq [of c p]
  show ?case
  proof (cases "component_of (is_ipv4 p) c")
    case None
    then show ?thesis using q by (auto elim: yields_None)
  next
    case (Some x)
    then show ?thesis using q Cons.IH [of "add_spec p x"]
      by (cases "those (map (component_of (is_ipv4 p)) cs)") auto
  qed
qed simp

text \<open>What a text means: its pieces, the family decided by the presence of a colon.\<close>

definition text_ipv4 :: "byte list \<Rightarrow> bool" where
  "text_ipv4 s = (58 \<notin> set s)"

definition text_spec :: "byte list \<Rightarrow> component_spec list option" where
  "text_spec s =
     (let cs = SplitStringT kWhitespaceASCII s (if text_ipv4 s then 46 else 58) True
      in if length cs = (if text_ipv4 s then 4 else 8) then those (map (component_of (text_ipv4 s)) cs) else None)"

lemma ParsePattern_eq:
  "yields (ParsePattern new_IPPattern s) (map_option (foldl add_spec (new_IPPattern\<lparr>is_ipv4 := text_ipv4 s\<rparr>)) (text_spec s))"
proof -
  let ?p = "new_IPPattern\<lparr>is_ipv4 := text_ipv4 s\<rparr>"
  let ?cs = "SplitStringT kWhitespaceASCII s (if text_ipv4 s then 46 else 58) True"
  have p: "(if 58 \<in> set s then new_IPPattern\<lparr>is_ipv4 := False\<rparr> else new_IPPattern) = ?p"
    by (simp add: text_ipv4_def new_IPPattern_def)
  have e: "ParsePattern new_IPPattern s =
     (if length ?cs \<noteq> (if text_ipv4 s then 4 else 8) then Some (False, ?p) else component_loop ?cs ?p)"
    unfolding ParsePattern_def p Let_def by (simp add: SplitString_def new_IPPattern_def)
  show ?thesis unfolding e text_spec_def Let_def using component_loop_eq [of ?cs ?p] by auto
qed

section \<open>The parsed pattern\<close>

definition is_Fixed :: "component_spec \<Rightarrow> bool" where
  "is_Fixed x = (case x of Fixed v \<Rightarrow> True | Ranges rs \<Rightarrow> False)"

definition fixed_of :: "component_spec list \<Rightarrow> int list" where
  "fixed_of xs = concat (map (\<lambda>x. case x of Fixed v \<Rightarrow> [v] | Ranges rs \<Rightarrow> []) xs)"

definition ranges_of :: "component_spec list \<Rightarrow> component_pattern list" where
  "ranges_of xs = concat (map (\<lambda>x. case x of Fixed v \<Rightarrow> [] | Ranges rs \<Rightarrow> [rs]) xs)"

lemmas spec_simps = is_Fixed_def fixed_of_def ranges_of_def

lemma foldl_add_spec:
  "foldl add_spec p xs = p\<lparr>ip_mask := ip_mask p @ map is_Fixed xs, component_values := component_values p @ fixed_of xs,
     component_patterns := component_patterns p @ ranges_of xs\<rparr>"
proof (induction xs arbitrary: p)
  case (Cons x xs)
  then show ?case by (cases x) (simp_all add: spec_simps)
qed (simp add: spec_simps)

lemma pattern_of_spec:
  assumes "length xs = (if v4 then 4 else 8)" and "\<forall>x \<in> set xs. spec_ok v4 x"
  shows "pattern_ok (foldl add_spec (new_IPPattern\<lparr>is_ipv4 := v4\<rparr>) xs)"
proof -
  have "length (fixed_of xs) = length (filter (\<lambda>m. m) (map is_Fixed xs))" "length (ranges_of xs) = length (filter (\<lambda>m. \<not> m) (map is_Fixed xs))"
    by (induction xs) (auto simp: spec_simps split: component_spec.splits)
  moreover have "set (fixed_of xs) \<subseteq> {0..component_limit v4} \<and>
    (\<forall>q \<in> set (ranges_of xs). set q \<subseteq> {0..component_limit v4} \<times> {0..component_limit v4})"
    using assms(2)
  proof (induction xs)
    case (Cons x xs)
    then show ?case by (cases x) (simp_all add: spec_simps)
  qed (simp add: spec_simps)
  ultimately show ?thesis using assms(1) by (simp add: pattern_ok_def foldl_add_spec new_IPPattern_def)
qed

lemma text_spec_ok: "text_spec s = Some xs \<Longrightarrow> length xs = (if text_ipv4 s then 4 else 8) \<and> (\<forall>x \<in> set xs. spec_ok (text_ipv4 s) x)"
  using component_of_ok by (auto simp: text_spec_def Let_def split: if_splits dest!: those_SomeD)

text \<open>
  C38: parsing a pattern in a new object always returns. It succeeds exactly for the texts that have a
  meaning, and then the object has the class invariant: four or eight components, a fixed value or a
  component pattern for each as the mask says, and all numbers in the range of a component.
\<close>

theorem ip_pattern_parse:
  "case ParsePattern new_IPPattern s of
     None \<Rightarrow> False
   | Some (ok, p) \<Rightarrow> if ok then text_spec s \<noteq> None \<and> is_ipv4 p = text_ipv4 s \<and> pattern_ok p else text_spec s = None"
proof (cases "text_spec s")
  case None
  then show ?thesis using ParsePattern_eq [of s] by (auto elim: yields_None)
next
  case (Some xs)
  then show ?thesis using ParsePattern_eq [of s] text_spec_ok [OF Some] pattern_of_spec [of xs "text_ipv4 s"]
    by (simp add: foldl_add_spec)
qed

section \<open>The meaning of a match\<close>

fun groups :: "byte list \<Rightarrow> int list" where
  "groups (a # b # r) = (uint a * 256 + uint b) # groups r"
| "groups _ = []"

definition address_values :: "bool \<Rightarrow> byte list \<Rightarrow> int list" where
  "address_values v4 address = (if v4 then map uint address else groups address)"

lemma ComponentPattern_Match_eq: "ComponentPattern_Match rs v = admits (Ranges rs) v"
  by (induction rs) auto

lemma at_simps: "at (pre @ x # r) (length pre) = Some x"
  by (simp add: at_def)

lemma at_drop: "drop i xs = x # r \<Longrightarrow> at xs i = Some x"
  by (metis at_def drop_eq_Nil hd_drop_conv_nth linorder_not_le list.sel(1) list.simps(3))

lemma drop_Suc_eq: "drop i xs = x # r \<Longrightarrow> drop (Suc i) xs = r"
  by (metis drop_Suc list.sel(3) tl_drop)

lemma mask_loop_eq:
  "length (address_values v4 (drop i address)) = length xs \<Longrightarrow>
   mask_loop v4 address (pre @ fixed_of xs) (map is_Fixed xs) (length pre) i (ranges_of xs) =
     Some (list_all2 admits xs (address_values v4 (drop i address)))"
proof (induction xs arbitrary: pre i)
  case Nil
  then show ?case by simp
next
  case (Cons x xs)
  obtain v i' where v: "address_values v4 (drop i address) = v # address_values v4 (drop i' address)"
    and a: "\<exists>a. at address i = Some a \<and> (if v4 then Some (uint a, i + 1)
        else do { b \<leftarrow> at address (i + 1); Some (push_bit 8 (uint a) + uint b, i + 2) }) = Some (v, i')"
  proof (cases v4)
    case True
    then obtain a r where d: "drop i address = a # r" using Cons.prems by (cases "drop i address") (auto simp: address_values_def)
    show ?thesis using that [of "uint a" "i + 1"] True d drop_Suc_eq [OF d] at_drop [OF d] by (simp add: address_values_def)
  next
    case False
    then obtain a b r where d: "drop i address = a # b # r" using Cons.prems
      by (cases "drop i address"; cases "tl (drop i address)") (auto simp: address_values_def)
    note d1 = drop_Suc_eq [OF d]
    show ?thesis using that [of "uint a * 256 + uint b" "i + 2"] False d drop_Suc_eq [OF d1] at_drop [OF d] at_drop [OF d1]
      by (simp add: address_values_def push_bit_eq_mult)
  qed
  have IH: "mask_loop v4 address (pre @ fixed_of xs) (map is_Fixed xs) (length pre) i' (ranges_of xs) =
     Some (list_all2 admits xs (address_values v4 (drop i' address)))" for pre
    using Cons v by simp
  show ?case
  proof (cases x)
    case (Fixed y)
    have f: "fixed_of (Fixed y # xs) = y # fixed_of xs" "ranges_of (Fixed y # xs) = ranges_of xs" "is_Fixed (Fixed y)"
      by (simp_all add: spec_simps)
    show ?thesis using a IH [of "pre @ [y]"] Fixed by (auto simp: f v at_simps)
  next
    case (Ranges rs)
    have f: "fixed_of (Ranges rs # xs) = fixed_of xs" "ranges_of (Ranges rs # xs) = rs # ranges_of xs" "\<not> is_Fixed (Ranges rs)"
      by (simp_all add: spec_simps)
    show ?thesis using a IH [of pre] Ranges by (auto simp: f v ComponentPattern_Match_eq)
  qed
qed

lemma length_groups: "length (groups a) = length a div 2"
  by (induction a rule: groups.induct) auto

text \<open>
  C29: an address of four or sixteen bytes matches a parsed pattern exactly when it is of the family of
  the pattern's text and every component is admitted by the component of the text at its place. The
  test never reads the address, the fixed values or the component patterns out of range.
\<close>

theorem ip_pattern_match:
  assumes "ParsePattern new_IPPattern s = Some (True, p)" and "length address = 4 \<or> length address = 16"
  shows "IPPattern_Match p address =
    Some ((length address = 4) = text_ipv4 s \<and> list_all2 admits (the (text_spec s)) (address_values (text_ipv4 s) address))"
proof -
  obtain xs where xs: "text_spec s = Some xs" and p: "p = foldl add_spec (new_IPPattern\<lparr>is_ipv4 := text_ipv4 s\<rparr>) xs"
    using ParsePattern_eq [of s] assms(1) by (cases "text_spec s") (auto elim: yields_None)
  have len: "length xs = (if text_ipv4 s then 4 else 8)" using text_spec_ok [OF xs] by blast
  then have ne: "ip_mask p \<noteq> []" by (auto simp: p foldl_add_spec split: if_splits)
  show ?thesis
  proof (cases "(length address = 4) = text_ipv4 s")
    case False
    then show ?thesis using ne by (simp add: IPPattern_Match_def kIPv4AddressSize_def p foldl_add_spec)
  next
    case True
    then have "length (address_values (text_ipv4 s) (drop 0 address)) = length xs"
      using len assms(2) by (auto simp: address_values_def length_groups)
    from mask_loop_eq [OF this, of "[]"] show ?thesis
      using True ne xs by (simp add: IPPattern_Match_def kIPv4AddressSize_def p foldl_add_spec new_IPPattern_def)
  qed
qed

text \<open>
  Some texts: a pattern with ranges and a wildcard; a bracket holding only a blank, which is accepted
  and admits nothing although an empty bracket is refused; a range without its second number.
\<close>

lemma text_specs:
  "text_spec [49, 46, 50, 46, 91, 51, 44, 53, 45, 54, 93, 46, 42] = Some [Fixed 1, Fixed 2, Ranges [(3, 3), (5, 6)], Ranges [(0, 255)]]"
  "text_spec [49, 46, 50, 46, 51, 46, 91, 32, 93] = Some [Fixed 1, Fixed 2, Fixed 3, Ranges []]"
  "text_spec [49, 46, 50, 46, 51, 46, 91, 45, 52, 45, 45, 93] = Some [Fixed 1, Fixed 2, Fixed 3, Ranges [(4, 4)]]"
  "text_spec [49, 46, 50, 46, 51, 46, 91, 93] = None"
  by code_simp+

theorem ip_pattern_match_witness:
  "\<exists>p. ParsePattern new_IPPattern [49, 46, 50, 46, 91, 51, 44, 53, 45, 54, 93, 46, 42] = Some (True, p) \<and>
     IPPattern_Match p [1, 2, 6, 77] = Some True \<and> IPPattern_Match p [1, 2, 4, 77] = Some False"
proof -
  let ?s = "[49, 46, 50, 46, 91, 51, 44, 53, 45, 54, 93, 46, 42] :: byte list"
  obtain p where p: "ParsePattern new_IPPattern ?s = Some (True, p)" using ParsePattern_eq [of ?s] text_specs(1) by auto
  show ?thesis
    using p ip_pattern_match [OF p, of "[1, 2, 6, 77]"] ip_pattern_match [OF p, of "[1, 2, 4, 77]"]
    by (simp add: text_specs(1) text_ipv4_def address_values_def)
qed

text \<open>
  A parse that fails keeps what it has read: the object for 1.2.3.x matches every address that begins
  with its three components.
\<close>

lemma failed_parse_matches:
  "case ParsePattern new_IPPattern [49, 46, 50, 46, 51, 46, 120] of
     Some (ok, p) \<Rightarrow> \<not> ok \<and> IPPattern_Match p [1, 2, 3, 4] = Some True | None \<Rightarrow> False"
  by code_simp

end
