(* ===== verification/LuaChunk.thy ===== *)
theory LuaChunk
  imports Prelude "HOL-Library.Sublist"
begin

text \<open>
  Precompiled chunks of the script engine's Lua 5.2.3: lzio.c (buffered input), ldump.c (saving a
  function prototype) and lundump.c (loading it). A lua_Number is the 64-bit pattern of the
  double; a string is its bytes; int is a 32 word, size_t a 64 word, as on the x86-64 target.

  The writer of lua_dump is a parameter with its own state, and the reader of lua_load is the list
  of pieces it will return. Memory allocation is taken to succeed. Loading recurses on
  nested functions; the model bounds the depth by fuel, and the number of input bytes is enough.
\<close>

section \<open>Data\<close>

type_synonym lua_Number = "64 word"
type_synonym Instruction = "32 word"

datatype TConst = KNil | KBool int | KNumber lua_Number | KString "byte list option"

datatype Upvaldesc = Upvaldesc (up_name: "byte list option") (instack: byte) (idx: byte)

datatype LocVar = LocVar (varname: "byte list option") (startpc: uint32) (endpc: uint32)

datatype Proto = Proto
  (linedefined: uint32) (lastlinedefined: uint32)
  (numparams: byte) (is_vararg: byte) (maxstacksize: byte)
  (f_code: "Instruction list") (f_k: "TConst list") (f_p: "Proto list")
  (f_upvalues: "Upvaldesc list")
  (f_source: "byte list option") (f_lineinfo: "uint32 list") (f_locvars: "LocVar list")

section \<open>Dumping (ldump.c)\<close>

record 'd DumpState =
  ds_writer :: "'d \<Rightarrow> byte list \<Rightarrow> int \<times> 'd"
  ds_data :: 'd
  ds_strip :: bool
  ds_status :: int

definition DumpBlock :: "byte list \<Rightarrow> 'd DumpState \<Rightarrow> 'd DumpState" where
  "DumpBlock b D =
     (if ds_status D = 0
      then (let (st, d) = ds_writer D (ds_data D) b in D\<lparr>ds_status := st, ds_data := d\<rparr>)
      else D)"

definition DumpChar :: "byte \<Rightarrow> 'd DumpState \<Rightarrow> 'd DumpState" where
  "DumpChar y D = DumpBlock [y] D"

definition DumpInt :: "uint32 \<Rightarrow> 'd DumpState \<Rightarrow> 'd DumpState" where
  "DumpInt x D = DumpBlock (word_to_le 4 x) D"

definition DumpNumber :: "lua_Number \<Rightarrow> 'd DumpState \<Rightarrow> 'd DumpState" where
  "DumpNumber x D = DumpBlock (word_to_le 8 x) D"

definition DumpSize :: "uint64 \<Rightarrow> 'd DumpState \<Rightarrow> 'd DumpState" where
  "DumpSize x D = DumpBlock (word_to_le 8 x) D"

definition DumpVector :: "uint32 list \<Rightarrow> 'd DumpState \<Rightarrow> 'd DumpState" where
  "DumpVector b D =
     DumpBlock (concat (map (word_to_le 4) b)) (DumpInt (of_nat (length b)) D)"

definition DumpString :: "byte list option \<Rightarrow> 'd DumpState \<Rightarrow> 'd DumpState" where
  "DumpString s D = (case s of
       None \<Rightarrow> DumpSize 0 D
     | Some bs \<Rightarrow> DumpBlock (bs @ [0]) (DumpSize (of_nat (length bs + 1)) D))"

definition DumpConstant :: "TConst \<Rightarrow> 'd DumpState \<Rightarrow> 'd DumpState" where
  "DumpConstant c D = (case c of
       KNil \<Rightarrow> DumpChar 0 D
     | KBool b \<Rightarrow> DumpChar (word_of_int b) (DumpChar 1 D)
     | KNumber n \<Rightarrow> DumpNumber n (DumpChar 3 D)
     | KString s \<Rightarrow> DumpString s (DumpChar 4 D))"

definition DumpUpvalues :: "Upvaldesc list \<Rightarrow> 'd DumpState \<Rightarrow> 'd DumpState" where
  "DumpUpvalues us D =
     fold (\<lambda>u D. DumpChar (idx u) (DumpChar (instack u) D)) us (DumpInt (of_nat (length us)) D)"

definition DumpLocVar :: "LocVar \<Rightarrow> 'd DumpState \<Rightarrow> 'd DumpState" where
  "DumpLocVar v D = DumpInt (endpc v) (DumpInt (startpc v) (DumpString (varname v) D))"

definition DumpDebug :: "Proto \<Rightarrow> 'd DumpState \<Rightarrow> 'd DumpState" where
  "DumpDebug f D =
     (let D1 = DumpString (if ds_strip D then None else f_source f) D;
          D2 = DumpVector (if ds_strip D then [] else f_lineinfo f) D1;
          lv = (if ds_strip D then [] else f_locvars f);
          D3 = fold DumpLocVar lv (DumpInt (of_nat (length lv)) D2);
          us = (if ds_strip D then [] else f_upvalues f)
      in fold (\<lambda>u. DumpString (up_name u)) us (DumpInt (of_nat (length us)) D3))"

primrec DumpFunction :: "Proto \<Rightarrow> 'd DumpState \<Rightarrow> 'd DumpState" where
  "DumpFunction (Proto ld lld np va mss cd ks ps us src li lv) D =
     (let D1 = DumpInt lld (DumpInt ld D);
          D2 = DumpChar mss (DumpChar va (DumpChar np D1));
          D3 = DumpVector cd D2;
          D4 = fold DumpConstant ks (DumpInt (of_nat (length ks)) D3);
          D5 = fold (\<lambda>g. g) (map DumpFunction ps) (DumpInt (of_nat (length ps)) D4);
          D6 = DumpUpvalues us D5
      in DumpDebug (Proto ld lld np va mss cd ks ps us src li lv) D6)"

definition LUA_SIGNATURE :: "byte list" where
  "LUA_SIGNATURE = [27, 76, 117, 97]"

definition luaU_header :: "byte list" where
  "luaU_header =
     LUA_SIGNATURE @ [5 * 16 + 2, 0, 1, 4, 8, 4, 8, 0] @ [0x19, 0x93, 13, 10, 0x1a, 10]"

definition DumpHeader :: "'d DumpState \<Rightarrow> 'd DumpState" where
  "DumpHeader D = DumpBlock luaU_header D"

definition luaU_dump ::
  "Proto \<Rightarrow> ('d \<Rightarrow> byte list \<Rightarrow> int \<times> 'd) \<Rightarrow> 'd \<Rightarrow> bool \<Rightarrow> int \<times> 'd" where
  "luaU_dump f w d strp =
     (let D = DumpFunction f (DumpHeader \<lparr>ds_writer = w, ds_data = d, ds_strip = strp, ds_status = 0\<rparr>)
      in (ds_status D, ds_data D))"

section \<open>Buffered input (lzio.c)\<close>

text \<open>zbuf: the unread bytes of the current piece; pieces: what the reader will return.\<close>

record ZIO =
  zbuf :: "byte list"
  pieces :: "byte list list"

definition luaZ_init :: "byte list list \<Rightarrow> ZIO" where
  "luaZ_init reader = \<lparr>zbuf = [], pieces = reader\<rparr>"

text \<open>None is EOZ.\<close>

definition luaZ_fill :: "ZIO \<Rightarrow> byte option \<times> ZIO" where
  "luaZ_fill z = (case pieces z of
       [] \<Rightarrow> (None, z)
     | [] # cs \<Rightarrow> (None, z\<lparr>pieces := cs\<rparr>)
     | (c # p) # cs \<Rightarrow> (Some c, \<lparr>zbuf = p, pieces = cs\<rparr>))"

definition zgetc :: "ZIO \<Rightarrow> byte option \<times> ZIO" where
  "zgetc z = (case zbuf z of c # p \<Rightarrow> (Some c, z\<lparr>zbuf := p\<rparr>) | [] \<Rightarrow> luaZ_fill z)"

text \<open>luaZ_read: the bytes copied, the number of missing bytes, and the stream after it.\<close>

function luaZ_read :: "ZIO \<Rightarrow> nat \<Rightarrow> byte list \<times> nat \<times> ZIO" where
  "luaZ_read z n =
     (if n = 0 then ([], 0, z)
      else if zbuf z = [] then
        (case luaZ_fill z of
           (None, z') \<Rightarrow> ([], n, z')
         | (Some c, z') \<Rightarrow> luaZ_read (z'\<lparr>zbuf := c # zbuf z'\<rparr>) n)
      else
        (let m = (if n \<le> length (zbuf z) then n else length (zbuf z));
             (bs, missing, z') = luaZ_read (z\<lparr>zbuf := drop m (zbuf z)\<rparr>) (n - m)
         in (take m (zbuf z) @ bs, missing, z')))"
  by pat_completeness auto
termination
  by (relation "measures [\<lambda>(z, n). n + length (pieces z), \<lambda>(z, n). length (pieces z)]")
     (auto simp: luaZ_fill_def split: list.splits if_splits)

declare luaZ_read.simps [simp del]

section \<open>Loading (lundump.c)\<close>

text \<open>
  A loader is a function on the stream; luaD_throw leaves it with an error: the chunk name and the
  reason. UpvalueOutOfRange stands for the store past the end of f->upvalues that LoadDebug makes
  when a chunk names more upvalues than it declares.
\<close>

datatype load_error = LoadErr "byte list" string | UpvalueOutOfRange | NoFuel

type_synonym 'a loader = "ZIO \<Rightarrow> load_error + 'a \<times> ZIO"

definition bindL :: "'a loader \<Rightarrow> ('a \<Rightarrow> 'b loader) \<Rightarrow> 'b loader" where
  "bindL m f = (\<lambda>z. case m z of Inl e \<Rightarrow> Inl e | Inr (a, z') \<Rightarrow> f a z')"

definition returnL :: "'a \<Rightarrow> 'a loader" where
  "returnL a = (\<lambda>z. Inr (a, z))"

definition failL :: "load_error \<Rightarrow> 'a loader" where
  "failL e = (\<lambda>z. Inl e)"

primrec load_n :: "nat \<Rightarrow> 'a loader \<Rightarrow> 'a list loader" where
  "load_n 0 m = returnL []"
| "load_n (Suc n) m = bindL m (\<lambda>a. bindL (load_n n m) (\<lambda>as. returnL (a # as)))"

definition LoadBlock :: "byte list \<Rightarrow> nat \<Rightarrow> byte list loader" where
  "LoadBlock S sz = (\<lambda>z. case luaZ_read z sz of
       (b, missing, z') \<Rightarrow> if missing \<noteq> 0 then Inl (LoadErr S ''truncated'') else Inr (b, z'))"

definition LoadChar :: "byte list \<Rightarrow> byte loader" where
  "LoadChar S = bindL (LoadBlock S 1) (\<lambda>b. returnL (hd b))"

definition LoadInt :: "byte list \<Rightarrow> uint32 loader" where
  "LoadInt S = bindL (LoadBlock S 4) (\<lambda>b.
     let x = le_to_word b in if sint x < 0 then failL (LoadErr S ''corrupted'') else returnL x)"

definition LoadNumber :: "byte list \<Rightarrow> lua_Number loader" where
  "LoadNumber S = bindL (LoadBlock S 8) (\<lambda>b. returnL (le_to_word b))"

definition LoadSize :: "byte list \<Rightarrow> uint64 loader" where
  "LoadSize S = bindL (LoadBlock S 8) (\<lambda>b. returnL (le_to_word b))"

definition LoadString :: "byte list \<Rightarrow> byte list option loader" where
  "LoadString S = bindL (LoadSize S) (\<lambda>sz.
     if sz = 0 then returnL None
     else bindL (LoadBlock S (unat sz)) (\<lambda>s. returnL (Some (take (unat (sz - 1)) s))))"

fun words32 :: "byte list \<Rightarrow> uint32 list" where
  "words32 (a # b # c # d # xs) = le_to_word [a, b, c, d] # words32 xs"
| "words32 _ = []"

definition LoadVector :: "byte list \<Rightarrow> uint32 list loader" where
  "LoadVector S = bindL (LoadInt S) (\<lambda>n.
     bindL (LoadBlock S (unat n * 4)) (\<lambda>b. returnL (words32 b)))"

definition LoadCode :: "byte list \<Rightarrow> Instruction list loader" where
  "LoadCode S = LoadVector S"

definition LoadConstant :: "byte list \<Rightarrow> TConst loader" where
  "LoadConstant S = bindL (LoadChar S) (\<lambda>t.
     if t = 0 then returnL KNil
     else if t = 1 then bindL (LoadChar S) (\<lambda>b. returnL (KBool (sint b)))
     else if t = 3 then bindL (LoadNumber S) (\<lambda>n. returnL (KNumber n))
     else if t = 4 then bindL (LoadString S) (\<lambda>s. returnL (KString s))
     else returnL KNil)"

definition LoadUpvalues :: "byte list \<Rightarrow> Upvaldesc list loader" where
  "LoadUpvalues S = bindL (LoadInt S) (\<lambda>n.
     load_n (unat n) (bindL (LoadChar S) (\<lambda>i. bindL (LoadChar S) (\<lambda>x. returnL (Upvaldesc None i x)))))"

definition LoadLocVar :: "byte list \<Rightarrow> LocVar loader" where
  "LoadLocVar S = bindL (LoadString S) (\<lambda>v. bindL (LoadInt S) (\<lambda>s. bindL (LoadInt S) (\<lambda>e.
     returnL (LocVar v s e))))"

primrec set_upnames :: "byte list option list \<Rightarrow> Upvaldesc list \<Rightarrow> Upvaldesc list" where
  "set_upnames [] us = us"
| "set_upnames (n # ns) us =
     (case us of [] \<Rightarrow> [] | u # us' \<Rightarrow> Upvaldesc n (instack u) (idx u) # set_upnames ns us')"

definition LoadDebug ::
  "byte list \<Rightarrow> Upvaldesc list \<Rightarrow> (byte list option \<times> uint32 list \<times> LocVar list \<times> Upvaldesc list) loader" where
  "LoadDebug S us = bindL (LoadString S) (\<lambda>src. bindL (LoadVector S) (\<lambda>li.
     bindL (LoadInt S) (\<lambda>n. bindL (load_n (unat n) (LoadLocVar S)) (\<lambda>lv.
     bindL (LoadInt S) (\<lambda>n. bindL (load_n (min (unat n) (length us + 1)) (LoadString S)) (\<lambda>names.
       if unat n > length us then failL UpvalueOutOfRange
       else returnL (src, li, lv, set_upnames names us)))))))"

primrec LoadFunction :: "nat \<Rightarrow> byte list \<Rightarrow> Proto loader" where
  "LoadFunction 0 S = failL NoFuel"
| "LoadFunction (Suc fuel) S =
     bindL (LoadInt S) (\<lambda>ld. bindL (LoadInt S) (\<lambda>lld.
     bindL (LoadChar S) (\<lambda>np. bindL (LoadChar S) (\<lambda>va. bindL (LoadChar S) (\<lambda>mss.
     bindL (LoadCode S) (\<lambda>cd.
     bindL (LoadInt S) (\<lambda>n. bindL (load_n (unat n) (LoadConstant S)) (\<lambda>ks.
     bindL (LoadInt S) (\<lambda>n. bindL (load_n (unat n) (LoadFunction fuel S)) (\<lambda>ps.
     bindL (LoadUpvalues S) (\<lambda>us.
     bindL (LoadDebug S us) (\<lambda>(src, li, lv, us').
       returnL (Proto ld lld np va mss cd ks ps us' src li lv)))))))))))))"

definition LoadHeader :: "byte list \<Rightarrow> unit loader" where
  "LoadHeader S = bindL (LoadBlock S (length luaU_header - 1)) (\<lambda>b.
     let s = hd luaU_header # b
     in if s = luaU_header then returnL ()
        else if take 4 s \<noteq> take 4 luaU_header then failL (LoadErr S ''not a'')
        else if take 6 s \<noteq> take 6 luaU_header then failL (LoadErr S ''version mismatch in'')
        else if take 12 s \<noteq> take 12 luaU_header then failL (LoadErr S ''incompatible'')
        else failL (LoadErr S ''corrupted''))"

definition undump_name :: "byte list \<Rightarrow> byte list" where
  "undump_name name = (case name of
       [] \<Rightarrow> name
     | c # cs \<Rightarrow> if c = 64 \<or> c = 61 then cs
                 else if c = hd LUA_SIGNATURE then map (of_char :: char \<Rightarrow> byte) ''binary string''
                 else name)"

text \<open>The loaded main function: its prototype and the number of upvalues of its closure.\<close>

definition luaU_undump :: "nat \<Rightarrow> byte list \<Rightarrow> (Proto \<times> nat) loader" where
  "luaU_undump fuel name = bindL (LoadHeader (undump_name name)) (\<lambda>_.
     bindL (LoadFunction fuel (undump_name name)) (\<lambda>f. returnL (f, length (f_upvalues f))))"

section \<open>The stream\<close>

definition zbytes :: "ZIO \<Rightarrow> byte list" where
  "zbytes z = zbuf z @ concat (pieces z)"

definition zok :: "ZIO \<Rightarrow> bool" where
  "zok z \<longleftrightarrow> [] \<notin> set (pieces z)"

lemma luaZ_read_bytes:
  assumes "zok z"
  shows "\<exists>z'. luaZ_read z n = (take n (zbytes z), n - length (zbytes z), z') \<and>
           zbytes z' = drop n (zbytes z) \<and> zok z'"
  using assms
proof (induction z n rule: luaZ_read.induct)
  case (1 z n)
  consider "n = 0" | "n \<noteq> 0" "zbuf z = []" "pieces z = []"
    | c q cs where "n \<noteq> 0" "zbuf z = []" "pieces z = (c # q) # cs"
    | "n \<noteq> 0" "zbuf z \<noteq> []"
  proof (cases "n = 0 \<or> zbuf z \<noteq> []")
    case False
    then have e: "n \<noteq> 0" "zbuf z = []" by auto
    show ?thesis
    proof (cases "pieces z")
      case Nil
      with e that(2) show ?thesis by blast
    next
      case (Cons a cs)
      with "1.prems" obtain c q where "a = c # q" by (cases a) (auto simp: zok_def)
      with e Cons that(3) show ?thesis by blast
    qed
  qed (use that in auto)
  then show ?case
  proof cases
    case 1
    then show ?thesis using "1.prems" by (simp add: luaZ_read.simps)
  next
    case 2
    then show ?thesis using "1.prems" by (simp add: luaZ_read.simps [of z] luaZ_fill_def zbytes_def)
  next
    case (3 c q cs)
    let ?z = "\<lparr>zbuf = q, pieces = cs\<rparr>"
    have fill: "luaZ_fill z = (Some c, ?z)" using 3 by (simp add: luaZ_fill_def)
    have "zok (?z\<lparr>zbuf := c # zbuf ?z\<rparr>)" "zbytes (?z\<lparr>zbuf := c # zbuf ?z\<rparr>) = zbytes z"
      using 3 "1.prems" by (simp_all add: zok_def zbytes_def)
    with "1.IH"(1) [OF _ 3(2) fill [symmetric] refl] 3 show ?thesis
      by (simp add: luaZ_read.simps [of z] fill)
  next
    case 4
    let ?m = "if n \<le> length (zbuf z) then n else length (zbuf z)"
    let ?z = "z\<lparr>zbuf := drop ?m (zbuf z)\<rparr>"
    have ok: "zok ?z" "zbytes ?z = drop ?m (zbytes z)" using "1.prems" by (auto simp: zok_def zbytes_def)
    from "1.IH"(2) [OF _ _ refl] 4 ok obtain z' where
      "luaZ_read ?z (n - ?m) = (take (n - ?m) (zbytes ?z), n - ?m - length (zbytes ?z), z')"
      "zbytes z' = drop (n - ?m) (zbytes ?z)" "zok z'" by auto
    with 4 ok show ?thesis
      by (auto simp: luaZ_read.simps [of z] zbytes_def Let_def)
  qed
qed

section \<open>What a loader reads and what a dumper writes\<close>

text \<open>
  loads S m xs a: from any stream that starts with xs, however it is cut into pieces, m loads a and
  consumes exactly xs, and from a stream that ends inside xs it reports a truncated chunk named S.
\<close>

definition loads :: "byte list \<Rightarrow> 'a loader \<Rightarrow> byte list \<Rightarrow> 'a \<Rightarrow> bool" where
  "loads S m xs a \<longleftrightarrow> (\<forall>z rest. zok z \<longrightarrow> zbytes z = xs @ rest \<longrightarrow>
     (\<exists>z'. m z = Inr (a, z') \<and> zok z' \<and> zbytes z' = rest)) \<and>
   (\<forall>z. zok z \<longrightarrow> strict_prefix (zbytes z) xs \<longrightarrow> m z = Inl (LoadErr S ''truncated''))"

lemma loads_return [simp]: "loads S (returnL a) [] a"
  by (simp add: loads_def returnL_def)

lemma strict_prefix_append:
  "strict_prefix bs (xs @ ys) \<Longrightarrow> strict_prefix bs xs \<or> (\<exists>cs. bs = xs @ cs \<and> strict_prefix cs ys)"
  by (auto simp: strict_prefix_def prefix_append)

lemma loadsD:
  assumes "loads S m xs a" "zok z"
  shows "zbytes z = xs @ rest \<Longrightarrow> \<exists>z'. m z = Inr (a, z') \<and> zok z' \<and> zbytes z' = rest"
    and "strict_prefix (zbytes z) xs \<Longrightarrow> m z = Inl (LoadErr S ''truncated'')"
  using assms by (auto simp: loads_def)

lemma loads_bind:
  assumes m: "loads S m xs a" and f: "loads S (f a) ys b"
  shows "loads S (bindL m f) (xs @ ys) b"
  unfolding loads_def
proof (intro conjI allI impI)
  fix z rest
  assume z: "zok z" "zbytes z = (xs @ ys) @ rest"
  from loadsD(1) [OF m z(1), of "ys @ rest"] z obtain z' where
    z': "m z = Inr (a, z')" "zok z'" "zbytes z' = ys @ rest" by auto
  from loadsD(1) [OF f z'(2,3)] z'(1)
  show "\<exists>z'. bindL m f z = Inr (b, z') \<and> zok z' \<and> zbytes z' = rest" by (simp add: bindL_def)
next
  fix z
  assume z: "zok z" "strict_prefix (zbytes z) (xs @ ys)"
  from strict_prefix_append [OF z(2)] show "bindL m f z = Inl (LoadErr S ''truncated'')"
  proof
    assume "strict_prefix (zbytes z) xs"
    from loadsD(2) [OF m z(1) this] show ?thesis by (simp add: bindL_def)
  next
    assume "\<exists>cs. zbytes z = xs @ cs \<and> strict_prefix cs ys"
    then obtain cs where cs: "zbytes z = xs @ cs" "strict_prefix cs ys" by blast
    from loadsD(1) [OF m z(1) cs(1)] obtain z' where
      z': "m z = Inr (a, z')" "zok z'" "zbytes z' = cs" by auto
    with loadsD(2) [OF f z'(2)] cs(2) show ?thesis by (simp add: bindL_def)
  qed
qed

lemma loads_bind_return: "loads S m xs a \<Longrightarrow> f a = returnL b \<Longrightarrow> loads S (bindL m f) xs b"
  using loads_bind [of S m xs a f "[]" b] by simp

lemma loads_LoadBlock:
  assumes "length xs = n"
  shows "loads S (LoadBlock S n) xs xs"
  unfolding loads_def
proof (intro conjI allI impI)
  fix z rest
  assume "zok z" "zbytes z = xs @ rest"
  with assms luaZ_read_bytes [of z n] show
    "\<exists>z'. LoadBlock S n z = Inr (xs, z') \<and> zok z' \<and> zbytes z' = rest"
    by (auto simp: LoadBlock_def)
next
  fix z
  assume "zok z" "strict_prefix (zbytes z) xs"
  with assms luaZ_read_bytes [of z n] prefix_length_less [of "zbytes z" xs]
  show "LoadBlock S n z = Inl (LoadErr S ''truncated'')"
    by (auto simp: LoadBlock_def)
qed

lemma loads_LoadChar: "loads S (LoadChar S) [c] c"
  unfolding LoadChar_def by (rule loads_bind_return [OF loads_LoadBlock]) auto

lemma loads_LoadInt: "0 \<le> sint x \<Longrightarrow> loads S (LoadInt S) (word_to_le 4 x) x"
  unfolding LoadInt_def
  by (rule loads_bind_return [OF loads_LoadBlock]) (auto simp: le_to_word_word_to_le)

lemma loads_LoadNumber: "loads S (LoadNumber S) (word_to_le 8 x) x"
  unfolding LoadNumber_def
  by (rule loads_bind_return [OF loads_LoadBlock]) (auto simp: le_to_word_word_to_le)

lemma loads_LoadSize: "loads S (LoadSize S) (word_to_le 8 x) x"
  unfolding LoadSize_def
  by (rule loads_bind_return [OF loads_LoadBlock]) (auto simp: le_to_word_word_to_le)

lemma loads_load_n:
  "list_all2 (loads S m) xss as \<Longrightarrow> loads S (load_n (length as) m) (concat xss) as"
proof (induction xss arbitrary: as)
  case Nil
  then show ?case by simp
next
  case (Cons xs xss)
  then obtain a as' where as: "as = a # as'" "loads S m xs a" "list_all2 (loads S m) xss as'"
    by (auto simp: list_all2_Cons1)
  have "loads S (bindL (load_n (length as') m) (\<lambda>as. returnL (a # as))) (concat xss) (a # as')"
    by (rule loads_bind_return [OF Cons.IH [OF as(3)]]) simp
  with loads_bind [OF as(2)] show ?case by (simp add: as(1))
qed

text \<open>An int count fits when the vector has fewer than 2 ^ 31 elements.\<close>

lemma count_ok:
  assumes "n < 2 ^ 31"
  shows "0 \<le> sint (of_nat n :: uint32)" "unat (of_nat n :: uint32) = n"
  using assms by (simp_all add: signed_of_nat signed_take_bit_int_eq_self unat_of_nat take_bit_nat_eq_self)

lemma loads_counted:
  assumes "length as < 2 ^ 31" and "list_all2 (loads S m) xss as" and "f as = returnL b"
  shows "loads S (bindL (LoadInt S) (\<lambda>n. bindL (load_n (unat n) m) f))
     (word_to_le 4 (of_nat (length as) :: uint32) @ concat xss) b"
  using loads_load_n [OF assms(2)] assms
  by (intro loads_bind [OF loads_LoadInt] loads_bind_return) (auto simp: count_ok)

definition str_bytes :: "byte list option \<Rightarrow> byte list" where
  "str_bytes s = (case s of
       None \<Rightarrow> word_to_le 8 (0 :: uint64)
     | Some bs \<Rightarrow> word_to_le 8 (of_nat (length bs + 1) :: uint64) @ bs @ [0])"

definition str_ok :: "byte list option \<Rightarrow> bool" where
  "str_ok s \<longleftrightarrow> (case s of None \<Rightarrow> True | Some bs \<Rightarrow> length bs + 1 < 2 ^ 64)"

lemma loads_LoadString: "str_ok s \<Longrightarrow> loads S (LoadString S) (str_bytes s) s"
proof (cases s)
  case None
  then show ?thesis
    unfolding LoadString_def str_bytes_def
    by (auto intro: loads_bind_return [OF loads_LoadSize])
next
  case (Some bs)
  assume "str_ok s"
  define w :: uint64 where "w = of_nat (length bs + 1)"
  have u: "unat w = length bs + 1"
    using \<open>str_ok s\<close> Some
    by (simp add: w_def str_ok_def unat_of_nat take_bit_nat_eq_self del: of_nat_Suc of_nat_add)
  then have nz: "w \<noteq> 0" by auto
  have m: "unat (w - 1) = length bs" using u nz by (simp add: unat_minus_one)
  have "loads S (LoadString S) (word_to_le 8 w @ bs @ [0]) (Some bs)"
    unfolding LoadString_def
    by (rule loads_bind [OF loads_LoadSize])
       (auto simp: nz m u intro!: loads_bind_return [OF loads_LoadBlock [of "bs @ [0]"]])
  then show ?thesis by (simp add: Some str_bytes_def w_def)
qed

section \<open>The bytes of a prototype\<close>

definition int_bytes :: "uint32 \<Rightarrow> byte list" where
  "int_bytes x = word_to_le 4 x"

definition count_bytes :: "'a list \<Rightarrow> byte list" where
  "count_bytes xs = int_bytes (of_nat (length xs))"

definition vec_bytes :: "uint32 list \<Rightarrow> byte list" where
  "vec_bytes v = count_bytes v @ concat (map (word_to_le 4) v)"

definition const_bytes :: "TConst \<Rightarrow> byte list" where
  "const_bytes c = (case c of
       KNil \<Rightarrow> [0]
     | KBool b \<Rightarrow> [1, word_of_int b]
     | KNumber n \<Rightarrow> [3] @ word_to_le 8 n
     | KString s \<Rightarrow> [4] @ str_bytes s)"

definition locvar_bytes :: "LocVar \<Rightarrow> byte list" where
  "locvar_bytes v = str_bytes (varname v) @ int_bytes (startpc v) @ int_bytes (endpc v)"

text \<open>What stripping drops: the debug information.\<close>

definition strip_up :: "bool \<Rightarrow> Upvaldesc \<Rightarrow> Upvaldesc" where
  "strip_up s u = (if s then Upvaldesc None (instack u) (idx u) else u)"

primrec strip_proto :: "bool \<Rightarrow> Proto \<Rightarrow> Proto" where
  "strip_proto s (Proto ld lld np va mss cd ks ps us src li lv) =
     Proto ld lld np va mss cd ks (map (strip_proto s) ps) (map (strip_up s) us)
       (if s then None else src) (if s then [] else li) (if s then [] else lv)"

definition debug_bytes :: "bool \<Rightarrow> Upvaldesc list \<Rightarrow> byte list option \<Rightarrow> uint32 list \<Rightarrow> LocVar list \<Rightarrow> byte list" where
  "debug_bytes s us src li lv =
     (let lv' = (if s then [] else lv); us' = (if s then [] else us) in
      str_bytes (if s then None else src) @ vec_bytes (if s then [] else li) @
      count_bytes lv' @ concat (map locvar_bytes lv') @
      count_bytes us' @ concat (map (\<lambda>u. str_bytes (up_name u)) us'))"

primrec proto_bytes :: "bool \<Rightarrow> Proto \<Rightarrow> byte list" where
  "proto_bytes s (Proto ld lld np va mss cd ks ps us src li lv) =
     int_bytes ld @ int_bytes lld @ [np] @ [va] @ [mss] @ vec_bytes cd @
     (count_bytes ks @ concat (map const_bytes ks)) @
     (count_bytes ps @ concat (map (proto_bytes s) ps)) @
     (count_bytes us @ concat (map (\<lambda>u. [instack u] @ [idx u]) us)) @
     debug_bytes s us src li lv"

text \<open>
  What the C types already give: int counts, non-negative line numbers and pcs, boolean constants
  that fit in a char, strings shorter than the address space.
\<close>

definition const_ok :: "TConst \<Rightarrow> bool" where
  "const_ok c \<longleftrightarrow> (case c of KBool b \<Rightarrow> -128 \<le> b \<and> b < 128 | KString s \<Rightarrow> str_ok s | _ \<Rightarrow> True)"

definition locvar_ok :: "LocVar \<Rightarrow> bool" where
  "locvar_ok v \<longleftrightarrow> str_ok (varname v) \<and> 0 \<le> sint (startpc v) \<and> 0 \<le> sint (endpc v)"

primrec proto_ok :: "Proto \<Rightarrow> bool" where
  "proto_ok (Proto ld lld np va mss cd ks ps us src li lv) \<longleftrightarrow>
     0 \<le> sint ld \<and> 0 \<le> sint lld \<and> length cd < 2 ^ 31 \<and>
     length ks < 2 ^ 31 \<and> list_all const_ok ks \<and>
     length ps < 2 ^ 31 \<and> list_all (\<lambda>b. b) (map proto_ok ps) \<and>
     length us < 2 ^ 31 \<and> list_all (\<lambda>u. str_ok (up_name u)) us \<and>
     str_ok src \<and> length li < 2 ^ 31 \<and> length lv < 2 ^ 31 \<and> list_all locvar_ok lv"

subsection \<open>Loading the bytes\<close>

lemma words32_concat: "words32 (concat (map (word_to_le 4) v)) = v"
proof (induction v)
  case Nil
  then show ?case by simp
next
  case (Cons x v)
  obtain a b c d where w: "word_to_le 4 x = [a, b, c, d]"
    using length_word_to_le [of 4 x]
    by (auto simp: length_Suc_conv numeral_eq_Suc simp del: length_word_to_le)
  then have "le_to_word [a, b, c, d] = x" using le_to_word_word_to_le [of 4 x] by simp
  with Cons w show ?case by simp
qed

lemma length_concat_words: "length (concat (map (word_to_le 4) v)) = length v * 4"
  by (induction v) auto

lemma loads_LoadVector:
  "length v < 2 ^ 31 \<Longrightarrow> loads S (LoadVector S) (vec_bytes v) v"
  unfolding LoadVector_def vec_bytes_def count_bytes_def int_bytes_def
  by (intro loads_bind [OF loads_LoadInt] loads_bind_return [OF loads_LoadBlock])
     (auto simp: count_ok length_concat_words words32_concat)

lemma loads_LoadConstant: "const_ok c \<Longrightarrow> loads S (LoadConstant S) (const_bytes c) c"
proof (cases c)
  case (KBool b)
  assume "const_ok c"
  with KBool have "sint (word_of_int b :: byte) = b"
    by (simp add: const_ok_def sint_word_ariths signed_take_bit_int_eq_self signed_of_int)
  then have "loads S (LoadConstant S) ([1] @ [word_of_int b]) (KBool b)"
    unfolding LoadConstant_def
    by (intro loads_bind [OF loads_LoadChar]) (auto intro: loads_bind_return [OF loads_LoadChar])
  with KBool show ?thesis by (simp add: const_bytes_def)
next
  case KNil
  then show ?thesis unfolding LoadConstant_def const_bytes_def
    by (auto intro: loads_bind_return [OF loads_LoadChar])
next
  case (KNumber n)
  then show ?thesis unfolding LoadConstant_def const_bytes_def TConst.case
    by (simp del: append_Cons append.simps) (intro loads_bind [OF loads_LoadChar]; auto intro: loads_bind_return [OF loads_LoadNumber])
next
  case (KString s)
  assume "const_ok c"
  with KString have s: "str_ok s" by (simp add: const_ok_def)
  have "loads S (LoadConstant S) ([4] @ str_bytes s) (KString s)"
    unfolding LoadConstant_def
    by (intro loads_bind [OF loads_LoadChar]) (auto intro: loads_bind_return [OF loads_LoadString [OF s]])
  with KString show ?thesis by (simp add: const_bytes_def)
qed

lemma loads_LoadLocVar: "locvar_ok v \<Longrightarrow> loads S (LoadLocVar S) (locvar_bytes v) v"
  unfolding LoadLocVar_def locvar_bytes_def int_bytes_def
  by (intro loads_bind [OF loads_LoadString] loads_bind [OF loads_LoadInt] loads_bind_return [OF loads_LoadInt])
     (auto simp: locvar_ok_def)

lemma loads_LoadUpvalues:
  "length us < 2 ^ 31 \<Longrightarrow>
   loads S (LoadUpvalues S) (count_bytes us @ concat (map (\<lambda>u. [instack u] @ [idx u]) us))
     (map (strip_up True) us)"
proof -
  assume len: "length us < 2 ^ 31"
  let ?m = "bindL (LoadChar S) (\<lambda>i. bindL (LoadChar S) (\<lambda>x. returnL (Upvaldesc None i x)))"
  have one: "loads S ?m ([instack u] @ [idx u]) (strip_up True u)" for u
    by (intro loads_bind [OF loads_LoadChar] loads_bind_return [OF loads_LoadChar])
       (simp add: strip_up_def)
  have "list_all2 (loads S ?m) (map (\<lambda>u. [instack u] @ [idx u]) us) (map (strip_up True) us)"
    using one by (simp add: list_all2_map1 list_all2_map2 list_all2_same)
  from loads_load_n [OF this] len show ?thesis
    unfolding LoadUpvalues_def count_bytes_def int_bytes_def
    by (intro loads_bind [OF loads_LoadInt]) (simp_all add: count_ok)
qed

lemma strip_up_False: "strip_up False = (\<lambda>u. u)"
  by (simp add: strip_up_def fun_eq_iff)

lemma set_upnames_map:
  "set_upnames (map up_name us) (map (strip_up True) us) = us"
  by (induction us) (auto simp: strip_up_def)

lemma list_all2_loads_map:
  assumes "\<And>x. x \<in> set xs \<Longrightarrow> loads S m (f x) (g x)"
  shows "list_all2 (loads S m) (map f xs) (map g xs)"
  using assms by (simp add: list_all2_map1 list_all2_map2 list_all2_same)

lemma loads_LoadDebug:
  assumes "str_ok src" "length li < 2 ^ 31" "length lv < 2 ^ 31" "list_all locvar_ok lv"
    "length us < 2 ^ 31" "list_all (\<lambda>u. str_ok (up_name u)) us"
  shows "loads S (LoadDebug S (map (strip_up True) us)) (debug_bytes s us src li lv)
     (if s then None else src, if s then [] else li, if s then [] else lv, map (strip_up s) us)"
proof -
  let ?lv = "if s then [] else lv" and ?us = "if s then [] else us"
  have lv: "loads S (load_n (length ?lv) (LoadLocVar S)) (concat (map locvar_bytes ?lv)) ?lv"
    using assms(4) loads_LoadLocVar
    by (intro loads_load_n) (auto simp: list_all2_map1 list_all2_same list_all_iff)
  have "list_all2 (loads S (LoadString S)) (map (\<lambda>u. str_bytes (up_name u)) ?us) (map up_name ?us)"
    using assms(6)
    by (intro list_all2_loads_map loads_LoadString) (auto simp: list_all_iff split: if_splits)
  from loads_load_n [OF this]
  have us: "loads S (load_n (length ?us) (LoadString S)) (concat (map (\<lambda>u. str_bytes (up_name u)) ?us)) (map up_name ?us)"
    by simp
  have cnt: "unat (of_nat (length ?lv) :: uint32) = length ?lv" "0 \<le> sint (of_nat (length ?lv) :: uint32)"
    "unat (of_nat (length ?us) :: uint32) = length ?us" "0 \<le> sint (of_nat (length ?us) :: uint32)"
    using assms(3,5) count_ok [of "length lv"] count_ok [of "length us"] by auto
  have names: "set_upnames (map up_name ?us) (map (strip_up True) us) = map (strip_up s) us"
    using set_upnames_map [of us] by (simp add: strip_up_False)
  have last: "(if unat (of_nat (length ?us) :: uint32) > length (map (strip_up True) us) then failL UpvalueOutOfRange
       else returnL (sr, l, lvs, set_upnames (map up_name ?us) (map (strip_up True) us)))
     = returnL (sr, l, lvs, map (strip_up s) us)" for sr l lvs
    unfolding cnt names by simp
  have lv': "loads S (load_n (unat (of_nat (length ?lv) :: uint32)) (LoadLocVar S)) (concat (map locvar_bytes ?lv)) ?lv"
    using lv by (simp only: cnt)
  have us': "loads S (load_n (min (unat (of_nat (length ?us) :: uint32)) (length (map (strip_up True) us) + 1)) (LoadString S))
      (concat (map (\<lambda>u. str_bytes (up_name u)) ?us)) (map up_name ?us)"
  proof -
    have "min (length ?us) (length (map (strip_up True) us) + 1) = length ?us" by simp
    with us show ?thesis by (simp only: cnt)
  qed
  have src: "str_ok (if s then None else src)" "length (if s then [] else li) < 2 ^ 31"
    using assms(1,2) by (auto simp: str_ok_def)
  show ?thesis
    unfolding LoadDebug_def debug_bytes_def Let_def count_bytes_def int_bytes_def
    by (rule loads_bind [OF loads_LoadString [OF src(1)]], rule loads_bind [OF loads_LoadVector [OF src(2)]],
        rule loads_bind [OF loads_LoadInt [OF cnt(2)]], rule loads_bind [OF lv'],
        rule loads_bind [OF loads_LoadInt [OF cnt(4)]],
        rule loads_bind_return [OF us'], rule last)
qed

lemma proto_bytes_nested:
  "q \<in> set ps \<Longrightarrow> length (proto_bytes s q) <
     length (proto_bytes s (Proto ld lld np va mss cd ks ps us src li lv))"
  by (auto simp: int_bytes_def dest!: split_list)

lemma loads_count_bind:
  assumes "length as < 2 ^ 31" "loads S (load_n (length as) m) xs bs" "loads S (g bs) ys b"
  shows "loads S (bindL (LoadInt S) (\<lambda>n. bindL (load_n (unat n) m) g)) ((count_bytes as @ xs) @ ys) b"
proof -
  have "loads S (bindL (load_n (length as) m) g) (xs @ ys) b"
    using assms(2,3) by (rule loads_bind)
  then show ?thesis
    unfolding count_bytes_def int_bytes_def append_assoc
    using assms(1) by (intro loads_bind [OF loads_LoadInt]) (simp_all add: count_ok)
qed

lemma loads_LoadFunction:
  "proto_ok f \<Longrightarrow> length (proto_bytes s f) \<le> fuel \<Longrightarrow>
   loads S (LoadFunction fuel S) (proto_bytes s f) (strip_proto s f)"
proof (induction f arbitrary: fuel)
  case (Proto ld lld np va mss cd ks ps us src li lv)
  from Proto.prems(2) obtain fuel' where fuel: "fuel = Suc fuel'"
    by (cases fuel) auto
  note ok = Proto.prems(1) [unfolded proto_ok.simps]
  have "loads S (LoadFunction fuel' S) (proto_bytes s q) (strip_proto s q)" if "q \<in> set ps" for q
  proof (rule Proto.IH(1) [OF that])
    show "proto_ok q" using ok that by (auto simp: list_all_iff)
    show "length (proto_bytes s q) \<le> fuel'"
      using proto_bytes_nested [OF that, of s ld lld np va mss cd ks us src li lv] Proto.prems(2) fuel
      by linarith
  qed
  then have ps: "loads S (load_n (length ps) (LoadFunction fuel' S)) (concat (map (proto_bytes s) ps))
      (map (strip_proto s) ps)"
    using loads_load_n [OF list_all2_loads_map [of ps S "LoadFunction fuel' S" "proto_bytes s" "strip_proto s"]]
    by simp
  have ks: "loads S (load_n (length ks) (LoadConstant S)) (concat (map const_bytes ks)) ks"
    using ok loads_LoadConstant
    by (intro loads_load_n) (auto simp: list_all2_map1 list_all2_same list_all_iff)
  show ?case
    unfolding fuel LoadFunction.simps proto_bytes.simps strip_proto.simps LoadCode_def int_bytes_def
    using ok
    by (intro loads_bind [OF loads_LoadInt] loads_bind [OF loads_LoadChar] loads_bind [OF loads_LoadVector]
          loads_count_bind [OF _ ks] loads_count_bind [OF _ ps] loads_bind [OF loads_LoadUpvalues] loads_bind_return [OF loads_LoadDebug])
       simp_all
qed

subsection \<open>Dumping writes the bytes\<close>

text \<open>
  emits s F bs: with the strip flag s, F passes to the writer a fixed sequence of blocks that make
  up bs, as long as the status stays 0; the sequence does not depend on the writer.
\<close>

definition emits :: "bool \<Rightarrow> ('d DumpState \<Rightarrow> 'd DumpState) \<Rightarrow> byte list \<Rightarrow> bool" where
  "emits s F bs \<longleftrightarrow> (\<exists>blocks. concat blocks = bs \<and>
     (\<forall>D. ds_strip D = s \<longrightarrow> F D = fold DumpBlock blocks D))"

lemma ds_strip_DumpBlock [simp]: "ds_strip (DumpBlock b D) = ds_strip D"
  by (simp add: DumpBlock_def split: prod.splits)

lemma ds_strip_fold [simp]: "ds_strip (fold DumpBlock bs D) = ds_strip D"
  by (induction bs arbitrary: D) simp_all

lemma emits_comp:
  assumes "emits s G b" "emits s F a"
  shows "emits s (\<lambda>D. G (F D)) (a @ b)"
proof -
  obtain ba bb where "concat ba = a" "concat bb = b"
    "\<And>D. ds_strip D = s \<Longrightarrow> F D = fold DumpBlock ba D"
    "\<And>D. ds_strip D = s \<Longrightarrow> G D = fold DumpBlock bb D"
    using assms by (auto simp: emits_def)
  then show ?thesis unfolding emits_def by (intro exI [of _ "ba @ bb"]) simp
qed

lemma emits_id: "emits s (\<lambda>D. D) []"
  unfolding emits_def by (rule exI [of _ "[]"]) simp

lemma emits_DumpBlock: "emits s (DumpBlock b) b"
  unfolding emits_def by (rule exI [of _ "[b]"]) simp

lemma emits_DumpInt: "emits s (DumpInt x) (int_bytes x)"
  using emits_DumpBlock by (simp add: DumpInt_def [abs_def] int_bytes_def)

lemma emits_DumpChar: "emits s (DumpChar x) [x]"
  using emits_DumpBlock by (simp add: DumpChar_def [abs_def])

lemma emits_DumpSize: "emits s (DumpSize x) (word_to_le 8 x)"
  using emits_DumpBlock by (simp add: DumpSize_def [abs_def])

lemma emits_DumpNumber: "emits s (DumpNumber x) (word_to_le 8 x)"
  using emits_DumpBlock by (simp add: DumpNumber_def [abs_def])

lemma emits_DumpString: "emits s (DumpString x) (str_bytes x)"
proof (cases x)
  case None
  then show ?thesis using emits_DumpSize by (simp add: DumpString_def [abs_def] str_bytes_def)
next
  case (Some bs)
  from emits_comp [OF emits_DumpBlock [of s "bs @ [0]"] emits_DumpSize]
  show ?thesis by (simp add: DumpString_def [abs_def] str_bytes_def Some)
qed

lemma emits_DumpVector: "emits s (DumpVector x) (vec_bytes x)"
  unfolding DumpVector_def [abs_def] vec_bytes_def count_bytes_def
  by (rule emits_comp [OF emits_DumpBlock emits_DumpInt])

lemma emits_DumpConstant: "emits s (DumpConstant x) (const_bytes x)"
proof (cases x)
  case (KBool b)
  from emits_comp [OF emits_DumpChar [of s "word_of_int b"] emits_DumpChar [of s 1]]
  show ?thesis by (simp add: DumpConstant_def [abs_def] const_bytes_def KBool)
next
  case (KNumber n)
  from emits_comp [OF emits_DumpNumber [of s n] emits_DumpChar [of s 3]]
  show ?thesis by (simp add: DumpConstant_def [abs_def] const_bytes_def KNumber)
next
  case (KString n)
  from emits_comp [OF emits_DumpString [of s n] emits_DumpChar [of s 4]]
  show ?thesis by (simp add: DumpConstant_def [abs_def] const_bytes_def KString)
qed (use emits_DumpChar in \<open>simp add: DumpConstant_def [abs_def] const_bytes_def\<close>)

lemma emits_DumpLocVar: "emits s (DumpLocVar x) (locvar_bytes x)"
proof -
  note e = emits_comp [OF emits_DumpInt emits_comp [OF emits_DumpInt emits_DumpString]]
  from e [of s "endpc x" "startpc x" "varname x"] show ?thesis
    by (simp add: DumpLocVar_def [abs_def] locvar_bytes_def)
qed

lemma emits_fold:
  "(\<And>x. x \<in> set xs \<Longrightarrow> emits s (f x) (g x)) \<Longrightarrow> emits s (fold f xs) (concat (map g xs))"
proof (induction xs)
  case Nil
  then show ?case using emits_id by (simp add: id_def)
next
  case (Cons x xs)
  then have "emits s (\<lambda>D. fold f xs (f x D)) (g x @ concat (map g xs))"
    by (intro emits_comp) auto
  then show ?case by (simp add: comp_def)
qed

lemma emits_counted:
  assumes "\<And>x. x \<in> set xs \<Longrightarrow> emits s (f x) (g x)"
  shows "emits s (\<lambda>D. fold f xs (DumpInt (of_nat (length xs)) D)) (count_bytes xs @ concat (map g xs))"
  unfolding count_bytes_def by (rule emits_comp [OF emits_fold [OF assms] emits_DumpInt])

lemma emits_DumpUpvalues:
  "emits s (DumpUpvalues us) (count_bytes us @ concat (map (\<lambda>u. [instack u] @ [idx u]) us))"
  unfolding DumpUpvalues_def [abs_def]
  by (intro emits_counted emits_comp [OF emits_DumpChar emits_DumpChar])

lemma emits_strip:
  assumes "\<And>D. ds_strip D = s \<Longrightarrow> F D = G D" "emits s G bs"
  shows "emits s F bs"
  using assms by (auto simp: emits_def)

lemma emits_DumpDebug:
  "emits s (DumpDebug f) (debug_bytes s (f_upvalues f) (f_source f) (f_lineinfo f) (f_locvars f))"
proof -
  let ?lv = "if s then [] else f_locvars f" and ?us = "if s then [] else f_upvalues f"
  let ?F = "\<lambda>D. fold (\<lambda>u. DumpString (up_name u)) ?us (DumpInt (of_nat (length ?us))
     (fold DumpLocVar ?lv (DumpInt (of_nat (length ?lv))
     (DumpVector (if s then [] else f_lineinfo f) (DumpString (if s then None else f_source f) D)))))"
  have "emits s ?F (((str_bytes (if s then None else f_source f) @ vec_bytes (if s then [] else f_lineinfo f)) @
      count_bytes ?lv @ concat (map locvar_bytes ?lv)) @
      count_bytes ?us @ concat (map (\<lambda>u. str_bytes (up_name u)) ?us))"
    by (rule emits_comp [OF emits_counted [OF emits_DumpString]],
        rule emits_comp [OF emits_counted [OF emits_DumpLocVar]],
        rule emits_comp [OF emits_DumpVector emits_DumpString])
  then show ?thesis
    unfolding debug_bytes_def Let_def append_assoc
    by (rule emits_strip [rotated]) (simp add: DumpDebug_def Let_def)
qed

lemma emits_DumpFunction: "emits s (DumpFunction f :: 'd DumpState \<Rightarrow> 'd DumpState) (proto_bytes s f)"
proof (induction f)
  case (Proto ld lld np va mss cd ks ps us src li lv)
  let ?f = "Proto ld lld np va mss cd ks ps us src li lv"
  have ps: "emits s (fold (\<lambda>g. g) (map DumpFunction ps) :: 'd DumpState \<Rightarrow> 'd DumpState) (concat (map (proto_bytes s) ps))"
    unfolding fold_map comp_def by (rule emits_fold) (rule Proto.IH)
  have ks: "emits s (\<lambda>D :: 'd DumpState. fold DumpConstant ks (DumpInt (of_nat (length ks)) D))
      (count_bytes ks @ concat (map const_bytes ks))"
    by (rule emits_counted) (rule emits_DumpConstant)
  note es = emits_comp [OF emits_DumpDebug [of s ?f], OF
    emits_comp [OF emits_DumpUpvalues, OF
    emits_comp [OF ps, OF
    emits_comp [OF emits_DumpInt, OF
    emits_comp [OF ks, OF
    emits_comp [OF emits_DumpVector, OF
    emits_comp [OF emits_DumpChar, OF emits_comp [OF emits_DumpChar, OF emits_comp [OF emits_DumpChar, OF
    emits_comp [OF emits_DumpInt emits_DumpInt]]]]]]]]]]
  show ?case
    using es [of us "of_nat (length ps)" cd mss va np lld ld]
    by (simp add: Let_def count_bytes_def cong del: list.map_cong)
qed

text \<open>The writer's run over a sequence of blocks: it stops at the first non-zero status.\<close>

fun run_writer :: "('d \<Rightarrow> byte list \<Rightarrow> int \<times> 'd) \<Rightarrow> 'd \<Rightarrow> byte list list \<Rightarrow> int \<times> 'd" where
  "run_writer w d [] = (0, d)"
| "run_writer w d (b # bs) = (case w d b of (st, d') \<Rightarrow> if st = 0 then run_writer w d' bs else (st, d'))"

lemma fold_DumpBlock_error: "ds_status D \<noteq> 0 \<Longrightarrow> fold DumpBlock bs D = D"
  by (induction bs) (simp_all add: DumpBlock_def)

lemma fold_DumpBlock_run:
  "ds_status D = 0 \<Longrightarrow> ds_writer D = w \<Longrightarrow>
     (let D' = fold DumpBlock bs D in (ds_status D', ds_data D')) = run_writer w (ds_data D) bs"
proof (induction bs arbitrary: D)
  case (Cons b bs)
  obtain st d' where w: "w (ds_data D) b = (st, d')" by fastforce
  with Cons.prems have D: "DumpBlock b D = D\<lparr>ds_status := st, ds_data := d'\<rparr>"
    by (simp add: DumpBlock_def)
  show ?case
    using Cons.IH [of "DumpBlock b D"] Cons.prems
    by (cases "st = 0") (simp_all add: D w fold_DumpBlock_error)
qed simp

lemma luaU_dump_blocks:
  "\<exists>blocks. concat blocks = luaU_header @ proto_bytes s f \<and>
     (\<forall>w (d :: 'd). luaU_dump f w d s = run_writer w d blocks)"
proof -
  have "emits s (\<lambda>D :: 'd DumpState. DumpFunction f (DumpHeader D)) (luaU_header @ proto_bytes s f)"
    unfolding DumpHeader_def by (rule emits_comp [OF emits_DumpFunction emits_DumpBlock])
  then obtain blocks where b: "concat blocks = luaU_header @ proto_bytes s f"
    "\<And>D :: 'd DumpState. ds_strip D = s \<Longrightarrow> DumpFunction f (DumpHeader D) = fold DumpBlock blocks D"
    by (auto simp: emits_def)
  have "luaU_dump f w d s = run_writer w d blocks" for w and d :: 'd
    using fold_DumpBlock_run [of "\<lparr>ds_writer = w, ds_data = d, ds_strip = s, ds_status = 0\<rparr>" w blocks]
    by (simp add: luaU_dump_def b(2) Let_def)
  with b(1) show ?thesis by blast
qed

text \<open>The writer that collects what it is given, as str_dump's luaL_Buffer does.\<close>

definition appw :: "byte list \<Rightarrow> byte list \<Rightarrow> int \<times> byte list" where
  "appw d b = (0, d @ b)"

lemma run_writer_appw: "run_writer appw d bs = (0, d @ concat bs)"
  by (induction bs arbitrary: d) (simp_all add: appw_def)

lemma luaU_dump_bytes:
  "luaU_dump f appw d s = (0, d @ luaU_header @ proto_bytes s f)"
  using luaU_dump_blocks [of s f, where 'd = "byte list"] by (auto simp: run_writer_appw)

section \<open>Round trip\<close>

text \<open>
  luaD_protectedparser reads the first byte (the mark of a precompiled chunk) before it calls
  luaU_undump.
\<close>

definition load_binary :: "nat \<Rightarrow> byte list \<Rightarrow> ZIO \<Rightarrow> load_error + (Proto \<times> nat) \<times> ZIO" where
  "load_binary fuel name z = luaU_undump fuel name (snd (zgetc z))"

lemma zgetc_bytes:
  "zok z \<Longrightarrow> zbytes z = c # bs \<Longrightarrow>
     fst (zgetc z) = Some c \<and> zbytes (snd (zgetc z)) = bs \<and> zok (snd (zgetc z))"
  by (auto simp: zgetc_def luaZ_fill_def zbytes_def zok_def split: list.splits)

lemma loads_LoadHeader: "loads S (LoadHeader S) (tl luaU_header) ()"
  unfolding LoadHeader_def
  by (rule loads_bind_return [OF loads_LoadBlock]) (simp_all add: luaU_header_def LUA_SIGNATURE_def)

lemma f_upvalues_strip: "length (f_upvalues (strip_proto s f)) = length (f_upvalues f)"
  by (cases f) simp

lemma loads_luaU_undump:
  assumes "proto_ok f" "length (proto_bytes s f) \<le> fuel"
  shows "loads (undump_name name) (luaU_undump fuel name) (tl luaU_header @ proto_bytes s f)
     (strip_proto s f, length (f_upvalues f))"
  unfolding luaU_undump_def
  by (intro loads_bind [OF loads_LoadHeader] loads_bind_return [OF loads_LoadFunction [OF assms]])
     (simp add: f_upvalues_strip)

section \<open>Enough fuel\<close>

text \<open>
  within j k m: on a stream with fewer than j unread bytes, m does not run out of fuel, and when it
  succeeds fewer than k bytes are left.
\<close>

definition within :: "nat \<Rightarrow> nat \<Rightarrow> 'a loader \<Rightarrow> bool" where
  "within j k m \<longleftrightarrow> (\<forall>z. zok z \<longrightarrow> length (zbytes z) < j \<longrightarrow>
     m z \<noteq> Inl NoFuel \<and> (\<forall>a z'. m z = Inr (a, z') \<longrightarrow> zok z' \<and> length (zbytes z') < k))"

lemma within_bind:
  assumes m: "within i j m" and f: "\<And>a. within j k (f a)"
  shows "within i k (bindL m f)"
  unfolding within_def
proof (intro allI impI)
  fix z
  assume z: "zok z" "length (zbytes z) < i"
  show "bindL m f z \<noteq> Inl NoFuel \<and>
    (\<forall>a z'. bindL m f z = Inr (a, z') \<longrightarrow> zok z' \<and> length (zbytes z') < k)"
  proof (cases "m z")
    case (Inl e)
    with m z show ?thesis by (auto simp: within_def bindL_def)
  next
    case (Inr r)
    obtain a z' where r: "r = (a, z')" by fastforce
    with m z Inr have "zok z'" "length (zbytes z') < j" by (simp_all add: within_def)
    with f [of a] Inr r show ?thesis by (simp add: within_def bindL_def)
  qed
qed

lemma within_return: "within k k (returnL a)"
  by (simp add: within_def returnL_def)

lemma within_fail: "e \<noteq> NoFuel \<Longrightarrow> within j k (failL e)"
  by (simp add: within_def failL_def)

lemma within_mono: "within j k m \<Longrightarrow> k \<le> k' \<Longrightarrow> within j k' m"
  unfolding within_def by (auto intro: less_le_trans)

lemma within_load_n: "within k k m \<Longrightarrow> within k k (load_n n m)"
  by (induction n) (simp_all add: within_bind within_return)

lemma within_LoadBlock:
  assumes "j \<le> k + n" "0 < k \<or> j = 0"
  shows "within j k (LoadBlock S n)"
  unfolding within_def
proof (intro allI impI)
  fix z
  assume "zok z" "length (zbytes z) < j"
  with assms luaZ_read_bytes [of z n] show
    "LoadBlock S n z \<noteq> Inl NoFuel \<and> (\<forall>a z'. LoadBlock S n z = Inr (a, z') \<longrightarrow> zok z' \<and> length (zbytes z') < k)"
    by (auto simp: LoadBlock_def split: if_splits)
qed

lemma within_LoadBlock_same: "within k k (LoadBlock S n)"
  by (rule within_LoadBlock) auto

lemmas within_intros = within_bind within_return within_fail within_load_n within_LoadBlock_same

lemma within_LoadInt: "within k k (LoadInt S)"
  unfolding LoadInt_def Let_def by (auto intro!: within_intros)

lemma within_LoadChar: "within k k (LoadChar S)"
  unfolding LoadChar_def by (auto intro!: within_intros)

lemma within_LoadString: "within k k (LoadString S)"
  unfolding LoadString_def LoadSize_def by (auto intro!: within_intros)

lemma within_LoadVector: "within k k (LoadVector S)"
  unfolding LoadVector_def by (auto intro!: within_intros within_LoadInt)

lemma within_LoadConstant: "within k k (LoadConstant S)"
  unfolding LoadConstant_def LoadNumber_def
  by (auto intro!: within_intros within_LoadChar within_LoadString)

lemma within_LoadUpvalues: "within k k (LoadUpvalues S)"
  unfolding LoadUpvalues_def by (auto intro!: within_intros within_LoadChar within_LoadInt)

lemma within_LoadLocVar: "within k k (LoadLocVar S)"
  unfolding LoadLocVar_def by (auto intro!: within_intros within_LoadString within_LoadInt)

lemma within_LoadDebug: "within k k (LoadDebug S us)"
  unfolding LoadDebug_def
  by (auto intro!: within_intros within_LoadString within_LoadVector within_LoadLocVar within_LoadInt)

text \<open>The first LoadInt of a function succeeds only when it consumes bytes.\<close>

lemma within_LoadInt_less: "within (Suc k) k (LoadInt S)"
proof (cases k)
  case 0
  have "LoadBlock S 4 z = Inl (LoadErr S ''truncated'')" if "zok z" "zbytes z = []" for z
    using luaZ_read_bytes [OF that(1), of 4] that(2) by (auto simp: LoadBlock_def)
  with 0 show ?thesis by (simp add: within_def LoadInt_def bindL_def)
next
  case (Suc k')
  then show ?thesis
    unfolding LoadInt_def Let_def by (intro within_bind [OF within_LoadBlock [where k = k]]) (auto intro!: within_intros)
qed

lemma within_LoadFunction: "within fuel fuel (LoadFunction fuel S)"
proof (induction fuel)
  case 0
  then show ?case by (simp add: within_def)
next
  case (Suc fuel)
  show ?case
    unfolding LoadFunction.simps LoadCode_def
    by (rule within_mono [where k = fuel], rule within_bind [OF within_LoadInt_less])
       (auto intro!: within_intros within_LoadInt within_LoadChar within_LoadVector within_LoadConstant
          within_LoadUpvalues within_LoadDebug Suc.IH split: prod.splits)
qed

lemma within_luaU_undump: "within fuel fuel (luaU_undump fuel name)"
  unfolding luaU_undump_def LoadHeader_def Let_def
  by (auto intro!: within_intros within_LoadFunction)

section \<open>Properties\<close>

text \<open>What luaU_dump writes does not depend on the writer. There is one sequence of blocks, the
  header followed by the bytes of the prototype, and every writer is called on exactly these blocks in
  this order until it returns a non-zero status, which luaU_dump then returns; no block is written
  after an error.\<close>

theorem luaU_dump_writer:
  "\<exists>blocks. concat blocks = luaU_header @ proto_bytes s f \<and>
     (\<forall>w d. luaU_dump f w d s = run_writer w d blocks)"
  by (rule luaU_dump_blocks)

text \<open>C11: A dumped function is loaded back: however the reader cuts the chunk into non-empty pieces,
  luaU_undump (after the first byte, which the caller reads) returns the same prototype, less its
  debug information when it was stripped, makes a closure with the right number of upvalues, and
  consumes the chunk exactly, leaving what follows it.\<close>

theorem luaU_undump_dump:
  assumes "proto_ok f" and "luaU_dump f appw [] s = (st, chunk)"
    and "[] \<notin> set rd" and "concat rd = chunk @ rest" and "length chunk \<le> fuel"
  shows "st = 0 \<and> (\<exists>z'. load_binary fuel name (luaZ_init rd) =
           Inr ((strip_proto s f, length (f_upvalues f)), z') \<and> zbytes z' = rest)"
proof -
  from assms(2) have chunk: "st = 0" "chunk = luaU_header @ proto_bytes s f"
    by (simp_all add: luaU_dump_bytes)
  obtain c h where h: "luaU_header = c # h" by (simp add: luaU_header_def LUA_SIGNATURE_def)
  have z: "zok (luaZ_init rd)" "zbytes (luaZ_init rd) = c # (h @ proto_bytes s f) @ rest"
    using assms(3,4) chunk h by (simp_all add: luaZ_init_def zok_def zbytes_def)
  have "loads (undump_name name) (luaU_undump fuel name) (h @ proto_bytes s f)
      (strip_proto s f, length (f_upvalues f))"
    using loads_luaU_undump [OF assms(1), of s fuel name] assms(5) chunk by (simp add: h)
  from loadsD(1) [OF this, of "snd (zgetc (luaZ_init rd))" rest] zgetc_bytes [OF z] chunk(1)
  show ?thesis by (auto simp: load_binary_def)
qed

definition sample_proto :: Proto where
  "sample_proto = Proto 0 0 0 1 2 [6, 31] [KString (Some [104, 105]), KNumber 1, KBool 1, KNil]
     [Proto 1 2 1 0 2 [31] [] [] [] None [] []] [Upvaldesc (Some [95]) 1 0] (Some [61, 120]) [1, 1]
     [LocVar (Some [97]) 0 1]"

theorem luaU_undump_dump_witness:
  "proto_ok sample_proto \<and>
   (\<exists>z'. load_binary 400 [64, 97] (luaZ_init [snd (luaU_dump sample_proto appw [] True), [9]]) =
      Inr ((strip_proto True sample_proto, 1), z') \<and> zbytes z' = [9])"
proof -
  have ok: "proto_ok sample_proto"
    by (simp add: sample_proto_def const_ok_def locvar_ok_def str_ok_def)
  have len: "length (snd (luaU_dump sample_proto appw [] True)) \<le> 400"
    by (simp add: luaU_dump_bytes sample_proto_def luaU_header_def LUA_SIGNATURE_def vec_bytes_def
        count_bytes_def const_bytes_def str_bytes_def debug_bytes_def int_bytes_def)
  have ne: "[] \<notin> set [snd (luaU_dump sample_proto appw [] True), [9]]"
    by (simp add: luaU_dump_bytes luaU_header_def LUA_SIGNATURE_def)
  from luaU_undump_dump [OF ok _ ne _ len, of True 0 "[9]" "[64, 97]"]
  show ?thesis using ok by (simp add: luaU_dump_bytes) (simp add: sample_proto_def)
qed

text \<open>C39: A truncated chunk never loads: whatever proper prefix of a dumped function (with at least
  its first byte) the reader delivers, and however it is cut into pieces, luaU_undump throws the
  "truncated precompiled chunk" error with the chunk's display name.\<close>

theorem luaU_undump_truncated:
  assumes "proto_ok f" and "luaU_dump f appw [] s = (st, chunk)"
    and "[] \<notin> set rd" and "concat rd = take n chunk" and "0 < n" and "n < length chunk"
    and "length chunk \<le> fuel"
  shows "load_binary fuel name (luaZ_init rd) = Inl (LoadErr (undump_name name) ''truncated'')"
proof -
  from assms(2) have chunk: "chunk = luaU_header @ proto_bytes s f" by (simp add: luaU_dump_bytes)
  obtain c h where h: "luaU_header = c # h" by (simp add: luaU_header_def LUA_SIGNATURE_def)
  obtain m where m: "n = Suc m" using assms(5) by (cases n) auto
  have z: "zok (luaZ_init rd)" "zbytes (luaZ_init rd) = c # take m (h @ proto_bytes s f)"
    using assms(3,4) chunk m by (simp_all add: luaZ_init_def zok_def zbytes_def h)
  have "loads (undump_name name) (luaU_undump fuel name) (h @ proto_bytes s f)
      (strip_proto s f, length (f_upvalues f))"
    using loads_luaU_undump [OF assms(1), of s fuel name] assms(7) chunk by (simp add: h)
  moreover have "strict_prefix (take m (h @ proto_bytes s f)) (h @ proto_bytes s f)"
    using assms(6) chunk m by (intro strict_prefixI take_is_prefix) (auto simp: h simp del: take_append)
  ultimately show ?thesis
    using loadsD(2) [of _ _ _ _ "snd (zgetc (luaZ_init rd))"] zgetc_bytes [OF z] by (simp add: load_binary_def)
qed

theorem luaU_undump_truncated_witness:
  "load_binary 400 [27] (luaZ_init [take 7 (snd (luaU_dump sample_proto appw [] False))]) =
     Inl (LoadErr (map of_char ''binary string'') ''truncated'')"
proof -
  have ok: "proto_ok sample_proto"
    by (simp add: sample_proto_def const_ok_def locvar_ok_def str_ok_def)
  have len: "length (snd (luaU_dump sample_proto appw [] False)) \<le> 400"
    "7 < length (snd (luaU_dump sample_proto appw [] False))"
    by (simp_all add: luaU_dump_bytes sample_proto_def luaU_header_def LUA_SIGNATURE_def vec_bytes_def
        count_bytes_def const_bytes_def str_bytes_def debug_bytes_def int_bytes_def locvar_bytes_def)
  have ne: "[] \<notin> set [take 7 (snd (luaU_dump sample_proto appw [] False))]"
    by (simp add: luaU_dump_bytes luaU_header_def LUA_SIGNATURE_def)
  have nm: "undump_name [27] = map of_char ''binary string''"
    by (simp add: undump_name_def LUA_SIGNATURE_def)
  show ?thesis
    using luaU_undump_truncated [OF ok _ ne _ _ len(2,1), of False 0 "[27]"] nm
    by (simp add: luaU_dump_bytes)
qed

text \<open>Loading any input, corrupt or not, ends: with more fuel than the stream has bytes, the
  recursion of LoadFunction never reaches its bound, because every nested function consumes input
  first.\<close>

theorem luaU_undump_fuel:
  assumes "[] \<notin> set rd" and "length (concat rd) < fuel"
  shows "load_binary fuel name (luaZ_init rd) \<noteq> Inl NoFuel"
proof -
  let ?z = "luaZ_init rd"
  have z: "zok ?z" "zbytes ?z = concat rd" using assms(1) by (simp_all add: luaZ_init_def zok_def zbytes_def)
  have "zok (snd (zgetc ?z)) \<and> length (zbytes (snd (zgetc ?z))) < fuel"
  proof (cases "concat rd")
    case Nil
    then show ?thesis using assms z
      by (cases rd) (auto simp: zgetc_def luaZ_fill_def luaZ_init_def zok_def zbytes_def)
  next
    case (Cons c bs)
    with zgetc_bytes [OF z(1), of c bs] z(2) assms(2) show ?thesis by simp
  qed
  then show ?thesis
    using within_luaU_undump [of fuel name]
    by (simp add: within_def load_binary_def)
qed

theorem luaU_undump_fuel_witness:
  "load_binary 5 [] (luaZ_init [[27, 76], [9]]) \<noteq> Inl NoFuel"
  using luaU_undump_fuel [of "[[27, 76], [9]]" 5 "[]"] by simp

text \<open>A chunk that says it was made by another version, format or machine is refused before any of its body is
  read: unless the first bytes are exactly luaU_header, LoadHeader throws one of its four errors.\<close>

theorem LoadHeader_rejects:
  assumes "[] \<notin> set rd" and "18 \<le> length (concat rd)" and "hd (concat rd) = hd luaU_header"
    and "take 18 (concat rd) \<noteq> luaU_header"
  shows "\<exists>why \<in> {''not a'', ''version mismatch in'', ''incompatible'', ''corrupted''}.
    load_binary fuel name (luaZ_init rd) = Inl (LoadErr (undump_name name) why)"
proof -
  obtain c bs where cb: "concat rd = c # bs" using assms(2) by (cases "concat rd") auto
  have z: "zok (luaZ_init rd)" "zbytes (luaZ_init rd) = c # bs"
    using assms(1) cb by (simp_all add: luaZ_init_def zok_def zbytes_def)
  let ?z = "snd (zgetc (luaZ_init rd))"
  have len: "length luaU_header = 18" by (simp add: luaU_header_def LUA_SIGNATURE_def)
  have "loads (undump_name name) (LoadBlock (undump_name name) 17) (take 17 bs) (take 17 bs)"
    using assms(2) cb by (intro loads_LoadBlock) simp
  from loadsD(1) [OF this, of ?z "drop 17 bs"] zgetc_bytes [OF z]
  obtain z' where z': "LoadBlock (undump_name name) 17 ?z = Inr (take 17 bs, z')" by auto
  have "hd luaU_header # take 17 bs \<noteq> luaU_header" using assms(3,4) cb by simp
  then show ?thesis
    by (auto simp: load_binary_def luaU_undump_def LoadHeader_def bindL_def len z' failL_def Let_def)
qed

theorem LoadHeader_rejects_witness:
  "\<exists>why \<in> {''not a'', ''version mismatch in'', ''incompatible'', ''corrupted''}.
    load_binary 9 [] (luaZ_init [[27, 76, 117, 97, 81], replicate 20 0]) = Inl (LoadErr [] why)"
  using LoadHeader_rejects [of "[[27, 76, 117, 97, 81], replicate 20 0]" 9 "[]"]
  by (simp add: luaU_header_def LUA_SIGNATURE_def undump_name_def)

end
