(* ===== verification/LuaBit32.thy ===== *)
theory LuaBit32
  imports Prelude
begin

text \<open>
  The bit32 library of the script engine (lbitlib.c). An argument of a library call is an
  integral Lua number, nil (or absent), or something that is not a number; lua_Unsigned is a 32
  word and a C int is an int kept in its range. A C operation whose result the standard leaves
  undefined (overflow of an int, a shift by 32 or more) is the error Undefined.
\<close>

section \<open>Arguments\<close>

datatype arg = ANum int | ANil | AOther

datatype bit_error = BadArg nat string | LuaError string | Undefined

type_synonym b_uint = "32 word"

definition int_min :: int where "int_min = - (2 ^ 31)"
definition int_max :: int where "int_max = 2 ^ 31 - 1"

definition c_int :: "int \<Rightarrow> bit_error + int" where
  "c_int n = (if int_min \<le> n \<and> n \<le> int_max then Inr n else Inl Undefined)"

text \<open>The Lua number n as lua_Unsigned and as int.\<close>

definition to_int :: "int \<Rightarrow> int" where
  "to_int n = sint (word_of_int n :: 32 word)"

definition luaL_checkunsigned :: "arg list \<Rightarrow> nat \<Rightarrow> bit_error + b_uint" where
  "luaL_checkunsigned args i =
     (if 1 \<le> i \<and> i \<le> length args then
        (case args ! (i - 1) of ANum n \<Rightarrow> Inr (word_of_int n) | _ \<Rightarrow> Inl (BadArg i ''number expected''))
      else Inl (BadArg i ''number expected''))"

definition luaL_checkint :: "arg list \<Rightarrow> nat \<Rightarrow> bit_error + int" where
  "luaL_checkint args i =
     (if 1 \<le> i \<and> i \<le> length args then
        (case args ! (i - 1) of ANum n \<Rightarrow> Inr (to_int n) | _ \<Rightarrow> Inl (BadArg i ''number expected''))
      else Inl (BadArg i ''number expected''))"

definition luaL_optint :: "arg list \<Rightarrow> nat \<Rightarrow> int \<Rightarrow> bit_error + int" where
  "luaL_optint args i d =
     (if length args < i \<or> args ! (i - 1) = ANil then Inr d else luaL_checkint args i)"

section \<open>The library\<close>

definition NBITS :: int where "NBITS = 32"

definition shl :: "b_uint \<Rightarrow> int \<Rightarrow> bit_error + b_uint" where
  "shl r i = (if 0 \<le> i \<and> i < 32 then Inr (push_bit (nat i) r) else Inl Undefined)"

definition shr :: "b_uint \<Rightarrow> int \<Rightarrow> bit_error + b_uint" where
  "shr r i = (if 0 \<le> i \<and> i < 32 then Inr (drop_bit (nat i) r) else Inl Undefined)"

definition ALLONES :: b_uint where
  "ALLONES = NOT (push_bit 1 (push_bit 31 (NOT 0)))"

definition trim :: "b_uint \<Rightarrow> b_uint" where
  "trim x = x AND ALLONES"

definition bitmask :: "int \<Rightarrow> bit_error + b_uint" where
  "bitmask n = bindE (shl (push_bit 1 ALLONES) (n - 1)) (\<lambda>x. Inr (NOT x))"

definition fold_args ::
  "(b_uint \<Rightarrow> b_uint \<Rightarrow> b_uint) \<Rightarrow> b_uint \<Rightarrow> arg list \<Rightarrow> bit_error + b_uint" where
  "fold_args f r0 args =
     fold (\<lambda>i acc. bindE acc (\<lambda>r. bindE (luaL_checkunsigned args i) (\<lambda>x. Inr (f r x))))
       [1..<length args + 1] (Inr r0)"

definition andaux :: "arg list \<Rightarrow> bit_error + b_uint" where
  "andaux args = bindE (fold_args (AND) (NOT 0) args) (\<lambda>r. Inr (trim r))"

definition b_and :: "arg list \<Rightarrow> bit_error + b_uint" where
  "b_and args = andaux args"

definition b_test :: "arg list \<Rightarrow> bit_error + bool" where
  "b_test args = bindE (andaux args) (\<lambda>r. Inr (r \<noteq> 0))"

definition b_or :: "arg list \<Rightarrow> bit_error + b_uint" where
  "b_or args = bindE (fold_args (OR) 0 args) (\<lambda>r. Inr (trim r))"

definition b_xor :: "arg list \<Rightarrow> bit_error + b_uint" where
  "b_xor args = bindE (fold_args (XOR) 0 args) (\<lambda>r. Inr (trim r))"

definition b_not :: "arg list \<Rightarrow> bit_error + b_uint" where
  "b_not args = bindE (luaL_checkunsigned args 1) (\<lambda>x. Inr (trim (NOT x)))"

definition b_shift :: "b_uint \<Rightarrow> int \<Rightarrow> bit_error + b_uint" where
  "b_shift r i =
     (if i < 0 then
        bindE (c_int (- i)) (\<lambda>i.
          let r = trim r in if i \<ge> NBITS then Inr 0 else shr r i)
      else
        bindE (if i \<ge> NBITS then Inr 0 else shl r i) (\<lambda>r. Inr (trim r)))"

definition b_lshift :: "arg list \<Rightarrow> bit_error + b_uint" where
  "b_lshift args = bindE (luaL_checkunsigned args 1) (\<lambda>r. bindE (luaL_checkint args 2) (b_shift r))"

definition b_rshift :: "arg list \<Rightarrow> bit_error + b_uint" where
  "b_rshift args = bindE (luaL_checkunsigned args 1) (\<lambda>r. bindE (luaL_checkint args 2) (\<lambda>i.
     bindE (c_int (- i)) (b_shift r)))"

definition b_arshift :: "arg list \<Rightarrow> bit_error + b_uint" where
  "b_arshift args = bindE (luaL_checkunsigned args 1) (\<lambda>r. bindE (luaL_checkint args 2) (\<lambda>i.
     if i < 0 \<or> r AND push_bit 31 1 = 0 then bindE (c_int (- i)) (b_shift r)
     else if i \<ge> NBITS then Inr ALLONES
     else bindE (shr r i) (\<lambda>x. bindE (shr (NOT 0) i) (\<lambda>y. Inr (trim (x OR NOT y))))))"

definition b_rot :: "arg list \<Rightarrow> int \<Rightarrow> bit_error + b_uint" where
  "b_rot args i = bindE (luaL_checkunsigned args 1) (\<lambda>r.
     let i = i AND (NBITS - 1); r = trim r
     in bindE (if i \<noteq> 0 then bindE (shl r i) (\<lambda>x. bindE (shr r (NBITS - i)) (\<lambda>y. Inr (x OR y))) else Inr r)
          (\<lambda>r. Inr (trim r)))"

definition b_lrot :: "arg list \<Rightarrow> bit_error + b_uint" where
  "b_lrot args = bindE (luaL_checkint args 2) (b_rot args)"

definition b_rrot :: "arg list \<Rightarrow> bit_error + b_uint" where
  "b_rrot args = bindE (luaL_checkint args 2) (\<lambda>i. bindE (c_int (- i)) (b_rot args))"

definition fieldargs :: "arg list \<Rightarrow> nat \<Rightarrow> bit_error + int \<times> int" where
  "fieldargs args farg = bindE (luaL_checkint args farg) (\<lambda>f. bindE (luaL_optint args (farg + 1) 1) (\<lambda>w.
     if \<not> 0 \<le> f then Inl (BadArg farg ''field cannot be negative'')
     else if \<not> 0 < w then Inl (BadArg (farg + 1) ''width must be positive'')
     else bindE (c_int (f + w)) (\<lambda>s.
       if s > NBITS then Inl (LuaError ''trying to access non-existent bits'') else Inr (f, w))))"

definition b_extract :: "arg list \<Rightarrow> bit_error + b_uint" where
  "b_extract args = bindE (luaL_checkunsigned args 1) (\<lambda>r. bindE (fieldargs args 2) (\<lambda>(f, w).
     bindE (shr r f) (\<lambda>x. bindE (bitmask w) (\<lambda>m. Inr (x AND m)))))"

definition b_replace :: "arg list \<Rightarrow> bit_error + b_uint" where
  "b_replace args = bindE (luaL_checkunsigned args 1) (\<lambda>r. bindE (luaL_checkunsigned args 2) (\<lambda>v.
     bindE (fieldargs args 3) (\<lambda>(f, w). bindE (bitmask w) (\<lambda>m.
       bindE (shl m f) (\<lambda>mf. bindE (shl (v AND m) f) (\<lambda>vf. Inr ((r AND NOT mf) OR vf)))))))"

section \<open>Lemmas\<close>

lemma ALLONES_ones: "ALLONES = NOT 0"
  by (simp add: ALLONES_def mask_eq_exp_minus_1)

lemma trim_id [simp]: "trim x = x"
  by (simp add: trim_def ALLONES_ones)

lemma bitmask_mask:
  assumes "0 < w" "w \<le> 32"
  shows "bitmask w = Inr (mask (nat w))"
proof -
  have "NOT (push_bit (nat (w - 1)) (push_bit 1 ALLONES)) = (mask (nat w) :: 32 word)"
    using assms by (intro bit_word_eqI) (auto simp: ALLONES_ones bit_simps)
  then show ?thesis using assms by (simp add: bitmask_def shl_def)
qed

lemma to_int_id: "int_min \<le> n \<Longrightarrow> n \<le> int_max \<Longrightarrow> to_int n = n"
  by (simp add: to_int_def int_min_def int_max_def signed_of_int signed_take_bit_int_eq_self)

lemma to_int_range: "int_min \<le> to_int n \<and> to_int n \<le> int_max"
  using sint_range_size [of "word_of_int n :: 32 word"]
  by (simp add: to_int_def int_min_def int_max_def word_size)

lemma check_simps [simp]:
  "luaL_checkunsigned (ANum n # as) 1 = Inr (word_of_int n)"
  "luaL_checkunsigned (a # ANum n # as) 2 = Inr (word_of_int n)"
  "luaL_checkunsigned (ANum n # as) (Suc 0) = Inr (word_of_int n)"
  "luaL_checkint (a # ANum n # as) 2 = Inr (to_int n)"
  "luaL_checkint (a # b # ANum n # as) 3 = Inr (to_int n)"
  "luaL_optint (a # b # ANum n # as) 3 d = Inr (to_int n)"
  "luaL_optint (a # b # c # ANum n # as) 4 d = Inr (to_int n)"
  "luaL_optint [a, b] 3 d = Inr d"
  "luaL_checkint (a # b # c # ANum n # as) 4 = Inr (to_int n)"
  by (simp_all add: luaL_checkunsigned_def luaL_checkint_def luaL_optint_def)

lemma fieldargs_ok:
  assumes "0 \<le> f" "0 < w" "f + w \<le> 32"
  shows "fieldargs (r # ANum f # ANum w # as) 2 = Inr (f, w)"
    "fieldargs (r # v # ANum f # ANum w # as) 3 = Inr (f, w)"
  using assms
  by (simp_all add: fieldargs_def c_int_def to_int_id int_min_def int_max_def NBITS_def)

lemma b_replace_val:
  assumes "0 \<le> f" "0 < w" "f + w \<le> 32"
  shows "b_replace [ANum r, ANum v, ANum f, ANum w] =
    Inr ((word_of_int r AND NOT (push_bit (nat f) (mask (nat w)))) OR
         push_bit (nat f) (word_of_int v AND mask (nat w)))"
  using assms by (simp add: b_replace_def fieldargs_ok bitmask_mask shl_def)

lemma b_extract_val:
  assumes "0 \<le> f" "0 < w" "f + w \<le> 32"
  shows "b_extract [ANum r, ANum f, ANum w] = Inr (take_bit (nat w) (drop_bit (nat f) (word_of_int r)))"
  using assms by (simp add: b_extract_def fieldargs_ok bitmask_mask shr_def take_bit_eq_mask)

lemma b_shift_left: "0 \<le> i \<Longrightarrow> b_shift r i = Inr (push_bit (nat i) r)"
  by (auto simp: b_shift_def shl_def NBITS_def intro!: bit_word_eqI simp: bit_simps)

lemma b_shift_right:
  assumes "0 < i" "i \<le> int_max"
  shows "b_shift r (- i) = Inr (drop_bit (nat i) r)"
proof -
  have "drop_bit (nat i) r = 0" if "i \<ge> 32"
    using that by (intro bit_word_eqI) (auto simp: bit_simps dest: bit_imp_le_length)
  with assms show ?thesis
    by (auto simp: b_shift_def shr_def NBITS_def c_int_def int_min_def int_max_def)
qed

lemma sign_bit: "(r AND push_bit 31 1 = 0) = (\<not> bit (r :: b_uint) 31)"
  using bit_iff_and_push_bit_not_eq_0 [of r 31] by blast

lemma b_arshift_val:
  assumes "0 \<le> n" "n \<le> int_max"
  shows "b_arshift [ANum r, ANum n] = Inr (signed_drop_bit (nat n) (word_of_int r))"
proof (cases "bit (word_of_int r :: b_uint) 31")
  case False
  have "signed_drop_bit (nat n) (word_of_int r) = (drop_bit (nat n) (word_of_int r) :: b_uint)"
    using False
    by (intro bit_word_eqI) (auto simp: bit_simps bit_signed_drop_bit_iff dest: bit_imp_le_length)
  moreover have "b_shift (word_of_int r) (- n) = Inr (drop_bit (nat n) (word_of_int r))"
    using assms b_shift_right [of n] b_shift_left [of 0] by (cases "n = 0") auto
  ultimately show ?thesis
    using assms False unfolding b_arshift_def sign_bit
    by (simp add: to_int_id int_min_def c_int_def int_max_def)
next
  case True
  have big: "ALLONES = signed_drop_bit (nat n) (word_of_int r)" if "n \<ge> 32"
    using True that by (intro bit_word_eqI) (auto simp: ALLONES_ones bit_simps bit_signed_drop_bit_iff)
  have small: "drop_bit (nat n) (word_of_int r) OR NOT (drop_bit (nat n) (NOT 0)) =
      (signed_drop_bit (nat n) (word_of_int r) :: b_uint)" if "n < 32"
    using True that assms(1)
    by (intro bit_word_eqI) (auto simp: bit_simps bit_signed_drop_bit_iff dest: bit_imp_le_length)
  from big small show ?thesis
    using assms True unfolding b_arshift_def sign_bit
    by (simp add: to_int_id int_min_def int_max_def NBITS_def shr_def)
qed

text \<open>Rotating by an int count: the value, and its bits.\<close>

definition rotl :: "int \<Rightarrow> b_uint \<Rightarrow> b_uint" where
  "rotl n r = (if n mod 32 = 0 then r
     else push_bit (nat (n mod 32)) r OR drop_bit (nat (32 - n mod 32)) r)"

lemma and_31: "n AND 31 = n mod (32 :: int)"
proof -
  have "n AND mask 5 = take_bit 5 n" by (simp add: take_bit_eq_mask)
  then show ?thesis by (simp add: mask_eq_exp_minus_1 take_bit_eq_mod)
qed

lemma b_rot_val: "b_rot (ANum r # as) n = Inr (rotl n (word_of_int r))"
proof -
  have "n mod 32 \<le> 32" "n mod 32 = 0 \<or> 0 < n mod 32"
    using pos_mod_sign [of 32 n] pos_mod_bound [of 32 n] by linarith+
  then show ?thesis
    by (cases "n mod 32 = 0") (simp_all add: b_rot_def rotl_def NBITS_def and_31 shl_def shr_def Let_def)
qed

lemma rot_index:
  assumes "i < 32" "n mod 32 = int k" "k < 32"
  shows "nat ((int i - n) mod 32) = (if k \<le> i then i - k else i + 32 - k)"
proof -
  have "(int i - n) mod 32 = (int i - n mod 32) mod 32" by (simp add: mod_simps)
  also have "\<dots> = int (if k \<le> i then i - k else i + 32 - k)"
  proof (cases "k \<le> i")
    case True
    then show ?thesis using assms by (simp add: of_nat_diff)
  next
    case False
    then have "(int i - int k + 32) mod 32 = int i - int k + 32"
      using assms by (intro mod_pos_pos_trivial) auto
    moreover have "(int i - int k + 32) mod 32 = (int i - int k) mod 32" by (rule mod_add_self2)
    ultimately show ?thesis using False assms by simp
  qed
  finally show ?thesis by simp
qed

lemma bit_rotl:
  assumes "i < 32"
  shows "bit (rotl n r) i = bit r (nat ((int i - n) mod 32))"
proof -
  define k where "k = nat (n mod 32)"
  have k: "n mod 32 = int k" "k < 32" by (simp_all add: k_def)
  have "nat (32 - int k) = 32 - k" using k(2) by simp
  then have rot: "rotl n r = (if k = 0 then r else push_bit k r OR drop_bit (32 - k) r)"
    by (simp add: rotl_def k)
  have "\<not> bit r (i + (32 - k))" if "k \<le> i"
    using that k(2) by (auto dest: bit_imp_le_length)
  then have "bit (rotl n r) i = bit r (if k \<le> i then i - k else i + 32 - k)"
    using assms k(2) by (simp add: rot bit_simps add.commute)
  then show ?thesis by (simp add: rot_index [OF assms k])
qed

lemma rotl_uminus: "rotl (- n) (rotl n r) = r"
proof (rule bit_word_eqI)
  fix i assume "i < LENGTH(32)"
  then have i: "i < 32" by simp
  let ?j = "nat ((int i + n) mod 32)"
  have j: "?j < 32" by simp
  have "(int ?j - n) mod 32 = (int i + n - n) mod 32" by (simp add: mod_simps)
  with i j show "bit (rotl (- n) (rotl n r)) i = bit r i" by (simp add: bit_rotl)
qed

section \<open>Properties\<close>

text \<open>Bit32.replace stores the low w bits of v in the field of w bits at f and leaves every other bit of
  r as it was, and bit32.extract of the same field gives exactly these bits back.\<close>

theorem extract_replace:
  assumes "0 \<le> f" and "0 < w" and "f + w \<le> 32"
  shows "\<exists>x. b_replace [ANum r, ANum v, ANum f, ANum w] = Inr x \<and>
    b_extract [ANum (uint x), ANum f, ANum w] = Inr (take_bit (nat w) (word_of_int v)) \<and>
    (\<forall>i. int i < f \<or> f + w \<le> int i \<longrightarrow> bit x i = bit (word_of_int r :: b_uint) i)"
proof -
  let ?x = "(word_of_int r AND NOT (push_bit (nat f) (mask (nat w)))) OR
         push_bit (nat f) (word_of_int v AND mask (nat w)) :: b_uint"
  have "take_bit (nat w) (drop_bit (nat f) ?x) = take_bit (nat w) (word_of_int v)"
    using assms by (intro bit_word_eqI) (auto simp: bit_simps)
  moreover have "bit ?x i = bit (word_of_int r :: b_uint) i" if "int i < f \<or> f + w \<le> int i" for i
    using assms that by (auto simp: bit_simps dest: bit_imp_le_length)
  ultimately show ?thesis
    using b_replace_val [OF assms] b_extract_val [OF assms, of "uint ?x"] by simp
qed

theorem extract_replace_witness:
  "\<exists>x. b_replace [ANum 255, ANum 6, ANum 4, ANum 3] = Inr x \<and>
    b_extract [ANum (uint x), ANum 4, ANum 3] = Inr (take_bit 3 6) \<and>
    (\<forall>i. int i < 4 \<or> 7 \<le> int i \<longrightarrow> bit x i = bit (255 :: b_uint) i)"
  using extract_replace [of 4 3 255 6] by simp

text \<open>Bit32.arshift by n >= 0 divides the number, read as a signed 32-bit integer, by 2 ^ n
  rounding down, also for n >= 32.\<close>

theorem arshift_div:
  assumes "0 \<le> n" and "n \<le> int_max"
  shows "\<exists>x. b_arshift [ANum r, ANum n] = Inr x \<and>
    sint x = sint (word_of_int r :: b_uint) div 2 ^ nat n"
  using b_arshift_val [OF assms, of r]
  by (simp add: sint_signed_drop_bit_eq drop_bit_eq_div)

theorem arshift_div_witness:
  "\<exists>x. b_arshift [ANum (- 7), ANum 1] = Inr x \<and> sint x = - 4"
  using arshift_div [of 1 "- 7"] to_int_id [of "- 7"] by (simp add: int_max_def int_min_def to_int_def)

text \<open>Rotating is a permutation of the bits: bit i of bit32.lrotate(r, n) is bit (i - n) mod 32 of r, for
  every n, negative or larger than 32, and rrotate by the same n brings r back.\<close>

theorem rotate_bits:
  assumes "int_min < n" and "n \<le> int_max"
  shows "\<exists>x. b_lrot [ANum r, ANum n] = Inr x \<and>
    (\<forall>i < 32. bit x i = bit (word_of_int r :: b_uint) (nat ((int i - n) mod 32))) \<and>
    b_rrot [ANum (uint x), ANum n] = Inr (word_of_int r)"
proof -
  have "- n \<le> int_max" "int_min \<le> - n" using assms by (simp_all add: int_min_def int_max_def)
  with assms have "b_lrot [ANum r, ANum n] = Inr (rotl n (word_of_int r))"
    "\<And>x. b_rrot [ANum x, ANum n] = Inr (rotl (- n) (word_of_int x))"
    by (simp_all add: b_lrot_def b_rrot_def b_rot_val to_int_id c_int_def)
  then show ?thesis by (simp add: bit_rotl rotl_uminus)
qed

theorem rotate_bits_witness:
  "\<exists>x. b_lrot [ANum 0x80000001, ANum (- 3)] = Inr x \<and>
    (\<forall>i < 32. bit x i = bit (0x80000001 :: b_uint) (nat ((int i + 3) mod 32))) \<and>
    b_rrot [ANum (uint x), ANum (- 3)] = Inr 0x80000001"
  using rotate_bits [of "- 3" "0x80000001"] by (simp add: int_min_def int_max_def)

text \<open>The guard of bit32.extract and bit32.replace adds two ints: for a field whose position and width
  overflow int, the sum is undefined instead of the error the guard is there for. For every other
  pair of arguments the guard is exact: it accepts just the fields inside the 32 bits.\<close>

theorem fieldargs_guard:
  assumes "0 \<le> f" and "f \<le> int_max" and "0 < w" and "w \<le> int_max"
  shows "fieldargs [r, ANum f, ANum w] 2 =
    (if int_max < f + w then Inl Undefined
     else if 32 < f + w then Inl (LuaError ''trying to access non-existent bits'') else Inr (f, w))"
  using assms by (simp add: fieldargs_def c_int_def to_int_id int_min_def int_max_def NBITS_def)

theorem fieldargs_guard_witness:
  "fieldargs [ANum 1, ANum 2147483647, ANum 1] 2 = Inl Undefined"
  using fieldargs_guard [of 2147483647 1 "ANum 1"] by (simp add: int_max_def)


end
