(* ===== verification/LuaOpcodes.thy ===== *)
theory LuaOpcodes
  imports Prelude
begin

text \<open>
  The instruction format of the Lua virtual machine (lopcodes.h, lopcodes.c): the layout of the
  fields in a 32-bit instruction, the macros that read and write them, the RK operands and the
  table of operation modes.
\<close>

type_synonym instr = "32 word"

datatype OpMode = iABC | iABx | iAsBx | iAx

datatype OpArgMask = OpArgN | OpArgU | OpArgR | OpArgK

datatype OpCode =
    OP_MOVE | OP_LOADK | OP_LOADKX | OP_LOADBOOL | OP_LOADNIL | OP_GETUPVAL
  | OP_GETTABUP | OP_GETTABLE | OP_SETTABUP | OP_SETUPVAL | OP_SETTABLE | OP_NEWTABLE
  | OP_SELF | OP_ADD | OP_SUB | OP_MUL | OP_DIV | OP_MOD | OP_POW | OP_UNM | OP_NOT | OP_LEN
  | OP_CONCAT | OP_JMP | OP_EQ | OP_LT | OP_LE | OP_TEST | OP_TESTSET | OP_CALL | OP_TAILCALL
  | OP_RETURN | OP_FORLOOP | OP_FORPREP | OP_TFORCALL | OP_TFORLOOP | OP_SETLIST | OP_CLOSURE
  | OP_VARARG | OP_EXTRAARG

definition opcodes :: "OpCode list" where
  "opcodes = [OP_MOVE, OP_LOADK, OP_LOADKX, OP_LOADBOOL, OP_LOADNIL, OP_GETUPVAL,
     OP_GETTABUP, OP_GETTABLE, OP_SETTABUP, OP_SETUPVAL, OP_SETTABLE, OP_NEWTABLE,
     OP_SELF, OP_ADD, OP_SUB, OP_MUL, OP_DIV, OP_MOD, OP_POW, OP_UNM, OP_NOT, OP_LEN,
     OP_CONCAT, OP_JMP, OP_EQ, OP_LT, OP_LE, OP_TEST, OP_TESTSET, OP_CALL, OP_TAILCALL,
     OP_RETURN, OP_FORLOOP, OP_FORPREP, OP_TFORCALL, OP_TFORLOOP, OP_SETLIST, OP_CLOSURE,
     OP_VARARG, OP_EXTRAARG]"

definition NUM_OPCODES :: nat where "NUM_OPCODES = length opcodes"

primrec index_of :: "'a \<Rightarrow> 'a list \<Rightarrow> nat" where
  "index_of x [] = 0"
| "index_of x (y # ys) = (if x = y then 0 else Suc (index_of x ys))"

text \<open>The value of an enumerator, as C numbers them.\<close>

definition op_num :: "OpCode \<Rightarrow> nat" where
  "op_num op = index_of op opcodes"

section \<open>Layout\<close>

definition SIZE_C :: nat where "SIZE_C = 9"
definition SIZE_B :: nat where "SIZE_B = 9"
definition SIZE_Bx :: nat where "SIZE_Bx = SIZE_C + SIZE_B"
definition SIZE_A :: nat where "SIZE_A = 8"
definition SIZE_Ax :: nat where "SIZE_Ax = SIZE_C + SIZE_B + SIZE_A"
definition SIZE_OP :: nat where "SIZE_OP = 6"
definition POS_OP :: nat where "POS_OP = 0"
definition POS_A :: nat where "POS_A = POS_OP + SIZE_OP"
definition POS_C :: nat where "POS_C = POS_A + SIZE_A"
definition POS_B :: nat where "POS_B = POS_C + SIZE_C"
definition POS_Bx :: nat where "POS_Bx = POS_C"
definition POS_Ax :: nat where "POS_Ax = POS_A"

lemmas layout = SIZE_C_def SIZE_B_def SIZE_Bx_def SIZE_A_def SIZE_Ax_def SIZE_OP_def
  POS_OP_def POS_A_def POS_C_def POS_B_def POS_Bx_def POS_Ax_def

definition MAXARG_Bx :: int where "MAXARG_Bx = 2 ^ SIZE_Bx - 1"
definition MAXARG_sBx :: int where "MAXARG_sBx = MAXARG_Bx div 2"
definition MAXARG_Ax :: int where "MAXARG_Ax = 2 ^ SIZE_Ax - 1"
definition MAXARG_A :: int where "MAXARG_A = 2 ^ SIZE_A - 1"
definition MAXARG_B :: int where "MAXARG_B = 2 ^ SIZE_B - 1"
definition MAXARG_C :: int where "MAXARG_C = 2 ^ SIZE_C - 1"

definition MASK1 :: "nat \<Rightarrow> nat \<Rightarrow> instr" where
  "MASK1 n q = push_bit q (NOT (push_bit n (NOT 0)))"

definition MASK0 :: "nat \<Rightarrow> nat \<Rightarrow> instr" where
  "MASK0 n q = NOT (MASK1 n q)"

section \<open>Fields\<close>

text \<open>getarg gives an int (the fields are below 31 bits); setarg casts an int to Instruction.\<close>

definition getarg :: "instr \<Rightarrow> nat \<Rightarrow> nat \<Rightarrow> int" where
  "getarg i pos sz = uint (drop_bit pos i AND MASK1 sz 0)"

definition setarg :: "instr \<Rightarrow> int \<Rightarrow> nat \<Rightarrow> nat \<Rightarrow> instr" where
  "setarg i v pos sz = (i AND MASK0 sz pos) OR (push_bit pos (word_of_int v) AND MASK1 sz pos)"

definition GET_OPCODE :: "instr \<Rightarrow> nat" where
  "GET_OPCODE i = unat (drop_bit POS_OP i AND MASK1 SIZE_OP 0)"

definition SET_OPCODE :: "instr \<Rightarrow> OpCode \<Rightarrow> instr" where
  "SET_OPCODE i op =
     (i AND MASK0 SIZE_OP POS_OP) OR (push_bit POS_OP (of_nat (op_num op)) AND MASK1 SIZE_OP POS_OP)"

definition GETARG_A :: "instr \<Rightarrow> int" where "GETARG_A i = getarg i POS_A SIZE_A"
definition SETARG_A :: "instr \<Rightarrow> int \<Rightarrow> instr" where "SETARG_A i v = setarg i v POS_A SIZE_A"
definition GETARG_B :: "instr \<Rightarrow> int" where "GETARG_B i = getarg i POS_B SIZE_B"
definition SETARG_B :: "instr \<Rightarrow> int \<Rightarrow> instr" where "SETARG_B i v = setarg i v POS_B SIZE_B"
definition GETARG_C :: "instr \<Rightarrow> int" where "GETARG_C i = getarg i POS_C SIZE_C"
definition SETARG_C :: "instr \<Rightarrow> int \<Rightarrow> instr" where "SETARG_C i v = setarg i v POS_C SIZE_C"
definition GETARG_Bx :: "instr \<Rightarrow> int" where "GETARG_Bx i = getarg i POS_Bx SIZE_Bx"
definition SETARG_Bx :: "instr \<Rightarrow> int \<Rightarrow> instr" where "SETARG_Bx i v = setarg i v POS_Bx SIZE_Bx"
definition GETARG_Ax :: "instr \<Rightarrow> int" where "GETARG_Ax i = getarg i POS_Ax SIZE_Ax"
definition SETARG_Ax :: "instr \<Rightarrow> int \<Rightarrow> instr" where "SETARG_Ax i v = setarg i v POS_Ax SIZE_Ax"
definition GETARG_sBx :: "instr \<Rightarrow> int" where "GETARG_sBx i = GETARG_Bx i - MAXARG_sBx"
definition SETARG_sBx :: "instr \<Rightarrow> int \<Rightarrow> instr" where "SETARG_sBx i b = SETARG_Bx i (b + MAXARG_sBx)"

definition CREATE_ABC :: "OpCode \<Rightarrow> int \<Rightarrow> int \<Rightarrow> int \<Rightarrow> instr" where
  "CREATE_ABC op a b c = push_bit POS_OP (of_nat (op_num op)) OR push_bit POS_A (word_of_int a)
     OR push_bit POS_B (word_of_int b) OR push_bit POS_C (word_of_int c)"

definition CREATE_ABx :: "OpCode \<Rightarrow> int \<Rightarrow> int \<Rightarrow> instr" where
  "CREATE_ABx op a bc = push_bit POS_OP (of_nat (op_num op)) OR push_bit POS_A (word_of_int a)
     OR push_bit POS_Bx (word_of_int bc)"

definition CREATE_Ax :: "OpCode \<Rightarrow> int \<Rightarrow> instr" where
  "CREATE_Ax op a = push_bit POS_OP (of_nat (op_num op)) OR push_bit POS_Ax (word_of_int a)"

section \<open>RK operands\<close>

definition BITRK :: int where "BITRK = 2 ^ (SIZE_B - 1)"
definition ISK :: "int \<Rightarrow> bool" where "ISK x \<longleftrightarrow> x AND BITRK \<noteq> 0"
definition INDEXK :: "int \<Rightarrow> int" where "INDEXK r = r AND NOT BITRK"
definition MAXINDEXRK :: int where "MAXINDEXRK = BITRK - 1"
definition RKASK :: "int \<Rightarrow> int" where "RKASK x = x OR BITRK"
definition NO_REG :: int where "NO_REG = MAXARG_A"

section \<open>Operation modes\<close>

definition mode_num :: "OpMode \<Rightarrow> byte" where
  "mode_num m = (case m of iABC \<Rightarrow> 0 | iABx \<Rightarrow> 1 | iAsBx \<Rightarrow> 2 | iAx \<Rightarrow> 3)"

definition argmask_num :: "OpArgMask \<Rightarrow> byte" where
  "argmask_num m = (case m of OpArgN \<Rightarrow> 0 | OpArgU \<Rightarrow> 1 | OpArgR \<Rightarrow> 2 | OpArgK \<Rightarrow> 3)"

definition opmode :: "byte \<Rightarrow> byte \<Rightarrow> OpArgMask \<Rightarrow> OpArgMask \<Rightarrow> OpMode \<Rightarrow> byte" where
  "opmode t a b c m = push_bit 7 t OR push_bit 6 a OR push_bit 4 (argmask_num b) OR
     push_bit 2 (argmask_num c) OR mode_num m"

text \<open>The rows of luaP_opmodes, in the order of the table.\<close>

definition opmode_rows :: "(byte \<times> byte \<times> OpArgMask \<times> OpArgMask \<times> OpMode) list" where
  "opmode_rows = [
     (0, 1, OpArgR, OpArgN, iABC),
     (0, 1, OpArgK, OpArgN, iABx),
     (0, 1, OpArgN, OpArgN, iABx),
     (0, 1, OpArgU, OpArgU, iABC),
     (0, 1, OpArgU, OpArgN, iABC),
     (0, 1, OpArgU, OpArgN, iABC),
     (0, 1, OpArgU, OpArgK, iABC),
     (0, 1, OpArgR, OpArgK, iABC),
     (0, 0, OpArgK, OpArgK, iABC),
     (0, 0, OpArgU, OpArgN, iABC),
     (0, 0, OpArgK, OpArgK, iABC),
     (0, 1, OpArgU, OpArgU, iABC),
     (0, 1, OpArgR, OpArgK, iABC),
     (0, 1, OpArgK, OpArgK, iABC),
     (0, 1, OpArgK, OpArgK, iABC),
     (0, 1, OpArgK, OpArgK, iABC),
     (0, 1, OpArgK, OpArgK, iABC),
     (0, 1, OpArgK, OpArgK, iABC),
     (0, 1, OpArgK, OpArgK, iABC),
     (0, 1, OpArgR, OpArgN, iABC),
     (0, 1, OpArgR, OpArgN, iABC),
     (0, 1, OpArgR, OpArgN, iABC),
     (0, 1, OpArgR, OpArgR, iABC),
     (0, 0, OpArgR, OpArgN, iAsBx),
     (1, 0, OpArgK, OpArgK, iABC),
     (1, 0, OpArgK, OpArgK, iABC),
     (1, 0, OpArgK, OpArgK, iABC),
     (1, 0, OpArgN, OpArgU, iABC),
     (1, 1, OpArgR, OpArgU, iABC),
     (0, 1, OpArgU, OpArgU, iABC),
     (0, 1, OpArgU, OpArgU, iABC),
     (0, 0, OpArgU, OpArgN, iABC),
     (0, 1, OpArgR, OpArgN, iAsBx),
     (0, 1, OpArgR, OpArgN, iAsBx),
     (0, 0, OpArgN, OpArgU, iABC),
     (0, 1, OpArgR, OpArgN, iAsBx),
     (0, 0, OpArgU, OpArgU, iABC),
     (0, 1, OpArgU, OpArgN, iABx),
     (0, 1, OpArgU, OpArgN, iABC),
     (0, 0, OpArgU, OpArgU, iAx)]"

definition luaP_opmodes :: "byte list" where
  "luaP_opmodes = map (\<lambda>(t, a, b, c, m). opmode t a b c m) opmode_rows"

definition luaP_opnames :: "string list" where
  "luaP_opnames = [
     ''MOVE'', ''LOADK'', ''LOADKX'', ''LOADBOOL'', ''LOADNIL'',
     ''GETUPVAL'', ''GETTABUP'', ''GETTABLE'', ''SETTABUP'', ''SETUPVAL'',
     ''SETTABLE'', ''NEWTABLE'', ''SELF'', ''ADD'', ''SUB'',
     ''MUL'', ''DIV'', ''MOD'', ''POW'', ''UNM'',
     ''NOT'', ''LEN'', ''CONCAT'', ''JMP'', ''EQ'',
     ''LT'', ''LE'', ''TEST'', ''TESTSET'', ''CALL'',
     ''TAILCALL'', ''RETURN'', ''FORLOOP'', ''FORPREP'', ''TFORCALL'',
     ''TFORLOOP'', ''SETLIST'', ''CLOSURE'', ''VARARG'', ''EXTRAARG'']"

lemma opnames_table: "length luaP_opnames = NUM_OPCODES \<and> distinct luaP_opnames"
  by (simp add: luaP_opnames_def NUM_OPCODES_def opcodes_def)

definition getOpMode :: "OpCode \<Rightarrow> OpMode" where
  "getOpMode m = [iABC, iABx, iAsBx, iAx] ! unat (luaP_opmodes ! op_num m AND 3)"

definition getBMode :: "OpCode \<Rightarrow> OpArgMask" where
  "getBMode m = [OpArgN, OpArgU, OpArgR, OpArgK] ! unat (drop_bit 4 (luaP_opmodes ! op_num m) AND 3)"

definition getCMode :: "OpCode \<Rightarrow> OpArgMask" where
  "getCMode m = [OpArgN, OpArgU, OpArgR, OpArgK] ! unat (drop_bit 2 (luaP_opmodes ! op_num m) AND 3)"

definition testAMode :: "OpCode \<Rightarrow> bool" where
  "testAMode m \<longleftrightarrow> luaP_opmodes ! op_num m AND push_bit 6 1 \<noteq> 0"

definition testTMode :: "OpCode \<Rightarrow> bool" where
  "testTMode m \<longleftrightarrow> luaP_opmodes ! op_num m AND push_bit 7 1 \<noteq> 0"

definition LFIELDS_PER_FLUSH :: int where "LFIELDS_PER_FLUSH = 50"

section \<open>Lemmas\<close>

lemma bit_MASK1: "bit (MASK1 n q) i \<longleftrightarrow> i < 32 \<and> q \<le> i \<and> i < q + n"
  by (auto simp: MASK1_def bit_simps)

lemma bit_MASK0: "bit (MASK0 n q) i \<longleftrightarrow> i < 32 \<and> \<not> (q \<le> i \<and> i < q + n)"
  by (auto simp: MASK0_def bit_simps bit_MASK1)

lemma bit_getarg: "bit (getarg i pos sz) k \<longleftrightarrow> k < sz \<and> bit i (pos + k)"
  by (auto simp: getarg_def bit_uint_iff bit_simps bit_MASK1 dest: bit_imp_le_length)

lemma getarg_eqI:
  assumes "\<And>k. k < sz \<Longrightarrow> bit i (pos + k) = bit v k"
  shows "getarg i pos sz = take_bit sz v"
  using assms by (auto simp: bit_eq_iff bit_getarg bit_take_bit_iff)

lemma bit_setarg:
  "bit (setarg i v pos sz) k \<longleftrightarrow>
     k < 32 \<and> (if pos \<le> k \<and> k < pos + sz then bit v (k - pos) else bit i k)"
  by (auto simp: setarg_def bit_simps bit_MASK1 bit_MASK0 dest: bit_imp_le_length)

lemma take_bit_arg: "0 \<le> v \<Longrightarrow> v \<le> 2 ^ sz - 1 \<Longrightarrow> take_bit sz v = (v :: int)"
  by (simp add: take_bit_int_eq_self)

text \<open>A field after it is set, and a field that does not overlap it.\<close>

lemma getarg_setarg_same:
  assumes "pos + sz \<le> 32" "0 \<le> v" "v \<le> 2 ^ sz - 1"
  shows "getarg (setarg i v pos sz) pos sz = v"
  using assms getarg_eqI [of sz "setarg i v pos sz" pos v]
  by (simp add: bit_setarg take_bit_arg)

lemma getarg_setarg_other:
  assumes "pos' + sz' \<le> pos \<or> pos + sz \<le> pos'"
  shows "getarg (setarg i v pos sz) pos' sz' = getarg i pos' sz'"
  using assms by (intro bit_eqI) (auto simp: bit_getarg bit_setarg dest: bit_imp_le_length)

lemma GET_OPCODE_getarg: "GET_OPCODE i = nat (getarg i POS_OP SIZE_OP)"
  by (simp add: GET_OPCODE_def getarg_def)

lemma SET_OPCODE_setarg: "SET_OPCODE i op = setarg i (int (op_num op)) POS_OP SIZE_OP"
  by (simp add: SET_OPCODE_def setarg_def)

lemmas field_defs = GETARG_A_def SETARG_A_def GETARG_B_def SETARG_B_def GETARG_C_def SETARG_C_def
  GETARG_Bx_def SETARG_Bx_def GETARG_Ax_def SETARG_Ax_def GETARG_sBx_def SETARG_sBx_def
  GET_OPCODE_getarg SET_OPCODE_setarg

lemmas maxarg_defs = MAXARG_A_def MAXARG_B_def MAXARG_C_def MAXARG_Bx_def MAXARG_Ax_def MAXARG_sBx_def

lemma op_num_less: "op_num op < 40"
  by (cases op) (simp_all add: op_num_def opcodes_def)

lemma opcodes_op_num: "opcodes ! op_num op = op"
  by (cases op) (simp_all add: op_num_def opcodes_def)

lemma bit_no: "0 \<le> v \<Longrightarrow> v \<le> 2 ^ sz - 1 \<Longrightarrow> bit (v :: int) k \<Longrightarrow> k < sz"
  using take_bit_arg [of v sz] bit_take_bit_iff [of sz v k] by metis

text \<open>Packing disjoint fields: field by field, the instruction holds what was put in.\<close>

lemma getarg_pack:
  assumes "\<And>k. k < sz \<Longrightarrow> bit i (pos + k) = bit v k" "0 \<le> v" "v \<le> 2 ^ sz - 1"
  shows "getarg i pos sz = v"
  using getarg_eqI [OF assms(1)] take_bit_arg [OF assms(2,3)] by simp

lemma bit_field: "bit (push_bit q (word_of_int v :: instr)) k \<longleftrightarrow> k < 32 \<and> q \<le> k \<and> bit v (k - q)"
  by (auto simp: bit_simps)

lemma bit_field_op: "bit (push_bit q (of_nat n :: instr)) k \<longleftrightarrow> k < 32 \<and> q \<le> k \<and> bit (int n) (k - q)"
  using bit_field [of q "int n" k] by simp

lemma op_range: "0 \<le> int (op_num op)" "int (op_num op) \<le> 2 ^ 6 - 1"
  using op_num_less [of op] by simp_all

lemma opmode_row:
  "luaP_opmodes ! op_num op = (case opmode_rows ! op_num op of (t, a, b, c, m) \<Rightarrow> opmode t a b c m)"
proof -
  have "length opmode_rows = 40" by (simp add: opmode_rows_def)
  then show ?thesis using op_num_less [of op] by (simp add: luaP_opmodes_def)
qed

lemma take_bit_low: "x = take_bit n x \<Longrightarrow> bit (x :: byte) k \<Longrightarrow> k < n"
  by (metis bit_take_bit_iff)

lemma bit_argmask: "bit (argmask_num b) k \<Longrightarrow> k < 2"
  using take_bit_low [of "argmask_num b" 2 k] by (cases b) (auto simp: argmask_num_def)

lemma bit_mode: "bit (mode_num m) k \<Longrightarrow> k < 2"
  using take_bit_low [of "mode_num m" 2 k] by (cases m) (auto simp: mode_num_def)

lemma bit_flag: "(t :: byte) \<in> {0, 1} \<Longrightarrow> bit t k \<longleftrightarrow> k = 0 \<and> t = 1"
  by (auto simp: bit_1_iff)

lemma bit_three: "bit (3 :: byte) k \<longleftrightarrow> k < 2"
proof -
  have three: "(3 :: byte) = mask 2" by (simp add: mask_eq_exp_minus_1)
  show ?thesis unfolding three bit_mask_iff by auto
qed

lemma bit_field_low:
  assumes "\<And>j. bit (x :: byte) j \<Longrightarrow> j < n" "q + n \<le> 8"
  shows "bit (push_bit q x) k \<longleftrightarrow> k < q + n \<and> q \<le> k \<and> bit x (k - q)"
  using assms(1) [of "k - q"] assms(2) by (auto simp: bit_push_bit_iff)

lemma bit_opmode:
  assumes "t \<in> {0, 1}" "a \<in> {0, 1}"
  shows "bit (opmode t a b c m) k \<longleftrightarrow> k = 7 \<and> t = 1 \<or> k = 6 \<and> a = 1 \<or>
     k < 6 \<and> 4 \<le> k \<and> bit (argmask_num b) (k - 4) \<or> k < 4 \<and> 2 \<le> k \<and> bit (argmask_num c) (k - 2) \<or>
     k < 2 \<and> bit (mode_num m) k"
proof -
  have "bit (push_bit 7 t) k \<longleftrightarrow> k = 7 \<and> t = 1" "bit (push_bit 6 a) k \<longleftrightarrow> k = 6 \<and> a = 1"
    using assms by (auto simp: bit_push_bit_iff bit_flag)
  moreover have "bit (push_bit 4 (argmask_num b)) k \<longleftrightarrow> k < 6 \<and> 4 \<le> k \<and> bit (argmask_num b) (k - 4)"
    using bit_field_low [of "argmask_num b" 2 4 k] bit_argmask [of b] by simp
  moreover have "bit (push_bit 2 (argmask_num c)) k \<longleftrightarrow> k < 4 \<and> 2 \<le> k \<and> bit (argmask_num c) (k - 2)"
    using bit_field_low [of "argmask_num c" 2 2 k] bit_argmask [of c] by simp
  moreover have "bit (mode_num m) k \<longleftrightarrow> k < 2 \<and> bit (mode_num m) k" using bit_mode by blast
  ultimately show ?thesis unfolding opmode_def bit_or_iff by argo
qed

lemma opmode_decode:
  assumes "t \<in> {0, 1}" "a \<in> {0, 1}"
  shows "[iABC, iABx, iAsBx, iAx] ! unat (opmode t a b c m AND 3) = m"
    "[OpArgN, OpArgU, OpArgR, OpArgK] ! unat (drop_bit 4 (opmode t a b c m) AND 3) = b"
    "[OpArgN, OpArgU, OpArgR, OpArgK] ! unat (drop_bit 2 (opmode t a b c m) AND 3) = c"
    "(opmode t a b c m AND push_bit 6 1 \<noteq> 0) = (a = 1)"
    "(opmode t a b c m AND push_bit 7 1 \<noteq> 0) = (t = 1)"
proof -
  have "opmode t a b c m AND 3 = mode_num m"
    using bit_mode [of m]
    by (intro bit_word_eqI, unfold bit_and_iff bit_three bit_opmode [OF assms]) auto
  then show "[iABC, iABx, iAsBx, iAx] ! unat (opmode t a b c m AND 3) = m"
    by (cases m) (simp_all add: mode_num_def)
  have "drop_bit 4 (opmode t a b c m) AND 3 = argmask_num b"
    using bit_argmask [of b]
    by (intro bit_word_eqI, unfold bit_and_iff bit_three bit_drop_bit_eq comp_def bit_opmode [OF assms]) auto
  then show "[OpArgN, OpArgU, OpArgR, OpArgK] ! unat (drop_bit 4 (opmode t a b c m) AND 3) = b"
    by (cases b) (simp_all add: argmask_num_def)
  have "drop_bit 2 (opmode t a b c m) AND 3 = argmask_num c"
    using bit_argmask [of c]
    by (intro bit_word_eqI, unfold bit_and_iff bit_three bit_drop_bit_eq comp_def bit_opmode [OF assms]) auto
  then show "[OpArgN, OpArgU, OpArgR, OpArgK] ! unat (drop_bit 2 (opmode t a b c m) AND 3) = c"
    by (cases c) (simp_all add: argmask_num_def)
  show "(opmode t a b c m AND push_bit 6 1 \<noteq> 0) = (a = 1)"
    unfolding bit_iff_and_push_bit_not_eq_0 [symmetric] bit_opmode [OF assms] by auto
  show "(opmode t a b c m AND push_bit 7 1 \<noteq> 0) = (t = 1)"
    unfolding bit_iff_and_push_bit_not_eq_0 [symmetric] bit_opmode [OF assms] by auto
qed

section \<open>Properties\<close>

text \<open>CREATE_ABC packs an instruction from which GET_OPCODE and the GETARG macros read every operand
  back, for all operands within their MAXARG limits.\<close>

theorem CREATE_ABC_fields:
  assumes "0 \<le> a" "a \<le> MAXARG_A" and "0 \<le> b" "b \<le> MAXARG_B" and "0 \<le> c" "c \<le> MAXARG_C"
  shows "opcodes ! GET_OPCODE (CREATE_ABC op a b c) = op \<and> GETARG_A (CREATE_ABC op a b c) = a \<and>
    GETARG_B (CREATE_ABC op a b c) = b \<and> GETARG_C (CREATE_ABC op a b c) = c"
proof -
  let ?i = "CREATE_ABC op a b c"
  note r = assms [unfolded maxarg_defs layout]
  have bits: "bit ?i k = (k < 32 \<and> (bit (int (op_num op)) k \<or> 6 \<le> k \<and> bit a (k - 6) \<or>
      23 \<le> k \<and> bit b (k - 23) \<or> 14 \<le> k \<and> bit c (k - 14)))" for k
    unfolding CREATE_ABC_def bit_or_iff bit_field bit_field_op layout by auto
  have f: "getarg ?i 0 6 = int (op_num op)" "getarg ?i 6 8 = a" "getarg ?i 23 9 = b" "getarg ?i 14 9 = c"
    using bit_no [OF op_range [of op]] bit_no [OF r(1,2)] bit_no [OF r(3,4)] bit_no [OF r(5,6)]
    by (intro getarg_pack op_range r; unfold bits; fastforce)+
  then show ?thesis
    by (simp add: field_defs layout opcodes_op_num)
qed

theorem CREATE_ABC_fields_witness:
  "opcodes ! GET_OPCODE (CREATE_ABC OP_CALL 255 511 3) = OP_CALL \<and> GETARG_A (CREATE_ABC OP_CALL 255 511 3) = 255 \<and>
    GETARG_B (CREATE_ABC OP_CALL 255 511 3) = 511 \<and> GETARG_C (CREATE_ABC OP_CALL 255 511 3) = 3"
  using CREATE_ABC_fields [of 255 511 3 OP_CALL] by (simp add: maxarg_defs layout)

text \<open>Patching a jump with SETARG_sBx stores the signed offset, for every offset in the range that
  fixjump allows, and keeps the opcode and operand A of the instruction.\<close>

theorem SETARG_sBx_fields:
  assumes "- MAXARG_sBx \<le> b" and "b \<le> MAXARG_sBx"
  shows "GETARG_sBx (SETARG_sBx i b) = b \<and> GETARG_A (SETARG_sBx i b) = GETARG_A i \<and>
    GET_OPCODE (SETARG_sBx i b) = GET_OPCODE i"
proof -
  have "0 \<le> b + MAXARG_sBx" "b + MAXARG_sBx \<le> 2 ^ 18 - 1"
    using assms by (simp_all add: maxarg_defs layout)
  then show ?thesis
    by (simp add: field_defs layout getarg_setarg_same getarg_setarg_other)
qed

theorem SETARG_sBx_fields_witness:
  "GETARG_sBx (SETARG_sBx 31 (- 5)) = - 5 \<and> GETARG_A (SETARG_sBx 31 (- 5)) = GETARG_A 31 \<and>
    GET_OPCODE (SETARG_sBx 31 (- 5)) = GET_OPCODE 31"
  using SETARG_sBx_fields [of "- 5" 31] by (simp add: maxarg_defs layout)

text \<open>An RK operand distinguishes constants from registers: a constant index up to MAXINDEXRK, coded by
  RKASK, fits in operands B and C, is recognised by ISK and decoded by INDEXK, and no register is
  taken for a constant.\<close>

theorem RK_roundtrip:
  assumes "0 \<le> x" and "x \<le> MAXINDEXRK"
  shows "ISK (RKASK x) \<and> INDEXK (RKASK x) = x \<and> RKASK x \<le> MAXARG_B \<and> 0 \<le> RKASK x \<and> \<not> ISK x"
proof -
  have x: "take_bit 8 x = x" using assms by (simp add: MAXINDEXRK_def BITRK_def layout take_bit_int_eq_self)
  then have nb: "\<not> bit x k" if "8 \<le> k" for k using that by (metis bit_take_bit_iff not_less)
  have B: "bit BITRK k \<longleftrightarrow> k = 8" for k
    using bit_exp_iff [of 8 k, where 'a = int] by (auto simp: BITRK_def layout)
  have "(x OR BITRK) AND NOT BITRK = x"
  proof (rule bit_eqI)
    fix n show "bit ((x OR BITRK) AND NOT BITRK) n = bit x n"
      using nb [of n] by (auto simp: B bit_and_iff bit_or_iff bit_not_iff)
  qed
  moreover have "x AND BITRK = 0" "(x OR BITRK) AND BITRK = BITRK"
    using nb by (auto intro: bit_eqI simp: B bit_and_iff bit_or_iff)
  moreover note k = calculation
  have "take_bit 9 (x OR BITRK) = x OR BITRK"
  proof (rule bit_eqI)
    fix n show "bit (take_bit 9 (x OR BITRK)) n = bit (x OR BITRK) n"
      using nb [of n] by (cases "n < 9") (auto simp: bit_take_bit_iff B bit_or_iff)
  qed
  then have "0 \<le> x OR BITRK \<and> x OR BITRK < 2 ^ 9"
    by (metis take_bit_nonnegative take_bit_int_less_exp)
  with k show ?thesis
    by (simp add: ISK_def INDEXK_def RKASK_def maxarg_defs layout) (simp add: BITRK_def layout)
qed

theorem RK_roundtrip_witness:
  "ISK (RKASK 17) \<and> INDEXK (RKASK 17) = 17 \<and> RKASK 17 \<le> MAXARG_B \<and> 0 \<le> RKASK 17 \<and> \<not> ISK 17"
  using RK_roundtrip [of 17] by (simp add: MAXINDEXRK_def BITRK_def layout)

text \<open>The mode byte of every opcode decodes to its row of luaP_opmodes; the tests (the opcodes that
  must be followed by a jump) are exactly EQ, LT, LE, TEST and TESTSET, and every opcode whose row
  has the sBx format is a jump or a loop.\<close>

theorem opmodes_decode:
  "(case opmode_rows ! op_num op of (t, a, b, c, m) \<Rightarrow>
      getOpMode op = m \<and> getBMode op = b \<and> getCMode op = c \<and> testAMode op = (a = 1) \<and> testTMode op = (t = 1)) \<and>
   (testTMode op = (op \<in> {OP_EQ, OP_LT, OP_LE, OP_TEST, OP_TESTSET})) \<and>
   ((getOpMode op = iAsBx) = (op \<in> {OP_JMP, OP_FORLOOP, OP_FORPREP, OP_TFORLOOP}))"
proof -
  obtain t a b c m where row: "opmode_rows ! op_num op = (t, a, b, c, m)" by (metis prod_cases5)
  have ta: "t \<in> {0, 1}" "a \<in> {0, 1}"
    using row by (cases op; simp add: op_num_def opcodes_def opmode_rows_def)+
  have dec: "getOpMode op = m \<and> getBMode op = b \<and> getCMode op = c \<and> testAMode op = (a = 1) \<and> testTMode op = (t = 1)"
    using opmode_decode [OF ta, of b c m]
    unfolding getOpMode_def getBMode_def getCMode_def testAMode_def testTMode_def opmode_row row prod.case
    by (intro conjI)
  moreover have "(t = 1) = (op \<in> {OP_EQ, OP_LT, OP_LE, OP_TEST, OP_TESTSET})"
    "(m = iAsBx) = (op \<in> {OP_JMP, OP_FORLOOP, OP_FORPREP, OP_TFORLOOP})"
    using row by (cases op; auto simp: op_num_def opcodes_def opmode_rows_def)+
  ultimately show ?thesis by (simp add: row)
qed

end
