(* ===== verification/LuaObject.thy ===== *)
theory LuaObject
  imports Prelude
begin

text \<open>
  Generic functions over Lua objects (lobject.c): the floating-point byte in which OP_NEWTABLE
  keeps table sizes, the base-2 logarithm that sizes hash parts, hexadecimal digits, and the display name of a
  chunk. A C string is the list of its characters, without the terminating zero.
\<close>

section \<open>Floating-point bytes\<close>

text \<open>The loop of luaO_int2fb: halves x, rounding up, and counts in e.\<close>

function int2fb_loop :: "uint32 \<Rightarrow> int \<Rightarrow> uint32 \<times> int" where
  "int2fb_loop x e = (if x \<ge> 0x10 then int2fb_loop (drop_bit 1 (x + 1)) (e + 1) else (x, e))"
  by pat_completeness auto
termination
proof (relation "measure (\<lambda>(x, e). unat x)")
  fix x :: uint32 and e :: int
  assume "x \<ge> 0x10"
  then have "16 \<le> unat x" by (simp add: word_le_nat_alt)
  moreover have "unat (x + 1) \<le> unat x + 1" by (rule unat_plus_one_le)
  ultimately show "((drop_bit 1 (x + 1), e + 1), (x, e)) \<in> measure (\<lambda>(x, e). unat x)"
    by (simp only: in_measure prod.case unat_shr) simp
qed simp

declare int2fb_loop.simps [simp del]

definition luaO_int2fb :: "uint32 \<Rightarrow> int" where
  "luaO_int2fb x =
     (if x < 8 then uint x
      else (case int2fb_loop x 0 of (x, e) \<Rightarrow> push_bit 3 (e + 1) OR (sint x - 8)))"

definition luaO_fb2int :: "int \<Rightarrow> int" where
  "luaO_fb2int x =
     (let e = drop_bit 3 x AND 0x1f in
      if e = 0 then x else push_bit (nat (e - 1)) ((x AND 7) + 8))"

section \<open>Logarithm\<close>

definition log_2 :: "nat list" where
  "log_2 = [0, 1] @ replicate 2 2 @ replicate 4 3 @ replicate 8 4 @ replicate 16 5 @
     replicate 32 6 @ replicate 64 7 @ replicate 128 8"

function ceillog2_loop :: "uint32 \<Rightarrow> nat \<Rightarrow> uint32 \<times> nat" where
  "ceillog2_loop x l = (if x \<ge> 256 then ceillog2_loop (drop_bit 8 x) (l + 8) else (x, l))"
  by pat_completeness auto
termination
proof (relation "measure (\<lambda>(x, e). unat x)")
  fix x :: uint32 and l :: nat
  assume "x \<ge> 256"
  then have "256 \<le> unat x" by (simp add: word_le_nat_alt)
  then show "((drop_bit 8 x, l + 8), (x, l)) \<in> measure (\<lambda>(x, e). unat x)"
    by (simp only: in_measure prod.case unat_shr) simp
qed simp

declare ceillog2_loop.simps [simp del]

definition luaO_ceillog2 :: "uint32 \<Rightarrow> nat" where
  "luaO_ceillog2 x = (case ceillog2_loop (x - 1) 0 of (x, l) \<Rightarrow> l + log_2 ! unat x)"

section \<open>Characters\<close>

definition lisdigit :: "byte \<Rightarrow> bool" where
  "lisdigit c \<longleftrightarrow> 48 \<le> c \<and> c \<le> 57"

definition ltolower :: "byte \<Rightarrow> byte" where
  "ltolower c = c OR (65 XOR 97)"

definition luaO_hexavalue :: "byte \<Rightarrow> int" where
  "luaO_hexavalue c = (if lisdigit c then uint c - 48 else uint (ltolower c) - 97 + 10)"

section \<open>Chunk names\<close>

definition RETS :: "byte list" where "RETS = map of_char ''...''"
definition PRE :: "byte list" where "PRE = map of_char ''[string '' @ [34]"
definition POS :: "byte list" where "POS = [34, 93]"

text \<open>The bytes luaO_chunkid stores in out, the terminating zero included.\<close>

definition luaO_chunkid :: "byte list \<Rightarrow> nat \<Rightarrow> byte list" where
  "luaO_chunkid source bufflen =
     (let l = length source in
      case source of
        c # rest \<Rightarrow>
          if c = 61 then
            (if l \<le> bufflen then take l (rest @ [0]) else take (bufflen - 1) rest @ [0])
          else if c = 64 then
            (if l \<le> bufflen then take l (rest @ [0])
             else (let b = bufflen - length RETS in RETS @ take b (drop (1 + l - b) (source @ [0]))))
          else (let b = bufflen - (length (PRE @ RETS @ POS) + 1) in
            if l < b \<and> 10 \<notin> set source then PRE @ source @ POS @ [0]
            else (let l = (if 10 \<in> set source then length (takeWhile (\<lambda>c. c \<noteq> 10) source) else l);
                      l = (if l > b then b else l)
                  in PRE @ take l source @ RETS @ POS @ [0]))
      | [] \<Rightarrow> (let b = bufflen - (length (PRE @ RETS @ POS) + 1) in
            if l < b then PRE @ POS @ [0] else PRE @ RETS @ POS @ [0]))"

section \<open>Lemmas\<close>

lemma log_2_table:
  "list_all (\<lambda>i. i < 2 ^ (log_2 ! i) \<and> (i = 0 \<or> 2 ^ (log_2 ! i) \<le> 2 * i) \<and> (i = 0 \<longrightarrow> log_2 ! i = 0)) [0..<256]"
  by code_simp

lemma int2fb_loop_inv:
  "8 \<le> unat x \<Longrightarrow> unat x < 2 ^ 32 - 1 \<Longrightarrow> int2fb_loop x e = (x', e') \<Longrightarrow>
   \<exists>k. e' = e + int k \<and> 8 \<le> unat x' \<and> unat x' < 16 \<and>
       unat x \<le> unat x' * 2 ^ k \<and> unat x' * 2 ^ k < unat x + 2 ^ k"
proof (induction x e rule: int2fb_loop.induct)
  case (1 x e)
  show ?case
  proof (cases "x \<ge> 0x10")
    case False
    with "1.prems" have x: "x' = x" "e' = e" by (simp_all add: int2fb_loop.simps [of x e])
    moreover have "unat x < 16" using False by (simp add: word_le_nat_alt)
    ultimately show ?thesis using "1.prems"(1) by (intro exI [of _ 0]) simp
  next
    case True
    let ?y = "drop_bit 1 (x + 1)"
    have big: "16 \<le> unat x" using True by (simp add: word_le_nat_alt)
    have "unat (x + 1) = unat x + 1" using "1.prems"(2) by (simp add: unat_word_ariths(1))
    then have y: "unat ?y = (unat x + 1) div 2" by (simp only: unat_shr power_one_right)
    with big "1.prems"(2) have "8 \<le> unat ?y" "unat ?y < 2 ^ 32 - 1" by auto
    with "1.IH" [OF True] True "1.prems"(3) obtain k where k: "e' = e + 1 + int k" "8 \<le> unat x'"
      "unat x' < 16" "unat ?y \<le> unat x' * 2 ^ k" "unat x' * 2 ^ k < unat ?y + 2 ^ k"
      by (auto simp only: int2fb_loop.simps [of x e] if_True)
    have "unat x \<le> 2 * unat ?y" "2 * unat ?y \<le> unat x + 1" using y by auto
    with k show ?thesis by (intro exI [of _ "Suc k"]) auto
  qed
qed

lemma fb2int_pack:
  assumes "k < 30" "8 \<le> m" "m < 16"
  shows "luaO_fb2int (push_bit 3 (int k + 1) OR (m - 8)) = m * 2 ^ k"
proof -
  let ?b = "push_bit 3 (int k + 1) OR (m - 8)"
  have t: "take_bit 3 (m - 8) = m - 8" using assms by (simp add: take_bit_int_eq_self)
  have lo: "?b AND 7 = m - 8"
  proof -
    have "take_bit 3 ?b = m - 8" using t by (simp add: take_bit_or take_bit_push_bit)
    then show ?thesis by (simp add: take_bit_eq_mask mask_eq_exp_minus_1)
  qed
  have "drop_bit 3 (m - 8) = 0" using t by (simp add: drop_bit_eq_div) (use assms in simp)
  then have hi: "drop_bit 3 ?b = int k + 1"
    by (simp add: drop_bit_push_bit_int)
  have "(int k + 1) AND 31 = take_bit 5 (int k + 1)" by (simp add: take_bit_eq_mask mask_eq_exp_minus_1)
  then have "(int k + 1) AND 31 = int k + 1" using assms by (simp add: take_bit_int_eq_self)
  then show ?thesis
    unfolding luaO_fb2int_def Let_def hi lo by (simp add: push_bit_eq_mult)
qed

lemma ceillog2_loop_inv:
  "ceillog2_loop x l = (y, l') \<Longrightarrow>
   \<exists>k. l' = l + k \<and> unat y = unat x div 2 ^ k \<and> unat y < 256 \<and> (k = 0 \<or> 1 \<le> unat y)"
proof (induction x l rule: ceillog2_loop.induct)
  case (1 x l)
  show ?case
  proof (cases "x \<ge> 256")
    case False
    with "1.prems" have "y = x" "l' = l" by (simp_all add: ceillog2_loop.simps [of x l])
    moreover have "unat x < 256" using False by (simp add: word_le_nat_alt)
    ultimately show ?thesis by simp
  next
    case True
    have "ceillog2_loop (drop_bit 8 x) (l + 8) = (y, l')"
      using "1.prems" True by (simp only: ceillog2_loop.simps [of x l] if_True)
    from "1.IH" [OF True this] obtain k where k: "l' = l + 8 + k"
      "unat y = unat (drop_bit 8 x) div 2 ^ k" "unat y < 256" "k = 0 \<or> 1 \<le> unat y"
      by blast
    have "unat y = unat x div 2 ^ (8 + k)"
      unfolding k(2) unat_shr by (simp add: power_add div_mult2_eq)
    moreover have "1 \<le> unat y"
    proof (cases "k = 0")
      case True
      have "256 \<le> unat x" using \<open>256 \<le> x\<close> by (simp add: word_le_nat_alt)
      then have "1 \<le> unat x div 2 ^ 8" by simp
      with True k(2) show ?thesis by (simp only: unat_shr) simp
    qed (use k(4) in simp)
    ultimately show ?thesis using k by (intro exI [of _ "8 + k"]) simp
  qed
qed

lemma markers: "length PRE = 9" "length RETS = 3" "length POS = 2"
  "0 \<notin> set PRE" "0 \<notin> set RETS" "0 \<notin> set POS"
  by (simp_all add: PRE_def RETS_def POS_def)

lemma chunkid_string:
  assumes "0 \<notin> set source" "16 \<le> bufflen" "source = [] \<or> hd source \<notin> {61, 64}"
  shows "\<exists>str. luaO_chunkid source bufflen = str @ [0] \<and> 0 \<notin> set str \<and> length str < bufflen"
proof -
  let ?nl = "if 10 \<in> set source then length (takeWhile (\<lambda>c. c \<noteq> 10) source) else length source"
  let ?b = "bufflen - 15"
  have v: "luaO_chunkid source bufflen =
     (if length source < ?b \<and> 10 \<notin> set source then PRE @ source @ POS
      else PRE @ take (min ?nl ?b) source @ RETS @ POS) @ [0]"
    using assms(3) by (cases source) (auto simp: luaO_chunkid_def markers Let_def min_def)
  show ?thesis
    unfolding v using assms(1,2) by (auto simp: markers dest: in_set_takeD)
qed

lemma chunkid_name:
  assumes "0 \<notin> set source" "16 \<le> bufflen" "hd source \<in> {61, 64}" "source \<noteq> []"
  shows "\<exists>str. luaO_chunkid source bufflen = str @ [0] \<and> 0 \<notin> set str \<and> length str < bufflen"
proof -
  obtain c rest where s: "source = c # rest" using assms(4) by (cases source) auto
  let ?b = "bufflen - 3"
  have long: "take ?b (drop (1 + length source - ?b) (source @ [0])) =
      drop (1 + length source - ?b) source @ [0]" if "bufflen < length source"
    using that assms(2) by simp
  show ?thesis
  proof (cases "length source \<le> bufflen")
    case True
    then show ?thesis using assms s by (auto simp: luaO_chunkid_def Let_def)
  next
    case False
    show ?thesis
    proof (cases "c = 61")
      case True
      with False s assms show ?thesis
        by (auto simp: luaO_chunkid_def Let_def dest: in_set_takeD)
    next
      case c: False
      with assms(3) s have "c = 64" by simp
      then have v: "luaO_chunkid source bufflen = (RETS @ drop (1 + length source - ?b) source) @ [0]"
        using False long assms(2) unfolding s luaO_chunkid_def Let_def markers by (simp del: drop_append take_append)
      show ?thesis unfolding v using assms(1,2) False by (auto simp: markers dest: in_set_dropD)
    qed
  qed
qed

section \<open>Properties\<close>

text \<open>The floating-point byte rounds a size up: for every size it can hold, decoding the coded
  size gives at least the size, and too much by less than one seventh of it.\<close>

theorem int2fb_rounds_up:
  assumes "unat x \<le> 15 * 2 ^ 27"
  shows "int (unat x) \<le> luaO_fb2int (luaO_int2fb x) \<and>
    7 * (luaO_fb2int (luaO_int2fb x) - int (unat x)) \<le> int (unat x)"
proof (cases "x < 8")
  case True
  then have "unat x < 8" by (simp add: word_less_nat_alt)
  have "uint x < 8" using True by (simp add: word_less_def)
  then have "uint x div 8 = 0" by (intro div_pos_pos_trivial) simp_all
  then have "drop_bit 3 (uint x) = 0" by (simp add: drop_bit_eq_div)
  with True show ?thesis by (simp add: luaO_int2fb_def luaO_fb2int_def Let_def)
next
  case False
  then have big: "8 \<le> unat x" by (simp add: word_less_nat_alt)
  obtain x' e' where l: "int2fb_loop x 0 = (x', e')" by fastforce
  from int2fb_loop_inv [OF big _ l] assms obtain k where k: "e' = int k" "8 \<le> unat x'" "unat x' < 16"
    "unat x \<le> unat x' * 2 ^ k" "unat x' * 2 ^ k < unat x + 2 ^ k" by auto
  have s: "sint x' = int (unat x')"
  proof -
    have "int (unat x') < int 16" using k(3) by (simp only: of_nat_less_iff)
    then have "uint x' < 16" by simp
    moreover have "0 \<le> uint x'" by simp
    ultimately have "signed_take_bit 31 (uint x') = uint x'"
      by (intro signed_take_bit_int_eq_self order_trans [OF _ \<open>0 \<le> uint x'\<close>]) simp_all
    then show ?thesis by (simp add: sint_uint)
  qed
  have "8 * 2 ^ k \<le> unat x' * 2 ^ k" using k(2) by simp
  with k(5) have seven: "7 * 2 ^ k < unat x" by linarith
  have "k < 30"
  proof (rule ccontr)
    assume "\<not> k < 30"
    then have "(2 :: nat) ^ 30 \<le> 2 ^ k" by (intro power_increasing) auto
    with seven assms show False by simp
  qed
  moreover have "int 8 \<le> int (unat x')" "int (unat x') < int 16"
    using k(2,3) by (simp_all only: of_nat_less_iff of_nat_le_iff)
  ultimately have "luaO_fb2int (luaO_int2fb x) = int (unat x') * 2 ^ k"
    using fb2int_pack [of k "int (unat x')"] False by (simp add: luaO_int2fb_def l s k(1) add.commute)
  also have "\<dots> = int (unat x' * 2 ^ k)" by simp
  finally have v: "luaO_fb2int (luaO_int2fb x) = int (unat x' * 2 ^ k)" .
  have "7 * (unat x' * 2 ^ k) \<le> 7 * unat x + 7 * 2 ^ k" using k(5) by simp
  with seven have "7 * (unat x' * 2 ^ k) \<le> 8 * unat x" by linarith
  moreover define m where "m = unat x' * 2 ^ k"
  ultimately have "unat x \<le> m" "7 * m \<le> 8 * unat x" using k(4) by simp_all
  then show ?thesis unfolding v m_def [symmetric] by presburger
qed

theorem int2fb_rounds_up_witness:
  "(1000 :: int) \<le> luaO_fb2int (luaO_int2fb 1000) \<and> 7 * (luaO_fb2int (luaO_int2fb 1000) - 1000) \<le> 1000"
  using int2fb_rounds_up [of 1000] by simp

text \<open>LuaO_ceillog2 is the exact ceiling of the base-2 logarithm: for every x > 0 its result l is
  the least with x <= 2 ^ l.\<close>

theorem ceillog2_correct:
  assumes "0 < x"
  shows "unat x \<le> 2 ^ luaO_ceillog2 x \<and> (\<forall>l < luaO_ceillog2 x. 2 ^ l < unat x)"
proof -
  define n where "n = unat (x - 1)"
  have "unat x \<noteq> 0" using assms by (metis unat_eq_0 word_gt_0)
  then have x: "unat x = n + 1" using assms by (simp add: n_def unat_minus_one)
  obtain y j where l: "ceillog2_loop (x - 1) 0 = (y, j)" by fastforce
  from ceillog2_loop_inv [OF l] have y: "unat y = n div 2 ^ j" "unat y < 256" "j = 0 \<or> 1 \<le> unat y"
    by (auto simp: n_def)
  define t where "t = log_2 ! unat y"
  have t: "unat y < 2 ^ t" "unat y = 0 \<or> 2 ^ t \<le> 2 * unat y" "unat y = 0 \<longrightarrow> t = 0"
    using log_2_table y(2) by (auto simp: list_all_iff t_def)
  have r: "luaO_ceillog2 x = j + t" by (simp add: luaO_ceillog2_def l t_def)
  have "n < 2 ^ j * 2 ^ t"
    using t(1) unfolding y(1) by (simp add: div_less_iff_less_mult mult.commute)
  then have up: "unat x \<le> 2 ^ (j + t)" by (simp add: x power_add)
  have "2 ^ l < unat x" if "l < j + t" for l
  proof -
    have ne: "unat y \<noteq> 0" using that y(3) t(3) by auto
    with t(1) obtain t' where t': "t = Suc t'" by (cases t) auto
    with t(2) ne have "2 ^ t' \<le> unat y" by simp
    then have "2 ^ t' * 2 ^ j \<le> n div 2 ^ j * 2 ^ j" unfolding y(1) by simp
    also have "\<dots> \<le> n" by (rule div_times_less_eq_dividend)
    finally have "2 ^ (j + t') \<le> n" by (simp add: power_add mult.commute)
    moreover have "(2 :: nat) ^ l \<le> 2 ^ (j + t')" using that t' by (intro power_increasing) auto
    ultimately show ?thesis using x by linarith
  qed
  with up r show ?thesis by simp
qed

theorem ceillog2_correct_witness:
  "luaO_ceillog2 1025 = 11 \<and> unat (1025 :: uint32) \<le> 2 ^ luaO_ceillog2 1025 \<and> 2 ^ 10 < unat (1025 :: uint32)"
proof -
  have "luaO_ceillog2 1025 = 11" by code_simp
  with ceillog2_correct [of 1025] show ?thesis by simp
qed

text \<open>LuaO_chunkid never overruns its buffer: for every source without embedded zeros and every
  buffer of at least 16 bytes, it stores a zero-terminated string that fits.\<close>

theorem chunkid_fits:
  assumes "0 \<notin> set source" and "16 \<le> bufflen"
  shows "\<exists>str. luaO_chunkid source bufflen = str @ [0] \<and> 0 \<notin> set str \<and> length str < bufflen"
  using chunkid_string [OF assms] chunkid_name [OF assms] by blast

theorem chunkid_fits_witness:
  "\<exists>str. luaO_chunkid [64, 97, 46, 108, 117, 97] 60 = str @ [0] \<and> 0 \<notin> set str \<and> length str < 60"
  using chunkid_fits [of "[64, 97, 46, 108, 117, 97]" 60] by simp

end
