(* ===== verification/LuaTable.thy ===== *)
theory LuaTable
  imports LuaObject
begin

text \<open>
  The tables of the script engine (ltable.c): an array part for the keys 1..sizearray and a hash
  part, a vector of nodes whose collision chains are linked by their next fields (a chained scatter
  table with Brent's variation), and the rehash that resizes both.

  A value is seen the way ltable.c sees it. A number is an int, another number (by its bit pattern),
  or a NaN; strings are compared by content (short ones are interned); other collectable objects and
  pointers are addresses. The hash of a number (luai_hashnum) and of a string (luaS_hash) are
  arguments, since any functions do. Keys killed by the collector are not modelled.

  A pointer into a table is a cell: an array slot, a node, or luaO_nilobject. Node pointers are
  indices. Following a chain takes fuel, the number of nodes; luaH_newkey and luaH_set call each
  other through rehash, which takes fuel too.
\<close>

section \<open>Data\<close>

datatype lnum = NInt int | NOther "64 word" | NNaN

datatype TValue = VNil | VBool bool | VNum lnum | VShrStr "byte list" | VLngStr "byte list"
  | VPtr nat uint64

record Node =
  i_val :: TValue
  i_key :: TValue
  i_next :: "nat option"

record Table =
  arr :: "TValue list"
  lsizenode :: nat
  node :: "Node list"
  is_dummy :: bool
  lastfree :: nat

datatype cell = CArr nat | CNode nat | CNilObject

datatype table_error = RunError string | ChainLoops | NullNext | NoRehashFuel | SearchFuel

record hashes =
  h_num :: "lnum \<Rightarrow> int"
  h_str :: "byte list \<Rightarrow> uint32"

definition MAXBITS :: nat where "MAXBITS = 30"
definition MAXASIZE :: int where "MAXASIZE = 2 ^ MAXBITS"

definition sizearray :: "Table \<Rightarrow> nat" where "sizearray t = length (arr t)"
definition sizenode :: "Table \<Rightarrow> nat" where "sizenode t = 2 ^ lsizenode t"
definition gkey :: "Table \<Rightarrow> nat \<Rightarrow> TValue" where "gkey t i = i_key (node t ! i)"
definition gval :: "Table \<Rightarrow> nat \<Rightarrow> TValue" where "gval t i = i_val (node t ! i)"
definition gnext :: "Table \<Rightarrow> nat \<Rightarrow> nat option" where "gnext t i = i_next (node t ! i)"

definition dummynode :: Node where
  "dummynode = \<lparr>i_val = VNil, i_key = VNil, i_next = None\<rparr>"

text \<open>luaV_rawequalobj: a NaN is not equal to itself.\<close>

definition rawequal :: "TValue \<Rightarrow> TValue \<Rightarrow> bool" where
  "rawequal a b \<longleftrightarrow> a = b \<and> a \<noteq> VNum NNaN"

section \<open>Hashing\<close>

definition hashpow2 :: "Table \<Rightarrow> uint32 \<Rightarrow> nat" where
  "hashpow2 t n = unat (n AND (of_nat (sizenode t) - 1))"

definition hashmod :: "Table \<Rightarrow> nat \<Rightarrow> nat" where
  "hashmod t n = n mod ((sizenode t - 1) OR 1)"

definition hashnum :: "hashes \<Rightarrow> Table \<Rightarrow> lnum \<Rightarrow> nat" where
  "hashnum H t n =
     (let i = sint (word_of_int (h_num H n) :: uint32);
          i = (if i < 0 then (if i = - (2 ^ 31) then 0 else - i) else i)
      in hashmod t (nat i))"

definition mainposition :: "hashes \<Rightarrow> Table \<Rightarrow> TValue \<Rightarrow> nat" where
  "mainposition H t key = (case key of
       VNum n \<Rightarrow> hashnum H t n
     | VLngStr s \<Rightarrow> hashpow2 t (h_str H s)
     | VShrStr s \<Rightarrow> hashpow2 t (h_str H s)
     | VBool b \<Rightarrow> hashpow2 t (if b then 1 else 0)
     | VPtr _ q \<Rightarrow> hashmod t (unat (ucast q :: uint32))
     | VNil \<Rightarrow> hashmod t 0)"

definition arrayindex :: "TValue \<Rightarrow> int" where
  "arrayindex key = (case key of VNum (NInt k) \<Rightarrow> k | _ \<Rightarrow> - 1)"

section \<open>Searching\<close>

text \<open>
  The search of a chain from node i for a key with property P: Inr (Some j) when node j has it,
  Inr None at the end of the chain.
\<close>

primrec chain_search :: "nat \<Rightarrow> Table \<Rightarrow> (TValue \<Rightarrow> bool) \<Rightarrow> nat \<Rightarrow> table_error + nat option" where
  "chain_search 0 t P i = Inl ChainLoops"
| "chain_search (Suc fuel) t P i =
     (if P (gkey t i) then Inr (Some i)
      else (case gnext t i of None \<Rightarrow> Inr None | Some j \<Rightarrow> chain_search fuel t P j))"

definition search_cell :: "table_error + nat option \<Rightarrow> table_error + cell" where
  "search_cell r = bindE r (\<lambda>j. Inr (case j of Some j \<Rightarrow> CNode j | None \<Rightarrow> CNilObject))"

definition luaH_getint :: "hashes \<Rightarrow> Table \<Rightarrow> int \<Rightarrow> table_error + cell" where
  "luaH_getint H t key =
     (if 1 \<le> key \<and> key \<le> int (sizearray t) then Inr (CArr (nat (key - 1)))
      else search_cell (chain_search (sizenode t) t (\<lambda>k. k = VNum (NInt key)) (hashnum H t (NInt key))))"

definition luaH_getstr :: "hashes \<Rightarrow> Table \<Rightarrow> byte list \<Rightarrow> table_error + cell" where
  "luaH_getstr H t key =
     search_cell (chain_search (sizenode t) t (\<lambda>k. k = VShrStr key) (hashpow2 t (h_str H key)))"

definition get_generic :: "hashes \<Rightarrow> Table \<Rightarrow> TValue \<Rightarrow> table_error + cell" where
  "get_generic H t key =
     search_cell (chain_search (sizenode t) t (\<lambda>k. rawequal k key) (mainposition H t key))"

definition luaH_get :: "hashes \<Rightarrow> Table \<Rightarrow> TValue \<Rightarrow> table_error + cell" where
  "luaH_get H t key = (case key of
       VShrStr s \<Rightarrow> luaH_getstr H t s
     | VNil \<Rightarrow> Inr CNilObject
     | VNum (NInt k) \<Rightarrow> luaH_getint H t k
     | _ \<Rightarrow> get_generic H t key)"

text \<open>The value a cell holds, and a store through it.\<close>

definition cell_val :: "Table \<Rightarrow> cell \<Rightarrow> TValue" where
  "cell_val t c = (case c of CArr i \<Rightarrow> arr t ! i | CNode i \<Rightarrow> gval t i | CNilObject \<Rightarrow> VNil)"

definition setobj :: "Table \<Rightarrow> cell \<Rightarrow> TValue \<Rightarrow> Table" where
  "setobj t c v = (case c of
       CArr i \<Rightarrow> t\<lparr>arr := (arr t)[i := v]\<rparr>
     | CNode i \<Rightarrow> t\<lparr>node := (node t)[i := (node t ! i)\<lparr>i_val := v\<rparr>]\<rparr>
     | CNilObject \<Rightarrow> t)"

section \<open>Traversal\<close>

definition findindex :: "hashes \<Rightarrow> Table \<Rightarrow> TValue \<Rightarrow> table_error + int" where
  "findindex H t key =
     (if key = VNil then Inr (- 1)
      else let i = arrayindex key in
        if 0 < i \<and> i \<le> int (sizearray t) then Inr (i - 1)
        else bindE (chain_search (sizenode t) t (\<lambda>k. rawequal k key) (mainposition H t key)) (\<lambda>r.
          case r of Some j \<Rightarrow> Inr (int j + int (sizearray t))
                  | None \<Rightarrow> Inl (RunError ''invalid key to next'')))"

text \<open>The first i in the list with a non-nil value.\<close>

primrec next_array :: "Table \<Rightarrow> nat list \<Rightarrow> (TValue \<times> TValue) option" where
  "next_array t [] = None"
| "next_array t (i # is) =
     (if arr t ! i \<noteq> VNil then Some (VNum (NInt (int i + 1)), arr t ! i) else next_array t is)"

primrec next_node :: "Table \<Rightarrow> nat list \<Rightarrow> (TValue \<times> TValue) option" where
  "next_node t [] = None"
| "next_node t (i # is) =
     (if gval t i \<noteq> VNil then Some (gkey t i, gval t i) else next_node t is)"

definition luaH_next :: "hashes \<Rightarrow> Table \<Rightarrow> TValue \<Rightarrow> table_error + (TValue \<times> TValue) option" where
  "luaH_next H t key = bindE (findindex H t key) (\<lambda>i.
     let i = nat (i + 1) in
     case next_array t [i..<sizearray t] of
       Some kv \<Rightarrow> Inr (Some kv)
     | None \<Rightarrow> Inr (next_node t [i - sizearray t..<sizenode t]))"

section \<open>Counting\<close>

text \<open>
  computesizes: i, 2^i, a (elements up to 2^i), and the best na, n so far. The loop ends because 2^i
  grows.
\<close>

function computesizes_loop ::
  "(nat \<Rightarrow> nat) \<Rightarrow> nat \<Rightarrow> nat \<Rightarrow> nat \<Rightarrow> nat \<Rightarrow> nat \<Rightarrow> nat \<times> nat" where
  "computesizes_loop nums narray i a na n =
     (if 2 ^ i div 2 < narray then
        (let a' = a + nums i;
             (na', n') = (if nums i > 0 \<and> a' > 2 ^ i div 2 then (a', 2 ^ i) else (na, n))
         in if a' = narray then (na', n') else computesizes_loop nums narray (i + 1) a' na' n')
      else (na, n))"
  by pat_completeness auto
termination
proof (relation "measure (\<lambda>(nums, narray, i, a, na, n). narray - 2 ^ i div 2)", goal_cases)
  case (2 nums narray i a na n a' x na' n')
  moreover have "(2 :: nat) ^ i div 2 < 2 ^ Suc i div 2" by (cases i) simp_all
  ultimately show ?case by (simp del: power_Suc)
qed simp

declare computesizes_loop.simps [simp del]

text \<open>The pair (na, n): elements that go to the array part, and its optimal size.\<close>

definition computesizes :: "(nat \<Rightarrow> nat) \<Rightarrow> nat \<Rightarrow> nat \<times> nat" where
  "computesizes nums narray = computesizes_loop nums narray 0 0 0 0"

definition countint :: "TValue \<Rightarrow> (nat \<Rightarrow> nat) \<Rightarrow> nat \<times> (nat \<Rightarrow> nat)" where
  "countint key nums =
     (let k = arrayindex key in
      if 0 < k \<and> k \<le> MAXASIZE then
        (let l = luaO_ceillog2 (word_of_int k) in (1, nums(l := nums l + 1)))
      else (0, nums))"

text \<open>
  numusearray: slice lg holds the keys in (2^(lg-1), 2^lg]; i is the next key to look at. The count
  of a slice and the key after it:
\<close>

definition count_slice :: "Table \<Rightarrow> nat \<Rightarrow> nat \<Rightarrow> nat" where
  "count_slice t i lim = length (filter (\<lambda>j. arr t ! (j - 1) \<noteq> VNil) [i..<lim + 1])"

primrec numusearray_loop ::
  "Table \<Rightarrow> nat list \<Rightarrow> nat \<Rightarrow> nat \<Rightarrow> (nat \<Rightarrow> nat) \<Rightarrow> nat \<times> (nat \<Rightarrow> nat)" where
  "numusearray_loop t [] i ause nums = (ause, nums)"
| "numusearray_loop t (lg # lgs) i ause nums =
     (let lim = (if 2 ^ lg > sizearray t then sizearray t else 2 ^ lg) in
      if 2 ^ lg > sizearray t \<and> i > lim then (ause, nums)
      else (let lc = count_slice t i lim in
        numusearray_loop t lgs (max i (lim + 1)) (ause + lc) (nums(lg := nums lg + lc))))"

definition numusearray :: "Table \<Rightarrow> (nat \<Rightarrow> nat) \<Rightarrow> nat \<times> (nat \<Rightarrow> nat)" where
  "numusearray t nums = numusearray_loop t [0..<MAXBITS + 1] 1 0 nums"

primrec numusehash_loop ::
  "Table \<Rightarrow> nat list \<Rightarrow> nat \<Rightarrow> nat \<Rightarrow> (nat \<Rightarrow> nat) \<Rightarrow> nat \<times> nat \<times> (nat \<Rightarrow> nat)" where
  "numusehash_loop t [] tot ause nums = (tot, ause, nums)"
| "numusehash_loop t (i # is) tot ause nums =
     (if gval t i \<noteq> VNil then
        (case countint (gkey t i) nums of (c, nums') \<Rightarrow> numusehash_loop t is (tot + 1) (ause + c) nums')
      else numusehash_loop t is tot ause nums)"

text \<open>The number of elements, how many of them are array candidates, and the counts.\<close>

definition numusehash :: "Table \<Rightarrow> (nat \<Rightarrow> nat) \<Rightarrow> nat \<times> nat \<times> (nat \<Rightarrow> nat)" where
  "numusehash t nums = numusehash_loop t (rev [0..<sizenode t]) 0 0 nums"

section \<open>Resizing and inserting\<close>

definition setarrayvector :: "Table \<Rightarrow> nat \<Rightarrow> Table" where
  "setarrayvector t sz = t\<lparr>arr := take sz (arr t) @ replicate (sz - length (arr t)) VNil\<rparr>"

definition setnodevector :: "Table \<Rightarrow> nat \<Rightarrow> table_error + Table" where
  "setnodevector t sz =
     (if sz = 0 then Inr (t\<lparr>node := [dummynode], is_dummy := True, lsizenode := 0, lastfree := 0\<rparr>)
      else let ls = luaO_ceillog2 (of_nat sz) in
        if ls > MAXBITS then Inl (RunError ''table overflow'')
        else Inr (t\<lparr>node := replicate (2 ^ ls) \<lparr>i_val = VNil, i_key = VNil, i_next = None\<rparr>,
                    is_dummy := False, lsizenode := ls, lastfree := 2 ^ ls\<rparr>))"

definition luaH_new :: Table where
  "luaH_new = \<lparr>arr = [], lsizenode = 0, node = [dummynode], is_dummy = True, lastfree = 0\<rparr>"

primrec getfreepos_loop :: "Table \<Rightarrow> nat \<Rightarrow> nat option \<times> nat" where
  "getfreepos_loop t 0 = (None, 0)"
| "getfreepos_loop t (Suc f) = (if gkey t f = VNil then (Some f, f) else getfreepos_loop t f)"

definition getfreepos :: "Table \<Rightarrow> nat option \<times> Table" where
  "getfreepos t = (case getfreepos_loop t (lastfree t) of (r, f) \<Rightarrow> (r, t\<lparr>lastfree := f\<rparr>))"

text \<open>The node before mp in the chain that starts at i.\<close>

primrec find_previous :: "nat \<Rightarrow> Table \<Rightarrow> nat \<Rightarrow> nat \<Rightarrow> table_error + nat" where
  "find_previous 0 t i mp = Inl ChainLoops"
| "find_previous (Suc fuel) t i mp =
     (case gnext t i of
        None \<Rightarrow> Inl NullNext
      | Some j \<Rightarrow> if j = mp then Inr i else find_previous fuel t j mp)"

definition set_next :: "Table \<Rightarrow> nat \<Rightarrow> nat option \<Rightarrow> Table" where
  "set_next t i x = t\<lparr>node := (node t)[i := (node t ! i)\<lparr>i_next := x\<rparr>]\<rparr>"

definition set_key :: "Table \<Rightarrow> nat \<Rightarrow> TValue \<Rightarrow> Table" where
  "set_key t i k = t\<lparr>node := (node t)[i := (node t ! i)\<lparr>i_key := k\<rparr>]\<rparr>"

text \<open>
  The insertion of a key when the free place is n, and mp the main position of the key: the table
  and the node the key goes to.
\<close>

definition insert_colliding :: "hashes \<Rightarrow> Table \<Rightarrow> nat \<Rightarrow> nat \<Rightarrow> table_error + Table \<times> nat" where
  "insert_colliding H t mp n =
     (let othern = mainposition H t (gkey t mp) in
      if othern \<noteq> mp then
        bindE (find_previous (sizenode t) t othern mp) (\<lambda>q.
          let t1 = set_next t q (Some n);
              t2 = t1\<lparr>node := (node t1)[n := node t1 ! mp]\<rparr>;
              t3 = set_next t2 mp None
          in Inr (setobj t3 (CNode mp) VNil, mp))
      else
        (let t1 = set_next t n (gnext t mp) in Inr (set_next t1 mp (Some n), n)))"

text \<open>
  rehash, luaH_resize, luaH_set, luaH_setint and luaH_newkey call each other; the fuel counts
  nested rehashes.
\<close>

primrec reinsert_array ::
  "(Table \<Rightarrow> int \<Rightarrow> TValue \<Rightarrow> table_error + Table) \<Rightarrow> TValue list \<Rightarrow> nat list \<Rightarrow> Table \<Rightarrow> table_error + Table" where
  "reinsert_array setint a [] t = Inr t"
| "reinsert_array setint a (i # is) t =
     (if a ! i \<noteq> VNil then bindE (setint t (int i + 1) (a ! i)) (reinsert_array setint a is)
      else reinsert_array setint a is t)"

primrec reinsert_nodes ::
  "(Table \<Rightarrow> TValue \<Rightarrow> table_error + Table \<times> cell) \<Rightarrow> Node list \<Rightarrow> nat list \<Rightarrow> Table \<Rightarrow> table_error + Table" where
  "reinsert_nodes set_fn ns [] t = Inr t"
| "reinsert_nodes set_fn ns (i # is) t =
     (if i_val (ns ! i) \<noteq> VNil then
        bindE (set_fn t (i_key (ns ! i))) (\<lambda>(t', c).
          reinsert_nodes set_fn ns is (setobj t' c (i_val (ns ! i))))
      else reinsert_nodes set_fn ns is t)"

definition setint_with ::
  "(Table \<Rightarrow> TValue \<Rightarrow> table_error + Table \<times> cell) \<Rightarrow> hashes \<Rightarrow> Table \<Rightarrow> int \<Rightarrow> TValue \<Rightarrow> table_error + Table" where
  "setint_with newkey H t key v = bindE (luaH_getint H t key) (\<lambda>c.
     bindE (if c \<noteq> CNilObject then Inr (t, c) else newkey t (VNum (NInt key))) (\<lambda>(t', c').
       Inr (setobj t' c' v)))"

definition set_with ::
  "(Table \<Rightarrow> TValue \<Rightarrow> table_error + Table \<times> cell) \<Rightarrow> hashes \<Rightarrow> Table \<Rightarrow> TValue \<Rightarrow> table_error + Table \<times> cell" where
  "set_with newkey H t key = bindE (luaH_get H t key) (\<lambda>c.
     if c \<noteq> CNilObject then Inr (t, c) else newkey t key)"

definition resize_with ::
  "(Table \<Rightarrow> TValue \<Rightarrow> table_error + Table \<times> cell) \<Rightarrow> hashes \<Rightarrow> Table \<Rightarrow> nat \<Rightarrow> nat \<Rightarrow> table_error + Table" where
  "resize_with newkey H t nasize nhsize =
     (let oldasize = sizearray t; nold = node t; olda = arr t;
          t1 = (if nasize > oldasize then setarrayvector t nasize else t)
      in bindE (setnodevector t1 nhsize) (\<lambda>t2.
         bindE (if nasize < oldasize
                then reinsert_array (setint_with newkey H) olda [nasize..<oldasize] (t2\<lparr>arr := take nasize olda\<rparr>)
                else Inr t2)
           (reinsert_nodes (set_with newkey H) nold (rev [0..<sizenode t]))))"

definition rehash_with ::
  "(Table \<Rightarrow> TValue \<Rightarrow> table_error + Table \<times> cell) \<Rightarrow> hashes \<Rightarrow> Table \<Rightarrow> TValue \<Rightarrow> table_error + Table" where
  "rehash_with newkey H t ek =
     (let (use_a, nums1) = numusearray t (\<lambda>_. 0);
          (use_h, ause, nums2) = numusehash t nums1;
          (c, nums3) = countint ek nums2;
          nasize = use_a + ause + c;
          totaluse = use_a + use_h + 1;
          (na, nasize') = computesizes nums3 nasize
      in resize_with newkey H t nasize' (totaluse - na))"

primrec luaH_newkey :: "nat \<Rightarrow> hashes \<Rightarrow> Table \<Rightarrow> TValue \<Rightarrow> table_error + Table \<times> cell" where
  "luaH_newkey 0 H t key = Inl NoRehashFuel"
| "luaH_newkey (Suc fuel) H t key =
     (if key = VNil then Inl (RunError ''table index is nil'')
      else if key = VNum NNaN then Inl (RunError ''table index is NaN'')
      else let mp = mainposition H t key in
        if gval t mp \<noteq> VNil \<or> is_dummy t then
          (case getfreepos t of
             (None, t1) \<Rightarrow> bindE (rehash_with (luaH_newkey fuel H) H t1 key) (\<lambda>t2.
                set_with (luaH_newkey fuel H) H t2 key)
           | (Some n, t1) \<Rightarrow> bindE (insert_colliding H t1 mp n) (\<lambda>(t2, i).
                Inr (set_key t2 i key, CNode i)))
        else Inr (set_key t mp key, CNode mp))"

definition luaH_set :: "nat \<Rightarrow> hashes \<Rightarrow> Table \<Rightarrow> TValue \<Rightarrow> table_error + Table \<times> cell" where
  "luaH_set fuel H = set_with (luaH_newkey fuel H) H"

definition luaH_setint :: "nat \<Rightarrow> hashes \<Rightarrow> Table \<Rightarrow> int \<Rightarrow> TValue \<Rightarrow> table_error + Table" where
  "luaH_setint fuel H = setint_with (luaH_newkey fuel H) H"

definition luaH_resize :: "nat \<Rightarrow> hashes \<Rightarrow> Table \<Rightarrow> nat \<Rightarrow> nat \<Rightarrow> table_error + Table" where
  "luaH_resize fuel H = resize_with (luaH_newkey fuel H) H"

definition luaH_resizearray :: "nat \<Rightarrow> hashes \<Rightarrow> Table \<Rightarrow> nat \<Rightarrow> table_error + Table" where
  "luaH_resizearray fuel H t nasize =
     luaH_resize fuel H t nasize (if is_dummy t then 0 else sizenode t)"

section \<open>The length of a table\<close>

definition getint_val :: "hashes \<Rightarrow> Table \<Rightarrow> nat \<Rightarrow> table_error + TValue" where
  "getint_val H t j = bindE (luaH_getint H t (int j)) (\<lambda>c. Inr (cell_val t c))"

primrec linear_search :: "nat \<Rightarrow> hashes \<Rightarrow> Table \<Rightarrow> nat \<Rightarrow> table_error + nat" where
  "linear_search 0 H t i = Inl SearchFuel"
| "linear_search (Suc fuel) H t i = bindE (getint_val H t i) (\<lambda>v.
     if v \<noteq> VNil then linear_search fuel H t (i + 1) else Inr (i - 1))"

text \<open>The doubling loop: the interval it ends with, or None when the bound overflows an int.\<close>

primrec unbound_double :: "nat \<Rightarrow> hashes \<Rightarrow> Table \<Rightarrow> nat \<Rightarrow> nat \<Rightarrow> table_error + (nat \<times> nat) option" where
  "unbound_double 0 H t i j = Inl SearchFuel"
| "unbound_double (Suc fuel) H t i j = bindE (getint_val H t j) (\<lambda>v.
     if v \<noteq> VNil then
       (let i = j; j = j * 2 in if j > 2 ^ 31 - 1 then Inr None else unbound_double fuel H t i j)
     else Inr (Some (i, j)))"

function unbound_binary :: "hashes \<Rightarrow> Table \<Rightarrow> nat \<Rightarrow> nat \<Rightarrow> table_error + nat" where
  "unbound_binary H t i j =
     (if j - i > 1 then
        (let m = (i + j) div 2 in bindE (getint_val H t m) (\<lambda>v.
           if v = VNil then unbound_binary H t i m else unbound_binary H t m j))
      else Inr i)"
  by pat_completeness auto
termination by (relation "measure (\<lambda>(H, t, i, j). j - i)") auto

declare unbound_binary.simps [simp del]

text \<open>32 doublings reach the int bound; the linear search takes fuel.\<close>

definition unbound_search :: "nat \<Rightarrow> hashes \<Rightarrow> Table \<Rightarrow> nat \<Rightarrow> table_error + nat" where
  "unbound_search fuel H t j = bindE (unbound_double 32 H t j (j + 1)) (\<lambda>r. case r of
       None \<Rightarrow> linear_search fuel H t 1
     | Some (i, j) \<Rightarrow> unbound_binary H t i j)"

function getn_binary :: "Table \<Rightarrow> nat \<Rightarrow> nat \<Rightarrow> nat" where
  "getn_binary t i j =
     (if j - i > 1 then
        (let m = (i + j) div 2 in
         if arr t ! (m - 1) = VNil then getn_binary t i m else getn_binary t m j)
      else i)"
  by pat_completeness auto
termination by (relation "measure (\<lambda>(t, i, j). j - i)") auto

declare getn_binary.simps [simp del]

definition luaH_getn :: "nat \<Rightarrow> hashes \<Rightarrow> Table \<Rightarrow> table_error + nat" where
  "luaH_getn fuel H t =
     (let j = sizearray t in
      if j > 0 \<and> arr t ! (j - 1) = VNil then Inr (getn_binary t 0 j)
      else if is_dummy t then Inr j
      else unbound_search fuel H t j)"

section \<open>The invariant of the hash part\<close>

definition used :: "Table \<Rightarrow> nat set" where
  "used t = {i. i < sizenode t \<and> gkey t i \<noteq> VNil}"

definition linked :: "Table \<Rightarrow> (nat \<times> nat) set" where
  "linked t = {(i, j). i < sizenode t \<and> gnext t i = Some j}"

text \<open>
  The shape of the chains: links stay inside the vector, no node has two predecessors, there is no
  cycle (some rank grows along every link), and an unused node is not in a chain.
\<close>

definition chains_ok :: "Table \<Rightarrow> bool" where
  "chains_ok t \<longleftrightarrow>
     length (node t) = sizenode t \<and>
     (\<forall>i j. (i, j) \<in> linked t \<longrightarrow> j < sizenode t) \<and>
     (\<forall>i i' j. (i, j) \<in> linked t \<longrightarrow> (i', j) \<in> linked t \<longrightarrow> i = i') \<and>
     (\<exists>r :: nat \<Rightarrow> nat. \<forall>i j. (i, j) \<in> linked t \<longrightarrow> r i < r j) \<and>
     (\<forall>i < sizenode t. gkey t i = VNil \<longrightarrow>
        gval t i = VNil \<and> gnext t i = None \<and> (\<forall>j. (j, i) \<notin> linked t))"

text \<open>
  The keys: each used node is reachable from the main position of its key; a node whose key is out
  of its main position is the main position of no key; keys are distinct, none is a NaN, and none
  belongs to the array part.
\<close>

definition keys_ok :: "hashes \<Rightarrow> Table \<Rightarrow> bool" where
  "keys_ok H t \<longleftrightarrow>
     (\<forall>i \<in> used t. (mainposition H t (gkey t i), i) \<in> (linked t)\<^sup>*) \<and>
     (\<forall>i \<in> used t. \<forall>j \<in> used t. mainposition H t (gkey t i) \<noteq> i \<longrightarrow> mainposition H t (gkey t j) \<noteq> i) \<and>
     inj_on (gkey t) (used t) \<and>
     (\<forall>i \<in> used t. gkey t i \<noteq> VNum NNaN) \<and>
     (\<forall>i \<in> used t. \<forall>k. gkey t i = VNum (NInt k) \<longrightarrow> \<not> (1 \<le> k \<and> k \<le> int (sizearray t)))"

text \<open>The free pointer: every node from lastfree on is used.\<close>

definition free_ok :: "Table \<Rightarrow> bool" where
  "free_ok t \<longleftrightarrow> lsizenode t \<le> MAXBITS \<and> lastfree t \<le> sizenode t \<and>
     (if is_dummy t then node t = [dummynode] \<and> lastfree t = 0 \<and> lsizenode t = 0
      else (\<forall>i. lastfree t \<le> i \<longrightarrow> i < sizenode t \<longrightarrow> gkey t i \<noteq> VNil))"

definition table_ok :: "hashes \<Rightarrow> Table \<Rightarrow> bool" where
  "table_ok H t \<longleftrightarrow> chains_ok t \<and> keys_ok H t \<and> free_ok t"

lemma table_okD:
  assumes "table_ok H t"
  shows "chains_ok t" "keys_ok H t" "free_ok t" "length (node t) = sizenode t"
  using assms by (auto simp: table_ok_def chains_ok_def)

subsection \<open>Main positions\<close>

lemma sizenode_pos [simp]: "0 < sizenode t"
  by (simp add: sizenode_def)

lemma hashmod_less: "hashmod t n < sizenode t"
proof (cases "lsizenode t")
  case 0
  then show ?thesis by (simp add: hashmod_def sizenode_def)
next
  case (Suc l)
  have "odd (sizenode t - 1)" by (simp add: sizenode_def Suc)
  then have o: "(sizenode t - 1) OR 1 = sizenode t - 1" unfolding or_one_eq by simp
  have "0 < sizenode t - 1"
  proof -
    have "1 \<le> (2 :: nat) ^ l" by simp
    then show ?thesis unfolding sizenode_def Suc power_Suc by linarith
  qed
  then have "n mod (sizenode t - 1) < sizenode t - 1" by (rule mod_less_divisor)
  then show ?thesis unfolding hashmod_def o by linarith
qed

lemma hashpow2_less:
  assumes "lsizenode t \<le> 30"
  shows "hashpow2 t n < sizenode t"
proof -
  have "(of_nat (sizenode t) - 1 :: uint32) = mask (lsizenode t)"
    by (simp add: sizenode_def mask_eq_exp_minus_1)
  then have "hashpow2 t n = unat (take_bit (lsizenode t) n)"
    by (simp add: hashpow2_def take_bit_eq_mask)
  also have "\<dots> < 2 ^ lsizenode t" by (simp add: unsigned_take_bit_eq)
  finally show ?thesis by (simp add: sizenode_def)
qed

lemma mainposition_less: "lsizenode t \<le> MAXBITS \<Longrightarrow> mainposition H t k < sizenode t"
  by (auto simp: mainposition_def hashnum_def Let_def hashmod_less hashpow2_less MAXBITS_def split: TValue.splits)

lemma mainposition_cong:
  "lsizenode t = lsizenode t' \<Longrightarrow> mainposition H t k = mainposition H t' k"
  by (simp add: mainposition_def hashnum_def hashmod_def hashpow2_def sizenode_def Let_def split: TValue.splits)

subsection \<open>Searching a chain\<close>

text \<open>
  With a rank, a chain visits each node at most once: the ranks already passed (a set V below i)
  and the fuel left make up at least the number of nodes.
\<close>

lemma chain_search_step:
  assumes ok: "\<forall>i j. (i, j) \<in> linked t \<longrightarrow> j < sizenode t \<and> (r i :: nat) < r j"
  shows "i < sizenode t \<Longrightarrow> V \<subseteq> {..<sizenode t} \<Longrightarrow> \<forall>v\<in>V. r v < r i \<Longrightarrow> sizenode t \<le> card V + fuel \<Longrightarrow>
    (\<exists>j. chain_search fuel t P i = Inr (Some j) \<and> (i, j) \<in> (linked t)\<^sup>* \<and> P (gkey t j)) \<or>
    (chain_search fuel t P i = Inr None \<and> (\<forall>j. (i, j) \<in> (linked t)\<^sup>* \<longrightarrow> \<not> P (gkey t j)))"
proof (induction fuel arbitrary: i V)
  case 0
  have "i \<notin> V" using 0(3) by auto
  then have "V \<subset> {..<sizenode t}" using 0(1,2) by blast
  then have "card V < sizenode t" using psubset_card_mono [of "{..<sizenode t}" V] by simp
  with 0 show ?case by simp
next
  case (Suc fuel)
  show ?case
  proof (cases "P (gkey t i)")
    case True
    then show ?thesis by auto
  next
    case False
    show ?thesis
    proof (cases "gnext t i")
      case None
      then have "(i, j) \<in> (linked t)\<^sup>* \<Longrightarrow> j = i" for j
        by (auto elim: converse_rtranclE simp: linked_def)
      with False None show ?thesis by auto
    next
      case (Some k)
      have ik: "(i, k) \<in> linked t" using Some Suc.prems(1) by (simp add: linked_def)
      have "i \<notin> V" using Suc.prems(3) by auto
      moreover have "finite V" using Suc.prems(2) finite_subset by blast
      ultimately have "sizenode t \<le> card (insert i V) + fuel" using Suc.prems(4) by simp
      moreover have "\<forall>v\<in>insert i V. r v < r k" using ok ik Suc.prems(3) by (metis insert_iff less_trans)
      moreover have "insert i V \<subseteq> {..<sizenode t}" "k < sizenode t" using Suc.prems(1,2) ok ik by auto
      ultimately have IH: "(\<exists>j. chain_search fuel t P k = Inr (Some j) \<and> (k, j) \<in> (linked t)\<^sup>* \<and> P (gkey t j)) \<or>
        (chain_search fuel t P k = Inr None \<and> (\<forall>j. (k, j) \<in> (linked t)\<^sup>* \<longrightarrow> \<not> P (gkey t j)))"
        using Suc.IH by blast
      have split: "(i, j) \<in> (linked t)\<^sup>* \<Longrightarrow> j = i \<or> (k, j) \<in> (linked t)\<^sup>*" for j
        using Some by (auto elim: converse_rtranclE simp: linked_def)
      from IH ik False Some split show ?thesis
        by (auto intro: converse_rtrancl_into_rtrancl)
    qed
  qed
qed

lemma chain_search_correct:
  assumes "chains_ok t" "i < sizenode t"
  obtains (found) j where "chain_search (sizenode t) t P i = Inr (Some j)" "(i, j) \<in> (linked t)\<^sup>*" "P (gkey t j)"
    | (missing) "chain_search (sizenode t) t P i = Inr None" "\<And>j. (i, j) \<in> (linked t)\<^sup>* \<Longrightarrow> \<not> P (gkey t j)"
proof -
  obtain r :: "nat \<Rightarrow> nat" where "\<forall>i j. (i, j) \<in> linked t \<longrightarrow> j < sizenode t \<and> r i < r j"
    using assms(1) by (auto simp: chains_ok_def)
  from chain_search_step [OF this assms(2), of "{}" "sizenode t" P] that show thesis by auto
qed

lemma linked_less:
  assumes "chains_ok t" "i < sizenode t" "(i, j) \<in> (linked t)\<^sup>*"
  shows "j < sizenode t"
  using assms(3,2) by (induction rule: rtrancl_induct) (use assms(1) in \<open>auto simp: chains_ok_def\<close>)

text \<open>On a table that satisfies the invariant, a search finds the node with the key, or there is none.\<close>

lemma search_key:
  assumes ok: "table_ok H t" and k: "k \<noteq> VNil" "k \<noteq> VNum NNaN"
  shows "chain_search (sizenode t) t (\<lambda>x. x = k) (mainposition H t k) =
    Inr (if \<exists>i \<in> used t. gkey t i = k then Some (THE i. i \<in> used t \<and> gkey t i = k) else None)"
proof -
  have mp: "mainposition H t k < sizenode t"
    using ok by (intro mainposition_less) (simp add: table_ok_def free_ok_def)
  have the: "(THE i. i \<in> used t \<and> gkey t i = k) = j" if "j \<in> used t" "gkey t j = k" for j
    using that table_okD(2) [OF ok] by (intro the_equality) (auto simp: keys_ok_def inj_on_def)
  show ?thesis
  proof (rule chain_search_correct [OF table_okD(1) [OF ok] mp, of "\<lambda>x. x = k"])
    fix j
    assume j: "chain_search (sizenode t) t (\<lambda>x. x = k) (mainposition H t k) = Inr (Some j)"
      "(mainposition H t k, j) \<in> (linked t)\<^sup>*" "gkey t j = k"
    then have "j \<in> used t" using linked_less [OF table_okD(1) [OF ok] mp] k by (simp add: used_def)
    with j the show ?thesis by auto
  next
    assume n: "chain_search (sizenode t) t (\<lambda>x. x = k) (mainposition H t k) = Inr None"
      "\<And>j. (mainposition H t k, j) \<in> (linked t)\<^sup>* \<Longrightarrow> gkey t j \<noteq> k"
    then have "\<not> (\<exists>i \<in> used t. gkey t i = k)"
      using table_okD(2) [OF ok] by (auto simp: keys_ok_def)
    with n(1) show ?thesis by simp
  qed
qed

subsection \<open>Reading a key\<close>

definition in_array :: "Table \<Rightarrow> TValue \<Rightarrow> bool" where
  "in_array t k \<longleftrightarrow> (\<exists>i. k = VNum (NInt i) \<and> 1 \<le> i \<and> i \<le> int (sizearray t))"

definition valid_key :: "TValue \<Rightarrow> bool" where
  "valid_key k \<longleftrightarrow> k \<noteq> VNil \<and> k \<noteq> VNum NNaN"

definition the_node :: "Table \<Rightarrow> TValue \<Rightarrow> nat" where
  "the_node t k = (THE i. i \<in> used t \<and> gkey t i = k)"

definition cell_of :: "Table \<Rightarrow> TValue \<Rightarrow> cell" where
  "cell_of t k =
     (if in_array t k then CArr (nat (arrayindex k - 1))
      else if valid_key k \<and> (\<exists>i \<in> used t. gkey t i = k) then CNode (the_node t k)
      else CNilObject)"

lemma search_cell_key:
  assumes "table_ok H t" "valid_key k" "\<not> in_array t k"
  shows "search_cell (chain_search (sizenode t) t (\<lambda>x. x = k) (mainposition H t k)) = Inr (cell_of t k)"
  using search_key [OF assms(1), of k] assms(2,3)
  by (auto simp: search_cell_def cell_of_def valid_key_def the_node_def)

lemma luaH_getint_cell:
  assumes "table_ok H t"
  shows "luaH_getint H t k = Inr (cell_of t (VNum (NInt k)))"
proof (cases "in_array t (VNum (NInt k))")
  case True
  then show ?thesis by (simp add: luaH_getint_def cell_of_def in_array_def arrayindex_def)
next
  case False
  then have "\<not> (1 \<le> k \<and> k \<le> int (sizearray t))" by (simp add: in_array_def)
  moreover have "hashnum H t (NInt k) = mainposition H t (VNum (NInt k))" by (simp add: mainposition_def)
  ultimately show ?thesis
    using search_cell_key [OF assms _ False] by (auto simp: luaH_getint_def valid_key_def)
qed

lemma luaH_get_cell:
  assumes ok: "table_ok H t"
  shows "luaH_get H t k = Inr (cell_of t k)"
proof -
  consider "k = VNil" | s where "k = VShrStr s" | i where "k = VNum (NInt i)" | "k = VNum NNaN"
    | "valid_key k" "\<not> in_array t k" "luaH_get H t k = get_generic H t k"
  proof (cases k)
    case (VNum n)
    with that show thesis by (cases n) (auto simp: valid_key_def in_array_def luaH_get_def)
  qed (use that in \<open>auto simp: valid_key_def in_array_def luaH_get_def\<close>)
  then show ?thesis
  proof cases
    case 1
    then show ?thesis by (simp add: luaH_get_def cell_of_def in_array_def valid_key_def)
  next
    case (2 s)
    then have "\<not> in_array t k" "valid_key k" "hashpow2 t (h_str H s) = mainposition H t k"
      by (simp_all add: in_array_def valid_key_def mainposition_def)
    with 2 search_cell_key [OF ok, of k] show ?thesis by (simp add: luaH_get_def luaH_getstr_def)
  next
    case 3
    then show ?thesis using luaH_getint_cell [OF ok] by (simp add: luaH_get_def)
  next
    case 4
    have "lsizenode t \<le> MAXBITS" using ok by (simp add: table_ok_def free_ok_def)
    then have "mainposition H t k < sizenode t" by (rule mainposition_less)
    then have "chain_search (sizenode t) t (\<lambda>x. rawequal x k) (mainposition H t k) = Inr None"
      using chain_search_correct [OF table_okD(1) [OF ok], of _ "\<lambda>x. rawequal x k"] 4
      by (metis rawequal_def)
    with 4 show ?thesis
      by (simp add: luaH_get_def get_generic_def search_cell_def cell_of_def in_array_def valid_key_def)
  next
    case 5
    then have "(\<lambda>x. rawequal x k) = (\<lambda>x. x = k)" by (auto simp: rawequal_def valid_key_def)
    with 5 search_cell_key [OF ok, of k] show ?thesis by (simp add: get_generic_def)
  qed
qed

subsection \<open>Updates of one node\<close>

lemma upd_simps [simp]:
  "sizenode (set_key t i k) = sizenode t" "sizenode (set_next t i x) = sizenode t"
  "sizearray (set_key t i k) = sizearray t" "sizearray (set_next t i x) = sizearray t"
  "arr (set_key t i k) = arr t" "arr (set_next t i x) = arr t"
  "lsizenode (set_key t i k) = lsizenode t" "lsizenode (set_next t i x) = lsizenode t"
  "lastfree (set_key t i k) = lastfree t" "lastfree (set_next t i x) = lastfree t"
  "is_dummy (set_key t i k) = is_dummy t" "is_dummy (set_next t i x) = is_dummy t"
  "length (node (set_key t i k)) = length (node t)" "length (node (set_next t i x)) = length (node t)"
  by (simp_all add: set_key_def set_next_def sizenode_def sizearray_def)

lemma setobj_simps [simp]:
  "sizenode (setobj t c v) = sizenode t" "sizearray (setobj t c v) = sizearray t"
  "lsizenode (setobj t c v) = lsizenode t" "lastfree (setobj t c v) = lastfree t"
  "is_dummy (setobj t c v) = is_dummy t" "length (node (setobj t c v)) = length (node t)"
  by (simp_all add: setobj_def sizenode_def sizearray_def split: cell.splits)

lemma lastfree_simps [simp]:
  "sizenode (t\<lparr>lastfree := f\<rparr>) = sizenode t" "sizearray (t\<lparr>lastfree := f\<rparr>) = sizearray t"
  "gkey (t\<lparr>lastfree := f\<rparr>) = gkey t" "gval (t\<lparr>lastfree := f\<rparr>) = gval t" "gnext (t\<lparr>lastfree := f\<rparr>) = gnext t"
  by (auto simp: sizenode_def gkey_def gval_def gnext_def sizearray_def fun_eq_iff)

lemma get_set_key [simp]:
  "i < length (node t) \<Longrightarrow> gkey (set_key t i k) j = (if j = i then k else gkey t j)"
  "i < length (node t) \<Longrightarrow> gval (set_key t i k) j = gval t j"
  "i < length (node t) \<Longrightarrow> gnext (set_key t i k) j = gnext t j"
  by (auto simp: set_key_def gkey_def gval_def gnext_def nth_list_update)

lemma get_set_next [simp]:
  "i < length (node t) \<Longrightarrow> gkey (set_next t i x) j = gkey t j"
  "i < length (node t) \<Longrightarrow> gval (set_next t i x) j = gval t j"
  "i < length (node t) \<Longrightarrow> gnext (set_next t i x) j = (if j = i then x else gnext t j)"
  by (auto simp: set_next_def gkey_def gval_def gnext_def nth_list_update)

lemma get_setobj [simp]:
  "i < length (node t) \<Longrightarrow> gkey (setobj t (CNode i) v) j = gkey t j"
  "i < length (node t) \<Longrightarrow> gval (setobj t (CNode i) v) j = (if j = i then v else gval t j)"
  "i < length (node t) \<Longrightarrow> gnext (setobj t (CNode i) v) j = gnext t j"
  "arr (setobj t (CNode i) v) = arr t"
  "gkey (setobj t (CArr i) v) j = gkey t j"
  "gval (setobj t (CArr i) v) j = gval t j"
  "gnext (setobj t (CArr i) v) j = gnext t j"
  by (auto simp: setobj_def gkey_def gval_def gnext_def nth_list_update)

lemma mainposition_upd [simp]:
  "mainposition H (set_key t i k) x = mainposition H t x"
  "mainposition H (set_next t i y) x = mainposition H t x"
  "mainposition H (setobj t c v) x = mainposition H t x"
  "mainposition H (t\<lparr>lastfree := f\<rparr>) x = mainposition H t x"
  "mainposition H (t\<lparr>node := ns\<rparr>) x = mainposition H t x"
  by (rule mainposition_cong; simp)+

subsection \<open>Inserting a fresh key\<close>

definition hash_entries :: "Table \<Rightarrow> (TValue \<times> TValue) set" where
  "hash_entries t = {(gkey t i, gval t i) |i. i < sizenode t \<and> gval t i \<noteq> VNil}"

text \<open>
  inserted H t key t' i: t' is t with a node i for the new key, whose value is still nil; the other
  entries are the same.
\<close>

definition inserted :: "hashes \<Rightarrow> Table \<Rightarrow> TValue \<Rightarrow> Table \<Rightarrow> nat \<Rightarrow> bool" where
  "inserted H t key t' i \<longleftrightarrow>
     table_ok H t' \<and> i < sizenode t \<and> gkey t' i = key \<and> gval t' i = VNil \<and>
     hash_entries t' = hash_entries t \<and> arr t' = arr t \<and> lsizenode t' = lsizenode t \<and>
     \<not> is_dummy t' \<and> card (used t') \<le> Suc (card (used t))"

text \<open>What the insertions need of the table: the key is valid, new, and not of the array part.\<close>

definition insertable :: "hashes \<Rightarrow> Table \<Rightarrow> TValue \<Rightarrow> bool" where
  "insertable H t key \<longleftrightarrow> table_ok H t \<and> valid_key key \<and> \<not> in_array t key \<and> (\<forall>i \<in> used t. gkey t i \<noteq> key)"

lemma finite_used [simp]: "finite (used t)"
  by (simp add: used_def)

lemma keys_okD:
  assumes "keys_ok H t" "i \<in> used t"
  shows "(mainposition H t (gkey t i), i) \<in> (linked t)\<^sup>*"
    and "mainposition H t (gkey t i) \<noteq> i \<Longrightarrow> j \<in> used t \<Longrightarrow> mainposition H t (gkey t j) \<noteq> i"
    and "j \<in> used t \<Longrightarrow> gkey t i = gkey t j \<Longrightarrow> i = j"
    and "gkey t i \<noteq> VNum NNaN"
    and "\<not> in_array t (gkey t i)"
  using assms by (auto simp: keys_ok_def inj_on_def in_array_def)

lemma keys_okI:
  assumes "\<And>i. i \<in> used t \<Longrightarrow> (mainposition H t (gkey t i), i) \<in> (linked t)\<^sup>*"
    and "\<And>i j. i \<in> used t \<Longrightarrow> j \<in> used t \<Longrightarrow> mainposition H t (gkey t i) \<noteq> i \<Longrightarrow> mainposition H t (gkey t j) \<noteq> i"
    and "\<And>i j. i \<in> used t \<Longrightarrow> j \<in> used t \<Longrightarrow> gkey t i = gkey t j \<Longrightarrow> i = j"
    and "\<And>i. i \<in> used t \<Longrightarrow> gkey t i \<noteq> VNum NNaN \<and> \<not> in_array t (gkey t i)"
  shows "keys_ok H t"
  using assms by (auto simp: keys_ok_def inj_on_def in_array_def)

lemma chains_okD:
  assumes "chains_ok t"
  shows "length (node t) = sizenode t"
    and "(i, j) \<in> linked t \<Longrightarrow> j < sizenode t"
    and "(i, j) \<in> linked t \<Longrightarrow> (i', j) \<in> linked t \<Longrightarrow> i = i'"
    and "i < sizenode t \<Longrightarrow> gkey t i = VNil \<Longrightarrow> gval t i = VNil"
    and "i < sizenode t \<Longrightarrow> gkey t i = VNil \<Longrightarrow> gnext t i = None"
    and "i < sizenode t \<Longrightarrow> gkey t i = VNil \<Longrightarrow> (j, i) \<notin> linked t"
  using assms unfolding chains_ok_def by blast+

lemma unused_unlinked: "chains_ok t \<Longrightarrow> i \<notin> used t \<Longrightarrow> (i, j) \<notin> linked t"
  using chains_okD(5) [of t i] by (auto simp: used_def linked_def)

lemma in_array_cong: "sizearray t = sizearray t' \<Longrightarrow> in_array t = in_array t'"
  by (auto simp: in_array_def fun_eq_iff)

lemma insert_main:
  assumes ins: "insertable H t key" and mp: "mp = mainposition H t key"
    and free: "gval t mp = VNil" "\<not> is_dummy t"
  shows "inserted H t key (set_key t mp key) mp"
proof -
  let ?t = "set_key t mp key"
  from ins have ok: "chains_ok t" "keys_ok H t" "free_ok t" and vk: "valid_key key" "\<not> in_array t key"
    and new: "\<And>i. i \<in> used t \<Longrightarrow> gkey t i \<noteq> key"
    by (auto simp: insertable_def table_ok_def)
  have lt: "mp < sizenode t" "mp < length (node t)"
    using ok mainposition_less [of t H key] by (simp_all add: free_ok_def mp chains_okD(1))
  have lk: "linked ?t = linked t" by (simp add: linked_def lt)
  have us: "used ?t = insert mp (used t)" using vk(1) lt by (auto simp: used_def valid_key_def)
  have "chains_ok ?t"
    using ok(1) vk(1) unfolding chains_ok_def lk by (auto simp: lt valid_key_def)
  moreover have "keys_ok H ?t"
  proof (rule keys_okI)
    fix i assume "i \<in> used ?t"
    then show "(mainposition H ?t (gkey ?t i), i) \<in> (linked ?t)\<^sup>*"
      and "gkey ?t i \<noteq> VNum NNaN \<and> \<not> in_array ?t (gkey ?t i)"
      using keys_okD [OF ok(2)] vk in_array_cong [of ?t t] by (auto simp: us lk lt mp [symmetric] valid_key_def)
  next
    fix i j assume ij: "i \<in> used ?t" "j \<in> used ?t"
    show "mainposition H ?t (gkey ?t i) \<noteq> i \<Longrightarrow> mainposition H ?t (gkey ?t j) \<noteq> i"
      using ij keys_okD(2) [OF ok(2), of i j] by (auto simp: us lt mp [symmetric] split: if_splits)
    show "gkey ?t i = gkey ?t j \<Longrightarrow> i = j"
      using ij keys_okD(3) [OF ok(2), of i j] new by (auto simp: us lt split: if_splits)
  qed
  moreover have "free_ok ?t" using ok(3) free(2) vk(1) by (auto simp: free_ok_def lt valid_key_def)
  moreover have "hash_entries ?t = hash_entries t" using free(1) by (auto simp: hash_entries_def lt)
  ultimately show ?thesis
    using lt free card_insert_le_m1 [of "Suc (card (used t))" "used t" mp]
    by (simp add: inserted_def table_ok_def us card_insert_if)
qed

text \<open>A free node found by getfreepos: unused, and every node above it is used.\<close>

definition free_node :: "Table \<Rightarrow> nat \<Rightarrow> bool" where
  "free_node t n \<longleftrightarrow> n < sizenode t \<and> gkey t n = VNil \<and> \<not> is_dummy t \<and>
     (\<forall>i. n < i \<longrightarrow> i < sizenode t \<longrightarrow> gkey t i \<noteq> VNil)"

lemma getfreepos_loop_Some:
  "getfreepos_loop t f = (Some n, f') \<Longrightarrow>
     f' = n \<and> n < f \<and> gkey t n = VNil \<and> (\<forall>i. n < i \<longrightarrow> i < f \<longrightarrow> gkey t i \<noteq> VNil)"
  by (induction f) (auto split: if_splits simp: less_Suc_eq)

lemma getfreepos_loop_None:
  "getfreepos_loop t f = (None, f') \<Longrightarrow> \<forall>i < f. gkey t i \<noteq> VNil"
  by (induction f) (auto split: if_splits simp: less_Suc_eq)

lemma getfreepos_Some:
  assumes "free_ok t" "getfreepos t = (Some n, t')"
  shows "t' = t\<lparr>lastfree := n\<rparr>" "free_node t n"
proof -
  obtain f where f: "getfreepos_loop t (lastfree t) = (Some n, f)" "t' = t\<lparr>lastfree := f\<rparr>"
    using assms(2) by (auto simp: getfreepos_def split: prod.splits)
  from getfreepos_loop_Some [OF f(1)] have n: "f = n" "n < lastfree t" "gkey t n = VNil"
    "\<And>i. n < i \<Longrightarrow> i < lastfree t \<Longrightarrow> gkey t i \<noteq> VNil" by auto
  show "t' = t\<lparr>lastfree := n\<rparr>" using f n by simp
  have "\<not> is_dummy t" using assms(1) n(2) by (auto simp: free_ok_def)
  with assms(1) n show "free_node t n" unfolding free_node_def free_ok_def by (metis leI less_le_trans)
qed

lemma getfreepos_None:
  assumes "free_ok t" "getfreepos t = (None, t')" "\<not> is_dummy t"
  shows "used t = {..<sizenode t}"
proof -
  have "\<forall>i < lastfree t. gkey t i \<noteq> VNil"
    using assms(2) getfreepos_loop_None by (auto simp: getfreepos_def split: prod.splits)
  with assms(1,3) show ?thesis by (auto simp: free_ok_def used_def) (metis leI)
qed

lemma insert_chained:
  assumes ins: "insertable H t key" and mp: "mp = mainposition H t key" and taken: "gval t mp \<noteq> VNil"
    and n: "free_node t n" and own: "mainposition H t (gkey t mp) = mp"
  shows "inserted H t key
    (set_key (set_next (set_next (t\<lparr>lastfree := n\<rparr>) n (gnext t mp)) mp (Some n)) n key) n"
proof -
  let ?s = "t\<lparr>lastfree := n\<rparr>"
  let ?t = "set_key (set_next (set_next ?s n (gnext t mp)) mp (Some n)) n key"
  from ins have ok: "chains_ok t" "keys_ok H t" "free_ok t" and vk: "valid_key key" "\<not> in_array t key"
    and new: "\<And>i. i \<in> used t \<Longrightarrow> gkey t i \<noteq> key"
    by (auto simp: insertable_def table_ok_def)
  have lt: "mp < sizenode t" "n < sizenode t" "mp < length (node t)" "n < length (node t)"
    using ok n mainposition_less [of t H key] by (simp_all add: free_ok_def free_node_def mp chains_okD(1))
  have mu: "mp \<in> used t" using chains_okD(4) [OF ok(1) lt(1)] taken lt(1) by (auto simp: used_def)
  have nu: "n \<notin> used t" "gkey t n = VNil" using n by (auto simp: used_def free_node_def)
  then have ne: "mp \<noteq> n" using mu by auto
  have key': "gkey ?t j = (if j = n then key else gkey t j)" and val': "gval ?t j = gval t j"
    and next': "gnext ?t j = (if j = mp then Some n else if j = n then gnext t mp else gnext t j)" for j
    using lt by simp_all
  have sz: "sizenode ?t = sizenode t" by simp
  have main': "mainposition H ?t = mainposition H t" by (simp add: fun_eq_iff)
  have iso: "(n, j) \<notin> linked t" "(j, n) \<notin> linked t" for j
    using unused_unlinked [OF ok(1) nu(1)] chains_okD(6) [OF ok(1) lt(2) nu(2)] by auto
  have lk: "(i, j) \<in> linked ?t \<longleftrightarrow>
      i = mp \<and> j = n \<or> i = n \<and> (mp, j) \<in> linked t \<or> i \<noteq> mp \<and> i \<noteq> n \<and> (i, j) \<in> linked t" for i j
    unfolding linked_def mem_Collect_eq prod.case next' sz using lt ne by auto
  have "(i, j) \<in> (linked ?t)\<^sup>*" if "(i, j) \<in> linked t" for i j
  proof (cases "i = mp")
    case True
    then have "(mp, n) \<in> linked ?t" "(n, j) \<in> linked ?t" using that lk ne by auto
    with True show ?thesis by (meson converse_rtrancl_into_rtrancl r_into_rtrancl)
  next
    case False
    with that iso have "(i, j) \<in> linked ?t" unfolding lk by auto
    then show ?thesis by blast
  qed
  then have star: "(linked t)\<^sup>* \<subseteq> (linked ?t)\<^sup>*" by (intro rtrancl_subset_rtrancl) auto
  have us: "used ?t = insert n (used t)"
    using vk(1) lt by (auto simp: used_def key' sz valid_key_def)
  obtain r :: "nat \<Rightarrow> nat" where r: "\<And>i j. (i, j) \<in> linked t \<Longrightarrow> r i < r j"
    using ok(1) by (auto simp: chains_ok_def)
  let ?r = "\<lambda>i. if i = n then 2 * r mp + 1 else 2 * r i"
  have "?r i < ?r j" if ij: "(i, j) \<in> linked ?t" for i j
  proof -
    from ij consider "i = mp" "j = n" | "i = n" "(mp, j) \<in> linked t" | "i \<noteq> n" "(i, j) \<in> linked t"
      unfolding lk by blast
    then show ?thesis
    proof cases
      case 2
      from 2(2) iso have "j \<noteq> n" by blast
      with 2 r [OF 2(2)] show ?thesis by simp
    next
      case 3
      from 3(2) iso have "j \<noteq> n" by blast
      with 3 r [OF 3(2)] show ?thesis by simp
    qed (use ne in simp)
  qed
  then have rank: "\<exists>r :: nat \<Rightarrow> nat. \<forall>i j. (i, j) \<in> linked ?t \<longrightarrow> r i < r j"
    by (intro exI [of _ ?r]) blast
  have len: "length (node ?t) = sizenode ?t" using ok(1) by (simp add: chains_ok_def)
  have bound: "j < sizenode ?t" if "(i, j) \<in> linked ?t" for i j
    using that chains_okD(2) [OF ok(1)] lt(2) unfolding lk sz by blast
  have uniq: "i = i'" if "(i, j) \<in> linked ?t" "(i', j) \<in> linked ?t" for i i' j
    using that chains_okD(3) [OF ok(1)] iso unfolding lk by metis
  have "gval ?t i = VNil \<and> gnext ?t i = None \<and> (\<forall>j. (j, i) \<notin> linked ?t)"
    if i: "i < sizenode ?t" "gkey ?t i = VNil" for i
  proof -
    have "i \<noteq> n" "gkey t i = VNil" using i(2) vk(1) by (auto simp: key' valid_key_def split: if_splits)
    moreover from this have "i \<noteq> mp" using mu by (auto simp: used_def)
    ultimately show ?thesis
      using i(1) chains_okD(4,5,6) [OF ok(1), of i] unfolding lk val' next' sz by auto
  qed
  then have "chains_ok ?t" unfolding chains_ok_def using len bound uniq rank by blast
  moreover have "keys_ok H ?t"
  proof (rule keys_okI)
    fix i assume i: "i \<in> used ?t"
    show "(mainposition H ?t (gkey ?t i), i) \<in> (linked ?t)\<^sup>*"
    proof (cases "i = n")
      case True
      have "(mp, n) \<in> linked ?t" by (simp add: lk)
      with True show ?thesis by (auto simp: key' main' mp [symmetric])
    next
      case False
      with i have "i \<in> used t" by (simp add: us)
      from keys_okD(1) [OF ok(2) this] star False show ?thesis by (auto simp: key' main')
    qed
    show "gkey ?t i \<noteq> VNum NNaN \<and> \<not> in_array ?t (gkey ?t i)"
      using i keys_okD(4,5) [OF ok(2)] vk in_array_cong [of ?t t]
      by (auto simp: us key' valid_key_def)
  next
    fix i j assume ij: "i \<in> used ?t" "j \<in> used ?t"
    have nomain: "mainposition H t (gkey t k) \<noteq> n" if "k \<in> used t" for k
    proof
      assume "mainposition H t (gkey t k) = n"
      with keys_okD(1) [OF ok(2) that] have "(n, k) \<in> (linked t)\<^sup>*" by simp
      then have "k = n" by (rule converse_rtranclE) (use iso in auto)
      with that nu show False by simp
    qed
    show "mainposition H ?t (gkey ?t i) \<noteq> i \<Longrightarrow> mainposition H ?t (gkey ?t j) \<noteq> i"
      using ij keys_okD(2) [OF ok(2), of i j] nomain own ne
      by (auto simp: us key' main' mp [symmetric] split: if_splits)
    show "gkey ?t i = gkey ?t j \<Longrightarrow> i = j"
      using ij keys_okD(3) [OF ok(2), of i j] new by (auto simp: us key' split: if_splits)
  qed
  moreover have "free_ok ?t"
    using ok(3) n vk(1) by (auto simp: free_ok_def free_node_def key' valid_key_def le_eq_less_or_eq)
  moreover have "hash_entries ?t = hash_entries t"
    using chains_okD(4) [OF ok(1) lt(2) nu(2)] by (auto simp: hash_entries_def key' val' sz)
  moreover have "gval ?t n = VNil" using chains_okD(4) [OF ok(1) lt(2) nu(2)] by (simp only: val')
  moreover have "gkey ?t n = key" by (simp only: key' refl if_True)
  ultimately show ?thesis
    using lt n unfolding inserted_def table_ok_def us by (simp add: card_insert_if free_node_def)
qed

text \<open>The predecessor that the loop of luaH_newkey looks for.\<close>

lemma find_previous_step:
  assumes ok: "\<forall>i j. (i, j) \<in> linked t \<longrightarrow> j < sizenode t \<and> (r i :: nat) < r j"
  shows "i < sizenode t \<Longrightarrow> V \<subseteq> {..<sizenode t} \<Longrightarrow> \<forall>v\<in>V. r v < r i \<Longrightarrow> sizenode t \<le> card V + fuel \<Longrightarrow>
    (i, mp) \<in> (linked t)\<^sup>+ \<Longrightarrow> \<exists>q. find_previous fuel t i mp = Inr q \<and> (q, mp) \<in> linked t"
proof (induction fuel arbitrary: i V)
  case 0
  have "i \<notin> V" using 0(3) by auto
  then have "V \<subset> {..<sizenode t}" using 0(1,2) by blast
  then have "card V < sizenode t" using psubset_card_mono [of "{..<sizenode t}" V] by simp
  with 0 show ?case by simp
next
  case (Suc fuel)
  from Suc.prems(5) obtain k where k: "(i, k) \<in> linked t" "k = mp \<or> (k, mp) \<in> (linked t)\<^sup>+"
    by (metis tranclD rtrancl_eq_or_trancl)
  then have nx: "gnext t i = Some k" by (simp add: linked_def)
  show ?case
  proof (cases "k = mp")
    case True
    then show ?thesis using nx k(1) by simp
  next
    case False
    have "i \<notin> V" using Suc.prems(3) by auto
    moreover have "finite V" using Suc.prems(2) finite_subset by blast
    ultimately have "sizenode t \<le> card (insert i V) + fuel" using Suc.prems(4) by simp
    moreover have "\<forall>v\<in>insert i V. r v < r k" using ok k(1) Suc.prems(3) by (metis insert_iff less_trans)
    moreover have "insert i V \<subseteq> {..<sizenode t}" "k < sizenode t" using Suc.prems(1,2) ok k(1) by auto
    ultimately show ?thesis using Suc.IH [of k "insert i V"] k(2) False nx by simp
  qed
qed

lemma find_previous_correct:
  assumes "chains_ok t" "i < sizenode t" "(i, mp) \<in> (linked t)\<^sup>+"
  shows "\<exists>q. find_previous (sizenode t) t i mp = Inr q \<and> (q, mp) \<in> linked t"
proof -
  obtain r :: "nat \<Rightarrow> nat" where "\<forall>i j. (i, j) \<in> linked t \<longrightarrow> j < sizenode t \<and> r i < r j"
    using assms(1) by (auto simp: chains_ok_def)
  from find_previous_step [OF this assms(2), of "{}" "sizenode t"] assms(3) show ?thesis by auto
qed

text \<open>
  Moving the colliding node to the free place: the chains are the old ones with the two places
  exchanged.
\<close>

definition moved :: "Table \<Rightarrow> nat \<Rightarrow> nat \<Rightarrow> nat \<Rightarrow> Table" where
  "moved t q mp n =
     (let t1 = set_next t q (Some n);
          t2 = t1\<lparr>node := (node t1)[n := node t1 ! mp]\<rparr>;
          t3 = set_next t2 mp None
      in setobj t3 (CNode mp) VNil)"

lemma moved_simps [simp]:
  "sizenode (moved t q mp n) = sizenode t" "sizearray (moved t q mp n) = sizearray t"
  "arr (moved t q mp n) = arr t" "lsizenode (moved t q mp n) = lsizenode t"
  "lastfree (moved t q mp n) = lastfree t" "is_dummy (moved t q mp n) = is_dummy t"
  "length (node (moved t q mp n)) = length (node t)"
  by (simp_all add: moved_def Let_def setobj_def set_next_def sizenode_def sizearray_def)

lemma mainposition_moved [simp]: "mainposition H (moved t q mp n) k = mainposition H t k"
  by (rule mainposition_cong) simp

lemma get_set_node:
  assumes "n < length (node t)"
  shows "gkey (t\<lparr>node := (node t)[n := nd]\<rparr>) j = (if j = n then i_key nd else gkey t j)"
    and "gval (t\<lparr>node := (node t)[n := nd]\<rparr>) j = (if j = n then i_val nd else gval t j)"
    and "gnext (t\<lparr>node := (node t)[n := nd]\<rparr>) j = (if j = n then i_next nd else gnext t j)"
  using assms by (simp_all add: gkey_def gval_def gnext_def nth_list_update)

lemma moved_get:
  assumes "q < length (node t)" "mp < length (node t)" "n < length (node t)" "q \<noteq> mp" "n \<noteq> mp" "q \<noteq> n"
  shows "gkey (moved t q mp n) j = (if j = n then gkey t mp else gkey t j)"
    and "gval (moved t q mp n) j = (if j = n then gval t mp else if j = mp then VNil else gval t j)"
    and "gnext (moved t q mp n) j =
      (if j = q then Some n else if j = n then gnext t mp else if j = mp then None else gnext t j)"
proof -
  have "node (set_next t q (Some n)) ! mp = node t ! mp"
    using assms by (simp add: set_next_def)
  then show "gkey (moved t q mp n) j = (if j = n then gkey t mp else gkey t j)"
    and "gval (moved t q mp n) j = (if j = n then gval t mp else if j = mp then VNil else gval t j)"
    and "gnext (moved t q mp n) j =
      (if j = q then Some n else if j = n then gnext t mp else if j = mp then None else gnext t j)"
    using assms
    by (simp_all add: moved_def Let_def get_set_node) (simp_all add: gkey_def gval_def gnext_def)
qed

text \<open>The exchange of two indices.\<close>

definition exchange :: "nat \<Rightarrow> nat \<Rightarrow> nat \<Rightarrow> nat" where
  "exchange a b i = (if i = a then b else if i = b then a else i)"

lemma exchange_invol [simp]: "exchange a b (exchange a b i) = i"
  by (simp add: exchange_def)

lemma insert_moved:
  assumes ins: "insertable H t key" and mp: "mp = mainposition H t key" and taken: "gval t mp \<noteq> VNil"
    and n: "free_node t n" and q: "(q, mp) \<in> linked t" and other: "mainposition H t (gkey t mp) \<noteq> mp"
  shows "inserted H t key (set_key (moved (t\<lparr>lastfree := n\<rparr>) q mp n) mp key) mp"
proof -
  let ?t = "set_key (moved (t\<lparr>lastfree := n\<rparr>) q mp n) mp key"
  let ?x = "exchange mp n"
  from ins have ok: "chains_ok t" "keys_ok H t" "free_ok t" and vk: "valid_key key" "\<not> in_array t key"
    and new: "\<And>i. i \<in> used t \<Longrightarrow> gkey t i \<noteq> key"
    by (auto simp: insertable_def table_ok_def)
  obtain r :: "nat \<Rightarrow> nat" where r: "\<And>i j. (i, j) \<in> linked t \<Longrightarrow> r i < r j"
    using ok(1) by (auto simp: chains_ok_def)
  have lt: "mp < sizenode t" "n < sizenode t" "q < sizenode t"
    using ok n q mainposition_less [of t H key] by (simp_all add: free_ok_def free_node_def mp linked_def)
  then have lt': "mp < length (node t)" "n < length (node t)" "q < length (node t)"
    by (simp_all add: chains_okD(1) [OF ok(1)])
  have mu: "mp \<in> used t" using chains_okD(4) [OF ok(1) lt(1)] taken lt(1) by (auto simp: used_def)
  have nu: "n \<notin> used t" "gkey t n = VNil" using n by (auto simp: used_def free_node_def)
  have iso: "(n, j) \<notin> linked t" "(j, n) \<notin> linked t" for j
    using unused_unlinked [OF ok(1) nu(1)] chains_okD(6) [OF ok(1) lt(2) nu(2)] by auto
  have ne: "mp \<noteq> n" "n \<noteq> mp" "q \<noteq> mp" "q \<noteq> n" using mu nu(1) r [OF q] iso q by auto
  note get = moved_get [of q "t\<lparr>lastfree := n\<rparr>" mp n, simplified, OF lt'(3,1,2) ne(3,2,4)]
  have key': "gkey ?t j = (if j = mp then key else if j = n then gkey t mp else gkey t j)"
    and val': "gval ?t j = (if j = n then gval t mp else if j = mp then VNil else gval t j)"
    and next': "gnext ?t j =
      (if j = q then Some n else if j = n then gnext t mp else if j = mp then None else gnext t j)" for j
    using lt' ne get by simp_all
  have sz: "sizenode ?t = sizenode t" by simp
  have main': "mainposition H ?t = mainposition H t" by (simp add: fun_eq_iff)
  have lk: "(i, j) \<in> linked ?t \<longleftrightarrow> (?x i, ?x j) \<in> linked t" for i j
  proof -
    consider "i = mp" | "i = n" | "i = q" | "i \<noteq> mp" "i \<noteq> n" "i \<noteq> q" by blast
    then show ?thesis
    proof cases
      case 1
      then show ?thesis using iso ne by (simp add: linked_def next' exchange_def)
    next
      case 2
      have "(n, j) \<in> linked ?t \<longleftrightarrow> (mp, j) \<in> linked t" using lt ne by (simp add: linked_def next')
      moreover have "(mp, mp) \<notin> linked t" using r by blast
      ultimately show ?thesis using 2 iso ne by (cases "j = mp"; cases "j = n") (auto simp: exchange_def)
    next
      case 3
      have "(q, j) \<in> linked ?t \<longleftrightarrow> j = n" using lt ne by (auto simp: linked_def next')
      moreover have "(q, k) \<in> linked t \<longleftrightarrow> k = mp" for k using q by (auto simp: linked_def)
      ultimately show ?thesis using 3 ne by (auto simp: exchange_def)
    next
      case 4
      have "(i, j) \<in> linked ?t \<longleftrightarrow> (i, j) \<in> linked t" using 4 by (simp add: linked_def next')
      moreover have "(i, mp) \<notin> linked t" using chains_okD(3) [OF ok(1) q] 4(3) by blast
      ultimately show ?thesis using 4 iso by (auto simp: exchange_def)
    qed
  qed
  have star: "(?x i, ?x j) \<in> (linked ?t)\<^sup>*" if "(i, j) \<in> (linked t)\<^sup>*" for i j
    using that
  proof (induction rule: rtrancl_induct)
    case (step y z)
    then have "(?x y, ?x z) \<in> linked ?t" by (simp add: lk)
    with step show ?case by (meson rtrancl.rtrancl_into_rtrancl)
  qed simp
  have us: "used ?t = insert n (used t)"
    using vk(1) lt mu by (auto simp: used_def key' sz valid_key_def)
  have nomain: "mainposition H t (gkey t k) \<noteq> n \<and> mainposition H t (gkey t k) \<noteq> mp" if "k \<in> used t" for k
  proof
    show "mainposition H t (gkey t k) \<noteq> mp" using keys_okD(2) [OF ok(2) mu other that] .
    show "mainposition H t (gkey t k) \<noteq> n"
    proof
      assume "mainposition H t (gkey t k) = n"
      with keys_okD(1) [OF ok(2) that] have "(n, k) \<in> (linked t)\<^sup>*" by simp
      then have "k = n" by (rule converse_rtranclE) (use iso in auto)
      with that nu show False by simp
    qed
  qed
  have xlt: "?x i < sizenode t \<longleftrightarrow> i < sizenode t" for i using lt by (simp add: exchange_def)
  have len: "length (node ?t) = sizenode ?t" using ok(1) by (simp add: chains_ok_def)
  have bound: "j < sizenode ?t" if "(i, j) \<in> linked ?t" for i j
    using that chains_okD(2) [OF ok(1)] xlt unfolding lk sz by blast
  have uniq: "i = i'" if "(i, j) \<in> linked ?t" "(i', j) \<in> linked ?t" for i i' j
    using chains_okD(3) [OF ok(1) that [unfolded lk]] by (metis exchange_invol)
  have rank: "\<exists>r :: nat \<Rightarrow> nat. \<forall>i j. (i, j) \<in> linked ?t \<longrightarrow> r i < r j"
    by (intro exI [of _ "\<lambda>i. r (?x i)"]) (use r lk in blast)
  have "gval ?t i = VNil \<and> gnext ?t i = None \<and> (\<forall>j. (j, i) \<notin> linked ?t)"
    if i: "i < sizenode ?t" "gkey ?t i = VNil" for i
  proof -
    have "i \<noteq> mp" "i \<noteq> n" "gkey t i = VNil"
      using i(2) vk(1) mu by (auto simp: key' valid_key_def used_def split: if_splits)
    moreover from this have "i \<noteq> q" using i(1) chains_okD(5) [OF ok(1), of q] q by (auto simp: linked_def)
    ultimately show ?thesis
      using i(1) chains_okD(4,5,6) [OF ok(1), of i] unfolding lk val' next' sz by (auto simp: exchange_def)
  qed
  then have "chains_ok ?t" unfolding chains_ok_def using len bound uniq rank by blast
  moreover have "keys_ok H ?t"
  proof (rule keys_okI)
    fix i assume i: "i \<in> used ?t"
    show "(mainposition H ?t (gkey ?t i), i) \<in> (linked ?t)\<^sup>*"
    proof (cases "i = mp")
      case True
      then show ?thesis by (simp add: key' main' mp [symmetric])
    next
      case False
      define k where "k = ?x i"
      have k: "k \<in> used t" "gkey ?t i = gkey t k" "?x k = i"
        using i False mu nu ne by (auto simp: us key' k_def exchange_def split: if_splits)
      from star [OF keys_okD(1) [OF ok(2) k(1)]] nomain [OF k(1)] show ?thesis
        unfolding k(2,3) main' by (simp add: exchange_def)
    qed
    show "gkey ?t i \<noteq> VNum NNaN \<and> \<not> in_array ?t (gkey ?t i)"
      using i mu keys_okD(4,5) [OF ok(2)] vk in_array_cong [of ?t t]
      by (auto simp: us key' valid_key_def)
  next
    fix i j assume ij: "i \<in> used ?t" "j \<in> used ?t"
    show "mainposition H ?t (gkey ?t i) \<noteq> i \<Longrightarrow> mainposition H ?t (gkey ?t j) \<noteq> i"
      using ij keys_okD(2) [OF ok(2), of i j] keys_okD(2) [OF ok(2), of i mp] nomain mu ne
      by (auto simp: us key' main' mp [symmetric] split: if_splits)
    show "gkey ?t i = gkey ?t j \<Longrightarrow> i = j"
      using ij keys_okD(3) [OF ok(2)] new mu nu by (auto simp: us key' split: if_splits)
  qed
  moreover have "free_ok ?t"
    using ok(3) n vk(1) mu by (auto simp: free_ok_def free_node_def key' valid_key_def le_eq_less_or_eq used_def)
  moreover have "hash_entries ?t = hash_entries t"
  proof -
    have same: "gkey ?t i = gkey t (?x i)" "gval ?t i = gval t (?x i)" if "i \<noteq> mp" for i
      using that ne by (simp_all only: key' val' exchange_def if_False split: if_split) simp_all
    have nn: "gval t n = VNil" using chains_okD(4) [OF ok(1) lt(2) nu(2)] .
    have "\<exists>j < sizenode t. gkey ?t i = gkey t j \<and> gval ?t i = gval t j" if "i < sizenode t" "gval ?t i \<noteq> VNil" for i
      using same [of i] that xlt [of i] ne by (cases "i = mp") (auto simp only: val' refl if_True if_False)
    moreover have "\<exists>j < sizenode t. gkey t i = gkey ?t j \<and> gval t i = gval ?t j" if "i < sizenode t" "gval t i \<noteq> VNil" for i
    proof -
      have "?x i \<noteq> mp" using that(2) nn ne by (auto simp: exchange_def)
      from same [OF this] that(1) xlt [of i] show ?thesis by (metis exchange_invol)
    qed
    ultimately show ?thesis unfolding hash_entries_def sz by (smt (verit) Collect_cong)
  qed
  moreover have "gval ?t mp = VNil" using ne by (simp only: val' refl if_True if_False)
  moreover have "gkey ?t mp = key" by (simp only: key' refl if_True)
  ultimately show ?thesis
    using lt n unfolding inserted_def table_ok_def us by (simp add: card_insert_if free_node_def)
qed

text \<open>With a free node, luaH_newkey inserts the key without a rehash.\<close>

lemma insert_colliding_correct:
  assumes ins: "insertable H t key" and mp: "mp = mainposition H t key" and taken: "gval t mp \<noteq> VNil"
    and n: "free_node t n"
  shows "\<exists>t' i. insert_colliding H (t\<lparr>lastfree := n\<rparr>) mp n = Inr (t', i) \<and> inserted H t key (set_key t' i key) i"
proof -
  let ?o = "mainposition H t (gkey t mp)"
  from ins have ok: "chains_ok t" "keys_ok H t" "free_ok t" by (auto simp: insertable_def table_ok_def)
  have mb: "lsizenode t \<le> MAXBITS" using ok(3) by (simp add: free_ok_def)
  have lt: "mp < sizenode t" "?o < sizenode t" using mainposition_less [OF mb] by (simp_all add: mp)
  have mu: "mp \<in> used t" using chains_okD(4) [OF ok(1) lt(1)] taken lt(1) by (auto simp: used_def)
  show ?thesis
  proof (cases "?o = mp")
    case True
    then show ?thesis
      using insert_chained [OF ins mp taken n True] by (simp add: insert_colliding_def Let_def)
  next
    case False
    have "(?o, mp) \<in> (linked t)\<^sup>+"
      using keys_okD(1) [OF ok(2) mu] False by (simp add: rtrancl_eq_or_trancl)
    from find_previous_correct [OF ok(1) lt(2) this] obtain q where
      q: "find_previous (sizenode t) t ?o mp = Inr q" "(q, mp) \<in> linked t" by blast
    have fp: "find_previous f (t\<lparr>lastfree := n\<rparr>) i m = find_previous f t i m" for f i m
      by (induction f arbitrary: i) (auto split: option.splits)
    show ?thesis
      using insert_moved [OF ins mp taken n q(2) False] False q(1)
      by (simp add: insert_colliding_def Let_def fp moved_def)
  qed
qed

lemma newkey_room:
  assumes ins: "insertable H t key" and room: "\<not> is_dummy t" "card (used t) < sizenode t"
  shows "\<exists>t' i. luaH_newkey (Suc f) H t key = Inr (t', CNode i) \<and> inserted H t key t' i"
proof -
  let ?mp = "mainposition H t key"
  have vk: "key \<noteq> VNil" "key \<noteq> VNum NNaN" using ins by (auto simp: insertable_def valid_key_def)
  show ?thesis
  proof (cases "gval t ?mp = VNil")
    case True
    with insert_main [OF ins refl True room(1)] room(1) vk show ?thesis by (simp add: Let_def)
  next
    case False
    have fo: "free_ok t" using ins by (simp add: insertable_def table_ok_def)
    obtain r t1 where g: "getfreepos t = (r, t1)" by fastforce
    show ?thesis
    proof (cases r)
      case None
      with getfreepos_None [OF fo _ room(1)] g room(2) show ?thesis by simp
    next
      case (Some n)
      from getfreepos_Some [OF fo g [unfolded Some]]
      have t1: "t1 = t\<lparr>lastfree := n\<rparr>" "free_node t n" .
      from insert_colliding_correct [OF ins refl False t1(2)] False vk g Some t1(1)
      show ?thesis by (auto simp: Let_def)
    qed
  qed
qed

section \<open>A table as a map\<close>

text \<open>The value of every key: what luaH_get reads.\<close>

definition tmap :: "Table \<Rightarrow> TValue \<Rightarrow> TValue" where
  "tmap t k = cell_val t (cell_of t k)"

definition cell_ok :: "Table \<Rightarrow> cell \<Rightarrow> bool" where
  "cell_ok t c \<longleftrightarrow> (case c of CArr i \<Rightarrow> i < sizearray t | CNode i \<Rightarrow> i \<in> used t | CNilObject \<Rightarrow> False)"

lemma the_node_eq:
  assumes "keys_ok H t" "i \<in> used t"
  shows "the_node t (gkey t i) = i"
  unfolding the_node_def
  using assms keys_okD(3) [OF assms(1)] by (intro the_equality) auto

lemma tmap_array: "in_array t k \<Longrightarrow> tmap t k = arr t ! nat (arrayindex k - 1)"
  by (simp add: tmap_def cell_of_def cell_val_def)

lemma tmap_node:
  assumes "keys_ok H t" "i \<in> used t"
  shows "tmap t (gkey t i) = gval t i"
  using assms keys_okD(4,5) [OF assms] the_node_eq [OF assms]
  by (auto simp: tmap_def cell_of_def cell_val_def valid_key_def used_def)

lemma tmap_none:
  assumes "\<not> in_array t k" "\<forall>i \<in> used t. gkey t i \<noteq> k \<or> gval t i = VNil" "keys_ok H t"
  shows "tmap t k = VNil"
proof (cases "\<exists>i \<in> used t. gkey t i = k")
  case True
  then obtain i where "i \<in> used t" "gkey t i = k" by blast
  with tmap_node [OF assms(3)] assms(2) show ?thesis by metis
next
  case False
  with assms(1) show ?thesis by (simp add: tmap_def cell_of_def cell_val_def)
qed

lemma live_used: "chains_ok t \<Longrightarrow> i < sizenode t \<Longrightarrow> gval t i \<noteq> VNil \<Longrightarrow> i \<in> used t"
  using chains_okD(4) [of t i] by (auto simp: used_def)

text \<open>The map is given by the array and the entries of the hash part.\<close>

lemma tmap_hash:
  assumes "table_ok H t" "\<not> in_array t k" "v \<noteq> VNil"
  shows "tmap t k = v \<longleftrightarrow> (k, v) \<in> hash_entries t"
proof
  assume v: "tmap t k = v"
  with tmap_none [OF assms(2) _ table_okD(2) [OF assms(1)]] assms(3)
  obtain i where "i \<in> used t" "gkey t i = k" "gval t i \<noteq> VNil" by blast
  moreover from this tmap_node [OF table_okD(2) [OF assms(1)]] v have "gval t i = v" by metis
  ultimately show "(k, v) \<in> hash_entries t" by (auto simp: hash_entries_def used_def)
next
  assume "(k, v) \<in> hash_entries t"
  then obtain i where i: "i < sizenode t" "gkey t i = k" "gval t i = v" by (auto simp: hash_entries_def)
  with live_used [OF table_okD(1) [OF assms(1)], of i] assms(3) tmap_node [OF table_okD(2) [OF assms(1)], of i]
  show "tmap t k = v" by simp
qed

lemma tmap_eqI:
  assumes "table_ok H t" "table_ok H t'" "arr t = arr t'" "hash_entries t = hash_entries t'"
  shows "tmap t = tmap t'"
proof
  fix k
  have a: "in_array t = in_array t'" using assms(3) by (intro in_array_cong) (simp add: sizearray_def)
  show "tmap t k = tmap t' k"
  proof (cases "in_array t k")
    case True
    then show ?thesis using a assms(3) by (simp add: tmap_array)
  next
    case False
    then show ?thesis using tmap_hash [OF assms(1) False] tmap_hash [OF assms(2)] a assms(4) by metis
  qed
qed

text \<open>A store through the cell of a key.\<close>

lemma setobj_same:
  assumes "length (node t) = sizenode t" "cell_ok t c"
  shows "used (setobj t c v) = used t" "linked (setobj t c v) = linked t" "gkey (setobj t c v) = gkey t"
    "in_array (setobj t c v) = in_array t"
proof -
  show g: "gkey (setobj t c v) = gkey t"
    using assms by (cases c) (auto simp: cell_ok_def used_def fun_eq_iff)
  show "used (setobj t c v) = used t" by (simp add: used_def g)
  show "linked (setobj t c v) = linked t"
    using assms by (cases c) (auto simp: cell_ok_def used_def linked_def)
  show "in_array (setobj t c v) = in_array t" by (rule in_array_cong) simp
qed

lemma table_ok_setobj:
  assumes "table_ok H t" "cell_ok t c"
  shows "table_ok H (setobj t c v)"
proof -
  note same = setobj_same [OF table_okD(4) [OF assms(1)] assms(2), of v]
  have n: "gnext (setobj t c v) i = gnext t i" "gkey t i = VNil \<Longrightarrow> gval (setobj t c v) i = gval t i" for i
    using assms(2) table_okD(4) [OF assms(1)] by (cases c; auto simp: cell_ok_def used_def)+
  have "chains_ok (setobj t c v)"
    using table_okD(1) [OF assms(1)] unfolding chains_ok_def same(2,3) by (simp add: n)
  moreover have "keys_ok H (setobj t c v)"
    using table_okD(2) [OF assms(1)] unfolding keys_ok_def same by simp
  moreover have "free_ok (setobj t c v)"
  proof -
    have "\<not> is_dummy t" if "c = CNode i" for i
      using that assms table_okD(3) [OF assms(1)]
      by (auto simp: cell_ok_def free_ok_def used_def gkey_def dummynode_def sizenode_def)
    then show ?thesis
      using table_okD(3) [OF assms(1)] unfolding free_ok_def same(3)
      by (cases "is_dummy t") (auto, cases c, auto simp: setobj_def)
  qed
  ultimately show ?thesis by (simp add: table_ok_def)
qed

lemma cell_of_ok: "table_ok H t \<Longrightarrow> cell_of t k \<noteq> CNilObject \<Longrightarrow> cell_ok t (cell_of t k)"
  using the_node_eq [OF table_okD(2)]
  by (auto simp: cell_of_def cell_ok_def in_array_def arrayindex_def split: if_splits)

lemma cell_of_inj:
  assumes "table_ok H t" "cell_of t k = cell_of t k'" "cell_of t k \<noteq> CNilObject"
  shows "k = k'"
  using assms the_node_eq [OF table_okD(2) [OF assms(1)]]
  by (auto simp: cell_of_def in_array_def arrayindex_def split: if_splits)

lemma cell_of_setobj:
  assumes "length (node t) = sizenode t" "cell_ok t c"
  shows "cell_of (setobj t c v) = cell_of t"
  unfolding cell_of_def the_node_def fun_eq_iff setobj_same [OF assms] by simp

lemma cell_val_setobj:
  assumes "length (node t) = sizenode t" "cell_ok t c" "cell_ok t c' \<or> c' = CNilObject"
  shows "cell_val (setobj t c v) c' = (if c' = c then v else cell_val t c')"
  using assms
  by (cases c; cases c') (auto simp: cell_ok_def cell_val_def used_def sizearray_def setobj_def gval_def nth_list_update)

lemma tmap_setobj:
  assumes "table_ok H t" "cell_of t k = c" "c \<noteq> CNilObject"
  shows "tmap (setobj t c v) = (tmap t)(k := v)"
proof
  fix k'
  have c: "cell_ok t c" using cell_of_ok [OF assms(1)] assms(2,3) by blast
  have "cell_ok t (cell_of t k') \<or> cell_of t k' = CNilObject" using cell_of_ok [OF assms(1)] by blast
  moreover have "cell_of t k' = c \<longleftrightarrow> k' = k" using cell_of_inj [OF assms(1)] assms(2,3) by metis
  ultimately show "tmap (setobj t c v) k' = ((tmap t)(k := v)) k'"
    using c table_okD(4) [OF assms(1)] by (simp add: tmap_def cell_of_setobj cell_val_setobj)
qed

section \<open>Storing into a table with room\<close>

definition store :: "nat \<Rightarrow> hashes \<Rightarrow> Table \<Rightarrow> TValue \<Rightarrow> TValue \<Rightarrow> table_error + Table" where
  "store f H t k v = bindE (luaH_set f H t k) (\<lambda>(t', c). Inr (setobj t' c v))"

text \<open>There is room for k: it has a cell, or there is an unused node.\<close>

definition room :: "Table \<Rightarrow> TValue \<Rightarrow> bool" where
  "room t k \<longleftrightarrow> cell_of t k \<noteq> CNilObject \<or> \<not> is_dummy t \<and> card (used t) < sizenode t"

text \<open>set_ok H t k t' c: c is the cell of k in t', which has the contents of t.\<close>

definition set_ok :: "hashes \<Rightarrow> Table \<Rightarrow> TValue \<Rightarrow> Table \<Rightarrow> cell \<Rightarrow> bool" where
  "set_ok H t k t' c \<longleftrightarrow> table_ok H t' \<and> cell_of t' k = c \<and> c \<noteq> CNilObject \<and> tmap t' = tmap t"

lemma inserted_set_ok:
  assumes "insertable H t k" "inserted H t k t' i"
  shows "set_ok H t k t' (CNode i)"
proof -
  have ok: "table_ok H t" "table_ok H t'" "arr t' = arr t" "hash_entries t' = hash_entries t" "gkey t' i = k"
    "i < sizenode t'" "valid_key k" "\<not> in_array t k"
    using assms by (auto simp: insertable_def inserted_def sizenode_def)
  then have i: "i \<in> used t'" by (simp add: used_def valid_key_def)
  have "\<not> in_array t' k" using ok(3,8) in_array_cong [of t' t] by (simp add: sizearray_def)
  then have "cell_of t' k = CNode i"
    using ok(5,7) i the_node_eq [OF table_okD(2) [OF ok(2)] i] by (auto simp: cell_of_def)
  with ok tmap_eqI [OF ok(2,1)] show ?thesis by (simp add: set_ok_def)
qed

lemma insertableI:
  assumes "table_ok H t" "valid_key k" "cell_of t k = CNilObject"
  shows "insertable H t k"
  using assms by (auto simp: insertable_def cell_of_def split: if_splits)

lemma set_room:
  assumes "table_ok H t" "valid_key k" "room t k"
  shows "\<exists>t' c. luaH_set (Suc f) H t k = Inr (t', c) \<and> set_ok H t k t' c \<and>
    arr t' = arr t \<and> lsizenode t' = lsizenode t \<and> is_dummy t' = is_dummy t \<and>
    card (used t') \<le> card (used t) + (if in_array t k then 0 else 1)"
proof (cases "cell_of t k = CNilObject")
  case True
  have ins: "insertable H t k" using assms(1,2) True by (rule insertableI)
  have rm: "\<not> is_dummy t" "card (used t) < sizenode t" using True assms(3) by (auto simp: room_def)
  from newkey_room [OF ins rm] obtain t' i where
    "luaH_newkey (Suc f) H t k = Inr (t', CNode i)" "inserted H t k t' i" by blast
  moreover have "\<not> in_array t k" using ins by (simp add: insertable_def)
  moreover have "\<not> is_dummy t" using assms(3) True by (simp add: room_def)
  ultimately show ?thesis
    using inserted_set_ok [OF ins] luaH_get_cell [OF assms(1)] True
    by (auto simp: luaH_set_def set_with_def inserted_def simp del: luaH_newkey.simps)
next
  case False
  then show ?thesis
    using luaH_get_cell [OF assms(1)] assms(1)
    by (auto simp: luaH_set_def set_with_def set_ok_def)
qed

lemma store_room:
  assumes "table_ok H t" "valid_key k" "room t k"
  shows "\<exists>t'. store (Suc f) H t k v = Inr t' \<and> table_ok H t' \<and> tmap t' = (tmap t)(k := v) \<and>
    sizearray t' = sizearray t \<and> lsizenode t' = lsizenode t \<and> is_dummy t' = is_dummy t \<and>
    card (used t') \<le> card (used t) + (if in_array t k then 0 else 1)"
proof -
  from set_room [OF assms] obtain t' c where t': "luaH_set (Suc f) H t k = Inr (t', c)" "set_ok H t k t' c"
    "arr t' = arr t" "lsizenode t' = lsizenode t" "is_dummy t' = is_dummy t"
    "card (used t') \<le> card (used t) + (if in_array t k then 0 else 1)" by blast
  then have ok: "table_ok H t'" "cell_of t' k = c" "c \<noteq> CNilObject" "tmap t' = tmap t"
    by (auto simp: set_ok_def)
  then have c: "cell_ok t' c" using cell_of_ok by blast
  have "sizearray t' = sizearray t" using t'(3) by (simp add: sizearray_def)
  with t' ok show ?thesis
    using table_ok_setobj [OF ok(1) c] tmap_setobj [OF ok(1,2,3)] setobj_same(1) [OF table_okD(4) [OF ok(1)] c]
    by (simp add: store_def)
qed

primrec store_list :: "nat \<Rightarrow> hashes \<Rightarrow> (TValue \<times> TValue) list \<Rightarrow> Table \<Rightarrow> table_error + Table" where
  "store_list f H [] t = Inr t"
| "store_list f H (kv # kvs) t = bindE (store f H t (fst kv) (snd kv)) (store_list f H kvs)"

text \<open>The entries of the list that need a node.\<close>

definition needs_node :: "Table \<Rightarrow> (TValue \<times> TValue) list \<Rightarrow> (TValue \<times> TValue) list" where
  "needs_node t kvs = filter (\<lambda>kv. \<not> in_array t (fst kv)) kvs"

lemma store_list_room:
  "table_ok H t \<Longrightarrow> list_all (\<lambda>kv. valid_key (fst kv)) kvs \<Longrightarrow> distinct (map fst kvs) \<Longrightarrow>
   needs_node t kvs = [] \<or> \<not> is_dummy t \<and> card (used t) + length (needs_node t kvs) \<le> sizenode t \<Longrightarrow>
   \<exists>t'. store_list (Suc f) H kvs t = Inr t' \<and> table_ok H t' \<and>
     tmap t' = (\<lambda>k. case map_of kvs k of Some v \<Rightarrow> v | None \<Rightarrow> tmap t k) \<and>
     sizearray t' = sizearray t \<and> lsizenode t' = lsizenode t \<and> is_dummy t' = is_dummy t \<and>
     card (used t') \<le> card (used t) + length (needs_node t kvs)"
proof (induction kvs arbitrary: t)
  case Nil
  then show ?case by simp
next
  case (Cons kv kvs)
  obtain k v where kv: "kv = (k, v)" by fastforce
  have "room t k"
  proof (cases "in_array t k")
    case True
    then show ?thesis by (simp add: room_def cell_of_def)
  next
    case False
    then show ?thesis using Cons.prems(4) by (auto simp: room_def needs_node_def kv)
  qed
  with store_room [OF Cons.prems(1), of k f v] Cons.prems(2) kv obtain t' where
    t': "store (Suc f) H t k v = Inr t'" "table_ok H t'" "tmap t' = (tmap t)(k := v)"
    "sizearray t' = sizearray t" "lsizenode t' = lsizenode t" "is_dummy t' = is_dummy t"
    "card (used t') \<le> card (used t) + (if in_array t k then 0 else 1)" by auto
  have nn: "needs_node t' kvs = needs_node t kvs" "sizenode t' = sizenode t"
    using in_array_cong [OF t'(4)] t'(5) by (simp_all add: needs_node_def sizenode_def)
  have len: "length (needs_node t (kv # kvs)) = (if in_array t k then 0 else 1) + length (needs_node t kvs)"
    by (simp add: needs_node_def kv)
  have "needs_node t' kvs = [] \<or> \<not> is_dummy t' \<and> card (used t') + length (needs_node t' kvs) \<le> sizenode t'"
    using Cons.prems(4) t'(6,7) len unfolding nn by (auto simp: needs_node_def kv split: if_splits)
  from Cons.IH [OF t'(2) _ _ this] Cons.prems(2,3) obtain t'' where
    t'': "store_list (Suc f) H kvs t' = Inr t''" "table_ok H t''"
    "tmap t'' = (\<lambda>k. case map_of kvs k of Some v \<Rightarrow> v | None \<Rightarrow> tmap t' k)"
    "sizearray t'' = sizearray t'" "lsizenode t'' = lsizenode t'" "is_dummy t'' = is_dummy t'"
    "card (used t'') \<le> card (used t') + length (needs_node t' kvs)" by auto
  have "k \<notin> fst ` set kvs" using Cons.prems(3) kv by auto
  then have "map_of kvs k = None" by (simp add: map_of_eq_None_iff)
  then have "tmap t'' = (\<lambda>k. case map_of (kv # kvs) k of Some v \<Rightarrow> v | None \<Rightarrow> tmap t k)"
    unfolding t''(3) t'(3) kv by (auto simp: fun_eq_iff split: option.splits)
  with t' t'' len nn show ?case by (simp add: kv)
qed

section \<open>Resizing\<close>

text \<open>The entries luaH_resize inserts again: the vanishing slice of the array, then the nodes.\<close>

definition slice_entries :: "TValue list \<Rightarrow> nat list \<Rightarrow> (TValue \<times> TValue) list" where
  "slice_entries a is = map (\<lambda>i. (VNum (NInt (int i + 1)), a ! i)) (filter (\<lambda>i. a ! i \<noteq> VNil) is)"

definition node_entries :: "Node list \<Rightarrow> nat list \<Rightarrow> (TValue \<times> TValue) list" where
  "node_entries ns is = map (\<lambda>i. (i_key (ns ! i), i_val (ns ! i))) (filter (\<lambda>i. i_val (ns ! i) \<noteq> VNil) is)"

lemma setint_store:
  assumes "table_ok H t"
  shows "luaH_setint f H t i v = store f H t (VNum (NInt i)) v"
  using luaH_getint_cell [OF assms] luaH_get_cell [OF assms]
  by (simp add: luaH_setint_def setint_with_def store_def luaH_set_def set_with_def)

text \<open>store keeps the invariant, so the two loops are store_list on their entries.\<close>

lemma store_list_append:
  "store_list f H (xs @ ys) t = bindE (store_list f H xs t) (store_list f H ys)"
proof (induction xs arbitrary: t)
  case (Cons x xs)
  then show ?case by (cases "store f H t (fst x) (snd x)") simp_all
qed simp

lemma reinsert_nodes_store:
  "reinsert_nodes (luaH_set f H) ns is t = store_list f H (node_entries ns is) t"
proof (induction "is" arbitrary: t)
  case (Cons i "is")
  then show ?case
    by (cases "luaH_set f H t (i_key (ns ! i))") (auto simp: node_entries_def store_def)
qed (simp add: node_entries_def)

lemma reinsert_array_store:
  "table_ok H t \<Longrightarrow>
   needs_node t (slice_entries a is) = [] \<or>
     \<not> is_dummy t \<and> card (used t) + length (needs_node t (slice_entries a is)) \<le> sizenode t \<Longrightarrow>
   distinct is \<Longrightarrow>
   reinsert_array (luaH_setint (Suc f) H) a is t = store_list (Suc f) H (slice_entries a is) t"
proof (induction "is" arbitrary: t)
  case (Cons i "is")
  let ?k = "VNum (NInt (int i + 1))"
  show ?case
  proof (cases "a ! i = VNil")
    case True
    then show ?thesis using Cons by (simp add: slice_entries_def)
  next
    case False
    have "room t ?k"
    proof (cases "in_array t ?k")
      case True
      then show ?thesis by (simp add: room_def cell_of_def)
    next
      case na: False
      then show ?thesis using Cons.prems(2) False by (auto simp: room_def needs_node_def slice_entries_def)
    qed
    with store_room [OF Cons.prems(1), of ?k f "a ! i"] obtain t' where
      t': "store (Suc f) H t ?k (a ! i) = Inr t'" "table_ok H t'" "sizearray t' = sizearray t"
      "lsizenode t' = lsizenode t" "is_dummy t' = is_dummy t"
      "card (used t') \<le> card (used t) + (if in_array t ?k then 0 else 1)" by (auto simp: valid_key_def)
    have nn: "needs_node t' kvs = needs_node t kvs" for kvs
      using in_array_cong [OF t'(3)] by (simp add: needs_node_def)
    have "needs_node t' (slice_entries a is) = [] \<or>
      \<not> is_dummy t' \<and> card (used t') + length (needs_node t' (slice_entries a is)) \<le> sizenode t'"
      using Cons.prems(2) t'(4,5,6) False unfolding nn
      by (auto simp: needs_node_def slice_entries_def sizenode_def split: if_splits)
    from Cons.IH [OF t'(2) this] Cons.prems(3) t'(1) False show ?thesis
      by (simp add: setint_store [OF Cons.prems(1)]) (simp add: slice_entries_def)
  qed
qed (simp add: slice_entries_def)

text \<open>A fresh hash part.\<close>

definition fresh_hash :: "Table \<Rightarrow> bool" where
  "fresh_hash t \<longleftrightarrow> length (node t) = sizenode t \<and> lsizenode t \<le> MAXBITS \<and>
     (\<forall>n \<in> set (node t). n = dummynode) \<and> (is_dummy t \<longrightarrow> lsizenode t = 0 \<and> lastfree t = 0) \<and>
     (\<not> is_dummy t \<longrightarrow> lastfree t = sizenode t)"

lemma fresh_hash_ok:
  assumes "fresh_hash t"
  shows "table_ok H t" "used t = {}" "tmap t k = (if in_array t k then arr t ! nat (arrayindex k - 1) else VNil)"
proof -
  have g: "gkey t i = VNil" "gval t i = VNil" "gnext t i = None" if "i < sizenode t" for i
  proof -
    have "node t ! i = dummynode" using that assms nth_mem [of i "node t"] by (simp add: fresh_hash_def)
    then show "gkey t i = VNil" "gval t i = VNil" "gnext t i = None"
      by (simp_all add: gkey_def gval_def gnext_def dummynode_def)
  qed
  show us: "used t = {}" using g by (auto simp: used_def)
  have lk: "linked t = {}" using g by (auto simp: linked_def)
  have "chains_ok t" using assms g by (simp add: chains_ok_def lk fresh_hash_def)
  moreover have "keys_ok H t" by (simp add: keys_ok_def us)
  moreover have "free_ok t"
    using assms by (cases "node t") (auto simp: free_ok_def fresh_hash_def sizenode_def)
  ultimately show "table_ok H t" by (simp add: table_ok_def)
  show "tmap t k = (if in_array t k then arr t ! nat (arrayindex k - 1) else VNil)"
    by (simp add: tmap_def cell_of_def cell_val_def us)
qed

lemma setnodevector_fresh:
  assumes "setnodevector t sz = Inr t'" "sz < 2 ^ 32"
  shows "fresh_hash t'" "arr t' = arr t" "is_dummy t' = (sz = 0)" "sz \<le> sizenode t'"
proof -
  show "fresh_hash t'" "arr t' = arr t" "is_dummy t' = (sz = 0)"
    using assms(1) by (auto simp: setnodevector_def fresh_hash_def sizenode_def dummynode_def Let_def split: if_splits)
  show "sz \<le> sizenode t'"
  proof (cases "sz = 0")
    case False
    have u: "unat (of_nat sz :: uint32) = sz" using assms(2) by (simp add: unat_of_nat take_bit_nat_eq_self)
    with False have "(0 :: uint32) < of_nat sz" by (metis unat_eq_0 word_gt_0)
    from conjunct1 [OF ceillog2_correct [OF this]] u False assms(1) show ?thesis
      by (auto simp: setnodevector_def sizenode_def Let_def split: if_splits)
  qed simp
qed

definition resize_entries :: "Table \<Rightarrow> nat \<Rightarrow> (TValue \<times> TValue) list" where
  "resize_entries t na = slice_entries (arr t) [na..<sizearray t] @ node_entries (node t) (rev [0..<sizenode t])"

definition int_upto :: "nat \<Rightarrow> TValue \<Rightarrow> bool" where
  "int_upto na k \<longleftrightarrow> (\<exists>i. k = VNum (NInt i) \<and> 1 \<le> i \<and> i \<le> int na)"

lemma in_array_upto: "in_array t k = int_upto (sizearray t) k"
  by (simp add: in_array_def int_upto_def)

lemma slice_entries_fst:
  "(k, v) \<in> set (slice_entries a is) \<longleftrightarrow> (\<exists>i \<in> set is. k = VNum (NInt (int i + 1)) \<and> v = a ! i \<and> v \<noteq> VNil)"
  by (auto simp: slice_entries_def)

lemma node_entries_all:
  assumes "length (node t) = sizenode t"
  shows "set (node_entries (node t) (rev [0..<sizenode t])) = hash_entries t"
  by (auto simp: node_entries_def hash_entries_def gkey_def gval_def)

lemma resize_entries_keys:
  assumes ok: "table_ok H t"
  shows "list_all (\<lambda>kv. valid_key (fst kv)) (resize_entries t na)" "distinct (map fst (resize_entries t na))"
proof -
  let ?ns = "node_entries (node t) (rev [0..<sizenode t])" and ?sl = "slice_entries (arr t) [na..<sizearray t]"
  have key: "\<exists>i \<in> used t. k = gkey t i" if "(k, v) \<in> set ?ns" for k v
    using that live_used [OF table_okD(1) [OF ok]] unfolding node_entries_all [OF table_okD(4) [OF ok]]
    by (auto simp: hash_entries_def)
  have nk: "valid_key k \<and> \<not> in_array t k" if "(k, v) \<in> set ?ns" for k v
    using key [OF that] keys_okD(4,5) [OF table_okD(2) [OF ok]] by (auto simp: valid_key_def used_def)
  then show "list_all (\<lambda>kv. valid_key (fst kv)) (resize_entries t na)"
    by (auto simp: resize_entries_def list_all_iff slice_entries_fst valid_key_def)
  have "distinct (map fst ?sl)"
    by (simp add: slice_entries_def comp_def distinct_map inj_on_def)
  moreover have "distinct (map fst ?ns)"
  proof -
    have "inj_on (gkey t) {i. i < sizenode t \<and> gval t i \<noteq> VNil}"
      using live_used [OF table_okD(1) [OF ok]] keys_okD(3) [OF table_okD(2) [OF ok]]
      by (auto simp: inj_on_def)
    then show ?thesis
      by (simp add: node_entries_def comp_def distinct_map gkey_def gval_def inj_on_def)
  qed
  moreover have "fst ` set ?sl \<inter> fst ` set ?ns = {}"
  proof -
    have "in_array t k" if "(k, v) \<in> set ?sl" for k v
      using that by (auto simp: slice_entries_fst in_array_def)
    with nk show ?thesis by fastforce
  qed
  ultimately show "distinct (map fst (resize_entries t na))" by (simp add: resize_entries_def)
qed

text \<open>The map before and after: the kept part of the array and the entries inserted again.\<close>

lemma in_arrayE:
  assumes "in_array t k"
  obtains i where "k = VNum (NInt (int i + 1))" "i < sizearray t"
proof -
  from assms obtain j where "k = VNum (NInt j)" "1 \<le> j" "j \<le> int (sizearray t)" by (auto simp: in_array_def)
  then show thesis using that [of "nat (j - 1)"] by auto
qed

lemma resize_entries_map:
  assumes ok: "table_ok H t"
  shows "(case map_of (resize_entries t na) k of Some v \<Rightarrow> v
     | None \<Rightarrow> if int_upto (min na (sizearray t)) k then arr t ! nat (arrayindex k - 1) else VNil) = tmap t k"
proof -
  note d = resize_entries_keys(2) [OF ok, of na]
  have mo: "map_of (resize_entries t na) k = Some v \<longleftrightarrow>
     (k, v) \<in> set (slice_entries (arr t) [na..<sizearray t]) \<or> (k, v) \<in> hash_entries t" for v
    using map_of_eq_Some_iff [OF d] node_entries_all [OF table_okD(4) [OF ok]] by (auto simp: resize_entries_def)
  show ?thesis
  proof (cases "in_array t k")
    case True
    then obtain i where i: "k = VNum (NInt (int i + 1))" "i < sizearray t" by (rule in_arrayE)
    have nh: "(k, v) \<notin> hash_entries t" for v
      using True live_used [OF table_okD(1) [OF ok]] keys_okD(5) [OF table_okD(2) [OF ok]]
      by (auto simp: hash_entries_def)
    have tm: "tmap t k = arr t ! i" using True i by (simp add: tmap_array arrayindex_def)
    have m: "map_of (resize_entries t na) k = Some v \<longleftrightarrow> na \<le> i \<and> v = arr t ! i \<and> v \<noteq> VNil" for v
      using mo [of v] nh [of v] i by (auto simp: slice_entries_fst)
    have up: "int_upto (min na (sizearray t)) k \<longleftrightarrow> i < na" "nat (arrayindex k - 1) = i"
      using i by (auto simp: int_upto_def arrayindex_def)
    show ?thesis
    proof (cases "map_of (resize_entries t na) k")
      case None
      with m [of "arr t ! i"] show ?thesis by (auto simp: up tm)
    next
      case (Some v)
      with m [of v] tm show ?thesis by simp
    qed
  next
    case False
    have sl: "(k, v) \<notin> set (slice_entries (arr t) [na..<sizearray t])" for v
      using False by (auto simp: slice_entries_fst in_array_def)
    have up: "\<not> int_upto (min na (sizearray t)) k" using False by (auto simp: int_upto_def in_array_def)
    show ?thesis
    proof (cases "map_of (resize_entries t na) k")
      case None
      then have "(k, v) \<notin> hash_entries t" for v using mo [of v] by auto
      then have "tmap t k = VNil" using tmap_hash [OF ok False, of "tmap t k"] by blast
      with None up show ?thesis by simp
    next
      case (Some v)
      then have "(k, v) \<in> hash_entries t" using mo [of v] sl by auto
      moreover from this have "v \<noteq> VNil" by (auto simp: hash_entries_def)
      ultimately have "tmap t k = v" using tmap_hash [OF ok False] by blast
      with Some show ?thesis by simp
    qed
  qed
qed

lemma resize_correct:
  assumes ok: "table_ok H t" and nh: "nh < 2 ^ 32" "nh = 0 \<or> luaO_ceillog2 (of_nat nh) \<le> MAXBITS"
    and enough: "length (filter (\<lambda>kv. \<not> int_upto na (fst kv)) (resize_entries t na)) \<le> nh"
  shows "\<exists>t'. luaH_resize (Suc f) H t na nh = Inr t' \<and> table_ok H t' \<and> tmap t' = tmap t \<and>
    sizearray t' = na \<and> is_dummy t' = (nh = 0) \<and> nh \<le> sizenode t' \<and>
    card (used t') \<le> length (filter (\<lambda>kv. \<not> int_upto na (fst kv)) (resize_entries t na))"
proof -
  let ?old = "sizearray t"
  let ?t1 = "if na > ?old then setarrayvector t na else t"
  have "\<exists>t2. setnodevector ?t1 nh = Inr t2"
    unfolding setnodevector_def Let_def using nh(2) by (cases "nh = 0") auto
  then obtain t2 where t2: "setnodevector ?t1 nh = Inr t2" by blast
  note f2 = setnodevector_fresh [OF t2 nh(1)]
  define t3 where "t3 = (if na < ?old then t2\<lparr>arr := take na (arr t)\<rparr> else t2)"
  have a3: "arr t3 = take na (arr t) @ replicate (na - ?old) VNil"
    using f2(2) by (auto simp: t3_def setarrayvector_def sizearray_def)
  have f3: "fresh_hash t3" "is_dummy t3 = (nh = 0)" "nh \<le> sizenode t3"
    using f2 by (auto simp: t3_def fresh_hash_def sizenode_def)
  have s3: "sizearray t3 = na" by (simp add: sizearray_def a3)
  let ?sl = "slice_entries (arr t) [na..<?old]" and ?ns = "node_entries (node t) (rev [0..<sizenode t])"
  have nn: "needs_node t3 kvs = filter (\<lambda>kv. \<not> int_upto na (fst kv)) kvs" for kvs
    by (simp add: needs_node_def in_array_upto s3)
  have rm: "needs_node t3 kvs = [] \<or> \<not> is_dummy t3 \<and> card (used t3) + length (needs_node t3 kvs) \<le> sizenode t3"
    if "length (needs_node t3 kvs) \<le> length (needs_node t3 (resize_entries t na))" for kvs
    using that enough f3 fresh_hash_ok(2) [OF f3(1)] unfolding nn
    by (cases "filter (\<lambda>kv. \<not> int_upto na (fst kv)) kvs = []") auto
  have "reinsert_array (luaH_setint (Suc f) H) (arr t) [na..<?old] t3 = store_list (Suc f) H ?sl t3"
    by (rule reinsert_array_store [OF fresh_hash_ok(1) [OF f3(1)] rm])
       (simp_all add: resize_entries_def needs_node_def)
  moreover have "luaH_resize (Suc f) H t na nh =
     bindE (reinsert_array (luaH_setint (Suc f) H) (arr t) [na..<?old] t3)
       (reinsert_nodes (luaH_set (Suc f) H) (node t) (rev [0..<sizenode t]))"
    using t2 by (auto simp: luaH_resize_def resize_with_def Let_def t3_def luaH_set_def luaH_setint_def
        simp del: luaH_newkey.simps)
  ultimately have r: "luaH_resize (Suc f) H t na nh = store_list (Suc f) H (resize_entries t na) t3"
    by (simp add: resize_entries_def store_list_append reinsert_nodes_store [abs_def])
  have base: "table_ok H t3" by (rule fresh_hash_ok(1) [OF f3(1)])
  from store_list_room [OF base resize_entries_keys [OF ok, of na] rm [OF order_refl], of f]
  obtain t' where t': "store_list (Suc f) H (resize_entries t na) t3 = Inr t'" "table_ok H t'"
    "tmap t' = (\<lambda>k. case map_of (resize_entries t na) k of Some v \<Rightarrow> v | None \<Rightarrow> tmap t3 k)"
    "sizearray t' = sizearray t3" "lsizenode t' = lsizenode t3" "is_dummy t' = is_dummy t3"
    "card (used t') \<le> card (used t3) + length (needs_node t3 (resize_entries t na))" by auto
  have t3m: "tmap t3 k = (if int_upto (min na ?old) k then arr t ! nat (arrayindex k - 1) else VNil)" for k
    unfolding fresh_hash_ok(3) [OF f3(1)] in_array_upto s3 a3
    by (auto simp: int_upto_def arrayindex_def nth_append sizearray_def)
  have "tmap t' = tmap t"
    unfolding t'(3) t3m resize_entries_map [OF ok] ..
  with t' f3 s3 fresh_hash_ok(2) [OF f3(1)] show ?thesis
    unfolding r nn by (auto simp: sizenode_def)
qed

section \<open>Counting keys\<close>

definition kslice :: "int \<Rightarrow> nat" where
  "kslice k = luaO_ceillog2 (word_of_int k)"

lemma kslice_le:
  assumes "1 \<le> k" "k \<le> 2 ^ 30"
  shows "kslice k \<le> l \<longleftrightarrow> k \<le> 2 ^ l"
proof -
  have "uint (word_of_int k :: uint32) = k"
    using assms by (simp add: unsigned_of_int take_bit_int_eq_self)
  then have u: "unat (word_of_int k :: uint32) = nat k" by (simp add: unat_eq_nat_uint)
  have "(0 :: uint32) < word_of_int k" using u assms(1) by (metis nat_0_iff not_one_le_zero unat_eq_0 word_gt_0 order_trans zero_le_one le_zero_eq linorder_not_le)
  note c = ceillog2_correct [OF this, unfolded u, folded kslice_def]
  have n: "nat k \<le> 2 ^ m \<longleftrightarrow> k \<le> 2 ^ m" "2 ^ m < nat k \<longleftrightarrow> 2 ^ m < k" for m
    using assms(1) by (simp_all add: nat_le_iff zless_nat_eq_int_zless)
  show ?thesis
  proof
    assume "kslice k \<le> l"
    then have "(2 :: int) ^ kslice k \<le> 2 ^ l" by (intro power_increasing) auto
    moreover have "k \<le> 2 ^ kslice k" using c n(1) by auto
    ultimately show "k \<le> 2 ^ l" by linarith
  next
    assume "k \<le> 2 ^ l"
    show "kslice k \<le> l"
    proof (rule ccontr)
      assume "\<not> kslice k \<le> l"
      then have "2 ^ l < nat k" using c by simp
      with n(2) \<open>k \<le> 2 ^ l\<close> show False by simp
    qed
  qed
qed

definition cnt :: "int list \<Rightarrow> nat \<Rightarrow> nat" where
  "cnt xs l = length (filter (\<lambda>k. kslice k = l) xs)"

definition candidates :: "TValue list \<Rightarrow> int list" where
  "candidates ks = map arrayindex (filter (\<lambda>k. 0 < arrayindex k \<and> arrayindex k \<le> MAXASIZE) ks)"

lemma candidates_simps [simp]:
  "candidates [] = []"
  "candidates (k # ks) = (if 0 < arrayindex k \<and> arrayindex k \<le> MAXASIZE then [arrayindex k] else []) @ candidates ks"
  "candidates (xs @ ys) = candidates xs @ candidates ys"
  by (simp_all add: candidates_def)

lemma cnt_simps [simp]: "cnt [] l = 0" "cnt (xs @ ys) l = cnt xs l + cnt ys l"
  by (simp_all add: cnt_def)

lemma countint_cnt:
  "countint k nums = (length (candidates [k]), \<lambda>l. nums l + cnt (candidates [k]) l)"
  by (auto simp: countint_def Let_def cnt_def kslice_def fun_eq_iff)

lemma numusehash_loop_cnt:
  "numusehash_loop t is tot a nums =
     (let L = map fst (node_entries (node t) is)
      in (tot + length L, a + length (candidates L), \<lambda>l. nums l + cnt (candidates L) l))"
proof (induction "is" arbitrary: tot a nums)
  case (Cons i "is")
  show ?case
  proof (cases "gval t i = VNil")
    case True
    then show ?thesis using Cons by (simp add: node_entries_def gval_def)
  next
    case False
    then show ?thesis
      unfolding numusehash_loop.simps countint_cnt prod.case Cons.IH
      by (simp add: node_entries_def gval_def gkey_def Let_def add.assoc)
  qed
qed (simp add: node_entries_def)

text \<open>The keys of the array part with a value, from key i on.\<close>

definition array_keys :: "Table \<Rightarrow> nat \<Rightarrow> nat \<Rightarrow> int list" where
  "array_keys t i j = map int (filter (\<lambda>j. arr t ! (j - 1) \<noteq> VNil) [i..<j])"

lemma array_keys_append: "i \<le> j \<Longrightarrow> j \<le> k \<Longrightarrow> array_keys t i k = array_keys t i j @ array_keys t j k"
proof -
  assume "i \<le> j" "j \<le> k"
  then have "[i..<k] = [i..<j] @ [j..<k]" by (metis le_add_diff_inverse upt_add_eq_append)
  then show ?thesis by (simp add: array_keys_def)
qed

definition slice_start :: "nat \<Rightarrow> nat" where
  "slice_start lg = (if lg = 0 then 1 else 2 ^ (lg - 1) + 1)"

lemma slice_start_eq:
  assumes "slice_start lg \<le> i" "i \<le> 2 ^ lg" "lg \<le> 30"
  shows "kslice (int i) = lg"
proof -
  have "(2 :: nat) ^ lg \<le> 2 ^ 30" using assms(3) by (intro power_increasing) auto
  with assms(2) have "i \<le> 2 ^ 30" by linarith
  then have i: "1 \<le> int i" "int i \<le> 2 ^ 30" using assms(1) by (auto simp: slice_start_def split: if_splits)
  have "kslice (int i) \<le> lg" using kslice_le [OF i, of lg] assms(2) by (simp add: of_nat_le_iff [symmetric] del: of_nat_le_iff)
  moreover have "\<not> kslice (int i) \<le> lg - 1" if "lg \<noteq> 0"
    using kslice_le [OF i, of "lg - 1"] assms(1) that by (simp add: slice_start_def) 
  ultimately show ?thesis by fastforce
qed

lemma cnt_same: "(\<And>k. k \<in> set xs \<Longrightarrow> kslice k = lg) \<Longrightarrow> cnt xs = (\<lambda>l. if l = lg then length xs else 0)"
  by (induction xs) (auto simp: cnt_def fun_eq_iff)

lemma numusearray_loop_cnt:
  assumes size: "sizearray t \<le> 2 ^ 30"
  shows "lg \<le> 31 \<Longrightarrow> i = min (slice_start lg) (sizearray t + 1) \<Longrightarrow>
    numusearray_loop t [lg..<31] i ause nums =
      (ause + length (array_keys t i (sizearray t + 1)), \<lambda>l. nums l + cnt (array_keys t i (sizearray t + 1)) l)"
proof (induction "31 - lg" arbitrary: lg i ause nums)
  case 0
  then have "i = sizearray t + 1" using size by (simp add: slice_start_def)
  then show ?case using 0 by (simp add: array_keys_def)
next
  case (Suc n)
  then have lg: "lg < 31" by simp
  let ?sz = "sizearray t"
  have up: "[lg..<31] = lg # [Suc lg..<31]" using lg by (rule upt_conv_Cons)
  show ?case
  proof (cases "i > ?sz")
    case True
    then have i: "i = ?sz + 1" using Suc.prems(2) by simp
    have none: "array_keys t (?sz + 1) (?sz + 1) = []" by (simp add: array_keys_def)
    have st: "?sz + 1 \<le> slice_start lg" using Suc.prems(2) i by (simp add: min_def split: if_splits)
    have "?sz < 2 ^ lg"
    proof (cases lg)
      case (Suc m)
      have "(0 :: nat) < 2 ^ m" "slice_start lg = 2 ^ m + 1" by (simp_all add: slice_start_def Suc)
      with st show ?thesis unfolding Suc power_Suc by linarith
    qed (use st in \<open>simp add: slice_start_def\<close>)
    then show ?thesis unfolding up i none by (simp add: Let_def)
  next
    case False
    then have i: "i = slice_start lg" "i \<le> ?sz" using Suc.prems(2) by auto
    define lim where "lim = (if 2 ^ lg > ?sz then ?sz else 2 ^ lg)"
    have il: "i \<le> lim + 1" "i \<le> lim"
      using i by (cases lg; auto simp: lim_def slice_start_def)+
    have nxt: "lim + 1 = min (slice_start (Suc lg)) (?sz + 1)" by (auto simp: lim_def slice_start_def)
    have slc: "count_slice t i lim = length (array_keys t i (lim + 1))"
      by (simp add: count_slice_def array_keys_def)
    have "kslice k = lg" if "k \<in> set (array_keys t i (lim + 1))" for k
    proof -
      from that obtain j where j: "k = int j" "i \<le> j" "j \<le> lim" by (auto simp: array_keys_def)
      have "j \<le> 2 ^ lg" using j(3) by (simp add: lim_def split: if_splits)
      with slice_start_eq [of lg j] j i lg show ?thesis by simp
    qed
    note c = cnt_same [of "array_keys t i (lim + 1)" lg, OF this]
    have split: "array_keys t i (?sz + 1) = array_keys t i (lim + 1) @ array_keys t (lim + 1) (?sz + 1)"
      by (rule array_keys_append) (use il in \<open>auto simp: lim_def\<close>)
    have "n = 31 - Suc lg" "Suc lg \<le> 31" using Suc.hyps(2) lg by auto
    note IH = Suc.hyps(1) [OF this nxt]
    have "numusearray_loop t [lg..<31] i ause nums =
      numusearray_loop t [Suc lg..<31] (lim + 1) (ause + length (array_keys t i (lim + 1)))
        (nums(lg := nums lg + length (array_keys t i (lim + 1))))"
      unfolding up using il by (simp add: Let_def lim_def [symmetric] slc max_def)
    also have "\<dots> = (ause + length (array_keys t i (?sz + 1)), \<lambda>l. nums l + cnt (array_keys t i (?sz + 1)) l)"
      unfolding split IH using c by (simp add: fun_eq_iff)
    finally show ?thesis .
  qed
qed

text \<open>The integer keys that rehash counts, and the size of the array part it chooses.\<close>

lemma cnt_less: "length (filter (\<lambda>k. kslice k < i) C) + cnt C i = length (filter (\<lambda>k. kslice k < Suc i) C)"
  by (induction C) (auto simp: cnt_def)

lemma cnt_sum:
  assumes "\<forall>k \<in> set C. 1 \<le> k \<and> k \<le> 2 ^ 30"
  shows "length (filter (\<lambda>k. kslice k < i) C) + cnt C i = length (filter (\<lambda>k. k \<le> 2 ^ i) C)"
proof -
  have "length (filter (\<lambda>k. kslice k < i) C) + cnt C i = length (filter (\<lambda>k. kslice k \<le> i) C)"
    using cnt_less by (simp add: less_Suc_eq_le)
  also have "filter (\<lambda>k. kslice k \<le> i) C = filter (\<lambda>k. k \<le> 2 ^ i) C"
    using assms kslice_le by (intro filter_cong) auto
  finally show ?thesis .
qed

definition upto_count :: "int list \<Rightarrow> int \<Rightarrow> nat" where
  "upto_count C n = length (filter (\<lambda>k. k \<le> n) C)"

lemma distinct_upto:
  assumes "distinct C" "\<forall>k \<in> set C. 1 \<le> k"
  shows "upto_count C (int n) \<le> n"
proof -
  have "set (filter (\<lambda>k. k \<le> int n) C) \<subseteq> {1..int n}" using assms(2) by auto
  then have "card (set (filter (\<lambda>k. k \<le> int n) C)) \<le> n" using card_mono [of "{1..int n}"] by fastforce
  then show ?thesis using distinct_card [OF distinct_filter [OF assms(1)]] by (simp only: upto_count_def)
qed

lemma computesizes_loop_correct:
  assumes C: "distinct C" "\<forall>k \<in> set C. 1 \<le> k \<and> k \<le> 2 ^ 30"
  shows "a = length (filter (\<lambda>k. kslice k < i) C) \<Longrightarrow> na = upto_count C (int n) \<Longrightarrow>
    n = 0 \<and> na = 0 \<or> (\<exists>j < i. n = 2 ^ j \<and> n div 2 < na) \<Longrightarrow>
    \<forall>j < i. 2 ^ j div 2 < upto_count C (2 ^ j) \<longrightarrow> 2 ^ j \<le> n \<Longrightarrow>
    computesizes_loop (cnt C) (length C) i a na n = (na', n') \<Longrightarrow>
    na' = upto_count C (int n') \<and> (n' = 0 \<and> na' = 0 \<or> (\<exists>j. n' = 2 ^ j \<and> n' div 2 < na')) \<and>
    (\<forall>j. 2 ^ j div 2 < upto_count C (2 ^ j) \<longrightarrow> 2 ^ j \<le> n')"
proof (induction "length C - 2 ^ i div 2" arbitrary: i a na n rule: less_induct)
  case less
  have C1: "\<forall>k \<in> set C. 1 \<le> k" using C(2) by blast
  have all: "upto_count C m \<le> length C" for m by (simp add: upto_count_def)
  show ?case
  proof (cases "2 ^ i div 2 < length C")
    case False
    then have r: "na' = na" "n' = n"
      using less.prems(5) by (simp_all only: computesizes_loop.simps [of _ _ i] if_False prod.inject)
    have "2 ^ j \<le> n" if "2 ^ j div 2 < upto_count C (2 ^ j)" for j
    proof (cases "j < i")
      case True
      with less.prems(4) that show ?thesis by blast
    next
      case nj: False
      then have "(2 :: nat) ^ i \<le> 2 ^ j" by (intro power_increasing) auto
      then have "(2 :: nat) ^ i div 2 \<le> 2 ^ j div 2" by (rule div_le_mono)
      with that all [of "2 ^ j"] False show ?thesis by linarith
    qed
    with less.prems(2,3) r show ?thesis by blast
  next
    case True
    let ?a = "a + cnt C i"
    have a': "?a = upto_count C (2 ^ i)" using cnt_sum [OF C(2), of i] less.prems(1) by (simp add: upto_count_def)
    have small: "a \<le> 2 ^ i div 2"
    proof (cases i)
      case (Suc m)
      have "filter (\<lambda>k. kslice k < i) C = filter (\<lambda>k. k \<le> 2 ^ m) C"
        using kslice_le [of _ m] C(2) Suc by (intro filter_cong) (auto simp: less_Suc_eq_le)
      then show ?thesis using distinct_upto [OF C(1) C1, of "2 ^ m"] less.prems(1) Suc by (simp add: upto_count_def)
    qed (use less.prems(1) in simp)
    define na1 where "na1 = (if ?a > 2 ^ i div 2 then ?a else na)"
    define n1 :: nat where "n1 = (if ?a > 2 ^ i div 2 then 2 ^ i else n)"
    have "(if cnt C i > 0 \<and> ?a > 2 ^ i div 2 then (?a, 2 ^ i) else (na, n)) = (na1, n1)"
      using small by (auto simp: na1_def n1_def)
    then have step: "(if ?a = length C then (na1, n1) else computesizes_loop (cnt C) (length C) (i + 1) ?a na1 n1) = (na', n')"
      using less.prems(5) True by (simp add: computesizes_loop.simps [of _ _ i] Let_def)
    have i1: "na1 = upto_count C (int n1)" using less.prems(2) a' by (simp add: na1_def n1_def)
    have i2: "n1 = 0 \<and> na1 = 0 \<or> (\<exists>j < i + 1. n1 = 2 ^ j \<and> n1 div 2 < na1)"
      using less.prems(3) by (auto simp: na1_def n1_def less_Suc_eq)
    have i3: "2 ^ j \<le> n1" if "j < i + 1" "2 ^ j div 2 < upto_count C (2 ^ j)" for j
    proof (cases "n1 = 2 ^ i")
      case False
      then have "n1 = n" "j \<noteq> i" using that(2) a' by (auto simp: n1_def split: if_splits)
      with that less.prems(4) show ?thesis by simp
    qed (use that(1) in \<open>simp add: power_increasing\<close>)
    show ?thesis
    proof (cases "?a = length C")
      case fin: True
      have "2 ^ j \<le> n1" if "2 ^ j div 2 < upto_count C (2 ^ j)" for j
      proof (cases "j < i + 1")
        case False
        then obtain m where m: "j = Suc m" "i \<le> m" by (cases j) auto
        have "upto_count C (2 ^ j) \<le> 2 ^ i"
          using all [of "2 ^ j"] fin a' distinct_upto [OF C(1) C1, of "2 ^ i"] by simp
        also have "\<dots> \<le> 2 ^ m" using m(2) by (intro power_increasing) auto
        finally show ?thesis using that m(1) by simp
      qed (use i3 that in blast)
      with i1 i2 step fin show ?thesis by auto
    next
      case more: False
      have "length C - 2 ^ (i + 1) div 2 < length C - 2 ^ i div 2"
      proof -
        have "(2 :: nat) ^ i div 2 < 2 ^ (i + 1) div 2" by (cases i) simp_all
        with True show ?thesis by linarith
      qed
      moreover have "?a = length (filter (\<lambda>k. kslice k < i + 1) C)"
        using less.prems(1) cnt_less [of i C] by simp
      ultimately show ?thesis
        using less.hyps [of "i + 1" ?a na1 n1] i1 i2 i3 step more by (metis (no_types, lifting))
    qed
  qed
qed

lemma computesizes_correct:
  assumes C: "distinct C" "\<forall>k \<in> set C. 1 \<le> k \<and> k \<le> 2 ^ 30" and r: "computesizes (cnt C) (length C) = (na, n)"
  shows "na = upto_count C (int n) \<and> (n = 0 \<and> na = 0 \<or> (\<exists>j. n = 2 ^ j \<and> n div 2 < na)) \<and>
    (\<forall>j. 2 ^ j div 2 < upto_count C (2 ^ j) \<longrightarrow> 2 ^ j \<le> n)"
proof (rule computesizes_loop_correct [OF C, of 0 0 0 0])
  have "filter (\<lambda>k. k \<le> 0) C = []" using C(2) by (auto simp: filter_empty_conv)
  then show "(0 :: nat) = upto_count C (int 0)" by (simp add: upto_count_def)
qed (use r in \<open>simp_all add: computesizes_def\<close>)

section \<open>Rehashing\<close>

definition live :: "Table \<Rightarrow> TValue set" where
  "live t = {k. tmap t k \<noteq> VNil}"

lemma outside_count:
  assumes ok: "table_ok H t"
  shows "length (filter (\<lambda>kv. \<not> int_upto na (fst kv)) (resize_entries t na)) = card {k \<in> live t. \<not> int_upto na k}"
proof -
  let ?L = "filter (\<lambda>k. \<not> int_upto na k) (map fst (resize_entries t na))"
  have d: "distinct ?L" using resize_entries_keys(2) [OF ok] by simp
  have "k \<in> set ?L \<longleftrightarrow> k \<in> live t \<and> \<not> int_upto na k" for k
  proof -
    have up: "\<not> int_upto (min na (sizearray t)) k" if "\<not> int_upto na k" using that by (auto simp: int_upto_def)
    have nz: "v \<noteq> VNil" if "map_of (resize_entries t na) k = Some v" for v
      using map_of_SomeD [OF that] by (auto simp: resize_entries_def slice_entries_def node_entries_def)
    have "k \<in> fst ` set (resize_entries t na) \<longleftrightarrow> map_of (resize_entries t na) k \<noteq> None"
      by (simp add: map_of_eq_None_iff)
    with resize_entries_map [OF ok, of na k] up nz show ?thesis
      by (cases "map_of (resize_entries t na) k") (auto simp: live_def)
  qed
  then have "set ?L = {k \<in> live t. \<not> int_upto na k}" by blast
  with distinct_card [OF d] show ?thesis by (simp add: filter_map comp_def)
qed

text \<open>All live keys: those of the array and those of the nodes.\<close>

lemma live_entries:
  assumes ok: "table_ok H t"
  shows "live t = set (map fst (resize_entries t 0))" "finite (live t)" "card (live t) = length (resize_entries t 0)"
proof -
  have no: "\<not> int_upto 0 k" for k by (auto simp: int_upto_def)
  have "length (resize_entries t 0) = card (live t)" using outside_count [OF ok, of 0] by (simp add: no)
  then show "card (live t) = length (resize_entries t 0)" by simp
  have nz: "v \<noteq> VNil" if "map_of (resize_entries t 0) k = Some v" for k v
    using map_of_SomeD [OF that] by (auto simp: resize_entries_def slice_entries_def node_entries_def)
  have "k \<in> live t \<longleftrightarrow> map_of (resize_entries t 0) k \<noteq> None" for k
    using resize_entries_map [OF ok, of 0 k] no nz by (cases "map_of (resize_entries t 0) k") (auto simp: live_def)
  then show "live t = set (map fst (resize_entries t 0))" by (auto simp: map_of_eq_None_iff)
  then show "finite (live t)" by simp
qed

lemma array_keys_entries:
  "array_keys t 1 (sizearray t + 1) = map arrayindex (map fst (slice_entries (arr t) [0..<sizearray t]))"
proof -
  have "[1..<sizearray t + 1] = map Suc [0..<sizearray t]" by (simp add: map_Suc_upt)
  then show ?thesis
    by (simp add: array_keys_def slice_entries_def filter_map comp_def arrayindex_def)
qed

lemma array_candidates:
  assumes "sizearray t \<le> 2 ^ 30"
  shows "candidates (map fst (slice_entries (arr t) [0..<sizearray t])) = array_keys t 1 (sizearray t + 1)"
proof -
  have "0 < arrayindex k \<and> arrayindex k \<le> MAXASIZE" if "k \<in> set (map fst (slice_entries (arr t) [0..<sizearray t]))" for k
    using that assms by (auto simp: slice_entries_def arrayindex_def MAXASIZE_def MAXBITS_def)
  then have "filter (\<lambda>k. 0 < arrayindex k \<and> arrayindex k \<le> MAXASIZE) (map fst (slice_entries (arr t) [0..<sizearray t]))
      = map fst (slice_entries (arr t) [0..<sizearray t])" by (simp only: filter_id_conv) blast
  then show ?thesis unfolding candidates_def array_keys_entries by simp
qed

text \<open>What rehash computes before it resizes.\<close>

definition count_keys :: "Table \<Rightarrow> TValue \<Rightarrow> int list" where
  "count_keys t ek = candidates (map fst (resize_entries t 0) @ [ek])"

lemma rehash_resize:
  assumes "sizearray t \<le> 2 ^ 30"
  shows "rehash_with nk H t ek =
    (let (na, n) = computesizes (cnt (count_keys t ek)) (length (count_keys t ek))
     in resize_with nk H t n (length (resize_entries t 0) + 1 - na))"
proof -
  let ?A = "array_keys t 1 (sizearray t + 1)" and ?L = "map fst (node_entries (node t) (rev [0..<sizenode t]))"
  have "numusearray t (\<lambda>_. 0) = (length ?A, cnt ?A)"
    using numusearray_loop_cnt [OF assms, of 0 1] by (simp add: numusearray_def MAXBITS_def slice_start_def)
  moreover have "numusehash t (cnt ?A) = (length ?L, length (candidates ?L), \<lambda>l. cnt ?A l + cnt (candidates ?L) l)"
    by (simp add: numusehash_def numusehash_loop_cnt Let_def)
  moreover have "count_keys t ek = ?A @ candidates ?L @ candidates [ek]"
    unfolding count_keys_def resize_entries_def using array_candidates [OF assms] by simp
  moreover have "length ?A = length (slice_entries (arr t) [0..<sizearray t])"
    unfolding array_keys_entries by simp
  moreover have "cnt (xs @ ys @ zs) = (\<lambda>l. cnt xs l + cnt ys l + cnt zs l)" for xs ys zs
    by (simp add: fun_eq_iff)
  moreover have "length (resize_entries t 0) = length (slice_entries (arr t) [0..<sizearray t]) + length ?L"
    by (simp add: resize_entries_def)
  ultimately show ?thesis
    unfolding rehash_with_def countint_cnt Let_def
    by (simp only: prod.case length_append length_map add.assoc split: prod.splits)
qed

lemma candidates_upto:
  "n \<le> 2 ^ 30 \<Longrightarrow> upto_count (candidates ks) (int n) = length (filter (int_upto n) ks)"
proof (induction ks)
  case (Cons k ks)
  have "(0 < arrayindex k \<and> arrayindex k \<le> MAXASIZE) \<and> arrayindex k \<le> int n \<longleftrightarrow> int_upto n k"
    using Cons.prems by (auto simp: arrayindex_def int_upto_def MAXASIZE_def MAXBITS_def split: TValue.splits lnum.splits)
  with Cons show ?case by (auto simp: upto_count_def)
qed (simp add: upto_count_def)

lemma candidates_range: "k \<in> set (candidates ks) \<Longrightarrow> 1 \<le> k \<and> k \<le> 2 ^ 30"
  by (auto simp: candidates_def MAXASIZE_def MAXBITS_def)

lemma candidates_distinct: "distinct ks \<Longrightarrow> distinct (candidates ks)"
proof -
  have "k = VNum (NInt (arrayindex k))" if "0 < arrayindex k" for k
    using that by (auto simp: arrayindex_def split: TValue.splits lnum.splits)
  then have "inj_on arrayindex {k. 0 < arrayindex k}" by (metis (mono_tags, lifting) inj_onI mem_Collect_eq)
  then show "distinct ks \<Longrightarrow> distinct (candidates ks)"
    by (auto simp: candidates_def distinct_map intro: inj_on_subset)
qed

lemma rehash_correct:
  assumes ok: "table_ok H t" and size: "sizearray t \<le> 2 ^ 30" and new: "tmap t ek = VNil"
    and few: "card (live t) < 2 ^ 30"
  shows "\<exists>t'. rehash_with (luaH_newkey (Suc f) H) H t ek = Inr t' \<and> table_ok H t' \<and> tmap t' = tmap t \<and>
    sizearray t' \<le> 2 ^ 30 \<and> room t' ek"
proof -
  let ?ks = "map fst (resize_entries t 0) @ [ek]" and ?C = "count_keys t ek"
  have "ek \<notin> set (map fst (resize_entries t 0))" using new live_entries(1) [OF ok] by (auto simp: live_def)
  then have "distinct ?ks" using resize_entries_keys(2) [OF ok] by simp
  then have C: "distinct ?C" "\<forall>k \<in> set ?C. 1 \<le> k \<and> k \<le> 2 ^ 30"
    using candidates_distinct candidates_range unfolding count_keys_def by blast+
  obtain na n where nan: "computesizes (cnt ?C) (length ?C) = (na, n)" by fastforce
  note cs = computesizes_correct [OF C nan]
  have "length ?C = upto_count ?C (int (2 ^ 30))" using C(2) by (simp add: upto_count_def)
  then have lenC: "length ?C \<le> 2 ^ 30" using distinct_upto [OF C(1), of "2 ^ 30"] C(2) by simp
  have n30: "n \<le> 2 ^ 30"
  proof (cases "n = 0")
    case False
    then obtain j where j: "n = 2 ^ j" "n div 2 < na" using cs by auto
    have "na \<le> length ?C" using cs by (simp add: upto_count_def)
    with j lenC have "(2 :: nat) ^ j div 2 < 2 ^ 30" by linarith
    then have "(2 :: nat) ^ j < 2 ^ 31" by (simp add: div_less_iff_less_mult)
    then have "j < 31" using power_less_imp_less_exp [of "2 :: nat" j 31] by simp
    then have "(2 :: nat) ^ j \<le> 2 ^ 30" by (intro power_increasing) auto
    with j show ?thesis by simp
  qed simp
  have na: "na = length (filter (int_upto n) ?ks)"
    using cs candidates_upto [OF n30, of ?ks] by (simp only: count_keys_def)
  let ?out = "{k \<in> live t. \<not> int_upto n k}"
  define nh where "nh = length (resize_entries t 0) + 1 - na"
  have "nh = length (filter (\<lambda>k. \<not> int_upto n k) ?ks)"
    using sum_length_filter_compl [of "int_upto n" ?ks] by (simp add: nh_def na)
  moreover have "length (filter (\<lambda>k. \<not> int_upto n k) (map fst (resize_entries t 0))) = card ?out"
    using distinct_card [OF distinct_filter [OF resize_entries_keys(2) [OF ok, of 0]], of "\<lambda>k. \<not> int_upto n k"]
      live_entries(1) [OF ok] by simp
  ultimately have nh: "nh = card ?out + (if int_upto n ek then 0 else 1)" by simp
  have "card ?out \<le> card (live t)" using live_entries(2) [OF ok] by (intro card_mono) auto
  with nh few have nh30: "nh \<le> 2 ^ 30" by simp
  have lg: "nh = 0 \<or> luaO_ceillog2 (of_nat nh) \<le> MAXBITS"
  proof (cases "nh = 0")
    case False
    have "int nh \<le> 2 ^ 30" using nh30 by (simp add: of_nat_le_iff [symmetric] del: of_nat_le_iff)
    then have "kslice (int nh) \<le> 30" using kslice_le [of "int nh" 30] False by simp
    then show ?thesis by (simp add: kslice_def MAXBITS_def)
  qed simp
  have "nh < 2 ^ 32" using nh30 by simp
  from resize_correct [OF ok this lg, of n f] nh outside_count [OF ok, of n]
  obtain t' where t': "luaH_resize (Suc f) H t n nh = Inr t'" "table_ok H t'" "tmap t' = tmap t"
    "sizearray t' = n" "is_dummy t' = (nh = 0)" "nh \<le> sizenode t'" "card (used t') \<le> card ?out" by auto
  have "room t' ek"
    using t'(4,5,6,7) nh by (auto simp: room_def cell_of_def in_array_upto)
  with t' n30 show ?thesis
    unfolding rehash_resize [OF size] nan Let_def prod.case nh_def [symmetric] luaH_resize_def [symmetric] by auto
qed

text \<open>luaH_set always succeeds, with two levels of fuel, on a table with fewer than 2 ^ 30 entries.\<close>

lemma getfreepos_same:
  assumes "getfreepos t = (None, t')" "table_ok H t"
  shows "table_ok H t'" "tmap t' = tmap t" "sizearray t' = sizearray t" "cell_of t' = cell_of t" "live t' = live t"
proof -
  obtain f where f: "t' = t\<lparr>lastfree := f\<rparr>" "f = 0"
  proof -
    have "snd (getfreepos_loop t n) = 0" if "fst (getfreepos_loop t n) = None" for n
      using that by (induction n) (auto split: if_splits)
    from this [of "lastfree t"] assms(1) that [of 0] show thesis by (auto simp: getfreepos_def split: prod.splits)
  qed
  have us: "used t' = used t" "linked t' = linked t" "in_array t' = in_array t"
    unfolding f(1) by (simp_all add: used_def linked_def in_array_def fun_eq_iff)
  have node: "node t' = node t" by (simp add: f(1))
  have "free_ok t'"
  proof (cases "is_dummy t")
    case True
    then show ?thesis using table_okD(3) [OF assms(2)] by (simp add: f free_ok_def)
  next
    case False
    from getfreepos_None [OF table_okD(3) [OF assms(2)] assms(1) False] table_okD(3) [OF assms(2)] False
    show ?thesis by (auto simp: f free_ok_def used_def)
  qed
  with assms(2) show "table_ok H t'"
    unfolding table_ok_def chains_ok_def keys_ok_def us node by (simp add: f(1))
  have gk: "gkey t' = gkey t" by (simp add: f(1))
  show c: "cell_of t' = cell_of t" unfolding cell_of_def the_node_def us gk fun_eq_iff by simp
  have cv: "cell_val t' = cell_val t" by (simp add: fun_eq_iff cell_val_def f(1) split: cell.splits)
  show m: "tmap t' = tmap t" unfolding tmap_def c cv ..
  show "sizearray t' = sizearray t" by (simp add: f(1))
  show "live t' = live t" by (simp add: live_def m)
qed

lemma set_correct:
  assumes ok: "table_ok H t" and size: "sizearray t \<le> 2 ^ 30" and vk: "valid_key k" and few: "card (live t) < 2 ^ 30"
  shows "\<exists>t' c. luaH_set (Suc (Suc f)) H t k = Inr (t', c) \<and> set_ok H t k t' c \<and> sizearray t' \<le> 2 ^ 30"
proof (cases "cell_of t k = CNilObject")
  case False
  then have "room t k" by (simp add: room_def)
  from set_room [OF ok vk this, of "Suc f"] size show ?thesis by (auto simp: sizearray_def)
next
  case c: True
  note ins = insertableI [OF ok vk c]
  have get: "luaH_set (Suc (Suc f)) H t k = luaH_newkey (Suc (Suc f)) H t k"
    using luaH_get_cell [OF ok] c by (simp add: luaH_set_def set_with_def del: luaH_newkey.simps)
  have k: "k \<noteq> VNil" "k \<noteq> VNum NNaN" using vk by (auto simp: valid_key_def)
  have done_ok: ?thesis if "luaH_newkey (Suc (Suc f)) H t k = Inr (t', CNode i)" "inserted H t k t' i" for t' i
    using that inserted_set_ok [OF ins that(2)] get size
    by (auto simp: inserted_def sizearray_def simp del: luaH_newkey.simps)
  let ?mp = "mainposition H t k"
  show ?thesis
  proof (cases "gval t ?mp = VNil \<and> \<not> is_dummy t")
    case True
    with insert_main [OF ins refl] k show ?thesis by (intro done_ok) (auto simp: Let_def)
  next
    case taken: False
    obtain r t1 where g: "getfreepos t = (r, t1)" by fastforce
    show ?thesis
    proof (cases r)
      case (Some n)
      from getfreepos_Some [OF table_okD(3) [OF ok] g [unfolded Some]]
      have t1: "t1 = t\<lparr>lastfree := n\<rparr>" "free_node t n" .
      then have "gval t ?mp \<noteq> VNil" using taken by (simp add: free_node_def)
      from insert_colliding_correct [OF ins refl this t1(2)] obtain t2 i where
        "insert_colliding H (t\<lparr>lastfree := n\<rparr>) ?mp n = Inr (t2, i)" "inserted H t k (set_key t2 i k) i" by blast
      with taken g Some t1(1) k show ?thesis by (intro done_ok) (auto simp: Let_def)
    next
      case None
      note same = getfreepos_same [OF g [unfolded None] ok]
      have "tmap t1 k = VNil" using same(2) c by (simp add: tmap_def cell_val_def)
      from rehash_correct [OF same(1) _ this, of f] same few size obtain t2 where
        t2: "rehash_with (luaH_newkey (Suc f) H) H t1 k = Inr t2" "table_ok H t2" "tmap t2 = tmap t1"
        "sizearray t2 \<le> 2 ^ 30" "room t2 k" by auto
      from set_room [OF t2(2) vk t2(5), of f] obtain t3 c3 where
        t3: "luaH_set (Suc f) H t2 k = Inr (t3, c3)" "set_ok H t2 k t3 c3" "arr t3 = arr t2" by blast
      have "luaH_newkey (Suc (Suc f)) H t k = luaH_set (Suc f) H t2 k"
        using taken g None t2(1) k unfolding luaH_newkey.simps(2) [of "Suc f"] by (auto simp: Let_def luaH_set_def)
      with t3 t2 same(2) get show ?thesis by (auto simp: set_ok_def sizearray_def simp del: luaH_newkey.simps)
    qed
  qed
qed

section \<open>Boundaries\<close>

abbreviation int_key :: "nat \<Rightarrow> TValue" where
  "int_key i \<equiv> VNum (NInt (int i))"

definition present :: "Table \<Rightarrow> nat \<Rightarrow> bool" where
  "present t i \<longleftrightarrow> i = 0 \<or> tmap t (int_key i) \<noteq> VNil"

definition boundary :: "Table \<Rightarrow> nat \<Rightarrow> bool" where
  "boundary t i \<longleftrightarrow> present t i \<and> tmap t (int_key (i + 1)) = VNil"

lemma getint_val_tmap: "table_ok H t \<Longrightarrow> getint_val H t j = Inr (tmap t (int_key j))"
  by (simp add: getint_val_def luaH_getint_cell tmap_def)

lemma tmap_int_array: "1 \<le> i \<Longrightarrow> i \<le> sizearray t \<Longrightarrow> tmap t (int_key i) = arr t ! (i - 1)"
  by (simp add: tmap_array in_array_def arrayindex_def nat_diff_distrib)

lemma unbound_binary_correct:
  assumes ok: "table_ok H t"
  shows "i < j \<Longrightarrow> present t i \<Longrightarrow> tmap t (int_key j) = VNil \<Longrightarrow>
    \<exists>n. unbound_binary H t i j = Inr n \<and> boundary t n"
proof (induction "j - i" arbitrary: i j rule: less_induct)
  case less
  show ?case
  proof (cases "j - i > 1")
    case True
    let ?m = "(i + j) div 2"
    have m: "i < ?m" "?m < j" "?m - i < j - i" "j - ?m < j - i" using True by linarith+
    show ?thesis
    proof (cases "tmap t (int_key ?m) = VNil")
      case nil: True
      with less.hyps [OF m(3,1) less.prems(2)] True show ?thesis
        unfolding unbound_binary.simps [of H t i j] by (simp only: if_True Let_def getint_val_tmap [OF ok] bindE_simps simp_thms)
    next
      case nn: False
      then have "present t ?m" by (simp only: present_def) simp
      with less.hyps [OF m(4,2)] less.prems(3) True nn show ?thesis
        unfolding unbound_binary.simps [of H t i j]
        by (simp only: if_True if_False Let_def getint_val_tmap [OF ok] bindE_simps)
    qed
  next
    case False
    with less.prems have "j = i + 1" by simp
    moreover have "unbound_binary H t i j = Inr i" using False by (simp add: unbound_binary.simps [of H t i j])
    ultimately show ?thesis using less.prems by (simp add: boundary_def)
  qed
qed

lemma getn_binary_correct:
  "i < j \<Longrightarrow> j \<le> sizearray t \<Longrightarrow> present t i \<Longrightarrow> tmap t (int_key j) = VNil \<Longrightarrow> boundary t (getn_binary t i j)"
proof (induction "j - i" arbitrary: i j rule: less_induct)
  case less
  show ?case
  proof (cases "j - i > 1")
    case True
    let ?m = "(i + j) div 2"
    have m: "i < ?m" "?m < j" "?m - i < j - i" "j - ?m < j - i" using True by linarith+
    have v: "tmap t (int_key ?m) = arr t ! (?m - 1)" using m less.prems(2) by (intro tmap_int_array) linarith+
    show ?thesis
    proof (cases "arr t ! (?m - 1) = VNil")
      case nil: True
      have "boundary t (getn_binary t i ?m)"
        using less.hyps [OF m(3,1) _ less.prems(3)] m(2) less.prems(2) nil v by simp
      with True nil show ?thesis by (simp add: getn_binary.simps [of t i j] Let_def)
    next
      case nn: False
      then have "present t ?m" using v by (simp only: present_def) simp
      with less.hyps [OF m(4,2) less.prems(2)] less.prems(4) True nn show ?thesis
        by (simp add: getn_binary.simps [of t i j] Let_def)
    qed
  next
    case False
    with less.prems have "j = i + 1" by simp
    moreover have "getn_binary t i j = i" using False by (simp add: getn_binary.simps [of t i j])
    ultimately show ?thesis using less.prems by (simp add: boundary_def)
  qed
qed

lemma unbound_double_correct:
  assumes ok: "table_ok H t"
  shows "i < j \<Longrightarrow> 2 ^ 32 \<le> j * 2 ^ fuel \<Longrightarrow> present t i \<Longrightarrow>
    unbound_double fuel H t i j = Inr None \<or>
    (\<exists>i' j'. unbound_double fuel H t i j = Inr (Some (i', j')) \<and> i' < j' \<and> present t i' \<and> tmap t (int_key j') = VNil)
    \<or> fuel = 0 \<or> 2 ^ 31 - 1 < j"
proof (induction fuel arbitrary: i j)
  case (Suc fuel)
  show ?case
  proof (cases "tmap t (int_key j) = VNil")
    case True
    then show ?thesis using Suc.prems by (simp add: getint_val_tmap [OF ok])
  next
    case False
    then have pj: "present t j" by (simp add: present_def)
    show ?thesis
    proof (cases "j * 2 > 2 ^ 31 - 1")
      case True
      then show ?thesis using False by (simp add: getint_val_tmap [OF ok] Let_def)
    next
      case small: False
      have j: "j < j * 2" using Suc.prems(1) by simp
      have "2 ^ 32 \<le> j * 2 * 2 ^ fuel" using Suc.prems(2) by (simp add: mult.assoc)
      moreover have "fuel \<noteq> 0" using calculation small by (cases fuel) auto
      ultimately show ?thesis
        using Suc.IH [OF j _ pj] small False by (simp add: getint_val_tmap [OF ok] Let_def)
    qed
  qed
qed simp

lemma linear_search_correct:
  assumes ok: "table_ok H t" and m: "tmap t (int_key m) = VNil"
  shows "1 \<le> i \<Longrightarrow> i \<le> m \<Longrightarrow> m < i + fuel \<Longrightarrow> present t (i - 1) \<Longrightarrow>
    \<exists>n. linear_search fuel H t i = Inr n \<and> boundary t n"
proof (induction fuel arbitrary: i)
  case (Suc fuel)
  show ?case
  proof (cases "tmap t (int_key i) = VNil")
    case True
    then show ?thesis using Suc.prems by (simp add: getint_val_tmap [OF ok] boundary_def)
  next
    case False
    then have "present t i" "i \<noteq> m" using m by (auto simp: present_def)
    then show ?thesis using Suc.IH [of "i + 1"] Suc.prems False by (simp add: getint_val_tmap [OF ok])
  qed
qed simp

text \<open>A table with fewer than n entries misses one of the keys 1..n.\<close>

lemma missing_key:
  assumes "finite (live t)" "card (live t) < n"
  shows "\<exists>m. 1 \<le> m \<and> m \<le> n \<and> tmap t (int_key m) = VNil"
proof (rule ccontr)
  assume "\<not> ?thesis"
  then have "int_key ` {1..n} \<subseteq> live t" by (auto simp: live_def)
  then have "card (int_key ` {1..n}) \<le> card (live t)" by (rule card_mono [OF assms(1)])
  moreover have "card (int_key ` {1..n}) = n" by (subst card_image) (auto simp: inj_on_def)
  ultimately show False using assms(2) by simp
qed

section \<open>Traversal\<close>

text \<open>The entry at a position of the traversal: array slots first, then nodes.\<close>

definition entry_at :: "Table \<Rightarrow> nat \<Rightarrow> TValue \<times> TValue" where
  "entry_at t q = (if q < sizearray t then (int_key (q + 1), arr t ! q)
     else (gkey t (q - sizearray t), gval t (q - sizearray t)))"

definition live_at :: "Table \<Rightarrow> nat \<Rightarrow> bool" where
  "live_at t q \<longleftrightarrow> snd (entry_at t q) \<noteq> VNil"

definition positions :: "Table \<Rightarrow> nat" where
  "positions t = sizearray t + sizenode t"

lemma next_array_find:
  "set is \<subseteq> {..<sizearray t} \<Longrightarrow> next_array t is = map_option (entry_at t) (find (live_at t) is)"
  by (induction "is") (auto simp: entry_at_def live_at_def add.commute)

lemma next_node_find:
  "next_node t is = map_option (entry_at t) (find (live_at t) (map (\<lambda>i. i + sizearray t) is))"
  by (induction "is") (auto simp: entry_at_def live_at_def)

lemma find_append: "find P (xs @ ys) = (case find P xs of Some x \<Rightarrow> Some x | None \<Rightarrow> find P ys)"
  by (induction xs) auto

lemma map_plus_upt: "map (\<lambda>i. i + s) [a..<b] = [a + s..<b + s]" for a b s :: nat
  by (induction b) auto

lemma luaH_next_find:
  assumes "findindex H t k = Inr (int q - 1)"
  shows "luaH_next H t k = Inr (map_option (entry_at t) (find (live_at t) [q..<positions t]))"
proof -
  let ?s = "sizearray t"
  have split: "[q..<positions t] = [q..<?s] @ map (\<lambda>i. i + ?s) [q - ?s..<sizenode t]"
  proof (cases "q \<le> ?s")
    case True
    then have "[q..<positions t] = [q..<?s] @ [?s..<?s + sizenode t]"
      using upt_add_eq_append [of q ?s "sizenode t"] by (simp add: positions_def)
    then show ?thesis using True by (simp add: map_add_upt add.commute)
  next
    case False
    then have "map (\<lambda>i. i + ?s) [q - ?s..<sizenode t] = [q..<positions t]"
      by (simp add: map_plus_upt positions_def add.commute)
    with False show ?thesis by simp
  qed
  have "set [q..<?s] \<subseteq> {..<?s}" by auto
  then show ?thesis
    using assms next_array_find [of "[q..<?s]" t] next_node_find [of t "[q - ?s..<sizenode t]"]
    by (auto simp: luaH_next_def Let_def split find_append split: option.splits)
qed

lemma findindex_entry:
  assumes ok: "table_ok H t" and q: "q < positions t" "live_at t q"
  shows "findindex H t (fst (entry_at t q)) = Inr (int q)"
proof (cases "q < sizearray t")
  case True
  then show ?thesis by (simp add: findindex_def entry_at_def arrayindex_def)
next
  case False
  let ?i = "q - sizearray t" and ?k = "gkey t (q - sizearray t)"
  have i: "?i \<in> used t"
    using q False live_used [OF table_okD(1) [OF ok], of ?i] by (simp add: positions_def live_at_def entry_at_def)
  have k: "?k \<noteq> VNil" "?k \<noteq> VNum NNaN" "\<not> in_array t ?k"
    using keys_okD(4,5) [OF table_okD(2) [OF ok] i] i by (auto simp: used_def)
  then have "\<not> (0 < arrayindex ?k \<and> arrayindex ?k \<le> int (sizearray t))"
    by (auto simp: in_array_def arrayindex_def split: TValue.splits lnum.splits)
  moreover have "(\<lambda>x. rawequal x ?k) = (\<lambda>x. x = ?k)" using k(2) by (auto simp: rawequal_def)
  ultimately show ?thesis
    using search_key [OF ok k(1,2)] the_node_eq [OF table_okD(2) [OF ok] i] i k(1) False
    by (auto simp: findindex_def entry_at_def the_node_def)
qed

text \<open>A traversal as a client makes it, from a key on.\<close>

primrec traverse :: "nat \<Rightarrow> hashes \<Rightarrow> Table \<Rightarrow> TValue \<Rightarrow> table_error + (TValue \<times> TValue) list" where
  "traverse 0 H t k = Inl SearchFuel"
| "traverse (Suc fuel) H t k = bindE (luaH_next H t k) (\<lambda>r. case r of
     None \<Rightarrow> Inr []
   | Some kv \<Rightarrow> bindE (traverse fuel H t (fst kv)) (\<lambda>kvs. Inr (kv # kvs)))"

lemma find_filter: "find P xs = (case filter P xs of [] \<Rightarrow> None | x # _ \<Rightarrow> Some x)"
  by (induction xs) auto

lemma filter_upt_Cons:
  assumes "filter P [q..<n] = x # xs"
  shows "q \<le> x \<and> x < n \<and> P x \<and> filter P [x + 1..<n] = xs"
  using assms
proof (induction "n - q" arbitrary: q)
  case (Suc d)
  then have q: "[q..<n] = q # [q + 1..<n]" by (simp add: upt_conv_Cons)
  show ?case
  proof (cases "P q")
    case True
    with Suc.prems q have "x = q" "filter P [q + 1..<n] = xs" by auto
    with True Suc.hyps(2) show ?thesis by auto
  next
    case False
    with Suc.prems q have "filter P [q + 1..<n] = x # xs" by auto
    moreover have "d = n - (q + 1)" using Suc.hyps(2) by simp
    ultimately show ?thesis using Suc.hyps(1) [of "q + 1"] by simp
  qed
qed simp

lemma traverse_from:
  assumes ok: "table_ok H t"
  shows "findindex H t k = Inr (int q - 1) \<Longrightarrow> length (filter (live_at t) [q..<positions t]) < fuel \<Longrightarrow>
    traverse fuel H t k = Inr (map (entry_at t) (filter (live_at t) [q..<positions t]))"
proof (induction fuel arbitrary: k q)
  case (Suc fuel)
  note nx = luaH_next_find [OF Suc.prems(1), unfolded find_filter]
  show ?case
  proof (cases "filter (live_at t) [q..<positions t]")
    case Nil
    then show ?thesis by (simp add: nx)
  next
    case (Cons x xs)
    from filter_upt_Cons [OF Cons] have x: "x < positions t" "live_at t x" "filter (live_at t) [x + 1..<positions t] = xs" by auto
    have "findindex H t (fst (entry_at t x)) = Inr (int (x + 1) - 1)" using findindex_entry [OF ok x(1,2)] by simp
    from Suc.IH [OF this] Suc.prems(2) Cons x(3) show ?thesis by (simp add: nx)
  qed
qed simp

text \<open>The entries in traversal order are the live keys with their values.\<close>

lemma traversal_entries:
  "map (entry_at t) (filter (live_at t) [0..<positions t]) =
     slice_entries (arr t) [0..<sizearray t] @ node_entries (node t) [0..<sizenode t]"
proof -
  let ?s = "sizearray t"
  have up: "[0..<positions t] = [0..<?s] @ map (\<lambda>i. i + ?s) [0..<sizenode t]"
    using upt_add_eq_append [of 0 ?s "sizenode t"] map_add_upt [of ?s "sizenode t"] by (simp add: positions_def add.commute)
  have "map (entry_at t) (filter (live_at t) [0..<?s]) = slice_entries (arr t) [0..<?s]"
    unfolding slice_entries_def by (rule map_cong [OF filter_cong]) (auto simp: live_at_def entry_at_def add.commute)
  moreover have "map (entry_at t) (filter (live_at t) (map (\<lambda>i. i + ?s) [0..<sizenode t])) = node_entries (node t) [0..<sizenode t]"
    by (simp add: node_entries_def filter_map comp_def live_at_def entry_at_def gkey_def gval_def)
  ultimately show ?thesis unfolding up by simp
qed

section \<open>Properties\<close>

lemma table_ok_new: "table_ok H luaH_new" "tmap luaH_new k = VNil"
proof -
  have "fresh_hash luaH_new" by (simp add: fresh_hash_def luaH_new_def sizenode_def)
  from fresh_hash_ok(1,3) [OF this] show "table_ok H luaH_new" "tmap luaH_new k = VNil"
    by (auto simp: in_array_def sizearray_def luaH_new_def)
qed

lemma live_new: "live luaH_new = {}" "sizearray luaH_new = 0"
  by (simp_all add: live_def table_ok_new(2)) (simp add: luaH_new_def sizearray_def)

text \<open>C8: Inserting into a table never fails and loses nothing. On a table that satisfies the invariant, with
  fewer than 2 ^ 30 entries, luaH_set returns a cell for every key but nil and NaN, whatever the hash
  functions are and whether the key collides, moves another node or makes the table rehash; the table
  still satisfies the invariant and has the same contents, and storing a value through the cell
  changes the value of this key only. At most one rehash happens.\<close>

theorem luaH_set_correct:
  assumes "table_ok H t" and "sizearray t \<le> 2 ^ 30" and "card (live t) < 2 ^ 30"
    and "k \<noteq> VNil" and "k \<noteq> VNum NNaN"
  shows "\<exists>t' c. luaH_set (Suc (Suc f)) H t k = Inr (t', c) \<and> tmap t' = tmap t \<and>
    (\<forall>v. table_ok H (setobj t' c v) \<and> tmap (setobj t' c v) = (tmap t)(k := v)) \<and>
    sizearray t' \<le> 2 ^ 30"
proof -
  have "valid_key k" using assms(4,5) by (simp add: valid_key_def)
  from set_correct [OF assms(1,2) this assms(3), of f] obtain t' c where
    t': "luaH_set (Suc (Suc f)) H t k = Inr (t', c)" "sizearray t' \<le> 2 ^ 30"
    and ok: "table_ok H t'" "cell_of t' k = c" "c \<noteq> CNilObject" "tmap t' = tmap t"
    by (auto simp: set_ok_def)
  have "cell_ok t' c" using cell_of_ok [OF ok(1), of k] ok(2,3) by simp
  then have "table_ok H (setobj t' c v)" "tmap (setobj t' c v) = (tmap t)(k := v)" for v
    using table_ok_setobj [OF ok(1)] tmap_setobj [OF ok(1,2,3)] ok(4) by simp_all
  with t' ok(4) show ?thesis by blast
qed

definition H0 :: hashes where
  "H0 = \<lparr>h_num = (\<lambda>n. case n of NInt i \<Rightarrow> i | _ \<Rightarrow> 0), h_str = (\<lambda>s. of_nat (length s))\<rparr>"

theorem luaH_set_correct_witness:
  "\<exists>t' c. luaH_set 2 H0 luaH_new (VShrStr [120]) = Inr (t', c) \<and> tmap t' = tmap luaH_new \<and>
    (\<forall>v. table_ok H0 (setobj t' c v) \<and> tmap (setobj t' c v) = (tmap luaH_new)(VShrStr [120] := v)) \<and>
    sizearray t' \<le> 2 ^ 30"
  using luaH_set_correct [OF table_ok_new(1), of "VShrStr [120]" 0 H0]
  by (simp add: numeral_2_eq_2 live_new del: luaH_newkey.simps)

text \<open>LuaH_get reads what was stored: its result is a cell that holds the value of the key in the table's
  contents, for every key, with the search of the chain never running out of the nodes; luaH_getint
  and luaH_getstr agree with it.\<close>

theorem luaH_get_correct:
  assumes "table_ok H t"
  shows "(\<exists>c. luaH_get H t k = Inr c \<and> cell_val t c = tmap t k) \<and>
    luaH_getint H t i = luaH_get H t (VNum (NInt i)) \<and>
    luaH_getstr H t s = luaH_get H t (VShrStr s)"
  using luaH_get_cell [OF assms] luaH_getint_cell [OF assms] by (simp add: tmap_def luaH_get_def)

theorem luaH_get_correct_witness:
  "(\<exists>c. luaH_get H0 luaH_new (VBool True) = Inr c \<and> cell_val luaH_new c = tmap luaH_new (VBool True)) \<and>
    luaH_getint H0 luaH_new 7 = luaH_get H0 luaH_new (VNum (NInt 7)) \<and>
    luaH_getstr H0 luaH_new [] = luaH_get H0 luaH_new (VShrStr [])"
  using luaH_get_correct [OF table_ok_new(1) [of H0], where k = "VBool True" and i = 7 and s = "[]"] .

text \<open>Computesizes finds the optimal size of the array part: for the counts of any distinct keys in
  1..2^30, the size n is 0 or a power of two of whose slots more than half would be used, no larger power
  of two has this, and na is the number of keys that go to the array.\<close>

theorem computesizes_optimal:
  assumes "distinct C" and "\<forall>k \<in> set C. 1 \<le> k \<and> k \<le> 2 ^ 30"
    and "computesizes (cnt C) (length C) = (na, n)"
  shows "na = length (filter (\<lambda>k. k \<le> int n) C) \<and> (n = 0 \<or> (\<exists>j. n = 2 ^ j) \<and> n div 2 < na) \<and>
    (\<forall>j. 2 ^ j div 2 < length (filter (\<lambda>k. k \<le> 2 ^ j) C) \<longrightarrow> 2 ^ j \<le> n)"
  using computesizes_correct [OF assms] by (auto simp: upto_count_def)

theorem computesizes_optimal_witness:
  "computesizes (cnt [1, 2, 3, 100]) (length [1, 2, 3, 100 :: int]) = (3, 4) \<and>
   3 = length (filter (\<lambda>k. k \<le> int 4) [1, 2, 3, 100 :: int])"
proof -
  have c: "computesizes (cnt [1, 2, 3, 100]) (length [1, 2, 3, 100 :: int]) = (3, 4)" by code_simp
  have "distinct [1, 2, 3, 100 :: int]" "\<forall>k \<in> set [1, 2, 3, 100 :: int]. 1 \<le> k \<and> k \<le> 2 ^ 30" by simp_all
  from computesizes_optimal [OF this c] c show ?thesis by blast
qed

text \<open>LuaH_resize keeps the contents, for any new sizes the hash part of which can hold the entries that are
  not in the new array part.\<close>

theorem luaH_resize_correct:
  assumes "table_ok H t" and "nh \<le> 2 ^ 30" and "card {k \<in> live t. \<not> int_upto na k} \<le> nh"
  shows "\<exists>t'. luaH_resize (Suc f) H t na nh = Inr t' \<and> table_ok H t' \<and> tmap t' = tmap t \<and>
    sizearray t' = na \<and> nh \<le> sizenode t'"
proof -
  have "nh = 0 \<or> luaO_ceillog2 (of_nat nh) \<le> MAXBITS"
  proof (cases "nh = 0")
    case False
    have "int nh \<le> 2 ^ 30" using assms(2) by (simp add: of_nat_le_iff [symmetric] del: of_nat_le_iff)
    then have "kslice (int nh) \<le> 30" using kslice_le [of "int nh" 30] False by simp
    then show ?thesis by (simp add: kslice_def MAXBITS_def)
  qed simp
  from resize_correct [OF assms(1) _ this, of na f] assms(2,3) outside_count [OF assms(1), of na]
  show ?thesis by auto
qed

theorem luaH_resize_correct_witness:
  "\<exists>t'. luaH_resize 1 H0 luaH_new 3 2 = Inr t' \<and> table_ok H0 t' \<and> tmap t' = tmap luaH_new \<and>
    sizearray t' = 3 \<and> 2 \<le> sizenode t'"
  using luaH_resize_correct [OF table_ok_new(1), of 2 3 0 H0] by (simp add: live_new)

text \<open>LuaH_getn, the length operator, returns a boundary of the table: 0 or a present index whose
  successor is absent, whether it is found by binary search in the array, by the unbound search in
  the hash part or by its linear fallback, all of which end.\<close>

theorem luaH_getn_boundary:
  assumes "table_ok H t" and "sizearray t < 2 ^ 31 - 1" and "card (live t) < fuel"
  shows "\<exists>n. luaH_getn fuel H t = Inr n \<and> (n = 0 \<or> tmap t (VNum (NInt (int n))) \<noteq> VNil) \<and>
    tmap t (VNum (NInt (int n + 1))) = VNil"
proof -
  let ?j = "sizearray t"
  have "\<exists>n. luaH_getn fuel H t = Inr n \<and> boundary t n"
  proof (cases "?j > 0 \<and> arr t ! (?j - 1) = VNil")
    case True
    then have "tmap t (int_key ?j) = VNil" using tmap_int_array [of ?j t] by simp
    with True getn_binary_correct [of 0 ?j t] show ?thesis by (simp add: luaH_getn_def present_def)
  next
    case False
    then have pj: "present t ?j" using tmap_int_array [of ?j t] by (auto simp: present_def)
    show ?thesis
    proof (cases "is_dummy t")
      case True
      then have "gkey t i = VNil" if "i < sizenode t" for i
        using that table_okD(3) [OF assms(1)] by (simp add: free_ok_def gkey_def dummynode_def sizenode_def)
      then have "used t = {}" by (auto simp: used_def)
      then have "tmap t (int_key (?j + 1)) = VNil"
        by (simp add: tmap_def cell_of_def cell_val_def in_array_def)
      with True False pj show ?thesis by (auto simp: luaH_getn_def boundary_def)
    next
      case nd: False
      obtain m where m: "1 \<le> m" "m \<le> fuel" "tmap t (int_key m) = VNil"
        using missing_key [OF live_entries(2) [OF assms(1)] assms(3)] by blast
      have lin: "\<exists>n. linear_search fuel H t 1 = Inr n \<and> boundary t n"
        using linear_search_correct [OF assms(1) m(3), of 1 fuel] m by (simp add: present_def)
      from unbound_double_correct [OF assms(1), of ?j "?j + 1" 32] pj assms(2)
      consider "unbound_double 32 H t ?j (?j + 1) = Inr None"
        | i j where "unbound_double 32 H t ?j (?j + 1) = Inr (Some (i, j))" "i < j" "present t i" "tmap t (int_key j) = VNil"
        by auto
      then show ?thesis
      proof cases
        case 1
        with lin False nd show ?thesis by (auto simp: luaH_getn_def unbound_search_def)
      next
        case (2 i j)
        with unbound_binary_correct [OF assms(1) 2(2-4)] False nd show ?thesis
          by (auto simp: luaH_getn_def unbound_search_def)
      qed
    qed
  qed
  then show ?thesis by (simp add: boundary_def present_def add.commute)
qed

theorem luaH_getn_boundary_witness:
  "\<exists>n. luaH_getn 1 H0 luaH_new = Inr n \<and> (n = 0 \<or> tmap luaH_new (VNum (NInt (int n))) \<noteq> VNil) \<and>
    tmap luaH_new (VNum (NInt (int n + 1))) = VNil"
  using luaH_getn_boundary [OF table_ok_new(1), of 1 H0] by (simp add: live_new)

text \<open>A traversal with luaH_next visits every entry exactly once: started at nil and continued with the
  last key returned, on a table that is not changed meanwhile, it returns pairs with distinct keys, which
  are exactly the keys with a value, each with its value, and it ends.\<close>

theorem luaH_next_traversal:
  assumes "table_ok H t" and "card (live t) < fuel"
  shows "\<exists>kvs. traverse fuel H t VNil = Inr kvs \<and> distinct (map fst kvs) \<and>
    (\<forall>k v. (k, v) \<in> set kvs \<longleftrightarrow> v \<noteq> VNil \<and> tmap t k = v)"
proof -
  let ?o = "slice_entries (arr t) [0..<sizearray t] @ node_entries (node t) [0..<sizenode t]"
  have rv: "node_entries (node t) (rev [0..<sizenode t]) = rev (node_entries (node t) [0..<sizenode t])"
    by (simp add: node_entries_def rev_map rev_filter)
  then have o: "set ?o = set (resize_entries t 0)" "distinct (map fst ?o)" "length ?o = card (live t)"
    using resize_entries_keys(2) [OF assms(1), of 0] live_entries(3) [OF assms(1)]
    by (auto simp: resize_entries_def rev_map [symmetric])
  have "findindex H t VNil = Inr (int 0 - 1)" by (simp add: findindex_def)
  from traverse_from [OF assms(1) this, of fuel] o(3) assms(2) have tr: "traverse fuel H t VNil = Inr ?o"
    unfolding traversal_entries [symmetric] by simp
  have no: "\<not> int_upto 0 k" for k by (auto simp: int_upto_def)
  have "(k, v) \<in> set ?o \<longleftrightarrow> v \<noteq> VNil \<and> tmap t k = v" for k v
  proof -
    note d = resize_entries_keys(2) [OF assms(1), of 0]
    have nz: "v \<noteq> VNil" if "map_of (resize_entries t 0) k = Some v" for v
      using map_of_SomeD [OF that] by (auto simp: resize_entries_def slice_entries_def node_entries_def)
    show ?thesis
      unfolding o(1) map_of_eq_Some_iff [OF d, symmetric]
      using resize_entries_map [OF assms(1), of 0 k] no nz by (cases "map_of (resize_entries t 0) k") auto
  qed
  with tr o(2) show ?thesis by blast
qed

theorem luaH_next_traversal_witness:
  "\<exists>kvs. traverse 1 H0 luaH_new VNil = Inr kvs \<and> distinct (map fst kvs) \<and>
    (\<forall>k v. (k, v) \<in> set kvs \<longleftrightarrow> v \<noteq> VNil \<and> tmap luaH_new k = v)"
  by (rule luaH_next_traversal [OF table_ok_new(1)]) (simp add: live_new)

end
