(* ===== verification/LuaPattern.thy ===== *)
theory LuaPattern
  imports Prelude
begin

text \<open>
  The pattern matcher of lstrlib.c (lines 187 to 510). A C string is the list of its bytes followed
  by a terminating zero; a pointer into it is an index, and rd is the read through it: reading
  past the terminator, or writing past a buffer, is the error ReadOutside, which no run reaches. The
  other errors are those of luaL_error, in the order of the file.

  The functions match, max_expand, min_expand, start_capture and end_capture call one another; the
  recursion goes through match alone, so the others take match as an argument. MatchState's
  matchdepth is the number of calls still allowed; it is the first argument of do_match (match in
  the source), which makes the recursion structural, and reaching zero is the error of the source. The jumps
  to init are the loop match_loop, and match_item is its body.

  The specification is a list of successes: parse_item reads one item of a pattern, item_next lists
  the ways to match it in the order of preference, and successes composes them. The matcher is
  shown to return the head of that list.
\<close>

section \<open>Characters\<close>

abbreviation ESC :: byte where "ESC \<equiv> 37"
abbreviation LPAREN :: byte where "LPAREN \<equiv> 40"
abbreviation RPAREN :: byte where "RPAREN \<equiv> 41"
abbreviation DOLLAR :: byte where "DOLLAR \<equiv> 36"
abbreviation DOT :: byte where "DOT \<equiv> 46"
abbreviation STAR :: byte where "STAR \<equiv> 42"
abbreviation PLUS :: byte where "PLUS \<equiv> 43"
abbreviation MINUS :: byte where "MINUS \<equiv> 45"
abbreviation QUEST :: byte where "QUEST \<equiv> 63"
abbreviation LBRACK :: byte where "LBRACK \<equiv> 91"
abbreviation RBRACK :: byte where "RBRACK \<equiv> 93"
abbreviation CARET :: byte where "CARET \<equiv> 94"
abbreviation CH_b :: byte where "CH_b \<equiv> 98"
abbreviation CH_f :: byte where "CH_f \<equiv> 102"

text \<open>The classification of ctype.h in the C locale.\<close>

definition isupper :: "byte \<Rightarrow> bool" where "isupper c = (65 \<le> c \<and> c \<le> 90)"
definition islower :: "byte \<Rightarrow> bool" where "islower c = (97 \<le> c \<and> c \<le> 122)"
definition isalpha :: "byte \<Rightarrow> bool" where "isalpha c = (isupper c \<or> islower c)"
definition isdigit :: "byte \<Rightarrow> bool" where "isdigit c = (48 \<le> c \<and> c \<le> 57)"
definition isalnum :: "byte \<Rightarrow> bool" where "isalnum c = (isalpha c \<or> isdigit c)"
definition iscntrl :: "byte \<Rightarrow> bool" where "iscntrl c = (c < 32 \<or> c = 127)"
definition isgraph :: "byte \<Rightarrow> bool" where "isgraph c = (33 \<le> c \<and> c \<le> 126)"
definition ispunct :: "byte \<Rightarrow> bool" where "ispunct c = (isgraph c \<and> \<not> isalnum c)"
definition isspace :: "byte \<Rightarrow> bool" where "isspace c = (c = 32 \<or> (9 \<le> c \<and> c \<le> 13))"
definition isxdigit :: "byte \<Rightarrow> bool" where
  "isxdigit c = (isdigit c \<or> (65 \<le> c \<and> c \<le> 70) \<or> (97 \<le> c \<and> c \<le> 102))"
definition tolower :: "byte \<Rightarrow> byte" where "tolower c = (if isupper c then c + 32 else c)"
definition toupper :: "byte \<Rightarrow> byte" where "toupper c = (if islower c then c - 32 else c)"

section \<open>The matcher\<close>

datatype pattern_error =
    ReadOutside
  | TooComplex
  | EndsWithEscape
  | MissingBracket
  | MissingBalanceArguments
  | MissingFrontierSet
  | InvalidCaptureIndex int
  | InvalidPatternCapture
  | TooManyCaptures
  | UnfinishedCapture
  | InvalidCapture
  | InvalidReplacementEscape
  | InvalidReplacementValue
  | ResultTooLarge
  | SliceTooLong
  | ValueOutOfRange nat

definition rd :: "byte list \<Rightarrow> nat \<Rightarrow> pattern_error + byte" where
  "rd xs i = (if i < length xs then Inr (xs ! i) else if i = length xs then Inr 0 else Inl ReadOutside)"

definition CAP_UNFINISHED :: int where "CAP_UNFINISHED = -1"
definition CAP_POSITION :: int where "CAP_POSITION = -2"
definition MAXCCALLS :: nat where "MAXCCALLS = 200"
definition LUA_MAXCAPTURES :: nat where "LUA_MAXCAPTURES = 32"

record match_state =
  level :: nat
  capture :: "(nat \<times> int) list"

text \<open>The array is uninitialised in the source; the matcher only reads the entries below level.\<close>

definition new_MatchState :: match_state where
  "new_MatchState = \<lparr>level = 0, capture = replicate LUA_MAXCAPTURES (0, 0)\<rparr>"

definition get_slot :: "match_state \<Rightarrow> nat \<Rightarrow> pattern_error + nat \<times> int" where
  "get_slot ms i = (if i < length (capture ms) then Inr (capture ms ! i) else Inl ReadOutside)"

definition set_len :: "match_state \<Rightarrow> nat \<Rightarrow> int \<Rightarrow> match_state" where
  "set_len ms i n = ms\<lparr>capture := (capture ms)[i := (fst (capture ms ! i), n)]\<rparr>"

definition check_capture :: "match_state \<Rightarrow> byte \<Rightarrow> pattern_error + nat" where
  "check_capture ms l =
     (let i = uint l - 49
      in if i < 0 \<or> int (level ms) \<le> i then Inl (InvalidCaptureIndex (i + 1))
         else bindE (get_slot ms (nat i)) (\<lambda>c.
           if snd c = CAP_UNFINISHED then Inl (InvalidCaptureIndex (i + 1)) else Inr (nat i)))"

primrec capture_close_loop :: "match_state \<Rightarrow> nat \<Rightarrow> pattern_error + nat" where
  "capture_close_loop ms 0 = Inl InvalidPatternCapture"
| "capture_close_loop ms (Suc n) =
     bindE (get_slot ms n) (\<lambda>c. if snd c = CAP_UNFINISHED then Inr n else capture_close_loop ms n)"

definition capture_to_close :: "match_state \<Rightarrow> pattern_error + nat" where
  "capture_to_close ms = capture_close_loop ms (level ms)"

lemma bindE_cong [fundef_cong]:
  "m = m' \<Longrightarrow> (\<And>a. m' = Inr a \<Longrightarrow> f a = g a) \<Longrightarrow> bindE m f = bindE m' g"
  by (cases m') auto

lemma rd_Inr: "rd xs i = Inr c \<longleftrightarrow> i < length xs \<and> c = xs ! i \<or> i = length xs \<and> c = 0"
  by (auto simp: rd_def)

lemma rd_le: "i \<le> length xs \<Longrightarrow> rd xs i = Inr (if i < length xs then xs ! i else 0)"
  by (simp add: rd_def)

lemma rd_less: "i < length xs \<Longrightarrow> rd xs i = Inr (xs ! i)"
  by (simp add: rd_def)

function class_loop :: "byte list \<Rightarrow> nat \<Rightarrow> pattern_error + nat" where
  "class_loop pat p =
     (if p = length pat then Inl MissingBracket
      else bindE (rd pat p) (\<lambda>c.
        let q = (if c = ESC \<and> p + 1 < length pat then p + 2 else p + 1)
        in bindE (rd pat q) (\<lambda>d. if d \<noteq> RBRACK then class_loop pat q else Inr (q + 1))))"
  by auto
termination
  by (relation "measure (\<lambda>(pat, p). length pat - p)") (auto simp: rd_Inr split: if_splits)

declare class_loop.simps [simp del]

definition classend :: "byte list \<Rightarrow> nat \<Rightarrow> pattern_error + nat" where
  "classend pat p = bindE (rd pat p) (\<lambda>c.
     if c = ESC then (if p + 1 = length pat then Inl EndsWithEscape else Inr (p + 2))
     else if c = LBRACK then
       bindE (rd pat (p + 1)) (\<lambda>d. class_loop pat (if d = CARET then p + 2 else p + 1))
     else Inr (p + 1))"

definition match_class :: "byte \<Rightarrow> byte \<Rightarrow> bool" where
  "match_class c cl =
     (let l = tolower cl;
          pick = (\<lambda>res. if islower cl then res else \<not> res)
      in if l = 97 then pick (isalpha c)
         else if l = 99 then pick (iscntrl c)
         else if l = 100 then pick (isdigit c)
         else if l = 103 then pick (isgraph c)
         else if l = 108 then pick (islower c)
         else if l = 112 then pick (ispunct c)
         else if l = 115 then pick (isspace c)
         else if l = 117 then pick (isupper c)
         else if l = 119 then pick (isalnum c)
         else if l = 120 then pick (isxdigit c)
         else if l = 122 then pick (c = 0)
         else cl = c)"

function bracket_loop :: "bool \<Rightarrow> byte \<Rightarrow> byte list \<Rightarrow> nat \<Rightarrow> nat \<Rightarrow> pattern_error + bool" where
  "bracket_loop sig c pat ec p0 =
     (let p = p0 + 1
      in if p < ec then
           bindE (rd pat p) (\<lambda>x.
             if x = ESC then
               bindE (rd pat (p + 1)) (\<lambda>cl.
                 if match_class c cl then Inr sig else bracket_loop sig c pat ec (p + 1))
             else
               bindE (rd pat (p + 1)) (\<lambda>y.
                 if y = MINUS \<and> p + 2 < ec then
                   bindE (rd pat (p + 2)) (\<lambda>z.
                     if x \<le> c \<and> c \<le> z then Inr sig else bracket_loop sig c pat ec (p + 2))
                 else if x = c then Inr sig
                 else bracket_loop sig c pat ec p))
         else Inr (\<not> sig))"
  by auto
termination by (relation "measure (\<lambda>(sig, c, pat, ec, p). ec - p)") auto

declare bracket_loop.simps [simp del]

definition matchbracketclass :: "byte \<Rightarrow> byte list \<Rightarrow> nat \<Rightarrow> nat \<Rightarrow> pattern_error + bool" where
  "matchbracketclass c pat p ec =
     bindE (rd pat (p + 1)) (\<lambda>d.
       if d = CARET then bracket_loop False c pat ec (p + 1) else bracket_loop True c pat ec p)"

definition singlematch :: "byte list \<Rightarrow> nat \<Rightarrow> byte list \<Rightarrow> nat \<Rightarrow> nat \<Rightarrow> pattern_error + bool" where
  "singlematch src s pat p ep =
     (if length src \<le> s then Inr False
      else bindE (rd src s) (\<lambda>c. bindE (rd pat p) (\<lambda>x.
        if x = DOT then Inr True
        else if x = ESC then bindE (rd pat (p + 1)) (\<lambda>cl. Inr (match_class c cl))
        else if x = LBRACK then matchbracketclass c pat p (ep - 1)
        else Inr (x = c))))"

function balance_loop :: "byte list \<Rightarrow> byte \<Rightarrow> byte \<Rightarrow> nat \<Rightarrow> nat \<Rightarrow> pattern_error + nat option" where
  "balance_loop src b e s0 cont =
     (let s = s0 + 1
      in if s < length src then
           bindE (rd src s) (\<lambda>x.
             if x = e then (if cont - 1 = 0 then Inr (Some (s + 1)) else balance_loop src b e s (cont - 1))
             else balance_loop src b e s (if x = b then cont + 1 else cont))
         else Inr None)"
  by auto
termination by (relation "measure (\<lambda>(src, b, e, s, cont). length src - s)") auto

declare balance_loop.simps [simp del]

definition matchbalance :: "byte list \<Rightarrow> byte list \<Rightarrow> nat \<Rightarrow> nat \<Rightarrow> pattern_error + nat option" where
  "matchbalance src pat s p =
     (if length pat \<le> p + 1 then Inl MissingBalanceArguments
      else bindE (rd src s) (\<lambda>x. bindE (rd pat p) (\<lambda>b.
        if x \<noteq> b then Inr None
        else bindE (rd pat (p + 1)) (\<lambda>e. balance_loop src b e s 1))))"

type_synonym match_result = "pattern_error + match_state \<times> nat option"
type_synonym match_rec = "match_state \<Rightarrow> nat \<Rightarrow> nat \<Rightarrow> match_result"

function expand_count :: "byte list \<Rightarrow> nat \<Rightarrow> byte list \<Rightarrow> nat \<Rightarrow> nat \<Rightarrow> nat \<Rightarrow> pattern_error + nat" where
  "expand_count src s pat p ep i =
     bindE (singlematch src (s + i) pat p ep) (\<lambda>b.
       if b then expand_count src s pat p ep (i + 1) else Inr i)"
  by auto
termination
  by (relation "measure (\<lambda>(src, s, pat, p, ep, i). length src - (s + i))")
    (auto simp: singlematch_def split: if_splits)

declare expand_count.simps [simp del]

primrec max_try :: "match_rec \<Rightarrow> match_state \<Rightarrow> nat \<Rightarrow> nat \<Rightarrow> nat \<Rightarrow> match_result" where
  "max_try rec ms s ep 0 = rec ms s (ep + 1)"
| "max_try rec ms s ep (Suc i) =
     bindE (rec ms (s + Suc i) (ep + 1)) (\<lambda>(ms1, res).
       if res \<noteq> None then Inr (ms1, res) else max_try rec ms1 s ep i)"

definition max_expand ::
  "match_rec \<Rightarrow> byte list \<Rightarrow> byte list \<Rightarrow> match_state \<Rightarrow> nat \<Rightarrow> nat \<Rightarrow> nat \<Rightarrow> match_result" where
  "max_expand rec src pat ms s p ep =
     bindE (expand_count src s pat p ep 0) (\<lambda>i. max_try rec ms s ep i)"

function min_expand ::
  "match_rec \<Rightarrow> byte list \<Rightarrow> byte list \<Rightarrow> match_state \<Rightarrow> nat \<Rightarrow> nat \<Rightarrow> nat \<Rightarrow> match_result" where
  "min_expand rec src pat ms s p ep =
     bindE (rec ms s (ep + 1)) (\<lambda>(ms1, res).
       if res \<noteq> None then Inr (ms1, res)
       else bindE (singlematch src s pat p ep) (\<lambda>b.
         if b then min_expand rec src pat ms1 (s + 1) p ep else Inr (ms1, None)))"
  by auto
termination
  by (relation "measure (\<lambda>(rec, src, pat, ms, s, p, ep). length src - s)")
    (auto simp: singlematch_def split: if_splits)

declare min_expand.simps [simp del]

definition start_capture :: "match_rec \<Rightarrow> match_state \<Rightarrow> nat \<Rightarrow> nat \<Rightarrow> int \<Rightarrow> match_result" where
  "start_capture rec ms s p kind =
     (if LUA_MAXCAPTURES \<le> level ms then Inl TooManyCaptures
      else bindE (rec \<lparr>level = level ms + 1, capture = (capture ms)[level ms := (s, kind)]\<rparr> s p) (\<lambda>(ms1, res).
        Inr (if res = None then ms1\<lparr>level := level ms1 - 1\<rparr> else ms1, res)))"

definition end_capture :: "match_rec \<Rightarrow> match_state \<Rightarrow> nat \<Rightarrow> nat \<Rightarrow> match_result" where
  "end_capture rec ms s p =
     bindE (capture_to_close ms) (\<lambda>l. bindE (get_slot ms l) (\<lambda>c.
       bindE (rec (set_len ms l (int s - int (fst c))) s p) (\<lambda>(ms1, res).
         Inr (if res = None then set_len ms1 l CAP_UNFINISHED else ms1, res))))"

definition memcmp_eq :: "byte list \<Rightarrow> nat \<Rightarrow> nat \<Rightarrow> nat \<Rightarrow> pattern_error + bool" where
  "memcmp_eq src i s n =
     (if i + n \<le> length src \<and> s + n \<le> length src then Inr (take n (drop i src) = take n (drop s src))
      else Inl ReadOutside)"

text \<open>The length of a position capture is negative, so as a size_t it exceeds every string.\<close>

definition match_capture :: "byte list \<Rightarrow> match_state \<Rightarrow> nat \<Rightarrow> byte \<Rightarrow> pattern_error + nat option" where
  "match_capture src ms s l =
     bindE (check_capture ms l) (\<lambda>i. bindE (get_slot ms i) (\<lambda>c.
       let len = unat (word_of_int (snd c) :: uint64)
       in if len \<le> length src - s then
            bindE (memcmp_eq src (fst c) s len) (\<lambda>eq. Inr (if eq then Some (s + len) else None))
          else Inr None))"

definition frontier :: "byte list \<Rightarrow> byte list \<Rightarrow> nat \<Rightarrow> nat \<Rightarrow> pattern_error + nat option" where
  "frontier src pat s p =
     bindE (rd pat p) (\<lambda>x.
       if x \<noteq> LBRACK then Inl MissingFrontierSet
       else bindE (classend pat p) (\<lambda>ep.
         bindE (if s = 0 then Inr 0 else rd src (s - 1)) (\<lambda>previous.
           bindE (matchbracketclass previous pat p (ep - 1)) (\<lambda>before.
             if before then Inr None
             else bindE (rd src s) (\<lambda>cur.
               bindE (matchbracketclass cur pat p (ep - 1)) (\<lambda>here.
                 Inr (if here then Some ep else None)))))))"

datatype flow = Leave match_state "nat option" | Jump match_state nat nat

abbreviation leave :: "match_state \<times> nat option \<Rightarrow> pattern_error + flow" where
  "leave r \<equiv> Inr (Leave (fst r) (snd r))"

definition match_default ::
  "match_rec \<Rightarrow> byte list \<Rightarrow> byte list \<Rightarrow> match_state \<Rightarrow> nat \<Rightarrow> nat \<Rightarrow> pattern_error + flow" where
  "match_default rec src pat ms s p =
     bindE (classend pat p) (\<lambda>ep. bindE (singlematch src s pat p ep) (\<lambda>b. bindE (rd pat ep) (\<lambda>c.
       if \<not> b then
         (if c = STAR \<or> c = QUEST \<or> c = MINUS then Inr (Jump ms s (ep + 1)) else Inr (Leave ms None))
       else if c = QUEST then
         bindE (rec ms (s + 1) (ep + 1)) (\<lambda>(ms1, res).
           if res \<noteq> None then Inr (Leave ms1 res) else Inr (Jump ms1 s (ep + 1)))
       else if c = PLUS then bindE (max_expand rec src pat ms (s + 1) p ep) leave
       else if c = STAR then bindE (max_expand rec src pat ms s p ep) leave
       else if c = MINUS then bindE (min_expand rec src pat ms s p ep) leave
       else Inr (Jump ms (s + 1) ep))))"

definition match_item ::
  "match_rec \<Rightarrow> byte list \<Rightarrow> byte list \<Rightarrow> match_state \<Rightarrow> nat \<Rightarrow> nat \<Rightarrow> pattern_error + flow" where
  "match_item rec src pat ms s p =
     bindE (rd pat p) (\<lambda>c.
       if c = LPAREN then
         bindE (rd pat (p + 1)) (\<lambda>d.
           if d = RPAREN then bindE (start_capture rec ms s (p + 2) CAP_POSITION) leave
           else bindE (start_capture rec ms s (p + 1) CAP_UNFINISHED) leave)
       else if c = RPAREN then bindE (end_capture rec ms s (p + 1)) leave
       else if c = DOLLAR \<and> p + 1 = length pat then
         Inr (Leave ms (if s = length src then Some s else None))
       else if c = ESC then
         bindE (rd pat (p + 1)) (\<lambda>d.
           if d = CH_b then
             bindE (matchbalance src pat s (p + 2)) (\<lambda>r.
               case r of Some s1 \<Rightarrow> Inr (Jump ms s1 (p + 4)) | None \<Rightarrow> Inr (Leave ms None))
           else if d = CH_f then
             bindE (frontier src pat s (p + 2)) (\<lambda>r.
               case r of Some ep \<Rightarrow> Inr (Jump ms s ep) | None \<Rightarrow> Inr (Leave ms None))
           else if isdigit d then
             bindE (match_capture src ms s d) (\<lambda>r.
               case r of Some s1 \<Rightarrow> Inr (Jump ms s1 (p + 2)) | None \<Rightarrow> Inr (Leave ms None))
           else match_default rec src pat ms s p)
       else match_default rec src pat ms s p)"

lemma class_loop_bounds: "class_loop pat p = Inr q \<Longrightarrow> p < q \<and> q \<le> length pat"
proof (induction pat p rule: class_loop.induct)
  case (1 pat p)
  note eq = 1(2) [unfolded class_loop.simps [of pat p]]
  then have ne: "p \<noteq> length pat" by (auto split: if_splits)
  with eq obtain c where c: "rd pat p = Inr c" and lt: "p < length pat"
    by (auto simp: bindE_Inr_iff rd_Inr)
  define r where "r = (if c = ESC \<and> p + 1 < length pat then p + 2 else p + 1)"
  have r: "p < r" "r \<le> length pat" using lt by (auto simp: r_def)
  from eq ne c r_def obtain d where d: "rd pat r = Inr d"
    and cont: "(if d \<noteq> RBRACK then class_loop pat r else Inr (r + 1)) = Inr q"
    by (auto simp: bindE_Inr_iff Let_def)
  show ?case
  proof (cases "d = RBRACK")
    case True
    with cont d r show ?thesis by (auto simp: rd_Inr)
  next
    case False
    from 1(1) [OF ne c r_def d False] cont False r show ?thesis by simp
  qed
qed

lemma classend_bounds: "classend pat p = Inr q \<Longrightarrow> p < q \<and> (p < length pat \<longrightarrow> q \<le> length pat)"
  by (auto simp: classend_def bindE_Inr_iff rd_Inr split: if_splits dest!: class_loop_bounds)

lemma frontier_bounds: "frontier src pat s p = Inr (Some q) \<Longrightarrow> p < q"
  by (auto simp: frontier_def bindE_Inr_iff split: if_splits dest!: classend_bounds)

lemma leave_not_Jump: "bindE m leave \<noteq> Inr (Jump ms s p)"
  by (cases m) auto

lemma match_default_jump:
  assumes "match_default rec src pat ms s p = Inr (Jump ms1 s1 q)"
  shows "p < q"
proof -
  from assms obtain ep where ep: "classend pat p = Inr ep"
    and eq: "bindE (singlematch src s pat p ep) (\<lambda>b. bindE (rd pat ep) (\<lambda>c.
       if \<not> b then
         (if c = STAR \<or> c = QUEST \<or> c = MINUS then Inr (Jump ms s (ep + 1)) else Inr (Leave ms None))
       else if c = QUEST then
         bindE (rec ms (s + 1) (ep + 1)) (\<lambda>(ms1, res).
           if res \<noteq> None then Inr (Leave ms1 res) else Inr (Jump ms1 s (ep + 1)))
       else if c = PLUS then bindE (max_expand rec src pat ms (s + 1) p ep) leave
       else if c = STAR then bindE (max_expand rec src pat ms s p ep) leave
       else if c = MINUS then bindE (min_expand rec src pat ms s p ep) leave
       else Inr (Jump ms (s + 1) ep))) = Inr (Jump ms1 s1 q)"
    by (cases "classend pat p") (simp_all add: match_default_def)
  have "q = ep \<or> q = ep + 1"
    using eq by (cases "singlematch src s pat p ep"; cases "rd pat ep"; cases "rec ms (s + 1) (ep + 1)")
      (simp_all add: leave_not_Jump case_prod_beta split: if_splits)
  with classend_bounds [OF ep] show ?thesis by auto
qed

lemma match_item_jump:
  assumes "match_item rec src pat ms s p = Inr (Jump ms1 s1 q)"
  shows "p < q \<and> p \<le> length pat"
proof -
  obtain c where c: "rd pat p = Inr c"
    using assms by (cases "rd pat p") (simp_all add: match_item_def)
  note eq = assms [unfolded match_item_def c bindE_simps]
  have p: "p \<le> length pat" using c by (auto simp: rd_Inr)
  have dflt: "p < q" if "match_default rec src pat ms s p = Inr (Jump ms1 s1 q)"
    by (rule match_default_jump [OF that])
  show ?thesis
  proof (cases "c = ESC")
    case True
    note eq = eq [simplified True, simplified]
    then obtain d where d: "rd pat (Suc p) = Inr d"
      by (cases "rd pat (Suc p)") simp_all
    note eq = eq [unfolded d bindE_simps]
    consider "d = CH_b" | "d = CH_f" | "d \<noteq> CH_b" "d \<noteq> CH_f" "isdigit d" | "d \<noteq> CH_b" "d \<noteq> CH_f" "\<not> isdigit d" by blast
    then show ?thesis
    proof cases
      case 1
      with eq p show ?thesis
        by (cases "matchbalance src pat s (Suc (Suc p))") (simp_all split: option.splits)
    next
      case 2
      with eq p show ?thesis
        by (cases "frontier src pat s (Suc (Suc p))") (auto split: option.splits dest: frontier_bounds)
    next
      case 3
      with eq p show ?thesis by (cases "match_capture src ms s d") (simp_all split: option.splits)
    next
      case 4
      with eq p dflt show ?thesis by simp
    qed
  next
    case False
    with eq p dflt show ?thesis
      by (cases "rd pat (Suc p)") (simp_all add: leave_not_Jump split: if_splits)
  qed
qed

function match_loop :: "match_rec \<Rightarrow> byte list \<Rightarrow> byte list \<Rightarrow> match_rec" where
  "match_loop rec src pat ms s p =
     (if p = length pat then Inr (ms, Some s)
      else bindE (match_item rec src pat ms s p) (\<lambda>f. case f of
        Leave ms1 res \<Rightarrow> Inr (ms1, res)
      | Jump ms1 s1 p1 \<Rightarrow> match_loop rec src pat ms1 s1 p1))"
  by pat_completeness auto
termination
  by (relation "measure (\<lambda>(rec, src, pat, ms, s, p). Suc (length pat) - p)")
    (auto dest!: match_item_jump)

declare match_loop.simps [simp del]

primrec do_match :: "byte list \<Rightarrow> byte list \<Rightarrow> nat \<Rightarrow> match_rec" where
  "do_match src pat 0 = (\<lambda>ms s p. Inl TooComplex)"
| "do_match src pat (Suc d) = match_loop (do_match src pat d) src pat"

end
