(* ===== verification/LuaPatternSpec.thy ===== *)
theory LuaPatternSpec
  imports LuaPattern
begin

text \<open>
  What a pattern means, independently of the matcher of lstrlib.c, and the proof that the matcher
  implements it. A pattern is read item by item; an item at a position of the subject has a list of
  continuations (captures and next position) in the order of preference, longest first for the
  greedy suffixes and shortest first for the lazy one. The matches of a pattern are the
  composition of its items.
\<close>

section \<open>The meaning of a pattern\<close>

datatype set_elem = ElemClass byte | ElemRange byte byte | ElemByte byte

datatype single = AnyByte | Literal byte | ClassOf byte | SetOf bool "set_elem list"

datatype repetition = Once | Optional | Greedy | GreedyPlus | Lazy

datatype item =
    OpenCapture | OpenPosition | CloseCapture | AtEnd | Balance byte byte | Frontier single
  | BackRef byte | Rep single repetition

fun set_close :: "byte list \<Rightarrow> (byte list \<times> byte list) option" where
  "set_close [] = None"
| "set_close [x] = None"
| "set_close (x # y # r) =
     (if x = ESC then
        (case r of [] \<Rightarrow> None
         | z # r' \<Rightarrow> if z = RBRACK then Some ([x, y], r')
                    else map_option (\<lambda>(c, t). (x # y # c, t)) (set_close r))
      else if y = RBRACK then Some ([x], r)
      else map_option (\<lambda>(c, t). (x # c, t)) (set_close (y # r)))"

text \<open>An escape that ends the set, as in [a-%%], escapes the closing bracket.\<close>

fun set_elems :: "byte list \<Rightarrow> set_elem list" where
  "set_elems [] = []"
| "set_elems [x] = [if x = ESC then ElemClass RBRACK else ElemByte x]"
| "set_elems (x # y # r) =
     (if x = ESC then ElemClass y # set_elems r
      else case r of z # r' \<Rightarrow>
          if y = MINUS then ElemRange x z # set_elems r' else ElemByte x # set_elems (y # r)
        | [] \<Rightarrow> ElemByte x # set_elems [y])"

fun in_elem :: "byte \<Rightarrow> set_elem \<Rightarrow> bool" where
  "in_elem c (ElemClass cl) = match_class c cl"
| "in_elem c (ElemRange lo up) = (lo \<le> c \<and> c \<le> up)"
| "in_elem c (ElemByte x) = (x = c)"

fun in_single :: "single \<Rightarrow> byte \<Rightarrow> bool" where
  "in_single AnyByte c = True"
| "in_single (Literal x) c = (x = c)"
| "in_single (ClassOf cl) c = match_class c cl"
| "in_single (SetOf neg es) c = (neg \<noteq> list_ex (in_elem c) es)"

definition parse_set :: "byte list \<Rightarrow> (single \<times> byte list) option" where
  "parse_set r =
     (let neg = (r \<noteq> [] \<and> hd r = CARET)
      in map_option (\<lambda>(c, t). (SetOf neg (set_elems c), t)) (set_close (if neg then tl r else r)))"

definition parse_single :: "byte list \<Rightarrow> (single \<times> byte list) option" where
  "parse_single pat = (case pat of [] \<Rightarrow> None
     | x # r \<Rightarrow>
         if x = ESC then (case r of [] \<Rightarrow> None | y # r' \<Rightarrow> Some (ClassOf y, r'))
         else if x = LBRACK then parse_set r
         else if x = DOT then Some (AnyByte, r)
         else Some (Literal x, r))"

definition parse_suffix :: "byte list \<Rightarrow> repetition \<times> byte list" where
  "parse_suffix pat = (case pat of [] \<Rightarrow> (Once, [])
     | x # r \<Rightarrow> if x = QUEST then (Optional, r) else if x = STAR then (Greedy, r)
         else if x = PLUS then (GreedyPlus, r) else if x = MINUS then (Lazy, r) else (Once, pat))"

definition parse_default :: "byte list \<Rightarrow> (item \<times> byte list) option" where
  "parse_default pat =
     map_option (\<lambda>(sg, r). let (rep, r') = parse_suffix r in (Rep sg rep, r')) (parse_single pat)"

definition parse_item :: "byte list \<Rightarrow> (item \<times> byte list) option" where
  "parse_item pat = (case pat of [] \<Rightarrow> None
     | x # r \<Rightarrow>
         if x = LPAREN then
           (if r \<noteq> [] \<and> hd r = RPAREN then Some (OpenPosition, tl r) else Some (OpenCapture, r))
         else if x = RPAREN then Some (CloseCapture, r)
         else if x = DOLLAR \<and> r = [] then Some (AtEnd, [])
         else if x = ESC \<and> r \<noteq> [] \<and> hd r = CH_b then
           (case tl r of a # b # t \<Rightarrow> Some (Balance a b, t) | _ \<Rightarrow> None)
         else if x = ESC \<and> r \<noteq> [] \<and> hd r = CH_f then
           (case tl r of a # t \<Rightarrow> if a = LBRACK then map_option (\<lambda>(sg, u). (Frontier sg, u)) (parse_set t) else None
            | [] \<Rightarrow> None)
         else if x = ESC \<and> r \<noteq> [] \<and> isdigit (hd r) then Some (BackRef (hd r), tl r)
         else parse_default pat)"

type_synonym captures = "(nat \<times> int) list"

definition open_index :: "captures \<Rightarrow> nat option" where
  "open_index cs =
     (case filter (\<lambda>i. snd (cs ! i) = CAP_UNFINISHED) [0..<length cs] of [] \<Rightarrow> None | is \<Rightarrow> Some (last is))"

text \<open>The least position at which as many closing as opening bytes have been seen.\<close>

definition nesting :: "byte list \<Rightarrow> byte \<Rightarrow> byte \<Rightarrow> int" where
  "nesting w b e = (\<Sum>x\<leftarrow>w. if x = e then - 1 else if x = b then 1 else 0)"

definition balanced_end :: "byte list \<Rightarrow> byte \<Rightarrow> byte \<Rightarrow> nat \<Rightarrow> nat option" where
  "balanced_end src b e s =
     List.find (\<lambda>k. nesting (seg src (s + 1) k) b e = -1) [s + 2..<length src + 1]"

definition byte_at :: "byte list \<Rightarrow> nat \<Rightarrow> byte" where
  "byte_at xs i = (if i < length xs then xs ! i else 0)"

definition run_length :: "byte list \<Rightarrow> single \<Rightarrow> nat \<Rightarrow> nat" where
  "run_length src sg s = length (takeWhile (in_single sg) (drop s src))"

fun rep_ends :: "repetition \<Rightarrow> nat \<Rightarrow> nat list" where
  "rep_ends Once n = (if 0 < n then [1] else [])"
| "rep_ends Optional n = (if 0 < n then [1, 0] else [0])"
| "rep_ends Greedy n = rev [0..<Suc n]"
| "rep_ends GreedyPlus n = rev [1..<Suc n]"
| "rep_ends Lazy n = [0..<Suc n]"

fun item_next :: "byte list \<Rightarrow> item \<Rightarrow> captures \<Rightarrow> nat \<Rightarrow> (captures \<times> nat) list" where
  "item_next src OpenCapture cs s =
     (if length cs < LUA_MAXCAPTURES then [(cs @ [(s, CAP_UNFINISHED)], s)] else [])"
| "item_next src OpenPosition cs s =
     (if length cs < LUA_MAXCAPTURES then [(cs @ [(s, CAP_POSITION)], s)] else [])"
| "item_next src CloseCapture cs s =
     (case open_index cs of None \<Rightarrow> [] | Some l \<Rightarrow> [(cs[l := (fst (cs ! l), int s - int (fst (cs ! l)))], s)])"
| "item_next src AtEnd cs s = (if s = length src then [(cs, s)] else [])"
| "item_next src (Balance b e) cs s =
     (if byte_at src s = b then (case balanced_end src b e s of None \<Rightarrow> [] | Some k \<Rightarrow> [(cs, k)]) else [])"
| "item_next src (Frontier sg) cs s =
     (if \<not> in_single sg (if s = 0 then 0 else src ! (s - 1)) \<and> in_single sg (byte_at src s)
      then [(cs, s)] else [])"
| "item_next src (BackRef d) cs s =
     (let i = unat d - 49; w = nat (snd (cs ! i))
      in if 49 \<le> unat d \<and> i < length cs \<and> 0 \<le> snd (cs ! i) \<and> s + w \<le> length src \<and>
            seg src s (s + w) = seg src (fst (cs ! i)) (fst (cs ! i) + w)
         then [(cs, s + w)] else [])"
| "item_next src (Rep sg rep) cs s = map (\<lambda>n. (cs, s + n)) (rep_ends rep (run_length src sg s))"

lemma set_close_length: "set_close r = Some (c, t) \<Longrightarrow> length t < length r"
  by (induction r arbitrary: c t rule: set_close.induct) (fastforce split: if_splits list.splits)+

lemma parse_single_length: "parse_single pat = Some (sg, t) \<Longrightarrow> length t < length pat"
  by (auto simp: parse_single_def parse_set_def Let_def split: list.splits if_splits dest!: set_close_length)

lemma parse_suffix_length: "length (snd (parse_suffix pat)) \<le> length pat"
  by (auto simp: parse_suffix_def split: list.splits)

lemma parse_default_length:
  assumes "parse_default pat = Some (it, t)"
  shows "length t < length pat"
proof -
  from assms obtain sg r where r: "parse_single pat = Some (sg, r)" and t: "t = snd (parse_suffix r)"
    by (auto simp: parse_default_def case_prod_beta)
  show ?thesis using parse_single_length [OF r] parse_suffix_length [of r] t by simp
qed

lemma length_tl_Cons: "tl xs = y # ys \<Longrightarrow> length xs = Suc (Suc (length ys))"
  by (cases xs) auto

lemma parse_item_length: "parse_item pat = Some (it, t) \<Longrightarrow> length t < length pat"
  by (auto simp: parse_item_def parse_set_def Let_def split: list.splits if_splits
      dest!: set_close_length parse_default_length length_tl_Cons)

function successes :: "byte list \<Rightarrow> byte list \<Rightarrow> captures \<Rightarrow> nat \<Rightarrow> (captures \<times> nat) list" where
  "successes src pat cs s =
     (if pat = [] then [(cs, s)]
      else case parse_item pat of None \<Rightarrow> []
        | Some (it, rest) \<Rightarrow> concat (map (\<lambda>(cs', s'). successes src rest cs' s') (item_next src it cs s)))"
  by pat_completeness auto
termination
  by (relation "measure (\<lambda>(src, pat, cs, s). length pat)") (auto dest: parse_item_length)

declare successes.simps [simp del]

lemma successes_Nil [simp]: "successes src [] cs s = [(cs, s)]"
  by (simp add: successes.simps)

lemma successes_item:
  "parse_item pat = Some (it, rest) \<Longrightarrow>
   successes src pat cs s = concat (map (\<lambda>(cs', s'). successes src rest cs' s') (item_next src it cs s))"
  by (subst successes.simps) (auto simp: parse_item_def)

section \<open>Classes and sets\<close>

lemma bracket_loop_end: "ec \<le> p0 + 1 \<Longrightarrow> bracket_loop sig c pat ec p0 = Inr (\<not> sig)"
  by (subst bracket_loop.simps) (simp add: Let_def)

lemma bracket_loop_step:
  assumes "ec < length pat" and "Suc p0 < ec"
  shows "bracket_loop sig c pat ec p0 =
    (if pat ! (Suc p0) = ESC then
       if match_class c (pat ! (Suc (Suc p0))) then Inr sig else bracket_loop sig c pat ec (Suc (Suc p0))
     else if pat ! (Suc (Suc p0)) = MINUS \<and> Suc (Suc (Suc p0)) < ec then
       if pat ! (Suc p0) \<le> c \<and> c \<le> pat ! (Suc (Suc (Suc p0))) then Inr sig else bracket_loop sig c pat ec (Suc (Suc (Suc p0)))
     else if pat ! (Suc p0) = c then Inr sig else bracket_loop sig c pat ec (Suc p0))"
proof -
  have "rd pat (Suc p0) = Inr (pat ! (Suc p0))" "rd pat (Suc (Suc p0)) = Inr (pat ! (Suc (Suc p0)))"
    "Suc (Suc (Suc p0)) < ec \<Longrightarrow> rd pat (Suc (Suc (Suc p0))) = Inr (pat ! (Suc (Suc (Suc p0))))"
    using assms by (simp_all add: rd_def eval_nat_numeral)
  then show ?thesis
    using assms by (subst bracket_loop.simps) (simp add: Let_def eval_nat_numeral)
qed

lemma seg_Cons: "i < j \<Longrightarrow> j \<le> length xs \<Longrightarrow> seg xs i j = xs ! i # seg xs (Suc i) j"
  by (simp add: seg_def Cons_nth_drop_Suc [symmetric] take_Cons')

lemma bracket_loop_elems:
  assumes "ec < length pat" and "pat ! ec = RBRACK"
  shows "bracket_loop sig c pat ec p0 =
    Inr (if list_ex (in_elem c) (set_elems (seg pat (Suc p0) ec)) then sig else \<not> sig)"
proof (induction "ec - p0" arbitrary: p0 rule: less_induct)
  case less
  let ?x = "pat ! (Suc p0)" and ?y = "pat ! (Suc (Suc p0))"
  note step = bracket_loop_step [OF assms(1)]
  consider "ec \<le> Suc p0" | "ec = Suc (Suc p0)" | "ec = Suc (Suc (Suc p0))" | "Suc (Suc (Suc p0)) < ec" by linarith
  then show ?case
  proof cases
    case 1
    then show ?thesis by (simp add: bracket_loop_end)
  next
    case 2
    then have "seg pat (Suc p0) ec = [?x]" using assms by (simp add: seg_Cons)
    then show ?thesis
      using 2 assms step [of p0 sig c] by (simp add: bracket_loop_end)
  next
    case 3
    then have sg: "seg pat (Suc p0) ec = [?x, ?y]" "seg pat (Suc (Suc p0)) ec = [?y]"
      using assms by (simp_all add: seg_Cons eval_nat_numeral)
    have "bracket_loop sig c pat ec (Suc p0) =
        Inr (if list_ex (in_elem c) (set_elems [?y]) then sig else \<not> sig)"
      using less [of "Suc p0"] 3 sg by (simp add: eval_nat_numeral)
    moreover have "bracket_loop sig c pat ec (Suc (Suc p0)) = Inr (\<not> sig)"
      using 3 by (simp add: bracket_loop_end)
    moreover have "Suc p0 < ec" "\<not> Suc (Suc (Suc p0)) < ec" using 3 by simp_all
    ultimately show ?thesis
      using step [of p0 sig c] by (simp add: sg numeral_2_eq_2 numeral_3_eq_3 cong: if_cong)
  next
    case 4
    let ?z = "pat ! (Suc (Suc (Suc p0)))"
    have sg: "seg pat (Suc p0) ec = ?x # ?y # ?z # seg pat (Suc (Suc (Suc (Suc p0)))) ec"
      "seg pat (Suc (Suc p0)) ec = ?y # ?z # seg pat (Suc (Suc (Suc (Suc p0)))) ec"
      "seg pat (Suc (Suc (Suc p0))) ec = ?z # seg pat (Suc (Suc (Suc (Suc p0)))) ec"
      using 4 assms by (simp_all add: seg_Cons eval_nat_numeral)
    have ih: "bracket_loop sig c pat ec (p0 + k) =
        Inr (if list_ex (in_elem c) (set_elems (seg pat (Suc (p0 + k)) ec)) then sig else \<not> sig)"
      if "0 < k" for k
      using less [of "p0 + k"] that 4 by simp
    have "Suc p0 < ec" using 4 by simp
    from step [OF this, of sig c] ih [of 1] ih [of 2] ih [of 3] 4 show ?thesis
      by (simp add: sg numeral_2_eq_2 numeral_3_eq_3 cong: if_cong)
  qed
qed


lemma set_close_simps:
  "set_close [x] = None"
  "x \<noteq> ESC \<Longrightarrow> y = RBRACK \<Longrightarrow> set_close (x # y # r) = Some ([x], r)"
  "x \<noteq> ESC \<Longrightarrow> y \<noteq> RBRACK \<Longrightarrow> set_close (x # y # r) = map_option (\<lambda>(c, t). (x # c, t)) (set_close (y # r))"
  "set_close [ESC, y] = None"
  "z = RBRACK \<Longrightarrow> set_close (ESC # y # z # r) = Some ([ESC, y], r)"
  "z \<noteq> RBRACK \<Longrightarrow> set_close (ESC # y # z # r) = map_option (\<lambda>(c, t). (ESC # y # c, t)) (set_close (z # r))"
  by simp_all

lemma class_loop_close:
  assumes "p \<le> length pat"
  shows "(class_loop pat p = Inl MissingBracket \<and> set_close (drop p pat) = None) \<or>
    (\<exists>q. class_loop pat p = Inr q \<and> p < q - 1 \<and> q \<le> length pat \<and> pat ! (q - 1) = RBRACK \<and>
       set_close (drop p pat) = Some (seg pat p (q - 1), drop q pat))"
  using assms
proof (induction "length pat - p" arbitrary: p rule: less_induct)
  case less
  show ?case
  proof (cases "p = length pat")
    case True
    then show ?thesis by (simp add: class_loop.simps)
  next
    case False
    with less.prems have p: "p < length pat" by simp
    define r where "r = (if pat ! p = ESC \<and> p + 1 < length pat then p + 2 else p + 1)"
    have r: "p < r" "r \<le> length pat" using p by (auto simp: r_def)
    define w where "w = seg pat p r"
    have dw: "drop p pat = w @ drop r pat"
      using r seg_append_seg [of p r "length pat" pat] by (simp add: w_def seg_def)
    have close: "set_close (drop p pat) = (case drop r pat of [] \<Rightarrow> None
        | y # t \<Rightarrow> if y = RBRACK then Some (w, t)
                   else map_option (\<lambda>(c, t). (w @ c, t)) (set_close (drop r pat)))"
    proof (cases "pat ! p = ESC \<and> p + 1 < length pat")
      case True
      then have "w = [ESC, pat ! (p + 1)]" by (simp add: w_def r_def seg_Cons)
      then show ?thesis unfolding dw by (cases "drop r pat") simp_all
    next
      case False
      then have w: "w = [pat ! p]" using p by (simp add: w_def r_def seg_Cons)
      have "pat ! p = ESC \<Longrightarrow> drop r pat = []" using False p by (auto simp: r_def)
      then show ?thesis using w unfolding dw by (cases "drop r pat") auto
    qed
    have eq: "class_loop pat p = bindE (rd pat r) (\<lambda>d. if d \<noteq> RBRACK then class_loop pat r else Inr (r + 1))"
      using p by (subst class_loop.simps) (simp add: rd_less r_def Let_def cong: if_cong)
    show ?thesis
    proof (cases "r < length pat \<and> pat ! r = RBRACK")
      case True
      then have "drop r pat = RBRACK # drop (r + 1) pat" by (metis Cons_nth_drop_Suc Suc_eq_plus1)
      with True eq close r show ?thesis by (auto simp: rd_less w_def)
    next
      case False
      then have e: "class_loop pat p = class_loop pat r" using eq r by (auto simp: rd_le)
      have c: "set_close (drop p pat) = map_option (\<lambda>(c, t). (w @ c, t)) (set_close (drop r pat))"
      proof (cases "drop r pat")
        case (Cons y t)
        then have "r < length pat" "y = pat ! r"
          by (metis drop_all list.distinct(1) not_less) (metis Cons nth_via_drop)
        with close Cons False show ?thesis by simp
      qed (use close in simp)
      have "seg pat p (q - 1) = w @ seg pat r (q - 1)" if "r < q - 1" for q
        using that r seg_append_seg [of p r "q - 1" pat] by (simp add: w_def)
      with less.hyps [of r] r p e c show ?thesis by fastforce
    qed
  qed
qed

definition matches_single :: "byte list \<Rightarrow> nat \<Rightarrow> nat \<Rightarrow> single \<Rightarrow> bool" where
  "matches_single pat p ep sg \<longleftrightarrow> p < length pat \<and>
     (\<forall>src s. singlematch src s pat p ep = Inr (s < length src \<and> in_single sg (src ! s)))"

lemma bracket_set:
  assumes "pat ! p = LBRACK" and "p < length pat"
  shows "(classend pat p = Inl MissingBracket \<and> parse_set (drop (p + 1) pat) = None) \<or>
    (\<exists>ep sg. classend pat p = Inr ep \<and> p < ep \<and> ep \<le> length pat \<and>
       parse_set (drop (p + 1) pat) = Some (sg, drop ep pat) \<and>
       (\<forall>c. matchbracketclass c pat p (ep - 1) = Inr (in_single sg c)))"
proof -
  define neg where "neg = (p + 1 < length pat \<and> pat ! (p + 1) = CARET)"
  define r where "r = (if neg then p + 2 else p + 1)"
  have r: "p < r" "r \<le> length pat" using assms(2) by (auto simp: r_def neg_def)
  have hd: "(drop (p + 1) pat \<noteq> [] \<and> hd (drop (p + 1) pat) = CARET) = neg"
    using assms(2) by (auto simp: neg_def hd_drop_conv_nth)
  have ps: "parse_set (drop (p + 1) pat) =
      map_option (\<lambda>(c, t). (SetOf neg (set_elems c), t)) (set_close (drop r pat))"
    unfolding parse_set_def hd Let_def by (simp add: r_def neg_def drop_Suc tl_drop)
  have ce: "classend pat p = class_loop pat r"
    using assms by (auto simp: classend_def rd_less r_def neg_def rd_le)
  have mb: "matchbracketclass c pat p ec = bracket_loop (\<not> neg) c pat ec (r - 1)" for c ec
    using assms by (auto simp: matchbracketclass_def rd_le r_def neg_def)
  from class_loop_close [OF r(2)] show ?thesis
  proof (elim disjE exE)
    assume "class_loop pat r = Inl MissingBracket \<and> set_close (drop r pat) = None"
    then show ?thesis using ps by (simp add: ce)
  next
    fix q assume q: "class_loop pat r = Inr q \<and> r < q - 1 \<and> q \<le> length pat \<and> pat ! (q - 1) = RBRACK \<and>
       set_close (drop r pat) = Some (seg pat r (q - 1), drop q pat)"
    have "matchbracketclass c pat p (q - 1) = Inr (in_single (SetOf neg (set_elems (seg pat r (q - 1)))) c)" for c
      using bracket_loop_elems [of "q - 1" pat "\<not> neg" c "r - 1"] q r by (auto simp: mb)
    moreover have "p < q" using q r by linarith
    ultimately show ?thesis using q r ps by (simp add: ce)
  qed
qed

lemma classend_single:
  assumes p: "p < length pat"
  shows "(\<exists>e. classend pat p = Inl e \<and> e \<noteq> ReadOutside \<and> e \<noteq> TooComplex \<and> parse_single (drop p pat) = None) \<or>
    (\<exists>ep sg. classend pat p = Inr ep \<and> p < ep \<and> ep \<le> length pat \<and>
       parse_single (drop p pat) = Some (sg, drop ep pat) \<and> matches_single pat p ep sg)"
proof -
  have dp: "drop p pat = pat ! p # drop (p + 1) pat" using p by (simp add: Cons_nth_drop_Suc)
  consider "pat ! p = ESC" "p + 1 = length pat" | "pat ! p = ESC" "p + 1 < length pat" | "pat ! p = LBRACK"
    | "pat ! p \<noteq> ESC" "pat ! p \<noteq> LBRACK" using p by linarith
  then show ?thesis
  proof cases
    case 1
    then have "drop (p + 1) pat = []" by simp
    with 1 show ?thesis unfolding dp using p by (simp add: classend_def rd_less parse_single_def)
  next
    case 2
    then have "drop (p + 1) pat = pat ! (p + 1) # drop (p + 2) pat" by (simp add: Cons_nth_drop_Suc)
    moreover have "matches_single pat p (p + 2) (ClassOf (pat ! (p + 1)))"
      using 2 by (auto simp: matches_single_def singlematch_def rd_less rd_le)
    ultimately show ?thesis unfolding dp using 2 p by (simp add: classend_def rd_less parse_single_def)
  next
    case 3
    have "parse_single (drop p pat) = parse_set (drop (p + 1) pat)" unfolding dp using 3 by (simp add: parse_single_def)
    moreover have "matches_single pat p ep sg" if "\<forall>c. matchbracketclass c pat p (ep - 1) = Inr (in_single sg c)" for ep sg
      using that 3 p by (auto simp: matches_single_def singlematch_def rd_less)
    ultimately show ?thesis using bracket_set [OF 3 p] by fastforce
  next
    case 4
    have "matches_single pat p (p + 1) (if pat ! p = DOT then AnyByte else Literal (pat ! p))"
      using 4 p by (auto simp: matches_single_def singlematch_def rd_less)
    then show ?thesis unfolding dp using 4 p by (auto simp: classend_def rd_less parse_single_def)
  qed
qed


section \<open>Balance, repetition and captures\<close>

lemma nesting_Cons: "nesting (x # w) b e = (if x = e then - 1 else if x = b then 1 else 0) + nesting w b e"
  by (simp add: nesting_def)

lemma find_cong_set: "(\<And>x. x \<in> set xs \<Longrightarrow> P x = Q x) \<Longrightarrow> List.find P xs = List.find Q xs"
  by (induction xs) auto

lemma balance_loop_find:
  assumes "0 < cont"
  shows "balance_loop src b e s0 cont =
    Inr (List.find (\<lambda>k. nesting (seg src (s0 + 1) k) b e = - int cont) [s0 + 2..<length src + 1])"
  using assms
proof (induction "length src - s0" arbitrary: s0 cont rule: less_induct)
  case less
  show ?case
  proof (cases "s0 + 1 < length src")
    case False
    then show ?thesis by (subst balance_loop.simps) simp
  next
    case True
    let ?x = "src ! (s0 + 1)"
    let ?d = "if ?x = e then - 1 else if ?x = b then 1 else (0 :: int)"
    have up: "[s0 + 2..<length src + 1] = (s0 + 2) # [s0 + 3..<length src + 1]"
      using True upt_conv_Cons [of "s0 + 2" "length src + 1"] by (simp add: numeral_2_eq_2 numeral_3_eq_3 del: upt_Suc)
    have sg: "nesting (seg src (s0 + 1) k) b e = ?d + nesting (seg src (s0 + 2) k) b e"
      if "s0 + 2 \<le> k" "k \<le> length src" for k
      using that seg_Cons [of "s0 + 1" k src] by (simp add: nesting_Cons)
    have first: "nesting (seg src (s0 + 1) (s0 + 2)) b e = ?d"
      using sg [of "s0 + 2"] True by (simp add: nesting_def)
    have rest: "List.find (\<lambda>k. nesting (seg src (s0 + 1) k) b e = - int cont) [s0 + 3..<length src + 1] =
        List.find (\<lambda>k. nesting (seg src (s0 + 2) k) b e = - (int cont + ?d)) [s0 + 3..<length src + 1]"
    proof (rule find_cong_set)
      fix k assume "k \<in> set [s0 + 3..<length src + 1]"
      then have "s0 + 2 \<le> k" "k \<le> length src" by auto
      from sg [OF this] show "(nesting (seg src (s0 + 1) k) b e = - int cont) =
          (nesting (seg src (s0 + 2) k) b e = - (int cont + ?d))" by linarith
    qed
    have ih: "balance_loop src b e (s0 + 1) m =
        Inr (List.find (\<lambda>k. nesting (seg src (s0 + 2) k) b e = - int m) [s0 + 3..<length src + 1])"
      if "0 < m" for m
      using less.hyps [of "s0 + 1" m] True that by (simp add: numeral_2_eq_2 numeral_3_eq_3)
    have step: "balance_loop src b e s0 cont =
        (if ?x = e then (if cont = 1 then Inr (Some (s0 + 2)) else balance_loop src b e (s0 + 1) (cont - 1))
         else balance_loop src b e (s0 + 1) (if ?x = b then cont + 1 else cont))"
      using True less.prems by (subst balance_loop.simps) (auto simp: Let_def rd_less)
    consider "?x = e" "cont = 1" | "?x = e" "1 < cont" | "?x \<noteq> e" using less.prems by linarith
    then show ?thesis
    proof cases
      case 1
      have "nesting (seg src (s0 + 1) (s0 + 2)) b e = - int cont" using first 1 by simp
      then show ?thesis unfolding step up using 1 by simp
    next
      case 2
      have "nesting (seg src (s0 + 1) (s0 + 2)) b e \<noteq> - int cont" using first 2 by simp
      moreover have "int cont + ?d = int (cont - 1)" using 2 by simp
      ultimately show ?thesis unfolding step up using 2 ih [of "cont - 1"] rest by simp
    next
      case 3
      have "nesting (seg src (s0 + 1) (s0 + 2)) b e \<noteq> - int cont" using first 3 less.prems by simp
      moreover have m: "int cont + ?d = int (if ?x = b then cont + 1 else cont)" using 3 by simp
      ultimately show ?thesis
        unfolding step up using 3 ih [of "if ?x = b then cont + 1 else cont"] rest [unfolded m] less.prems
        by (simp del: of_nat_Suc of_nat_add upt_Suc)
    qed
  qed
qed

lemma balanced_end_bounds: "balanced_end src b e s = Some k \<Longrightarrow> s < k \<and> k \<le> length src"
proof -
  assume "balanced_end src b e s = Some k"
  then have "k \<in> set [s + 2..<length src + 1]"
    unfolding balanced_end_def find_Some_iff using nth_mem by blast
  then show ?thesis by auto
qed

lemma run_length_step:
  "run_length src sg s = (if s < length src \<and> in_single sg (src ! s) then Suc (run_length src sg (s + 1)) else 0)"
proof (cases "s < length src")
  case True
  then have "drop s src = src ! s # drop (s + 1) src" by (simp add: Cons_nth_drop_Suc)
  then show ?thesis using True by (simp add: run_length_def)
qed (simp add: run_length_def)

lemma run_length_bound: "s \<le> length src \<Longrightarrow> s + run_length src sg s \<le> length src"
  using length_takeWhile_le [of "in_single sg" "drop s src"] by (simp add: run_length_def)

lemma expand_count_run:
  assumes "matches_single pat p ep sg"
  shows "expand_count src s pat p ep i = Inr (i + run_length src sg (s + i))"
proof (induction "length src - (s + i)" arbitrary: i rule: less_induct)
  case less
  have "singlematch src (s + i) pat p ep = Inr (s + i < length src \<and> in_single sg (src ! (s + i)))"
    using assms by (simp add: matches_single_def)
  then show ?case
    using less [of "i + 1"] run_length_step [of src sg "s + i"]
    by (subst expand_count.simps) auto
qed

definition caps :: "match_state \<Rightarrow> captures" where
  "caps ms = take (level ms) (capture ms)"

definition wf_ms :: "match_state \<Rightarrow> bool" where
  "wf_ms ms \<longleftrightarrow> length (capture ms) = LUA_MAXCAPTURES \<and> level ms \<le> LUA_MAXCAPTURES"

definition caps_ok :: "nat \<Rightarrow> captures \<Rightarrow> bool" where
  "caps_ok s cs \<longleftrightarrow> (\<forall>(i, l) \<in> set cs. i \<le> s \<and>
     (l = CAP_UNFINISHED \<or> l = CAP_POSITION \<or> 0 \<le> l \<and> int i + l \<le> int s))"

lemma caps_ok_mono: "caps_ok s cs \<Longrightarrow> s \<le> s' \<Longrightarrow> caps_ok s' cs"
  by (fastforce simp: caps_ok_def)

lemma length_caps: "wf_ms ms \<Longrightarrow> length (caps ms) = level ms"
  by (simp add: wf_ms_def caps_def)

lemma nth_caps: "wf_ms ms \<Longrightarrow> i < level ms \<Longrightarrow> caps ms ! i = capture ms ! i"
  by (simp add: wf_ms_def caps_def)

lemma get_slot_caps: "wf_ms ms \<Longrightarrow> i < level ms \<Longrightarrow> get_slot ms i = Inr (caps ms ! i)"
  by (simp add: get_slot_def nth_caps wf_ms_def)

lemma caps_set_len:
  "wf_ms ms \<Longrightarrow> i < level ms \<Longrightarrow> caps (set_len ms i n) = (caps ms)[i := (fst (caps ms ! i), n)]"
  by (simp add: caps_def set_len_def take_update_swap wf_ms_def)

lemma wf_set_len: "wf_ms ms \<Longrightarrow> wf_ms (set_len ms i n)"
  by (simp add: wf_ms_def set_len_def)

lemma close_loop_filter:
  assumes "wf_ms ms" and "n \<le> level ms"
  shows "capture_close_loop ms n =
    (case filter (\<lambda>i. snd (caps ms ! i) = CAP_UNFINISHED) [0..<n] of
       [] \<Rightarrow> Inl InvalidPatternCapture | is \<Rightarrow> Inr (last is))"
  using assms(2)
proof (induction n)
  case (Suc n)
  then show ?case
    using assms(1) by (auto simp: get_slot_caps split: list.splits)
qed simp

lemma capture_to_close_open:
  assumes "wf_ms ms"
  shows "capture_to_close ms = (case open_index (caps ms) of None \<Rightarrow> Inl InvalidPatternCapture | Some l \<Rightarrow> Inr l)"
  using close_loop_filter [OF assms, of "level ms"] length_caps [OF assms]
  by (auto simp: capture_to_close_def open_index_def split: list.splits)

lemma open_index_Some:
  assumes "open_index cs = Some l"
  shows "l < length cs \<and> snd (cs ! l) = CAP_UNFINISHED"
proof -
  let ?f = "filter (\<lambda>i. snd (cs ! i) = CAP_UNFINISHED) [0..<length cs]"
  have "?f \<noteq> []" "l = last ?f" using assms by (auto simp: open_index_def split: list.splits)
  then have "l \<in> set ?f" using last_in_set by metis
  then show ?thesis by simp
qed


section \<open>The matcher returns the first success\<close>

definition ok_err :: "bool \<Rightarrow> pattern_error \<Rightarrow> bool" where
  "ok_err tc e \<longleftrightarrow> e \<noteq> ReadOutside \<and> (e = TooComplex \<longrightarrow> tc)"

definition agree :: "(captures \<times> nat) list \<Rightarrow> captures \<Rightarrow> match_state \<Rightarrow> nat option \<Rightarrow> bool" where
  "agree ls cs ms1 r \<longleftrightarrow> wf_ms ms1 \<and>
     (case r of None \<Rightarrow> ls = [] \<and> caps ms1 = cs | Some e \<Rightarrow> ls \<noteq> [] \<and> hd ls = (caps ms1, e))"

definition ok_res :: "(captures \<times> nat) list \<Rightarrow> captures \<Rightarrow> bool \<Rightarrow> match_result \<Rightarrow> bool" where
  "ok_res ls cs tc R \<longleftrightarrow> (case R of Inl e \<Rightarrow> ok_err tc e | Inr (ms1, r) \<Rightarrow> agree ls cs ms1 r)"

definition state_ok :: "byte list \<Rightarrow> match_state \<Rightarrow> nat \<Rightarrow> bool" where
  "state_ok src ms s \<longleftrightarrow> wf_ms ms \<and> caps_ok s (caps ms) \<and> s \<le> length src"

definition rec_ok :: "match_rec \<Rightarrow> byte list \<Rightarrow> byte list \<Rightarrow> nat \<Rightarrow> bool" where
  "rec_ok rec src pat k \<longleftrightarrow> (\<forall>ms s p. state_ok src ms s \<longrightarrow> p \<le> length pat \<longrightarrow>
     ok_res (successes src (drop p pat) (caps ms) s) (caps ms) (k + p \<le> length pat) (rec ms s p))"

definition ok_flow ::
  "byte list \<Rightarrow> byte list \<Rightarrow> (captures \<times> nat) list \<Rightarrow> captures \<Rightarrow> nat \<Rightarrow> bool \<Rightarrow> pattern_error + flow \<Rightarrow> bool" where
  "ok_flow src pat ls cs s tc F \<longleftrightarrow> (case F of Inl e \<Rightarrow> ok_err tc e
     | Inr (Leave ms1 r) \<Rightarrow> agree ls cs ms1 r
     | Inr (Jump ms1 s1 p1) \<Rightarrow> wf_ms ms1 \<and> caps ms1 = cs \<and> s \<le> s1 \<and> s1 \<le> length src \<and> p1 \<le> length pat \<and>
         ls = successes src (drop p1 pat) cs s1)"

lemma ok_res_simps [simp]:
  "ok_res ls cs tc (Inl e) = ok_err tc e" "ok_res ls cs tc (Inr (ms1, r)) = agree ls cs ms1 r"
  by (simp_all add: ok_res_def)

lemma ok_flow_simps [simp]:
  "ok_flow src pat ls cs s tc (Inl e) = ok_err tc e"
  "ok_flow src pat ls cs s tc (Inr (Leave ms1 r)) = agree ls cs ms1 r"
  "ok_flow src pat ls cs s tc (Inr (Jump ms1 s1 p1)) \<longleftrightarrow>
     wf_ms ms1 \<and> caps ms1 = cs \<and> s \<le> s1 \<and> s1 \<le> length src \<and> p1 \<le> length pat \<and>
     ls = successes src (drop p1 pat) cs s1"
  by (simp_all add: ok_flow_def)

lemma agree_simps [simp]:
  "agree ls cs ms1 None \<longleftrightarrow> wf_ms ms1 \<and> ls = [] \<and> caps ms1 = cs"
  "agree ls cs ms1 (Some e) \<longleftrightarrow> wf_ms ms1 \<and> ls \<noteq> [] \<and> hd ls = (caps ms1, e)"
  by (auto simp: agree_def)

lemma ok_err_mono: "ok_err tc e \<Longrightarrow> (tc \<Longrightarrow> tc') \<Longrightarrow> ok_err tc' e"
  by (simp add: ok_err_def)

lemma ok_res_mono: "ok_res ls cs tc R \<Longrightarrow> (tc \<Longrightarrow> tc') \<Longrightarrow> ok_res ls cs tc' R"
  by (auto simp: ok_res_def split: sum.splits intro: ok_err_mono)

lemma rec_okD:
  assumes "rec_ok rec src pat k" and "state_ok src ms s" and "p \<le> length pat" and "k + p \<le> length pat \<Longrightarrow> tc"
  shows "ok_res (successes src (drop p pat) (caps ms) s) (caps ms) tc (rec ms s p)"
proof (rule ok_res_mono)
  show "ok_res (successes src (drop p pat) (caps ms) s) (caps ms) (k + p \<le> length pat) (rec ms s p)"
    using assms(1-3) by (simp add: rec_ok_def)
qed (rule assms(4))

lemma ok_seq:
  assumes "ok_res ls1 cs tc m" and "\<And>ms1. wf_ms ms1 \<Longrightarrow> caps ms1 = cs \<Longrightarrow> ls1 = [] \<Longrightarrow> ok_res ls2 cs tc (f ms1)"
  shows "ok_res (ls1 @ ls2) cs tc (bindE m (\<lambda>(ms1, res). if res \<noteq> None then Inr (ms1, res) else f ms1))"
  using assms by (cases m) (auto split: option.splits)

lemma ok_leave: "ok_res ls cs tc m \<Longrightarrow> ok_flow src pat ls cs s tc (bindE m leave)"
  by (cases m) auto

lemma state_ok_later: "state_ok src ms s \<Longrightarrow> s \<le> s' \<Longrightarrow> s' \<le> length src \<Longrightarrow> state_ok src ms s'"
  by (auto simp: state_ok_def intro: caps_ok_mono)

lemma state_ok_caps:
  "state_ok src ms s \<Longrightarrow> wf_ms ms1 \<Longrightarrow> caps ms1 = caps ms \<Longrightarrow> state_ok src ms1 s"
  by (simp add: state_ok_def)

lemma max_try_ok:
  assumes "rec_ok rec src pat k" and "ep + 1 \<le> length pat" and "k + (ep + 1) \<le> length pat \<Longrightarrow> tc"
  shows "state_ok src ms s \<Longrightarrow> s + i \<le> length src \<Longrightarrow>
    ok_res (concat (map (\<lambda>n. successes src (drop (ep + 1) pat) (caps ms) (s + n)) (rev [0..<Suc i]))) (caps ms) tc
      (max_try rec ms s ep i)"
proof (induction i arbitrary: ms)
  case 0
  then show ?case using rec_okD [OF assms(1) 0(1) assms(2,3)] by simp
next
  case (Suc i)
  have later: "state_ok src ms (s + Suc i)" by (rule state_ok_later [OF Suc.prems(1)]) (use Suc.prems in auto)
  have "ok_res (successes src (drop (ep + 1) pat) (caps ms) (s + Suc i) @
      concat (map (\<lambda>n. successes src (drop (ep + 1) pat) (caps ms) (s + n)) (rev [0..<Suc i]))) (caps ms) tc
      (max_try rec ms s ep (Suc i))"
    unfolding max_try.simps
  proof (rule ok_seq [OF rec_okD [OF assms(1) later assms(2,3)]])
    fix ms1 assume "wf_ms ms1" "caps ms1 = caps ms"
    with Suc.IH [of ms1] Suc.prems
    show "ok_res (concat (map (\<lambda>n. successes src (drop (ep + 1) pat) (caps ms) (s + n)) (rev [0..<Suc i]))) (caps ms) tc
       (max_try rec ms1 s ep i)"
      by (simp add: state_ok_caps del: upt_Suc)
  qed
  then show ?case by simp
qed

lemma max_expand_ok:
  assumes "rec_ok rec src pat k" and "ep + 1 \<le> length pat" and "k + (ep + 1) \<le> length pat \<Longrightarrow> tc"
    and "matches_single pat p ep sg" and "state_ok src ms s"
  shows "ok_res (concat (map (\<lambda>n. successes src (drop (ep + 1) pat) (caps ms) (s + n)) (rev [0..<Suc (run_length src sg s)])))
      (caps ms) tc (max_expand rec src pat ms s p ep)"
proof -
  have "s + run_length src sg s \<le> length src" using assms(5) by (simp add: state_ok_def run_length_bound)
  then show ?thesis
    using max_try_ok [OF assms(1-3,5)] by (simp add: max_expand_def expand_count_run [OF assms(4)] del: upt_Suc)
qed

lemma min_expand_ok:
  assumes "rec_ok rec src pat k" and "ep + 1 \<le> length pat" and "k + (ep + 1) \<le> length pat \<Longrightarrow> tc"
    and "matches_single pat p ep sg"
  shows "state_ok src ms s \<Longrightarrow>
    ok_res (concat (map (\<lambda>n. successes src (drop (ep + 1) pat) (caps ms) (s + n)) [0..<Suc (run_length src sg s)]))
      (caps ms) tc (min_expand rec src pat ms s p ep)"
proof (induction "length src - s" arbitrary: s ms rule: less_induct)
  case less
  let ?f = "\<lambda>n. successes src (drop (ep + 1) pat) (caps ms) (s + n)"
  let ?hit = "s < length src \<and> in_single sg (src ! s)"
  have "ok_res (?f 0 @ (if ?hit then concat (map (\<lambda>n. ?f (Suc n)) [0..<Suc (run_length src sg (s + 1))]) else []))
      (caps ms) tc (min_expand rec src pat ms s p ep)"
    unfolding min_expand.simps [of rec src pat ms s p ep]
  proof (rule ok_seq)
    show "ok_res (?f 0) (caps ms) tc (rec ms s (ep + 1))"
      using rec_okD [OF assms(1) less.prems assms(2,3)] by simp
    fix ms1 assume ms1: "wf_ms ms1" "caps ms1 = caps ms"
    have sm: "singlematch src s pat p ep = Inr ?hit" using assms(4) by (simp add: matches_single_def)
    show "ok_res (if ?hit then concat (map (\<lambda>n. ?f (Suc n)) [0..<Suc (run_length src sg (s + 1))]) else []) (caps ms) tc
      (bindE (singlematch src s pat p ep) (\<lambda>b. if b then min_expand rec src pat ms1 (s + 1) p ep else Inr (ms1, None)))"
    proof (cases ?hit)
      case True
      have "state_ok src ms1 (s + 1)"
        by (rule state_ok_later [OF state_ok_caps [OF less.prems ms1]]) (use True in auto)
      moreover have "length src - (s + 1) < length src - s" using conjunct1 [OF True] by linarith
      ultimately show ?thesis using less.hyps [of "s + 1" ms1] True ms1 by (simp add: sm del: upt_Suc)
    next
      case False
      show ?thesis unfolding sm bindE_simps if_not_P [OF False] using ms1 by simp
    qed
  qed
  moreover have "concat (map ?f [0..<Suc (run_length src sg s)]) =
      ?f 0 @ (if ?hit then concat (map (\<lambda>n. ?f (Suc n)) [0..<Suc (run_length src sg (s + 1))]) else [])"
  proof (cases ?hit)
    case True
    then have "[0..<Suc (run_length src sg s)] = 0 # map Suc [0..<Suc (run_length src sg (s + 1))]"
      by (simp add: run_length_step [of src sg s] upt_conv_Cons map_Suc_upt del: upt_Suc)
    then show ?thesis using True by (simp add: comp_def del: upt_Suc)
  next
    case False
    then have "run_length src sg s = 0" using run_length_step [of src sg s] by auto
    then show ?thesis unfolding if_not_P [OF False] by simp
  qed
  ultimately show ?case by simp
qed


lemma start_capture_ok:
  assumes "rec_ok rec src pat k" and "p \<le> length pat" and "k + p \<le> length pat \<Longrightarrow> tc" and st: "state_ok src ms s"
    and kind: "kind = CAP_UNFINISHED \<or> kind = CAP_POSITION"
  shows "ok_res (if length (caps ms) < LUA_MAXCAPTURES then successes src (drop p pat) (caps ms @ [(s, kind)]) s else [])
    (caps ms) tc (start_capture rec ms s p kind)"
proof (cases "level ms < LUA_MAXCAPTURES")
  case False
  then show ?thesis by (simp add: start_capture_def ok_err_def)
next
  case True
  have wf: "wf_ms ms" using st by (simp add: state_ok_def)
  let ?ms = "\<lparr>level = level ms + 1, capture = (capture ms)[level ms := (s, kind)]\<rparr>"
  have c: "caps ?ms = caps ms @ [(s, kind)]"
    using True wf by (simp add: caps_def wf_ms_def take_Suc_conv_app_nth)
  have st': "state_ok src ?ms s"
    using st True kind unfolding state_ok_def c by (auto simp: wf_ms_def caps_ok_def)
  have r: "ok_res (successes src (drop p pat) (caps ms @ [(s, kind)]) s) (caps ms @ [(s, kind)]) tc (rec ?ms s p)"
    using rec_okD [OF assms(1) st' assms(2,3)] unfolding c .
  have undo: "wf_ms (ms1\<lparr>level := level ms1 - 1\<rparr>) \<and> caps (ms1\<lparr>level := level ms1 - 1\<rparr>) = caps ms"
    if "wf_ms ms1" "caps ms1 = caps ms @ [(s, kind)]" for ms1
  proof -
    have "level ms1 = Suc (level ms)" using length_caps [OF that(1)] length_caps [OF wf] that(2) by simp
    moreover have "take (level ms) (caps ms1) = caps ms" using that(2) length_caps [OF wf] by simp
    ultimately show ?thesis using that(1) by (auto simp: wf_ms_def caps_def)
  qed
  from r undo show ?thesis
    using True length_caps [OF wf] by (cases "rec ?ms s p") (auto simp: start_capture_def split: option.splits)
qed

lemma end_capture_ok:
  assumes "rec_ok rec src pat k" and "p \<le> length pat" and "k + p \<le> length pat \<Longrightarrow> tc" and st: "state_ok src ms s"
  shows "ok_res (case open_index (caps ms) of None \<Rightarrow> []
      | Some l \<Rightarrow> successes src (drop p pat) ((caps ms)[l := (fst (caps ms ! l), int s - int (fst (caps ms ! l)))]) s)
    (caps ms) tc (end_capture rec ms s p)"
proof (cases "open_index (caps ms)")
  case None
  then show ?thesis using st by (simp add: end_capture_def capture_to_close_open state_ok_def ok_err_def)
next
  case (Some l)
  have wf: "wf_ms ms" and co: "caps_ok s (caps ms)" using st by (simp_all add: state_ok_def)
  have l: "l < level ms" and un: "snd (caps ms ! l) = CAP_UNFINISHED"
    using open_index_Some [OF Some] length_caps [OF wf] by simp_all
  let ?i = "fst (caps ms ! l)"
  let ?ms = "set_len ms l (int s - int ?i)" and ?cs = "(caps ms)[l := (?i, int s - int ?i)]"
  have c: "caps ?ms = ?cs" using wf l by (simp add: caps_set_len)
  have "caps ms ! l \<in> set (caps ms)" using l length_caps [OF wf] by simp
  then have "?i \<le> s" using co by (fastforce simp: caps_ok_def)
  then have "caps_ok s ?cs"
    using co set_update_subset_insert [of "caps ms" l "(?i, int s - int ?i)"] by (fastforce simp: caps_ok_def)
  then have st': "state_ok src ?ms s" using st unfolding state_ok_def c by (simp add: wf_set_len)
  have r: "ok_res (successes src (drop p pat) ?cs s) ?cs tc (rec ?ms s p)"
    using rec_okD [OF assms(1) st' assms(2,3)] unfolding c .
  have undo: "wf_ms (set_len ms1 l CAP_UNFINISHED) \<and> caps (set_len ms1 l CAP_UNFINISHED) = caps ms"
    if "wf_ms ms1" "caps ms1 = ?cs" for ms1
  proof -
    have "level ms1 = level ms" using length_caps [OF that(1)] length_caps [OF wf] that(2) by simp
    then have "caps (set_len ms1 l CAP_UNFINISHED) = (caps ms)[l := (?i, CAP_UNFINISHED)]"
      using that l length_caps [OF wf] by (simp add: caps_set_len)
    also have "\<dots> = caps ms" using un by (metis list_update_id prod.collapse)
    finally show ?thesis using that(1) by (simp add: wf_set_len)
  qed
  have e: "end_capture rec ms s p =
      bindE (rec ?ms s p) (\<lambda>(ms1, res). Inr (if res = None then set_len ms1 l CAP_UNFINISHED else ms1, res))"
    using wf l Some by (simp add: end_capture_def capture_to_close_open get_slot_caps)
  from r undo show ?thesis
    unfolding e Some by (cases "rec ?ms s p") (auto split: option.splits)
qed

text \<open>The subject is shorter than 2^63 bytes, so a negative length is never taken for a match.\<close>

abbreviation subject_ok :: "byte list \<Rightarrow> bool" where
  "subject_ok src \<equiv> length src < 2 ^ 63"

lemma negative_len: "word_of_int CAP_POSITION = (0xFFFFFFFFFFFFFFFE :: uint64)"
  by (simp add: CAP_POSITION_def)

lemma match_capture_ok:
  assumes "subject_ok src" and "isdigit d" and st: "state_ok src ms s"
  shows "(\<exists>i. match_capture src ms s d = Inl (InvalidCaptureIndex i) \<and> item_next src (BackRef d) (caps ms) s = []) \<or>
    (match_capture src ms s d = Inr None \<and> item_next src (BackRef d) (caps ms) s = []) \<or>
    (\<exists>s'. match_capture src ms s d = Inr (Some s') \<and> s \<le> s' \<and> s' \<le> length src \<and>
       item_next src (BackRef d) (caps ms) s = [(caps ms, s')])"
proof -
  have wf: "wf_ms ms" and co: "caps_ok s (caps ms)" and s: "s \<le> length src" using st by (simp_all add: state_ok_def)
  note lc = length_caps [OF wf]
  define i where "i = unat d - 49"
  have u: "uint d = int (unat d)" by simp
  show ?thesis
  proof (cases "49 \<le> unat d \<and> i < level ms")
    case False
    then have "uint d - 49 < 0 \<or> int (level ms) \<le> uint d - 49"
      unfolding i_def u by linarith
    then show ?thesis using False lc by (auto simp: match_capture_def check_capture_def Let_def i_def)
  next
    case True
    then have ix: "\<not> uint d - 49 < 0" "\<not> int (level ms) \<le> uint d - 49" "nat (uint d - 49) = i"
      unfolding i_def u by linarith+
    obtain a n where an: "caps ms ! i = (a, n)" by fastforce
    then have mem: "(a, n) \<in> set (caps ms)" using True lc by (metis nth_mem)
    have sl: "get_slot ms i = Inr (a, n)" using get_slot_caps [OF wf] True an by simp
    consider "n = CAP_UNFINISHED" | "n = CAP_POSITION" | "0 \<le> n" "int a + n \<le> int s"
      using co mem by (auto simp: caps_ok_def)
    then show ?thesis
    proof cases
      case 1
      then have "check_capture ms d = Inl (InvalidCaptureIndex (uint d - 49 + 1))"
        using ix sl by (simp add: check_capture_def Let_def)
      moreover have "item_next src (BackRef d) (caps ms) s = []"
        using an 1 by (simp add: Let_def i_def CAP_UNFINISHED_def)
      ultimately show ?thesis by (auto simp: match_capture_def)
    next
      case 2
      then have "check_capture ms d = Inr i"
        using ix sl by (simp add: check_capture_def Let_def CAP_POSITION_def CAP_UNFINISHED_def)
      moreover have "\<not> unat (word_of_int CAP_POSITION :: uint64) \<le> length src - s"
        using assms(1) by (simp add: negative_len)
      moreover have "item_next src (BackRef d) (caps ms) s = []"
        using an 2 by (simp add: Let_def i_def CAP_POSITION_def)
      ultimately show ?thesis using sl 2 by (simp add: match_capture_def Let_def)
    next
      case 3
      then have "check_capture ms d = Inr i"
        using ix sl by (simp add: check_capture_def Let_def CAP_UNFINISHED_def)
      moreover have w: "unat (word_of_int n :: uint64) = nat n"
      proof -
        have "n < 2 ^ 64" using 3 s assms(1) by simp
        then show ?thesis using 3 by (simp add: unat_eq_nat_uint uint_word_of_int)
      qed
      moreover have mm: "memcmp_eq src a s (nat n) = Inr (seg src s (s + nat n) = seg src a (a + nat n))"
        if "nat n \<le> length src - s"
        using that 3 s by (auto simp: memcmp_eq_def seg_def)
      ultimately show ?thesis
        using True lc sl an 3 s by (auto simp: match_capture_def Let_def i_def)
    qed
  qed
qed


lemma match_default_ok:
  assumes rec: "rec_ok rec src pat k" and p: "p < length pat" and st: "state_ok src ms s"
    and dflt: "parse_item (drop p pat) = parse_default (drop p pat)"
  shows "ok_flow src pat (successes src (drop p pat) (caps ms) s) (caps ms) s (Suc k + p \<le> length pat)
    (match_default rec src pat ms s p)"
  using classend_single [OF p]
proof (elim disjE exE)
  fix e assume "classend pat p = Inl e \<and> e \<noteq> ReadOutside \<and> e \<noteq> TooComplex \<and> parse_single (drop p pat) = None"
  then show ?thesis by (simp add: match_default_def ok_err_def)
next
  fix ep sg assume "classend pat p = Inr ep \<and> p < ep \<and> ep \<le> length pat \<and>
      parse_single (drop p pat) = Some (sg, drop ep pat) \<and> matches_single pat p ep sg"
  then have ep: "classend pat p = Inr ep" "p < ep" "ep \<le> length pat"
    and ps: "parse_single (drop p pat) = Some (sg, drop ep pat)" and ms: "matches_single pat p ep sg" by simp_all
  let ?b = "s < length src \<and> in_single sg (src ! s)"
  let ?tc = "Suc k + p \<le> length pat"
  have sm: "singlematch src s pat p ep = Inr ?b" using ms by (simp add: matches_single_def)
  have wf: "wf_ms ms" and s: "s \<le> length src" using st by (simp_all add: state_ok_def)
  have run: "run_length src sg s = (if ?b then Suc (run_length src sg (s + 1)) else 0)" by (rule run_length_step)
  have nxt: "?b \<Longrightarrow> state_ok src ms (s + 1)" by (rule state_ok_later [OF st]) auto
  define c where "c = (if ep < length pat then pat ! ep else 0)"
  have rdc: "rd pat ep = Inr c" using ep by (simp add: c_def rd_le)
  have succ: "successes src (drop p pat) (caps ms) s =
      concat (map (\<lambda>n. successes src rest (caps ms) (s + n)) (rep_ends rep (run_length src sg s)))"
    if "parse_suffix (drop ep pat) = (rep, rest)" for rep rest
  proof -
    have "parse_item (drop p pat) = Some (Rep sg rep, rest)"
      unfolding dflt parse_default_def using ps that by simp
    from successes_item [OF this] show ?thesis by (simp add: comp_def)
  qed
  have suffix: "parse_suffix (drop ep pat) =
      (if c = QUEST then (Optional, drop (ep + 1) pat) else if c = STAR then (Greedy, drop (ep + 1) pat)
       else if c = PLUS then (GreedyPlus, drop (ep + 1) pat) else if c = MINUS then (Lazy, drop (ep + 1) pat)
       else (Once, drop ep pat))"
  proof (cases "ep < length pat")
    case True
    then have "drop ep pat = c # drop (ep + 1) pat" by (simp add: c_def Cons_nth_drop_Suc)
    then show ?thesis by (simp add: parse_suffix_def)
  qed (simp add: parse_suffix_def c_def)
  have lt: "c = QUEST \<or> c = STAR \<or> c = PLUS \<or> c = MINUS \<Longrightarrow> ep + 1 \<le> length pat"
    by (auto simp: c_def split: if_splits)
  have tc: "k + (ep + 1) \<le> length pat \<Longrightarrow> ?tc" using ep by simp
  note md = match_default_def [of rec src pat ms s p, unfolded ep(1) bindE_simps sm rdc]
  consider "c = QUEST" | "c = STAR" | "c = PLUS" | "c = MINUS" | "c \<notin> {QUEST, STAR, PLUS, MINUS}" by blast
  then show ?thesis
  proof cases
    case 1
    note ls = succ [OF suffix [unfolded if_P [OF 1]]]
    note bound = lt [OF disjI1 [OF 1]]
    show ?thesis
    proof (cases ?b)
      case True
      then have "rep_ends Optional (run_length src sg s) = [1, 0]" by (simp add: run)
      moreover have "ok_res (successes src (drop (ep + 1) pat) (caps ms) (s + 1)) (caps ms) ?tc (rec ms (s + 1) (ep + 1))"
        by (rule rec_okD [OF rec nxt [OF True] bound tc])
      ultimately show ?thesis
        unfolding ls md using True 1 bound s
        by (cases "rec ms (s + 1) (ep + 1)") (auto split: option.splits)
    next
      case False
      then have "rep_ends Optional (run_length src sg s) = [0]" unfolding run if_not_P [OF False] by simp
      then show ?thesis
        unfolding ls md using False 1 bound s wf by simp
    qed
  next
    case 2
    then have "parse_suffix (drop ep pat) = (Greedy, drop (ep + 1) pat)" unfolding suffix by simp
    note ls = succ [OF this]
    have bound: "ep + 1 \<le> length pat" using lt 2 by blast
    show ?thesis
    proof (cases ?b)
      case True
      have "match_default rec src pat ms s p = bindE (max_expand rec src pat ms s p ep) leave"
        unfolding md using True 2 by simp
      then show ?thesis
        unfolding ls using ok_leave [OF max_expand_ok [OF rec bound tc ms st]] by (simp del: upt_Suc)
    next
      case False
      then have "rep_ends Greedy (run_length src sg s) = [0]" unfolding run if_not_P [OF False] by simp
      then show ?thesis unfolding ls md using False 2 bound s wf by simp
    qed
  next
    case 3
    then have "parse_suffix (drop ep pat) = (GreedyPlus, drop (ep + 1) pat)" unfolding suffix by simp
    note ls = succ [OF this]
    have bound: "ep + 1 \<le> length pat" using lt 3 by blast
    show ?thesis
    proof (cases ?b)
      case True
      have "match_default rec src pat ms s p = bindE (max_expand rec src pat ms (s + 1) p ep) leave"
        unfolding md using True 3 by simp
      moreover have "rep_ends GreedyPlus (run_length src sg s) = map Suc (rev [0..<Suc (run_length src sg (s + 1))])"
        unfolding run if_P [OF True] by (simp add: rev_map [symmetric] map_Suc_upt del: upt_Suc)
      ultimately show ?thesis
        unfolding ls using ok_leave [OF max_expand_ok [OF rec bound tc ms nxt [OF True]], of src pat s]
        by (simp add: comp_def ok_flow_def del: upt_Suc)
    next
      case False
      then have "rep_ends GreedyPlus (run_length src sg s) = []" unfolding run if_not_P [OF False] by simp
      then show ?thesis unfolding ls md using False 3 wf by simp
    qed
  next
    case 4
    then have "parse_suffix (drop ep pat) = (Lazy, drop (ep + 1) pat)" unfolding suffix by simp
    note ls = succ [OF this]
    have bound: "ep + 1 \<le> length pat" using lt 4 by blast
    show ?thesis
    proof (cases ?b)
      case True
      have "match_default rec src pat ms s p = bindE (min_expand rec src pat ms s p ep) leave"
        unfolding md using True 4 by simp
      then show ?thesis
        unfolding ls using ok_leave [OF min_expand_ok [OF rec bound tc ms st]] by (simp del: upt_Suc)
    next
      case False
      then have "rep_ends Lazy (run_length src sg s) = [0]" unfolding run if_not_P [OF False] by simp
      then show ?thesis unfolding ls md using False 4 bound s wf by simp
    qed
  next
    case 5
    then have "parse_suffix (drop ep pat) = (Once, drop ep pat)" unfolding suffix by simp
    note ls = succ [OF this]
    show ?thesis
    proof (cases ?b)
      case True
      then have "rep_ends Once (run_length src sg s) = [1]" unfolding run if_P [OF True] by simp
      then show ?thesis unfolding ls md using True 5 ep wf by simp
    next
      case False
      then have "rep_ends Once (run_length src sg s) = []" unfolding run if_not_P [OF False] by simp
      then show ?thesis unfolding ls md using False 5 wf by simp
    qed
  qed
qed


lemma matchbalance_ok:
  assumes "s \<le> length src"
  shows "matchbalance src pat s p =
    (if length pat \<le> p + 1 then Inl MissingBalanceArguments
     else Inr (if byte_at src s = pat ! p then balanced_end src (pat ! p) (pat ! (p + 1)) s else None))"
proof -
  have r: "rd src s = Inr (byte_at src s)" using assms by (simp add: rd_le byte_at_def)
  have q: "rd pat p = Inr (pat ! p)" "rd pat (p + 1) = Inr (pat ! (p + 1))" if "p + 1 < length pat"
    using that by (simp_all add: rd_def)
  have "balance_loop src b e s 1 = Inr (balanced_end src b e s)" for b e
    by (simp add: balance_loop_find balanced_end_def del: upt_Suc)
  then show ?thesis using q by (auto simp: matchbalance_def r)
qed

lemma frontier_ok:
  assumes "s \<le> length src" and p: "p \<le> length pat"
  shows "(\<exists>e. frontier src pat s p = Inl e \<and> ok_err tc e) \<or>
    (\<exists>ep sg. p < length pat \<and> pat ! p = LBRACK \<and> parse_set (drop (p + 1) pat) = Some (sg, drop ep pat) \<and> ep \<le> length pat \<and>
       frontier src pat s p =
         Inr (if \<not> in_single sg (if s = 0 then 0 else src ! (s - 1)) \<and> in_single sg (byte_at src s) then Some ep else None))"
proof (cases "p < length pat \<and> pat ! p = LBRACK")
  case False
  then have "frontier src pat s p = Inl MissingFrontierSet"
    using p by (auto simp: frontier_def rd_le)
  then show ?thesis by (simp add: ok_err_def)
next
  case True
  then have r: "rd pat p = Inr LBRACK" by (simp add: rd_less)
  have prev: "(if s = 0 then Inr 0 else rd src (s - 1)) = Inr (if s = 0 then 0 else src ! (s - 1))"
    and cur: "rd src s = Inr (byte_at src s)"
    using assms(1) by (auto simp: rd_def byte_at_def)
  from True have "p < length pat" "pat ! p = LBRACK" by simp_all
  from bracket_set [OF this(2,1)] show ?thesis
  proof (elim disjE exE)
    assume "classend pat p = Inl MissingBracket \<and> parse_set (drop (p + 1) pat) = None"
    then show ?thesis by (simp add: frontier_def r ok_err_def)
  next
    fix ep sg assume a: "classend pat p = Inr ep \<and> p < ep \<and> ep \<le> length pat \<and>
       parse_set (drop (p + 1) pat) = Some (sg, drop ep pat) \<and>
       (\<forall>c. matchbracketclass c pat p (ep - 1) = Inr (in_single sg c))"
    then have "frontier src pat s p =
         Inr (if \<not> in_single sg (if s = 0 then 0 else src ! (s - 1)) \<and> in_single sg (byte_at src s) then Some ep else None)"
      unfolding frontier_def r bindE_simps prev cur by simp
    with a True show ?thesis by blast
  qed
qed

lemma match_item_ok:
  assumes rec: "rec_ok rec src pat k" and p: "p < length pat" and st: "state_ok src ms s" and src: "subject_ok src"
  shows "ok_flow src pat (successes src (drop p pat) (caps ms) s) (caps ms) s (Suc k + p \<le> length pat)
    (match_item rec src pat ms s p)"
proof -
  let ?tc = "Suc k + p \<le> length pat"
  let ?goal = "ok_flow src pat (successes src (drop p pat) (caps ms) s) (caps ms) s ?tc (match_item rec src pat ms s p)"
  have wf: "wf_ms ms" and s: "s \<le> length src" using st by (simp_all add: state_ok_def)
  define c where "c = pat ! p"
  define r where "r = drop (p + 1) pat"
  define d where "d = byte_at pat (p + 1)"
  have dp: "drop p pat = c # r" using p by (simp add: c_def r_def Cons_nth_drop_Suc)
  have rc: "rd pat p = Inr c" and rdd: "rd pat (p + 1) = Inr d"
    using p by (simp_all add: c_def d_def byte_at_def rd_le)
  have dr: "r \<noteq> [] \<and> hd r = x \<longleftrightarrow> d = x" if "x \<noteq> 0" for x
    using that by (auto simp: r_def d_def byte_at_def hd_drop_conv_nth)
  have dig: "r \<noteq> [] \<and> isdigit (hd r) \<longleftrightarrow> isdigit d"
    by (auto simp: r_def d_def byte_at_def hd_drop_conv_nth isdigit_def)
  have tlr: "tl r = drop (p + 2) pat" by (simp add: r_def drop_Suc tl_drop)
  have bound: "d \<noteq> 0 \<Longrightarrow> p + 2 \<le> length pat" by (auto simp: d_def byte_at_def split: if_splits)
  note item = parse_item_def [of "drop p pat", unfolded dp list.case dr [of RPAREN, simplified] dr [of CH_b, simplified]
      dr [of CH_f, simplified] dig tlr, folded dp]
  note mi = match_item_def [of rec src pat ms s p, unfolded rc bindE_simps rdd]
  have default: ?goal
    if "parse_item (drop p pat) = parse_default (drop p pat)" "match_item rec src pat ms s p = match_default rec src pat ms s p"
    unfolding that(2) by (rule match_default_ok [OF rec p st that(1)])
  consider "c = LPAREN" "d = RPAREN" | "c = LPAREN" "d \<noteq> RPAREN" | "c = RPAREN" | "c = DOLLAR" "r = []" | "c = ESC"
    | "c \<noteq> LPAREN" "c \<noteq> RPAREN" "\<not> (c = DOLLAR \<and> r = [])" "c \<noteq> ESC" by blast
  then show ?goal
  proof cases
    case 1
    then have "parse_item (drop p pat) = Some (OpenPosition, drop (p + 2) pat)" unfolding item by simp
    note ls = successes_item [OF this]
    have b: "p + 2 \<le> length pat" using bound 1 by simp
    have "match_item rec src pat ms s p = bindE (start_capture rec ms s (p + 2) CAP_POSITION) leave" unfolding mi using 1 by simp
    then show ?thesis
      unfolding ls using ok_leave [OF start_capture_ok [OF rec b _ st, of ?tc CAP_POSITION], of src pat s] by (simp split: if_splits)
  next
    case 2
    then have "parse_item (drop p pat) = Some (OpenCapture, drop (p + 1) pat)" unfolding item r_def by simp
    note ls = successes_item [OF this]
    have b: "p + 1 \<le> length pat" using p by simp
    have "match_item rec src pat ms s p = bindE (start_capture rec ms s (p + 1) CAP_UNFINISHED) leave" unfolding mi using 2 by simp
    then show ?thesis
      unfolding ls using ok_leave [OF start_capture_ok [OF rec b _ st, of ?tc CAP_UNFINISHED], of src pat s] by (simp split: if_splits)
  next
    case 3
    then have "parse_item (drop p pat) = Some (CloseCapture, drop (p + 1) pat)" unfolding item r_def by simp
    note ls = successes_item [OF this]
    have b: "p + 1 \<le> length pat" using p by simp
    have "match_item rec src pat ms s p = bindE (end_capture rec ms s (p + 1)) leave" unfolding mi using 3 by simp
    then show ?thesis
      unfolding ls using ok_leave [OF end_capture_ok [OF rec b _ st, of ?tc], of src pat s]
      by (cases "open_index (caps ms)") simp_all
  next
    case 4
    then have "parse_item (drop p pat) = Some (AtEnd, [])" unfolding item by simp
    note ls = successes_item [OF this]
    have "p + 1 = length pat" using 4(2) p by (simp add: r_def)
    then have "match_item rec src pat ms s p = Inr (Leave ms (if s = length src then Some s else None))"
      unfolding mi using 4 by simp
    then show ?thesis unfolding ls using wf by simp
  next
    case 6
    have ne: "\<not> (c = DOLLAR \<and> p + 1 = length pat)" using 6(3) p by (auto simp: r_def)
    show ?thesis
    proof (rule default)
      show "parse_item (drop p pat) = parse_default (drop p pat)" unfolding item using 6 by auto
      show "match_item rec src pat ms s p = match_default rec src pat ms s p"
        unfolding mi if_not_P [OF 6(1)] if_not_P [OF 6(2)] if_not_P [OF ne] if_not_P [OF 6(4)] by (rule refl)
    qed
  next
    case 5
    consider "d = CH_b" | "d = CH_f" | "d \<noteq> CH_b" "d \<noteq> CH_f" "isdigit d" | "d \<noteq> CH_b" "d \<noteq> CH_f" "\<not> isdigit d" by blast
    then show ?thesis
    proof cases
      case 1
      have mi1: "match_item rec src pat ms s p =
          bindE (matchbalance src pat s (p + 2)) (\<lambda>r. case r of Some s1 \<Rightarrow> Inr (Jump ms s1 (p + 4)) | None \<Rightarrow> Inr (Leave ms None))"
        unfolding mi using 5 1 by simp
      show ?thesis
      proof (cases "p + 3 < length pat")
        case False
        then show ?thesis unfolding mi1 using s by (simp add: matchbalance_ok ok_err_def)
      next
        case True
        let ?x = "pat ! (p + 2)" and ?y = "pat ! (p + 3)"
        have "drop (p + 2) pat = ?x # ?y # drop (p + 4) pat"
          using True by (simp add: Cons_nth_drop_Suc numeral_eq_Suc)
        then have "parse_item (drop p pat) = Some (Balance ?x ?y, drop (p + 4) pat)" unfolding item using 5 1 by simp
        note ls = successes_item [OF this]
        have mb: "matchbalance src pat s (p + 2) = Inr (if byte_at src s = ?x then balanced_end src ?x ?y s else None)"
          using True matchbalance_ok [OF s, of pat "p + 2"] by (simp add: numeral_3_eq_3 numeral_2_eq_2)
        show ?thesis
          unfolding mi1 mb ls using wf True balanced_end_bounds [of src ?x ?y s] s
          by (cases "byte_at src s = ?x"; cases "balanced_end src ?x ?y s") fastforce+
      qed
    next
      case 2
      have b: "p + 2 \<le> length pat" using bound 2 by simp
      have mi1: "match_item rec src pat ms s p =
          bindE (frontier src pat s (p + 2)) (\<lambda>r. case r of Some ep \<Rightarrow> Inr (Jump ms s ep) | None \<Rightarrow> Inr (Leave ms None))"
        unfolding mi using 5 2 by simp
      from frontier_ok [OF s b, of ?tc] show ?thesis
      proof (elim disjE exE)
        fix e assume "frontier src pat s (p + 2) = Inl e \<and> ok_err ?tc e"
        then show ?thesis unfolding mi1 by simp
      next
        fix ep sg
        let ?here = "\<not> in_single sg (if s = 0 then 0 else src ! (s - 1)) \<and> in_single sg (byte_at src s)"
        assume a: "p + 2 < length pat \<and> pat ! (p + 2) = LBRACK \<and>
          parse_set (drop (p + 2 + 1) pat) = Some (sg, drop ep pat) \<and> ep \<le> length pat \<and>
          frontier src pat s (p + 2) = Inr (if ?here then Some ep else None)"
        then have dd: "drop (p + 2) pat = LBRACK # drop (p + 2 + 1) pat" by (metis Cons_nth_drop_Suc Suc_eq_plus1)
        have "parse_item (drop p pat) = map_option (\<lambda>(sg, u). (Frontier sg, u)) (parse_set (drop (p + 2 + 1) pat))"
          unfolding item dd using 5 2 by simp
        then have "parse_item (drop p pat) = Some (Frontier sg, drop ep pat)" using a by simp
        note ls = successes_item [OF this]
        from a have f: "frontier src pat s (p + 2) = Inr (if ?here then Some ep else None)" and e: "ep \<le> length pat" by blast+
        show ?thesis unfolding mi1 f ls item_next.simps bindE_simps using wf e s by (cases ?here) auto
      qed
    next
      case 3
      then have "parse_item (drop p pat) = Some (BackRef d, drop (p + 2) pat)"
        unfolding item using 5 dig by (auto simp: r_def d_def byte_at_def hd_drop_conv_nth)
      note ls = successes_item [OF this]
      have b: "p + 2 \<le> length pat" using bound 3 by (cases "d = 0") (auto simp: isdigit_def)
      have mi1: "match_item rec src pat ms s p =
          bindE (match_capture src ms s d) (\<lambda>r. case r of Some s1 \<Rightarrow> Inr (Jump ms s1 (p + 2)) | None \<Rightarrow> Inr (Leave ms None))"
        proof -
        have n: "c \<noteq> LPAREN" "c \<noteq> RPAREN" "\<not> (c = DOLLAR \<and> p + 1 = length pat)" using 5 by simp_all
        show ?thesis
          unfolding mi if_not_P [OF n(1)] if_not_P [OF n(2)] if_not_P [OF n(3)] if_P [OF 5] if_not_P [OF 3(1)]
            if_not_P [OF 3(2)] if_P [OF 3(3)] by (rule refl)
      qed
      from match_capture_ok [OF src 3(3) st] show ?thesis
      proof (elim disjE exE)
      qed (use wf b in \<open>auto simp: mi1 ls ok_err_def simp del: item_next.simps\<close>)
    next
      case 4
      show ?thesis
      proof (rule default)
        show "parse_item (drop p pat) = parse_default (drop p pat)" unfolding item using 5 4 by simp
        show "match_item rec src pat ms s p = match_default rec src pat ms s p" unfolding mi using 5 4 by simp
      qed
    qed
  qed
qed

lemma match_loop_ok:
  assumes rec: "rec_ok rec src pat k" and src: "subject_ok src"
  shows "state_ok src ms s \<Longrightarrow> p \<le> length pat \<Longrightarrow>
    ok_res (successes src (drop p pat) (caps ms) s) (caps ms) (Suc k + p \<le> length pat) (match_loop rec src pat ms s p)"
proof (induction "length pat - p" arbitrary: p ms s rule: less_induct)
  case less
  show ?case
  proof (cases "p = length pat")
    case True
    then show ?thesis using less.prems by (subst match_loop.simps) (simp add: state_ok_def)
  next
    case False
    then have p: "p < length pat" using less.prems by simp
    note item = match_item_ok [OF rec p less.prems(1) src]
    show ?thesis
    proof (cases "match_item rec src pat ms s p")
      case (Inl e)
      then show ?thesis using item False by (subst match_loop.simps) simp
    next
      case (Inr f)
      show ?thesis
      proof (cases f)
        case (Leave ms1 r)
        then show ?thesis using Inr item False by (subst match_loop.simps) simp
      next
        case (Jump ms1 s1 p1)
        have j: "wf_ms ms1" "caps ms1 = caps ms" "s \<le> s1" "s1 \<le> length src" "p1 \<le> length pat"
          and ls: "successes src (drop p pat) (caps ms) s = successes src (drop p1 pat) (caps ms) s1"
          using item Inr Jump by simp_all
        have lt: "p < p1" using match_item_jump Inr Jump by blast
        have "state_ok src ms1 s1" by (rule state_ok_later [OF state_ok_caps [OF less.prems(1) j(1,2)] j(3,4)])
        moreover have "length pat - p1 < length pat - p" using lt p by linarith
        ultimately have "ok_res (successes src (drop p1 pat) (caps ms1) s1) (caps ms1) (Suc k + p1 \<le> length pat) (match_loop rec src pat ms1 s1 p1)"
          using less.hyps j(5) by blast
        then have "ok_res (successes src (drop p pat) (caps ms) s) (caps ms) (Suc k + p \<le> length pat) (match_loop rec src pat ms1 s1 p1)"
          unfolding ls j(2) by (rule ok_res_mono) (use lt in simp)
        then show ?thesis using Inr Jump False by (subst match_loop.simps) simp
      qed
    qed
  qed
qed

lemma do_match_ok: "subject_ok src \<Longrightarrow> rec_ok (do_match src pat d) src pat d"
proof (induction d)
  case 0
  show ?case by (simp add: rec_ok_def ok_err_def)
next
  case (Suc d)
  from match_loop_ok [OF Suc.IH [OF Suc.prems] Suc.prems] show ?case by (simp add: rec_ok_def)
qed


section \<open>Bounds\<close>

lemma rep_ends_bound: "n \<in> set (rep_ends rep m) \<Longrightarrow> n \<le> m"
  by (cases rep) (auto split: if_splits)

lemma item_next_bounds:
  assumes "(cs', e) \<in> set (item_next src it cs s)" and ok: "caps_ok s cs" and s: "s \<le> length src"
  shows "s \<le> e \<and> e \<le> length src \<and> caps_ok e cs'"
proof (cases it)
  case CloseCapture
  with assms(1) obtain l where l: "open_index cs = Some l" and e: "e = s"
    and cs': "cs' = cs[l := (fst (cs ! l), int s - int (fst (cs ! l)))]"
    by (cases "open_index cs") auto
  have "cs ! l \<in> set cs" using open_index_Some [OF l] by simp
  then have "fst (cs ! l) \<le> s" using ok by (fastforce simp: caps_ok_def)
  then have "caps_ok s cs'"
    using ok set_update_subset_insert [of cs l "(fst (cs ! l), int s - int (fst (cs ! l)))"]
    unfolding cs' by (fastforce simp: caps_ok_def)
  with s e show ?thesis by simp
next
  case (Balance b x)
  have "balanced_end src b x s = Some e \<and> cs' = cs"
  proof (cases "balanced_end src b x s")
    case None
    with assms(1) Balance show ?thesis by (cases "byte_at src s = b") simp_all
  next
    case (Some k)
    with assms(1) Balance show ?thesis by (cases "byte_at src s = b") simp_all
  qed
  then show ?thesis
    using balanced_end_bounds [of src b x s e] caps_ok_mono [OF ok, of e] by simp
next
  case (Rep sg rep)
  with assms(1) obtain n where "n \<in> set (rep_ends rep (run_length src sg s))" "e = s + n" "cs' = cs" by auto
  then show ?thesis
    using rep_ends_bound [of n rep] run_length_bound [OF s, of sg] caps_ok_mono [OF ok, of e] by fastforce
next
  case (BackRef d)
  with assms show ?thesis
    using caps_ok_mono [OF ok, of e] by (auto simp: Let_def split: if_splits)
qed (use assms in \<open>auto simp: caps_ok_def split: if_splits\<close>)

lemma successes_bounds:
  "(cs', e) \<in> set (successes src pat cs s) \<Longrightarrow> caps_ok s cs \<Longrightarrow> s \<le> length src \<Longrightarrow>
   s \<le> e \<and> e \<le> length src \<and> caps_ok e cs'"
proof (induction "length pat" arbitrary: pat cs s rule: less_induct)
  case less
  show ?case
  proof (cases "pat = []")
    case True
    with less.prems show ?thesis by simp
  next
    case False
    with less.prems(1) obtain it rest where it: "parse_item pat = Some (it, rest)"
      by (cases "parse_item pat") (auto simp: successes.simps [of src pat])
    then obtain cs1 s1 where 1: "(cs1, s1) \<in> set (item_next src it cs s)" "(cs', e) \<in> set (successes src rest cs1 s1)"
      using less.prems(1) by (auto simp: successes_item)
    from item_next_bounds [OF 1(1) less.prems(2,3)]
    have b: "s \<le> s1" "s1 \<le> length src" "caps_ok s1 cs1" by simp_all
    from less.hyps [OF parse_item_length [OF it] 1(2) b(3,2)] b(1) show ?thesis by simp
  qed
qed

lemma new_state_ok: "s \<le> length src \<Longrightarrow> state_ok src new_MatchState s"
  by (simp add: state_ok_def wf_ms_def new_MatchState_def caps_def caps_ok_def)

lemma caps_new [simp]: "caps new_MatchState = []"
  by (simp add: caps_def new_MatchState_def)

end
