(* ===== verification/LuaStrLib.thy ===== *)
theory LuaStrLib
  imports LuaPatternSpec
begin

text \<open>
  The functions of lstrlib.c over the matcher: find, match, gmatch and gsub, and the ones that need
  no pattern: sub, rep, byte, char, reverse, lower and upper. Integers from scripts are 64-bit words
  (lua_Integer and size_t) or 32-bit words (int); the values pushed on the Lua stack are results.

  An element of a replacement table or the result of a replacement function is given by a parameter,
  and so is the text of a number (lua_Number printed by sprintf).
\<close>

section \<open>Functions without patterns\<close>

definition size_of :: "byte list \<Rightarrow> uint64" where
  "size_of s = of_nat (length s)"

definition posrelat :: "uint64 \<Rightarrow> uint64 \<Rightarrow> uint64" where
  "posrelat pos len =
     (if 0 \<le> sint pos then pos else if len < 0 - pos then 0 else len - (- pos) + 1)"

definition str_len :: "byte list \<Rightarrow> uint64" where
  "str_len s = size_of s"

definition str_sub :: "byte list \<Rightarrow> uint64 \<Rightarrow> uint64 option \<Rightarrow> byte list" where
  "str_sub s i j =
     (let l = size_of s;
          start0 = posrelat i l; end0 = posrelat (case j of None \<Rightarrow> -1 | Some x \<Rightarrow> x) l;
          start1 = (if start0 < 1 then 1 else start0);
          end1 = (if l < end0 then l else end0)
      in if start1 \<le> end1 then take (unat (end1 - start1 + 1)) (drop (unat (start1 - 1)) s) else [])"

definition str_reverse :: "byte list \<Rightarrow> byte list" where
  "str_reverse s = map (\<lambda>i. s ! (length s - i - 1)) [0..<length s]"

definition str_lower :: "byte list \<Rightarrow> byte list" where
  "str_lower s = map (\<lambda>i. tolower (s ! i)) [0..<length s]"

definition str_upper :: "byte list \<Rightarrow> byte list" where
  "str_upper s = map (\<lambda>i. toupper (s ! i)) [0..<length s]"

definition MAXSIZE :: uint64 where "MAXSIZE = drop_bit 1 (- 1)"

fun rep_copies :: "nat \<Rightarrow> byte list \<Rightarrow> byte list \<Rightarrow> byte list" where
  "rep_copies n s sep = (if 1 < n then s @ sep @ rep_copies (n - 1) s sep else s)"

declare rep_copies.simps [simp del]

text \<open>A copy that is longer than the buffer of totallen bytes would write past its end.\<close>

definition str_rep :: "byte list \<Rightarrow> uint32 \<Rightarrow> byte list \<Rightarrow> pattern_error + byte list" where
  "str_rep s n sep =
     (let l = size_of s; lsep = size_of sep; m = (scast n :: uint64)
      in if sint n \<le> 0 then Inr []
         else if l + lsep < l \<or> MAXSIZE div m \<le> l + lsep then Inl ResultTooLarge
         else
           (let totallen = m * l + (m - 1) * lsep; text = rep_copies (nat (sint n)) s sep
            in if length text = unat totallen then Inr text else Inl ReadOutside))"

text \<open>The number of results and the results pushed.\<close>

definition str_byte :: "byte list \<Rightarrow> uint64 option \<Rightarrow> uint64 option \<Rightarrow> pattern_error + uint32 \<times> byte list" where
  "str_byte s i j =
     (let l = size_of s;
          posi = posrelat (case i of None \<Rightarrow> 1 | Some x \<Rightarrow> x) l;
          pose = posrelat (case j of None \<Rightarrow> posi | Some x \<Rightarrow> x) l;
          posi1 = (if posi < 1 then 1 else posi);
          pose1 = (if l < pose then l else pose)
      in if pose1 < posi1 then Inr (0, [])
         else
           (let n = (ucast (pose1 - posi1 + 1) :: uint32)
            in if posi1 + scast n \<le> pose1 then Inl SliceTooLong
               else Inr (n, map (\<lambda>k. s ! (unat posi1 + k - 1)) [0..<nat (sint n)])))"

fun str_char_from :: "nat \<Rightarrow> uint32 list \<Rightarrow> pattern_error + byte list" where
  "str_char_from i [] = Inr []"
| "str_char_from i (c # cs) =
     (if ucast (ucast c :: byte) = c then bindE (str_char_from (i + 1) cs) (\<lambda>t. Inr (ucast c # t))
      else Inl (ValueOutOfRange i))"

definition str_char :: "uint32 list \<Rightarrow> pattern_error + byte list" where
  "str_char cs = str_char_from 1 cs"

section \<open>Captures as results\<close>

datatype lval = LNil | LInt int | LStr "byte list"

text \<open>lua_pushlstring copies a part of the subject. The pointer s is null when find asks for the captures alone.\<close>

definition push_part :: "byte list \<Rightarrow> nat \<Rightarrow> nat \<Rightarrow> pattern_error + byte list" where
  "push_part src a b = (if a \<le> b \<and> b \<le> length src then Inr (seg src a b) else Inl ReadOutside)"

definition push_onecapture :: "byte list \<Rightarrow> match_state \<Rightarrow> nat \<Rightarrow> nat \<Rightarrow> nat \<Rightarrow> pattern_error + lval" where
  "push_onecapture src ms i s e =
     (if level ms \<le> i then
        (if i = 0 then bindE (push_part src s e) (\<lambda>t. Inr (LStr t)) else Inl InvalidCapture)
      else bindE (get_slot ms i) (\<lambda>(init, l).
        if l = CAP_UNFINISHED then Inl UnfinishedCapture
        else if l = CAP_POSITION then Inr (LInt (int init + 1))
        else bindE (push_part src init (init + nat l)) (\<lambda>t. Inr (LStr t))))"

fun push_from :: "byte list \<Rightarrow> match_state \<Rightarrow> nat \<Rightarrow> nat \<Rightarrow> nat list \<Rightarrow> pattern_error + lval list" where
  "push_from src ms s e [] = Inr []"
| "push_from src ms s e (i # is) =
     bindE (push_onecapture src ms i s e) (\<lambda>v. bindE (push_from src ms s e is) (\<lambda>vs. Inr (v # vs)))"

definition push_captures :: "byte list \<Rightarrow> match_state \<Rightarrow> (nat \<times> nat) option \<Rightarrow> pattern_error + lval list" where
  "push_captures src ms se =
     (let nlevels = (if level ms = 0 \<and> se \<noteq> None then 1 else level ms);
          (s, e) = (case se of None \<Rightarrow> (0, 0) | Some x \<Rightarrow> x)
      in push_from src ms s e [0..<nlevels])"

section \<open>find and match\<close>

definition lua_memchr :: "byte list \<Rightarrow> nat \<Rightarrow> byte \<Rightarrow> nat \<Rightarrow> nat option" where
  "lua_memchr src s1 c l1 = List.find (\<lambda>j. src ! j = c) [s1..<s1 + l1]"

function lmem_loop :: "byte list \<Rightarrow> byte list \<Rightarrow> nat \<Rightarrow> nat \<Rightarrow> nat option" where
  "lmem_loop src pat s1 l1 =
     (if 0 < l1 then
        (case lua_memchr src s1 (hd pat) l1 of
           None \<Rightarrow> None
         | Some j \<Rightarrow>
             if take (length pat - 1) (drop (j + 1) src) = tl pat then Some j
             else lmem_loop src pat (j + 1) (l1 - (j + 1 - s1)))
      else None)"
  by auto

lemma lua_memchr_Some: "lua_memchr src s1 c l1 = Some j \<Longrightarrow> s1 \<le> j \<and> j < s1 + l1 \<and> src ! j = c \<and> (\<forall>i. s1 \<le> i \<and> i < j \<longrightarrow> src ! i \<noteq> c)"
proof -
  assume "lua_memchr src s1 c l1 = Some j"
  then obtain k where k: "k < l1" "src ! (s1 + k) = c" "j = s1 + k" "\<forall>i<k. src ! (s1 + i) \<noteq> c"
    by (auto simp: lua_memchr_def find_Some_iff)
  have "src ! i \<noteq> c" if "s1 \<le> i" "i < j" for i
  proof -
    have "i - s1 < k" using that k(3) by simp
    with k(4) that show ?thesis by fastforce
  qed
  with k show ?thesis by simp
qed

lemma memchr_None: "lua_memchr src s1 c l1 = None \<Longrightarrow> s1 \<le> i \<Longrightarrow> i < s1 + l1 \<Longrightarrow> src ! i \<noteq> c"
  by (auto simp: lua_memchr_def find_None_iff)

termination lmem_loop
  by (relation "measure (\<lambda>(src, pat, s1, l1). l1)") (auto dest!: lua_memchr_Some)

declare lmem_loop.simps [simp del]

definition lmemfind :: "byte list \<Rightarrow> nat \<Rightarrow> nat \<Rightarrow> byte list \<Rightarrow> nat option" where
  "lmemfind src s1 l1 pat =
     (if pat = [] then Some s1 else if l1 < length pat then None
      else lmem_loop src pat s1 (l1 - (length pat - 1)))"

definition SPECIALS :: "byte list" where
  "SPECIALS = [CARET, DOLLAR, STAR, PLUS, QUEST, DOT, LPAREN, LBRACK, ESC, MINUS]"

function nospecials_loop :: "byte list \<Rightarrow> nat \<Rightarrow> bool" where
  "nospecials_loop p up =
     (let w = takeWhile (\<lambda>c. c \<noteq> 0) (drop up p)
      in if list_ex (\<lambda>c. c \<in> set SPECIALS) w then False
         else if up + length w + 1 \<le> length p then nospecials_loop p (up + length w + 1)
         else True)"
  by auto
termination by (relation "measure (\<lambda>(p, up). length p - up)") auto

declare nospecials_loop.simps [simp del]

definition nospecials :: "byte list \<Rightarrow> bool" where
  "nospecials p = nospecials_loop p 0"

text \<open>The loop of find and match, from the first position on.\<close>

function find_loop ::
  "byte list \<Rightarrow> byte list \<Rightarrow> bool \<Rightarrow> match_state \<Rightarrow> nat \<Rightarrow> pattern_error + match_state \<times> (nat \<times> nat) option" where
  "find_loop src pat anchor ms s1 =
     bindE (do_match src pat MAXCCALLS (ms\<lparr>level := 0\<rparr>) s1 0) (\<lambda>(ms1, res).
       case res of Some e \<Rightarrow> Inr (ms1, Some (s1, e))
       | None \<Rightarrow>
           if s1 < length src \<and> \<not> anchor then find_loop src pat anchor ms1 (s1 + 1) else Inr (ms1, None))"
  by auto
termination by (relation "measure (\<lambda>(src, pat, anchor, ms, s1). length src - s1)") auto

declare find_loop.simps [simp del]

definition plain_search :: "byte list \<Rightarrow> byte list \<Rightarrow> nat \<Rightarrow> pattern_error + lval list" where
  "plain_search src pat start =
     (case lmemfind src start (length src - start) pat of
        Some s2 \<Rightarrow> Inr [LInt (int s2 + 1), LInt (int s2 + int (length pat))]
      | None \<Rightarrow> Inr [LNil])"

definition pattern_search :: "bool \<Rightarrow> byte list \<Rightarrow> byte list \<Rightarrow> nat \<Rightarrow> pattern_error + lval list" where
  "pattern_search fnd src pat start =
     (let anchor = (byte_at pat 0 = CARET)
      in bindE (find_loop src (if anchor then tl pat else pat) anchor new_MatchState start) (\<lambda>(ms, res).
        case res of None \<Rightarrow> Inr [LNil]
        | Some (b, e) \<Rightarrow>
            if fnd then bindE (push_captures src ms None) (\<lambda>cs. Inr (LInt (int b + 1) # LInt (int e) # cs))
            else push_captures src ms (Some (b, e))))"

definition str_find_aux ::
  "bool \<Rightarrow> byte list \<Rightarrow> byte list \<Rightarrow> uint64 option \<Rightarrow> bool \<Rightarrow> pattern_error + lval list" where
  "str_find_aux fnd src pat i plain =
     (let ls = size_of src;
          init0 = posrelat (case i of None \<Rightarrow> 1 | Some x \<Rightarrow> x) ls;
          init = (if init0 < 1 then 1 else init0);
          start = unat init - 1
      in if ls + 1 < init then Inr [LNil]
         else if fnd \<and> (plain \<or> nospecials pat) then plain_search src pat start
         else pattern_search fnd src pat start)"

definition str_find :: "byte list \<Rightarrow> byte list \<Rightarrow> uint64 option \<Rightarrow> bool \<Rightarrow> pattern_error + lval list" where
  "str_find src pat i plain = str_find_aux True src pat i plain"

definition str_match :: "byte list \<Rightarrow> byte list \<Rightarrow> uint64 option \<Rightarrow> pattern_error + lval list" where
  "str_match src pat i = str_find_aux False src pat i False"

section \<open>gmatch\<close>

text \<open>One call of the iterator: the position of the next call with the captures, or the end.\<close>

function gmatch_aux ::
  "byte list \<Rightarrow> byte list \<Rightarrow> match_state \<Rightarrow> nat \<Rightarrow> pattern_error + (nat \<times> lval list) option" where
  "gmatch_aux s pat ms src =
     (if src \<le> length s then
        bindE (do_match s pat MAXCCALLS (ms\<lparr>level := 0\<rparr>) src 0) (\<lambda>(ms1, res).
          case res of
            Some e \<Rightarrow>
              (let newstart = (if e = src then e + 1 else e)
               in bindE (push_captures s ms1 (Some (src, e))) (\<lambda>vs. Inr (Some (newstart, vs))))
          | None \<Rightarrow> gmatch_aux s pat ms1 (src + 1))
      else Inr None)"
  by auto
termination by (relation "measure (\<lambda>(s, pat, ms, src). Suc (length s) - src)") auto

declare gmatch_aux.simps [simp del]

section \<open>gsub\<close>

datatype repl_value = KeepOriginal | ReplText "byte list" | ReplOther

datatype repl = ReplString "byte list" | ReplFunction "lval list \<Rightarrow> repl_value" | ReplTable "lval \<Rightarrow> repl_value"

fun lval_text :: "(int \<Rightarrow> byte list) \<Rightarrow> lval \<Rightarrow> byte list" where
  "lval_text num (LStr t) = t"
| "lval_text num (LInt i) = num i"
| "lval_text num LNil = []"

fun add_s ::
  "(int \<Rightarrow> byte list) \<Rightarrow> byte list \<Rightarrow> match_state \<Rightarrow> nat \<Rightarrow> nat \<Rightarrow> byte list \<Rightarrow> pattern_error + byte list" where
  "add_s num src ms s e [] = Inr []"
| "add_s num src ms s e (c # news) =
     (if c \<noteq> ESC then bindE (add_s num src ms s e news) (\<lambda>t. Inr (c # t))
      else case news of [] \<Rightarrow> Inl InvalidReplacementEscape
        | d # r \<Rightarrow>
            if \<not> isdigit d then
              (if d \<noteq> ESC then Inl InvalidReplacementEscape
               else bindE (add_s num src ms s e r) (\<lambda>t. Inr (d # t)))
            else if d = 48 then
              bindE (push_part src s e) (\<lambda>w. bindE (add_s num src ms s e r) (\<lambda>t. Inr (w @ t)))
            else bindE (push_onecapture src ms (unat (d - 49)) s e) (\<lambda>v.
              bindE (add_s num src ms s e r) (\<lambda>t. Inr (lval_text num v @ t))))"

definition add_value ::
  "(int \<Rightarrow> byte list) \<Rightarrow> repl \<Rightarrow> byte list \<Rightarrow> match_state \<Rightarrow> nat \<Rightarrow> nat \<Rightarrow> pattern_error + byte list" where
  "add_value num tr src ms s e =
     (let keep = (\<lambda>v. case v of KeepOriginal \<Rightarrow> push_part src s e | ReplText t \<Rightarrow> Inr t
                    | ReplOther \<Rightarrow> Inl InvalidReplacementValue)
      in case tr of
           ReplString news \<Rightarrow> add_s num src ms s e news
         | ReplFunction f \<Rightarrow> bindE (push_captures src ms (Some (s, e))) (\<lambda>vs. keep (f vs))
         | ReplTable g \<Rightarrow> bindE (push_onecapture src ms 0 s e) (\<lambda>v. keep (g v)))"

text \<open>The loop returns the text added to the buffer, the position reached and the count.\<close>

function gsub_loop ::
  "(int \<Rightarrow> byte list) \<Rightarrow> repl \<Rightarrow> byte list \<Rightarrow> byte list \<Rightarrow> bool \<Rightarrow> nat \<Rightarrow> match_state \<Rightarrow> nat \<Rightarrow> nat \<Rightarrow>
   pattern_error + byte list \<times> nat \<times> nat" where
  "gsub_loop num tr src pat anchor max_s ms s n =
     (if n < max_s then
        bindE (rd src s) (\<lambda>c.
        bindE (do_match src pat MAXCCALLS (ms\<lparr>level := 0\<rparr>) s 0) (\<lambda>(ms1, res).
        bindE (case res of None \<Rightarrow> Inr [] | Some e \<Rightarrow> add_value num tr src ms1 s e) (\<lambda>added.
          let n1 = (if res = None then n else n + 1);
              nxt = (if res \<noteq> None \<and> s < the res then Some (the res, [])
                     else if s < length src then Some (s + 1, [c]) else None)
          in case nxt of None \<Rightarrow> Inr (added, s, n1)
             | Some (s1, kept) \<Rightarrow>
                 if anchor then Inr (added @ kept, s1, n1)
                 else bindE (gsub_loop num tr src pat anchor max_s ms1 s1 n1) (\<lambda>(t, s2, n2).
                   Inr (added @ kept @ t, s2, n2)))))
      else Inr ([], s, n))"
  by pat_completeness auto
termination
  by (relation "measure (\<lambda>(num, tr, src, pat, anchor, max_s, ms, s, n). Suc (length src) - s)")
    (auto simp: rd_Inr split: if_splits)

declare gsub_loop.simps [simp del]

definition str_gsub ::
  "(int \<Rightarrow> byte list) \<Rightarrow> byte list \<Rightarrow> byte list \<Rightarrow> repl \<Rightarrow> uint64 option \<Rightarrow> pattern_error + byte list \<times> nat" where
  "str_gsub num src pat tr lim =
     (let max_s = (case lim of None \<Rightarrow> size_of src + 1 | Some m \<Rightarrow> m);
          anchor = (byte_at pat 0 = CARET)
      in bindE (gsub_loop num tr src (if anchor then tl pat else pat) anchor (unat max_s) new_MatchState 0 0)
           (\<lambda>(t, s, n). Inr (t @ drop s src, n)))"


section \<open>Lemmas\<close>

lemma reset_ok: "wf_ms ms \<Longrightarrow> s \<le> length src \<Longrightarrow> state_ok src (ms\<lparr>level := 0\<rparr>) s"
  by (simp add: state_ok_def wf_ms_def caps_def caps_ok_def)

lemma caps_reset [simp]: "caps (ms\<lparr>level := 0\<rparr>) = []"
  by (simp add: caps_def)

lemma wf_new [simp]: "wf_ms new_MatchState"
  by (simp add: wf_ms_def new_MatchState_def)

text \<open>The call of the matcher that all loops make.\<close>

lemma do_match_cases:
  assumes "subject_ok src" and "wf_ms ms" and "s \<le> length src"
  obtains (error) e where "do_match src pat d (ms\<lparr>level := 0\<rparr>) s 0 = Inl e" "e \<noteq> ReadOutside" "e = TooComplex \<Longrightarrow> d \<le> length pat"
    | (fail) ms1 where "do_match src pat d (ms\<lparr>level := 0\<rparr>) s 0 = Inr (ms1, None)" "wf_ms ms1" "successes src pat [] s = []"
    | (success) ms1 e where "do_match src pat d (ms\<lparr>level := 0\<rparr>) s 0 = Inr (ms1, Some e)" "wf_ms ms1"
        "successes src pat [] s \<noteq> []" "hd (successes src pat [] s) = (caps ms1, e)" "s \<le> e" "e \<le> length src" "caps_ok e (caps ms1)"
proof -
  have r: "ok_res (successes src pat [] s) [] (d \<le> length pat) (do_match src pat d (ms\<lparr>level := 0\<rparr>) s 0)"
    using rec_okD [OF do_match_ok [OF assms(1)] reset_ok [OF assms(2,3)], where p = 0] by simp
  show thesis
  proof (cases "do_match src pat d (ms\<lparr>level := 0\<rparr>) s 0")
    case (Inl e)
    with r error show ?thesis by (simp add: ok_err_def)
  next
    case (Inr x)
    obtain ms1 res where x: "x = (ms1, res)" by fastforce
    show ?thesis
    proof (cases res)
      case None
      with r Inr x fail show ?thesis by simp
    next
      case (Some e)
      then have a: "wf_ms ms1" "successes src pat [] s \<noteq> []" "hd (successes src pat [] s) = (caps ms1, e)"
        using r Inr x by simp_all
      then have "(caps ms1, e) \<in> set (successes src pat [] s)" by (metis hd_in_set)
      from successes_bounds [OF this _ assms(3)] have "s \<le> e" "e \<le> length src" "caps_ok e (caps ms1)"
        by (simp_all add: caps_ok_def)
      with a Inr x Some success show ?thesis by simp
    qed
  qed
qed

definition harmless :: "byte list \<Rightarrow> pattern_error \<Rightarrow> bool" where
  "harmless pat e \<longleftrightarrow> e \<noteq> ReadOutside \<and> (e = TooComplex \<longrightarrow> MAXCCALLS \<le> length pat)"

lemma find_loop_spec:
  assumes src: "subject_ok src"
  shows "wf_ms ms \<Longrightarrow> i \<le> length src \<Longrightarrow> (case find_loop src pat anchor ms i of
      Inl e \<Rightarrow> harmless pat e
    | Inr (ms1, None) \<Rightarrow> \<forall>b. i \<le> b \<and> b \<le> length src \<and> (anchor \<longrightarrow> b = i) \<longrightarrow> successes src pat [] b = []
    | Inr (ms1, Some (b, e)) \<Rightarrow> wf_ms ms1 \<and> caps_ok e (caps ms1) \<and> i \<le> b \<and> b \<le> e \<and> e \<le> length src \<and>
        (anchor \<longrightarrow> b = i) \<and> successes src pat [] b \<noteq> [] \<and> hd (successes src pat [] b) = (caps ms1, e) \<and>
        (\<forall>b'. i \<le> b' \<and> b' < b \<longrightarrow> successes src pat [] b' = []))"
proof (induction "length src - i" arbitrary: i ms rule: less_induct)
  case less
  from src less.prems show ?case
  proof (cases rule: do_match_cases [of src ms i pat MAXCCALLS, case_names error fail success, consumes 3])
    case (error e)
    then show ?thesis by (subst find_loop.simps) (auto simp: harmless_def)
  next
    case (success ms1 e)
    then show ?thesis using less.prems by (subst find_loop.simps) auto
  next
    case (fail ms1)
    show ?thesis
    proof (cases "i < length src \<and> \<not> anchor")
      case False
      then have "find_loop src pat anchor ms i = Inr (ms1, None)"
        using fail(1) by (subst find_loop.simps) auto
      moreover have "b = i" if "i \<le> b" "b \<le> length src" "anchor \<longrightarrow> b = i" for b using that False by auto
      ultimately show ?thesis using fail(3) by auto
    next
      case True
      then have f: "find_loop src pat anchor ms i = find_loop src pat anchor ms1 (i + 1)"
        using fail(1) by (subst find_loop.simps) simp
      have i: "i \<le> b \<longleftrightarrow> b = i \<or> i + 1 \<le> b" for b by auto
      have "length src - (i + 1) < length src - i" "i + 1 \<le> length src" using True by auto
      from less.hyps [OF this(1) fail(2) this(2)] True fail(3) show ?thesis
        unfolding f by (auto simp: i split: sum.splits option.splits)
    qed
  qed
qed

lemma push_onecapture_safe:
  assumes "wf_ms ms" and "caps_ok e (caps ms)" and "s \<le> e" and "e \<le> length src"
  shows "push_onecapture src ms i s e \<noteq> Inl ReadOutside \<and> push_onecapture src ms i s e \<noteq> Inl TooComplex"
proof (cases "i < level ms")
  case False
  then show ?thesis using assms by (simp add: push_onecapture_def push_part_def)
next
  case True
  obtain a l where al: "caps ms ! i = (a, l)" by fastforce
  have "(a, l) \<in> set (caps ms)" using al True length_caps [OF assms(1)] by (metis nth_mem)
  then have "l = CAP_UNFINISHED \<or> l = CAP_POSITION \<or> a + nat l \<le> length src"
    using assms(2,4) by (fastforce simp: caps_ok_def)
  moreover have "get_slot ms i = Inr (a, l)" using get_slot_caps [OF assms(1) True] al by simp
  ultimately show ?thesis using True by (auto simp: push_onecapture_def push_part_def)
qed

lemma push_from_safe:
  assumes "wf_ms ms" and "caps_ok e (caps ms)" and "s \<le> e" and "e \<le> length src"
  shows "push_from src ms s e is \<noteq> Inl ReadOutside \<and> push_from src ms s e is \<noteq> Inl TooComplex"
proof (induction "is")
  case (Cons i js)
  then show ?case
    using push_onecapture_safe [OF assms, of i]
    by (cases "push_onecapture src ms i s e"; cases "push_from src ms s e js") auto
qed simp

lemma push_captures_safe:
  assumes "wf_ms ms" and "caps_ok e (caps ms)" and "s \<le> e" and "e \<le> length src"
  shows "push_captures src ms (Some (s, e)) \<noteq> Inl ReadOutside \<and> push_captures src ms (Some (s, e)) \<noteq> Inl TooComplex"
    and "push_captures src ms None \<noteq> Inl ReadOutside \<and> push_captures src ms None \<noteq> Inl TooComplex"
proof -
  show "push_captures src ms (Some (s, e)) \<noteq> Inl ReadOutside \<and> push_captures src ms (Some (s, e)) \<noteq> Inl TooComplex"
    using push_from_safe [OF assms] by (simp add: push_captures_def Let_def)
  have "push_from src ms 0 0 is = push_from src ms s e is" if "set is \<subseteq> {..<level ms}" for "is"
    using that by (induction "is") (auto simp: push_onecapture_def)
  from this [of "[0..<level ms]"]
  have "push_from src ms 0 0 [0..<level ms] = push_from src ms s e [0..<level ms]" by (simp add: atLeast0LessThan)
  then show "push_captures src ms None \<noteq> Inl ReadOutside \<and> push_captures src ms None \<noteq> Inl TooComplex"
    using push_from_safe [OF assms, of "[0..<level ms]"] by (simp add: push_captures_def Let_def)
qed

lemma add_s_safe:
  assumes "wf_ms ms" and "caps_ok e (caps ms)" and "s \<le> e" and "e \<le> length src"
  shows "add_s num src ms s e news \<noteq> Inl ReadOutside \<and> add_s num src ms s e news \<noteq> Inl TooComplex"
proof (induction "length news" arbitrary: news rule: less_induct)
  case less
  have p: "push_part src s e = Inr (seg src s e)" using assms by (simp add: push_part_def)
  show ?case
  proof (cases news)
    case (Cons c r)
    show ?thesis
    proof (cases "c = ESC \<and> r \<noteq> []")
      case False
      then show ?thesis using less [of r] Cons by (cases "add_s num src ms s e r") (auto split: list.splits)
    next
      case True
      then obtain d t where r: "r = d # t" by (cases r) auto
      have ih: "add_s num src ms s e t \<noteq> Inl ReadOutside \<and> add_s num src ms s e t \<noteq> Inl TooComplex"
        using less [of t] Cons r by simp
      have o: "push_onecapture src ms (unat (d - 49)) s e \<noteq> Inl ReadOutside \<and>
          push_onecapture src ms (unat (d - 49)) s e \<noteq> Inl TooComplex"
        by (rule push_onecapture_safe [OF assms])
      show ?thesis
        using True ih o unfolding Cons r
        by (cases "add_s num src ms s e t"; cases "push_onecapture src ms (unat (d - 49)) s e") (simp_all add: p)
    qed
  qed simp
qed

lemma add_value_safe:
  assumes "wf_ms ms" and "caps_ok e (caps ms)" and "s \<le> e" and "e \<le> length src"
  shows "add_value num tr src ms s e \<noteq> Inl ReadOutside \<and> add_value num tr src ms s e \<noteq> Inl TooComplex"
proof -
  have p: "push_part src s e = Inr (seg src s e)" using assms by (simp add: push_part_def)
  show ?thesis
  proof (cases tr)
    case (ReplString news)
    then show ?thesis using add_s_safe [OF assms] by (simp add: add_value_def)
  next
    case (ReplFunction f)
    then show ?thesis
      using push_captures_safe(1) [OF assms]
      by (cases "push_captures src ms (Some (s, e))") (auto simp: add_value_def p split: repl_value.splits)
  next
    case (ReplTable g)
    then show ?thesis
      using push_onecapture_safe [OF assms, of 0]
      by (cases "push_onecapture src ms 0 s e") (auto simp: add_value_def p split: repl_value.splits)
  qed
qed

text \<open>
  One iteration of the loop of gsub: it fails, stops, or goes on at a later position s1 with the
  text added for the part of the subject it passed.
\<close>

definition gsub_piece ::
  "(int \<Rightarrow> byte list) \<Rightarrow> repl \<Rightarrow> byte list \<Rightarrow> match_state \<Rightarrow> nat \<Rightarrow> nat \<Rightarrow> nat option \<Rightarrow> byte list \<Rightarrow> bool" where
  "gsub_piece num tr src ms1 s s1 res t \<longleftrightarrow> (case res of
       None \<Rightarrow> t = seg src s s1
     | Some e \<Rightarrow> s \<le> e \<and> e \<le> s1 \<and> (\<exists>w. add_value num tr src ms1 s e = Inr w \<and> t = w @ seg src e s1))"

lemma gsub_loop_cases:
  assumes src: "subject_ok src" and wf: "wf_ms ms" and s: "s \<le> length src"
  obtains (error) e where "gsub_loop num tr src pat anchor max_s ms s n = Inl e" "harmless pat e"
    | (limit) "gsub_loop num tr src pat anchor max_s ms s n = Inr ([], s, n)"
    | (final) ms1 s1 res t where "n < max_s" "wf_ms ms1" "s \<le> s1" "s1 \<le> length src" "gsub_piece num tr src ms1 s s1 res t"
        "gsub_loop num tr src pat anchor max_s ms s n = Inr (t, s1, if res = None then n else n + 1)"
    | (again) ms1 s1 res t where "n < max_s" "wf_ms ms1" "s < s1" "s1 \<le> length src" "gsub_piece num tr src ms1 s s1 res t"
        "gsub_loop num tr src pat anchor max_s ms s n =
           bindE (gsub_loop num tr src pat anchor max_s ms1 s1 (if res = None then n else n + 1))
             (\<lambda>(t', s2, n2). Inr (t @ t', s2, n2))"
proof (cases "n < max_s")
  case False
  then show thesis by (intro limit) (subst gsub_loop.simps, simp)
next
  case True
  have c: "rd src s = Inr (byte_at src s)" using s by (simp add: rd_le byte_at_def)
  note step = gsub_loop.simps [of num tr src pat anchor max_s ms s n, unfolded if_P [OF True] c bindE_simps]
  have one: "seg src s (s + 1) = [byte_at src s]" if "s < length src"
    using that by (simp add: seg_Cons byte_at_def)
  from src wf s show thesis
  proof (cases rule: do_match_cases [of src ms s pat MAXCCALLS, case_names error fail success, consumes 3])
    case (error e)
    show thesis
      by (rule that(1) [of e]) (use error in \<open>auto simp: step harmless_def\<close>)
  next
    case (fail ms1)
    show thesis
    proof (cases "s < length src")
      case False
      have "gsub_loop num tr src pat anchor max_s ms s n = Inr ([], s, n)"
        unfolding step using fail(1) False by simp
      then show thesis
        by (intro final [of ms1 s None "[]"]) (use fail s True in \<open>simp_all add: gsub_piece_def\<close>)
    next
      case less: True
      show thesis
      proof (cases anchor)
        case True
        then have "gsub_loop num tr src pat anchor max_s ms s n = Inr ([byte_at src s], s + 1, n)"
          unfolding step using fail(1) less by simp
        then show thesis
          by (intro final [of ms1 "s + 1" None "[byte_at src s]"])
            (use fail less one \<open>n < max_s\<close> in \<open>simp_all add: gsub_piece_def\<close>)
      next
        case False
        then have "gsub_loop num tr src pat anchor max_s ms s n =
            bindE (gsub_loop num tr src pat anchor max_s ms1 (s + 1) n) (\<lambda>(t', s2, n2). Inr ([byte_at src s] @ t', s2, n2))"
          unfolding step using fail(1) less by simp
        then show thesis
          by (intro again [of ms1 "s + 1" None "[byte_at src s]"])
            (use fail less one \<open>n < max_s\<close> in \<open>simp_all add: gsub_piece_def\<close>)
      qed
    qed
  next
    case (success ms1 e)
    show thesis
    proof (cases "add_value num tr src ms1 s e")
      case (Inl x)
      then have "harmless pat x"
        using add_value_safe [OF success(2,7,5,6), of num tr] by (auto simp: harmless_def)
      then show thesis
        by (intro that(1) [of x]) (use success(1) Inl in \<open>auto simp: step\<close>)
    next
      case (Inr w)
      define s1 where "s1 = (if s < e then e else if s < length src then s + 1 else s)"
      have e: "e \<le> s1" "s1 \<le> length src" "s \<le> s1" using success(5,6) by (auto simp: s1_def)
      have p: "gsub_piece num tr src ms1 s s1 (Some e) (w @ seg src e s1)"
        using Inr success(5) e by (simp add: gsub_piece_def)
      have sg: "seg src e s1 = (if s < e then [] else if s < length src then [byte_at src s] else [])"
        using success(5) one by (auto simp: s1_def)
      show thesis
      proof (cases "anchor \<or> s1 = s")
        case True
        then have "gsub_loop num tr src pat anchor max_s ms s n = Inr (w @ seg src e s1, s1, n + 1)"
          unfolding step sg using success(1) Inr by (auto simp: s1_def split: if_splits)
        then show thesis by (intro final [OF \<open>n < max_s\<close> success(2) e(3,2) p]) simp
      next
        case False
        with e(3) have lt: "s < s1" by simp
        from False have "gsub_loop num tr src pat anchor max_s ms s n =
            bindE (gsub_loop num tr src pat anchor max_s ms1 s1 (n + 1)) (\<lambda>(t', s2, n2). Inr ((w @ seg src e s1) @ t', s2, n2))"
          unfolding step sg using success(1) Inr by (auto simp: s1_def split: if_splits)
        then show thesis by (intro again [OF \<open>n < max_s\<close> success(2) lt e(2) p]) simp
      qed
    qed
  qed
qed


lemma gsub_loop_safe:
  assumes src: "subject_ok src"
  shows "wf_ms ms \<Longrightarrow> s \<le> length src \<Longrightarrow>
    (\<exists>e. gsub_loop num tr src pat anchor max_s ms s n = Inl e \<and> harmless pat e) \<or>
    (\<exists>t s2 n2. gsub_loop num tr src pat anchor max_s ms s n = Inr (t, s2, n2) \<and> s \<le> s2 \<and> s2 \<le> length src \<and>
       n \<le> n2 \<and> n2 \<le> n + (s2 - s) + 1 \<and> (n \<le> max_s \<longrightarrow> n2 \<le> max_s))"
proof (induction "length src - s" arbitrary: s ms n rule: less_induct)
  case less
  from src less.prems show ?case
  proof (cases rule: gsub_loop_cases [of src ms s num tr pat anchor max_s n,
        case_names error limit final again, consumes 3])
    case (again ms1 s1 res t)
    let ?n1 = "if res = None then n else n + 1"
    have "length src - s1 < length src - s" using again(3,4) by simp
    from less.hyps [OF this again(2,4), of ?n1] show ?thesis
    proof (elim disjE exE)
      fix e assume "gsub_loop num tr src pat anchor max_s ms1 s1 ?n1 = Inl e \<and> harmless pat e"
      then show ?thesis using again(6) by simp
    next
      fix t2 s2 n2 assume a: "gsub_loop num tr src pat anchor max_s ms1 s1 ?n1 = Inr (t2, s2, n2) \<and> s1 \<le> s2 \<and>
        s2 \<le> length src \<and> ?n1 \<le> n2 \<and> n2 \<le> ?n1 + (s2 - s1) + 1 \<and> (?n1 \<le> max_s \<longrightarrow> n2 \<le> max_s)"
      then have "gsub_loop num tr src pat anchor max_s ms s n = Inr (t @ t2, s2, n2)" using again(6) by simp
      moreover have "n \<le> n2" using a by (auto split: if_splits)
      moreover have "n2 \<le> n + (s2 - s) + 1" using a again(3) by (auto split: if_splits)
      moreover have "n2 \<le> max_s" using a again(1) by (auto split: if_splits)
      ultimately show ?thesis using a again(3) by auto
    qed
  qed (use less.prems in auto)
qed

lemma gmatch_aux_cases:
  assumes src: "subject_ok s"
  shows "wf_ms ms \<Longrightarrow> (case gmatch_aux s pat ms i of
      Inl e \<Rightarrow> harmless pat e
    | Inr None \<Rightarrow> \<forall>b. i \<le> b \<and> b \<le> length s \<longrightarrow> successes s pat [] b = []
    | Inr (Some (i', vs)) \<Rightarrow> i < i' \<and> i' \<le> length s + 1)"
proof (induction "Suc (length s) - i" arbitrary: i ms rule: less_induct)
  case less
  show ?case
  proof (cases "i \<le> length s")
    case False
    then show ?thesis by (subst gmatch_aux.simps) auto
  next
    case True
    note step = gmatch_aux.simps [of s pat ms i, unfolded if_P [OF True]]
    from src less.prems True show ?thesis
    proof (cases rule: do_match_cases [of s ms i pat MAXCCALLS, case_names error fail success, consumes 3])
      case (error e)
      then show ?thesis unfolding step by (auto simp: harmless_def)
    next
      case (success ms1 e)
      then show ?thesis
        using push_captures_safe(1) [OF success(2,7,5,6)] unfolding step
        by (cases "push_captures s ms1 (Some (i, e))") (auto simp: harmless_def Let_def)
    next
      case (fail ms1)
      then have f: "gmatch_aux s pat ms i = gmatch_aux s pat ms1 (i + 1)" unfolding step by simp
      have i: "i \<le> b \<longleftrightarrow> b = i \<or> i + 1 \<le> b" for b by auto
      have "Suc (length s) - (i + 1) < Suc (length s) - i" using True by simp
      from less.hyps [OF this fail(2)] fail(3) show ?thesis
        unfolding f by (auto simp: i split: sum.splits option.splits)
    qed
  qed
qed

lemma size_of_unat: "length s < 2 ^ 63 \<Longrightarrow> unat (size_of s) = length s"
  by (simp add: size_of_def unat_of_nat take_bit_nat_eq_self)

lemma pattern_search_harmless:
  assumes src: "subject_ok src" and i: "i \<le> length src" and e: "pattern_search fnd src pat i = Inl e"
  shows "harmless pat e"
proof -
  define anchor where "anchor = (byte_at pat 0 = CARET)"
  define pat' where "pat' = (if anchor then tl pat else pat)"
  have ps: "pattern_search fnd src pat i = bindE (find_loop src pat' anchor new_MatchState i) (\<lambda>(ms, res).
        case res of None \<Rightarrow> Inr [LNil]
        | Some (b, e) \<Rightarrow>
            if fnd then bindE (push_captures src ms None) (\<lambda>cs. Inr (LInt (int b + 1) # LInt (int e) # cs))
            else push_captures src ms (Some (b, e)))"
    by (simp add: pattern_search_def anchor_def pat'_def)
  have len: "harmless pat' x \<Longrightarrow> harmless pat x" for x
    by (auto simp: harmless_def pat'_def split: if_splits)
  note spec = find_loop_spec [OF src wf_new i, of pat' anchor]
  show ?thesis
  proof (cases "find_loop src pat' anchor new_MatchState i")
    case (Inl x)
    with spec e ps len show ?thesis by simp
  next
    case (Inr y)
    then obtain ms r where y: "find_loop src pat' anchor new_MatchState i = Inr (ms, r)" by (cases y) auto
    with e ps obtain b k where r: "r = Some (b, k)" by (cases r) auto
    from spec y r have ok: "wf_ms ms" "caps_ok k (caps ms)" "b \<le> k" "k \<le> length src" by simp_all
    from e ps y r have "push_captures src ms None = Inl e \<or> push_captures src ms (Some (b, k)) = Inl e"
      by (auto simp: bindE_Inl_iff split: if_splits)
    then show ?thesis using push_captures_safe [OF ok] by (auto simp: harmless_def)
  qed
qed

lemma str_find_aux_harmless:
  assumes src: "subject_ok src" and e: "str_find_aux fnd src pat i plain = Inl e"
  shows "harmless pat e"
proof -
  define x where "x = posrelat (case i of None \<Rightarrow> 1 | Some x \<Rightarrow> x) (size_of src)"
  define init where "init = (if x < 1 then 1 else x)"
  have "\<not> size_of src + 1 < init" and p: "pattern_search fnd src pat (unat init - 1) = Inl e"
    using e by (auto simp: str_find_aux_def Let_def x_def init_def plain_search_def split: if_splits option.splits)
  then have "unat init \<le> unat (size_of src + 1)" by (simp add: word_less_nat_alt)
  then have "unat init - 1 \<le> length src" using unat_plus_one_le [of "size_of src"] size_of_unat [OF src] by simp
  from pattern_search_harmless [OF src this p] show ?thesis .
qed

lemma str_gsub_cases:
  assumes src: "subject_ok src"
  shows "(\<exists>e. str_gsub num src pat tr lim = Inl e \<and> harmless pat e) \<or>
    (\<exists>t n. str_gsub num src pat tr lim = Inr (t, n))"
proof -
  define anchor where "anchor = (byte_at pat 0 = CARET)"
  define pat' where "pat' = (if anchor then tl pat else pat)"
  define m where "m = unat (case lim of None \<Rightarrow> size_of src + 1 | Some m \<Rightarrow> m)"
  have g: "str_gsub num src pat tr lim =
      bindE (gsub_loop num tr src pat' anchor m new_MatchState 0 0) (\<lambda>(t, s, n). Inr (t @ drop s src, n))"
    by (simp add: str_gsub_def anchor_def pat'_def m_def Let_def)
  have len: "harmless pat' x \<Longrightarrow> harmless pat x" for x
    by (auto simp: harmless_def pat'_def split: if_splits)
  from gsub_loop_safe [OF src wf_new, of 0 num tr pat' anchor m 0] len show ?thesis
    unfolding g by fastforce
qed


section \<open>Plain search\<close>

definition occurs_at :: "byte list \<Rightarrow> byte list \<Rightarrow> nat \<Rightarrow> bool" where
  "occurs_at src pat j \<longleftrightarrow> take (length pat) (drop j src) = pat"

lemma occurs_at_bound: "occurs_at src pat j \<Longrightarrow> pat = [] \<or> j + length pat \<le> length src"
proof -
  assume "occurs_at src pat j"
  then have "length pat = min (length pat) (length src - j)"
    unfolding occurs_at_def by (metis length_take length_drop min.commute)
  then have "length pat \<le> length src - j" by simp
  then show ?thesis by (cases pat) auto
qed

lemma occurs_at_first: "occurs_at src (c # p) j \<Longrightarrow> j < length src \<and> src ! j = c"
  using occurs_at_bound [of src "c # p" j] by (auto simp: occurs_at_def Cons_nth_drop_Suc [symmetric])

definition least_in :: "(nat \<Rightarrow> bool) \<Rightarrow> nat \<Rightarrow> nat \<Rightarrow> nat option \<Rightarrow> bool" where
  "least_in P i n r \<longleftrightarrow> (case r of None \<Rightarrow> \<forall>j. i \<le> j \<and> j < n \<longrightarrow> \<not> P j
     | Some j \<Rightarrow> i \<le> j \<and> j < n \<and> P j \<and> (\<forall>k. i \<le> k \<and> k < j \<longrightarrow> \<not> P k))"

lemma least_in_unique: "least_in P i n r \<Longrightarrow> least_in P i n r' \<Longrightarrow> r = r'"
proof -
  assume a: "least_in P i n r" "least_in P i n r'"
  show "r = r'"
  proof (cases "r = None \<or> r' = None")
    case True
    with a show ?thesis by (auto simp: least_in_def split: option.splits)
  next
    case False
    then obtain x y where xy: "r = Some x" "r' = Some y" by (cases r; cases r') auto
    with a have "\<not> x < y" "\<not> y < x" by (auto simp: least_in_def)
    with xy show ?thesis by simp
  qed
qed

lemma least_in_extend:
  assumes "least_in P i n r" and "\<And>j. n \<le> j \<Longrightarrow> \<not> P j" and "n \<le> m"
  shows "least_in P i m r"
proof (cases r)
  case None
  have "\<not> P j" if "i \<le> j" for j
    using assms(1,2) that None by (cases "j < n") (auto simp: least_in_def)
  then show ?thesis using None by (simp add: least_in_def)
next
  case (Some j)
  then show ?thesis using assms(1,3) by (simp add: least_in_def)
qed

lemma lmem_loop_least:
  assumes "pat \<noteq> []"
  shows "s1 + l1 + (length pat - 1) \<le> length src \<Longrightarrow>
    least_in (occurs_at src pat) s1 (s1 + l1) (lmem_loop src pat s1 l1)"
proof (induction l1 arbitrary: s1 rule: less_induct)
  case (less l1)
  obtain c p where pat: "pat = c # p" using assms by (cases pat) auto
  show ?case
  proof (cases "0 < l1")
    case False
    then show ?thesis by (subst lmem_loop.simps) (auto simp: least_in_def)
  next
    case True
    note step = lmem_loop.simps [of src pat s1 l1, unfolded if_P [OF True]]
    show ?thesis
    proof (cases "lua_memchr src s1 (hd pat) l1")
      case None
      have "\<not> occurs_at src pat j" if "s1 \<le> j" "j < s1 + l1" for j
        using memchr_None [OF None that] occurs_at_first [of src c p j] by (auto simp: pat)
      then show ?thesis unfolding step None by (simp add: least_in_def)
    next
      case (Some j)
      from lua_memchr_Some [OF Some]
      have j: "s1 \<le> j" "j < s1 + l1" "src ! j = c" and before: "\<forall>i. s1 \<le> i \<and> i < j \<longrightarrow> src ! i \<noteq> c"
        by (simp_all add: pat)
      have none: "\<not> occurs_at src pat i" if "s1 \<le> i" "i < j" for i
        using before that occurs_at_first [of src c p i] by (auto simp: pat)
      have "j < length src" using j less.prems pat by simp
      then have occ: "occurs_at src pat j \<longleftrightarrow> take (length pat - 1) (drop (j + 1) src) = tl pat"
        using j(3) by (simp add: occurs_at_def pat Cons_nth_drop_Suc [symmetric])
      show ?thesis
      proof (cases "occurs_at src pat j")
        case True
        with Some occ none j show ?thesis unfolding step by (simp add: least_in_def)
      next
        case False
        define l2 where "l2 = l1 - (j + 1 - s1)"
        have l2: "l2 < l1" "j + 1 + l2 = s1 + l1" using j True by (auto simp: l2_def)
        have r: "lmem_loop src pat s1 l1 = lmem_loop src pat (j + 1) l2"
          unfolding step l2_def using Some occ False by simp
        have ih: "least_in (occurs_at src pat) (j + 1) (s1 + l1) (lmem_loop src pat (j + 1) l2)"
          using less.IH [OF l2(1), of "j + 1"] l2(2) less.prems by simp
        have "\<not> occurs_at src pat i" if "s1 \<le> i" "i < j + 1" for i
          using none False that by (cases "i = j") auto
        with ih j(1) show ?thesis unfolding r by (fastforce simp: least_in_def not_le split: option.splits)
      qed
    qed
  qed
qed

lemma lmemfind_least:
  assumes "s1 \<le> length src"
  shows "least_in (occurs_at src pat) s1 (length src + 1) (lmemfind src s1 (length src - s1) pat)"
proof (cases "pat = []")
  case True
  then show ?thesis using assms by (auto simp: lmemfind_def least_in_def occurs_at_def)
next
  case False
  have far: "\<not> occurs_at src pat j" if "length src < j + length pat" for j
    using occurs_at_bound [of src pat j] False that by auto
  show ?thesis
  proof (cases "length src - s1 < length pat")
    case True
    then show ?thesis using False assms far by (auto simp: lmemfind_def least_in_def)
  next
    case short: False
    define l1 where "l1 = length src - s1 - (length pat - 1)"
    have pos: "0 < length pat" using False by simp
    then have b: "s1 + l1 + (length pat - 1) = length src" using short assms by (simp add: l1_def)
    have "least_in (occurs_at src pat) s1 (s1 + l1) (lmem_loop src pat s1 l1)"
      by (rule lmem_loop_least [OF False b [THEN eq_imp_le]])
    then have "least_in (occurs_at src pat) s1 (length src + 1) (lmem_loop src pat s1 l1)"
    proof (rule least_in_extend)
      show "\<not> occurs_at src pat j" if "s1 + l1 \<le> j" for j
        by (rule far) (use that b pos in linarith)
      show "s1 + l1 \<le> length src + 1" using b by simp
    qed
    then show ?thesis using False short by (simp add: lmemfind_def l1_def)
  qed
qed

definition plain_pattern :: "byte list \<Rightarrow> bool" where
  "plain_pattern pat \<longleftrightarrow> (\<forall>c \<in> set pat. c \<notin> set SPECIALS \<and> c \<noteq> RPAREN)"

lemma nospecials_loop_set: "nospecials_loop p i = (\<forall>c \<in> set (drop i p). c \<notin> set SPECIALS)"
proof (induction p i rule: nospecials_loop.induct)
  case (1 p i)
  let ?w = "takeWhile (\<lambda>c. c \<noteq> 0) (drop i p)"
  have split: "drop i p = ?w @ dropWhile (\<lambda>c. c \<noteq> 0) (drop i p)" by simp
  have rest: "drop (i + length ?w) p = dropWhile (\<lambda>c. c \<noteq> 0) (drop i p)"
    by (simp add: dropWhile_eq_drop add.commute)
  have zero: "(0 :: byte) \<notin> set SPECIALS" by (simp add: SPECIALS_def)
  have tail: "(\<forall>c \<in> set (dropWhile (\<lambda>c. c \<noteq> 0) (drop i p)). c \<notin> set SPECIALS) \<longleftrightarrow>
      (\<forall>c \<in> set (drop (i + length ?w + 1) p). c \<notin> set SPECIALS)"
  proof (cases "dropWhile (\<lambda>c. c \<noteq> 0) (drop i p)")
    case Nil
    then have "drop (i + length ?w) p = []" unfolding rest .
    then show ?thesis unfolding Nil by simp
  next
    case (Cons c t)
    then have "c = 0" using hd_dropWhile [of "\<lambda>c. c \<noteq> 0" "drop i p"] by simp
    moreover have "drop (i + length ?w + 1) p = tl (drop (i + length ?w) p)" by (simp add: drop_Suc tl_drop)
    then have "t = drop (i + length ?w + 1) p" unfolding rest using Cons by simp
    ultimately show ?thesis using Cons zero by simp
  qed
  show ?case
  proof (cases "list_ex (\<lambda>c. c \<in> set SPECIALS) ?w")
    case True
    then show ?thesis by (subst nospecials_loop.simps, subst split) (auto simp: list_ex_iff simp del: takeWhile_dropWhile_id)
  next
    case False
    then have w: "\<forall>c \<in> set ?w. c \<notin> set SPECIALS" by (simp add: list_ex_iff)
    have "nospecials_loop p i = (\<forall>c \<in> set (drop (i + length ?w + 1) p). c \<notin> set SPECIALS)"
      using 1 [OF refl False] False by (subst nospecials_loop.simps) (auto simp: Let_def)
    also have "\<dots> = (\<forall>c \<in> set (?w @ dropWhile (\<lambda>c. c \<noteq> 0) (drop i p)). c \<notin> set SPECIALS)"
      using tail w by (simp only: set_append) blast
    finally show ?thesis by simp
  qed
qed

lemma nospecials_plain: "nospecials pat \<Longrightarrow> RPAREN \<notin> set pat \<Longrightarrow> plain_pattern pat"
  by (auto simp: nospecials_def nospecials_loop_set plain_pattern_def)

lemma plain_match_item:
  assumes "plain_pattern pat" and "p < length pat" and "s \<le> length src"
  shows "match_item rec src pat ms s p =
    Inr (if s < length src \<and> src ! s = pat ! p then Jump ms (s + 1) (p + 1) else Leave ms None)"
proof -
  define c where "c = pat ! p"
  define x where "x = byte_at pat (p + 1)"
  have c: "c \<notin> set SPECIALS" "c \<noteq> RPAREN" using assms by (auto simp: c_def plain_pattern_def)
  have x: "x \<notin> set SPECIALS"
    using assms(1) by (auto simp: x_def byte_at_def plain_pattern_def SPECIALS_def)
  have rc: "rd pat p = Inr c" and rx: "rd pat (p + 1) = Inr x"
    using assms(2) by (simp_all add: rd_le c_def x_def byte_at_def)
  have sm: "singlematch src s pat p (p + 1) = Inr (s < length src \<and> src ! s = c)"
    using c by (auto simp: singlematch_def rc rd_less SPECIALS_def)
  have ce: "classend pat p = Inr (p + 1)" using c by (simp add: classend_def rc SPECIALS_def)
  have "match_default rec src pat ms s p =
      Inr (if s < length src \<and> src ! s = c then Jump ms (s + 1) (p + 1) else Leave ms None)"
    unfolding match_default_def ce bindE_simps sm rx using x by (simp add: SPECIALS_def)
  then show ?thesis
    unfolding match_item_def rc bindE_simps using c by (simp add: SPECIALS_def c_def)
qed

lemma plain_match_loop:
  assumes "plain_pattern pat"
  shows "p \<le> length pat \<Longrightarrow> s \<le> length src \<Longrightarrow> match_loop rec src pat ms s p =
    Inr (ms, if occurs_at src (drop p pat) s then Some (s + (length pat - p)) else None)"
proof (induction "length pat - p" arbitrary: p s rule: less_induct)
  case less
  show ?case
  proof (cases "p = length pat")
    case True
    then show ?thesis by (subst match_loop.simps) (simp add: occurs_at_def)
  next
    case False
    then have p: "p < length pat" using less.prems by simp
    have dp: "drop p pat = pat ! p # drop (p + 1) pat" using p by (simp add: Cons_nth_drop_Suc)
    note item = plain_match_item [OF assms p less.prems(2), of rec ms]
    show ?thesis
    proof (cases "s < length src \<and> src ! s = pat ! p")
      case True
      have "match_loop rec src pat ms s p = match_loop rec src pat ms (s + 1) (p + 1)"
        using False True item by (subst match_loop.simps) simp
      moreover have "occurs_at src (drop p pat) s = occurs_at src (drop (p + 1) pat) (s + 1)"
        unfolding dp using True by (simp add: occurs_at_def Cons_nth_drop_Suc [symmetric])
      moreover have "length pat - (p + 1) < length pat - p" using p by simp
      moreover have "s + 1 + (length pat - (p + 1)) = s + (length pat - p)" using p by simp
      ultimately show ?thesis using less.hyps [of "p + 1" "s + 1"] p True by auto
    next
      case no: False
      then have "\<not> occurs_at src (drop p pat) s" unfolding dp using occurs_at_first by blast
      moreover have "match_loop rec src pat ms s p = Inr (ms, None)"
        using False item unfolding if_not_P [OF no] by (subst match_loop.simps) simp
      ultimately show ?thesis by simp
    qed
  qed
qed

lemma plain_find_loop:
  assumes "plain_pattern pat"
  shows "i \<le> length src \<Longrightarrow> \<exists>ms1 r. find_loop src pat False ms i = Inr (ms1, map_option (\<lambda>b. (b, b + length pat)) r) \<and>
    level ms1 = 0 \<and> least_in (occurs_at src pat) i (length src + 1) r"
proof (induction "length src - i" arbitrary: i ms rule: less_induct)
  case less
  have m: "do_match src pat MAXCCALLS ms' i 0 =
      Inr (ms', if occurs_at src pat i then Some (i + length pat) else None)" for ms'
    using plain_match_loop [OF assms, of 0 i src "do_match src pat 199" ms'] less.prems
    by (simp add: MAXCCALLS_def eval_nat_numeral)
  show ?case
  proof (cases "occurs_at src pat i")
    case True
    then have "find_loop src pat False ms i = Inr (ms\<lparr>level := 0\<rparr>, Some (i, i + length pat))"
      by (subst find_loop.simps) (simp add: m)
    moreover have "least_in (occurs_at src pat) i (length src + 1) (Some i)"
      using True less.prems by (auto simp: least_in_def)
    ultimately show ?thesis by (intro exI [of _ "ms\<lparr>level := 0\<rparr>"] exI [of _ "Some i"]) simp
  next
    case False
    show ?thesis
    proof (cases "i < length src")
      case True
      then have f: "find_loop src pat False ms i = find_loop src pat False (ms\<lparr>level := 0\<rparr>) (i + 1)"
        using False by (subst find_loop.simps) (simp add: m)
      have "length src - (i + 1) < length src - i" "i + 1 \<le> length src" using True by auto
      from less.hyps [OF this, of "ms\<lparr>level := 0\<rparr>"] obtain ms1 r
        where r: "find_loop src pat False ms i = Inr (ms1, map_option (\<lambda>b. (b, b + length pat)) r)" "level ms1 = 0"
          and l: "least_in (occurs_at src pat) (i + 1) (length src + 1) r" unfolding f by blast
      have "k = i \<or> i + 1 \<le> k" if "i \<le> k" for k using that by auto
      then have "least_in (occurs_at src pat) i (length src + 1) r"
        using l False by (auto simp: least_in_def split: option.splits)
      with r show ?thesis by blast
    next
      case end': False
      then have "find_loop src pat False ms i = Inr (ms\<lparr>level := 0\<rparr>, None)"
        using False by (subst find_loop.simps) (simp add: m)
      moreover have "least_in (occurs_at src pat) i (length src + 1) None"
        using False end' less.prems by (auto simp: least_in_def le_less_Suc_eq)
      ultimately show ?thesis by (intro exI [of _ "ms\<lparr>level := 0\<rparr>"] exI [of _ None]) simp
    qed
  qed
qed


section \<open>Substitution that keeps the text\<close>

lemma add_value_keep:
  assumes "s \<le> e" and "e \<le> length src"
  shows "add_value num (ReplString [ESC, 48]) src ms s e = Inr (seg src s e)"
  using assms by (simp add: add_value_def push_part_def isdigit_def)

lemma gsub_piece_keep:
  assumes "gsub_piece num (ReplString [ESC, 48]) src ms1 s s1 res t" and "s1 \<le> length src"
  shows "t = seg src s s1"
proof (cases res)
  case None
  with assms show ?thesis by (simp add: gsub_piece_def)
next
  case (Some e)
  with assms(1) obtain w where e: "s \<le> e" "e \<le> s1" and "add_value num (ReplString [ESC, 48]) src ms1 s e = Inr w"
    and t: "t = w @ seg src e s1" by (auto simp: gsub_piece_def)
  then have "w = seg src s e" using add_value_keep [of s e src num ms1] assms(2) by simp
  then show ?thesis using seg_append_seg [OF e] t by simp
qed

lemma gsub_loop_keep:
  assumes src: "subject_ok src"
  shows "wf_ms ms \<Longrightarrow> s \<le> length src \<Longrightarrow>
    gsub_loop num (ReplString [ESC, 48]) src pat anchor max_s ms s n = Inr (t, s2, n2) \<Longrightarrow>
    s \<le> s2 \<and> s2 \<le> length src \<and> t = seg src s s2"
proof (induction "length src - s" arbitrary: s ms n t rule: less_induct)
  case less
  from src less.prems(1,2) show ?case
  proof (cases rule: gsub_loop_cases [of src ms s num "ReplString [ESC, 48]" pat anchor max_s n,
        case_names error limit final again, consumes 3])
    case (final ms1 s1 res t1)
    then have "t = t1" "s2 = s1" using less.prems(3) by simp_all
    with gsub_piece_keep [OF final(5,4)] final(3,4) show ?thesis by simp
  next
    case (again ms1 s1 res t1)
    then obtain t2 where r: "gsub_loop num (ReplString [ESC, 48]) src pat anchor max_s ms1 s1 (if res = None then n else n + 1) = Inr (t2, s2, n2)"
      and t: "t = t1 @ t2"
    proof -
      have "bindE (gsub_loop num (ReplString [ESC, 48]) src pat anchor max_s ms1 s1 (if res = None then n else n + 1))
          (\<lambda>(t', s2, n2). Inr (t1 @ t', s2, n2)) = Inr (t, s2, n2)" using again(6) less.prems(3) by simp
      then obtain x where "gsub_loop num (ReplString [ESC, 48]) src pat anchor max_s ms1 s1 (if res = None then n else n + 1) = Inr x"
        "(case x of (t', s2, n2) \<Rightarrow> Inr (t1 @ t', s2, n2)) = (Inr (t, s2, n2) :: pattern_error + _)"
        unfolding bindE_Inr_iff by blast
      then show thesis by (intro that [of "fst x"]) (auto split: prod.splits)
    qed
    have "length src - s1 < length src - s" using again(3,4) by simp
    from less.hyps [OF this again(2,4) r] gsub_piece_keep [OF again(5,4)] seg_append_seg [of s s1 s2 src] again(3) t
    show ?thesis by simp
  qed (use less.prems in simp_all)
qed

section \<open>Sizes\<close>

lemma length_rep_copies: "0 < n \<Longrightarrow> length (rep_copies n s sep) = n * length s + (n - 1) * length sep"
proof (induction n s sep rule: rep_copies.induct)
  case (1 n s sep)
  show ?case
  proof (cases "1 < n")
    case True
    then have "n = Suc (Suc (n - 2))" by arith
    then obtain m where "n = Suc (Suc m)" by blast
    with 1(1) [OF True] show ?thesis by (subst rep_copies.simps) (simp add: algebra_simps)
  next
    case False
    with 1(2) have "n = 1" by simp
    then show ?thesis by (subst rep_copies.simps) simp
  qed
qed

lemma unat_MAXSIZE: "unat MAXSIZE = 2 ^ 63 - 1"
  by (simp add: MAXSIZE_def unat_drop_bit_eq drop_bit_eq_div unsigned_minus_1_eq_mask mask_eq_exp_minus_1)

lemma unat_mult_small: "unat a * unat b < 2 ^ LENGTH('a) \<Longrightarrow> unat (a * b :: 'a::len word) = unat a * unat b"
  by (simp add: unat_word_ariths)

lemma unat_add_small: "unat a + unat b < 2 ^ LENGTH('a) \<Longrightarrow> unat (a + b :: 'a::len word) = unat a + unat b"
  by (simp add: unat_word_ariths)

lemma str_rep_size:
  assumes s: "length s < 2 ^ 63" and sep: "length sep < 2 ^ 63" and n: "0 < sint n"
  shows "str_rep s n sep =
    (if (2 ^ 63 - 1) div nat (sint n) \<le> length s + length sep then Inl ResultTooLarge
     else Inr (rep_copies (nat (sint n)) s sep))"
proof -
  define k where "k = nat (sint n)"
  have k: "0 < k" using n by (simp add: k_def)
  have "sint n < 2 ^ 31" using sint_less [of n] by simp
  then have "uint (scast n :: uint64) = sint n"
    using n unfolding scast_eq uint_word_of_int by simp
  then have m: "unat (scast n :: uint64) = k"
    by (simp only: k_def unat_eq_nat_uint)
  have sum: "unat (size_of s + size_of sep) = length s + length sep"
    using s sep by (subst unat_add_small) (simp_all add: size_of_unat)
  have noov: "\<not> size_of s + size_of sep < size_of s"
    using sum s by (simp add: word_less_nat_alt size_of_unat)
  have limit: "MAXSIZE div scast n \<le> size_of s + size_of sep \<longleftrightarrow> (2 ^ 63 - 1) div k \<le> length s + length sep"
    by (simp only: word_le_nat_alt unat_div_distrib unat_MAXSIZE m sum)
  show ?thesis
  proof (cases "(2 ^ 63 - 1) div k \<le> length s + length sep")
    case True
    then show ?thesis using n noov limit by (simp add: str_rep_def Let_def k_def)
  next
    case False
    define total where "total = k * length s + (k - 1) * length sep"
    have "(length s + length sep) * k < 2 ^ 63"
    proof -
      have "length s + length sep + 1 \<le> (2 ^ 63 - 1) div k" using False by simp
      then have "(length s + length sep + 1) * k \<le> 2 ^ 63 - 1" using k by (simp add: less_eq_div_iff_mult_less_eq)
      then show ?thesis by simp
    qed
    then have b: "k * length s + k * length sep < 2 ^ 63" by (simp add: algebra_simps)
    have le: "(k - 1) * length sep \<le> k * length sep" by (rule mult_le_mono1) simp
    have t: "total < 2 ^ 63" "k * length s < 2 ^ 63" "(k - 1) * length sep < 2 ^ 63"
      unfolding total_def using b le by linarith+
    have m1: "unat (scast n - 1 :: uint64) = k - 1" using k m by (metis unat_minus_one unat_0 less_numeral_extra(3))
    have "unat (scast n * size_of s + (scast n - 1) * size_of sep) = total"
      unfolding total_def using t s sep
      by (subst unat_add_small; (subst unat_mult_small)?; (subst unat_mult_small)?) (simp_all add: m m1 size_of_unat total_def)
    then show ?thesis
      using n noov limit False length_rep_copies [OF k, of s sep]
      by (simp add: str_rep_def Let_def k_def total_def)
  qed
qed


text \<open>A position of a script: from the front when it is not negative, else from the end.\<close>

definition position :: "int \<Rightarrow> nat \<Rightarrow> int" where
  "position i n = (if 0 \<le> i then i else if int n + i + 1 < 0 then 0 else int n + i + 1)"

lemma posrelat_position:
  assumes s: "length s < 2 ^ 63"
  shows "int (unat (posrelat i (size_of s))) = position (sint i) (length s)"
proof (cases "0 \<le> sint i")
  case True
  have "sint i < 2 ^ 63" using sint_less [of i] by simp
  then have "uint i = sint i" using True by (simp add: uint_sint take_bit_int_eq_self)
  with True show ?thesis by (simp add: posrelat_def position_def)
next
  case False
  define k where "k = nat (- sint i)"
  have k: "int k = - sint i" "k \<le> 2 ^ 63" using False sint_ge [of i] by (simp_all add: k_def)
  have "- i = word_of_int (int k)" unfolding k by (simp add: wi_hom_neg [symmetric])
  then have u: "unat (- i) = k" using k(2) by (simp add: unat_of_nat take_bit_nat_eq_self)
  show ?thesis
  proof (cases "length s < k")
    case True
    then have "size_of s < 0 - i" using u size_of_unat [OF s] by (simp add: word_less_nat_alt)
    then show ?thesis using False True k by (simp add: posrelat_def position_def)
  next
    case le: False
    then have no: "\<not> size_of s < 0 - i" and sub: "- i \<le> size_of s"
      using u size_of_unat [OF s] by (simp_all add: word_less_nat_alt word_le_nat_alt)
    have "unat (size_of s - - i) = length s - k"
      using unat_sub [OF sub] u size_of_unat [OF s] by simp
    then have "unat (size_of s - (- i) + 1) = length s - k + 1"
      using s by (subst unat_add_small) simp_all
    then show ?thesis using False no k le by (simp add: posrelat_def position_def)
  qed
qed

lemma str_sub_position:
  assumes s: "length s < 2 ^ 63"
  shows "str_sub s i j =
    (let a = max 1 (position (sint i) (length s));
         b = min (int (length s)) (position (sint (case j of None \<Rightarrow> -1 | Some x \<Rightarrow> x)) (length s))
     in if a \<le> b then seg s (nat a - 1) (nat b) else [])"
proof -
  define j' where "j' = (case j of None \<Rightarrow> -1 | Some x \<Rightarrow> x)"
  define p where "p = posrelat i (size_of s)"
  define q where "q = posrelat j' (size_of s)"
  define a where "a = (if p < 1 then 1 else p)"
  define b where "b = (if size_of s < q then size_of s else q)"
  note u = posrelat_position [OF s]
  have A: "int (unat a) = max 1 (position (sint i) (length s))"
  proof (cases "p < 1")
    case True
    then have "unat p = 0" by (simp add: word_less_nat_alt)
    then show ?thesis using u [of i] True by (simp add: a_def p_def)
  next
    case False
    then have "1 \<le> unat p" by (simp add: word_less_nat_alt)
    then show ?thesis using u [of i] unfolding a_def p_def [symmetric] if_not_P [OF False] by linarith
  qed
  have B: "int (unat b) = min (int (length s)) (position (sint j') (length s))"
  proof (cases "size_of s < q")
    case True
    then have "length s < unat q" using size_of_unat [OF s] by (simp add: word_less_nat_alt)
    then show ?thesis
      using u [of j'] size_of_unat [OF s] unfolding b_def q_def [symmetric] if_P [OF True] by linarith
  next
    case False
    then have "unat q \<le> length s" using size_of_unat [OF s] by (simp add: word_less_nat_alt)
    then show ?thesis using u [of j'] unfolding b_def q_def [symmetric] if_not_P [OF False] by linarith
  qed
  have sub: "str_sub s i j = (if a \<le> b then take (unat (b - a + 1)) (drop (unat (a - 1)) s) else [])"
    by (simp add: str_sub_def Let_def p_def q_def a_def b_def j'_def)
  have one: "1 \<le> unat a" using A by linarith
  show ?thesis
  proof (cases "a \<le> b")
    case True
    then have "unat (b - a) = unat b - unat a" by (rule unat_sub)
    moreover have "unat b < 2 ^ 63" using B s by linarith
    ultimately have n: "unat (b - a + 1) = unat b - unat a + 1" by (subst unat_add_small) simp_all
    have "(1 :: uint64) \<le> a" using one by (simp add: word_le_nat_alt)
    from unat_sub [OF this] have m: "unat (a - 1) = unat a - 1" by simp
    have nats: "nat (int (unat a)) = unat a" "nat (int (unat b)) = unat b" by simp_all
    have le: "unat a \<le> unat b" using True by (simp add: word_le_nat_alt)
    then have "take (unat (b - a + 1)) (drop (unat (a - 1)) s) = seg s (unat a - 1) (unat b)"
      using one by (simp add: n m seg_def Suc_diff_le)
    then show ?thesis
      unfolding sub Let_def j'_def [symmetric] A [symmetric] B [symmetric] nats of_nat_le_iff using True le by simp
  next
    case False
    then have "\<not> unat a \<le> unat b" by (simp add: word_le_nat_alt)
    then show ?thesis unfolding sub Let_def j'_def [symmetric] A [symmetric] B [symmetric] of_nat_le_iff using False by simp
  qed
qed

section \<open>Properties\<close>

text \<open>
  C9: the pattern matcher is the reference semantics. The search of find, match and gmatch returns
  the leftmost position at which the pattern has a match, and there the first of its matches in the
  order of preference (greedy, optional and lazy items, captures and back references included); when
  it returns nothing, the pattern matches nowhere from the given position on.
\<close>

theorem matcher_leftmost_first:
  assumes "length src < 2 ^ 63" and "i \<le> length src" and "find_loop src pat False new_MatchState i = Inr (ms, r)"
  shows "case r of
      None \<Rightarrow> \<forall>b. i \<le> b \<and> b \<le> length src \<longrightarrow> successes src pat [] b = []
    | Some (b, e) \<Rightarrow> i \<le> b \<and> b \<le> e \<and> e \<le> length src \<and> (\<forall>b'. i \<le> b' \<and> b' < b \<longrightarrow> successes src pat [] b' = []) \<and>
        (\<exists>later. successes src pat [] b = (caps ms, e) # later)"
proof -
  have "\<exists>later. xs = x # later" if "xs \<noteq> []" "hd xs = x" for xs :: "(captures \<times> nat) list" and x
    using that by (cases xs) auto
  then show ?thesis
    using find_loop_spec [OF assms(1) wf_new assms(2), of pat False] assms(3) by (auto split: option.splits)
qed

theorem matcher_leftmost_first_witness:
  "\<exists>ms. find_loop [120, 97, 97, 98] [LPAREN, 97, STAR, RPAREN, 98] False new_MatchState 0 = Inr (ms, Some (1, 4)) \<and>
     (\<exists>later. successes [120, 97, 97, 98] [LPAREN, 97, STAR, RPAREN, 98] [] 1 = (caps ms, 4) # later) \<and> caps ms = [(1, 2)]"
proof -
  define ms where "ms = \<lparr>level = 1, capture = (1, 2) # replicate 31 (0, 0)\<rparr>"
  have f: "find_loop [120, 97, 97, 98] [LPAREN, 97, STAR, RPAREN, 98] False new_MatchState 0 = Inr (ms, Some (1, 4))"
    unfolding ms_def by code_simp
  from matcher_leftmost_first [OF _ _ f]
  have "\<exists>later. successes [120, 97, 97, 98] [LPAREN, 97, STAR, RPAREN, 98] [] 1 = (caps ms, 4) # later" by simp
  with f show ?thesis by (auto simp: ms_def caps_def)
qed

text \<open>
  Memory safety of the string library. Whatever the pattern, well-formed or not, find, match,
  gmatch and gsub read neither the subject nor the pattern outside their bytes and terminator, and no
  capture outside the array of captures.
\<close>

theorem string_library_safe:
  assumes "length src < 2 ^ 63"
  shows "str_find src pat i plain \<noteq> Inl ReadOutside \<and> str_match src pat i \<noteq> Inl ReadOutside \<and>
    gmatch_aux src pat new_MatchState k \<noteq> Inl ReadOutside \<and> str_gsub num src pat tr lim \<noteq> Inl ReadOutside"
proof -
  have "str_find src pat i plain \<noteq> Inl ReadOutside" "str_match src pat i \<noteq> Inl ReadOutside"
    using str_find_aux_harmless [OF assms, of _ pat i _ ReadOutside]
    by (auto simp: str_find_def str_match_def harmless_def)
  moreover have "gmatch_aux src pat new_MatchState k \<noteq> Inl ReadOutside"
    using gmatch_aux_cases [OF assms wf_new, of pat k] by (auto simp: harmless_def split: sum.splits)
  moreover have "str_gsub num src pat tr lim \<noteq> Inl ReadOutside"
    using str_gsub_cases [OF assms, of num pat tr lim] by (auto simp: harmless_def)
  ultimately show ?thesis by simp
qed

theorem string_library_safe_witness:
  "str_find [97] [LBRACK, ESC] None False \<noteq> Inl ReadOutside \<and> str_match [97] [ESC, CH_f] None \<noteq> Inl ReadOutside"
  using string_library_safe [of "[97]" "[LBRACK, ESC]" None False 0] string_library_safe [of "[97]" "[ESC, CH_f]" None False 0]
  by simp

text \<open>
  The bound on the recursion. The limit of 200 nested calls of match is never met by a pattern
  shorter than 200 bytes, whatever the subject.
\<close>

theorem short_patterns_fit:
  assumes "length src < 2 ^ 63" and "length pat < MAXCCALLS"
  shows "str_find src pat i plain \<noteq> Inl TooComplex \<and> str_match src pat i \<noteq> Inl TooComplex \<and>
    gmatch_aux src pat new_MatchState k \<noteq> Inl TooComplex \<and> str_gsub num src pat tr lim \<noteq> Inl TooComplex"
proof -
  have "str_find src pat i plain \<noteq> Inl TooComplex" "str_match src pat i \<noteq> Inl TooComplex"
    using str_find_aux_harmless [OF assms(1), of _ pat i _ TooComplex] assms(2)
    by (auto simp: str_find_def str_match_def harmless_def)
  moreover have "gmatch_aux src pat new_MatchState k \<noteq> Inl TooComplex"
    using gmatch_aux_cases [OF assms(1) wf_new, of pat k] assms(2) by (auto simp: harmless_def split: sum.splits)
  moreover have "str_gsub num src pat tr lim \<noteq> Inl TooComplex"
    using str_gsub_cases [OF assms(1), of num pat tr lim] assms(2) by (auto simp: harmless_def)
  ultimately show ?thesis by simp
qed

theorem short_patterns_fit_witness:
  "str_match [97, 97] [LPAREN, 97, QUEST, RPAREN, ESC, 49] None = Inr [LStr [97]] \<and>
   str_match [97, 97] [LPAREN, 97, QUEST, RPAREN, ESC, 49] None \<noteq> Inl TooComplex"
proof
  show "str_match [97, 97] [LPAREN, 97, QUEST, RPAREN, ESC, 49] None = Inr [LStr [97]]" by code_simp
  show "str_match [97, 97] [LPAREN, 97, QUEST, RPAREN, ESC, 49] None \<noteq> Inl TooComplex"
    using short_patterns_fit [of "[97, 97]" "[LPAREN, 97, QUEST, RPAREN, ESC, 49]" None False 0]
    by (simp add: MAXCCALLS_def)
qed

text \<open>
  The fast path of find is an optimisation. For a pattern without special characters the plain
  search with lua_memchr and memcmp returns what the matcher would. A closing parenthesis is not among
  the special characters of the source, so it is excluded: there the matcher reports an error.
\<close>

theorem plain_search_is_pattern_search:
  assumes "nospecials pat" and "RPAREN \<notin> set pat" and "start \<le> length src"
  shows "plain_search src pat start = pattern_search True src pat start"
proof -
  have p: "plain_pattern pat" by (rule nospecials_plain [OF assms(1,2)])
  have anchor: "byte_at pat 0 \<noteq> CARET"
    using p by (cases pat) (auto simp: byte_at_def plain_pattern_def SPECIALS_def)
  from plain_find_loop [OF p assms(3), of new_MatchState] obtain ms r
    where f: "find_loop src pat False new_MatchState start = Inr (ms, map_option (\<lambda>b. (b, b + length pat)) r)"
      and l: "level ms = 0" and r: "least_in (occurs_at src pat) start (length src + 1) r" by blast
  have "r = lmemfind src start (length src - start) pat"
    by (rule least_in_unique [OF r lmemfind_least [OF assms(3)]])
  then show ?thesis
    using anchor f l by (cases r) (auto simp: plain_search_def pattern_search_def push_captures_def split: option.splits)
qed

theorem plain_search_is_pattern_search_witness:
  "plain_search [97, 98, 0, 97, 98, 99] [97, 98, 99] 0 = Inr [LInt 4, LInt 6] \<and>
   pattern_search True [97, 98, 0, 97, 98, 99] [97, 98, 99] 0 = Inr [LInt 4, LInt 6]"
proof -
  have "nospecials [97, 98, 99]" by code_simp
  then have "plain_search [97, 98, 0, 97, 98, 99] [97, 98, 99] 0 = pattern_search True [97, 98, 0, 97, 98, 99] [97, 98, 99] 0"
    by (intro plain_search_is_pattern_search) simp_all
  moreover have "plain_search [97, 98, 0, 97, 98, 99] [97, 98, 99] 0 = Inr [LInt 4, LInt 6]" by code_simp
  ultimately show ?thesis by simp
qed

text \<open>
  Gsub loses nothing. Replacing every match of any pattern by itself (%0) gives the subject back,
  with at most one replacement more than the subject has bytes.
\<close>

theorem gsub_keeps_text:
  assumes "length src < 2 ^ 63" and "str_gsub num src pat (ReplString [ESC, 48]) lim = Inr (t, n)"
  shows "t = src \<and> n \<le> length src + 1"
proof -
  define anchor where "anchor = (byte_at pat 0 = CARET)"
  define pat' where "pat' = (if anchor then tl pat else pat)"
  define m where "m = unat (case lim of None \<Rightarrow> size_of src + 1 | Some m \<Rightarrow> m)"
  let ?g = "gsub_loop num (ReplString [ESC, 48]) src pat' anchor m new_MatchState 0 0"
  have "bindE ?g (\<lambda>(t, s, n). Inr (t @ drop s src, n)) = Inr (t, n)"
    using assms(2) by (simp add: str_gsub_def anchor_def pat'_def m_def Let_def)
  then obtain t1 s2 where g: "?g = Inr (t1, s2, n)" and t: "t = t1 @ drop s2 src"
    unfolding bindE_Inr_iff by (auto split: prod.splits)
  from gsub_loop_keep [OF assms(1) wf_new _ g] have s2: "s2 \<le> length src" "t1 = take s2 src" by (simp_all add: seg_def)
  from gsub_loop_safe [OF assms(1) wf_new, of 0 num "ReplString [ESC, 48]" pat' anchor m 0] g
  have "n \<le> length src + 1" by auto
  with t s2 show ?thesis by simp
qed

theorem gsub_keeps_text_witness:
  "\<exists>t n. str_gsub (\<lambda>i. []) [97, 98, 98] [98, STAR] (ReplString [ESC, 48]) None = Inr (t, n) \<and> t = [97, 98, 98] \<and> n = 3"
proof -
  have g: "str_gsub (\<lambda>i. []) [97, 98, 98] [98, STAR] (ReplString [ESC, 48]) None = Inr ([97, 98, 98], 3)" by code_simp
  from gsub_keeps_text [OF _ g] have "[97, 98, 98 :: byte] = [97, 98, 98]" by simp
  with g show ?thesis by blast
qed

text \<open>
  An overflow that str_byte does not notice. Asked for all bytes of a string of 2^31 bytes, it
  means to report that the slice is too long; but the check adds a negative int to a position and
  wraps around, so the function claims a negative number of results.
\<close>

theorem str_byte_overflow_missed:
  assumes "length s = 2 ^ 31"
  shows "str_byte s (Some 1) (Some (- 1)) = Inr (0x80000000, [])"
proof -
  have l: "size_of s = 0x80000000" by (simp add: size_of_def assms)
  have p: "posrelat 1 0x80000000 = 1" "posrelat (- 1) 0x80000000 = 0x80000000" by code_simp+
  have n: "(ucast (0x80000000 - 1 + 1 :: uint64) :: uint32) = 0x80000000" by code_simp
  have "\<not> (1 + scast (0x80000000 :: uint32) \<le> (0x80000000 :: uint64))" by code_simp
  moreover have "nat (sint (0x80000000 :: uint32)) = 0" by code_simp
  ultimately show ?thesis
    unfolding str_byte_def option.case l p Let_def using n by simp
qed

theorem str_byte_overflow_missed_witness:
  "str_byte (replicate (2 ^ 31) 0) (Some 1) (Some (- 1)) = Inr (0x80000000, [])"
  by (rule str_byte_overflow_missed) (rule length_replicate)

end
