(* ===== verification/LuaTabLib.thy ===== *)
theory LuaTabLib
  imports Prelude "HOL-Library.Multiset"
begin

text \<open>
  ltablib.c: sort, insert, remove, concat, pack and unpack. The array part of the table the functions
  work on is a map from integers to values; for the functions other than sort a value is an option,
  None being nil. The comparison of sort is a parameter, the function of the script or lua_compare:
  any total function of two values, not necessarily an order.

  Sizes are below 2^31 as in the source (int); the one sum of two indices that can exceed an int, the
  middle of the range in auxsort, is checked and gives the error IntOverflow.
\<close>

section \<open>Sorting\<close>

datatype tab_error =
    InvalidOrder | IntOverflow | PositionOutOfBounds | WrongArguments | InvalidValue int | TooManyResults

type_synonym 'a arr = "int \<Rightarrow> 'a"

definition INT_MAX :: int where "INT_MAX = 2 ^ 31 - 1"

text \<open>set2 stores the two values on top of the stack: the upper one at i, the lower one at j.\<close>

definition set2 :: "'a arr \<Rightarrow> int \<Rightarrow> int \<Rightarrow> 'a \<Rightarrow> 'a \<Rightarrow> 'a arr" where
  "set2 a i j x y = (a(i := x))(j := y)"

lemma bindE_cong_tab [fundef_cong]:
  "m = m' \<Longrightarrow> (\<And>x. m' = Inr x \<Longrightarrow> f x = g x) \<Longrightarrow> bindE m f = bindE m' g"
  by (cases m') auto

function scan_up :: "('a \<Rightarrow> 'a \<Rightarrow> bool) \<Rightarrow> 'a arr \<Rightarrow> 'a \<Rightarrow> int \<Rightarrow> int \<Rightarrow> tab_error + int" where
  "scan_up lt a P u i0 =
     (let i = i0 + 1
      in if lt (a i) P then (if u \<le> i then Inl InvalidOrder else scan_up lt a P u i) else Inr i)"
  by auto
termination by (relation "measure (\<lambda>(lt, a, P, u, i). nat (u - i))") auto

function scan_down :: "('a \<Rightarrow> 'a \<Rightarrow> bool) \<Rightarrow> 'a arr \<Rightarrow> 'a \<Rightarrow> int \<Rightarrow> int \<Rightarrow> tab_error + int" where
  "scan_down lt a P l j0 =
     (let j = j0 - 1
      in if lt P (a j) then (if j \<le> l then Inl InvalidOrder else scan_down lt a P l j) else Inr j)"
  by auto
termination by (relation "measure (\<lambda>(lt, a, P, l, j). nat (j - l))") auto

declare scan_up.simps [simp del] scan_down.simps [simp del]

lemma scan_up_bounds: "scan_up lt a P u i = Inr i' \<Longrightarrow> i < i' \<and> (i < u \<longrightarrow> i' \<le> u) \<and> \<not> lt (a i') P \<and>
    (\<forall>k. i < k \<and> k < i' \<longrightarrow> lt (a k) P)"
proof (induction lt a P u i rule: scan_up.induct)
  case (1 lt a P u i)
  show ?case
  proof (cases "lt (a (i + 1)) P \<and> i + 1 < u")
    case True
    then have s: "scan_up lt a P u (i + 1) = Inr i'" using 1(2) by (subst (asm) scan_up.simps) (simp add: Let_def)
    have ih: "i + 1 < i' \<and> (i + 1 < u \<longrightarrow> i' \<le> u) \<and> \<not> lt (a i') P \<and> (\<forall>k. i + 1 < k \<and> k < i' \<longrightarrow> lt (a k) P)"
      by (rule 1(1) [OF refl _ _ s]) (use True in auto)
    have "k = i + 1 \<or> i + 1 < k" if "i < k" for k using that by linarith
    with ih True show ?thesis by auto
  next
    case False
    then have "i' = i + 1" "\<not> lt (a (i + 1)) P"
      using 1(2) by (subst (asm) scan_up.simps; simp add: Let_def split: if_splits)+
    then show ?thesis by auto
  qed
qed

lemma scan_down_bounds: "scan_down lt a P l j = Inr j' \<Longrightarrow> j' < j \<and> (l < j \<longrightarrow> l \<le> j') \<and> \<not> lt P (a j') \<and>
    (\<forall>k. j' < k \<and> k < j \<longrightarrow> lt P (a k))"
proof (induction lt a P l j rule: scan_down.induct)
  case (1 lt a P l j)
  show ?case
  proof (cases "lt P (a (j - 1)) \<and> l < j - 1")
    case True
    then have s: "scan_down lt a P l (j - 1) = Inr j'" using 1(2) by (subst (asm) scan_down.simps) (simp add: Let_def)
    have ih: "j' < j - 1 \<and> (l < j - 1 \<longrightarrow> l \<le> j') \<and> \<not> lt P (a j') \<and> (\<forall>k. j' < k \<and> k < j - 1 \<longrightarrow> lt P (a k))"
      by (rule 1(1) [OF refl _ _ s]) (use True in auto)
    have "k = j - 1 \<or> k < j - 1" if "k < j" for k using that by linarith
    with ih True show ?thesis by auto
  next
    case False
    then have "j' = j - 1" "\<not> lt P (a (j - 1))"
      using 1(2) by (subst (asm) scan_down.simps; simp add: Let_def split: if_splits)+
    then show ?thesis by auto
  qed
qed

text \<open>The loop of the partition: the array and the final i.\<close>

function part_loop ::
  "('a \<Rightarrow> 'a \<Rightarrow> bool) \<Rightarrow> 'a \<Rightarrow> int \<Rightarrow> int \<Rightarrow> 'a arr \<Rightarrow> int \<Rightarrow> int \<Rightarrow> tab_error + 'a arr \<times> int" where
  "part_loop lt P l u a i0 j0 =
     bindE (scan_up lt a P u i0) (\<lambda>i. bindE (scan_down lt a P l j0) (\<lambda>j.
       if j < i then Inr (a, i) else part_loop lt P l u (set2 a i j (a j) (a i)) i j))"
  by pat_completeness auto
termination
  by (relation "measure (\<lambda>(lt, P, l, u, a, i, j). nat (j - i))")
    (auto dest!: scan_up_bounds scan_down_bounds)

declare part_loop.simps [simp del]

lemma part_loop_bounds:
  "part_loop lt P l u a i j = Inr (a', i') \<Longrightarrow> i < u \<Longrightarrow> j \<le> u \<Longrightarrow> i < i' \<and> i' \<le> u"
proof (induction lt P l u a i j rule: part_loop.induct)
  case (1 lt P l u a i j)
  from 1(2) obtain i1 j1 where i1: "scan_up lt a P u i = Inr i1" and j1: "scan_down lt a P l j = Inr j1"
    and r: "(if j1 < i1 then Inr (a, i1) else part_loop lt P l u (set2 a i1 j1 (a j1) (a i1)) i1 j1) = Inr (a', i')"
    by (subst (asm) part_loop.simps) (auto simp: bindE_Inr_iff)
  note b = scan_up_bounds [OF i1] scan_down_bounds [OF j1]
  show ?case
  proof (cases "j1 < i1")
    case True
    with r b 1(3) show ?thesis by simp
  next
    case False
    with r have "part_loop lt P l u (set2 a i1 j1 (a j1) (a i1)) i1 j1 = Inr (a', i')" by simp
    from 1(1) [OF i1 j1 False this] b 1(4) False show ?thesis by simp
  qed
qed

definition sort3_low :: "('a \<Rightarrow> 'a \<Rightarrow> bool) \<Rightarrow> 'a arr \<Rightarrow> int \<Rightarrow> int \<Rightarrow> 'a arr" where
  "sort3_low lt a l u = (if lt (a u) (a l) then set2 a l u (a u) (a l) else a)"

definition sort3_mid :: "('a \<Rightarrow> 'a \<Rightarrow> bool) \<Rightarrow> 'a arr \<Rightarrow> int \<Rightarrow> int \<Rightarrow> int \<Rightarrow> 'a arr" where
  "sort3_mid lt a l i u =
     (if lt (a i) (a l) then set2 a i l (a l) (a i)
      else if lt (a u) (a i) then set2 a i u (a u) (a i)
      else a)"

text \<open>
  The recursive call sorts the smaller part, the next round of the loop the larger one.
\<close>

function auxsort :: "('a \<Rightarrow> 'a \<Rightarrow> bool) \<Rightarrow> int \<Rightarrow> int \<Rightarrow> 'a arr \<Rightarrow> tab_error + 'a arr" where
  "auxsort lt l u a =
     (if l < u then
        let a1 = sort3_low lt a l u
        in if u - l = 1 then Inr a1
           else if INT_MAX < l + u then Inl IntOverflow
           else
             (let i = (l + u) div 2; a2 = sort3_mid lt a1 l i u
              in if u - l = 2 then Inr a2
                 else
                   (let P = a2 i; a3 = set2 a2 i (u - 1) (a2 (u - 1)) P
                    in bindE (part_loop lt P l u a3 l (u - 1)) (\<lambda>(a4, i).
                         let a5 = set2 a4 (u - 1) i (a4 i) (a4 (u - 1))
                         in if i - l < u - i
                            then bindE (auxsort lt l (i - 1) a5) (\<lambda>a6. auxsort lt (i + 1) u a6)
                            else bindE (auxsort lt (i + 1) u a5) (\<lambda>a6. auxsort lt l (i - 1) a6))))
      else Inr a)"
  by pat_completeness auto
termination
  by (relation "measure (\<lambda>(lt, l, u, a). nat (u - l))") (auto dest!: part_loop_bounds)

declare auxsort.simps [simp del]

definition tsort :: "('a \<Rightarrow> 'a \<Rightarrow> bool) \<Rightarrow> int \<Rightarrow> 'a arr \<Rightarrow> tab_error + 'a arr" where
  "tsort lt n a = auxsort lt 1 n a"


section \<open>Sorting permutes\<close>

definition contents :: "int \<Rightarrow> int \<Rightarrow> 'a arr \<Rightarrow> 'a multiset" where
  "contents l u a = image_mset a (mset_set {l..u})"

definition perm_on :: "int \<Rightarrow> int \<Rightarrow> 'a arr \<Rightarrow> 'a arr \<Rightarrow> bool" where
  "perm_on l u a b \<longleftrightarrow> contents l u b = contents l u a \<and> (\<forall>k. k < l \<or> u < k \<longrightarrow> b k = a k)"

lemma perm_on_refl [simp]: "perm_on l u a a"
  by (simp add: perm_on_def)

lemma perm_on_trans: "perm_on l u a b \<Longrightarrow> perm_on l u b c \<Longrightarrow> perm_on l u a c"
  by (simp add: perm_on_def)

lemma set2_swap: "set2 a i j (a j) (a i) = (\<lambda>k. if k = j then a i else if k = i then a j else a k)"
  by (auto simp: set2_def)

lemma perm_on_swap:
  assumes "l \<le> i" and "i \<le> u" and "l \<le> j" and "j \<le> u"
  shows "perm_on l u a (set2 a i j (a j) (a i))"
proof -
  let ?b = "set2 a i j (a j) (a i)"
  have "contents l u ?b = contents l u a"
  proof (cases "i = j")
    case True
    then show ?thesis by (simp add: set2_def)
  next
    case False
    define R where "R = {l..u} - {i, j}"
    have "{l..u} = insert i (insert j R)" "i \<notin> insert j R" "j \<notin> R" "finite R"
      using assms False by (auto simp: R_def)
    then have m: "mset_set {l..u} = add_mset i (add_mset j (mset_set R))" by simp
    have "image_mset ?b (mset_set R) = image_mset a (mset_set R)"
      by (rule image_mset_cong) (auto simp: R_def set2_def)
    then show ?thesis using False by (simp add: contents_def m set2_def)
  qed
  then show ?thesis using assms by (auto simp: perm_on_def set2_def)
qed

lemma perm_on_widen:
  assumes p: "perm_on l' u' a b" and "l \<le> l'" and "u' \<le> u"
  shows "perm_on l u a b"
proof -
  define R where "R = {l..u} - {l'..u'}"
  have "{l..u} = {l'..u'} \<union> R" "{l'..u'} \<inter> R = {}" "finite R"
    using assms by (auto simp: R_def)
  then have m: "mset_set {l..u} = mset_set {l'..u'} + mset_set R" by (simp add: mset_set_Union)
  have "image_mset b (mset_set R) = image_mset a (mset_set R)"
    by (rule image_mset_cong) (use p in \<open>auto simp: R_def perm_on_def\<close>)
  then have "contents l u b = contents l u a" using p by (simp add: contents_def m perm_on_def)
  then show ?thesis using p assms by (auto simp: perm_on_def)
qed

lemma perm_on_values: "perm_on l u a b \<Longrightarrow> l \<le> k \<Longrightarrow> k \<le> u \<Longrightarrow> \<exists>m. l \<le> m \<and> m \<le> u \<and> b k = a m"
proof -
  assume p: "perm_on l u a b" and k: "l \<le> k" "k \<le> u"
  have "b k \<in># contents l u b" using k by (simp add: contents_def)
  then have "b k \<in># contents l u a" using p by (simp add: perm_on_def)
  then show ?thesis by (auto simp: contents_def)
qed

lemma part_loop_perm:
  "part_loop lt P l u a i j = Inr (a', i') \<Longrightarrow> l \<le> i \<Longrightarrow> j \<le> u \<Longrightarrow> perm_on l u a a'"
proof (induction lt P l u a i j rule: part_loop.induct)
  case (1 lt P l u a i j)
  from 1(2) obtain i1 j1 where i1: "scan_up lt a P u i = Inr i1" and j1: "scan_down lt a P l j = Inr j1"
    and r: "(if j1 < i1 then Inr (a, i1) else part_loop lt P l u (set2 a i1 j1 (a j1) (a i1)) i1 j1) = Inr (a', i')"
    by (subst (asm) part_loop.simps) (auto simp: bindE_Inr_iff)
  note b = scan_up_bounds [OF i1] scan_down_bounds [OF j1]
  show ?case
  proof (cases "j1 < i1")
    case True
    with r show ?thesis by simp
  next
    case False
    with r have rec: "part_loop lt P l u (set2 a i1 j1 (a j1) (a i1)) i1 j1 = Inr (a', i')" by simp
    have "perm_on l u (set2 a i1 j1 (a j1) (a i1)) a'"
      by (rule 1(1) [OF i1 j1 False rec]) (use b 1(3,4) in linarith)+
    moreover have "perm_on l u a (set2 a i1 j1 (a j1) (a i1))"
      by (rule perm_on_swap) (use b 1(3,4) False in linarith)+
    ultimately show ?thesis by (rule perm_on_trans [rotated])
  qed
qed

lemma sort3_low_perm: "l \<le> u \<Longrightarrow> perm_on l u a (sort3_low lt a l u)"
  by (simp add: sort3_low_def perm_on_swap)

lemma sort3_mid_perm: "l \<le> i \<Longrightarrow> i \<le> u \<Longrightarrow> perm_on l u a (sort3_mid lt a l i u)"
  by (simp add: sort3_mid_def perm_on_swap)

text \<open>The stages of one round of auxsort before the recursive calls, for ranges of four or more.\<close>

definition pivot_array :: "('a \<Rightarrow> 'a \<Rightarrow> bool) \<Rightarrow> int \<Rightarrow> int \<Rightarrow> 'a arr \<Rightarrow> 'a arr" where
  "pivot_array lt l u a =
     (let i = (l + u) div 2; a2 = sort3_mid lt (sort3_low lt a l u) l i u
      in set2 a2 i (u - 1) (a2 (u - 1)) (a2 i))"

lemma auxsort_round:
  assumes "2 < u - l" and "l + u \<le> INT_MAX"
  shows "auxsort lt l u a =
    (let a3 = pivot_array lt l u a
     in bindE (part_loop lt (a3 (u - 1)) l u a3 l (u - 1)) (\<lambda>(a4, i).
          let a5 = set2 a4 (u - 1) i (a4 i) (a4 (u - 1))
          in if i - l < u - i
             then bindE (auxsort lt l (i - 1) a5) (\<lambda>a6. auxsort lt (i + 1) u a6)
             else bindE (auxsort lt (i + 1) u a5) (\<lambda>a6. auxsort lt l (i - 1) a6)))"
  using assms by (subst auxsort.simps) (simp add: Let_def pivot_array_def set2_def)

lemma auxsort_small:
  "u \<le> l \<Longrightarrow> auxsort lt l u a = Inr a"
  "u = l + 1 \<Longrightarrow> auxsort lt l u a = Inr (sort3_low lt a l u)"
  "l + 1 < u \<Longrightarrow> INT_MAX < l + u \<Longrightarrow> auxsort lt l u a = Inl IntOverflow"
  "u = l + 2 \<Longrightarrow> l + u \<le> INT_MAX \<Longrightarrow>
     auxsort lt l u a = Inr (sort3_mid lt (sort3_low lt a l u) l (l + 1) u)"
  by (subst auxsort.simps; simp add: Let_def)+

lemma pivot_array_perm:
  assumes "2 < u - l"
  shows "perm_on l u a (pivot_array lt l u a)"
proof -
  let ?i = "(l + u) div 2"
  let ?a2 = "sort3_mid lt (sort3_low lt a l u) l ?i u"
  have i: "l \<le> ?i" "?i \<le> u" using assms by auto
  have "perm_on l u a (sort3_low lt a l u)" using assms by (simp add: sort3_low_perm)
  moreover have "perm_on l u (sort3_low lt a l u) ?a2" using i by (rule sort3_mid_perm)
  moreover have "perm_on l u ?a2 (set2 ?a2 ?i (u - 1) (?a2 (u - 1)) (?a2 ?i))"
    by (rule perm_on_swap) (use i assms in auto)
  ultimately show ?thesis unfolding pivot_array_def Let_def by (blast intro: perm_on_trans)
qed

text \<open>The four ways auxsort can go.\<close>

lemma auxsort_cases:
  obtains (trivial) "u \<le> l" | (two) "u = l + 1" | (overflow) "l + 1 < u" "INT_MAX < l + u"
    | (three) "u = l + 2" "l + u \<le> INT_MAX" | (more) "2 < u - l" "l + u \<le> INT_MAX"
  by linarith

lemma auxsort_perm:
  "case auxsort lt l u a of Inl e \<Rightarrow> e = InvalidOrder \<or> e = IntOverflow \<and> INT_MAX < 2 * u - 1 | Inr b \<Rightarrow> perm_on l u a b"
proof (induction "nat (u - l)" arbitrary: l u a rule: less_induct)
  case less
  show ?case
  proof (cases rule: auxsort_cases [of u l])
    case more
    define a3 where "a3 = pivot_array lt l u a"
    have p3: "perm_on l u a a3" using more(1) by (simp add: a3_def pivot_array_perm)
    note round = auxsort_round [OF more, of lt a, folded a3_def, unfolded Let_def]
    show ?thesis
    proof (cases "part_loop lt (a3 (u - 1)) l u a3 l (u - 1)")
      case (Inl e)
      have "e = InvalidOrder" if "part_loop lt P l u b i j = Inl e" for P b i j
        using that
      proof (induction lt P l u b i j rule: part_loop.induct)
        case (1 lt P l u b i j)
        have su: "scan_up lt b P u i = Inl x \<Longrightarrow> x = InvalidOrder" for i x
          by (induction lt b P u i rule: scan_up.induct) (subst (asm) (2) scan_up.simps, auto simp: Let_def split: if_splits)
        have sd: "scan_down lt b P l j = Inl x \<Longrightarrow> x = InvalidOrder" for j x
          by (induction lt b P l j rule: scan_down.induct) (subst (asm) (2) scan_down.simps, auto simp: Let_def split: if_splits)
        from 1(2) show ?case
          by (subst (asm) part_loop.simps) (auto simp: bindE_Inl_iff split: if_splits dest: su sd 1(1))
      qed
      with Inl show ?thesis unfolding round by simp
    next
      case (Inr x)
      obtain a4 i where x: "x = (a4, i)" by fastforce
      have i: "l < i" "i \<le> u" using part_loop_bounds [OF Inr [unfolded x]] more(1) by auto
      define a5 where "a5 = set2 a4 (u - 1) i (a4 i) (a4 (u - 1))"
      have "perm_on l u a3 a4" by (rule part_loop_perm [OF Inr [unfolded x]]) simp_all
      moreover have "perm_on l u a4 a5" unfolding a5_def by (rule perm_on_swap) (use i more(1) in auto)
      ultimately have p5: "perm_on l u a a5" using p3 by (blast intro: perm_on_trans)
      have left: "case auxsort lt l (i - 1) b of Inl e \<Rightarrow> e = InvalidOrder \<or> e = IntOverflow \<and> INT_MAX < 2 * u - 1
          | Inr c \<Rightarrow> perm_on l u b c" for b
      proof -
        have "nat (i - 1 - l) < nat (u - l)" using i by simp
        from less [OF this, of b] show ?thesis using i(2) by (auto split: sum.splits intro: perm_on_widen)
      qed
      have right: "case auxsort lt (i + 1) u b of Inl e \<Rightarrow> e = InvalidOrder \<or> e = IntOverflow \<and> INT_MAX < 2 * u - 1
          | Inr c \<Rightarrow> perm_on l u b c" for b
      proof -
        have "nat (u - (i + 1)) < nat (u - l)" using i by simp
        from less [OF this, of b] show ?thesis using i(1) by (auto split: sum.splits intro: perm_on_widen)
      qed
      show ?thesis
      proof (cases "i - l < u - i")
        case True
        have r: "auxsort lt l u a = bindE (auxsort lt l (i - 1) a5) (\<lambda>a6. auxsort lt (i + 1) u a6)"
          unfolding round Inr x bindE_simps prod.case a5_def [symmetric] using True by simp
        show ?thesis
          unfolding r using left [of a5] right p5
          by (cases "auxsort lt l (i - 1) a5") (fastforce split: sum.splits intro: perm_on_trans)+
      next
        case False
        have r: "auxsort lt l u a = bindE (auxsort lt (i + 1) u a5) (\<lambda>a6. auxsort lt l (i - 1) a6)"
          unfolding round Inr x bindE_simps prod.case a5_def [symmetric] using False by simp
        show ?thesis
          unfolding r using right [of a5] left p5
          by (cases "auxsort lt (i + 1) u a5") (fastforce split: sum.splits intro: perm_on_trans)+
      qed
    qed
  next
    case three
    have "perm_on l u (sort3_low lt a l u) (sort3_mid lt (sort3_low lt a l u) l (l + 1) u)"
      by (rule sort3_mid_perm) (use three in auto)
    with three show ?thesis using sort3_low_perm [of l u a lt] by (auto simp: auxsort_small intro: perm_on_trans)
  qed (auto simp: auxsort_small sort3_low_perm)
qed


section \<open>Sorting with an order function\<close>

text \<open>A valid order function of the manual: a strict weak order.\<close>

definition order_function :: "('a \<Rightarrow> 'a \<Rightarrow> bool) \<Rightarrow> bool" where
  "order_function lt \<longleftrightarrow> (\<forall>x y. lt x y \<longrightarrow> \<not> lt y x) \<and> (\<forall>x y z. \<not> lt y x \<longrightarrow> \<not> lt z y \<longrightarrow> \<not> lt z x)"

definition sorted_on :: "('a \<Rightarrow> 'a \<Rightarrow> bool) \<Rightarrow> int \<Rightarrow> int \<Rightarrow> 'a arr \<Rightarrow> bool" where
  "sorted_on lt l u a \<longleftrightarrow> (\<forall>i j. l \<le> i \<and> i < j \<and> j \<le> u \<longrightarrow> \<not> lt (a j) (a i))"

lemma order_asym: "order_function lt \<Longrightarrow> lt x y \<Longrightarrow> \<not> lt y x"
  unfolding order_function_def by blast

lemma order_trans': "order_function lt \<Longrightarrow> \<not> lt y x \<Longrightarrow> \<not> lt z y \<Longrightarrow> \<not> lt z x"
  unfolding order_function_def by blast

lemma scan_up_stops:
  assumes "i < k" and "k \<le> u" and "\<not> lt (a k) P"
  shows "\<exists>i'. scan_up lt a P u i = Inr i' \<and> i' \<le> k"
  using assms(1)
proof (induction "nat (k - i)" arbitrary: i rule: less_induct)
  case less
  show ?case
  proof (cases "lt (a (i + 1)) P")
    case False
    then show ?thesis using less.prems by (subst scan_up.simps) (simp add: Let_def)
  next
    case True
    with assms(3) have "i + 1 \<noteq> k" by auto
    with less.prems have k: "i + 1 < k" by simp
    then have "scan_up lt a P u i = scan_up lt a P u (i + 1)"
      using True assms(2) by (subst scan_up.simps) (simp add: Let_def)
    moreover have "\<exists>i'. scan_up lt a P u (i + 1) = Inr i' \<and> i' \<le> k"
      by (rule less.hyps [OF _ k]) (use k in simp)
    ultimately show ?thesis by simp
  qed
qed

lemma scan_down_stops:
  assumes "k < j" and "l \<le> k" and "\<not> lt P (a k)"
  shows "\<exists>j'. scan_down lt a P l j = Inr j' \<and> k \<le> j'"
  using assms(1)
proof (induction "nat (j - k)" arbitrary: j rule: less_induct)
  case less
  show ?case
  proof (cases "lt P (a (j - 1))")
    case False
    then show ?thesis using less.prems by (subst scan_down.simps) (simp add: Let_def)
  next
    case True
    with assms(3) have "j - 1 \<noteq> k" by auto
    with less.prems have k: "k < j - 1" by simp
    then have "scan_down lt a P l j = scan_down lt a P l (j - 1)"
      using True assms(2) by (subst scan_down.simps) (simp add: Let_def)
    moreover have "\<exists>j'. scan_down lt a P l (j - 1) = Inr j' \<and> k \<le> j'"
      by (rule less.hyps [OF _ k]) (use k in simp)
    ultimately show ?thesis by simp
  qed
qed

definition part_inv :: "('a \<Rightarrow> 'a \<Rightarrow> bool) \<Rightarrow> 'a \<Rightarrow> int \<Rightarrow> int \<Rightarrow> 'a arr \<Rightarrow> int \<Rightarrow> int \<Rightarrow> bool" where
  "part_inv lt P l u a i j \<longleftrightarrow> l \<le> i \<and> l < j \<and> i \<le> j \<and> j \<le> u - 1 \<and> i < u - 1 \<and>
     (\<forall>k. l \<le> k \<and> k \<le> i \<longrightarrow> \<not> lt P (a k)) \<and> (\<forall>k. j \<le> k \<and> k \<le> u \<longrightarrow> \<not> lt (a k) P)"

definition parted :: "('a \<Rightarrow> 'a \<Rightarrow> bool) \<Rightarrow> 'a \<Rightarrow> int \<Rightarrow> int \<Rightarrow> 'a arr \<Rightarrow> int \<Rightarrow> bool" where
  "parted lt P l u a i \<longleftrightarrow> (\<forall>k. l \<le> k \<and> k < i \<longrightarrow> \<not> lt P (a k)) \<and> (\<forall>k. i \<le> k \<and> k \<le> u \<longrightarrow> \<not> lt (a k) P)"

lemma part_loop_parted:
  assumes ord: "order_function lt"
  shows "part_inv lt P l u a i j \<Longrightarrow>
    \<exists>a' i'. part_loop lt P l u a i j = Inr (a', i') \<and> l < i' \<and> i' \<le> u - 1 \<and> a' (u - 1) = a (u - 1) \<and> parted lt P l u a' i'"
proof (induction "nat (j - l)" arbitrary: a i j rule: less_induct)
  case less
  then have inv: "l \<le> i" "l < j" "i \<le> j" "j \<le> u - 1" "i < u - 1"
    and low: "\<And>k. l \<le> k \<Longrightarrow> k \<le> i \<Longrightarrow> \<not> lt P (a k)" and high: "\<And>k. j \<le> k \<Longrightarrow> k \<le> u \<Longrightarrow> \<not> lt (a k) P"
    by (simp_all add: part_inv_def)
  define m where "m = max j (i + 1)"
  have jm: "j \<le> m" "i < m" "m \<le> u - 1" using inv by (auto simp: m_def)
  then have m: "i < m" "m \<le> u - 1" "\<not> lt (a m) P" using high [of m] by auto
  obtain i1 where i1: "scan_up lt a P u i = Inr i1" and im: "i1 \<le> m"
    using scan_up_stops [where lt = lt and a = a and P = P and u = u, OF m(1) _ m(3)] m(2) by auto
  have pl: "\<not> lt P (a l)" by (rule low) (use inv in auto)
  obtain j1 where j1: "scan_down lt a P l j = Inr j1" and lj: "l \<le> j1"
    using scan_down_stops [where lt = lt and a = a and k = l and l = l and j = j and P = P, OF inv(2) order_refl pl] by auto
  from scan_up_bounds [OF i1] have b: "i < i1" "\<not> lt (a i1) P" and before: "\<And>k. i < k \<Longrightarrow> k < i1 \<Longrightarrow> lt (a k) P" by auto
  from scan_down_bounds [OF j1] have c: "j1 < j" "\<not> lt P (a j1)" and after: "\<And>k. j1 < k \<Longrightarrow> k < j \<Longrightarrow> lt P (a k)" by auto
  have low1: "\<not> lt P (a k)" if "l \<le> k" "k < i1" for k
    using low [OF that(1)] order_asym [OF ord before [of k]] that by (cases "k \<le> i") auto
  have high1: "\<not> lt (a k) P" if "j1 < k" "k \<le> u" for k
    using high [of k] order_asym [OF ord after [of k]] that by (cases "j \<le> k") auto
  have step: "part_loop lt P l u a i j =
      (if j1 < i1 then Inr (a, i1) else part_loop lt P l u (set2 a i1 j1 (a j1) (a i1)) i1 j1)"
    by (subst part_loop.simps) (simp add: i1 j1)
  show ?case
  proof (cases "j1 < i1")
    case True
    have "\<not> lt (a k) P" if "i1 \<le> k" "k \<le> u" for k using high1 [of k] that True by simp
    then have "parted lt P l u a i1" using low1 by (simp add: parted_def)
    then show ?thesis using step True b inv im m by auto
  next
    case False
    let ?a = "set2 a i1 j1 (a j1) (a i1)"
    have sw: "?a k = (if k = j1 then a i1 else if k = i1 then a j1 else a k)" for k by (simp add: set2_swap)
    have "part_inv lt P l u ?a i1 j1"
      unfolding part_inv_def
    proof (intro conjI allI impI)
      show "l \<le> i1" "l < j1" "i1 \<le> j1" "j1 \<le> u - 1" "i1 < u - 1" using inv b c False by linarith+
      fix k
      show "\<not> lt P (?a k)" if "l \<le> k \<and> k \<le> i1"
        using that low1 [of k] c(2) False unfolding sw by (cases "k = i1") auto
      show "\<not> lt (?a k) P" if "j1 \<le> k \<and> k \<le> u"
        using that high1 [of k] b(2) False unfolding sw by (cases "k = j1") auto
    qed
    moreover have "nat (j1 - l) < nat (j - l)" using c inv by simp
    ultimately obtain a' i' where r: "part_loop lt P l u ?a i1 j1 = Inr (a', i')" "l < i'" "i' \<le> u - 1"
      "a' (u - 1) = ?a (u - 1)" "parted lt P l u a' i'" using less.hyps by blast
    have "?a (u - 1) = a (u - 1)" unfolding sw using c inv False by auto
    with r step False show ?thesis by auto
  qed
qed

lemma sort3_sorted:
  fixes l i u :: int
  assumes ord: "order_function lt" and "l < i" and "i < u" and b_def: "b = sort3_mid lt (sort3_low lt a l u) l i u"
  shows "\<not> lt (b i) (b l) \<and> \<not> lt (b u) (b i)"
proof -
  define c where "c = sort3_low lt a l u"
  have 1: "\<not> lt (c u) (c l)"
    using assms(2,3) order_asym [OF ord] by (auto simp: c_def sort3_low_def set2_def)
  have b: "b = sort3_mid lt c l i u" by (simp add: b_def c_def)
  show ?thesis
  proof (cases "lt (c i) (c l)")
    case True
    then have "b i = c l" "b l = c i" "b u = c u" using assms(2,3) by (auto simp: b sort3_mid_def set2_def)
    then show ?thesis using 1 order_asym [OF ord True] by simp
  next
    case no: False
    show ?thesis
    proof (cases "lt (c u) (c i)")
      case True
      then have "b i = c u" "b l = c l" "b u = c i" using assms(2,3) no by (auto simp: b sort3_mid_def set2_def)
      then show ?thesis using 1 order_asym [OF ord True] by simp
    next
      case False
      then have "b = c" using no by (simp add: b sort3_mid_def)
      then show ?thesis using no False by simp
    qed
  qed
qed

lemma sorted_join:
  assumes ord: "order_function lt" and "sorted_on lt l (m - 1) a" and "sorted_on lt (m + 1) u a"
    and low: "\<And>k. l \<le> k \<Longrightarrow> k < m \<Longrightarrow> \<not> lt (a m) (a k)" and high: "\<And>k. m < k \<Longrightarrow> k \<le> u \<Longrightarrow> \<not> lt (a k) (a m)"
  shows "sorted_on lt l u a"
  unfolding sorted_on_def
proof (intro allI impI)
  fix i j assume ij: "l \<le> i \<and> i < j \<and> j \<le> u"
  consider "j < m" | "j = m" | "i = m" | "m < i" | "i < m" "m < j" by linarith
  then show "\<not> lt (a j) (a i)"
  proof cases
    case 1
    then show ?thesis using assms(2) ij by (simp add: sorted_on_def)
  next
    case 2
    then show ?thesis using low [of i] ij by simp
  next
    case 3
    then show ?thesis using high [of j] ij by simp
  next
    case 4
    then show ?thesis using assms(3) ij by (simp add: sorted_on_def)
  next
    case 5
    with order_trans' [OF ord low [of i] high [of j]] ij show ?thesis by simp
  qed
qed

lemma sorted_on_cong: "(\<And>k. l \<le> k \<Longrightarrow> k \<le> u \<Longrightarrow> b k = a k) \<Longrightarrow> sorted_on lt l u a \<Longrightarrow> sorted_on lt l u b"
  by (simp add: sorted_on_def)

text \<open>Sorting both sides of the pivot, in either order, sorts the range.\<close>

lemma sides_sorted:
  assumes ord: "order_function lt" and i: "l < i" "i \<le> u"
    and low: "\<And>k. l \<le> k \<Longrightarrow> k < i \<Longrightarrow> \<not> lt (a i) (a k)" and high: "\<And>k. i < k \<Longrightarrow> k \<le> u \<Longrightarrow> \<not> lt (a k) (a i)"
    and b: "perm_on l (i - 1) a b \<and> sorted_on lt l (i - 1) b" and c: "perm_on (i + 1) u b c \<and> sorted_on lt (i + 1) u c"
  shows "sorted_on lt l u c"
proof -
  have pb: "perm_on l (i - 1) a b" and pc: "perm_on (i + 1) u b c" using b c by auto
  have cb: "c k = b k" if "k \<le> i" for k using pc that by (simp add: perm_on_def)
  have ba: "b k = a k" if "i \<le> k" for k using pb that by (simp add: perm_on_def)
  show ?thesis
  proof (rule sorted_join [OF ord, of l i])
    show "sorted_on lt l (i - 1) c" by (rule sorted_on_cong [OF cb]) (use b in auto)
    show "sorted_on lt (i + 1) u c" using c by simp
    fix k
    show "\<not> lt (c i) (c k)" if k: "l \<le> k" "k < i"
      using perm_on_values [OF pb, of k] low k cb [of k] cb [of i] ba [of i] by auto
    show "\<not> lt (c k) (c i)" if k: "i < k" "k \<le> u"
    proof -
      obtain m where "i + 1 \<le> m" "m \<le> u" "c k = b m" using perm_on_values [OF pc, of k] k by auto
      then show ?thesis using high [of m] cb [of i] ba [of i] ba [of m] by simp
    qed
  qed
qed

lemma sides_sorted':
  assumes ord: "order_function lt" and i: "l < i" "i \<le> u"
    and low: "\<And>k. l \<le> k \<Longrightarrow> k < i \<Longrightarrow> \<not> lt (a i) (a k)" and high: "\<And>k. i < k \<Longrightarrow> k \<le> u \<Longrightarrow> \<not> lt (a k) (a i)"
    and b: "perm_on (i + 1) u a b \<and> sorted_on lt (i + 1) u b" and c: "perm_on l (i - 1) b c \<and> sorted_on lt l (i - 1) c"
  shows "sorted_on lt l u c"
proof -
  have pb: "perm_on (i + 1) u a b" and pc: "perm_on l (i - 1) b c" using b c by auto
  have cb: "c k = b k" if "i \<le> k" for k using pc that by (simp add: perm_on_def)
  have ba: "b k = a k" if "k \<le> i" for k using pb that by (simp add: perm_on_def)
  show ?thesis
  proof (rule sorted_join [OF ord, of l i])
    show "sorted_on lt (i + 1) u c" by (rule sorted_on_cong [OF cb]) (use b in auto)
    show "sorted_on lt l (i - 1) c" using c by simp
    fix k
    show "\<not> lt (c k) (c i)" if k: "i < k" "k \<le> u"
      using perm_on_values [OF pb, of k] high k cb [of k] cb [of i] ba [of i] by auto
    show "\<not> lt (c i) (c k)" if k: "l \<le> k" "k < i"
    proof -
      obtain m where "l \<le> m" "m \<le> i - 1" "c k = b m" using perm_on_values [OF pc, of k] k by auto
      then show ?thesis using low [of m] cb [of i] ba [of i] ba [of m] by simp
    qed
  qed
qed


lemma auxsort_sorted:
  assumes ord: "order_function lt"
  shows "2 * u - 1 \<le> INT_MAX \<Longrightarrow> \<exists>b. auxsort lt l u a = Inr b \<and> sorted_on lt l u b"
proof (induction "nat (u - l)" arbitrary: l u a rule: less_induct)
  case less
  show ?case
  proof (cases rule: auxsort_cases [of u l])
    case trivial
    then show ?thesis by (auto simp: auxsort_small sorted_on_def)
  next
    case two
    have "\<not> lt (sort3_low lt a l u u) (sort3_low lt a l u l)"
      using two order_asym [OF ord] by (auto simp: sort3_low_def set2_def)
    then have "sorted_on lt l u (sort3_low lt a l u)"
      unfolding sorted_on_def
    proof (intro allI impI)
      fix x y assume n: "\<not> lt (sort3_low lt a l u u) (sort3_low lt a l u l)" and "l \<le> x \<and> x < y \<and> y \<le> u"
      then have "x = l" "y = u" using two by auto
      with n show "\<not> lt (sort3_low lt a l u y) (sort3_low lt a l u x)" by simp
    qed
    then show ?thesis using two by (simp add: auxsort_small)
  next
    case overflow
    with less.prems show ?thesis by simp
  next
    case three
    let ?b = "sort3_mid lt (sort3_low lt a l u) l (l + 1) u"
    have s: "\<not> lt (?b (l + 1)) (?b l)" "\<not> lt (?b u) (?b (l + 1))"
      using sort3_sorted [OF ord, of l "l + 1" u ?b a] three by auto
    have "(x = l \<and> y = l + 1) \<or> (x = l + 1 \<and> y = u) \<or> (x = l \<and> y = u)" if "l \<le> x" "x < y" "y \<le> u" for x y
      using that three(1) by linarith
    then have "sorted_on lt l u ?b" unfolding sorted_on_def using s order_trans' [OF ord s] by metis
    then show ?thesis using three by (simp add: auxsort_small)
  next
    case more
    define i0 where "i0 = (l + u) div 2"
    define a2 where "a2 = sort3_mid lt (sort3_low lt a l u) l i0 u"
    define a3 where "a3 = pivot_array lt l u a"
    have i0: "l < i0" "i0 < u - 1 \<or> i0 = u - 1" "i0 < u" using more(1) by (auto simp: i0_def)
    have a3: "a3 = set2 a2 i0 (u - 1) (a2 (u - 1)) (a2 i0)"
      by (simp add: a3_def pivot_array_def a2_def i0_def Let_def)
    have s2: "\<not> lt (a2 i0) (a2 l)" "\<not> lt (a2 u) (a2 i0)"
      using sort3_sorted [OF ord i0(1,3) a2_def] by auto
    have P: "a3 (u - 1) = a2 i0" "a3 l = a2 l" "a3 u = a2 u"
      using i0 more(1) by (auto simp: a3 set2_def)
    have "part_inv lt (a3 (u - 1)) l u a3 l (u - 1)"
      unfolding part_inv_def
    proof (intro conjI allI impI)
      show "l \<le> l" "l < u - 1" "l \<le> u - 1" "u - 1 \<le> u - 1" "l < u - 1" using more(1) by linarith+
      fix k
      show "\<not> lt (a3 (u - 1)) (a3 k)" if "l \<le> k \<and> k \<le> l"
      proof -
        have "k = l" using that by simp
        then show ?thesis using s2 P by simp
      qed
      show "\<not> lt (a3 k) (a3 (u - 1))" if "u - 1 \<le> k \<and> k \<le> u"
      proof -
        from that have "k = u - 1 \<or> k = u" by linarith
        then show ?thesis using s2 P order_asym [OF ord, of "a2 i0" "a2 i0"] by auto
      qed
    qed
    from part_loop_parted [OF ord this] obtain a4 i where r: "part_loop lt (a3 (u - 1)) l u a3 l (u - 1) = Inr (a4, i)"
      and i: "l < i" "i \<le> u - 1" and a4: "a4 (u - 1) = a3 (u - 1)" and pt: "parted lt (a3 (u - 1)) l u a4 i" by blast
    define a5 where "a5 = set2 a4 (u - 1) i (a4 i) (a4 (u - 1))"
    have sw: "a5 k = (if k = i then a4 (u - 1) else if k = u - 1 then a4 i else a4 k)" for k
      by (simp add: a5_def set2_swap)
    have low: "\<not> lt (a5 i) (a5 k)" if "l \<le> k" "k < i" for k
      using pt that i unfolding sw a4 parted_def by auto
    have high: "\<not> lt (a5 k) (a5 i)" if "i < k" "k \<le> u" for k
      using pt that i unfolding sw a4 parted_def by auto
    note round = auxsort_round [OF more, of lt a, folded a3_def, unfolded Let_def r bindE_simps prod.case a5_def [symmetric]]
    have left: "\<exists>c. auxsort lt l (i - 1) b = Inr c \<and> perm_on l (i - 1) b c \<and> sorted_on lt l (i - 1) c" for b
    proof -
      have "nat (i - 1 - l) < nat (u - l)" "2 * (i - 1) - 1 \<le> INT_MAX" using i less.prems by simp_all
      from less.hyps [OF this] obtain c where c: "auxsort lt l (i - 1) b = Inr c" "sorted_on lt l (i - 1) c" by blast
      with auxsort_perm [where lt = lt and l = l and u = "i - 1" and a = b] show ?thesis by simp
    qed
    have right: "\<exists>c. auxsort lt (i + 1) u b = Inr c \<and> perm_on (i + 1) u b c \<and> sorted_on lt (i + 1) u c" for b
    proof -
      have "nat (u - (i + 1)) < nat (u - l)" using i by simp
      from less.hyps [OF this less.prems] obtain c where c: "auxsort lt (i + 1) u b = Inr c" "sorted_on lt (i + 1) u c" by blast
      with auxsort_perm [where lt = lt and l = "i + 1" and u = u and a = b] show ?thesis by simp
    qed
    have iu: "i \<le> u" using i by simp
    show ?thesis
    proof (cases "i - l < u - i")
      case True
      obtain b where b: "auxsort lt l (i - 1) a5 = Inr b" "perm_on l (i - 1) a5 b \<and> sorted_on lt l (i - 1) b"
        using left by blast
      obtain c where c: "auxsort lt (i + 1) u b = Inr c" "perm_on (i + 1) u b c \<and> sorted_on lt (i + 1) u c"
        using right by blast
      from sides_sorted [OF ord i(1) iu low high b(2) c(2)] show ?thesis
        unfolding round using True b(1) c(1) by simp
    next
      case False
      obtain b where b: "auxsort lt (i + 1) u a5 = Inr b" "perm_on (i + 1) u a5 b \<and> sorted_on lt (i + 1) u b"
        using right by blast
      obtain c where c: "auxsort lt l (i - 1) b = Inr c" "perm_on l (i - 1) b c \<and> sorted_on lt l (i - 1) c"
        using left by blast
      from sides_sorted' [OF ord i(1) iu low high b(2) c(2)] show ?thesis
        unfolding round using False b(1) c(1) by simp
    qed
  qed
qed


section \<open>insert, remove, concat, pack and unpack\<close>

type_synonym 'v tab = "int \<Rightarrow> 'v option"

function move_up :: "'v tab \<Rightarrow> int \<Rightarrow> int \<Rightarrow> 'v tab" where
  "move_up t i pos = (if pos < i then move_up (t(i := t (i - 1))) (i - 1) pos else t)"
  by auto
termination by (relation "measure (\<lambda>(t, i, pos). nat (i - pos))") auto

function move_down :: "'v tab \<Rightarrow> int \<Rightarrow> int \<Rightarrow> 'v tab" where
  "move_down t pos n = (if pos < n then move_down (t(pos := t (pos + 1))) (pos + 1) n else t)"
  by auto
termination by (relation "measure (\<lambda>(t, pos, n). nat (n - pos))") auto

declare move_up.simps [simp del] move_down.simps [simp del]

text \<open>nargs (lua_gettop) is the number of arguments; with two there is no position, and pos is not used.\<close>

definition tinsert :: "nat \<Rightarrow> 'v tab \<Rightarrow> int \<Rightarrow> int \<Rightarrow> 'v option \<Rightarrow> tab_error + 'v tab" where
  "tinsert nargs t n pos v =
     (let e = n + 1
      in if nargs = 2 then Inr (t(e := v))
         else if nargs = 3 then
           (if 1 \<le> pos \<and> pos \<le> e then Inr ((move_up t e pos)(pos := v)) else Inl PositionOutOfBounds)
         else Inl WrongArguments)"

definition tremove :: "'v tab \<Rightarrow> int \<Rightarrow> int option \<Rightarrow> tab_error + 'v option \<times> 'v tab" where
  "tremove t n p =
     (let pos = (case p of None \<Rightarrow> n | Some x \<Rightarrow> x)
      in if pos \<noteq> n \<and> \<not> (1 \<le> pos \<and> pos \<le> n + 1) then Inl PositionOutOfBounds
         else Inr (t pos, (move_down t pos n)(max pos n := None)))"

definition addfield :: "('v option \<Rightarrow> byte list option) \<Rightarrow> 'v tab \<Rightarrow> int \<Rightarrow> tab_error + byte list" where
  "addfield str t i = (case str (t i) of None \<Rightarrow> Inl (InvalidValue i) | Some s \<Rightarrow> Inr s)"

function concat_loop ::
  "('v option \<Rightarrow> byte list option) \<Rightarrow> byte list \<Rightarrow> 'v tab \<Rightarrow> int \<Rightarrow> int \<Rightarrow> tab_error + byte list" where
  "concat_loop str sep t i m =
     (if i < m then
        bindE (addfield str t i) (\<lambda>s. bindE (concat_loop str sep t (i + 1) m) (\<lambda>r. Inr (s @ sep @ r)))
      else if i = m then addfield str t i
      else Inr [])"
  by pat_completeness auto
termination by (relation "measure (\<lambda>(str, sep, t, i, m). nat (m - i))") auto

declare concat_loop.simps [simp del]

definition tconcat ::
  "('v option \<Rightarrow> byte list option) \<Rightarrow> 'v tab \<Rightarrow> int \<Rightarrow> byte list option \<Rightarrow> int option \<Rightarrow> int option \<Rightarrow> tab_error + byte list" where
  "tconcat str t n sep i j =
     concat_loop str (case sep of None \<Rightarrow> [] | Some s \<Rightarrow> s) t (case i of None \<Rightarrow> 1 | Some x \<Rightarrow> x)
       (case j of None \<Rightarrow> n | Some x \<Rightarrow> x)"

text \<open>The arguments from the second on are on the stack, the last one on top.\<close>

fun pack_loop :: "'v tab \<Rightarrow> int \<Rightarrow> 'v option list \<Rightarrow> 'v tab" where
  "pack_loop t i [] = t"
| "pack_loop t i (v # st) = (if 2 \<le> i then pack_loop (t(i := v)) (i - 1) st else t)"

definition pack :: "'v option list \<Rightarrow> int \<times> 'v tab" where
  "pack args =
     (let n = int (length args)
      in (n, if 0 < n then pack_loop ((\<lambda>_. None)(1 := hd args)) n (rev (tl args)) else (\<lambda>_. None)))"

function unpack_from :: "'v tab \<Rightarrow> int \<Rightarrow> int \<Rightarrow> 'v option list" where
  "unpack_from t i e = (if i < e then t (i + 1) # unpack_from t (i + 1) e else [])"
  by auto
termination by (relation "measure (\<lambda>(t, i, e). nat (e - i))") auto

declare unpack_from.simps [simp del]

text \<open>The number of results is computed in an int; room says whether the stack can grow by it.\<close>

definition unpack ::
  "(int \<Rightarrow> bool) \<Rightarrow> 'v tab \<Rightarrow> uint32 \<Rightarrow> uint32 option \<Rightarrow> uint32 option \<Rightarrow> tab_error + uint32 \<times> 'v option list" where
  "unpack room t len i e =
     (let i1 = (case i of None \<Rightarrow> 1 | Some x \<Rightarrow> x); e1 = (case e of None \<Rightarrow> len | Some x \<Rightarrow> x);
          n = e1 - i1 + 1
      in if sint e1 < sint i1 then Inr (0, [])
         else if sint n \<le> 0 \<or> \<not> room (sint n) then Inl TooManyResults
         else Inr (n, t (sint i1) # unpack_from t (sint i1) (sint e1)))"

lemma move_up_at: "move_up t i pos k = (if pos < k \<and> k \<le> i then t (k - 1) else t k)"
proof (induction t i pos rule: move_up.induct)
  case (1 t i pos)
  show ?case
  proof (cases "pos < i")
    case True
    have "move_up t i pos k = move_up (t(i := t (i - 1))) (i - 1) pos k"
      using True by (subst move_up.simps) simp
    then show ?thesis using 1 [OF True] True by auto
  next
    case False
    then have "move_up t i pos = t" by (subst move_up.simps) simp
    with False show ?thesis by auto
  qed
qed

lemma move_down_at: "move_down t pos n k = (if pos \<le> k \<and> k < n then t (k + 1) else t k)"
proof (induction t pos n rule: move_down.induct)
  case (1 t pos n)
  show ?case
  proof (cases "pos < n")
    case True
    have "move_down t pos n k = move_down (t(pos := t (pos + 1))) (pos + 1) n k"
      using True by (subst move_down.simps) simp
    then show ?thesis using 1 [OF True] True by auto
  next
    case False
    then have "move_down t pos n = t" by (subst move_down.simps) simp
    with False show ?thesis by auto
  qed
qed

lemma length_unpack_from: "length (unpack_from t i e) = nat (e - i)"
proof (induction t i e rule: unpack_from.induct)
  case (1 t i e)
  then show ?case by (subst unpack_from.simps) (auto simp: nat_eq_iff)
qed

lemma nth_unpack_from: "k < nat (e - i) \<Longrightarrow> unpack_from t i e ! k = t (i + 1 + int k)"
proof (induction t i e arbitrary: k rule: unpack_from.induct)
  case (1 t i e)
  then have lt: "i < e" by simp
  show ?case
  proof (cases k)
    case 0
    then show ?thesis using lt by (subst unpack_from.simps) simp
  next
    case (Suc m)
    then have "m < nat (e - (i + 1))" using 1(2) by simp
    from 1(1) [OF lt this] show ?thesis using lt Suc by (subst unpack_from.simps) (simp add: algebra_simps)
  qed
qed

section \<open>Properties\<close>

text \<open>
  Table.sort with any comparison function, consistent or not. It ends; it either reports the
  invalid order function or leaves a permutation of the elements 1 to n, and it touches nothing else.
  The sum of two indices overflows only above 2^30 elements.
\<close>

theorem sort_permutes:
  "case tsort lt n a of
     Inl e \<Rightarrow> e = InvalidOrder \<or> (e = IntOverflow \<and> 2 ^ 30 < n)
   | Inr b \<Rightarrow> image_mset b (mset_set {1..n}) = image_mset a (mset_set {1..n}) \<and> (\<forall>k. k < 1 \<or> n < k \<longrightarrow> b k = a k)"
  using auxsort_perm [where lt = lt and l = 1 and u = n and a = a]
  by (auto simp: tsort_def perm_on_def contents_def INT_MAX_def split: sum.splits)

theorem sort_permutes_witness:
  "(\<exists>e. tsort (\<lambda>x y. True) 5 (\<lambda>k. k) = Inl e \<and> e = InvalidOrder) \<and>
   (\<exists>b. tsort (\<lambda>x y. False) 5 (\<lambda>k. 6 - k) = Inr b \<and>
      image_mset b (mset_set {1..5}) = image_mset (\<lambda>k. 6 - k) (mset_set {1..5}))"
proof
  have "\<not> isl (tsort (\<lambda>x y. False) 5 (\<lambda>k. 6 - k))" by code_simp
  then obtain b where "tsort (\<lambda>x y. False) 5 (\<lambda>k. 6 - k) = Inr b" by (metis sum.collapse(2))
  then show "\<exists>b. tsort (\<lambda>x y. False) 5 (\<lambda>k. 6 - k) = Inr b \<and>
      image_mset b (mset_set {1..5}) = image_mset (\<lambda>k. 6 - k) (mset_set {1..5})"
    using sort_permutes [where lt = "\<lambda>x y. False" and n = 5 and a = "\<lambda>k. 6 - k"] by simp
  have "isl (tsort (\<lambda>x y. True) 5 (\<lambda>k. k))" by code_simp
  then obtain e where "tsort (\<lambda>x y. True) 5 (\<lambda>k. k) = Inl e" by (metis sum.collapse(1))
  then show "\<exists>e. tsort (\<lambda>x y. True) 5 (\<lambda>k. k) = Inl e \<and> e = InvalidOrder"
    using sort_permutes [where lt = "\<lambda>x y. True" and n = 5 and a = "\<lambda>k. k"] by simp
qed

text \<open>
  C12: table.sort with a valid order function (a strict weak order) sorts: it never reports an invalid
  order function, and no element is less than an earlier one.
\<close>

theorem sort_sorts:
  assumes "\<forall>x y. lt x y \<longrightarrow> \<not> lt y x" and "\<forall>x y z. \<not> lt y x \<longrightarrow> \<not> lt z y \<longrightarrow> \<not> lt z x" and "n \<le> 2 ^ 30"
  shows "\<exists>b. tsort lt n a = Inr b \<and> (\<forall>i j. 1 \<le> i \<and> i < j \<and> j \<le> n \<longrightarrow> \<not> lt (b j) (b i)) \<and>
    image_mset b (mset_set {1..n}) = image_mset a (mset_set {1..n})"
proof -
  have "order_function lt" using assms(1,2) unfolding order_function_def by blast
  from auxsort_sorted [OF this, of n 1 a] assms(3) obtain b where b: "tsort lt n a = Inr b" "sorted_on lt 1 n b"
    by (auto simp: tsort_def INT_MAX_def)
  with auxsort_perm [where lt = lt and l = 1 and u = n and a = a] show ?thesis
    by (auto simp: sorted_on_def tsort_def perm_on_def contents_def)
qed


theorem sort_sorts_witness:
  "\<exists>b. tsort (\<lambda>x y. x < y) 5 (\<lambda>k. if k = 1 then 4 else if k = 4 then 1 else (7 - k :: int)) = Inr b \<and>
     map b [1..5] = [1, 2, 4, 4, 5]"
proof -
  let ?a = "\<lambda>k. if k = 1 then 4 else if k = 4 then 1 else (7 - k :: int)"
  have "\<exists>b. tsort (\<lambda>x y. x < y) 5 ?a = Inr b \<and> (\<forall>i j. 1 \<le> i \<and> i < j \<and> j \<le> 5 \<longrightarrow> \<not> b j < b i) \<and>
      image_mset b (mset_set {1..5}) = image_mset ?a (mset_set {1..5})"
    by (rule sort_sorts) auto
  then obtain b where b: "tsort (\<lambda>x y. x < y) 5 ?a = Inr b" by blast
  have "map_sum (\<lambda>x. x) (\<lambda>f. map f [1..5]) (tsort (\<lambda>x y. x < y) 5 ?a) = Inr [1, 2, 4, 4, 5]" by code_simp
  with b show ?thesis by simp
qed

text \<open>
  Insert and remove as operations on the sequence of elements: insert puts the value at its
  position and moves the rest up by one, remove with the same position returns the value and gives
  the table back as it was.
\<close>

definition elements :: "'v tab \<Rightarrow> int \<Rightarrow> 'v option list" where
  "elements t n = map (\<lambda>k. t (int k + 1)) [0..<nat n]"

lemma nth_elements: "k < nat n \<Longrightarrow> elements t n ! k = t (int k + 1)"
  by (simp add: elements_def)

lemma length_elements: "length (elements t n) = nat n"
  by (simp add: elements_def)

theorem insert_then_remove:
  assumes "1 \<le> pos" and "pos \<le> n + 1" and "t (n + 1) = None"
  shows "\<exists>t'. tinsert 3 t n pos v = Inr t' \<and>
    elements t' (n + 1) = take (nat pos - 1) (elements t n) @ v # drop (nat pos - 1) (elements t n) \<and>
    tremove t' (n + 1) (Some pos) = Inr (v, t)"
proof -
  let ?t' = "(move_up t (n + 1) pos)(pos := v)"
  have at: "?t' k = (if k = pos then v else if pos < k \<and> k \<le> n + 1 then t (k - 1) else t k)" for k
    by (simp add: move_up_at)
  have "elements ?t' (n + 1) = take (nat pos - 1) (elements t n) @ v # drop (nat pos - 1) (elements t n)"
  proof (rule nth_equalityI)
    show "length (elements ?t' (n + 1)) = length (take (nat pos - 1) (elements t n) @ v # drop (nat pos - 1) (elements t n))"
      using assms(1,2) by (simp add: length_elements nat_add_distrib)
    fix k assume "k < length (elements ?t' (n + 1))"
    then have k: "k < nat (n + 1)" by (simp add: length_elements)
    then have l: "elements ?t' (n + 1) ! k = ?t' (int k + 1)" by (rule nth_elements)
    define A where "A = take (nat pos - 1) (elements t n)"
    have len: "length A = nat pos - 1" using assms(1,2) by (simp add: A_def length_elements)
    consider "k < nat pos - 1" | "k = nat pos - 1" | "nat pos - 1 < k" by linarith
    then show "elements ?t' (n + 1) ! k = (take (nat pos - 1) (elements t n) @ v # drop (nat pos - 1) (elements t n)) ! k"
    proof cases
      case 1
      then have "int k + 1 < pos" "k < nat n" using assms(1,2) by auto
      moreover have "A ! k = elements t n ! k" using 1 by (simp add: A_def)
      ultimately show ?thesis unfolding l at A_def [symmetric] using 1 by (simp add: nth_append len nth_elements)
    next
      case 2
      then have "int k + 1 = pos" using assms(1) by simp
      with 2 show ?thesis unfolding l at A_def [symmetric] by (simp add: nth_append len)
    next
      case 3
      then have p: "pos < int k + 1" "int k + 1 \<le> n + 1" "k - 1 < nat n" "0 < k" using assms(1) k by auto
      then have i: "k - (nat pos - 1) = Suc (k - nat pos)" "nat pos - 1 + (k - nat pos) = k - 1"
        using 3 assms(1) by auto
      have "drop (nat pos - 1) (elements t n) ! (k - nat pos) = elements t n ! (k - 1)"
        using i(2) assms(2) by (subst nth_drop) (auto simp: length_elements)
      moreover have "int (k - 1) + 1 = int k" using p(4) by simp
      moreover have "k - Suc (nat pos - Suc 0) = k - nat pos" using assms(1) by simp
      ultimately show ?thesis
        unfolding l at A_def [symmetric] using p 3 by (simp add: nth_append len i(1) nth_elements del: of_nat_diff)
    qed
  qed
  moreover have "(move_down ?t' pos (n + 1))(max pos (n + 1) := None) = t"
    using assms by (auto simp: fun_eq_iff move_down_at move_up_at max_def)
  moreover have "?t' pos = v" by simp
  ultimately show ?thesis
    using assms by (intro exI [of _ ?t']) (simp add: tinsert_def tremove_def)
qed

theorem insert_then_remove_witness:
  "\<exists>t'. tinsert 3 (\<lambda>k. if 1 \<le> k \<and> k \<le> 3 then Some k else None) 3 2 (Some 9) = Inr t' \<and>
     elements t' 4 = [Some 1, Some 9, Some 2, Some 3]"
proof -
  let ?t = "\<lambda>k :: int. if 1 \<le> k \<and> k \<le> 3 then Some k else None"
  have "\<exists>t'. tinsert 3 ?t 3 2 (Some 9) = Inr t' \<and>
      elements t' (3 + 1) = take (nat 2 - 1) (elements ?t 3) @ Some 9 # drop (nat 2 - 1) (elements ?t 3) \<and>
      tremove t' (3 + 1) (Some 2) = Inr (Some 9, ?t)"
    by (rule insert_then_remove) auto
  moreover have "elements ?t 3 = [Some 1, Some 2, Some 3]" by code_simp
  ultimately show ?thesis by auto
qed

text \<open>
  Unpack with any two positions of an int. The number of results is computed with wrap-around,
  but the test for a number that is not positive catches every range that is too long: the call fails
  exactly when there are more than INT_MAX results or no room for them, and otherwise returns
  exactly the elements of the range.
\<close>

theorem unpack_exact:
  "unpack room t len (Some i) (Some e) =
     (let c = sint e - sint i + 1
      in if c \<le> 0 then Inr (0, [])
         else if INT_MAX < c \<or> \<not> room c then Inl TooManyResults
         else Inr (word_of_int c, map (\<lambda>k. t (sint i + int k)) [0..<nat c]))"
proof -
  define c where "c = sint e - sint i + 1"
  have n: "e - i + 1 = word_of_int c" by (simp add: c_def)
  have range: "c \<le> 2 ^ 32" using sint_less [of e] sint_ge [of i] by (simp add: c_def)
  have s: "sint (word_of_int c :: uint32) = signed_take_bit 31 c" by (simp add: sint_sbintrunc')
  show ?thesis
  proof (cases "c \<le> 0")
    case True
    then show ?thesis by (simp add: unpack_def c_def)
  next
    case pos: False
    show ?thesis
    proof (cases "INT_MAX < c")
      case True
      have "signed_take_bit 31 c = signed_take_bit 31 (c - 2 ^ 32)"
        by (subst signed_take_bit_eq_iff_take_bit_eq) (simp add: take_bit_eq_mod)
      also have "\<dots> = c - 2 ^ 32"
        by (rule signed_take_bit_int_eq_self) (use True range in \<open>auto simp: INT_MAX_def\<close>)
      finally have "sint (e - i + 1) \<le> 0" unfolding n s using range by simp
      then show ?thesis using pos True by (simp add: unpack_def c_def Let_def)
    next
      case False
      then have sc: "sint (word_of_int c :: uint32) = c" unfolding s using pos
        by (intro signed_take_bit_int_eq_self) (auto simp: INT_MAX_def)
      have ge: "\<not> sint e < sint i" using pos by (simp add: c_def)
      have "t (sint i) # unpack_from t (sint i) (sint e) = map (\<lambda>k. t (sint i + int k)) [0..<nat c]"
      proof (rule nth_equalityI)
        show "length (t (sint i) # unpack_from t (sint i) (sint e)) = length (map (\<lambda>k. t (sint i + int k)) [0..<nat c])"
          using pos by (simp add: length_unpack_from c_def nat_eq_iff)
        fix k assume "k < length (t (sint i) # unpack_from t (sint i) (sint e))"
        then have "k \<le> nat (sint e - sint i)" by (simp add: length_unpack_from)
        moreover then have "k < nat c" using pos by (auto simp: c_def)
        ultimately show "(t (sint i) # unpack_from t (sint i) (sint e)) ! k = map (\<lambda>k. t (sint i + int k)) [0..<nat c] ! k"
          by (cases k) (simp_all add: nth_unpack_from algebra_simps)
      qed
      then show ?thesis
        unfolding unpack_def option.case Let_def n sc c_def [symmetric] if_not_P [OF ge] if_not_P [OF pos]
        using pos False by simp
    qed
  qed
qed

end
